(* ===== verification/Prelude.thy ===== *)
theory Prelude
  imports "HOL-Library.Word" "HOL-Library.Char_ord" "HOL-Library.List_Lexorder"
    "HOL-Library.Sublist" "HOL-Library.Multiset"
begin

section \<open>Prelude: names, collections and generic lemmas\<close>

text \<open>
  What every theory of the development shares: the machine integers of Go
  under their Go names, the result type of a fallible Go function, the named
  collections the components add their rewrite rules to, and lemmas on lists,
  options and sorting that more than one component needs.

  A Go string is an immutable sequence of bytes, and so is \<^typ>\<open>string\<close> here:
  a \<^typ>\<open>char\<close> is one byte. Go compares strings byte by byte, which is the
  lexicographic order that \<open>List_Lexorder\<close> and \<open>Char_ord\<close> give.
\<close>

type_synonym uint8 = "8 word"
type_synonym uint16 = "16 word"
type_synonym uint32 = "32 word"
type_synonym uint64 = "64 word"

text \<open>A Go function that returns \<open>(value, error)\<close>: \<open>Inl\<close> is the error.\<close>

type_synonym ('e, 'a) res = "'e + 'a"

named_theorems golib \<open>rewrite rules of the Go standard library's model\<close>
named_theorems netip_simps \<open>rewrite rules of addresses and prefixes\<close>
named_theorems proto_simps \<open>rewrite rules of the rule schema\<close>

subsection \<open>Results\<close>

definition is_ok :: "('e, 'a) res \<Rightarrow> bool" where
  "is_ok r = (case r of Inl _ \<Rightarrow> False | Inr _ \<Rightarrow> True)"

lemma is_ok_simps [simp]: "is_ok (Inr x)" "\<not> is_ok (Inl e)"
  by (simp_all add: is_ok_def)

text \<open>The checks of a Go function that returns an error early, in their order.\<close>

fun first_err :: "'e option list \<Rightarrow> 'e option" where
  "first_err [] = None"
| "first_err (None # cs) = first_err cs"
| "first_err (Some e # cs) = Some e"

lemma first_err_None_iff [simp]: "first_err cs = None \<longleftrightarrow> (\<forall>c \<in> set cs. c = None)"
  by (induction cs rule: first_err.induct) auto

lemma first_err_Some_mem: "first_err cs = Some e \<Longrightarrow> Some e \<in> set cs"
  by (induction cs rule: first_err.induct) auto

subsection \<open>Bounds of machine integers\<close>

lemma unat_lt2p: "unat (w :: 'a::len word) < 2 ^ LENGTH('a)"
  by (rule unsigned_less)

lemma unat_uint16: "unat (w :: uint16) < 65536"
  using unat_lt2p [of w] by simp

lemma unat_uint32: "unat (w :: uint32) < 4294967296"
  using unat_lt2p [of w] by simp

lemma unat_word_of_nat16: "n < 65536 \<Longrightarrow> unat (word_of_nat n :: uint16) = n"
  by (simp add: unat_of_nat take_bit_nat_eq_self)

lemma unat_word_of_nat32: "n < 4294967296 \<Longrightarrow> unat (word_of_nat n :: uint32) = n"
  by (simp add: unat_of_nat take_bit_nat_eq_self)

subsection \<open>Lists\<close>

text \<open>A Go loop that appends an element unless the slice already holds it.\<close>

definition add_new :: "'a list \<Rightarrow> 'a \<Rightarrow> 'a list" where
  "add_new out x = (if x \<in> set out then out else out @ [x])"

lemma set_foldl_add_new: "set (foldl add_new out xs) = set out \<union> set xs"
  by (induction xs arbitrary: out) (auto simp: add_new_def)

lemma distinct_foldl_add_new: "distinct out \<Longrightarrow> distinct (foldl add_new out xs)"
  by (induction xs arbitrary: out) (auto simp: add_new_def)

lemma foldl_add_new_prefix: "\<exists>ys. foldl add_new out xs = out @ ys \<and> set ys \<subseteq> set xs"
proof (induction xs arbitrary: out)
  case (Cons x xs)
  from Cons.IH [of "add_new out x"] show ?case by (auto simp: add_new_def)
qed simp

lemma foldl_add_new_id: "distinct (out @ xs) \<Longrightarrow> foldl add_new out xs = out @ xs"
proof (induction xs arbitrary: out)
  case (Cons x xs)
  then show ?case by (simp add: add_new_def)
qed simp

text \<open>Two sorted lists over the same multiset whose keys are distinct are equal.\<close>

lemma sort_key_perm_unique:
  assumes "mset xs = mset ys" and "inj_on f (set xs)"
  shows "sort_key f xs = sort_key f ys"
  using assms by (metis mset_sort sort_key_inj_key_eq sorted_sort_key)

lemma find_inj_iff:
  "inj_on f (set xs) \<Longrightarrow> find (\<lambda>x. f x = k) xs = Some y \<longleftrightarrow> y \<in> set xs \<and> f y = k"
  by (induction xs) (auto simp: inj_on_def)

end
