(* ===== verification/GoLib.thy ===== *)
theory GoLib
  imports Prelude
begin

section \<open>The Go standard library: strings, numbers and UTF-8\<close>

text \<open>
  The functions of the packages \<open>strings\<close>, \<open>strconv\<close>, \<open>fmt\<close>, \<open>unicode\<close> and
  \<open>unicode/utf8\<close> that the modelled code calls, written out on byte strings.
  They carry no source lines of the repository: they are the language's own
  library, and the components are stated over them. The one table that is
  left open is \<open>unicode.IsGraphic\<close> above Latin-1: it is the argument
  \<open>graphic\<close> of the definitions that use it.
\<close>

subsection \<open>Bytes and digits\<close>

abbreviation byte :: "char \<Rightarrow> nat" where
  "byte c \<equiv> of_char c"

definition is_digit :: "char \<Rightarrow> bool" where
  "is_digit c = (48 \<le> byte c \<and> byte c \<le> 57)"

definition digit_char :: "nat \<Rightarrow> char" where
  "digit_char d = char_of (48 + d)"

definition digit_val :: "char \<Rightarrow> nat" where
  "digit_val c = byte c - 48"

lemma byte_digit_char [simp]: "d < 10 \<Longrightarrow> byte (digit_char d) = 48 + d"
  by (simp add: digit_char_def)

lemma is_digit_digit_char [simp]: "d < 10 \<Longrightarrow> is_digit (digit_char d)"
  by (simp add: is_digit_def)

lemma digit_val_digit_char [simp]: "d < 10 \<Longrightarrow> digit_val (digit_char d) = d"
  by (simp add: digit_val_def)

lemma digit_neq [simp]:
  "is_digit c \<Longrightarrow> c \<noteq> CHR ''-''" "is_digit c \<Longrightarrow> c \<noteq> CHR '':''"
  "is_digit c \<Longrightarrow> c \<noteq> CHR ''/''" "is_digit c \<Longrightarrow> c \<noteq> CHR ''.''"
  "is_digit c \<Longrightarrow> c \<noteq> CHR ''[''" "is_digit c \<Longrightarrow> c \<noteq> CHR '']''"
  "is_digit c \<Longrightarrow> c \<noteq> CHR ''+''"
  by (auto simp: is_digit_def)

subsection \<open>strconv: Itoa and ParseUint in base 10\<close>

fun itoa :: "nat \<Rightarrow> string" where
  "itoa n = (if n < 10 then [digit_char n] else itoa (n div 10) @ [digit_char (n mod 10)])"

declare itoa.simps [simp del]

definition digits_val :: "string \<Rightarrow> nat" where
  "digits_val s = foldl (\<lambda>a c. a * 10 + digit_val c) 0 s"

definition parseUint :: "nat \<Rightarrow> string \<Rightarrow> nat option" where
  "parseUint bits s =
     (if s = [] \<or> \<not> list_all is_digit s then None
      else if digits_val s < 2 ^ bits then Some (digits_val s) else None)"

lemma itoa_digits: "list_all is_digit (itoa n)"
proof (induction n rule: itoa.induct)
  case (1 n)
  then show ?case by (subst itoa.simps) simp
qed

lemma itoa_not_Nil [simp]: "itoa n \<noteq> []"
  by (subst itoa.simps) simp

lemma digits_val_itoa [simp]: "digits_val (itoa n) = n"
proof (induction n rule: itoa.induct)
  case (1 n)
  show ?case
  proof (cases "n < 10")
    case True
    then show ?thesis by (subst itoa.simps) (simp add: digits_val_def)
  next
    case False
    with "1.IH" have "digits_val (itoa (n div 10)) = n div 10" by simp
    with False show ?thesis by (subst itoa.simps) (simp add: digits_val_def)
  qed
qed

lemma itoa_char_digit: "c \<in> set (itoa n) \<Longrightarrow> is_digit c"
  using itoa_digits by (simp add: list_all_iff)

lemma itoa_no_sep [simp]:
  "CHR ''-'' \<notin> set (itoa n)" "CHR '':'' \<notin> set (itoa n)" "CHR ''/'' \<notin> set (itoa n)"
  "CHR ''['' \<notin> set (itoa n)" "CHR '']'' \<notin> set (itoa n)"
  using itoa_char_digit digit_neq by metis+

lemma itoa_inject [simp]: "itoa m = itoa n \<longleftrightarrow> m = n"
  by (metis digits_val_itoa)

lemma parseUint_itoa [simp]: "n < 2 ^ b \<Longrightarrow> parseUint b (itoa n) = Some n"
  by (simp add: parseUint_def itoa_digits)

lemma parseUint_bound: "parseUint b s = Some n \<Longrightarrow> n < 2 ^ b"
  by (auto simp: parseUint_def split: if_splits)

text \<open>Go's integer division truncates toward zero.\<close>

definition go_div :: "int \<Rightarrow> int \<Rightarrow> int" where
  "go_div a b = sgn a * sgn b * (\<bar>a\<bar> div \<bar>b\<bar>)"

text \<open>An \<open>int64\<close> kept as an integer: the value after the wrap-around.\<close>

definition wrap64 :: "int \<Rightarrow> int" where
  "wrap64 n = (n + 2 ^ 63) mod 2 ^ 64 - 2 ^ 63"

lemma wrap64_id: "- (2 ^ 63) \<le> n \<Longrightarrow> n < 2 ^ 63 \<Longrightarrow> wrap64 n = n"
  by (simp add: wrap64_def)

text \<open>The verb \<open>%d\<close> and \<open>strconv.Itoa\<close> on a signed value.\<close>

definition itoa_int :: "int \<Rightarrow> string" where
  "itoa_int n = (if n < 0 then ''-'' @ itoa (nat (- n)) else itoa (nat n))"

lemma itoa_int_of_nat [simp]: "itoa_int (int n) = itoa n"
  by (simp add: itoa_int_def)

subsection \<open>strings: Cut, LastIndex, TrimSpace, Split, Join\<close>

text \<open>\<open>strings.Cut\<close> around a one-byte separator; the flag says whether it was found.\<close>

fun cut :: "char \<Rightarrow> string \<Rightarrow> string \<times> string \<times> bool" where
  "cut sep [] = ([], [], False)"
| "cut sep (c # s) =
     (if c = sep then ([], s, True)
      else case cut sep s of (a, b, f) \<Rightarrow> (c # a, b, f))"

lemma cut_absent: "sep \<notin> set s \<Longrightarrow> cut sep s = (s, [], False)"
  by (induction s) auto

lemma cut_append [simp]: "sep \<notin> set a \<Longrightarrow> cut sep (a @ sep # b) = (a, b, True)"
  by (induction a) auto

text \<open>The position of the first and of the last occurrence of a byte.\<close>

fun indexByte :: "char \<Rightarrow> string \<Rightarrow> nat option" where
  "indexByte x [] = None"
| "indexByte x (c # s) = (if c = x then Some 0 else map_option Suc (indexByte x s))"

definition lastIndexByte :: "char \<Rightarrow> string \<Rightarrow> nat option" where
  "lastIndexByte x s = map_option (\<lambda>i. length s - Suc i) (indexByte x (rev s))"

lemma indexByte_None_iff: "indexByte x s = None \<longleftrightarrow> x \<notin> set s"
  by (induction s) auto

lemma indexByte_append_absent:
  "x \<notin> set a \<Longrightarrow> indexByte x (a @ b) = map_option (\<lambda>i. length a + i) (indexByte x b)"
  by (cases "indexByte x b") (induction a; auto)+

lemma indexByte_append [simp]: "x \<notin> set a \<Longrightarrow> indexByte x (a @ x # b) = Some (length a)"
  by (simp add: indexByte_append_absent)

lemma lastIndexByte_append [simp]:
  "x \<notin> set b \<Longrightarrow> lastIndexByte x (a @ x # b) = Some (length a)"
  by (simp add: lastIndexByte_def)

text \<open>
  The encodings of the white space of \<open>unicode.IsSpace\<close>. \<open>strings.TrimSpace\<close>
  removes them from both ends; a valid UTF-8 encoding can be recognised from
  either end, so removing encoded prefixes and suffixes is what it does.
\<close>

definition space_encs :: "string list" where
  "space_encs =
     [[CHR 0x09], [CHR 0x0A], [CHR 0x0B], [CHR 0x0C], [CHR 0x0D], [CHR 0x20],
      [CHR 0xC2, CHR 0x85], [CHR 0xC2, CHR 0xA0],
      [CHR 0xE1, CHR 0x9A, CHR 0x80],
      [CHR 0xE2, CHR 0x80, CHR 0x80], [CHR 0xE2, CHR 0x80, CHR 0x81],
      [CHR 0xE2, CHR 0x80, CHR 0x82], [CHR 0xE2, CHR 0x80, CHR 0x83],
      [CHR 0xE2, CHR 0x80, CHR 0x84], [CHR 0xE2, CHR 0x80, CHR 0x85],
      [CHR 0xE2, CHR 0x80, CHR 0x86], [CHR 0xE2, CHR 0x80, CHR 0x87],
      [CHR 0xE2, CHR 0x80, CHR 0x88], [CHR 0xE2, CHR 0x80, CHR 0x89],
      [CHR 0xE2, CHR 0x80, CHR 0x8A], [CHR 0xE2, CHR 0x80, CHR 0xA8],
      [CHR 0xE2, CHR 0x80, CHR 0xA9], [CHR 0xE2, CHR 0x80, CHR 0xAF],
      [CHR 0xE2, CHR 0x81, CHR 0x9F], [CHR 0xE3, CHR 0x80, CHR 0x80]]"

text \<open>Strip prefixes of the list \<open>encs\<close> as long as one matches; every encoding is nonempty.\<close>

definition match_enc :: "string list \<Rightarrow> string \<Rightarrow> nat" where
  "match_enc encs s = (case find (\<lambda>e. e \<noteq> [] \<and> prefix e s) encs of None \<Rightarrow> 0 | Some e \<Rightarrow> length e)"

lemma match_enc_le: "match_enc encs s \<le> length s"
  by (auto simp: match_enc_def find_Some_iff prefix_length_le split: option.splits)

function strip_encs :: "string list \<Rightarrow> string \<Rightarrow> string" where
  "strip_encs encs s = (let k = match_enc encs s in if k = 0 then s else strip_encs encs (drop k s))"
  by pat_completeness auto
termination
proof (relation "measure (\<lambda>(encs, s). length s)")
  show "wf (measure (\<lambda>(encs :: string list, s :: string). length s))" by simp
next
  fix encs :: "string list" and s :: string and k
  assume "k = match_enc encs s" "k \<noteq> 0"
  moreover have "match_enc encs s \<le> length s" by (rule match_enc_le)
  ultimately show "((encs, drop k s), encs, s) \<in> measure (\<lambda>(encs, s). length s)"
    by auto
qed

declare strip_encs.simps [simp del]

definition trimSpace :: "string \<Rightarrow> string" where
  "trimSpace s = rev (strip_encs (map rev space_encs) (rev (strip_encs space_encs s)))"

lemma strip_encs_id: "match_enc encs s = 0 \<Longrightarrow> strip_encs encs s = s"
  by (simp add: strip_encs.simps)

lemma match_enc_0: "\<forall>e \<in> set encs. e = [] \<or> \<not> prefix e s \<Longrightarrow> match_enc encs s = 0"
  by (auto simp: match_enc_def find_Some_iff split: option.splits)

text \<open>A string of printable ASCII bytes at both ends is not trimmed.\<close>

definition ascii_graph :: "char \<Rightarrow> bool" where
  "ascii_graph c = (0x21 \<le> byte c \<and> byte c \<le> 0x7E)"

lemma is_digit_ascii_graph: "is_digit c \<Longrightarrow> ascii_graph c"
  by (simp add: is_digit_def ascii_graph_def)

lemma space_encs_ends:
  "e \<in> set space_encs \<Longrightarrow> e \<noteq> [] \<and> \<not> ascii_graph (hd e) \<and> \<not> ascii_graph (last e)"
  unfolding space_encs_def by (auto simp: ascii_graph_def)

lemma trimSpace_id:
  assumes "s = [] \<or> ascii_graph (hd s) \<and> ascii_graph (last s)"
  shows "trimSpace s = s"
proof -
  have 1: "\<not> prefix e s" if "e \<in> set space_encs" for e
    using that assms space_encs_ends [OF that] by (auto simp: prefix_def)
  have 2: "\<not> prefix (rev e) (rev s)" if "e \<in> set space_encs" for e
    using that assms space_encs_ends [OF that] by (auto simp: prefix_def rev_eq_append_conv)
  from 1 have "strip_encs space_encs s = s"
    by (intro strip_encs_id match_enc_0) auto
  moreover from 2 have "strip_encs (map rev space_encs) (rev s) = rev s"
    by (intro strip_encs_id match_enc_0) auto
  ultimately show ?thesis by (simp add: trimSpace_def)
qed

lemma trimSpace_digits [simp]: "list_all is_digit s \<Longrightarrow> trimSpace s = s"
  by (rule trimSpace_id) (auto simp: list_all_iff is_digit_ascii_graph)

lemma trimSpace_itoa [simp]: "trimSpace (itoa n) = itoa n"
  by (simp add: itoa_digits)

text \<open>\<open>strings.Split\<close> at every occurrence of a one-byte separator, and \<open>strings.Join\<close>.\<close>

fun splitByte :: "char \<Rightarrow> string \<Rightarrow> string list" where
  "splitByte sep [] = [[]]"
| "splitByte sep (c # s) =
     (if c = sep then [] # splitByte sep s
      else case splitByte sep s of [] \<Rightarrow> [[c]] | w # ws \<Rightarrow> (c # w) # ws)"

fun joinStrings :: "string \<Rightarrow> string list \<Rightarrow> string" where
  "joinStrings sep [] = []"
| "joinStrings sep [w] = w"
| "joinStrings sep (w # ws) = w @ sep @ joinStrings sep ws"

lemma splitByte_not_Nil [simp]: "splitByte sep s \<noteq> []"
  by (induction s) (auto split: list.splits)

lemma splitByte_absent: "sep \<notin> set s \<Longrightarrow> splitByte sep s = [s]"
  by (induction s) auto

lemma splitByte_append: "sep \<notin> set a \<Longrightarrow> splitByte sep (a @ sep # b) = a # splitByte sep b"
  by (induction a) auto

subsection \<open>unicode/utf8 and the range loop over a string\<close>

text \<open>
  The first byte of an encoding of two to four bytes fixes its length and the
  range of its second byte (Go's \<open>first\<close> and \<open>acceptRanges\<close> tables).
\<close>

definition utf8_seq :: "nat \<Rightarrow> (nat \<times> nat \<times> nat) option" where
  "utf8_seq b =
     (if 0xC2 \<le> b \<and> b \<le> 0xDF then Some (2, 0x80, 0xBF)
      else if b = 0xE0 then Some (3, 0xA0, 0xBF)
      else if b = 0xED then Some (3, 0x80, 0x9F)
      else if 0xE1 \<le> b \<and> b \<le> 0xEF then Some (3, 0x80, 0xBF)
      else if b = 0xF0 then Some (4, 0x90, 0xBF)
      else if 0xF1 \<le> b \<and> b \<le> 0xF3 then Some (4, 0x80, 0xBF)
      else if b = 0xF4 then Some (4, 0x80, 0x8F)
      else None)"

definition utf8_cont :: "char \<Rightarrow> bool" where
  "utf8_cont c = (0x80 \<le> byte c \<and> byte c \<le> 0xBF)"

text \<open>\<open>utf8.DecodeRuneInString\<close>: the rune and its width; an invalid byte is U+FFFD of width 1.\<close>

definition decodeRune :: "string \<Rightarrow> nat \<times> nat" where
  "decodeRune s = (case s of [] \<Rightarrow> (0xFFFD, 0) | c # cs \<Rightarrow>
     (let b = byte c in
      if b < 0x80 then (b, 1)
      else case utf8_seq b of
        None \<Rightarrow> (0xFFFD, 1)
      | Some (n, lo, hi) \<Rightarrow>
          (case cs of [] \<Rightarrow> (0xFFFD, 1) | c1 # rest \<Rightarrow>
             if n - 2 \<le> length rest \<and> lo \<le> byte c1 \<and> byte c1 \<le> hi
                \<and> list_all utf8_cont (take (n - 2) rest)
             then (foldl (\<lambda>a x. a * 64 + byte x mod 64)
                     (b mod (if n = 2 then 32 else if n = 3 then 16 else 8))
                     (c1 # take (n - 2) rest), n)
             else (0xFFFD, 1))))"

lemma utf8_seq_pos: "utf8_seq b = Some (n, lo, hi) \<Longrightarrow> 2 \<le> n \<and> n \<le> 4"
  by (auto simp: utf8_seq_def split: if_splits)

lemma decodeRune_width: "s \<noteq> [] \<Longrightarrow> 0 < snd (decodeRune s)"
  by (auto simp: decodeRune_def Let_def split: list.splits option.splits prod.splits
      dest: utf8_seq_pos)

text \<open>The pairs of byte index and rune that \<open>for i, c := range s\<close> visits.\<close>

function runes_from :: "nat \<Rightarrow> string \<Rightarrow> (nat \<times> nat) list" where
  "runes_from i s =
     (if s = [] then []
      else (i, fst (decodeRune s)) # runes_from (i + snd (decodeRune s)) (drop (snd (decodeRune s)) s))"
  by pat_completeness auto
termination
  by (relation "measure (\<lambda>(i, s). length s)") (auto simp: decodeRune_width)

declare runes_from.simps [simp del]

definition runes :: "string \<Rightarrow> nat list" where
  "runes s = map snd (runes_from 0 s)"

definition runeCount :: "string \<Rightarrow> nat" where
  "runeCount s = length (runes s)"

function validString :: "string \<Rightarrow> bool" where
  "validString s =
     (if s = [] then True
      else decodeRune s \<noteq> (0xFFFD, 1) \<and> validString (drop (snd (decodeRune s)) s))"
  by pat_completeness auto
termination
  by (relation "measure length") (auto simp: decodeRune_width)

declare validString.simps [simp del]

text \<open>\<open>unicode.IsGraphic\<close>: its Latin-1 property table, and the argument above it.\<close>

definition isGraphic :: "(nat \<Rightarrow> bool) \<Rightarrow> nat \<Rightarrow> bool" where
  "isGraphic graphic r =
     (if r \<le> 0xFF then 0x20 \<le> r \<and> r \<le> 0x7E \<or> 0xA0 \<le> r \<and> r \<noteq> 0xAD
      else graphic r)"

lemma decodeRune_ascii: "byte c < 0x80 \<Longrightarrow> decodeRune (c # s) = (byte c, 1)"
  by (simp add: decodeRune_def)

lemma runes_from_Nil [simp]: "runes_from i [] = []"
  by (simp add: runes_from.simps)

lemma runes_from_ascii: "byte c < 0x80 \<Longrightarrow> runes_from i (c # s) = (i, byte c) # runes_from (Suc i) s"
  by (subst runes_from.simps) (simp add: decodeRune_ascii)

lemma validString_Nil [simp]: "validString []"
  by (simp add: validString.simps)

lemma validString_ascii_Cons: "byte c < 0x80 \<Longrightarrow> validString (c # s) = validString s"
  by (subst validString.simps) (simp add: decodeRune_ascii)

lemma runes_ascii: "list_all (\<lambda>c. byte c < 0x80) s \<Longrightarrow> map snd (runes_from i s) = map byte s"
  by (induction s arbitrary: i) (simp_all add: runes_from_ascii)

lemma validString_ascii: "list_all (\<lambda>c. byte c < 0x80) s \<Longrightarrow> validString s"
  by (induction s) (simp_all add: validString_ascii_Cons)

subsection \<open>fmt.Sscanf with the single verb \<open>%d\<close>\<close>

text \<open>
  The scanned integer, and 0 when the scan fails, because the variable keeps
  its zero value then. A newline stops the scan with an error unless it ends a
  carriage return and newline pair; a value outside 64 bits is an error.
\<close>

definition sscanf_d :: "string \<Rightarrow> int" where
  "sscanf_d s =
     (let t = strip_encs ([CHR 0x0D, CHR 0x0A] # filter (\<lambda>e. e \<noteq> [CHR 0x0A]) space_encs) s;
          neg = (t \<noteq> [] \<and> hd t = CHR ''-'');
          u = (if t \<noteq> [] \<and> (hd t = CHR ''-'' \<or> hd t = CHR ''+'') then tl t else t);
          ds = takeWhile is_digit u;
          v = (if neg then - int (digits_val ds) else int (digits_val ds))
      in if ds = [] then 0 else if - (2 ^ 63) \<le> v \<and> v < 2 ^ 63 then v else 0)"

lemma sscanf_d_itoa:
  assumes "n < 2 ^ 63"
  shows "sscanf_d (itoa n) = int n"
proof -
  obtain c s where cs: "itoa n = c # s" by (meson itoa_not_Nil list.exhaust)
  then have "is_digit c" using itoa_char_digit [of c n] by simp
  then have g: "ascii_graph c" "c \<noteq> CHR ''-''" "c \<noteq> CHR ''+''"
    by (simp_all add: is_digit_ascii_graph)
  let ?encs = "[CHR 0x0D, CHR 0x0A] # filter (\<lambda>e. e \<noteq> [CHR 0x0A]) space_encs"
  have "\<not> prefix e (c # s)" if "e \<in> set ?encs" for e
  proof -
    from that have "e \<noteq> [] \<and> \<not> ascii_graph (hd e)"
      using space_encs_ends [of e] by (auto simp: ascii_graph_def)
    with g(1) show ?thesis by (cases e) auto
  qed
  then have "strip_encs ?encs (c # s) = c # s"
    by (intro strip_encs_id match_enc_0) auto
  moreover have "takeWhile is_digit (c # s) = c # s"
    using itoa_digits [of n] unfolding cs by (simp add: list_all_iff takeWhile_eq_all_conv)
  moreover have "digits_val (c # s) = n" using digits_val_itoa [of n] unfolding cs .
  ultimately show ?thesis
    using g assms unfolding sscanf_d_def cs Let_def by simp
qed

end
