(* ===== verification/Netip.thy ===== *)
theory Netip
  imports GoLib
begin

unbundle bit_operations_syntax

section \<open>The Go standard library: net and net/netip\<close>

text \<open>
  Addresses and prefixes of package \<open>net/netip\<close>, their parsers, and
  \<open>net.SplitHostPort\<close> and \<open>net.JoinHostPort\<close>. Like \<open>GoLib\<close> this theory models
  the language's library and maps to no line of the repository. An address is
  the zero \<open>Addr\<close>, an IPv4 address of 32 bits, or an IPv6 address of 128 bits
  with a zone. The value \<open>-1\<close> of \<open>p_bits\<close> is \<open>Prefix.Bits\<close> of an invalid
  prefix.
\<close>

datatype addr = AddrZero | Addr4 uint32 | Addr6 "128 word" string

record prefix =
  p_ip :: addr
  p_bits :: int

definition bitLen :: "addr \<Rightarrow> nat" where
  "bitLen a = (case a of AddrZero \<Rightarrow> 0 | Addr4 _ \<Rightarrow> 32 | Addr6 _ _ \<Rightarrow> 128)"

definition is4 :: "addr \<Rightarrow> bool" where
  "is4 a = (case a of Addr4 _ \<Rightarrow> True | _ \<Rightarrow> False)"

definition addrIsValid :: "addr \<Rightarrow> bool" where
  "addrIsValid a = (a \<noteq> AddrZero)"

definition withoutZone :: "addr \<Rightarrow> addr" where
  "withoutZone a = (case a of Addr6 w _ \<Rightarrow> Addr6 w [] | _ \<Rightarrow> a)"

definition hasZone :: "addr \<Rightarrow> bool" where
  "hasZone a = (case a of Addr6 _ z \<Rightarrow> z \<noteq> [] | _ \<Rightarrow> False)"

definition is4In6 :: "128 word \<Rightarrow> bool" where
  "is4In6 w = (drop_bit 32 w = 0xFFFF)"

definition unmap :: "addr \<Rightarrow> addr" where
  "unmap a = (case a of Addr6 w _ \<Rightarrow> if is4In6 w then Addr4 (ucast w) else a | _ \<Rightarrow> a)"

subsection \<open>Prefixes\<close>

definition zeroPrefix :: prefix where
  "zeroPrefix = \<lparr>p_ip = AddrZero, p_bits = -1\<rparr>"

definition prefixFrom :: "addr \<Rightarrow> int \<Rightarrow> prefix" where
  "prefixFrom a b =
     \<lparr>p_ip = withoutZone a,
      p_bits = (if a \<noteq> AddrZero \<and> 0 \<le> b \<and> b \<le> int (bitLen a) then b else -1)\<rparr>"

definition prefixIsValid :: "prefix \<Rightarrow> bool" where
  "prefixIsValid p = (0 \<le> p_bits p)"

text \<open>\<open>Prefix.Masked\<close>: the host bits cleared; an invalid prefix gives the zero prefix.\<close>

definition masked :: "prefix \<Rightarrow> prefix" where
  "masked p =
     (let b = nat (p_bits p) in
      if p_bits p < 0 then zeroPrefix
      else case p_ip p of
        AddrZero \<Rightarrow> zeroPrefix
      | Addr4 w \<Rightarrow> if b > 32 then zeroPrefix
                   else prefixFrom (Addr4 (push_bit (32 - b) (drop_bit (32 - b) w))) (int b)
      | Addr6 w z \<Rightarrow> if b > 128 then zeroPrefix
                   else prefixFrom (Addr6 (push_bit (128 - b) (drop_bit (128 - b) w)) z) (int b))"

text \<open>\<open>Prefix.Contains\<close>: same family, no zone, and equal in the leading bits.\<close>

definition prefixContains :: "prefix \<Rightarrow> addr \<Rightarrow> bool" where
  "prefixContains p a =
     (prefixIsValid p \<and> \<not> hasZone a \<and>
      (case (p_ip p, a) of
         (Addr4 v, Addr4 w) \<Rightarrow> drop_bit (32 - nat (p_bits p)) (w XOR v) = 0
       | (Addr6 v _, Addr6 w _) \<Rightarrow> drop_bit (128 - nat (p_bits p)) (w XOR v) = 0
       | _ \<Rightarrow> False))"

text \<open>The prefixes a program can hold: what \<open>PrefixFrom\<close> and the zero value give.\<close>

definition prefix_ok :: "prefix \<Rightarrow> bool" where
  "prefix_ok p = (prefixFrom (p_ip p) (p_bits p) = p)"

definition is_v4_prefix :: "prefix \<Rightarrow> bool" where
  "is_v4_prefix p = (prefixIsValid p \<and> is4 (p_ip p))"

subsection \<open>Parsing addresses\<close>

definition parseOctet :: "string \<Rightarrow> nat option" where
  "parseOctet s =
     (if s = [] \<or> \<not> list_all is_digit s \<or> (1 < length s \<and> hd s = CHR ''0'') then None
      else if digits_val s \<le> 255 then Some (digits_val s) else None)"

definition parseIPv4 :: "string \<Rightarrow> uint32 option" where
  "parseIPv4 s =
     (case map parseOctet (splitByte (CHR ''.'') s) of
        [Some a, Some b, Some c, Some d] \<Rightarrow>
          Some (word_of_nat (((a * 256 + b) * 256 + c) * 256 + d))
      | _ \<Rightarrow> None)"

definition hex_val :: "char \<Rightarrow> nat option" where
  "hex_val c =
     (let b = byte c in
      if 48 \<le> b \<and> b \<le> 57 then Some (b - 48)
      else if 97 \<le> b \<and> b \<le> 102 then Some (b - 87)
      else if 65 \<le> b \<and> b \<le> 70 then Some (b - 55)
      else None)"

definition hexs_val :: "string \<Rightarrow> nat" where
  "hexs_val s = foldl (\<lambda>a c. a * 16 + (case hex_val c of None \<Rightarrow> 0 | Some d \<Rightarrow> d)) 0 s"

text \<open>
  The loop of \<open>parseIPv6\<close> over the groups of 16 bits: \<open>acc\<close> holds the groups
  read, \<open>ell\<close> the position of the ellipsis, the first argument how many groups
  are still free.
\<close>

fun ipv6_groups ::
  "nat \<Rightarrow> string \<Rightarrow> nat list \<Rightarrow> nat option \<Rightarrow> (nat list \<times> nat option \<times> string) option" where
  "ipv6_groups 0 s acc ell = Some (acc, ell, s)"
| "ipv6_groups (Suc k) s acc ell =
     (let ds = takeWhile (\<lambda>c. hex_val c \<noteq> None) s; rest = drop (length ds) s;
          acc' = acc @ [hexs_val ds] in
      if ds = [] \<or> 4 < length ds then None
      else if rest \<noteq> [] \<and> hd rest = CHR ''.'' then
        (if ell = None \<and> length acc \<noteq> 6 \<or> 8 < length acc + 2 then None
         else case parseIPv4 s of None \<Rightarrow> None
              | Some w \<Rightarrow> Some (acc @ [unat w div 65536, unat w mod 65536], ell, []))
      else if rest = [] then Some (acc', ell, [])
      else if hd rest \<noteq> CHR '':'' \<or> tl rest = [] then None
      else if hd (tl rest) = CHR '':'' then
        (if ell \<noteq> None then None
         else if tl (tl rest) = [] then Some (acc', Some (length acc'), [])
         else ipv6_groups k (tl (tl rest)) acc' (Some (length acc')))
      else ipv6_groups k (tl rest) acc' ell)"

definition expand_groups :: "(nat list \<times> nat option \<times> string) option \<Rightarrow> nat list option" where
  "expand_groups r =
     (case r of None \<Rightarrow> None
      | Some (acc, ell, s) \<Rightarrow>
          if s \<noteq> [] then None
          else if length acc < 8 then
            (case ell of None \<Rightarrow> None
             | Some e \<Rightarrow> Some (take e acc @ replicate (8 - length acc) 0 @ drop e acc))
          else if ell \<noteq> None then None else Some acc)"

definition parseIPv6 :: "string \<Rightarrow> addr option" where
  "parseIPv6 t =
     (let (s, zone, z) = cut (CHR ''%'') t;
          groups = (if take 2 s = ''::'' then
                      (if drop 2 s = [] then Some (replicate 8 0)
                       else expand_groups (ipv6_groups 8 (drop 2 s) [] (Some 0)))
                    else expand_groups (ipv6_groups 8 s [] None))
      in if z \<and> zone = [] then None
         else map_option (\<lambda>gs. Addr6 (word_of_nat (foldl (\<lambda>a g. a * 65536 + g) 0 gs)) zone) groups)"

text \<open>\<open>netip.ParseAddr\<close>: the first of the bytes \<open>.\<close>, \<open>:\<close> and \<open>%\<close> decides the family.\<close>

definition parseAddr :: "string \<Rightarrow> addr option" where
  "parseAddr s =
     (case find (\<lambda>c. c \<in> {CHR ''.'', CHR '':'', CHR ''%''}) s of
        None \<Rightarrow> None
      | Some c \<Rightarrow> if c = CHR ''.'' then map_option Addr4 (parseIPv4 s)
                  else if c = CHR '':'' then parseIPv6 s else None)"

definition parsePrefix :: "string \<Rightarrow> prefix option" where
  "parsePrefix s =
     (case lastIndexByte (CHR ''/'') s of
        None \<Rightarrow> None
      | Some i \<Rightarrow>
          (case parseAddr (take i s) of
             None \<Rightarrow> None
           | Some a \<Rightarrow>
               (let bs = drop (Suc i) s in
                if hasZone a then None
                else if 1 < length bs \<and> (byte (hd bs) < 49 \<or> 57 < byte (hd bs)) then None
                else case parseUint 63 bs of
                  None \<Rightarrow> None
                | Some b \<Rightarrow> if b \<le> bitLen a then Some (prefixFrom a (int b)) else None)))"

text \<open>\<open>net.ParseIP\<close> gives an address that is not IPv4: an IPv6 address with no zone, not mapped.\<close>

definition parsesAsIPv6 :: "string \<Rightarrow> bool" where
  "parsesAsIPv6 host =
     (case parseAddr host of Some (Addr6 w z) \<Rightarrow> z = [] \<and> \<not> is4In6 w | _ \<Rightarrow> False)"

subsection \<open>Printing addresses and prefixes\<close>

definition hex_digit :: "nat \<Rightarrow> char" where
  "hex_digit d = (if d < 10 then char_of (48 + d) else char_of (87 + d))"

fun hex_string :: "nat \<Rightarrow> string" where
  "hex_string n = (if n < 16 then [hex_digit n] else hex_string (n div 16) @ [hex_digit (n mod 16)])"

declare hex_string.simps [simp del]

definition ipv4_String :: "uint32 \<Rightarrow> string" where
  "ipv4_String w =
     (let n = unat w in
      joinStrings ''.'' (map itoa [n div 16777216, n div 65536 mod 256, n div 256 mod 256, n mod 256]))"

definition ipv6_groups_of :: "128 word \<Rightarrow> nat list" where
  "ipv6_groups_of w = map (\<lambda>i. unat w div 65536 ^ (7 - i) mod 65536) [0..<8]"

text \<open>The first longest run of at least two zero groups: its start and its length, 0 for none.\<close>

definition zero_run :: "nat list \<Rightarrow> nat \<times> nat" where
  "zero_run gs =
     foldl (\<lambda>(s, l) i. let k = length (takeWhile (\<lambda>g. g = 0) (drop i gs)) in
              if 2 \<le> k \<and> l < k then (i, k) else (s, l)) (0, 0) [0..<8]"

definition ipv6_String :: "128 word \<Rightarrow> string" where
  "ipv6_String w =
     (let gs = ipv6_groups_of w; (s, l) = zero_run gs in
      if l = 0 then joinStrings '':'' (map hex_string gs)
      else joinStrings '':'' (map hex_string (take s gs)) @ ''::'' @
           joinStrings '':'' (map hex_string (drop (s + l) gs)))"

definition addr_String :: "addr \<Rightarrow> string" where
  "addr_String a =
     (case a of
        AddrZero \<Rightarrow> ''invalid IP''
      | Addr4 w \<Rightarrow> ipv4_String w
      | Addr6 w z \<Rightarrow>
          (if is4In6 w then ''::ffff:'' @ ipv4_String (ucast w) else ipv6_String w)
          @ (if z = [] then [] else ''%'' @ z))"

definition prefix_String :: "prefix \<Rightarrow> string" where
  "prefix_String p =
     (if \<not> prefixIsValid p then ''invalid Prefix''
      else addr_String (p_ip p) @ ''/'' @ itoa_int (p_bits p))"

subsection \<open>host:port\<close>

definition splitHostPort :: "string \<Rightarrow> (string \<times> string) option" where
  "splitHostPort hp =
     (case lastIndexByte (CHR '':'') hp of
        None \<Rightarrow> None
      | Some i \<Rightarrow>
          if hd hp = CHR ''['' then
            (case indexByte (CHR '']'') hp of
               None \<Rightarrow> None
             | Some e \<Rightarrow>
                 if Suc e = length hp \<or> Suc e \<noteq> i then None
                 else if CHR ''['' \<in> set (drop 1 hp) then None
                 else if CHR '']'' \<in> set (drop (Suc e) hp) then None
                 else Some (take (e - 1) (drop 1 hp), drop (Suc i) hp))
          else if CHR '':'' \<in> set (take i hp) then None
          else if CHR ''['' \<in> set hp \<or> CHR '']'' \<in> set hp then None
          else Some (take i hp, drop (Suc i) hp))"

definition joinHostPort :: "string \<Rightarrow> string \<Rightarrow> string" where
  "joinHostPort host port =
     (if CHR '':'' \<in> set host then ''['' @ host @ '']:'' @ port else host @ '':'' @ port)"

definition no_brackets :: "string \<Rightarrow> bool" where
  "no_brackets s = (CHR ''['' \<notin> set s \<and> CHR '']'' \<notin> set s)"

lemma indexByte_Some:
  "indexByte x s = Some i \<Longrightarrow> i < length s \<and> s ! i = x \<and> x \<notin> set (take i s)"
  by (induction s arbitrary: i) (auto split: if_splits)

lemma splitHostPort_no_brackets:
  assumes "splitHostPort hp = Some (h, p)"
  shows "no_brackets h"
proof -
  obtain i where i: "lastIndexByte (CHR '':'') hp = Some i"
    using assms by (cases "lastIndexByte (CHR '':'') hp") (auto simp: splitHostPort_def)
  show ?thesis
  proof (cases "hd hp = CHR ''[''")
    case False
    with assms i have "h = take i hp" "CHR ''['' \<notin> set hp" "CHR '']'' \<notin> set hp"
      by (auto simp: splitHostPort_def split: if_splits)
    then show ?thesis by (auto simp: no_brackets_def dest: in_set_takeD)
  next
    case True
    with assms i obtain e where e: "indexByte (CHR '']'') hp = Some e"
        "h = take (e - 1) (drop 1 hp)" "CHR ''['' \<notin> set (drop 1 hp)"
      by (auto simp: splitHostPort_def split: if_splits option.splits)
    have "CHR '']'' \<notin> set (take e hp)" using indexByte_Some [OF e(1)] by simp
    moreover have "set h \<subseteq> set (take e hp)"
      unfolding e(2) by (cases hp; cases e) auto
    ultimately show ?thesis
      using e by (auto simp: no_brackets_def dest: in_set_takeD)
  qed
qed

lemma splitHostPort_joinHostPort:
  assumes "no_brackets h" and "no_brackets p" and "CHR '':'' \<notin> set p"
  shows "splitHostPort (joinHostPort h p) = Some (h, p)"
proof (cases "CHR '':'' \<in> set h")
  case True
  let ?hp = "CHR ''['' # h @ CHR '']'' # CHR '':'' # p"
  have "lastIndexByte (CHR '':'') ?hp = Some (length h + 2)"
    using lastIndexByte_append [of "CHR '':''" p "CHR ''['' # h @ [CHR '']'']"] assms(3) by simp
  moreover have "indexByte (CHR '']'') ?hp = Some (Suc (length h))"
    using assms(1) by (simp add: no_brackets_def)
  ultimately show ?thesis
    using True assms by (simp add: joinHostPort_def splitHostPort_def no_brackets_def)
next
  case False
  have "lastIndexByte (CHR '':'') (h @ CHR '':'' # p) = Some (length h)"
    using assms(3) by simp
  moreover have "hd (h @ CHR '':'' # p) \<noteq> CHR ''[''"
    using assms(1) by (cases h) (auto simp: no_brackets_def)
  ultimately show ?thesis
    using False assms by (simp add: joinHostPort_def splitHostPort_def no_brackets_def)
qed

lemma no_brackets_itoa [simp]: "no_brackets (itoa n)"
  by (simp add: no_brackets_def)

subsection \<open>IPv4 prefixes as intervals of natural numbers\<close>

text \<open>An IPv4 prefix holds the addresses of one aligned block.\<close>

definition addr4_val :: "addr \<Rightarrow> nat" where
  "addr4_val a = (case a of Addr4 w \<Rightarrow> unat w | _ \<Rightarrow> 0)"

definition prefix_block :: "prefix \<Rightarrow> nat" where
  "prefix_block p = 2 ^ (32 - nat (p_bits p))"

definition prefix_lo :: "prefix \<Rightarrow> nat" where
  "prefix_lo p = addr4_val (p_ip p) div prefix_block p * prefix_block p"

lemma word_xor_0_iff: "a XOR b = 0 \<longleftrightarrow> a = (b :: 'a::len word)"
  by (auto simp: bit_eq_iff bit_xor_iff)

lemma drop_bit_xor_0: "drop_bit n (a XOR b) = 0 \<longleftrightarrow> drop_bit n a = drop_bit n (b :: 'a::len word)"
  by (simp add: drop_bit_xor word_xor_0_iff)

lemma unat_drop_bit: "unat (drop_bit n (w :: 'a::len word)) = unat w div 2 ^ n"
  by (subst unat_drop_bit_eq) (rule drop_bit_eq_div)

lemma contains_v4:
  assumes "is_v4_prefix p"
  shows "prefixContains p (Addr4 w) \<longleftrightarrow> unat w div prefix_block p = addr4_val (p_ip p) div prefix_block p"
  using assms
  by (auto simp: prefixContains_def is_v4_prefix_def is4_def hasZone_def addr4_val_def prefix_block_def
      drop_bit_xor word_xor_0_iff unat_drop_bit [symmetric] split: addr.splits
      intro: word_unat_eq_iff [THEN iffD2])

lemma contains_v4_interval:
  assumes "is_v4_prefix p"
  shows "prefixContains p (Addr4 w) \<longleftrightarrow>
    prefix_lo p \<le> unat w \<and> unat w < prefix_lo p + prefix_block p"
proof -
  have pos: "0 < prefix_block p" by (simp add: prefix_block_def)
  have "n div B = m div B \<longleftrightarrow> m div B * B \<le> n \<and> n < m div B * B + B" if "0 < B" for n m B :: nat
    by (metis that div_nat_eqI mult.commute add.commute dividend_less_div_times mult_Suc
        times_div_less_eq_dividend)
  with contains_v4 [OF assms, of w] pos show ?thesis by (simp add: prefix_lo_def)
qed

lemma prefix_ok_v4_bits:
  "prefix_ok p \<Longrightarrow> is_v4_prefix p \<Longrightarrow> p_bits p \<le> 32"
  by (auto simp: prefix_ok_def prefixFrom_def is_v4_prefix_def is4_def bitLen_def prefixIsValid_def
      split: addr.splits if_splits)

end
