(* ===== verification/Proto_Text.thy ===== *)
theory Proto_Text
  imports Netip
begin

section \<open>Port ranges, rates and protocol versions (proto/port.go, rate.go, version.go)\<close>

text \<open>
  The leaf values of the external rule schema and their text forms.
  \<open>PortRange\<close> and \<open>Rate\<close> implement Go's text marshalling interface; the locale
  \<open>text_codec\<close> states what that interface promises and both types are instances.
\<close>

subsection \<open>The text marshalling contract\<close>

locale text_codec =
  fixes marshal :: "'a \<Rightarrow> string"
    and unmarshal :: "string \<Rightarrow> ('e, 'a) res"
    and wf :: "'a \<Rightarrow> bool"
  assumes unmarshal_marshal: "wf x \<Longrightarrow> unmarshal (marshal x) = Inr x"
    and unmarshal_wf: "unmarshal s = Inr x \<Longrightarrow> wf x"
begin

lemma marshal_inj: "wf x \<Longrightarrow> wf y \<Longrightarrow> marshal x = marshal y \<Longrightarrow> x = y"
  by (metis sum.inject(2) unmarshal_marshal)

lemma canonical: "unmarshal s = Inr x \<Longrightarrow> unmarshal (marshal x) = Inr x"
  by (rule unmarshal_marshal) (rule unmarshal_wf)

end

subsection \<open>Port ranges\<close>

record PortRange =
  Lo :: uint16
  Hi :: uint16

datatype port_error = PortNotInteger string | PortRangeReversed string

definition parsePort :: "string \<Rightarrow> (port_error, uint16) res" where
  "parsePort s =
     (case parseUint 16 (trimSpace s) of
        None \<Rightarrow> Inl (PortNotInteger s)
      | Some n \<Rightarrow> if n = 0 then Inl (PortNotInteger s) else Inr (word_of_nat n))"

definition ParsePortRange :: "string \<Rightarrow> (port_error, PortRange) res" where
  "ParsePortRange s =
     (let (lo, hi0, found) = cut (CHR ''-'') s;
          hi = (if found then hi0 else lo)
      in case parsePort lo of
           Inl e \<Rightarrow> Inl e
         | Inr l \<Rightarrow>
             (case parsePort hi of
                Inl e \<Rightarrow> Inl e
              | Inr h \<Rightarrow> if l > h then Inl (PortRangeReversed s) else Inr \<lparr>Lo = l, Hi = h\<rparr>))"

definition PortRange_String :: "PortRange \<Rightarrow> string" where
  "PortRange_String r =
     (if Lo r = Hi r then itoa (unat (Lo r))
      else itoa (unat (Lo r)) @ ''-'' @ itoa (unat (Hi r)))"

definition Len :: "PortRange \<Rightarrow> int" where
  "Len r = uint (Hi r) - uint (Lo r) + 1"

definition Contains :: "PortRange \<Rightarrow> uint16 \<Rightarrow> bool" where
  "Contains r p = (Lo r \<le> p \<and> p \<le> Hi r)"

definition IsRange :: "PortRange \<Rightarrow> bool" where
  "IsRange r = (Lo r \<noteq> Hi r)"

definition Overlaps :: "PortRange \<Rightarrow> PortRange \<Rightarrow> bool" where
  "Overlaps r o' = (Lo r \<le> Hi o' \<and> Lo o' \<le> Hi r)"

text \<open>The ranges the parser accepts: nonzero and in order.\<close>

definition range_ok :: "PortRange \<Rightarrow> bool" where
  "range_ok r = (Lo r \<noteq> 0 \<and> Lo r \<le> Hi r)"

lemma parsePort_itoa: "p \<noteq> 0 \<Longrightarrow> parsePort (itoa (unat p)) = Inr p"
proof -
  assume "p \<noteq> 0"
  moreover have "unat p < 2 ^ 16" using unat_lt2p [of p] by simp
  ultimately show ?thesis
    by (simp add: parsePort_def unat_eq_zero)
qed

lemma parsePort_nonzero: "parsePort s = Inr p \<Longrightarrow> p \<noteq> 0"
proof -
  assume "parsePort s = Inr p"
  then obtain n where "parseUint 16 (trimSpace s) = Some n" "n \<noteq> 0" "p = word_of_nat n"
    by (auto simp: parsePort_def split: option.splits if_splits)
  moreover from this have "n < 2 ^ 16" using parseUint_bound by blast
  ultimately show ?thesis by (auto simp: word_of_nat_eq_0_iff dest!: dvd_imp_le)
qed

lemma ParsePortRange_String: "range_ok r \<Longrightarrow> ParsePortRange (PortRange_String r) = Inr r"
proof -
  assume ok: "range_ok r"
  then have nz: "Lo r \<noteq> 0" "Hi r \<noteq> 0" by (auto simp: range_ok_def)
  show ?thesis
  proof (cases "Lo r = Hi r")
    case True
    with nz show ?thesis
      by (simp add: ParsePortRange_def PortRange_String_def cut_absent parsePort_itoa)
  next
    case False
    with nz ok show ?thesis
      by (simp add: ParsePortRange_def PortRange_String_def parsePort_itoa range_ok_def)
  qed
qed

lemma ParsePortRange_ok: "ParsePortRange s = Inr r \<Longrightarrow> range_ok r"
  by (auto simp: ParsePortRange_def Let_def range_ok_def split: prod.splits sum.splits if_splits
      dest: parsePort_nonzero)

interpretation port_text: text_codec PortRange_String ParsePortRange range_ok
  by unfold_locales (auto intro: ParsePortRange_String ParsePortRange_ok)

lemma Contains_iff: "Contains r p \<longleftrightarrow> unat (Lo r) \<le> unat p \<and> unat p \<le> unat (Hi r)"
  by (simp add: Contains_def word_le_nat_alt)

lemma Overlaps_iff:
  "range_ok a \<Longrightarrow> range_ok b \<Longrightarrow> Overlaps a b \<longleftrightarrow> (\<exists>p. Contains a p \<and> Contains b p)"
  by (auto simp: Overlaps_def Contains_def range_ok_def) (metis linear order_trans)

lemma Len_card: "range_ok r \<Longrightarrow> Len r = int (card {p. Contains r p})"
proof -
  assume "range_ok r"
  then have le: "unat (Lo r) \<le> unat (Hi r)" by (simp add: range_ok_def word_le_nat_alt)
  have "bij_betw unat {p. Contains r p} {unat (Lo r)..unat (Hi r)}"
  proof (rule bij_betw_byWitness [where f' = word_of_nat])
    show "\<forall>a \<in> {unat (Lo r)..unat (Hi r)}. unat (word_of_nat a :: uint16) = a"
      using unat_uint16 [of "Hi r"] by (auto intro!: unat_word_of_nat16)
    then show "word_of_nat ` {unat (Lo r)..unat (Hi r)} \<subseteq> {p. Contains r p}"
      by (auto simp: Contains_iff)
  qed (auto simp: Contains_iff)
  then have "card {p. Contains r p} = card {unat (Lo r)..unat (Hi r)}"
    by (rule bij_betw_same_card)
  with le show ?thesis by (simp add: Len_def)
qed

subsection \<open>Rates\<close>

type_synonym RateUnit = string

abbreviation "PerSecond \<equiv> ''second''"
abbreviation "PerMinute \<equiv> ''minute''"
abbreviation "PerHour \<equiv> ''hour''"
abbreviation "PerDay \<equiv> ''day''"
abbreviation "PerWeek \<equiv> ''week''"

record Rate =
  Count :: uint64
  Unit :: RateUnit

datatype rate_error = RateNotForm string | RateCount string | RateUnitUnknown string

definition rate_units :: "RateUnit list" where
  "rate_units = [PerSecond, PerMinute, PerHour, PerDay, PerWeek]"

definition ParseRate :: "string \<Rightarrow> (rate_error, Rate) res" where
  "ParseRate s =
     (let (count, unit, found) = cut (CHR ''/'') s in
      if \<not> found then Inl (RateNotForm s)
      else case parseUint 64 (trimSpace count) of
             None \<Rightarrow> Inl (RateCount s)
           | Some n \<Rightarrow>
               if n = 0 then Inl (RateCount s)
               else let u = trimSpace unit in
                    if u \<in> set rate_units then Inr \<lparr>Count = word_of_nat n, Unit = u\<rparr>
                    else Inl (RateUnitUnknown s))"

definition Rate_String :: "Rate \<Rightarrow> string" where
  "Rate_String r = itoa (unat (Count r)) @ ''/'' @ Unit r"

definition rate_ok :: "Rate \<Rightarrow> bool" where
  "rate_ok r = (Count r \<noteq> 0 \<and> Unit r \<in> set rate_units)"

lemma trimSpace_rate_unit: "u \<in> set rate_units \<Longrightarrow> trimSpace u = u"
  by (rule trimSpace_id) (auto simp: rate_units_def ascii_graph_def)

lemma ParseRate_String: "rate_ok r \<Longrightarrow> ParseRate (Rate_String r) = Inr r"
proof -
  assume ok: "rate_ok r"
  have "unat (Count r) < 2 ^ 64" using unat_lt2p [of "Count r"] by simp
  with ok show ?thesis
    by (simp add: ParseRate_def Rate_String_def rate_ok_def trimSpace_rate_unit unat_eq_zero)
qed

lemma ParseRate_ok: "ParseRate s = Inr r \<Longrightarrow> rate_ok r"
proof -
  assume *: "ParseRate s = Inr r"
  then obtain count n where n: "parseUint 64 count = Some n" "n \<noteq> 0" "Count r = word_of_nat n"
      "Unit r \<in> set rate_units"
    by (auto simp: ParseRate_def Let_def split: prod.splits option.splits if_splits)
  then have "n < 2 ^ 64" using parseUint_bound by blast
  with n show ?thesis by (auto simp: rate_ok_def word_of_nat_eq_0_iff dest!: dvd_imp_le)
qed

interpretation rate_text: text_codec Rate_String ParseRate rate_ok
  by unfold_locales (auto intro: ParseRate_String ParseRate_ok)

subsection \<open>Protocol versions\<close>

record ProtocolRange =
  MinVersion :: int
  MaxVersion :: int

definition Valid :: "ProtocolRange \<Rightarrow> bool" where
  "Valid r = (1 \<le> MinVersion r \<and> MinVersion r \<le> MaxVersion r)"

definition SupportedProtocol :: ProtocolRange where
  "SupportedProtocol = \<lparr>MinVersion = 1, MaxVersion = 1\<rparr>"

definition SelectProtocolVersion :: "ProtocolRange \<Rightarrow> ProtocolRange \<Rightarrow> int \<times> bool" where
  "SelectProtocolVersion loc remote =
     (if \<not> Valid loc \<or> \<not> Valid remote then (0, False)
      else let lo = (if MinVersion remote > MinVersion loc then MinVersion remote else MinVersion loc);
               hi = (if MaxVersion remote < MaxVersion loc then MaxVersion remote else MaxVersion loc)
           in if lo > hi then (0, False) else (hi, True))"

definition supports :: "ProtocolRange \<Rightarrow> int \<Rightarrow> bool" where
  "supports r v = (Valid r \<and> MinVersion r \<le> v \<and> v \<le> MaxVersion r)"

lemma SelectProtocolVersion_sym: "SelectProtocolVersion a b = SelectProtocolVersion b a"
  by (auto simp: SelectProtocolVersion_def Let_def)

lemma SelectProtocolVersion_iff:
  "SelectProtocolVersion a b = (v, True) \<longleftrightarrow>
    supports a v \<and> supports b v \<and> (\<forall>w. supports a w \<and> supports b w \<longrightarrow> w \<le> v)"
proof
  assume "SelectProtocolVersion a b = (v, True)"
  then show "supports a v \<and> supports b v \<and> (\<forall>w. supports a w \<and> supports b w \<longrightarrow> w \<le> v)"
    by (auto simp: SelectProtocolVersion_def Let_def supports_def Valid_def split: if_splits)
next
  assume *: "supports a v \<and> supports b v \<and> (\<forall>w. supports a w \<and> supports b w \<longrightarrow> w \<le> v)"
  define hi where "hi = min (MaxVersion a) (MaxVersion b)"
  have "supports a hi" "supports b hi" using * by (auto simp: supports_def hi_def)
  with * have "hi \<le> v" by blast
  moreover from * have "v \<le> hi" by (auto simp: supports_def hi_def)
  ultimately have "v = hi" by simp
  with * show "SelectProtocolVersion a b = (v, True)"
    by (auto simp: SelectProtocolVersion_def Let_def supports_def hi_def)
qed

end
