(* ===== verification/Proto_Rule.thy ===== *)
theory Proto_Rule
  imports Proto_Text
begin

section \<open>Rules and their validation (proto/rule.go, proto/state.go)\<close>

text \<open>
  The external rule schema, the checks on one rule and on a rule set, the part
  of a rule that is sent to an agent, and the effective target of a port.

  A Go slice is a list. The nil slice and the empty slice are the same list,
  which is the identification \<open>normalizeSources\<close> makes. An error keeps the data
  that tells it apart and not its English text; where Go iterates over a map,
  the order is not defined and the error does not say which entry it met first.
  The argument \<open>graphic\<close> is \<open>unicode.IsGraphic\<close> above Latin-1.
\<close>

subsection \<open>The schema\<close>

type_synonym Proto = string
type_synonym VPSMode = string

abbreviation "TCP \<equiv> ''tcp''"
abbreviation "UDP \<equiv> ''udp''"
abbreviation "ModeKernel \<equiv> ''kernel''"
abbreviation "ModeProxy \<equiv> ''proxy''"

record Rule =
  r_ID :: string
  r_Agent :: string
  r_Group :: string
  r_Note :: string
  r_Proto :: Proto
  r_ListenPort :: PortRange
  r_Target :: string
  r_VPSMode :: VPSMode
  r_ProxyProtocol :: bool
  r_SourceAllow :: "prefix list"
  r_SourceDeny :: "prefix list"
  r_NewFlowRate :: "Rate option"
  r_PacketRate :: "Rate option"
  r_PerSourceRate :: "Rate option"
  r_Enabled :: bool

record AgentRule =
  ar_ID :: string
  ar_Proto :: Proto
  ar_ListenPort :: PortRange
  ar_Target :: string
  ar_Enabled :: bool

datatype target_error = NotHostPort string | EmptyHost string | TargetIPv6 string | TargetPort string

datatype rule_error =
    IDEmpty | IDDotSegment string | IDTooLong nat | IDInvalidUTF8 | IDNotGraphic nat nat
  | AgentEmpty | AgentDotSegment string | ProtoUnknown string | ListenPortEmpty
  | TargetTooLong nat | TargetInvalidUTF8 | TargetNotGraphic nat nat | TargetForm target_error
  | TargetPortOverflow uint16 PortRange | ProxyNotTCP | ProxyPortRange PortRange
  | VPSModeUnknown string | ProxyProtocolNeedsProxy | GroupTooLong | GroupInvalidChar nat
  | NoteTooLong | NotIPv4CIDR

datatype set_error =
    RuleInvalid string rule_error
  | DuplicateID string
  | ReservedPort string
  | PortOverlap string string
  | AgentRuleLimit string nat nat

subsection \<open>Checks of one rule\<close>

definition group_char_ok :: "nat \<Rightarrow> bool" where
  "group_char_ok c =
     (97 \<le> c \<and> c \<le> 122 \<or> 65 \<le> c \<and> c \<le> 90 \<or> 48 \<le> c \<and> c \<le> 57 \<or> c = 45 \<or> c = 95 \<or> c = 46)"

definition validateGroup :: "string \<Rightarrow> rule_error option" where
  "validateGroup g =
     (if runeCount g > 32 then Some GroupTooLong
      else map_option GroupInvalidChar (find (\<lambda>c. \<not> group_char_ok c) (runes g)))"

definition isDotSegment :: "string \<Rightarrow> bool" where
  "isDotSegment s = (s = ''.'' \<or> s = ''..'')"

definition MaxRuleIDLen :: nat where
  "MaxRuleIDLen = 128"

definition validateRuleID :: "(nat \<Rightarrow> bool) \<Rightarrow> string \<Rightarrow> rule_error option" where
  "validateRuleID graphic i =
     (if length i > MaxRuleIDLen then Some (IDTooLong (length i))
      else if \<not> validString i then Some IDInvalidUTF8
      else map_option (\<lambda>(b, c). IDNotGraphic c b)
             (find (\<lambda>(b, c). \<not> isGraphic graphic c) (runes_from 0 i)))"

definition MaxTargetLen :: nat where
  "MaxTargetLen = 253 + length '':'' + 5"

definition validateTarget :: "(nat \<Rightarrow> bool) \<Rightarrow> string \<Rightarrow> rule_error option" where
  "validateTarget graphic t =
     (if length t > MaxTargetLen then Some (TargetTooLong (length t))
      else if \<not> validString t then Some TargetInvalidUTF8
      else map_option (\<lambda>(b, c). TargetNotGraphic c b)
             (find (\<lambda>(b, c). \<not> isGraphic graphic c) (runes_from 0 t)))"

definition splitTarget :: "string \<Rightarrow> (target_error, string \<times> uint16) res" where
  "splitTarget target =
     (case splitHostPort target of
        None \<Rightarrow> Inl (NotHostPort target)
      | Some (host, portStr) \<Rightarrow>
          if host = [] then Inl (EmptyHost target)
          else if parsesAsIPv6 host then Inl (TargetIPv6 target)
          else case parseUint 16 portStr of
                 None \<Rightarrow> Inl (TargetPort target)
               | Some n \<Rightarrow> if n = 0 then Inl (TargetPort target) else Inr (host, word_of_nat n))"

text \<open>
  The checks of \<open>Rule.Validate\<close> up to the target, from the target's port on,
  and of the fields after the mode: one definition for each stretch of the
  function, composed in its order.
\<close>

definition validate_names :: "(nat \<Rightarrow> bool) \<Rightarrow> Rule \<Rightarrow> rule_error option" where
  "validate_names graphic r =
     (if r_ID r = [] then Some IDEmpty
      else if isDotSegment (r_ID r) then Some (IDDotSegment (r_ID r))
      else if validateRuleID graphic (r_ID r) \<noteq> None then validateRuleID graphic (r_ID r)
      else if r_Agent r = [] then Some AgentEmpty
      else if isDotSegment (r_Agent r) then Some (AgentDotSegment (r_Agent r))
      else if r_Proto r \<noteq> TCP \<and> r_Proto r \<noteq> UDP then Some (ProtoUnknown (r_Proto r))
      else if Lo (r_ListenPort r) = 0 then Some ListenPortEmpty
      else validateTarget graphic (r_Target r))"

definition validate_target_port :: "Rule \<Rightarrow> rule_error option" where
  "validate_target_port r =
     (case splitTarget (r_Target r) of
        Inl e \<Rightarrow> Some (TargetForm e)
      | Inr (_, port) \<Rightarrow>
          if uint port + Len (r_ListenPort r) - 1 > 65535
          then Some (TargetPortOverflow port (r_ListenPort r)) else None)"

definition validate_mode :: "Rule \<Rightarrow> rule_error option" where
  "validate_mode r =
     (if r_VPSMode r = ModeKernel then None
      else if r_VPSMode r = ModeProxy then
        (if r_Proto r \<noteq> TCP then Some ProxyNotTCP
         else if IsRange (r_ListenPort r) then Some (ProxyPortRange (r_ListenPort r)) else None)
      else Some (VPSModeUnknown (r_VPSMode r)))"

definition validate_rest :: "Rule \<Rightarrow> rule_error option" where
  "validate_rest r =
     (if r_ProxyProtocol r \<and> r_VPSMode r \<noteq> ModeProxy then Some ProxyProtocolNeedsProxy
      else if validateGroup (r_Group r) \<noteq> None then validateGroup (r_Group r)
      else if runeCount (r_Note r) > 120 then Some NoteTooLong
      else if list_all (\<lambda>p. prefixIsValid p \<and> is4 (p_ip p)) (r_SourceAllow r @ r_SourceDeny r)
      then None else Some NotIPv4CIDR)"

definition Validate :: "(nat \<Rightarrow> bool) \<Rightarrow> Rule \<Rightarrow> rule_error option" where
  "Validate graphic r =
     first_err [validate_names graphic r, validate_target_port r, validate_mode r, validate_rest r]"

subsection \<open>Checks of a rule set\<close>

text \<open>The reserved ports with their use: a Go map, as the list of its entries in some order.\<close>

type_synonym Reserved = "(uint16 \<times> string) list"

fun validateRuleSet_loop ::
  "(nat \<Rightarrow> bool) \<Rightarrow> Reserved \<Rightarrow> (string \<Rightarrow> bool) \<Rightarrow> Rule list \<Rightarrow> Rule list \<Rightarrow> set_error option" where
  "validateRuleSet_loop graphic reserved skipValidate before [] = None"
| "validateRuleSet_loop graphic reserved skipValidate before (r # rs) =
     (case (if skipValidate (r_ID r) then None else Validate graphic r) of
        Some e \<Rightarrow> Some (RuleInvalid (r_ID r) e)
      | None \<Rightarrow>
          if r_ID r \<in> set (map r_ID before) then Some (DuplicateID (r_ID r))
          else if list_ex (\<lambda>(p, use). Contains (r_ListenPort r) p) reserved
          then Some (ReservedPort (r_ID r))
          else case find (\<lambda>q. r_Proto q = r_Proto r \<and> Overlaps (r_ListenPort q) (r_ListenPort r)) before of
                 Some q \<Rightarrow> Some (PortOverlap (r_ID r) (r_ID q))
               | None \<Rightarrow> validateRuleSet_loop graphic reserved skipValidate (before @ [r]) rs)"

definition validateRuleSet ::
  "(nat \<Rightarrow> bool) \<Rightarrow> Rule list \<Rightarrow> Reserved \<Rightarrow> (string \<Rightarrow> bool) \<Rightarrow> set_error option" where
  "validateRuleSet graphic rules reserved skipValidate =
     validateRuleSet_loop graphic reserved skipValidate [] rules"

definition ValidateRules :: "(nat \<Rightarrow> bool) \<Rightarrow> Rule list \<Rightarrow> Reserved \<Rightarrow> set_error option" where
  "ValidateRules graphic rules reserved = validateRuleSet graphic rules reserved (\<lambda>_. False)"

definition MaxRulesPerAgent :: nat where
  "MaxRulesPerAgent = 512"

definition RuleCountsByAgent :: "Rule list \<Rightarrow> string \<Rightarrow> nat" where
  "RuleCountsByAgent rules agent = count_list (map r_Agent rules) agent"

text \<open>The keys of the count map in the order of the names, which is how both callers sort them.\<close>

definition agents_of :: "Rule list \<Rightarrow> string list" where
  "agents_of rules = sort (remdups (map r_Agent rules))"

definition AgentsOverRuleLimit :: "Rule list \<Rightarrow> string list" where
  "AgentsOverRuleLimit rules =
     filter (\<lambda>a. RuleCountsByAgent rules a > MaxRulesPerAgent) (agents_of rules)"

definition checkAgentRuleCounts :: "Rule list \<Rightarrow> Rule list \<Rightarrow> set_error option" where
  "checkAgentRuleCounts rules before =
     (let after = RuleCountsByAgent rules; prev = RuleCountsByAgent before;
          over = filter (\<lambda>a. after a > MaxRulesPerAgent \<and> after a > prev a) (agents_of rules)
      in case over of [] \<Rightarrow> None | a # _ \<Rightarrow> Some (AgentRuleLimit a (prev a) (after a)))"

text \<open>
  The identifiers whose row is the same in \<open>before\<close>. The map built from
  \<open>before\<close> keeps the last row of an identifier.
\<close>

definition byID :: "Rule list \<Rightarrow> string \<rightharpoonup> Rule" where
  "byID rules = map_of (rev (map (\<lambda>r. (r_ID r, r)) rules))"

definition UnchangedIDs :: "Rule list \<Rightarrow> Rule list \<Rightarrow> string \<Rightarrow> bool" where
  "UnchangedIDs rules before i = list_ex (\<lambda>r. r_ID r = i \<and> byID before i = Some r) rules"

definition ValidateUpsert ::
  "(nat \<Rightarrow> bool) \<Rightarrow> Rule list \<Rightarrow> Rule list \<Rightarrow> Reserved \<Rightarrow> set_error option" where
  "ValidateUpsert graphic rules before reserved =
     first_err [validateRuleSet graphic rules reserved (UnchangedIDs rules before),
                checkAgentRuleCounts rules before]"

subsection \<open>The part sent to an agent\<close>

definition ForAgent :: "Rule \<Rightarrow> AgentRule" where
  "ForAgent r = \<lparr>ar_ID = r_ID r, ar_Proto = r_Proto r, ar_ListenPort = r_ListenPort r,
                 ar_Target = r_Target r, ar_Enabled = r_Enabled r\<rparr>"

definition EffectiveTarget :: "AgentRule \<Rightarrow> uint16 \<Rightarrow> string \<times> bool" where
  "EffectiveTarget r p =
     (if \<not> Contains (ar_ListenPort r) p then ([], False)
      else case splitTarget (ar_Target r) of
             Inl _ \<Rightarrow> ([], False)
           | Inr (host, port) \<Rightarrow>
               (let eff = uint port + uint (p - Lo (ar_ListenPort r)) in
                if eff > 65535 then ([], False) else (joinHostPort host (itoa (nat eff)), True)))"

definition TargetDisplay :: "Rule \<Rightarrow> string" where
  "TargetDisplay r =
     (if Lo (r_ListenPort r) = Hi (r_ListenPort r) then r_Target r
      else case splitTarget (r_Target r) of
             Inl _ \<Rightarrow> r_Target r
           | Inr (host, port) \<Rightarrow>
               (let hi = uint port + uint (Hi (r_ListenPort r)) - uint (Lo (r_ListenPort r)) in
                joinHostPort host (itoa (unat port)) @ ''-'' @ itoa_int hi))"

subsection \<open>What an accepted rule set satisfies\<close>

definition ports_clash :: "Rule \<Rightarrow> Rule \<Rightarrow> bool" where
  "ports_clash q r = (r_Proto q = r_Proto r \<and> Overlaps (r_ListenPort q) (r_ListenPort r))"

definition reserved_free :: "Reserved \<Rightarrow> Rule \<Rightarrow> bool" where
  "reserved_free reserved r = (\<forall>(p, use) \<in> set reserved. \<not> Contains (r_ListenPort r) p)"

text \<open>The constraints between rules: distinct identifiers, no reserved port, no overlap.\<close>

definition rule_set_ok :: "Reserved \<Rightarrow> Rule list \<Rightarrow> bool" where
  "rule_set_ok reserved rules =
     (distinct (map r_ID rules) \<and> list_all (reserved_free reserved) rules
      \<and> sorted_wrt (\<lambda>q r. \<not> ports_clash q r) rules)"

lemma ports_clash_sym: "ports_clash q r = ports_clash r q"
  by (auto simp: ports_clash_def Overlaps_def)

lemma validateRuleSet_loop_None_iff:
  "validateRuleSet_loop graphic reserved skip before rs = None \<longleftrightarrow>
     (\<forall>r \<in> set rs. skip (r_ID r) \<or> Validate graphic r = None) \<and> rule_set_ok reserved rs
     \<and> set (map r_ID rs) \<inter> set (map r_ID before) = {}
     \<and> (\<forall>r \<in> set rs. \<forall>q \<in> set before. \<not> ports_clash q r)"
proof (induction rs arbitrary: before)
  case Nil
  then show ?case by (simp add: rule_set_ok_def)
next
  case (Cons r rs)
  have "find (\<lambda>q. ports_clash q r) before = None \<longleftrightarrow> (\<forall>q \<in> set before. \<not> ports_clash q r)"
    by (auto simp: find_None_iff)
  moreover have "list_ex (\<lambda>(p, use). Contains (r_ListenPort r) p) reserved \<longleftrightarrow> \<not> reserved_free reserved r"
    by (auto simp: list_ex_iff reserved_free_def)
  ultimately show ?case
    unfolding validateRuleSet_loop.simps ports_clash_def [symmetric]
    by (auto simp: Cons.IH rule_set_ok_def split: option.splits)
qed

lemma validateRuleSet_None_iff:
  "validateRuleSet graphic rules reserved skip = None \<longleftrightarrow>
     (\<forall>r \<in> set rules. skip (r_ID r) \<or> Validate graphic r = None) \<and> rule_set_ok reserved rules"
  by (simp add: validateRuleSet_def validateRuleSet_loop_None_iff)

lemma rule_set_ok_owner:
  assumes "rule_set_ok reserved rules" "r \<in> set rules" "q \<in> set rules" "r_Proto r = r_Proto q"
    and "Contains (r_ListenPort r) p" "Contains (r_ListenPort q) p"
  shows "r = q"
proof (rule ccontr)
  assume "r \<noteq> q"
  obtain i j where ij: "i < length rules" "j < length rules" "r = rules ! i" "q = rules ! j"
    using assms(2,3) by (metis in_set_conv_nth)
  with \<open>r \<noteq> q\<close> have "i < j \<or> j < i" by (metis linorder_neqE_nat)
  then have "\<not> ports_clash r q"
    using assms(1) ij ports_clash_sym by (auto simp: rule_set_ok_def sorted_wrt_iff_nth_less)
  moreover have "ports_clash r q"
    using assms(4-6) by (auto simp: ports_clash_def Overlaps_def Contains_def)
  ultimately show False ..
qed

lemma count_list_0_notin: "count_list xs x = 0 \<longleftrightarrow> x \<notin> set xs"
  by (simp add: count_list_0_iff)

lemma checkAgentRuleCounts_None_iff:
  "checkAgentRuleCounts rules before = None \<longleftrightarrow>
     (\<forall>a. RuleCountsByAgent rules a \<le> max MaxRulesPerAgent (RuleCountsByAgent before a))"
proof -
  let ?over = "\<lambda>a. RuleCountsByAgent rules a > MaxRulesPerAgent \<and> RuleCountsByAgent rules a > RuleCountsByAgent before a"
  have "checkAgentRuleCounts rules before = None \<longleftrightarrow> filter ?over (agents_of rules) = []"
    by (auto simp: checkAgentRuleCounts_def Let_def split: list.splits)
  also have "\<dots> \<longleftrightarrow> (\<forall>a \<in> set (agents_of rules). \<not> ?over a)"
    by (auto simp: filter_empty_conv)
  also have "\<dots> \<longleftrightarrow> (\<forall>a. \<not> ?over a)"
  proof -
    have "a \<in> set (agents_of rules)" if "?over a" for a
      using that count_list_0_notin [of "map r_Agent rules" a]
      by (auto simp: agents_of_def RuleCountsByAgent_def)
    then show ?thesis by blast
  qed
  finally show ?thesis by (auto simp: not_less le_max_iff_disj)
qed

lemma byID_mem: "distinct (map r_ID rules) \<Longrightarrow> r \<in> set rules \<Longrightarrow> byID rules (r_ID r) = Some r"
  unfolding byID_def by (rule map_of_is_SomeI) (auto simp: rev_map [symmetric] comp_def)

lemma byID_find: "byID rules i = find (\<lambda>r. r_ID r = i) (rev rules)"
proof -
  have "map_of (map (\<lambda>r. (r_ID r, r)) rs) i = find (\<lambda>r. r_ID r = i) rs" for rs by (induction rs) auto
  then show ?thesis by (simp add: byID_def rev_map)
qed

lemma UnchangedIDs_iff:
  assumes "distinct (map r_ID rules)" and "r \<in> set rules"
  shows "UnchangedIDs rules before (r_ID r) \<longleftrightarrow> find (\<lambda>b. r_ID b = r_ID r) (rev before) = Some r"
proof -
  have "q = r" if "q \<in> set rules" "r_ID q = r_ID r" for q using that assms by (auto simp: distinct_map dest: inj_onD)
  then show ?thesis using assms(2) by (auto simp: UnchangedIDs_def list_ex_iff byID_find)
qed

lemma UnchangedIDs_refl:
  "distinct (map r_ID rules) \<Longrightarrow> r \<in> set rules \<Longrightarrow> UnchangedIDs rules rules (r_ID r)"
  by (auto simp: UnchangedIDs_def list_ex_iff byID_mem)

subsection \<open>Effective targets\<close>

lemma splitTarget_host:
  assumes "splitTarget t = Inr (h, p)"
  shows "h \<noteq> []" "\<not> parsesAsIPv6 h" "no_brackets h" "p \<noteq> 0"
proof -
  from assms obtain ps n where *: "splitHostPort t = Some (h, ps)" "h \<noteq> []" "\<not> parsesAsIPv6 h"
      "parseUint 16 ps = Some n" "n \<noteq> 0" "p = word_of_nat n"
    by (auto simp: splitTarget_def split: option.splits prod.splits if_splits)
  then show "h \<noteq> []" "\<not> parsesAsIPv6 h" "no_brackets h"
    using splitHostPort_no_brackets by auto
  have "n < 65536" using parseUint_bound [OF *(4)] by simp
  with * have "unat p = n" by (simp add: unat_word_of_nat16)
  with \<open>n \<noteq> 0\<close> show "p \<noteq> 0" by auto
qed

lemma splitTarget_join:
  assumes "splitTarget t = Inr (h, p)" and "0 < n" and "n < 65536"
  shows "splitTarget (joinHostPort h (itoa n)) = Inr (h, word_of_nat n)"
proof -
  have "splitHostPort (joinHostPort h (itoa n)) = Some (h, itoa n)"
    by (rule splitHostPort_joinHostPort) (simp_all add: splitTarget_host [OF assms(1)])
  moreover have "parseUint 16 (itoa n) = Some n" using assms by simp
  ultimately show ?thesis
    using assms(2) splitTarget_host [OF assms(1)] by (simp add: splitTarget_def)
qed

lemma uint_offset: "Contains r p \<Longrightarrow> uint (p - Lo r) = uint p - uint (Lo r)"
  by (simp add: Contains_def uint_minus_simple_alt)

lemma EffectiveTarget_Some:
  assumes "Contains (ar_ListenPort r) p" "splitTarget (ar_Target r) = Inr (h, q)"
    and "uint q + (uint p - uint (Lo (ar_ListenPort r))) \<le> 65535"
  shows "EffectiveTarget r p =
    (joinHostPort h (itoa (nat (uint q + (uint p - uint (Lo (ar_ListenPort r)))))), True)"
  using assms by (simp add: EffectiveTarget_def uint_offset)

lemma Validate_None_iff:
  "Validate graphic r = None \<longleftrightarrow> validate_names graphic r = None \<and> validate_target_port r = None
     \<and> validate_mode r = None \<and> validate_rest r = None"
  by (simp add: Validate_def)

lemma validate_target_port_None:
  "validate_target_port r = None \<longleftrightarrow>
     (\<exists>h q. splitTarget (r_Target r) = Inr (h, q) \<and> uint q + Len (r_ListenPort r) - 1 \<le> 65535)"
  by (auto simp: validate_target_port_def split: sum.splits prod.splits if_splits)

lemma valid_rule_effective:
  assumes "validate_target_port r = None" and "Contains (r_ListenPort r) p"
  shows "\<exists>h q. splitTarget (r_Target r) = Inr (h, q)
    \<and> uint q + (uint p - uint (Lo (r_ListenPort r))) \<le> 65535
    \<and> EffectiveTarget (ForAgent r) p =
        (joinHostPort h (itoa (nat (uint q + (uint p - uint (Lo (r_ListenPort r)))))), True)"
proof -
  obtain h q where *: "splitTarget (r_Target r) = Inr (h, q)"
      "uint q + Len (r_ListenPort r) - 1 \<le> 65535"
    using assms(1) validate_target_port_None by blast
  have "uint p \<le> uint (Hi (r_ListenPort r))"
    using assms(2) by (simp add: Contains_def word_le_def)
  with * have le: "uint q + (uint p - uint (Lo (r_ListenPort r))) \<le> 65535"
    by (simp add: Len_def)
  have "EffectiveTarget (ForAgent r) p =
      (joinHostPort h (itoa (nat (uint q + (uint p - uint (Lo (r_ListenPort r)))))), True)"
    using EffectiveTarget_Some [of "ForAgent r" p h q] * le assms(2) by (simp add: ForAgent_def)
  with * le show ?thesis by blast
qed

end
