(* ===== verification/Proto_Source.thy ===== *)
theory Proto_Source
  imports Proto_Rule
begin

section \<open>Source lists (proto/source.go)\<close>

text \<open>Parsing of the source restrictions and the list operations of the CLI and the Web UI.\<close>

datatype source_error = SourceNotParsed string | SourceLine nat string source_error

definition ParseSource :: "string \<Rightarrow> (source_error, prefix) res" where
  "ParseSource s =
     (case parsePrefix s of
        Some p \<Rightarrow> Inr (masked p)
      | None \<Rightarrow>
          (case parseAddr s of
             None \<Rightarrow> Inl (SourceNotParsed s)
           | Some ip \<Rightarrow> Inr (masked (prefixFrom ip (int (bitLen ip))))))"

text \<open>The loop over the lines; \<open>i\<close> is the index of the line, blank lines counted.\<close>

fun ParseSourceLines_loop ::
  "nat \<Rightarrow> string list \<Rightarrow> prefix list \<Rightarrow> (source_error, prefix list) res" where
  "ParseSourceLines_loop i [] out = Inr out"
| "ParseSourceLines_loop i (l # ls) out =
     (let line = trimSpace l in
      if line = [] then ParseSourceLines_loop (Suc i) ls out
      else case ParseSource line of
             Inl e \<Rightarrow> Inl (SourceLine (i + 1) line e)
           | Inr p \<Rightarrow> ParseSourceLines_loop (Suc i) ls (out @ [p]))"

definition ParseSourceLines :: "string \<Rightarrow> (source_error, prefix list) res" where
  "ParseSourceLines text = ParseSourceLines_loop 0 (splitByte (CHR 0x0A) text) []"

fun ParseSources :: "string list \<Rightarrow> (source_error, prefix list) res" where
  "ParseSources [] = Inr []"
| "ParseSources (a # args) =
     (case ParseSource a of
        Inl e \<Rightarrow> Inl e
      | Inr p \<Rightarrow> (case ParseSources args of Inl e \<Rightarrow> Inl e | Inr out \<Rightarrow> Inr (p # out)))"

definition containsPrefix :: "prefix list \<Rightarrow> prefix \<Rightarrow> bool" where
  "containsPrefix list p = list_ex (\<lambda>q. q = p) list"

fun AddSources_loop :: "prefix list \<Rightarrow> prefix list \<Rightarrow> prefix list" where
  "AddSources_loop out [] = out"
| "AddSources_loop out (p # add) =
     (if containsPrefix out p then AddSources_loop out add else AddSources_loop (out @ [p]) add)"

definition AddSources :: "prefix list \<Rightarrow> prefix list \<Rightarrow> prefix list" where
  "AddSources list add = AddSources_loop list add"

definition RemoveSources :: "prefix list \<Rightarrow> prefix list \<Rightarrow> prefix list" where
  "RemoveSources list rm = filter (\<lambda>p. \<not> containsPrefix rm p) list"

lemma containsPrefix_iff [simp]: "containsPrefix list p \<longleftrightarrow> p \<in> set list"
  by (auto simp: containsPrefix_def list_ex_iff)

lemma AddSources_loop_foldl: "AddSources_loop out add = foldl add_new out add"
  by (induction out add rule: AddSources_loop.induct) (auto simp: add_new_def)

subsection \<open>A parsed source is a canonical prefix\<close>

lemma push_drop_idem:
  "push_bit n (drop_bit n (push_bit n (drop_bit n (w :: 'a::len word)))) = push_bit n (drop_bit n w)"
  by (auto simp: bit_eq_iff bit_push_bit_iff bit_drop_bit_eq)

lemma masked_masked: "masked (masked p) = masked p"
  by (cases "p_ip p")
    (auto simp: masked_def Let_def zeroPrefix_def prefixFrom_def withoutZone_def bitLen_def
      push_drop_idem split: if_splits)

lemma prefix_ok_masked: "prefix_ok (masked p)"
  by (cases "p_ip p")
    (auto simp: masked_def Let_def prefix_ok_def zeroPrefix_def prefixFrom_def withoutZone_def bitLen_def)

lemma ParseSource_canonical: "ParseSource s = Inr p \<Longrightarrow> masked p = p \<and> prefix_ok p"
  by (auto simp: ParseSource_def masked_masked prefix_ok_masked split: option.splits)

text \<open>The prefixes of the nonblank lines.\<close>

lemma ParseSourceLines_loop_Inr:
  "ParseSourceLines_loop i ls out = Inr ps \<longleftrightarrow>
     (\<exists>qs. ps = out @ qs \<and> map ParseSource (filter (\<lambda>l. l \<noteq> []) (map trimSpace ls)) = map Inr qs)"
proof (induction i ls out arbitrary: ps rule: ParseSourceLines_loop.induct)
  case (1 i out)
  then show ?case by auto
next
  case (2 i l ls out)
  show ?case
  proof (cases "trimSpace l = []")
    case True
    with 2(1) [of "trimSpace l"] show ?thesis by (simp add: Let_def)
  next
    case False
    show ?thesis
    proof (cases "ParseSource (trimSpace l)")
      case (Inl e)
      with False show ?thesis by (auto simp: Let_def)
    next
      case (Inr p)
      with False 2(2) [of "trimSpace l" p] show ?thesis
        by (auto simp: Let_def)
    qed
  qed
qed

lemma ParseSourceLines_loop_Inl:
  "ParseSourceLines_loop i ls out = Inl e \<Longrightarrow>
     \<exists>k < length ls. \<exists>e'. e = SourceLine (i + k + 1) (trimSpace (ls ! k)) e'
       \<and> ParseSource (trimSpace (ls ! k)) = Inl e'
       \<and> (\<forall>j < k. trimSpace (ls ! j) = [] \<or> is_ok (ParseSource (trimSpace (ls ! j))))"
proof (induction i ls out rule: ParseSourceLines_loop.induct)
  case (1 i out)
  then show ?case by simp
next
  case (2 i l ls out)
  consider (blank) "trimSpace l = []" | (bad) e' where "trimSpace l \<noteq> []" "ParseSource (trimSpace l) = Inl e'"
    | (good) p where "trimSpace l \<noteq> []" "ParseSource (trimSpace l) = Inr p"
    by (cases "ParseSource (trimSpace l)") auto
  then show ?case
  proof cases
    case bad
    with "2.prems" show ?thesis by (intro exI [of _ 0]) (auto simp: Let_def)
  next
    case blank
    with 2(1) [of "trimSpace l"] "2.prems" obtain k e' where "k < length ls"
        "e = SourceLine (Suc i + k + 1) (trimSpace (ls ! k)) e'" "ParseSource (trimSpace (ls ! k)) = Inl e'"
        "\<forall>j < k. trimSpace (ls ! j) = [] \<or> is_ok (ParseSource (trimSpace (ls ! j)))"
      by (auto simp: Let_def)
    with blank show ?thesis
      by (intro exI [of _ "Suc k"]) (auto simp: less_Suc_eq_0_disj)
  next
    case good
    with 2(2) [of "trimSpace l" p] "2.prems" obtain k e' where "k < length ls"
        "e = SourceLine (Suc i + k + 1) (trimSpace (ls ! k)) e'" "ParseSource (trimSpace (ls ! k)) = Inl e'"
        "\<forall>j < k. trimSpace (ls ! j) = [] \<or> is_ok (ParseSource (trimSpace (ls ! j)))"
      by (auto simp: Let_def)
    with good show ?thesis
      by (intro exI [of _ "Suc k"]) (auto simp: less_Suc_eq_0_disj)
  qed
qed

subsection \<open>Adding and removing\<close>

lemma set_AddSources: "set (AddSources list add) = set list \<union> set add"
  by (simp add: AddSources_def AddSources_loop_foldl set_foldl_add_new)

lemma distinct_AddSources: "distinct list \<Longrightarrow> distinct (AddSources list add)"
  by (simp add: AddSources_def AddSources_loop_foldl distinct_foldl_add_new)

lemma AddSources_prefix: "\<exists>new. AddSources list add = list @ new \<and> set new \<subseteq> set add"
  by (simp add: AddSources_def AddSources_loop_foldl foldl_add_new_prefix)

lemma RemoveSources_AddSources:
  assumes "set list \<inter> set add = {}"
  shows "RemoveSources (AddSources list add) add = list"
proof -
  obtain new where new: "AddSources list add = list @ new" "set new \<subseteq> set add"
    using AddSources_prefix by blast
  then have "filter (\<lambda>p. p \<notin> set add) new = []" by (auto simp: filter_empty_conv)
  moreover have "filter (\<lambda>p. p \<notin> set add) list = list" using assms by (auto simp: filter_id_conv)
  ultimately show ?thesis by (simp add: RemoveSources_def new(1))
qed

end
