(* ===== verification/Proto_SplitMerge.thy ===== *)
theory Proto_SplitMerge
  imports Proto_Source
begin

section \<open>Splitting and merging rules (proto/splitmerge.go)\<close>

text \<open>
  A rule over a port range can be cut into two at a port, and two adjacent
  rules can be joined. Both keep the effective target of every port, so the
  sessions in progress stay on their targets.
\<close>

subsection \<open>Splitting\<close>

datatype split_error = SplitNotSingle | SplitOutside uint16 PortRange | SplitProxyRange uint16

definition ParseSplitPoint :: "string \<Rightarrow> (split_error, PortRange) res" where
  "ParseSplitPoint s =
     (case ParsePortRange s of
        Inl _ \<Rightarrow> Inl SplitNotSingle
      | Inr at \<Rightarrow> if Lo at \<noteq> Hi at then Inl SplitNotSingle else Inr at)"

definition Split :: "Rule \<Rightarrow> PortRange \<Rightarrow> string \<Rightarrow> (split_error, Rule \<times> Rule) res" where
  "Split r at tailID =
     (if Lo at \<noteq> Hi at then Inl SplitNotSingle
      else if Lo at \<le> Lo (r_ListenPort r) \<or> Lo at > Hi (r_ListenPort r)
      then Inl (SplitOutside (Lo at) (r_ListenPort r))
      else
        let head = r\<lparr>r_ListenPort := \<lparr>Lo = Lo (r_ListenPort r), Hi = Lo at - 1\<rparr>\<rparr>;
            tail = r\<lparr>r_ID := tailID, r_ListenPort := \<lparr>Lo = Lo at, Hi = Hi (r_ListenPort r)\<rparr>\<rparr>
        in if r_VPSMode r = ModeProxy \<and> (IsRange (r_ListenPort head) \<or> IsRange (r_ListenPort tail))
           then Inl (SplitProxyRange (Lo at))
           else Inr (head, tail\<lparr>r_Target := fst (EffectiveTarget (ForAgent r) (Lo at))\<rparr>))"

subsection \<open>Merging\<close>

datatype MergeBlocker =
    BlockNone | BlockAgent | BlockProto | BlockMode | BlockNotAdjacent | BlockTargetGap
  | BlockProxyRange | BlockDenyList | BlockAllowList | BlockRates | BlockEnabled

definition nextPort :: "string \<Rightarrow> string" where
  "nextPort hostport =
     (case lastIndexByte (CHR '':'') hostport of
        None \<Rightarrow> hostport
      | Some i \<Rightarrow>
          (let p = sscanf_d (drop (i + 1) hostport)
           in take i hostport @ '':'' @ itoa_int (wrap64 (p + 1))))"

fun dedupPrefixes_loop :: "prefix list \<Rightarrow> prefix list \<Rightarrow> prefix list" where
  "dedupPrefixes_loop out [] = out"
| "dedupPrefixes_loop out (p # list) =
     (if containsPrefix out p then dedupPrefixes_loop out list else dedupPrefixes_loop (out @ [p]) list)"

definition dedupPrefixes :: "prefix list \<Rightarrow> prefix list" where
  "dedupPrefixes list = dedupPrefixes_loop [] list"

definition equalPrefixSet :: "prefix list \<Rightarrow> prefix list \<Rightarrow> bool" where
  "equalPrefixSet a b =
     (let da = dedupPrefixes a; db = dedupPrefixes b
      in length da = length db \<and> list_all (containsPrefix db) da)"

definition equalRate :: "Rate option \<Rightarrow> Rate option \<Rightarrow> bool" where
  "equalRate a b =
     (case (a, b) of (Some x, Some y) \<Rightarrow> x = y | _ \<Rightarrow> a = None \<and> b = None)"

definition order_by_port :: "Rule \<Rightarrow> Rule \<Rightarrow> Rule \<times> Rule" where
  "order_by_port a b =
     (if Lo (r_ListenPort a) > Lo (r_ListenPort b) then (b, a) else (a, b))"

definition FindMergeBlocker :: "Rule \<Rightarrow> Rule \<Rightarrow> MergeBlocker" where
  "FindMergeBlocker a b =
     (let (lo, hi) = order_by_port a b in
      if r_Agent lo \<noteq> r_Agent hi then BlockAgent
      else if r_Proto lo \<noteq> r_Proto hi then BlockProto
      else if r_VPSMode lo \<noteq> r_VPSMode hi then BlockMode
      else if Hi (r_ListenPort lo) + 1 \<noteq> Lo (r_ListenPort hi) then BlockNotAdjacent
      else
        let (eff, ok) = EffectiveTarget (ForAgent lo) (Hi (r_ListenPort lo)) in
        if \<not> ok \<or> eff = [] \<or> nextPort eff \<noteq> r_Target hi then BlockTargetGap
        else if r_VPSMode lo = ModeProxy then BlockProxyRange
        else if \<not> equalPrefixSet (r_SourceDeny lo) (r_SourceDeny hi) then BlockDenyList
        else if \<not> equalPrefixSet (r_SourceAllow lo) (r_SourceAllow hi) then BlockAllowList
        else if \<not> equalRate (r_NewFlowRate lo) (r_NewFlowRate hi)
             \<or> \<not> equalRate (r_PacketRate lo) (r_PacketRate hi)
             \<or> \<not> equalRate (r_PerSourceRate lo) (r_PerSourceRate hi) then BlockRates
        else if r_Enabled lo \<noteq> r_Enabled hi then BlockEnabled
        else BlockNone)"

definition errText :: "MergeBlocker \<Rightarrow> string" where
  "errText b =
     (case b of
        BlockAgent \<Rightarrow> ''rules must share the same agent''
      | BlockProto \<Rightarrow> ''rules must share the same protocol''
      | BlockMode \<Rightarrow> ''rules must share the same mode''
      | BlockNotAdjacent \<Rightarrow> ''listen ranges are not adjacent''
      | BlockTargetGap \<Rightarrow> ''effective targets are not contiguous''
      | BlockProxyRange \<Rightarrow> ''vps_mode=proxy rules cannot be merged into a port range''
      | BlockDenyList \<Rightarrow> ''deny list differs''
      | BlockAllowList \<Rightarrow> ''allow list differs''
      | BlockRates \<Rightarrow> ''rate limits differ''
      | BlockEnabled \<Rightarrow> ''enabled state differs''
      | BlockNone \<Rightarrow> ''cannot merge'')"

definition Merge :: "Rule \<Rightarrow> Rule \<Rightarrow> (MergeBlocker, Rule) res" where
  "Merge self other =
     (if FindMergeBlocker self other \<noteq> BlockNone then Inl (FindMergeBlocker self other)
      else let (lo, hi) = order_by_port self other in
           Inr (self\<lparr>r_ListenPort := \<lparr>Lo = Lo (r_ListenPort lo), Hi = Hi (r_ListenPort hi)\<rparr>,
                     r_Target := r_Target lo\<rparr>))"

subsection \<open>Lists as sets, rates, next ports\<close>

lemma dedupPrefixes_loop_foldl: "dedupPrefixes_loop out list = foldl add_new out list"
  by (induction out list rule: dedupPrefixes_loop.induct) (auto simp: add_new_def)

lemma dedupPrefixes_props [simp]:
  "set (dedupPrefixes list) = set list" "distinct (dedupPrefixes list)"
  by (simp_all add: dedupPrefixes_def dedupPrefixes_loop_foldl set_foldl_add_new distinct_foldl_add_new)

lemma length_dedupPrefixes: "length (dedupPrefixes list) = card (set list)"
  by (metis dedupPrefixes_props distinct_card)

lemma equalPrefixSet_iff: "equalPrefixSet a b \<longleftrightarrow> set a = set b"
proof -
  have "card (set a) = card (set b) \<and> set a \<subseteq> set b \<longleftrightarrow> set a = set b"
    by (metis List.finite_set card_subset_eq order_refl)
  then show ?thesis
    by (auto simp: equalPrefixSet_def Let_def length_dedupPrefixes list_all_iff subset_iff)
qed

lemma equalRate_iff [simp]: "equalRate a b \<longleftrightarrow> a = b"
  by (auto simp: equalRate_def split: option.splits)

lemma nextPort_join:
  assumes "no_brackets h" and "n < 65536"
  shows "nextPort (joinHostPort h (itoa n)) = joinHostPort h (itoa (Suc n))"
proof -
  define pre where "pre = (if CHR '':'' \<in> set h then ''['' @ h @ '']'' else h)"
  have pre: "joinHostPort h (itoa m) = pre @ CHR '':'' # itoa m" for m
    by (simp add: joinHostPort_def pre_def)
  have "lastIndexByte (CHR '':'') (joinHostPort h (itoa n)) = Some (length pre)"
    unfolding pre by simp
  moreover have "wrap64 (sscanf_d (itoa n) + 1) = int (Suc n)"
    using assms(2) by (simp add: sscanf_d_itoa wrap64_def)
  moreover have "itoa_int (int (Suc n)) = itoa (Suc n)"
    by (rule itoa_int_of_nat)
  ultimately show ?thesis
    by (simp add: nextPort_def pre del: of_nat_Suc)
qed

lemma joinHostPort_not_Nil [simp]: "joinHostPort h p \<noteq> []"
  by (simp add: joinHostPort_def)

subsection \<open>Splitting keeps the ports and their targets\<close>

lemma Contains_less: "w \<noteq> 0 \<Longrightarrow> p \<le> w - 1 \<longleftrightarrow> p < (w :: uint16)"
  by (simp add: word_le_nat_alt word_less_nat_alt unat_minus_one) (metis One_nat_def Suc_le_D
      Suc_le_mono Suc_pred less_eq_Suc_le unat_eq_zero zero_less_iff_neq_zero)

lemma Split_Inr:
  assumes "Split r at tailID = Inr (head, tail)"
  shows "Lo at = Hi at" "Lo (r_ListenPort r) < Lo at" "Lo at \<le> Hi (r_ListenPort r)"
    and "head = r\<lparr>r_ListenPort := \<lparr>Lo = Lo (r_ListenPort r), Hi = Lo at - 1\<rparr>\<rparr>"
    and "tail = r\<lparr>r_ID := tailID, r_ListenPort := \<lparr>Lo = Lo at, Hi = Hi (r_ListenPort r)\<rparr>,
      r_Target := fst (EffectiveTarget (ForAgent r) (Lo at))\<rparr>"
    and "r_VPSMode r = ModeProxy \<Longrightarrow> \<not> IsRange (r_ListenPort head) \<and> \<not> IsRange (r_ListenPort tail)"
  using assms by (auto simp: Split_def Let_def split: if_splits)

lemma Split_partition:
  assumes "Split r at tailID = Inr (head, tail)"
  shows "Contains (r_ListenPort head) p \<longleftrightarrow> Contains (r_ListenPort r) p \<and> p < Lo at"
    and "Contains (r_ListenPort tail) p \<longleftrightarrow> Contains (r_ListenPort r) p \<and> \<not> p < Lo at"
proof -
  note * = Split_Inr [OF assms]
  have "Lo at \<noteq> 0" using *(2) by auto
  with * show "Contains (r_ListenPort head) p \<longleftrightarrow> Contains (r_ListenPort r) p \<and> p < Lo at"
    by (auto simp: Contains_def Contains_less)
  from * show "Contains (r_ListenPort tail) p \<longleftrightarrow> Contains (r_ListenPort r) p \<and> \<not> p < Lo at"
    by (auto simp: Contains_def)
qed

text \<open>The target of the second piece, and that both pieces keep the check on target ports.\<close>

lemma Split_tail_target:
  assumes "Split r at tailID = Inr (head, tail)" and "validate_target_port r = None"
    and "splitTarget (r_Target r) = Inr (h, q)"
  shows "uint q + (uint (Lo at) - uint (Lo (r_ListenPort r))) \<le> 65535"
    and "r_Target tail = joinHostPort h (itoa (nat (uint q + (uint (Lo at) - uint (Lo (r_ListenPort r))))))"
    and "\<exists>q'. splitTarget (r_Target tail) = Inr (h, q')
      \<and> uint q' = uint q + (uint (Lo at) - uint (Lo (r_ListenPort r)))"
proof -
  note * = Split_Inr [OF assms(1)]
  have "Contains (r_ListenPort r) (Lo at)" using *(2,3) by (simp add: Contains_def)
  from valid_rule_effective [OF assms(2) this] assms(3) *(5)
  show le: "uint q + (uint (Lo at) - uint (Lo (r_ListenPort r))) \<le> 65535"
    and t: "r_Target tail = joinHostPort h (itoa (nat (uint q + (uint (Lo at) - uint (Lo (r_ListenPort r))))))"
    by auto
  have "0 \<le> uint q" "uint (Lo (r_ListenPort r)) < uint (Lo at)"
    using *(2) by (simp_all add: word_less_def)
  then obtain n where n: "uint q + (uint (Lo at) - uint (Lo (r_ListenPort r))) = int n" "0 < n" "n < 65536"
    using le by (intro that [of "nat (uint q + (uint (Lo at) - uint (Lo (r_ListenPort r))))"])
      (simp_all add: add_nonneg_pos)
  then have "splitTarget (r_Target tail) = Inr (h, word_of_nat n)"
    unfolding t using splitTarget_join [OF assms(3) n(2,3)] by simp
  moreover have "uint (word_of_nat n :: uint16) = int n"
    using unat_word_of_nat16 [OF n(3)] by (metis uint_nat)
  ultimately show "\<exists>q'. splitTarget (r_Target tail) = Inr (h, q')
      \<and> uint q' = uint q + (uint (Lo at) - uint (Lo (r_ListenPort r)))"
    using n(1) by simp
qed

lemma uint_minus_one: "w \<noteq> 0 \<Longrightarrow> uint (w - 1) = uint (w :: uint16) - 1"
proof -
  assume "w \<noteq> 0"
  then have "1 \<le> w" by (simp add: word_le_nat_alt unat_gt_0 Suc_leI)
  then show ?thesis by (simp add: uint_minus_simple_alt)
qed

lemma Split_validate_target_port:
  assumes "Split r at tailID = Inr (head, tail)" and "validate_target_port r = None"
  shows "validate_target_port head = None" "validate_target_port tail = None"
proof -
  note * = Split_Inr [OF assms(1)]
  obtain h q where hq: "splitTarget (r_Target r) = Inr (h, q)" "uint q + Len (r_ListenPort r) - 1 \<le> 65535"
    using assms(2) validate_target_port_None by blast
  have nz: "Lo at \<noteq> 0" using *(2) by auto
  have ord: "uint (Lo (r_ListenPort r)) < uint (Lo at)" "uint (Lo at) \<le> uint (Hi (r_ListenPort r))"
    using *(2,3) by (simp_all add: word_less_def word_le_def)
  have "uint (Lo at - 1) = uint (Lo at) - 1" using nz by (rule uint_minus_one)
  with hq ord * show "validate_target_port head = None"
    by (auto simp: validate_target_port_None Len_def)
  note t = Split_tail_target [OF assms hq(1)]
  with hq ord * t(3) show "validate_target_port tail = None"
    by (auto simp: validate_target_port_None Len_def)
qed

lemma Split_effective:
  assumes "Split r at tailID = Inr (head, tail)" and "validate_target_port r = None"
    and "Contains (r_ListenPort r) p"
  shows "EffectiveTarget (ForAgent (if p < Lo at then head else tail)) p = EffectiveTarget (ForAgent r) p"
proof -
  note * = Split_Inr [OF assms(1)] and part = Split_partition [OF assms(1), of p]
  obtain h q where hq: "splitTarget (r_Target r) = Inr (h, q)"
      "uint q + (uint p - uint (Lo (r_ListenPort r))) \<le> 65535"
      "EffectiveTarget (ForAgent r) p =
        (joinHostPort h (itoa (nat (uint q + (uint p - uint (Lo (r_ListenPort r)))))), True)"
    using valid_rule_effective [OF assms(2,3)] by blast
  show ?thesis
  proof (cases "p < Lo at")
    case True
    with part(1) assms(3) have "Contains (r_ListenPort head) p" by simp
    with True hq *(4) EffectiveTarget_Some [of "ForAgent head" p h q] show ?thesis
      by (simp add: ForAgent_def)
  next
    case False
    with part(2) assms(3) have c: "Contains (r_ListenPort tail) p" by simp
    obtain q' where q': "splitTarget (r_Target tail) = Inr (h, q')"
        "uint q' = uint q + (uint (Lo at) - uint (Lo (r_ListenPort r)))"
      using Split_tail_target(3) [OF assms(1,2) hq(1)] by blast
    have "Lo (r_ListenPort tail) = Lo at" using *(5) by simp
    with False hq(2,3) c q' EffectiveTarget_Some [of "ForAgent tail" p h q'] show ?thesis
      by (simp add: ForAgent_def)
  qed
qed

subsection \<open>Merging keeps the ports and their targets\<close>

lemma FindMergeBlocker_NoneD:
  assumes "FindMergeBlocker a b = BlockNone" and "order_by_port a b = (lo, hi)"
  shows "r_Agent lo = r_Agent hi" "r_Proto lo = r_Proto hi" "r_VPSMode lo = r_VPSMode hi"
    "Hi (r_ListenPort lo) + 1 = Lo (r_ListenPort hi)" "r_VPSMode lo \<noteq> ModeProxy"
    "set (r_SourceDeny lo) = set (r_SourceDeny hi)" "set (r_SourceAllow lo) = set (r_SourceAllow hi)"
    "r_NewFlowRate lo = r_NewFlowRate hi" "r_PacketRate lo = r_PacketRate hi"
    "r_PerSourceRate lo = r_PerSourceRate hi" "r_Enabled lo = r_Enabled hi"
    "snd (EffectiveTarget (ForAgent lo) (Hi (r_ListenPort lo)))"
    "r_Target hi = nextPort (fst (EffectiveTarget (ForAgent lo) (Hi (r_ListenPort lo))))"
  using assms
  by (simp_all add: FindMergeBlocker_def equalPrefixSet_iff split: prod.splits if_splits)

lemma splitTarget_join_Inr:
  assumes "no_brackets h" and "splitTarget (joinHostPort h (itoa n)) = Inr (h', q')"
  shows "h' = h" "uint q' = int n"
proof -
  have "splitHostPort (joinHostPort h (itoa n)) = Some (h, itoa n)"
    using assms(1) by (simp add: splitHostPort_joinHostPort)
  with assms(2) obtain m where m: "h' = h" "parseUint 16 (itoa n) = Some m" "q' = word_of_nat m"
    by (auto simp: splitTarget_def split: option.splits if_splits)
  then have "n < 65536" "m = n"
    by (auto simp: parseUint_def itoa_digits split: if_splits)
  with m show "h' = h" "uint q' = int n"
    using unat_word_of_nat16 [of n] by (simp_all add: uint_nat del: of_nat_unat)
qed

lemma adjacent_Contains:
  assumes "range_ok a" "range_ok b" "Hi a + 1 = Lo b"
  shows "Contains \<lparr>Lo = Lo a, Hi = Hi b\<rparr> p \<longleftrightarrow> Contains a p \<or> Contains b p"
    and "uint (Lo b) = uint (Hi a) + 1"
proof -
  have "Lo b \<noteq> 0" "Hi a = Lo b - 1"
    using assms(2,3) by (auto simp: range_ok_def eq_diff_eq)
  then show 1: "uint (Lo b) = uint (Hi a) + 1" by (simp add: uint_minus_one)
  show "Contains \<lparr>Lo = Lo a, Hi = Hi b\<rparr> p \<longleftrightarrow> Contains a p \<or> Contains b p"
    using assms(1,2) 1 by (auto simp: Contains_def range_ok_def word_le_def)
qed

text \<open>The facts a merge of two valid rules rests on: the target ports continue each other.\<close>

lemma merge_targets:
  assumes "FindMergeBlocker a b = BlockNone" "order_by_port a b = (lo, hi)"
    and "range_ok (r_ListenPort lo)" "range_ok (r_ListenPort hi)"
    and "validate_target_port lo = None" "validate_target_port hi = None"
  obtains h q q' where "splitTarget (r_Target lo) = Inr (h, q)" "splitTarget (r_Target hi) = Inr (h, q')"
    "uint q' = uint q + (uint (Lo (r_ListenPort hi)) - uint (Lo (r_ListenPort lo)))"
proof -
  note * = FindMergeBlocker_NoneD [OF assms(1,2)]
  have "Contains (r_ListenPort lo) (Hi (r_ListenPort lo))"
    using assms(3) by (simp add: Contains_def range_ok_def)
  from valid_rule_effective [OF assms(5) this] obtain h q where
    hq: "splitTarget (r_Target lo) = Inr (h, q)"
      "uint q + (uint (Hi (r_ListenPort lo)) - uint (Lo (r_ListenPort lo))) \<le> 65535"
      "EffectiveTarget (ForAgent lo) (Hi (r_ListenPort lo)) =
        (joinHostPort h (itoa (nat (uint q + (uint (Hi (r_ListenPort lo)) - uint (Lo (r_ListenPort lo)))))), True)"
    by blast
  have ord: "uint (Lo (r_ListenPort lo)) \<le> uint (Hi (r_ListenPort lo))"
    using assms(3) by (simp add: range_ok_def word_le_def)
  define n where "n = nat (uint q + (uint (Hi (r_ListenPort lo)) - uint (Lo (r_ListenPort lo))))"
  have n: "int n = uint q + (uint (Hi (r_ListenPort lo)) - uint (Lo (r_ListenPort lo)))"
    using ord by (simp add: n_def)
  have "n < 65536" using n hq(2) by simp
  then have t: "r_Target hi = joinHostPort h (itoa (Suc n))"
    using *(13) hq(3) nextPort_join [of h n] splitTarget_host(3) [OF hq(1)] by (simp add: n_def)
  obtain h' q' where q': "splitTarget (r_Target hi) = Inr (h', q')"
    using assms(6) validate_target_port_None by blast
  from splitTarget_join_Inr [OF splitTarget_host(3) [OF hq(1)] q' [unfolded t]]
  have "h' = h" "uint q' = int (Suc n)" .
  moreover have "uint (Lo (r_ListenPort hi)) = uint (Hi (r_ListenPort lo)) + 1"
    using adjacent_Contains(2) [OF assms(3,4) *(4)] .
  ultimately show ?thesis
    using that [OF hq(1)] q' n by simp
qed

lemma Merge_effective:
  assumes "FindMergeBlocker a b = BlockNone" "order_by_port a b = (lo, hi)"
    and "range_ok (r_ListenPort lo)" "range_ok (r_ListenPort hi)"
    and "validate_target_port lo = None" "validate_target_port hi = None"
    and m: "r_ListenPort m = \<lparr>Lo = Lo (r_ListenPort lo), Hi = Hi (r_ListenPort hi)\<rparr>" "r_Target m = r_Target lo"
    and s: "s \<in> {lo, hi}" "Contains (r_ListenPort s) p"
  shows "EffectiveTarget (ForAgent m) p = EffectiveTarget (ForAgent s) p"
proof -
  note * = FindMergeBlocker_NoneD [OF assms(1,2)]
  obtain h q q' where t: "splitTarget (r_Target lo) = Inr (h, q)" "splitTarget (r_Target hi) = Inr (h, q')"
      "uint q' = uint q + (uint (Lo (r_ListenPort hi)) - uint (Lo (r_ListenPort lo)))"
    using merge_targets [OF assms(1-6)] by blast
  have cm: "Contains (r_ListenPort m) p"
    using s m(1) adjacent_Contains(1) [OF assms(3,4) *(4)] by auto
  have "validate_target_port s = None" using s(1) assms(5,6) by auto
  from valid_rule_effective [OF this s(2)] s(1) t
  have le: "uint q + (uint p - uint (Lo (r_ListenPort lo))) \<le> 65535"
    and e: "EffectiveTarget (ForAgent s) p =
        (joinHostPort h (itoa (nat (uint q + (uint p - uint (Lo (r_ListenPort lo)))))), True)"
    by auto
  show ?thesis
    unfolding e using EffectiveTarget_Some [of "ForAgent m" p h q] cm t(1) m le
    by (simp add: ForAgent_def)
qed

subsection \<open>Merging the two pieces of a split\<close>

lemma FindMergeBlocker_order: "order_by_port a b = order_by_port c d \<Longrightarrow> FindMergeBlocker a b = FindMergeBlocker c d"
  by (simp add: FindMergeBlocker_def)

lemma Split_order:
  assumes "Split r at tailID = Inr (head, tail)"
  shows "order_by_port head tail = (head, tail)" "order_by_port tail head = (head, tail)"
  using Split_Inr [OF assms] by (auto simp: order_by_port_def)

lemma Split_blocker:
  assumes "Split r at tailID = Inr (head, tail)" and "validate_target_port r = None"
  shows "FindMergeBlocker head tail = (if r_VPSMode r = ModeProxy then BlockProxyRange else BlockNone)"
proof -
  note * = Split_Inr [OF assms(1)]
  have nz: "Lo at \<noteq> 0" using *(2) by auto
  then have pred: "uint (Lo at - 1) = uint (Lo at) - 1" by (rule uint_minus_one)
  have lt: "uint (Lo (r_ListenPort r)) < uint (Lo at)" "uint (Lo at) \<le> uint (Hi (r_ListenPort r))"
    using *(2,3) by (simp_all add: word_less_def word_le_def)
  have "Contains (r_ListenPort r) (Lo at - 1)" "Lo at - 1 < Lo at"
    using lt pred by (simp_all add: Contains_def word_le_def word_less_def)
  from valid_rule_effective [OF assms(2) this(1)] Split_effective [OF assms(1,2) this(1)] this(2)
  obtain h q where hq: "splitTarget (r_Target r) = Inr (h, q)"
      "uint q + (uint (Lo at - 1) - uint (Lo (r_ListenPort r))) \<le> 65535"
      "EffectiveTarget (ForAgent head) (Lo at - 1) =
        (joinHostPort h (itoa (nat (uint q + (uint (Lo at - 1) - uint (Lo (r_ListenPort r)))))), True)"
    by auto
  define n where "n = nat (uint q + (uint (Lo at - 1) - uint (Lo (r_ListenPort r))))"
  have n: "Suc n = nat (uint q + (uint (Lo at) - uint (Lo (r_ListenPort r))))" "n < 65536"
    using lt hq(2) unfolding n_def pred by (auto simp: Suc_nat_eq_nat_zadd1)
  have "nextPort (joinHostPort h (itoa n)) = r_Target tail"
    using nextPort_join [OF splitTarget_host(3) [OF hq(1)] n(2)] n(1)
      Split_tail_target(2) [OF assms(1,2) hq(1)] by simp
  moreover have "r_ListenPort head = \<lparr>Lo = Lo (r_ListenPort r), Hi = Lo at - 1\<rparr>" using *(4) by simp
  ultimately show ?thesis
    using hq(3) *(4,5) Split_order(1) [OF assms(1)]
    by (simp add: FindMergeBlocker_def equalPrefixSet_iff n_def)
qed

end
