(* ===== verification/Proto_ImportDiff.thy ===== *)
theory Proto_ImportDiff
  imports Proto_SplitMerge
begin

section \<open>The difference of two rule sets (proto/importdiff.go)\<close>

text \<open>
  What the import of a rule file compares and shows. The content hash of a rule
  set is taken over the JSON text of the sorted rules; the composition of the
  JSON encoder, SHA-256 and the hexadecimal encoder is the argument \<open>hash\<close>.
\<close>

datatype ChangeKind = ChangeAdded | ChangeChanged | ChangeDeleted | ChangeUnchanged

record FieldChange =
  fc_Field :: string
  fc_Old :: string
  fc_New :: string

definition zeroRule :: Rule where
  "zeroRule = \<lparr>r_ID = [], r_Agent = [], r_Group = [], r_Note = [], r_Proto = [],
     r_ListenPort = \<lparr>Lo = 0, Hi = 0\<rparr>, r_Target = [], r_VPSMode = [], r_ProxyProtocol = False,
     r_SourceAllow = [], r_SourceDeny = [], r_NewFlowRate = None, r_PacketRate = None,
     r_PerSourceRate = None, r_Enabled = False\<rparr>"

record RuleChange =
  rc_Kind :: ChangeKind
  rc_Rule :: Rule
  rc_Previous :: Rule
  rc_FieldChanges :: "FieldChange list"

definition boolField :: "bool \<Rightarrow> string" where
  "boolField b = (if b then ''true'' else ''false'')"

definition rateField :: "Rate option \<Rightarrow> string" where
  "rateField r = (case r of None \<Rightarrow> [] | Some x \<Rightarrow> Rate_String x)"

definition joinPrefixes :: "prefix list \<Rightarrow> string" where
  "joinPrefixes list =
     (if list = [] then [] else joinStrings '', '' (sort (map prefix_String list)))"

definition add_change :: "string \<Rightarrow> string \<Rightarrow> string \<Rightarrow> FieldChange list" where
  "add_change field oldV newV =
     (if oldV \<noteq> newV then [\<lparr>fc_Field = field, fc_Old = oldV, fc_New = newV\<rparr>] else [])"

definition add_prefixes :: "string \<Rightarrow> prefix list \<Rightarrow> prefix list \<Rightarrow> FieldChange list" where
  "add_prefixes field old new =
     (if equalPrefixSet old new then []
      else [\<lparr>fc_Field = field, fc_Old = joinPrefixes old, fc_New = joinPrefixes new\<rparr>])"

definition fieldChanges :: "Rule \<Rightarrow> Rule \<Rightarrow> FieldChange list" where
  "fieldChanges prev next = concat
     [add_change ''agent'' (r_Agent prev) (r_Agent next),
      add_change ''group'' (r_Group prev) (r_Group next),
      add_change ''note'' (r_Note prev) (r_Note next),
      add_change ''proto'' (r_Proto prev) (r_Proto next),
      add_change ''listen_port'' (PortRange_String (r_ListenPort prev)) (PortRange_String (r_ListenPort next)),
      add_change ''target'' (TargetDisplay prev) (TargetDisplay next),
      add_change ''vps_mode'' (r_VPSMode prev) (r_VPSMode next),
      add_change ''proxy_protocol'' (boolField (r_ProxyProtocol prev)) (boolField (r_ProxyProtocol next)),
      add_prefixes ''source_deny'' (r_SourceDeny prev) (r_SourceDeny next),
      add_prefixes ''source_allow'' (r_SourceAllow prev) (r_SourceAllow next),
      add_change ''new_flow_rate'' (rateField (r_NewFlowRate prev)) (rateField (r_NewFlowRate next)),
      add_change ''packet_rate'' (rateField (r_PacketRate prev)) (rateField (r_PacketRate next)),
      add_change ''per_source_rate'' (rateField (r_PerSourceRate prev)) (rateField (r_PerSourceRate next)),
      add_change ''enabled'' (boolField (r_Enabled prev)) (boolField (r_Enabled next))]"

definition diff_desired :: "(string \<rightharpoonup> Rule) \<Rightarrow> Rule \<Rightarrow> RuleChange" where
  "diff_desired cur d =
     (case cur (r_ID d) of
        None \<Rightarrow> \<lparr>rc_Kind = ChangeAdded, rc_Rule = d, rc_Previous = zeroRule, rc_FieldChanges = []\<rparr>
      | Some c \<Rightarrow>
          (if fieldChanges c d \<noteq> []
           then \<lparr>rc_Kind = ChangeChanged, rc_Rule = d, rc_Previous = c, rc_FieldChanges = fieldChanges c d\<rparr>
           else \<lparr>rc_Kind = ChangeUnchanged, rc_Rule = d, rc_Previous = zeroRule, rc_FieldChanges = []\<rparr>))"

definition DiffRules :: "Rule list \<Rightarrow> Rule list \<Rightarrow> RuleChange list" where
  "DiffRules current desired =
     map (diff_desired (byID current)) desired @
     map (\<lambda>c. \<lparr>rc_Kind = ChangeDeleted, rc_Rule = c, rc_Previous = zeroRule, rc_FieldChanges = []\<rparr>)
       (filter (\<lambda>c. r_ID c \<notin> set (map r_ID desired)) current)"

definition DeletedIDs :: "RuleChange list \<Rightarrow> string list" where
  "DeletedIDs diff = map (\<lambda>c. r_ID (rc_Rule c)) (filter (\<lambda>c. rc_Kind c = ChangeDeleted) diff)"

definition RulesDigest :: "(Rule list \<Rightarrow> string) \<Rightarrow> Rule list \<Rightarrow> string" where
  "RulesDigest hash rules = hash (sort_key r_ID rules)"

subsection \<open>What an empty field list means\<close>

lemma add_change_Nil [simp]: "add_change f a b = [] \<longleftrightarrow> a = b"
  by (simp add: add_change_def)

lemma add_prefixes_Nil [simp]: "add_prefixes f a b = [] \<longleftrightarrow> set a = set b"
  by (simp add: add_prefixes_def equalPrefixSet_iff)

lemma boolField_inject [simp]: "boolField a = boolField b \<longleftrightarrow> a = b"
  by (simp add: boolField_def)

definition rule_rates_ok :: "Rule \<Rightarrow> bool" where
  "rule_rates_ok r = (pred_option rate_ok (r_NewFlowRate r) \<and> pred_option rate_ok (r_PacketRate r)
     \<and> pred_option rate_ok (r_PerSourceRate r))"

lemma rateField_inject:
  "pred_option rate_ok a \<Longrightarrow> pred_option rate_ok b \<Longrightarrow> rateField a = rateField b \<longleftrightarrow> a = b"
  by (cases a; cases b) (auto simp: rateField_def Rate_String_def intro: rate_text.marshal_inj [unfolded Rate_String_def])

lemma last_sep_inject:
  assumes "a @ c # itoa m = b @ c # itoa n" and "\<not> is_digit c"
  shows "a = b \<and> m = n"
proof -
  have *: "c \<notin> set (itoa k)" for k using itoa_char_digit assms(2) by blast
  have "lastIndexByte c (a @ c # itoa m) = lastIndexByte c (b @ c # itoa n)" using assms(1) by simp
  then have "length a = length b" using * by simp
  with assms(1) show ?thesis by simp
qed

lemma TargetDisplay_inject:
  assumes "validate_target_port a = None" "validate_target_port b = None"
    and "r_ListenPort a = r_ListenPort b" "TargetDisplay a = TargetDisplay b"
    and "range_ok (r_ListenPort a)"
  shows "splitTarget (r_Target a) = splitTarget (r_Target b)"
proof (cases "Lo (r_ListenPort a) = Hi (r_ListenPort a)")
  case True
  with assms(3,4) show ?thesis by (simp add: TargetDisplay_def)
next
  case False
  obtain h q where a: "splitTarget (r_Target a) = Inr (h, q)" "uint q + Len (r_ListenPort a) - 1 \<le> 65535"
    using assms(1) validate_target_port_None by blast
  obtain h' q' where b: "splitTarget (r_Target b) = Inr (h', q')" "uint q' + Len (r_ListenPort b) - 1 \<le> 65535"
    using assms(2) validate_target_port_None by blast
  let ?pre = "\<lambda>h (q :: uint16). joinHostPort h (itoa (unat q))"
  let ?hi = "\<lambda>q. uint q + uint (Hi (r_ListenPort a)) - uint (Lo (r_ListenPort a))"
  have eq: "?pre h q @ ''-'' @ itoa_int (?hi q) = ?pre h' q' @ ''-'' @ itoa_int (?hi q')"
    using assms(3,4) False a(1) b(1) by (simp add: TargetDisplay_def)
  have split: "splitTarget (?pre k r) = Inr (k, r)" if "splitTarget t = Inr (k, r)" for t k r
    using splitTarget_join [OF that, of "unat r"] splitTarget_host(4) [OF that] unat_uint16 [of r]
    by (simp add: unat_gt_0)
  have "uint (Lo (r_ListenPort a)) \<le> uint (Hi (r_ListenPort a))"
    using assms(5) by (simp add: range_ok_def word_le_def)
  then have "0 \<le> ?hi r" for r :: uint16 using uint_ge_0 [of r] by linarith
  then have "itoa_int (?hi r) = itoa (nat (?hi r))" for r :: uint16
    unfolding itoa_int_def by (metis not_less)
  with eq have "?pre h q = ?pre h' q'"
    using last_sep_inject [of "?pre h q" "CHR ''-''" "nat (?hi q)" "?pre h' q'" "nat (?hi q')"]
    by (simp add: is_digit_def)
  then have "splitTarget (?pre h q) = splitTarget (?pre h' q')" by simp
  then show ?thesis using split [OF a(1)] split [OF b(1)] a(1) b(1) by simp
qed

lemma fieldChanges_Nil:
  "fieldChanges a b = [] \<longleftrightarrow>
     r_Agent a = r_Agent b \<and> r_Group a = r_Group b \<and> r_Note a = r_Note b \<and> r_Proto a = r_Proto b
     \<and> PortRange_String (r_ListenPort a) = PortRange_String (r_ListenPort b)
     \<and> TargetDisplay a = TargetDisplay b \<and> r_VPSMode a = r_VPSMode b
     \<and> r_ProxyProtocol a = r_ProxyProtocol b
     \<and> set (r_SourceDeny a) = set (r_SourceDeny b) \<and> set (r_SourceAllow a) = set (r_SourceAllow b)
     \<and> rateField (r_NewFlowRate a) = rateField (r_NewFlowRate b)
     \<and> rateField (r_PacketRate a) = rateField (r_PacketRate b)
     \<and> rateField (r_PerSourceRate a) = rateField (r_PerSourceRate b)
     \<and> r_Enabled a = r_Enabled b"
  by (simp add: fieldChanges_def)

text \<open>Two rules with no field change between them forward alike.\<close>

definition forward_alike :: "Rule \<Rightarrow> Rule \<Rightarrow> bool" where
  "forward_alike a b =
     (r_Agent a = r_Agent b \<and> r_Proto a = r_Proto b \<and> r_ListenPort a = r_ListenPort b
      \<and> r_VPSMode a = r_VPSMode b \<and> r_ProxyProtocol a = r_ProxyProtocol b
      \<and> set (r_SourceDeny a) = set (r_SourceDeny b) \<and> set (r_SourceAllow a) = set (r_SourceAllow b)
      \<and> r_NewFlowRate a = r_NewFlowRate b \<and> r_PacketRate a = r_PacketRate b
      \<and> r_PerSourceRate a = r_PerSourceRate b \<and> r_Enabled a = r_Enabled b
      \<and> (\<forall>p. EffectiveTarget (ForAgent a) p = EffectiveTarget (ForAgent b) p))"

lemma fieldChanges_Nil_alike:
  assumes "fieldChanges a b = []" "range_ok (r_ListenPort a)" "range_ok (r_ListenPort b)"
    and "rule_rates_ok a" "rule_rates_ok b"
    and "validate_target_port a = None" "validate_target_port b = None"
  shows "forward_alike a b"
proof -
  note f = assms(1) [unfolded fieldChanges_Nil]
  then have lp: "r_ListenPort a = r_ListenPort b"
    using port_text.marshal_inj [OF assms(2,3)] by simp
  have "splitTarget (r_Target a) = splitTarget (r_Target b)"
    using TargetDisplay_inject [OF assms(6,7) lp _ assms(2)] f by simp
  then have "EffectiveTarget (ForAgent a) p = EffectiveTarget (ForAgent b) p" for p
    using lp by (simp add: EffectiveTarget_def ForAgent_def split: sum.splits prod.splits)
  with f lp assms(4,5) show ?thesis
    by (simp add: forward_alike_def rule_rates_ok_def rateField_inject)
qed

subsection \<open>The rows of a difference\<close>

lemma diff_desired_rule [simp]: "rc_Rule (diff_desired cur d) = d"
  by (auto simp: diff_desired_def split: option.splits)

lemma diff_desired_not_deleted [simp]: "rc_Kind (diff_desired cur d) \<noteq> ChangeDeleted"
  by (auto simp: diff_desired_def split: option.splits)

lemma DiffRules_kept: "map rc_Rule (filter (\<lambda>c. rc_Kind c \<noteq> ChangeDeleted) (DiffRules current desired)) = desired"
  by (simp add: DiffRules_def filter_map comp_def map_idI)

lemma DiffRules_deleted:
  "DeletedIDs (DiffRules current desired) = filter (\<lambda>i. i \<notin> set (map r_ID desired)) (map r_ID current)"
  by (simp add: DiffRules_def DeletedIDs_def filter_map comp_def)

lemma DiffRules_Unchanged:
  assumes "c \<in> set (DiffRules current desired)" "rc_Kind c = ChangeUnchanged"
  shows "\<exists>prev. byID current (r_ID (rc_Rule c)) = Some prev \<and> fieldChanges prev (rc_Rule c) = []"
  using assms
  by (auto simp: DiffRules_def diff_desired_def split: option.splits if_splits)

end
