(* ===== verification/Model.thy ===== *)
theory Model
  imports Proto_ImportDiff
begin

section \<open>The normalized rule (internal/model)\<close>

text \<open>
  The internal form of a rule: \<open>vps_mode\<close> and \<open>proxy_protocol\<close> become the two
  axes \<open>Forwarding\<close> and \<open>SourceMetadata\<close>; every other field is carried over.
  Both are Go integers with two named values each; the third constructor is any
  other integer.
\<close>

datatype Forwarding = Transparent | Relay | ForwardingOther int
datatype SourceMetadata = NoSourceMetadata | ProxyV2 | SourceMetadataOther int

definition Forwarding_String :: "Forwarding \<Rightarrow> string" where
  "Forwarding_String f =
     (case f of Transparent \<Rightarrow> ''transparent'' | Relay \<Rightarrow> ''relay''
      | ForwardingOther n \<Rightarrow> ''Forwarding('' @ itoa_int n @ '')'')"

definition SourceMetadata_String :: "SourceMetadata \<Rightarrow> string" where
  "SourceMetadata_String m =
     (case m of NoSourceMetadata \<Rightarrow> ''none'' | ProxyV2 \<Rightarrow> ''proxy-v2''
      | SourceMetadataOther n \<Rightarrow> ''SourceMetadata('' @ itoa_int n @ '')'')"

record MRule =
  m_ID :: string
  m_Agent :: string
  m_Group :: string
  m_Note :: string
  m_Proto :: Proto
  m_ListenPort :: PortRange
  m_Target :: string
  m_Forwarding :: Forwarding
  m_SourceMetadata :: SourceMetadata
  m_SourceAllow :: "prefix list"
  m_SourceDeny :: "prefix list"
  m_NewFlowRate :: "Rate option"
  m_PacketRate :: "Rate option"
  m_PerSourceRate :: "Rate option"
  m_Enabled :: bool

datatype model_error = ModelProxyProtocol | ModelVPSMode string

datatype normalize_error = NormalizeSet set_error | NormalizeRule string model_error

definition forwardingFromProto ::
  "VPSMode \<Rightarrow> bool \<Rightarrow> (model_error, Forwarding \<times> SourceMetadata) res" where
  "forwardingFromProto mode proxyProtocol =
     (if mode = ModeKernel then
        (if proxyProtocol then Inl ModelProxyProtocol else Inr (Transparent, NoSourceMetadata))
      else if mode = ModeProxy then
        (if proxyProtocol then Inr (Relay, ProxyV2) else Inr (Relay, NoSourceMetadata))
      else Inl (ModelVPSMode mode))"

definition protoForwarding :: "Forwarding \<Rightarrow> SourceMetadata \<Rightarrow> VPSMode \<times> bool" where
  "protoForwarding f m = (if f = Relay then (ModeProxy, m = ProxyV2) else (ModeKernel, False))"

definition FromProto :: "Rule \<Rightarrow> (normalize_error, MRule) res" where
  "FromProto r =
     (case forwardingFromProto (r_VPSMode r) (r_ProxyProtocol r) of
        Inl e \<Rightarrow> Inl (NormalizeRule (r_ID r) e)
      | Inr (fwd, md) \<Rightarrow> Inr
          \<lparr>m_ID = r_ID r, m_Agent = r_Agent r, m_Group = r_Group r, m_Note = r_Note r,
           m_Proto = r_Proto r, m_ListenPort = r_ListenPort r, m_Target = r_Target r,
           m_Forwarding = fwd, m_SourceMetadata = md,
           m_SourceAllow = r_SourceAllow r, m_SourceDeny = r_SourceDeny r,
           m_NewFlowRate = r_NewFlowRate r, m_PacketRate = r_PacketRate r,
           m_PerSourceRate = r_PerSourceRate r, m_Enabled = r_Enabled r\<rparr>)"

definition ToProto :: "MRule \<Rightarrow> Rule" where
  "ToProto r =
     (let (mode, proxyProtocol) = protoForwarding (m_Forwarding r) (m_SourceMetadata r) in
      \<lparr>r_ID = m_ID r, r_Agent = m_Agent r, r_Group = m_Group r, r_Note = m_Note r,
       r_Proto = m_Proto r, r_ListenPort = m_ListenPort r, r_Target = m_Target r,
       r_VPSMode = mode, r_ProxyProtocol = proxyProtocol,
       r_SourceAllow = m_SourceAllow r, r_SourceDeny = m_SourceDeny r,
       r_NewFlowRate = m_NewFlowRate r, r_PacketRate = m_PacketRate r,
       r_PerSourceRate = m_PerSourceRate r, r_Enabled = m_Enabled r\<rparr>)"

fun fromProtoAll :: "Rule list \<Rightarrow> (normalize_error, MRule list) res" where
  "fromProtoAll [] = Inr []"
| "fromProtoAll (r # rs) =
     (case FromProto r of
        Inl e \<Rightarrow> Inl e
      | Inr m \<Rightarrow> (case fromProtoAll rs of Inl e \<Rightarrow> Inl e | Inr ms \<Rightarrow> Inr (m # ms)))"

definition NormalizeRules ::
  "(nat \<Rightarrow> bool) \<Rightarrow> Rule list \<Rightarrow> Reserved \<Rightarrow> (normalize_error, MRule list) res" where
  "NormalizeRules graphic rules reserved =
     (case ValidateRules graphic rules reserved of
        Some e \<Rightarrow> Inl (NormalizeSet e)
      | None \<Rightarrow> fromProtoAll rules)"

subsection \<open>Round trips\<close>

text \<open>The combinations a normalized rule may hold: PROXY protocol only on a relay.\<close>

definition mrule_ok :: "MRule \<Rightarrow> bool" where
  "mrule_ok m =
     (m_Forwarding m = Transparent \<and> m_SourceMetadata m = NoSourceMetadata
      \<or> m_Forwarding m = Relay \<and> m_SourceMetadata m \<in> {NoSourceMetadata, ProxyV2})"

lemma FromProto_ToProto: "mrule_ok m \<Longrightarrow> FromProto (ToProto m) = Inr m"
  by (auto simp: mrule_ok_def FromProto_def ToProto_def protoForwarding_def forwardingFromProto_def)

lemma ToProto_FromProto: "FromProto r = Inr m \<Longrightarrow> ToProto m = r \<and> mrule_ok m"
  by (auto simp: mrule_ok_def FromProto_def ToProto_def protoForwarding_def forwardingFromProto_def
      split: sum.splits if_splits prod.splits)

lemma valid_mode_FromProto:
  assumes "validate_mode r = None" "validate_rest r = None"
  shows "\<exists>m. FromProto r = Inr m"
  using assms
  by (auto simp: validate_mode_def validate_rest_def FromProto_def forwardingFromProto_def
      split: if_splits)

lemma fromProtoAll_Inr: "fromProtoAll rs = Inr ms \<longleftrightarrow> map FromProto rs = map Inr ms"
  by (induction rs arbitrary: ms) (auto split: sum.splits, blast)

lemma fromProtoAll_total: "(\<forall>r \<in> set rs. \<exists>m. FromProto r = Inr m) \<Longrightarrow> \<exists>ms. fromProtoAll rs = Inr ms"
  by (induction rs) (auto split: sum.splits)

lemma ValidateRules_None_iff:
  "ValidateRules graphic rules reserved = None \<longleftrightarrow>
     (\<forall>r \<in> set rules. Validate graphic r = None) \<and> rule_set_ok reserved rules"
  by (simp add: ValidateRules_def validateRuleSet_None_iff)

lemma NormalizeRules_Inr:
  assumes "ValidateRules graphic rules reserved = None"
  shows "\<exists>ms. NormalizeRules graphic rules reserved = Inr ms \<and> map ToProto ms = rules \<and> list_all mrule_ok ms"
proof -
  have "\<forall>r \<in> set rules. \<exists>m. FromProto r = Inr m"
    using assms valid_mode_FromProto by (auto simp: ValidateRules_None_iff Validate_None_iff)
  then obtain ms where ms: "fromProtoAll rules = Inr ms" using fromProtoAll_total by blast
  then have *: "map FromProto rules = map Inr ms" by (simp add: fromProtoAll_Inr)
  then have len: "length ms = length rules" by (metis length_map)
  have "ToProto (ms ! i) = rules ! i \<and> mrule_ok (ms ! i)" if "i < length rules" for i
    using * that len ToProto_FromProto by (metis nth_map)
  with len have "map ToProto ms = rules" "list_all mrule_ok ms"
    by (auto simp: list_all_length intro: nth_equalityI)
  with ms assms show ?thesis by (simp add: NormalizeRules_def)
qed

end
