(* ===== verification/Rule_Properties.thy ===== *)
theory Rule_Properties
  imports Model "HOL-Library.Code_Target_Nat"
begin

section \<open>Properties of the rule schema\<close>

text \<open>
  The theorems about \<open>proto\<close> and \<open>internal/model\<close>: text forms, validation, the
  effective target, splitting and merging, the difference of two rule sets, and
  normalization. The rules below are the inputs of the witnesses.
\<close>

definition sample_range :: Rule where
  "sample_range = \<lparr>r_ID = ''game'', r_Agent = ''home'', r_Group = [], r_Note = [], r_Proto = UDP,
     r_ListenPort = \<lparr>Lo = 9000, Hi = 9009\<rparr>, r_Target = ''192.168.1.10:7000'', r_VPSMode = ModeKernel,
     r_ProxyProtocol = False, r_SourceAllow = [], r_SourceDeny = [],
     r_NewFlowRate = Some \<lparr>Count = 10, Unit = ''second''\<rparr>, r_PacketRate = None,
     r_PerSourceRate = None, r_Enabled = True\<rparr>"

definition sample_web :: Rule where
  "sample_web = \<lparr>r_ID = ''web'', r_Agent = ''home'', r_Group = [], r_Note = [], r_Proto = TCP,
     r_ListenPort = \<lparr>Lo = 443, Hi = 443\<rparr>, r_Target = ''nas.lan:8443'', r_VPSMode = ModeProxy,
     r_ProxyProtocol = True, r_SourceAllow = [], r_SourceDeny = [],
     r_NewFlowRate = None, r_PacketRate = None, r_PerSourceRate = None, r_Enabled = True\<rparr>"

definition sample_point :: PortRange where
  "sample_point = \<lparr>Lo = 9004, Hi = 9004\<rparr>"

lemma sample_range_valid: "Validate (\<lambda>_. True) sample_range = None"
  by code_simp

lemma sample_web_valid: "Validate (\<lambda>_. True) sample_web = None"
  by code_simp

lemma sample_range_target_port: "validate_target_port sample_range = None"
  using sample_range_valid by (simp add: Validate_None_iff)

lemma sample_set_valid: "ValidateRules (\<lambda>_. True) [sample_range, sample_web] [(22, ''ssh'')] = None"
  by code_simp

lemma sample_split:
  "Split sample_range sample_point ''game-2'' =
     Inr (sample_range\<lparr>r_ListenPort := \<lparr>Lo = 9000, Hi = 9003\<rparr>\<rparr>,
          sample_range\<lparr>r_ID := ''game-2'', r_ListenPort := \<lparr>Lo = 9004, Hi = 9009\<rparr>,
                        r_Target := ''192.168.1.10:7004''\<rparr>)"
  by code_simp

subsection \<open>Text forms\<close>

text \<open>A port range survives printing and parsing exactly when both ends are nonzero and in
  order; in particular every range the parser accepts is one it reads back.\<close>

theorem port_range_roundtrip:
  "ParsePortRange (PortRange_String r) = Inr r \<longleftrightarrow> range_ok r"
  using ParsePortRange_String ParsePortRange_ok by blast

text \<open>A rate survives printing and parsing exactly when its count is positive and its unit is one
  of the five units.\<close>

theorem rate_roundtrip: "ParseRate (Rate_String r) = Inr r \<longleftrightarrow> rate_ok r"
  using ParseRate_String ParseRate_ok by blast

text \<open>The version two peers select is the largest one both of them support, and there is one
  exactly when they have a version in common.\<close>

theorem select_version_largest:
  "SelectProtocolVersion a b = (v, True) \<longleftrightarrow>
     supports a v \<and> supports b v \<and> (\<forall>w. supports a w \<and> supports b w \<longrightarrow> w \<le> v)"
  by (rule SelectProtocolVersion_iff)

theorem select_version_largest_witness:
  "SelectProtocolVersion \<lparr>MinVersion = 1, MaxVersion = 3\<rparr> \<lparr>MinVersion = 2, MaxVersion = 5\<rparr> = (3, True)
   \<and> supports \<lparr>MinVersion = 2, MaxVersion = 5\<rparr> 3"
proof -
  have "SelectProtocolVersion \<lparr>MinVersion = 1, MaxVersion = 3\<rparr> \<lparr>MinVersion = 2, MaxVersion = 5\<rparr> = (3, True)"
    by code_simp
  then show ?thesis
    using select_version_largest [of "\<lparr>MinVersion = 1, MaxVersion = 3\<rparr>" "\<lparr>MinVersion = 2, MaxVersion = 5\<rparr>" 3]
    by blast
qed

subsection \<open>Accepted rule sets\<close>

text \<open>C12. In an accepted rule set a port of a protocol belongs to at most one rule, and no rule
  listens on a reserved port.\<close>

theorem accepted_port_owner:
  assumes "ValidateRules graphic rules reserved = None"
    and "r \<in> set rules" and "Contains (r_ListenPort r) p"
  shows "(\<forall>q \<in> set rules. r_Proto q = r_Proto r \<and> Contains (r_ListenPort q) p \<longrightarrow> q = r)
    \<and> p \<notin> fst ` set reserved"
proof -
  have ok: "rule_set_ok reserved rules" using assms(1) by (simp add: ValidateRules_None_iff)
  then have "reserved_free reserved r" using assms(2) by (simp add: rule_set_ok_def list_all_iff)
  with assms(3) have "p \<notin> fst ` set reserved" by (auto simp: reserved_free_def)
  moreover have "q = r" if "q \<in> set rules" "r_Proto q = r_Proto r" "Contains (r_ListenPort q) p" for q
    using rule_set_ok_owner [OF ok that(1) assms(2) that(2,3) assms(3)] .
  ultimately show ?thesis by blast
qed

theorem accepted_port_owner_witness:
  "ValidateRules (\<lambda>_. True) [sample_range, sample_web] [(22, ''ssh'')] = None
   \<and> {q. q \<in> {sample_range, sample_web} \<and> r_Proto q = UDP \<and> Contains (r_ListenPort q) 9003} = {sample_range}"
proof -
  have "Contains (r_ListenPort sample_range) 9003" "r_Proto sample_range = UDP" by (simp_all add: sample_range_def Contains_def)
  then show ?thesis using accepted_port_owner [OF sample_set_valid, of sample_range 9003] sample_set_valid by auto
qed

text \<open>C22. An edit of a stored rule set is accepted exactly when the rules that differ from the
  stored row with their identifier, or have none, are valid, the set as a whole has no conflict, and no agent exceeds the limit of 512
  rules except one that already did and gains none. The rows kept as they were are not re-checked.\<close>

theorem upsert_accepts:
  "ValidateUpsert graphic rules before reserved = None \<longleftrightarrow>
     (\<forall>r \<in> set rules. find (\<lambda>b. r_ID b = r_ID r) (rev before) = Some r \<or> Validate graphic r = None)
     \<and> rule_set_ok reserved rules
     \<and> (\<forall>a. length (filter (\<lambda>r. r_Agent r = a) rules) \<le> max 512 (length (filter (\<lambda>r. r_Agent r = a) before)))"
proof -
  have count: "RuleCountsByAgent rs a = length (filter (\<lambda>r. r_Agent r = a) rs)" for rs a
    by (induction rs) (auto simp: RuleCountsByAgent_def)
  have "UnchangedIDs rules before (r_ID r) \<longleftrightarrow> find (\<lambda>b. r_ID b = r_ID r) (rev before) = Some r"
    if "rule_set_ok reserved rules" "r \<in> set rules" for r
    using that by (intro UnchangedIDs_iff) (simp_all add: rule_set_ok_def)
  then show ?thesis
    by (auto simp: ValidateUpsert_def validateRuleSet_None_iff checkAgentRuleCounts_None_iff count MaxRulesPerAgent_def)
qed

text \<open>A stored row that fails today's checks, here because of a bad target: it is accepted as it is, and not once it is edited.\<close>

definition stale_rule :: Rule where
  "stale_rule = sample_web\<lparr>r_Target := ''nowhere''\<rparr>"

theorem upsert_accepts_witness:
  "Validate (\<lambda>_. True) stale_rule \<noteq> None
   \<and> ValidateUpsert (\<lambda>_. True) [sample_range, stale_rule] [stale_rule] [] = None
   \<and> ValidateUpsert (\<lambda>_. True) [sample_range, stale_rule\<lparr>r_Enabled := False\<rparr>] [stale_rule] [] \<noteq> None"
proof -
  let ?edit = "stale_rule\<lparr>r_Enabled := False\<rparr>"
  have v: "Validate (\<lambda>_. True) stale_rule \<noteq> None" "Validate (\<lambda>_. True) ?edit \<noteq> None" by code_simp+
  have "ValidateUpsert (\<lambda>_. True) [sample_range, stale_rule] [stale_rule] [] = None" by code_simp
  moreover have "find (\<lambda>b. r_ID b = r_ID ?edit) (rev [stale_rule]) \<noteq> Some ?edit" by code_simp
  then have "ValidateUpsert (\<lambda>_. True) [sample_range, ?edit] [stale_rule] [] \<noteq> None"
    using upsert_accepts [of "\<lambda>_. True" "[sample_range, ?edit]" "[stale_rule]" "[]"] v(2) by (metis list.set_intros)
  ultimately show ?thesis using v(1) by blast
qed

text \<open>Deleting rules from a stored rule set is always accepted, whatever the stored rows are,
  as long as what is left had no conflict: an old row that today's checks would refuse does not
  block the edit.\<close>

theorem delete_always_accepted:
  assumes "rule_set_ok reserved rules"
  shows "ValidateUpsert graphic (filter keep rules) rules reserved = None"
proof -
  have d: "distinct (map r_ID rules)" using assms by (simp add: rule_set_ok_def)
  then have "UnchangedIDs (filter keep rules) rules (r_ID r)" if "r \<in> set (filter keep rules)" for r
    using that byID_mem [OF d] by (auto simp: UnchangedIDs_def list_ex_iff)
  moreover have "rule_set_ok reserved (filter keep rules)"
    using assms by (auto simp: rule_set_ok_def distinct_map_filter list_all_iff sorted_wrt_filter)
  moreover have "RuleCountsByAgent (filter keep rules) a \<le> RuleCountsByAgent rules a" for a
    by (induction rules) (auto simp: RuleCountsByAgent_def)
  ultimately show ?thesis
    by (auto simp: ValidateUpsert_def validateRuleSet_None_iff checkAgentRuleCounts_None_iff intro: le_max_iff_disj [THEN iffD2])
qed

theorem delete_always_accepted_witness:
  "ValidateUpsert (\<lambda>_. False) (filter (\<lambda>r. r_ID r = ''web'') [sample_range, sample_web]) [sample_range, sample_web] [] = None"
proof (rule delete_always_accepted)
  show "rule_set_ok [] [sample_range, sample_web]"
    by (simp add: rule_set_ok_def sample_range_def sample_web_def reserved_free_def ports_clash_def)
qed

subsection \<open>Effective targets\<close>

text \<open>Every port of a valid rule has an effective target: the rule's host with the target's port
  shifted by the offset of the port in the listen range, and it parses back to that host and port.\<close>

theorem effective_target_total:
  assumes "Validate graphic r = None" and "Contains (r_ListenPort r) p"
  shows "\<exists>h q n. splitTarget (r_Target r) = Inr (h, q)
    \<and> int n = uint q + (uint p - uint (Lo (r_ListenPort r))) \<and> n < 65536
    \<and> EffectiveTarget (ForAgent r) p = (joinHostPort h (itoa n), True)
    \<and> splitTarget (joinHostPort h (itoa n)) = Inr (h, word_of_nat n)"
proof -
  obtain h q where hq: "splitTarget (r_Target r) = Inr (h, q)"
      "uint q + (uint p - uint (Lo (r_ListenPort r))) \<le> 65535"
      "EffectiveTarget (ForAgent r) p =
         (joinHostPort h (itoa (nat (uint q + (uint p - uint (Lo (r_ListenPort r)))))), True)"
    using valid_rule_effective [OF _ assms(2)] assms(1) by (auto simp: Validate_None_iff)
  have "0 < uint q" using splitTarget_host(4) [OF hq(1)] uint_ge_0 [of q] by (simp add: uint_0_iff order_less_le)
  moreover have "uint (Lo (r_ListenPort r)) \<le> uint p" using assms(2) by (simp add: Contains_def word_le_def)
  ultimately have "0 < nat (uint q + (uint p - uint (Lo (r_ListenPort r))))" by linarith
  with hq splitTarget_join [OF hq(1)] show ?thesis
    by (intro exI [of _ h] exI [of _ q] exI [of _ "nat (uint q + (uint p - uint (Lo (r_ListenPort r))))"]) auto
qed

theorem effective_target_total_witness:
  "\<exists>h q n. splitTarget (r_Target sample_range) = Inr (h, q)
    \<and> int n = uint q + (uint (9003 :: uint16) - uint (Lo (r_ListenPort sample_range))) \<and> n < 65536
    \<and> EffectiveTarget (ForAgent sample_range) 9003 = (joinHostPort h (itoa n), True)
    \<and> splitTarget (joinHostPort h (itoa n)) = Inr (h, word_of_nat n)"
  by (rule effective_target_total [OF sample_range_valid]) (simp add: sample_range_def Contains_def)

subsection \<open>Splitting and merging\<close>

text \<open>C15. A split cuts the listen range at the given port without a gap or an overlap, and every port
  keeps its effective target in the part it falls into.\<close>

theorem split_keeps_targets:
  assumes "Split r at tailID = Inr (head, tail)" and "validate_target_port r = None"
    and "Contains (r_ListenPort r) p"
  shows "Contains (r_ListenPort head) p \<noteq> Contains (r_ListenPort tail) p
    \<and> EffectiveTarget (ForAgent (if Contains (r_ListenPort head) p then head else tail)) p
        = EffectiveTarget (ForAgent r) p
    \<and> snd (EffectiveTarget (ForAgent r) p)"
proof -
  obtain h and q :: uint16 where "EffectiveTarget (ForAgent r) p =
      (joinHostPort h (itoa (nat (uint q + (uint p - uint (Lo (r_ListenPort r)))))), True)"
    using valid_rule_effective [OF assms(2,3)] by blast
  then show ?thesis
    using Split_effective [OF assms] Split_partition [OF assms(1), of p] assms(3) by simp
qed

theorem split_keeps_targets_witness:
  "EffectiveTarget (ForAgent (sample_range\<lparr>r_ID := ''game-2'', r_ListenPort := \<lparr>Lo = 9004, Hi = 9009\<rparr>,
                        r_Target := ''192.168.1.10:7004''\<rparr>)) 9006
   = EffectiveTarget (ForAgent sample_range) 9006"
  using split_keeps_targets [OF sample_split sample_range_target_port, of 9006]
  by (simp add: sample_range_def Contains_def)

text \<open>A split succeeds exactly when the cut is a single port inside the range after its first
  port, and a proxy rule is cut into single ports.\<close>

theorem split_succeeds:
  "is_ok (Split r at tailID) \<longleftrightarrow>
     Lo at = Hi at \<and> Lo (r_ListenPort r) < Lo at \<and> Lo at \<le> Hi (r_ListenPort r)
     \<and> (r_VPSMode r \<noteq> ModeProxy \<or> Lo (r_ListenPort r) = Lo at - 1 \<and> Lo at = Hi (r_ListenPort r))"
  by (auto simp: Split_def Let_def is_ok_def IsRange_def)

theorem split_succeeds_witness:
  "is_ok (Split sample_range sample_point ''game-2'')"
  using split_succeeds [of sample_range sample_point "''game-2''"]
  by (simp add: sample_range_def sample_point_def)

text \<open>C23. Merging the tail of a split into the head gives the rule back; merging the head into the
  tail gives the same rule under the identifier of the tail, the part that is merged into. Only a rule in
  proxy mode is different: its two ports cannot become a range again, and both merges are refused for
  that reason.\<close>

theorem merge_inverts_split:
  assumes "Split r at tailID = Inr (head, tail)" and "validate_target_port r = None"
  shows "if r_VPSMode r = ModeProxy then Merge head tail = Inl BlockProxyRange \<and> Merge tail head = Inl BlockProxyRange
    else Merge head tail = Inr r \<and> Merge tail head = Inr (r\<lparr>r_ID := tailID\<rparr>)"
proof (cases "r_VPSMode r = ModeProxy")
  case True
  then have "FindMergeBlocker head tail = BlockProxyRange" "FindMergeBlocker tail head = BlockProxyRange"
    using Split_blocker [OF assms] FindMergeBlocker_order [of tail head head tail] Split_order [OF assms(1)] by auto
  then show ?thesis using True by (simp add: Merge_def)
next
  case False
  note ord = Split_order [OF assms(1)]
  have b: "FindMergeBlocker head tail = BlockNone" "FindMergeBlocker tail head = BlockNone"
    using Split_blocker [OF assms] False FindMergeBlocker_order [of tail head head tail] ord by auto
  let ?whole = "\<lambda>s. s\<lparr>r_ListenPort := \<lparr>Lo = Lo (r_ListenPort head), Hi = Hi (r_ListenPort tail)\<rparr>,
    r_Target := r_Target head\<rparr>"
  have "Merge head tail = Inr (?whole head) \<and> Merge tail head = Inr (?whole tail)"
    using b ord by (simp add: Merge_def)
  then show ?thesis using False unfolding Split_Inr(4,5) [OF assms(1)] by simp
qed

theorem merge_inverts_split_witness:
  "Merge (sample_range\<lparr>r_ListenPort := \<lparr>Lo = 9000, Hi = 9003\<rparr>\<rparr>)
         (sample_range\<lparr>r_ID := ''game-2'', r_ListenPort := \<lparr>Lo = 9004, Hi = 9009\<rparr>,
                        r_Target := ''192.168.1.10:7004''\<rparr>) = Inr sample_range
   \<and> Merge (sample_range\<lparr>r_ID := ''game-2'', r_ListenPort := \<lparr>Lo = 9004, Hi = 9009\<rparr>, r_Target := ''192.168.1.10:7004''\<rparr>)
         (sample_range\<lparr>r_ListenPort := \<lparr>Lo = 9000, Hi = 9003\<rparr>\<rparr>) = Inr (sample_range\<lparr>r_ID := ''game-2''\<rparr>)"
  using merge_inverts_split [OF sample_split sample_range_target_port] by (simp add: sample_range_def)

text \<open>A merge forwards exactly the ports of the two rules, each to the target it had, and the
  two rules admitted the same sources at the same rates.\<close>

theorem merge_keeps_targets:
  assumes "Merge a b = Inr m" and "Validate graphic a = None" and "Validate graphic b = None"
    and "range_ok (r_ListenPort a)" and "range_ok (r_ListenPort b)"
  shows "(\<forall>p. Contains (r_ListenPort m) p \<longleftrightarrow> Contains (r_ListenPort a) p \<or> Contains (r_ListenPort b) p)
    \<and> (\<forall>s \<in> {a, b}. \<forall>p. Contains (r_ListenPort s) p \<longrightarrow>
          EffectiveTarget (ForAgent m) p = EffectiveTarget (ForAgent s) p
          \<and> r_Proto m = r_Proto s \<and> r_Agent m = r_Agent s \<and> r_Enabled m = r_Enabled s
          \<and> set (r_SourceDeny m) = set (r_SourceDeny s) \<and> set (r_SourceAllow m) = set (r_SourceAllow s)
          \<and> r_NewFlowRate m = r_NewFlowRate s \<and> r_PacketRate m = r_PacketRate s
          \<and> r_PerSourceRate m = r_PerSourceRate s)"
proof -
  obtain lo hi where o: "order_by_port a b = (lo, hi)" by (cases "order_by_port a b")
  have ab: "{a, b} = {lo, hi}" using o by (auto simp: order_by_port_def split: if_splits)
  have b: "FindMergeBlocker a b = BlockNone" using assms(1) by (auto simp: Merge_def split: if_splits)
  have m: "m = a\<lparr>r_ListenPort := \<lparr>Lo = Lo (r_ListenPort lo), Hi = Hi (r_ListenPort hi)\<rparr>, r_Target := r_Target lo\<rparr>"
    using assms(1) b o by (simp add: Merge_def)
  have ok: "range_ok (r_ListenPort lo)" "range_ok (r_ListenPort hi)"
      "validate_target_port lo = None" "validate_target_port hi = None"
    using assms(2-5) ab by (auto simp: Validate_None_iff doubleton_eq_iff)
  note d = FindMergeBlocker_NoneD [OF b o]
  have ports: "Contains (r_ListenPort m) p \<longleftrightarrow> Contains (r_ListenPort a) p \<or> Contains (r_ListenPort b) p" for p
    using adjacent_Contains(1) [OF ok(1,2) d(4), of p] ab by (auto simp: m doubleton_eq_iff)
  have "a \<in> {lo, hi}" using ab by auto
  then have "r_Proto m = r_Proto s \<and> r_Agent m = r_Agent s \<and> r_Enabled m = r_Enabled s
      \<and> set (r_SourceDeny m) = set (r_SourceDeny s) \<and> set (r_SourceAllow m) = set (r_SourceAllow s)
      \<and> r_NewFlowRate m = r_NewFlowRate s \<and> r_PacketRate m = r_PacketRate s
      \<and> r_PerSourceRate m = r_PerSourceRate s" if "s \<in> {lo, hi}" for s
    using that d by (auto simp: m)
  moreover have "EffectiveTarget (ForAgent m) p = EffectiveTarget (ForAgent s) p"
    if "s \<in> {lo, hi}" "Contains (r_ListenPort s) p" for s p
    by (rule Merge_effective [OF b o ok _ _ that]) (simp_all add: m)
  ultimately show ?thesis using ports unfolding ab by blast
qed

text \<open>The two rules of the next witness, as an operator would declare them side by side.\<close>

definition sample_low :: Rule where
  "sample_low = sample_range\<lparr>r_ListenPort := \<lparr>Lo = 9000, Hi = 9003\<rparr>\<rparr>"

definition sample_high :: Rule where
  "sample_high = sample_range\<lparr>r_ID := ''high'', r_ListenPort := \<lparr>Lo = 9004, Hi = 9009\<rparr>,
     r_Target := ''192.168.1.10:7004''\<rparr>"

theorem merge_keeps_targets_witness:
  "EffectiveTarget (ForAgent (sample_range\<lparr>r_ID := ''high''\<rparr>)) 9007 = EffectiveTarget (ForAgent sample_high) 9007"
proof -
  have m: "Merge sample_high sample_low = Inr (sample_range\<lparr>r_ID := ''high''\<rparr>)" by code_simp
  have v: "Validate (\<lambda>_. True) sample_high = None" "Validate (\<lambda>_. True) sample_low = None" by code_simp+
  have r: "range_ok (r_ListenPort sample_high)" "range_ok (r_ListenPort sample_low)" by code_simp+
  have c: "Contains (r_ListenPort sample_high) 9007" by code_simp
  from merge_keeps_targets [OF m v r] c show ?thesis by blast
qed

subsection \<open>The difference of two rule sets\<close>

text \<open>C24. The difference between a stored and a desired rule set loses nothing: its rows that are
  not deletions are the desired rules in their order, its deletions are the stored identifiers that
  are not desired, and a row called unchanged forwards as the stored rule does.\<close>

theorem diff_faithful:
  assumes "\<forall>r \<in> set current \<union> set desired.
      validate_target_port r = None \<and> range_ok (r_ListenPort r) \<and> rule_rates_ok r"
  shows "map rc_Rule (filter (\<lambda>c. rc_Kind c \<noteq> ChangeDeleted) (DiffRules current desired)) = desired
    \<and> DeletedIDs (DiffRules current desired) = filter (\<lambda>i. i \<notin> set (map r_ID desired)) (map r_ID current)
    \<and> (\<forall>c \<in> set (DiffRules current desired). rc_Kind c = ChangeUnchanged \<longrightarrow>
         (\<exists>prev \<in> set current. r_ID prev = r_ID (rc_Rule c) \<and> forward_alike prev (rc_Rule c)))"
proof -
  have "\<exists>prev \<in> set current. r_ID prev = r_ID (rc_Rule c) \<and> forward_alike prev (rc_Rule c)"
    if c: "c \<in> set (DiffRules current desired)" "rc_Kind c = ChangeUnchanged" for c
  proof -
    obtain prev where prev: "byID current (r_ID (rc_Rule c)) = Some prev" "fieldChanges prev (rc_Rule c) = []"
      using DiffRules_Unchanged [OF c] by blast
    have "prev \<in> set current" "r_ID prev = r_ID (rc_Rule c)"
      using prev(1) by (auto simp: byID_def dest!: map_of_SomeD)
    moreover have "rc_Rule c \<in> set desired"
      using c by (auto simp: DiffRules_def)
    ultimately show ?thesis
      using fieldChanges_Nil_alike [OF prev(2)] assms [THEN bspec, of prev] assms [THEN bspec, of "rc_Rule c"] by (intro bexI [of _ prev]) simp_all
  qed
  then show ?thesis by (intro conjI ballI impI DiffRules_kept DiffRules_deleted)
qed

theorem diff_faithful_witness:
  "DeletedIDs (DiffRules [sample_web, sample_range] [sample_range]) = [''web'']"
proof -
  have "validate_target_port sample_web = None" "range_ok (r_ListenPort sample_web)" by code_simp+
  moreover have "range_ok (r_ListenPort sample_range)" by code_simp
  moreover have "rule_rates_ok sample_web" "rule_rates_ok sample_range"
    by (simp_all add: rule_rates_ok_def sample_web_def sample_range_def rate_ok_def rate_units_def)
  ultimately have "\<forall>r \<in> set [sample_web, sample_range] \<union> set [sample_range].
      validate_target_port r = None \<and> range_ok (r_ListenPort r) \<and> rule_rates_ok r"
    using sample_range_target_port by simp
  from diff_faithful [OF this]
  have "DeletedIDs (DiffRules [sample_web, sample_range] [sample_range])
    = filter (\<lambda>i. i \<notin> set (map r_ID [sample_range])) (map r_ID [sample_web, sample_range])" by (elim conjE)
  then show ?thesis by (simp add: sample_web_def sample_range_def)
qed

text \<open>The digest of a rule set does not depend on the order of the rules.\<close>

theorem digest_order_free:
  assumes "mset rules = mset rules'" and "distinct (map r_ID rules)"
  shows "RulesDigest hash rules = RulesDigest hash rules'"
  using assms by (simp add: RulesDigest_def distinct_map sort_key_perm_unique)

theorem digest_order_free_witness:
  "RulesDigest (\<lambda>rs. concat (map r_ID rs)) [sample_web, sample_range]
   = RulesDigest (\<lambda>rs. concat (map r_ID rs)) [sample_range, sample_web]"
  by (rule digest_order_free) (simp_all add: sample_web_def sample_range_def)

subsection \<open>Source lists\<close>

text \<open>Reading source lines gives the prefix of every line that is not blank, in order, all of
  them masked; when it fails, the error names the first line that does not parse, counted from one
  with the blank lines.\<close>

theorem source_lines:
  "case ParseSourceLines t of
     Inr ps \<Rightarrow> map ParseSource (filter (\<lambda>l. l \<noteq> []) (map trimSpace (splitByte (CHR 0x0A) t))) = map Inr ps
       \<and> list_all (\<lambda>p. masked p = p \<and> prefix_ok p) ps
   | Inl e \<Rightarrow> (\<exists>k < length (splitByte (CHR 0x0A) t). \<exists>e'.
       let line = \<lambda>j. trimSpace (splitByte (CHR 0x0A) t ! j) in
       e = SourceLine (k + 1) (line k) e' \<and> ParseSource (line k) = Inl e'
       \<and> (\<forall>j < k. line j = [] \<or> is_ok (ParseSource (line j))))"
proof (cases "ParseSourceLines t")
  case (Inl e)
  then show ?thesis
    using ParseSourceLines_loop_Inl [of 0 "splitByte (CHR 0x0A) t" "[]" e]
    by (simp add: ParseSourceLines_def Let_def)
next
  case (Inr ps)
  let ?ls = "filter (\<lambda>l. l \<noteq> []) (map trimSpace (splitByte (CHR 0x0A) t))"
  have m: "map ParseSource ?ls = map Inr ps"
    using Inr by (simp add: ParseSourceLines_def ParseSourceLines_loop_Inr)
  have "masked p = p \<and> prefix_ok p" if "p \<in> set ps" for p
  proof -
    have "Inr p \<in> set (map ParseSource ?ls)" unfolding m using that by simp
    then show ?thesis using ParseSource_canonical by (auto simp del: set_filter)
  qed
  with Inr m show ?thesis by (simp add: list_all_iff)
qed

theorem source_lines_witness:
  "\<exists>k < length (splitByte (CHR 0x0A) (''10.0.0.0/8'' @ [CHR 0x0A] @ ''x'')). k + 1 = 2"
proof -
  let ?t = "''10.0.0.0/8'' @ [CHR 0x0A] @ ''x''"
  have "ParseSourceLines ?t = Inl (SourceLine 2 ''x'' (SourceNotParsed ''x''))" by code_simp
  with source_lines [of ?t] show ?thesis by (auto simp: Let_def simp del: append_Cons)
qed

text \<open>Adding sources keeps the list and appends each new source once; removing what was added
  gives the list back when none of it was there before.\<close>

theorem sources_add_remove:
  assumes "set list \<inter> set add = {}"
  shows "(\<exists>new. AddSources list add = list @ new \<and> set new = set add)
    \<and> RemoveSources (AddSources list add) add = list"
proof -
  obtain new where new: "AddSources list add = list @ new" "set new \<subseteq> set add"
    using AddSources_prefix by blast
  moreover have "set new = set add"
    using new assms set_AddSources [of list add] by auto
  ultimately show ?thesis using RemoveSources_AddSources [OF assms] by blast
qed

theorem sources_add_remove_witness:
  "RemoveSources (AddSources [\<lparr>p_ip = Addr4 0, p_bits = 8\<rparr>] [\<lparr>p_ip = Addr4 1, p_bits = 32\<rparr>])
     [\<lparr>p_ip = Addr4 1, p_bits = 32\<rparr>] = [\<lparr>p_ip = Addr4 0, p_bits = 8\<rparr>]"
  using sources_add_remove [of "[\<lparr>p_ip = Addr4 0, p_bits = 8\<rparr>]" "[\<lparr>p_ip = Addr4 1, p_bits = 32\<rparr>]"] by simp

subsection \<open>Normalization\<close>

text \<open>C25. A valid rule set always normalizes; the normalized rules give the declared rules back,
  and converting a well-formed normalized rule out and in again changes nothing.\<close>

theorem normalize_roundtrip:
  assumes "ValidateRules graphic rules reserved = None"
  shows "\<exists>ms. NormalizeRules graphic rules reserved = Inr ms \<and> map ToProto ms = rules
    \<and> list_all (\<lambda>m. mrule_ok m \<and> FromProto (ToProto m) = Inr m) ms"
proof -
  obtain ms where ms: "NormalizeRules graphic rules reserved = Inr ms" "map ToProto ms = rules" "list_all mrule_ok ms"
    using NormalizeRules_Inr [OF assms] by blast
  then have "list_all (\<lambda>m. mrule_ok m \<and> FromProto (ToProto m) = Inr m) ms"
    by (auto simp: list_all_iff FromProto_ToProto)
  with ms(1,2) show ?thesis by (intro exI [of _ ms] conjI)
qed

theorem normalize_roundtrip_witness:
  "\<exists>ms. NormalizeRules (\<lambda>_. True) [sample_range, sample_web] [(22, ''ssh'')] = Inr ms
    \<and> map ToProto ms = [sample_range, sample_web]"
  using normalize_roundtrip [OF sample_set_valid] by (elim exE conjE) (intro exI conjI)

end
