(* ===== verification/Policy.thy ===== *)
theory Policy
  imports Model
begin

section \<open>The admission policy (internal/policy)\<close>

text \<open>
  The intermediate representation both admission engines are built from: the
  order of the steps, the per-rule policy, the per-source caps, and the
  normalization of the source lists. A span is a half-open interval of IPv4
  addresses read as natural numbers; no sum of the source exceeds \<open>2 ^ 32\<close>, far
  below the \<open>uint64\<close> of the Go code.
\<close>

subsection \<open>Constants, steps, caps\<close>

definition TokenBucketBurst :: nat where "TokenBucketBurst = 5"

text \<open>Durations are nanoseconds, as \<open>time.Duration\<close> counts them.\<close>

definition PerSourceTableTTL :: int where "PerSourceTableTTL = 60000000000"
definition PerSourceTableSize :: nat where "PerSourceTableSize = 65535"
definition FlowSetSize :: nat where "FlowSetSize = 65535"

datatype Step =
    StepSourceDeny | StepSourceAllow | StepPerSourceRate | StepPerSourceConcurrentFlows
  | StepAggregateNewFlowRate | StepAggregatePacketRate | StepOther int

definition Step_String :: "Step \<Rightarrow> string" where
  "Step_String s =
     (case s of
        StepSourceDeny \<Rightarrow> ''source_deny''
      | StepSourceAllow \<Rightarrow> ''source_allow''
      | StepPerSourceRate \<Rightarrow> ''per_source_rate''
      | StepPerSourceConcurrentFlows \<Rightarrow> ''per_source_concurrent_flows''
      | StepAggregateNewFlowRate \<Rightarrow> ''aggregate_new_flow_rate''
      | StepAggregatePacketRate \<Rightarrow> ''aggregate_packet_rate''
      | StepOther n \<Rightarrow> ''Step('' @ itoa_int n @ '')'')"

definition DropKind :: "Step \<Rightarrow> string" where
  "DropKind s =
     (case s of
        StepSourceDeny \<Rightarrow> ''deny''
      | StepSourceAllow \<Rightarrow> ''allow''
      | StepPerSourceRate \<Rightarrow> ''per_source''
      | StepPerSourceConcurrentFlows \<Rightarrow> ''src_flow''
      | StepAggregateNewFlowRate \<Rightarrow> ''new_flow''
      | StepAggregatePacketRate \<Rightarrow> ''packet''
      | StepOther _ \<Rightarrow> [])"

definition Order :: "Step list" where
  "Order = [StepSourceDeny, StepSourceAllow, StepPerSourceRate, StepPerSourceConcurrentFlows,
            StepAggregateNewFlowRate, StepAggregatePacketRate]"

record PerSourceFlowCaps =
  cap_UDP :: int
  cap_TCP :: int

definition ForProto :: "PerSourceFlowCaps \<Rightarrow> Proto \<Rightarrow> int" where
  "ForProto c p = (if p = TCP then cap_TCP c else cap_UDP c)"

record AdmissionLimits =
  al_UDPPerSource :: int
  al_TCPPerSource :: int

definition UDPPerSource :: int where "UDPPerSource = 256"
definition TCPPerSource :: int where "TCPPerSource = 128"
definition PerSourceOff :: int where "PerSourceOff = -1"

definition AdmissionLimits_WithDefaults :: "AdmissionLimits \<Rightarrow> AdmissionLimits" where
  "AdmissionLimits_WithDefaults l =
     \<lparr>al_UDPPerSource = (if al_UDPPerSource l = 0 then UDPPerSource else al_UDPPerSource l),
      al_TCPPerSource = (if al_TCPPerSource l = 0 then TCPPerSource else al_TCPPerSource l)\<rparr>"

definition UDPPerSourceCap :: "AdmissionLimits \<Rightarrow> int" where
  "UDPPerSourceCap l = max (al_UDPPerSource (AdmissionLimits_WithDefaults l)) 0"

definition TCPPerSourceCap :: "AdmissionLimits \<Rightarrow> int" where
  "TCPPerSourceCap l = max (al_TCPPerSource (AdmissionLimits_WithDefaults l)) 0"

record RulePolicy =
  rp_RuleID :: string
  rp_Proto :: Proto
  rp_SourceAllow :: "prefix list"
  rp_SourceDeny :: "prefix list"
  rp_PerSourceRate :: "Rate option"
  rp_NewFlowRate :: "Rate option"
  rp_PacketRate :: "Rate option"

record Policy =
  pol_Rules :: "RulePolicy list"
  pol_PerSourceFlowCaps :: PerSourceFlowCaps

subsection \<open>Prefix normalization\<close>

type_synonym span = "nat \<times> nat"

definition prefix_span :: "prefix \<Rightarrow> span" where
  "prefix_span p = (let lo = addr4_val (p_ip p) in (lo, lo + 2 ^ (32 - nat (p_bits p))))"

text \<open>
  The merge of the sorted spans. The Go loop reuses the array it reads; it
  never writes past the element it has just read, so a fresh list is the same.
\<close>

fun merge_spans :: "span list \<Rightarrow> span list \<Rightarrow> span list" where
  "merge_spans merged [] = merged"
| "merge_spans merged (s # ss) =
     (if merged \<noteq> [] \<and> fst s \<le> snd (last merged) then
        (if snd s > snd (last merged)
         then merge_spans (butlast merged @ [(fst (last merged), snd s)]) ss
         else merge_spans merged ss)
      else merge_spans (merged @ [s]) ss)"

text \<open>\<open>bits.TrailingZeros64\<close> of a nonzero value, and the loop that shrinks the block.\<close>

fun trailing_zeros :: "nat \<Rightarrow> nat" where
  "trailing_zeros n = (if n = 0 then 64 else if odd n then 0 else Suc (trailing_zeros (n div 2)))"

declare trailing_zeros.simps [simp del]

fun shrink_block :: "nat \<Rightarrow> nat \<Rightarrow> nat" where
  "shrink_block 0 room = 0"
| "shrink_block (Suc b) room = (if 2 ^ Suc b > room then shrink_block b room else Suc b)"

definition first_block :: "nat \<Rightarrow> nat \<Rightarrow> nat" where
  "first_block lo hi =
     (let block = trailing_zeros lo;
          block = (if block > 32 then 32 else block)
      in shrink_block block (hi - lo))"

function spanToPrefixes :: "nat \<Rightarrow> nat \<Rightarrow> prefix list" where
  "spanToPrefixes lo hi =
     (if lo < hi then
        prefixFrom (Addr4 (word_of_nat lo)) (32 - int (first_block lo hi))
        # spanToPrefixes (lo + 2 ^ first_block lo hi) hi
      else [])"
  by pat_completeness auto
termination
  by (relation "measure (\<lambda>(lo, hi). hi - lo)") (auto simp: diff_less_mono2)

declare spanToPrefixes.simps [simp del]

definition NormalizePrefixes :: "prefix list \<Rightarrow> prefix list" where
  "NormalizePrefixes pfxs =
     (let ms = map masked pfxs;
          spans = sort_key fst (map prefix_span (filter (\<lambda>p. is4 (p_ip p)) ms));
          merged = merge_spans [] spans
      in concat (map (\<lambda>(lo, hi). spanToPrefixes lo hi) merged)
         @ filter (\<lambda>p. \<not> is4 (p_ip p)) ms)"

definition matchesAny :: "prefix list \<Rightarrow> addr \<Rightarrow> bool" where
  "matchesAny pfxs a = list_ex (\<lambda>p. prefixContains p a) pfxs"

definition SourceAllowed :: "RulePolicy \<Rightarrow> addr \<Rightarrow> bool" where
  "SourceAllowed r src =
     (if matchesAny (rp_SourceDeny r) src then False
      else if rp_SourceAllow r = [] then True
      else matchesAny (rp_SourceAllow r) src)"

definition rule_policy :: "MRule \<Rightarrow> RulePolicy" where
  "rule_policy r =
     \<lparr>rp_RuleID = m_ID r, rp_Proto = m_Proto r,
      rp_SourceAllow = NormalizePrefixes (m_SourceAllow r),
      rp_SourceDeny = NormalizePrefixes (m_SourceDeny r),
      rp_PerSourceRate = m_PerSourceRate r, rp_NewFlowRate = m_NewFlowRate r,
      rp_PacketRate = m_PacketRate r\<rparr>"

text \<open>\<open>policy.Build\<close>.\<close>

definition Policy_Build :: "MRule list \<Rightarrow> AdmissionLimits \<Rightarrow> Policy" where
  "Policy_Build rules limits =
     \<lparr>pol_Rules = sort_key rp_RuleID (map rule_policy (filter m_Enabled rules)),
      pol_PerSourceFlowCaps = \<lparr>cap_UDP = UDPPerSourceCap limits, cap_TCP = TCPPerSourceCap limits\<rparr>\<rparr>"

subsection \<open>Merged spans\<close>

definition in_spans :: "span list \<Rightarrow> nat \<Rightarrow> bool" where
  "in_spans ss n = (\<exists>s \<in> set ss. fst s \<le> n \<and> n < snd s)"

definition separated :: "span list \<Rightarrow> bool" where
  "separated ss = (sorted_wrt (\<lambda>s t. snd s < fst t) ss \<and> (\<forall>s \<in> set ss. fst s < snd s))"

lemma in_spans_simps [simp]:
  "\<not> in_spans [] n"
  "in_spans (s # ss) n \<longleftrightarrow> fst s \<le> n \<and> n < snd s \<or> in_spans ss n"
  "in_spans (ss @ ts) n \<longleftrightarrow> in_spans ss n \<or> in_spans ts n"
  by (auto simp: in_spans_def)

lemma separated_Cons:
  "separated (s # ss) \<longleftrightarrow> fst s < snd s \<and> (\<forall>t \<in> set ss. snd s < fst t) \<and> separated ss"
  by (auto simp: separated_def)

lemma separated_snoc:
  "separated (ss @ [s]) \<longleftrightarrow> separated ss \<and> (\<forall>t \<in> set ss. snd t < fst s) \<and> fst s < snd s"
  by (auto simp: separated_def sorted_wrt_append)

text \<open>One step of the merge loop, on a list split at its last span.\<close>

lemma merge_spans_snoc:
  "merge_spans (ms @ [m]) (s # ss) =
     (if fst s \<le> snd m
      then merge_spans (ms @ [(fst m, max (snd m) (snd s))]) ss
      else merge_spans (ms @ [m, s]) ss)"
  by (cases m) (simp add: max_def)

lemma merge_spans_snoc_correct:
  assumes "separated (ms @ [m])" and "sorted (map fst (m # ss))" and "\<forall>s \<in> set ss. fst s < snd s"
  shows "separated (merge_spans (ms @ [m]) ss) \<and>
    (\<forall>n. in_spans (merge_spans (ms @ [m]) ss) n \<longleftrightarrow> in_spans (ms @ [m]) n \<or> in_spans ss n)"
  using assms
proof (induction ss arbitrary: ms m)
  case (Cons s ss)
  show ?case
  proof (cases "fst s \<le> snd m")
    case True
    let ?m = "(fst m, max (snd m) (snd s))"
    have "separated (merge_spans (ms @ [?m]) ss) \<and>
      (\<forall>n. in_spans (merge_spans (ms @ [?m]) ss) n \<longleftrightarrow> in_spans (ms @ [?m]) n \<or> in_spans ss n)"
      using Cons.prems True by (intro Cons.IH) (auto simp: separated_snoc)
    moreover have "in_spans [?m] n \<longleftrightarrow> in_spans [m, s] n" for n
      using True Cons.prems(2) by auto
    ultimately show ?thesis using True by (simp add: merge_spans_snoc del: merge_spans.simps)
  next
    case False
    have "separated (merge_spans ((ms @ [m]) @ [s]) ss) \<and>
      (\<forall>n. in_spans (merge_spans ((ms @ [m]) @ [s]) ss) n \<longleftrightarrow> in_spans ((ms @ [m]) @ [s]) n \<or> in_spans ss n)"
      using Cons.prems False by (intro Cons.IH) (force simp: separated_def sorted_wrt_append)+
    then show ?thesis using False by (simp add: merge_spans_snoc del: merge_spans.simps)
  qed
qed simp

lemma merge_spans_correct:
  assumes "sorted (map fst ss)" and "\<forall>s \<in> set ss. fst s < snd s"
  shows "separated (merge_spans [] ss)"
    and "in_spans (merge_spans [] ss) n \<longleftrightarrow> in_spans ss n"
proof -
  have "separated (merge_spans [] ss) \<and> (\<forall>n. in_spans (merge_spans [] ss) n \<longleftrightarrow> in_spans ss n)"
  proof (cases ss)
    case (Cons s ts)
    then show ?thesis
      using assms merge_spans_snoc_correct [of "[]" s ts] by (simp add: separated_def)
  qed (simp add: separated_def)
  then show "separated (merge_spans [] ss)" "in_spans (merge_spans [] ss) n \<longleftrightarrow> in_spans ss n" by auto
qed

text \<open>Separated spans are a canonical form of the set of addresses they cover.\<close>

lemma separated_in_spans_ge:
  "separated (s # ss) \<Longrightarrow> in_spans ss n \<Longrightarrow> snd s < n"
  by (force simp: separated_Cons in_spans_def)

lemma separated_head:
  assumes "separated (s # ss)" and "separated (t # ts)"
    and "\<And>n. in_spans (s # ss) n \<longleftrightarrow> in_spans (t # ts) n"
  shows "fst t \<le> fst s" and "fst s = fst t \<Longrightarrow> snd t \<le> snd s"
proof -
  have "in_spans (t # ts) (fst s)" using assms(1) assms(3) [of "fst s"] by (simp add: separated_Cons)
  then show "fst t \<le> fst s"
    using separated_in_spans_ge [OF assms(2), of "fst s"] assms(2) by (auto simp: separated_Cons)
next
  assume eq: "fst s = fst t"
  show "snd t \<le> snd s"
  proof (rule ccontr)
    assume "\<not> snd t \<le> snd s"
    moreover from this have "in_spans (t # ts) (snd s)"
      using assms(1) eq by (auto simp: separated_Cons)
    then have "in_spans ss (snd s)" using assms(3) [of "snd s"] by auto
    ultimately show False using separated_in_spans_ge [OF assms(1)] by blast
  qed
qed

lemma separated_nonempty: "separated (s # ss) \<Longrightarrow> in_spans (s # ss) (fst s)"
  by (simp add: separated_Cons)

lemma separated_unique:
  assumes "separated ss" and "separated ts" and "\<And>n. in_spans ss n \<longleftrightarrow> in_spans ts n"
  shows "ss = ts"
  using assms
proof (induction ss arbitrary: ts)
  case Nil
  then show ?case by (cases ts) (use separated_nonempty in fastforce)+
next
  case (Cons s ss)
  then obtain t ts' where ts: "ts = t # ts'" by (cases ts) (use separated_nonempty in fastforce)+
  have st: "s = t"
    using separated_head [of s ss t ts'] separated_head [of t ts' s ss] Cons.prems
    unfolding ts by (intro prod_eqI) (meson antisym)+
  have "in_spans ss n \<longleftrightarrow> in_spans ts' n" for n
    using Cons.prems(3) [of n] separated_in_spans_ge [of s ss n] separated_in_spans_ge [of s ts' n]
      Cons.prems(1,2) unfolding ts st by auto
  then have "ss = ts'" using Cons.prems unfolding ts by (intro Cons.IH) (auto simp: separated_Cons)
  with st ts show ?case by simp
qed

subsection \<open>A span as CIDR blocks\<close>

lemma trailing_zeros_dvd: "2 ^ trailing_zeros n dvd n"
proof (induction n rule: trailing_zeros.induct)
  case (1 n)
  show ?case
  proof (cases "n = 0 \<or> odd n")
    case False
    with 1 have "2 ^ trailing_zeros (n div 2) dvd n div 2" by simp
    then have "2 * 2 ^ trailing_zeros (n div 2) dvd 2 * (n div 2)" by (rule mult_dvd_mono [OF dvd_refl])
    with False show ?thesis by (subst trailing_zeros.simps) simp
  qed (subst trailing_zeros.simps, auto)
qed

lemma dvd_trailing_zeros: "2 ^ k dvd n \<Longrightarrow> n \<noteq> 0 \<Longrightarrow> k \<le> trailing_zeros n"
proof (induction n arbitrary: k rule: trailing_zeros.induct)
  case (1 n)
  show ?case
  proof (cases k)
    case (Suc j)
    with 1(2) have ev: "even n" by (metis dvd_trans dvd_triv_left power_Suc)
    with 1(2) Suc have "2 ^ j dvd n div 2" by (auto elim!: dvdE)
    with 1 ev have "j \<le> trailing_zeros (n div 2)" by (auto elim!: evenE)
    with Suc ev 1(3) show ?thesis by (subst trailing_zeros.simps) simp
  qed simp
qed

lemma shrink_block_le: "shrink_block b room \<le> b"
  by (induction b) auto

lemma shrink_block_fits: "0 < room \<Longrightarrow> 2 ^ shrink_block b room \<le> room"
  by (induction b) auto

lemma shrink_block_max: "k \<le> b \<Longrightarrow> 2 ^ k \<le> room \<Longrightarrow> k \<le> shrink_block b room"
proof (induction b)
  case (Suc b)
  then show ?case by (cases "k = Suc b") (auto simp: le_Suc_eq)
qed simp

lemma first_block_le: "first_block lo hi \<le> 32"
  unfolding first_block_def Let_def
  by (rule order_trans [OF shrink_block_le]) auto

lemma first_block_fits: "lo < hi \<Longrightarrow> lo + 2 ^ first_block lo hi \<le> hi"
  using shrink_block_fits [of "hi - lo" "if trailing_zeros lo > 32 then 32 else trailing_zeros lo"]
  by (simp add: first_block_def Let_def)

lemma first_block_dvd: "2 ^ first_block lo hi dvd lo"
proof -
  have "first_block lo hi \<le> trailing_zeros lo"
    unfolding first_block_def Let_def
    by (rule order_trans [OF shrink_block_le]) auto
  then show ?thesis by (rule dvd_trans [OF le_imp_power_dvd trailing_zeros_dvd])
qed

text \<open>No larger aligned block starts at \<open>lo\<close> and ends by \<open>hi\<close>.\<close>

lemma first_block_max:
  assumes "2 ^ k dvd lo" and "lo + 2 ^ k \<le> hi" and "k \<le> 32"
  shows "k \<le> first_block lo hi"
proof -
  have "trailing_zeros 0 = 64" by (subst trailing_zeros.simps) simp
  then have "k \<le> (if trailing_zeros lo > 32 then 32 else trailing_zeros lo)"
    using assms(3) dvd_trailing_zeros [OF assms(1)] by (cases "lo = 0") auto
  then show ?thesis
    using assms(2) unfolding first_block_def Let_def by (intro shrink_block_max) auto
qed

definition block_prefix :: "nat \<Rightarrow> nat \<Rightarrow> prefix" where
  "block_prefix lo hi = prefixFrom (Addr4 (word_of_nat lo)) (32 - int (first_block lo hi))"

lemma block_prefix_props:
  assumes "lo < hi" and "hi \<le> 2 ^ 32"
  shows "is_v4_prefix (block_prefix lo hi)" and "prefix_ok (block_prefix lo hi)"
    and "prefix_block (block_prefix lo hi) = 2 ^ first_block lo hi"
    and "prefix_lo (block_prefix lo hi) = lo"
    and "addr4_val (p_ip (block_prefix lo hi)) = lo"
proof -
  have b: "first_block lo hi \<le> 32" by (rule first_block_le)
  have bits: "p_bits (block_prefix lo hi) = 32 - int (first_block lo hi)"
    and ip: "p_ip (block_prefix lo hi) = Addr4 (word_of_nat lo)"
    using b by (auto simp: block_prefix_def prefixFrom_def bitLen_def withoutZone_def)
  show "is_v4_prefix (block_prefix lo hi)"
    using b by (simp add: is_v4_prefix_def is4_def prefixIsValid_def bits ip)
  show "prefix_ok (block_prefix lo hi)"
    by (simp add: prefix_ok_def bits ip) (simp add: block_prefix_def)
  show blk: "prefix_block (block_prefix lo hi) = 2 ^ first_block lo hi"
    using b by (simp add: prefix_block_def bits nat_diff_distrib)
  show val: "addr4_val (p_ip (block_prefix lo hi)) = lo"
    using assms by (simp add: ip addr4_val_def unat_word_of_nat32)
  show "prefix_lo (block_prefix lo hi) = lo"
    by (simp add: prefix_lo_def blk val first_block_dvd)
qed

lemma spanToPrefixes_step:
  "spanToPrefixes lo hi =
     (if lo < hi then block_prefix lo hi # spanToPrefixes (lo + 2 ^ first_block lo hi) hi else [])"
  by (subst spanToPrefixes.simps) (simp add: block_prefix_def)

text \<open>An aligned block: what one IPv4 prefix covers.\<close>

definition prefix_addrs :: "prefix \<Rightarrow> nat set" where
  "prefix_addrs p = {prefix_lo p ..< prefix_lo p + prefix_block p}"

lemma spanToPrefixes_ok:
  "hi \<le> 2 ^ 32 \<Longrightarrow> p \<in> set (spanToPrefixes lo hi) \<Longrightarrow> is_v4_prefix p \<and> prefix_ok p"
proof (induction lo hi rule: spanToPrefixes.induct)
  case (1 lo hi)
  then show ?case
    using block_prefix_props(1,2) [of lo hi]
    by (auto simp: spanToPrefixes_step [of lo hi] split: if_splits)
qed

lemma spanToPrefixes_cover:
  "hi \<le> 2 ^ 32 \<Longrightarrow> (\<Union>p \<in> set (spanToPrefixes lo hi). prefix_addrs p) = {lo ..< hi}"
proof (induction lo hi rule: spanToPrefixes.induct)
  case (1 lo hi)
  show ?case
  proof (cases "lo < hi")
    case True
    with 1 have "(\<Union>p \<in> set (spanToPrefixes lo hi). prefix_addrs p)
      = prefix_addrs (block_prefix lo hi) \<union> {lo + 2 ^ first_block lo hi ..< hi}"
      by (simp add: spanToPrefixes_step [of lo hi])
    with True block_prefix_props(3,4) [OF True 1(2)] first_block_fits [OF True] show ?thesis
      by (auto simp: prefix_addrs_def)
  qed (simp add: spanToPrefixes_step)
qed

text \<open>
  Aligned blocks nest or are disjoint, so every block that lies in the span and
  meets a block of the decomposition lies in it: the decomposition consists of
  the maximal blocks, and no list of prefixes that covers the span is shorter.
\<close>

lemma blocks_nest:
  assumes "k \<le> (m :: nat)" and "2 ^ k dvd (a :: nat)" and "2 ^ m dvd b"
    and "n \<in> {a ..< a + 2 ^ k}" and "n \<in> {b ..< b + 2 ^ m}"
  shows "{a ..< a + 2 ^ k} \<subseteq> {b ..< b + 2 ^ m}"
proof -
  obtain i where a: "a = 2 ^ k * i" using assms(2) by (rule dvdE)
  obtain j where b: "b = 2 ^ k * j"
    using dvd_trans [OF le_imp_power_dvd [OF assms(1)] assms(3)] by (rule dvdE)
  obtain c where c: "(2::nat) ^ m = 2 ^ k * c" using le_imp_power_dvd [OF assms(1)] by (rule dvdE)
  have "2 ^ k * j < 2 ^ k * (i + 1)" "2 ^ k * i < 2 ^ k * (j + c)"
    using assms(4,5) unfolding a b c by (auto simp: algebra_simps)
  then have "j \<le> i" "i + 1 \<le> j + c" by (simp_all only: mult_less_cancel1) simp_all
  then have "2 ^ k * j \<le> 2 ^ k * i" "2 ^ k * (i + 1) \<le> 2 ^ k * (j + c)" by (intro mult_le_mono2; simp)+
  then show ?thesis unfolding a b c by (auto simp: algebra_simps)
qed

lemma spanToPrefixes_maximal:
  assumes "hi \<le> 2 ^ 32" and "p \<in> set (spanToPrefixes lo hi)" and "n \<in> prefix_addrs p"
    and "2 ^ k dvd a" and "k \<le> 32" and "{a ..< a + 2 ^ k} \<subseteq> {lo ..< hi}" and "n \<in> {a ..< a + 2 ^ k}"
  shows "{a ..< a + 2 ^ k} \<subseteq> prefix_addrs p"
  using assms
proof (induction lo hi rule: spanToPrefixes.induct)
  case (1 lo hi)
  let ?b = "first_block lo hi" and ?p = "block_prefix lo hi"
  from 1(3) have lt: "lo < hi" by (simp add: spanToPrefixes_step [of lo hi] split: if_splits)
  have A: "prefix_addrs ?p = {lo ..< lo + 2 ^ ?b}"
    using block_prefix_props [OF lt 1(2)] by (simp add: prefix_addrs_def)
  have sub: "lo \<le> a" "a + 2 ^ k \<le> hi" using 1(7) by (auto simp: atLeastLessThan_subset_iff)
  have first: "{a ..< a + 2 ^ k} \<subseteq> prefix_addrs ?p" if "m \<in> prefix_addrs ?p" "m \<in> {a ..< a + 2 ^ k}" for m
  proof (cases "k \<le> ?b")
    case True
    with that show ?thesis unfolding A using blocks_nest [OF True 1(5) first_block_dvd] by simp
  next
    case False
    with that have "{lo ..< lo + 2 ^ ?b} \<subseteq> {a ..< a + 2 ^ k}"
      unfolding A by (intro blocks_nest [OF _ first_block_dvd 1(5)]) auto
    then have "a \<le> lo" by (auto simp: atLeastLessThan_subset_iff)
    with sub 1(5,6) have "k \<le> ?b" by (intro first_block_max) auto
    with False show ?thesis by simp
  qed
  show ?case
  proof (cases "p = ?p")
    case True
    then show ?thesis using first 1(4,8) by simp
  next
    case False
    with 1(3) lt have p: "p \<in> set (spanToPrefixes (lo + 2 ^ ?b) hi)"
      by (simp add: spanToPrefixes_step [of lo hi])
    show ?thesis
    proof (cases "\<exists>m. m \<in> prefix_addrs ?p \<and> m \<in> {a ..< a + 2 ^ k}")
      case True
      then have "{a ..< a + 2 ^ k} \<subseteq> prefix_addrs ?p" using first by blast
      moreover have "n \<in> {lo + 2 ^ ?b ..< hi}"
        using spanToPrefixes_cover [OF 1(2), of "lo + 2 ^ ?b"] p 1(4) by blast
      ultimately show ?thesis using 1(8) unfolding A by auto
    next
      case False
      then have "{a ..< a + 2 ^ k} \<subseteq> {lo + 2 ^ ?b ..< hi}"
        using sub unfolding A by (auto simp: not_less)
      with 1(1) lt p 1(2,4,5,6,8) show ?thesis by simp
    qed
  qed
qed

lemma spanToPrefixes_disjoint:
  assumes "hi \<le> 2 ^ 32"
  shows "distinct (spanToPrefixes lo hi) \<and>
    (\<forall>p \<in> set (spanToPrefixes lo hi). \<forall>q \<in> set (spanToPrefixes lo hi).
       p \<noteq> q \<longrightarrow> prefix_addrs p \<inter> prefix_addrs q = {})"
  using assms
proof (induction lo hi rule: spanToPrefixes.induct)
  case (1 lo hi)
  show ?case
  proof (cases "lo < hi")
    case True
    let ?rest = "spanToPrefixes (lo + 2 ^ first_block lo hi) hi"
    have A: "prefix_addrs (block_prefix lo hi) = {lo ..< lo + 2 ^ first_block lo hi}"
      using block_prefix_props [OF True 1(2)] by (simp add: prefix_addrs_def)
    have R: "prefix_addrs q \<subseteq> {lo + 2 ^ first_block lo hi ..< hi}" if "q \<in> set ?rest" for q
      using spanToPrefixes_cover [OF 1(2), of "lo + 2 ^ first_block lo hi"] that by blast
    have sep: "prefix_addrs (block_prefix lo hi) \<inter> prefix_addrs q = {}" if "q \<in> set ?rest" for q
      using R [OF that] unfolding A by auto
    have "block_prefix lo hi \<notin> set ?rest" using sep A by fastforce
    with True 1 sep show ?thesis
      by (simp add: spanToPrefixes_step [of lo hi]) (metis Int_commute)
  qed (simp add: spanToPrefixes_step)
qed

lemma spanToPrefixes_minimal_length:
  assumes hi: "hi \<le> 2 ^ 32" and v4: "\<forall>q \<in> set qs. is_v4_prefix q"
    and cover: "(\<Union>q \<in> set qs. prefix_addrs q) = {lo ..< hi}"
  shows "length (spanToPrefixes lo hi) \<le> length qs"
proof -
  let ?S = "spanToPrefixes lo hi"
  have self: "prefix_lo p \<in> prefix_addrs p" for p by (simp add: prefix_addrs_def prefix_block_def)
  have "\<exists>q \<in> set qs. prefix_lo p \<in> prefix_addrs q" if "p \<in> set ?S" for p
    using cover that spanToPrefixes_cover [OF hi, of lo] self [of p] by blast
  then obtain f where f: "\<And>p. p \<in> set ?S \<Longrightarrow> f p \<in> set qs \<and> prefix_lo p \<in> prefix_addrs (f p)"
    by metis
  have sub: "prefix_addrs (f p) \<subseteq> prefix_addrs p" if p: "p \<in> set ?S" for p
    unfolding prefix_addrs_def [of "f p"] prefix_block_def
  proof (rule spanToPrefixes_maximal [OF hi p])
    show "prefix_lo p \<in> prefix_addrs p" by (rule self)
    show "2 ^ (32 - nat (p_bits (f p))) dvd prefix_lo (f p)"
      by (simp add: prefix_lo_def prefix_block_def)
    show "{prefix_lo (f p) ..< prefix_lo (f p) + 2 ^ (32 - nat (p_bits (f p)))} \<subseteq> {lo ..< hi}"
      unfolding cover [symmetric] using f [OF p] by (force simp: prefix_addrs_def prefix_block_def)
    show "prefix_lo p \<in> {prefix_lo (f p) ..< prefix_lo (f p) + 2 ^ (32 - nat (p_bits (f p)))}"
      using f [OF p] by (simp add: prefix_addrs_def prefix_block_def)
  qed simp
  have "inj_on f (set ?S)"
  proof (rule inj_onI, rule ccontr)
    fix p q assume pq: "p \<in> set ?S" "q \<in> set ?S" "f p = f q" "p \<noteq> q"
    then have "prefix_addrs p \<inter> prefix_addrs q = {}" using spanToPrefixes_disjoint [OF hi, of lo] by blast
    with pq show False using sub [of p] sub [of q] f [of p] by auto
  qed
  then have "card (set ?S) \<le> card (set qs)"
    using f by (intro card_inj_on_le [of f]) auto
  also have "\<dots> \<le> length qs" by (rule card_length)
  finally show ?thesis using spanToPrefixes_disjoint [OF hi, of lo] by (simp add: distinct_card)
qed

subsection \<open>Normalization keeps what a list matches\<close>

lemma drop_push_drop: "drop_bit n (push_bit n (drop_bit n (w :: 'a::len word))) = drop_bit n w"
  by (auto simp: bit_eq_iff bit_push_bit_iff bit_drop_bit_eq dest: bit_imp_le_length)

lemma contains_masked:
  "prefix_ok p \<Longrightarrow> prefixContains (masked p) a \<longleftrightarrow> prefixContains p a"
  by (cases "p_ip p")
    (auto simp: prefixContains_def masked_def Let_def prefix_ok_def prefixFrom_def zeroPrefix_def
      prefixIsValid_def withoutZone_def bitLen_def drop_bit_xor_0 drop_push_drop
      split: addr.splits if_splits)

lemma is4_masked: "prefix_ok p \<Longrightarrow> is4 (p_ip (masked p)) \<longleftrightarrow> is_v4_prefix p"
  by (cases "p_ip p")
    (auto simp: masked_def Let_def is4_def is_v4_prefix_def prefix_ok_def prefixFrom_def zeroPrefix_def
      prefixIsValid_def withoutZone_def bitLen_def split: if_splits)

lemma prefix_span_masked:
  assumes "prefix_ok p" and "is_v4_prefix p"
  shows "prefix_span (masked p) = (prefix_lo p, prefix_lo p + prefix_block p)"
proof -
  obtain w where w: "p_ip p = Addr4 w" using assms(2) by (auto simp: is_v4_prefix_def is4_def split: addr.splits)
  have b: "0 \<le> p_bits p" "p_bits p \<le> 32"
    using assms prefix_ok_v4_bits by (auto simp: is_v4_prefix_def prefixIsValid_def)
  have "unat (push_bit n (drop_bit n w)) = unat w div 2 ^ n * 2 ^ n" for n
  proof -
    have "unat w div 2 ^ n * 2 ^ n \<le> unat w" by simp
    then have "unat w div 2 ^ n * 2 ^ n < 2 ^ LENGTH(32)" using unat_lt2p [of w] by (rule le_less_trans)
    moreover have "push_bit n (drop_bit n w) = word_of_nat (unat w div 2 ^ n * 2 ^ n)"
      by (simp add: push_bit_eq_mult unat_drop_bit [symmetric])
    ultimately show ?thesis using unat_word_of_nat32 [of "unat w div 2 ^ n * 2 ^ n"] by simp
  qed
  with b w show ?thesis
    by (simp add: prefix_span_def masked_def Let_def prefixFrom_def bitLen_def withoutZone_def addr4_val_def
        prefix_lo_def prefix_block_def zeroPrefix_def)
qed

lemma prefix_span_bound:
  assumes "is_v4_prefix p" "prefix_ok p"
  shows "prefix_lo p + prefix_block p \<le> 2 ^ 32"
proof -
  obtain w where w: "p_ip p = Addr4 w" using assms(1) by (auto simp: is_v4_prefix_def is4_def split: addr.splits)
  obtain m where m: "(2::nat) ^ 32 = prefix_block p * m"
    using le_imp_power_dvd [of "32 - nat (p_bits p)" 32] unfolding prefix_block_def by (meson diff_le_self dvdE)
  have "unat w < prefix_block p * m" using unat_lt2p [of w] m by simp
  then have "unat w div prefix_block p < m"
    by (metis less_mult_imp_div_less mult.commute)
  then have "(unat w div prefix_block p + 1) * prefix_block p \<le> m * prefix_block p" by (intro mult_le_mono1) simp
  then show ?thesis using m w by (simp add: prefix_lo_def addr4_val_def algebra_simps)
qed

text \<open>The spans of a list, and what the merge makes of them.\<close>

definition v4_spans :: "prefix list \<Rightarrow> span list" where
  "v4_spans ps = sort_key fst (map prefix_span (filter (\<lambda>p. is4 (p_ip p)) (map masked ps)))"

definition other_prefixes :: "prefix list \<Rightarrow> prefix list" where
  "other_prefixes ps = filter (\<lambda>p. \<not> is4 (p_ip p)) (map masked ps)"

definition v4_matches :: "prefix list \<Rightarrow> nat \<Rightarrow> bool" where
  "v4_matches ps n = (\<exists>p \<in> set ps. is_v4_prefix p \<and> n \<in> prefix_addrs p)"

lemma NormalizePrefixes_eq:
  "NormalizePrefixes ps =
     concat (map (\<lambda>(lo, hi). spanToPrefixes lo hi) (merge_spans [] (v4_spans ps))) @ other_prefixes ps"
  by (simp add: NormalizePrefixes_def v4_spans_def other_prefixes_def Let_def)

lemma set_v4_spans:
  assumes "list_all prefix_ok ps"
  shows "set (v4_spans ps) = (\<lambda>p. (prefix_lo p, prefix_lo p + prefix_block p)) ` {p \<in> set ps. is_v4_prefix p}"
  using assms by (force simp: v4_spans_def list_all_iff is4_masked prefix_span_masked image_iff)

lemma merged_v4_spans:
  assumes "list_all prefix_ok ps"
  shows "separated (merge_spans [] (v4_spans ps))"
    and "in_spans (merge_spans [] (v4_spans ps)) n \<longleftrightarrow> v4_matches ps n"
    and "(lo, hi) \<in> set (merge_spans [] (v4_spans ps)) \<Longrightarrow> hi \<le> 2 ^ 32"
proof -
  have srt: "sorted (map fst (v4_spans ps))" by (simp add: v4_spans_def)
  have ne: "\<forall>s \<in> set (v4_spans ps). fst s < snd s"
    using assms by (auto simp: set_v4_spans prefix_block_def)
  have cov: "in_spans (v4_spans ps) n \<longleftrightarrow> v4_matches ps n" for n
    using assms by (auto simp: in_spans_def set_v4_spans v4_matches_def prefix_addrs_def)
  show sep: "separated (merge_spans [] (v4_spans ps))"
    and mc: "in_spans (merge_spans [] (v4_spans ps)) n \<longleftrightarrow> v4_matches ps n" for n
    using merge_spans_correct [OF srt ne] cov by auto
  show "hi \<le> 2 ^ 32" if m: "(lo, hi) \<in> set (merge_spans [] (v4_spans ps))"
  proof -
    have "lo < hi" using sep m by (force simp: separated_def)
    with m have "in_spans (merge_spans [] (v4_spans ps)) (hi - 1)" by (force simp: in_spans_def)
    then obtain p where "p \<in> set ps" "is_v4_prefix p" "hi - 1 < prefix_lo p + prefix_block p"
      by (auto simp: mc v4_matches_def prefix_addrs_def)
    with prefix_span_bound [of p] assms show ?thesis by (force simp: list_all_iff)
  qed
qed

lemma matchesAny_v4:
  "matchesAny ps (Addr4 w) \<longleftrightarrow> v4_matches ps (unat w)"
proof -
  have "prefixContains p (Addr4 w) \<Longrightarrow> is_v4_prefix p" for p
    by (auto simp: prefixContains_def is_v4_prefix_def is4_def split: addr.splits)
  then show ?thesis
    using contains_v4_interval
    by (simp add: matchesAny_def list_ex_iff v4_matches_def prefix_addrs_def) blast
qed

lemma matchesAny_append [simp]: "matchesAny (ps @ qs) a \<longleftrightarrow> matchesAny ps a \<or> matchesAny qs a"
  by (simp add: matchesAny_def)

lemma v4_matches_append [simp]: "v4_matches (ps @ qs) n \<longleftrightarrow> v4_matches ps n \<or> v4_matches qs n"
  by (auto simp: v4_matches_def)

lemma v4_matches_merged:
  assumes "list_all prefix_ok ps"
  shows "v4_matches (concat (map (\<lambda>(lo, hi). spanToPrefixes lo hi) (merge_spans [] (v4_spans ps)))) n
    \<longleftrightarrow> v4_matches ps n"
proof -
  let ?M = "merge_spans [] (v4_spans ps)"
  have "(\<exists>p \<in> set (spanToPrefixes lo hi). is_v4_prefix p \<and> n \<in> prefix_addrs p) \<longleftrightarrow> lo \<le> n \<and> n < hi"
    if "(lo, hi) \<in> set ?M" for lo hi
    using spanToPrefixes_cover [OF merged_v4_spans(3) [OF assms that], of lo]
      spanToPrefixes_ok [OF merged_v4_spans(3) [OF assms that], of _ lo] by (auto simp: set_eq_iff)
  then show ?thesis
    unfolding merged_v4_spans(2) [OF assms, symmetric]
    by (auto simp: v4_matches_def in_spans_def) (metis fst_conv snd_conv)+
qed

lemma other_not_v4: "\<not> v4_matches (other_prefixes ps) n"
  by (auto simp: v4_matches_def other_prefixes_def is_v4_prefix_def)

lemma NormalizePrefixes_v4_matches:
  "list_all prefix_ok ps \<Longrightarrow> v4_matches (NormalizePrefixes ps) n \<longleftrightarrow> v4_matches ps n"
  by (simp add: NormalizePrefixes_eq v4_matches_merged other_not_v4)

lemma NormalizePrefixes_merged_v4:
  "list_all prefix_ok ps \<Longrightarrow>
   p \<in> set (concat (map (\<lambda>(lo, hi). spanToPrefixes lo hi) (merge_spans [] (v4_spans ps)))) \<Longrightarrow>
   is_v4_prefix p \<and> prefix_ok p"
  using merged_v4_spans(3) spanToPrefixes_ok by fastforce

lemma matchesAny_other:
  assumes "list_all prefix_ok ps" and "\<not> is4 a"
  shows "matchesAny ps a \<longleftrightarrow> matchesAny (other_prefixes ps) a"
proof -
  have "prefixContains p a \<longrightarrow> \<not> is4 (p_ip p)" for p
    using assms(2) by (auto simp: prefixContains_def is4_def split: addr.splits)
  with assms(1) show ?thesis
    by (auto simp: matchesAny_def list_ex_iff list_all_iff other_prefixes_def contains_masked is4_masked
        is_v4_prefix_def)
qed

lemma matchesAny_v4_list:
  "\<forall>p \<in> set ps. is_v4_prefix p \<Longrightarrow> \<not> is4 a \<Longrightarrow> \<not> matchesAny ps a"
  by (auto simp: matchesAny_def list_ex_iff prefixContains_def is_v4_prefix_def is4_def split: addr.splits)

lemma NormalizePrefixes_matchesAny:
  assumes "list_all prefix_ok ps"
  shows "matchesAny (NormalizePrefixes ps) a \<longleftrightarrow> matchesAny ps a"
proof (cases "is4 a")
  case True
  then obtain w where "a = Addr4 w" by (auto simp: is4_def split: addr.splits)
  then show ?thesis by (simp add: matchesAny_v4 NormalizePrefixes_v4_matches [OF assms])
next
  case False
  with matchesAny_v4_list [of _ a] NormalizePrefixes_merged_v4 [OF assms] show ?thesis
    by (simp add: NormalizePrefixes_eq matchesAny_other [OF assms False])
qed

lemma NormalizePrefixes_canonical:
  assumes "list_all prefix_ok ps" and "list_all prefix_ok qs"
    and "\<And>n. v4_matches ps n \<longleftrightarrow> v4_matches qs n" and "other_prefixes ps = other_prefixes qs"
  shows "NormalizePrefixes ps = NormalizePrefixes qs"
proof -
  have "merge_spans [] (v4_spans ps) = merge_spans [] (v4_spans qs)"
    using assms merged_v4_spans(1,2) by (intro separated_unique) auto
  with assms(4) show ?thesis by (simp add: NormalizePrefixes_eq)
qed

lemma NormalizePrefixes_ok: "list_all prefix_ok ps \<Longrightarrow> list_all prefix_ok (NormalizePrefixes ps)"
  using NormalizePrefixes_merged_v4
  by (fastforce simp: NormalizePrefixes_eq list_all_iff other_prefixes_def prefix_ok_masked)

lemma other_prefixes_idem:
  assumes "list_all prefix_ok ps"
  shows "other_prefixes (NormalizePrefixes ps) = other_prefixes ps"
proof -
  have "other_prefixes xs = []" if "\<forall>p \<in> set xs. is_v4_prefix p \<and> prefix_ok p" for xs
    using that by (auto simp: other_prefixes_def filter_empty_conv is4_masked)
  moreover have "other_prefixes (other_prefixes ps) = other_prefixes ps"
    by (simp add: other_prefixes_def filter_map o_def masked_masked)
  moreover have "other_prefixes (xs @ ys) = other_prefixes xs @ other_prefixes ys" for xs ys
    by (simp add: other_prefixes_def)
  ultimately show ?thesis
    using NormalizePrefixes_merged_v4 [OF assms] by (simp add: NormalizePrefixes_eq)
qed

lemma NormalizePrefixes_idem:
  "list_all prefix_ok ps \<Longrightarrow> NormalizePrefixes (NormalizePrefixes ps) = NormalizePrefixes ps"
  by (intro NormalizePrefixes_canonical)
    (simp_all add: NormalizePrefixes_ok NormalizePrefixes_v4_matches other_prefixes_idem)

subsection \<open>Normalized lists are shortest\<close>

lemma prefix_addrs_v4: "prefix_lo p \<in> prefix_addrs p"
  by (simp add: prefix_addrs_def prefix_block_def)

lemma merged_prefixes_shortest:
  assumes "separated ss" and "\<forall>s \<in> set ss. snd s \<le> 2 ^ 32" and "\<forall>q \<in> set qs. is_v4_prefix q"
    and "(\<Union>q \<in> set qs. prefix_addrs q) = {n. in_spans ss n}"
  shows "length (concat (map (\<lambda>(lo, hi). spanToPrefixes lo hi) ss)) \<le> length qs"
  using assms
proof (induction ss arbitrary: qs)
  case (Cons s ss)
  let ?A = "filter (\<lambda>q. prefix_lo q < snd s) qs" and ?B = "filter (\<lambda>q. \<not> prefix_lo q < snd s) qs"
  have gap: "\<not> in_spans (s # ss) (snd s)" using separated_in_spans_ge [OF Cons.prems(1), of "snd s"] by auto
  have inA: "prefix_addrs q \<subseteq> {fst s ..< snd s}" if "q \<in> set ?A" for q
  proof
    fix n assume n: "n \<in> prefix_addrs q"
    have sub: "prefix_addrs q \<subseteq> {n. in_spans (s # ss) n}" using Cons.prems(4) that by fastforce
    then have "snd s \<notin> prefix_addrs q" using gap by blast
    then have "n < snd s" using n that by (auto simp: prefix_addrs_def)
    with sub n separated_in_spans_ge [OF Cons.prems(1), of n] show "n \<in> {fst s ..< snd s}" by force
  qed
  have inB: "prefix_addrs q \<subseteq> {n. in_spans ss n}" if "q \<in> set ?B" for q
  proof
    fix n assume n: "n \<in> prefix_addrs q"
    then have "in_spans (s # ss) n" using Cons.prems(4) that by fastforce
    moreover have "snd s \<le> n" using n that by (auto simp: prefix_addrs_def)
    ultimately show "n \<in> {n. in_spans ss n}" by simp
  qed
  define UA where "UA = (\<Union>q \<in> set ?A. prefix_addrs q)"
  define UB where "UB = (\<Union>q \<in> set ?B. prefix_addrs q)"
  have "UA \<union> UB = (\<Union>q \<in> set qs. prefix_addrs q)" by (auto simp: UA_def UB_def)
  then have cover: "n \<in> UA \<or> n \<in> UB \<longleftrightarrow> n \<in> {fst s ..< snd s} \<or> in_spans ss n" for n
    using Cons.prems(4) by (simp add: set_eq_iff)
  have a: "n \<in> {fst s ..< snd s}" if "n \<in> UA" for n using inA that unfolding UA_def by blast
  have b: "in_spans ss n" if "n \<in> UB" for n using inB that unfolding UB_def by blast
  have disj: "n \<notin> {fst s ..< snd s}" if "in_spans ss n" for n
    using separated_in_spans_ge [OF Cons.prems(1) that] by auto
  have A: "(\<Union>q \<in> set ?A. prefix_addrs q) = {fst s ..< snd s}"
    unfolding UA_def [symmetric] using a b cover disj by blast
  have B: "(\<Union>q \<in> set ?B. prefix_addrs q) = {n. in_spans ss n}"
    unfolding UB_def [symmetric] using a b cover disj by blast
  have "length (spanToPrefixes (fst s) (snd s)) \<le> length ?A"
    using Cons.prems(2,3) A by (intro spanToPrefixes_minimal_length) auto
  moreover have "length (concat (map (\<lambda>(lo, hi). spanToPrefixes lo hi) ss)) \<le> length ?B"
    using Cons.prems B by (intro Cons.IH) (auto simp: separated_Cons)
  moreover have "length ?A + length ?B = length qs" by (rule sum_length_filter_compl)
  ultimately show ?case by (cases s) simp
qed simp

lemma other_prefixes_v4: "\<forall>p \<in> set ps. is_v4_prefix p \<and> prefix_ok p \<Longrightarrow> other_prefixes ps = []"
  by (auto simp: other_prefixes_def filter_empty_conv is4_masked)

lemma NormalizePrefixes_shortest:
  assumes "\<forall>p \<in> set ps. is_v4_prefix p \<and> prefix_ok p" and "\<forall>q \<in> set qs. is_v4_prefix q"
    and "\<And>n. v4_matches ps n \<longleftrightarrow> v4_matches qs n"
  shows "length (NormalizePrefixes ps) \<le> length qs"
proof -
  have ok: "list_all prefix_ok ps" using assms(1) by (simp add: list_all_iff)
  have "(\<Union>q \<in> set qs. prefix_addrs q) = {n. in_spans (merge_spans [] (v4_spans ps)) n}"
    using merged_v4_spans(2) [OF ok] assms(2,3) by (auto simp: v4_matches_def)
  then have "length (concat (map (\<lambda>(lo, hi). spanToPrefixes lo hi) (merge_spans [] (v4_spans ps)))) \<le> length qs"
    using merged_v4_spans(1,3) [OF ok] assms(2) by (intro merged_prefixes_shortest) auto
  then show ?thesis by (simp add: NormalizePrefixes_eq other_prefixes_v4 [OF assms(1)])
qed

lemma v4_matches_bound: "list_all prefix_ok ps \<Longrightarrow> v4_matches ps n \<Longrightarrow> n < 4294967296"
  using prefix_span_bound by (fastforce simp: v4_matches_def prefix_addrs_def list_all_iff)

lemma v4_matches_word:
  assumes "list_all prefix_ok ps" "list_all prefix_ok qs"
    and "\<And>w. matchesAny ps (Addr4 w) \<longleftrightarrow> matchesAny qs (Addr4 w)"
  shows "v4_matches ps n \<longleftrightarrow> v4_matches qs n"
  using assms(3) [of "word_of_nat n"] v4_matches_bound [OF assms(1), of n] v4_matches_bound [OF assms(2), of n]
  by (cases "n < 4294967296") (auto simp: matchesAny_v4 unat_word_of_nat32)

lemma NormalizePrefixes_Nil: "list_all prefix_ok ps \<Longrightarrow> NormalizePrefixes ps = [] \<longleftrightarrow> ps = []"
proof
  assume ok: "list_all prefix_ok ps" and nil: "NormalizePrefixes ps = []"
  show "ps = []"
  proof (cases ps)
    case (Cons p qs)
    show ?thesis
    proof (cases "is_v4_prefix p")
      case True
      then have "v4_matches ps (prefix_lo p)" using Cons prefix_addrs_v4 by (auto simp: v4_matches_def)
      with NormalizePrefixes_v4_matches [OF ok, of "prefix_lo p"] have "v4_matches [] (prefix_lo p)" by (simp add: nil)
      then show ?thesis by (simp add: v4_matches_def)
    next
      case False
      then have "masked p \<in> set (other_prefixes ps)"
        using ok Cons by (simp add: other_prefixes_def is4_masked)
      with nil show ?thesis by (simp add: NormalizePrefixes_eq)
    qed
  qed simp
qed (simp add: NormalizePrefixes_eq v4_spans_def other_prefixes_def)

end
