(* ===== verification/Planner.thy ===== *)
theory Planner
  imports Policy "HOL-Library.Product_Lexorder"
begin

section \<open>The planner (internal/planner)\<close>

text \<open>
  From normalized rules, admission limits and the registered agents to the
  backend-independent plan: which ports are forwarded, to which agent address,
  under which admission policy. A Go map that is only filled and looked up is
  an association list in insertion order, newest first; a \<open>map[string]bool\<close>
  that is used as a set is the list of its members. \<open>sort.Slice\<close> is a stable sort
  here; the permutation lemma shows that on rules with distinct IDs the order
  of equal elements cannot be observed.
\<close>

record Agent =
  ag_Name :: string
  ag_Addr :: addr

record Input =
  in_Generation :: uint64
  in_Rules :: "MRule list"
  in_Limits :: AdmissionLimits
  in_Agents :: "Agent list"

record PortPlan =
  pp_RuleID :: string
  pp_Agent :: string
  pp_Proto :: Proto
  pp_ListenPort :: PortRange
  pp_Forwarding :: Forwarding
  pp_SourceMetadata :: SourceMetadata
  pp_Target :: string
  pp_AgentAddr :: addr
  pp_Policy :: RulePolicy

record Plan =
  pl_Generation :: uint64
  pl_Ports :: "PortPlan list"
  pl_Admission :: Policy

definition zeroRulePolicy :: RulePolicy where
  "zeroRulePolicy =
     \<lparr>rp_RuleID = [], rp_Proto = [], rp_SourceAllow = [], rp_SourceDeny = [],
      rp_PerSourceRate = None, rp_NewFlowRate = None, rp_PacketRate = None\<rparr>"

definition addrByAgent :: "Agent list \<Rightarrow> string \<Rightarrow> addr option" where
  "addrByAgent agents = map_of (rev (map (\<lambda>a. (ag_Name a, ag_Addr a)) agents))"

definition polByRuleID :: "RulePolicy list \<Rightarrow> string \<Rightarrow> RulePolicy option" where
  "polByRuleID rps = map_of (rev (map (\<lambda>rp. (rp_RuleID rp, rp)) rps))"

definition port_plan :: "RulePolicy list \<Rightarrow> MRule \<Rightarrow> addr \<Rightarrow> PortPlan" where
  "port_plan rps r a =
     \<lparr>pp_RuleID = m_ID r, pp_Agent = m_Agent r, pp_Proto = m_Proto r, pp_ListenPort = m_ListenPort r,
      pp_Forwarding = m_Forwarding r, pp_SourceMetadata = m_SourceMetadata r, pp_Target = m_Target r,
      pp_AgentAddr = a,
      pp_Policy = (case polByRuleID rps (m_ID r) of None \<Rightarrow> zeroRulePolicy | Some rp \<Rightarrow> rp)\<rparr>"

fun build_ports :: "RulePolicy list \<Rightarrow> (string \<Rightarrow> addr option) \<Rightarrow> MRule list \<Rightarrow> PortPlan list" where
  "build_ports rps addrs [] = []"
| "build_ports rps addrs (r # rs) =
     (if \<not> m_Enabled r then build_ports rps addrs rs
      else case addrs (m_Agent r) of
        None \<Rightarrow> build_ports rps addrs rs
      | Some a \<Rightarrow> port_plan rps r a # build_ports rps addrs rs)"

definition port_key :: "PortPlan \<Rightarrow> string \<times> uint16 \<times> string" where
  "port_key p = (pp_Proto p, Lo (pp_ListenPort p), pp_RuleID p)"

text \<open>\<open>planner.Build\<close>.\<close>

definition Plan_Build :: "Input \<Rightarrow> Plan" where
  "Plan_Build inp =
     (let addrs = addrByAgent (in_Agents inp);
          pol = Policy_Build (in_Rules inp) (in_Limits inp);
          ports = build_ports (pol_Rules pol) addrs (in_Rules inp);
          owned = map pp_RuleID ports
      in \<lparr>pl_Generation = in_Generation inp,
          pl_Ports = sort_key port_key ports,
          pl_Admission = \<lparr>pol_Rules = filter (\<lambda>rp. rp_RuleID rp \<in> set owned) (pol_Rules pol),
                          pol_PerSourceFlowCaps = pol_PerSourceFlowCaps pol\<rparr>\<rparr>)"

definition byForwarding :: "Plan \<Rightarrow> Forwarding \<Rightarrow> PortPlan list" where
  "byForwarding p f = filter (\<lambda>pp. pp_Forwarding pp = f) (pl_Ports p)"

definition Plan_Transparent :: "Plan \<Rightarrow> PortPlan list" where
  "Plan_Transparent p = byForwarding p Transparent"

definition Plan_Relay :: "Plan \<Rightarrow> PortPlan list" where
  "Plan_Relay p = byForwarding p Relay"

definition Without :: "Plan \<Rightarrow> string list \<Rightarrow> Plan" where
  "Without p ids =
     (if ids = [] then p
      else \<lparr>pl_Generation = pl_Generation p,
            pl_Ports = filter (\<lambda>pp. pp_RuleID pp \<notin> set ids) (pl_Ports p),
            pl_Admission =
              \<lparr>pol_Rules = filter (\<lambda>rp. rp_RuleID rp \<notin> set ids) (pol_Rules (pl_Admission p)),
               pol_PerSourceFlowCaps = pol_PerSourceFlowCaps (pl_Admission p)\<rparr>\<rparr>)"

text \<open>\<open>Plan.Port\<close>; \<open>None\<close> is the Go result \<open>(PortPlan{}, false)\<close>.\<close>

definition Plan_Port :: "Plan \<Rightarrow> string \<Rightarrow> PortPlan option" where
  "Plan_Port p ruleID = find (\<lambda>pp. pp_RuleID pp = ruleID) (pl_Ports p)"

subsection \<open>What a plan holds\<close>

definition owned_rule :: "Input \<Rightarrow> MRule \<Rightarrow> bool" where
  "owned_rule inp r = (m_Enabled r \<and> addrByAgent (in_Agents inp) (m_Agent r) \<noteq> None)"

definition ids_distinct :: "MRule list \<Rightarrow> bool" where
  "ids_distinct rules = distinct (map m_ID rules)"

lemma rule_policy_ID [simp]: "rp_RuleID (rule_policy r) = m_ID r"
  by (simp add: rule_policy_def)

lemma map_of_rev_unique:
  assumes "distinct (map f xs)" and "x \<in> set xs"
  shows "map_of (rev (map (\<lambda>x. (f x, g x)) xs)) (f x) = Some (g x)"
proof (rule map_of_is_SomeI)
  show "distinct (map fst (rev (map (\<lambda>x. (f x, g x)) xs)))"
    using assms(1) by (simp add: rev_map o_def flip: rev_map)
qed (use assms(2) in auto)

lemma set_Policy_Build: "set (pol_Rules (Policy_Build rules l)) = rule_policy ` {r \<in> set rules. m_Enabled r}"
  by (auto simp: Policy_Build_def)

lemma distinct_Policy_Build:
  assumes "ids_distinct rules"
  shows "distinct (map rp_RuleID (pol_Rules (Policy_Build rules l)))"
proof -
  have "distinct (map m_ID (filter m_Enabled rules))"
    using assms by (simp add: ids_distinct_def distinct_map_filter)
  moreover have "mset (map rp_RuleID (pol_Rules (Policy_Build rules l))) = mset (map m_ID (filter m_Enabled rules))"
    by (simp add: Policy_Build_def o_def mset_map [symmetric] del: mset_map) (simp add: o_def multiset.map_comp)
  ultimately show ?thesis by (metis mset_eq_imp_distinct_iff)
qed

lemma polByRuleID_Build:
  assumes "ids_distinct rules" "r \<in> set rules" "m_Enabled r"
  shows "polByRuleID (pol_Rules (Policy_Build rules l)) (m_ID r) = Some (rule_policy r)"
proof -
  have "rule_policy r \<in> set (pol_Rules (Policy_Build rules l))" using assms by (auto simp: set_Policy_Build)
  from map_of_rev_unique [OF distinct_Policy_Build [OF assms(1)] this]
  show ?thesis by (simp add: polByRuleID_def)
qed

text \<open>The port of an owned rule, with the rule's own policy.\<close>

definition owned_port :: "Input \<Rightarrow> MRule \<Rightarrow> PortPlan" where
  "owned_port inp r =
     \<lparr>pp_RuleID = m_ID r, pp_Agent = m_Agent r, pp_Proto = m_Proto r, pp_ListenPort = m_ListenPort r,
      pp_Forwarding = m_Forwarding r, pp_SourceMetadata = m_SourceMetadata r, pp_Target = m_Target r,
      pp_AgentAddr = the (addrByAgent (in_Agents inp) (m_Agent r)), pp_Policy = rule_policy r\<rparr>"

lemma owned_port_simps [simp]:
  "pp_RuleID (owned_port inp r) = m_ID r" "pp_Policy (owned_port inp r) = rule_policy r"
  "pp_Forwarding (owned_port inp r) = m_Forwarding r"
  by (simp_all add: owned_port_def)

lemma build_ports_owned:
  assumes "ids_distinct (in_Rules inp)" and "set rs \<subseteq> set (in_Rules inp)"
  shows "build_ports (pol_Rules (Policy_Build (in_Rules inp) l)) (addrByAgent (in_Agents inp)) rs
    = map (owned_port inp) (filter (owned_rule inp) rs)"
  using assms(2)
  by (induction rs)
    (auto simp: owned_rule_def port_plan_def owned_port_def polByRuleID_Build [OF assms(1)] split: option.splits)

lemma Plan_Build_Ports:
  assumes "ids_distinct (in_Rules inp)"
  shows "pl_Ports (Plan_Build inp) = sort_key port_key (map (owned_port inp) (filter (owned_rule inp) (in_Rules inp)))"
  using build_ports_owned [OF assms order_refl] by (simp add: Plan_Build_def Let_def)

lemma Plan_Build_Admission:
  assumes "ids_distinct (in_Rules inp)"
  shows "pol_Rules (pl_Admission (Plan_Build inp))
    = sort_key rp_RuleID (map rule_policy (filter (owned_rule inp) (in_Rules inp)))"
proof -
  have "m_ID r \<in> m_ID ` {q \<in> set (in_Rules inp). owned_rule inp q} \<longleftrightarrow> owned_rule inp r"
    if "r \<in> set (in_Rules inp)" for r
    using assms that by (auto simp: ids_distinct_def distinct_map dest: inj_onD)
  then have "filter (\<lambda>r. m_Enabled r \<and> m_ID r \<in> m_ID ` {q \<in> set (in_Rules inp). owned_rule inp q}) (in_Rules inp)
    = filter (owned_rule inp) (in_Rules inp)"
    by (intro filter_cong) (auto simp: owned_rule_def)
  moreover have "pol_Rules (pl_Admission (Plan_Build inp))
    = filter (\<lambda>rp. rp_RuleID rp \<in> m_ID ` {q \<in> set (in_Rules inp). owned_rule inp q})
        (pol_Rules (Policy_Build (in_Rules inp) (in_Limits inp)))"
    using build_ports_owned [OF assms order_refl] by (simp add: Plan_Build_def Let_def image_image)
  ultimately show ?thesis
    by (simp add: Policy_Build_def filter_sort filter_map o_def conj_commute)
qed

lemma Plan_Build_rest [simp]:
  "pl_Generation (Plan_Build inp) = in_Generation inp"
  "pol_PerSourceFlowCaps (pl_Admission (Plan_Build inp)) =
     \<lparr>cap_UDP = UDPPerSourceCap (in_Limits inp), cap_TCP = TCPPerSourceCap (in_Limits inp)\<rparr>"
  by (simp_all add: Plan_Build_def Let_def Policy_Build_def)

lemma addrByAgent_perm:
  assumes "mset as = mset bs" and "distinct (map ag_Name as)"
  shows "addrByAgent as = addrByAgent bs"
proof
  fix n
  have d: "distinct (map ag_Name bs)" using assms by (metis mset_eq_imp_distinct_iff mset_map)
  have "addrByAgent cs n = Some v \<longleftrightarrow> (\<exists>a \<in> set cs. ag_Name a = n \<and> ag_Addr a = v)"
    if "distinct (map ag_Name cs)" for cs v
    using map_of_rev_unique [OF that, of _ ag_Addr]
    by (fastforce simp: addrByAgent_def dest!: map_of_SomeD)
  with assms d show "addrByAgent as n = addrByAgent bs n"
    by (metis mset_eq_setD not_Some_eq)
qed

text \<open>A plan is decided by its generation, ports, admission rules and caps.\<close>

lemma Plan_eqI:
  fixes p q :: Plan
  assumes "pl_Generation p = pl_Generation q" "pl_Ports p = pl_Ports q"
    "pol_Rules (pl_Admission p) = pol_Rules (pl_Admission q)"
    "pol_PerSourceFlowCaps (pl_Admission p) = pol_PerSourceFlowCaps (pl_Admission q)"
  shows "p = q"
  using assms by (cases p, cases q, cases "pl_Admission p", cases "pl_Admission q") simp

lemma Plan_Build_perm:
  assumes "mset rules = mset rules'" and "mset agents = mset agents'"
    and "ids_distinct rules" and "distinct (map ag_Name agents)"
  shows "Plan_Build \<lparr>in_Generation = g, in_Rules = rules, in_Limits = l, in_Agents = agents\<rparr>
    = Plan_Build \<lparr>in_Generation = g, in_Rules = rules', in_Limits = l, in_Agents = agents'\<rparr>"
    (is "Plan_Build ?a = Plan_Build ?b")
proof (rule Plan_eqI)
  have d': "ids_distinct rules'" using assms by (metis ids_distinct_def mset_eq_imp_distinct_iff mset_map)
  have addr: "addrByAgent agents = addrByAgent agents'" by (rule addrByAgent_perm [OF assms(2,4)])
  then have own: "owned_rule ?a = owned_rule ?b" "owned_port ?a = owned_port ?b"
    by (simp_all add: owned_rule_def owned_port_def fun_eq_iff)
  have inj: "inj_on m_ID (set rules)" using assms(3) by (simp add: ids_distinct_def distinct_map)
  have ms: "mset (filter P rules) = mset (filter P rules')" for P using assms(1) by simp
  have ports: "sort_key port_key (map (owned_port ?b) (filter (owned_rule ?b) rules))
    = sort_key port_key (map (owned_port ?b) (filter (owned_rule ?b) rules'))"
    using ms by (intro sort_key_perm_unique inj_onI) (auto simp: port_key_def dest: inj_onD [OF inj])
  have adm: "sort_key rp_RuleID (map rule_policy (filter (owned_rule ?b) rules))
    = sort_key rp_RuleID (map rule_policy (filter (owned_rule ?b) rules'))"
    using ms by (intro sort_key_perm_unique inj_onI) (auto dest: inj_onD [OF inj])
  show "pl_Ports (Plan_Build ?a) = pl_Ports (Plan_Build ?b)"
    using Plan_Build_Ports [of ?a] Plan_Build_Ports [of ?b] assms(3) d' ports own by simp
  show "pol_Rules (pl_Admission (Plan_Build ?a)) = pol_Rules (pl_Admission (Plan_Build ?b))"
    using Plan_Build_Admission [of ?a] Plan_Build_Admission [of ?b] assms(3) d' adm own by simp
qed simp_all

text \<open>Leaving rules out of a plan is planning without them.\<close>

lemma Without_Build:
  assumes "ids_distinct (in_Rules inp)"
  shows "Without (Plan_Build inp) ids
    = Plan_Build (inp\<lparr>in_Rules := filter (\<lambda>r. m_ID r \<notin> set ids) (in_Rules inp)\<rparr>)" (is "_ = Plan_Build ?inp")
proof (rule Plan_eqI)
  have d: "ids_distinct (in_Rules ?inp)" using assms by (simp add: ids_distinct_def distinct_map_filter)
  have own: "owned_rule ?inp = owned_rule inp" "owned_port ?inp = owned_port inp"
    by (simp_all add: owned_rule_def owned_port_def fun_eq_iff)
  show "pl_Ports (Without (Plan_Build inp) ids) = pl_Ports (Plan_Build ?inp)"
    by (simp add: Without_def Plan_Build_Ports [OF assms] Plan_Build_Ports [OF d] own filter_sort filter_map o_def
        conj_commute)
  show "pol_Rules (pl_Admission (Without (Plan_Build inp) ids)) = pol_Rules (pl_Admission (Plan_Build ?inp))"
    by (simp add: Without_def Plan_Build_Admission [OF assms] Plan_Build_Admission [OF d] own filter_sort filter_map
        o_def conj_commute)
qed (simp_all add: Without_def)

lemma Plan_Port_Build:
  assumes "ids_distinct (in_Rules inp)"
  shows "Plan_Port (Plan_Build inp) i = Some pp \<longleftrightarrow>
    (\<exists>r \<in> set (in_Rules inp). m_ID r = i \<and> owned_rule inp r \<and> pp = owned_port inp r)"
proof -
  have "distinct (map m_ID (filter (owned_rule inp) (in_Rules inp)))"
    using assms by (simp add: ids_distinct_def distinct_map_filter)
  then have "distinct (map pp_RuleID (map (owned_port inp) (filter (owned_rule inp) (in_Rules inp))))"
    by (simp add: o_def)
  then have "inj_on pp_RuleID (set (pl_Ports (Plan_Build inp)))"
    by (simp add: Plan_Build_Ports [OF assms] distinct_map inj_on_imageI)
  then have "Plan_Port (Plan_Build inp) i = Some pp \<longleftrightarrow> pp \<in> set (pl_Ports (Plan_Build inp)) \<and> pp_RuleID pp = i"
    unfolding Plan_Port_def by (rule find_inj_iff)
  then show ?thesis by (auto simp: Plan_Build_Ports [OF assms])
qed

end
