(* ===== verification/Policy_Properties.thy ===== *)
theory Policy_Properties
  imports Planner "HOL-Library.Code_Target_Nat"
begin

section \<open>Properties of the admission policy and the plan\<close>

text \<open>
  The theorems about \<open>internal/policy\<close> and \<open>internal/planner\<close>. The definitions
  below are the inputs of the witnesses: two halves of \<open>10.0.0.0/8\<close>, a rule that
  admits them, and the agent it belongs to.
\<close>

definition net_low :: prefix where "net_low = \<lparr>p_ip = Addr4 0x0A000000, p_bits = 9\<rparr>"
definition net_high :: prefix where "net_high = \<lparr>p_ip = Addr4 0x0A800001, p_bits = 9\<rparr>"
definition net_ten :: prefix where "net_ten = \<lparr>p_ip = Addr4 0x0A000000, p_bits = 8\<rparr>"

definition sample_mrule :: "string \<Rightarrow> string \<Rightarrow> MRule" where
  "sample_mrule i agent = \<lparr>m_ID = i, m_Agent = agent, m_Group = [], m_Note = [], m_Proto = UDP,
     m_ListenPort = \<lparr>Lo = 9000, Hi = 9009\<rparr>, m_Target = ''192.168.1.10:7000'', m_Forwarding = Transparent,
     m_SourceMetadata = NoSourceMetadata, m_SourceAllow = [net_low, net_high], m_SourceDeny = [],
     m_NewFlowRate = None, m_PacketRate = None, m_PerSourceRate = None, m_Enabled = True\<rparr>"

definition sample_agents :: "Agent list" where
  "sample_agents = [\<lparr>ag_Name = ''home'', ag_Addr = Addr4 1\<rparr>]"

lemma nets_ok: "prefix_ok net_low" "prefix_ok net_high" "prefix_ok net_ten"
  "is_v4_prefix net_low" "is_v4_prefix net_high" "is_v4_prefix net_ten"
  by code_simp+

lemma nets_normalize: "NormalizePrefixes [net_low, net_high] = [net_ten]"
  by code_simp

subsection \<open>Source lists\<close>

text \<open>C1. The policy built from a rule admits exactly the sources the rule's own lists admit: no
  entry of the deny list matches, and the allow list is empty or one of its entries matches. The
  lists are normalized on the way, and that changes no verdict for any address.\<close>

theorem policy_admits_declared_sources:
  assumes "list_all prefix_ok (m_SourceAllow r)" and "list_all prefix_ok (m_SourceDeny r)"
  shows "SourceAllowed (rule_policy r) a \<longleftrightarrow>
    (\<forall>p \<in> set (m_SourceDeny r). \<not> prefixContains p a)
    \<and> (m_SourceAllow r = [] \<or> (\<exists>p \<in> set (m_SourceAllow r). prefixContains p a))"
  using NormalizePrefixes_matchesAny [OF assms(1), of a] NormalizePrefixes_matchesAny [OF assms(2), of a]
    NormalizePrefixes_Nil [OF assms(1)]
  by (auto simp: SourceAllowed_def rule_policy_def matchesAny_def list_ex_iff)

theorem policy_admits_declared_sources_witness:
  "SourceAllowed (rule_policy (sample_mrule ''game'' ''home'')) (Addr4 0x0A800007)"
  using policy_admits_declared_sources [of "sample_mrule ''game'' ''home''" "Addr4 0x0A800007"] nets_ok
  by (simp add: sample_mrule_def) code_simp

text \<open>C26. The normalized list is a canonical form: two lists of IPv4 prefixes have the same
  normalized list exactly when they match the same addresses.\<close>

theorem normalized_iff_same_sources:
  assumes "\<forall>p \<in> set ps \<union> set qs. is_v4_prefix p \<and> prefix_ok p"
  shows "NormalizePrefixes ps = NormalizePrefixes qs \<longleftrightarrow>
    (\<forall>w. matchesAny ps (Addr4 w) \<longleftrightarrow> matchesAny qs (Addr4 w))"
proof -
  have ok: "list_all prefix_ok ps" "list_all prefix_ok qs" using assms by (auto simp: list_all_iff)
  have o: "other_prefixes ps = other_prefixes qs" using assms by (simp add: other_prefixes_v4)
  show ?thesis
    using NormalizePrefixes_canonical [OF ok _ o] v4_matches_word [OF ok]
      NormalizePrefixes_matchesAny [OF ok(1)] NormalizePrefixes_matchesAny [OF ok(2)] by metis
qed

theorem normalized_iff_same_sources_witness:
  "matchesAny [net_low, net_high] (Addr4 0x0A123456) \<longleftrightarrow> matchesAny [net_ten] (Addr4 0x0A123456)"
proof -
  have "NormalizePrefixes [net_low, net_high] = NormalizePrefixes [net_ten]" by code_simp
  with normalized_iff_same_sources [of "[net_low, net_high]" "[net_ten]"] nets_ok show ?thesis by simp
qed

text \<open>C27. The normalized list is the shortest: no list of IPv4 prefixes that matches the same
  addresses has fewer entries.\<close>

theorem normalized_shortest:
  assumes "\<forall>p \<in> set ps \<union> set qs. is_v4_prefix p \<and> prefix_ok p"
    and "\<forall>w. matchesAny ps (Addr4 w) \<longleftrightarrow> matchesAny qs (Addr4 w)"
  shows "length (NormalizePrefixes ps) \<le> length qs"
proof (rule NormalizePrefixes_shortest)
  show "v4_matches ps n \<longleftrightarrow> v4_matches qs n" for n
    using assms by (intro v4_matches_word) (auto simp: list_all_iff)
qed (use assms(1) in auto)

theorem normalized_shortest_witness: "length (NormalizePrefixes [net_low, net_high]) \<le> length [net_low, net_high]"
  using normalized_shortest [of "[net_low, net_high]" "[net_low, net_high]"] nets_ok by simp

subsection \<open>The plan\<close>

text \<open>C14. A plan forwards exactly the enabled rules whose agent is registered, each to its agent's
  address under the policy of that very rule; the admission entries are those of the forwarded
  rules; ports are sorted by protocol, first port and rule, and the per-source caps are the
  configured ones with zero meaning the default.\<close>

theorem plan_exact:
  assumes "distinct (map m_ID (in_Rules inp))"
  shows "set (pl_Ports (Plan_Build inp)) =
      owned_port inp ` {r \<in> set (in_Rules inp). m_Enabled r \<and> addrByAgent (in_Agents inp) (m_Agent r) \<noteq> None}
    \<and> set (pol_Rules (pl_Admission (Plan_Build inp))) = pp_Policy ` set (pl_Ports (Plan_Build inp))
    \<and> sorted (map port_key (pl_Ports (Plan_Build inp)))
    \<and> pl_Generation (Plan_Build inp) = in_Generation inp"
proof -
  have d: "ids_distinct (in_Rules inp)" using assms by (simp add: ids_distinct_def)
  show ?thesis
    by (simp add: Plan_Build_Ports [OF d] Plan_Build_Admission [OF d] owned_rule_def image_image)
qed

theorem plan_exact_witness:
  "set (pl_Ports (Plan_Build \<lparr>in_Generation = 7, in_Rules = [sample_mrule ''game'' ''home'', sample_mrule ''old'' ''gone''],
      in_Limits = \<lparr>al_UDPPerSource = 0, al_TCPPerSource = 0\<rparr>, in_Agents = sample_agents\<rparr>))
   = {owned_port \<lparr>in_Generation = 7, in_Rules = [sample_mrule ''game'' ''home'', sample_mrule ''old'' ''gone''],
      in_Limits = \<lparr>al_UDPPerSource = 0, al_TCPPerSource = 0\<rparr>, in_Agents = sample_agents\<rparr> (sample_mrule ''game'' ''home'')}"
    (is "set (pl_Ports (Plan_Build ?inp)) = _")
proof -
  have "distinct (map m_ID (in_Rules ?inp))" by (simp add: sample_mrule_def)
  moreover have "{r \<in> set (in_Rules ?inp). m_Enabled r \<and> addrByAgent (in_Agents ?inp) (m_Agent r) \<noteq> None}
    = {sample_mrule ''game'' ''home''}"
    by (auto simp: sample_mrule_def sample_agents_def addrByAgent_def)
  ultimately show ?thesis using plan_exact [of ?inp] by simp
qed

text \<open>Planning is deterministic: the plan does not depend on the order in which the rules and
  the agents are given.\<close>

theorem plan_order_free:
  assumes "mset rules = mset rules'" and "mset agents = mset agents'"
    and "distinct (map m_ID rules)" and "distinct (map ag_Name agents)"
  shows "Plan_Build \<lparr>in_Generation = g, in_Rules = rules, in_Limits = l, in_Agents = agents\<rparr>
    = Plan_Build \<lparr>in_Generation = g, in_Rules = rules', in_Limits = l, in_Agents = agents'\<rparr>"
  using assms by (intro Plan_Build_perm) (simp_all add: ids_distinct_def)

theorem plan_order_free_witness:
  "Plan_Build \<lparr>in_Generation = 1, in_Rules = [sample_mrule ''b'' ''home'', sample_mrule ''a'' ''home''],
      in_Limits = \<lparr>al_UDPPerSource = 0, al_TCPPerSource = 0\<rparr>, in_Agents = sample_agents\<rparr>
   = Plan_Build \<lparr>in_Generation = 1, in_Rules = [sample_mrule ''a'' ''home'', sample_mrule ''b'' ''home''],
      in_Limits = \<lparr>al_UDPPerSource = 0, al_TCPPerSource = 0\<rparr>, in_Agents = sample_agents\<rparr>"
  by (rule plan_order_free) (simp_all add: sample_mrule_def sample_agents_def)

text \<open>The fail-closed plan that leaves rules out is the plan of the rule set without them: no
  port, no policy entry and no order of a remaining rule changes.\<close>

theorem without_is_replanning:
  assumes "distinct (map m_ID (in_Rules inp))"
  shows "Without (Plan_Build inp) ids
    = Plan_Build (inp\<lparr>in_Rules := filter (\<lambda>r. m_ID r \<notin> set ids) (in_Rules inp)\<rparr>)"
  using assms by (intro Without_Build) (simp add: ids_distinct_def)

theorem without_is_replanning_witness:
  "Without (Plan_Build \<lparr>in_Generation = 1, in_Rules = [sample_mrule ''b'' ''home'', sample_mrule ''a'' ''home''],
      in_Limits = \<lparr>al_UDPPerSource = 0, al_TCPPerSource = 0\<rparr>, in_Agents = sample_agents\<rparr>) [''b'']
   = Plan_Build \<lparr>in_Generation = 1, in_Rules = [sample_mrule ''a'' ''home''],
      in_Limits = \<lparr>al_UDPPerSource = 0, al_TCPPerSource = 0\<rparr>, in_Agents = sample_agents\<rparr>"
  by (subst without_is_replanning) (simp_all add: sample_mrule_def)

end
