(* ===== verification/GoFloat.thy ===== *)
theory GoFloat
  imports Prelude "HOL-Library.Log_Nat"
begin

section \<open>The Go language: float64 and durations\<close>

text \<open>
  A \<open>float64\<close> is the rational number it denotes. Every operation of the source
  is the exact operation followed by \<open>fl\<close>, the rounding to the nearest number
  with a significand of 53 bits, ties to the even one. The values the program
  computes with lie far inside the range of the exponent, so the model has
  neither infinities nor subnormal numbers. A product and a sum are rounded
  separately, as on amd64; an architecture that fuses them rounds once less.

  A duration counts nanoseconds; \<open>time_sub\<close> saturates at the ends of \<open>int64\<close>.
\<close>

definition pow2 :: "int \<Rightarrow> rat" where
  "pow2 k = (if 0 \<le> k then 2 ^ nat k else 1 / 2 ^ nat (- k))"

definition ilog2 :: "rat \<Rightarrow> int" where
  "ilog2 x =
     (let (p, q) = quotient_of x; e = bitlen p - bitlen q in if pow2 e \<le> x then e else e - 1)"

definition round_half_even :: "rat \<Rightarrow> int" where
  "round_half_even y =
     (let f = \<lfloor>y\<rfloor>; d = y - of_int f in
      if d < 1 / 2 then f else if d > 1 / 2 then f + 1 else if even f then f else f + 1)"

definition round_pos :: "rat \<Rightarrow> rat" where
  "round_pos x = (let u = pow2 (ilog2 x - 52) in of_int (round_half_even (x / u)) * u)"

definition fl :: "rat \<Rightarrow> rat" where
  "fl x = (if x = 0 then 0 else if 0 < x then round_pos x else - round_pos (- x))"

text \<open>\<open>time.Duration.Seconds\<close>: whole seconds and the rest, each converted.\<close>

definition duration_seconds :: "int \<Rightarrow> rat" where
  "duration_seconds d =
     fl (fl (of_int (d div 1000000000)) + fl (fl (of_int (d mod 1000000000)) / 1000000000))"

definition time_sub :: "int \<Rightarrow> int \<Rightarrow> int" where
  "time_sub a b = max (- (2 ^ 63)) (min (2 ^ 63 - 1) (a - b))"

subsection \<open>The rounding error\<close>

lemma pow2_pos [simp]: "0 < pow2 k"
  by (simp add: pow2_def)

lemma pow2_add: "pow2 (a + b) = pow2 a * pow2 b"
proof -
  have eq: "pow2 k = power_int 2 k" for k
    by (simp add: pow2_def power_int_def inverse_eq_divide power_one_over)
  show ?thesis by (simp add: eq power_int_add)
qed

lemma pow2_le_1: "k \<le> 0 \<Longrightarrow> pow2 k \<le> 1"
  by (auto simp: pow2_def)

lemma ilog2_lower:
  assumes "0 < x"
  shows "pow2 (ilog2 x) \<le> x"
proof -
  obtain p q where pq: "quotient_of x = (p, q)" by (cases "quotient_of x")
  have q: "0 < q" using quotient_of_denom_pos [OF pq] .
  have x: "x = of_int p / of_int q" using quotient_of_div [OF pq] .
  have p: "0 < p" using assms q unfolding x by (simp add: zero_less_divide_iff)
  have p2: "2 ^ nat (bitlen p - 1) \<le> p" and q2: "q < 2 ^ nat (bitlen q)"
    using bitlen_bounds [OF p] bitlen_bounds [OF q] by auto
  have bp: "0 < bitlen p" "0 < bitlen q" using p q bitlen_nonneg [of p] bitlen_nonneg [of q]
    by (auto simp: order_less_le bitlen_eq_zero_iff dest: sym)
  have "pow2 (bitlen p - bitlen q - 1) * of_int q \<le> pow2 (bitlen p - bitlen q - 1) * pow2 (bitlen q)"
  proof (rule mult_left_mono)
    have "(of_int q :: rat) \<le> of_int (2 ^ nat (bitlen q))" using q2 by (simp only: of_int_le_iff)
    then show "of_int q \<le> pow2 (bitlen q)" using bp by (simp add: pow2_def)
  qed (simp add: less_imp_le)
  also have "\<dots> = pow2 (bitlen p - 1)" by (simp flip: pow2_add)
  also have "\<dots> \<le> of_int p"
  proof -
    have "(of_int (2 ^ nat (bitlen p - 1)) :: rat) \<le> of_int p" using p2 by (simp only: of_int_le_iff)
    then show ?thesis using bp by (simp add: pow2_def)
  qed
  finally have "pow2 (bitlen p - bitlen q - 1) \<le> x" using q unfolding x by (simp add: field_simps)
  then show ?thesis by (simp add: ilog2_def pq Let_def)
qed

lemma round_half_even_error: "\<bar>of_int (round_half_even y) - y\<bar> \<le> 1 / 2"
proof -
  have "of_int \<lfloor>y\<rfloor> \<le> y" "y < of_int \<lfloor>y\<rfloor> + 1" by linarith+
  then show ?thesis unfolding round_half_even_def Let_def by (simp add: abs_le_iff)
qed

definition eps :: rat where "eps = 1 / 2 ^ 53"

lemma round_pos_error:
  assumes "0 < x"
  shows "\<bar>round_pos x - x\<bar> \<le> x * eps"
proof -
  define u where "u = pow2 (ilog2 x - 52)"
  have u: "0 < u" by (simp add: u_def)
  have "\<bar>round_pos x - x\<bar> = \<bar>of_int (round_half_even (x / u)) - x / u\<bar> * u"
  proof -
    have "round_pos x - x = (of_int (round_half_even (x / u)) - x / u) * u"
      using u by (simp add: round_pos_def Let_def u_def [symmetric] left_diff_distrib)
    then show ?thesis using u by (simp add: abs_mult)
  qed
  also have "\<dots> \<le> 1 / 2 * u" using round_half_even_error u by (intro mult_right_mono) auto
  also have "\<dots> = pow2 (ilog2 x) * eps"
    using pow2_add [of "ilog2 x" "- 52"] by (simp add: u_def eps_def pow2_def [of "- 52"])
  also have "\<dots> \<le> x * eps" using ilog2_lower [OF assms] by (intro mult_right_mono) (auto simp: eps_def)
  finally show ?thesis .
qed

lemma fl_error: "\<bar>fl x - x\<bar> \<le> \<bar>x\<bar> * eps"
proof (cases "x < 0")
  case True
  then have "\<bar>fl x - x\<bar> = \<bar>round_pos (- x) - (- x)\<bar>" by (simp add: fl_def abs_if)
  with round_pos_error [of "- x"] True show ?thesis by simp
qed (use round_pos_error [of x] in \<open>auto simp: fl_def\<close>)

lemma fl_0 [simp]: "fl 0 = 0"
  by (simp add: fl_def)

lemma fl_bounds:
  assumes "0 \<le> x"
  shows "x * (1 - eps) \<le> fl x" and "fl x \<le> x * (1 + eps)"
proof -
  have "fl x - x \<le> x * eps" "x - fl x \<le> x * eps" using fl_error [of x] assms by (simp_all add: abs_le_iff)
  then show "x * (1 - eps) \<le> fl x" "fl x \<le> x * (1 + eps)" by (simp_all add: right_diff_distrib distrib_left)
qed

lemma eps_bounds: "0 < eps" "eps < 1"
  by (simp_all add: eps_def)

lemma fl_nonneg: "0 \<le> x \<Longrightarrow> 0 \<le> fl x"
  by (rule order_trans [OF _ fl_bounds(1)]) (use eps_bounds in auto)

text \<open>An upper bound that survives a chain of roundings.\<close>

lemma fl_le: "0 \<le> x \<Longrightarrow> x \<le> y \<Longrightarrow> fl x \<le> y * (1 + eps)"
  using fl_bounds(2) [of x] mult_right_mono [of x y "1 + eps"] eps_bounds by linarith

lemma duration_seconds_nonneg: "0 \<le> d \<Longrightarrow> 0 \<le> duration_seconds d"
  unfolding duration_seconds_def
  by (intro fl_nonneg add_nonneg_nonneg divide_nonneg_pos) (simp_all add: pos_imp_zdiv_nonneg_iff)

lemma duration_seconds_le:
  assumes "0 \<le> d"
  shows "duration_seconds d \<le> of_int d / 1000000000 * (1 + eps) ^ 3"
proof -
  let ?s = "of_int (d div 1000000000) :: rat" and ?n = "of_int (d mod 1000000000) :: rat"
  have nn: "0 \<le> ?s" "0 \<le> ?n" using assms by (simp_all add: pos_imp_zdiv_nonneg_iff)
  have e1: "1 \<le> 1 + eps" using eps_bounds by simp
  have ns: "fl (fl ?n / 1000000000) \<le> ?n / 1000000000 * (1 + eps) * (1 + eps)"
  proof (rule fl_le)
    show "fl ?n / 1000000000 \<le> ?n / 1000000000 * (1 + eps)"
      using fl_bounds(2) [OF nn(2)] by (simp add: divide_right_mono)
  qed (use nn fl_nonneg in \<open>auto\<close>)
  have "fl ?s \<le> ?s * (1 + eps)" by (rule fl_bounds(2) [OF nn(1)])
  also have "\<dots> \<le> ?s * (1 + eps) * (1 + eps)"
    using mult_left_mono [OF e1, of "?s * (1 + eps)"] nn e1 by simp
  finally have sec: "fl ?s \<le> ?s * (1 + eps) * (1 + eps)" .
  have "duration_seconds d \<le> (?s * (1 + eps) * (1 + eps) + ?n / 1000000000 * (1 + eps) * (1 + eps)) * (1 + eps)"
    unfolding duration_seconds_def
  proof (rule fl_le [OF _ add_mono [OF sec ns]])
    show "0 \<le> fl ?s + fl (fl ?n / 1000000000)"
      using fl_nonneg [OF nn(1)] fl_nonneg [OF nn(2)] fl_nonneg [of "fl ?n / 1000000000"] by simp
  qed
  also have "\<dots> = (?s + ?n / 1000000000) * (1 + eps) ^ 3"
    unfolding power3_eq_cube by (simp only: distrib_right mult.assoc)
  also have "?s + ?n / 1000000000 = of_int d / 1000000000"
  proof -
    have "(of_int d :: rat) = of_int (1000000000 * (d div 1000000000) + d mod 1000000000)" by simp
    then show ?thesis by (simp only: of_int_add of_int_mult) simp
  qed
  finally show ?thesis .
qed

end
