(* ===== verification/Interfaces.thy ===== *)
theory Interfaces
  imports Prelude Complex_Main
begin

section \<open>Interfaces\<close>

text \<open>
  Contracts that more than one component of the program meets, with what their
  clients conclude from them: a transition system whose invariants hold in every
  reachable state, and a rate limiter whose admissions are paid by credit that
  grows with time.
\<close>

subsection \<open>Transition systems\<close>

locale transition_system =
  fixes init :: "'s \<Rightarrow> bool" and step :: "'s \<Rightarrow> 's \<Rightarrow> bool"
begin

inductive reachable :: "'s \<Rightarrow> bool" where
  start: "init s \<Longrightarrow> reachable s"
| advance: "reachable s \<Longrightarrow> step s t \<Longrightarrow> reachable t"

lemma invariant:
  assumes "reachable s" and "\<And>s. init s \<Longrightarrow> P s" and "\<And>s t. P s \<Longrightarrow> step s t \<Longrightarrow> P t"
  shows "P s"
  using assms by (induction rule: reachable.induct) blast+

end

text \<open>An inductive invariant comes with the system: the contract of a component that has one.\<close>

locale safe_system = transition_system init step
  for init :: "'s \<Rightarrow> bool" and step :: "'s \<Rightarrow> 's \<Rightarrow> bool" +
  fixes Inv :: "'s \<Rightarrow> bool"
  assumes init_inv: "init s \<Longrightarrow> Inv s"
    and step_inv: "Inv s \<Longrightarrow> step s t \<Longrightarrow> Inv t"
begin

lemma reachable_inv: "reachable s \<Longrightarrow> Inv s"
  by (rule invariant) (auto intro: init_inv step_inv)

end

subsection \<open>Rate limiters\<close>

text \<open>The number of admissions of a limiter asked at the given times.\<close>

fun admissions :: "('b \<Rightarrow> int \<Rightarrow> bool \<times> 'b) \<Rightarrow> 'b \<Rightarrow> int list \<Rightarrow> nat" where
  "admissions allow b [] = 0"
| "admissions allow b (t # ts) = (let (ok, b') = allow b t in of_bool ok + admissions allow b' ts)"

text \<open>
  An admission costs one unit of credit; credit grows by \<open>gain\<close> for each
  nanosecond, and by at most \<open>slack\<close> for each request through rounding.
\<close>

locale limiter =
  fixes inv :: "'b \<Rightarrow> bool" and clock :: "'b \<Rightarrow> int" and credit :: "'b \<Rightarrow> rat"
    and ok_time :: "int \<Rightarrow> bool" and allow :: "'b \<Rightarrow> int \<Rightarrow> bool \<times> 'b"
    and gain :: rat and slack :: rat
  assumes credit_nonneg: "inv b \<Longrightarrow> 0 \<le> credit b"
    and allow_law: "inv b \<Longrightarrow> ok_time now \<Longrightarrow> clock b \<le> now \<Longrightarrow> allow b now = (ok, b') \<Longrightarrow>
      inv b' \<and> clock b' = now
      \<and> credit b' + of_bool ok \<le> credit b + gain * of_int (now - clock b) + slack"
begin

lemma admissions_bound:
  assumes "inv b" and "sorted (clock b # ts)" and "\<forall>t \<in> set ts. ok_time t"
  shows "of_nat (admissions allow b ts)
    \<le> credit b + gain * of_int (last (clock b # ts) - clock b) + of_nat (length ts) * slack"
  using assms
proof (induction ts arbitrary: b)
  case Nil
  then show ?case by (simp add: credit_nonneg)
next
  case (Cons t ts)
  obtain ok b' where a: "allow b t = (ok, b')" by (cases "allow b t")
  have law: "inv b'" "clock b' = t" "credit b' + of_bool ok \<le> credit b + gain * of_int (t - clock b) + slack"
    using allow_law [OF Cons.prems(1) _ _ a] Cons.prems by auto
  have "of_nat (admissions allow b' ts) \<le> credit b' + gain * of_int (last (t # ts) - t) + of_nat (length ts) * slack"
    using Cons.IH [OF law(1)] Cons.prems law(2) by auto
  moreover have "gain * of_int (last (t # ts) - t) + gain * of_int (t - clock b) = gain * of_int (last (t # ts) - clock b)"
    by (simp add: algebra_simps)
  ultimately show ?case using law(3) a by (simp add: algebra_simps)
qed

end

end
