(* ===== verification/GoEngine.thy ===== *)
theory GoEngine
  imports Policy GoFloat Interfaces "HOL-Library.Product_Lexorder"
begin

section \<open>The Go admission engine (internal/policy/goengine)\<close>

text \<open>
  The evaluator of the userspace mode. Every method of \<open>Engine\<close> runs under its
  mutex, so a method is one step: it takes the engine and returns it updated.
  The clock is an argument: \<open>now\<close> is what the engine's clock returns at its
  first reading in the call, in nanoseconds; \<open>AdmitFlow\<close> reads it once and
  keeps it. A zero \<open>time.Time\<close> is \<open>None\<close>.

  A \<open>Ticket\<close> is shared with the caller and mutated through a pointer, so
  tickets live in a store: \<open>en_tickets\<close> holds the key and the \<open>held\<close> flag of
  each ticket ever made, and a ticket is its position there.
\<close>

subsection \<open>Token buckets\<close>

record tokenBucket =
  tb_refill :: rat
  tb_tokens :: rat
  tb_last :: "int option"

definition unitSeconds :: "RateUnit \<Rightarrow> rat" where
  "unitSeconds u =
     (if u = PerSecond then 1
      else if u = PerMinute then 60
      else if u = PerHour then 3600
      else if u = PerDay then 24 * 3600
      else if u = PerWeek then 7 * 24 * 3600
      else 1)"

definition newTokenBucket :: "Rate \<Rightarrow> tokenBucket" where
  "newTokenBucket r =
     \<lparr>tb_refill = fl (fl (of_int (uint (Count r))) / unitSeconds (Unit r)), tb_tokens = of_nat TokenBucketBurst,
      tb_last = None\<rparr>"

definition bucket_allow :: "tokenBucket \<Rightarrow> int \<Rightarrow> bool \<times> tokenBucket" where
  "bucket_allow b now =
     (let last = (case tb_last b of None \<Rightarrow> now | Some t \<Rightarrow> t);
          elapsed = time_sub now last;
          b = (if elapsed > 0
               then b\<lparr>tb_tokens := min (fl (tb_tokens b + fl (duration_seconds elapsed * tb_refill b)))
                                       (of_nat TokenBucketBurst),
                      tb_last := Some now\<rparr>
               else b\<lparr>tb_last := Some last\<rparr>)
      in if tb_tokens b < 1 then (False, b)
         else (True, b\<lparr>tb_tokens := fl (tb_tokens b - 1)\<rparr>))"

subsection \<open>The table of sources\<close>

text \<open>
  The map and the linked list of a \<open>sourceTable\<close> hold the same entries; the
  model is the list, most recently touched first.
\<close>

record sourceEntry =
  se_key :: addr
  se_bucket :: tokenBucket
  se_lastSeen :: int

record sourceTable =
  st_rate :: Rate
  st_order :: "sourceEntry list"

definition newSourceTable :: "Rate \<Rightarrow> sourceTable" where
  "newSourceTable rate = \<lparr>st_rate = rate, st_order = []\<rparr>"

function expire_back :: "int \<Rightarrow> sourceEntry list \<Rightarrow> sourceEntry list" where
  "expire_back now es =
     (if es = [] then []
      else if time_sub now (se_lastSeen (last es)) < PerSourceTableTTL then es
      else expire_back now (butlast es))"
  by pat_completeness auto
termination
  by (relation "measure (\<lambda>(_, es). length es)") auto

function evict_back :: "nat \<Rightarrow> 'a list \<Rightarrow> 'a list" where
  "evict_back n es = (if es \<noteq> [] \<and> n \<le> length es then evict_back n (butlast es) else es)"
  by pat_completeness auto
termination
  by (relation "measure (\<lambda>(_, es). length es)") auto

declare expire_back.simps [simp del] evict_back.simps [simp del]

text \<open>\<open>sourceTable.get\<close>: afterwards the entry of the key is at the front.\<close>

definition table_get :: "sourceTable \<Rightarrow> addr \<Rightarrow> int \<Rightarrow> sourceTable" where
  "table_get t key now =
     (let es = expire_back now (st_order t) in
      case find (\<lambda>e. se_key e = key) es of
        Some e \<Rightarrow> t\<lparr>st_order := e\<lparr>se_lastSeen := now\<rparr> # filter (\<lambda>e. se_key e \<noteq> key) es\<rparr>
      | None \<Rightarrow>
          t\<lparr>st_order := \<lparr>se_key = key, se_bucket = newTokenBucket (st_rate t), se_lastSeen = now\<rparr>
                       # evict_back PerSourceTableSize es\<rparr>)"

text \<open>The call \<open>get(src, now).allow(now)\<close>, which mutates the bucket in the table.\<close>

definition table_allow :: "sourceTable \<Rightarrow> addr \<Rightarrow> int \<Rightarrow> bool \<times> sourceTable" where
  "table_allow t key now =
     (let t = table_get t key now in
      case st_order t of
        [] \<Rightarrow> (False, t)
      | e # es \<Rightarrow> (let (ok, b) = bucket_allow (se_bucket e) now
                   in (ok, t\<lparr>st_order := e\<lparr>se_bucket := b\<rparr> # es\<rparr>)))"

subsection \<open>The engine\<close>

record Decision =
  dec_Allow :: bool
  dec_Kind :: string

record Drop =
  dr_RuleID :: string
  dr_Kind :: string
  dr_Packets :: uint64
  dr_Bytes :: uint64

record ruleState =
  rs_rp :: RulePolicy
  rs_retired :: bool
  rs_perSource :: "sourceTable option"
  rs_newFlow :: "tokenBucket option"
  rs_packet :: "tokenBucket option"

type_synonym flowKey = "Proto \<times> addr"
type_synonym ticket = nat

record Engine =
  en_rules :: "string \<rightharpoonup> ruleState"
  en_caps :: PerSourceFlowCaps
  en_flows :: "flowKey \<rightharpoonup> int"
  en_drops :: "Drop list"
  en_tickets :: "(flowKey \<times> bool) list"

definition Engine_New :: Engine where
  "Engine_New =
     \<lparr>en_rules = Map.empty, en_caps = \<lparr>cap_UDP = 0, cap_TCP = 0\<rparr>, en_flows = Map.empty, en_drops = [],
      en_tickets = []\<rparr>"

definition buildRuleState :: "RulePolicy \<Rightarrow> ruleState option \<Rightarrow> ruleState" where
  "buildRuleState rp old =
     \<lparr>rs_rp = rp, rs_retired = False,
      rs_perSource =
        (case rp_PerSourceRate rp of None \<Rightarrow> None | Some r \<Rightarrow>
           (case old of
              Some q \<Rightarrow> (if rs_perSource q \<noteq> None \<and> rp_PerSourceRate (rs_rp q) = Some r then rs_perSource q
                          else Some (newSourceTable r))
            | None \<Rightarrow> Some (newSourceTable r))),
      rs_newFlow =
        (case rp_NewFlowRate rp of None \<Rightarrow> None | Some r \<Rightarrow>
           (case old of
              Some q \<Rightarrow> (if rs_newFlow q \<noteq> None \<and> rp_NewFlowRate (rs_rp q) = Some r then rs_newFlow q
                          else Some (newTokenBucket r))
            | None \<Rightarrow> Some (newTokenBucket r))),
      rs_packet =
        (case rp_PacketRate rp of None \<Rightarrow> None | Some r \<Rightarrow>
           (case old of
              Some q \<Rightarrow> (if rs_packet q \<noteq> None \<and> rp_PacketRate (rs_rp q) = Some r then rs_packet q
                          else Some (newTokenBucket r))
            | None \<Rightarrow> Some (newTokenBucket r)))\<rparr>"

text \<open>The first loop of \<open>Update\<close>: the declared rules, over what the old map held of them.\<close>

definition live_state :: "Engine \<Rightarrow> string \<Rightarrow> ruleState option" where
  "live_state e i =
     (case en_rules e i of Some rs \<Rightarrow> (if rs_retired rs then None else Some rs) | None \<Rightarrow> None)"

fun declared_rules :: "Engine \<Rightarrow> RulePolicy list \<Rightarrow> (string \<rightharpoonup> ruleState) \<Rightarrow> string \<rightharpoonup> ruleState" where
  "declared_rules e [] next = next"
| "declared_rules e (rp # rps) next =
     declared_rules e rps (next(rp_RuleID rp \<mapsto> buildRuleState rp (live_state e (rp_RuleID rp))))"

definition Update :: "Engine \<Rightarrow> Policy \<Rightarrow> Engine" where
  "Update e p =
     (let next = declared_rules e (pol_Rules p) Map.empty in
      e\<lparr>en_rules := (\<lambda>i. case next i of
                        Some rs \<Rightarrow> Some rs
                      | None \<Rightarrow> map_option (\<lambda>rs. rs\<lparr>rs_retired := True\<rparr>) (live_state e i)),
        en_caps := pol_PerSourceFlowCaps p\<rparr>)"

definition flow_count :: "Engine \<Rightarrow> flowKey \<Rightarrow> int" where
  "flow_count e k = (case en_flows e k of None \<Rightarrow> 0 | Some n \<Rightarrow> n)"

definition releaseLocked :: "Engine \<Rightarrow> flowKey \<Rightarrow> Engine" where
  "releaseLocked e k =
     (let n = flow_count e k in
      if n \<le> 1 then e\<lparr>en_flows := (en_flows e)(k := None)\<rparr>
      else e\<lparr>en_flows := (en_flows e)(k \<mapsto> n - 1)\<rparr>)"

text \<open>Clearing the flag of a ticket and giving its slot back.\<close>

definition drop_ticket :: "Engine \<Rightarrow> ticket \<Rightarrow> Engine" where
  "drop_ticket e t =
     (let (k, _) = en_tickets e ! t
      in releaseLocked (e\<lparr>en_tickets := (en_tickets e)[t := (k, False)]\<rparr>) k)"

text \<open>\<open>Ticket.Release\<close>; \<open>None\<close> is the nil ticket.\<close>

definition Release :: "Engine \<Rightarrow> ticket option \<Rightarrow> Engine" where
  "Release e ot =
     (case ot of
        None \<Rightarrow> e
      | Some t \<Rightarrow> (if t < length (en_tickets e) \<and> snd (en_tickets e ! t) then drop_ticket e t else e))"

definition recordDropLocked :: "Engine \<Rightarrow> string \<Rightarrow> string \<Rightarrow> int \<Rightarrow> Engine" where
  "recordDropLocked e ruleID kind sz =
     (let same = (\<lambda>d. dr_RuleID d = ruleID \<and> dr_Kind d = kind);
          drops = (if list_ex same (en_drops e) then en_drops e
                   else en_drops e @ [\<lparr>dr_RuleID = ruleID, dr_Kind = kind, dr_Packets = 0, dr_Bytes = 0\<rparr>])
      in e\<lparr>en_drops := map (\<lambda>d. if same d
                              then d\<lparr>dr_Packets := dr_Packets d + 1, dr_Bytes := dr_Bytes d + word_of_int (max sz 0)\<rparr>
                              else d) drops\<rparr>)"

text \<open>
  One step of the order. The rule state and the engine are threaded: the step
  consumes what it passes. The last component is the ticket taken so far.
\<close>

definition passLocked ::
  "Engine \<Rightarrow> ruleState \<Rightarrow> Step \<Rightarrow> addr \<Rightarrow> int \<Rightarrow> ticket option
   \<Rightarrow> bool \<times> Engine \<times> ruleState \<times> ticket option" where
  "passLocked e rs step src now t =
     (case step of
        StepSourceDeny \<Rightarrow> (\<not> matchesAny (rp_SourceDeny (rs_rp rs)) src, e, rs, t)
      | StepSourceAllow \<Rightarrow>
          (rp_SourceAllow (rs_rp rs) = [] \<or> matchesAny (rp_SourceAllow (rs_rp rs)) src, e, rs, t)
      | StepPerSourceRate \<Rightarrow>
          (case rs_perSource rs of
             None \<Rightarrow> (True, e, rs, t)
           | Some tab \<Rightarrow> (let (ok, tab') = table_allow tab src now in (ok, e, rs\<lparr>rs_perSource := Some tab'\<rparr>, t)))
      | StepPerSourceConcurrentFlows \<Rightarrow>
          (let k = (rp_Proto (rs_rp rs), src); limit = ForProto (en_caps e) (rp_Proto (rs_rp rs)) in
           if limit > 0 \<and> flow_count e k \<ge> limit then (False, e, rs, t)
           else (True,
                 e\<lparr>en_flows := (en_flows e)(k \<mapsto> flow_count e k + 1), en_tickets := en_tickets e @ [(k, True)]\<rparr>,
                 rs, Some (length (en_tickets e))))
      | StepAggregateNewFlowRate \<Rightarrow>
          (case rs_newFlow rs of
             None \<Rightarrow> (True, e, rs, t)
           | Some b \<Rightarrow> (let (ok, b') = bucket_allow b now in (ok, e, rs\<lparr>rs_newFlow := Some b'\<rparr>, t)))
      | StepAggregatePacketRate \<Rightarrow>
          (if rp_Proto (rs_rp rs) \<noteq> UDP then (True, e, rs, t)
           else case rs_packet rs of
             None \<Rightarrow> (True, e, rs, t)
           | Some b \<Rightarrow> (let (ok, b') = bucket_allow b now in (ok, e, rs\<lparr>rs_packet := Some b'\<rparr>, t)))
      | StepOther _ \<Rightarrow> (False, e, rs, t))"

text \<open>The loop over the order: the step that refused, if any, and the state it left.\<close>

fun run_steps ::
  "Engine \<Rightarrow> ruleState \<Rightarrow> Step list \<Rightarrow> addr \<Rightarrow> int \<Rightarrow> ticket option
   \<Rightarrow> Step option \<times> Engine \<times> ruleState \<times> ticket option" where
  "run_steps e rs [] src now t = (None, e, rs, t)"
| "run_steps e rs (s # ss) src now t =
     (let (ok, e', rs', t') = passLocked e rs s src now t
      in if ok then run_steps e' rs' ss src now t' else (Some s, e', rs', t'))"

definition put_rule :: "Engine \<Rightarrow> string \<Rightarrow> ruleState \<Rightarrow> Engine" where
  "put_rule e i rs = e\<lparr>en_rules := (en_rules e)(i \<mapsto> rs)\<rparr>"

definition refused :: Decision where
  "refused = \<lparr>dec_Allow = False, dec_Kind = []\<rparr>"

definition AdmitFlow :: "Engine \<Rightarrow> string \<Rightarrow> addr \<Rightarrow> int \<Rightarrow> int \<Rightarrow> Decision \<times> ticket option \<times> Engine" where
  "AdmitFlow e ruleID src0 sz now =
     (let src = unmap src0 in
      case en_rules e ruleID of
        None \<Rightarrow> (refused, None, e)
      | Some rs \<Rightarrow>
          if \<not> is4 src then (refused, None, e)
          else
            (let (stop, e', rs', t) = run_steps e rs Order src now None; e' = put_rule e' ruleID rs' in
             case stop of
               Some step \<Rightarrow>
                 (let e'' = (case t of Some n \<Rightarrow> drop_ticket e' n | None \<Rightarrow> e');
                      kind = DropKind step
                  in (\<lparr>dec_Allow = False, dec_Kind = kind\<rparr>, None,
                      if kind \<noteq> [] then recordDropLocked e'' ruleID kind sz else e''))
             | None \<Rightarrow> (\<lparr>dec_Allow = True, dec_Kind = []\<rparr>, t, e')))"

definition AdmitPacket :: "Engine \<Rightarrow> string \<Rightarrow> int \<Rightarrow> int \<Rightarrow> Decision \<times> Engine" where
  "AdmitPacket e ruleID sz now =
     (case en_rules e ruleID of
        None \<Rightarrow> (refused, e)
      | Some rs \<Rightarrow>
          (let (ok, _, rs', _) = passLocked e rs StepAggregatePacketRate AddrZero now None;
               e' = put_rule e ruleID rs'
           in if ok then (\<lparr>dec_Allow = True, dec_Kind = []\<rparr>, e')
              else (\<lparr>dec_Allow = False, dec_Kind = DropKind StepAggregatePacketRate\<rparr>,
                    recordDropLocked e' ruleID (DropKind StepAggregatePacketRate) sz)))"

definition Engine_SourceAllowed :: "Engine \<Rightarrow> string \<Rightarrow> addr \<Rightarrow> bool" where
  "Engine_SourceAllowed e ruleID src0 =
     (let src = unmap src0 in
      case en_rules e ruleID of
        None \<Rightarrow> False
      | Some rs \<Rightarrow> if \<not> is4 src then False else SourceAllowed (rs_rp rs) src)"

definition Drops :: "Engine \<Rightarrow> Drop list \<times> Engine" where
  "Drops e = (sort_key (\<lambda>d. (dr_RuleID d, dr_Kind d)) (en_drops e), e\<lparr>en_drops := []\<rparr>)"

subsection \<open>Token buckets: bounds and consumption\<close>

definition bucket_inv :: "tokenBucket \<Rightarrow> bool" where
  "bucket_inv b = (0 \<le> tb_tokens b \<and> tb_tokens b \<le> 5 \<and> 0 \<le> tb_refill b)"

lemma unitSeconds_pos: "0 < unitSeconds u"
  by (simp add: unitSeconds_def)

lemma newTokenBucket_inv: "bucket_inv (newTokenBucket r)"
proof -
  have "0 \<le> fl (of_int (uint (Count r)))" by (rule fl_nonneg) (simp only: of_int_0_le_iff uint_ge_0)
  then have "0 \<le> fl (of_int (uint (Count r))) / unitSeconds (Unit r)"
    using unitSeconds_pos by (rule divide_nonneg_pos)
  then have "0 \<le> fl (fl (of_int (uint (Count r))) / unitSeconds (Unit r))" by (rule fl_nonneg)
  then show ?thesis by (simp add: bucket_inv_def newTokenBucket_def TokenBucketBurst_def)
qed

lemma time_sub_bounds: "b \<le> a \<Longrightarrow> 0 \<le> time_sub a b \<and> time_sub a b \<le> a - b \<and> (time_sub a b = 0 \<longrightarrow> a = b)"
  by (auto simp: time_sub_def min_def max_def)

text \<open>The refill of the bucket before it is asked for a token.\<close>

definition refilled :: "tokenBucket \<Rightarrow> int \<Rightarrow> rat" where
  "refilled b elapsed =
     (if elapsed > 0 then min (fl (tb_tokens b + fl (duration_seconds elapsed * tb_refill b))) 5 else tb_tokens b)"

lemma refilled_bounds:
  assumes "bucket_inv b" and "0 \<le> d"
  shows "0 \<le> refilled b d" and "refilled b d \<le> 5"
    and "refilled b d \<le> tb_tokens b + of_int d / 1000000000 * tb_refill b * (1 + eps) ^ 5 + 5 * eps"
proof -
  let ?g = "of_int d / 1000000000 * tb_refill b" and ?p = "fl (duration_seconds d * tb_refill b)"
  have t: "0 \<le> tb_tokens b" "tb_tokens b \<le> 5" and r: "0 \<le> tb_refill b"
    using assms(1) by (auto simp: bucket_inv_def)
  have e: "0 \<le> eps" "0 \<le> (1 + eps) ^ n" for n using eps_bounds by simp_all
  have dn: "0 \<le> duration_seconds d" by (rule duration_seconds_nonneg [OF assms(2)])
  have p0: "0 \<le> ?p" using dn r by (intro fl_nonneg) simp
  have g0: "0 \<le> ?g" using assms(2) r by simp
  have "duration_seconds d * tb_refill b \<le> of_int d / 1000000000 * (1 + eps) ^ 3 * tb_refill b"
    using duration_seconds_le [OF assms(2)] r by (rule mult_right_mono)
  then have "?p \<le> of_int d / 1000000000 * (1 + eps) ^ 3 * tb_refill b * (1 + eps)"
    using dn r by (intro fl_le) simp_all
  also have "\<dots> = ?g * (1 + eps) ^ 4" by (simp add: eval_nat_numeral)
  finally have p: "?p \<le> ?g * (1 + eps) ^ 4" .
  have "fl (tb_tokens b + ?p) \<le> (tb_tokens b + ?g * (1 + eps) ^ 4) * (1 + eps)"
    using t p p0 by (intro fl_le) auto
  also have "\<dots> = tb_tokens b + tb_tokens b * eps + ?g * (1 + eps) ^ 5"
  proof -
    have "(1 + eps) ^ 5 = (1 + eps) ^ 4 * (1 + eps)" by (simp add: eval_nat_numeral)
    then have "?g * (1 + eps) ^ 4 * (1 + eps) = ?g * (1 + eps) ^ 5" by (simp only: mult.assoc)
    then show ?thesis by (simp only: distrib_right [of "tb_tokens b"]) (simp add: distrib_left)
  qed
  also have "\<dots> \<le> tb_tokens b + ?g * (1 + eps) ^ 5 + 5 * eps"
    using mult_right_mono [OF t(2) e(1)] by simp
  finally have f: "fl (tb_tokens b + ?p) \<le> tb_tokens b + ?g * (1 + eps) ^ 5 + 5 * eps" .
  show "0 \<le> refilled b d" using t p0 fl_nonneg [of "tb_tokens b + ?p"] by (simp add: refilled_def)
  show "refilled b d \<le> 5" using t by (simp add: refilled_def)
  show "refilled b d \<le> tb_tokens b + of_int d / 1000000000 * tb_refill b * (1 + eps) ^ 5 + 5 * eps"
    using f g0 e mult_nonneg_nonneg [OF g0 e(2) [of 5]] by (auto simp: refilled_def min_le_iff_disj)
qed

lemma bucket_allow_eq:
  assumes "tb_last b = Some l" and "l \<le> now"
  shows "bucket_allow b now =
    (let t = refilled b (time_sub now l); b' = b\<lparr>tb_tokens := t, tb_last := Some now\<rparr>
     in if t < 1 then (False, b') else (True, b'\<lparr>tb_tokens := fl (t - 1)\<rparr>))"
  using time_sub_bounds [OF assms(2)] assms(1)
  by (auto simp: bucket_allow_def refilled_def Let_def TokenBucketBurst_def)

lemma bucket_allow_law:
  assumes inv: "bucket_inv b" and last: "tb_last b = Some l" "l \<le> now" and eq: "bucket_allow b now = (ok, b')"
  shows "bucket_inv b'" and "tb_last b' = Some now" and "tb_refill b' = tb_refill b"
    and "tb_tokens b' + of_bool ok \<le> tb_tokens b + of_int (now - l) / 1000000000 * tb_refill b * (1 + eps) ^ 5 + 9 * eps"
proof -
  define t where "t = refilled b (time_sub now l)"
  note d = time_sub_bounds [OF last(2)]
  have t: "0 \<le> t" "t \<le> 5" unfolding t_def using refilled_bounds(1,2) [OF inv] d by auto
  have e: "0 \<le> eps" "eps \<le> 1 / 4" by (simp_all add: eps_def)
  have "of_int (time_sub now l) / 1000000000 * tb_refill b * (1 + eps) ^ 5
      \<le> of_int (now - l) / 1000000000 * tb_refill b * (1 + eps) ^ 5"
    using d inv e by (intro mult_right_mono divide_right_mono) (simp_all add: bucket_inv_def)
  then have tb: "t \<le> tb_tokens b + of_int (now - l) / 1000000000 * tb_refill b * (1 + eps) ^ 5 + 5 * eps"
    using refilled_bounds(3) [OF inv, of "time_sub now l"] d unfolding t_def by linarith
  have res: "bucket_allow b now =
     (if t < 1 then (False, b\<lparr>tb_tokens := t, tb_last := Some now\<rparr>)
      else (True, b\<lparr>tb_tokens := fl (t - 1), tb_last := Some now\<rparr>))"
    using bucket_allow_eq [OF last] by (simp add: t_def Let_def)
  have m: "0 \<le> fl (t - 1) \<and> fl (t - 1) \<le> t - 1 + 4 * eps" if "\<not> t < 1"
  proof -
    have "fl (t - 1) \<le> (t - 1) * (1 + eps)" using that by (intro fl_bounds(2)) simp
    moreover have "(t - 1) * eps \<le> 4 * eps" using t e by (intro mult_right_mono) auto
    ultimately show ?thesis using that fl_nonneg [of "t - 1"] by (simp add: distrib_left)
  qed
  show "bucket_inv b'" "tb_last b' = Some now" "tb_refill b' = tb_refill b"
    using eq res inv t m e by (auto simp: bucket_inv_def split: if_splits)
  show "tb_tokens b' + of_bool ok \<le> tb_tokens b + of_int (now - l) / 1000000000 * tb_refill b * (1 + eps) ^ 5 + 9 * eps"
    using eq res tb m e by (auto split: if_splits)
qed

lemma bucket_allow_first: "tb_last b = None \<Longrightarrow> bucket_allow b now = bucket_allow (b\<lparr>tb_last := Some now\<rparr>) now"
  by (simp add: bucket_allow_def Let_def)

lemma bucket_allow_inv:
  assumes "bucket_inv b"
  shows "bucket_inv (snd (bucket_allow b now))"
proof -
  have "bucket_inv (snd (bucket_allow b' now))" if inv: "bucket_inv b'" and l: "tb_last b' = Some l" for b' l
  proof (cases "l \<le> now")
    case True
    then show ?thesis using bucket_allow_law(1) [OF inv l True] by (cases "bucket_allow b' now") simp
  next
    case False
    then have "\<not> time_sub now l > 0" by (auto simp: time_sub_def min_def max_def)
    moreover have "fl (tb_tokens b' - 1) \<le> 5" "0 \<le> fl (tb_tokens b' - 1)" if "\<not> tb_tokens b' < 1"
    proof -
      have "fl (tb_tokens b' - 1) \<le> 4 * (1 + eps)" using inv that by (intro fl_le) (auto simp: bucket_inv_def)
      then show "fl (tb_tokens b' - 1) \<le> 5" by (simp add: eps_def)
    qed (use that fl_nonneg [of "tb_tokens b' - 1"] in simp)
    ultimately show ?thesis using inv l by (auto simp: bucket_allow_def Let_def bucket_inv_def)
  qed
  from this [of b] this [of "b\<lparr>tb_last := Some now\<rparr>" now] show ?thesis
    using assms bucket_allow_first [of b now] by (cases "tb_last b") (auto simp: bucket_inv_def)
qed

text \<open>A running bucket is a rate limiter whose credit is its tokens.\<close>

interpretation go_bucket: limiter "\<lambda>b. bucket_inv b \<and> tb_refill b = r \<and> tb_last b \<noteq> None" "\<lambda>b. the (tb_last b)"
  tb_tokens "\<lambda>_. True" bucket_allow "r * (1 + eps) ^ 5 / 1000000000" "9 * eps" for r
proof
  fix b now ok b'
  assume b: "bucket_inv b \<and> tb_refill b = r \<and> tb_last b \<noteq> None" "the (tb_last b) \<le> now"
    and a: "bucket_allow b now = (ok, b')"
  then obtain l where l: "tb_last b = Some l" by auto
  from bucket_allow_law [OF _ l _ a] b l
  show "(bucket_inv b' \<and> tb_refill b' = r \<and> tb_last b' \<noteq> None) \<and> the (tb_last b') = now \<and>
     tb_tokens b' + of_bool ok
     \<le> tb_tokens b + r * (1 + eps) ^ 5 / 1000000000 * of_int (now - the (tb_last b)) + 9 * eps"
    by (simp add: mult_ac)
qed (simp add: bucket_inv_def)

lemma eps_power5: "(1 + eps) ^ 7 \<le> 1 + 1 / 2 ^ 50" and eps_9: "9 * eps \<le> 1 / 2 ^ 49"
  by (simp_all add: eps_def power_divide)

lemma scale_bound:
  fixes x R K T :: rat
  assumes "x \<le> R * K" and "0 \<le> T"
  shows "x / 1000000000 * T \<le> T / 1000000000 * R * K"
  using mult_right_mono [OF assms] by (simp add: field_simps)

text \<open>A fresh bucket over a sorted sequence of requests.\<close>

lemma new_bucket_admissions:
  assumes "sorted (t # ts)"
  shows "of_nat (admissions bucket_allow (newTokenBucket r) (t # ts))
    \<le> 5 + of_int (last (t # ts) - t) / 1000000000 * (of_nat (unat (Count r)) / unitSeconds (Unit r)) * (1 + 1 / 2 ^ 50)
      + of_nat (length (t # ts)) / 2 ^ 49"
proof -
  define n where "n = unat (Count r)"
  let ?b = "(newTokenBucket r)\<lparr>tb_last := Some t\<rparr>" and ?rate = "of_nat n / unitSeconds (Unit r) :: rat"
  have "admissions bucket_allow (newTokenBucket r) (t # ts) = admissions bucket_allow ?b (t # ts)"
    using bucket_allow_first [of "newTokenBucket r" t] by (simp add: newTokenBucket_def)
  moreover have "of_nat (admissions bucket_allow ?b (t # ts))
      \<le> tb_tokens ?b + tb_refill ?b * (1 + eps) ^ 5 / 1000000000 * of_int (last (the (tb_last ?b) # t # ts) - the (tb_last ?b))
        + of_nat (length (t # ts)) * (9 * eps)"
    using newTokenBucket_inv [of r] assms
    by (intro go_bucket.admissions_bound) (auto simp: bucket_inv_def)
  ultimately have adm: "of_nat (admissions bucket_allow (newTokenBucket r) (t # ts))
      \<le> 5 + tb_refill ?b * (1 + eps) ^ 5 / 1000000000 * of_int (last (t # ts) - t) + of_nat (length (t # ts)) * (9 * eps)"
    by (simp add: newTokenBucket_def TokenBucketBurst_def)
  have u: "0 < unitSeconds (Unit r)" by (rule unitSeconds_pos)
  have f: "0 \<le> fl (of_nat n)" "fl (of_nat n) \<le> of_nat n * (1 + eps)"
    using fl_nonneg [of "of_nat n"] fl_bounds(2) [of "of_nat n"] by simp_all
  have c: "tb_refill ?b = fl (fl (of_nat n) / unitSeconds (Unit r))" by (simp add: newTokenBucket_def n_def)
  have "fl (of_nat n) / unitSeconds (Unit r) \<le> ?rate * (1 + eps)"
    using f u by (simp add: divide_right_mono less_imp_le)
  then have "tb_refill ?b \<le> ?rate * (1 + eps) * (1 + eps)"
    unfolding c using u f(1) by (intro fl_le) (simp_all add: divide_nonneg_pos)
  then have refill: "tb_refill ?b * (1 + eps) ^ 5 \<le> ?rate * (1 + eps) * (1 + eps) * (1 + eps) ^ 5"
    using eps_bounds by (intro mult_right_mono) auto
  have T: "(0 :: rat) \<le> of_int (last (t # ts) - t)"
    using assms by (cases "ts = []") (auto dest: last_in_set)
  have "tb_refill ?b * (1 + eps) ^ 5 \<le> ?rate * (1 + eps) ^ 7"
    using refill by (simp add: eval_nat_numeral mult_ac)
  also have "\<dots> \<le> ?rate * (1 + 1 / 2 ^ 50)"
    using eps_power5 u by (intro mult_left_mono) auto
  finally have "tb_refill ?b * (1 + eps) ^ 5 / 1000000000 * of_int (last (t # ts) - t)
      \<le> of_int (last (t # ts) - t) / 1000000000 * ?rate * (1 + 1 / 2 ^ 50)"
    using T by (rule scale_bound)
  moreover have "of_nat (length (t # ts)) * (9 * eps) \<le> of_nat (length (t # ts)) / 2 ^ 49"
    using mult_left_mono [OF eps_9, of "of_nat (length (t # ts))"]
    by (simp only: times_divide_eq_right mult_1_right of_nat_0_le_iff simp_thms)
  ultimately show ?thesis
    unfolding n_def [symmetric] by (intro order_trans [OF adm] add_mono add_left_mono)
qed

subsection \<open>The table of sources stays bounded\<close>

definition table_inv :: "sourceTable \<Rightarrow> bool" where
  "table_inv t = (distinct (map se_key (st_order t)) \<and> length (st_order t) \<le> PerSourceTableSize
     \<and> (\<forall>e \<in> set (st_order t). bucket_inv (se_bucket e)))"

lemma expire_back_prefix: "\<exists>ys. es = expire_back now es @ ys"
proof (induction now es rule: expire_back.induct)
  case (1 now es)
  show ?case
  proof (cases "es = [] \<or> time_sub now (se_lastSeen (last es)) < PerSourceTableTTL")
    case True
    then show ?thesis by (subst expire_back.simps) auto
  next
    case False
    with 1 obtain ys where "butlast es = expire_back now (butlast es) @ ys" by blast
    then have "es = expire_back now (butlast es) @ ys @ [last es]"
      using False by (metis append_assoc append_butlast_last_id)
    moreover have "expire_back now es = expire_back now (butlast es)"
      using False by (subst expire_back.simps) simp
    ultimately show ?thesis by metis
  qed
qed

lemma evict_back_prefix: "\<exists>ys. es = evict_back n es @ ys"
proof (induction n es rule: evict_back.induct)
  case (1 n es)
  show ?case
  proof (cases "es \<noteq> [] \<and> n \<le> length es")
    case True
    with 1 obtain ys where "butlast es = evict_back n (butlast es) @ ys" by blast
    then have "es = evict_back n (butlast es) @ ys @ [last es]"
      using True by (metis append_assoc append_butlast_last_id)
    moreover have "evict_back n es = evict_back n (butlast es)"
      using True by (subst evict_back.simps) simp
    ultimately show ?thesis by metis
  next
    case False
    then show ?thesis by (subst evict_back.simps) auto
  qed
qed

lemma length_evict_back: "0 < n \<Longrightarrow> length (evict_back n es) < n"
proof (induction n es rule: evict_back.induct)
  case (1 n es)
  then show ?case by (subst evict_back.simps) auto
qed

lemma newSourceTable_inv: "table_inv (newSourceTable r)"
  by (simp add: table_inv_def newSourceTable_def)

lemma table_get_inv:
  assumes "table_inv t"
  shows "table_inv (table_get t key now) \<and> st_order (table_get t key now) \<noteq> []"
proof -
  define es where "es = expire_back now (st_order t)"
  obtain ys where ys: "st_order t = es @ ys" using expire_back_prefix unfolding es_def by blast
  obtain zs where zs: "es = evict_back PerSourceTableSize es @ zs" using evict_back_prefix by blast
  have es: "distinct (map se_key es)" "length es \<le> PerSourceTableSize" "\<forall>e \<in> set es. bucket_inv (se_bucket e)"
    using assms ys by (auto simp: table_inv_def)
  show ?thesis
  proof (cases "find (\<lambda>e. se_key e = key) es")
    case None
    then have "key \<notin> se_key ` set es" by (auto simp: find_None_iff)
    moreover have "length (evict_back PerSourceTableSize es) < PerSourceTableSize"
      by (rule length_evict_back) (simp add: PerSourceTableSize_def)
    moreover have "set (evict_back PerSourceTableSize es) \<subseteq> set es"
      "distinct (map se_key (evict_back PerSourceTableSize es))"
      using es(1) zs by (metis set_append sup_ge1, metis distinct_append map_append)
    ultimately show ?thesis
      using None es(3) by (auto simp: table_get_def es_def [symmetric] table_inv_def newTokenBucket_inv)
  next
    case (Some e)
    then have e: "e \<in> set es" "se_key e = key" by (auto simp: find_Some_iff)
    have "length (filter (\<lambda>e. se_key e \<noteq> key) es) < length es"
      using e by (intro length_filter_less) auto
    with e es Some show ?thesis
      by (auto simp: table_get_def es_def [symmetric] table_inv_def distinct_map_filter)
  qed
qed

lemma table_allow_inv:
  assumes "table_inv t"
  shows "table_inv (snd (table_allow t key now))"
proof -
  obtain e es where g: "st_order (table_get t key now) = e # es"
    using table_get_inv [OF assms] by (metis neq_Nil_conv)
  then have "bucket_inv (snd (bucket_allow (se_bucket e) now))"
    using table_get_inv [OF assms, of key now] by (intro bucket_allow_inv) (simp add: table_inv_def)
  with g table_get_inv [OF assms, of key now] show ?thesis
    by (auto simp: table_allow_def Let_def table_inv_def split: prod.splits)
qed

subsection \<open>The invariant of the engine\<close>

definition held :: "Engine \<Rightarrow> flowKey \<Rightarrow> nat" where
  "held e k = count_list (en_tickets e) (k, True)"

text \<open>The flow counts are the tickets held, and a key without a flow has no entry.\<close>

definition flows_inv :: "Engine \<Rightarrow> bool" where
  "flows_inv e = (\<forall>k. en_flows e k = (if held e k = 0 then None else Some (int (held e k))))"

definition rule_inv :: "ruleState \<Rightarrow> bool" where
  "rule_inv rs = (pred_option table_inv (rs_perSource rs) \<and> pred_option bucket_inv (rs_newFlow rs)
     \<and> pred_option bucket_inv (rs_packet rs)
     \<and> (rs_perSource rs = None \<longleftrightarrow> rp_PerSourceRate (rs_rp rs) = None)
     \<and> (rs_newFlow rs = None \<longleftrightarrow> rp_NewFlowRate (rs_rp rs) = None)
     \<and> (rs_packet rs = None \<longleftrightarrow> rp_PacketRate (rs_rp rs) = None))"

definition drops_inv :: "Engine \<Rightarrow> bool" where
  "drops_inv e = distinct (map (\<lambda>d. (dr_RuleID d, dr_Kind d)) (en_drops e))"

definition engine_inv :: "Engine \<Rightarrow> bool" where
  "engine_inv e = (flows_inv e \<and> drops_inv e \<and> (\<forall>i rs. en_rules e i = Some rs \<longrightarrow> rule_inv rs))"

lemma flow_count_held: "flows_inv e \<Longrightarrow> flow_count e k = int (held e k)"
  by (cases k) (simp add: flows_inv_def flow_count_def)

lemma count_list_update:
  "n < length xs \<Longrightarrow> count_list (xs[n := y]) z + of_bool (xs ! n = z) = count_list xs z + of_bool (y = z)"
proof (induction xs arbitrary: n)
  case (Cons x xs)
  then show ?case by (cases n) auto
qed simp

text \<open>Every method leaves the parts of the engine it does not name as they were.\<close>

lemma releaseLocked_simps [simp]:
  "en_rules (releaseLocked e k) = en_rules e" "en_caps (releaseLocked e k) = en_caps e"
  "en_drops (releaseLocked e k) = en_drops e" "en_tickets (releaseLocked e k) = en_tickets e"
  by (simp_all add: releaseLocked_def Let_def)

lemma drop_ticket_simps [simp]:
  "en_rules (drop_ticket e t) = en_rules e" "en_caps (drop_ticket e t) = en_caps e"
  "en_drops (drop_ticket e t) = en_drops e"
  by (simp_all add: drop_ticket_def split: prod.splits)

lemma recordDropLocked_simps [simp]:
  "en_rules (recordDropLocked e i k n) = en_rules e" "en_caps (recordDropLocked e i k n) = en_caps e"
  "en_flows (recordDropLocked e i k n) = en_flows e" "en_tickets (recordDropLocked e i k n) = en_tickets e"
  by (simp_all add: recordDropLocked_def Let_def)

lemma put_rule_simps [simp]:
  "en_rules (put_rule e i rs) = (en_rules e)(i \<mapsto> rs)" "en_caps (put_rule e i rs) = en_caps e"
  "en_flows (put_rule e i rs) = en_flows e" "en_drops (put_rule e i rs) = en_drops e"
  "en_tickets (put_rule e i rs) = en_tickets e"
  by (simp_all add: put_rule_def)

lemma flows_inv_cong:
  "en_flows e = en_flows f \<Longrightarrow> en_tickets e = en_tickets f \<Longrightarrow> flows_inv e \<longleftrightarrow> flows_inv f"
  by (simp add: flows_inv_def held_def)

lemma drop_ticket_flows:
  assumes "flows_inv e" and "t < length (en_tickets e)" and "en_tickets e ! t = (k, True)"
  shows "flows_inv (drop_ticket e t)" and "held (drop_ticket e t) j = held e j - of_bool (j = k)"
    and "held e k \<noteq> 0"
proof -
  let ?ts = "(en_tickets e)[t := (k, False)]"
  have c: "count_list ?ts (j, True) + of_bool (j = k) = held e j" for j
    using count_list_update [OF assms(2), of "(k, False)" "(j, True)"] assms(3) by (auto simp: held_def)
  have h: "held (drop_ticket e t) j = held e j - of_bool (j = k)" for j
    using c [of j] by (cases "j = k") (simp_all add: held_def drop_ticket_def assms(3))
  show "held (drop_ticket e t) j = held e j - of_bool (j = k)" by (rule h)
  show pos: "held e k \<noteq> 0" using c [of k] by auto
  have "en_flows (drop_ticket e t) j =
      (if j = k then (if held e k \<le> 1 then None else Some (int (held e k) - 1)) else en_flows e j)" for j
    using flow_count_held [OF assms(1), of k] assms(3)
    by (auto simp: drop_ticket_def releaseLocked_def Let_def flow_count_def)
  then show "flows_inv (drop_ticket e t)"
    using assms(1) pos unfolding flows_inv_def h by (auto simp: of_nat_diff simp del: split_paired_All)
qed

lemma buildRuleState_inv: "pred_option rule_inv q \<Longrightarrow> rule_inv (buildRuleState rp q)"
  by (auto simp: rule_inv_def buildRuleState_def newSourceTable_inv newTokenBucket_inv split: option.splits)

lemma declared_rules_inv:
  assumes "\<forall>i rs. en_rules e i = Some rs \<longrightarrow> rule_inv rs" and "\<forall>i rs. next i = Some rs \<longrightarrow> rule_inv rs"
  shows "\<forall>i rs. declared_rules e rps next i = Some rs \<longrightarrow> rule_inv rs"
  using assms(2)
proof (induction rps arbitrary: "next")
  case (Cons rp rps)
  have "pred_option rule_inv (live_state e (rp_RuleID rp))"
    using assms(1) by (auto simp: live_state_def split: option.splits)
  then have "rule_inv (buildRuleState rp (live_state e (rp_RuleID rp)))" by (rule buildRuleState_inv)
  then show ?case unfolding declared_rules.simps by (intro Cons.IH) (use Cons.prems in auto)
qed simp

lemma Update_inv:
  assumes "engine_inv e"
  shows "engine_inv (Update e p)"
proof -
  have r: "\<forall>i rs. en_rules e i = Some rs \<longrightarrow> rule_inv rs" using assms by (simp add: engine_inv_def)
  have "rule_inv rs" if "en_rules (Update e p) i = Some rs" for i rs
    using that r declared_rules_inv [OF r, of Map.empty "pol_Rules p"]
    by (auto simp: Update_def Let_def live_state_def rule_inv_def split: option.splits if_splits)
  moreover have "flows_inv (Update e p) \<longleftrightarrow> flows_inv e" by (rule flows_inv_cong) (simp_all add: Update_def Let_def)
  ultimately show ?thesis using assms by (auto simp: engine_inv_def drops_inv_def Update_def Let_def)
qed

lemma Release_inv:
  assumes "engine_inv e"
  shows "engine_inv (Release e t)"
proof (cases "\<exists>n k. t = Some n \<and> n < length (en_tickets e) \<and> en_tickets e ! n = (k, True)")
  case True
  then obtain n k where n: "t = Some n" "n < length (en_tickets e)" "en_tickets e ! n = (k, True)" by blast
  then have "Release e t = drop_ticket e n" by (simp add: Release_def)
  with drop_ticket_flows(1) [OF _ n(2,3)] assms show ?thesis by (simp add: engine_inv_def drops_inv_def)
next
  case False
  then have "Release e t = e" by (auto simp: Release_def split: option.splits) (metis prod.collapse)
  with assms show ?thesis by simp
qed

lemma recordDropLocked_drops:
  assumes "drops_inv e"
  shows "drops_inv (recordDropLocked e i k n)"
proof -
  let ?key = "\<lambda>d. (dr_RuleID d, dr_Kind d)"
  let ?ds = "if list_ex (\<lambda>d. dr_RuleID d = i \<and> dr_Kind d = k) (en_drops e) then en_drops e
    else en_drops e @ [\<lparr>dr_RuleID = i, dr_Kind = k, dr_Packets = 0, dr_Bytes = 0\<rparr>]"
  have "distinct (map ?key ?ds)" using assms by (auto simp: drops_inv_def list_ex_iff)
  moreover have "map ?key (en_drops (recordDropLocked e i k n)) = map ?key ?ds"
    by (simp add: recordDropLocked_def Let_def o_def if_distrib [of ?key] cong: if_cong)
  ultimately show ?thesis by (simp add: drops_inv_def)
qed

lemma recordDropLocked_inv: "engine_inv e \<Longrightarrow> engine_inv (recordDropLocked e i k n)"
  using recordDropLocked_drops flows_inv_cong [of "recordDropLocked e i k n" e]
  by (simp add: engine_inv_def)

subsection \<open>One step of the order\<close>

text \<open>What a step may change: the tokens of the rule state, and one flow slot with its ticket.\<close>

lemma rule_inv_update:
  "rule_inv rs \<Longrightarrow> rs_perSource rs = Some tab \<Longrightarrow> table_inv tab' \<Longrightarrow> rule_inv (rs\<lparr>rs_perSource := Some tab'\<rparr>)"
  "rule_inv rs \<Longrightarrow> rs_newFlow rs = Some b \<Longrightarrow> bucket_inv b' \<Longrightarrow> rule_inv (rs\<lparr>rs_newFlow := Some b'\<rparr>)"
  "rule_inv rs \<Longrightarrow> rs_packet rs = Some b \<Longrightarrow> bucket_inv b' \<Longrightarrow> rule_inv (rs\<lparr>rs_packet := Some b'\<rparr>)"
  by (auto simp: rule_inv_def)

lemma passLocked_rule:
  assumes "passLocked e rs s src now t = (ok, e', rs', t')"
  shows "rs_rp rs' = rs_rp rs" and "rule_inv rs \<Longrightarrow> rule_inv rs'"
proof -
  show "rs_rp rs' = rs_rp rs"
    using assms by (auto simp: passLocked_def Let_def split: Step.splits option.splits prod.splits if_splits)
  show "rule_inv rs'" if inv: "rule_inv rs"
  proof -
    have t: "table_inv (snd (table_allow tab src now))" if "rs_perSource rs = Some tab" for tab
      using inv that by (intro table_allow_inv) (simp add: rule_inv_def)
    have b: "bucket_inv (snd (bucket_allow b now))" if "rs_newFlow rs = Some b" for b
      using inv that by (intro bucket_allow_inv) (auto simp: rule_inv_def)
    have c: "bucket_inv (snd (bucket_allow b now))" if "rs_packet rs = Some b" for b
      using inv that by (intro bucket_allow_inv) (auto simp: rule_inv_def)
    show ?thesis
      using assms inv t b c
      by (auto simp: passLocked_def Let_def split: Step.splits option.splits prod.splits if_splits
          intro!: rule_inv_update)
  qed
qed

lemma passLocked_engine:
  assumes "passLocked e rs s src now t = (ok, e', rs', t')" and "s \<noteq> StepPerSourceConcurrentFlows"
  shows "e' = e" and "t' = t"
  using assms by (auto simp: passLocked_def Let_def split: Step.splits option.splits prod.splits if_splits)

lemma passLocked_flows:
  assumes "passLocked e rs StepPerSourceConcurrentFlows src now t = (ok, e', rs', t')"
  shows "rs' = rs" and "\<not> ok \<Longrightarrow> e' = e \<and> t' = t \<and> ForProto (en_caps e) (rp_Proto (rs_rp rs)) > 0
      \<and> flow_count e (rp_Proto (rs_rp rs), src) \<ge> ForProto (en_caps e) (rp_Proto (rs_rp rs))"
    and "ok \<Longrightarrow> e' = e\<lparr>en_flows := (en_flows e)((rp_Proto (rs_rp rs), src) \<mapsto>
            flow_count e (rp_Proto (rs_rp rs), src) + 1),
          en_tickets := en_tickets e @ [((rp_Proto (rs_rp rs), src), True)]\<rparr>
        \<and> t' = Some (length (en_tickets e))
        \<and> (ForProto (en_caps e) (rp_Proto (rs_rp rs)) > 0 \<longrightarrow>
            flow_count e (rp_Proto (rs_rp rs), src) < ForProto (en_caps e) (rp_Proto (rs_rp rs)))"
  using assms by (auto simp: passLocked_def Let_def split: if_splits)

subsection \<open>A flow through the order\<close>

definition add_flow :: "Engine \<Rightarrow> flowKey \<Rightarrow> Engine" where
  "add_flow e k = e\<lparr>en_flows := (en_flows e)(k \<mapsto> flow_count e k + 1), en_tickets := en_tickets e @ [(k, True)]\<rparr>"

lemma add_flow_simps [simp]:
  "en_rules (add_flow e k) = en_rules e" "en_caps (add_flow e k) = en_caps e" "en_drops (add_flow e k) = en_drops e"
  "en_tickets (add_flow e k) = en_tickets e @ [(k, True)]"
  by (simp_all add: add_flow_def)

lemma held_add_flow [simp]: "held (add_flow e k) j = held e j + of_bool (j = k)"
  by (auto simp: held_def)

lemma add_flow_inv: "flows_inv e \<Longrightarrow> flows_inv (add_flow e k)"
  unfolding flows_inv_def held_add_flow
  using flow_count_held [of e k]
  by (auto simp: add_flow_def flows_inv_def simp del: split_paired_All)

lemma run_steps_append:
  "run_steps e rs (xs @ ys) src now t =
     (case run_steps e rs xs src now t of
        (None, e', rs', t') \<Rightarrow> run_steps e' rs' ys src now t'
      | (Some s, r) \<Rightarrow> (Some s, r))"
  by (induction xs arbitrary: e rs t) (auto split: prod.splits option.splits)

lemma run_steps_rule:
  assumes "run_steps e rs ss src now t = (stop, e', rs', t')" and "rule_inv rs"
  shows "rs_rp rs' = rs_rp rs \<and> rule_inv rs'"
  using assms
proof (induction ss arbitrary: e rs t)
  case (Cons s ss)
  obtain ok e1 rs1 t1 where p: "passLocked e rs s src now t = (ok, e1, rs1, t1)"
    by (cases "passLocked e rs s src now t") auto
  from passLocked_rule [OF p] Cons.prems p show ?case
    by (cases ok) (auto dest: Cons.IH)
qed simp

lemma run_steps_rest:
  assumes "run_steps e rs ss src now t = (stop, e', rs', t')" and "StepPerSourceConcurrentFlows \<notin> set ss"
  shows "e' = e \<and> t' = t"
  using assms
proof (induction ss arbitrary: e rs t)
  case (Cons s ss)
  obtain ok e1 rs1 t1 where p: "passLocked e rs s src now t = (ok, e1, rs1, t1)"
    by (cases "passLocked e rs s src now t") auto
  from passLocked_engine [OF p] Cons.prems p show ?case
    by (cases ok) (auto dest: Cons.IH)
qed simp

lemma run_Order:
  assumes "run_steps e rs Order src now None = (stop, e', rs', t)" and "rule_inv rs"
  defines "k \<equiv> (rp_Proto (rs_rp rs), src)" and "cap \<equiv> ForProto (en_caps e) (rp_Proto (rs_rp rs))"
  shows "(stop \<noteq> None \<and> t = None \<and> e' = e)
    \<or> (t = Some (length (en_tickets e)) \<and> e' = add_flow e k \<and> (cap > 0 \<longrightarrow> flow_count e k < cap))"
proof -
  define a where "a = [StepSourceDeny, StepSourceAllow, StepPerSourceRate]"
  define b where "b = [StepAggregateNewFlowRate, StepAggregatePacketRate]"
  have ord: "Order = a @ StepPerSourceConcurrentFlows # b" by (simp add: Order_def a_def b_def)
  have rest: "StepPerSourceConcurrentFlows \<notin> set a" "StepPerSourceConcurrentFlows \<notin> set b"
    by (simp_all add: a_def b_def)
  obtain s1 e1 rs1 t1 where r1: "run_steps e rs a src now None = (s1, e1, rs1, t1)"
    by (cases "run_steps e rs a src now None") auto
  have 1: "e1 = e" "t1 = None" "rs_rp rs1 = rs_rp rs"
    using run_steps_rest [OF r1 rest(1)] run_steps_rule [OF r1 assms(2)] by auto
  obtain ok e2 rs2 t2 where p: "passLocked e rs1 StepPerSourceConcurrentFlows src now None = (ok, e2, rs2, t2)"
    by (cases "passLocked e rs1 StepPerSourceConcurrentFlows src now None") auto
  obtain s3 e3 rs3 t3 where r3: "run_steps e2 rs2 b src now t2 = (s3, e3, rs3, t3)"
    by (cases "run_steps e2 rs2 b src now t2") auto
  have 3: "e3 = e2" "t3 = t2" using run_steps_rest [OF r3 rest(2)] by auto
  have "(stop, e', rs', t) = (case s1 of
      None \<Rightarrow> (if ok then (s3, e3, rs3, t3) else (Some StepPerSourceConcurrentFlows, e2, rs2, t2))
    | Some s \<Rightarrow> (Some s, e1, rs1, t1))"
    using assms(1) r1 p r3 1(1,2) unfolding ord run_steps_append by (auto split: option.splits)
  with passLocked_flows(2,3) [OF p] 1 3 show ?thesis
    by (cases s1; cases ok) (auto simp: k_def cap_def add_flow_def)
qed

text \<open>The result of \<open>AdmitFlow\<close> on an admitted flow and on a refused one.\<close>

lemma AdmitFlow_known:
  assumes "engine_inv e" and "en_rules e i = Some rs" and "is4 (unmap src)"
    and "AdmitFlow e i src sz now = (d, t, e')"
  obtains (admitted) rs' k where "d = \<lparr>dec_Allow = True, dec_Kind = []\<rparr>" "k = (rp_Proto (rs_rp rs), unmap src)"
      "t = Some (length (en_tickets e))" "e' = put_rule (add_flow e k) i rs'"
      "rs_rp rs' = rs_rp rs" "rule_inv rs'"
      "ForProto (en_caps e) (rp_Proto (rs_rp rs)) > 0 \<Longrightarrow> flow_count e k < ForProto (en_caps e) (rp_Proto (rs_rp rs))"
      "\<exists>e1 t1. run_steps e rs Order (unmap src) now None = (None, e1, rs', t1)"
  | (refused) rs' step e1 where "d = \<lparr>dec_Allow = False, dec_Kind = DropKind step\<rparr>" "t = None"
      "e' = (if DropKind step \<noteq> [] then recordDropLocked e1 i (DropKind step) sz else e1)"
      "en_rules e1 = (en_rules e)(i \<mapsto> rs')" "en_caps e1 = en_caps e" "en_drops e1 = en_drops e" "flows_inv e1"
      "\<forall>j. held e1 j = held e j" "rs_rp rs' = rs_rp rs" "rule_inv rs'"
      "\<exists>e2 t2. run_steps e rs Order (unmap src) now None = (Some step, e2, rs', t2)"
proof -
  obtain stop e1 rs' t1 where r: "run_steps e rs Order (unmap src) now None = (stop, e1, rs', t1)"
    by (cases "run_steps e rs Order (unmap src) now None") auto
  have ri: "rule_inv rs" and fi: "flows_inv e" using assms(1,2) by (auto simp: engine_inv_def)
  let ?k = "(rp_Proto (rs_rp rs), unmap src)"
  note ro = run_Order [OF r ri] and rr = run_steps_rule [OF r ri]
  show thesis
  proof (cases stop)
    case None
    with ro rr r assms(2,3,4) show thesis
      by (intro admitted [of ?k rs']) (auto simp: AdmitFlow_def Let_def)
  next
    case (Some step)
    let ?e1 = "put_rule e1 i rs'"
    let ?e2 = "case t1 of Some n \<Rightarrow> drop_ticket ?e1 n | None \<Rightarrow> ?e1"
    have res: "d = \<lparr>dec_Allow = False, dec_Kind = DropKind step\<rparr>" "t = None"
      "e' = (if DropKind step \<noteq> [] then recordDropLocked ?e2 i (DropKind step) sz else ?e2)"
      using Some r assms(2,3,4) by (auto simp: AdmitFlow_def Let_def)
    have "flows_inv ?e2 \<and> (\<forall>j. held ?e2 j = held e j)"
      using ro
    proof
      assume "stop \<noteq> None \<and> t1 = None \<and> e1 = e"
      then show ?thesis using fi flows_inv_cong [of ?e1 e] by (auto simp: held_def)
    next
      assume a: "t1 = Some (length (en_tickets e)) \<and> e1 = add_flow e ?k \<and>
        (0 < ForProto (en_caps e) (rp_Proto (rs_rp rs)) \<longrightarrow> flow_count e ?k < ForProto (en_caps e) (rp_Proto (rs_rp rs)))"
      have f: "flows_inv ?e1" using a add_flow_inv [OF fi] flows_inv_cong [of ?e1 e1] by auto
      have n: "length (en_tickets e) < length (en_tickets ?e1)" "en_tickets ?e1 ! length (en_tickets e) = (?k, True)"
        using a by (simp_all add: nth_append)
      have "held ?e1 j = held e j + of_bool (j = ?k)" for j
        using a held_add_flow [of e ?k j] by (simp add: held_def)
      with drop_ticket_flows(1,2) [OF f n] a show ?thesis by simp
    qed
    with ro rr r res show thesis
      by (intro refused [of step ?e2 rs']) (auto simp: Some split: option.splits)
  qed
qed

lemma AdmitFlow_unknown:
  assumes "en_rules e i = None \<or> \<not> is4 (unmap src)"
  shows "AdmitFlow e i src sz now = (GoEngine.refused, None, e)"
  using assms by (auto simp: AdmitFlow_def Let_def split: option.splits)

text \<open>The source lists come first, so what they refuse has consumed nothing.\<close>

lemma AdmitFlow_static:
  assumes "en_rules e i = Some rs" and "is4 (unmap src)" and "\<not> SourceAllowed (rs_rp rs) (unmap src)"
  defines "kind \<equiv> (if matchesAny (rp_SourceDeny (rs_rp rs)) (unmap src) then ''deny'' else ''allow'')"
  shows "AdmitFlow e i src sz now = (\<lparr>dec_Allow = False, dec_Kind = kind\<rparr>, None, recordDropLocked e i kind sz)"
proof -
  let ?step = "if matchesAny (rp_SourceDeny (rs_rp rs)) (unmap src) then StepSourceDeny else StepSourceAllow"
  have "run_steps e rs Order (unmap src) now None = (Some ?step, e, rs, None)"
    using assms(3) by (auto simp: Order_def passLocked_def SourceAllowed_def split: if_splits)
  moreover have "put_rule e i rs = e" using assms(1) by (simp add: put_rule_def fun_upd_idem)
  moreover have "DropKind ?step = kind" "kind \<noteq> []" by (simp_all add: DropKind_def kind_def)
  ultimately show ?thesis using assms(1,2) by (simp add: AdmitFlow_def Let_def)
qed

lemma AdmitFlow_inv:
  assumes "engine_inv e" and "AdmitFlow e i src sz now = (d, t, e')"
  shows "engine_inv e'"
proof (cases "en_rules e i = None \<or> \<not> is4 (unmap src)")
  case True
  with assms show ?thesis by (simp add: AdmitFlow_unknown)
next
  case False
  then obtain rs where rs: "en_rules e i = Some rs" and v4: "is4 (unmap src)" by auto
  have inv: "flows_inv e" "drops_inv e" "\<forall>i rs. en_rules e i = Some rs \<longrightarrow> rule_inv rs"
    using assms(1) by (auto simp: engine_inv_def)
  show ?thesis
  proof (rule AdmitFlow_known [OF assms(1) rs v4 assms(2)])
    fix rs' k assume "e' = put_rule (add_flow e k) i rs'" "rule_inv rs'"
    with inv add_flow_inv [OF inv(1), of k] flows_inv_cong [of e' "add_flow e k"] show "engine_inv e'"
      by (auto simp: engine_inv_def drops_inv_def)
  next
    fix rs' step e1
    assume e': "e' = (if DropKind step \<noteq> [] then recordDropLocked e1 i (DropKind step) sz else e1)"
      and "en_rules e1 = (en_rules e)(i \<mapsto> rs')" "en_drops e1 = en_drops e" "flows_inv e1" "rule_inv rs'"
    with inv have "engine_inv e1" by (auto simp: engine_inv_def drops_inv_def)
    with e' show "engine_inv e'" by (simp add: recordDropLocked_inv)
  qed
qed

lemma AdmitPacket_inv:
  assumes "engine_inv e" and "AdmitPacket e i sz now = (d, e')"
  shows "engine_inv e'"
proof (cases "en_rules e i")
  case (Some rs)
  obtain ok e1 rs' t where p: "passLocked e rs StepAggregatePacketRate AddrZero now None = (ok, e1, rs', t)"
    by (cases "passLocked e rs StepAggregatePacketRate AddrZero now None") auto
  have "rule_inv rs'" using passLocked_rule(2) [OF p] assms(1) Some by (auto simp: engine_inv_def)
  then have "engine_inv (put_rule e i rs')"
    using assms(1) flows_inv_cong [of "put_rule e i rs'" e] by (auto simp: engine_inv_def drops_inv_def)
  with assms(2) Some p show ?thesis
    by (auto simp: AdmitPacket_def Let_def recordDropLocked_inv split: if_splits)
qed (use assms in \<open>auto simp: AdmitPacket_def\<close>)

subsection \<open>The engine as a transition system\<close>

inductive engine_step :: "Engine \<Rightarrow> Engine \<Rightarrow> bool" where
  "engine_step e (Update e p)"
| "AdmitFlow e i src sz now = (d, t, e') \<Longrightarrow> engine_step e e'"
| "AdmitPacket e i sz now = (d, e') \<Longrightarrow> engine_step e e'"
| "engine_step e (Release e t)"
| "Drops e = (ds, e') \<Longrightarrow> engine_step e e'"

lemma engine_init_inv: "engine_inv Engine_New"
  by (auto simp: engine_inv_def Engine_New_def flows_inv_def held_def drops_inv_def)

lemma engine_step_inv: "engine_inv e \<Longrightarrow> engine_step e e' \<Longrightarrow> engine_inv e'"
proof (erule engine_step.cases)
  fix f ds f' assume inv: "engine_inv e" and f: "e = f" "e' = f'" "Drops f = (ds, f')"
  then have "f' = f\<lparr>en_drops := []\<rparr>" by (auto simp: Drops_def)
  with inv f flows_inv_cong [of f' f] show "engine_inv e'" by (auto simp: engine_inv_def drops_inv_def)
qed (auto intro: Update_inv AdmitFlow_inv AdmitPacket_inv Release_inv)

interpretation engine: safe_system "\<lambda>e. e = Engine_New" engine_step engine_inv
  by unfold_locales (auto simp: engine_init_inv intro: engine_step_inv)

end
