(* ===== verification/Nftables.thy ===== *)
theory Nftables
  imports Policy
begin

section \<open>The nftables compiler (internal/policy/nftables)\<close>

text \<open>
  From the admission policy to the sets and rows of the chain \<open>filter_pre\<close>. The
  output is plain data; a row always ends in \<open>counter drop\<close>. Durations are
  nanoseconds. The compiler's \<open>declared\<close> map is used as a set of names.
\<close>

subsection \<open>Programs\<close>

record Port =
  pt_RuleID :: string
  pt_Proto :: Proto
  pt_Ports :: PortRange
  pt_Forwarding :: Forwarding

datatype SetKind = SetInterval | SetMeter | SetFlowCount | SetKindOther int

record NSet =
  set_Name :: string
  set_Kind :: SetKind
  set_Elements :: "prefix list"
  set_Timeout :: int
  set_Size :: int

record Match =
  ma_Proto :: Proto
  ma_Ports :: PortRange
  ma_CtStateNew :: bool
  ma_IPv4 :: bool

datatype StmtKind =
    StmtSourceInSet | StmtSourceNotInSet | StmtPerSourceLimit | StmtPerSourceCtCount | StmtLimit
  | StmtKindOther int

record Stmt =
  stmt_Kind :: StmtKind
  stmt_Set :: string
  stmt_Rate :: Rate
  stmt_Burst :: uint32
  stmt_Count :: uint32

definition UsesSource :: "Stmt \<Rightarrow> bool" where
  "UsesSource s = (stmt_Kind s \<noteq> StmtLimit)"

record Row =
  row_RuleID :: string
  row_Step :: Step
  row_Kind :: string
  row_Comment :: string
  row_Match :: Match
  row_Stmt :: Stmt

record Program =
  prog_Sets :: "NSet list"
  prog_Rows :: "Row list"

definition Program_Set :: "Program \<Rightarrow> string \<Rightarrow> NSet option" where
  "Program_Set p name = find (\<lambda>s. set_Name s = name) (prog_Sets p)"

definition Comment :: "string \<Rightarrow> string \<Rightarrow> string" where
  "Comment ruleID kind = ''wgft:'' @ ruleID @ '':'' @ kind"

subsection \<open>Compiling\<close>

datatype compile_error =
    NoPolicy string | ProtoDiffers string Proto Proto | UnknownForwarding string Forwarding | NoRow string Step

record compiler =
  c_caps :: PerSourceFlowCaps
  c_prog :: Program
  c_declared :: "string list"

definition zeroRate :: Rate where "zeroRate = \<lparr>Count = 0, Unit = []\<rparr>"

definition zeroStmt :: "StmtKind \<Rightarrow> Stmt" where
  "zeroStmt k = \<lparr>stmt_Kind = k, stmt_Set = [], stmt_Rate = zeroRate, stmt_Burst = 0, stmt_Count = 0\<rparr>"

definition zeroSet :: "string \<Rightarrow> SetKind \<Rightarrow> NSet" where
  "zeroSet name k = \<lparr>set_Name = name, set_Kind = k, set_Elements = [], set_Timeout = 0, set_Size = 0\<rparr>"

definition compiler_declare :: "compiler \<Rightarrow> NSet \<Rightarrow> compiler" where
  "compiler_declare c s =
     (if set_Name s \<in> set (c_declared c) then c
      else c\<lparr>c_declared := set_Name s # c_declared c,
             c_prog := (c_prog c)\<lparr>prog_Sets := prog_Sets (c_prog c) @ [s]\<rparr>\<rparr>)"

definition mk_row :: "Port \<Rightarrow> Step \<Rightarrow> bool \<Rightarrow> Stmt \<Rightarrow> Row" where
  "mk_row pt step ctNew st =
     (let kind = DropKind step in
      \<lparr>row_RuleID = pt_RuleID pt, row_Step = step, row_Kind = kind, row_Comment = Comment (pt_RuleID pt) kind,
       row_Match = \<lparr>ma_Proto = pt_Proto pt, ma_Ports = pt_Ports pt, ma_CtStateNew = ctNew, ma_IPv4 = True\<rparr>,
       row_Stmt = st\<rparr>)"

definition compiler_row :: "compiler \<Rightarrow> Port \<Rightarrow> Step \<Rightarrow> bool \<Rightarrow> Stmt \<Rightarrow> compiler" where
  "compiler_row c pt step ctNew st =
     c\<lparr>c_prog := (c_prog c)\<lparr>prog_Rows := prog_Rows (c_prog c) @ [mk_row pt step ctNew st]\<rparr>\<rparr>"

definition FlowSetName :: "Proto \<Rightarrow> string" where
  "FlowSetName p = (if p = TCP then ''flows_tcp'' else ''flows_udp'')"

definition compiler_step ::
  "compiler \<Rightarrow> Step \<Rightarrow> Port \<Rightarrow> RulePolicy \<Rightarrow> nat \<Rightarrow> (compile_error, compiler) res" where
  "compiler_step c step pt rp n =
     (let burst = word_of_nat TokenBucketBurst in
      case step of
        StepSourceDeny \<Rightarrow>
          (if rp_SourceDeny rp = [] then Inr c
           else let name = ''deny_'' @ itoa n;
                    c = compiler_declare c ((zeroSet name SetInterval)\<lparr>set_Elements := rp_SourceDeny rp\<rparr>)
                in Inr (compiler_row c pt step False ((zeroStmt StmtSourceInSet)\<lparr>stmt_Set := name\<rparr>)))
      | StepSourceAllow \<Rightarrow>
          (if rp_SourceAllow rp = [] then Inr c
           else let name = ''allow_'' @ itoa n;
                    c = compiler_declare c ((zeroSet name SetInterval)\<lparr>set_Elements := rp_SourceAllow rp\<rparr>)
                in Inr (compiler_row c pt step False ((zeroStmt StmtSourceNotInSet)\<lparr>stmt_Set := name\<rparr>)))
      | StepPerSourceRate \<Rightarrow>
          (case rp_PerSourceRate rp of
             None \<Rightarrow> Inr c
           | Some r \<Rightarrow>
               let name = ''meter_'' @ itoa n;
                   c = compiler_declare c ((zeroSet name SetMeter)
                         \<lparr>set_Timeout := PerSourceTableTTL, set_Size := int PerSourceTableSize\<rparr>)
               in Inr (compiler_row c pt step True
                    ((zeroStmt StmtPerSourceLimit)\<lparr>stmt_Set := name, stmt_Rate := r, stmt_Burst := burst\<rparr>)))
      | StepPerSourceConcurrentFlows \<Rightarrow>
          (let limit = ForProto (c_caps c) (pt_Proto pt) in
           if limit \<le> 0 then Inr c
           else let name = FlowSetName (pt_Proto pt);
                    c = compiler_declare c ((zeroSet name SetFlowCount)\<lparr>set_Size := int FlowSetSize\<rparr>)
                in Inr (compiler_row c pt step True
                     ((zeroStmt StmtPerSourceCtCount)\<lparr>stmt_Set := name, stmt_Count := word_of_int limit\<rparr>)))
      | StepAggregateNewFlowRate \<Rightarrow>
          (case rp_NewFlowRate rp of
             None \<Rightarrow> Inr c
           | Some r \<Rightarrow> Inr (compiler_row c pt step True ((zeroStmt StmtLimit)\<lparr>stmt_Rate := r, stmt_Burst := burst\<rparr>)))
      | StepAggregatePacketRate \<Rightarrow>
          (case rp_PacketRate rp of
             None \<Rightarrow> Inr c
           | Some r \<Rightarrow>
               if pt_Proto pt \<noteq> UDP then Inr c
               else Inr (compiler_row c pt step False ((zeroStmt StmtLimit)\<lparr>stmt_Rate := r, stmt_Burst := burst\<rparr>)))
      | StepOther _ \<Rightarrow> Inl (NoRow (pt_RuleID pt) step))"

fun compile_steps ::
  "compiler \<Rightarrow> Step list \<Rightarrow> Port \<Rightarrow> RulePolicy \<Rightarrow> nat \<Rightarrow> (compile_error, compiler) res" where
  "compile_steps c [] pt rp n = Inr c"
| "compile_steps c (s # ss) pt rp n =
     (case compiler_step c s pt rp n of Inl e \<Rightarrow> Inl e | Inr c' \<Rightarrow> compile_steps c' ss pt rp n)"

definition policyByID :: "RulePolicy list \<Rightarrow> string \<Rightarrow> RulePolicy option" where
  "policyByID rps = map_of (rev (map (\<lambda>rp. (rp_RuleID rp, rp)) rps))"

text \<open>The loop over the ports; \<open>n\<close> is the number of ports seen.\<close>

fun compile_ports ::
  "(string \<Rightarrow> RulePolicy option) \<Rightarrow> compiler \<Rightarrow> nat \<Rightarrow> Port list \<Rightarrow> (compile_error, compiler) res" where
  "compile_ports pols c n [] = Inr c"
| "compile_ports pols c n (pt # pts) =
     (case pols (pt_RuleID pt) of
        None \<Rightarrow> Inl (NoPolicy (pt_RuleID pt))
      | Some rp \<Rightarrow>
          if rp_Proto rp \<noteq> pt_Proto pt then Inl (ProtoDiffers (pt_RuleID pt) (pt_Proto pt) (rp_Proto rp))
          else if pt_Forwarding pt \<notin> {Transparent, Relay}
          then Inl (UnknownForwarding (pt_RuleID pt) (pt_Forwarding pt))
          else (case compile_steps c Order pt rp (n + 1) of
                  Inl e \<Rightarrow> Inl e
                | Inr c' \<Rightarrow> compile_ports pols c' (n + 1) pts))"

definition Compile :: "Policy \<Rightarrow> Port list \<Rightarrow> (compile_error, Program) res" where
  "Compile pol ports =
     (case compile_ports (policyByID (pol_Rules pol))
             \<lparr>c_caps = pol_PerSourceFlowCaps pol, c_prog = \<lparr>prog_Sets = [], prog_Rows = []\<rparr>, c_declared = []\<rparr>
             0 ports of
        Inl e \<Rightarrow> Inl e
      | Inr c \<Rightarrow> Inr (c_prog c))"

subsection \<open>What the compiler emits\<close>

text \<open>The rows and the sets of one port at one step, and in the order of the steps.\<close>

fun step_rows :: "PerSourceFlowCaps \<Rightarrow> Port \<Rightarrow> RulePolicy \<Rightarrow> nat \<Rightarrow> Step \<Rightarrow> Row list" where
  "step_rows caps pt rp n StepSourceDeny =
     (if rp_SourceDeny rp = [] then []
      else [mk_row pt StepSourceDeny False ((zeroStmt StmtSourceInSet)\<lparr>stmt_Set := ''deny_'' @ itoa n\<rparr>)])"
| "step_rows caps pt rp n StepSourceAllow =
     (if rp_SourceAllow rp = [] then []
      else [mk_row pt StepSourceAllow False ((zeroStmt StmtSourceNotInSet)\<lparr>stmt_Set := ''allow_'' @ itoa n\<rparr>)])"
| "step_rows caps pt rp n StepPerSourceRate =
     (case rp_PerSourceRate rp of None \<Rightarrow> [] | Some r \<Rightarrow>
        [mk_row pt StepPerSourceRate True
           ((zeroStmt StmtPerSourceLimit)\<lparr>stmt_Set := ''meter_'' @ itoa n, stmt_Rate := r, stmt_Burst := 5\<rparr>)])"
| "step_rows caps pt rp n StepPerSourceConcurrentFlows =
     (if ForProto caps (pt_Proto pt) \<le> 0 then []
      else [mk_row pt StepPerSourceConcurrentFlows True
             ((zeroStmt StmtPerSourceCtCount)\<lparr>stmt_Set := FlowSetName (pt_Proto pt),
                stmt_Count := word_of_int (ForProto caps (pt_Proto pt))\<rparr>)])"
| "step_rows caps pt rp n StepAggregateNewFlowRate =
     (case rp_NewFlowRate rp of None \<Rightarrow> [] | Some r \<Rightarrow>
        [mk_row pt StepAggregateNewFlowRate True ((zeroStmt StmtLimit)\<lparr>stmt_Rate := r, stmt_Burst := 5\<rparr>)])"
| "step_rows caps pt rp n StepAggregatePacketRate =
     (case rp_PacketRate rp of None \<Rightarrow> [] | Some r \<Rightarrow>
        if pt_Proto pt \<noteq> UDP then []
        else [mk_row pt StepAggregatePacketRate False ((zeroStmt StmtLimit)\<lparr>stmt_Rate := r, stmt_Burst := 5\<rparr>)])"
| "step_rows caps pt rp n (StepOther i) = []"

fun step_sets :: "PerSourceFlowCaps \<Rightarrow> Port \<Rightarrow> RulePolicy \<Rightarrow> nat \<Rightarrow> Step \<Rightarrow> NSet list" where
  "step_sets caps pt rp n StepSourceDeny =
     (if rp_SourceDeny rp = [] then []
      else [(zeroSet (''deny_'' @ itoa n) SetInterval)\<lparr>set_Elements := rp_SourceDeny rp\<rparr>])"
| "step_sets caps pt rp n StepSourceAllow =
     (if rp_SourceAllow rp = [] then []
      else [(zeroSet (''allow_'' @ itoa n) SetInterval)\<lparr>set_Elements := rp_SourceAllow rp\<rparr>])"
| "step_sets caps pt rp n StepPerSourceRate =
     (case rp_PerSourceRate rp of None \<Rightarrow> [] | Some r \<Rightarrow>
        [(zeroSet (''meter_'' @ itoa n) SetMeter)
           \<lparr>set_Timeout := PerSourceTableTTL, set_Size := int PerSourceTableSize\<rparr>])"
| "step_sets caps pt rp n StepPerSourceConcurrentFlows =
     (if ForProto caps (pt_Proto pt) \<le> 0 then []
      else [(zeroSet (FlowSetName (pt_Proto pt)) SetFlowCount)\<lparr>set_Size := int FlowSetSize\<rparr>])"
| "step_sets caps pt rp n s = []"

definition port_rows :: "PerSourceFlowCaps \<Rightarrow> Port \<Rightarrow> RulePolicy \<Rightarrow> nat \<Rightarrow> Row list" where
  "port_rows caps pt rp n = concat (map (step_rows caps pt rp n) Order)"

definition port_sets :: "PerSourceFlowCaps \<Rightarrow> Port \<Rightarrow> RulePolicy \<Rightarrow> nat \<Rightarrow> NSet list" where
  "port_sets caps pt rp n = concat (map (step_sets caps pt rp n) Order)"

text \<open>The rule policy a port is compiled under, as the compiler requires it.\<close>

definition port_ok :: "(string \<Rightarrow> RulePolicy option) \<Rightarrow> Port \<Rightarrow> bool" where
  "port_ok pols pt =
     (pt_Forwarding pt \<in> {Transparent, Relay}
      \<and> (case pols (pt_RuleID pt) of None \<Rightarrow> False | Some rp \<Rightarrow> rp_Proto rp = pt_Proto pt))"

lemma compiler_declare_simps [simp]:
  "c_caps (compiler_declare c s) = c_caps c" "prog_Rows (c_prog (compiler_declare c s)) = prog_Rows (c_prog c)"
  by (simp_all add: compiler_declare_def)

lemma compiler_row_simps [simp]:
  "c_caps (compiler_row c pt st b s) = c_caps c" "prog_Sets (c_prog (compiler_row c pt st b s)) = prog_Sets (c_prog c)"
  "c_declared (compiler_row c pt st b s) = c_declared c"
  "prog_Rows (c_prog (compiler_row c pt st b s)) = prog_Rows (c_prog c) @ [mk_row pt st b s]"
  by (simp_all add: compiler_row_def)

text \<open>The declared sets without the compiler around them.\<close>

definition add_set :: "NSet list \<Rightarrow> NSet \<Rightarrow> NSet list" where
  "add_set ss s = (if set_Name s \<in> set_Name ` set ss then ss else ss @ [s])"

definition declared_ok :: "compiler \<Rightarrow> bool" where
  "declared_ok c = (set (c_declared c) = set_Name ` set (prog_Sets (c_prog c)))"

lemma compiler_declare_sets:
  assumes "declared_ok c"
  shows "prog_Sets (c_prog (compiler_declare c s)) = add_set (prog_Sets (c_prog c)) s"
    and "declared_ok (compiler_declare c s)"
  using assms by (auto simp: compiler_declare_def add_set_def declared_ok_def)

lemma compiler_row_ok [simp]: "declared_ok (compiler_row c pt st b s) = declared_ok c"
  by (simp add: declared_ok_def)

lemma compiler_step_emits:
  assumes "declared_ok c" and "s \<in> set Order"
  obtains c' where "compiler_step c s pt rp n = Inr c'" "c_caps c' = c_caps c" "declared_ok c'"
    "prog_Rows (c_prog c') = prog_Rows (c_prog c) @ step_rows (c_caps c) pt rp n s"
    "prog_Sets (c_prog c') = foldl add_set (prog_Sets (c_prog c)) (step_sets (c_caps c) pt rp n s)"
proof -
  have 5: "word_of_nat TokenBucketBurst = (5 :: uint32)" by (simp add: TokenBucketBurst_def)
  have "s \<noteq> StepOther i" for i using assms(2) by (auto simp: Order_def)
  then have "\<exists>c'. compiler_step c s pt rp n = Inr c' \<and> c_caps c' = c_caps c \<and> declared_ok c' \<and>
      prog_Rows (c_prog c') = prog_Rows (c_prog c) @ step_rows (c_caps c) pt rp n s \<and>
      prog_Sets (c_prog c') = foldl add_set (prog_Sets (c_prog c)) (step_sets (c_caps c) pt rp n s)"
    using assms(1) by (cases s) (auto simp: compiler_step_def Let_def compiler_declare_sets 5 split: option.splits)
  then show thesis using that by blast
qed

lemma compile_steps_emits:
  assumes "declared_ok c" and "set ss \<subseteq> set Order"
  shows "\<exists>c'. compile_steps c ss pt rp n = Inr c' \<and> c_caps c' = c_caps c \<and> declared_ok c' \<and>
    prog_Rows (c_prog c') = prog_Rows (c_prog c) @ concat (map (step_rows (c_caps c) pt rp n) ss) \<and>
    prog_Sets (c_prog c') = foldl add_set (prog_Sets (c_prog c)) (concat (map (step_sets (c_caps c) pt rp n) ss))"
  using assms
proof (induction ss arbitrary: c)
  case (Cons s ss)
  have "s \<in> set Order" using Cons.prems by simp
  then obtain c1 where c1: "compiler_step c s pt rp n = Inr c1" "c_caps c1 = c_caps c" "declared_ok c1"
    "prog_Rows (c_prog c1) = prog_Rows (c_prog c) @ step_rows (c_caps c) pt rp n s"
    "prog_Sets (c_prog c1) = foldl add_set (prog_Sets (c_prog c)) (step_sets (c_caps c) pt rp n s)"
    using compiler_step_emits [OF Cons.prems(1)] by metis
  with Cons.IH [OF c1(3)] Cons.prems(2) show ?case by auto
qed simp

text \<open>The ports with their policies and running numbers, as the loop meets them.\<close>

fun numbered :: "(string \<Rightarrow> RulePolicy option) \<Rightarrow> nat \<Rightarrow> Port list \<Rightarrow> (Port \<times> RulePolicy \<times> nat) list" where
  "numbered pols n [] = []"
| "numbered pols n (pt # pts) = (pt, the (pols (pt_RuleID pt)), n + 1) # numbered pols (n + 1) pts"

lemma compile_ports_Inr:
  assumes "declared_ok c"
  shows "(\<exists>c'. compile_ports pols c n pts = Inr c') \<longleftrightarrow> list_all (port_ok pols) pts"
    and "compile_ports pols c n pts = Inr c' \<Longrightarrow>
      prog_Rows (c_prog c') =
        prog_Rows (c_prog c) @ concat (map (\<lambda>(pt, rp, i). port_rows (c_caps c) pt rp i) (numbered pols n pts))
      \<and> prog_Sets (c_prog c') =
        foldl add_set (prog_Sets (c_prog c)) (concat (map (\<lambda>(pt, rp, i). port_sets (c_caps c) pt rp i) (numbered pols n pts)))"
proof -
  have "((\<exists>c'. compile_ports pols c n pts = Inr c') \<longleftrightarrow> list_all (port_ok pols) pts) \<and>
    (\<forall>c'. compile_ports pols c n pts = Inr c' \<longrightarrow>
      prog_Rows (c_prog c') =
        prog_Rows (c_prog c) @ concat (map (\<lambda>(pt, rp, i). port_rows (c_caps c) pt rp i) (numbered pols n pts))
      \<and> prog_Sets (c_prog c') =
        foldl add_set (prog_Sets (c_prog c)) (concat (map (\<lambda>(pt, rp, i). port_sets (c_caps c) pt rp i) (numbered pols n pts))))"
    using assms
  proof (induction pts arbitrary: c n)
    case (Cons pt pts)
    show ?case
    proof (cases "pols (pt_RuleID pt)")
      case None
      then show ?thesis by (simp add: port_ok_def)
    next
      case (Some rp)
      obtain c1 where c1: "compile_steps c Order pt rp (n + 1) = Inr c1" "c_caps c1 = c_caps c" "declared_ok c1"
        "prog_Rows (c_prog c1) = prog_Rows (c_prog c) @ port_rows (c_caps c) pt rp (n + 1)"
        "prog_Sets (c_prog c1) = foldl add_set (prog_Sets (c_prog c)) (port_sets (c_caps c) pt rp (n + 1))"
        using compile_steps_emits [OF Cons.prems order_refl, of pt rp "n + 1"] by (auto simp: port_rows_def port_sets_def)
      with Cons.IH [OF c1(3), of "n + 1"] Some show ?thesis by (simp add: port_ok_def)
    qed
  qed simp
  then show "(\<exists>c'. compile_ports pols c n pts = Inr c') \<longleftrightarrow> list_all (port_ok pols) pts"
    and "compile_ports pols c n pts = Inr c' \<Longrightarrow>
      prog_Rows (c_prog c') =
        prog_Rows (c_prog c) @ concat (map (\<lambda>(pt, rp, i). port_rows (c_caps c) pt rp i) (numbered pols n pts))
      \<and> prog_Sets (c_prog c') =
        foldl add_set (prog_Sets (c_prog c)) (concat (map (\<lambda>(pt, rp, i). port_sets (c_caps c) pt rp i) (numbered pols n pts)))"
    by blast+
qed

subsection \<open>Declared sets\<close>

lemma foldl_add_set_all:
  "distinct (map set_Name ss) \<Longrightarrow> distinct (map set_Name (foldl add_set ss xs))
    \<and> set (foldl add_set ss xs) \<subseteq> set ss \<union> set xs
    \<and> set_Name ` set (foldl add_set ss xs) = set_Name ` (set ss \<union> set xs)"
proof (induction xs arbitrary: ss)
  case (Cons x xs)
  have "distinct (map set_Name (add_set ss x))" using Cons.prems by (auto simp: add_set_def)
  moreover have "set (add_set ss x) \<subseteq> insert x (set ss)" "set_Name ` set (add_set ss x) = set_Name ` insert x (set ss)"
    by (auto simp: add_set_def)
  ultimately show ?case using Cons.IH [of "add_set ss x"] by (auto simp: image_Un)
qed simp

lemmas foldl_add_set = foldl_add_set_all [THEN conjunct1] foldl_add_set_all [THEN conjunct2, THEN conjunct1]
  foldl_add_set_all [THEN conjunct2, THEN conjunct2]

lemma foldl_add_set_consistent:
  assumes "\<And>x y. x \<in> set xs \<Longrightarrow> y \<in> set xs \<Longrightarrow> set_Name x = set_Name y \<Longrightarrow> x = y"
  shows "set (foldl add_set [] xs) = set xs"
proof
  show "set (foldl add_set [] xs) \<subseteq> set xs" using foldl_add_set(2) [of "[]" xs] by simp
  show "set xs \<subseteq> set (foldl add_set [] xs)"
  proof
    fix x assume x: "x \<in> set xs"
    then have "set_Name x \<in> set_Name ` set (foldl add_set [] xs)" using foldl_add_set(3) [of "[]" xs] by simp
    then obtain y where y: "y \<in> set (foldl add_set [] xs)" "set_Name x = set_Name y" by auto
    then have "y \<in> set xs" using foldl_add_set(2) [of "[]" xs] by auto
    with assms [OF x this y(2)] y(1) show "x \<in> set (foldl add_set [] xs)" by simp
  qed
qed

lemma numbered_index_gt: "x \<in> set (numbered pols n pts) \<Longrightarrow> n < snd (snd x)"
proof (induction pts arbitrary: n)
  case (Cons pt pts)
  from Cons.prems show ?case by (auto dest!: Cons.IH)
qed simp

lemma numbered_index:
  "x \<in> set (numbered pols n pts) \<Longrightarrow> y \<in> set (numbered pols n pts) \<Longrightarrow> snd (snd x) = snd (snd y) \<Longrightarrow> x = y"
proof (induction pts arbitrary: n)
  case (Cons pt pts)
  have gt: "n + 1 < snd (snd z)" if "z \<in> set (numbered pols (n + 1) pts)" for z
    using numbered_index_gt [OF that] .
  from Cons.prems gt [of x] gt [of y] Cons.IH [of "n + 1"] show ?case by auto
qed simp

lemma numbered_policy:
  "(pt, rp, i) \<in> set (numbered pols n pts) \<Longrightarrow> list_all (port_ok pols) pts \<Longrightarrow>
    pols (pt_RuleID pt) = Some rp \<and> pt \<in> set pts"
proof (induction pts arbitrary: n)
  case (Cons q pts)
  then show ?case by (auto simp: port_ok_def split: option.splits)
qed simp

lemma numbered_fst: "map fst (numbered pols n pts) = pts"
  by (induction pts arbitrary: n) auto

lemma policyByID_mem: "policyByID rps i = Some rp \<Longrightarrow> rp \<in> set rps \<and> rp_RuleID rp = i"
  by (auto simp: policyByID_def dest!: map_of_SomeD)

lemma step_sets_name:
  assumes "s \<in> set (step_sets caps pt rp n st)"
  shows "(set_Name s = ''deny_'' @ itoa n \<and> s = (zeroSet (''deny_'' @ itoa n) SetInterval)\<lparr>set_Elements := rp_SourceDeny rp\<rparr>)
    \<or> (set_Name s = ''allow_'' @ itoa n \<and> s = (zeroSet (''allow_'' @ itoa n) SetInterval)\<lparr>set_Elements := rp_SourceAllow rp\<rparr>)
    \<or> (set_Name s = ''meter_'' @ itoa n \<and> s = (zeroSet (''meter_'' @ itoa n) SetMeter)
          \<lparr>set_Timeout := PerSourceTableTTL, set_Size := int PerSourceTableSize\<rparr>)
    \<or> (\<exists>p. set_Name s = FlowSetName p \<and> s = (zeroSet (FlowSetName p) SetFlowCount)\<lparr>set_Size := int FlowSetSize\<rparr>)"
  using assms by (cases st) (auto simp: zeroSet_def split: option.splits if_splits)

lemma port_sets_consistent:
  assumes "(pt, rp, i) \<in> set (numbered pols n pts)" "(pt', rp', j) \<in> set (numbered pols n pts)"
    and "x \<in> set (port_sets caps pt rp i)" "y \<in> set (port_sets caps pt' rp' j)" "set_Name x = set_Name y"
  shows "x = y"
proof -
  obtain s t where x: "x \<in> set (step_sets caps pt rp i s)" and y: "y \<in> set (step_sets caps pt' rp' j t)"
    using assms(3,4) by (auto simp: port_sets_def)
  have idx: "i = j \<Longrightarrow> rp = rp'" using numbered_index [OF assms(1,2)] by simp
  have f: "FlowSetName p \<noteq> ''deny_'' @ k" "FlowSetName p \<noteq> ''allow_'' @ k" "FlowSetName p \<noteq> ''meter_'' @ k" for p k
    by (simp_all add: FlowSetName_def)
  from step_sets_name [OF x] step_sets_name [OF y] assms(5) idx f f [symmetric] show ?thesis
    by (elim disjE conjE exE) (simp_all add: itoa_inject)
qed

definition empty_compiler :: "PerSourceFlowCaps \<Rightarrow> compiler" where
  "empty_compiler caps = \<lparr>c_caps = caps, c_prog = \<lparr>prog_Sets = [], prog_Rows = []\<rparr>, c_declared = []\<rparr>"

text \<open>The whole program: the rows port by port, and every set a port needs.\<close>

lemma Compile_Inr_iff:
  "(\<exists>prog. Compile pol ports = Inr prog) \<longleftrightarrow> list_all (port_ok (policyByID (pol_Rules pol))) ports"
  using compile_ports_Inr(1) [of "empty_compiler (pol_PerSourceFlowCaps pol)" "policyByID (pol_Rules pol)" 0 ports]
  by (auto simp: Compile_def empty_compiler_def declared_ok_def split: sum.splits)

lemma Compile_program:
  assumes "Compile pol ports = Inr prog"
  defines "N \<equiv> numbered (policyByID (pol_Rules pol)) 0 ports" and "caps \<equiv> pol_PerSourceFlowCaps pol"
  shows "prog_Rows prog = concat (map (\<lambda>(pt, rp, i). port_rows caps pt rp i) N)"
    and "distinct (map set_Name (prog_Sets prog))"
    and "set (prog_Sets prog) = (\<Union>(pt, rp, i) \<in> set N. set (port_sets caps pt rp i))"
proof -
  obtain c where c: "compile_ports (policyByID (pol_Rules pol)) (empty_compiler caps) 0 ports = Inr c" "prog = c_prog c"
    using assms(1) by (auto simp: Compile_def empty_compiler_def caps_def split: sum.splits)
  have ok: "declared_ok (empty_compiler caps)" by (simp add: declared_ok_def empty_compiler_def)
  let ?all = "concat (map (\<lambda>(pt, rp, i). port_sets caps pt rp i) N)"
  have r: "prog_Rows prog = concat (map (\<lambda>(pt, rp, i). port_rows caps pt rp i) N)"
    and s: "prog_Sets prog = foldl add_set [] ?all"
    using compile_ports_Inr(2) [OF ok c(1)] c(2) by (simp_all add: empty_compiler_def N_def)
  show "prog_Rows prog = concat (map (\<lambda>(pt, rp, i). port_rows caps pt rp i) N)" by (rule r)
  show "distinct (map set_Name (prog_Sets prog))" unfolding s by (rule foldl_add_set(1)) simp
  have "set (foldl add_set [] ?all) = set ?all"
  proof (rule foldl_add_set_consistent)
    fix x y assume "x \<in> set ?all" "y \<in> set ?all" "set_Name x = set_Name y"
    then show "x = y" unfolding N_def by (fastforce intro: port_sets_consistent)
  qed
  then show "set (prog_Sets prog) = (\<Union>(pt, rp, i) \<in> set N. set (port_sets caps pt rp i))"
    unfolding s by auto
qed

end
