(* ===== verification/Nft_Interp.thy ===== *)
theory Nft_Interp
  imports Nftables Interfaces
begin

section \<open>The interpreter of compiled programs (internal/policy/nftables/interp)\<close>

text \<open>
  A model of the chain \<open>filter_pre\<close> that runs the compiled rows. Maps that the
  code reaches through pointers are updated in the interpreter's record. A Go map
  whose size is read is an association list; one that is only looked up is a
  map. Durations and tokens are \<open>int64\<close>: each sum, difference and product wraps.
\<close>

subsection \<open>Token buckets in nanoseconds\<close>

record bucket =
  bk_cost :: int
  bk_max :: int
  bk_tokens :: int
  bk_last :: int

definition unit_ns :: "RateUnit \<Rightarrow> int option" where
  "unit_ns u =
     (if u = PerSecond then Some 1000000000
      else if u = PerMinute then Some (60 * 1000000000)
      else if u = PerHour then Some (3600 * 1000000000)
      else if u = PerDay then Some (24 * 3600 * 1000000000)
      else if u = PerWeek then Some (7 * 24 * 3600 * 1000000000)
      else None)"

datatype bucket_error = NotABucket Rate | BurstZero Rate

definition newBucket :: "Rate \<Rightarrow> uint32 \<Rightarrow> int \<Rightarrow> (bucket_error, bucket) res" where
  "newBucket r burst now =
     (case unit_ns (Unit r) of
        None \<Rightarrow> Inl (NotABucket r)
      | Some unit \<Rightarrow>
          if Count r = 0 then Inl (NotABucket r)
          else if burst = 0 then Inl (BurstZero r)
          else let cost = go_div unit (sint (Count r)); cap = wrap64 (cost * uint burst)
               in Inr \<lparr>bk_cost = cost, bk_max = cap, bk_tokens = cap, bk_last = now\<rparr>)"

text \<open>\<open>bucket.over\<close>: true when the packet exceeds the rate.\<close>

definition bucket_over :: "bucket \<Rightarrow> int \<Rightarrow> bool \<times> bucket" where
  "bucket_over b now =
     (let tokens = wrap64 (bk_tokens b + wrap64 (now - bk_last b));
          tokens = (if tokens > bk_max b then bk_max b else tokens);
          b = b\<lparr>bk_last := now\<rparr>
      in if tokens \<ge> bk_cost b then (False, b\<lparr>bk_tokens := wrap64 (tokens - bk_cost b)\<rparr>)
         else (True, b\<lparr>bk_tokens := tokens\<rparr>))"

subsection \<open>Sets\<close>

record meterElem =
  me_expires :: int
  me_bucket :: bucket

record meter =
  mt_timeout :: int
  mt_size :: int
  mt_elems :: "(addr \<times> meterElem) list"

text \<open>\<open>meter.add\<close>: the element of the source, made if it is missing and there is room.\<close>

definition meter_add ::
  "meter \<Rightarrow> int \<Rightarrow> addr \<Rightarrow> Rate \<Rightarrow> uint32 \<Rightarrow> (bucket_error, meterElem option) res \<times> meter" where
  "meter_add m now src r burst =
     (let m = m\<lparr>mt_elems := filter (\<lambda>(a, e). \<not> now \<ge> me_expires e) (mt_elems m)\<rparr> in
      case map_of (mt_elems m) src of
        Some e \<Rightarrow> (Inr (Some e), m)
      | None \<Rightarrow>
          if int (length (mt_elems m)) \<ge> mt_size m then (Inr None, m)
          else (case newBucket r burst now of
                  Inl err \<Rightarrow> (Inl err, m)
                | Inr b \<Rightarrow>
                    (let e = \<lparr>me_expires = wrap64 (now + mt_timeout m), me_bucket = b\<rparr>
                     in (Inr (Some e), m\<lparr>mt_elems := (src, e) # mt_elems m\<rparr>))))"

record flowSet =
  fs_size :: int
  fs_elems :: "(addr \<times> string list) list"

definition flowSet_add :: "flowSet \<Rightarrow> addr \<Rightarrow> string \<Rightarrow> (nat \<times> bool) \<times> flowSet" where
  "flowSet_add f src flow =
     (case map_of (fs_elems f) src of
        None \<Rightarrow>
          if int (length (fs_elems f)) \<ge> fs_size f then ((0, False), f)
          else ((1, True), f\<lparr>fs_elems := (src, [flow]) # fs_elems f\<rparr>)
      | Some e \<Rightarrow>
          (let e' = List.insert flow e
           in ((length e', True), f\<lparr>fs_elems := map (\<lambda>(a, x). if a = src then (a, e') else (a, x)) (fs_elems f)\<rparr>)))"

definition flowSet_remove :: "flowSet \<Rightarrow> addr \<Rightarrow> string \<Rightarrow> flowSet" where
  "flowSet_remove f src flow =
     (case map_of (fs_elems f) src of
        None \<Rightarrow> f
      | Some e \<Rightarrow>
          (let e' = filter (\<lambda>x. x \<noteq> flow) e
           in if e' = [] then f\<lparr>fs_elems := filter (\<lambda>(a, x). a \<noteq> src) (fs_elems f)\<rparr>
              else f\<lparr>fs_elems := map (\<lambda>(a, x). if a = src then (a, e') else (a, x)) (fs_elems f)\<rparr>))"

subsection \<open>The interpreter\<close>

record Packet =
  pk_Proto :: Proto
  pk_DstPort :: uint16
  pk_Src :: addr
  pk_Flow :: string

record Verdict =
  v_Dropped :: bool
  v_Comment :: string

record conn =
  cn_src :: addr
  cn_flowSets :: "string list"

record Interpreter =
  ip_prog :: Program
  ip_interval :: "string \<rightharpoonup> prefix list"
  ip_meters :: "string \<rightharpoonup> meter"
  ip_flowSets :: "string \<rightharpoonup> flowSet"
  ip_limits :: "nat \<rightharpoonup> bucket"
  ip_counters :: "uint64 list"
  ip_conns :: "string \<rightharpoonup> conn"

datatype interp_error =
    UnknownSetKind string SetKind | RowBucket string bucket_error | RowNoSet string StmtKind string
  | EvalBucket string bucket_error | EvalEstablished string | EvalUnknown string StmtKind

fun load_sets :: "Interpreter \<Rightarrow> NSet list \<Rightarrow> (interp_error, Interpreter) res" where
  "load_sets ip [] = Inr ip"
| "load_sets ip (s # ss) =
     (case set_Kind s of
        SetInterval \<Rightarrow> load_sets (ip\<lparr>ip_interval := (ip_interval ip)(set_Name s \<mapsto> set_Elements s)\<rparr>) ss
      | SetMeter \<Rightarrow>
          load_sets (ip\<lparr>ip_meters := (ip_meters ip)(set_Name s \<mapsto>
             \<lparr>mt_timeout = set_Timeout s, mt_size = set_Size s, mt_elems = []\<rparr>)\<rparr>) ss
      | SetFlowCount \<Rightarrow>
          load_sets (ip\<lparr>ip_flowSets := (ip_flowSets ip)(set_Name s \<mapsto> \<lparr>fs_size = set_Size s, fs_elems = []\<rparr>)\<rparr>) ss
      | SetKindOther _ \<Rightarrow> Inl (UnknownSetKind (set_Name s) (set_Kind s)))"

fun load_rows :: "Interpreter \<Rightarrow> nat \<Rightarrow> Row list \<Rightarrow> (interp_error, Interpreter) res" where
  "load_rows ip i [] = Inr ip"
| "load_rows ip i (r # rs) =
     (let st = row_Stmt r;
          bad = Inl (RowNoSet (row_Comment r) (stmt_Kind st) (stmt_Set st));
          need = (\<lambda>ok. if ok then load_rows ip (i + 1) rs else bad)
      in case stmt_Kind st of
           StmtSourceInSet \<Rightarrow> need (ip_interval ip (stmt_Set st) \<noteq> None)
         | StmtSourceNotInSet \<Rightarrow> need (ip_interval ip (stmt_Set st) \<noteq> None)
         | StmtPerSourceLimit \<Rightarrow> need (ip_meters ip (stmt_Set st) \<noteq> None)
         | StmtPerSourceCtCount \<Rightarrow> need (ip_flowSets ip (stmt_Set st) \<noteq> None)
         | StmtLimit \<Rightarrow>
             (case newBucket (stmt_Rate st) (stmt_Burst st) 0 of
                Inl e \<Rightarrow> Inl (RowBucket (row_Comment r) e)
              | Inr b \<Rightarrow> load_rows (ip\<lparr>ip_limits := (ip_limits ip)(i \<mapsto> b)\<rparr>) (i + 1) rs)
         | StmtKindOther _ \<Rightarrow> bad)"

text \<open>\<open>interp.New\<close>.\<close>

definition Interp_New :: "Program \<Rightarrow> (interp_error, Interpreter) res" where
  "Interp_New prog =
     (case load_sets \<lparr>ip_prog = prog, ip_interval = Map.empty, ip_meters = Map.empty, ip_flowSets = Map.empty,
                       ip_limits = Map.empty, ip_counters = replicate (length (prog_Rows prog)) 0,
                       ip_conns = Map.empty\<rparr> (prog_Sets prog) of
        Inl e \<Rightarrow> Inl e
      | Inr ip \<Rightarrow> load_rows ip 0 (prog_Rows prog))"

definition undo_flows :: "Interpreter \<Rightarrow> addr \<Rightarrow> string \<Rightarrow> string list \<Rightarrow> Interpreter" where
  "undo_flows ip src flow names =
     foldl (\<lambda>ip name. case ip_flowSets ip name of
                         None \<Rightarrow> ip
                       | Some f \<Rightarrow> ip\<lparr>ip_flowSets := (ip_flowSets ip)(name \<mapsto> flowSet_remove f src flow)\<rparr>) ip names"

text \<open>
  One statement: whether it matches, the interpreter after it, and the flow sets
  that gained the flow. The lookups that New has checked cannot fail.
\<close>

definition eval_stmt ::
  "Interpreter \<Rightarrow> nat \<Rightarrow> string \<Rightarrow> Stmt \<Rightarrow> int \<Rightarrow> Packet \<Rightarrow> bool \<Rightarrow> string list
   \<Rightarrow> (interp_error, bool) res \<times> Interpreter \<times> string list" where
  "eval_stmt ip i comment st now p isNew added =
     (case stmt_Kind st of
        StmtSourceInSet \<Rightarrow>
          (Inr (matchesAny (case ip_interval ip (stmt_Set st) of None \<Rightarrow> [] | Some ps \<Rightarrow> ps) (pk_Src p)), ip, added)
      | StmtSourceNotInSet \<Rightarrow>
          (Inr (\<not> matchesAny (case ip_interval ip (stmt_Set st) of None \<Rightarrow> [] | Some ps \<Rightarrow> ps) (pk_Src p)), ip, added)
      | StmtPerSourceLimit \<Rightarrow>
          (case ip_meters ip (stmt_Set st) of
             None \<Rightarrow> (Inr False, ip, added)
           | Some m \<Rightarrow>
               (case meter_add m now (pk_Src p) (stmt_Rate st) (stmt_Burst st) of
                  (Inl e, m') \<Rightarrow>
                    (Inl (EvalBucket comment e), ip\<lparr>ip_meters := (ip_meters ip)(stmt_Set st \<mapsto> m')\<rparr>, added)
                | (Inr None, m') \<Rightarrow> (Inr False, ip\<lparr>ip_meters := (ip_meters ip)(stmt_Set st \<mapsto> m')\<rparr>, added)
                | (Inr (Some e), m') \<Rightarrow>
                    (let (over, b) = bucket_over (me_bucket e) now;
                         m'' = m'\<lparr>mt_elems := map (\<lambda>(a, x). if a = pk_Src p then (a, x\<lparr>me_bucket := b\<rparr>) else (a, x))
                                               (mt_elems m')\<rparr>
                     in (Inr over, ip\<lparr>ip_meters := (ip_meters ip)(stmt_Set st \<mapsto> m'')\<rparr>, added))))
      | StmtPerSourceCtCount \<Rightarrow>
          (if \<not> isNew then (Inl (EvalEstablished comment), ip, added)
           else case ip_flowSets ip (stmt_Set st) of
             None \<Rightarrow> (Inr False, ip, added)
           | Some f \<Rightarrow>
               (let ((n, ok), f') = flowSet_add f (pk_Src p) (pk_Flow p);
                    ip' = ip\<lparr>ip_flowSets := (ip_flowSets ip)(stmt_Set st \<mapsto> f')\<rparr>
                in if \<not> ok then (Inr False, ip', added)
                   else (Inr (int n > uint (stmt_Count st)), ip', added @ [stmt_Set st])))
      | StmtLimit \<Rightarrow>
          (case ip_limits ip i of
             None \<Rightarrow> (Inr False, ip, added)
           | Some b \<Rightarrow> (let (over, b') = bucket_over b now
                         in (Inr over, ip\<lparr>ip_limits := (ip_limits ip)(i \<mapsto> b')\<rparr>, added)))
      | StmtKindOther _ \<Rightarrow> (Inl (EvalUnknown comment (stmt_Kind st)), ip, added))"

definition row_applies :: "Row \<Rightarrow> Packet \<Rightarrow> bool \<Rightarrow> bool" where
  "row_applies r p isNew =
     (\<not> (ma_Proto (row_Match r) \<noteq> pk_Proto p \<or> pk_DstPort p < Lo (ma_Ports (row_Match r))
          \<or> pk_DstPort p > Hi (ma_Ports (row_Match r)))
      \<and> \<not> (ma_CtStateNew (row_Match r) \<and> \<not> isNew)
      \<and> \<not> ((ma_IPv4 (row_Match r) \<or> UsesSource (row_Stmt r)) \<and> \<not> is4 (pk_Src p)))"

datatype row_outcome = Passed | DroppedAt nat string | Failed interp_error

fun eval_rows ::
  "Interpreter \<Rightarrow> nat \<Rightarrow> Row list \<Rightarrow> int \<Rightarrow> Packet \<Rightarrow> bool \<Rightarrow> string list
   \<Rightarrow> row_outcome \<times> Interpreter \<times> string list" where
  "eval_rows ip i [] now p isNew added = (Passed, ip, added)"
| "eval_rows ip i (r # rs) now p isNew added =
     (if \<not> row_applies r p isNew then eval_rows ip (i + 1) rs now p isNew added
      else case eval_stmt ip i (row_Comment r) (row_Stmt r) now p isNew added of
             (Inl e, ip', added') \<Rightarrow> (Failed e, ip', added')
           | (Inr hit, ip', added') \<Rightarrow>
               if hit then (DroppedAt i (row_Comment r), ip', added')
               else eval_rows ip' (i + 1) rs now p isNew added')"

definition Eval :: "Interpreter \<Rightarrow> int \<Rightarrow> Packet \<Rightarrow> (interp_error, Verdict) res \<times> Interpreter" where
  "Eval ip now p =
     (let isNew = (ip_conns ip (pk_Flow p) = None) in
      case eval_rows ip 0 (prog_Rows (ip_prog ip)) now p isNew [] of
        (Failed e, ip', added) \<Rightarrow> (Inl e, undo_flows ip' (pk_Src p) (pk_Flow p) added)
      | (DroppedAt i comment, ip', added) \<Rightarrow>
          (Inr \<lparr>v_Dropped = True, v_Comment = comment\<rparr>,
           undo_flows (ip'\<lparr>ip_counters := (ip_counters ip')[i := ip_counters ip' ! i + 1]\<rparr>) (pk_Src p) (pk_Flow p) added)
      | (Passed, ip', added) \<Rightarrow>
          (Inr \<lparr>v_Dropped = False, v_Comment = []\<rparr>,
           if isNew then ip'\<lparr>ip_conns := (ip_conns ip')(pk_Flow p \<mapsto> \<lparr>cn_src = pk_Src p, cn_flowSets = added\<rparr>)\<rparr>
           else ip'))"

definition End :: "Interpreter \<Rightarrow> string \<Rightarrow> Interpreter" where
  "End ip flow =
     (case ip_conns ip flow of
        None \<Rightarrow> ip
      | Some c \<Rightarrow> (let ip' = undo_flows ip (cn_src c) flow (cn_flowSets c)
                    in ip'\<lparr>ip_conns := (ip_conns ip')(flow := None)\<rparr>))"

definition Counters :: "Interpreter \<Rightarrow> (string \<times> uint64) list" where
  "Counters ip = zip (map row_Comment (prog_Rows (ip_prog ip))) (ip_counters ip)"

subsection \<open>Token buckets: exact consumption\<close>

definition nft_bucket_inv :: "int \<Rightarrow> bucket \<Rightarrow> bool" where
  "nft_bucket_inv c b = (bk_cost b = c \<and> 0 < c \<and> 0 \<le> bk_tokens b \<and> bk_tokens b \<le> bk_max b \<and> bk_max b < 2 ^ 62
     \<and> 0 \<le> bk_last b)"

definition nft_allow :: "bucket \<Rightarrow> int \<Rightarrow> bool \<times> bucket" where
  "nft_allow b now = (let (over, b') = bucket_over b now in (\<not> over, b'))"

lemma nft_allow_eq:
  assumes "nft_bucket_inv c b" and "bk_last b \<le> now" and "now < 2 ^ 62"
  shows "nft_allow b now =
    (let t = min (bk_tokens b + (now - bk_last b)) (bk_max b); b' = b\<lparr>bk_last := now\<rparr>
     in if t \<ge> c then (True, b'\<lparr>bk_tokens := t - c\<rparr>) else (False, b'\<lparr>bk_tokens := t\<rparr>))"
proof -
  have w: "wrap64 (now - bk_last b) = now - bk_last b"
    "wrap64 (bk_tokens b + (now - bk_last b)) = bk_tokens b + (now - bk_last b)"
    using assms by (auto simp: nft_bucket_inv_def intro!: wrap64_id)
  have "wrap64 (min (bk_tokens b + (now - bk_last b)) (bk_max b) - c) = min (bk_tokens b + (now - bk_last b)) (bk_max b) - c"
    if "min (bk_tokens b + (now - bk_last b)) (bk_max b) \<ge> c"
    using assms that by (intro wrap64_id) (auto simp: nft_bucket_inv_def)
  then show ?thesis
    using assms(1) by (auto simp: nft_allow_def bucket_over_def w Let_def nft_bucket_inv_def min_def)
qed

text \<open>The bucket of the interpreter is a limiter without rounding: a token takes \<open>cost\<close> nanoseconds.\<close>

interpretation nft_bucket: limiter "\<lambda>b. nft_bucket_inv c b" bk_last "\<lambda>b. of_int (bk_tokens b) / of_int c"
  "\<lambda>t. t < 2 ^ 62" nft_allow "1 / of_int c" 0 for c
proof
  fix b assume "nft_bucket_inv c b"
  then show "0 \<le> (of_int (bk_tokens b) / of_int c :: rat)" by (simp add: nft_bucket_inv_def)
next
  fix b now ok b'
  assume inv: "nft_bucket_inv c b" and now: "now < 2 ^ 62" "bk_last b \<le> now" and a: "nft_allow b now = (ok, b')"
  have c: "(0 :: rat) < of_int c" using inv by (simp add: nft_bucket_inv_def)
  have "nft_bucket_inv c b' \<and> bk_last b' = now \<and> bk_tokens b' + (if ok then c else 0) \<le> bk_tokens b + (now - bk_last b)"
    using a inv now nft_allow_eq [OF inv now(2,1)] by (auto simp: Let_def nft_bucket_inv_def split: if_splits)
  moreover from this have "(of_int (bk_tokens b' + (if ok then c else 0)) :: rat) \<le> of_int (bk_tokens b + (now - bk_last b))"
    by (simp only: of_int_le_iff)
  then have "(of_int (bk_tokens b' + (if ok then c else 0)) / of_int c :: rat)
      \<le> of_int (bk_tokens b + (now - bk_last b)) / of_int c"
    using c by (intro divide_right_mono) auto
  then have "of_int (bk_tokens b') / of_int c + (if ok then 1 else 0)
      \<le> (of_int (bk_tokens b) / of_int c + 1 / of_int c * of_int (now - bk_last b) :: rat)"
    using c by (simp add: add_divide_distrib diff_divide_distrib split: if_splits)
  ultimately show "nft_bucket_inv c b' \<and> bk_last b' = now \<and>
      of_int (bk_tokens b') / of_int c + of_bool ok
      \<le> (of_int (bk_tokens b) / of_int c + 1 / of_int c * of_int (now - bk_last b) + 0 :: rat)"
    by (cases ok) simp_all
qed

lemma newBucket_ok:
  assumes "rate_ok r"
  obtains b where "newBucket r 5 now = Inr b"
  using assms by (auto simp: newBucket_def unit_ns_def rate_ok_def rate_units_def Let_def)

subsection \<open>Loading a compiled program\<close>

definition refs_ok :: "Interpreter \<Rightarrow> Row \<Rightarrow> bool" where
  "refs_ok ip r =
     (let st = row_Stmt r in
      case stmt_Kind st of
        StmtSourceInSet \<Rightarrow> ip_interval ip (stmt_Set st) \<noteq> None
      | StmtSourceNotInSet \<Rightarrow> ip_interval ip (stmt_Set st) \<noteq> None
      | StmtPerSourceLimit \<Rightarrow> ip_meters ip (stmt_Set st) \<noteq> None
      | StmtPerSourceCtCount \<Rightarrow> ip_flowSets ip (stmt_Set st) \<noteq> None
      | StmtLimit \<Rightarrow> is_ok (newBucket (stmt_Rate st) (stmt_Burst st) 0)
      | StmtKindOther _ \<Rightarrow> False)"

lemma load_rows_ok:
  assumes "\<forall>r \<in> set rs. refs_ok ip r"
  shows "\<exists>ip'. load_rows ip i rs = Inr ip' \<and> ip_interval ip' = ip_interval ip \<and> ip_meters ip' = ip_meters ip
    \<and> ip_flowSets ip' = ip_flowSets ip \<and> ip_prog ip' = ip_prog ip \<and> ip_conns ip' = ip_conns ip"
  using assms
proof (induction rs arbitrary: ip i)
  case (Cons r rs)
  show ?case
  proof (cases "stmt_Kind (row_Stmt r) = StmtLimit")
    case True
    then obtain b where b: "newBucket (stmt_Rate (row_Stmt r)) (stmt_Burst (row_Stmt r)) 0 = Inr b"
      using Cons.prems by (auto simp: refs_ok_def Let_def is_ok_def split: sum.splits)
    let ?ip = "ip\<lparr>ip_limits := (ip_limits ip)(i \<mapsto> b)\<rparr>"
    have "refs_ok ?ip q = refs_ok ip q" for q
      by (cases "stmt_Kind (row_Stmt q)") (simp_all add: refs_ok_def Let_def)
    then have "\<forall>r \<in> set rs. refs_ok ?ip r" using Cons.prems by simp
    from Cons.IH [OF this, of "i + 1"] True b show ?thesis by auto
  next
    case False
    have "\<forall>r \<in> set rs. refs_ok ip r" "refs_ok ip r" using Cons.prems by auto
    with Cons.IH [of ip "i + 1"] False show ?thesis
      by (auto simp: refs_ok_def Let_def split: StmtKind.splits)
  qed
qed simp

text \<open>With distinct names, every set ends up under its name with its kind.\<close>

lemma load_sets_ok:
  assumes "distinct (map set_Name ss)" and "\<forall>s \<in> set ss. set_Kind s \<in> {SetInterval, SetMeter, SetFlowCount}"
  shows "\<exists>ip'. load_sets ip ss = Inr ip' \<and> ip_prog ip' = ip_prog ip \<and> ip_conns ip' = ip_conns ip
    \<and> (\<forall>n. n \<notin> set_Name ` set ss \<longrightarrow> ip_interval ip' n = ip_interval ip n \<and> ip_meters ip' n = ip_meters ip n
          \<and> ip_flowSets ip' n = ip_flowSets ip n)
    \<and> (\<forall>s \<in> set ss. (set_Kind s = SetInterval \<longrightarrow> ip_interval ip' (set_Name s) = Some (set_Elements s))
          \<and> (set_Kind s = SetMeter \<longrightarrow> ip_meters ip' (set_Name s) \<noteq> None)
          \<and> (set_Kind s = SetFlowCount \<longrightarrow> ip_flowSets ip' (set_Name s) \<noteq> None))"
  using assms
proof (induction ss arbitrary: ip)
  case (Cons s ss)
  define ip1 where "ip1 = (case set_Kind s of
      SetInterval \<Rightarrow> ip\<lparr>ip_interval := (ip_interval ip)(set_Name s \<mapsto> set_Elements s)\<rparr>
    | SetMeter \<Rightarrow> ip\<lparr>ip_meters := (ip_meters ip)(set_Name s \<mapsto>
        \<lparr>mt_timeout = set_Timeout s, mt_size = set_Size s, mt_elems = []\<rparr>)\<rparr>
    | _ \<Rightarrow> ip\<lparr>ip_flowSets := (ip_flowSets ip)(set_Name s \<mapsto> \<lparr>fs_size = set_Size s, fs_elems = []\<rparr>)\<rparr>)"
  have step: "load_sets ip (s # ss) = load_sets ip1 ss"
    using Cons.prems(2) by (auto simp: ip1_def)
  have "set_Name s \<notin> set_Name ` set ss" using Cons.prems(1) by auto
  with Cons.IH [of ip1] Cons.prems show ?case
    unfolding step by (fastforce simp: ip1_def)
qed simp

text \<open>The rates a compiled program may hold: those of its policies.\<close>

definition policy_rates_ok :: "RulePolicy \<Rightarrow> bool" where
  "policy_rates_ok rp = (pred_option rate_ok (rp_PerSourceRate rp) \<and> pred_option rate_ok (rp_NewFlowRate rp)
     \<and> pred_option rate_ok (rp_PacketRate rp))"

lemma step_sets_kind: "s \<in> set (step_sets caps pt rp n st) \<Longrightarrow> set_Kind s \<in> {SetInterval, SetMeter, SetFlowCount}"
  using step_sets_name [of s caps pt rp n st] by (auto simp: zeroSet_def)

lemma port_rows_refs:
  assumes "r \<in> set (port_rows caps pt rp n)" and "policy_rates_ok rp"
    and iv: "\<And>s. s \<in> set (port_sets caps pt rp n) \<Longrightarrow> set_Kind s = SetInterval \<Longrightarrow> ip_interval ip (set_Name s) \<noteq> None"
    and mt: "\<And>s. s \<in> set (port_sets caps pt rp n) \<Longrightarrow> set_Kind s = SetMeter \<Longrightarrow> ip_meters ip (set_Name s) \<noteq> None"
    and fs: "\<And>s. s \<in> set (port_sets caps pt rp n) \<Longrightarrow> set_Kind s = SetFlowCount \<Longrightarrow> ip_flowSets ip (set_Name s) \<noteq> None"
  shows "refs_ok ip r"
proof -
  have b: "is_ok (newBucket q 5 0)" if "rate_ok q" for q by (rule newBucket_ok [OF that, of 0]) simp
  obtain st where st: "st \<in> set Order" "r \<in> set (step_rows caps pt rp n st)"
    using assms(1) by (auto simp: port_rows_def)
  have sub: "set (step_sets caps pt rp n st) \<subseteq> set (port_sets caps pt rp n)"
    using st(1) by (auto simp: port_sets_def)
  note iv' = iv [OF subsetD [OF sub]] and mt' = mt [OF subsetD [OF sub]] and fs' = fs [OF subsetD [OF sub]]
  show ?thesis
  proof (cases st)
    case StepSourceDeny
    then have r: "rp_SourceDeny rp \<noteq> []" "stmt_Kind (row_Stmt r) = StmtSourceInSet" "stmt_Set (row_Stmt r) = ''deny_'' @ itoa n"
      using st(2) by (auto simp: mk_row_def Let_def zeroStmt_def split: if_splits)
    with iv' [of "(zeroSet (''deny_'' @ itoa n) SetInterval)\<lparr>set_Elements := rp_SourceDeny rp\<rparr>"] StepSourceDeny
    show ?thesis by (simp add: refs_ok_def zeroSet_def)
  next
    case StepSourceAllow
    then have r: "rp_SourceAllow rp \<noteq> []" "stmt_Kind (row_Stmt r) = StmtSourceNotInSet" "stmt_Set (row_Stmt r) = ''allow_'' @ itoa n"
      using st(2) by (auto simp: mk_row_def Let_def zeroStmt_def split: if_splits)
    with iv' [of "(zeroSet (''allow_'' @ itoa n) SetInterval)\<lparr>set_Elements := rp_SourceAllow rp\<rparr>"] StepSourceAllow
    show ?thesis by (simp add: refs_ok_def zeroSet_def)
  next
    case StepPerSourceRate
    then have r: "rp_PerSourceRate rp \<noteq> None" "stmt_Kind (row_Stmt r) = StmtPerSourceLimit" "stmt_Set (row_Stmt r) = ''meter_'' @ itoa n"
      using st(2) by (cases "rp_PerSourceRate rp"; simp add: mk_row_def Let_def zeroStmt_def)+
    with mt' [of "(zeroSet (''meter_'' @ itoa n) SetMeter)
        \<lparr>set_Timeout := PerSourceTableTTL, set_Size := int PerSourceTableSize\<rparr>"] StepPerSourceRate
    show ?thesis by (auto simp: refs_ok_def zeroSet_def)
  next
    case StepPerSourceConcurrentFlows
    then have r: "\<not> ForProto caps (pt_Proto pt) \<le> 0" "stmt_Kind (row_Stmt r) = StmtPerSourceCtCount"
        "stmt_Set (row_Stmt r) = FlowSetName (pt_Proto pt)"
      using st(2) by (auto simp: mk_row_def Let_def zeroStmt_def split: if_splits)
    with fs' [of "(zeroSet (FlowSetName (pt_Proto pt)) SetFlowCount)\<lparr>set_Size := int FlowSetSize\<rparr>"]
      StepPerSourceConcurrentFlows
    show ?thesis by (simp add: refs_ok_def zeroSet_def)
  next
    case StepAggregateNewFlowRate
    then obtain q where q: "rp_NewFlowRate rp = Some q" "stmt_Kind (row_Stmt r) = StmtLimit"
        "stmt_Rate (row_Stmt r) = q" "stmt_Burst (row_Stmt r) = 5"
      using st(2) by (cases "rp_NewFlowRate rp") (auto simp: mk_row_def Let_def zeroStmt_def)
    with b [of q] assms(2) show ?thesis by (simp add: refs_ok_def policy_rates_ok_def)
  next
    case StepAggregatePacketRate
    then obtain q where q: "rp_PacketRate rp = Some q" "stmt_Kind (row_Stmt r) = StmtLimit"
        "stmt_Rate (row_Stmt r) = q" "stmt_Burst (row_Stmt r) = 5"
      using st(2) by (cases "rp_PacketRate rp") (auto simp: mk_row_def Let_def zeroStmt_def split: if_splits)
    with b [of q] assms(2) show ?thesis by (simp add: refs_ok_def policy_rates_ok_def)
  next
    case (StepOther i)
    with st(2) show ?thesis by simp
  qed
qed

lemma compiled_program_loads:
  assumes "Compile pol ports = Inr prog"
    and "\<forall>(pt, rp, i) \<in> set (numbered (policyByID (pol_Rules pol)) 0 ports). policy_rates_ok rp"
  shows "\<exists>ip. Interp_New prog = Inr ip \<and> ip_prog ip = prog \<and> ip_conns ip = Map.empty
    \<and> (\<forall>s \<in> set (prog_Sets prog). set_Kind s = SetInterval \<longrightarrow> ip_interval ip (set_Name s) = Some (set_Elements s))"
proof -
  note c = Compile_program [OF assms(1)]
  let ?ip0 = "\<lparr>ip_prog = prog, ip_interval = Map.empty, ip_meters = Map.empty, ip_flowSets = Map.empty,
    ip_limits = Map.empty, ip_counters = replicate (length (prog_Rows prog)) 0, ip_conns = Map.empty\<rparr>"
  have k: "\<forall>s \<in> set (prog_Sets prog). set_Kind s \<in> {SetInterval, SetMeter, SetFlowCount}"
    unfolding c(3) using step_sets_kind by (fastforce simp: port_sets_def)
  obtain ip1 where ip1: "load_sets ?ip0 (prog_Sets prog) = Inr ip1" "ip_prog ip1 = prog" "ip_conns ip1 = Map.empty"
    "\<And>s. s \<in> set (prog_Sets prog) \<Longrightarrow>
       (set_Kind s = SetInterval \<longrightarrow> ip_interval ip1 (set_Name s) = Some (set_Elements s))
       \<and> (set_Kind s = SetMeter \<longrightarrow> ip_meters ip1 (set_Name s) \<noteq> None)
       \<and> (set_Kind s = SetFlowCount \<longrightarrow> ip_flowSets ip1 (set_Name s) \<noteq> None)"
    using load_sets_ok [OF c(2) k, of ?ip0] by auto
  have "refs_ok ip1 r" if r: "r \<in> set (prog_Rows prog)" for r
  proof -
    obtain pt rp i where x: "(pt, rp, i) \<in> set (numbered (policyByID (pol_Rules pol)) 0 ports)"
      "r \<in> set (port_rows (pol_PerSourceFlowCaps pol) pt rp i)"
      using r unfolding c(1) by fastforce
    have sub: "s \<in> set (prog_Sets prog)" if "s \<in> set (port_sets (pol_PerSourceFlowCaps pol) pt rp i)" for s
      using x(1) that unfolding c(3) by blast
    show ?thesis
      by (rule port_rows_refs [OF x(2)]) (use assms(2) x(1) ip1(4) sub in auto)
  qed
  then obtain ip where "load_rows ip1 0 (prog_Rows prog) = Inr ip" "ip_interval ip = ip_interval ip1"
    "ip_prog ip = prog" "ip_conns ip = Map.empty"
    using load_rows_ok [of "prog_Rows prog" ip1 0] ip1(2,3) by auto
  with ip1 show ?thesis by (intro exI [of _ ip]) (auto simp: Interp_New_def)
qed

subsection \<open>The static verdict\<close>

lemma eval_rows_append:
  "eval_rows ip i (xs @ ys) now p isNew added =
     (case eval_rows ip i xs now p isNew added of
        (Passed, ip', added') \<Rightarrow> eval_rows ip' (i + length xs) ys now p isNew added'
      | r \<Rightarrow> r)"
  by (induction xs arbitrary: ip i added)
    (auto split: prod.splits sum.splits row_outcome.splits)

lemma eval_rows_skip:
  "\<forall>r \<in> set rs. \<not> row_applies r p isNew \<Longrightarrow> eval_rows ip i rs now p isNew added = (Passed, ip, added)"
  by (induction rs arbitrary: i) auto

lemma port_rows_match: "r \<in> set (port_rows caps pt rp n) \<Longrightarrow>
    ma_Proto (row_Match r) = pt_Proto pt \<and> ma_Ports (row_Match r) = pt_Ports pt \<and> ma_IPv4 (row_Match r)
    \<and> row_RuleID r = pt_RuleID pt \<and> row_Comment r = Comment (pt_RuleID pt) (row_Kind r)"
  by (auto simp: port_rows_def Order_def mk_row_def Let_def split: option.splits if_splits)

text \<open>A packet to one port only runs the rows of that port.\<close>

definition to_port :: "Packet \<Rightarrow> Port \<Rightarrow> bool" where
  "to_port p pt = (pt_Proto pt = pk_Proto p \<and> Contains (pt_Ports pt) (pk_DstPort p))"

lemma row_applies_to_port:
  "r \<in> set (port_rows caps pt rp n) \<Longrightarrow> row_applies r p isNew \<Longrightarrow> to_port p pt"
  using port_rows_match [of r caps pt rp n] by (auto simp: row_applies_def to_port_def Contains_def not_less)

lemma eval_single_port:
  assumes "numbered pols 0 ports = N1 @ (pt, rp, n) # N2"
    and "\<forall>(q, rq, i) \<in> set (N1 @ N2). \<not> to_port p q"
    and "rows = concat (map (\<lambda>(pt, rp, i). port_rows caps pt rp i) (numbered pols 0 ports))"
  obtains j where "eval_rows ip 0 rows now p isNew [] = eval_rows ip j (port_rows caps pt rp n) now p isNew []"
proof -
  let ?f = "\<lambda>(pt, rp, i). port_rows caps pt rp i"
  define A where "A = concat (map ?f N1)"
  define B where "B = concat (map ?f N2)"
  have skip: "\<forall>r \<in> set A. \<not> row_applies r p isNew" "\<forall>r \<in> set B. \<not> row_applies r p isNew"
    unfolding A_def B_def using assms(2) row_applies_to_port by fastforce+
  have rows: "rows = A @ port_rows caps pt rp n @ B" using assms(1,3) by (simp add: A_def B_def)
  have E: "eval_rows ip' k B now p isNew a = (Passed, ip', a)" for ip' k a using eval_rows_skip [OF skip(2)] .
  have "eval_rows ip 0 rows now p isNew [] =
      (case eval_rows ip (length A) (port_rows caps pt rp n) now p isNew [] of
         (Passed, ip', a) \<Rightarrow> (Passed, ip', a) | r \<Rightarrow> r)"
    unfolding rows eval_rows_append eval_rows_skip [OF skip(1)] by (auto simp: E split: prod.splits row_outcome.splits)
  also have "\<dots> = eval_rows ip (length A) (port_rows caps pt rp n) now p isNew []"
    by (auto split: prod.splits row_outcome.splits)
  finally show thesis by (rule that)
qed

lemma eval_port_static:
  assumes "rp_SourceDeny rp \<noteq> [] \<Longrightarrow> ip_interval ip (''deny_'' @ itoa n) = Some (rp_SourceDeny rp)"
    and "rp_SourceAllow rp \<noteq> [] \<Longrightarrow> ip_interval ip (''allow_'' @ itoa n) = Some (rp_SourceAllow rp)"
    and "to_port p pt" and "is4 (pk_Src p)"
  shows "eval_rows ip i (port_rows caps pt rp n) now p isNew [] =
    (if matchesAny (rp_SourceDeny rp) (pk_Src p) then (DroppedAt i (Comment (pt_RuleID pt) ''deny''), ip, [])
     else if rp_SourceAllow rp \<noteq> [] \<and> \<not> matchesAny (rp_SourceAllow rp) (pk_Src p)
     then (DroppedAt (i + of_bool (rp_SourceDeny rp \<noteq> [])) (Comment (pt_RuleID pt) ''allow''), ip, [])
     else eval_rows ip (i + of_bool (rp_SourceDeny rp \<noteq> []) + of_bool (rp_SourceAllow rp \<noteq> []))
            (concat (map (step_rows caps pt rp n) [StepPerSourceRate, StepPerSourceConcurrentFlows,
               StepAggregateNewFlowRate, StepAggregatePacketRate])) now p isNew [])"
proof -
  have Nil: "matchesAny [] a = False" for a by (simp add: matchesAny_def)
  have ord: "port_rows caps pt rp n = step_rows caps pt rp n StepSourceDeny @ step_rows caps pt rp n StepSourceAllow
    @ concat (map (step_rows caps pt rp n) [StepPerSourceRate, StepPerSourceConcurrentFlows,
               StepAggregateNewFlowRate, StepAggregatePacketRate])"
    by (simp add: port_rows_def Order_def)
  define R where "R = concat (map (step_rows caps pt rp n) [StepPerSourceRate, StepPerSourceConcurrentFlows,
               StepAggregateNewFlowRate, StepAggregatePacketRate])"
  show ?thesis
    using assms unfolding ord R_def [symmetric]
    by (auto simp: mk_row_def Let_def row_applies_def to_port_def Contains_def eval_stmt_def zeroStmt_def DropKind_def
        Nil not_less)
qed

lemma established_rest:
  assumes "rp_PacketRate rp = None \<or> pt_Proto pt \<noteq> UDP"
  shows "eval_rows ip i (concat (map (step_rows caps pt rp n) [StepPerSourceRate, StepPerSourceConcurrentFlows,
               StepAggregateNewFlowRate, StepAggregatePacketRate])) now p False [] = (Passed, ip, [])"
  by (rule eval_rows_skip) (use assms in \<open>auto simp: row_applies_def mk_row_def Let_def split: option.splits if_splits\<close>)

text \<open>
  The verdict of \<open>Eval\<close> on a packet to the only port it matches, from a state that
  has the interval sets of the program.
\<close>

definition has_intervals :: "Interpreter \<Rightarrow> Program \<Rightarrow> bool" where
  "has_intervals ip prog = (ip_prog ip = prog
     \<and> (\<forall>s \<in> set (prog_Sets prog). set_Kind s = SetInterval \<longrightarrow> ip_interval ip (set_Name s) = Some (set_Elements s)))"

definition sole_port :: "Policy \<Rightarrow> Port list \<Rightarrow> Packet \<Rightarrow> Port \<Rightarrow> RulePolicy \<Rightarrow> bool" where
  "sole_port pol ports p pt rp = (pt \<in> set ports \<and> to_port p pt \<and> (\<forall>q \<in> set ports. to_port p q \<longrightarrow> q = pt)
     \<and> distinct ports \<and> is4 (pk_Src p) \<and> policyByID (pol_Rules pol) (pt_RuleID pt) = Some rp)"

lemma eval_at_port:
  assumes c: "Compile pol ports = Inr prog" and hi: "has_intervals ip prog" and sp: "sole_port pol ports p pt rp"
  shows "\<exists>i k. eval_rows ip 0 (prog_Rows prog) now p isNew []
      = eval_rows ip i (port_rows (pol_PerSourceFlowCaps pol) pt rp k) now p isNew []
    \<and> (rp_SourceDeny rp \<noteq> [] \<longrightarrow> ip_interval ip (''deny_'' @ itoa k) = Some (rp_SourceDeny rp))
    \<and> (rp_SourceAllow rp \<noteq> [] \<longrightarrow> ip_interval ip (''allow_'' @ itoa k) = Some (rp_SourceAllow rp))"
proof -
  let ?pols = "policyByID (pol_Rules pol)" and ?caps = "pol_PerSourceFlowCaps pol"
  let ?N = "numbered ?pols 0 ports"
  have ok: "list_all (port_ok ?pols) ports" using c Compile_Inr_iff by blast
  have "pt \<in> set (map fst ?N)" unfolding numbered_fst using sp by (simp add: sole_port_def)
  then obtain rp' k where "(pt, rp', k) \<in> set ?N" by auto
  with numbered_policy [OF this ok] sp have x: "(pt, rp, k) \<in> set ?N" by (auto simp: sole_port_def)
  then obtain N1 N2 where N: "?N = N1 @ (pt, rp, k) # N2" by (meson split_list)
  have P: "ports = map fst N1 @ pt # map fst N2" using numbered_fst [of ?pols 0 ports] N by simp
  have other: "\<forall>(q, rq, i) \<in> set (N1 @ N2). \<not> to_port p q"
  proof clarify
    fix q rq i assume q: "(q, rq, i) \<in> set (N1 @ N2)" and t: "to_port p q"
    then have "q \<in> set (map fst N1) \<union> set (map fst N2)" by (metis fst_conv image_Un image_eqI set_append set_map)
    moreover have "pt \<notin> set (map fst N1) \<union> set (map fst N2)"
      using sp unfolding P sole_port_def by simp
    moreover have "q \<in> set ports" using calculation(1) unfolding P by auto
    ultimately show False using sp t by (auto simp: sole_port_def)
  qed
  obtain j where j: "eval_rows ip 0 (prog_Rows prog) now p isNew [] = eval_rows ip j (port_rows ?caps pt rp k) now p isNew []"
    using eval_single_port [OF N other Compile_program(1) [OF c]] by metis
  have sub: "s \<in> set (prog_Sets prog)" if "s \<in> set (port_sets ?caps pt rp k)" for s
    using x that unfolding Compile_program(3) [OF c] by blast
  have iv: "ip_interval ip (set_Name s) = Some (set_Elements s)"
    if "s \<in> set (step_sets ?caps pt rp k st)" "st \<in> set Order" "set_Kind s = SetInterval" for s st
    using hi sub [of s] that by (auto simp: has_intervals_def port_sets_def)
  have "ip_interval ip (''deny_'' @ itoa k) = Some (rp_SourceDeny rp)" if "rp_SourceDeny rp \<noteq> []"
    using iv [of "(zeroSet (''deny_'' @ itoa k) SetInterval)\<lparr>set_Elements := rp_SourceDeny rp\<rparr>" StepSourceDeny] that
    by (simp add: Order_def zeroSet_def)
  moreover have "ip_interval ip (''allow_'' @ itoa k) = Some (rp_SourceAllow rp)" if "rp_SourceAllow rp \<noteq> []"
    using iv [of "(zeroSet (''allow_'' @ itoa k) SetInterval)\<lparr>set_Elements := rp_SourceAllow rp\<rparr>" StepSourceAllow] that
    by (simp add: Order_def zeroSet_def)
  ultimately show ?thesis using j by blast
qed

lemma Eval_static_refused:
  assumes "Compile pol ports = Inr prog" and "has_intervals ip prog" and "sole_port pol ports p pt rp"
    and "\<not> SourceAllowed rp (pk_Src p)"
  shows "fst (Eval ip now p) = Inr \<lparr>v_Dropped = True, v_Comment =
    Comment (pt_RuleID pt) (if matchesAny (rp_SourceDeny rp) (pk_Src p) then ''deny'' else ''allow'')\<rparr>"
proof -
  define isNew where "isNew = (ip_conns ip (pk_Flow p) = None)"
  obtain i k where e: "eval_rows ip 0 (prog_Rows prog) now p isNew []
      = eval_rows ip i (port_rows (pol_PerSourceFlowCaps pol) pt rp k) now p isNew []"
    and iv: "rp_SourceDeny rp \<noteq> [] \<Longrightarrow> ip_interval ip (''deny_'' @ itoa k) = Some (rp_SourceDeny rp)"
      "rp_SourceAllow rp \<noteq> [] \<Longrightarrow> ip_interval ip (''allow_'' @ itoa k) = Some (rp_SourceAllow rp)"
    using eval_at_port [OF assms(1-3)] by metis
  have p: "to_port p pt" "is4 (pk_Src p)" using assms(3) by (auto simp: sole_port_def)
  have pr: "ip_prog ip = prog" using assms(2) by (simp add: has_intervals_def)
  show ?thesis
    using assms(4) eval_port_static [OF iv p, of i "pol_PerSourceFlowCaps pol" now isNew]
    by (auto simp: Eval_def pr isNew_def [symmetric] e SourceAllowed_def)
qed

lemma Eval_established:
  assumes "Compile pol ports = Inr prog" and "has_intervals ip prog" and "sole_port pol ports p pt rp"
    and "SourceAllowed rp (pk_Src p)" and "ip_conns ip (pk_Flow p) \<noteq> None" and "rp_PacketRate rp = None"
  shows "fst (Eval ip now p) = Inr \<lparr>v_Dropped = False, v_Comment = []\<rparr>"
proof -
  obtain i k where e: "eval_rows ip 0 (prog_Rows prog) now p False []
      = eval_rows ip i (port_rows (pol_PerSourceFlowCaps pol) pt rp k) now p False []"
    and iv: "rp_SourceDeny rp \<noteq> [] \<Longrightarrow> ip_interval ip (''deny_'' @ itoa k) = Some (rp_SourceDeny rp)"
      "rp_SourceAllow rp \<noteq> [] \<Longrightarrow> ip_interval ip (''allow_'' @ itoa k) = Some (rp_SourceAllow rp)"
    using eval_at_port [OF assms(1-3)] by metis
  have p: "to_port p pt" "is4 (pk_Src p)" using assms(3) by (auto simp: sole_port_def)
  have pr: "ip_prog ip = prog" using assms(2) by (simp add: has_intervals_def)
  have n: "(ip_conns ip (pk_Flow p) = None) = False" using assms(5) by simp
  have "eval_rows ip 0 (prog_Rows prog) now p False [] = (Passed, ip, [])"
    using assms(4) eval_port_static [OF iv p, of i "pol_PerSourceFlowCaps pol" now False,
        unfolded established_rest [OF disjI1 [OF assms(6)]]]
    by (auto simp: e SourceAllowed_def split: if_splits)
  then show ?thesis by (simp add: Eval_def pr n)
qed

end
