(* ===== verification/Engine_Properties.thy ===== *)
theory Engine_Properties
  imports GoEngine Nft_Interp "HOL-Library.Code_Target_Nat"
begin

section \<open>Properties of the two admission engines\<close>

text \<open>
  The theorems about the Go evaluator, the nftables compiler and the interpreter
  of compiled rows, and the agreement of the two engines on the static verdict.
  The definitions below are the inputs of the witnesses: a UDP rule that denies
  \<open>10.0.0.0/8\<close> and caps new flows, an engine that runs it, and its port.
\<close>

definition ten_net :: prefix where "ten_net = \<lparr>p_ip = Addr4 0x0A000000, p_bits = 8\<rparr>"

definition two_per_second :: Rate where "two_per_second = \<lparr>Count = 2, Unit = PerSecond\<rparr>"

definition sample_policy :: RulePolicy where
  "sample_policy = \<lparr>rp_RuleID = ''game'', rp_Proto = UDP, rp_SourceAllow = [], rp_SourceDeny = [ten_net],
     rp_PerSourceRate = None, rp_NewFlowRate = Some two_per_second, rp_PacketRate = None\<rparr>"

definition sample_admission :: Policy where
  "sample_admission = \<lparr>pol_Rules = [sample_policy], pol_PerSourceFlowCaps = \<lparr>cap_UDP = 256, cap_TCP = 128\<rparr>\<rparr>"

definition sample_engine :: Engine where
  "sample_engine = Update Engine_New sample_admission"

definition sample_port :: Port where
  "sample_port = \<lparr>pt_RuleID = ''game'', pt_Proto = UDP, pt_Ports = \<lparr>Lo = 9000, Hi = 9009\<rparr>, pt_Forwarding = Transparent\<rparr>"

lemma sample_engine_reachable: "engine.reachable sample_engine"
  unfolding sample_engine_def
  by (rule engine.advance [OF engine.start [OF refl]]) (rule engine_step.intros)

lemma sample_engine_rule: "en_rules sample_engine ''game'' = Some (buildRuleState sample_policy None)"
  by (simp add: sample_engine_def Update_def Let_def sample_admission_def sample_policy_def live_state_def
      Engine_New_def)

subsection \<open>The Go evaluator\<close>

lemma declared_rules_other:
  "i \<notin> rp_RuleID ` set rps \<Longrightarrow> declared_rules e rps next i = next i"
  by (induction rps arbitrary: "next") auto

lemma declared_rules_mem:
  assumes "rp \<in> set rps" and "distinct (map rp_RuleID rps)"
  shows "declared_rules e rps next (rp_RuleID rp) = Some (buildRuleState rp (live_state e (rp_RuleID rp)))"
  using assms by (induction rps arbitrary: "next") (auto simp: declared_rules_other)

text \<open>C9. Whatever sequence of updates, admissions, packets, releases and drop readings an engine has
  run, the flows it counts for a source are exactly the tickets still held for it, no table of
  sources exceeds its size or lists a source twice, and every bucket, those of the rule and the one of
  each source in its table, holds between zero and five tokens.\<close>

theorem engine_accounting:
  assumes "engine.reachable e"
  shows "flow_count e k = int (count_list (en_tickets e) (k, True))
    \<and> (\<forall>i rs tab. en_rules e i = Some rs \<and> rs_perSource rs = Some tab \<longrightarrow>
         length (st_order tab) \<le> 65535 \<and> distinct (map se_key (st_order tab))
         \<and> (\<forall>en \<in> set (st_order tab). 0 \<le> tb_tokens (se_bucket en) \<and> tb_tokens (se_bucket en) \<le> 5))
    \<and> (\<forall>i rs b. en_rules e i = Some rs \<and> (rs_newFlow rs = Some b \<or> rs_packet rs = Some b) \<longrightarrow>
         0 \<le> tb_tokens b \<and> tb_tokens b \<le> 5)"
proof -
  have inv: "engine_inv e" using engine.reachable_inv [OF assms] .
  then have rules: "rule_inv rs" if "en_rules e i = Some rs" for i rs using that by (auto simp: engine_inv_def)
  have "flow_count e k = int (held e k)" using inv flow_count_held by (auto simp: engine_inv_def)
  moreover have "length (st_order tab) \<le> 65535 \<and> distinct (map se_key (st_order tab))
      \<and> (\<forall>en \<in> set (st_order tab). 0 \<le> tb_tokens (se_bucket en) \<and> tb_tokens (se_bucket en) \<le> 5)"
    if "en_rules e i = Some rs" "rs_perSource rs = Some tab" for i rs tab
    using rules [OF that(1)] that(2) by (auto simp: rule_inv_def table_inv_def bucket_inv_def PerSourceTableSize_def)
  moreover have "0 \<le> tb_tokens b \<and> tb_tokens b \<le> 5"
    if "en_rules e i = Some rs" "rs_newFlow rs = Some b \<or> rs_packet rs = Some b" for i rs b
    using rules [OF that(1)] that(2) by (auto simp: rule_inv_def bucket_inv_def)
  ultimately show ?thesis by (auto simp: held_def)
qed

text \<open>An engine with a rule that limits each source, after one flow of one source was admitted.\<close>

definition busy_engine :: Engine where
  "busy_engine = snd (snd (AdmitFlow (Update Engine_New (sample_admission\<lparr>pol_Rules := [sample_policy\<lparr>rp_PerSourceRate := Some two_per_second\<rparr>]\<rparr>))
     ''game'' (Addr4 1) 100 0))"

lemma busy_engine_reachable: "engine.reachable busy_engine"
proof -
  let ?e = "Update Engine_New (sample_admission\<lparr>pol_Rules := [sample_policy\<lparr>rp_PerSourceRate := Some two_per_second\<rparr>]\<rparr>)"
  have "engine.reachable ?e" by (rule engine.advance [OF engine.start [OF refl]]) (rule engine_step.intros)
  moreover obtain d t where "AdmitFlow ?e ''game'' (Addr4 1) 100 0 = (d, t, busy_engine)" unfolding busy_engine_def by (metis prod.collapse)
  then have "engine_step ?e busy_engine" by (rule engine_step.intros(2))
  ultimately show ?thesis by (rule engine.advance)
qed

theorem engine_accounting_witness:
  "flow_count busy_engine (UDP, Addr4 1) = 1
   \<and> (\<exists>rs tab en. en_rules busy_engine ''game'' = Some rs \<and> rs_perSource rs = Some tab \<and> en \<in> set (st_order tab) \<and> se_key en = Addr4 1
        \<and> 0 \<le> tb_tokens (se_bucket en) \<and> tb_tokens (se_bucket en) \<le> 5)"
proof -
  have t: "en_tickets busy_engine = [((UDP, Addr4 1), True)]" by code_simp
  have s: "map_option (\<lambda>rs. map_option (\<lambda>tab. map se_key (st_order tab)) (rs_perSource rs)) (en_rules busy_engine ''game'') = Some (Some [Addr4 1])" by code_simp
  obtain rs tab en where r: "en_rules busy_engine ''game'' = Some rs" "rs_perSource rs = Some tab" "st_order tab = [en]" "se_key en = Addr4 1" using s by auto
  then show ?thesis using engine_accounting [OF busy_engine_reachable, of "(UDP, Addr4 1)"] t by auto
qed

text \<open>C17. A flow that is admitted passed the source lists, found its source below the cap, and takes
  exactly one slot, held by the ticket that is returned; a flow that is refused leaves every count as
  it was and returns no ticket.\<close>

theorem admit_flow_effect:
  assumes "engine.reachable e" and "en_rules e i = Some rs" and "is4 (unmap src)"
    and "AdmitFlow e i src sz now = (d, t, e')"
  defines "k \<equiv> (rp_Proto (rs_rp rs), unmap src)" and "cap \<equiv> ForProto (en_caps e) (rp_Proto (rs_rp rs))"
  shows "if dec_Allow d
    then SourceAllowed (rs_rp rs) (unmap src) \<and> (cap > 0 \<longrightarrow> flow_count e k < cap)
      \<and> (\<exists>n. t = Some n \<and> en_tickets e' ! n = (k, True) \<and> n < length (en_tickets e'))
      \<and> (\<forall>j. held e' j = held e j + of_bool (j = k))
    else t = None \<and> (\<forall>j. held e' j = held e j)"
proof -
  have inv: "engine_inv e" using engine.reachable_inv [OF assms(1)] .
  then have fi: "flows_inv e" by (simp add: engine_inv_def)
  show ?thesis
  proof (rule AdmitFlow_known [OF inv assms(2-4)])
    fix rs' k'
    assume a: "d = \<lparr>dec_Allow = True, dec_Kind = []\<rparr>" "k' = (rp_Proto (rs_rp rs), unmap src)"
      "t = Some (length (en_tickets e))" "e' = put_rule (add_flow e k') i rs'"
      "0 < ForProto (en_caps e) (rp_Proto (rs_rp rs)) \<Longrightarrow> flow_count e k' < ForProto (en_caps e) (rp_Proto (rs_rp rs))"
      "\<exists>e1 t1. run_steps e rs Order (unmap src) now None = (None, e1, rs', t1)"
    have "SourceAllowed (rs_rp rs) (unmap src)"
      using a(6) by (auto simp: Order_def passLocked_def SourceAllowed_def matchesAny_def split: if_splits)
    moreover have "held e' j = held e j + of_bool (j = k)" for j
      using held_add_flow [of e k j] a(2,4) by (simp add: held_def k_def)
    ultimately show ?thesis using a by (auto simp: k_def cap_def nth_append)
  next
    fix rs' step e1
    assume a: "d = \<lparr>dec_Allow = False, dec_Kind = DropKind step\<rparr>" "t = None"
      "e' = (if DropKind step \<noteq> [] then recordDropLocked e1 i (DropKind step) sz else e1)"
      "\<forall>j. held e1 j = held e j"
    then show ?thesis by (simp add: held_def)
  qed
qed

theorem admit_flow_effect_witness:
  "dec_Allow (fst (AdmitFlow sample_engine ''game'' (Addr4 1) 100 0))
   \<and> held (snd (snd (AdmitFlow sample_engine ''game'' (Addr4 1) 100 0))) (UDP, Addr4 1)
     = held sample_engine (UDP, Addr4 1) + 1"
proof -
  obtain d t e' where r: "AdmitFlow sample_engine ''game'' (Addr4 1) 100 0 = (d, t, e')"
    by (cases "AdmitFlow sample_engine ''game'' (Addr4 1) 100 0")
  have "dec_Allow (fst (AdmitFlow sample_engine ''game'' (Addr4 1) 100 0))" by code_simp
  then have "dec_Allow d" by (simp add: r)
  then show ?thesis
    using admit_flow_effect [OF sample_engine_reachable sample_engine_rule _ r] r
    by (simp add: buildRuleState_def sample_policy_def unmap_def is4_def)
qed

text \<open>A flow that the source lists refuse is dropped with the kind of the first list that refuses
  it, and nothing of the engine changes but the drop counter: no token and no slot is consumed.\<close>

theorem static_refusal_consumes_nothing:
  assumes "en_rules e i = Some rs" and "is4 (unmap src)" and "\<not> SourceAllowed (rs_rp rs) (unmap src)"
  defines "kind \<equiv> (if matchesAny (rp_SourceDeny (rs_rp rs)) (unmap src) then ''deny'' else ''allow'')"
  shows "AdmitFlow e i src sz now = (\<lparr>dec_Allow = False, dec_Kind = kind\<rparr>, None, recordDropLocked e i kind sz)"
  unfolding kind_def by (rule AdmitFlow_static [OF assms(1-3)])

theorem static_refusal_consumes_nothing_witness:
  "AdmitFlow sample_engine ''game'' (Addr4 0x0A000001) 100 0
   = (\<lparr>dec_Allow = False, dec_Kind = ''deny''\<rparr>, None, recordDropLocked sample_engine ''game'' ''deny'' 100)"
proof -
  have m: "matchesAny [ten_net] (Addr4 0x0A000001)" by code_simp
  then show ?thesis
    using static_refusal_consumes_nothing [OF sample_engine_rule, of "Addr4 0x0A000001" 100 0]
    by (simp add: buildRuleState_def sample_policy_def unmap_def is4_def SourceAllowed_def)
qed

text \<open>Releasing a ticket a second time changes nothing, and the first release gives back exactly
  the slot the ticket holds.\<close>

theorem release_once:
  assumes "engine.reachable e"
  shows "Release (Release e t) t = Release e t
    \<and> (\<forall>n k. t = Some n \<and> n < length (en_tickets e) \<and> en_tickets e ! n = (k, True) \<longrightarrow>
         (\<forall>j. flow_count (Release e t) j = flow_count e j - of_bool (j = k)))"
proof
  have fi: "flows_inv e" using engine.reachable_inv [OF assms] by (simp add: engine_inv_def)
  show "Release (Release e t) t = Release e t"
  proof (cases "\<exists>n k. t = Some n \<and> n < length (en_tickets e) \<and> en_tickets e ! n = (k, True)")
    case True
    then obtain n k where n: "t = Some n" "n < length (en_tickets e)" "en_tickets e ! n = (k, True)" by blast
    then have "en_tickets (Release e t) ! n = (k, False)" by (simp add: Release_def drop_ticket_def)
    then show ?thesis using n(1) by (simp add: Release_def)
  next
    case False
    then have "Release e t = e" by (auto simp: Release_def split: option.splits) (metis prod.collapse)
    then show ?thesis by simp
  qed
  show "\<forall>n k. t = Some n \<and> n < length (en_tickets e) \<and> en_tickets e ! n = (k, True) \<longrightarrow>
         (\<forall>j. flow_count (Release e t) j = flow_count e j - of_bool (j = k))"
  proof (intro allI impI, elim conjE)
    fix n k j assume n: "t = Some n" "n < length (en_tickets e)" "en_tickets e ! n = (k, True)"
    then have r: "Release e t = drop_ticket e n" by (simp add: Release_def)
    note d = drop_ticket_flows [OF fi n(2,3)]
    show "flow_count (Release e t) j = flow_count e j - of_bool (j = k)"
      unfolding r flow_count_held [OF d(1)] flow_count_held [OF fi] d(2) using d(3) by (simp add: of_nat_diff)
  qed
qed

definition served_engine :: Engine where
  "served_engine = snd (snd (AdmitFlow sample_engine ''game'' (Addr4 1) 100 0))"

theorem release_once_witness:
  "Release (Release served_engine (Some 0)) (Some 0) = Release served_engine (Some 0)
   \<and> flow_count (Release served_engine (Some 0)) (UDP, Addr4 1) = flow_count served_engine (UDP, Addr4 1) - 1"
proof -
  have "engine.reachable served_engine"
    unfolding served_engine_def
    by (rule engine.advance [OF sample_engine_reachable]) (metis engine_step.intros(2) prod.collapse)
  moreover have "0 < length (en_tickets served_engine) \<and> en_tickets served_engine ! 0 = ((UDP, Addr4 1), True)"
    by code_simp
  ultimately show ?thesis using release_once [of served_engine "Some 0"] by simp
qed

text \<open>An update with a policy that no longer lists a rule keeps the rule for exactly one more
  update, with its old policy and state: new flows that still arrive under its identifier are judged
  as before; the next update that does not list it forgets it, and the engine refuses it. Flow counts
  and tickets survive every update.\<close>

theorem update_retires_once:
  assumes "en_rules e i = Some rs" and "\<not> rs_retired rs"
    and "i \<notin> rp_RuleID ` set (pol_Rules p)" and "i \<notin> rp_RuleID ` set (pol_Rules q)"
  shows "en_rules (Update e p) i = Some (rs\<lparr>rs_retired := True\<rparr>)
    \<and> en_rules (Update (Update e p) q) i = None
    \<and> AdmitFlow (Update (Update e p) q) i src sz now = (GoEngine.refused, None, Update (Update e p) q)
    \<and> en_flows (Update e p) = en_flows e \<and> en_tickets (Update e p) = en_tickets e"
proof -
  have 1: "en_rules (Update e p) i = Some (rs\<lparr>rs_retired := True\<rparr>)"
    using assms(1-3) by (simp add: Update_def Let_def declared_rules_other live_state_def)
  then have 2: "en_rules (Update (Update e p) q) i = None"
    using assms(4) by (simp add: Update_def [of "Update e p"] Let_def declared_rules_other live_state_def)
  have "en_flows (Update e p) = en_flows e" "en_tickets (Update e p) = en_tickets e"
    by (simp_all add: Update_def Let_def)
  with 1 2 show ?thesis by (simp add: AdmitFlow_unknown)
qed

definition no_rules :: Policy where
  "no_rules = \<lparr>pol_Rules = [], pol_PerSourceFlowCaps = \<lparr>cap_UDP = 0, cap_TCP = 0\<rparr>\<rparr>"

theorem update_retires_once_witness:
  "en_rules (Update (Update sample_engine no_rules) no_rules) ''game'' = None"
  using update_retires_once [OF sample_engine_rule, of no_rules no_rules]
  by (simp add: buildRuleState_def no_rules_def)

text \<open>A rule that an update keeps with an unchanged new-flow rate keeps the very bucket it had,
  so the update refills nothing; with a changed rate it starts with a full bucket of the new rate.\<close>

theorem update_keeps_bucket:
  assumes "engine.reachable e" and "en_rules e (rp_RuleID rp) = Some rs" and "\<not> rs_retired rs"
    and "rp \<in> set (pol_Rules p)" and "distinct (map rp_RuleID (pol_Rules p))" and "rp_NewFlowRate rp = Some r"
  shows "map_option rs_newFlow (en_rules (Update e p) (rp_RuleID rp))
    = Some (if rp_NewFlowRate (rs_rp rs) = Some r then rs_newFlow rs else Some (newTokenBucket r))"
proof -
  have "rule_inv rs" using engine.reachable_inv [OF assms(1)] assms(2) by (auto simp: engine_inv_def)
  then have "rp_NewFlowRate (rs_rp rs) = Some r \<Longrightarrow> rs_newFlow rs \<noteq> None" by (auto simp: rule_inv_def)
  with assms(2,3,6) show ?thesis
    by (auto simp: Update_def Let_def declared_rules_mem [OF assms(4,5)] live_state_def buildRuleState_def)
qed

theorem update_keeps_bucket_witness:
  "map_option rs_newFlow (en_rules (Update sample_engine sample_admission) ''game'') = Some (Some (newTokenBucket two_per_second))"
  using update_keeps_bucket [OF sample_engine_reachable, of sample_policy "buildRuleState sample_policy None" sample_admission
      two_per_second] sample_engine_rule
  by (simp add: sample_admission_def sample_policy_def buildRuleState_def)

subsection \<open>Rates\<close>

text \<open>C28. The token bucket of the Go evaluator, with its float64 arithmetic, admits over any sequence
  of requests at non-decreasing times at most the burst of five, plus the elapsed time multiplied by
  the declared rate, up to a relative rounding error of 2^-50 and 2^-49 of a token for each
  request.\<close>

theorem go_bucket_rate:
  assumes "sorted (t # ts)"
  shows "of_nat (admissions bucket_allow (newTokenBucket r) (t # ts))
    \<le> 5 + of_int (last (t # ts) - t) / 1000000000 * (of_nat (unat (Count r)) / unitSeconds (Unit r)) * (1 + 1 / 2 ^ 50)
      + of_nat (length (t # ts)) / 2 ^ 49"
  using assms by (rule new_bucket_admissions)

theorem go_bucket_rate_witness:
  "of_nat (admissions bucket_allow (newTokenBucket two_per_second) [0, 0, 0, 0, 0, 0, 500000000])
   \<le> (5 + 500000000 / 1000000000 * 2 * (1 + 1 / 2 ^ 50) + 7 / 2 ^ 49 :: rat)"
  using go_bucket_rate [of 0 "[0, 0, 0, 0, 0, 500000000]" two_per_second]
  by (simp add: two_per_second_def unitSeconds_def)

text \<open>The integer bucket of the interpreter admits at most the burst of five plus one packet for
  each whole cost of the rate that passed, with no rounding in its favour.\<close>

theorem nft_bucket_rate:
  assumes "newBucket r 5 t = Inr b" and "0 < bk_cost b" and "0 \<le> t"
    and "sorted (t # ts)" and "\<forall>u \<in> set ts. u < 2 ^ 62"
  shows "of_nat (admissions nft_allow b ts) \<le> (5 + of_int (last (t # ts) - t) / of_int (bk_cost b) :: rat)"
proof -
  let ?c = "bk_cost b"
  obtain u where u: "unit_ns (Unit r) = Some u" "?c = go_div u (sint (Count r))" "bk_max b = wrap64 (?c * 5)"
      "bk_tokens b = bk_max b" "bk_last b = t"
    using assms(1) by (auto simp: newBucket_def Let_def split: option.splits if_splits)
  have "0 < u \<and> u \<le> 604800000000000"
    using u(1) by (auto simp: unit_ns_def split: if_splits)
  moreover have "go_div u n \<le> u" if "0 < u" for n :: int
  proof (cases "0 < n")
    case True
    then show ?thesis using that zdiv_mono2 [of u 1 n] by (simp add: go_div_def)
  next
    case False
    then have "0 \<le> \<bar>u\<bar> div \<bar>n\<bar>" by (cases "n = 0") (simp_all add: pos_imp_zdiv_nonneg_iff)
    with False that have "go_div u n \<le> 0" by (simp add: go_div_def sgn_if)
    with that show ?thesis by simp
  qed
  ultimately have "?c \<le> 604800000000000" using u(2) by (metis order_trans)
  then have "wrap64 (?c * 5) = ?c * 5" using assms(2) by (intro wrap64_id) auto
  then have inv: "nft_bucket_inv ?c b" and tok: "bk_tokens b = ?c * 5"
    using u assms(2,3) \<open>?c \<le> 604800000000000\<close> by (auto simp: nft_bucket_inv_def)
  from nft_bucket.admissions_bound [OF inv, of ts] assms(4,5) u(5)
  have "of_nat (admissions nft_allow b ts) \<le> of_int (bk_tokens b) / of_int ?c + 1 / of_int ?c * of_int (last (t # ts) - t)
      + of_nat (length ts) * (0 :: rat)"
    by auto
  then show ?thesis using assms(2) tok by simp
qed

theorem nft_bucket_rate_witness:
  "of_nat (admissions nft_allow \<lparr>bk_cost = 500000000, bk_max = 2500000000, bk_tokens = 2500000000, bk_last = 0\<rparr>
     [0, 0, 0, 0, 0, 0, 500000000]) \<le> (5 + of_int 500000000 / of_int 500000000 :: rat)"
proof -
  have "newBucket two_per_second 5 0 = Inr \<lparr>bk_cost = 500000000, bk_max = 2500000000, bk_tokens = 2500000000, bk_last = 0\<rparr>"
    by code_simp
  from nft_bucket_rate [OF this, of "[0, 0, 0, 0, 0, 0, 500000000]"] show ?thesis by simp
qed

subsection \<open>The compiler\<close>

text \<open>Compilation succeeds exactly when every port has a policy of its own protocol and a known
  forwarding; the rows are then the rows of the ports in the order of the ports, within a port in the
  order of the steps, and every row matches IPv4 packets of its port only and carries the comment of
  its rule and drop kind.\<close>

theorem compile_rows:
  "(is_ok (Compile pol ports) \<longleftrightarrow> list_all (port_ok (policyByID (pol_Rules pol))) ports)
   \<and> (\<forall>prog. Compile pol ports = Inr prog \<longrightarrow>
        prog_Rows prog = concat (map (\<lambda>(pt, rp, n). concat (map (step_rows (pol_PerSourceFlowCaps pol) pt rp n) Order))
                            (numbered (policyByID (pol_Rules pol)) 0 ports))
        \<and> (\<forall>r \<in> set (prog_Rows prog). \<exists>pt \<in> set ports. ma_IPv4 (row_Match r) \<and> ma_Proto (row_Match r) = pt_Proto pt
             \<and> ma_Ports (row_Match r) = pt_Ports pt \<and> row_Comment r = Comment (pt_RuleID pt) (row_Kind r)))"
proof -
  have ports: "pt \<in> set ports" if "(pt, rp, n) \<in> set (numbered pols k ports)" for pt rp n pols k
    using that by (induction ports arbitrary: k) auto
  have "\<exists>pt \<in> set ports. ma_IPv4 (row_Match r) \<and> ma_Proto (row_Match r) = pt_Proto pt
      \<and> ma_Ports (row_Match r) = pt_Ports pt \<and> row_Comment r = Comment (pt_RuleID pt) (row_Kind r)"
    if prog: "Compile pol ports = Inr prog" and r: "r \<in> set (prog_Rows prog)" for prog r
  proof -
    obtain pt rp n where "(pt, rp, n) \<in> set (numbered (policyByID (pol_Rules pol)) 0 ports)"
      "r \<in> set (port_rows (pol_PerSourceFlowCaps pol) pt rp n)"
      using r unfolding Compile_program(1) [OF prog] by fastforce
    then show ?thesis using ports port_rows_match by blast
  qed
  moreover have "is_ok (Compile pol ports) \<longleftrightarrow> (\<exists>prog. Compile pol ports = Inr prog)"
    by (cases "Compile pol ports") auto
  ultimately show ?thesis
    using Compile_Inr_iff Compile_program(1) by (simp add: port_rows_def)
qed

theorem compile_rows_witness: "is_ok (Compile sample_admission [sample_port])"
  using compile_rows [of sample_admission "[sample_port]"]
  by (simp add: port_ok_def sample_port_def sample_admission_def sample_policy_def policyByID_def)

text \<open>Every compiled program loads: each row refers to a declared set of the right kind, sets
  that share a name are the same set, and each aggregate limit makes a bucket.\<close>

theorem compiled_program_valid:
  assumes "Compile pol ports = Inr prog"
    and "\<forall>rp \<in> set (pol_Rules pol). policy_rates_ok rp"
  shows "is_ok (Interp_New prog) \<and> distinct (map set_Name (prog_Sets prog))"
proof -
  have ok: "list_all (port_ok (policyByID (pol_Rules pol))) ports"
    using assms(1) Compile_Inr_iff by blast
  have rates: "\<forall>(pt, rp, n) \<in> set (numbered (policyByID (pol_Rules pol)) 0 ports). policy_rates_ok rp"
    using assms(2) numbered_policy [OF _ ok] policyByID_mem by fastforce
  show ?thesis
    using compiled_program_loads [OF assms(1) rates] Compile_program(2) [OF assms(1)] by auto
qed

theorem compiled_program_valid_witness: "\<exists>prog. Compile sample_admission [sample_port] = Inr prog \<and> is_ok (Interp_New prog)"
proof -
  have "is_ok (Compile sample_admission [sample_port])" by code_simp
  then obtain prog where prog: "Compile sample_admission [sample_port] = Inr prog"
    by (cases "Compile sample_admission [sample_port]") auto
  have "\<forall>rp \<in> set (pol_Rules sample_admission). policy_rates_ok rp"
    by (simp add: sample_admission_def sample_policy_def policy_rates_ok_def two_per_second_def rate_ok_def rate_units_def)
  from compiled_program_valid [OF prog this] prog show ?thesis by blast
qed

subsection \<open>The two engines agree\<close>

text \<open>C16. On a packet to a port of its own, the compiled rows and the Go evaluator give the same
  static verdict from the same policy. A new flow whose source the lists refuse is dropped by both
  with the same kind. A packet of an established flow of a rule without a packet rate is dropped by
  the rows exactly when the evaluator no longer keeps the flow's source.\<close>

theorem engines_agree_static:
  assumes "Compile pol ports = Inr prog" and "\<forall>rp \<in> set (pol_Rules pol). policy_rates_ok rp"
    and "sole_port pol ports p pt rp"
    and "en_rules e (pt_RuleID pt) = Some rs" and "rs_rp rs = rp"
  shows "\<exists>ip. Interp_New prog = Inr ip
    \<and> (\<not> SourceAllowed rp (pk_Src p) \<longrightarrow>
        (\<exists>kind. fst (Eval ip now p) = Inr \<lparr>v_Dropped = True, v_Comment = Comment (pt_RuleID pt) kind\<rparr>
           \<and> fst (AdmitFlow e (pt_RuleID pt) (pk_Src p) sz now') = \<lparr>dec_Allow = False, dec_Kind = kind\<rparr>))
    \<and> (rp_PacketRate rp = None \<longrightarrow>
        (\<forall>c. fst (Eval (ip\<lparr>ip_conns := [pk_Flow p \<mapsto> c]\<rparr>) now p) = Inr \<lparr>v_Dropped = False, v_Comment = []\<rparr>
           \<longleftrightarrow> Engine_SourceAllowed e (pt_RuleID pt) (pk_Src p)))"
proof -
  let ?pols = "policyByID (pol_Rules pol)"
  have ok: "list_all (port_ok ?pols) ports" using assms(1) Compile_Inr_iff by blast
  have rates: "\<forall>(pt, rp, n) \<in> set (numbered ?pols 0 ports). policy_rates_ok rp"
    using assms(2) numbered_policy [OF _ ok] policyByID_mem by fastforce
  obtain ip where ip: "Interp_New prog = Inr ip" "has_intervals ip prog"
    using compiled_program_loads [OF assms(1) rates] by (auto simp: has_intervals_def)
  have src: "unmap (pk_Src p) = pk_Src p" "is4 (pk_Src p)"
    using assms(3) by (auto simp: sole_port_def unmap_def is4_def split: addr.splits)
  have "\<exists>kind. fst (Eval ip now p) = Inr \<lparr>v_Dropped = True, v_Comment = Comment (pt_RuleID pt) kind\<rparr>
      \<and> fst (AdmitFlow e (pt_RuleID pt) (pk_Src p) sz now') = \<lparr>dec_Allow = False, dec_Kind = kind\<rparr>"
    if "\<not> SourceAllowed rp (pk_Src p)"
    using Eval_static_refused [OF assms(1) ip(2) assms(3) that] AdmitFlow_static [OF assms(4), of "pk_Src p"] that src
    by (simp add: assms(5))
  moreover have "fst (Eval (ip\<lparr>ip_conns := [pk_Flow p \<mapsto> c]\<rparr>) now p) = Inr \<lparr>v_Dropped = False, v_Comment = []\<rparr>
      \<longleftrightarrow> Engine_SourceAllowed e (pt_RuleID pt) (pk_Src p)" if "rp_PacketRate rp = None" for c
  proof -
    let ?ip = "ip\<lparr>ip_conns := [pk_Flow p \<mapsto> c]\<rparr>"
    have hi: "has_intervals ?ip prog" using ip(2) by (simp add: has_intervals_def)
    have "Engine_SourceAllowed e (pt_RuleID pt) (pk_Src p) \<longleftrightarrow> SourceAllowed rp (pk_Src p)"
      using assms(4,5) src by (simp add: Engine_SourceAllowed_def Let_def)
    then show ?thesis
      using Eval_static_refused [OF assms(1) hi assms(3)] Eval_established [OF assms(1) hi assms(3)] that
      by (cases "SourceAllowed rp (pk_Src p)") simp_all
  qed
  ultimately show ?thesis using ip(1) by blast
qed

definition sample_packet :: Packet where
  "sample_packet = \<lparr>pk_Proto = UDP, pk_DstPort = 9003, pk_Src = Addr4 0x0A000001, pk_Flow = ''f1''\<rparr>"

theorem engines_agree_static_witness:
  "\<exists>ip prog kind. Compile sample_admission [sample_port] = Inr prog \<and> Interp_New prog = Inr ip
     \<and> fst (Eval ip 0 sample_packet) = Inr \<lparr>v_Dropped = True, v_Comment = Comment ''game'' kind\<rparr>
     \<and> fst (AdmitFlow sample_engine ''game'' (Addr4 0x0A000001) 100 0) = \<lparr>dec_Allow = False, dec_Kind = kind\<rparr>"
proof -
  have "is_ok (Compile sample_admission [sample_port])" by code_simp
  then obtain prog where prog: "Compile sample_admission [sample_port] = Inr prog"
    by (cases "Compile sample_admission [sample_port]") auto
  have rates: "\<forall>rp \<in> set (pol_Rules sample_admission). policy_rates_ok rp"
    by (simp add: sample_admission_def sample_policy_def policy_rates_ok_def two_per_second_def rate_ok_def rate_units_def)
  have sole: "sole_port sample_admission [sample_port] sample_packet sample_port sample_policy"
    by (simp add: sole_port_def to_port_def sample_port_def sample_packet_def Contains_def is4_def sample_admission_def
        policyByID_def sample_policy_def)
  have id: "pt_RuleID sample_port = ''game''" by (simp add: sample_port_def)
  have den: "\<not> SourceAllowed sample_policy (pk_Src sample_packet)" by code_simp
  have src: "pk_Src sample_packet = Addr4 0x0A000001" by (simp add: sample_packet_def)
  have rp: "rs_rp (buildRuleState sample_policy None) = sample_policy" by (simp add: buildRuleState_def)
  from engines_agree_static [OF prog rates sole, unfolded id, OF sample_engine_rule rp, of 0 100 0] den prog
  show ?thesis unfolding src by blast
qed

end
