(* ===== verification/Resource_Pool.thy ===== *)
theory Resource_Pool
  imports GoLib Interfaces
begin

section \<open>The flow budget (internal/resource)\<close>

text \<open>
  The Resource Guard of one protocol: a pool of flow slots, the listeners that take
  them, the registrations of rules that the slots are counted for, and the leases.
  The Go code links these by pointers and shares them, so the model has a store for
  each kind of object: a pool holds the objects by address, and a pointer is an
  address. Registrations are numbered from one as the code numbers them, and the
  address zero is the nil registration. Every exported method runs under the pool's
  mutex and is one operation here. A Go map used as a set of pointers is a list
  without repetitions; the table of registrations is an association list.

  Flow counts are Go's \<open>int\<close>, written as unbounded integers: a budget is at most
  65535. The counters that only grow are 64-bit words.
\<close>

subsection \<open>Budgets (resource.go)\<close>

definition UDPTotal :: int where "UDPTotal = 8192"
definition TCPTotal :: int where "TCPTotal = 2048"

record Limits =
  lim_UDPTotal :: int
  lim_TCPTotal :: int

definition Limits_WithDefaults :: "Limits \<Rightarrow> Limits" where
  "Limits_WithDefaults l =
     (let l = (if lim_UDPTotal l \<le> 0 then l\<lparr>lim_UDPTotal := UDPTotal\<rparr> else l)
      in if lim_TCPTotal l \<le> 0 then l\<lparr>lim_TCPTotal := TCPTotal\<rparr> else l)"

definition MemoryLimit :: "Limits \<Rightarrow> int" where
  "MemoryLimit l0 =
     (let l = Limits_WithDefaults l0
      in 32 * 2 ^ 20 + lim_UDPTotal l * (12 * 2 ^ 10) + lim_TCPTotal l * (44 * 2 ^ 10))"

subsection \<open>Objects (pool.go, lease.go)\<close>

type_synonym Reason = string

definition ReasonBudget :: Reason where "ReasonBudget = ''budget''"
definition ReasonRuleCap :: Reason where "ReasonRuleCap = ''rule_cap''"
definition ReasonReserve :: Reason where "ReasonReserve = ''reserve''"
definition ReasonFloor :: Reason where "ReasonFloor = ''floor''"
definition ReasonSpare :: Reason where "ReasonSpare = ''spare''"

definition FlowFloor :: int where "FlowFloor = 4"

datatype Outcome = Granted | Refused | NotAccepting | OutcomeOther int

definition Outcome_String :: "Outcome \<Rightarrow> string" where
  "Outcome_String out =
     (case out of
        Granted \<Rightarrow> ''granted''
      | Refused \<Rightarrow> ''refused''
      | NotAccepting \<Rightarrow> ''not accepting''
      | OutcomeOther n \<Rightarrow> ''outcome('' @ itoa_int n @ '')'')"

record registration =
  rg_serial :: nat
  rg_rule :: string
  rg_members :: int
  rg_retired :: bool
  rg_count :: int
  rg_carried :: int
  rg_cells :: "nat list"

record cell =
  ce_l :: nat
  ce_reg :: nat
  ce_n :: int

record Lease =
  ls_l :: nat
  ls_c :: nat
  ls_done :: bool

record Listener =
  li_rule :: string
  li_accepting :: bool
  li_open :: bool
  li_counted :: bool
  li_flows :: int
  li_reg :: nat
  li_cells :: "nat list"
  li_cur :: "nat option"

record Pool =
  po_total :: int
  po_ruleCap :: int
  po_inUse :: int
  po_regs :: "(string \<times> nat) list"
  po_retired :: "nat list"
  po_minimum :: int
  po_unfilled :: int
  po_floorShort :: int
  po_unfilledRegs :: int
  po_floorShortRegs :: int
  po_refusals :: "string \<Rightarrow> (Reason \<rightharpoonup> uint64) option"
  po_notAccepting :: uint64
  po_doubleReleases :: uint64
  po_regSerial :: nat
  po_reg :: "nat \<Rightarrow> registration"
  po_li :: "nat \<Rightarrow> Listener"
  po_nl :: nat
  po_cell :: "nat \<Rightarrow> cell"
  po_nc :: nat
  po_lease :: "nat \<Rightarrow> Lease"
  po_nx :: nat

text \<open>The objects with every field zero, which fill the addresses not yet in use.\<close>

definition zeroReg :: registration where
  "zeroReg = \<lparr>rg_serial = 0, rg_rule = [], rg_members = 0, rg_retired = False, rg_count = 0, rg_carried = 0, rg_cells = []\<rparr>"

definition zeroListener :: Listener where
  "zeroListener = \<lparr>li_rule = [], li_accepting = False, li_open = False, li_counted = False, li_flows = 0, li_reg = 0,
     li_cells = [], li_cur = None\<rparr>"

definition ruleCapFor :: "int \<Rightarrow> int" where
  "ruleCapFor T = (if T \<le> 0 then 0 else go_div (T + 1) 2)"

definition minimumFor :: "int \<Rightarrow> nat \<Rightarrow> int" where
  "minimumFor T rules =
     (if rules < 2 then FlowFloor
      else max FlowFloor (go_div (go_div (T - FlowFloor) 2) (int rules - 1)))"

definition NewPool :: "int \<Rightarrow> Pool" where
  "NewPool T =
     \<lparr>po_total = T, po_ruleCap = ruleCapFor T, po_inUse = 0, po_regs = [], po_retired = [],
      po_minimum = minimumFor T 0, po_unfilled = 0, po_floorShort = 0, po_unfilledRegs = 0, po_floorShortRegs = 0,
      po_refusals = Map.empty, po_notAccepting = 0, po_doubleReleases = 0, po_regSerial = 0,
      po_reg = (\<lambda>_. zeroReg), po_li = (\<lambda>_. zeroListener), po_nl = 0,
      po_cell = (\<lambda>_. \<lparr>ce_l = 0, ce_reg = 0, ce_n = 0\<rparr>), po_nc = 0,
      po_lease = (\<lambda>_. \<lparr>ls_l = 0, ls_c = 0, ls_done = False\<rparr>), po_nx = 0\<rparr>"

text \<open>Writing through a pointer.\<close>

definition upd_reg :: "nat \<Rightarrow> (registration \<Rightarrow> registration) \<Rightarrow> Pool \<Rightarrow> Pool" where
  "upd_reg g f p = p\<lparr>po_reg := (po_reg p)(g := f (po_reg p g))\<rparr>"

definition upd_li :: "nat \<Rightarrow> (Listener \<Rightarrow> Listener) \<Rightarrow> Pool \<Rightarrow> Pool" where
  "upd_li l f p = p\<lparr>po_li := (po_li p)(l := f (po_li p l))\<rparr>"

definition upd_cell :: "nat \<Rightarrow> (cell \<Rightarrow> cell) \<Rightarrow> Pool \<Rightarrow> Pool" where
  "upd_cell c f p = p\<lparr>po_cell := (po_cell p)(c := f (po_cell p c))\<rparr>"

subsection \<open>Counts of registrations\<close>

definition termsLocked :: "Pool \<Rightarrow> nat \<Rightarrow> int \<Rightarrow> Pool" where
  "termsLocked p g sign =
     (if rg_retired (po_reg p g) then p
      else
        let d = po_minimum p - rg_count (po_reg p g);
            p = (if d > 0 then p\<lparr>po_unfilled := po_unfilled p + sign * d, po_unfilledRegs := po_unfilledRegs p + sign\<rparr>
                 else p);
            d = FlowFloor - rg_count (po_reg p g)
        in if d > 0 then p\<lparr>po_floorShort := po_floorShort p + sign * d, po_floorShortRegs := po_floorShortRegs p + sign\<rparr>
           else p)"

definition addCountLocked :: "Pool \<Rightarrow> nat \<Rightarrow> int \<Rightarrow> Pool" where
  "addCountLocked p g delta =
     (let p = termsLocked p g (-1);
          p = upd_reg g (\<lambda>r. r\<lparr>rg_count := rg_count r + delta\<rparr>) p;
          p = termsLocked p g 1
      in if rg_retired (po_reg p g) \<and> rg_count (po_reg p g) = 0 then p\<lparr>po_retired := removeAll g (po_retired p)\<rparr> else p)"

definition refreshLocked :: "Pool \<Rightarrow> Pool" where
  "refreshLocked p =
     fold (\<lambda>(r, g) p. termsLocked p g 1) (po_regs p)
       (p\<lparr>po_minimum := minimumFor (po_total p) (length (po_regs p)), po_unfilled := 0, po_floorShort := 0,
          po_unfilledRegs := 0, po_floorShortRegs := 0\<rparr>)"

definition moveCellLocked :: "Pool \<Rightarrow> nat \<Rightarrow> nat \<Rightarrow> Pool" where
  "moveCellLocked p c to =
     (let from = ce_reg (po_cell p c);
          n = ce_n (po_cell p c);
          p = upd_reg from (\<lambda>r. r\<lparr>rg_cells := removeAll c (rg_cells r)\<rparr>) p;
          p = addCountLocked p from (- n);
          p = upd_cell c (\<lambda>x. x\<lparr>ce_reg := to\<rparr>) p;
          p = upd_reg to (\<lambda>r. r\<lparr>rg_cells := List.insert c (rg_cells r)\<rparr>) p
      in addCountLocked p to n)"

subsection \<open>Joining and leaving a registration\<close>

fun attach_moves :: "Pool \<Rightarrow> nat \<Rightarrow> nat list \<Rightarrow> Pool" where
  "attach_moves p g [] = p"
| "attach_moves p g (c # cs) =
     attach_moves (if rg_retired (po_reg p (ce_reg (po_cell p c))) then moveCellLocked p c g else p) g cs"

definition attachLocked :: "Pool \<Rightarrow> nat \<Rightarrow> Pool" where
  "attachLocked p l =
     (if li_counted (po_li p l) \<or> \<not> li_open (po_li p l) \<or> \<not> li_accepting (po_li p l) then p
      else
        let rule = li_rule (po_li p l);
            (g, p) = (case map_of (po_regs p) rule of
                        Some g \<Rightarrow> (g, p)
                      | None \<Rightarrow>
                          let g = po_regSerial p + 1;
                              p = p\<lparr>po_regSerial := g,
                                    po_reg := (po_reg p)(g := zeroReg\<lparr>rg_serial := g, rg_rule := rule\<rparr>),
                                    po_regs := po_regs p @ [(rule, g)]\<rparr>
                          in (g, refreshLocked p));
            p = upd_reg g (\<lambda>r. r\<lparr>rg_members := rg_members r + 1, rg_carried := rg_carried r + li_flows (po_li p l)\<rparr>) p;
            p = upd_li l (\<lambda>x. x\<lparr>li_reg := g, li_counted := True\<rparr>) p
        in attach_moves p g (li_cells (po_li p l)))"

fun detach_moves :: "Pool \<Rightarrow> nat list \<Rightarrow> Pool" where
  "detach_moves p [] = p"
| "detach_moves p (c # cs) =
     detach_moves (let x = po_li p (ce_l (po_cell p c))
                   in if li_counted x then moveCellLocked p c (li_reg x) else p) cs"

definition detachLocked :: "Pool \<Rightarrow> nat \<Rightarrow> Pool" where
  "detachLocked p l =
     (if \<not> li_counted (po_li p l) then p
      else
        let g = li_reg (po_li p l);
            p = upd_reg g (\<lambda>r. r\<lparr>rg_members := rg_members r - 1, rg_carried := rg_carried r - li_flows (po_li p l)\<rparr>) p;
            p = upd_li l (\<lambda>x. x\<lparr>li_reg := 0, li_counted := False\<rparr>) p
        in if rg_members (po_reg p g) > 0 then p
           else
             let p = upd_reg g (\<lambda>r. r\<lparr>rg_retired := True\<rparr>) p;
                 p = refreshLocked (p\<lparr>po_regs := filter (\<lambda>(r, _). r \<noteq> rg_rule (po_reg p g)) (po_regs p)\<rparr>);
                 p = (if rg_count (po_reg p g) > 0 then p\<lparr>po_retired := List.insert g (po_retired p)\<rparr> else p)
             in detach_moves p (rg_cells (po_reg p g)))"

subsection \<open>Operations of listeners\<close>

text \<open>\<open>Pool.listener\<close>: the address of the new listener and the pool.\<close>

definition new_listener :: "Pool \<Rightarrow> string \<Rightarrow> bool \<Rightarrow> nat \<times> Pool" where
  "new_listener p ruleID accepting =
     (let l = po_nl p;
          p = p\<lparr>po_nl := l + 1,
                po_li := (po_li p)(l := zeroListener\<lparr>li_rule := ruleID, li_accepting := accepting, li_open := True\<rparr>)\<rparr>
      in (l, attachLocked p l))"

definition Pool_Listener :: "Pool \<Rightarrow> string \<Rightarrow> nat \<times> Pool" where
  "Pool_Listener p ruleID = new_listener p ruleID True"

definition PendingListener :: "Pool \<Rightarrow> string \<Rightarrow> nat \<times> Pool" where
  "PendingListener p ruleID = new_listener p ruleID False"

definition SetRule :: "Pool \<Rightarrow> nat \<Rightarrow> string \<Rightarrow> Pool" where
  "SetRule p l ruleID =
     (if li_rule (po_li p l) = ruleID then p
      else attachLocked (upd_li l (\<lambda>x. x\<lparr>li_rule := ruleID\<rparr>) (detachLocked p l)) l)"

definition StopAccepting :: "Pool \<Rightarrow> nat \<Rightarrow> Pool" where
  "StopAccepting p l = detachLocked (upd_li l (\<lambda>x. x\<lparr>li_accepting := False\<rparr>) p) l"

definition Accept :: "Pool \<Rightarrow> nat \<Rightarrow> Pool" where
  "Accept p l = attachLocked (upd_li l (\<lambda>x. x\<lparr>li_accepting := True\<rparr>) p) l"

definition Close :: "Pool \<Rightarrow> nat \<Rightarrow> Pool" where
  "Close p l =
     (if \<not> li_open (po_li p l) then p
      else detachLocked (upd_li l (\<lambda>x. x\<lparr>li_open := False\<rparr>) p) l)"

subsection \<open>Taking and releasing a slot\<close>

text \<open>\<open>judgeLocked\<close>: the empty reason admits.\<close>

definition judgeLocked :: "Pool \<Rightarrow> nat \<Rightarrow> Reason \<times> int" where
  "judgeLocked p g =
     (let u = po_inUse p; T = po_total p; r = po_reg p g in
      if u \<ge> T then (ReasonBudget, 0)
      else if length (po_regs p) \<ge> 2 \<and> rg_carried r \<ge> po_ruleCap p then (ReasonRuleCap, rg_carried r)
      else if rg_count r < FlowFloor then ([], 0)
      else
        let x = max (rg_count r) (rg_carried r) in
        if x < po_minimum p then
          (if u + 1 + po_floorShort p + FlowFloor \<le> T then ([], 0) else (ReasonFloor, x))
        else if u + 1 + po_unfilled p + FlowFloor \<le> T then ([], 0)
        else if u + 1 + po_unfilled p > T then (ReasonReserve, x)
        else (ReasonSpare, x))"

record Refusal =
  rf_Reason :: Reason
  rf_RuleID :: string
  rf_InUse :: int
  rf_Total :: int
  rf_RuleFlows :: int
  rf_RuleCap :: int
  rf_Minimum :: int
  rf_Spare :: int
  rf_Unfilled :: int
  rf_UnfilledRules :: int
  rf_UnfilledSelf :: bool
  rf_FloorShort :: int
  rf_FloorShortRules :: int
  rf_OtherRules :: int

definition zeroRefusal :: Refusal where
  "zeroRefusal = \<lparr>rf_Reason = [], rf_RuleID = [], rf_InUse = 0, rf_Total = 0, rf_RuleFlows = 0, rf_RuleCap = 0,
     rf_Minimum = 0, rf_Spare = 0, rf_Unfilled = 0, rf_UnfilledRules = 0, rf_UnfilledSelf = False, rf_FloorShort = 0,
     rf_FloorShortRules = 0, rf_OtherRules = 0\<rparr>"

definition refuseLocked :: "Pool \<Rightarrow> Reason \<Rightarrow> nat \<Rightarrow> int \<Rightarrow> Refusal \<times> Pool" where
  "refuseLocked p reason l flows =
     (let rule = li_rule (po_li p l);
          byReason = (case po_refusals p rule of None \<Rightarrow> Map.empty | Some m \<Rightarrow> m);
          n = (case byReason reason of None \<Rightarrow> 0 | Some n \<Rightarrow> n)
      in (\<lparr>rf_Reason = reason, rf_RuleID = rule, rf_InUse = po_inUse p, rf_Total = po_total p, rf_RuleFlows = flows,
           rf_RuleCap = po_ruleCap p, rf_Minimum = po_minimum p, rf_Spare = FlowFloor, rf_Unfilled = po_unfilled p,
           rf_UnfilledRules = po_unfilledRegs p,
           rf_UnfilledSelf = (rg_count (po_reg p (li_reg (po_li p l))) < po_minimum p),
           rf_FloorShort = po_floorShort p, rf_FloorShortRules = po_floorShortRegs p,
           rf_OtherRules = int (length (po_regs p)) - 1\<rparr>,
          p\<lparr>po_refusals := (po_refusals p)(rule \<mapsto> byReason(reason \<mapsto> n + 1))\<rparr>))"

definition cellFor :: "Pool \<Rightarrow> nat \<Rightarrow> nat \<times> Pool" where
  "cellFor p l =
     (let x = po_li p l;
          fresh = (let c = po_nc p in
             (c, upd_li l (\<lambda>x. x\<lparr>li_cells := List.insert c (li_cells x), li_cur := Some c\<rparr>)
                  (upd_reg (li_reg x) (\<lambda>r. r\<lparr>rg_cells := List.insert c (rg_cells r)\<rparr>)
                    (p\<lparr>po_nc := c + 1, po_cell := (po_cell p)(c := \<lparr>ce_l = l, ce_reg = li_reg x, ce_n = 0\<rparr>)\<rparr>))))
      in case li_cur x of
           Some c \<Rightarrow> (if ce_reg (po_cell p c) = li_reg x then (c, p) else fresh)
         | None \<Rightarrow> fresh)"

text \<open>The slot that a granted \<open>Take\<close> counts, and the lease it returns.\<close>

definition grant :: "Pool \<Rightarrow> nat \<Rightarrow> nat \<times> Pool" where
  "grant p l =
     (let g = li_reg (po_li p l);
          p = p\<lparr>po_inUse := po_inUse p + 1\<rparr>;
          p = upd_li l (\<lambda>x. x\<lparr>li_flows := li_flows x + 1\<rparr>) p;
          p = upd_reg g (\<lambda>r. r\<lparr>rg_carried := rg_carried r + 1\<rparr>) p;
          (c, p) = cellFor p l;
          p = upd_cell c (\<lambda>x. x\<lparr>ce_n := ce_n x + 1\<rparr>) p;
          p = addCountLocked p g 1;
          x = po_nx p
      in (x, p\<lparr>po_nx := x + 1, po_lease := (po_lease p)(x := \<lparr>ls_l = l, ls_c = c, ls_done = False\<rparr>)\<rparr>))"

definition Take :: "Pool \<Rightarrow> nat \<Rightarrow> (nat option \<times> Refusal \<times> Outcome) \<times> Pool" where
  "Take p l =
     (if \<not> li_counted (po_li p l) then ((None, zeroRefusal, NotAccepting), p\<lparr>po_notAccepting := po_notAccepting p + 1\<rparr>)
      else
        let g = li_reg (po_li p l);
            (reason, flows) = (if po_total p > 0 then judgeLocked p g else ([], 0))
        in if reason \<noteq> [] then (let (r, p) = refuseLocked p reason l flows in ((None, r, Refused), p))
           else (let (x, p) = grant p l in ((Some x, zeroRefusal, Granted), p)))"

definition Lease_Release :: "Pool \<Rightarrow> nat \<Rightarrow> bool \<times> Pool" where
  "Lease_Release p x =
     (if ls_done (po_lease p x) then (False, p\<lparr>po_doubleReleases := po_doubleReleases p + 1\<rparr>)
      else
        let l = ls_l (po_lease p x);
            c = ls_c (po_lease p x);
            p = p\<lparr>po_lease := (po_lease p)(x := (po_lease p x)\<lparr>ls_done := True\<rparr>), po_inUse := po_inUse p - 1\<rparr>;
            p = upd_li l (\<lambda>x. x\<lparr>li_flows := li_flows x - 1\<rparr>) p;
            p = (if li_counted (po_li p l) then upd_reg (li_reg (po_li p l)) (\<lambda>r. r\<lparr>rg_carried := rg_carried r - 1\<rparr>) p else p);
            p = upd_cell c (\<lambda>x. x\<lparr>ce_n := ce_n x - 1\<rparr>) p;
            p = (if ce_n (po_cell p c) = 0
                 then upd_li l (\<lambda>x. x\<lparr>li_cells := removeAll c (li_cells x),
                                     li_cur := (if li_cur x = Some c then None else li_cur x)\<rparr>)
                        (upd_reg (ce_reg (po_cell p c)) (\<lambda>r. r\<lparr>rg_cells := removeAll c (rg_cells r)\<rparr>) p)
                 else p)
        in (True, addCountLocked p (ce_reg (po_cell p c)) (-1)))"

subsection \<open>Readings\<close>

definition Pool_Rules :: "Pool \<Rightarrow> nat" where "Pool_Rules p = length (po_regs p)"

definition Reserve :: "Pool \<Rightarrow> int" where "Reserve p = po_minimum p"

definition InUse :: "Pool \<Rightarrow> int" where "InUse p = po_inUse p"

definition RuleFlows :: "Pool \<Rightarrow> string \<Rightarrow> int" where
  "RuleFlows p ruleID = (case map_of (po_regs p) ruleID of Some g \<Rightarrow> rg_carried (po_reg p g) | None \<Rightarrow> 0)"

definition Flows :: "Pool \<Rightarrow> nat \<Rightarrow> int" where "Flows p l = li_flows (po_li p l)"

definition otherRules :: "int \<Rightarrow> string" where
  "otherRules n = (if n = 1 then ''1 other rule'' else itoa_int n @ '' other rules'')"

definition unfilledOwners :: "Refusal \<Rightarrow> string" where
  "unfilledOwners r =
     (if \<not> rf_UnfilledSelf r then otherRules (rf_UnfilledRules r)
      else if rf_UnfilledRules r \<le> 1 then ''this rule''
      else ''this rule and '' @ otherRules (rf_UnfilledRules r - 1))"

definition Refusal_String :: "Refusal \<Rightarrow> string" where
  "Refusal_String r =
     (let free = itoa_int (rf_Total r - rf_InUse r);
          holds = ''rule '' @ rf_RuleID r @ '' holds '' @ itoa_int (rf_RuleFlows r) @ '' flows'';
          part = '' and the free part of the budget, '' @ free @ '' of '' @ itoa_int (rf_Total r) @ '', '';
          later = ''for a rule added later''
      in if rf_Reason r = ReasonBudget
         then ''flow budget full: '' @ itoa_int (rf_InUse r) @ '' of '' @ itoa_int (rf_Total r) @ '' in use in this process''
         else if rf_Reason r = ReasonRuleCap
         then holds @ '' and the rest of the budget is reserved for '' @ otherRules (rf_OtherRules r)
         else if rf_Reason r = ReasonReserve
         then holds @ '', at or above its minimum of '' @ itoa_int (rf_Minimum r) @ '','' @ part
              @ ''is held for the unfilled minimums of '' @ unfilledOwners r @ '', '' @ itoa_int (rf_Unfilled r) @ '' flows''
         else if rf_Reason r = ReasonSpare
         then (if rf_Unfilled r = 0 then holds @ part @ ''is kept spare '' @ later
               else holds @ '', at or above its minimum of '' @ itoa_int (rf_Minimum r) @ '','' @ part
                    @ ''is held for the unfilled minimums of '' @ unfilledOwners r @ '', '' @ itoa_int (rf_Unfilled r)
                    @ '' flows, and '' @ itoa_int (rf_Spare r) @ '' spare flows '' @ later)
         else if rf_Reason r = ReasonFloor
         then (if rf_FloorShort r = 0
               then holds @ '', below its minimum of '' @ itoa_int (rf_Minimum r) @ '','' @ part @ ''is kept spare '' @ later
               else holds @ '', below its minimum of '' @ itoa_int (rf_Minimum r) @ '','' @ part
                    @ ''is held for the first flows of '' @ otherRules (rf_FloorShortRules r) @ '' and ''
                    @ itoa_int (rf_Spare r) @ '' spare flows '' @ later)
         else ''refused by the flow budget: '' @ rf_Reason r)"

subsection \<open>Charges (charge.go)\<close>

text \<open>
  A flow holds a policy slot, given back by a function that the caller supplies, and
  a lease. The function acts on a state of its own beside the pool.
\<close>

record 's Charge =
  ch_policy :: "('s \<Rightarrow> 's) option"
  ch_lease :: "nat option"

definition HoldPolicy :: "'s Charge \<Rightarrow> ('s \<Rightarrow> 's) \<Rightarrow> 's Charge" where
  "HoldPolicy c release = c\<lparr>ch_policy := Some release\<rparr>"

definition HoldLease :: "'s Charge \<Rightarrow> nat \<Rightarrow> 's Charge" where
  "HoldLease c x = c\<lparr>ch_lease := Some x\<rparr>"

definition Charge_Release :: "'s Charge \<Rightarrow> Pool \<Rightarrow> 's \<Rightarrow> Pool \<times> 's" where
  "Charge_Release c p s =
     (let p = (case ch_lease c of None \<Rightarrow> p | Some x \<Rightarrow> snd (Lease_Release p x))
      in (p, case ch_policy c of None \<Rightarrow> s | Some f \<Rightarrow> f s))"

end
