(* ===== verification/Resource_Invariant.thy ===== *)
theory Resource_Invariant
  imports Resource_Pool
begin

section \<open>The ledger of the flow budget is consistent\<close>

text \<open>
  The counts that the pool keeps by adding and subtracting agree with the cells,
  the listeners and the leases they summarise, in every state the operations reach.
  The invariant has five parts, and each primitive keeps each part by a lemma of
  its own: the sums over the registrations that accept (\<open>terms_ok\<close>), the sums over
  the cells (\<open>cells_ok\<close>), the membership of listeners (\<open>members_ok\<close>), the retired
  registrations that still hold flows (\<open>retired_ok\<close>) and the leases (\<open>leases_ok\<close>).
\<close>

subsection \<open>What the primitives leave alone\<close>

lemma termsLocked_same [simp]:
  "po_total (termsLocked p g s) = po_total p" "po_ruleCap (termsLocked p g s) = po_ruleCap p"
  "po_inUse (termsLocked p g s) = po_inUse p" "po_regs (termsLocked p g s) = po_regs p"
  "po_retired (termsLocked p g s) = po_retired p" "po_minimum (termsLocked p g s) = po_minimum p"
  "po_refusals (termsLocked p g s) = po_refusals p" "po_notAccepting (termsLocked p g s) = po_notAccepting p"
  "po_doubleReleases (termsLocked p g s) = po_doubleReleases p" "po_regSerial (termsLocked p g s) = po_regSerial p"
  "po_reg (termsLocked p g s) = po_reg p" "po_li (termsLocked p g s) = po_li p" "po_nl (termsLocked p g s) = po_nl p"
  "po_cell (termsLocked p g s) = po_cell p" "po_nc (termsLocked p g s) = po_nc p"
  "po_lease (termsLocked p g s) = po_lease p" "po_nx (termsLocked p g s) = po_nx p"
  by (simp_all add: termsLocked_def Let_def)

lemma addCountLocked_same [simp]:
  "po_total (addCountLocked p g d) = po_total p" "po_ruleCap (addCountLocked p g d) = po_ruleCap p"
  "po_inUse (addCountLocked p g d) = po_inUse p" "po_regs (addCountLocked p g d) = po_regs p"
  "po_minimum (addCountLocked p g d) = po_minimum p" "po_refusals (addCountLocked p g d) = po_refusals p"
  "po_notAccepting (addCountLocked p g d) = po_notAccepting p"
  "po_doubleReleases (addCountLocked p g d) = po_doubleReleases p"
  "po_regSerial (addCountLocked p g d) = po_regSerial p" "po_li (addCountLocked p g d) = po_li p"
  "po_nl (addCountLocked p g d) = po_nl p" "po_cell (addCountLocked p g d) = po_cell p"
  "po_nc (addCountLocked p g d) = po_nc p" "po_lease (addCountLocked p g d) = po_lease p"
  "po_nx (addCountLocked p g d) = po_nx p"
  by (simp_all add: addCountLocked_def Let_def upd_reg_def)

lemma upd_reg_same [simp]:
  "po_total (upd_reg g f p) = po_total p" "po_ruleCap (upd_reg g f p) = po_ruleCap p"
  "po_inUse (upd_reg g f p) = po_inUse p" "po_regs (upd_reg g f p) = po_regs p"
  "po_retired (upd_reg g f p) = po_retired p" "po_minimum (upd_reg g f p) = po_minimum p"
  "po_refusals (upd_reg g f p) = po_refusals p" "po_notAccepting (upd_reg g f p) = po_notAccepting p"
  "po_doubleReleases (upd_reg g f p) = po_doubleReleases p" "po_regSerial (upd_reg g f p) = po_regSerial p"
  "po_li (upd_reg g f p) = po_li p" "po_nl (upd_reg g f p) = po_nl p" "po_cell (upd_reg g f p) = po_cell p"
  "po_nc (upd_reg g f p) = po_nc p" "po_lease (upd_reg g f p) = po_lease p" "po_nx (upd_reg g f p) = po_nx p"
  by (simp_all add: upd_reg_def)

lemma upd_li_same [simp]:
  "po_total (upd_li l f p) = po_total p" "po_ruleCap (upd_li l f p) = po_ruleCap p"
  "po_inUse (upd_li l f p) = po_inUse p" "po_regs (upd_li l f p) = po_regs p"
  "po_retired (upd_li l f p) = po_retired p" "po_minimum (upd_li l f p) = po_minimum p"
  "po_refusals (upd_li l f p) = po_refusals p" "po_notAccepting (upd_li l f p) = po_notAccepting p"
  "po_doubleReleases (upd_li l f p) = po_doubleReleases p" "po_regSerial (upd_li l f p) = po_regSerial p"
  "po_reg (upd_li l f p) = po_reg p" "po_nl (upd_li l f p) = po_nl p" "po_cell (upd_li l f p) = po_cell p"
  "po_nc (upd_li l f p) = po_nc p" "po_lease (upd_li l f p) = po_lease p" "po_nx (upd_li l f p) = po_nx p"
  by (simp_all add: upd_li_def)

lemma upd_cell_same [simp]:
  "po_total (upd_cell c f p) = po_total p" "po_ruleCap (upd_cell c f p) = po_ruleCap p"
  "po_inUse (upd_cell c f p) = po_inUse p" "po_regs (upd_cell c f p) = po_regs p"
  "po_retired (upd_cell c f p) = po_retired p" "po_minimum (upd_cell c f p) = po_minimum p"
  "po_refusals (upd_cell c f p) = po_refusals p" "po_notAccepting (upd_cell c f p) = po_notAccepting p"
  "po_doubleReleases (upd_cell c f p) = po_doubleReleases p" "po_regSerial (upd_cell c f p) = po_regSerial p"
  "po_reg (upd_cell c f p) = po_reg p" "po_li (upd_cell c f p) = po_li p" "po_nl (upd_cell c f p) = po_nl p"
  "po_nc (upd_cell c f p) = po_nc p" "po_lease (upd_cell c f p) = po_lease p" "po_nx (upd_cell c f p) = po_nx p"
  by (simp_all add: upd_cell_def)

lemma moveCellLocked_same [simp]:
  "po_total (moveCellLocked p c to) = po_total p" "po_ruleCap (moveCellLocked p c to) = po_ruleCap p"
  "po_inUse (moveCellLocked p c to) = po_inUse p" "po_regs (moveCellLocked p c to) = po_regs p"
  "po_minimum (moveCellLocked p c to) = po_minimum p" "po_refusals (moveCellLocked p c to) = po_refusals p"
  "po_notAccepting (moveCellLocked p c to) = po_notAccepting p"
  "po_doubleReleases (moveCellLocked p c to) = po_doubleReleases p"
  "po_regSerial (moveCellLocked p c to) = po_regSerial p" "po_li (moveCellLocked p c to) = po_li p"
  "po_nl (moveCellLocked p c to) = po_nl p" "po_nc (moveCellLocked p c to) = po_nc p"
  "po_lease (moveCellLocked p c to) = po_lease p" "po_nx (moveCellLocked p c to) = po_nx p"
  by (simp_all add: moveCellLocked_def Let_def)


lemma upd_simps [simp]:
  "po_reg (upd_reg g f p) = (po_reg p)(g := f (po_reg p g))"
  "po_li (upd_li l h p) = (po_li p)(l := h (po_li p l))"
  "po_cell (upd_cell c k p) = (po_cell p)(c := k (po_cell p c))"
  by (simp_all add: upd_reg_def upd_li_def upd_cell_def)

lemma addCountLocked_reg [simp]:
  "po_reg (addCountLocked p g d) = (po_reg p)(g := (po_reg p g)\<lparr>rg_count := rg_count (po_reg p g) + d\<rparr>)"
  "po_retired (addCountLocked p g d) =
     (if rg_retired (po_reg p g) \<and> rg_count (po_reg p g) + d = 0 then removeAll g (po_retired p) else po_retired p)"
  by (simp_all add: addCountLocked_def Let_def)

subsection \<open>Sums over the registrations that accept\<close>

definition short :: "int \<Rightarrow> int \<Rightarrow> int" where
  "short m a = max 0 (m - a)"

definition reg_sum :: "Pool \<Rightarrow> (string \<times> nat) list \<Rightarrow> (int \<Rightarrow> int) \<Rightarrow> int" where
  "reg_sum p gs f = (\<Sum>(r, g) \<leftarrow> gs. f (rg_count (po_reg p g)))"

text \<open>The four sums are those of the registrations \<open>gs\<close>.\<close>

definition sums_ok :: "Pool \<Rightarrow> (string \<times> nat) list \<Rightarrow> bool" where
  "sums_ok p gs =
     (po_unfilled p = reg_sum p gs (short (po_minimum p)) \<and> po_floorShort p = reg_sum p gs (short FlowFloor)
      \<and> po_unfilledRegs p = reg_sum p gs (\<lambda>a. of_bool (a < po_minimum p))
      \<and> po_floorShortRegs p = reg_sum p gs (\<lambda>a. of_bool (a < FlowFloor)))"

definition terms_ok :: "Pool \<Rightarrow> bool" where
  "terms_ok p = (po_minimum p = minimumFor (po_total p) (length (po_regs p)) \<and> sums_ok p (po_regs p))"

lemma termsLocked_sums:
  "\<not> rg_retired (po_reg p g) \<Longrightarrow>
     po_unfilled (termsLocked p g s) = po_unfilled p + s * short (po_minimum p) (rg_count (po_reg p g))
   \<and> po_floorShort (termsLocked p g s) = po_floorShort p + s * short FlowFloor (rg_count (po_reg p g))
   \<and> po_unfilledRegs (termsLocked p g s) = po_unfilledRegs p + s * of_bool (rg_count (po_reg p g) < po_minimum p)
   \<and> po_floorShortRegs (termsLocked p g s) = po_floorShortRegs p + s * of_bool (rg_count (po_reg p g) < FlowFloor)"
  by (simp add: termsLocked_def Let_def short_def max_def)

lemma termsLocked_retired: "rg_retired (po_reg p g) \<Longrightarrow> termsLocked p g s = p"
  by (simp add: termsLocked_def)

lemma reg_sum_simps [simp]:
  "reg_sum p [] f = 0" "reg_sum p ((r, g) # gs) f = f (rg_count (po_reg p g)) + reg_sum p gs f"
  "reg_sum p (gs @ hs) f = reg_sum p gs f + reg_sum p hs f"
  by (simp_all add: reg_sum_def)

lemma reg_sum_cong:
  "(\<And>r g. (r, g) \<in> set gs \<Longrightarrow> rg_count (po_reg q g) = rg_count (po_reg p g)) \<Longrightarrow> reg_sum q gs f = reg_sum p gs f"
  unfolding reg_sum_def by (intro arg_cong [of _ _ sum_list] map_cong) auto

lemma reg_sum_addCountLocked:
  "g \<notin> snd ` set gs \<Longrightarrow> reg_sum (addCountLocked p g d) gs f = reg_sum p gs f"
  "distinct (map snd gs) \<Longrightarrow> g \<in> snd ` set gs \<Longrightarrow> reg_sum (addCountLocked p g d) gs f
     = reg_sum p gs f - f (rg_count (po_reg p g)) + f (rg_count (po_reg p g) + d)"
proof -
  show other: "reg_sum (addCountLocked p g d) hs f = reg_sum p hs f" if "g \<notin> snd ` set hs" for hs
    using that by (intro reg_sum_cong) (auto simp: image_iff)
  show "distinct (map snd gs) \<Longrightarrow> g \<in> snd ` set gs \<Longrightarrow> reg_sum (addCountLocked p g d) gs f
     = reg_sum p gs f - f (rg_count (po_reg p g)) + f (rg_count (po_reg p g) + d)"
  proof (induction gs)
    case (Cons x gs)
    then show ?case
      using other [of gs] by (cases x; cases "snd x = g") auto
  qed simp
qed

lemma addCountLocked_terms:
  assumes "terms_ok p" and "distinct (map snd (po_regs p))"
    and "rg_retired (po_reg p g) \<longleftrightarrow> g \<notin> snd ` set (po_regs p)"
  shows "terms_ok (addCountLocked p g d)"
proof (cases "rg_retired (po_reg p g)")
  case True
  let ?p = "addCountLocked p g d"
  have "po_unfilled ?p = po_unfilled p" "po_floorShort ?p = po_floorShort p"
    "po_unfilledRegs ?p = po_unfilledRegs p" "po_floorShortRegs ?p = po_floorShortRegs p"
    using True by (simp_all add: addCountLocked_def Let_def termsLocked_retired upd_reg_def)
  with assms True show ?thesis by (simp add: terms_ok_def sums_ok_def reg_sum_addCountLocked)
next
  case False
  let ?p = "addCountLocked p g d" and ?a = "rg_count (po_reg p g)"
  have "po_unfilled ?p = po_unfilled p - short (po_minimum p) ?a + short (po_minimum p) (?a + d)"
    "po_floorShort ?p = po_floorShort p - short FlowFloor ?a + short FlowFloor (?a + d)"
    "po_unfilledRegs ?p = po_unfilledRegs p - of_bool (?a < po_minimum p) + of_bool (?a + d < po_minimum p)"
    "po_floorShortRegs ?p = po_floorShortRegs p - of_bool (?a < FlowFloor) + of_bool (?a + d < FlowFloor)"
    using False
    by (simp_all add: addCountLocked_def Let_def termsLocked_sums upd_reg_def)
  with assms False show ?thesis by (simp add: terms_ok_def sums_ok_def reg_sum_addCountLocked)
qed

lemma fold_terms_same:
  defines "step \<equiv> \<lambda>(r, g) p. termsLocked p g 1"
  shows "po_total (fold step gs p) = po_total p \<and> po_ruleCap (fold step gs p) = po_ruleCap p
   \<and> po_inUse (fold step gs p) = po_inUse p \<and> po_regs (fold step gs p) = po_regs p
   \<and> po_retired (fold step gs p) = po_retired p \<and> po_minimum (fold step gs p) = po_minimum p
   \<and> po_refusals (fold step gs p) = po_refusals p \<and> po_notAccepting (fold step gs p) = po_notAccepting p
   \<and> po_doubleReleases (fold step gs p) = po_doubleReleases p
   \<and> po_regSerial (fold step gs p) = po_regSerial p \<and> po_reg (fold step gs p) = po_reg p
   \<and> po_li (fold step gs p) = po_li p \<and> po_nl (fold step gs p) = po_nl p
   \<and> po_cell (fold step gs p) = po_cell p \<and> po_nc (fold step gs p) = po_nc p
   \<and> po_lease (fold step gs p) = po_lease p \<and> po_nx (fold step gs p) = po_nx p"
  by (induction gs arbitrary: p) (auto simp: step_def)

lemma refreshLocked_same [simp]:
  "po_total (refreshLocked p) = po_total p" "po_ruleCap (refreshLocked p) = po_ruleCap p"
  "po_inUse (refreshLocked p) = po_inUse p" "po_regs (refreshLocked p) = po_regs p"
  "po_retired (refreshLocked p) = po_retired p" "po_refusals (refreshLocked p) = po_refusals p"
  "po_notAccepting (refreshLocked p) = po_notAccepting p"
  "po_doubleReleases (refreshLocked p) = po_doubleReleases p" "po_regSerial (refreshLocked p) = po_regSerial p"
  "po_reg (refreshLocked p) = po_reg p" "po_li (refreshLocked p) = po_li p" "po_nl (refreshLocked p) = po_nl p"
  "po_cell (refreshLocked p) = po_cell p" "po_nc (refreshLocked p) = po_nc p"
  "po_lease (refreshLocked p) = po_lease p" "po_nx (refreshLocked p) = po_nx p"
  by (simp_all add: refreshLocked_def fold_terms_same)

lemma refresh_fold:
  assumes "\<forall>(r, g) \<in> set gs. \<not> rg_retired (po_reg p g)" and "sums_ok p ds"
  shows "sums_ok (fold (\<lambda>(r, g) p. termsLocked p g 1) gs p) (ds @ gs)"
  using assms
proof (induction gs arbitrary: p ds)
  case (Cons x gs)
  obtain r g where x: "x = (r, g)" by (cases x)
  let ?q = "termsLocked p g 1"
  have live: "\<not> rg_retired (po_reg p g)" using Cons.prems(1) x by simp
  have "sums_ok ?q (ds @ [x])"
    using Cons.prems(2) termsLocked_sums [OF live, of 1] x reg_sum_cong [of _ ?q p] by (simp add: sums_ok_def)
  moreover have "\<forall>(r, g) \<in> set gs. \<not> rg_retired (po_reg ?q g)" using Cons.prems(1) by auto
  ultimately show ?case using Cons.IH [of ?q "ds @ [x]"] x by simp
qed simp

lemma refreshLocked_terms:
  assumes "\<forall>(r, g) \<in> set (po_regs p). \<not> rg_retired (po_reg p g)"
  shows "terms_ok (refreshLocked p)"
proof -
  let ?q = "p\<lparr>po_minimum := minimumFor (po_total p) (length (po_regs p)), po_unfilled := 0, po_floorShort := 0,
          po_unfilledRegs := 0, po_floorShortRegs := 0\<rparr>"
  have "sums_ok ?q []" by (simp add: sums_ok_def)
  then have "sums_ok (refreshLocked p) (po_regs p)"
    using refresh_fold [of "po_regs p" ?q "[]"] assms by (simp add: refreshLocked_def)
  moreover have "po_minimum (refreshLocked p) = po_minimum ?q"
    using fold_terms_same [of "po_regs p" ?q] by (simp add: refreshLocked_def)
  ultimately show ?thesis by (simp add: terms_ok_def)
qed

lemma terms_ok_cong:
  assumes "terms_ok p" and "po_regs q = po_regs p" and "po_total q = po_total p" and "po_minimum q = po_minimum p"
    and "po_unfilled q = po_unfilled p" and "po_floorShort q = po_floorShort p"
    and "po_unfilledRegs q = po_unfilledRegs p" and "po_floorShortRegs q = po_floorShortRegs p"
    and "\<And>r g. (r, g) \<in> set (po_regs p) \<Longrightarrow> rg_count (po_reg q g) = rg_count (po_reg p g)"
  shows "terms_ok q"
  using assms reg_sum_cong [OF assms(9)] by (simp add: terms_ok_def sums_ok_def)

subsection \<open>The parts of the invariant\<close>

definition cell_val :: "(cell \<Rightarrow> bool) \<Rightarrow> cell \<Rightarrow> int" where
  "cell_val P x = (if P x then ce_n x else 0)"

definition cell_sum :: "Pool \<Rightarrow> (cell \<Rightarrow> bool) \<Rightarrow> int" where
  "cell_sum p P = (\<Sum>c < po_nc p. cell_val P (po_cell p c))"

text \<open>Every count is a sum over cells, and the sets of cells hold the cells in use.\<close>

definition cells_ok :: "Pool \<Rightarrow> bool" where
  "cells_ok p =
     (po_inUse p = cell_sum p (\<lambda>_. True)
      \<and> (\<forall>g. rg_count (po_reg p g) = cell_sum p (\<lambda>x. ce_reg x = g))
      \<and> (\<forall>l. li_flows (po_li p l) = cell_sum p (\<lambda>x. ce_l x = l))
      \<and> (\<forall>g. distinct (rg_cells (po_reg p g))
           \<and> set (rg_cells (po_reg p g)) = {c. c < po_nc p \<and> ce_reg (po_cell p c) = g \<and> ce_n (po_cell p c) \<noteq> 0})
      \<and> (\<forall>l. distinct (li_cells (po_li p l))
           \<and> set (li_cells (po_li p l)) = {c. c < po_nc p \<and> ce_l (po_cell p c) = l \<and> ce_n (po_cell p c) \<noteq> 0})
      \<and> (\<forall>l c. li_cur (po_li p l) = Some c \<longrightarrow> c \<in> set (li_cells (po_li p l))))"

definition alloc_ok :: "Pool \<Rightarrow> bool" where
  "alloc_ok p =
     ((\<forall>g. g = 0 \<or> po_regSerial p < g \<longrightarrow> po_reg p g = zeroReg) \<and> (\<forall>l \<ge> po_nl p. po_li p l = zeroListener)
      \<and> (\<forall>g. 0 < g \<and> g \<le> po_regSerial p \<longrightarrow> rg_serial (po_reg p g) = g))"

text \<open>The table holds the registrations that are not retired, each with its listeners.\<close>

definition joins_ok :: "Pool \<Rightarrow> bool" where
  "joins_ok p =
     (distinct (map fst (po_regs p))
      \<and> (\<forall>r g. (r, g) \<in> set (po_regs p) \<longleftrightarrow>
           0 < g \<and> g \<le> po_regSerial p \<and> \<not> rg_retired (po_reg p g) \<and> rg_rule (po_reg p g) = r)
      \<and> (\<forall>l. li_counted (po_li p l) \<longrightarrow> (li_rule (po_li p l), li_reg (po_li p l)) \<in> set (po_regs p))
      \<and> (\<forall>g. rg_members (po_reg p g) = (\<Sum>l < po_nl p. of_bool (li_counted (po_li p l) \<and> li_reg (po_li p l) = g)))
      \<and> (\<forall>g. rg_carried (po_reg p g)
           = (\<Sum>l < po_nl p. if li_counted (po_li p l) \<and> li_reg (po_li p l) = g then li_flows (po_li p l) else 0)))"

definition members_ok :: "Pool \<Rightarrow> bool" where
  "members_ok p = (joins_ok p \<and> (\<forall>(r, g) \<in> set (po_regs p). 0 < rg_members (po_reg p g)))"

definition retired_ok :: "Pool \<Rightarrow> bool" where
  "retired_ok p =
     (distinct (po_retired p)
      \<and> set (po_retired p) = {g. rg_retired (po_reg p g) \<and> rg_count (po_reg p g) \<noteq> 0})"

definition orphan :: "Pool \<Rightarrow> nat \<Rightarrow> bool" where
  "orphan p c = (c < po_nc p \<and> ce_n (po_cell p c) \<noteq> 0 \<and> li_counted (po_li p (ce_l (po_cell p c)))
     \<and> rg_retired (po_reg p (ce_reg (po_cell p c))))"

text \<open>The leases not yet released are what the cells count.\<close>

definition open_leases :: "Pool \<Rightarrow> nat \<Rightarrow> nat" where
  "open_leases p c = card {x. x < po_nx p \<and> \<not> ls_done (po_lease p x) \<and> ls_c (po_lease p x) = c}"

definition leases_ok :: "Pool \<Rightarrow> bool" where
  "leases_ok p =
     ((\<forall>c < po_nc p. ce_n (po_cell p c) = int (open_leases p c))
      \<and> (\<forall>x < po_nx p. \<not> ls_done (po_lease p x) \<longrightarrow>
           ls_c (po_lease p x) < po_nc p \<and> ls_l (po_lease p x) = ce_l (po_cell p (ls_c (po_lease p x)))))"

text \<open>What the primitives keep, while listeners move and orphans wait to be moved.\<close>

definition ledger_inv :: "Pool \<Rightarrow> bool" where
  "ledger_inv p = (terms_ok p \<and> cells_ok p \<and> alloc_ok p \<and> members_ok p \<and> retired_ok p \<and> leases_ok p)"

lemmas ledger_defs = ledger_inv_def cells_ok_def alloc_ok_def members_ok_def joins_ok_def retired_ok_def leases_ok_def

lemma sum_fun_upd:
  fixes h :: "'a \<Rightarrow> 'b \<Rightarrow> int"
  assumes "finite A" and "c \<in> A"
  shows "(\<Sum>x \<in> A. h x ((k(c := v)) x)) = (\<Sum>x \<in> A. h x (k x)) - h c (k c) + h c v"
proof -
  have "(\<Sum>x \<in> A - {c}. h x ((k(c := v)) x)) = (\<Sum>x \<in> A - {c}. h x (k x))" by (rule sum.cong) auto
  then show ?thesis using assms by (simp add: sum.remove [of A c])
qed

lemma cell_sum_upd:
  assumes "c < po_nc p" and "po_nc q = po_nc p" and "po_cell q = (po_cell p)(c := v)"
  shows "cell_sum q P = cell_sum p P - cell_val P (po_cell p c) + cell_val P v"
  using sum_fun_upd [of "{..< po_nc p}" c "\<lambda>_. cell_val P" "po_cell p" v] assms(1)
  by (simp only: cell_sum_def assms(2,3) finite_lessThan lessThan_iff)

lemma cell_sum_cong:
  "po_nc q = po_nc p \<Longrightarrow> po_cell q = po_cell p \<Longrightarrow> cell_sum q P = cell_sum p P"
  by (simp add: cell_sum_def)

lemma regs_snd_distinct: "joins_ok p \<Longrightarrow> distinct (map snd (po_regs p))"
proof -
  assume m: "joins_ok p"
  have "inj_on snd (set (po_regs p))" using m by (auto simp: joins_ok_def inj_on_def)
  moreover have "distinct (po_regs p)" using m by (auto simp: joins_ok_def distinct_map)
  ultimately show ?thesis by (simp add: distinct_map)
qed

lemma live_reg_iff:
  assumes "joins_ok p"
  shows "g \<in> snd ` set (po_regs p) \<longleftrightarrow> 0 < g \<and> g \<le> po_regSerial p \<and> \<not> rg_retired (po_reg p g)"
proof -
  have "(\<exists>r. (r, g) \<in> set (po_regs p)) \<longleftrightarrow> 0 < g \<and> g \<le> po_regSerial p \<and> \<not> rg_retired (po_reg p g)"
    using assms by (simp add: joins_ok_def)
  moreover have "g \<in> snd ` set (po_regs p) \<longleftrightarrow> (\<exists>r. (r, g) \<in> set (po_regs p))" by force
  ultimately show ?thesis by simp
qed

lemma cell_reg_allocated:
  assumes "cells_ok p" and "alloc_ok p" and "c < po_nc p" and "ce_n (po_cell p c) \<noteq> 0"
  shows "0 < ce_reg (po_cell p c) \<and> ce_reg (po_cell p c) \<le> po_regSerial p"
proof (rule ccontr)
  assume "\<not> ?thesis"
  then have "po_reg p (ce_reg (po_cell p c)) = zeroReg" using assms(2) by (auto simp: alloc_ok_def)
  moreover have "c \<in> set (rg_cells (po_reg p (ce_reg (po_cell p c))))" using assms by (simp add: cells_ok_def)
  ultimately show False by (simp add: zeroReg_def)
qed

lemma retired_allocated: "alloc_ok p \<Longrightarrow> rg_retired (po_reg p g) \<Longrightarrow> 0 < g \<and> g \<le> po_regSerial p"
  by (rule ccontr) (auto simp: alloc_ok_def zeroReg_def not_le)

lemma ce_n_nonneg: "leases_ok p \<Longrightarrow> c < po_nc p \<Longrightarrow> 0 \<le> ce_n (po_cell p c)"
  by (simp add: leases_ok_def)

lemma count_ge_cell:
  assumes "cells_ok p" and "leases_ok p" and "c < po_nc p"
  shows "ce_n (po_cell p c) \<le> rg_count (po_reg p (ce_reg (po_cell p c)))"
proof -
  let ?P = "\<lambda>x. ce_reg x = ce_reg (po_cell p c)"
  have "cell_val ?P (po_cell p c) \<le> cell_sum p ?P"
    unfolding cell_sum_def using assms(2,3) by (intro member_le_sum) (auto simp: cell_val_def leases_ok_def)
  then show ?thesis using assms(1) by (simp add: cells_ok_def cell_val_def)
qed

subsection \<open>Moving a cell\<close>

lemma moveCellLocked_effect:
  assumes "ce_reg (po_cell p c) \<noteq> to"
  defines "from \<equiv> ce_reg (po_cell p c)" and "n \<equiv> ce_n (po_cell p c)"
  shows "po_cell (moveCellLocked p c to) = (po_cell p)(c := (po_cell p c)\<lparr>ce_reg := to\<rparr>)"
    and "po_reg (moveCellLocked p c to) = (po_reg p)
      (from := (po_reg p from)\<lparr>rg_cells := removeAll c (rg_cells (po_reg p from)), rg_count := rg_count (po_reg p from) - n\<rparr>,
       to := (po_reg p to)\<lparr>rg_cells := List.insert c (rg_cells (po_reg p to)), rg_count := rg_count (po_reg p to) + n\<rparr>)"
    and "\<not> rg_retired (po_reg p to) \<Longrightarrow> po_retired (moveCellLocked p c to)
      = (if rg_retired (po_reg p from) \<and> rg_count (po_reg p from) = n then removeAll from (po_retired p) else po_retired p)"
  using assms by (auto simp: moveCellLocked_def Let_def fun_eq_iff)

lemma moveCellLocked_cells:
  assumes "cells_ok p" and "c < po_nc p" and "ce_n (po_cell p c) \<noteq> 0" and "ce_reg (po_cell p c) \<noteq> to"
  shows "cells_ok (moveCellLocked p c to)"
proof -
  let ?q = "moveCellLocked p c to"
  note eff = moveCellLocked_effect [OF assms(4)]
  note cs = cell_sum_upd [OF assms(2), of ?q, OF _ eff(1)]
  have "po_inUse ?q = cell_sum ?q (\<lambda>_. True)" "\<forall>l. li_flows (po_li ?q l) = cell_sum ?q (\<lambda>x. ce_l x = l)"
    "\<forall>g. rg_count (po_reg ?q g) = cell_sum ?q (\<lambda>x. ce_reg x = g)"
    using assms(1,4) by (auto simp: cs cells_ok_def eff cell_val_def)
  moreover have "\<forall>g. distinct (rg_cells (po_reg ?q g))
      \<and> set (rg_cells (po_reg ?q g)) = {c. c < po_nc ?q \<and> ce_reg (po_cell ?q c) = g \<and> ce_n (po_cell ?q c) \<noteq> 0}"
    using assms by (auto simp: cells_ok_def eff distinct_removeAll)
  moreover have "\<forall>l. distinct (li_cells (po_li ?q l))
      \<and> set (li_cells (po_li ?q l)) = {c. c < po_nc ?q \<and> ce_l (po_cell ?q c) = l \<and> ce_n (po_cell ?q c) \<noteq> 0}"
    using assms(1) by (auto simp: cells_ok_def eff)
  moreover have "\<forall>l c. li_cur (po_li ?q l) = Some c \<longrightarrow> c \<in> set (li_cells (po_li ?q l))"
    using assms(1) unfolding cells_ok_def moveCellLocked_same by blast
  ultimately show ?thesis unfolding cells_ok_def by blast
qed

lemma members_ok_cong:
  assumes "members_ok p" and "po_regs q = po_regs p" and "po_regSerial q = po_regSerial p" and "po_li q = po_li p"
    and "po_nl q = po_nl p"
    and "\<And>g. rg_retired (po_reg q g) = rg_retired (po_reg p g) \<and> rg_rule (po_reg q g) = rg_rule (po_reg p g)
      \<and> rg_members (po_reg q g) = rg_members (po_reg p g) \<and> rg_carried (po_reg q g) = rg_carried (po_reg p g)"
  shows "members_ok q"
proof -
  have e: "rg_retired (po_reg q g) = rg_retired (po_reg p g)" "rg_rule (po_reg q g) = rg_rule (po_reg p g)"
    "rg_members (po_reg q g) = rg_members (po_reg p g)" "rg_carried (po_reg q g) = rg_carried (po_reg p g)" for g
    using assms(6) by blast+
  show ?thesis using assms(1) unfolding members_ok_def joins_ok_def assms(2-5) e .
qed

lemma leases_ok_cong:
  assumes "leases_ok p" and "po_nc q = po_nc p" and "po_nx q = po_nx p" and "po_lease q = po_lease p"
    and "\<And>c. ce_n (po_cell q c) = ce_n (po_cell p c) \<and> ce_l (po_cell q c) = ce_l (po_cell p c)"
  shows "leases_ok q"
  using assms(1) by (simp add: leases_ok_def open_leases_def assms(2-5))

definition movable :: "Pool \<Rightarrow> nat \<Rightarrow> nat \<Rightarrow> bool" where
  "movable p c to = (c < po_nc p \<and> ce_n (po_cell p c) \<noteq> 0 \<and> rg_retired (po_reg p (ce_reg (po_cell p c)))
     \<and> to \<in> snd ` set (po_regs p))"

lemma movable_live:
  assumes "ledger_inv p" and "movable p c to"
  shows "ce_reg (po_cell p c) \<noteq> to" and "\<not> rg_retired (po_reg p to)" and "0 < to" and "to \<le> po_regSerial p"
  using assms live_reg_iff [of p] by (auto simp: movable_def ledger_inv_def members_ok_def)

lemma moveCellLocked_terms:
  assumes "ledger_inv p" and "movable p c to"
  shows "terms_ok (moveCellLocked p c to)"
proof -
  let ?from = "ce_reg (po_cell p c)"
  note m = assms [unfolded ledger_inv_def members_ok_def movable_def]
  let ?a = "upd_reg ?from (\<lambda>r. r\<lparr>rg_cells := removeAll c (rg_cells r)\<rparr>) p"
  let ?b = "addCountLocked ?a ?from (- ce_n (po_cell p c))"
  let ?c = "upd_reg to (\<lambda>r. r\<lparr>rg_cells := List.insert c (rg_cells r)\<rparr>) (upd_cell c (\<lambda>x. x\<lparr>ce_reg := to\<rparr>) ?b)"
  have d: "distinct (map snd (po_regs p))" using m regs_snd_distinct by blast
  have nl: "?from \<notin> snd ` set (po_regs p)" using m live_reg_iff by blast
  have a: "terms_ok ?a" using m by (intro terms_ok_cong [of p ?a]) (auto simp: upd_reg_def)
  have b: "terms_ok ?b" by (rule addCountLocked_terms [OF a]) (use d m nl in auto)
  have c: "terms_ok ?c" by (rule terms_ok_cong [OF b]) (auto simp: upd_reg_def upd_cell_def)
  have "terms_ok (addCountLocked ?c to (ce_n (po_cell p c)))"
    by (rule addCountLocked_terms [OF c])
      (use d m movable_live [OF assms] in auto)
  then show ?thesis by (simp add: moveCellLocked_def Let_def)
qed

lemma moveCellLocked_inv:
  assumes "ledger_inv p" and "movable p c to"
  shows "ledger_inv (moveCellLocked p c to)"
proof -
  let ?q = "moveCellLocked p c to" and ?from = "ce_reg (po_cell p c)"
  note live = movable_live [OF assms]
  note eff = moveCellLocked_effect [OF live(1)]
  note m = assms [unfolded ledger_inv_def members_ok_def movable_def]
  have old: "0 < ?from" "?from \<le> po_regSerial p" using m retired_allocated by blast+
  have "cells_ok ?q" using m live moveCellLocked_cells by blast
  moreover have "alloc_ok ?q" using m old live by (auto simp: alloc_ok_def eff)
  moreover have "members_ok ?q" using assms(1) by (intro members_ok_cong [of p ?q]) (auto simp: eff ledger_inv_def)
  moreover have "retired_ok ?q"
  proof -
    have ret: "rg_retired (po_reg ?q g) = rg_retired (po_reg p g)" for g by (simp add: eff)
    have cnt: "rg_count (po_reg ?q g) = rg_count (po_reg p g) - (if g = ?from then ce_n (po_cell p c) else 0)"
      if "rg_retired (po_reg p g)" for g
      using that live by (auto simp: eff)
    have "ce_n (po_cell p c) \<le> rg_count (po_reg p ?from)" "0 < ce_n (po_cell p c)"
      using m count_ge_cell ce_n_nonneg [of p c] by (blast, auto)
    then have "?from \<in> set (po_retired p)" using m by (auto simp: retired_ok_def)
    then show ?thesis
      using m by (auto simp: retired_ok_def eff(3) [OF live(2)] distinct_removeAll ret cnt cong: conj_cong)
  qed
  moreover have "leases_ok ?q" using m by (intro leases_ok_cong [of p ?q]) (auto simp: eff)
  ultimately show ?thesis using moveCellLocked_terms [OF assms] by (simp add: ledger_inv_def)
qed

text \<open>What a move leaves of another state's view.\<close>

definition same_frame :: "Pool \<Rightarrow> Pool \<Rightarrow> bool" where
  "same_frame p q =
     (po_total q = po_total p \<and> po_ruleCap q = po_ruleCap p \<and> po_inUse q = po_inUse p \<and> po_regs q = po_regs p
      \<and> po_regSerial q = po_regSerial p \<and> po_li q = po_li p \<and> po_nl q = po_nl p \<and> po_nc q = po_nc p
      \<and> po_lease q = po_lease p \<and> po_nx q = po_nx p \<and> po_minimum q = po_minimum p
      \<and> po_refusals q = po_refusals p \<and> po_notAccepting q = po_notAccepting p \<and> po_doubleReleases q = po_doubleReleases p
      \<and> (\<forall>g. rg_retired (po_reg q g) = rg_retired (po_reg p g))
      \<and> (\<forall>c. ce_n (po_cell q c) = ce_n (po_cell p c) \<and> ce_l (po_cell q c) = ce_l (po_cell p c)))"

lemma same_frame_refl [simp]: "same_frame p p"
  by (simp add: same_frame_def)

lemma same_frame_trans: "same_frame p q \<Longrightarrow> same_frame q r \<Longrightarrow> same_frame p r"
  by (simp add: same_frame_def)

lemma moveCellLocked_frame:
  assumes "ledger_inv p" and "movable p c to"
  shows "same_frame p (moveCellLocked p c to)"
  using moveCellLocked_effect [OF movable_live(1) [OF assms]] by (auto simp: same_frame_def)

lemma attach_moves_inv:
  assumes "ledger_inv p" and "g \<in> snd ` set (po_regs p)" and "\<forall>c \<in> set cs. c < po_nc p \<and> ce_n (po_cell p c) \<noteq> 0"
  shows "ledger_inv (attach_moves p g cs) \<and> same_frame p (attach_moves p g cs)
    \<and> (\<forall>c. ce_reg (po_cell (attach_moves p g cs) c)
         = (if c \<in> set cs \<and> rg_retired (po_reg p (ce_reg (po_cell p c))) then g else ce_reg (po_cell p c)))"
  using assms
proof (induction cs arbitrary: p)
  case (Cons c cs)
  have ng: "\<not> rg_retired (po_reg p g)" using Cons.prems(1,2) live_reg_iff by (auto simp: ledger_inv_def members_ok_def)
  show ?case
  proof (cases "rg_retired (po_reg p (ce_reg (po_cell p c)))")
    case True
    let ?q = "moveCellLocked p c g"
    have mv: "movable p c g" using True Cons.prems by (simp add: movable_def)
    note fr = moveCellLocked_frame [OF Cons.prems(1) mv]
    note cell = moveCellLocked_effect(1) [OF movable_live(1) [OF Cons.prems(1) mv]]
    have "g \<in> snd ` set (po_regs ?q)" "\<forall>c \<in> set cs. c < po_nc ?q \<and> ce_n (po_cell ?q c) \<noteq> 0"
      using Cons.prems fr by (auto simp: same_frame_def)
    from Cons.IH [OF moveCellLocked_inv [OF Cons.prems(1) mv] this] True fr ng
    show ?thesis by (auto simp: cell same_frame_trans [OF fr] same_frame_def [of p ?q])
  next
    case False
    then show ?thesis using Cons by auto
  qed
qed simp

lemma detach_moves_inv:
  assumes "ledger_inv p" and "\<forall>c \<in> set cs. c < po_nc p \<and> ce_n (po_cell p c) \<noteq> 0 \<and> rg_retired (po_reg p (ce_reg (po_cell p c)))"
    and "distinct cs"
  shows "ledger_inv (detach_moves p cs) \<and> same_frame p (detach_moves p cs)
    \<and> (\<forall>c. ce_reg (po_cell (detach_moves p cs) c)
         = (if c \<in> set cs \<and> li_counted (po_li p (ce_l (po_cell p c))) then li_reg (po_li p (ce_l (po_cell p c)))
            else ce_reg (po_cell p c)))"
  using assms
proof (induction cs arbitrary: p)
  case (Cons c cs)
  let ?x = "po_li p (ce_l (po_cell p c))"
  show ?case
  proof (cases "li_counted ?x")
    case True
    let ?q = "moveCellLocked p c (li_reg ?x)"
    have "(li_rule ?x, li_reg ?x) \<in> set (po_regs p)"
      using Cons.prems(1) True by (auto simp: ledger_inv_def members_ok_def joins_ok_def)
    then have mv: "movable p c (li_reg ?x)" using Cons.prems by (force simp: movable_def)
    note fr = moveCellLocked_frame [OF Cons.prems(1) mv]
    note cell = moveCellLocked_effect(1) [OF movable_live(1) [OF Cons.prems(1) mv]]
    have "\<forall>d \<in> set cs. d < po_nc ?q \<and> ce_n (po_cell ?q d) \<noteq> 0 \<and> rg_retired (po_reg ?q (ce_reg (po_cell ?q d)))"
      using Cons.prems fr by (auto simp: same_frame_def cell)
    from Cons.IH [OF moveCellLocked_inv [OF Cons.prems(1) mv] this] Cons.prems(3) True fr
    show ?thesis by (auto simp: cell Let_def same_frame_trans [OF fr] same_frame_def [of p ?q])
  next
    case False
    then show ?thesis using Cons by (auto simp: Let_def)
  qed
qed simp

subsection \<open>Joining\<close>

text \<open>The invariant, except that the registration \<open>g\<close> may have no member.\<close>

definition ledger_but :: "nat \<Rightarrow> Pool \<Rightarrow> bool" where
  "ledger_but g p = (terms_ok p \<and> cells_ok p \<and> alloc_ok p \<and> joins_ok p \<and> retired_ok p \<and> leases_ok p
     \<and> (\<forall>(r, h) \<in> set (po_regs p). h \<noteq> g \<longrightarrow> 0 < rg_members (po_reg p h)))"

lemma ledger_inv_but: "ledger_inv p \<Longrightarrow> ledger_but g p"
  by (auto simp: ledger_inv_def ledger_but_def members_ok_def)

lemma ledger_but_inv:
  assumes "ledger_but g p" and "\<And>r. (r, g) \<in> set (po_regs p) \<Longrightarrow> 0 < rg_members (po_reg p g)"
  shows "ledger_inv p"
proof -
  have "0 < rg_members (po_reg p h)" if "(r, h) \<in> set (po_regs p)" for r h
    using assms(1) assms(2) [of r] that by (cases "h = g") (auto simp: ledger_but_def)
  then show ?thesis using assms(1) by (auto simp: ledger_inv_def ledger_but_def members_ok_def)
qed

lemma cells_ok_cong:
  assumes "cells_ok p" and "po_inUse q = po_inUse p" and "po_nc q = po_nc p" and "po_cell q = po_cell p"
    and "\<And>g. rg_count (po_reg q g) = rg_count (po_reg p g) \<and> rg_cells (po_reg q g) = rg_cells (po_reg p g)"
    and "\<And>l. li_flows (po_li q l) = li_flows (po_li p l) \<and> li_cells (po_li q l) = li_cells (po_li p l)
      \<and> li_cur (po_li q l) = li_cur (po_li p l)"
  shows "cells_ok q"
proof -
  have e: "rg_count (po_reg q g) = rg_count (po_reg p g)" "rg_cells (po_reg q g) = rg_cells (po_reg p g)"
    "li_flows (po_li q l) = li_flows (po_li p l)" "li_cells (po_li q l) = li_cells (po_li p l)"
    "li_cur (po_li q l) = li_cur (po_li p l)" for g l
    using assms(5,6) by blast+
  show ?thesis using assms(1) unfolding cells_ok_def assms(2-4) e cell_sum_cong [OF assms(3,4)] .
qed

lemma retired_ok_cong:
  assumes "retired_ok p" and "po_retired q = po_retired p"
    and "\<And>g. rg_retired (po_reg q g) = rg_retired (po_reg p g) \<and> rg_count (po_reg q g) = rg_count (po_reg p g)"
  shows "retired_ok q"
  using assms by (simp add: retired_ok_def)

definition member_val :: "nat \<Rightarrow> Listener \<Rightarrow> int" where
  "member_val g x = of_bool (li_counted x \<and> li_reg x = g)"

definition carry_val :: "nat \<Rightarrow> Listener \<Rightarrow> int" where
  "carry_val g x = (if li_counted x \<and> li_reg x = g then li_flows x else 0)"

lemma joins_ok_vals:
  "joins_ok p =
     (distinct (map fst (po_regs p))
      \<and> (\<forall>r g. (r, g) \<in> set (po_regs p) \<longleftrightarrow>
           0 < g \<and> g \<le> po_regSerial p \<and> \<not> rg_retired (po_reg p g) \<and> rg_rule (po_reg p g) = r)
      \<and> (\<forall>l. li_counted (po_li p l) \<longrightarrow> (li_rule (po_li p l), li_reg (po_li p l)) \<in> set (po_regs p))
      \<and> (\<forall>g. rg_members (po_reg p g) = (\<Sum>l < po_nl p. member_val g (po_li p l)))
      \<and> (\<forall>g. rg_carried (po_reg p g) = (\<Sum>l < po_nl p. carry_val g (po_li p l))))"
  unfolding joins_ok_def member_val_def carry_val_def ..

text \<open>The listener \<open>l\<close> changes to \<open>x\<close>, and the registrations take the difference.\<close>

lemma joins_ok_upd:
  assumes "joins_ok p" and "l < po_nl p" and "po_regs q = po_regs p" and "po_regSerial q = po_regSerial p"
    and "po_nl q = po_nl p" and "po_li q = (po_li p)(l := x)"
    and "li_counted x \<Longrightarrow> (li_rule x, li_reg x) \<in> set (po_regs p)"
    and "\<And>g. rg_retired (po_reg q g) = rg_retired (po_reg p g) \<and> rg_rule (po_reg q g) = rg_rule (po_reg p g)"
    and "\<And>g. rg_members (po_reg q g) = rg_members (po_reg p g) - member_val g (po_li p l) + member_val g x"
    and "\<And>g. rg_carried (po_reg q g) = rg_carried (po_reg p g) - carry_val g (po_li p l) + carry_val g x"
  shows "joins_ok q"
proof -
  have e: "rg_retired (po_reg q g) = rg_retired (po_reg p g)" "rg_rule (po_reg q g) = rg_rule (po_reg p g)" for g
    using assms(8) by blast+
  have v: "(\<Sum>k < po_nl p. h g (((po_li p)(l := x)) k)) = (\<Sum>k < po_nl p. h g (po_li p k)) - h g (po_li p l) + h g x"
    for h :: "nat \<Rightarrow> Listener \<Rightarrow> int" and g
    using sum_fun_upd [of "{..< po_nl p}" l "\<lambda>_. h g" "po_li p" x] assms(2) by (simp only: finite_lessThan lessThan_iff)
  have mem: "\<forall>k. li_counted (((po_li p)(l := x)) k) \<longrightarrow> (li_rule (((po_li p)(l := x)) k), li_reg (((po_li p)(l := x)) k)) \<in> set (po_regs p)"
  proof -
    have "\<forall>k. li_counted (po_li p k) \<longrightarrow> (li_rule (po_li p k), li_reg (po_li p k)) \<in> set (po_regs p)"
      using assms(1) unfolding joins_ok_vals by blast
    then show ?thesis using assms(7) by auto
  qed
  have "\<forall>g. rg_members (po_reg p g) = (\<Sum>l < po_nl p. member_val g (po_li p l))"
    "\<forall>g. rg_carried (po_reg p g) = (\<Sum>l < po_nl p. carry_val g (po_li p l))"
    using assms(1) unfolding joins_ok_vals by blast+
  then have "\<forall>g. rg_members (po_reg q g) = (\<Sum>l < po_nl q. member_val g (po_li q l))"
    "\<forall>g. rg_carried (po_reg q g) = (\<Sum>l < po_nl q. carry_val g (po_li q l))"
    unfolding assms(5,6) v assms(9,10) by simp_all
  with assms(1) mem show ?thesis unfolding joins_ok_vals assms(3-6) e by blast
qed

definition join :: "nat \<Rightarrow> nat \<Rightarrow> Pool \<Rightarrow> Pool" where
  "join g l p = upd_li l (\<lambda>x. x\<lparr>li_reg := g, li_counted := True\<rparr>)
     (upd_reg g (\<lambda>r. r\<lparr>rg_members := rg_members r + 1, rg_carried := rg_carried r + li_flows (po_li p l)\<rparr>) p)"

lemma upd_sums [simp]:
  "po_unfilled (upd_reg g f p) = po_unfilled p" "po_floorShort (upd_reg g f p) = po_floorShort p"
  "po_unfilledRegs (upd_reg g f p) = po_unfilledRegs p" "po_floorShortRegs (upd_reg g f p) = po_floorShortRegs p"
  "po_unfilled (upd_li l h p) = po_unfilled p" "po_floorShort (upd_li l h p) = po_floorShort p"
  "po_unfilledRegs (upd_li l h p) = po_unfilledRegs p" "po_floorShortRegs (upd_li l h p) = po_floorShortRegs p"
  "po_unfilled (upd_cell c k p) = po_unfilled p" "po_floorShort (upd_cell c k p) = po_floorShort p"
  "po_unfilledRegs (upd_cell c k p) = po_unfilledRegs p" "po_floorShortRegs (upd_cell c k p) = po_floorShortRegs p"
  by (simp_all add: upd_reg_def upd_li_def upd_cell_def)

lemma join_inv:
  assumes "ledger_but g p" and "(li_rule (po_li p l), g) \<in> set (po_regs p)" and "l < po_nl p"
    and "\<not> li_counted (po_li p l)"
  shows "ledger_inv (join g l p)"
proof -
  let ?q = "join g l p"
  note m = assms(1) [unfolded ledger_but_def]
  have g: "0 < g" "g \<le> po_regSerial p" using m assms(2) by (auto simp: joins_ok_def)
  have "terms_ok ?q" using m by (intro terms_ok_cong [of p ?q]) (auto simp: join_def)
  moreover have "cells_ok ?q" using m by (intro cells_ok_cong [of p ?q]) (auto simp: join_def)
  moreover have "alloc_ok ?q" using m g assms(3) by (auto simp: alloc_ok_def join_def)
  moreover have j: "joins_ok ?q"
    by (rule joins_ok_upd [of p l ?q "(po_li p l)\<lparr>li_reg := g, li_counted := True\<rparr>"])
      (use m assms(2-4) in \<open>auto simp: join_def member_val_def carry_val_def\<close>)
  moreover have "retired_ok ?q" using m by (intro retired_ok_cong [of p ?q]) (auto simp: join_def)
  moreover have "leases_ok ?q" using m by (intro leases_ok_cong [of p ?q]) (auto simp: join_def)
  moreover have "0 \<le> rg_members (po_reg p g)"
    using m by (auto simp: joins_ok_vals member_val_def intro: sum_nonneg)
  then have "\<forall>(r, h) \<in> set (po_regs ?q). 0 < rg_members (po_reg ?q h)" using m by (auto simp: join_def)
  ultimately show ?thesis by (simp add: ledger_inv_def members_ok_def)
qed

definition enrol :: "string \<Rightarrow> Pool \<Rightarrow> Pool" where
  "enrol rule p =
     (let g = po_regSerial p + 1 in
      p\<lparr>po_regSerial := g, po_reg := (po_reg p)(g := zeroReg\<lparr>rg_serial := g, rg_rule := rule\<rparr>),
        po_regs := po_regs p @ [(rule, g)]\<rparr>)"

lemma attachLocked_unfold:
  "attachLocked p l =
     (if li_counted (po_li p l) \<or> \<not> li_open (po_li p l) \<or> \<not> li_accepting (po_li p l) then p
      else case map_of (po_regs p) (li_rule (po_li p l)) of
             Some g \<Rightarrow> attach_moves (join g l p) g (li_cells (po_li p l))
           | None \<Rightarrow> (let g = po_regSerial p + 1; q = join g l (refreshLocked (enrol (li_rule (po_li p l)) p))
                      in attach_moves q g (li_cells (po_li p l))))"
  by (simp add: attachLocked_def join_def enrol_def Let_def split: option.splits)

lemma enrol_but:
  assumes "ledger_inv p" and "map_of (po_regs p) rule = None"
  shows "ledger_but (po_regSerial p + 1) (refreshLocked (enrol rule p))"
proof -
  let ?g = "po_regSerial p + 1" and ?q = "refreshLocked (enrol rule p)"
  note m = assms(1) [unfolded ledger_inv_def members_ok_def]
  have z: "po_reg p ?g = zeroReg" using m by (simp add: alloc_ok_def)
  have new: "rule \<notin> fst ` set (po_regs p)" using assms(2) by (simp add: map_of_eq_None_iff)
  have regs: "po_regs ?q = po_regs p @ [(rule, ?g)]" "po_regSerial ?q = ?g"
    "po_reg ?q = (po_reg p)(?g := zeroReg\<lparr>rg_serial := ?g, rg_rule := rule\<rparr>)" "po_li ?q = po_li p" "po_nl ?q = po_nl p"
    by (simp_all add: enrol_def)
  have iff: "(r, g) \<in> set (po_regs p) \<longleftrightarrow>
      0 < g \<and> g \<le> po_regSerial p \<and> \<not> rg_retired (po_reg p g) \<and> rg_rule (po_reg p g) = r" for r g
    using m unfolding joins_ok_def by blast
  have "terms_ok ?q"
    by (rule refreshLocked_terms) (use iff in \<open>auto simp: enrol_def zeroReg_def\<close>)
  moreover have "cells_ok ?q"
    using m z by (intro cells_ok_cong [of p ?q]) (auto simp: enrol_def zeroReg_def)
  moreover have "alloc_ok ?q" using m by (auto simp: alloc_ok_def enrol_def)
  moreover have "joins_ok ?q"
  proof -
    have "\<forall>g. rg_members (po_reg ?q g) = rg_members (po_reg p g) \<and> rg_carried (po_reg ?q g) = rg_carried (po_reg p g)"
      unfolding regs using z by (simp add: zeroReg_def)
    moreover have "distinct (map fst (po_regs ?q))" unfolding regs using m new by (simp add: joins_ok_def)
    moreover have "\<forall>r g. (r, g) \<in> set (po_regs ?q) \<longleftrightarrow>
        0 < g \<and> g \<le> po_regSerial ?q \<and> \<not> rg_retired (po_reg ?q g) \<and> rg_rule (po_reg ?q g) = r"
      unfolding regs using iff by (auto simp: zeroReg_def le_Suc_eq)
    moreover have "\<forall>l. li_counted (po_li p l) \<longrightarrow> (li_rule (po_li p l), li_reg (po_li p l)) \<in> set (po_regs p)"
      using m unfolding joins_ok_vals by blast
    moreover have "set (po_regs p) \<subseteq> set (po_regs ?q)" unfolding regs by auto
    ultimately show ?thesis using m unfolding joins_ok_vals regs(4,5) by auto
  qed
  moreover have "retired_ok ?q"
    using m z by (intro retired_ok_cong [of p ?q]) (auto simp: enrol_def zeroReg_def)
  moreover have "leases_ok ?q" using m by (intro leases_ok_cong [of p ?q]) (auto simp: enrol_def)
  moreover have "\<forall>(r, h) \<in> set (po_regs ?q). h \<noteq> ?g \<longrightarrow> 0 < rg_members (po_reg ?q h)"
    unfolding regs using m by auto
  ultimately show ?thesis by (simp add: ledger_but_def)
qed

text \<open>What joining and leaving keep, whatever registration is touched.\<close>

definition outer_frame :: "Pool \<Rightarrow> Pool \<Rightarrow> bool" where
  "outer_frame p q =
     (po_total q = po_total p \<and> po_ruleCap q = po_ruleCap p \<and> po_inUse q = po_inUse p \<and> po_nl q = po_nl p
      \<and> po_nc q = po_nc p \<and> po_lease q = po_lease p \<and> po_nx q = po_nx p
      \<and> po_refusals q = po_refusals p \<and> po_notAccepting q = po_notAccepting p \<and> po_doubleReleases q = po_doubleReleases p)"

lemma outer_frame_refl [simp]: "outer_frame p p"
  by (simp add: outer_frame_def)

lemma outer_frame_trans: "outer_frame p q \<Longrightarrow> outer_frame q r \<Longrightarrow> outer_frame p r"
  by (simp add: outer_frame_def)

lemma join_moves_inv:
  assumes "ledger_but g p" and "(li_rule (po_li p l), g) \<in> set (po_regs p)" and "l < po_nl p"
    and "\<not> li_counted (po_li p l)" and "\<And>c. \<not> orphan p c"
  defines "q \<equiv> attach_moves (join g l p) g (li_cells (po_li p l))"
  shows "ledger_inv q \<and> outer_frame p q \<and> po_li q = (po_li p)(l := (po_li p l)\<lparr>li_reg := g, li_counted := True\<rparr>)
    \<and> (\<forall>c. \<not> orphan q c)"
proof -
  let ?j = "join g l p"
  have j: "ledger_inv ?j" by (rule join_inv [OF assms(1-4)])
  have cells: "set (li_cells (po_li p l)) = {c. c < po_nc p \<and> ce_l (po_cell p c) = l \<and> ce_n (po_cell p c) \<noteq> 0}"
    using assms(1) unfolding ledger_but_def cells_ok_def by blast
  have gs: "g \<in> snd ` set (po_regs ?j)" using assms(2) by (force simp: join_def)
  have live: "\<not> rg_retired (po_reg ?j g)"
    using live_reg_iff [of ?j g] j gs unfolding ledger_inv_def members_ok_def by blast
  have "\<forall>c \<in> set (li_cells (po_li p l)). c < po_nc ?j \<and> ce_n (po_cell ?j c) \<noteq> 0"
    unfolding cells by (simp add: join_def)
  note mv = attach_moves_inv [OF j gs this, folded q_def]
  have fr: "same_frame ?j q" using mv by blast
  have ret: "rg_retired (po_reg q h) = rg_retired (po_reg p h)" for h
    using fr by (simp add: same_frame_def join_def)
  have li: "po_li q = (po_li p)(l := (po_li p l)\<lparr>li_reg := g, li_counted := True\<rparr>)"
    using fr by (simp add: same_frame_def join_def)
  have "outer_frame p q" using fr by (simp add: same_frame_def outer_frame_def join_def)
  moreover have "\<not> orphan q c" for c
  proof
    assume o: "orphan q c"
    have c: "c < po_nc p" "ce_n (po_cell p c) \<noteq> 0" "ce_l (po_cell q c) = ce_l (po_cell p c)"
      using o fr by (auto simp: orphan_def same_frame_def join_def)
    have r: "ce_reg (po_cell q c) = (if c \<in> set (li_cells (po_li p l)) \<and> rg_retired (po_reg p (ce_reg (po_cell p c))) then g
        else ce_reg (po_cell p c))"
      using mv by (simp add: join_def)
    show False
    proof (cases "ce_l (po_cell p c) = l")
      case True
      then show False using o c r live ret by (auto simp: orphan_def cells join_def split: if_splits)
    next
      case False
      then show False using o c r assms(5) [of c] ret by (auto simp: orphan_def cells li split: if_splits)
    qed
  qed
  ultimately show ?thesis using mv li by blast
qed

lemma attachLocked_inv:
  assumes "ledger_inv p" and "l < po_nl p" and "\<And>c. \<not> orphan p c"
  shows "ledger_inv (attachLocked p l) \<and> outer_frame p (attachLocked p l) \<and> (\<forall>c. \<not> orphan (attachLocked p l) c)
    \<and> (\<exists>g. po_li (attachLocked p l) = (po_li p)(l := (po_li p l)\<lparr>li_reg := g,
          li_counted := li_counted (po_li p l) \<or> li_open (po_li p l) \<and> li_accepting (po_li p l)\<rparr>))"
proof (cases "li_counted (po_li p l) \<or> \<not> li_open (po_li p l) \<or> \<not> li_accepting (po_li p l)")
  case True
  then have eq: "attachLocked p l = p" by (simp add: attachLocked_unfold)
  have "po_li p = (po_li p)(l := (po_li p l)\<lparr>li_reg := li_reg (po_li p l),
      li_counted := li_counted (po_li p l) \<or> li_open (po_li p l) \<and> li_accepting (po_li p l)\<rparr>)"
    using True by auto
  then show ?thesis unfolding eq using assms(1,3) outer_frame_refl [of p] by blast
next
  case False
  then have t: "(li_counted (po_li p l) \<or> li_open (po_li p l) \<and> li_accepting (po_li p l)) = True" by blast
  show ?thesis
  proof (cases "map_of (po_regs p) (li_rule (po_li p l))")
    case None
    let ?e = "refreshLocked (enrol (li_rule (po_li p l)) p)" and ?g = "po_regSerial p + 1"
    have no: "\<not> orphan ?e c" for c
    proof
      assume o: "orphan ?e c"
      then have "c < po_nc p" "ce_n (po_cell p c) \<noteq> 0" by (auto simp: orphan_def enrol_def Let_def)
      then have "ce_reg (po_cell p c) \<le> po_regSerial p"
        using cell_reg_allocated assms(1) by (auto simp: ledger_inv_def)
      with o show False using assms(3) [of c] by (auto simp: orphan_def enrol_def Let_def split: if_splits)
    qed
    have e: "(li_rule (po_li p l), ?g) \<in> set (po_regs ?e)" "l < po_nl ?e" "\<not> li_counted (po_li p l)"
      "po_li ?e = po_li p" "outer_frame p ?e"
      using assms(2) False by (auto simp: enrol_def outer_frame_def Let_def)
    have eq: "attachLocked p l = attach_moves (join ?g l ?e) ?g (li_cells (po_li p l))"
      using None False by (simp add: attachLocked_unfold Let_def)
    show ?thesis
      unfolding eq t
      using join_moves_inv [OF enrol_but [OF assms(1) None], of l, unfolded e(4), OF e(1-3) no] outer_frame_trans [OF e(5)]
      by blast
  next
    case (Some g)
    have eq: "attachLocked p l = attach_moves (join g l p) g (li_cells (po_li p l))"
      using Some False by (simp add: attachLocked_unfold Let_def)
    have nc: "\<not> li_counted (po_li p l)" using False by blast
    show ?thesis
      unfolding eq t
      using join_moves_inv [OF ledger_inv_but [OF assms(1)] map_of_SomeD [OF Some] assms(2) nc assms(3)] by blast
  qed
qed

subsection \<open>Leaving\<close>

definition leave :: "nat \<Rightarrow> nat \<Rightarrow> Pool \<Rightarrow> Pool" where
  "leave g l p = upd_li l (\<lambda>x. x\<lparr>li_reg := 0, li_counted := False\<rparr>)
     (upd_reg g (\<lambda>r. r\<lparr>rg_members := rg_members r - 1, rg_carried := rg_carried r - li_flows (po_li p l)\<rparr>) p)"

definition retire :: "nat \<Rightarrow> Pool \<Rightarrow> Pool" where
  "retire g p =
     (let p = upd_reg g (\<lambda>r. r\<lparr>rg_retired := True\<rparr>) p;
          p = refreshLocked (p\<lparr>po_regs := filter (\<lambda>(r, _). r \<noteq> rg_rule (po_reg p g)) (po_regs p)\<rparr>)
      in if rg_count (po_reg p g) > 0 then p\<lparr>po_retired := List.insert g (po_retired p)\<rparr> else p)"

lemma detachLocked_unfold:
  "detachLocked p l =
     (if \<not> li_counted (po_li p l) then p
      else let g = li_reg (po_li p l); q = leave g l p
           in if rg_members (po_reg q g) > 0 then q
              else detach_moves (retire g q) (rg_cells (po_reg (retire g q) g)))"
  by (simp add: detachLocked_def leave_def retire_def Let_def)

lemma counted_allocated: "alloc_ok p \<Longrightarrow> li_counted (po_li p l) \<Longrightarrow> l < po_nl p"
  by (rule ccontr) (auto simp: alloc_ok_def zeroListener_def)

lemma leave_but:
  assumes "ledger_inv p" and "li_counted (po_li p l)"
  defines "g \<equiv> li_reg (po_li p l)"
  shows "ledger_but g (leave g l p)" and "(li_rule (po_li p l), g) \<in> set (po_regs p)"
proof -
  let ?q = "leave g l p"
  note m = assms(1) [unfolded ledger_inv_def members_ok_def]
  have l: "l < po_nl p" using m assms(2) counted_allocated by blast
  show reg: "(li_rule (po_li p l), g) \<in> set (po_regs p)" using m assms(2) by (auto simp: joins_ok_vals g_def)
  then have g: "0 < g" "g \<le> po_regSerial p" using m by (auto simp: joins_ok_def)
  have "terms_ok ?q" using m by (intro terms_ok_cong [of p ?q]) (auto simp: leave_def)
  moreover have "cells_ok ?q" using m by (intro cells_ok_cong [of p ?q]) (auto simp: leave_def)
  moreover have "alloc_ok ?q" using m g l by (auto simp: alloc_ok_def leave_def)
  moreover have "joins_ok ?q"
    by (rule joins_ok_upd [of p l ?q "(po_li p l)\<lparr>li_reg := 0, li_counted := False\<rparr>"])
      (use m assms(2) l in \<open>auto simp: leave_def member_val_def carry_val_def g_def\<close>)
  moreover have "retired_ok ?q" using m by (intro retired_ok_cong [of p ?q]) (auto simp: leave_def)
  moreover have "leases_ok ?q" using m by (intro leases_ok_cong [of p ?q]) (auto simp: leave_def)
  moreover have "\<forall>(r, h) \<in> set (po_regs ?q). h \<noteq> g \<longrightarrow> 0 < rg_members (po_reg ?q h)"
    using m by (auto simp: leave_def)
  ultimately show "ledger_but g ?q" by (simp add: ledger_but_def)
qed

lemma retire_same:
  "po_li (retire g p) = po_li p" "outer_frame p (retire g p)" "po_cell (retire g p) = po_cell p"
  "po_regSerial (retire g p) = po_regSerial p" "po_nl (retire g p) = po_nl p" "po_nc (retire g p) = po_nc p"
  "po_reg (retire g p) = (po_reg p)(g := (po_reg p g)\<lparr>rg_retired := True\<rparr>)"
  "po_regs (retire g p) = filter (\<lambda>(r, _). r \<noteq> rg_rule (po_reg p g)) (po_regs p)"
  "po_retired (retire g p) = (if rg_count (po_reg p g) > 0 then List.insert g (po_retired p) else po_retired p)"
  "po_inUse (retire g p) = po_inUse p" "po_nx (retire g p) = po_nx p" "po_lease (retire g p) = po_lease p"
  by (simp_all add: retire_def Let_def outer_frame_def)

lemma retire_inv:
  assumes "ledger_but g p" and "(rule, g) \<in> set (po_regs p)" and "rg_members (po_reg p g) \<le> 0"
  shows "ledger_inv (retire g p)"
proof -
  let ?q = "retire g p"
  note m = assms(1) [unfolded ledger_but_def]
  have iff: "(r, h) \<in> set (po_regs p) \<longleftrightarrow>
      0 < h \<and> h \<le> po_regSerial p \<and> \<not> rg_retired (po_reg p h) \<and> rg_rule (po_reg p h) = r" for r h
    using m unfolding joins_ok_def by blast
  have dk: "distinct (map fst (po_regs p))" using m unfolding joins_ok_def by blast
  have g: "0 < g" "g \<le> po_regSerial p" "\<not> rg_retired (po_reg p g)" "rg_rule (po_reg p g) = rule"
    using assms(2) iff by auto
  have only: "h = g" if "(rule, h) \<in> set (po_regs p)" for h
    using dk that assms(2) by (metis eq_key_imp_eq_value)
  have regs: "(r, h) \<in> set (po_regs ?q) \<longleftrightarrow> (r, h) \<in> set (po_regs p) \<and> h \<noteq> g" for r h
    unfolding retire_same using only iff g(4) by auto
  have cnt: "rg_count (po_reg ?q h) = rg_count (po_reg p h)" for h by (simp add: retire_same)
  have "terms_ok ?q"
  proof -
    let ?r = "upd_reg g (\<lambda>r. r\<lparr>rg_retired := True\<rparr>) p"
    let ?f = "refreshLocked (?r\<lparr>po_regs := filter (\<lambda>(r, _). r \<noteq> rg_rule (po_reg ?r g)) (po_regs ?r)\<rparr>)"
    have "h \<noteq> g \<and> \<not> rg_retired (po_reg p h)" if "(r, h) \<in> set (po_regs p)" "r \<noteq> rule" for r h
      using that iff [of r h] g(4) by auto
    then have "\<forall>(r, h) \<in> set (po_regs p). r \<noteq> rule \<longrightarrow> h \<noteq> g \<and> \<not> rg_retired (po_reg p h)" by blast
    then have "terms_ok ?f" using g(4) by (intro refreshLocked_terms) auto
    then show ?thesis by (rule terms_ok_cong) (simp_all add: retire_def Let_def)
  qed
  moreover have "cells_ok ?q" using m by (intro cells_ok_cong [of p ?q]) (auto simp: retire_same)
  moreover have "alloc_ok ?q" using m g by (auto simp: alloc_ok_def retire_same)
  moreover have "joins_ok ?q"
  proof -
    have "(\<Sum>l < po_nl p. member_val g (po_li p l)) \<le> 0" using m assms(3) by (simp add: joins_ok_vals)
    moreover have nn: "\<forall>l \<in> {..< po_nl p}. 0 \<le> member_val g (po_li p l)" by (simp add: member_val_def)
    ultimately have "(\<Sum>l < po_nl p. member_val g (po_li p l)) = 0"
      by (meson dual_order.antisym sum_nonneg)
    with nn have "\<forall>l \<in> {..< po_nl p}. member_val g (po_li p l) = 0"
      using sum_nonneg_eq_0_iff [of "{..< po_nl p}" "\<lambda>l. member_val g (po_li p l)"] by blast
    then have not: "li_counted (po_li p l) \<Longrightarrow> li_reg (po_li p l) \<noteq> g" for l
      using counted_allocated [of p l] m by (auto simp: member_val_def)
    have c: "\<forall>l. li_counted (po_li p l) \<longrightarrow> (li_rule (po_li p l), li_reg (po_li p l)) \<in> set (po_regs p)"
      using m unfolding joins_ok_vals by blast
    have "\<forall>l. li_counted (po_li ?q l) \<longrightarrow> (li_rule (po_li ?q l), li_reg (po_li ?q l)) \<in> set (po_regs ?q)"
      unfolding regs retire_same(1) using c not by blast
    moreover have "distinct (map fst (po_regs ?q))" unfolding retire_same using dk by (simp add: distinct_map_filter)
    moreover have "\<forall>r h. (r, h) \<in> set (po_regs ?q) \<longleftrightarrow>
        0 < h \<and> h \<le> po_regSerial ?q \<and> \<not> rg_retired (po_reg ?q h) \<and> rg_rule (po_reg ?q h) = r"
      unfolding regs iff retire_same(4,7) by auto
    moreover have "\<forall>h. rg_members (po_reg p h) = (\<Sum>l < po_nl p. member_val h (po_li p l))"
      "\<forall>h. rg_carried (po_reg p h) = (\<Sum>l < po_nl p. carry_val h (po_li p l))"
      using m unfolding joins_ok_vals by blast+
    then have "\<forall>h. rg_members (po_reg ?q h) = (\<Sum>l < po_nl ?q. member_val h (po_li ?q l))"
      "\<forall>h. rg_carried (po_reg ?q h) = (\<Sum>l < po_nl ?q. carry_val h (po_li ?q l))"
      by (simp_all add: retire_same)
    ultimately show ?thesis unfolding joins_ok_vals by blast
  qed
  moreover have "retired_ok ?q"
  proof -
    have "0 \<le> rg_count (po_reg p g)"
    proof -
      have "0 \<le> cell_sum p (\<lambda>x. ce_reg x = g)"
        unfolding cell_sum_def using m by (intro sum_nonneg) (auto simp: cell_val_def leases_ok_def)
      then show ?thesis using m by (simp add: cells_ok_def)
    qed
    then show ?thesis using m g by (auto simp: retired_ok_def retire_same)
  qed
  moreover have "leases_ok ?q" using m by (intro leases_ok_cong [of p ?q]) (auto simp: retire_same)
  moreover have "\<forall>(r, h) \<in> set (po_regs ?q). 0 < rg_members (po_reg ?q h)"
    using m regs by (auto simp: retire_same(7))
  ultimately show ?thesis by (simp add: ledger_inv_def members_ok_def)
qed

lemma detachLocked_inv:
  assumes "ledger_inv p" and "\<And>c. \<not> orphan p c"
  shows "ledger_inv (detachLocked p l) \<and> outer_frame p (detachLocked p l) \<and> (\<forall>c. \<not> orphan (detachLocked p l) c)
    \<and> po_li (detachLocked p l) = (po_li p)(l := (po_li p l)\<lparr>li_reg := (if li_counted (po_li p l) then 0 else li_reg (po_li p l)),
          li_counted := False\<rparr>)"
proof (cases "li_counted (po_li p l)")
  case False
  then have "detachLocked p l = p" by (simp add: detachLocked_unfold)
  moreover have "(po_li p)(l := (po_li p l)\<lparr>li_reg := li_reg (po_li p l), li_counted := False\<rparr>) = po_li p"
    using False by (auto simp: fun_eq_iff)
  ultimately show ?thesis using assms False by simp
next
  case True
  define g where "g = li_reg (po_li p l)"
  let ?q = "leave g l p"
  note lv = leave_but [OF assms(1) True, folded g_def]
  have li: "po_li ?q = (po_li p)(l := (po_li p l)\<lparr>li_reg := 0, li_counted := False\<rparr>)" by (simp add: leave_def)
  have of_q: "outer_frame p ?q" by (simp add: leave_def outer_frame_def)
  have no_q: "\<not> orphan ?q c" for c
    using assms(2) [of c] by (auto simp: orphan_def leave_def split: if_splits)
  show ?thesis
  proof (cases "rg_members (po_reg ?q g) > 0")
    case True': True
    then have eq: "detachLocked p l = ?q" using True by (simp add: detachLocked_unfold g_def Let_def)
    show ?thesis unfolding eq using ledger_but_inv [OF lv(1)] True' of_q no_q li True by auto
  next
    case False
    let ?r = "retire g ?q"
    let ?d = "detach_moves ?r (rg_cells (po_reg ?r g))"
    have eq: "detachLocked p l = ?d" using True False by (simp add: detachLocked_unfold g_def Let_def)
    have r: "ledger_inv ?r"
      by (rule retire_inv [OF lv(1)]) (use lv(2) False in \<open>auto simp: leave_def\<close>)
    have cells: "distinct (rg_cells (po_reg ?r g))"
      "set (rg_cells (po_reg ?r g)) = {c. c < po_nc ?r \<and> ce_reg (po_cell ?r c) = g \<and> ce_n (po_cell ?r c) \<noteq> 0}"
      using r unfolding ledger_inv_def cells_ok_def by blast+
    have "\<forall>c \<in> set (rg_cells (po_reg ?r g)). c < po_nc ?r \<and> ce_n (po_cell ?r c) \<noteq> 0
        \<and> rg_retired (po_reg ?r (ce_reg (po_cell ?r c)))"
      unfolding cells(2) by (auto simp: retire_same(7))
    note mv = detach_moves_inv [OF r this cells(1)]
    have fr: "same_frame ?r ?d" using mv by blast
    have "outer_frame ?r ?d" using fr by (simp add: same_frame_def outer_frame_def)
    then have "outer_frame p ?d" using of_q retire_same(2) [of ?q g] outer_frame_trans by blast
    moreover have "po_li ?d = po_li ?q" using fr by (simp add: same_frame_def retire_same)
    moreover have "\<not> orphan ?d c" for c
    proof
      assume o: "orphan ?d c"
      let ?x = "po_li ?r (ce_l (po_cell ?r c))"
      have c: "c < po_nc ?r" "ce_n (po_cell ?r c) \<noteq> 0" "li_counted ?x" "rg_retired (po_reg ?r (ce_reg (po_cell ?d c)))"
        using o fr by (auto simp: orphan_def same_frame_def)
      show False
      proof (cases "ce_reg (po_cell ?r c) = g")
        case True
        then have "ce_reg (po_cell ?d c) = li_reg ?x" using mv c cells(2) by simp
        moreover have "\<not> rg_retired (po_reg ?r (li_reg ?x))"
          using r c(3) unfolding ledger_inv_def members_ok_def joins_ok_def by blast
        ultimately show False using c(4) by simp
      next
        case False
        then have "ce_reg (po_cell ?d c) = ce_reg (po_cell ?q c)" using mv cells(2) by (simp add: retire_same)
        then show False using c False no_q [of c] by (simp add: orphan_def retire_same)
      qed
    qed
    ultimately show ?thesis unfolding eq using mv li True by simp
  qed
qed

subsection \<open>The invariant of the pool\<close>

definition pool_inv :: "Pool \<Rightarrow> bool" where
  "pool_inv p =
     (ledger_inv p \<and> (\<forall>c. \<not> orphan p c)
      \<and> (\<forall>l. li_counted (po_li p l) \<longleftrightarrow> li_open (po_li p l) \<and> li_accepting (po_li p l))
      \<and> (0 < po_total p \<longrightarrow> po_inUse p \<le> po_total p) \<and> po_ruleCap p = ruleCapFor (po_total p))"

lemma ledger_inv_upd_li:
  assumes "ledger_inv p" and "l < po_nl p"
    and "\<And>x. li_flows (f x) = li_flows x" and "\<And>x. li_cells (f x) = li_cells x" and "\<And>x. li_cur (f x) = li_cur x"
    and "\<And>x. li_counted (f x) = li_counted x" and "\<And>x. li_reg (f x) = li_reg x"
    and "li_counted (po_li p l) \<Longrightarrow> li_rule (f (po_li p l)) = li_rule (po_li p l)"
  shows "ledger_inv (upd_li l f p)"
proof -
  let ?q = "upd_li l f p"
  note m = assms(1) [unfolded ledger_inv_def members_ok_def]
  have "terms_ok ?q" using m by (intro terms_ok_cong [of p ?q]) auto
  moreover have "cells_ok ?q" using m by (intro cells_ok_cong [of p ?q]) (auto simp: assms(3-5))
  moreover have "alloc_ok ?q" using m assms(2) by (auto simp: alloc_ok_def)
  moreover have "joins_ok ?q"
  proof (rule joins_ok_upd [of p l ?q "f (po_li p l)"])
    have "(li_rule (po_li p l), li_reg (po_li p l)) \<in> set (po_regs p)" if "li_counted (po_li p l)"
      using m that unfolding joins_ok_def by blast
    then show "(li_rule (f (po_li p l)), li_reg (f (po_li p l))) \<in> set (po_regs p)" if "li_counted (f (po_li p l))"
      using that assms(6-8) by simp
  qed (use m assms in \<open>auto simp: member_val_def carry_val_def\<close>)
  moreover have "retired_ok ?q" using m by (intro retired_ok_cong [of p ?q]) auto
  moreover have "leases_ok ?q" using m by (intro leases_ok_cong [of p ?q]) auto
  ultimately show ?thesis using m by (simp add: ledger_inv_def members_ok_def)
qed

lemma orphan_upd_li:
  "(\<And>x. li_counted (f x) = li_counted x) \<Longrightarrow> orphan (upd_li l f p) c = orphan p c"
  by (simp add: orphan_def)

end
