(* ===== verification/Resource_Steps.thy ===== *)
theory Resource_Steps
  imports Resource_Invariant
begin

section \<open>Every operation of the flow budget keeps the ledger\<close>

text \<open>
  Taking a slot and releasing it, and the operations that move a listener between
  registrations, keep the invariant of the pool. The last part puts the operations
  together as a transition system, whose reachable states satisfy the invariant.
\<close>

subsection \<open>Taking a slot\<close>

definition take_cell :: "Pool \<Rightarrow> nat \<Rightarrow> nat" where
  "take_cell p l =
     (case li_cur (po_li p l) of
        Some c \<Rightarrow> (if ce_reg (po_cell p c) = li_reg (po_li p l) then c else po_nc p)
      | None \<Rightarrow> po_nc p)"

definition before_count :: "Pool \<Rightarrow> nat \<Rightarrow> Pool" where
  "before_count p l =
     (let g = li_reg (po_li p l);
          p = p\<lparr>po_inUse := po_inUse p + 1\<rparr>;
          p = upd_li l (\<lambda>x. x\<lparr>li_flows := li_flows x + 1\<rparr>) p;
          p = upd_reg g (\<lambda>r. r\<lparr>rg_carried := rg_carried r + 1\<rparr>) p;
          (c, p) = cellFor p l
      in upd_cell c (\<lambda>x. x\<lparr>ce_n := ce_n x + 1\<rparr>) p)"

lemma grant_unfold:
  "grant p l =
     (po_nx p, (addCountLocked (before_count p l) (li_reg (po_li p l)) 1)
        \<lparr>po_nx := po_nx p + 1, po_lease := (po_lease p)(po_nx p := \<lparr>ls_l = l, ls_c = take_cell p l, ls_done = False\<rparr>)\<rparr>)"
  by (auto simp: grant_def before_count_def cellFor_def take_cell_def Let_def split: option.splits)

lemma cur_cell:
  assumes "cells_ok p" and "li_cur (po_li p l) = Some c"
  shows "c < po_nc p" and "ce_l (po_cell p c) = l" and "ce_n (po_cell p c) \<noteq> 0"
    and "c \<in> set (li_cells (po_li p l))" and "c \<in> set (rg_cells (po_reg p (ce_reg (po_cell p c))))"
proof -
  show c: "c \<in> set (li_cells (po_li p l))" using assms unfolding cells_ok_def by blast
  then show d: "c < po_nc p" "ce_l (po_cell p c) = l" "ce_n (po_cell p c) \<noteq> 0"
    using assms(1) unfolding cells_ok_def by blast+
  then show "c \<in> set (rg_cells (po_reg p (ce_reg (po_cell p c))))" using assms(1) unfolding cells_ok_def by blast
qed

lemma before_count_fields:
  fixes l :: nat
  assumes "cells_ok p"
  defines "c \<equiv> take_cell p l" and "g \<equiv> li_reg (po_li p l)" and "q \<equiv> before_count p l"
  shows "po_nc q = (if c = po_nc p then po_nc p + 1 else po_nc p)" and "c \<le> po_nc p"
    and "po_cell q = (po_cell p)(c := \<lparr>ce_l = l, ce_reg = g, ce_n = (if c < po_nc p then ce_n (po_cell p c) else 0) + 1\<rparr>)"
    and "po_li q = (po_li p)(l := (po_li p l)\<lparr>li_flows := li_flows (po_li p l) + 1,
          li_cells := List.insert c (li_cells (po_li p l)), li_cur := Some c\<rparr>)"
    and "po_reg q = (po_reg p)(g := (po_reg p g)\<lparr>rg_carried := rg_carried (po_reg p g) + 1,
          rg_cells := List.insert c (rg_cells (po_reg p g))\<rparr>)"
    and "c < po_nc p \<Longrightarrow> ce_l (po_cell p c) = l \<and> ce_reg (po_cell p c) = g \<and> ce_n (po_cell p c) \<noteq> 0"
proof -
  consider (fresh) "c = po_nc p" "\<And>d. li_cur (po_li p l) = Some d \<Longrightarrow> ce_reg (po_cell p d) \<noteq> g"
    | (cur) "li_cur (po_li p l) = Some c" "ce_reg (po_cell p c) = g"
  proof (cases "\<exists>d. li_cur (po_li p l) = Some d \<and> ce_reg (po_cell p d) = g")
    case True
    then have "li_cur (po_li p l) = Some c" "ce_reg (po_cell p c) = g" by (auto simp: c_def g_def take_cell_def)
    then show thesis by (rule cur)
  next
    case False
    then have "c = po_nc p" by (auto simp: c_def g_def take_cell_def split: option.splits)
    with False show thesis using fresh by blast
  qed
  then have "po_nc q = (if c = po_nc p then po_nc p + 1 else po_nc p) \<and> c \<le> po_nc p
    \<and> po_cell q = (po_cell p)(c := \<lparr>ce_l = l, ce_reg = g, ce_n = (if c < po_nc p then ce_n (po_cell p c) else 0) + 1\<rparr>)
    \<and> po_li q = (po_li p)(l := (po_li p l)\<lparr>li_flows := li_flows (po_li p l) + 1,
          li_cells := List.insert c (li_cells (po_li p l)), li_cur := Some c\<rparr>)
    \<and> po_reg q = (po_reg p)(g := (po_reg p g)\<lparr>rg_carried := rg_carried (po_reg p g) + 1,
          rg_cells := List.insert c (rg_cells (po_reg p g))\<rparr>)
    \<and> (c < po_nc p \<longrightarrow> ce_l (po_cell p c) = l \<and> ce_reg (po_cell p c) = g \<and> ce_n (po_cell p c) \<noteq> 0)"
  proof cases
    case fresh
    then show ?thesis
      by (auto simp: q_def before_count_def cellFor_def Let_def g_def [symmetric] split: option.splits)
  next
    case cur
    note k = cur_cell [OF assms(1) cur(1)]
    have "cellFor p' l = (c, p')" if "po_li p' = (po_li p)(l := x)" "li_cur x = Some c" "li_reg x = g" "po_cell p' = po_cell p"
      for p' x
      using that cur by (simp add: cellFor_def Let_def)
    then have q: "q = upd_cell c (\<lambda>x. x\<lparr>ce_n := ce_n x + 1\<rparr>) (upd_reg g (\<lambda>r. r\<lparr>rg_carried := rg_carried r + 1\<rparr>)
        (upd_li l (\<lambda>x. x\<lparr>li_flows := li_flows x + 1\<rparr>) (p\<lparr>po_inUse := po_inUse p + 1\<rparr>)))"
      using cur by (simp add: q_def before_count_def Let_def g_def)
    have cell: "(po_cell p c)\<lparr>ce_n := n\<rparr> = \<lparr>ce_l = l, ce_reg = g, ce_n = n\<rparr>" for n
      using k(2) cur(2) by simp
    have cu: "(po_li p l)\<lparr>li_flows := n, li_cur := Some c\<rparr> = (po_li p l)\<lparr>li_flows := n\<rparr>" for n
      using cur(1) by (cases "po_li p l") simp
    show ?thesis using k cur by (simp add: q cell cu in_set_insert)
  qed
  then show "po_nc q = (if c = po_nc p then po_nc p + 1 else po_nc p)" "c \<le> po_nc p"
    "po_cell q = (po_cell p)(c := \<lparr>ce_l = l, ce_reg = g, ce_n = (if c < po_nc p then ce_n (po_cell p c) else 0) + 1\<rparr>)"
    "po_li q = (po_li p)(l := (po_li p l)\<lparr>li_flows := li_flows (po_li p l) + 1,
          li_cells := List.insert c (li_cells (po_li p l)), li_cur := Some c\<rparr>)"
    "po_reg q = (po_reg p)(g := (po_reg p g)\<lparr>rg_carried := rg_carried (po_reg p g) + 1,
          rg_cells := List.insert c (rg_cells (po_reg p g))\<rparr>)"
    "c < po_nc p \<Longrightarrow> ce_l (po_cell p c) = l \<and> ce_reg (po_cell p c) = g \<and> ce_n (po_cell p c) \<noteq> 0"
    by blast+
qed

lemma before_count_same:
  "po_total (before_count p l) = po_total p" "po_ruleCap (before_count p l) = po_ruleCap p"
  "po_inUse (before_count p l) = po_inUse p + 1" "po_regs (before_count p l) = po_regs p"
  "po_retired (before_count p l) = po_retired p" "po_minimum (before_count p l) = po_minimum p"
  "po_regSerial (before_count p l) = po_regSerial p" "po_nl (before_count p l) = po_nl p"
  "po_lease (before_count p l) = po_lease p" "po_nx (before_count p l) = po_nx p"
  "po_unfilled (before_count p l) = po_unfilled p" "po_floorShort (before_count p l) = po_floorShort p"
  "po_unfilledRegs (before_count p l) = po_unfilledRegs p" "po_floorShortRegs (before_count p l) = po_floorShortRegs p"
  by (simp_all add: before_count_def cellFor_def Let_def split: option.splits prod.splits)

lemma counted_live:
  assumes "ledger_inv p" and "li_counted (po_li p l)"
  shows "l < po_nl p" and "(li_rule (po_li p l), li_reg (po_li p l)) \<in> set (po_regs p)"
    and "0 < li_reg (po_li p l)" and "li_reg (po_li p l) \<le> po_regSerial p" and "\<not> rg_retired (po_reg p (li_reg (po_li p l)))"
    and "li_reg (po_li p l) \<in> snd ` set (po_regs p)"
proof -
  note m = assms(1) [unfolded ledger_inv_def members_ok_def]
  show "l < po_nl p" using m assms(2) counted_allocated by blast
  show r: "(li_rule (po_li p l), li_reg (po_li p l)) \<in> set (po_regs p)"
    using m assms(2) unfolding joins_ok_def by blast
  then show "0 < li_reg (po_li p l)" "li_reg (po_li p l) \<le> po_regSerial p" "\<not> rg_retired (po_reg p (li_reg (po_li p l)))"
    using m unfolding joins_ok_def by blast+
  show "li_reg (po_li p l) \<in> snd ` set (po_regs p)" using r by force
qed

lemma retired_iff_left:
  assumes "ledger_inv p" and "0 < g" and "g \<le> po_regSerial p"
  shows "rg_retired (po_reg p g) \<longleftrightarrow> g \<notin> snd ` set (po_regs p)"
  using assms live_reg_iff [of p g] by (auto simp: ledger_inv_def members_ok_def)

lemma grant_cell_sum:
  assumes "cells_ok p" and "\<And>x y. ce_l x = ce_l y \<Longrightarrow> ce_reg x = ce_reg y \<Longrightarrow> P x = P y"
  shows "cell_sum (snd (grant p l)) P
    = cell_sum p P + of_bool (P \<lparr>ce_l = l, ce_reg = li_reg (po_li p l), ce_n = 0\<rparr>)"
proof -
  let ?c = "take_cell p l" and ?q = "snd (grant p l)"
  note f = before_count_fields [OF assms(1), of l]
  have q: "po_nc ?q = po_nc (before_count p l)" "po_cell ?q = po_cell (before_count p l)" by (simp_all add: grant_unfold)
  show ?thesis
  proof (cases "?c < po_nc p")
    case True
    then show ?thesis
      using cell_sum_upd [OF True, of ?q, OF _ q(2) [unfolded f(3)]] q(1) f(1) f(6) [OF True]
        assms(2) [of "po_cell p ?c" "\<lparr>ce_l = l, ce_reg = li_reg (po_li p l), ce_n = 0\<rparr>"]
        assms(2) [of "\<lparr>ce_l = l, ce_reg = li_reg (po_li p l), ce_n = ce_n (po_cell p ?c) + 1\<rparr>"
          "\<lparr>ce_l = l, ce_reg = li_reg (po_li p l), ce_n = 0\<rparr>"]
      by (simp add: cell_val_def)
  next
    case False
    then have c: "?c = po_nc p" using f(2) by simp
    have "(\<Sum>d < po_nc p. cell_val P (po_cell ?q d)) = (\<Sum>d < po_nc p. cell_val P (po_cell p d))"
      unfolding q f(3) c by (rule sum.cong) auto
    moreover have "cell_val P (po_cell ?q (po_nc p)) = of_bool (P \<lparr>ce_l = l, ce_reg = li_reg (po_li p l), ce_n = 0\<rparr>)"
      using assms(2) [of "\<lparr>ce_l = l, ce_reg = li_reg (po_li p l), ce_n = 1\<rparr>"
          "\<lparr>ce_l = l, ce_reg = li_reg (po_li p l), ce_n = 0\<rparr>"]
      by (simp add: q f(3) c cell_val_def)
    moreover have "po_nc ?q = Suc (po_nc p)" by (simp add: q f(1) c)
    ultimately show ?thesis by (simp add: cell_sum_def)
  qed
qed

lemma grant_fields:
  assumes "ledger_inv p" and "li_counted (po_li p l)"
  defines "c \<equiv> take_cell p l" and "g \<equiv> li_reg (po_li p l)" and "q \<equiv> snd (grant p l)"
  shows "po_reg q = (po_reg p)(g := (po_reg p g)\<lparr>rg_carried := rg_carried (po_reg p g) + 1,
          rg_cells := List.insert c (rg_cells (po_reg p g)), rg_count := rg_count (po_reg p g) + 1\<rparr>)"
    and "po_retired q = po_retired p" and "po_regs q = po_regs p" and "po_regSerial q = po_regSerial p"
    and "po_nl q = po_nl p" and "po_inUse q = po_inUse p + 1" and "po_total q = po_total p" and "po_ruleCap q = po_ruleCap p"
    and "po_nx q = po_nx p + 1"
    and "po_lease q = (po_lease p)(po_nx p := \<lparr>ls_l = l, ls_c = c, ls_done = False\<rparr>)"
    and "po_li q = po_li (before_count p l)" and "po_cell q = po_cell (before_count p l)" and "po_nc q = po_nc (before_count p l)"
  using assms before_count_fields [of p l] counted_live [OF assms(1,2)]
  by (simp_all add: grant_unfold before_count_same ledger_inv_def)

lemma grant_terms:
  assumes "ledger_inv p" and "li_counted (po_li p l)"
  shows "terms_ok (snd (grant p l))"
proof -
  let ?b = "before_count p l" and ?g = "li_reg (po_li p l)"
  note m = assms(1) [unfolded ledger_inv_def members_ok_def]
  have f: "po_reg ?b = (po_reg p)(?g := (po_reg p ?g)\<lparr>rg_carried := rg_carried (po_reg p ?g) + 1,
          rg_cells := List.insert (take_cell p l) (rg_cells (po_reg p ?g))\<rparr>)"
    using before_count_fields(5) m by blast
  have "terms_ok ?b"
    using m by (intro terms_ok_cong [of p ?b]) (auto simp: before_count_same f)
  moreover have "distinct (map snd (po_regs ?b))" using m regs_snd_distinct by (simp add: before_count_same)
  moreover have "rg_retired (po_reg ?b ?g) \<longleftrightarrow> ?g \<notin> snd ` set (po_regs ?b)"
    using counted_live [OF assms] by (simp add: before_count_same f)
  ultimately have "terms_ok (addCountLocked ?b ?g 1)" by (rule addCountLocked_terms)
  then show ?thesis by (rule terms_ok_cong) (simp_all add: grant_unfold)
qed

lemma grant_cells:
  assumes "ledger_inv p" and "li_counted (po_li p l)"
  shows "cells_ok (snd (grant p l))"
proof -
  let ?q = "snd (grant p l)" and ?c = "take_cell p l" and ?g = "li_reg (po_li p l)"
  have ok: "cells_ok p" using assms(1) by (simp add: ledger_inv_def)
  have nn: "0 \<le> ce_n (po_cell p d)" if "d < po_nc p" for d using ce_n_nonneg that assms(1) by (auto simp: ledger_inv_def)
  note f = before_count_fields [OF ok, of l]
  note g = grant_fields [OF assms]
  have sums: "po_inUse p = cell_sum p (\<lambda>_. True)" "rg_count (po_reg p h) = cell_sum p (\<lambda>x. ce_reg x = h)"
    "li_flows (po_li p k) = cell_sum p (\<lambda>x. ce_l x = k)" for h k
    using ok unfolding cells_ok_def by blast+
  have rc: "distinct (rg_cells (po_reg p h))"
    "set (rg_cells (po_reg p h)) = {c. c < po_nc p \<and> ce_reg (po_cell p c) = h \<and> ce_n (po_cell p c) \<noteq> 0}" for h
    using ok unfolding cells_ok_def by blast+
  have lc: "distinct (li_cells (po_li p k))"
    "set (li_cells (po_li p k)) = {c. c < po_nc p \<and> ce_l (po_cell p c) = k \<and> ce_n (po_cell p c) \<noteq> 0}" for k
    using ok unfolding cells_ok_def by blast+
  have cu: "li_cur (po_li p k) = Some d \<Longrightarrow> d \<in> set (li_cells (po_li p k))" for k d
    using ok unfolding cells_ok_def by blast
  have nz: "(if ?c < po_nc p then ce_n (po_cell p ?c) else 0) + 1 \<noteq> 0" using nn [of ?c] by auto
  have iu: "d < po_nc ?q \<and> ce_n (po_cell ?q d) \<noteq> 0 \<longleftrightarrow> d = ?c \<or> d < po_nc p \<and> ce_n (po_cell p d) \<noteq> 0" for d
    using nz f(2) by (cases "d = ?c") (auto simp: g(12,13) f(1,3))
  have at: "ce_reg (po_cell ?q d) = (if d = ?c then ?g else ce_reg (po_cell p d))"
    "ce_l (po_cell ?q d) = (if d = ?c then l else ce_l (po_cell p d))" for d
    by (simp_all add: g(12) f(3))
  have "po_inUse ?q = cell_sum ?q (\<lambda>_. True)" by (simp add: grant_cell_sum [OF ok] g sums)
  moreover have "rg_count (po_reg ?q h) = cell_sum ?q (\<lambda>x. ce_reg x = h)" for h
    by (simp add: grant_cell_sum [OF ok] g sums(2))
  moreover have "li_flows (po_li ?q k) = cell_sum ?q (\<lambda>x. ce_l x = k)" for k
    by (simp add: grant_cell_sum [OF ok] g f sums(3))
  moreover have "distinct (rg_cells (po_reg ?q h))
      \<and> set (rg_cells (po_reg ?q h)) = {d. d < po_nc ?q \<and> ce_reg (po_cell ?q d) = h \<and> ce_n (po_cell ?q d) \<noteq> 0}" for h
  proof -
    have "{d. d < po_nc ?q \<and> ce_reg (po_cell ?q d) = h \<and> ce_n (po_cell ?q d) \<noteq> 0}
        = {d. d < po_nc p \<and> ce_reg (po_cell p d) = h \<and> ce_n (po_cell p d) \<noteq> 0} \<union> (if h = ?g then {?c} else {})"
      using iu at f(6) by auto
    then show ?thesis using rc [of h] by (auto simp: g(1))
  qed
  moreover have "distinct (li_cells (po_li ?q k))
      \<and> set (li_cells (po_li ?q k)) = {d. d < po_nc ?q \<and> ce_l (po_cell ?q d) = k \<and> ce_n (po_cell ?q d) \<noteq> 0}" for k
  proof -
    have "{d. d < po_nc ?q \<and> ce_l (po_cell ?q d) = k \<and> ce_n (po_cell ?q d) \<noteq> 0}
        = {d. d < po_nc p \<and> ce_l (po_cell p d) = k \<and> ce_n (po_cell p d) \<noteq> 0} \<union> (if k = l then {?c} else {})"
      using iu at f(6) by auto
    then show ?thesis using lc [of k] by (auto simp: g(11) f(4))
  qed
  moreover have "li_cur (po_li ?q k) = Some d \<Longrightarrow> d \<in> set (li_cells (po_li ?q k))" for k d
    using cu [of k d] by (simp add: g f split: if_splits)
  ultimately show ?thesis unfolding cells_ok_def by blast
qed

lemma open_leases_bound:
  assumes "leases_ok p" and "po_nc p \<le> c"
  shows "open_leases p c = 0"
  using assms by (auto simp: open_leases_def leases_ok_def)

lemma grant_leases:
  assumes "ledger_inv p" and "li_counted (po_li p l)"
  shows "leases_ok (snd (grant p l))"
proof -
  let ?q = "snd (grant p l)" and ?c = "take_cell p l"
  have ok: "cells_ok p" "leases_ok p" using assms(1) by (simp_all add: ledger_inv_def)
  note f = before_count_fields [OF ok(1), of l]
  note g = grant_fields [OF assms]
  have ol: "open_leases ?q d = open_leases p d + of_bool (d = ?c)" for d
  proof -
    have "{x. x < po_nx ?q \<and> \<not> ls_done (po_lease ?q x) \<and> ls_c (po_lease ?q x) = d}
        = {x. x < po_nx p \<and> \<not> ls_done (po_lease p x) \<and> ls_c (po_lease p x) = d} \<union> (if d = ?c then {po_nx p} else {})"
      by (auto simp: g(9,10))
    then show ?thesis by (simp add: open_leases_def card_insert_if)
  qed
  have "ce_n (po_cell ?q d) = int (open_leases ?q d)" if "d < po_nc ?q" for d
  proof (cases "d = ?c")
    case True
    have "(if ?c < po_nc p then ce_n (po_cell p ?c) else 0) = int (open_leases p ?c)"
      using ok(2) open_leases_bound [OF ok(2), of ?c] by (auto simp: leases_ok_def)
    then show ?thesis using True by (simp add: g(12) f(3) ol)
  next
    case False
    then have "d < po_nc p" using that f(1,2) by (auto simp: g(13) split: if_splits)
    then show ?thesis using False ok(2) by (simp add: g(12) f(3) ol leases_ok_def)
  qed
  moreover have "ls_c (po_lease ?q x) < po_nc ?q \<and> ls_l (po_lease ?q x) = ce_l (po_cell ?q (ls_c (po_lease ?q x)))"
    if "x < po_nx ?q" "\<not> ls_done (po_lease ?q x)" for x
  proof (cases "x = po_nx p")
    case True
    then show ?thesis using f(1,2) by (auto simp: g(10,12,13) f(3))
  next
    case False
    then have "ls_c (po_lease p x) < po_nc p" "ls_l (po_lease p x) = ce_l (po_cell p (ls_c (po_lease p x)))"
      using that ok(2) by (auto simp: g(9,10) leases_ok_def)
    then show ?thesis using False f(1,6) by (auto simp: g(10,12,13) f(3))
  qed
  ultimately show ?thesis by (auto simp: leases_ok_def)
qed

lemma grant_inv:
  assumes "ledger_inv p" and "li_counted (po_li p l)" and "\<And>c. \<not> orphan p c"
  shows "ledger_inv (snd (grant p l))" and "\<And>c. \<not> orphan (snd (grant p l)) c"
proof -
  let ?q = "snd (grant p l)" and ?g = "li_reg (po_li p l)"
  note m = assms(1) [unfolded ledger_inv_def members_ok_def]
  have ok: "cells_ok p" using m by blast
  note f = before_count_fields [OF ok, of l]
  note g = grant_fields [OF assms(1,2)]
  note live = counted_live [OF assms(1,2)]
  have "alloc_ok ?q" using m live(1,3,4) by (auto simp: alloc_ok_def g f(4))
  moreover have j: "joins_ok ?q"
    by (rule joins_ok_upd [of p l ?q "(po_li p l)\<lparr>li_flows := li_flows (po_li p l) + 1,
          li_cells := List.insert (take_cell p l) (li_cells (po_li p l)), li_cur := Some (take_cell p l)\<rparr>"])
      (use m live(1,2) assms(2) in \<open>auto simp: g(1-5,11) f(4) member_val_def carry_val_def\<close>)
  moreover have "retired_ok ?q"
    using m live(5) by (auto simp: retired_ok_def g(1,2))
  moreover have "\<forall>(r, h) \<in> set (po_regs ?q). 0 < rg_members (po_reg ?q h)" using m by (auto simp: g(1,3))
  ultimately show "ledger_inv ?q"
    using grant_terms [OF assms(1,2)] grant_cells [OF assms(1,2)] grant_leases [OF assms(1,2)]
    by (simp add: ledger_inv_def members_ok_def)
  show "\<not> orphan ?q d" for d
  proof
    assume o: "orphan ?q d"
    have ret: "rg_retired (po_reg ?q h) = rg_retired (po_reg p h)" for h by (simp add: g(1))
    have cnt: "li_counted (po_li ?q k) = li_counted (po_li p k)" for k by (simp add: g(11) f(4))
    have "d \<noteq> take_cell p l" using o live(5) by (auto simp: orphan_def ret g(12) f(3))
    moreover from this have "d < po_nc p" using o f(1,2) by (auto simp: orphan_def g(13) split: if_splits)
    ultimately have "orphan p d" using o by (auto simp: orphan_def ret cnt g(12) f(3))
    with assms(3) show False by blast
  qed
qed

lemma judge_budget: "judgeLocked p g = ([], n) \<Longrightarrow> po_inUse p < po_total p"
  by (auto simp: judgeLocked_def Let_def ReasonBudget_def split: if_splits)

lemma pool_inv_counters:
  assumes "pool_inv p"
  shows "pool_inv (p\<lparr>po_notAccepting := a\<rparr>)" "pool_inv (p\<lparr>po_refusals := b\<rparr>)" "pool_inv (p\<lparr>po_doubleReleases := a\<rparr>)"
proof -
  have *: "pool_inv q" if "q = p\<lparr>po_notAccepting := a, po_refusals := b, po_doubleReleases := d\<rparr>" for q a b d
  proof -
    note m = assms [unfolded pool_inv_def ledger_inv_def]
    have "terms_ok q" using m by (intro terms_ok_cong [of p q]) (auto simp: that)
    moreover have "cells_ok q" using m by (intro cells_ok_cong [of p q]) (auto simp: that)
    moreover have "members_ok q" using m by (intro members_ok_cong [of p q]) (auto simp: that)
    moreover have "retired_ok q" using m by (intro retired_ok_cong [of p q]) (auto simp: that)
    moreover have "leases_ok q" using m by (intro leases_ok_cong [of p q]) (auto simp: that)
    ultimately show ?thesis using m by (simp add: pool_inv_def ledger_inv_def alloc_ok_def orphan_def that)
  qed
  show "pool_inv (p\<lparr>po_notAccepting := a\<rparr>)" by (rule * [where a = a and b = "po_refusals p" and d = "po_doubleReleases p"]) simp
  show "pool_inv (p\<lparr>po_refusals := b\<rparr>)" by (rule * [where a = "po_notAccepting p" and b = b and d = "po_doubleReleases p"]) simp
  show "pool_inv (p\<lparr>po_doubleReleases := a\<rparr>)" by (rule * [where a = "po_notAccepting p" and b = "po_refusals p" and d = a]) simp
qed

lemma Take_inv:
  assumes "pool_inv p"
  shows "pool_inv (snd (Take p l))"
proof -
  consider (closed) "\<not> li_counted (po_li p l)"
    | (refused) reason flows where "li_counted (po_li p l)" "0 < po_total p" "judgeLocked p (li_reg (po_li p l)) = (reason, flows)" "reason \<noteq> []"
    | (granted) "li_counted (po_li p l)" "0 < po_total p \<longrightarrow> po_inUse p < po_total p" "snd (Take p l) = snd (grant p l)"
  proof -
    assume c: "\<not> li_counted (po_li p l) \<Longrightarrow> thesis"
      "\<And>reason flows. li_counted (po_li p l) \<Longrightarrow> 0 < po_total p \<Longrightarrow> judgeLocked p (li_reg (po_li p l)) = (reason, flows)
         \<Longrightarrow> reason \<noteq> [] \<Longrightarrow> thesis"
      "li_counted (po_li p l) \<Longrightarrow> 0 < po_total p \<longrightarrow> po_inUse p < po_total p \<Longrightarrow> snd (Take p l) = snd (grant p l) \<Longrightarrow> thesis"
    obtain reason flows where j: "judgeLocked p (li_reg (po_li p l)) = (reason, flows)" by force
    show thesis
    proof (cases "li_counted (po_li p l)")
      case True
      then show ?thesis
        using c j judge_budget [of p "li_reg (po_li p l)" flows]
        by (cases "0 < po_total p"; cases "reason = []") (auto simp: Take_def Let_def split: prod.splits)
    qed (rule c(1))
  qed
  then show ?thesis
  proof cases
    case closed
    then show ?thesis using pool_inv_counters [OF assms] by (simp add: Take_def)
  next
    case refused
    then show ?thesis using pool_inv_counters [OF assms] by (simp add: Take_def refuseLocked_def Let_def)
  next
    case granted
    have inv: "ledger_inv p" "\<And>c. \<not> orphan p c" using assms by (simp_all add: pool_inv_def)
    note g = grant_fields [OF inv(1) granted(1)]
    have "cells_ok p" using inv by (simp add: ledger_inv_def)
    then have "li_counted (po_li (snd (grant p l)) k) = li_counted (po_li p k) \<and> li_open (po_li (snd (grant p l)) k) = li_open (po_li p k)
        \<and> li_accepting (po_li (snd (grant p l)) k) = li_accepting (po_li p k)" for k
      by (simp add: g(11) before_count_fields(4))
    then show ?thesis
      using grant_inv [OF inv(1) granted(1) inv(2)] assms granted(2)
      by (auto simp: pool_inv_def granted(3) g)
  qed
qed

subsection \<open>Releasing a slot\<close>

definition before_uncount :: "Pool \<Rightarrow> nat \<Rightarrow> Pool" where
  "before_uncount p x =
     (let l = ls_l (po_lease p x);
          c = ls_c (po_lease p x);
          p = p\<lparr>po_lease := (po_lease p)(x := (po_lease p x)\<lparr>ls_done := True\<rparr>), po_inUse := po_inUse p - 1\<rparr>;
          p = upd_li l (\<lambda>x. x\<lparr>li_flows := li_flows x - 1\<rparr>) p;
          p = (if li_counted (po_li p l) then upd_reg (li_reg (po_li p l)) (\<lambda>r. r\<lparr>rg_carried := rg_carried r - 1\<rparr>) p else p);
          p = upd_cell c (\<lambda>x. x\<lparr>ce_n := ce_n x - 1\<rparr>) p
      in if ce_n (po_cell p c) = 0
         then upd_li l (\<lambda>x. x\<lparr>li_cells := removeAll c (li_cells x), li_cur := (if li_cur x = Some c then None else li_cur x)\<rparr>)
                (upd_reg (ce_reg (po_cell p c)) (\<lambda>r. r\<lparr>rg_cells := removeAll c (rg_cells r)\<rparr>) p)
         else p)"

lemma before_uncount_same:
  "po_total (before_uncount p x) = po_total p" "po_ruleCap (before_uncount p x) = po_ruleCap p"
  "po_inUse (before_uncount p x) = po_inUse p - 1" "po_regs (before_uncount p x) = po_regs p"
  "po_retired (before_uncount p x) = po_retired p" "po_minimum (before_uncount p x) = po_minimum p"
  "po_regSerial (before_uncount p x) = po_regSerial p" "po_nl (before_uncount p x) = po_nl p"
  "po_lease (before_uncount p x) = (po_lease p)(x := (po_lease p x)\<lparr>ls_done := True\<rparr>)"
  "po_nx (before_uncount p x) = po_nx p" "po_nc (before_uncount p x) = po_nc p"
  "po_unfilled (before_uncount p x) = po_unfilled p" "po_floorShort (before_uncount p x) = po_floorShort p"
  "po_unfilledRegs (before_uncount p x) = po_unfilledRegs p" "po_floorShortRegs (before_uncount p x) = po_floorShortRegs p"
  "po_cell (before_uncount p x) = (po_cell p)(ls_c (po_lease p x) :=
     (po_cell p (ls_c (po_lease p x)))\<lparr>ce_n := ce_n (po_cell p (ls_c (po_lease p x))) - 1\<rparr>)"
  by (simp_all add: before_uncount_def Let_def)

lemma Release_unfold:
  "\<not> ls_done (po_lease p x) \<Longrightarrow>
     Lease_Release p x = (True, addCountLocked (before_uncount p x) (ce_reg (po_cell p (ls_c (po_lease p x)))) (-1))"
  by (simp add: Lease_Release_def before_uncount_def Let_def)

lemma before_uncount_regs:
  fixes x :: nat and p :: Pool
  defines "l \<equiv> ls_l (po_lease p x)" and "c \<equiv> ls_c (po_lease p x)" and "q \<equiv> before_uncount p x"
  defines "gone \<equiv> (ce_n (po_cell p c) = 1)"
  shows "rg_carried (po_reg q h) = rg_carried (po_reg p h) - of_bool (li_counted (po_li p l) \<and> h = li_reg (po_li p l))"
    and "rg_cells (po_reg q h) = (if gone \<and> h = ce_reg (po_cell p c) then removeAll c (rg_cells (po_reg p h)) else rg_cells (po_reg p h))"
    and "rg_count (po_reg q h) = rg_count (po_reg p h)" and "rg_retired (po_reg q h) = rg_retired (po_reg p h)"
    and "rg_members (po_reg q h) = rg_members (po_reg p h)" and "rg_rule (po_reg q h) = rg_rule (po_reg p h)"
    and "rg_serial (po_reg q h) = rg_serial (po_reg p h)"
    and "\<not> (li_counted (po_li p l) \<and> h = li_reg (po_li p l)) \<Longrightarrow> h \<noteq> ce_reg (po_cell p c) \<Longrightarrow> po_reg q h = po_reg p h"
    and "po_li q = (po_li p)(l := (po_li p l)\<lparr>li_flows := li_flows (po_li p l) - 1,
      li_cells := (if gone then removeAll c (li_cells (po_li p l)) else li_cells (po_li p l)),
      li_cur := (if gone \<and> li_cur (po_li p l) = Some c then None else li_cur (po_li p l))\<rparr>)"
  by (auto simp: before_uncount_def Let_def gone_def q_def c_def l_def)

lemma release_lease:
  assumes "ledger_inv p" and "x < po_nx p" and "\<not> ls_done (po_lease p x)"
  defines "c \<equiv> ls_c (po_lease p x)"
  shows "c < po_nc p" and "ls_l (po_lease p x) = ce_l (po_cell p c)" and "1 \<le> ce_n (po_cell p c)"
    and "0 < ce_reg (po_cell p c)" and "ce_reg (po_cell p c) \<le> po_regSerial p"
    and "1 \<le> rg_count (po_reg p (ce_reg (po_cell p c)))" and "ls_l (po_lease p x) < po_nl p"
proof -
  have ok: "leases_ok p" "cells_ok p" "alloc_ok p" using assms(1) by (simp_all add: ledger_inv_def)
  show c: "c < po_nc p" and l: "ls_l (po_lease p x) = ce_l (po_cell p c)" using ok assms by (auto simp: leases_ok_def)
  have "x \<in> {y. y < po_nx p \<and> \<not> ls_done (po_lease p y) \<and> ls_c (po_lease p y) = c}" using assms by simp
  then have "0 < open_leases p c" unfolding open_leases_def by (subst card_gt_0_iff) auto
  then show n: "1 \<le> ce_n (po_cell p c)" using ok(1) c by (simp add: leases_ok_def)
  then show "0 < ce_reg (po_cell p c)" "ce_reg (po_cell p c) \<le> po_regSerial p"
    using cell_reg_allocated [OF ok(2,3) c] by auto
  show "1 \<le> rg_count (po_reg p (ce_reg (po_cell p c)))" using count_ge_cell [OF ok(2,1) c] n by simp
  show "ls_l (po_lease p x) < po_nl p"
  proof (rule ccontr)
    assume "\<not> ?thesis"
    then have "po_li p (ce_l (po_cell p c)) = zeroListener" using ok(3) l by (simp add: alloc_ok_def)
    moreover have "c \<in> set (li_cells (po_li p (ce_l (po_cell p c))))"
      using ok(2) c n unfolding cells_ok_def by force
    ultimately show False by (simp add: zeroListener_def)
  qed
qed

lemma Release_fields:
  assumes "\<not> ls_done (po_lease p x)"
  defines "c \<equiv> ls_c (po_lease p x)" and "q \<equiv> snd (Lease_Release p x)"
  defines "g \<equiv> ce_reg (po_cell p c)"
  shows "po_reg q = (po_reg (before_uncount p x))(g := (po_reg (before_uncount p x) g)\<lparr>rg_count := rg_count (po_reg p g) - 1\<rparr>)"
    and "po_retired q = (if rg_retired (po_reg p g) \<and> rg_count (po_reg p g) = 1 then removeAll g (po_retired p) else po_retired p)"
    and "po_regs q = po_regs p" and "po_regSerial q = po_regSerial p" and "po_nl q = po_nl p"
    and "po_inUse q = po_inUse p - 1" and "po_total q = po_total p" and "po_ruleCap q = po_ruleCap p" and "po_nx q = po_nx p"
    and "po_lease q = (po_lease p)(x := (po_lease p x)\<lparr>ls_done := True\<rparr>)"
    and "po_li q = po_li (before_uncount p x)" and "po_nc q = po_nc p"
    and "po_cell q = (po_cell p)(c := (po_cell p c)\<lparr>ce_n := ce_n (po_cell p c) - 1\<rparr>)"
  using assms by (simp_all add: Release_unfold before_uncount_same before_uncount_regs)

lemma Release_terms:
  assumes "ledger_inv p" and "x < po_nx p" and "\<not> ls_done (po_lease p x)"
  shows "terms_ok (snd (Lease_Release p x))"
proof -
  let ?b = "before_uncount p x" and ?g = "ce_reg (po_cell p (ls_c (po_lease p x)))"
  note m = assms(1) [unfolded ledger_inv_def members_ok_def]
  have "terms_ok ?b" using m by (intro terms_ok_cong [of p ?b]) (auto simp: before_uncount_same before_uncount_regs)
  moreover have "distinct (map snd (po_regs ?b))" using m regs_snd_distinct by (simp add: before_uncount_same)
  moreover have "rg_retired (po_reg ?b ?g) \<longleftrightarrow> ?g \<notin> snd ` set (po_regs ?b)"
    using retired_iff_left [OF assms(1)] release_lease [OF assms] by (simp add: before_uncount_same before_uncount_regs)
  ultimately show ?thesis using assms(3) by (simp add: Release_unfold addCountLocked_terms)
qed

lemma Release_cells:
  assumes "ledger_inv p" and "x < po_nx p" and "\<not> ls_done (po_lease p x)"
  shows "cells_ok (snd (Lease_Release p x))"
proof -
  let ?q = "snd (Lease_Release p x)" and ?c = "ls_c (po_lease p x)" and ?l = "ls_l (po_lease p x)"
  let ?g = "ce_reg (po_cell p ?c)"
  have ok: "cells_ok p" using assms(1) by (simp add: ledger_inv_def)
  note r = release_lease [OF assms]
  note f = Release_fields [OF assms(3)]
  have sums: "po_inUse p = cell_sum p (\<lambda>_. True)" "rg_count (po_reg p h) = cell_sum p (\<lambda>x. ce_reg x = h)"
    "li_flows (po_li p k) = cell_sum p (\<lambda>x. ce_l x = k)" for h k
    using ok unfolding cells_ok_def by blast+
  have rc: "distinct (rg_cells (po_reg p h))"
    "set (rg_cells (po_reg p h)) = {c. c < po_nc p \<and> ce_reg (po_cell p c) = h \<and> ce_n (po_cell p c) \<noteq> 0}" for h
    using ok unfolding cells_ok_def by blast+
  have lc: "distinct (li_cells (po_li p k))"
    "set (li_cells (po_li p k)) = {c. c < po_nc p \<and> ce_l (po_cell p c) = k \<and> ce_n (po_cell p c) \<noteq> 0}" for k
    using ok unfolding cells_ok_def by blast+
  have cu: "li_cur (po_li p k) = Some d \<Longrightarrow> d \<in> set (li_cells (po_li p k))" for k d
    using ok unfolding cells_ok_def by blast
  note cs = cell_sum_upd [OF r(1), of ?q, OF f(12,13)]
  have rcq: "rg_cells (po_reg ?q h) = (if ce_n (po_cell p ?c) = 1 \<and> h = ?g then removeAll ?c (rg_cells (po_reg p h)) else rg_cells (po_reg p h))" for h
    using before_uncount_regs(2) [where x = x and p = p and h = h] by (auto simp: f(1))
  have lcq: "li_cells (po_li ?q k) = (if ce_n (po_cell p ?c) = 1 \<and> k = ?l then removeAll ?c (li_cells (po_li p k)) else li_cells (po_li p k))" for k
    by (simp add: f(11) before_uncount_regs(9))
  have iu: "ce_n (po_cell ?q d) \<noteq> 0 \<longleftrightarrow> ce_n (po_cell p d) \<noteq> 0 \<and> \<not> (ce_n (po_cell p ?c) = 1 \<and> d = ?c)" for d
    using r(3) by (auto simp: f(13))
  have at: "ce_reg (po_cell ?q d) = ce_reg (po_cell p d)" "ce_l (po_cell ?q d) = ce_l (po_cell p d)" for d
    by (simp_all add: f(13))
  have "po_inUse ?q = cell_sum ?q (\<lambda>_. True)" by (simp add: cs f sums(1) cell_val_def)
  moreover have "rg_count (po_reg ?q h) = cell_sum ?q (\<lambda>x. ce_reg x = h)" for h
    using before_uncount_regs(3) [where x = x and p = p and h = h] by (simp add: cs f(1) sums(2) cell_val_def)
  moreover have "li_flows (po_li ?q k) = cell_sum ?q (\<lambda>x. ce_l x = k)" for k
    using r(2) by (auto simp: cs f(11) before_uncount_regs(9) sums(3) cell_val_def)
  moreover have "distinct (rg_cells (po_reg ?q h))
      \<and> set (rg_cells (po_reg ?q h)) = {d. d < po_nc ?q \<and> ce_reg (po_cell ?q d) = h \<and> ce_n (po_cell ?q d) \<noteq> 0}" for h
  proof -
    have e: "{d. d < po_nc ?q \<and> ce_reg (po_cell ?q d) = h \<and> ce_n (po_cell ?q d) \<noteq> 0}
        = {d. d < po_nc p \<and> ce_reg (po_cell p d) = h \<and> ce_n (po_cell p d) \<noteq> 0}
          - (if ce_n (po_cell p ?c) = 1 \<and> h = ?g then {?c} else {})"
      unfolding f(12) iu at by auto
    show ?thesis unfolding rcq e rc(2) [symmetric] using distinct_removeAll [OF rc(1)] rc(1) by simp
  qed
  moreover have "distinct (li_cells (po_li ?q k))
      \<and> set (li_cells (po_li ?q k)) = {d. d < po_nc ?q \<and> ce_l (po_cell ?q d) = k \<and> ce_n (po_cell ?q d) \<noteq> 0}" for k
  proof -
    have e: "{d. d < po_nc ?q \<and> ce_l (po_cell ?q d) = k \<and> ce_n (po_cell ?q d) \<noteq> 0}
        = {d. d < po_nc p \<and> ce_l (po_cell p d) = k \<and> ce_n (po_cell p d) \<noteq> 0}
          - (if ce_n (po_cell p ?c) = 1 \<and> k = ?l then {?c} else {})"
      unfolding f(12) iu at r(2) by auto
    show ?thesis unfolding lcq e lc(2) [symmetric] using distinct_removeAll [OF lc(1)] lc(1) by simp
  qed
  moreover have "d \<in> set (li_cells (po_li ?q k))" if "li_cur (po_li ?q k) = Some d" for k d
    unfolding lcq using cu [of k d] that by (auto simp: f(11) before_uncount_regs(9) split: if_splits)
  ultimately show ?thesis unfolding cells_ok_def by blast
qed

lemma Release_leases:
  assumes "ledger_inv p" and "x < po_nx p" and "\<not> ls_done (po_lease p x)"
  shows "leases_ok (snd (Lease_Release p x))"
proof -
  let ?q = "snd (Lease_Release p x)" and ?c = "ls_c (po_lease p x)"
  have ok: "leases_ok p" using assms(1) by (simp add: ledger_inv_def)
  note f = Release_fields [OF assms(3)]
  define S where "S d = {y. y < po_nx p \<and> \<not> ls_done (po_lease p y) \<and> ls_c (po_lease p y) = d}" for d
  have fin: "finite (S d)" for d by (simp add: S_def)
  have "{y. y < po_nx ?q \<and> \<not> ls_done (po_lease ?q y) \<and> ls_c (po_lease ?q y) = d} = S d - (if d = ?c then {x} else {})" for d
    using assms(2,3) by (auto simp: f(9,10) S_def)
  then have ol: "int (open_leases ?q d) = int (open_leases p d) - of_bool (d = ?c)" for d
  proof -
    assume e: "\<And>d. {y. y < po_nx ?q \<and> \<not> ls_done (po_lease ?q y) \<and> ls_c (po_lease ?q y) = d} = S d - (if d = ?c then {x} else {})"
    have "x \<in> S ?c" using assms(2,3) by (simp add: S_def)
    then have "card (S ?c - {x}) + 1 = card (S ?c)" using fin by (metis Suc_eq_plus1 card_Suc_Diff1)
    then show ?thesis unfolding open_leases_def e S_def [symmetric] by auto
  qed
  have "ce_n (po_cell ?q d) = int (open_leases ?q d)" if "d < po_nc ?q" for d
    using ok that by (auto simp: f(12,13) ol leases_ok_def)
  moreover have "ls_c (po_lease ?q y) < po_nc ?q \<and> ls_l (po_lease ?q y) = ce_l (po_cell ?q (ls_c (po_lease ?q y)))"
    if "y < po_nx ?q" "\<not> ls_done (po_lease ?q y)" for y
  proof -
    have "y \<noteq> x" using that by (auto simp: f(10))
    then show ?thesis using ok that by (auto simp: f(9,10,12,13) leases_ok_def)
  qed
  ultimately show ?thesis by (auto simp: leases_ok_def)
qed

lemma Release_open:
  assumes "pool_inv p" and "x < po_nx p" and "\<not> ls_done (po_lease p x)"
  shows "pool_inv (snd (Lease_Release p x))"
proof -
  let ?q = "snd (Lease_Release p x)" and ?c = "ls_c (po_lease p x)" and ?l = "ls_l (po_lease p x)"
  let ?g = "ce_reg (po_cell p ?c)"
  note P = assms(1) [unfolded pool_inv_def]
  have inv: "ledger_inv p" using P by blast
  note m = inv [unfolded ledger_inv_def members_ok_def]
  note r = release_lease [OF inv assms(2,3)]
  note f = Release_fields [OF assms(3)]
  note b = before_uncount_regs [where x = x and p = p]
  have z: "po_reg ?q h = po_reg p h" if "h = 0 \<or> po_regSerial p < h" for h
  proof -
    have "h \<noteq> ?g" using that r(4,5) by auto
    moreover have "\<not> (li_counted (po_li p ?l) \<and> h = li_reg (po_li p ?l))"
      using that counted_live [OF inv, of ?l] by auto
    ultimately show ?thesis using b(8) [of h] by (simp add: f(1))
  qed
  have "alloc_ok ?q"
    using m z r(7) by (auto simp: alloc_ok_def f(1,4,5,11) b(7,9))
  moreover have "joins_ok ?q"
    by (rule joins_ok_upd [of p ?l ?q "po_li ?q ?l"])
      (use m r(7) counted_live(2) [OF inv, of ?l] in \<open>auto simp: f(1,3,4,5,11) b member_val_def carry_val_def\<close>)
  moreover have "retired_ok ?q"
  proof -
    have "rg_retired (po_reg ?q h) = rg_retired (po_reg p h)"
      "rg_count (po_reg ?q h) = rg_count (po_reg p h) - of_bool (h = ?g)" for h
      by (simp_all add: f(1) b)
    then show ?thesis using m r(6) by (auto simp: retired_ok_def f(2) distinct_removeAll)
  qed
  moreover have "\<forall>(k, h) \<in> set (po_regs ?q). 0 < rg_members (po_reg ?q h)" using m by (auto simp: f(1,3) b)
  ultimately have "ledger_inv ?q"
    using Release_terms Release_cells Release_leases inv assms(2,3) by (simp add: ledger_inv_def members_ok_def)
  moreover have "\<not> orphan ?q d" for d
  proof
    assume "orphan ?q d"
    then have "orphan p d" using r(3) by (auto simp: orphan_def f(1,11,12,13) b split: if_splits)
    then show False using P by blast
  qed
  moreover have "li_counted (po_li ?q k) = li_counted (po_li p k) \<and> li_open (po_li ?q k) = li_open (po_li p k)
      \<and> li_accepting (po_li ?q k) = li_accepting (po_li p k)" for k
    by (simp add: f(11) b(9))
  ultimately show ?thesis using P by (auto simp: pool_inv_def f)
qed

lemma Release_pool_inv:
  assumes "pool_inv p" and "x < po_nx p"
  shows "pool_inv (snd (Lease_Release p x))"
  using Release_open [OF assms] pool_inv_counters(3) [OF assms(1)]
  by (cases "ls_done (po_lease p x)") (simp_all add: Lease_Release_def)

subsection \<open>Listeners\<close>

text \<open>An operation that ends with a listener counted exactly when it is open and accepting.\<close>

lemma pool_inv_frame:
  assumes "pool_inv p" and "ledger_inv q" and "\<forall>c. \<not> orphan q c" and "outer_frame p q"
    and "\<And>k. li_counted (po_li q k) \<longleftrightarrow> li_open (po_li q k) \<and> li_accepting (po_li q k)"
  shows "pool_inv q"
  using assms by (simp add: pool_inv_def outer_frame_def)

lemma outer_frame_upd_li: "outer_frame p (upd_li l f p)"
  by (simp add: outer_frame_def)

lemma StopAccepting_inv:
  assumes "pool_inv p" and "l < po_nl p"
  shows "pool_inv (StopAccepting p l)"
proof -
  let ?u = "upd_li l (\<lambda>x. x\<lparr>li_accepting := False\<rparr>) p"
  note P = assms(1) [unfolded pool_inv_def]
  have u: "ledger_inv ?u" by (rule ledger_inv_upd_li) (use P assms(2) in auto)
  have o: "\<not> orphan ?u c" for c using P by (simp add: orphan_upd_li)
  note d = detachLocked_inv [OF u o, of l]
  show ?thesis
    unfolding StopAccepting_def
    by (rule pool_inv_frame [OF assms(1)])
      (use d outer_frame_trans [OF outer_frame_upd_li] P in \<open>auto simp: fun_eq_iff\<close>)
qed

lemma Close_inv:
  assumes "pool_inv p" and "l < po_nl p"
  shows "pool_inv (Close p l)"
proof -
  let ?u = "upd_li l (\<lambda>x. x\<lparr>li_open := False\<rparr>) p"
  note P = assms(1) [unfolded pool_inv_def]
  have u: "ledger_inv ?u" by (rule ledger_inv_upd_li) (use P assms(2) in auto)
  have o: "\<not> orphan ?u c" for c using P by (simp add: orphan_upd_li)
  note d = detachLocked_inv [OF u o, of l]
  have "pool_inv (detachLocked ?u l)"
    by (rule pool_inv_frame [OF assms(1)])
      (use d outer_frame_trans [OF outer_frame_upd_li] P in \<open>auto simp: fun_eq_iff\<close>)
  then show ?thesis using assms(1) by (simp add: Close_def)
qed

lemma Accept_inv:
  assumes "pool_inv p" and "l < po_nl p"
  shows "pool_inv (Accept p l)"
proof -
  let ?u = "upd_li l (\<lambda>x. x\<lparr>li_accepting := True\<rparr>) p"
  note P = assms(1) [unfolded pool_inv_def]
  have u: "ledger_inv ?u" "l < po_nl ?u" by (rule ledger_inv_upd_li) (use P assms(2) in auto)
  have o: "\<not> orphan ?u c" for c using P by (simp add: orphan_upd_li)
  note d = attachLocked_inv [OF u o]
  show ?thesis
    unfolding Accept_def
    by (rule pool_inv_frame [OF assms(1)])
      (use d outer_frame_trans [OF outer_frame_upd_li] P in auto)
qed

lemma SetRule_inv:
  assumes "pool_inv p" and "l < po_nl p"
  shows "pool_inv (SetRule p l r)"
proof -
  note P = assms(1) [unfolded pool_inv_def]
  let ?d = "detachLocked p l"
  let ?u = "upd_li l (\<lambda>x. x\<lparr>li_rule := r\<rparr>) ?d"
  have d: "ledger_inv ?d" "outer_frame p ?d" "\<And>c. \<not> orphan ?d c"
    "po_li ?d = (po_li p)(l := (po_li p l)\<lparr>li_reg := (if li_counted (po_li p l) then 0 else li_reg (po_li p l)), li_counted := False\<rparr>)"
    using detachLocked_inv [of p l] P by auto
  have u: "ledger_inv ?u" "l < po_nl ?u"
    by (rule ledger_inv_upd_li) (use d assms(2) in \<open>auto simp: outer_frame_def\<close>)
  have o: "\<not> orphan ?u c" for c using d(3) by (simp add: orphan_upd_li)
  note a = attachLocked_inv [OF u o]
  have "pool_inv (attachLocked ?u l)"
    by (rule pool_inv_frame [OF assms(1)])
      (use a d(4) outer_frame_trans [OF d(2) outer_frame_trans [OF outer_frame_upd_li]] P in auto)
  then show ?thesis using assms(1) by (simp add: SetRule_def)
qed

lemma new_listener_inv:
  assumes "pool_inv p"
  shows "pool_inv (snd (new_listener p r a))"
proof -
  let ?x = "zeroListener\<lparr>li_rule := r, li_accepting := a, li_open := True\<rparr>" and ?l = "po_nl p"
  let ?u = "p\<lparr>po_nl := ?l + 1, po_li := (po_li p)(?l := ?x)\<rparr>"
  note P = assms [unfolded pool_inv_def]
  note m = P [unfolded ledger_inv_def members_ok_def]
  have z: "po_li p ?l = zeroListener" using m by (simp add: alloc_ok_def)
  have "terms_ok ?u" using m by (intro terms_ok_cong [of p ?u]) auto
  moreover have "cells_ok ?u" using m z by (intro cells_ok_cong [of p ?u]) (auto simp: zeroListener_def)
  moreover have "alloc_ok ?u" using m by (auto simp: alloc_ok_def)
  moreover have "joins_ok ?u"
  proof -
    have "(\<Sum>k < po_nl ?u. h g (po_li ?u k)) = (\<Sum>k < po_nl p. h g (po_li p k))" if "h g ?x = 0" for h :: "nat \<Rightarrow> Listener \<Rightarrow> int" and g
    proof -
      have "(\<Sum>k < po_nl p. h g (po_li ?u k)) = (\<Sum>k < po_nl p. h g (po_li p k))" by (rule sum.cong) auto
      then show ?thesis using that by simp
    qed
    from this [of member_val] this [of carry_val]
    have v: "(\<Sum>k < po_nl ?u. member_val g (po_li ?u k)) = (\<Sum>k < po_nl p. member_val g (po_li p k))"
      "(\<Sum>k < po_nl ?u. carry_val g (po_li ?u k)) = (\<Sum>k < po_nl p. carry_val g (po_li p k))" for g
      by (simp_all add: member_val_def carry_val_def zeroListener_def)
    have "\<forall>k. li_counted (po_li p k) \<longrightarrow> (li_rule (po_li p k), li_reg (po_li p k)) \<in> set (po_regs p)"
      using m unfolding joins_ok_vals by blast
    then have "\<forall>k. li_counted (po_li ?u k) \<longrightarrow> (li_rule (po_li ?u k), li_reg (po_li ?u k)) \<in> set (po_regs p)"
      by (simp add: zeroListener_def)
    moreover have "po_regs ?u = po_regs p" "po_regSerial ?u = po_regSerial p" "po_reg ?u = po_reg p" by simp_all
    ultimately show ?thesis using m unfolding joins_ok_vals v by metis
  qed
  moreover have "retired_ok ?u" using m by (intro retired_ok_cong [of p ?u]) auto
  moreover have "leases_ok ?u" using m by (intro leases_ok_cong [of p ?u]) auto
  moreover have "\<forall>(r, g) \<in> set (po_regs ?u). 0 < rg_members (po_reg ?u g)" using m by simp
  ultimately have u: "ledger_inv ?u" by (simp add: ledger_inv_def members_ok_def)
  have o: "\<not> orphan ?u c" for c using P by (auto simp: orphan_def zeroListener_def)
  have l: "?l < po_nl ?u" by simp
  note t = attachLocked_inv [OF u l o]
  let ?q = "attachLocked ?u ?l"
  have fr: "po_total ?q = po_total p" "po_inUse ?q = po_inUse p" "po_ruleCap ?q = po_ruleCap p"
    using t by (simp_all add: outer_frame_def)
  have "li_counted (po_li ?q k) \<longleftrightarrow> li_open (po_li ?q k) \<and> li_accepting (po_li ?q k)" for k
    using t P by (auto simp: zeroListener_def)
  then have "pool_inv ?q" unfolding pool_inv_def fr using t P by blast
  moreover have "snd (new_listener p r a) = ?q" by (simp add: new_listener_def Let_def)
  ultimately show ?thesis by simp
qed

subsection \<open>The pool as a transition system\<close>

inductive pool_step :: "Pool \<Rightarrow> Pool \<Rightarrow> bool" where
  Listener: "Pool_Listener p r = (l, q) \<Longrightarrow> pool_step p q"
| Pending: "PendingListener p r = (l, q) \<Longrightarrow> pool_step p q"
| Take: "l < po_nl p \<Longrightarrow> Take p l = (out, q) \<Longrightarrow> pool_step p q"
| Release: "x < po_nx p \<Longrightarrow> Lease_Release p x = (ok, q) \<Longrightarrow> pool_step p q"
| SetRule: "l < po_nl p \<Longrightarrow> pool_step p (SetRule p l r)"
| StopAccepting: "l < po_nl p \<Longrightarrow> pool_step p (StopAccepting p l)"
| Accept: "l < po_nl p \<Longrightarrow> pool_step p (Accept p l)"
| Close: "l < po_nl p \<Longrightarrow> pool_step p (Close p l)"

lemma NewPool_inv: "pool_inv (NewPool T)"
  by (auto simp: NewPool_def pool_inv_def ledger_defs terms_ok_def sums_ok_def cell_sum_def orphan_def zeroReg_def
      zeroListener_def)

lemma pool_step_inv: "pool_inv p \<Longrightarrow> pool_step p q \<Longrightarrow> pool_inv q"
proof (erule pool_step.cases)
  fix p' l out q' assume "pool_inv p" "p = p'" "q = q'" "l < po_nl p'" "Take p' l = (out, q')"
  then show "pool_inv q" using Take_inv [of p l] by simp
next
  fix p' x ok q' assume "pool_inv p" "p = p'" "q = q'" "x < po_nx p'" "Lease_Release p' x = (ok, q')"
  then show "pool_inv q" using Release_pool_inv [of p x] by simp
next
  fix p' r l q' assume "pool_inv p" "p = p'" "q = q'" "Pool_Listener p' r = (l, q')"
  then show "pool_inv q" using new_listener_inv [of p r True] by (simp add: Pool_Listener_def)
next
  fix p' r l q' assume "pool_inv p" "p = p'" "q = q'" "PendingListener p' r = (l, q')"
  then show "pool_inv q" using new_listener_inv [of p r False] by (simp add: PendingListener_def)
qed (auto intro: SetRule_inv StopAccepting_inv Accept_inv Close_inv)

interpretation pool: safe_system "\<lambda>p. \<exists>T. p = NewPool T" pool_step pool_inv
  by unfold_locales (auto simp: NewPool_inv intro: pool_step_inv)

end
