(* ===== verification/Resource_Ledger.thy ===== *)
theory Resource_Ledger
  imports Resource_Steps
begin

section \<open>Reading and checking the ledger (ledger.go)\<close>

text \<open>
  \<open>Ledger\<close> copies the counts of a pool, and \<open>CheckLedger\<close> rebuilds them from the
  registrations and the cells and reports the first difference. The Go code runs it
  in tests of the relays; here it returns nil in every reachable state.
\<close>

record Ledger =
  lg_InUse :: int
  lg_Total :: int
  lg_RuleCap :: int
  lg_Minimum :: int
  lg_Rules :: nat
  lg_Unfilled :: int
  lg_FloorShort :: int
  lg_Claim :: int
  lg_RegFlows :: "(string \<times> int) list"
  lg_RegCarried :: "(string \<times> int) list"
  lg_RegSerial :: "(string \<times> nat) list"
  lg_RetiredFlows :: int
  lg_RetiredRegs :: nat
  lg_Orphans :: int
  lg_NotAccepting :: uint64
  lg_DoubleReleases :: uint64

definition Pool_Ledger :: "Pool \<Rightarrow> Ledger" where
  "Pool_Ledger p =
     \<lparr>lg_InUse = po_inUse p, lg_Total = po_total p, lg_RuleCap = po_ruleCap p, lg_Minimum = po_minimum p,
      lg_Rules = length (po_regs p), lg_Unfilled = po_unfilled p, lg_FloorShort = po_floorShort p,
      lg_Claim = po_inUse p + po_unfilled p + FlowFloor,
      lg_RegFlows = map (\<lambda>(r, g). (r, rg_count (po_reg p g))) (po_regs p),
      lg_RegCarried = map (\<lambda>(r, g). (r, rg_carried (po_reg p g))) (po_regs p),
      lg_RegSerial = map (\<lambda>(r, g). (r, rg_serial (po_reg p g))) (po_regs p),
      lg_RetiredFlows = sum_list (map (\<lambda>g. rg_count (po_reg p g)) (po_retired p)),
      lg_RetiredRegs = length (po_retired p),
      lg_Orphans = sum_list (map (\<lambda>g. sum_list (map (\<lambda>c. if li_counted (po_li p (ce_l (po_cell p c))) then ce_n (po_cell p c) else 0)
                                (rg_cells (po_reg p g)))) (po_retired p)),
      lg_NotAccepting = po_notAccepting p, lg_DoubleReleases = po_doubleReleases p\<rparr>"

datatype ledger_error =
    OverTotal int int
  | BadLive string nat bool int
  | BadRetired string nat bool int int
  | CellElsewhere string nat string nat int
  | CellMissing string nat
  | RetiredCarried string nat int
  | CellsDiffer string nat int int
  | SumDiffers int int
  | ListenerDiffers string int int
  | CarriedDiffers string nat int int
  | KeptDiffers "int list" "int list"

text \<open>A Go map from pointers to counts, with zero for a missing key.\<close>

fun bump :: "nat \<Rightarrow> int \<Rightarrow> (nat \<times> int) list \<Rightarrow> (nat \<times> int) list" where
  "bump k d [] = [(k, d)]"
| "bump k d ((j, n) # xs) = (if j = k then (j, n + d) # xs else (j, n) # bump k d xs)"

definition get0 :: "(nat \<times> int) list \<Rightarrow> nat \<Rightarrow> int" where
  "get0 xs k = (case map_of xs k of None \<Rightarrow> 0 | Some n \<Rightarrow> n)"

definition check_live :: "Pool \<Rightarrow> string \<times> nat \<Rightarrow> ledger_error option" where
  "check_live p rg = (let (r, g) = rg; x = po_reg p g in
     if rg_retired x \<or> rg_rule x \<noteq> r \<or> rg_members x \<le> 0
     then Some (BadLive (rg_rule x) (rg_serial x) (rg_retired x) (rg_members x)) else None)"

definition check_retired :: "Pool \<Rightarrow> nat \<Rightarrow> ledger_error option" where
  "check_retired p g = (let x = po_reg p g in
     if \<not> rg_retired x \<or> rg_count x \<le> 0 \<or> rg_members x \<noteq> 0
     then Some (BadRetired (rg_rule x) (rg_serial x) (rg_retired x) (rg_count x) (rg_members x)) else None)"

text \<open>The cells of one registration: their sum, and the sums by registration of the listener and by listener.\<close>

fun check_cells :: "Pool \<Rightarrow> nat \<Rightarrow> nat list \<Rightarrow> int \<Rightarrow> (nat \<times> int) list \<Rightarrow> (nat \<times> int) list
    \<Rightarrow> (ledger_error, int \<times> (nat \<times> int) list \<times> (nat \<times> int) list) res" where
  "check_cells p g [] cs carried flows = Inr (cs, carried, flows)"
| "check_cells p g (c # rest) cs carried flows =
     (let x = po_cell p c; r = po_reg p g; n = ce_n x; l = po_li p (ce_l x) in
      if ce_reg x \<noteq> g \<or> n \<le> 0
      then Inl (CellElsewhere (rg_rule r) (rg_serial r) (rg_rule (po_reg p (ce_reg x))) (rg_serial (po_reg p (ce_reg x))) n)
      else if c \<notin> set (li_cells l) then Inl (CellMissing (rg_rule r) (rg_serial r))
      else if li_counted l \<and> rg_retired r then Inl (RetiredCarried (rg_rule r) (rg_serial r) n)
      else check_cells p g rest (cs + n) (if li_counted l then bump (li_reg l) n carried else carried) (bump (ce_l x) n flows))"

fun check_regs :: "Pool \<Rightarrow> nat list \<Rightarrow> int \<Rightarrow> (nat \<times> int) list \<Rightarrow> (nat \<times> int) list
    \<Rightarrow> (ledger_error, int \<times> (nat \<times> int) list \<times> (nat \<times> int) list) res" where
  "check_regs p [] sm carried flows = Inr (sm, carried, flows)"
| "check_regs p (g # gs) sm carried flows =
     (case check_cells p g (rg_cells (po_reg p g)) 0 carried flows of
        Inl e \<Rightarrow> Inl e
      | Inr (cs, carried', flows') \<Rightarrow>
          if cs \<noteq> rg_count (po_reg p g)
          then Inl (CellsDiffer (rg_rule (po_reg p g)) (rg_serial (po_reg p g)) cs (rg_count (po_reg p g)))
          else check_regs p gs (sm + rg_count (po_reg p g)) carried' flows')"

definition check_flows :: "Pool \<Rightarrow> nat \<times> int \<Rightarrow> ledger_error option" where
  "check_flows p e = (let (l, n) = e; x = po_li p l in
     if li_flows x \<noteq> n then Some (ListenerDiffers (li_rule x) n (li_flows x)) else None)"

definition check_carried :: "Pool \<Rightarrow> (nat \<times> int) list \<Rightarrow> string \<times> nat \<Rightarrow> ledger_error option" where
  "check_carried p carried rg = (let g = snd rg; x = po_reg p g in
     if get0 carried g \<noteq> rg_carried x
     then Some (CarriedDiffers (rg_rule x) (rg_serial x) (rg_carried x) (get0 carried g)) else None)"

definition check_kept :: "Pool \<Rightarrow> ledger_error option" where
  "check_kept p =
     (let m = minimumFor (po_total p) (length (po_regs p));
          ds = map (\<lambda>(r, g). m - rg_count (po_reg p g)) (po_regs p);
          fs = map (\<lambda>(r, g). FlowFloor - rg_count (po_reg p g)) (po_regs p);
          pos = filter (\<lambda>d. d > 0);
          rebuilt = [m, sum_list (pos ds), sum_list (pos fs), int (length (pos ds)), int (length (pos fs))];
          kept = [po_minimum p, po_unfilled p, po_floorShort p, po_unfilledRegs p, po_floorShortRegs p]
      in if rebuilt \<noteq> kept then Some (KeptDiffers kept rebuilt) else None)"

text \<open>\<open>CheckLedger\<close>: \<open>None\<close> is the nil error.\<close>

definition CheckLedger :: "Pool \<Rightarrow> ledger_error option" where
  "CheckLedger p =
     (if po_total p > 0 \<and> po_inUse p > po_total p then Some (OverTotal (po_inUse p) (po_total p))
      else case first_err (map (check_live p) (po_regs p)) of Some e \<Rightarrow> Some e
      | None \<Rightarrow>
        case first_err (map (check_retired p) (po_retired p)) of Some e \<Rightarrow> Some e
      | None \<Rightarrow>
        case check_regs p (map snd (po_regs p) @ po_retired p) 0 [] [] of Inl e \<Rightarrow> Some e
      | Inr (sm, carried, flows) \<Rightarrow>
          if sm \<noteq> po_inUse p then Some (SumDiffers sm (po_inUse p))
          else case first_err (map (check_flows p) flows) of Some e \<Rightarrow> Some e
          | None \<Rightarrow>
            case first_err (map (check_carried p carried) (po_regs p)) of Some e \<Rightarrow> Some e
          | None \<Rightarrow> check_kept p)"

subsection \<open>The sums that the check rebuilds\<close>

lemma get0_bump: "get0 (bump k d xs) j = get0 xs j + (if j = k then d else 0)"
  by (induction k d xs rule: bump.induct) (auto simp: get0_def)

lemma bump_keys: "fst ` set (bump k d xs) = insert k (fst ` set xs)"
  by (induction k d xs rule: bump.induct) auto

lemma distinct_bump: "distinct (map fst xs) \<Longrightarrow> distinct (map fst (bump k d xs))"
proof (induction k d xs rule: bump.induct)
  case (2 k d j n xs)
  then show ?case using bump_keys [of k d xs] by auto
qed simp

definition carried_val :: "Pool \<Rightarrow> nat \<Rightarrow> nat \<Rightarrow> int" where
  "carried_val p g c = (let l = po_li p (ce_l (po_cell p c))
     in if li_counted l \<and> li_reg l = g then ce_n (po_cell p c) else 0)"

definition cells_fine :: "Pool \<Rightarrow> nat \<Rightarrow> bool" where
  "cells_fine p g = (\<forall>c \<in> set (rg_cells (po_reg p g)).
     ce_reg (po_cell p c) = g \<and> 0 < ce_n (po_cell p c) \<and> c \<in> set (li_cells (po_li p (ce_l (po_cell p c))))
     \<and> \<not> (li_counted (po_li p (ce_l (po_cell p c))) \<and> rg_retired (po_reg p g)))"

lemma check_cells_ok:
  assumes "\<forall>c \<in> set cs. ce_reg (po_cell p c) = g \<and> 0 < ce_n (po_cell p c) \<and> c \<in> set (li_cells (po_li p (ce_l (po_cell p c))))
     \<and> \<not> (li_counted (po_li p (ce_l (po_cell p c))) \<and> rg_retired (po_reg p g))"
    and "distinct (map fst flows)"
  shows "\<exists>carried' flows'. check_cells p g cs s carried flows
      = Inr (s + (\<Sum>c \<leftarrow> cs. ce_n (po_cell p c)), carried', flows')
    \<and> distinct (map fst flows')
    \<and> (\<forall>h. get0 carried' h = get0 carried h + (\<Sum>c \<leftarrow> cs. carried_val p h c))
    \<and> (\<forall>l. get0 flows' l = get0 flows l + (\<Sum>c \<leftarrow> cs. cell_val (\<lambda>x. ce_l x = l) (po_cell p c)))"
  using assms
proof (induction cs arbitrary: s carried flows)
  case (Cons c cs)
  let ?x = "po_cell p c" and ?l = "po_li p (ce_l (po_cell p c))"
  let ?ca = "if li_counted ?l then bump (li_reg ?l) (ce_n ?x) carried else carried"
  have step: "check_cells p g (c # cs) s carried flows
      = check_cells p g cs (s + ce_n ?x) ?ca (bump (ce_l ?x) (ce_n ?x) flows)"
    using Cons.prems(1) by (auto simp: Let_def not_le)
  have ca: "get0 ?ca h = get0 carried h + carried_val p h c" for h
    by (auto simp: get0_bump carried_val_def Let_def)
  have fl: "get0 (bump (ce_l ?x) (ce_n ?x) flows) l = get0 flows l + cell_val (\<lambda>x. ce_l x = l) ?x" for l
    by (auto simp: get0_bump cell_val_def)
  from Cons.IH [of "bump (ce_l ?x) (ce_n ?x) flows" "s + ce_n ?x" ?ca] Cons.prems distinct_bump
  obtain carried' flows' where "check_cells p g cs (s + ce_n ?x) ?ca (bump (ce_l ?x) (ce_n ?x) flows)
      = Inr (s + ce_n ?x + (\<Sum>c \<leftarrow> cs. ce_n (po_cell p c)), carried', flows')"
    "distinct (map fst flows')" "\<forall>h. get0 carried' h = get0 ?ca h + (\<Sum>c \<leftarrow> cs. carried_val p h c)"
    "\<forall>l. get0 flows' l = get0 (bump (ce_l ?x) (ce_n ?x) flows) l + (\<Sum>c \<leftarrow> cs. cell_val (\<lambda>x. ce_l x = l) (po_cell p c))"
    by auto
  then show ?case unfolding step ca fl by (simp add: add.assoc)
qed simp

lemma check_regs_ok:
  assumes "\<forall>g \<in> set gs. cells_fine p g \<and> (\<Sum>c \<leftarrow> rg_cells (po_reg p g). ce_n (po_cell p c)) = rg_count (po_reg p g)"
    and "distinct (map fst flows)"
  shows "\<exists>carried' flows'. check_regs p gs s carried flows
      = Inr (s + (\<Sum>c \<leftarrow> concat (map (\<lambda>g. rg_cells (po_reg p g)) gs). ce_n (po_cell p c)), carried', flows')
    \<and> distinct (map fst flows')
    \<and> (\<forall>h. get0 carried' h = get0 carried h + (\<Sum>c \<leftarrow> concat (map (\<lambda>g. rg_cells (po_reg p g)) gs). carried_val p h c))
    \<and> (\<forall>l. get0 flows' l = get0 flows l
         + (\<Sum>c \<leftarrow> concat (map (\<lambda>g. rg_cells (po_reg p g)) gs). cell_val (\<lambda>x. ce_l x = l) (po_cell p c)))"
  using assms
proof (induction gs arbitrary: s carried flows)
  case (Cons g gs)
  let ?cs = "rg_cells (po_reg p g)"
  have fine: "cells_fine p g" and cnt: "(\<Sum>c \<leftarrow> ?cs. ce_n (po_cell p c)) = rg_count (po_reg p g)"
    using Cons.prems(1) by auto
  obtain carried1 flows1 where c: "check_cells p g ?cs 0 carried flows = Inr (rg_count (po_reg p g), carried1, flows1)"
    "distinct (map fst flows1)" "\<forall>h. get0 carried1 h = get0 carried h + (\<Sum>c \<leftarrow> ?cs. carried_val p h c)"
    "\<forall>l. get0 flows1 l = get0 flows l + (\<Sum>c \<leftarrow> ?cs. cell_val (\<lambda>x. ce_l x = l) (po_cell p c))"
    using check_cells_ok [OF fine [unfolded cells_fine_def] Cons.prems(2), of 0 carried] cnt by auto
  from Cons.IH [of flows1 "s + rg_count (po_reg p g)" carried1] Cons.prems(1) c(2) show ?case
    using c cnt by (auto simp: add.assoc)
qed simp

text \<open>All cells in use are the cells of the registrations that the check visits.\<close>

lemma visited_cells:
  assumes "pool_inv p"
  defines "cl \<equiv> concat (map (\<lambda>g. rg_cells (po_reg p g)) (map snd (po_regs p) @ po_retired p))"
  shows "distinct cl" and "set cl = {c. c < po_nc p \<and> ce_n (po_cell p c) \<noteq> 0}"
proof -
  note m = assms(1) [unfolded pool_inv_def ledger_inv_def members_ok_def]
  let ?gs = "map snd (po_regs p) @ po_retired p"
  have rc: "distinct (rg_cells (po_reg p h))"
    "set (rg_cells (po_reg p h)) = {c. c < po_nc p \<and> ce_reg (po_cell p c) = h \<and> ce_n (po_cell p c) \<noteq> 0}" for h
    using m unfolding cells_ok_def by blast+
  have live: "g \<in> snd ` set (po_regs p) \<longleftrightarrow> 0 < g \<and> g \<le> po_regSerial p \<and> \<not> rg_retired (po_reg p g)" for g
    using m live_reg_iff by blast
  have ret: "set (po_retired p) = {g. rg_retired (po_reg p g) \<and> rg_count (po_reg p g) \<noteq> 0}" "distinct (po_retired p)"
    using m by (simp_all add: retired_ok_def)
  have dgs: "distinct ?gs" using regs_snd_distinct m live ret by auto
  have "distinct (concat (map (\<lambda>g. rg_cells (po_reg p g)) gs))" if "distinct gs" for gs
    using that
  proof (induction gs)
    case (Cons g gs)
    have "set (rg_cells (po_reg p g)) \<inter> (\<Union>h \<in> set gs. set (rg_cells (po_reg p h))) = {}"
      using Cons.prems unfolding rc(2) by auto
    then show ?case using Cons rc(1) by simp
  qed simp
  from this [OF dgs] show "distinct cl" by (simp add: cl_def)
  have "ce_reg (po_cell p c) \<in> set ?gs" if "c < po_nc p" "ce_n (po_cell p c) \<noteq> 0" for c
  proof -
    have "ce_n (po_cell p c) \<le> rg_count (po_reg p (ce_reg (po_cell p c)))" "0 \<le> ce_n (po_cell p c)"
      using count_ge_cell ce_n_nonneg m that by blast+
    then show ?thesis using cell_reg_allocated [of p c] m that live ret(1) by auto
  qed
  then show "set cl = {c. c < po_nc p \<and> ce_n (po_cell p c) \<noteq> 0}"
    unfolding cl_def set_concat set_map image_image rc(2) by auto
qed

lemma sum_visited:
  assumes "distinct cl" and "set cl = {c. c < po_nc p \<and> ce_n (po_cell p c) \<noteq> 0}"
    and "\<And>c. ce_n (po_cell p c) = 0 \<Longrightarrow> f c = (0 :: int)"
  shows "(\<Sum>c \<leftarrow> cl. f c) = (\<Sum>c < po_nc p. f c)"
proof -
  have "(\<Sum>c \<leftarrow> cl. f c) = (\<Sum>c \<in> set cl. f c)" using assms(1) by (simp add: sum_list_distinct_conv_sum_set)
  also have "\<dots> = (\<Sum>c < po_nc p. f c)" by (rule sum.mono_neutral_left) (use assms(2,3) in auto)
  finally show ?thesis .
qed

lemma carried_by_cells:
  assumes "pool_inv p"
  shows "rg_carried (po_reg p g) = (\<Sum>c < po_nc p. carried_val p g c)"
proof -
  note m = assms [unfolded pool_inv_def ledger_inv_def members_ok_def]
  have flows: "li_flows (po_li p l) = (\<Sum>c < po_nc p. cell_val (\<lambda>x. ce_l x = l) (po_cell p c))" for l
    using m unfolding cells_ok_def cell_sum_def by blast
  have "rg_carried (po_reg p g) = (\<Sum>l < po_nl p. carry_val g (po_li p l))" using m unfolding joins_ok_vals by blast
  also have "\<dots> = (\<Sum>l < po_nl p. \<Sum>c < po_nc p. if ce_l (po_cell p c) = l then carried_val p g c else 0)"
  proof (rule sum.cong)
    fix l
    show "carry_val g (po_li p l) = (\<Sum>c < po_nc p. if ce_l (po_cell p c) = l then carried_val p g c else 0)"
    proof (cases "li_counted (po_li p l) \<and> li_reg (po_li p l) = g")
      case True
      then show ?thesis unfolding carry_val_def flows
        by (auto intro!: sum.cong simp: cell_val_def carried_val_def Let_def)
    next
      case False
      then show ?thesis unfolding carry_val_def
        by (auto intro!: sum.neutral simp: carried_val_def Let_def)
    qed
  qed simp
  also have "\<dots> = (\<Sum>c < po_nc p. \<Sum>l < po_nl p. if ce_l (po_cell p c) = l then carried_val p g c else 0)"
    by (rule sum.swap)
  also have "\<dots> = (\<Sum>c < po_nc p. carried_val p g c)"
  proof (rule sum.cong)
    fix c
    have "carried_val p g c = 0" if "\<not> ce_l (po_cell p c) < po_nl p"
      using that counted_allocated [of p "ce_l (po_cell p c)"] m by (auto simp: carried_val_def Let_def)
    then show "(\<Sum>l < po_nl p. if ce_l (po_cell p c) = l then carried_val p g c else 0) = carried_val p g c"
      by (simp add: sum.delta')
  qed simp
  finally show ?thesis .
qed

lemma check_kept_ok:
  assumes "terms_ok p"
  shows "check_kept p = None"
proof -
  have pos: "sum_list (filter (\<lambda>d. d > 0) (map (\<lambda>(r, g). m - rg_count (po_reg p g)) gs)) = reg_sum p gs (short m)
    \<and> int (length (filter (\<lambda>d. d > 0) (map (\<lambda>(r, g). m - rg_count (po_reg p g)) gs))) = reg_sum p gs (\<lambda>a. of_bool (a < m))"
    for m gs by (induction gs) (auto simp: short_def)
  show ?thesis
    using assms pos [of "po_minimum p" "po_regs p"] pos [of FlowFloor "po_regs p"]
    by (simp add: check_kept_def Let_def terms_ok_def sums_ok_def)
qed

lemma CheckLedger_ok:
  assumes "pool_inv p"
  shows "CheckLedger p = None"
proof -
  note m = assms [unfolded pool_inv_def ledger_inv_def members_ok_def]
  let ?gs = "map snd (po_regs p) @ po_retired p"
  define cl where "cl = concat (map (\<lambda>g. rg_cells (po_reg p g)) ?gs)"
  note v = visited_cells [OF assms, folded cl_def]
  have rc: "distinct (rg_cells (po_reg p h))"
    "set (rg_cells (po_reg p h)) = {c. c < po_nc p \<and> ce_reg (po_cell p c) = h \<and> ce_n (po_cell p c) \<noteq> 0}" for h
    using m unfolding cells_ok_def by blast+
  have lc: "set (li_cells (po_li p k)) = {c. c < po_nc p \<and> ce_l (po_cell p c) = k \<and> ce_n (po_cell p c) \<noteq> 0}" for k
    using m unfolding cells_ok_def by blast
  have reg_cnt: "(\<Sum>c \<leftarrow> rg_cells (po_reg p g). ce_n (po_cell p c)) = rg_count (po_reg p g)" for g
  proof -
    have "(\<Sum>c \<leftarrow> rg_cells (po_reg p g). ce_n (po_cell p c)) = (\<Sum>c \<in> set (rg_cells (po_reg p g)). cell_val (\<lambda>x. ce_reg x = g) (po_cell p c))"
      unfolding sum_list_distinct_conv_sum_set [OF rc(1)] by (rule sum.cong) (auto simp: rc cell_val_def)
    also have "\<dots> = (\<Sum>c < po_nc p. cell_val (\<lambda>x. ce_reg x = g) (po_cell p c))"
      by (rule sum.mono_neutral_left) (auto simp: rc cell_val_def)
    also have "\<dots> = rg_count (po_reg p g)" using m unfolding cells_ok_def cell_sum_def by simp
    finally show ?thesis .
  qed
  have fine: "cells_fine p g" for g
    unfolding cells_fine_def rc(2) lc using m ce_n_nonneg [of p] by (force simp: orphan_def)
  obtain carried flows where r: "check_regs p ?gs 0 [] [] = Inr (\<Sum>c \<leftarrow> cl. ce_n (po_cell p c), carried, flows)"
    "distinct (map fst flows)" "\<forall>h. get0 carried h = (\<Sum>c \<leftarrow> cl. carried_val p h c)"
    "\<forall>l. get0 flows l = (\<Sum>c \<leftarrow> cl. cell_val (\<lambda>x. ce_l x = l) (po_cell p c))"
    using check_regs_ok [of ?gs p "[]" 0 "[]"] fine reg_cnt unfolding cl_def by (auto simp: get0_def)
  have "(\<Sum>c \<leftarrow> cl. ce_n (po_cell p c)) = po_inUse p"
    using sum_visited [OF v, of "\<lambda>c. ce_n (po_cell p c)"] m by (simp add: cells_ok_def cell_sum_def cell_val_def)
  moreover have "check_flows p e = None" if e: "e \<in> set flows" for e
  proof -
    have "snd e = get0 flows (fst e)" using map_of_is_SomeI [OF r(2), of "fst e" "snd e"] e by (simp add: get0_def)
    also have "\<dots> = li_flows (po_li p (fst e))"
      using r(4) sum_visited [OF v, of "\<lambda>c. cell_val (\<lambda>x. ce_l x = fst e) (po_cell p c)"] m
      by (simp add: cells_ok_def cell_sum_def cell_val_def)
    finally show ?thesis by (cases e) (simp add: check_flows_def)
  qed
  moreover have "check_carried p carried rg = None" for rg
    using r(3) sum_visited [OF v, of "carried_val p (snd rg)"] carried_by_cells [OF assms, of "snd rg"]
    by (simp add: check_carried_def Let_def carried_val_def)
  moreover have "check_live p rg = None" if "rg \<in> set (po_regs p)" for rg
  proof -
    obtain r g where "rg = (r, g)" by (cases rg)
    moreover have "\<not> rg_retired (po_reg p g) \<and> rg_rule (po_reg p g) = r \<and> 0 < rg_members (po_reg p g)"
      using m that calculation unfolding joins_ok_def by blast
    ultimately show ?thesis by (simp add: check_live_def Let_def)
  qed
  moreover have "check_retired p g = None" if "g \<in> set (po_retired p)" for g
  proof -
    have g: "rg_retired (po_reg p g)" "rg_count (po_reg p g) \<noteq> 0" using m that by (auto simp: retired_ok_def)
    have "li_counted (po_li p l) \<Longrightarrow> li_reg (po_li p l) \<noteq> g" for l using g(1) counted_live(5) [of p l] m assms by (auto simp: pool_inv_def)
    then have "(\<Sum>l < po_nl p. member_val g (po_li p l)) = 0" by (intro sum.neutral) (auto simp: member_val_def)
    then have "rg_members (po_reg p g) = 0" using m unfolding joins_ok_vals by metis
    moreover have "0 \<le> rg_count (po_reg p g)"
      using m unfolding cells_ok_def cell_sum_def
      by (auto simp: cell_val_def leases_ok_def intro!: sum_nonneg)
    ultimately show ?thesis using g by (simp add: check_retired_def Let_def)
  qed
  ultimately have "first_err (map (check_live p) (po_regs p)) = None" "first_err (map (check_retired p) (po_retired p)) = None"
    "first_err (map (check_flows p) flows) = None" "first_err (map (check_carried p carried) (po_regs p)) = None"
    "(\<Sum>c \<leftarrow> cl. ce_n (po_cell p c)) = po_inUse p"
    by auto
  moreover have "\<not> (po_total p > 0 \<and> po_inUse p > po_total p)" using m by auto
  moreover have "check_kept p = None" using m check_kept_ok by blast
  ultimately show ?thesis unfolding CheckLedger_def r(1) by (simp del: first_err_None_iff)
qed

end
