(* ===== verification/Resource_Properties.thy ===== *)
theory Resource_Properties
  imports Resource_Ledger "HOL-Library.Code_Target_Nat"
begin

section \<open>Properties of the flow budget\<close>

text \<open>
  The theorems about the pool, over every state its operations reach. The witnesses
  run a pool of sixteen flows with one rule, or two.
\<close>

definition web_pool :: Pool where
  "web_pool = snd (Pool_Listener (NewPool 16) ''web'')"

definition one_flow :: Pool where
  "one_flow = snd (Take web_pool 0)"

lemma web_pool_reachable: "pool.reachable web_pool"
  unfolding web_pool_def
  by (rule pool.advance [OF pool.start]) (auto intro: pool_step.Listener prod.collapse [symmetric])

lemmas run_defs = new_listener_def attachLocked_def refreshLocked_def termsLocked_def addCountLocked_def
  judgeLocked_def grant_def cellFor_def upd_reg_def upd_li_def upd_cell_def NewPool_def zeroReg_def zeroListener_def
  ruleCapFor_def minimumFor_def FlowFloor_def go_div_def ReasonBudget_def

lemma web_pool_state:
  "po_nl web_pool = 1 \<and> po_total web_pool = 16 \<and> po_inUse web_pool = 0 \<and> po_regs web_pool = [(''web'', 1)]
   \<and> po_floorShort web_pool = 4 \<and> po_unfilled web_pool = 4 \<and> po_minimum web_pool = 4
   \<and> li_counted (po_li web_pool 0) \<and> li_reg (po_li web_pool 0) = 1
   \<and> rg_count (po_reg web_pool 1) = 0 \<and> rg_carried (po_reg web_pool 1) = 0"
  by (simp add: web_pool_def Pool_Listener_def run_defs Let_def)

lemma one_flow_reachable: "pool.reachable one_flow"
proof -
  have "0 < po_nl web_pool" by (simp add: web_pool_state)
  then show ?thesis
    unfolding one_flow_def
    by (intro pool.advance [OF web_pool_reachable] pool_step.Take [OF _ prod.collapse [symmetric]])
qed

lemma Take_eq:
  "Take p l =
     (if \<not> li_counted (po_li p l) then ((None, zeroRefusal, NotAccepting), p\<lparr>po_notAccepting := po_notAccepting p + 1\<rparr>)
      else let j = judgeLocked p (li_reg (po_li p l))
           in if po_total p > 0 \<and> fst j \<noteq> []
              then ((None, fst (refuseLocked p (fst j) l (snd j)), Refused), snd (refuseLocked p (fst j) l (snd j)))
              else ((Some (po_nx p), zeroRefusal, Granted), snd (grant p l)))"
  by (auto simp: Take_def Let_def grant_unfold split: prod.splits)

lemma reachable_parts:
  assumes "pool.reachable p"
  shows "pool_inv p" and "ledger_inv p" and "terms_ok p" and "\<And>c. \<not> orphan p c"
  using pool.reachable_inv [OF assms] by (simp_all add: pool_inv_def ledger_inv_def)

subsection \<open>The ledger\<close>

definition outstanding :: "Pool \<Rightarrow> nat set" where
  "outstanding p = {x. x < po_nx p \<and> \<not> ls_done (po_lease p x)}"

lemma inUse_outstanding:
  assumes "pool_inv p"
  shows "po_inUse p = int (card (outstanding p))"
proof -
  note m = assms [unfolded pool_inv_def ledger_inv_def]
  let ?S = "\<lambda>c. {x. x < po_nx p \<and> \<not> ls_done (po_lease p x) \<and> ls_c (po_lease p x) = c}"
  have "outstanding p = (\<Union>c \<in> {..< po_nc p}. ?S c)" using m by (auto simp: outstanding_def leases_ok_def)
  moreover have "card (\<Union>c \<in> {..< po_nc p}. ?S c) = (\<Sum>c < po_nc p. card (?S c))"
    by (rule card_UN_disjoint) auto
  moreover have "po_inUse p = (\<Sum>c < po_nc p. ce_n (po_cell p c))"
    using m by (simp add: cells_ok_def cell_sum_def cell_val_def)
  moreover have "\<dots> = (\<Sum>c < po_nc p. int (card (?S c)))"
    using m by (intro sum.cong) (auto simp: leases_ok_def open_leases_def)
  ultimately show ?thesis by simp
qed

text \<open>C10. In every reachable state the check of the ledger finds nothing: the counts kept by adding and
  subtracting agree with the cells, the listeners and the registrations; no flow that an accepting
  listener carries is counted for a retired registration; and the number of flows in use is the number
  of leases that were granted and not yet released.\<close>

theorem ledger_consistent:
  assumes "pool.reachable p"
  shows "CheckLedger p = None \<and> InUse p = int (card {x. x < po_nx p \<and> \<not> ls_done (po_lease p x)})
    \<and> lg_Orphans (Pool_Ledger p) = 0"
proof -
  have inv: "pool_inv p" using pool.reachable_inv [OF assms] .
  have "lg_Orphans (Pool_Ledger p) = 0"
  proof -
    have "(if li_counted (po_li p (ce_l (po_cell p c))) then ce_n (po_cell p c) else 0) = 0"
      if "g \<in> set (po_retired p)" "c \<in> set (rg_cells (po_reg p g))" for g c
    proof -
      have "c < po_nc p" "ce_reg (po_cell p c) = g" "ce_n (po_cell p c) \<noteq> 0"
        using inv that(2) unfolding pool_inv_def ledger_inv_def cells_ok_def by blast+
      moreover have "rg_retired (po_reg p g)" using inv that(1) by (auto simp: pool_inv_def ledger_inv_def retired_ok_def)
      moreover have "\<not> orphan p c" using inv by (simp add: pool_inv_def)
      ultimately show ?thesis by (simp add: orphan_def)
    qed
    then show ?thesis by (simp add: Pool_Ledger_def cong: map_cong)
  qed
  then show ?thesis
    using CheckLedger_ok [OF inv] inUse_outstanding [OF inv] by (simp add: InUse_def outstanding_def)
qed

theorem ledger_consistent_witness: "CheckLedger one_flow = None \<and> InUse one_flow = 1"
proof -
  have "ledger_inv web_pool" using pool.reachable_inv [OF web_pool_reachable] by (simp add: pool_inv_def)
  then have "po_inUse (snd (grant web_pool 0)) = 1" using web_pool_state by (simp add: grant_fields)
  then have "InUse one_flow = 1"
    using web_pool_state by (simp add: InUse_def one_flow_def Take_eq judgeLocked_def FlowFloor_def Let_def)
  then show ?thesis using ledger_consistent [OF one_flow_reachable] by simp
qed

subsection \<open>Taking and releasing\<close>

text \<open>C29. With a positive budget, a listener that accepts is granted a slot exactly when the budget is not
  full, its rule is below the cap where there are two rules or more, and one of these holds: the
  registration has fewer than four flows; it is below its minimum and the first flows of the other
  registrations and the spare four fit as well; or it is at its minimum and all unfilled minimums and
  the spare four fit as well. Otherwise it is refused, and nothing but the count of refusals changes.\<close>

theorem take_decision:
  assumes "pool.reachable p" and "li_counted (po_li p l)" and "0 < po_total p"
  defines "r \<equiv> po_reg p (li_reg (po_li p l))" and "N \<equiv> length (po_regs p)"
  defines "m \<equiv> minimumFor (po_total p) N"
  defines "S \<equiv> \<lambda>k. (\<Sum>(_, g) \<leftarrow> po_regs p. max 0 (k - rg_count (po_reg p g)))"
  defines "granted \<equiv> po_inUse p < po_total p \<and> \<not> (2 \<le> N \<and> ruleCapFor (po_total p) \<le> rg_carried r)
    \<and> (rg_count r < 4 \<or> max (rg_count r) (rg_carried r) < m \<and> po_inUse p + 1 + S 4 + 4 \<le> po_total p
       \<or> m \<le> max (rg_count r) (rg_carried r) \<and> po_inUse p + 1 + S m + 4 \<le> po_total p)"
  shows "snd (snd (fst (Take p l))) = (if granted then Granted else Refused)
    \<and> (fst (fst (Take p l)) = (if granted then Some (po_nx p) else None))
    \<and> (\<not> granted \<longrightarrow> (\<exists>f. snd (Take p l) = p\<lparr>po_refusals := f\<rparr>))"
proof -
  have "po_minimum p = m" "po_unfilled p = S m" "po_floorShort p = S 4" "po_ruleCap p = ruleCapFor (po_total p)"
    using reachable_parts(1,3) [OF assms(1)]
    by (simp_all add: terms_ok_def sums_ok_def reg_sum_def short_def m_def N_def S_def FlowFloor_def pool_inv_def)
  then have "fst (judgeLocked p (li_reg (po_li p l))) = [] \<longleftrightarrow> granted"
    unfolding granted_def r_def N_def
    by (auto simp: judgeLocked_def Let_def FlowFloor_def ReasonBudget_def ReasonRuleCap_def ReasonFloor_def
        ReasonReserve_def ReasonSpare_def)
  moreover have "\<exists>f. snd (refuseLocked p a l b) = p\<lparr>po_refusals := f\<rparr>" for a b
    by (auto simp: refuseLocked_def Let_def)
  ultimately show ?thesis using assms(2,3) by (simp add: Take_eq Let_def)
qed

theorem take_decision_witness: "snd (snd (fst (Take web_pool 0))) = Granted"
  using take_decision [OF web_pool_reachable, of 0] web_pool_state by (simp add: minimumFor_def)

text \<open>A lease gives its slot back once: the first release returns true, lowers the flows in use and the
  flows of its listener by one and marks the lease; every later release returns false and changes
  nothing but the count of double releases.\<close>

theorem lease_release_once:
  assumes "\<not> ls_done (po_lease p x)"
  defines "q \<equiv> snd (Lease_Release p x)"
  shows "fst (Lease_Release p x) \<and> InUse q = InUse p - 1
    \<and> (\<forall>l. Flows q l = Flows p l - of_bool (l = ls_l (po_lease p x)))
    \<and> Lease_Release q x = (False, q\<lparr>po_doubleReleases := po_doubleReleases q + 1\<rparr>)"
proof -
  have d: "ls_done (po_lease q x)" using Release_fields(10) [OF assms(1)] by (simp add: q_def)
  then have "Lease_Release q x = (False, q\<lparr>po_doubleReleases := po_doubleReleases q + 1\<rparr>)"
    by (simp add: Lease_Release_def)
  moreover have "fst (Lease_Release p x)" using assms(1) by (simp add: Release_unfold)
  ultimately show ?thesis
    using Release_fields(6,11) [OF assms(1)] before_uncount_regs(9) [where x = x and p = p]
    by (simp add: q_def InUse_def Flows_def)
qed

theorem lease_release_once_witness:
  "InUse (snd (Lease_Release one_flow 0)) = InUse one_flow - 1"
proof -
  have "ledger_inv web_pool" by (rule reachable_parts [OF web_pool_reachable])
  then have "po_nx one_flow = po_nx web_pool + 1" "po_lease one_flow (po_nx web_pool) = \<lparr>ls_l = 0, ls_c = take_cell web_pool 0, ls_done = False\<rparr>"
    using web_pool_state by (simp_all add: one_flow_def Take_eq judgeLocked_def FlowFloor_def Let_def grant_fields)
  moreover have "po_nx web_pool = 0" by (simp add: web_pool_def Pool_Listener_def run_defs Let_def)
  ultimately show ?thesis using lease_release_once [of one_flow 0] by simp
qed

subsection \<open>The guaranteed floor\<close>

text \<open>The steps of flows alone, by any listeners and leases in any order.\<close>

inductive flow_step :: "Pool \<Rightarrow> Pool \<Rightarrow> bool" where
  flow_Take: "l < po_nl p \<Longrightarrow> flow_step p (snd (Take p l))"
| flow_Release: "x < po_nx p \<Longrightarrow> flow_step p (snd (Lease_Release p x))"

lemma flow_step_pool: "flow_step p q \<Longrightarrow> pool_step p q"
  by (erule flow_step.cases) (auto intro: pool_step.Take pool_step.Release prod.collapse [symmetric])

definition room :: "Pool \<Rightarrow> bool" where
  "room p = (po_inUse p + po_floorShort p \<le> po_total p)"

lemma addCountLocked_floor:
  "po_floorShort (addCountLocked p g d) = po_floorShort p
     + (if rg_retired (po_reg p g) then 0 else short FlowFloor (rg_count (po_reg p g) + d) - short FlowFloor (rg_count (po_reg p g)))"
  by (cases "rg_retired (po_reg p g)")
    (simp_all add: addCountLocked_def Let_def termsLocked_retired termsLocked_sums upd_reg_def)

lemma floor_le_unfilled: "terms_ok p \<Longrightarrow> po_floorShort p \<le> po_unfilled p"
proof -
  assume t: "terms_ok p"
  then have "FlowFloor \<le> po_minimum p" by (auto simp: terms_ok_def minimumFor_def)
  then have "reg_sum p gs (short FlowFloor) \<le> reg_sum p gs (short (po_minimum p))" for gs
    by (induction gs) (auto simp: short_def)
  then show ?thesis using t by (simp add: terms_ok_def sums_ok_def)
qed

lemma room_Take:
  assumes "pool_inv p" and "room p" and "0 < po_total p"
  shows "room (snd (Take p l))"
proof (cases "li_counted (po_li p l) \<and> fst (judgeLocked p (li_reg (po_li p l))) = []")
  case True
  note P = assms(1) [unfolded pool_inv_def]
  have inv: "ledger_inv p" "cells_ok p" "terms_ok p" using P by (simp_all add: ledger_inv_def)
  let ?g = "li_reg (po_li p l)"
  let ?a = "rg_count (po_reg p ?g)"
  have "po_floorShort (snd (grant p l)) = po_floorShort p + short FlowFloor (?a + 1) - short FlowFloor ?a"
    using before_count_fields(5) [OF inv(2), of l] counted_live(5) [OF inv(1)] True
    by (simp add: grant_unfold addCountLocked_floor before_count_same)
  moreover have "?a < FlowFloor \<or> po_inUse p + 1 + po_floorShort p \<le> po_total p"
    using True floor_le_unfilled [OF inv(3)]
    by (auto simp: judgeLocked_def Let_def ReasonBudget_def ReasonRuleCap_def ReasonFloor_def
        ReasonReserve_def ReasonSpare_def FlowFloor_def split: if_splits)
  ultimately have "room (snd (grant p l))"
    using assms(2) True inv(1) by (auto simp: room_def grant_fields short_def)
  then show ?thesis using True by (simp add: Take_eq Let_def)
next
  case False
  then show ?thesis using assms(2,3) by (auto simp: Take_eq Let_def room_def refuseLocked_def)
qed

lemma room_Release:
  assumes "room p"
  shows "room (snd (Lease_Release p x))"
proof (cases "ls_done (po_lease p x)")
  case True
  then show ?thesis using assms by (simp add: Lease_Release_def room_def)
next
  case False
  then show ?thesis
    using assms by (auto simp: Release_unfold room_def before_uncount_same addCountLocked_floor short_def)
qed

lemma room_steps:
  assumes "flow_step\<^sup>*\<^sup>* p q" and "pool_inv p" and "room p" and "0 < po_total p"
  shows "pool_inv q \<and> room q \<and> po_total q = po_total p"
  using assms(1)
proof (induction rule: rtranclp_induct)
  case base
  then show ?case using assms by simp
next
  case (step q r)
  have tot: "po_total (snd (Take q l)) = po_total q" for l
    by (simp add: Take_eq Let_def refuseLocked_def grant_unfold before_count_same)
  have rel: "po_total (snd (Lease_Release q x)) = po_total q" for x
    by (cases "ls_done (po_lease q x)") (simp add: Lease_Release_def, simp add: Release_fields(7))
  from step.hyps(2) show ?case
  proof cases
    case (flow_Take l)
    then show ?thesis using step.IH Take_inv room_Take assms(4) tot by simp
  next
    case (flow_Release x)
    then show ?thesis using step.IH Release_pool_inv room_Release rel by simp
  qed
qed

text \<open>C18. The floor of four flows for each rule is guaranteed: from a reachable state in which the flows in
  use and the missing first flows of all registrations fit the budget, however the listeners take and
  release slots afterwards, a listener whose registration has fewer than four flows and whose rule is
  below the cap is granted a slot.\<close>

theorem floor_guaranteed:
  assumes "pool.reachable p" and "0 < po_total p"
    and "po_inUse p + (\<Sum>(_, g) \<leftarrow> po_regs p. max 0 (4 - rg_count (po_reg p g))) \<le> po_total p"
    and "flow_step\<^sup>*\<^sup>* p q"
    and "li_counted (po_li q l)" and "rg_count (po_reg q (li_reg (po_li q l))) < 4"
    and "length (po_regs q) < 2 \<or> rg_carried (po_reg q (li_reg (po_li q l))) < ruleCapFor (po_total q)"
  shows "snd (snd (fst (Take q l))) = Granted"
proof -
  have inv: "pool_inv p" "terms_ok p" using reachable_parts [OF assms(1)] by blast+
  then have "room p"
    using assms(3) by (simp add: room_def terms_ok_def sums_ok_def reg_sum_def short_def FlowFloor_def)
  then have q: "pool_inv q" "room q" "po_total q = po_total p" using room_steps [OF assms(4) inv(1)] assms(2) by blast+
  let ?g = "li_reg (po_li q l)"
  have led: "ledger_inv q" "terms_ok q" "joins_ok q" using q(1) by (simp_all add: pool_inv_def ledger_inv_def members_ok_def)
  have "?g \<in> snd ` set (po_regs q)" using counted_live(6) [OF led(1) assms(5)] .
  moreover have "0 < reg_sum q gs (short FlowFloor)" if "h \<in> snd ` set gs" "rg_count (po_reg q h) < FlowFloor" for gs h
  proof -
    have sh: "0 \<le> short FlowFloor a" "a < FlowFloor \<Longrightarrow> 0 < short FlowFloor a" for a by (auto simp: short_def)
    have nn: "0 \<le> reg_sum q hs (short FlowFloor)" for hs by (induction hs) (auto simp: sh)
    from that show ?thesis
    proof (induction gs)
      case (Cons a gs)
      then show ?case using nn [of gs] sh by (cases a) (auto intro: add_pos_nonneg add_nonneg_pos)
    qed simp
  qed
  ultimately have "0 < po_floorShort q" using led(2) assms(6) by (simp add: terms_ok_def sums_ok_def FlowFloor_def)
  then have "po_inUse q < po_total q" using q(2) by (simp add: room_def)
  moreover have "po_ruleCap q = ruleCapFor (po_total q)" using q(1) by (simp add: pool_inv_def)
  ultimately have "fst (judgeLocked q ?g) = []"
    using assms(6,7) by (auto simp: judgeLocked_def Let_def FlowFloor_def)
  then show ?thesis using assms(5) by (simp add: Take_eq Let_def)
qed

theorem floor_guaranteed_witness: "snd (snd (fst (Take one_flow 0))) = Granted"
proof -
  have "ledger_inv web_pool" "cells_ok web_pool"
    using reachable_parts(2) [OF web_pool_reachable] by (simp_all add: ledger_inv_def)
  then have "li_counted (po_li one_flow 0)" "li_reg (po_li one_flow 0) = 1" "po_regs one_flow = [(''web'', 1)]"
    "rg_count (po_reg one_flow 1) = 1"
    using web_pool_state
    by (simp_all add: one_flow_def Take_eq judgeLocked_def FlowFloor_def Let_def grant_fields before_count_fields(4))
  moreover have "flow_step web_pool one_flow"
    unfolding one_flow_def by (rule flow_step.intros) (simp add: web_pool_state)
  ultimately show ?thesis
    using floor_guaranteed [OF web_pool_reachable, of one_flow 0] web_pool_state by auto
qed

end
