(* ===== verification/Dataplane.thy ===== *)
theory Dataplane
  imports Planner "HOL-Library.AList"
begin

section \<open>What the reconciler and a data plane exchange (internal/dataplane)\<close>

text \<open>
  The values of the participant interface: the desired state, peers, what a commit
  reports, and the flows a rule that could not be prepared keeps. A WireGuard key is
  its 32 bytes; an endpoint is an address and a port. An error is its text. A Go map
  that is iterated is an association list with distinct keys; the sets of ports and
  of rule IDs are lists.
\<close>

type_synonym Key = string
type_synonym AddrPort = "addr \<times> uint16"
type_synonym error = string

definition zeroKey :: Key where "zeroKey = replicate 32 (CHR 0x00)"

definition addrPortIsValid :: "AddrPort \<Rightarrow> bool" where
  "addrPortIsValid ap = addrIsValid (fst ap)"

record Peer =
  pe_PublicKey :: Key
  pe_Address :: addr

record WGConfig =
  wg_PrivateKey :: Key
  wg_ListenPort :: int
  wg_Address :: prefix
  wg_MTU :: int
  wg_Peers :: "Peer list"

definition WithPeers :: "WGConfig \<Rightarrow> Peer list \<Rightarrow> WGConfig" where
  "WithPeers c peers = c\<lparr>wg_Peers := peers\<rparr>"

record Desired =
  de_Plan :: Plan
  de_RelayListening :: "uint16 list"
  de_WG :: "WGConfig option"
  de_ActivePeers :: "Peer list"
  de_Resync :: bool

record Observed =
  ob_Peers :: "Peer list"
  ob_Drift :: "string list"

record Retiring =
  re_Previous :: PortPlan
  re_Desired :: RulePolicy

definition Retiring_SourceAllowed :: "Retiring \<Rightarrow> addr \<Rightarrow> bool" where
  "Retiring_SourceAllowed r src = (SourceAllowed (pp_Policy (re_Previous r)) src \<and> SourceAllowed (re_Desired r) src)"

record DP_Drop =
  dd_RuleID :: string
  dd_Kind :: string
  dd_Packets :: uint64
  dd_Bytes :: uint64

record Committed =
  co_Drops :: "DP_Drop list"
  co_WGChanges :: "string list"
  co_Closed :: int
  co_Errors :: "error list"
  co_RepairPending :: bool

definition zeroCommitted :: Committed where
  "zeroCommitted = \<lparr>co_Drops = [], co_WGChanges = [], co_Closed = 0, co_Errors = [], co_RepairPending = False\<rparr>"

subsection \<open>Peers\<close>

text \<open>The Go map from keys to addresses that a list of peers fills; a later peer replaces an earlier one.\<close>

definition peer_map :: "Peer list \<Rightarrow> (Key \<times> addr) list" where
  "peer_map ps = foldl (\<lambda>m p. AList.update (pe_PublicKey p) (pe_Address p) m) [] ps"

definition PeersEqual :: "Peer list \<Rightarrow> Peer list \<Rightarrow> bool" where
  "PeersEqual a b =
     (let am = peer_map a; bm = peer_map b in
      length am = length bm \<and> list_all (\<lambda>(k, x). map_of bm k = Some x) am)"

definition PeersChanged :: "Desired \<Rightarrow> bool" where
  "PeersChanged d = (case de_WG d of None \<Rightarrow> False | Some wg \<Rightarrow> \<not> PeersEqual (wg_Peers wg) (de_ActivePeers d))"

fun union_loop :: "Peer list \<Rightarrow> Key list \<Rightarrow> addr list \<Rightarrow> Peer list \<Rightarrow> Peer list" where
  "union_loop out seen claimed [] = out"
| "union_loop out seen claimed (p # ps) =
     (if pe_PublicKey p \<notin> set seen \<and> pe_Address p \<notin> set claimed \<and> addrIsValid (pe_Address p)
      then union_loop (out @ [p]) (pe_PublicKey p # seen) claimed ps
      else union_loop out seen claimed ps)"

definition PeerUnion :: "Peer list \<Rightarrow> Peer list \<Rightarrow> Peer list" where
  "PeerUnion want have =
     union_loop want (map pe_PublicKey want) (map pe_Address want) have"

record HeldPeer =
  hp_PublicKey :: Key
  hp_Address :: addr
  hp_Endpoint :: AddrPort

text \<open>\<open>InheritedEndpoint\<close>: \<open>None\<close> is the Go result whose \<open>ok\<close> is false.\<close>

definition InheritedEndpoint :: "HeldPeer list \<Rightarrow> Key \<Rightarrow> addr \<Rightarrow> (AddrPort \<times> Key) option" where
  "InheritedEndpoint have key a =
     (if \<not> addrIsValid a then None
      else map_option (\<lambda>p. (hp_Endpoint p, hp_PublicKey p))
        (find (\<lambda>p. hp_PublicKey p \<noteq> key \<and> hp_Address p = a \<and> addrPortIsValid (hp_Endpoint p)) have))"

text \<open>What the reply observation of a UDP rule belongs to.\<close>

definition UDPReplyIdentity :: "PortPlan \<Rightarrow> string" where
  "UDPReplyIdentity pp = joinStrings ''|'' [pp_Agent pp, addr_String (pp_AgentAddr pp), pp_Target pp, PortRange_String (pp_ListenPort pp)]"

subsection \<open>Laws of maps and peers\<close>

text \<open>Filling a Go map from a list by key and value: the keys of the map are distinct, and a later entry wins.\<close>

lemma fill_distinct:
  "distinct (map fst m) \<Longrightarrow> distinct (map fst (foldl (\<lambda>m x. AList.update (k x) (v x) m) m xs))"
  by (induction xs arbitrary: m) (simp_all add: distinct_update)

lemma fill_map_of:
  "map_of (foldl (\<lambda>m x. AList.update (k x) (v x) m) m xs) = map_of m ++ map_of (rev (map (\<lambda>x. (k x, v x)) xs))"
  by (induction xs arbitrary: m) (simp_all add: update_conv' fun_eq_iff map_add_def split: option.splits)

lemma fill_keys: "fst ` set (foldl (\<lambda>m x. AList.update (k x) (v x) m) m xs) = fst ` set m \<union> k ` set xs"
  by (induction xs arbitrary: m) (auto simp: dom_update)

lemma fill_values:
  "set (foldl (\<lambda>m x. AList.update (k x) (v x) m) m xs) \<subseteq> set m \<union> (\<lambda>x. (k x, v x)) ` set xs"
proof (induction xs arbitrary: m)
  case (Cons x xs)
  have "set (AList.update (k x) (v x) m) \<subseteq> insert (k x, v x) (set m)"
    by (induction m) auto
  then show ?case using Cons.IH [of "AList.update (k x) (v x) m"] by auto
qed simp

lemma peer_map_distinct: "distinct (map fst (peer_map ps))"
  by (simp add: peer_map_def fill_distinct)

lemma map_of_peer_map: "map_of (peer_map ps) = map_of (rev (map (\<lambda>p. (pe_PublicKey p, pe_Address p)) ps))"
  by (simp add: peer_map_def fill_map_of)

lemma PeersEqual_iff: "PeersEqual a b \<longleftrightarrow> map_of (peer_map a) = map_of (peer_map b)"
proof
  let ?A = "map_of (peer_map a)" and ?B = "map_of (peer_map b)"
  have card: "card (dom (map_of (peer_map ps))) = length (peer_map ps)" for ps
    by (metis distinct_card dom_map_of_conv_image_fst length_map peer_map_distinct set_map)
  {
    assume e: "PeersEqual a b"
    then have sub: "?A k = Some x \<Longrightarrow> ?B k = Some x" for k x
      using map_of_SomeD [of "peer_map a" k x] by (auto simp: PeersEqual_def Let_def list_all_iff)
    then have "dom ?A \<subseteq> dom ?B" by (auto simp: dom_def)
    moreover have "card (dom ?A) = card (dom ?B)" using e by (simp add: card PeersEqual_def Let_def)
    ultimately have d: "dom ?A = dom ?B" by (simp add: card_subset_eq finite_dom_map_of)
    show "?A = ?B"
    proof
      fix k show "?A k = ?B k"
      proof (cases "?A k")
        case None
        then have "k \<notin> dom ?B" using d by auto
        then show ?thesis using None by (auto simp: domIff)
      qed (simp add: sub)
    qed
  next
    assume e: "?A = ?B"
    moreover have "length (peer_map a) = length (peer_map b)" using card e by metis
    ultimately show "PeersEqual a b"
      using map_of_is_SomeI [OF peer_map_distinct] by (fastforce simp: PeersEqual_def Let_def list_all_iff)
  }
qed

lemma union_loop_parts:
  "\<exists>ys. union_loop out seen claimed ps = out @ ys \<and> set ys \<subseteq> set ps
     \<and> (\<forall>p \<in> set ys. pe_PublicKey p \<notin> set seen \<and> pe_Address p \<notin> set claimed \<and> addrIsValid (pe_Address p))
     \<and> distinct (map pe_PublicKey ys)
     \<and> (\<forall>p \<in> set ps. pe_PublicKey p \<notin> set seen \<and> pe_Address p \<notin> set claimed \<and> addrIsValid (pe_Address p)
          \<longrightarrow> pe_PublicKey p \<in> pe_PublicKey ` set ys)"
proof (induction ps arbitrary: out seen)
  case (Cons p ps)
  show ?case
  proof (cases "pe_PublicKey p \<notin> set seen \<and> pe_Address p \<notin> set claimed \<and> addrIsValid (pe_Address p)")
    case True
    from Cons.IH [of "out @ [p]" "pe_PublicKey p # seen"] obtain ys where
      ys: "union_loop (out @ [p]) (pe_PublicKey p # seen) claimed ps = (out @ [p]) @ ys" "set ys \<subseteq> set ps"
      "\<forall>q \<in> set ys. pe_PublicKey q \<notin> set (pe_PublicKey p # seen) \<and> pe_Address q \<notin> set claimed \<and> addrIsValid (pe_Address q)"
      "distinct (map pe_PublicKey ys)"
      "\<forall>q \<in> set ps. pe_PublicKey q \<notin> set (pe_PublicKey p # seen) \<and> pe_Address q \<notin> set claimed \<and> addrIsValid (pe_Address q)
        \<longrightarrow> pe_PublicKey q \<in> pe_PublicKey ` set ys"
      by blast
    then show ?thesis using True by (intro exI [of _ "p # ys"]) auto
  next
    case False
    then have "union_loop out seen claimed (p # ps) = union_loop out seen claimed ps" by auto
    then show ?thesis using Cons.IH [of out seen] False by auto
  qed
qed simp

end
