(* ===== verification/Reconcile.thy ===== *)
theory Reconcile
  imports Dataplane Interfaces
begin

section \<open>Transactions and the reconciler (internal/reconcile)\<close>

text \<open>
  The frontend and the data plane are interfaces whose implementations act on the
  operating system. They are parameters here: records of functions on a world \<open>'w\<close>,
  with the staged changes of type \<open>'f\<close> and \<open>'d\<close> that \<open>Prepare\<close> returns. The runtime and
  the reconciler are the code of the package, passing the world from call to call.
  Each exported method runs under the reconciler's mutex and is one operation.
  \<open>reflect.DeepEqual\<close> on plans is equality; the model has one empty list where Go
  tells a nil slice from an empty one.
\<close>

record ('w, 'f) Frontend =
  fr_Prepare :: "Plan \<Rightarrow> 'w \<Rightarrow> (error, 'f) res \<times> 'w"
  fr_Listening :: "'f \<Rightarrow> uint16 list"
  fr_Failed :: "'f \<Rightarrow> (string \<times> error) list"
  fr_Commit :: "'f \<Rightarrow> Retiring list \<Rightarrow> 'w \<Rightarrow> 'w"
  fr_Rollback :: "'f \<Rightarrow> 'w \<Rightarrow> 'w"

record ('w, 'd) Participant =
  pa_Observe :: "'w \<Rightarrow> (error, Observed) res \<times> 'w"
  pa_Prepare :: "Desired \<Rightarrow> 'w \<Rightarrow> (error, 'd) res \<times> 'w"
  pa_Failed :: "'d \<Rightarrow> (string \<times> error) list"
  pa_Commit :: "'d \<Rightarrow> Retiring list \<Rightarrow> 'w \<Rightarrow> (error, Committed) res \<times> 'w"
  pa_Rollback :: "'d \<Rightarrow> 'w \<Rightarrow> 'w"
  pa_Repair :: "'w \<Rightarrow> Committed \<times> 'w"

record ('w, 'f, 'd) Runtime =
  rt_Frontend :: "('w, 'f) Frontend option"
  rt_Dataplane :: "('w, 'd) Participant"

record Published =
  pb_Plan :: Plan
  pb_Listening :: "uint16 list"
  pb_Failed :: "string list"

record Tx =
  tx_Plan :: Plan
  tx_WG :: "WGConfig option"
  tx_ActivePeers :: "Peer list"
  tx_Previous :: "(string \<times> PortPlan) list"
  tx_Unchanged :: "Published option"
  tx_Resync :: bool

record Tx_Outcome =
  out_Failed :: "(string \<times> error) list"
  out_Retiring :: "Retiring list"
  out_Published :: Plan
  out_Listening :: "uint16 list"
  out_NoOp :: bool
  out_Committed :: Committed
  out_Repaired :: bool
  out_Drift :: "string list"

subsection \<open>One transaction (runtime.go)\<close>

definition ids :: "(string \<times> error) list \<Rightarrow> string list" where
  "ids failed = map fst failed"

text \<open>Copying one map of failures into another.\<close>

definition add_failed :: "(string \<times> error) list \<Rightarrow> (string \<times> error) list \<Rightarrow> (string \<times> error) list" where
  "add_failed m fs = foldl (\<lambda>m (i, e). AList.update i e m) m fs"

definition retiring_of :: "Tx \<Rightarrow> string \<Rightarrow> Retiring option" where
  "retiring_of tx i =
     map_option (\<lambda>prev. \<lparr>re_Previous = prev,
         re_Desired = (case Plan_Port (tx_Plan tx) i of Some pp \<Rightarrow> pp_Policy pp | None \<Rightarrow> zeroRulePolicy)\<rparr>)
       (map_of (tx_Previous tx) i)"

definition retiring :: "Tx \<Rightarrow> (string \<times> error) list \<Rightarrow> Retiring list" where
  "retiring tx failed =
     sort_key (\<lambda>r. pp_RuleID (re_Previous r)) (List.map_filter (\<lambda>(i, e). retiring_of tx i) failed)"

definition samePublication :: "Published \<Rightarrow> Plan \<Rightarrow> uint16 list \<Rightarrow> (string \<times> error) list \<Rightarrow> bool" where
  "samePublication prev plan listening failed =
     ((pb_Plan prev)\<lparr>pl_Generation := 0\<rparr> = plan\<lparr>pl_Generation := 0\<rparr>
      \<and> length (pb_Listening prev) = length listening \<and> length (pb_Failed prev) = length failed
      \<and> list_all (\<lambda>p. p \<in> set (pb_Listening prev)) listening
      \<and> list_all (\<lambda>(i, e). i \<in> set (pb_Failed prev)) failed)"

text \<open>The frontend's part of a transaction, when there is one.\<close>

definition front_prepare :: "('w, 'f, 'd) Runtime \<Rightarrow> Plan \<Rightarrow> 'w \<Rightarrow> (error, 'f option) res \<times> 'w" where
  "front_prepare r plan w =
     (case rt_Frontend r of
        None \<Rightarrow> (Inr None, w)
      | Some f \<Rightarrow> (case fr_Prepare f plan w of (Inl e, w') \<Rightarrow> (Inl e, w') | (Inr fp, w') \<Rightarrow> (Inr (Some fp), w')))"

definition front_failed :: "('w, 'f, 'd) Runtime \<Rightarrow> 'f option \<Rightarrow> (string \<times> error) list" where
  "front_failed r fp = (case (rt_Frontend r, fp) of (Some f, Some x) \<Rightarrow> fr_Failed f x | _ \<Rightarrow> [])"

definition front_listening :: "('w, 'f, 'd) Runtime \<Rightarrow> 'f option \<Rightarrow> uint16 list" where
  "front_listening r fp = (case (rt_Frontend r, fp) of (Some f, Some x) \<Rightarrow> fr_Listening f x | _ \<Rightarrow> [])"

definition front_rollback :: "('w, 'f, 'd) Runtime \<Rightarrow> 'f option \<Rightarrow> 'w \<Rightarrow> 'w" where
  "front_rollback r fp w = (case (rt_Frontend r, fp) of (Some f, Some x) \<Rightarrow> fr_Rollback f x w | _ \<Rightarrow> w)"

definition front_commit :: "('w, 'f, 'd) Runtime \<Rightarrow> 'f option \<Rightarrow> Retiring list \<Rightarrow> 'w \<Rightarrow> 'w" where
  "front_commit r fp rs w = (case (rt_Frontend r, fp) of (Some f, Some x) \<Rightarrow> fr_Commit f x rs w | _ \<Rightarrow> w)"

definition Apply :: "('w, 'f, 'd) Runtime \<Rightarrow> Tx \<Rightarrow> 'w \<Rightarrow> (error, Tx_Outcome) res \<times> 'w" where
  "Apply r tx w =
     (case front_prepare r (tx_Plan tx) w of
        (Inl e, w) \<Rightarrow> (Inl e, w)
      | (Inr fp, w) \<Rightarrow>
        let failed = add_failed [] (front_failed r fp);
            d = \<lparr>de_Plan = Without (tx_Plan tx) (ids failed), de_RelayListening = front_listening r fp,
                 de_WG = tx_WG tx, de_ActivePeers = tx_ActivePeers tx, de_Resync = tx_Resync tx\<rparr>;
            dpl = rt_Dataplane r
        in case pa_Prepare dpl d w of
             (Inl e, w) \<Rightarrow> (Inl e, front_rollback r fp w)
           | (Inr dp, w) \<Rightarrow>
             let failed = add_failed failed (pa_Failed dpl dp);
                 rets = retiring tx failed;
                 out = \<lparr>out_Failed = failed, out_Retiring = rets, out_Published = Without (tx_Plan tx) (ids failed),
                        out_Listening = de_RelayListening d, out_NoOp = False, out_Committed = zeroCommitted,
                        out_Repaired = False, out_Drift = []\<rparr>
             in if (case tx_Unchanged tx of
                      None \<Rightarrow> False
                    | Some prev \<Rightarrow> \<not> tx_Resync tx \<and> \<not> PeersChanged d
                        \<and> samePublication prev (out_Published out) (out_Listening out) failed)
                then (Inr (out\<lparr>out_NoOp := True\<rparr>), front_rollback r fp (pa_Rollback dpl dp w))
                else case pa_Commit dpl dp rets w of
                       (Inl e, w) \<Rightarrow> (Inl e, front_rollback r fp (pa_Rollback dpl dp w))
                     | (Inr c, w) \<Rightarrow> (Inr (out\<lparr>out_Committed := c\<rparr>), front_commit r fp rets w))"

subsection \<open>The reconciler (reconciler.go)\<close>

datatype ApplyState = Active | Pending | NotActive

record RuleStatus =
  rs_State :: ApplyState
  rs_Reason :: string
  rs_ActiveGeneration :: uint64

record Resource =
  rc_RuleID :: string
  rc_Proto :: Proto
  rc_ListenPort :: PortRange
  rc_Forwarding :: string

record Status =
  st_DesiredGeneration :: uint64
  st_ActiveGeneration :: uint64
  st_Reconciled :: bool
  st_Rules :: "(string \<times> RuleStatus) list"
  st_ActiveOnly :: "Resource list"
  st_Retiring :: "Resource list"
  st_LastError :: string
  st_NeedsRetry :: bool

record Reconcile_Input =
  ri_Plan :: Plan
  ri_WG :: "WGConfig option"
  ri_Excluded :: "(string \<times> string) list"
  ri_Retry :: bool

record Reconciler =
  rec_observed :: bool
  rec_activePeers :: "Peer list"
  rec_active :: "(string \<times> PortPlan) list"
  rec_activeGen :: "(string \<times> uint64) list"
  rec_retiring :: "(string \<times> Retiring) list"
  rec_published :: "Published option"
  rec_resync :: bool
  rec_repair :: bool
  rec_unsettled :: bool
  rec_last :: "Reconcile_Input option"
  rec_status :: Status

definition zeroStatus :: Status where
  "zeroStatus = \<lparr>st_DesiredGeneration = 0, st_ActiveGeneration = 0, st_Reconciled = False, st_Rules = [],
     st_ActiveOnly = [], st_Retiring = [], st_LastError = [], st_NeedsRetry = False\<rparr>"

definition Reconciler_New :: Reconciler where
  "Reconciler_New = \<lparr>rec_observed = False, rec_activePeers = [], rec_active = [], rec_activeGen = [], rec_retiring = [],
     rec_published = None, rec_resync = False, rec_repair = False, rec_unsettled = False, rec_last = None,
     rec_status = zeroStatus\<rparr>"

definition genOf :: "Reconciler \<Rightarrow> string \<Rightarrow> uint64" where
  "genOf s i = (case map_of (rec_activeGen s) i of None \<Rightarrow> 0 | Some g \<Rightarrow> g)"

definition excluded_state :: "Reconciler \<Rightarrow> error option \<Rightarrow> string \<times> string \<Rightarrow> RuleStatus" where
  "excluded_state s backendErr e =
     (let st = \<lparr>rs_State = NotActive, rs_Reason = snd e, rs_ActiveGeneration = genOf s (fst e)\<rparr> in
      case backendErr of
        Some err \<Rightarrow> (if map_of (rec_active s) (fst e) \<noteq> None then st\<lparr>rs_State := Pending, rs_Reason := err\<rparr> else st)
      | None \<Rightarrow> st)"

definition planned_state :: "Reconciler \<Rightarrow> (string \<times> error) list \<Rightarrow> error option \<Rightarrow> PortPlan \<Rightarrow> RuleStatus" where
  "planned_state s failed backendErr pp =
     (let st = \<lparr>rs_State = Active, rs_Reason = [], rs_ActiveGeneration = genOf s (pp_RuleID pp)\<rparr> in
      case map_of failed (pp_RuleID pp) of
        Some e \<Rightarrow> st\<lparr>rs_State := NotActive, rs_Reason := e\<rparr>
      | None \<Rightarrow>
          (case backendErr of
             Some err \<Rightarrow> (if rec_resync s \<or> map_of (rec_active s) (pp_RuleID pp) \<noteq> Some pp
                          then st\<lparr>rs_State := Pending, rs_Reason := err\<rparr> else st)
           | None \<Rightarrow> st))"

definition ruleStates :: "Reconciler \<Rightarrow> Reconcile_Input \<Rightarrow> (string \<times> error) list \<Rightarrow> error option \<Rightarrow> (string \<times> RuleStatus) list" where
  "ruleStates s inp failed backendErr =
     foldl (\<lambda>m pp. AList.update (pp_RuleID pp) (planned_state s failed backendErr pp) m)
       (map (\<lambda>e. (fst e, excluded_state s backendErr e)) (ri_Excluded inp)) (pl_Ports (ri_Plan inp))"

definition resourceOf :: "PortPlan \<Rightarrow> Resource" where
  "resourceOf pp = \<lparr>rc_RuleID = pp_RuleID pp, rc_Proto = pp_Proto pp, rc_ListenPort = pp_ListenPort pp,
     rc_Forwarding = Forwarding_String (pp_Forwarding pp)\<rparr>"

definition sortResources :: "Resource list \<Rightarrow> Resource list" where
  "sortResources = sort_key rc_RuleID"

definition activeOnly :: "Reconciler \<Rightarrow> Reconcile_Input \<Rightarrow> Resource list" where
  "activeOnly s inp = sortResources (map (\<lambda>(i, pp). resourceOf pp)
     (filter (\<lambda>(i, pp). Plan_Port (ri_Plan inp) i = None) (rec_active s)))"

definition retiringResources :: "Reconciler \<Rightarrow> Resource list" where
  "retiringResources s = sortResources (map (\<lambda>(i, rt). resourceOf (re_Previous rt)) (rec_retiring s))"

text \<open>\<open>fail\<close>: a failure of the whole backend.\<close>

definition rec_fail :: "Reconciler \<Rightarrow> Reconcile_Input \<Rightarrow> error \<Rightarrow> Reconciler" where
  "rec_fail s inp err =
     s\<lparr>rec_unsettled := err \<noteq> [],
       rec_status := (rec_status s)\<lparr>st_LastError := err, st_NeedsRetry := True, st_Rules := ruleStates s inp [] (Some err),
         st_ActiveOnly := activeOnly s inp, st_Retiring := retiringResources s\<rparr>\<rparr>"

definition repairError :: "uint64 \<Rightarrow> error list \<Rightarrow> string" where
  "repairError gen errs =
     ''published generation '' @ itoa (unat gen) @ '', but a repair after the publication failed: ''
     @ joinStrings ''; '' (if errs = [] then [''a repair is still pending''] else errs)"

definition previous_of :: "Reconciler \<Rightarrow> (string \<times> PortPlan) list" where
  "previous_of s =
     foldl (\<lambda>m (i, pp). AList.update i pp m)
       (foldl (\<lambda>m (i, rt). AList.update i (re_Previous rt) m) [] (rec_retiring s)) (rec_active s)"

text \<open>The loop over the published ports: the new active values and generations.\<close>

fun publish_active :: "Reconciler \<Rightarrow> uint64 \<Rightarrow> PortPlan list \<Rightarrow> (string \<times> PortPlan) list \<Rightarrow> (string \<times> uint64) list
    \<Rightarrow> (string \<times> PortPlan) list \<times> (string \<times> uint64) list" where
  "publish_active s gen [] active gens = (active, gens)"
| "publish_active s gen (pp # pps) active gens =
     publish_active s gen pps (AList.update (pp_RuleID pp) pp active)
       (if map_of (rec_active s) (pp_RuleID pp) = Some pp then gens else AList.update (pp_RuleID pp) gen gens)"

definition record_success :: "Reconciler \<Rightarrow> Reconcile_Input \<Rightarrow> Tx_Outcome \<Rightarrow> Reconciler" where
  "record_success s inp out =
     (let gen = pl_Generation (ri_Plan inp);
          (active, gens) = publish_active s gen (pl_Ports (out_Published out)) [] (rec_activeGen s);
          gens = filter (\<lambda>(i, g). map_of active i \<noteq> None \<or> Plan_Port (ri_Plan inp) i \<noteq> None) gens;
          repair = co_RepairPending (out_Committed out);
          err = (if repair then repairError gen (co_Errors (out_Committed out)) else []);
          s = s\<lparr>rec_published := Some \<lparr>pb_Plan = out_Published out, pb_Listening = out_Listening out, pb_Failed = ids (out_Failed out)\<rparr>,
                rec_active := active, rec_activeGen := gens,
                rec_retiring := foldl (\<lambda>m rt. AList.update (pp_RuleID (re_Previous rt)) rt m) [] (out_Retiring out),
                rec_activePeers := (case ri_WG inp of None \<Rightarrow> rec_activePeers s | Some wg \<Rightarrow> wg_Peers wg),
                rec_resync := False, rec_repair := repair, rec_unsettled := err \<noteq> []\<rparr>
      in s\<lparr>rec_status := (rec_status s)\<lparr>st_ActiveGeneration := gen, st_LastError := err,
             st_NeedsRetry := out_Failed out \<noteq> [] \<or> repair, st_Rules := ruleStates s inp (out_Failed out) None,
             st_ActiveOnly := activeOnly s inp, st_Retiring := retiringResources s\<rparr>\<rparr>)"

text \<open>The part of \<open>Reconcile\<close> from the transaction on. An error comes with the drift that an observation found.\<close>

definition transact :: "('w, 'f, 'd) Runtime \<Rightarrow> Reconciler \<Rightarrow> Reconcile_Input \<Rightarrow> string list \<Rightarrow> 'w
    \<Rightarrow> (error \<times> string list, Tx_Outcome) res \<times> Reconciler \<times> 'w" where
  "transact r s inp drift w =
     (let tx = \<lparr>tx_Plan = ri_Plan inp, tx_WG = ri_WG inp, tx_ActivePeers = rec_activePeers s, tx_Previous = previous_of s,
                tx_Unchanged = (if ri_Retry inp \<and> \<not> rec_resync s then rec_published s else None),
                tx_Resync = rec_resync s\<rparr>
      in case Apply r tx w of
           (Inl e, w) \<Rightarrow> (Inl (e, drift), rec_fail s inp e, w)
         | (Inr out, w) \<Rightarrow>
             let out = out\<lparr>out_Drift := drift\<rparr>;
                 (out, w) = (if out_NoOp out \<and> rec_repair s
                             then (let (c, w) = pa_Repair (rt_Dataplane r) w
                                   in (out\<lparr>out_Committed := c, out_Repaired := True\<rparr>, w))
                             else (out, w))
             in (Inr out, record_success s inp out, w))"

definition Reconcile :: "('w, 'f, 'd) Runtime \<Rightarrow> Reconciler \<Rightarrow> Reconcile_Input \<Rightarrow> 'w \<Rightarrow> (error \<times> string list, Tx_Outcome) res \<times> Reconciler \<times> 'w" where
  "Reconcile r s inp w =
     (let s = s\<lparr>rec_last := Some inp, rec_status := (rec_status s)\<lparr>st_DesiredGeneration := pl_Generation (ri_Plan inp), st_Reconciled := True\<rparr>\<rparr>;
          (first, w) = (if rec_observed s then (Inr s, w)
                        else case pa_Observe (rt_Dataplane r) w of
                               (Inl e, w) \<Rightarrow> (Inl e, w)
                             | (Inr obs, w) \<Rightarrow> (Inr (s\<lparr>rec_activePeers := ob_Peers obs, rec_observed := True\<rparr>), w))
      in case first of
           Inl e \<Rightarrow> (Inl (e, []), rec_fail s inp e, w)
         | Inr s \<Rightarrow>
             if ri_Retry inp \<and> rec_repair s \<and> \<not> rec_resync s \<and> rec_published s \<noteq> None
             then case pa_Observe (rt_Dataplane r) w of
                    (Inl e, w) \<Rightarrow> (Inl (e, []), rec_fail (s\<lparr>rec_resync := True\<rparr>) inp e, w)
                  | (Inr obs, w) \<Rightarrow>
                      if ob_Drift obs \<noteq> []
                      then transact r (s\<lparr>rec_resync := True, rec_activePeers := ob_Peers obs\<rparr>) inp (ob_Drift obs) w
                      else transact r s inp [] w
             else transact r s inp [] w)"

text \<open>\<open>Observe\<close>: the drift newly found and whether a transaction is due.\<close>

definition Reconciler_Observe :: "('w, 'f, 'd) Runtime \<Rightarrow> Reconciler \<Rightarrow> 'w
    \<Rightarrow> (error, string list \<times> bool) res \<times> Reconciler \<times> 'w" where
  "Reconciler_Observe r s w =
     (if rec_published s = None then (Inr ([], rec_unsettled s), s, w)
      else case pa_Observe (rt_Dataplane r) w of
             (Inl e, w) \<Rightarrow>
               (let s = s\<lparr>rec_resync := True\<rparr>
                in (Inl e, (case rec_last s of Some inp \<Rightarrow> rec_fail s inp e | None \<Rightarrow> s), w))
           | (Inr obs, w) \<Rightarrow>
               if ob_Drift obs \<noteq> []
               then (Inr (if rec_resync s then [] else ob_Drift obs, True),
                     s\<lparr>rec_resync := True, rec_activePeers := ob_Peers obs\<rparr>, w)
               else (Inr ([], rec_resync s \<or> rec_unsettled s), s, w))"

end
