(* ===== verification/Reconcile_Laws.thy ===== *)
theory Reconcile_Laws
  imports Reconcile
begin

section \<open>Laws of the runtime and the reconciler\<close>

text \<open>
  What \<open>Apply\<close> publishes, in which order it calls its participants, and the invariant
  of the reconciler: \<open>Reconcile\<close> and \<open>Observe\<close> as the steps of a transition system.
\<close>

subsection \<open>Plans without rules\<close>

lemma Without_Without: "Without (Without p as) bs = Without p (as @ bs)"
  by (auto simp: Without_def)

lemma Without_cong: "set as = set bs \<Longrightarrow> Without p as = Without p bs"
  by (auto simp: Without_def)

lemma Without_Ports [simp]: "pl_Ports (Without p is) = filter (\<lambda>pp. pp_RuleID pp \<notin> set is) (pl_Ports p)"
  by (simp add: Without_def)

lemma Without_Generation [simp]: "pl_Generation (Without p is) = pl_Generation p"
  by (simp add: Without_def)

lemma Plan_Port_Some: "Plan_Port p i = Some pp \<Longrightarrow> pp \<in> set (pl_Ports p) \<and> pp_RuleID pp = i"
  by (auto simp: Plan_Port_def find_Some_iff)

lemma Plan_Port_None: "Plan_Port p i = None \<longleftrightarrow> i \<notin> pp_RuleID ` set (pl_Ports p)"
  by (auto simp: Plan_Port_def find_None_iff)

subsection \<open>Maps of failures\<close>

lemma add_failed_simps [simp]:
  "add_failed m [] = m"
  "add_failed m ((i, e) # fs) = add_failed (AList.update i e m) fs"
  by (simp_all add: add_failed_def)

lemma ids_add_failed: "set (ids (add_failed m fs)) = set (ids m) \<union> set (ids fs)"
proof (induction fs arbitrary: m)
  case (Cons f fs)
  then show ?case by (cases f) (simp add: ids_def dom_update)
qed (simp add: ids_def)

lemma distinct_add_failed: "distinct (map fst m) \<Longrightarrow> distinct (map fst (add_failed m fs))"
proof (induction fs arbitrary: m)
  case (Cons f fs)
  then show ?case by (cases f) (simp add: distinct_update)
qed simp

lemma map_of_add_failed: "map_of (add_failed m fs) = map_of m ++ map_of (rev fs)"
proof (induction fs arbitrary: m)
  case (Cons f fs)
  obtain i e where "f = (i, e)" by (cases f)
  then show ?case by (auto simp: Cons.IH update_conv' map_add_def fun_eq_iff split: option.splits)
qed simp

text \<open>
  The rules that the participants could not prepare, with their reasons, as the participants tell
  them: the frontend is prepared with the plan of the transaction, the data plane with that plan less
  the rules the frontend failed and with the ports the frontend listens on. A Go map has one reason
  for a rule; that of the data plane replaces that of the frontend.
\<close>

definition refused :: "('w, 'f, 'd) Runtime \<Rightarrow> Tx \<Rightarrow> 'w \<Rightarrow> (string \<rightharpoonup> error) \<Rightarrow> bool" where
  "refused r tx w m \<longleftrightarrow> (\<exists>F L w1 dp w2.
     (case rt_Frontend r of
        None \<Rightarrow> F = [] \<and> L = [] \<and> w1 = w
      | Some f \<Rightarrow> \<exists>fp. fr_Prepare f (tx_Plan tx) w = (Inr fp, w1) \<and> F = fr_Failed f fp \<and> L = fr_Listening f fp)
     \<and> pa_Prepare (rt_Dataplane r) \<lparr>de_Plan = Without (tx_Plan tx) (map fst F), de_RelayListening = L, de_WG = tx_WG tx,
           de_ActivePeers = tx_ActivePeers tx, de_Resync = tx_Resync tx\<rparr> w1 = (Inr dp, w2)
     \<and> m = map_of (rev F) ++ map_of (rev (pa_Failed (rt_Dataplane r) dp)))"

subsection \<open>What a transaction publishes\<close>

text \<open>
  The documented behaviour of the participants. \<open>fwd\<close> reads from the world the plan that
  is known to be forwarded, \<open>None\<close> while that is not known. Observing, staging, rolling back,
  repairing and the frontend leave it as it was; a commit that succeeds publishes the
  plan it was prepared with, less the rules the data plane could not prepare; after a
  commit that fails it may be unknown what is forwarded.
\<close>

definition lawful_plane :: "('w, 'd) Participant \<Rightarrow> ('w \<Rightarrow> Plan option) \<Rightarrow> bool" where
  "lawful_plane dpl fwd \<longleftrightarrow>
     (\<forall>w. fwd (snd (pa_Observe dpl w)) = fwd w)
     \<and> (\<forall>d w. fwd (snd (pa_Prepare dpl d w)) = fwd w)
     \<and> (\<forall>d w0 w1 dp rs w c w'. pa_Prepare dpl d w0 = (Inr dp, w1) \<longrightarrow> pa_Commit dpl dp rs w = (Inr c, w')
          \<longrightarrow> fwd w' = Some (Without (de_Plan d) (ids (pa_Failed dpl dp))))
     \<and> (\<forall>dp rs w e w'. pa_Commit dpl dp rs w = (Inl e, w') \<longrightarrow> fwd w' = fwd w \<or> fwd w' = None)
     \<and> (\<forall>dp w. fwd (pa_Rollback dpl dp w) = fwd w)
     \<and> (\<forall>w. fwd (snd (pa_Repair dpl w)) = fwd w)"

definition lawful_frontend :: "('w, 'f) Frontend \<Rightarrow> ('w \<Rightarrow> Plan option) \<Rightarrow> bool" where
  "lawful_frontend f fwd \<longleftrightarrow>
     (\<forall>p w. fwd (snd (fr_Prepare f p w)) = fwd w)
     \<and> (\<forall>fp rs w. fwd (fr_Commit f fp rs w) = fwd w)
     \<and> (\<forall>fp w. fwd (fr_Rollback f fp w) = fwd w)"

definition lawful :: "('w, 'f, 'd) Runtime \<Rightarrow> ('w \<Rightarrow> Plan option) \<Rightarrow> bool" where
  "lawful r fwd \<longleftrightarrow> lawful_plane (rt_Dataplane r) fwd \<and> (case rt_Frontend r of None \<Rightarrow> True | Some f \<Rightarrow> lawful_frontend f fwd)"

lemma lawful_front:
  assumes "lawful r fwd"
  shows "fwd (front_rollback r fp w) = fwd w" and "fwd (front_commit r fp rs w) = fwd w"
    and "fwd (snd (front_prepare r p w)) = fwd w"
proof -
  show "fwd (front_rollback r fp w) = fwd w" "fwd (front_commit r fp rs w) = fwd w"
    using assms by (auto simp: lawful_def lawful_frontend_def front_rollback_def front_commit_def split: option.splits)
  show "fwd (snd (front_prepare r p w)) = fwd w"
  proof (cases "rt_Frontend r")
    case (Some f)
    then have "fwd (snd (fr_Prepare f p w)) = fwd w" using assms by (simp add: lawful_def lawful_frontend_def)
    then show ?thesis by (auto simp: front_prepare_def Some split: prod.split sum.split)
  qed (simp add: front_prepare_def)
qed

text \<open>A transaction that returns an outcome ran through both preparations.\<close>

definition apply_desired :: "('w, 'f, 'd) Runtime \<Rightarrow> Tx \<Rightarrow> 'f option \<Rightarrow> Desired" where
  "apply_desired r tx fp =
     \<lparr>de_Plan = Without (tx_Plan tx) (ids (add_failed [] (front_failed r fp))), de_RelayListening = front_listening r fp,
      de_WG = tx_WG tx, de_ActivePeers = tx_ActivePeers tx, de_Resync = tx_Resync tx\<rparr>"

definition apply_failed :: "('w, 'f, 'd) Runtime \<Rightarrow> 'f option \<Rightarrow> 'd \<Rightarrow> (string \<times> error) list" where
  "apply_failed r fp dp = add_failed (add_failed [] (front_failed r fp)) (pa_Failed (rt_Dataplane r) dp)"

definition apply_noop :: "('w, 'f, 'd) Runtime \<Rightarrow> Tx \<Rightarrow> 'f option \<Rightarrow> 'd \<Rightarrow> bool" where
  "apply_noop r tx fp dp =
     (case tx_Unchanged tx of
        None \<Rightarrow> False
      | Some prev \<Rightarrow> \<not> tx_Resync tx \<and> \<not> PeersChanged (apply_desired r tx fp)
          \<and> samePublication prev (Without (tx_Plan tx) (ids (apply_failed r fp dp))) (front_listening r fp) (apply_failed r fp dp))"

definition apply_out :: "('w, 'f, 'd) Runtime \<Rightarrow> Tx \<Rightarrow> 'f option \<Rightarrow> 'd \<Rightarrow> bool \<Rightarrow> Committed \<Rightarrow> Tx_Outcome" where
  "apply_out r tx fp dp noop c =
     \<lparr>out_Failed = apply_failed r fp dp, out_Retiring = retiring tx (apply_failed r fp dp),
      out_Published = Without (tx_Plan tx) (ids (apply_failed r fp dp)), out_Listening = front_listening r fp,
      out_NoOp = noop, out_Committed = c, out_Repaired = False, out_Drift = []\<rparr>"

text \<open>The five ways through \<open>Apply\<close>.\<close>

lemma Apply_cases:
  assumes "Apply r tx w = (res, w')"
  obtains
    (front_fails) e where "front_prepare r (tx_Plan tx) w = (Inl e, w')" "res = Inl e"
  | (plane_fails) fp w1 e w2 where "front_prepare r (tx_Plan tx) w = (Inr fp, w1)"
      "pa_Prepare (rt_Dataplane r) (apply_desired r tx fp) w1 = (Inl e, w2)"
      "res = Inl e" "w' = front_rollback r fp w2"
  | (noop) fp w1 dp w2 where "front_prepare r (tx_Plan tx) w = (Inr fp, w1)"
      "pa_Prepare (rt_Dataplane r) (apply_desired r tx fp) w1 = (Inr dp, w2)" "apply_noop r tx fp dp"
      "res = Inr (apply_out r tx fp dp True zeroCommitted)"
      "w' = front_rollback r fp (pa_Rollback (rt_Dataplane r) dp w2)"
  | (commit_fails) fp w1 dp w2 e w3 where "front_prepare r (tx_Plan tx) w = (Inr fp, w1)"
      "pa_Prepare (rt_Dataplane r) (apply_desired r tx fp) w1 = (Inr dp, w2)" "\<not> apply_noop r tx fp dp"
      "pa_Commit (rt_Dataplane r) dp (retiring tx (apply_failed r fp dp)) w2 = (Inl e, w3)"
      "res = Inl e" "w' = front_rollback r fp (pa_Rollback (rt_Dataplane r) dp w3)"
  | (commits) fp w1 dp w2 c w3 where "front_prepare r (tx_Plan tx) w = (Inr fp, w1)"
      "pa_Prepare (rt_Dataplane r) (apply_desired r tx fp) w1 = (Inr dp, w2)" "\<not> apply_noop r tx fp dp"
      "pa_Commit (rt_Dataplane r) dp (retiring tx (apply_failed r fp dp)) w2 = (Inr c, w3)"
      "res = Inr (apply_out r tx fp dp False c)" "w' = front_commit r fp (retiring tx (apply_failed r fp dp)) w3"
proof -
  obtain x w1 where f: "front_prepare r (tx_Plan tx) w = (x, w1)" by fastforce
  show thesis
  proof (cases x)
    case (Inl e)
    then show thesis using assms f that(1) by (auto simp: Apply_def)
  next
    case (Inr fp)
    obtain y w2 where p: "pa_Prepare (rt_Dataplane r) (apply_desired r tx fp) w1 = (y, w2)" by fastforce
    show thesis
    proof (cases y)
      case (Inl e)
      then show thesis using assms f Inr p that(2) [of fp w1 e w2] by (simp add: Apply_def Let_def apply_desired_def)
    next
      case (Inr dp)
      note facts = assms f \<open>x = Inr fp\<close> p Inr
      have a: "Apply r tx w = (if apply_noop r tx fp dp
           then (Inr (apply_out r tx fp dp True zeroCommitted), front_rollback r fp (pa_Rollback (rt_Dataplane r) dp w2))
           else case pa_Commit (rt_Dataplane r) dp (retiring tx (apply_failed r fp dp)) w2 of
                  (Inl e, w) \<Rightarrow> (Inl e, front_rollback r fp (pa_Rollback (rt_Dataplane r) dp w))
                | (Inr c, w) \<Rightarrow> (Inr (apply_out r tx fp dp False c), front_commit r fp (retiring tx (apply_failed r fp dp)) w))"
        using facts(2-) unfolding Apply_def apply_desired_def
        by (simp add: Let_def apply_noop_def apply_out_def apply_failed_def apply_desired_def
            cong: option.case_cong prod.case_cong sum.case_cong if_cong)
      obtain z w3 where "pa_Commit (rt_Dataplane r) dp (retiring tx (apply_failed r fp dp)) w2 = (z, w3)" by fastforce
      then show thesis
        using facts a that(3) [of fp w1 dp w2] that(4) [of fp w1 dp w2 _ w3] that(5) [of fp w1 dp w2 _ w3]
        by (cases "apply_noop r tx fp dp"; cases z) auto
    qed
  qed
qed

lemma apply_desired_published:
  "Without (de_Plan (apply_desired r tx fp)) (ids (pa_Failed (rt_Dataplane r) dp)) = Without (tx_Plan tx) (ids (apply_failed r fp dp))"
  unfolding apply_desired_def apply_failed_def
  by (simp add: Without_Without) (rule Without_cong, simp add: ids_add_failed)

subsection \<open>The order of the calls\<close>

text \<open>
  A runtime whose participants also write down the calls they get: each call does what
  it did, and appends its event, with whether it succeeded, to a trace.
\<close>

datatype apply_event = FrontPrepare bool | FrontCommit | FrontRollback
  | PlaneObserve bool | PlanePrepare bool | PlaneCommit bool | PlaneRollback | PlaneRepair

definition logged :: "(bool \<Rightarrow> apply_event) \<Rightarrow> ('w \<Rightarrow> (error, 'a) res \<times> 'w) \<Rightarrow> 'w \<times> apply_event list \<Rightarrow> (error, 'a) res \<times> 'w \<times> apply_event list" where
  "logged ev f wt = (let (x, w') = f (fst wt) in (x, w', snd wt @ [ev (\<not> isl x)]))"

definition noted :: "apply_event \<Rightarrow> ('w \<Rightarrow> 'w) \<Rightarrow> 'w \<times> apply_event list \<Rightarrow> 'w \<times> apply_event list" where
  "noted ev f wt = (f (fst wt), snd wt @ [ev])"

definition traced_frontend :: "('w, 'f) Frontend \<Rightarrow> ('w \<times> apply_event list, 'f) Frontend" where
  "traced_frontend f =
     \<lparr>fr_Prepare = \<lambda>p. logged FrontPrepare (fr_Prepare f p), fr_Listening = fr_Listening f, fr_Failed = fr_Failed f,
      fr_Commit = \<lambda>fp rs. noted FrontCommit (fr_Commit f fp rs), fr_Rollback = \<lambda>fp. noted FrontRollback (fr_Rollback f fp)\<rparr>"

definition traced_plane :: "('w, 'd) Participant \<Rightarrow> ('w \<times> apply_event list, 'd) Participant" where
  "traced_plane d =
     \<lparr>pa_Observe = logged PlaneObserve (pa_Observe d), pa_Prepare = \<lambda>x. logged PlanePrepare (pa_Prepare d x),
      pa_Failed = pa_Failed d, pa_Commit = \<lambda>dp rs. logged PlaneCommit (pa_Commit d dp rs),
      pa_Rollback = \<lambda>dp. noted PlaneRollback (pa_Rollback d dp),
      pa_Repair = \<lambda>wt. (let (c, w') = pa_Repair d (fst wt) in (c, w', snd wt @ [PlaneRepair]))\<rparr>"

definition traced :: "('w, 'f, 'd) Runtime \<Rightarrow> ('w \<times> apply_event list, 'f, 'd) Runtime" where
  "traced r = \<lparr>rt_Frontend = map_option traced_frontend (rt_Frontend r), rt_Dataplane = traced_plane (rt_Dataplane r)\<rparr>"

lemma logged_eq: "logged ev f wt = (x, wt') \<longleftrightarrow> f (fst wt) = (x, fst wt') \<and> snd wt' = snd wt @ [ev (\<not> isl x)]"
  by (cases wt') (auto simp: logged_def split: prod.splits)

lemma traced_simps [simp]:
  "rt_Dataplane (traced r) = traced_plane (rt_Dataplane r)"
  "pa_Prepare (traced_plane d) x = logged PlanePrepare (pa_Prepare d x)"
  "pa_Failed (traced_plane d) = pa_Failed d"
  "pa_Commit (traced_plane d) dp rs = logged PlaneCommit (pa_Commit d dp rs)"
  "pa_Rollback (traced_plane d) dp = noted PlaneRollback (pa_Rollback d dp)"
  "front_failed (traced r) fp = front_failed r fp"
  "front_listening (traced r) fp = front_listening r fp"
  by (auto simp: traced_def traced_plane_def front_failed_def front_listening_def traced_frontend_def split: option.splits)

lemma apply_traced [simp]:
  "apply_desired (traced r) tx fp = apply_desired r tx fp"
  "apply_failed (traced r) fp dp = apply_failed r fp dp"
  "apply_noop (traced r) tx fp dp = apply_noop r tx fp dp"
  "apply_out (traced r) tx fp dp noop c = apply_out r tx fp dp noop c"
  by (simp_all add: apply_desired_def apply_failed_def apply_noop_def apply_out_def cong: option.case_cong)

text \<open>The events of the frontend, when there is one.\<close>

definition front_event :: "('w, 'f, 'd) Runtime \<Rightarrow> apply_event \<Rightarrow> apply_event list" where
  "front_event r ev = (if rt_Frontend r = None then [] else [ev])"

lemma front_prepare_traced:
  "front_prepare (traced r) p wt = (x, wt') \<longleftrightarrow>
     front_prepare r p (fst wt) = (x, fst wt') \<and> snd wt' = snd wt @ front_event r (FrontPrepare (\<not> isl x))"
  by (cases wt; cases wt'; cases "rt_Frontend r")
    (auto simp: front_prepare_def traced_def traced_frontend_def logged_def front_event_def split: prod.splits sum.splits)

lemma front_prepared: "front_prepare r p w = (Inr fp, w') \<Longrightarrow> (fp = None) = (rt_Frontend r = None)"
  by (auto simp: front_prepare_def split: option.splits prod.splits sum.splits)

lemma front_prepare_fails: "front_prepare r p w = (Inl e, w') \<Longrightarrow> rt_Frontend r \<noteq> None"
  by (auto simp: front_prepare_def split: option.splits)

lemma front_finish_traced:
  assumes "(fp = None) = (rt_Frontend r = None)"
  shows "front_rollback (traced r) fp wt = (front_rollback r fp (fst wt), snd wt @ front_event r FrontRollback)"
    and "front_commit (traced r) fp rs wt = (front_commit r fp rs (fst wt), snd wt @ front_event r FrontCommit)"
  using assms by (cases wt; auto simp: front_rollback_def front_commit_def traced_def traced_frontend_def noted_def front_event_def
      split: option.splits)+

lemma noted_eq [simp]: "fst (noted ev f wt) = f (fst wt)" "snd (noted ev f wt) = snd wt @ [ev]"
  by (simp_all add: noted_def)

text \<open>What the trace of one transaction may be, by its result.\<close>

definition apply_trace_ok :: "('w, 'f, 'd) Runtime \<Rightarrow> (error, Tx_Outcome) res \<Rightarrow> apply_event list \<Rightarrow> bool" where
  "apply_trace_ok r res t =
     (let fr = front_event r in
      case res of
        Inl e \<Rightarrow> t = fr (FrontPrepare False) \<and> rt_Frontend r \<noteq> None
          \<or> t = fr (FrontPrepare True) @ [PlanePrepare False] @ fr FrontRollback
          \<or> t = fr (FrontPrepare True) @ [PlanePrepare True, PlaneCommit False, PlaneRollback] @ fr FrontRollback
      | Inr out \<Rightarrow>
          if out_NoOp out then t = fr (FrontPrepare True) @ [PlanePrepare True, PlaneRollback] @ fr FrontRollback
          else t = fr (FrontPrepare True) @ [PlanePrepare True, PlaneCommit True] @ fr FrontCommit)"

lemma traced_Apply:
  assumes "Apply (traced r) tx wt = (res, wt')"
  shows "Apply r tx (fst wt) = (res, fst wt') \<and> (\<exists>t. snd wt' = snd wt @ t \<and> apply_trace_ok r res t)"
proof -
  obtain res1 w1 where A: "Apply r tx (fst wt) = (res1, w1)" by fastforce
  note fin = front_finish_traced [OF front_prepared]
  from assms show ?thesis
  proof (cases rule: Apply_cases)
    case (front_fails e)
    then have f: "front_prepare r (tx_Plan tx) (fst wt) = (Inl e, fst wt')" by (simp add: front_prepare_traced)
    show ?thesis using front_fails A f front_prepare_fails [OF f]
      by (cases rule: Apply_cases [OF A]) (auto simp: front_prepare_traced apply_trace_ok_def Let_def)
  next
    case (plane_fails fp w1' e w2)
    then have f: "front_prepare r (tx_Plan tx) (fst wt) = (Inr fp, fst w1')" by (simp add: front_prepare_traced)
    show ?thesis using plane_fails A f
      by (cases rule: Apply_cases [OF A]) (auto simp: front_prepare_traced logged_eq fin [OF f] apply_trace_ok_def Let_def)
  next
    case (noop fp w1' dp w2)
    then have f: "front_prepare r (tx_Plan tx) (fst wt) = (Inr fp, fst w1')" by (simp add: front_prepare_traced)
    show ?thesis using noop A f
      by (cases rule: Apply_cases [OF A])
        (auto simp: front_prepare_traced logged_eq fin [OF f] apply_trace_ok_def Let_def apply_out_def)
  next
    case (commit_fails fp w1' dp w2 e w3)
    then have f: "front_prepare r (tx_Plan tx) (fst wt) = (Inr fp, fst w1')" by (simp add: front_prepare_traced)
    show ?thesis using commit_fails A f
      by (cases rule: Apply_cases [OF A]) (auto simp: front_prepare_traced logged_eq fin [OF f] apply_trace_ok_def Let_def)
  next
    case (commits fp w1' dp w2 c w3)
    then have f: "front_prepare r (tx_Plan tx) (fst wt) = (Inr fp, fst w1')" by (simp add: front_prepare_traced)
    show ?thesis using commits A f
      by (cases rule: Apply_cases [OF A])
        (auto simp: front_prepare_traced logged_eq fin [OF f] apply_trace_ok_def Let_def apply_out_def)
  qed
qed

subsection \<open>Outcomes\<close>

lemma retiring_iff:
  "rt \<in> set (retiring tx failed) \<longleftrightarrow> (\<exists>i \<in> set (ids failed). retiring_of tx i = Some rt)"
  by (force simp: retiring_def ids_def map_filter_def)

lemma Apply_outcome:
  assumes "Apply r tx w = (Inr out, w')"
  shows "out_Published out = Without (tx_Plan tx) (ids (out_Failed out))
    \<and> out_Retiring out = retiring tx (out_Failed out) \<and> distinct (map fst (out_Failed out))"
  using assms by (cases rule: Apply_cases) (simp_all add: apply_out_def apply_failed_def distinct_add_failed)

lemma apply_refused:
  assumes "front_prepare r (tx_Plan tx) w = (Inr fp, w1)" and "pa_Prepare (rt_Dataplane r) (apply_desired r tx fp) w1 = (Inr dp, w2)"
  shows "refused r tx w (map_of (apply_failed r fp dp))"
proof -
  have "Without (tx_Plan tx) (ids (add_failed [] F)) = Without (tx_Plan tx) (map fst F)" for F
    using ids_add_failed [of "[]" F] by (intro Without_cong) (simp add: ids_def)
  then have "apply_desired r tx fp = \<lparr>de_Plan = Without (tx_Plan tx) (map fst (front_failed r fp)), de_RelayListening = front_listening r fp,
      de_WG = tx_WG tx, de_ActivePeers = tx_ActivePeers tx, de_Resync = tx_Resync tx\<rparr>" by (simp add: apply_desired_def)
  moreover have "case rt_Frontend r of None \<Rightarrow> front_failed r fp = [] \<and> front_listening r fp = [] \<and> w1 = w
      | Some f \<Rightarrow> \<exists>x. fr_Prepare f (tx_Plan tx) w = (Inr x, w1) \<and> front_failed r fp = fr_Failed f x \<and> front_listening r fp = fr_Listening f x"
    using assms(1) by (auto simp: front_prepare_def front_failed_def front_listening_def split: option.splits prod.splits sum.splits)
  ultimately show ?thesis unfolding refused_def using assms(2)
    by (intro exI [of _ "front_failed r fp"] exI [of _ "front_listening r fp"] exI [of _ w1] exI [of _ dp] exI [of _ w2])
      (simp add: apply_failed_def map_of_add_failed)
qed

lemma Apply_refused:
  assumes "Apply r tx w = (Inr out, w')"
  shows "refused r tx w (map_of (out_Failed out))"
  using assms by (cases rule: Apply_cases) (auto simp: apply_out_def intro: apply_refused)

lemma Apply_lawful:
  assumes "lawful r fwd" and "Apply r tx w = (res, w')"
  shows "case res of Inl e \<Rightarrow> fwd w' = fwd w \<or> fwd w' = None
    | Inr out \<Rightarrow> fwd w' = (if out_NoOp out then fwd w else Some (out_Published out))"
proof -
  note front = lawful_front [OF assms(1)]
  have plane: "lawful_plane (rt_Dataplane r) fwd" using assms(1) by (simp add: lawful_def)
  have prep: "fwd w2 = fwd w1" if "pa_Prepare (rt_Dataplane r) d w1 = (x, w2)" for d w1 x w2
    using plane that unfolding lawful_plane_def by (metis snd_conv)
  have commit: "fwd w3 = Some (Without (de_Plan d) (ids (pa_Failed (rt_Dataplane r) dp)))"
    if "pa_Prepare (rt_Dataplane r) d w1 = (Inr dp, w2)" "pa_Commit (rt_Dataplane r) dp rs w2 = (Inr c, w3)" for d w1 dp w2 rs c w3
    using plane that unfolding lawful_plane_def by metis
  have cfail: "fwd w3 = fwd w2 \<or> fwd w3 = None" if "pa_Commit (rt_Dataplane r) dp rs w2 = (Inl e, w3)" for dp rs w2 e w3
    using plane that unfolding lawful_plane_def by metis
  have undo: "fwd (pa_Rollback (rt_Dataplane r) dp w2) = fwd w2" for dp w2
    using plane unfolding lawful_plane_def by metis
  have fprep: "fwd w1 = fwd w" if "front_prepare r p w = (x, w1)" for p x w1
    using front(3) [of p w] that by simp
  from assms(2) show ?thesis
  proof (cases rule: Apply_cases)
    case (commit_fails fp w1 dp w2 e w3)
    then show ?thesis using cfail [OF commit_fails(4)] prep [OF commit_fails(2)] fprep [OF commit_fails(1)]
      by (simp add: front undo)
  next
    case (commits fp w1 dp w2 c w3)
    then show ?thesis using commit [OF commits(2,4)]
      by (simp add: front apply_out_def apply_desired_published del: Without_Ports)
  qed (auto simp: front fprep prep undo apply_out_def)
qed

lemma Apply_noop:
  assumes "Apply r tx w = (Inr out, w')" and "out_NoOp out"
  shows "out_Committed out = zeroCommitted \<and> \<not> tx_Resync tx
    \<and> (\<exists>prev. tx_Unchanged tx = Some prev \<and> samePublication prev (out_Published out) (out_Listening out) (out_Failed out))"
  using assms(1) by (cases rule: Apply_cases) (use assms(2) in \<open>auto simp: apply_out_def apply_noop_def split: option.splits\<close>)

end
