(* ===== verification/Reconcile_Invariant.thy ===== *)
theory Reconcile_Invariant
  imports Reconcile_Laws
begin

section \<open>The state of the reconciler\<close>

text \<open>
  Every call of \<open>Reconcile\<close> ends in \<open>rec_fail\<close> or \<open>record_success\<close>, from a state that
  agrees with the one before on what is active. From this: the invariant of the
  reconciler under every sequence of calls, and what a failure and a success report.
\<close>

definition same_active :: "Reconciler \<Rightarrow> Reconciler \<Rightarrow> bool" where
  "same_active s t \<longleftrightarrow> rec_active t = rec_active s \<and> rec_activeGen t = rec_activeGen s \<and> rec_retiring t = rec_retiring s
     \<and> rec_published t = rec_published s \<and> rec_repair t = rec_repair s
     \<and> (rec_resync s \<longrightarrow> rec_resync t) \<and> (rec_resync t \<longrightarrow> rec_resync s \<or> rec_published s \<noteq> None)"

definition tx_of :: "Reconciler \<Rightarrow> Reconcile_Input \<Rightarrow> Tx" where
  "tx_of s inp = \<lparr>tx_Plan = ri_Plan inp, tx_WG = ri_WG inp, tx_ActivePeers = rec_activePeers s, tx_Previous = previous_of s,
     tx_Unchanged = (if ri_Retry inp \<and> \<not> rec_resync s then rec_published s else None), tx_Resync = rec_resync s\<rparr>"

text \<open>The outcome of a call that succeeded, from the outcome of its transaction.\<close>

definition outcome_of :: "Tx_Outcome \<Rightarrow> Tx_Outcome \<Rightarrow> bool" where
  "outcome_of out0 out \<longleftrightarrow> out_Failed out = out_Failed out0 \<and> out_Retiring out = out_Retiring out0
     \<and> out_Published out = out_Published out0 \<and> out_Listening out = out_Listening out0 \<and> out_NoOp out = out_NoOp out0"

lemma transact_result:
  assumes "transact r s inp drift w = (res, s', w')"
  shows "case res of
      Inl (e, d) \<Rightarrow> d = drift \<and> s' = rec_fail s inp e \<and> Apply r (tx_of s inp) w = (Inl e, w')
    | Inr out \<Rightarrow> s' = record_success s inp out
        \<and> (\<exists>out0 w1. Apply r (tx_of s inp) w = (Inr out0, w1) \<and> outcome_of out0 out
             \<and> w' = (if out_NoOp out \<and> rec_repair s then snd (pa_Repair (rt_Dataplane r) w1) else w1))"
proof -
  obtain x w1 where a: "Apply r (tx_of s inp) w = (x, w1)" by fastforce
  show ?thesis
  proof (cases x)
    case (Inl e)
    then show ?thesis using assms a by (auto simp: transact_def tx_of_def)
  next
    case (Inr out0)
    then show ?thesis using assms a
      by (auto simp: transact_def tx_of_def outcome_of_def Let_def split: if_splits prod.splits)
  qed
qed

definition started :: "Reconciler \<Rightarrow> Reconcile_Input \<Rightarrow> Status" where
  "started s inp = (rec_status s)\<lparr>st_DesiredGeneration := pl_Generation (ri_Plan inp), st_Reconciled := True\<rparr>"

text \<open>The state a call hands to its transaction or to \<open>fail\<close>.\<close>

definition prepared :: "Reconciler \<Rightarrow> Reconcile_Input \<Rightarrow> Reconciler \<Rightarrow> bool" where
  "prepared s inp s1 \<longleftrightarrow> same_active s s1 \<and> rec_last s1 = Some inp \<and> rec_status s1 = started s inp"

definition observed :: "('w, 'f, 'd) Runtime \<Rightarrow> 'w \<Rightarrow> 'w" where
  "observed r w = snd (pa_Observe (rt_Dataplane r) w)"

text \<open>A call observes at most twice before its transaction, which starts from what was active.\<close>

lemma Reconcile_path:
  assumes "Reconcile r s inp w = (res, s', w')"
  obtains (observe_fails) s1 e n where "prepared s inp s1" "res = Inl (e, [])" "s' = rec_fail s1 inp e" "w' = (observed r ^^ n) w"
  | (transacts) s1 d n where "prepared s inp s1" "transact r s1 inp d ((observed r ^^ n) w) = (res, s', w')"
proof -
  define s0 where "s0 = s\<lparr>rec_last := Some inp, rec_status := started s inp\<rparr>"
  have rest: thesis
    if p: "prepared s inp s1" and R: "(res, s', w') =
      (if ri_Retry inp \<and> rec_repair s1 \<and> \<not> rec_resync s1 \<and> rec_published s1 \<noteq> None
       then case pa_Observe (rt_Dataplane r) ((observed r ^^ n) w) of
              (Inl e, w) \<Rightarrow> (Inl (e, []), rec_fail (s1\<lparr>rec_resync := True\<rparr>) inp e, w)
            | (Inr obs, w) \<Rightarrow>
                if ob_Drift obs \<noteq> []
                then transact r (s1\<lparr>rec_resync := True, rec_activePeers := ob_Peers obs\<rparr>) inp (ob_Drift obs) w
                else transact r s1 inp [] w
       else transact r s1 inp [] ((observed r ^^ n) w))" for s1 n
  proof (cases "ri_Retry inp \<and> rec_repair s1 \<and> \<not> rec_resync s1 \<and> rec_published s1 \<noteq> None")
    case False
    then show thesis using p R transacts [of s1 "[]" n] by auto
  next
    case True
    obtain x w1 where o: "pa_Observe (rt_Dataplane r) ((observed r ^^ n) w) = (x, w1)" by fastforce
    have w1: "w1 = (observed r ^^ Suc n) w" using o by (simp add: observed_def)
    have p': "prepared s inp (s1\<lparr>rec_resync := True\<rparr>)" "prepared s inp (s1\<lparr>rec_resync := True, rec_activePeers := ps\<rparr>)" for ps
      using p True by (auto simp: prepared_def same_active_def)
    show thesis
    proof (cases x)
      case (Inl e)
      then show thesis using True R o w1 p'(1) observe_fails [of "s1\<lparr>rec_resync := True\<rparr>" e "Suc n"] by auto
    next
      case (Inr obs)
      then show thesis using True R o w1 p p'(2) transacts [of _ _ "Suc n"] by (auto split: if_splits)
    qed
  qed
  have p0: "prepared s inp s0" "prepared s inp (s0\<lparr>rec_activePeers := ps, rec_observed := True\<rparr>)" for ps
    by (auto simp: prepared_def same_active_def s0_def)
  note R = assms [unfolded Reconcile_def, folded started_def, folded s0_def, symmetric]
  show thesis
  proof (cases "rec_observed s0")
    case True
    then show thesis using R by (intro rest [OF p0(1), of 0]) auto
  next
    case False
    obtain x w1 where o: "pa_Observe (rt_Dataplane r) w = (x, w1)" by fastforce
    have w1: "w1 = (observed r ^^ 1) w" using o by (simp add: observed_def)
    show thesis
    proof (cases x)
      case (Inl e)
      then show thesis using R False o w1 p0(1) observe_fails [of s0 e 1] by simp
    next
      case (Inr obs)
      then show thesis using R False o w1 by (intro rest [OF p0(2), of "ob_Peers obs" 1]) auto
    qed
  qed
qed

lemma Reconcile_result:
  assumes "Reconcile r s inp w = (res, s', w')"
  obtains (failed) s1 e d where "prepared s inp s1" "res = Inl (e, d)" "s' = rec_fail s1 inp e"
  | (succeeded) s1 out out0 w0 w1 where "prepared s inp s1"
      "res = Inr out" "s' = record_success s1 inp out" "Apply r (tx_of s1 inp) w0 = (Inr out0, w1)" "outcome_of out0 out"
  using assms
proof (cases rule: Reconcile_path)
  case (observe_fails s1 e n)
  then show thesis using failed by blast
next
  case (transacts s1 d n)
  show thesis
  proof (cases res)
    case (Inl x)
    then show thesis using transact_result [OF transacts(2)] transacts(1) failed by (cases x) auto
  next
    case (Inr out)
    then show thesis using transact_result [OF transacts(2)] transacts(1) succeeded by auto
  qed
qed

subsection \<open>The invariant\<close>

definition published_ok :: "Reconciler \<Rightarrow> bool" where
  "published_ok s =
     (case rec_published s of
        None \<Rightarrow> rec_active s = [] \<and> rec_retiring s = [] \<and> \<not> rec_resync s \<and> \<not> rec_repair s
      | Some pb \<Rightarrow> fst ` set (rec_active s) = pp_RuleID ` set (pl_Ports (pb_Plan pb))
          \<and> snd ` set (rec_active s) \<subseteq> set (pl_Ports (pb_Plan pb))
          \<and> fst ` set (rec_retiring s) \<subseteq> set (pb_Failed pb)
          \<and> fst ` set (rec_active s) \<inter> set (pb_Failed pb) = {})"

text \<open>
  The three maps have each key once and agree with the rule IDs of their values; what is
  active is what the last transaction published, and none of it is retiring; every
  active rule has a generation.
\<close>

definition active_inv :: "Reconciler \<Rightarrow> bool" where
  "active_inv s \<longleftrightarrow>
     distinct (map fst (rec_active s)) \<and> distinct (map fst (rec_activeGen s)) \<and> distinct (map fst (rec_retiring s))
     \<and> (\<forall>(i, pp) \<in> set (rec_active s). pp_RuleID pp = i)
     \<and> (\<forall>(i, rt) \<in> set (rec_retiring s). pp_RuleID (re_Previous rt) = i)
     \<and> fst ` set (rec_active s) \<subseteq> fst ` set (rec_activeGen s)
     \<and> published_ok s"

text \<open>
  An error is recorded exactly while something is unsettled, and then, as for a pending
  repair, a retry is asked for.
\<close>

definition reconciler_inv :: "Reconciler \<Rightarrow> bool" where
  "reconciler_inv s \<longleftrightarrow> active_inv s
     \<and> rec_unsettled s = (st_LastError (rec_status s) \<noteq> [])
     \<and> (rec_unsettled s \<or> rec_repair s \<longrightarrow> st_NeedsRetry (rec_status s))
     \<and> st_Reconciled (rec_status s) = (rec_last s \<noteq> None)"

lemma same_active_published: "same_active s t \<Longrightarrow> published_ok s \<Longrightarrow> published_ok t"
  by (cases "rec_published s"; simp add: same_active_def published_ok_def; metis)

lemma same_active_inv: "same_active s t \<Longrightarrow> active_inv s \<Longrightarrow> active_inv t"
  using same_active_published [of s t] by (simp add: active_inv_def same_active_def)

lemma rec_fail_inv:
  assumes "active_inv s" and "st_Reconciled (rec_status s) = (rec_last s \<noteq> None)"
  shows "reconciler_inv (rec_fail s inp e)"
  using assms by (simp add: reconciler_inv_def active_inv_def published_ok_def rec_fail_def cong: option.case_cong)

lemma publish_active_eq:
  "publish_active s gen pps active gens =
     (foldl (\<lambda>m pp. AList.update (pp_RuleID pp) pp m) active pps,
      foldl (\<lambda>m pp. AList.update (pp_RuleID pp) gen m) gens (filter (\<lambda>pp. map_of (rec_active s) (pp_RuleID pp) \<noteq> Some pp) pps))"
  by (induction pps arbitrary: active gens) simp_all

lemma previous_of_keyed:
  assumes "active_inv s" and "map_of (previous_of s) i = Some pp"
  shows "pp_RuleID pp = i"
proof -
  let ?r = "foldl (\<lambda>m (i, rt). AList.update i (re_Previous rt) m) [] (rec_retiring s)"
  have r: "?r = foldl (\<lambda>m x. AList.update (fst x) (re_Previous (snd x)) m) [] (rec_retiring s)"
    by (simp add: case_prod_unfold)
  have p: "previous_of s = foldl (\<lambda>m x. AList.update (fst x) (snd x) m) ?r (rec_active s)"
    by (simp add: previous_of_def case_prod_unfold)
  have "(i, pp) \<in> (\<lambda>x. (fst x, re_Previous (snd x))) ` set (rec_retiring s) \<union> set (rec_active s)"
    using map_of_SomeD [OF assms(2)] fill_values [of fst snd ?r "rec_active s"]
      fill_values [of fst "\<lambda>x. re_Previous (snd x)" "[]" "rec_retiring s"] unfolding p r by auto
  then show ?thesis using assms(1) by (auto simp: active_inv_def)
qed

lemma retiring_keyed:
  assumes "active_inv s" and "rt \<in> set (retiring (tx_of s inp) failed)"
  shows "pp_RuleID (re_Previous rt) \<in> set (ids failed)"
  using assms previous_of_keyed by (fastforce simp: retiring_iff retiring_of_def tx_of_def)

text \<open>The fields that a success sets.\<close>

lemma record_success_fields:
  "rec_active (record_success s inp out) = foldl (\<lambda>m pp. AList.update (pp_RuleID pp) pp m) [] (pl_Ports (out_Published out))"
  "rec_activeGen (record_success s inp out) =
     filter (\<lambda>(i, g). map_of (rec_active (record_success s inp out)) i \<noteq> None \<or> Plan_Port (ri_Plan inp) i \<noteq> None)
       (foldl (\<lambda>m pp. AList.update (pp_RuleID pp) (pl_Generation (ri_Plan inp)) m) (rec_activeGen s)
         (filter (\<lambda>pp. map_of (rec_active s) (pp_RuleID pp) \<noteq> Some pp) (pl_Ports (out_Published out))))"
  "rec_retiring (record_success s inp out) = foldl (\<lambda>m rt. AList.update (pp_RuleID (re_Previous rt)) rt m) [] (out_Retiring out)"
  "rec_published (record_success s inp out) = Some \<lparr>pb_Plan = out_Published out, pb_Listening = out_Listening out, pb_Failed = ids (out_Failed out)\<rparr>"
  "rec_repair (record_success s inp out) = co_RepairPending (out_Committed out)"
  "\<not> rec_resync (record_success s inp out)"
  "rec_last (record_success s inp out) = rec_last s"
  "rec_unsettled (record_success s inp out) = co_RepairPending (out_Committed out)"
  by (simp_all add: record_success_def publish_active_eq repairError_def Let_def)

lemma record_success_status:
  "st_LastError (rec_status (record_success s inp out)) =
     (if co_RepairPending (out_Committed out) then repairError (pl_Generation (ri_Plan inp)) (co_Errors (out_Committed out)) else [])"
  "st_NeedsRetry (rec_status (record_success s inp out)) = (out_Failed out \<noteq> [] \<or> co_RepairPending (out_Committed out))"
  "st_Reconciled (rec_status (record_success s inp out)) = st_Reconciled (rec_status s)"
  "st_ActiveGeneration (rec_status (record_success s inp out)) = pl_Generation (ri_Plan inp)"
  "st_DesiredGeneration (rec_status (record_success s inp out)) = st_DesiredGeneration (rec_status s)"
  by (simp_all add: record_success_def publish_active_eq Let_def)

lemma record_success_inv:
  assumes "active_inv s" and "Apply r (tx_of s inp) w = (Inr out0, w')" and "outcome_of out0 out"
    and "st_Reconciled (rec_status s) = (rec_last s \<noteq> None)"
  shows "reconciler_inv (record_success s inp out)"
proof -
  let ?t = "record_success s inp out" and ?ports = "pl_Ports (out_Published out)"
  have out: "out_Published out = Without (ri_Plan inp) (ids (out_Failed out))"
    "out_Retiring out = retiring (tx_of s inp) (out_Failed out)"
    using Apply_outcome [OF assms(2)] assms(3) by (simp_all add: outcome_of_def tx_of_def)
  note fields = record_success_fields [of s inp out]
  have keys: "fst ` set (rec_active ?t) = pp_RuleID ` set ?ports" by (simp add: fields(1) fill_keys)
  have vals: "set (rec_active ?t) \<subseteq> (\<lambda>pp. (pp_RuleID pp, pp)) ` set ?ports"
    using fill_values [of pp_RuleID "\<lambda>pp. pp" "[]" ?ports] by (simp add: fields(1))
  have rkeys: "fst ` set (rec_retiring ?t) = (\<lambda>rt. pp_RuleID (re_Previous rt)) ` set (out_Retiring out)"
    by (simp add: fields(3) fill_keys)
  have rvals: "set (rec_retiring ?t) \<subseteq> (\<lambda>rt. (pp_RuleID (re_Previous rt), rt)) ` set (out_Retiring out)"
    using fill_values [of "\<lambda>rt. pp_RuleID (re_Previous rt)" "\<lambda>rt. rt" "[]" "out_Retiring out"] by (simp add: fields(3))
  have gens: "fst ` set (rec_active ?t) \<subseteq> fst ` set (rec_activeGen ?t)"
  proof
    fix i assume i: "i \<in> fst ` set (rec_active ?t)"
    then obtain pp where pp: "pp \<in> set ?ports" "pp_RuleID pp = i" unfolding keys by blast
    let ?g = "foldl (\<lambda>m pp. AList.update (pp_RuleID pp) (pl_Generation (ri_Plan inp)) m) (rec_activeGen s)
         (filter (\<lambda>pp. map_of (rec_active s) (pp_RuleID pp) \<noteq> Some pp) ?ports)"
    have "map_of (rec_active s) i = Some pp \<Longrightarrow> i \<in> fst ` set (rec_activeGen s)"
      using assms(1) by (force simp: active_inv_def dest!: map_of_SomeD)
    then have "i \<in> fst ` set ?g" using pp by (auto simp: fill_keys)
    moreover have "map_of (rec_active ?t) i \<noteq> None" using i by (simp add: map_of_eq_None_iff)
    ultimately show "i \<in> fst ` set (rec_activeGen ?t)" unfolding fields(2) by force
  qed
  have d: "distinct (map fst (rec_active ?t))" "distinct (map fst (rec_retiring ?t))"
    by (simp_all add: fields(1,3) fill_distinct)
  have "distinct (map fst (rec_activeGen ?t))"
    using assms(1) unfolding fields(2) by (intro distinct_map_filter fill_distinct) (simp add: active_inv_def)
  moreover have "published_ok ?t"
    using keys vals rkeys retiring_keyed [OF assms(1)] by (auto simp: published_ok_def fields(4) out)
  ultimately have "active_inv ?t" using d gens vals rvals by (auto simp: active_inv_def)
  then show ?thesis using assms(4) by (simp add: reconciler_inv_def record_success_status fields repairError_def)
qed

subsection \<open>Sequences of calls\<close>

inductive rec_step :: "('w, 'f, 'd) Runtime \<Rightarrow> Reconciler \<times> 'w \<Rightarrow> Reconciler \<times> 'w \<Rightarrow> bool" for r where
  reconciles: "Reconcile r s inp w = (res, s', w') \<Longrightarrow> rec_step r (s, w) (s', w')"
| observes: "Reconciler_Observe r s w = (res, s', w') \<Longrightarrow> rec_step r (s, w) (s', w')"

definition rec_init :: "Reconciler \<times> 'w \<Rightarrow> bool" where
  "rec_init sw \<longleftrightarrow> fst sw = Reconciler_New"

lemma Reconcile_inv:
  assumes "reconciler_inv s" and "Reconcile r s inp w = (res, s', w')"
  shows "reconciler_inv s'"
proof -
  have p: "active_inv s1" "st_Reconciled (rec_status s1) = (rec_last s1 \<noteq> None)" if "prepared s inp s1" for s1
    using that assms(1) by (auto simp: prepared_def started_def reconciler_inv_def intro: same_active_inv)
  from assms(2) show ?thesis
    by (cases rule: Reconcile_result) (auto intro!: rec_fail_inv record_success_inv p)
qed

lemma Observe_inv:
  assumes "reconciler_inv s" and "Reconciler_Observe r s w = (res, s', w')"
  shows "reconciler_inv s'"
proof (cases "rec_published s")
  case None
  then show ?thesis using assms by (simp add: Reconciler_Observe_def)
next
  case (Some pb)
  have a: "active_inv (s\<lparr>rec_resync := True\<rparr>)" "active_inv (s\<lparr>rec_resync := True, rec_activePeers := ps\<rparr>)" for ps
    using assms(1) Some by (auto simp: reconciler_inv_def intro!: same_active_inv [of s] simp: same_active_def)
  have i: "reconciler_inv (s\<lparr>rec_resync := True\<rparr>)" "reconciler_inv (s\<lparr>rec_resync := True, rec_activePeers := ps\<rparr>)" for ps
    using assms(1) a by (auto simp: reconciler_inv_def)
  have f: "reconciler_inv (rec_fail (s\<lparr>rec_resync := True\<rparr>) inp e)" for inp e
    using assms(1) by (intro rec_fail_inv a) (simp add: reconciler_inv_def)
  show ?thesis
    using assms Some i f by (auto simp: Reconciler_Observe_def Let_def split: prod.splits sum.splits option.splits if_splits)
qed

interpretation reconciler: safe_system rec_init "rec_step r" "\<lambda>sw. reconciler_inv (fst sw)"
  for r :: "('w, 'f, 'd) Runtime"
proof
  fix s :: "Reconciler \<times> 'w"
  show "rec_init s \<Longrightarrow> reconciler_inv (fst s)"
    by (simp add: rec_init_def Reconciler_New_def zeroStatus_def reconciler_inv_def active_inv_def published_ok_def)
qed (auto elim!: rec_step.cases intro: Reconcile_inv Observe_inv)

abbreviation reconciler_reachable :: "('w, 'f, 'd) Runtime \<Rightarrow> Reconciler \<times> 'w \<Rightarrow> bool" where
  "reconciler_reachable r \<equiv> transition_system.reachable rec_init (rec_step r)"

subsection \<open>What a call reports\<close>

lemma map_of_fill_distinct:
  assumes "distinct (map k xs)" and "x \<in> set xs"
  shows "map_of (foldl (\<lambda>m x. AList.update (k x) (v x) m) m xs) (k x) = Some (v x)"
proof -
  have "map_of (rev (map (\<lambda>x. (k x, v x)) xs)) (k x) = Some (v x)"
    using assms by (intro map_of_is_SomeI) (auto simp: o_def rev_map [symmetric])
  then show ?thesis by (simp add: fill_map_of)
qed

lemma map_of_fill_other:
  assumes "i \<notin> k ` set xs"
  shows "map_of (foldl (\<lambda>m x. AList.update (k x) (v x) m) m xs) i = map_of m i"
proof -
  have "map_of (rev (map (\<lambda>x. (k x, v x)) xs)) i = None" using assms by (auto simp: map_of_eq_None_iff)
  then show ?thesis by (simp add: fill_map_of map_add_def)
qed

definition plan_keyed :: "Plan \<Rightarrow> bool" where
  "plan_keyed p = distinct (map pp_RuleID (pl_Ports p))"

lemma ruleStates_planned:
  "plan_keyed (ri_Plan inp) \<Longrightarrow> pp \<in> set (pl_Ports (ri_Plan inp)) \<Longrightarrow>
     map_of (ruleStates s inp failed be) (pp_RuleID pp) = Some (planned_state s failed be pp)"
  unfolding ruleStates_def plan_keyed_def by (rule map_of_fill_distinct)

lemma ruleStates_excluded:
  assumes "Plan_Port (ri_Plan inp) i = None" and "map_of (ri_Excluded inp) i = Some why"
  shows "map_of (ruleStates s inp failed be) i = Some (excluded_state s be (i, why))"
proof -
  have "map_of (map (\<lambda>e. (fst e, excluded_state s be e)) ex) i = map_option (\<lambda>why. excluded_state s be (i, why)) (map_of ex i)" for ex
    by (induction ex) auto
  then show ?thesis using assms unfolding ruleStates_def by (simp add: map_of_fill_other Plan_Port_None)
qed

lemma Plan_Port_keyed: "plan_keyed p \<Longrightarrow> pp \<in> set (pl_Ports p) \<Longrightarrow> Plan_Port p (pp_RuleID pp) = Some pp"
  unfolding Plan_Port_def plan_keyed_def
  by (auto simp: find_Some_iff distinct_conv_nth in_set_conv_nth)

lemma Plan_Port_iff: "plan_keyed p \<Longrightarrow> Plan_Port p i = Some pp \<longleftrightarrow> pp \<in> set (pl_Ports p) \<and> pp_RuleID pp = i"
  using Plan_Port_keyed Plan_Port_Some by blast

lemma map_of_filter_keys: "P i \<Longrightarrow> map_of (filter (\<lambda>(j, g). P j) gs) i = map_of gs i"
  by (induction gs) auto

text \<open>After a success the active map is the plan less the failed rules.\<close>

lemma record_success_active:
  assumes "plan_keyed (ri_Plan inp)" and "out_Published out = Without (ri_Plan inp) (ids (out_Failed out))"
  shows "map_of (rec_active (record_success s inp out)) i =
    (if i \<in> set (ids (out_Failed out)) then None else Plan_Port (ri_Plan inp) i)"
proof -
  let ?ports = "pl_Ports (out_Published out)"
  have d: "distinct (map pp_RuleID ?ports)"
    using assms by (simp add: plan_keyed_def distinct_map_filter)
  show ?thesis
  proof (cases "i \<in> pp_RuleID ` set ?ports")
    case True
    then obtain pp where pp: "pp \<in> set ?ports" "i = pp_RuleID pp" by blast
    then have "pp \<in> set (pl_Ports (ri_Plan inp))" "i \<notin> set (ids (out_Failed out))" using assms(2) by auto
    then show ?thesis using map_of_fill_distinct [OF d pp(1), of "\<lambda>x. x"] Plan_Port_keyed [OF assms(1)] pp(2)
      by (simp add: record_success_fields)
  next
    case False
    then have "i \<in> set (ids (out_Failed out)) \<or> Plan_Port (ri_Plan inp) i = None"
      using assms(2) by (auto simp: Plan_Port_None)
    then show ?thesis using map_of_fill_other [OF False, of "\<lambda>x. x" "[]"] by (auto simp: record_success_fields)
  qed
qed

lemma record_success_gen:
  assumes "plan_keyed (ri_Plan inp)" and "out_Published out = Without (ri_Plan inp) (ids (out_Failed out))"
    and "active_inv s" and "pp \<in> set (pl_Ports (out_Published out))"
  shows "genOf (record_success s inp out) (pp_RuleID pp) =
    (if map_of (rec_active s) (pp_RuleID pp) = Some pp then genOf s (pp_RuleID pp) else pl_Generation (ri_Plan inp))"
proof -
  let ?i = "pp_RuleID pp" and ?gen = "pl_Generation (ri_Plan inp)"
  let ?new = "filter (\<lambda>pp. map_of (rec_active s) (pp_RuleID pp) \<noteq> Some pp) (pl_Ports (out_Published out))"
  let ?g = "foldl (\<lambda>m pp. AList.update (pp_RuleID pp) ?gen m) (rec_activeGen s) ?new"
  have port: "Plan_Port (ri_Plan inp) (pp_RuleID q) = Some q \<and> pp_RuleID q \<notin> set (ids (out_Failed out))"
    if "q \<in> set (pl_Ports (out_Published out))" for q
    using that Plan_Port_keyed [OF assms(1), of q] by (simp add: assms(2))
  have inj: "q = pp" if "q \<in> set ?new" "pp_RuleID q = ?i" for q
    using port [of q] port [OF assms(4)] that by (metis filter_is_subset option.inject subsetD)
  have "map_of (rec_active (record_success s inp out)) ?i = Some pp"
    using port [OF assms(4)] by (simp add: record_success_active [OF assms(1,2)])
  then have keep: "map_of (rec_activeGen (record_success s inp out)) ?i = map_of ?g ?i"
    unfolding record_success_fields(2)
    by (intro map_of_filter_keys [of "\<lambda>i. map_of (rec_active (record_success s inp out)) i \<noteq> None \<or> Plan_Port (ri_Plan inp) i \<noteq> None"]) simp
  show ?thesis
  proof (cases "map_of (rec_active s) ?i = Some pp")
    case True
    have "?i \<notin> pp_RuleID ` set ?new"
    proof
      assume "?i \<in> pp_RuleID ` set ?new"
      then obtain q where "q \<in> set ?new" "pp_RuleID q = ?i" by force
      then show False using inj True by force
    qed
    from map_of_fill_other [OF this, of "\<lambda>_. ?gen" "rec_activeGen s"] show ?thesis
      unfolding genOf_def keep by (simp only: True if_True simp_thms)
  next
    case False
    have d: "distinct (map pp_RuleID ?new)" using assms by (simp add: plan_keyed_def distinct_map_filter)
    have "pp \<in> set ?new" using assms(4) False by simp
    from map_of_fill_distinct [OF d this, of "\<lambda>_. ?gen" "rec_activeGen s"] show ?thesis
      unfolding genOf_def keep by (simp only: False if_False option.case)
  qed
qed

subsection \<open>What is forwarded\<close>

lemma lawful_observed: "lawful r fwd \<Longrightarrow> fwd ((observed r ^^ n) w) = fwd w"
  by (induction n) (simp_all add: lawful_def lawful_plane_def observed_def)

text \<open>The failures of a call that succeeds are those of its one transaction, which prepares the plan of the call.\<close>

lemma Reconcile_refused:
  assumes "Reconcile r s inp w = (Inr out, s', w')"
  shows "\<exists>tx n. tx_Plan tx = ri_Plan inp \<and> tx_WG tx = ri_WG inp \<and> refused r tx ((observed r ^^ n) w) (map_of (out_Failed out))"
  using assms
proof (cases rule: Reconcile_path)
  case (transacts s1 d n)
  then obtain out0 w1 where "Apply r (tx_of s1 inp) ((observed r ^^ n) w) = (Inr out0, w1)" "outcome_of out0 out"
    using transact_result [OF transacts(2)] by auto
  then have "refused r (tx_of s1 inp) ((observed r ^^ n) w) (map_of (out_Failed out))" using Apply_refused by (force simp: outcome_of_def)
  then show ?thesis by (intro exI [of _ "tx_of s1 inp"] exI [of _ n]) (simp add: tx_of_def)
qed simp

lemma Reconcile_lawful:
  assumes "lawful r fwd" and "Reconcile r s inp w = (res, s', w')"
  shows "case res of Inl _ \<Rightarrow> fwd w' = fwd w \<or> fwd w' = None
    | Inr out \<Rightarrow> fwd w' = (if out_NoOp out then fwd w else Some (out_Published out))"
  using assms(2)
proof (cases rule: Reconcile_path)
  case (observe_fails s1 e n)
  then show ?thesis by (simp add: lawful_observed [OF assms(1)])
next
  case (transacts s1 d n)
  have repair: "fwd (snd (pa_Repair (rt_Dataplane r) w1)) = fwd w1" for w1
    using assms(1) by (simp add: lawful_def lawful_plane_def)
  note result = transact_result [OF transacts(2)] and obs = lawful_observed [OF assms(1), of n w]
  show ?thesis
  proof (cases res)
    case (Inl x)
    then show ?thesis using result Apply_lawful [OF assms(1)] obs by (cases x) fastforce
  next
    case (Inr out)
    then obtain out0 w1 where a: "Apply r (tx_of s1 inp) ((observed r ^^ n) w) = (Inr out0, w1)" "outcome_of out0 out"
      "w' = (if out_NoOp out \<and> rec_repair s1 then snd (pa_Repair (rt_Dataplane r) w1) else w1)"
      using result by auto
    have "fwd w1 = (if out_NoOp out then fwd w else Some (out_Published out))"
      using Apply_lawful [OF assms(1) a(1)] a(2) obs by (simp add: outcome_of_def)
    then show ?thesis using Inr a(3) repair by simp
  qed
qed

lemma Reconcile_noop:
  assumes "Reconcile r s inp w = (Inr out, s', w')" and "out_NoOp out"
  shows "ri_Retry inp \<and> (\<exists>prev. rec_published s = Some prev \<and> samePublication prev (out_Published out) (out_Listening out) (out_Failed out))"
  using assms(1)
proof (cases rule: Reconcile_result)
  case (succeeded s1 out' out0 w0 w1)
  then have o: "out' = out" "out_NoOp out0" "out_Published out0 = out_Published out" "out_Listening out0 = out_Listening out"
    "out_Failed out0 = out_Failed out" using assms(2) by (simp_all add: outcome_of_def)
  show ?thesis using Apply_noop [OF succeeded(4) o(2)] succeeded(1) unfolding o
    by (auto simp: tx_of_def prepared_def same_active_def split: if_splits)
qed simp

text \<open>The plan known to be forwarded is the published one, up to the generation it was published with.\<close>

definition forwards :: "('w \<Rightarrow> Plan option) \<Rightarrow> Reconciler \<times> 'w \<Rightarrow> bool" where
  "forwards fwd sw =
     (case rec_published (fst sw) of
        None \<Rightarrow> True
      | Some pb \<Rightarrow> (\<forall>p. fwd (snd sw) = Some p \<longrightarrow> p\<lparr>pl_Generation := 0\<rparr> = (pb_Plan pb)\<lparr>pl_Generation := 0\<rparr>))"

lemma Reconcile_published:
  assumes "Reconcile r s inp w = (res, s', w')"
  shows "rec_published s' = (case res of Inl _ \<Rightarrow> rec_published s
    | Inr out \<Rightarrow> Some \<lparr>pb_Plan = out_Published out, pb_Listening = out_Listening out, pb_Failed = ids (out_Failed out)\<rparr>)"
  using assms by (cases rule: Reconcile_result)
    (auto simp: rec_fail_def prepared_def same_active_def record_success_fields)

lemma Observe_frame:
  assumes "Reconciler_Observe r s w = (res, s', w')"
  shows "same_active s s' \<and> (w' = w \<or> w' = observed r w)"
proof (cases "rec_published s")
  case None
  then show ?thesis using assms by (simp add: Reconciler_Observe_def same_active_def)
next
  case (Some pb)
  then show ?thesis using assms
    by (auto simp: Reconciler_Observe_def Let_def observed_def same_active_def rec_fail_def split: prod.splits sum.splits option.splits if_splits)
qed

lemma step_forwards:
  assumes "lawful r fwd" and "forwards fwd sw" and "rec_step r sw sw'"
  shows "forwards fwd sw'"
  using assms(3)
proof cases
  case (reconciles s inp w res s' w')
  note pub = Reconcile_published [OF reconciles(3)] and law = Reconcile_lawful [OF assms(1) reconciles(3)]
  show ?thesis
  proof (cases res)
    case (Inl x)
    then show ?thesis using pub law assms(2) by (auto simp: forwards_def reconciles split: option.splits)
  next
    case (Inr out)
    show ?thesis
    proof (cases "out_NoOp out")
      case True
      then show ?thesis using Inr pub law assms(2) Reconcile_noop [of r s inp w out s' w'] reconciles
        by (auto simp: forwards_def samePublication_def)
    next
      case False
      then show ?thesis using Inr pub law by (simp add: forwards_def reconciles)
    qed
  qed
next
  case (observes s w res s' w')
  have "fwd (observed r w) = fwd w" using lawful_observed [OF assms(1), of 1 w] by simp
  then show ?thesis using Observe_frame [OF observes(3)] assms(2)
    by (auto simp: forwards_def observes same_active_def split: option.splits)
qed

lemma reachable_forwards:
  assumes "lawful r fwd" and "reconciler_reachable r sw"
  shows "forwards fwd sw"
  using assms(2)
proof (rule reconciler.invariant)
  show "rec_init sw \<Longrightarrow> forwards fwd sw" for sw by (simp add: rec_init_def forwards_def Reconciler_New_def)
qed (rule step_forwards [OF assms(1)])

end
