(* ===== verification/Trigger.thy ===== *)
theory Trigger
  imports GoFloat Proto_SplitMerge
begin

section \<open>When to converge again (internal/reconcile/trigger.go)\<close>

text \<open>
  The event loop that decides when to observe and retry, the loop that keeps a
  subscription running, and the gate that spaces out retries. Durations and times are
  nanoseconds in \<open>int64\<close>, whose products wrap; the zero time is zero. The loops run
  until their context ends: the model runs them over the finite sequence of events
  that happened until then.
\<close>

record Triggers =
  tr_Debounce :: int
  tr_SafetyNet :: int
  tr_Retry :: int

definition DefaultTriggers :: Triggers where
  "DefaultTriggers = \<lparr>tr_Debounce = 250 * 1000000, tr_SafetyNet = 5 * 60 * 1000000000, tr_Retry = 30 * 1000000000\<rparr>"

text \<open>What the select of \<open>Triggers.Run\<close> receives, and the calls it makes.\<close>

datatype trigger_event = EvWake | EvDebounce | EvSafety | EvRetry

datatype trigger_call = CallObserve | CallRetry

text \<open>A debounce timer fires only while it is set; the channel is nil otherwise.\<close>

fun run_events :: "bool \<Rightarrow> trigger_event list \<Rightarrow> (trigger_call list \<times> bool) option" where
  "run_events pending [] = Some ([], pending)"
| "run_events pending (e # es) =
     (case e of
        EvWake \<Rightarrow> run_events True es
      | EvDebounce \<Rightarrow> (if pending then map_option (\<lambda>(cs, p). (CallObserve # cs, p)) (run_events False es) else None)
      | EvSafety \<Rightarrow> map_option (\<lambda>(cs, p). (CallObserve # cs, p)) (run_events pending es)
      | EvRetry \<Rightarrow> map_option (\<lambda>(cs, p). (CallRetry # cs, p)) (run_events pending es))"

record Backoff =
  bo_Min :: int
  bo_Max :: int

definition DefaultBackoff :: Backoff where
  "DefaultBackoff = \<lparr>bo_Min = 1000000000, bo_Max = 60 * 1000000000\<rparr>"

definition DefaultRetryBackoff :: Backoff where
  "DefaultRetryBackoff = \<lparr>bo_Min = 1000000000, bo_Max = tr_Retry DefaultTriggers\<rparr>"

subsection \<open>Keeping a subscription\<close>

datatype watch_action = LogStopped | LogFailed string int | CallWake | Sleep int

text \<open>
  One iteration of \<open>Watch\<close> for each subscription that ended: how long it was up, and
  its error.
\<close>

fun watch_loop :: "Backoff \<Rightarrow> int \<Rightarrow> bool \<Rightarrow> (int \<times> string option) list \<Rightarrow> watch_action list" where
  "watch_loop b delay failing [] = []"
| "watch_loop b delay failing ((up, err) # rest) =
     (let (failing, delay) = (if up \<ge> bo_Max b then (False, bo_Min b) else (failing, delay));
          log = (if failing then [] else case err of None \<Rightarrow> [LogStopped] | Some e \<Rightarrow> [LogFailed e delay]);
          twice = wrap64 (delay * 2)
      in log @ [CallWake, Sleep delay] @ watch_loop b (if twice > bo_Max b then bo_Max b else twice) True rest)"

definition Watch :: "Backoff \<Rightarrow> (int \<times> string option) list \<Rightarrow> watch_action list" where
  "Watch b = watch_loop b (bo_Min b) False"

subsection \<open>The retry gate\<close>

record RetryGate =
  ga_Backoff :: Backoff
  ga_delay :: int
  ga_until :: int

definition zeroBackoff :: Backoff where "zeroBackoff = \<lparr>bo_Min = 0, bo_Max = 0\<rparr>"

definition gate_backoff :: "RetryGate \<Rightarrow> Backoff" where
  "gate_backoff g = (if ga_Backoff g = zeroBackoff then DefaultRetryBackoff else ga_Backoff g)"

definition gate_Failed :: "RetryGate \<Rightarrow> int \<Rightarrow> RetryGate" where
  "gate_Failed g now =
     (let b = gate_backoff g;
          delay = (if ga_delay g = 0 then bo_Min b
                   else if wrap64 (ga_delay g * 2) > bo_Max b then bo_Max b
                   else wrap64 (ga_delay g * 2))
      in g\<lparr>ga_delay := delay, ga_until := now + delay\<rparr>)"

definition gate_Succeeded :: "RetryGate \<Rightarrow> RetryGate" where
  "gate_Succeeded g = g\<lparr>ga_delay := 0, ga_until := 0\<rparr>"

definition gate_Allow :: "RetryGate \<Rightarrow> int \<Rightarrow> bool \<Rightarrow> bool" where
  "gate_Allow g now newDrift = (newDrift \<or> \<not> now < ga_until g)"

subsection \<open>Delays\<close>

definition backoff_ok :: "Backoff \<Rightarrow> bool" where
  "backoff_ok b = (0 < bo_Min b \<and> bo_Min b \<le> bo_Max b \<and> bo_Max b < 2 ^ 62)"

lemma wrap64_double: "0 \<le> d \<Longrightarrow> d < 2 ^ 62 \<Longrightarrow> wrap64 (d * 2) = d * 2"
  by (simp add: wrap64_def)

lemma watch_delay_range:
  assumes "backoff_ok b" and "bo_Min b \<le> d" and "d \<le> bo_Max b"
  shows "bo_Min b \<le> (if wrap64 (d * 2) > bo_Max b then bo_Max b else wrap64 (d * 2))"
    and "(if wrap64 (d * 2) > bo_Max b then bo_Max b else wrap64 (d * 2)) \<le> bo_Max b"
  using assms wrap64_double [of d] by (auto simp: backoff_ok_def)

lemma watch_loop_step:
  "watch_loop b delay failing ((up, err) # rest) =
     (let failing' = (if up \<ge> bo_Max b then False else failing); d = (if up \<ge> bo_Max b then bo_Min b else delay)
      in (if failing' then [] else case err of None \<Rightarrow> [LogStopped] | Some e \<Rightarrow> [LogFailed e d]) @ [CallWake, Sleep d]
         @ watch_loop b (if wrap64 (d * 2) > bo_Max b then bo_Max b else wrap64 (d * 2)) True rest)"
  by (simp add: Let_def)

lemma watch_loop_sleeps:
  assumes "backoff_ok b" and "bo_Min b \<le> d" and "d \<le> bo_Max b" and "Sleep x \<in> set (watch_loop b d f runs)"
  shows "bo_Min b \<le> x \<and> x \<le> bo_Max b"
  using assms(2-4)
proof (induction runs arbitrary: d f)
  case (Cons run rest)
  obtain up err where run: "run = (up, err)" by (cases run)
  let ?d = "if up \<ge> bo_Max b then bo_Min b else d"
  let ?n = "if wrap64 (?d * 2) > bo_Max b then bo_Max b else wrap64 (?d * 2)"
  have d: "bo_Min b \<le> ?d" "?d \<le> bo_Max b" using Cons.prems assms(1) by (auto simp: backoff_ok_def)
  note n = watch_delay_range [OF assms(1) d]
  have "x = ?d \<or> Sleep x \<in> set (watch_loop b ?n True rest)"
    using Cons.prems(3) unfolding run watch_loop_step Let_def
    by (auto split: if_splits option.splits)
  then show ?case using d Cons.IH [OF n] by blast
qed simp

text \<open>The delays after a run of failures: the first is the least, each doubles up to the greatest.\<close>

fun gate_fails :: "RetryGate \<Rightarrow> int list \<Rightarrow> RetryGate" where
  "gate_fails g [] = g"
| "gate_fails g (t # ts) = gate_fails (gate_Failed g t) ts"

lemma gate_backoff_Failed [simp]: "gate_backoff (gate_Failed g t) = gate_backoff g"
  by (simp add: gate_backoff_def gate_Failed_def Let_def)

lemma gate_Failed_delay:
  assumes "backoff_ok (gate_backoff g)" and "ga_delay g = (if n = 0 then 0 else min (bo_Max (gate_backoff g)) (bo_Min (gate_backoff g) * 2 ^ (n - 1)))"
  shows "ga_delay (gate_Failed g t) = min (bo_Max (gate_backoff g)) (bo_Min (gate_backoff g) * 2 ^ n)"
proof (cases n)
  case 0
  then show ?thesis using assms by (simp add: gate_Failed_def Let_def backoff_ok_def)
next
  case (Suc k)
  let ?b = "gate_backoff g" and ?d = "ga_delay g"
  have d: "?d = min (bo_Max ?b) (bo_Min ?b * 2 ^ k)" using assms(2) Suc by simp
  have pos: "0 < ?d" using assms(1) by (simp add: d backoff_ok_def)
  have "wrap64 (?d * 2) = ?d * 2" using pos assms(1) by (intro wrap64_double) (auto simp: d backoff_ok_def)
  then show ?thesis using pos assms(1) by (auto simp: gate_Failed_def Let_def d Suc min_def backoff_ok_def)
qed

lemma gate_fails_delay:
  assumes "backoff_ok (gate_backoff g)" and "ga_delay g = (if n = 0 then 0 else min (bo_Max (gate_backoff g)) (bo_Min (gate_backoff g) * 2 ^ (n - 1)))"
    and "ts \<noteq> []"
  shows "ga_delay (gate_fails g ts) = min (bo_Max (gate_backoff g)) (bo_Min (gate_backoff g) * 2 ^ (n + length ts - 1))
    \<and> ga_until (gate_fails g ts) = last ts + ga_delay (gate_fails g ts)"
  using assms
proof (induction ts arbitrary: g n)
  case (Cons t ts)
  note step = gate_Failed_delay [OF Cons.prems(1,2), of t]
  show ?case
  proof (cases "ts = []")
    case True
    then show ?thesis using step by (simp add: gate_Failed_def Let_def)
  next
    case False
    then show ?thesis using Cons.IH [of "gate_Failed g t" "Suc n"] Cons.prems(1) step by simp
  qed
qed simp

end
