(* ===== verification/Reconcile_Properties.thy ===== *)
theory Reconcile_Properties
  imports Reconcile_Invariant Trigger "HOL-Library.Code_Target_Nat"
begin

section \<open>Properties of transactions, the reconciler and the retries\<close>

text \<open>
  The claims on \<open>internal/reconcile\<close>. Their witnesses run on one frontend and one data
  plane, written down here: the world is the published plan, a rule named \<open>b\<close> cannot
  bind its port, and a plan of generation zero is refused as a whole.
\<close>

definition demo_port :: "string \<Rightarrow> PortPlan" where
  "demo_port i = \<lparr>pp_RuleID = i, pp_Agent = ''home'', pp_Proto = ''tcp'', pp_ListenPort = \<lparr>Lo = 80, Hi = 80\<rparr>,
     pp_Forwarding = Relay, pp_SourceMetadata = NoSourceMetadata, pp_Target = ''127.0.0.1:80'', pp_AgentAddr = AddrZero,
     pp_Policy = zeroRulePolicy\<rparr>"

definition demo_plan :: "uint64 \<Rightarrow> string list \<Rightarrow> Plan" where
  "demo_plan gen rules = \<lparr>pl_Generation = gen, pl_Ports = map demo_port rules,
     pl_Admission = \<lparr>pol_Rules = [], pol_PerSourceFlowCaps = \<lparr>cap_UDP = 0, cap_TCP = 0\<rparr>\<rparr>\<rparr>"

definition demo_front :: "(Plan option, string list) Frontend" where
  "demo_front = \<lparr>fr_Prepare = \<lambda>p w. (Inr (map pp_RuleID (pl_Ports p)), w), fr_Listening = \<lambda>_. [80],
     fr_Failed = \<lambda>rules. (if ''b'' \<in> set rules then [(''b'', ''address in use'')] else []),
     fr_Commit = \<lambda>_ _ w. w, fr_Rollback = \<lambda>_ w. w\<rparr>"

definition demo_plane :: "(Plan option, Plan) Participant" where
  "demo_plane = \<lparr>pa_Observe = \<lambda>w. (Inr \<lparr>ob_Peers = [], ob_Drift = []\<rparr>, w),
     pa_Prepare = \<lambda>d w. (if pl_Generation (de_Plan d) = 0 then Inl ''no generation'' else Inr (de_Plan d), w),
     pa_Failed = \<lambda>_. [], pa_Commit = \<lambda>p _ _. (Inr zeroCommitted, Some p), pa_Rollback = \<lambda>_ w. w,
     pa_Repair = \<lambda>w. (zeroCommitted, w)\<rparr>"

definition demo_runtime :: "(Plan option, string list, Plan) Runtime" where
  "demo_runtime = \<lparr>rt_Frontend = Some demo_front, rt_Dataplane = demo_plane\<rparr>"

lemma demo_lawful: "lawful demo_runtime id"
  by (auto simp: lawful_def lawful_plane_def lawful_frontend_def demo_runtime_def demo_plane_def demo_front_def
      ids_def Without_def)

definition demo_tx :: Tx where
  "demo_tx = \<lparr>tx_Plan = demo_plan 7 [''a'', ''b''], tx_WG = None, tx_ActivePeers = [], tx_Previous = [(''b'', demo_port ''b'')],
     tx_Unchanged = None, tx_Resync = False\<rparr>"

definition demo_input :: "uint64 \<Rightarrow> string list \<Rightarrow> Reconcile_Input" where
  "demo_input gen rules = \<lparr>ri_Plan = demo_plan gen rules, ri_WG = None, ri_Excluded = [(''off'', ''disabled'')], ri_Retry = False\<rparr>"

lemmas demo_defs = demo_runtime_def demo_front_def demo_plane_def demo_tx_def demo_plan_def demo_port_def demo_input_def

subsection \<open>Transactions\<close>

text \<open>C21. Whatever the participants do, \<open>Apply\<close> calls them in the fixed order: the frontend is prepared
before the data plane; the frontend is committed only after the data plane committed; whatever was prepared
and not committed is rolled back exactly once, in reverse order; nothing is called after that. Recording
the calls does not change the result.\<close>

theorem apply_order:
  "case Apply (traced r) tx (w, []) of (res, w', t) \<Rightarrow> Apply r tx w = (res, w') \<and> apply_trace_ok r res t"
proof -
  obtain res w' t where "Apply (traced r) tx (w, []) = (res, w', t)" using prod_cases3 by blast
  then show ?thesis using traced_Apply [of r tx "(w, [])" res "(w', t)"] by simp
qed

text \<open>C11. With participants that keep their documented contract, a transaction that fails publishes nothing
that is known of (after a failed commit it may be unknown what is forwarded), and one that commits forwards exactly the plan less the rules that either participant
could not prepare, which are reported with the participants' reasons; the retiring rules are exactly the failed ones with a previous value, each with the
policy of its new declaration. A transaction that commits nothing would have published the same.\<close>

theorem apply_publishes:
  assumes "lawful r fwd" and "Apply r tx w = (res, w')"
  shows "case res of
      Inl e \<Rightarrow> fwd w' = fwd w \<or> fwd w' = None
    | Inr out \<Rightarrow>
        refused r tx w (map_of (out_Failed out))
        \<and> out_Published out = Without (tx_Plan tx) (ids (out_Failed out))
        \<and> fwd w' = (if out_NoOp out then fwd w else Some (out_Published out))
        \<and> set (out_Retiring out) = {\<lparr>re_Previous = prev,
              re_Desired = (case Plan_Port (tx_Plan tx) i of Some pp \<Rightarrow> pp_Policy pp | None \<Rightarrow> zeroRulePolicy)\<rparr> |
              i prev. i \<in> set (ids (out_Failed out)) \<and> map_of (tx_Previous tx) i = Some prev}
        \<and> (out_NoOp out \<longrightarrow> \<not> tx_Resync tx \<and> (\<exists>prev. tx_Unchanged tx = Some prev
              \<and> (pb_Plan prev)\<lparr>pl_Generation := 0\<rparr> = (out_Published out)\<lparr>pl_Generation := 0\<rparr>))"
proof (cases res)
  case (Inl e)
  then show ?thesis using Apply_lawful [OF assms] by simp
next
  case (Inr out)
  note run = assms(2) [unfolded Inr]
  have rets: "set (retiring tx (out_Failed out)) = {\<lparr>re_Previous = prev,
              re_Desired = (case Plan_Port (tx_Plan tx) i of Some pp \<Rightarrow> pp_Policy pp | None \<Rightarrow> zeroRulePolicy)\<rparr> |
              i prev. i \<in> set (ids (out_Failed out)) \<and> map_of (tx_Previous tx) i = Some prev}"
    by (auto simp: retiring_iff retiring_of_def) blast
  have "out_NoOp out \<longrightarrow> \<not> tx_Resync tx \<and> (\<exists>prev. tx_Unchanged tx = Some prev
              \<and> (pb_Plan prev)\<lparr>pl_Generation := 0\<rparr> = (out_Published out)\<lparr>pl_Generation := 0\<rparr>)"
    using Apply_noop [OF run] by (auto simp: samePublication_def)
  then show ?thesis using Apply_refused [OF run] Apply_outcome [OF run] Apply_lawful [OF assms(1) run] rets Inr by simp
qed

lemma demo_run:
  "Apply demo_runtime demo_tx None =
     (Inr \<lparr>out_Failed = [(''b'', ''address in use'')],
           out_Retiring = [\<lparr>re_Previous = demo_port ''b'', re_Desired = zeroRulePolicy\<rparr>],
           out_Published = demo_plan 7 [''a''], out_Listening = [80], out_NoOp = False, out_Committed = zeroCommitted,
           out_Repaired = False, out_Drift = []\<rparr>, Some (demo_plan 7 [''a'']))"
  by (simp add: Apply_def demo_defs front_prepare_def front_failed_def front_listening_def front_commit_def
      ids_def Without_def retiring_def retiring_of_def map_filter_simps Plan_Port_def Let_def)

theorem apply_publishes_witness:
  "Apply demo_runtime demo_tx None =
     (Inr \<lparr>out_Failed = [(''b'', ''address in use'')],
           out_Retiring = [\<lparr>re_Previous = demo_port ''b'', re_Desired = zeroRulePolicy\<rparr>],
           out_Published = demo_plan 7 [''a''], out_Listening = [80], out_NoOp = False, out_Committed = zeroCommitted,
           out_Repaired = False, out_Drift = []\<rparr>, Some (demo_plan 7 [''a'']))
   \<and> demo_plan 7 [''a''] = Without (demo_plan 7 [''a'', ''b'']) [''b''] \<and> refused demo_runtime demo_tx None [''b'' \<mapsto> ''address in use'']"
  using apply_publishes [OF demo_lawful demo_run] demo_run by (simp add: demo_tx_def ids_def)

subsection \<open>The reconciler\<close>

text \<open>C19. A call of \<open>Reconcile\<close> that fails leaves what is active, its generations, the retiring rules, the
published plan as they were, and publishes nothing that is known of; the error is recorded and a retry is asked for. Every
planned rule is then reported pending exactly when a resynchronization is due or its declared value is not the
active one, and a rule excluded from the plan exactly while it is still active.\<close>

theorem reconcile_failure:
  assumes "lawful r fwd" and "Reconcile r s inp w = (Inl (e, d), s', w')" and "plan_keyed (ri_Plan inp)"
  shows "(fwd w' = fwd w \<or> fwd w' = None)
    \<and> rec_active s' = rec_active s \<and> rec_activeGen s' = rec_activeGen s \<and> rec_retiring s' = rec_retiring s
    \<and> rec_published s' = rec_published s
    \<and> st_ActiveGeneration (rec_status s') = st_ActiveGeneration (rec_status s)
    \<and> st_DesiredGeneration (rec_status s') = pl_Generation (ri_Plan inp)
    \<and> st_LastError (rec_status s') = e \<and> st_NeedsRetry (rec_status s')
    \<and> (\<forall>pp \<in> set (pl_Ports (ri_Plan inp)).
         map_option rs_State (map_of (st_Rules (rec_status s')) (pp_RuleID pp)) =
           Some (if rec_resync s' \<or> map_of (rec_active s) (pp_RuleID pp) \<noteq> Some pp then Pending else Active))
    \<and> (\<forall>i why. Plan_Port (ri_Plan inp) i = None \<longrightarrow> map_of (ri_Excluded inp) i = Some why \<longrightarrow>
         map_option rs_State (map_of (st_Rules (rec_status s')) i) =
           Some (if map_of (rec_active s) i \<noteq> None then Pending else NotActive))"
proof -
  obtain s1 where s1: "same_active s s1" "rec_status s1 = started s inp" and s': "s' = rec_fail s1 inp e"
    using assms(2) by (cases rule: Reconcile_result) (auto simp: prepared_def)
  have f: "fwd w' = fwd w \<or> fwd w' = None" using Reconcile_lawful [OF assms(1,2)] by simp
  have rules: "st_Rules (rec_status s') = ruleStates s1 inp [] (Some e)" by (simp add: s' rec_fail_def)
  have planned: "map_option rs_State (map_of (st_Rules (rec_status s')) (pp_RuleID pp)) =
      Some (if rec_resync s' \<or> map_of (rec_active s) (pp_RuleID pp) \<noteq> Some pp then Pending else Active)"
    if "pp \<in> set (pl_Ports (ri_Plan inp))" for pp
    using s1 by (simp add: rules ruleStates_planned [OF assms(3) that] planned_state_def s' rec_fail_def same_active_def Let_def)
  have excluded: "map_option rs_State (map_of (st_Rules (rec_status s')) i) =
      Some (if map_of (rec_active s) i \<noteq> None then Pending else NotActive)"
    if "Plan_Port (ri_Plan inp) i = None" "map_of (ri_Excluded inp) i = Some why" for i why
    using s1 by (simp add: rules ruleStates_excluded [OF that] excluded_state_def same_active_def Let_def)
  show ?thesis using s1 f planned excluded by (simp add: s' rec_fail_def started_def same_active_def)
qed

lemma demo_reconcile_fails:
  "\<exists>s' w'. Reconcile demo_runtime Reconciler_New (demo_input 0 [''a'']) None = (Inl (''no generation'', []), s', w')"
  by (simp add: Reconcile_def transact_def Apply_def Reconciler_New_def demo_defs front_prepare_def front_failed_def
      front_listening_def front_rollback_def ids_def Without_def Let_def)

theorem reconcile_failure_witness:
  "\<exists>s' w'. Reconcile demo_runtime Reconciler_New (demo_input 0 [''a'']) None = (Inl (''no generation'', []), s', w')
     \<and> w' = None \<and> rec_active s' = [] \<and> map_option rs_State (map_of (st_Rules (rec_status s')) ''a'') = Some Pending
     \<and> map_option rs_State (map_of (st_Rules (rec_status s')) ''off'') = Some NotActive"
proof -
  obtain s' w' where run: "Reconcile demo_runtime Reconciler_New (demo_input 0 [''a'']) None = (Inl (''no generation'', []), s', w')"
    using demo_reconcile_fails by blast
  have keyed: "plan_keyed (ri_Plan (demo_input 0 [''a'']))" by (simp add: plan_keyed_def demo_defs)
  have "Plan_Port (ri_Plan (demo_input 0 [''a''])) ''off'' = None" by (simp add: Plan_Port_def demo_defs)
  then show ?thesis using run reconcile_failure [OF demo_lawful run keyed]
    by (auto simp: demo_defs Reconciler_New_def)
qed

text \<open>C20. A call of \<open>Reconcile\<close> that succeeds prepares its plan once, after the observations it needs, and makes exactly the
planned rules active that neither the frontend nor the data plane
failed to prepare, with their declared values, and reports exactly these as active and the failed ones as not
active; a rule keeps the generation it was published with while its value is unchanged, and gets the new one
otherwise. What is forwarded is the published plan, unless the call changed nothing.\<close>

theorem reconcile_success:
  assumes "lawful r fwd" and "Reconcile r s inp w = (Inr out, s', w')" and "plan_keyed (ri_Plan inp)" and "reconciler_inv s"
  shows "(\<exists>tx n. tx_Plan tx = ri_Plan inp \<and> tx_WG tx = ri_WG inp \<and> refused r tx ((observed r ^^ n) w) (map_of (out_Failed out)))
    \<and> out_Published out = Without (ri_Plan inp) (ids (out_Failed out))
    \<and> fwd w' = (if out_NoOp out then fwd w else Some (out_Published out))
    \<and> (\<forall>i. map_of (rec_active s') i = (if i \<in> set (ids (out_Failed out)) then None else Plan_Port (ri_Plan inp) i))
    \<and> (\<forall>pp \<in> set (pl_Ports (ri_Plan inp)).
         map_option rs_State (map_of (st_Rules (rec_status s')) (pp_RuleID pp)) =
           Some (if pp_RuleID pp \<in> set (ids (out_Failed out)) then NotActive else Active))
    \<and> (\<forall>pp \<in> set (pl_Ports (out_Published out)). genOf s' (pp_RuleID pp) =
         (if map_of (rec_active s) (pp_RuleID pp) = Some pp then genOf s (pp_RuleID pp) else pl_Generation (ri_Plan inp)))
    \<and> st_ActiveGeneration (rec_status s') = pl_Generation (ri_Plan inp) \<and> \<not> rec_resync s'
    \<and> st_NeedsRetry (rec_status s') = (out_Failed out \<noteq> [] \<or> co_RepairPending (out_Committed out))"
proof -
  obtain s1 out0 w0 w1 where s1: "same_active s s1" and s': "s' = record_success s1 inp out"
    and run: "Apply r (tx_of s1 inp) w0 = (Inr out0, w1)" "outcome_of out0 out"
    using assms(2) by (cases rule: Reconcile_result) (auto simp: prepared_def)
  have pub: "out_Published out = Without (ri_Plan inp) (ids (out_Failed out))"
    using Apply_outcome [OF run(1)] run(2) by (simp add: outcome_of_def tx_of_def)
  have f: "fwd w' = (if out_NoOp out then fwd w else Some (out_Published out))"
    using Reconcile_lawful [OF assms(1,2)] by simp
  have inv: "active_inv s1" using assms(4) same_active_inv [OF s1] by (simp add: reconciler_inv_def)
  have act: "map_of (rec_active s') i = (if i \<in> set (ids (out_Failed out)) then None else Plan_Port (ri_Plan inp) i)" for i
    unfolding s' by (rule record_success_active [OF assms(3) pub])
  have gens: "genOf s' (pp_RuleID pp) =
      (if map_of (rec_active s) (pp_RuleID pp) = Some pp then genOf s (pp_RuleID pp) else pl_Generation (ri_Plan inp))"
    if "pp \<in> set (pl_Ports (out_Published out))" for pp
    using record_success_gen [OF assms(3) pub inv that] s1 by (simp add: s' genOf_def same_active_def)
  have rules: "\<exists>t. st_Rules (rec_status s') = ruleStates t inp (out_Failed out) None"
    unfolding s' record_success_def Let_def by (auto split: prod.split)
  have states: "map_option rs_State (map_of (st_Rules (rec_status s')) (pp_RuleID pp)) =
      Some (if pp_RuleID pp \<in> set (ids (out_Failed out)) then NotActive else Active)"
    if "pp \<in> set (pl_Ports (ri_Plan inp))" for pp
  proof -
    have "pp_RuleID pp \<in> set (ids (out_Failed out)) \<longleftrightarrow> map_of (out_Failed out) (pp_RuleID pp) \<noteq> None"
      by (simp add: ids_def map_of_eq_None_iff)
    moreover obtain t where "st_Rules (rec_status s') = ruleStates t inp (out_Failed out) None" using rules by blast
    ultimately show ?thesis by (auto simp: ruleStates_planned [OF assms(3) that] planned_state_def Let_def)
  qed
  have rest: "st_ActiveGeneration (rec_status s') = pl_Generation (ri_Plan inp) \<and> \<not> rec_resync s'
      \<and> st_NeedsRetry (rec_status s') = (out_Failed out \<noteq> [] \<or> co_RepairPending (out_Committed out))"
    by (simp add: s' record_success_status record_success_fields)
  show ?thesis by (intro conjI allI ballI Reconcile_refused [OF assms(2)] pub f act states gens) (use rest in simp_all)
qed

lemma demo_reconcile_succeeds:
  "\<exists>out s' w'. Reconcile demo_runtime Reconciler_New (demo_input 7 [''a'', ''b'']) None = (Inr out, s', w')
     \<and> out_Failed out = [(''b'', ''address in use'')] \<and> \<not> out_NoOp out"
  by (simp add: Reconcile_def transact_def Apply_def Reconciler_New_def demo_defs front_prepare_def front_failed_def
      front_listening_def front_commit_def ids_def Without_def Let_def)

lemma demo_reconcile_result:
  "Reconcile demo_runtime Reconciler_New (demo_input 7 [''a'', ''b'']) None = (Inr out, s', w') \<Longrightarrow>
     out_Published out = demo_plan 7 [''a''] \<and> w' = Some (demo_plan 7 [''a''])"
  by (auto simp: Reconcile_def transact_def Apply_def Reconciler_New_def demo_defs front_prepare_def front_failed_def
      front_listening_def front_commit_def ids_def Without_def Let_def)

lemma new_inv: "reconciler_inv Reconciler_New"
  using reconciler.init_inv [of "(Reconciler_New, ())"] by (simp add: rec_init_def)

theorem reconcile_success_witness:
  "\<exists>out s' w'. Reconcile demo_runtime Reconciler_New (demo_input 7 [''a'', ''b'']) None = (Inr out, s', w')
     \<and> w' = Some (demo_plan 7 [''a'']) \<and> map_of (rec_active s') ''a'' = Some (demo_port ''a'') \<and> map_of (rec_active s') ''b'' = None
     \<and> map_option rs_State (map_of (st_Rules (rec_status s')) ''b'') = Some NotActive \<and> genOf s' ''a'' = 7"
proof -
  obtain out s' w' where run: "Reconcile demo_runtime Reconciler_New (demo_input 7 [''a'', ''b'']) None = (Inr out, s', w')"
    and out: "out_Failed out = [(''b'', ''address in use'')]" "\<not> out_NoOp out" using demo_reconcile_succeeds by blast
  have keyed: "plan_keyed (ri_Plan (demo_input 7 [''a'', ''b'']))" by (simp add: plan_keyed_def demo_defs)
  have pub: "Without (demo_plan 7 [''a'', ''b'']) [''b''] = demo_plan 7 [''a'']" by (simp add: demo_defs Without_def)
  have port: "Plan_Port (demo_plan 7 [''a'', ''b'']) ''a'' = Some (demo_port ''a'')" by (simp add: demo_defs Plan_Port_def)
  show ?thesis using run reconcile_success [OF demo_lawful run keyed new_inv] out pub port
    by (intro exI) (auto simp: ids_def demo_input_def demo_plan_def demo_port_def Reconciler_New_def)
qed

lemma published_ok_disjoint:
  assumes "published_ok s"
  shows "fst ` set (rec_active s) \<inter> fst ` set (rec_retiring s) = {}"
proof (cases "rec_published s")
  case (Some pb)
  have "fst ` set (rec_retiring s) \<subseteq> set (pb_Failed pb)" "fst ` set (rec_active s) \<inter> set (pb_Failed pb) = {}"
    using assms unfolding published_ok_def Some option.case by blast+
  then show ?thesis by blast
qed (use assms in \<open>simp add: published_ok_def\<close>)

text \<open>C13. In every state that calls of \<open>Reconcile\<close> and \<open>Observe\<close> reach over participants that keep
their contract, what the reconciler records as active is what is forwarded, as far as that is known: the plan
known to be forwarded is the published one up to its generation and holds exactly the active rules; no active rule is retiring or failed, every one has a
generation; an error is recorded exactly while the state is unsettled, and a retry is then asked for.\<close>

theorem reconciler_consistent:
  assumes "lawful r fwd" and "reconciler_reachable r (s, w)"
  shows "(case rec_published s of
        None \<Rightarrow> rec_active s = [] \<and> rec_retiring s = []
      | Some pb \<Rightarrow> pp_RuleID ` set (pl_Ports (pb_Plan pb)) = fst ` set (rec_active s)
          \<and> snd ` set (rec_active s) \<subseteq> set (pl_Ports (pb_Plan pb))
          \<and> fst ` set (rec_active s) \<inter> set (pb_Failed pb) = {}
          \<and> (\<forall>p. fwd w = Some p \<longrightarrow> p\<lparr>pl_Generation := 0\<rparr> = (pb_Plan pb)\<lparr>pl_Generation := 0\<rparr>))
    \<and> fst ` set (rec_active s) \<inter> fst ` set (rec_retiring s) = {}
    \<and> fst ` set (rec_active s) \<subseteq> fst ` set (rec_activeGen s)
    \<and> distinct (map fst (rec_active s)) \<and> distinct (map fst (rec_retiring s))
    \<and> rec_unsettled s = (st_LastError (rec_status s) \<noteq> [])
    \<and> (rec_unsettled s \<or> rec_repair s \<longrightarrow> st_NeedsRetry (rec_status s))"
proof -
  have inv: "reconciler_inv s" using reconciler.reachable_inv [OF assms(2)] by simp
  have f: "forwards fwd (s, w)" by (rule reachable_forwards [OF assms])
  have ok: "published_ok s" using inv by (simp add: reconciler_inv_def active_inv_def)
  then have disj: "fst ` set (rec_active s) \<inter> fst ` set (rec_retiring s) = {}" by (rule published_ok_disjoint)
  have "case rec_published s of None \<Rightarrow> rec_active s = [] \<and> rec_retiring s = []
      | Some pb \<Rightarrow> pp_RuleID ` set (pl_Ports (pb_Plan pb)) = fst ` set (rec_active s)
          \<and> snd ` set (rec_active s) \<subseteq> set (pl_Ports (pb_Plan pb))
          \<and> fst ` set (rec_active s) \<inter> set (pb_Failed pb) = {}
          \<and> (\<forall>p. fwd w = Some p \<longrightarrow> p\<lparr>pl_Generation := 0\<rparr> = (pb_Plan pb)\<lparr>pl_Generation := 0\<rparr>)"
  proof (cases "rec_published s")
    case (Some pb)
    show ?thesis using ok f unfolding published_ok_def forwards_def fst_conv snd_conv Some option.case
      by (elim conjE) (intro conjI; (assumption | erule sym))
  qed (use ok in \<open>simp add: published_ok_def\<close>)
  then show ?thesis using inv disj unfolding reconciler_inv_def active_inv_def
    by (elim conjE) (intro conjI; assumption)
qed

theorem reconciler_consistent_witness:
  "\<exists>out s' w'. Reconcile demo_runtime Reconciler_New (demo_input 7 [''a'', ''b'']) None = (Inr out, s', w')
     \<and> w' = Some (demo_plan 7 [''a'']) \<and> fst ` set (rec_active s') = {''a''}
     \<and> rec_unsettled s' = (st_LastError (rec_status s') \<noteq> [])"
proof -
  obtain out s' w' where run: "Reconcile demo_runtime Reconciler_New (demo_input 7 [''a'', ''b'']) None = (Inr out, s', w')"
    using demo_reconcile_succeeds by blast
  have "reconciler_reachable demo_runtime (Reconciler_New, None)"
    by (rule reconciler.start) (simp add: rec_init_def)
  then have "reconciler_reachable demo_runtime (s', w')"
    by (rule reconciler.advance) (rule rec_step.reconciles [OF run])
  note c = reconciler_consistent [OF demo_lawful this]
  have w: "out_Published out = demo_plan 7 [''a'']" "w' = Some (demo_plan 7 [''a''])"
    using run demo_reconcile_result by auto
  show ?thesis using run c Reconcile_published [OF run] w by (auto simp: demo_plan_def demo_port_def)
qed

subsection \<open>Retries\<close>

text \<open>After a run of failures the gate stays closed for the least delay doubled once for each further
failure, up to the greatest delay, counted from the last failure, and only newly found drift passes it; a
success opens it. No wait of the subscription loop is shorter than the least or longer than the greatest
delay. No doubling overflows.\<close>

theorem retry_delays:
  assumes "backoff_ok (gate_backoff g)" and "ga_delay g = 0" and "ts \<noteq> []" and "backoff_ok b"
  shows "gate_Allow (gate_fails g ts) now newDrift =
      (newDrift \<or> last ts + min (bo_Max (gate_backoff g)) (bo_Min (gate_backoff g) * 2 ^ (length ts - 1)) \<le> now)
    \<and> ga_delay (gate_Succeeded (gate_fails g ts)) = 0
    \<and> (0 \<le> now \<longrightarrow> gate_Allow (gate_Succeeded (gate_fails g ts)) now newDrift)
    \<and> (\<forall>x. Sleep x \<in> set (Watch b runs) \<longrightarrow> bo_Min b \<le> x \<and> x \<le> bo_Max b)"
proof -
  have "ga_until (gate_fails g ts) = last ts + min (bo_Max (gate_backoff g)) (bo_Min (gate_backoff g) * 2 ^ (length ts - 1))"
    using gate_fails_delay [OF assms(1) _ assms(3), of 0] assms(2) by simp
  then have "gate_Allow (gate_fails g ts) now newDrift =
      (newDrift \<or> last ts + min (bo_Max (gate_backoff g)) (bo_Min (gate_backoff g) * 2 ^ (length ts - 1)) \<le> now)"
    unfolding gate_Allow_def not_less by presburger
  moreover have "bo_Min b \<le> x \<and> x \<le> bo_Max b" if "Sleep x \<in> set (Watch b runs)" for x
    using watch_loop_sleeps [OF assms(4) _ _ that [unfolded Watch_def]] assms(4) by (simp add: backoff_ok_def)
  ultimately show ?thesis by (simp add: gate_Allow_def gate_Succeeded_def)
qed

theorem retry_delays_witness:
  "\<not> gate_Allow (gate_fails \<lparr>ga_Backoff = zeroBackoff, ga_delay = 0, ga_until = 0\<rparr> [0, 1000000000, 3000000000]) 6999999999 False
   \<and> gate_Allow (gate_fails \<lparr>ga_Backoff = zeroBackoff, ga_delay = 0, ga_until = 0\<rparr> [0, 1000000000, 3000000000]) 7000000000 False
   \<and> Watch DefaultBackoff [(0, None), (5, Some ''gone'')] = [LogStopped, CallWake, Sleep 1000000000, CallWake, Sleep 2000000000]"
proof -
  let ?g = "\<lparr>ga_Backoff = zeroBackoff, ga_delay = 0, ga_until = 0\<rparr>"
  have b: "gate_backoff ?g = DefaultRetryBackoff" by (simp add: gate_backoff_def)
  have ok: "backoff_ok (gate_backoff ?g)" "backoff_ok DefaultBackoff"
    by (simp_all add: b backoff_ok_def DefaultRetryBackoff_def DefaultTriggers_def DefaultBackoff_def)
  have "Watch DefaultBackoff [(0, None), (5, Some ''gone'')] = [LogStopped, CallWake, Sleep 1000000000, CallWake, Sleep 2000000000]"
    by (simp add: Watch_def DefaultBackoff_def wrap64_def)
  then show ?thesis
    using retry_delays [OF ok(1) _ _ ok(2), of "[0, 1000000000, 3000000000]"]
    by (simp add: b DefaultRetryBackoff_def DefaultTriggers_def)
qed

subsection \<open>Peers\<close>

text \<open>
  The union keeps every wanted peer, in order, and adds held peers with new keys and
  unclaimed valid addresses only: no two added peers share a key, and none takes an
  address that a wanted peer has. Two lists are equal for the device exactly when they
  give every key the same address.
\<close>

theorem peer_union:
  "\<exists>kept. PeerUnion want have = want @ kept \<and> set kept \<subseteq> set have \<and> distinct (map pe_PublicKey kept)
     \<and> pe_PublicKey ` set kept =
         pe_PublicKey ` {p \<in> set have. pe_PublicKey p \<notin> pe_PublicKey ` set want \<and> pe_Address p \<notin> pe_Address ` set want
           \<and> addrIsValid (pe_Address p)}"
proof -
  obtain ys where ys: "PeerUnion want have = want @ ys" "set ys \<subseteq> set have" "distinct (map pe_PublicKey ys)"
    "\<forall>p \<in> set ys. pe_PublicKey p \<notin> pe_PublicKey ` set want \<and> pe_Address p \<notin> pe_Address ` set want \<and> addrIsValid (pe_Address p)"
    "\<forall>p \<in> set have. pe_PublicKey p \<notin> pe_PublicKey ` set want \<and> pe_Address p \<notin> pe_Address ` set want \<and> addrIsValid (pe_Address p)
       \<longrightarrow> pe_PublicKey p \<in> pe_PublicKey ` set ys"
    using union_loop_parts [of want "map pe_PublicKey want" "map pe_Address want" "have"] unfolding PeerUnion_def set_map by blast
  then show ?thesis by (intro exI [of _ ys]) blast
qed

end
