(* ===== verification/Frag_Table.thy ===== *)
theory Frag_Table
  imports GoLib
begin

section \<open>Reassembly of IPv4 fragments (internal/ipv4frag)\<close>

text \<open>
  The table of unfinished datagrams with its limits on entries, fragments and bytes.
  A byte is a \<^typ>\<open>uint8\<close>, a packet a list of bytes. An array of the source with the length of
  its used part (\<open>first\<close>, \<open>quote\<close>, \<open>copied\<close>) is the list of that part, and an array slot
  with a \<open>used\<close> flag is an option. Times and durations are nanoseconds. The sizes of the
  Go structs, which the compiler fixes, are an argument of \<open>Table_New\<close>. A function whose
  Go code could index out of range or not return has an option as its result, \<open>None\<close>
  for that case. The mutex makes each method one operation.
\<close>

unbundle bit_operations_syntax

subsection \<open>Types\<close>

record FragLimits =
  lim_Entries :: int
  lim_Fragments :: int
  lim_Bytes :: int
  lim_Lifetime :: int

datatype FragStatus = Held | Complete | Duplicate | Rejected | Capacity | Closed

datatype FragReason = ReasonNone | ReasonMalformed | ReasonOptions | ReasonOverlap | ReasonConflict
  | ReasonExpired | ReasonCapacity

record Notice =
  no_Reason :: FragReason
  no_Pointer :: uint8
  no_Quote :: "uint8 list"
  no_HasFirst :: bool

definition zeroNotice :: Notice where
  "zeroNotice = \<lparr>no_Reason = ReasonNone, no_Pointer = 0, no_Quote = [], no_HasFirst = False\<rparr>"

record Result =
  res_Status :: FragStatus
  res_Packet :: "uint8 list"
  res_Notice :: Notice

definition status_result :: "FragStatus \<Rightarrow> Result" where
  "status_result s = \<lparr>res_Status = s, res_Packet = [], res_Notice = zeroNotice\<rparr>"

record ipv4AssemblyKey =
  ak_src :: "uint8 list"
  ak_dst :: "uint8 list"
  ak_id :: uint16
  ak_protocol :: uint8

text \<open>The total is \<open>None\<close> until the last fragment is seen, \<open>copied\<close> until it is set.\<close>

record ipv4Assembly =
  as_key :: ipv4AssemblyKey
  as_deadline :: int
  as_total :: "nat option"
  as_covered :: nat
  as_parts :: nat
  as_first :: "uint8 list"
  as_quote :: "uint8 list"
  as_copied :: "uint8 list option"
  as_ecnMask :: uint8

record ipv4Piece =
  pc_owner :: nat
  pc_start :: nat
  pc_more :: bool
  pc_data :: "uint8 list"

record Table =
  tb_limits :: FragLimits
  tb_entries :: "ipv4Assembly option list"
  tb_pieces :: "ipv4Piece option list"
  tb_baseCost :: int
  tb_used :: int
  tb_evicted :: uint64
  tb_closed :: bool

record Sizes =
  sz_Table :: int
  sz_Assembly :: int
  sz_Piece :: int
  sz_Notice :: int

datatype frag_error = InvalidLimits | MetadataExceedsBudget | NoticeExceedsBudget

definition Table_New :: "Sizes \<Rightarrow> FragLimits \<Rightarrow> (frag_error, Table) res" where
  "Table_New sz l =
     (if lim_Entries l \<le> 0 \<or> lim_Fragments l \<le> 0 \<or> lim_Bytes l \<le> 0 \<or> lim_Lifetime l \<le> 0
         \<or> lim_Entries l > 4096 \<or> lim_Fragments l > 65536
      then Inl InvalidLimits
      else if lim_Entries l > go_div (lim_Bytes l - sz_Table sz) (sz_Assembly sz) then Inl MetadataExceedsBudget
      else let base = sz_Table sz + lim_Entries l * sz_Assembly sz in
        if lim_Fragments l > go_div (lim_Bytes l - base) (sz_Piece sz) then Inl MetadataExceedsBudget
        else let base = base + lim_Fragments l * sz_Piece sz in
          if lim_Entries l > go_div (lim_Bytes l - base) (sz_Notice sz) then Inl NoticeExceedsBudget
          else let base = base + lim_Entries l * sz_Notice sz in
            Inr \<lparr>tb_limits = l, tb_entries = replicate (nat (lim_Entries l)) None,
                 tb_pieces = replicate (nat (lim_Fragments l)) None, tb_baseCost = base, tb_used = base,
                 tb_evicted = 0, tb_closed = False\<rparr>)"

subsection \<open>Bytes and checksums\<close>

text \<open>\<open>binary.BigEndian.Uint16\<close> of the bytes at an offset.\<close>

definition be16 :: "uint8 \<Rightarrow> uint8 \<Rightarrow> uint16" where
  "be16 a b = push_bit 8 (ucast a) OR ucast b"

definition Uint16_at :: "uint8 list \<Rightarrow> nat \<Rightarrow> uint16" where
  "Uint16_at bs i = be16 (bs ! i) (bs ! (i + 1))"

definition PutUint16_at :: "uint8 list \<Rightarrow> nat \<Rightarrow> uint16 \<Rightarrow> uint8 list" where
  "PutUint16_at bs i w = bs[i := ucast (drop_bit 8 w), i + 1 := ucast w]"

text \<open>The sum of the 16-bit words; \<open>None\<close> is the index out of range on a last single byte.\<close>

fun sum16 :: "uint32 \<Rightarrow> uint8 list \<Rightarrow> uint32 option" where
  "sum16 s [] = Some s"
| "sum16 s [b] = None"
| "sum16 s (a # b # bs) = sum16 (s + ucast (be16 a b)) bs"

lemma fold_carry_smaller:
  fixes s :: uint32
  assumes "drop_bit 16 s \<noteq> 0"
  shows "unat ((s AND 0xffff) + drop_bit 16 s) < unat s"
proof -
  have d: "unat (drop_bit 16 s) = unat s div 65536" by (simp add: drop_bit_eq_div unat_div)
  have "s AND 0xffff = take_bit 16 s" by (simp add: take_bit_eq_mask mask_eq_exp_minus_1)
  then have m: "unat (s AND 0xffff) = unat s mod 65536" by (simp add: take_bit_eq_mod unat_mod)
  have lt: "unat s < 4294967296" by (rule unat_uint32)
  have pos: "0 < unat s div 65536" using assms d by (metis gr0I unat_eq_zero)
  have "unat ((s AND 0xffff) + drop_bit 16 s) = unat s mod 65536 + unat s div 65536"
    using lt by (simp add: unat_word_ariths(1) d m)
  moreover have "unat s mod 65536 + unat s div 65536 < unat s mod 65536 + 65536 * (unat s div 65536)"
    using pos by linarith
  ultimately show ?thesis by (simp add: mod_mult_div_eq)
qed

text \<open>The loop that folds the carries into the low 16 bits.\<close>

function fold_carry :: "uint32 \<Rightarrow> uint32" where
  "fold_carry s = (if drop_bit 16 s \<noteq> 0 then fold_carry ((s AND 0xffff) + drop_bit 16 s) else s)"
  by pat_completeness auto
termination by (relation "measure unat") (use fold_carry_smaller in \<open>auto simp del: drop_bit_of_0\<close>)

declare fold_carry.simps [simp del]

definition ChecksumOK :: "uint8 list \<Rightarrow> bool option" where
  "ChecksumOK h = map_option (\<lambda>s. fold_carry s = 0xffff) (sum16 0 h)"

definition SetChecksum :: "uint8 list \<Rightarrow> uint8 list option" where
  "SetChecksum h =
     (let h = h[10 := 0, 11 := 0]
      in map_option (\<lambda>s. PutUint16_at h 10 (NOT (ucast (fold_carry s)))) (sum16 0 h))"

subsection \<open>Options and headers\<close>

text \<open>
  \<open>ipv4CopiedOptions\<close> from offset \<open>p\<close> on: the copied options, or the offset of the error.
  The bytes \<open>h\<close> are the header from \<open>p\<close> on.
\<close>

text \<open>The offset of the first nonzero byte of the padding, if there is one.\<close>

fun bad_padding :: "nat \<Rightarrow> uint8 list \<Rightarrow> nat option" where
  "bad_padding q [] = None"
| "bad_padding q (b # bs) = (if b \<noteq> 0 then Some q else bad_padding (Suc q) bs)"

function copied_loop :: "bool \<Rightarrow> nat \<Rightarrow> uint8 list \<Rightarrow> uint8 list \<Rightarrow> (uint8, uint8 list) res" where
  "copied_loop first p h copied =
     (case h of
        [] \<Rightarrow> Inr copied
      | kind # rest \<Rightarrow>
          if kind = 0 then (case bad_padding (p + 1) rest of None \<Rightarrow> Inr copied | Some q \<Rightarrow> Inl (word_of_nat q))
          else if kind = 1 then copied_loop first (p + 1) rest copied
          else if length h < 2 \<or> unat (h ! 1) < 2 \<or> unat (h ! 1) > length h then Inl (word_of_nat p)
          else if kind AND 0x80 = 0 \<and> \<not> first then Inl (word_of_nat p)
          else copied_loop first (p + unat (h ! 1)) (drop (unat (h ! 1)) h)
                 (if kind AND 0x80 \<noteq> 0 then copied @ take (unat (h ! 1)) h else copied))"
  by pat_completeness auto
termination by (relation "measure (\<lambda>(_, _, h, _). length h)") auto

declare copied_loop.simps [simp del]

definition ipv4CopiedOptions :: "uint8 list \<Rightarrow> bool \<Rightarrow> (uint8, uint8 list) res" where
  "ipv4CopiedOptions h first = copied_loop first 20 (drop 20 h) []"

text \<open>\<open>hdr_len\<close> is the header length that the first byte of a packet gives.\<close>

definition hdr_len :: "uint8 \<Rightarrow> nat" where
  "hdr_len b = unat (b AND 15) * 4"

definition ipv4Notice :: "FragReason \<Rightarrow> uint8 \<Rightarrow> uint8 list \<Rightarrow> bool \<Rightarrow> Notice" where
  "ipv4Notice reason pointer packet first =
     (let h = hdr_len (packet ! 0);
          len = (if packet \<noteq> [] \<and> h \<ge> 20 \<and> h \<le> 60 \<and> length packet > h + 8 then h + 8 else length packet);
          len = min len 68
      in \<lparr>no_Reason = reason, no_Pointer = pointer, no_Quote = (if first then take len packet else []), no_HasFirst = first\<rparr>)"

text \<open>The options of two first headers from one offset on: same types and lengths.\<close>

function same_options :: "uint8 list \<Rightarrow> uint8 list \<Rightarrow> bool option" where
  "same_options a b =
     (case (a, b) of
        ([], _) \<Rightarrow> Some True
      | (_ # _, []) \<Rightarrow> None
      | (x # xs, y # ys) \<Rightarrow>
          if x \<noteq> y then Some False
          else if x = 0 then Some True
          else if x = 1 then same_options xs ys
          else case (xs, ys) of
                 (n # _, m # _) \<Rightarrow>
                   (if n \<noteq> m then Some False
                    else if n = 0 then None
                    else same_options (drop (unat n) a) (drop (unat n) b))
               | _ \<Rightarrow> None)"
  by pat_completeness auto
termination
  by (relation "measure (\<lambda>(a, _). length a)") (auto simp: unat_gt_0)

declare same_options.simps [simp del]

definition sameFirstIPv4Header :: "uint8 list \<Rightarrow> uint8 list \<Rightarrow> bool option" where
  "sameFirstIPv4Header saved incoming =
     (if length saved \<noteq> length incoming then Some False
      else
        let normalized = (take 20 incoming)[1 := saved ! 1, 8 := saved ! 8, 10 := saved ! 10, 11 := saved ! 11]
        in if take 20 saved \<noteq> normalized then Some False
           else same_options (drop 20 saved) (drop 20 incoming))"

function sameCopiedOptionShape :: "uint8 list \<Rightarrow> uint8 list \<Rightarrow> bool option" where
  "sameCopiedOptionShape a b =
     (if length a \<noteq> length b then Some False
      else case (a, b) of
        ([], _) \<Rightarrow> Some True
      | (x # n # _, y # m # _) \<Rightarrow>
          (if x \<noteq> y \<or> n \<noteq> m then Some False
           else if n = 0 then None
           else sameCopiedOptionShape (drop (unat n) a) (drop (unat n) b))
      | (x # _, y # _) \<Rightarrow> (if x \<noteq> y then Some False else None)
      | _ \<Rightarrow> None)"
  by pat_completeness auto
termination
  by (relation "measure (\<lambda>(a, _). length a)") (auto simp: unat_gt_0)

declare sameCopiedOptionShape.simps [simp del]

subsection \<open>Entries\<close>

definition owned_by :: "nat \<Rightarrow> ipv4Piece option \<Rightarrow> bool" where
  "owned_by i x = (case x of None \<Rightarrow> False | Some p \<Rightarrow> pc_owner p = i)"

definition piece_cost :: "ipv4Piece option \<Rightarrow> int" where
  "piece_cost x = (case x of None \<Rightarrow> 0 | Some p \<Rightarrow> int (length (pc_data p)))"

definition clearEntry :: "Table \<Rightarrow> nat \<Rightarrow> Table" where
  "clearEntry t i =
     t\<lparr>tb_used := tb_used t - sum_list (map piece_cost (filter (owned_by i) (tb_pieces t))),
       tb_pieces := map (\<lambda>x. if owned_by i x then None else x) (tb_pieces t),
       tb_entries := (tb_entries t)[i := None]\<rparr>"

text \<open>The scan of \<open>evictOldestLocked\<close>: the used entry with the earliest deadline, the lower index first.\<close>

fun oldest :: "nat option \<Rightarrow> nat \<Rightarrow> ipv4Assembly option list \<Rightarrow> (nat \<times> int) option \<Rightarrow> nat option" where
  "oldest keep i [] victim = map_option fst victim"
| "oldest keep i (x # xs) victim =
     (case x of
        None \<Rightarrow> oldest keep (Suc i) xs victim
      | Some e \<Rightarrow>
          if keep = Some i then oldest keep (Suc i) xs victim
          else (case victim of
                  None \<Rightarrow> oldest keep (Suc i) xs (Some (i, as_deadline e))
                | Some (_, d) \<Rightarrow> oldest keep (Suc i) xs (if as_deadline e < d then Some (i, as_deadline e) else victim)))"

definition evictOldestLocked :: "Table \<Rightarrow> nat option \<Rightarrow> nat option \<times> Table" where
  "evictOldestLocked t keep =
     (case oldest keep 0 (tb_entries t) None of
        None \<Rightarrow> (None, t)
      | Some v \<Rightarrow> (Some v, (clearEntry t v)\<lparr>tb_evicted := tb_evicted t + 1\<rparr>))"

definition noticeEntry :: "ipv4Assembly \<Rightarrow> FragReason \<Rightarrow> Notice" where
  "noticeEntry e reason =
     \<lparr>no_Reason = reason, no_Pointer = 0, no_Quote = as_quote e, no_HasFirst = as_first e \<noteq> []\<rparr>"

fun sweep_loop :: "int \<Rightarrow> nat \<Rightarrow> ipv4Assembly option list \<Rightarrow> Table \<Rightarrow> Notice list \<times> Table" where
  "sweep_loop now i [] t = ([], t)"
| "sweep_loop now i (x # xs) t =
     (case x of
        Some e \<Rightarrow>
          (if now \<ge> as_deadline e
           then (let (ns, t') = sweep_loop now (Suc i) xs (clearEntry t i) in (noticeEntry e ReasonExpired # ns, t'))
           else sweep_loop now (Suc i) xs t)
      | None \<Rightarrow> sweep_loop now (Suc i) xs t)"

definition Sweep :: "Table \<Rightarrow> int \<Rightarrow> Notice list \<times> Table" where
  "Sweep t now = (if tb_closed t then ([], t) else sweep_loop now 0 (tb_entries t) t)"

fun close_loop :: "nat \<Rightarrow> ipv4Assembly option list \<Rightarrow> Table \<Rightarrow> Table" where
  "close_loop i [] t = t"
| "close_loop i (x # xs) t = close_loop (Suc i) xs (if x \<noteq> None then clearEntry t i else t)"

definition Table_Close :: "Table \<Rightarrow> Table" where
  "Table_Close t = (if tb_closed t then t else (close_loop 0 (tb_entries t) t)\<lparr>tb_closed := True\<rparr>)"

definition usageLocked :: "Table \<Rightarrow> int \<times> nat \<times> nat" where
  "usageLocked t = (tb_used t, length (filter (\<lambda>x. x \<noteq> None) (tb_entries t)), length (filter (\<lambda>x. x \<noteq> None) (tb_pieces t)))"

record Snapshot =
  sn_Limits :: FragLimits
  sn_BaseCost :: int
  sn_Used :: int
  sn_Entries :: nat
  sn_Fragments :: nat
  sn_Evicted :: uint64

definition Table_Snapshot :: "Table \<Rightarrow> Snapshot" where
  "Table_Snapshot t =
     (let (used, entries, fragments) = usageLocked t in
      \<lparr>sn_Limits = tb_limits t, sn_BaseCost = tb_baseCost t, sn_Used = used, sn_Entries = entries, sn_Fragments = fragments,
       sn_Evicted = tb_evicted t\<rparr>)"

subsection \<open>One fragment\<close>

text \<open>What the first part of \<open>Process\<close> reads from a packet.\<close>

record fragment =
  fg_hlen :: nat
  fg_start :: nat
  fg_more :: bool
  fg_copied :: "uint8 list"
  fg_payload :: "uint8 list"
  fg_key :: ipv4AssemblyKey
  fg_ecn :: uint8

definition fg_first :: "fragment \<Rightarrow> bool" where "fg_first f = (fg_start f = 0)"
definition fg_end :: "fragment \<Rightarrow> nat" where "fg_end f = fg_start f + length (fg_payload f)"

text \<open>The flags, the options and the payload of a packet whose header length is known. An error holds the
  reason, the pointer and whether the packet is a first fragment, for \<open>reject\<close>.\<close>

definition parse_flags :: "uint8 list \<Rightarrow> nat \<Rightarrow> bool \<Rightarrow> (FragReason \<times> uint8 \<times> bool, fragment) res" where
  "parse_flags packet hlen checksum =
     (let flags = Uint16_at packet 6;
          start = unat (flags AND 0x1fff) * 8;
          more = (flags AND 0x2000 \<noteq> 0);
          first = (start = 0)
      in if \<not> checksum \<or> flags AND 0x8000 \<noteq> 0 \<or> (flags AND 0x4000 \<noteq> 0 \<and> (more \<or> start \<noteq> 0)) \<or> (\<not> more \<and> start = 0)
         then Inl (ReasonMalformed, 6, first)
         else (case ipv4CopiedOptions (take hlen packet) first of
                 Inl pointer \<Rightarrow> Inl (ReasonOptions, pointer, first)
               | Inr copied \<Rightarrow>
                   let payload = drop hlen packet in
                   if payload = [] \<or> (more \<and> length payload mod 8 \<noteq> 0) \<or> start + length payload > 65535 - 20
                   then Inl (ReasonMalformed, 6, first)
                   else Inr \<lparr>fg_hlen = hlen, fg_start = start, fg_more = more, fg_copied = copied, fg_payload = payload,
                          fg_key = \<lparr>ak_src = take 4 (drop 12 packet), ak_dst = take 4 (drop 16 packet),
                                    ak_id = Uint16_at packet 4, ak_protocol = packet ! 9\<rparr>,
                          fg_ecn = packet ! 1\<rparr>))"

definition parse_fragment :: "uint8 list \<Rightarrow> (FragReason \<times> uint8 \<times> bool, fragment) res option" where
  "parse_fragment packet =
     (if length packet < 20 \<or> drop_bit 4 (packet ! 0) \<noteq> 4 then Some (Inl (ReasonMalformed, 0, False))
      else
        let hlen = hdr_len (packet ! 0) in
        if hlen < 20 \<or> hlen > 60 \<or> hlen > length packet \<or> Uint16_at packet 2 \<noteq> word_of_nat (length packet)
           \<or> length packet > 65535
        then Some (Inl (ReasonMalformed, 0, False))
        else map_option (parse_flags packet hlen) (ChecksumOK (take hlen packet)))"

text \<open>The index of the first element with a property.\<close>

fun index_of :: "('a \<Rightarrow> bool) \<Rightarrow> 'a list \<Rightarrow> nat option" where
  "index_of P [] = None"
| "index_of P (x # xs) = (if P x then Some 0 else map_option Suc (index_of P xs))"

definition has_key :: "ipv4AssemblyKey \<Rightarrow> ipv4Assembly option \<Rightarrow> bool" where
  "has_key k x = (case x of None \<Rightarrow> False | Some e \<Rightarrow> as_key e = k)"

definition new_assembly :: "ipv4AssemblyKey \<Rightarrow> int \<Rightarrow> ipv4Assembly" where
  "new_assembly k deadline =
     \<lparr>as_key = k, as_deadline = deadline, as_total = None, as_covered = 0, as_parts = 0, as_first = [], as_quote = [],
      as_copied = None, as_ecnMask = 0\<rparr>"

text \<open>The checks of a fragment against its entry, in their order: the reason of a conflict.\<close>

definition ecn_mask :: "ipv4Assembly \<Rightarrow> fragment \<Rightarrow> uint8" where
  "ecn_mask e f = as_ecnMask e OR push_bit (unat (fg_ecn f AND 3)) 1"

definition entry_conflict :: "ipv4Assembly \<Rightarrow> fragment \<Rightarrow> uint8 list \<Rightarrow> FragReason option option" where
  "entry_conflict e f header =
     (case (if fg_first f \<and> as_first e \<noteq> [] then sameFirstIPv4Header (as_first e) header else Some True) of
        None \<Rightarrow> None
      | Some same \<Rightarrow>
          if \<not> same then Some (Some ReasonConflict)
          else if fg_first f \<and> (case as_total e of None \<Rightarrow> False | Some tot \<Rightarrow> tot > 65535 - fg_hlen f) then Some (Some ReasonConflict)
          else if as_first e \<noteq> [] \<and> fg_end f > 65535 - length (as_first e) then Some (Some ReasonConflict)
          else if (case as_total e of None \<Rightarrow> False | Some tot \<Rightarrow> fg_end f > tot \<or> (\<not> fg_more f \<and> fg_end f \<noteq> tot))
          then Some (Some ReasonConflict)
          else (case (case as_copied e of None \<Rightarrow> Some True | Some c \<Rightarrow> sameCopiedOptionShape (fg_copied f) c) of
                  None \<Rightarrow> None
                | Some shape \<Rightarrow>
                    if \<not> shape then Some (Some ReasonOptions)
                    else if ecn_mask e f AND 1 \<noteq> 0 \<and> ecn_mask e f AND 8 \<noteq> 0 then Some (Some ReasonConflict)
                    else Some None))"

text \<open>The scan of the pieces of the entry: a conflict, a duplicate, or neither.\<close>

datatype scan = ScanConflict FragReason | ScanDuplicate | ScanClear

fun scan_pieces :: "nat \<Rightarrow> fragment \<Rightarrow> ipv4Piece option list \<Rightarrow> scan" where
  "scan_pieces i f [] = ScanClear"
| "scan_pieces i f (x # xs) =
     (case x of
        None \<Rightarrow> scan_pieces i f xs
      | Some part \<Rightarrow>
          if pc_owner part \<noteq> i then scan_pieces i f xs
          else
            let partEnd = pc_start part + length (pc_data part) in
            if fg_start f = pc_start part \<and> fg_end f = partEnd \<and> fg_payload f = pc_data part
            then (if fg_more f \<noteq> pc_more part then ScanConflict ReasonConflict else ScanDuplicate)
            else if fg_start f < partEnd \<and> pc_start part < fg_end f then ScanConflict ReasonOverlap
            else if (\<not> fg_more f \<and> partEnd > fg_end f) \<or> (fg_first f \<and> partEnd > 65535 - fg_hlen f)
            then ScanConflict ReasonConflict
            else scan_pieces i f xs)"

text \<open>The eviction loops end because each turn frees an entry.\<close>

lemma oldest_Some:
  "oldest keep i xs victim = Some v \<Longrightarrow>
     (\<exists>d. victim = Some (v, d)) \<or> (i \<le> v \<and> v < i + length xs \<and> xs ! (v - i) \<noteq> None \<and> keep \<noteq> Some v)"
proof (induction xs arbitrary: i victim)
  case (Cons x xs)
  show ?case
  proof (cases x)
    case None
    then show ?thesis using Cons.prems Cons.IH [of "Suc i" victim] by (auto simp: Suc_diff_le nth_Cons')
  next
    case (Some e)
    show ?thesis
    proof (cases "keep = Some i")
      case True
      then show ?thesis using Cons.prems Cons.IH [of "Suc i" victim] Some by (auto simp: nth_Cons')
    next
      case False
      then obtain victim' where v: "oldest keep (Suc i) xs victim' = Some v" "victim' = victim \<or> victim' = Some (i, as_deadline e)"
        using Cons.prems Some by (auto split: option.splits prod.splits if_splits)
      from Cons.IH [OF v(1)] v(2) False Some show ?thesis by (auto simp: nth_Cons')
    qed
  qed
qed auto

lemma evict_Some:
  assumes "evictOldestLocked t keep = (Some v, t')"
  shows "v < length (tb_entries t) \<and> tb_entries t ! v \<noteq> None \<and> keep \<noteq> Some v
    \<and> t' = (clearEntry t v)\<lparr>tb_evicted := tb_evicted t + 1\<rparr>"
  using assms oldest_Some [of keep 0 "tb_entries t" None v]
  by (auto simp: evictOldestLocked_def split: option.splits)

definition used_entries :: "Table \<Rightarrow> nat" where
  "used_entries t = length (filter (\<lambda>x. x \<noteq> None) (tb_entries t))"

lemma filter_update_less:
  "v < length xs \<Longrightarrow> P (xs ! v) \<Longrightarrow> \<not> P y \<Longrightarrow> length (filter P (xs[v := y])) < length (filter P xs)"
proof (induction xs arbitrary: v)
  case (Cons x xs)
  then show ?case by (cases v) auto
qed simp

lemma evict_fewer:
  assumes "evictOldestLocked t keep = (Some v, t')"
  shows "used_entries t' < used_entries t"
  using evict_Some [OF assms] filter_update_less [of v "tb_entries t" "\<lambda>x. x \<noteq> None" None]
  by (auto simp: used_entries_def clearEntry_def)

text \<open>Room for the piece: a free slot and its bytes; \<open>None\<close> when nothing else can be evicted.\<close>

function make_room :: "Table \<Rightarrow> nat \<Rightarrow> nat \<Rightarrow> nat option \<times> Table" where
  "make_room t index len =
     (case index_of (\<lambda>x. x = None) (tb_pieces t) of
        Some freePart \<Rightarrow>
          if int len \<le> lim_Bytes (tb_limits t) - tb_used t then (Some freePart, t)
          else (case evictOldestLocked t (Some index) of (None, t') \<Rightarrow> (None, t') | (Some v, t') \<Rightarrow> make_room t' index len)
      | None \<Rightarrow> (case evictOldestLocked t (Some index) of (None, t') \<Rightarrow> (None, t') | (Some v, t') \<Rightarrow> make_room t' index len))"
  by pat_completeness auto
termination
  by (relation "measure (\<lambda>(t, _, _). used_entries t)") (auto dest!: evict_fewer [OF sym])

text \<open>Room for the completed copy beside all retained fragments.\<close>

function copy_room :: "Table \<Rightarrow> nat \<Rightarrow> int \<Rightarrow> int \<Rightarrow> bool \<times> Table" where
  "copy_room t index need len =
     (if need > lim_Bytes (tb_limits t) - tb_used t - len
      then (case evictOldestLocked t (Some index) of (None, t') \<Rightarrow> (False, t') | (Some v, t') \<Rightarrow> copy_room t' index need len)
      else (True, t))"
  by pat_completeness auto
termination
  by (relation "measure (\<lambda>(t, _, _, _). used_entries t)") (auto dest!: evict_fewer [OF sym])

declare make_room.simps [simp del] copy_room.simps [simp del]

text \<open>\<open>copy(out[at:], data)\<close>; \<open>None\<close> is the slice out of range.\<close>

definition copy_at :: "uint8 list \<Rightarrow> nat \<Rightarrow> uint8 list \<Rightarrow> uint8 list option" where
  "copy_at out at data =
     (if at > length out then None
      else let data = take (length out - at) data in Some (take at out @ data @ drop (at + length data) out))"

fun copy_pieces :: "nat \<Rightarrow> nat \<Rightarrow> ipv4Piece option list \<Rightarrow> uint8 list \<Rightarrow> uint8 list option" where
  "copy_pieces index firstLen [] out = Some out"
| "copy_pieces index firstLen (x # xs) out =
     (case x of
        Some p \<Rightarrow>
          (if pc_owner p = index
           then (case copy_at out (firstLen + pc_start p) (pc_data p) of None \<Rightarrow> None | Some out' \<Rightarrow> copy_pieces index firstLen xs out')
           else copy_pieces index firstLen xs out)
      | None \<Rightarrow> copy_pieces index firstLen xs out)"

text \<open>The completed packet of an entry.\<close>

definition assemble :: "Table \<Rightarrow> nat \<Rightarrow> ipv4Assembly \<Rightarrow> nat \<Rightarrow> uint8 list option" where
  "assemble t index e tot =
     (let firstLen = length (as_first e) in
      case copy_pieces index firstLen (tb_pieces t) (as_first e @ replicate tot 0) of
        None \<Rightarrow> None
      | Some out \<Rightarrow>
          let out = PutUint16_at out 2 (word_of_nat (length out));
              out = out[6 := 0, 7 := 0];
              out = (if as_ecnMask e AND 8 \<noteq> 0 then out[1 := (out ! 1 AND NOT 3) OR 3] else out)
          in map_option (\<lambda>h. h @ drop firstLen out) (SetChecksum (take firstLen out)))"

subsection \<open>Process\<close>

definition rejected :: "Notice \<Rightarrow> Result" where
  "rejected n = \<lparr>res_Status = Rejected, res_Packet = [], res_Notice = n\<rparr>"

definition at_capacity :: "uint8 list \<Rightarrow> bool \<Rightarrow> Result" where
  "at_capacity packet first = \<lparr>res_Status = Capacity, res_Packet = [], res_Notice = ipv4Notice ReasonCapacity 0 packet first\<rparr>"

text \<open>The entry of a fragment, new if there is none: its index, or the result that ends the call.\<close>

definition find_entry :: "Table \<Rightarrow> fragment \<Rightarrow> uint8 list \<Rightarrow> int \<Rightarrow> (Result, nat) res \<times> Table" where
  "find_entry t f packet now =
     (let fresh = new_assembly (fg_key f) (now + lim_Lifetime (tb_limits t)) in
      case index_of (has_key (fg_key f)) (tb_entries t) of
        Some i \<Rightarrow>
          (case tb_entries t ! i of
             Some e \<Rightarrow> (if now \<ge> as_deadline e then (Inl (rejected (noticeEntry e ReasonExpired)), clearEntry t i) else (Inr i, t))
           | None \<Rightarrow> (Inr i, t))
      | None \<Rightarrow>
          (case index_of (\<lambda>x. x = None) (tb_entries t) of
             Some i \<Rightarrow> (Inr i, t\<lparr>tb_entries := (tb_entries t)[i := Some fresh]\<rparr>)
           | None \<Rightarrow>
               (case evictOldestLocked t None of
                  (None, t) \<Rightarrow> (Inl (at_capacity packet (fg_first f)), t)
                | (Some i, t) \<Rightarrow> (Inr i, t\<lparr>tb_entries := (tb_entries t)[i := Some fresh]\<rparr>))))"

text \<open>The entry once the piece is stored.\<close>

definition extend_entry :: "ipv4Assembly \<Rightarrow> fragment \<Rightarrow> uint8 list \<Rightarrow> ipv4Assembly" where
  "extend_entry e f packet =
     e\<lparr>as_parts := as_parts e + 1, as_covered := as_covered e + length (fg_payload f), as_ecnMask := ecn_mask e f,
       as_copied := (case as_copied e of None \<Rightarrow> Some (fg_copied f) | Some c \<Rightarrow> Some c),
       as_first := (if fg_first f then take (fg_hlen f) packet else as_first e),
       as_quote := (if fg_first f then take (min (fg_hlen f + 8) (length packet)) packet else as_quote e),
       as_total := (if fg_more f then as_total e else Some (fg_end f))\<rparr>"

definition is_complete :: "ipv4Assembly \<Rightarrow> bool" where
  "is_complete e = (as_first e \<noteq> [] \<and> as_total e = Some (as_covered e))"

text \<open>Storing a fragment that conflicts with nothing: making room, the piece, and the completed packet.\<close>

definition drop_if_empty :: "Table \<Rightarrow> nat \<Rightarrow> ipv4Assembly \<Rightarrow> Table" where
  "drop_if_empty t i e = (if as_parts e = 0 then clearEntry t i else t)"

definition store_fragment :: "Table \<Rightarrow> nat \<Rightarrow> ipv4Assembly \<Rightarrow> fragment \<Rightarrow> uint8 list \<Rightarrow> (Result \<times> Table) option" where
  "store_fragment t i e f packet =
     (let len = length (fg_payload f); full = at_capacity packet (fg_first f); e' = extend_entry e f packet in
      case make_room t i len of
        (None, t) \<Rightarrow> Some (full, drop_if_empty t i e)
      | (Some freePart, t) \<Rightarrow>
          let (ok, t) = (if is_complete e'
                         then copy_room t i (int (length (as_first e') + as_covered e')) (int len)
                         else (True, t))
          in if \<not> ok then Some (full, drop_if_empty t i e)
             else
               let piece = \<lparr>pc_owner = i, pc_start = fg_start f, pc_more = fg_more f, pc_data = fg_payload f\<rparr>;
                   t = t\<lparr>tb_pieces := (tb_pieces t)[freePart := Some piece], tb_used := tb_used t + int len,
                         tb_entries := (tb_entries t)[i := Some e']\<rparr>
               in if \<not> is_complete e' then Some (status_result Held, t)
                  else map_option (\<lambda>out. (\<lparr>res_Status = Complete, res_Packet = out, res_Notice = zeroNotice\<rparr>, clearEntry t i))
                         (assemble t i e' (as_covered e')))"

definition Process :: "Table \<Rightarrow> uint8 list \<Rightarrow> int \<Rightarrow> (Result \<times> Table) option" where
  "Process t packet now =
     (if tb_closed t then Some (status_result Closed, t)
      else case parse_fragment packet of
        None \<Rightarrow> None
      | Some (Inl (reason, ptr, first)) \<Rightarrow> Some (rejected (ipv4Notice reason ptr packet first), t)
      | Some (Inr f) \<Rightarrow>
          (case find_entry t f packet now of
             (Inl r, t) \<Rightarrow> Some (r, t)
           | (Inr i, t) \<Rightarrow>
               (case tb_entries t ! i of
                  None \<Rightarrow> None
                | Some e \<Rightarrow>
                    let conflict = (\<lambda>reason. Some (rejected (noticeEntry e reason), clearEntry t i)) in
                    case entry_conflict e f (take (fg_hlen f) packet) of
                      None \<Rightarrow> None
                    | Some (Some reason) \<Rightarrow> conflict reason
                    | Some None \<Rightarrow>
                        (case scan_pieces i f (tb_pieces t) of
                           ScanConflict reason \<Rightarrow> conflict reason
                         | ScanDuplicate \<Rightarrow>
                             Some (status_result Duplicate,
                                   t\<lparr>tb_entries := (tb_entries t)[i := Some (e\<lparr>as_ecnMask := ecn_mask e f\<rparr>)]\<rparr>)
                         | ScanClear \<Rightarrow>
                             if \<not> fg_more f \<and> (case as_total e of None \<Rightarrow> False | Some tot \<Rightarrow> tot \<noteq> fg_end f) then conflict ReasonConflict
                             else if int (as_parts e) \<ge> lim_Fragments (tb_limits t) then Some (at_capacity packet (fg_first f), t)
                             else store_fragment t i e f packet))))"

subsection \<open>ICMP errors (icmp.go)\<close>

definition TimeoutQuote :: "Notice \<Rightarrow> uint8 list \<Rightarrow> uint8 list option option" where
  "TimeoutQuote n local =
     (let quote = no_Quote n in
      if \<not> no_HasFirst n \<or> length quote < 28 then Some None
      else
        let hlen = hdr_len (quote ! 0) in
        if hlen < 20 \<or> hlen > 60 \<or> length quote < hlen + 8 then Some None
        else map_option (\<lambda>ok. if \<not> ok \<or> quote ! 6 AND 0x1f \<noteq> 0 \<or> quote ! 7 \<noteq> 0 \<or> take 4 (drop 16 quote) \<noteq> local
                             then None else Some quote)
               (ChecksumOK (take hlen quote)))"

text \<open>\<open>ParamProblemOK\<close>: the header length when an error may be sent.\<close>

definition ParamProblemOK :: "Notice \<Rightarrow> uint8 list \<Rightarrow> uint8 list \<Rightarrow> nat option option" where
  "ParamProblemOK n offending local =
     (if unat (no_Pointer n) < 20 \<or> length offending < 20 then Some None
      else if no_HasFirst n \<and> length (no_Quote n) < 20 then Some None
      else
        let saved = (if no_HasFirst n then no_Quote n else offending);
            hlen = hdr_len (saved ! 0);
            quotePrefixLen = min (hlen + 8) (length saved)
        in if hlen < 20 \<or> hlen > 60 \<or> length saved < hlen \<or> length offending < hlen \<or> unat (no_Pointer n) \<ge> hlen then Some None
           else if length saved = hlen \<or> length offending = hlen then Some None
           else if length offending < quotePrefixLen then Some None
           else if no_HasFirst n \<and> (take quotePrefixLen offending \<noteq> take quotePrefixLen saved
                \<or> offending ! 6 AND 0x1f \<noteq> 0 \<or> offending ! 7 \<noteq> 0) then Some None
           else map_option (\<lambda>ok.
             if \<not> ok \<or> unat (offending ! 2) * 256 + unat (offending ! 3) \<noteq> length offending then None
             else if take 4 (drop 12 saved) = [0, 0, 0, 0] \<or> saved ! 16 AND 0xf0 = 0xe0
                  \<or> take 4 (drop 16 saved) = [255, 255, 255, 255] \<or> take 4 (drop 16 saved) \<noteq> local then None
             else if saved ! 9 = 1 \<and> saved ! hlen \<notin> {0, 8, 13, 14, 15, 16} then None
             else Some hlen) (ChecksumOK (take hlen saved)))"

end
