(* ===== verification/Frag_Bytes.thy ===== *)
theory Frag_Bytes
  imports Frag_Table
begin

section \<open>Checksums and options of fragments\<close>

text \<open>
  The Internet checksum as arithmetic modulo 65535, so that setting a checksum and
  testing it agree; and the shape of option lists that the loops over options rely on.
\<close>

subsection \<open>The Internet checksum\<close>

lemma fold_carry_value: "unat (fold_carry s) = (if s = 0 then 0 else if unat s mod 65535 = 0 then 65535 else unat s mod 65535)"
proof (induction s rule: fold_carry.induct)
  case (1 s)
  let ?n = "unat s" and ?t = "(s AND 0xffff) + drop_bit 16 s"
  have d: "unat (drop_bit 16 s) = ?n div 65536" by (simp add: drop_bit_eq_div unat_div)
  have "s AND 0xffff = take_bit 16 s" by (simp add: take_bit_eq_mask mask_eq_exp_minus_1)
  then have m: "unat (s AND 0xffff) = ?n mod 65536" by (simp add: take_bit_eq_mod unat_mod)
  have lt: "?n < 4294967296" by (rule unat_uint32)
  have t: "unat ?t = ?n mod 65536 + ?n div 65536" using lt by (simp add: unat_word_ariths(1) d m)
  show ?case
  proof (cases "drop_bit 16 s = 0")
    case True
    then have "?n div 65536 = 0" using d by simp
    then have "?n < 65536" by simp
    moreover have "fold_carry s = s" using True by (subst fold_carry.simps) simp
    moreover have "s \<noteq> 0 \<longleftrightarrow> 0 < ?n" by (simp add: unat_gt_0)
    ultimately show ?thesis by (cases "?n = 65535") auto
  next
    case False
    have "0 < ?n div 65536" using False d by (metis gr0I unat_eq_zero)
    then have "0 < unat ?t" "s \<noteq> 0" by (auto simp: t)
    then have "?t \<noteq> 0" by (metis less_irrefl unat_0)
    moreover have "unat ?t mod 65535 = ?n mod 65535"
    proof -
      have "?n = 65536 * (?n div 65536) + ?n mod 65536" by simp
      also have "\<dots> = unat ?t + (?n div 65536) * 65535" by (simp add: t)
      finally show ?thesis by (metis mod_mult_self1)
    qed
    moreover have "fold_carry s = fold_carry ?t" using False by (subst fold_carry.simps) simp
    ultimately show ?thesis using 1 [OF False] \<open>s \<noteq> 0\<close> by simp
  qed
qed

fun word_sum :: "uint8 list \<Rightarrow> nat" where
  "word_sum (a # b # bs) = unat (be16 a b) + word_sum bs"
| "word_sum bs = 0"

lemma word_sum_append: "even (length xs) \<Longrightarrow> word_sum (xs @ ys) = word_sum xs + word_sum ys"
  by (induction xs rule: word_sum.induct) auto

lemma word_sum_bound: "word_sum bs \<le> 65535 * (length bs div 2)"
proof (induction bs rule: word_sum.induct)
  case (1 a b bs)
  then show ?case using unat_uint16 [of "be16 a b"] by simp
qed auto

lemma unat_ucast16_32: "unat (ucast (w :: uint16) :: uint32) = unat w"
proof -
  have "unat w < 2 ^ 32" using unat_uint16 [of w] by simp
  then show ?thesis by (simp add: unsigned_ucast_eq take_bit_nat_eq_self)
qed

lemma sum16_value:
  "even (length bs) \<Longrightarrow> unat s + word_sum bs < 4294967296 \<Longrightarrow> \<exists>r. sum16 s bs = Some r \<and> unat r = unat s + word_sum bs"
proof (induction bs arbitrary: s rule: word_sum.induct)
  case (1 a b bs)
  have "unat (s + ucast (be16 a b)) = unat s + unat (be16 a b)"
    using 1 by (simp add: unat_word_ariths(1) unat_ucast16_32)
  then show ?case using 1(1) [of "s + ucast (be16 a b)"] 1(2,3) by auto
qed auto

lemma ChecksumOK_iff:
  assumes "even (length h)" and "length h \<le> 65536"
  shows "ChecksumOK h = Some (word_sum h \<noteq> 0 \<and> word_sum h mod 65535 = 0)"
proof -
  have "length h div 2 \<le> 32768" using assms(2) by simp
  then have "word_sum h \<le> 65535 * 32768" using word_sum_bound [of h] by linarith
  then obtain r where r: "sum16 0 h = Some r" "unat r = word_sum h" using sum16_value [of h 0] assms(1) by auto
  have "fold_carry r = 0xffff \<longleftrightarrow> unat (fold_carry r) = 65535" by (simp add: word_unat_eq_iff)
  also have "\<dots> \<longleftrightarrow> unat r \<noteq> 0 \<and> unat r mod 65535 = 0"
    using mod_less_divisor [of 65535 "unat r"] by (auto simp: fold_carry_value unat_eq_zero)
  finally show ?thesis by (simp add: ChecksumOK_def r)
qed

lemma be16_put: "be16 (ucast (drop_bit 8 w)) (ucast w) = w"
  by (rule bit_eqI) (auto simp: be16_def bit_or_iff bit_push_bit_iff bit_ucast_iff bit_drop_bit_eq)

lemma word_sum_put:
  assumes "length h \<ge> 12" and "even (length h)"
  shows "word_sum (PutUint16_at (h[10 := 0, 11 := 0]) 10 w) = word_sum (h[10 := 0, 11 := 0]) + unat w"
proof -
  have h: "h = take 10 h @ h ! 10 # h ! 11 # drop 12 h"
    using assms(1) Cons_nth_drop_Suc [of 10 h] Cons_nth_drop_Suc [of 11 h] append_take_drop_id [of 10 h] by simp
  have mn: "min (length h) 10 = 10" using assms(1) by simp
  have upd: "h[10 := a, 11 := b] = take 10 h @ a # b # drop 12 h" for a b
    by (subst h) (simp add: list_update_append assms(1) mn)
  have e: "even (length (take 10 h))" using assms(1) by simp
  have z: "unat (be16 0 0) = 0" by (simp add: be16_def)
  have "PutUint16_at (h[10 := 0, 11 := 0]) 10 w = take 10 h @ ucast (drop_bit 8 w) # ucast w # drop 12 h"
    by (simp add: PutUint16_at_def upd list_update_append assms(1) mn)
  then show ?thesis by (simp add: upd word_sum_append [OF e] be16_put z)
qed

lemma unat_not16: "unat (NOT (w :: uint16)) = 65535 - unat w"
proof -
  have "NOT w = 65535 - w" by (simp add: not_eq_complement)
  moreover have "w \<le> 65535" by (simp add: word_le_nat_alt) (use unat_uint16 [of w] in simp)
  ultimately show ?thesis by (simp add: unat_sub)
qed

theorem SetChecksum_OK:
  assumes "12 \<le> length h" and "length h \<le> 65536" and "even (length h)"
  shows "\<exists>h'. SetChecksum h = Some h' \<and> length h' = length h \<and> ChecksumOK h' = Some True
    \<and> (\<forall>i. i \<noteq> 10 \<longrightarrow> i \<noteq> 11 \<longrightarrow> h' ! i = h ! i)"
proof -
  let ?z = "h[10 := 0, 11 := 0]"
  have "length h div 2 \<le> 32768" using assms(2) by simp
  then have b: "word_sum ?z \<le> 65535 * 32768" using word_sum_bound [of ?z] by simp
  then obtain s where s: "sum16 0 ?z = Some s" "unat s = word_sum ?z" using sum16_value [of ?z 0] assms(3) by auto
  let ?w = "NOT (ucast (fold_carry s) :: uint16)" and ?v = "unat (fold_carry s)"
  let ?h = "PutUint16_at ?z 10 ?w"
  have v: "?v = (if word_sum ?z = 0 then 0 else if word_sum ?z mod 65535 = 0 then 65535 else word_sum ?z mod 65535)"
    using s(2) by (simp add: fold_carry_value unat_eq_zero [symmetric])
  have "?v \<le> 65535" using mod_less_divisor [of 65535 "word_sum ?z"] unfolding v by auto
  then have u: "unat (ucast (fold_carry s) :: uint16) = ?v" by (simp add: unsigned_ucast_eq take_bit_nat_eq_self)
  have ws: "word_sum ?h = word_sum ?z + (65535 - ?v)" using assms by (simp add: word_sum_put unat_not16 u)
  have "word_sum ?h \<noteq> 0 \<and> word_sum ?h mod 65535 = 0"
  proof (cases "word_sum ?z mod 65535 = 0")
    case True
    then show ?thesis by (auto simp: ws v)
  next
    case False
    then have "?v = word_sum ?z mod 65535" unfolding v by (cases "word_sum ?z = 0") simp_all
    then have "word_sum ?h = word_sum ?z div 65535 * 65535 + 65535"
      using div_mult_mod_eq [of "word_sum ?z" 65535] mod_less_divisor [of 65535 "word_sum ?z"] unfolding ws by linarith
    then show ?thesis by simp
  qed
  then have "ChecksumOK ?h = Some True" using assms by (simp add: ChecksumOK_iff PutUint16_at_def)
  then show ?thesis using s(1) by (simp add: SetChecksum_def Let_def PutUint16_at_def nth_list_update)
qed

subsection \<open>Options\<close>

text \<open>A list of options, each at least two bytes long with its length in the second byte.\<close>

inductive options_ok :: "uint8 list \<Rightarrow> bool" where
  Nil: "options_ok []"
| Option: "2 \<le> length x \<Longrightarrow> unat (x ! 1) = length x \<Longrightarrow> options_ok c \<Longrightarrow> options_ok (x @ c)"

lemma options_ok_append: "options_ok a \<Longrightarrow> options_ok b \<Longrightarrow> options_ok (a @ b)"
  by (induction rule: options_ok.induct) (auto intro: options_ok.intros)

lemma copied_loop_step:
  "copied_loop first p (k # rest) c =
     (if k = 0 then (case bad_padding (p + 1) rest of None \<Rightarrow> Inr c | Some q \<Rightarrow> Inl (word_of_nat q))
      else if k = 1 then copied_loop first (p + 1) rest c
      else if rest = [] \<or> unat (rest ! 0) < 2 \<or> unat (rest ! 0) > Suc (length rest) then Inl (word_of_nat p)
      else if k AND 0x80 = 0 \<and> \<not> first then Inl (word_of_nat p)
      else copied_loop first (p + unat (rest ! 0)) (drop (unat (rest ! 0)) (k # rest))
             (if k AND 0x80 \<noteq> 0 then c @ take (unat (rest ! 0)) (k # rest) else c))"
  by (subst copied_loop.simps) (cases rest; auto)

lemma copied_loop_ok: "copied_loop first p h c = Inr c' \<Longrightarrow> options_ok c \<Longrightarrow> options_ok c' \<and> length c' \<le> length c + length h"
proof (induction first p h c rule: copied_loop.induct)
  case (1 first p h c)
  show ?case
  proof (cases h)
    case Nil
    then show ?thesis using 1(3,4) by (simp add: copied_loop.simps)
  next
    case (Cons k rest)
    let ?n = "unat (rest ! 0)"
    consider (pad) "k = 0" | (one) "k \<noteq> 0" "k = 1"
      | (opt) "k \<noteq> 0" "k \<noteq> 1" "rest \<noteq> []" "2 \<le> ?n" "?n \<le> Suc (length rest)" "\<not> (k AND 0x80 = 0 \<and> \<not> first)"
          "copied_loop first (p + ?n) (drop ?n h) (if k AND 0x80 \<noteq> 0 then c @ take ?n h else c) = Inr c'"
      using 1(3) unfolding Cons copied_loop_step by (auto split: if_splits)
    then show ?thesis
    proof cases
      case pad
      then show ?thesis using 1(3,4) unfolding Cons copied_loop_step by (auto split: option.splits)
    next
      case one
      then show ?thesis using 1(1) [OF Cons] 1(3,4) unfolding Cons copied_loop_step by (auto split: if_splits)
    next
      case opt
      let ?c = "if k AND 0x80 \<noteq> 0 then c @ take ?n h else c"
      have h1: "h ! 1 = rest ! 0" by (simp add: Cons)
      have t: "2 \<le> length (take ?n h)" "take ?n h ! 1 = h ! 1" "length (take ?n h) = ?n"
        using opt Cons by (auto simp: min_def)
      have "options_ok (take ?n h)" using options_ok.Option [of "take ?n h" "[]"] t h1 options_ok.Nil by simp
      then have c: "options_ok ?c" using 1(4) options_ok_append by simp
      have "options_ok c' \<and> length c' \<le> length ?c + length (drop ?n h)"
        using 1(2) [OF Cons] opt c Cons h1 by (auto split: if_splits)
      then show ?thesis using t(3) opt(5) Cons by (auto split: if_splits)
    qed
  qed
qed

lemma CopiedOptions_ok: "ipv4CopiedOptions h first = Inr c \<Longrightarrow> options_ok c"
  unfolding ipv4CopiedOptions_def by (drule copied_loop_ok) (simp_all add: options_ok.Nil)

lemma sameCopiedOptionShape_total:
  assumes "options_ok a"
  shows "\<exists>s. sameCopiedOptionShape a b = Some s"
  using assms
proof (induction arbitrary: b rule: options_ok.induct)
  case Nil
  then show ?case by (subst sameCopiedOptionShape.simps) auto
next
  case (Option x c)
  obtain k n r where x: "x = k # n # r" using Option(1) by (cases x; cases "tl x") auto
  have n: "unat n = length x" "n \<noteq> 0" using Option(1,2) x by (auto simp: unat_eq_zero [symmetric])
  have d: "drop (unat n) (x @ c) = c" by (simp add: n)
  show ?case
  proof (cases "length (x @ c) = length b \<and> (\<exists>r'. b = k # n # r')")
    case True
    then have "sameCopiedOptionShape (x @ c) b = sameCopiedOptionShape c (drop (unat n) b)"
      using n d by (subst sameCopiedOptionShape.simps) (auto simp: x)
    then show ?thesis using Option.IH by simp
  next
    case False
    then show ?thesis
      by (subst sameCopiedOptionShape.simps) (auto simp: x split: list.splits)
  qed
qed

lemma same_options_total:
  "copied_loop first p a c = Inr c' \<Longrightarrow> length a = length b \<Longrightarrow> \<exists>s. same_options a b = Some s"
proof (induction first p a c arbitrary: b rule: copied_loop.induct)
  case (1 first p a c)
  show ?case
  proof (cases a)
    case Nil
    then show ?thesis by (subst same_options.simps) auto
  next
    case (Cons k rest)
    obtain y ys where b: "b = y # ys" using 1(4) Cons by (cases b) auto
    let ?n = "unat (rest ! 0)"
    consider (differ) "k \<noteq> y" | (pad) "k = y" "k = 0" | (one) "k = y" "k \<noteq> 0" "k = 1"
      | (opt) "k = y" "k \<noteq> 0" "k \<noteq> 1" "rest \<noteq> []" "2 \<le> ?n" "\<not> (k AND 0x80 = 0 \<and> \<not> first)" "?n \<le> Suc (length rest)"
          "copied_loop first (p + ?n) (drop ?n a) (if k AND 0x80 \<noteq> 0 then c @ take ?n a else c) = Inr c'"
      using 1(3) unfolding Cons copied_loop_step by (cases "k = y") (auto split: if_splits)
    then show ?thesis
    proof cases
      case one
      then show ?thesis using 1(1) [OF Cons, of ys] 1(3,4) unfolding Cons b copied_loop_step
        by (subst same_options.simps) auto
    next
      case opt
      obtain n r m r' where r: "rest = n # r" "ys = m # r'" using opt(4) 1(4) Cons b by (cases rest; cases ys) auto
      have "\<exists>s. same_options (drop ?n a) (drop ?n b) = Some s"
        using 1(2) [OF Cons] opt Cons 1(4) r by (auto split: if_splits)
      then show ?thesis using opt r unfolding Cons b
        by (subst same_options.simps) auto
    qed (subst same_options.simps; auto simp: Cons b)+
  qed
qed

subsection \<open>Accepted fragments\<close>

definition header_ok :: "uint8 list \<Rightarrow> bool" where
  "header_ok h \<longleftrightarrow> 20 \<le> length h \<and> length h \<le> 60 \<and> even (length h) \<and> is_ok (ipv4CopiedOptions h True)"

lemma sameFirstIPv4Header_total:
  assumes "header_ok saved"
  shows "\<exists>s. sameFirstIPv4Header saved incoming = Some s"
proof (cases "length saved = length incoming")
  case True
  obtain c where "copied_loop True 20 (drop 20 saved) [] = Inr c"
    using assms by (auto simp: header_ok_def ipv4CopiedOptions_def is_ok_def split: sum.splits)
  then obtain s where "same_options (drop 20 saved) (drop 20 incoming) = Some s"
    using same_options_total [of True 20 "drop 20 saved" "[]" c "drop 20 incoming"] True by auto
  then show ?thesis using True by (auto simp: sameFirstIPv4Header_def Let_def)
qed (auto simp: sameFirstIPv4Header_def)

lemma hdr_len_even [simp]: "even (hdr_len b)"
  by (simp add: hdr_len_def)

text \<open>What the checks of a fragment establish.\<close>

definition fragment_ok :: "uint8 list \<Rightarrow> fragment \<Rightarrow> bool" where
  "fragment_ok packet f \<longleftrightarrow>
     20 \<le> fg_hlen f \<and> fg_hlen f \<le> 60 \<and> even (fg_hlen f) \<and> length packet \<le> 65535
     \<and> fg_payload f = drop (fg_hlen f) packet \<and> fg_payload f \<noteq> [] \<and> fg_end f \<le> 65515
     \<and> (fg_more f \<longrightarrow> length (fg_payload f) mod 8 = 0) \<and> (fg_first f \<longrightarrow> fg_more f)
     \<and> options_ok (fg_copied f) \<and> (fg_first f \<longrightarrow> header_ok (take (fg_hlen f) packet))"

lemma fragment_packet_length:
  assumes "fragment_ok packet f"
  shows "length packet = fg_hlen f + length (fg_payload f) \<and> fg_hlen f < length packet"
  using assms by (auto simp: fragment_ok_def)

lemma ChecksumOK_header: "hlen \<le> 60 \<Longrightarrow> even hlen \<Longrightarrow> hlen \<le> length p \<Longrightarrow> \<exists>ok. ChecksumOK (take hlen p) = Some ok"
  by (subst ChecksumOK_iff) auto

lemma parse_flags_ok:
  assumes "parse_flags packet hlen checksum = Inr f" and "20 \<le> hlen" "hlen \<le> 60" "even hlen" "hlen \<le> length packet" "length packet \<le> 65535"
  shows "fragment_ok packet f \<and> fg_hlen f = hlen"
proof -
  obtain copied where c: "ipv4CopiedOptions (take hlen packet) (unat (Uint16_at packet 6 AND 0x1fff) * 8 = 0) = Inr copied"
    using assms(1) by (auto simp: parse_flags_def Let_def split: if_splits sum.splits)
  have "options_ok copied" by (rule CopiedOptions_ok [OF c])
  then show ?thesis using assms c
    by (auto simp: parse_flags_def Let_def fragment_ok_def fg_end_def fg_first_def header_ok_def split: if_splits)
qed

lemma parse_fragment_cases:
  obtains (bad) reason ptr first where "parse_fragment packet = Some (Inl (reason, ptr, first))"
  | (ok) f where "parse_fragment packet = Some (Inr f)" "fragment_ok packet f"
proof -
  let ?hlen = "hdr_len (packet ! 0)"
  show thesis
  proof (cases "length packet < 20 \<or> drop_bit 4 (packet ! 0) \<noteq> 4 \<or> ?hlen < 20 \<or> ?hlen > 60 \<or> ?hlen > length packet
      \<or> Uint16_at packet 2 \<noteq> word_of_nat (length packet) \<or> length packet > 65535")
    case True
    then have "parse_fragment packet = Some (Inl (ReasonMalformed, 0, False))"
      by (cases "length packet < 20 \<or> drop_bit 4 (packet ! 0) \<noteq> 4") (simp_all add: parse_fragment_def Let_def)
    then show thesis by (rule bad)
  next
    case False
    then obtain chk where "ChecksumOK (take ?hlen packet) = Some chk"
      using ChecksumOK_header [of ?hlen packet] by auto
    then have p: "parse_fragment packet = Some (parse_flags packet ?hlen chk)"
      using False by (simp add: parse_fragment_def Let_def)
    show thesis
    proof (cases "parse_flags packet ?hlen chk")
      case (Inl e)
      then show thesis using p bad by (cases e) simp
    next
      case (Inr f)
      then show thesis using p ok False parse_flags_ok [OF Inr] by simp
    qed
  qed
qed

end
