(* ===== verification/Frag_Invariant.thy ===== *)
theory Frag_Invariant
  imports Frag_Bytes Interfaces
begin

section \<open>The invariant of the reassembly table\<close>

text \<open>
  Every piece belongs to an entry that is in use; the pieces of an entry do not overlap,
  are counted by it and end where its total says; the bytes in use are the fixed cost
  plus the pieces, within the limit. Every operation keeps this.
\<close>

subsection \<open>The pieces of an entry\<close>

definition pc_end :: "ipv4Piece \<Rightarrow> nat" where
  "pc_end p = pc_start p + length (pc_data p)"

definition pieces_of :: "nat \<Rightarrow> ipv4Piece option list \<Rightarrow> ipv4Piece list" where
  "pieces_of i xs = map the (filter (owned_by i) xs)"

lemma pieces_of_simps [simp]:
  "pieces_of i [] = []"
  "pieces_of i (None # xs) = pieces_of i xs"
  "pieces_of i (Some p # xs) = (if pc_owner p = i then p # pieces_of i xs else pieces_of i xs)"
  "pieces_of i (xs @ ys) = pieces_of i xs @ pieces_of i ys"
  by (simp_all add: pieces_of_def owned_by_def)

lemma pieces_of_iff: "p \<in> set (pieces_of i xs) \<longleftrightarrow> Some p \<in> set xs \<and> pc_owner p = i"
  by (induction xs) (auto split: option.splits simp: pieces_of_def owned_by_def)

lemma pieces_of_clear:
  "pieces_of i (map (\<lambda>x. if owned_by j x then None else x) xs) = (if i = j then [] else pieces_of i xs)"
proof (induction xs)
  case (Cons x xs)
  then show ?case by (cases x) (auto simp: owned_by_def)
qed simp

lemma update_split: "f < length xs \<Longrightarrow> xs = take f xs @ xs ! f # drop (Suc f) xs \<and> xs[f := y] = take f xs @ y # drop (Suc f) xs"
  by (simp add: id_take_nth_drop [symmetric] upd_conv_take_nth_drop)

lemma pieces_of_insert:
  assumes "f < length xs" and "xs ! f = None"
  obtains A B where "pieces_of i xs = A @ B" "pieces_of i (xs[f := Some p]) = (if pc_owner p = i then A @ p # B else A @ B)"
proof -
  have "pieces_of i xs = pieces_of i (take f xs) @ pieces_of i (drop (Suc f) xs)"
    by (subst update_split [OF assms(1), THEN conjunct1]) (simp add: assms(2))
  moreover have "pieces_of i (xs[f := Some p]) = pieces_of i (take f xs) @ pieces_of i (Some p # drop (Suc f) xs)"
    by (simp add: upd_conv_take_nth_drop [OF assms(1)])
  ultimately show thesis by (intro that [of "pieces_of i (take f xs)" "pieces_of i (drop (Suc f) xs)"]) simp_all
qed

definition held_bytes :: "ipv4Piece option list \<Rightarrow> int" where
  "held_bytes xs = sum_list (map piece_cost xs)"

lemma piece_cost_simps [simp]: "piece_cost None = 0" "piece_cost (Some p) = int (length (pc_data p))"
  by (simp_all add: piece_cost_def)

lemma held_bytes_clear:
  "held_bytes (map (\<lambda>x. if owned_by i x then None else x) xs) = held_bytes xs - held_bytes (filter (owned_by i) xs)"
  by (induction xs) (auto simp: held_bytes_def)

lemma held_bytes_insert: "f < length xs \<Longrightarrow> xs ! f = None \<Longrightarrow> held_bytes (xs[f := Some p]) = held_bytes xs + int (length (pc_data p))"
  by (induction xs arbitrary: f) (auto simp: held_bytes_def split: nat.splits)

lemma held_bytes_nonneg: "0 \<le> held_bytes xs"
  by (induction xs) (auto simp: held_bytes_def piece_cost_def split: option.splits)

lemma held_bytes_owned: "held_bytes (filter (owned_by i) xs) = int (sum_list (map (\<lambda>p. length (pc_data p)) (pieces_of i xs)))"
proof (induction xs)
  case (Cons x xs)
  then show ?case by (cases x) (auto simp: held_bytes_def owned_by_def)
qed (simp add: held_bytes_def)

subsection \<open>The invariant\<close>

definition apart :: "ipv4Piece \<Rightarrow> ipv4Piece \<Rightarrow> bool" where
  "apart p q = (pc_end p \<le> pc_start q \<or> pc_end q \<le> pc_start p)"

definition piece_ok :: "ipv4Piece \<Rightarrow> bool" where
  "piece_ok p = (pc_data p \<noteq> [] \<and> pc_end p \<le> 65515)"

definition entry_ok :: "ipv4Assembly \<Rightarrow> ipv4Piece list \<Rightarrow> bool" where
  "entry_ok e ps \<longleftrightarrow>
     as_parts e = length ps \<and> as_covered e = sum_list (map (\<lambda>p. length (pc_data p)) ps)
     \<and> sorted_wrt apart ps \<and> (\<forall>p \<in> set ps. piece_ok p)
     \<and> (case as_total e of
          None \<Rightarrow> \<forall>p \<in> set ps. pc_more p
        | Some tot \<Rightarrow> \<forall>p \<in> set ps. pc_end p \<le> tot)
     \<and> (as_first e \<noteq> [] \<longrightarrow> header_ok (as_first e) \<and> (\<forall>p \<in> set ps. pc_end p \<le> 65535 - length (as_first e)))
     \<and> (case as_copied e of None \<Rightarrow> ps = [] | Some c \<Rightarrow> options_ok c)
     \<and> length (as_quote e) \<le> 68"

definition limits_ok :: "Table \<Rightarrow> bool" where
  "limits_ok t \<longleftrightarrow> length (tb_entries t) = nat (lim_Entries (tb_limits t)) \<and> length (tb_pieces t) = nat (lim_Fragments (tb_limits t))
     \<and> 0 < lim_Entries (tb_limits t) \<and> 0 < lim_Fragments (tb_limits t)
     \<and> tb_used t = tb_baseCost t + held_bytes (tb_pieces t) \<and> tb_used t \<le> lim_Bytes (tb_limits t)"

definition owners_ok :: "Table \<Rightarrow> bool" where
  "owners_ok t \<longleftrightarrow> (\<forall>p. Some p \<in> set (tb_pieces t) \<longrightarrow> pc_owner p < length (tb_entries t) \<and> tb_entries t ! pc_owner p \<noteq> None)"

definition entries_ok :: "Table \<Rightarrow> bool" where
  "entries_ok t \<longleftrightarrow> (\<forall>i e. i < length (tb_entries t) \<longrightarrow> tb_entries t ! i = Some e \<longrightarrow> entry_ok e (pieces_of i (tb_pieces t)))"

definition keys_ok :: "Table \<Rightarrow> bool" where
  "keys_ok t \<longleftrightarrow> (\<forall>i j e e'. i < length (tb_entries t) \<longrightarrow> j < length (tb_entries t) \<longrightarrow> tb_entries t ! i = Some e
     \<longrightarrow> tb_entries t ! j = Some e' \<longrightarrow> as_key e = as_key e' \<longrightarrow> i = j)"

text \<open>The invariant while an operation runs: the entry of the fragment may still be empty.\<close>

definition table_ok :: "Table \<Rightarrow> bool" where
  "table_ok t \<longleftrightarrow> limits_ok t \<and> owners_ok t \<and> entries_ok t \<and> keys_ok t"

definition nonempty_but :: "nat option \<Rightarrow> Table \<Rightarrow> bool" where
  "nonempty_but k t \<longleftrightarrow> (\<forall>i. i < length (tb_entries t) \<longrightarrow> tb_entries t ! i \<noteq> None \<longrightarrow> k \<noteq> Some i \<longrightarrow> pieces_of i (tb_pieces t) \<noteq> [])"

definition frag_inv :: "Table \<Rightarrow> bool" where
  "frag_inv t \<longleftrightarrow> table_ok t \<and> nonempty_but None t \<and> (tb_closed t \<longrightarrow> (\<forall>x \<in> set (tb_entries t). x = None))"

lemma entries_okD: "entries_ok t \<Longrightarrow> i < length (tb_entries t) \<Longrightarrow> tb_entries t ! i = Some e \<Longrightarrow> entry_ok e (pieces_of i (tb_pieces t))"
  by (simp add: entries_ok_def)

lemma apart_commute: "apart p q = apart q p"
  by (auto simp: apart_def)

lemma sorted_wrt_insert:
  assumes "sorted_wrt apart (A @ B)" and "\<forall>q \<in> set (A @ B). apart p q"
  shows "sorted_wrt apart (A @ p # B)"
  using assms by (auto simp: sorted_wrt_append apart_commute)

subsection \<open>Clearing entries\<close>

lemma clear_fields [simp]:
  "tb_limits (clearEntry t i) = tb_limits t" "tb_baseCost (clearEntry t i) = tb_baseCost t"
  "tb_closed (clearEntry t i) = tb_closed t" "length (tb_entries (clearEntry t i)) = length (tb_entries t)"
  "tb_entries (clearEntry t i) = (tb_entries t)[i := None]"
  "length (tb_pieces (clearEntry t i)) = length (tb_pieces t)"
  by (simp_all add: clearEntry_def)

lemma clear_pieces [simp]: "pieces_of j (tb_pieces (clearEntry t i)) = (if j = i then [] else pieces_of j (tb_pieces t))"
  by (simp add: clearEntry_def pieces_of_clear)

lemma clear_used:
  "tb_used t = tb_baseCost t + held_bytes (tb_pieces t) \<Longrightarrow>
     tb_used (clearEntry t i) = tb_baseCost t + held_bytes (tb_pieces (clearEntry t i)) \<and> tb_used (clearEntry t i) \<le> tb_used t"
  using held_bytes_nonneg [of "filter (owned_by i) (tb_pieces t)"]
  by (simp add: clearEntry_def held_bytes_clear) (simp add: held_bytes_def)

lemma clear_Some: "Some p \<in> set (tb_pieces (clearEntry t i)) \<longleftrightarrow> Some p \<in> set (tb_pieces t) \<and> pc_owner p \<noteq> i"
  by (auto simp: clearEntry_def owned_by_def split: option.splits if_splits)

lemma nth_update_None: "j < length xs \<Longrightarrow> xs[i := None] ! j = Some e \<longleftrightarrow> j \<noteq> i \<and> xs ! j = Some e"
  by (cases "i = j") auto

lemma clear_ok:
  assumes "table_ok t"
  shows "table_ok (clearEntry t i)"
proof -
  have "limits_ok (clearEntry t i)" using assms clear_used [of t i] by (auto simp: table_ok_def limits_ok_def)
  moreover have "owners_ok (clearEntry t i)"
    using assms by (auto simp: table_ok_def owners_ok_def clear_Some)
  moreover have "entries_ok (clearEntry t i)"
    using assms by (auto simp: table_ok_def entries_ok_def nth_list_update)
  moreover have "keys_ok (clearEntry t i)"
    using assms unfolding table_ok_def keys_ok_def by (simp add: nth_update_None)
  ultimately show ?thesis by (simp add: table_ok_def)
qed

lemma clear_nonempty: "nonempty_but k t \<Longrightarrow> nonempty_but k (clearEntry t i)"
  by (auto simp: nonempty_but_def nth_list_update)

lemma clear_nonempty_own: "nonempty_but (Some i) t \<Longrightarrow> nonempty_but None (clearEntry t i)"
  by (auto simp: nonempty_but_def nth_list_update)

lemma evicted_fields [simp]:
  "table_ok (t\<lparr>tb_evicted := n\<rparr>) = table_ok t" "nonempty_but k (t\<lparr>tb_evicted := n\<rparr>) = nonempty_but k t"
  by (simp_all add: table_ok_def limits_ok_def owners_ok_def entries_ok_def keys_ok_def nonempty_but_def)

subsection \<open>Evicting other entries\<close>

text \<open>What eviction of other entries leaves of the entry \<open>i\<close> and of the free slots.\<close>

definition kept :: "nat \<Rightarrow> Table \<Rightarrow> Table \<Rightarrow> bool" where
  "kept i t t' \<longleftrightarrow> tb_limits t' = tb_limits t \<and> tb_baseCost t' = tb_baseCost t \<and> tb_closed t' = tb_closed t
     \<and> length (tb_entries t') = length (tb_entries t) \<and> length (tb_pieces t') = length (tb_pieces t)
     \<and> tb_entries t' ! i = tb_entries t ! i \<and> pieces_of i (tb_pieces t') = pieces_of i (tb_pieces t)
     \<and> (\<forall>f < length (tb_pieces t). tb_pieces t ! f = None \<longrightarrow> tb_pieces t' ! f = None)"

lemma kept_refl [simp]: "kept i t t"
  by (simp add: kept_def)

lemma kept_trans: "kept i t t' \<Longrightarrow> kept i t' t'' \<Longrightarrow> kept i t t''"
  by (simp add: kept_def)

lemma kept_clear: "i \<noteq> j \<Longrightarrow> kept i t ((clearEntry t j)\<lparr>tb_evicted := n\<rparr>)"
  by (auto simp: kept_def) (auto simp: clearEntry_def owned_by_def)

lemma evict_kept:
  assumes "evictOldestLocked t (Some i) = (r, t')" and "table_ok t" and "nonempty_but k t"
  shows "kept i t t' \<and> table_ok t' \<and> nonempty_but k t' \<and> tb_used t' \<le> tb_used t"
proof (cases r)
  case None
  then show ?thesis using assms by (auto simp: evictOldestLocked_def split: option.splits)
next
  case (Some v)
  have v: "v \<noteq> i" "t' = (clearEntry t v)\<lparr>tb_evicted := tb_evicted t + 1\<rparr>" using evict_Some assms(1) Some by auto
  have "tb_used (clearEntry t v) \<le> tb_used t" using assms(2) clear_used [of t v] by (simp add: table_ok_def limits_ok_def)
  then show ?thesis using assms(2,3) kept_clear [of i v t] v by (simp add: clear_ok clear_nonempty)
qed

lemma index_of_Some: "index_of P xs = Some i \<Longrightarrow> i < length xs \<and> P (xs ! i) \<and> (\<forall>j < i. \<not> P (xs ! j))"
proof (induction xs arbitrary: i)
  case (Cons x xs)
  then show ?case by (auto split: if_splits simp: nth_Cons' less_Suc_eq_0_disj)
qed simp

lemma index_of_None: "index_of P xs = None \<longleftrightarrow> (\<forall>x \<in> set xs. \<not> P x)"
  by (induction xs) auto

lemma make_room_kept:
  assumes "table_ok t" and "nonempty_but k t" and "make_room t i len = (r, t')"
  shows "kept i t t' \<and> table_ok t' \<and> nonempty_but k t' \<and> tb_used t' \<le> tb_used t
    \<and> (case r of
         Some f \<Rightarrow> f < length (tb_pieces t') \<and> tb_pieces t' ! f = None \<and> int len \<le> lim_Bytes (tb_limits t') - tb_used t'
       | None \<Rightarrow> oldest (Some i) 0 (tb_entries t') None = None
           \<and> (int len > lim_Bytes (tb_limits t') - tb_used t' \<or> (\<forall>x \<in> set (tb_pieces t'). x \<noteq> None)))"
  using assms
proof (induction t i len rule: make_room.induct)
  case (1 t i len)
  show ?case
  proof (cases "\<exists>f. index_of (\<lambda>x. x = None) (tb_pieces t) = Some f \<and> int len \<le> lim_Bytes (tb_limits t) - tb_used t")
    case True
    then obtain f where f: "index_of (\<lambda>x. x = None) (tb_pieces t) = Some f" "int len \<le> lim_Bytes (tb_limits t) - tb_used t" by blast
    then have "make_room t i len = (Some f, t)" by (subst make_room.simps) simp
    then show ?thesis using 1(3-5) f index_of_Some [OF f(1)] by auto
  next
    case False
    obtain v t1 where e: "evictOldestLocked t (Some i) = (v, t1)" by fastforce
    have step: "make_room t i len = (case v of None \<Rightarrow> (None, t1) | Some _ \<Rightarrow> make_room t1 i len)"
      using False e by (subst make_room.simps) (auto split: option.splits)
    note k = evict_kept [OF e 1(3,4)]
    show ?thesis
    proof (cases v)
      case None
      then have t1: "t1 = t" "oldest (Some i) 0 (tb_entries t) None = None"
        using e by (auto simp: evictOldestLocked_def split: option.splits)
      have "index_of (\<lambda>x. x = None) (tb_pieces t) = None \<Longrightarrow> \<forall>x \<in> set (tb_pieces t). x \<noteq> None"
        by (simp add: index_of_None)
      then show ?thesis using None step 1(5) k t1 False by (auto simp: not_le)
    next
      case (Some w)
      then have m: "make_room t1 i len = (r, t')" using step 1(5) by simp
      have "kept i t1 t' \<and> table_ok t' \<and> nonempty_but k t' \<and> tb_used t' \<le> tb_used t1
        \<and> (case r of
         Some f \<Rightarrow> f < length (tb_pieces t') \<and> tb_pieces t' ! f = None \<and> int len \<le> lim_Bytes (tb_limits t') - tb_used t'
       | None \<Rightarrow> oldest (Some i) 0 (tb_entries t') None = None
           \<and> (int len > lim_Bytes (tb_limits t') - tb_used t' \<or> (\<forall>x \<in> set (tb_pieces t'). x \<noteq> None)))"
      proof (cases "index_of (\<lambda>x. x = None) (tb_pieces t)")
        case None
        then show ?thesis using 1(1) [OF None e [unfolded Some, symmetric] refl] k m by simp
      next
        case (Some f)
        then show ?thesis using 1(2) [OF Some _ e [unfolded \<open>v = Some w\<close>, symmetric] refl] False k m by simp
      qed
      then show ?thesis using k kept_trans by fastforce
    qed
  qed
qed

lemma copy_room_kept:
  assumes "table_ok t" and "nonempty_but k t" and "copy_room t i need len = (r, t')"
  shows "kept i t t' \<and> table_ok t' \<and> nonempty_but k t' \<and> tb_used t' \<le> tb_used t
    \<and> (if r then need \<le> lim_Bytes (tb_limits t') - tb_used t' - len
       else oldest (Some i) 0 (tb_entries t') None = None \<and> need > lim_Bytes (tb_limits t') - tb_used t' - len)"
  using assms
proof (induction t i need len rule: copy_room.induct)
  case (1 t i need len)
  show ?case
  proof (cases "need > lim_Bytes (tb_limits t) - tb_used t - len")
    case False
    then have "copy_room t i need len = (True, t)" by (subst copy_room.simps) simp
    then show ?thesis using 1(2-4) False by auto
  next
    case True
    obtain v t1 where e: "evictOldestLocked t (Some i) = (v, t1)" by fastforce
    have step: "copy_room t i need len = (case v of None \<Rightarrow> (False, t1) | Some _ \<Rightarrow> copy_room t1 i need len)"
      using True e by (subst copy_room.simps) (auto split: option.splits)
    note k = evict_kept [OF e 1(2,3)]
    show ?thesis
    proof (cases v)
      case None
      then have t1: "t1 = t" "oldest (Some i) 0 (tb_entries t) None = None"
        using e by (auto simp: evictOldestLocked_def split: option.splits)
      then show ?thesis using None step 1(4) k True by auto
    next
      case (Some w)
      then have "copy_room t1 i need len = (r, t')" using step 1(4) by simp
      then have "kept i t1 t' \<and> table_ok t' \<and> nonempty_but k t' \<and> tb_used t' \<le> tb_used t1
        \<and> (if r then need \<le> lim_Bytes (tb_limits t') - tb_used t' - len
           else oldest (Some i) 0 (tb_entries t') None = None \<and> need > lim_Bytes (tb_limits t') - tb_used t' - len)"
        using 1(1) [OF True e [unfolded Some, symmetric] refl] k by simp
      then show ?thesis using k kept_trans by fastforce
    qed
  qed
qed

subsection \<open>A fragment that fits its entry\<close>

lemma scan_clear:
  assumes "scan_pieces i f xs = ScanClear" and "p \<in> set (pieces_of i xs)"
  shows "(fg_end f \<le> pc_start p \<or> pc_end p \<le> fg_start f) \<and> (fg_more f \<or> pc_end p \<le> fg_end f)
    \<and> (fg_first f \<longrightarrow> pc_end p \<le> 65535 - fg_hlen f)"
  using assms
proof (induction xs)
  case (Cons x xs)
  show ?case
  proof (cases x)
    case None
    then show ?thesis using Cons by simp
  next
    case (Some q)
    show ?thesis
    proof (cases "pc_owner q = i \<and> p = q")
      case True
      then show ?thesis using Cons.prems Some by (auto simp: Let_def pc_end_def split: if_splits)
    next
      case False
      then show ?thesis using Cons Some by (auto simp: Let_def split: if_splits)
    qed
  qed
qed simp

lemma entry_conflict_total:
  assumes "entry_ok e ps" and "options_ok (fg_copied f)"
  shows "\<exists>r. entry_conflict e f header = Some r"
proof -
  have a: "\<exists>s. (if fg_first f \<and> as_first e \<noteq> [] then sameFirstIPv4Header (as_first e) header else Some True) = Some s"
    using assms(1) sameFirstIPv4Header_total by (auto simp: entry_ok_def)
  have b: "\<exists>s. (case as_copied e of None \<Rightarrow> Some True | Some c \<Rightarrow> sameCopiedOptionShape (fg_copied f) c) = Some s"
    using sameCopiedOptionShape_total [OF assms(2)] by (cases "as_copied e") auto
  obtain s s' where "(if fg_first f \<and> as_first e \<noteq> [] then sameFirstIPv4Header (as_first e) header else Some True) = Some s"
    "(case as_copied e of None \<Rightarrow> Some True | Some c \<Rightarrow> sameCopiedOptionShape (fg_copied f) c) = Some s'"
    using a b by blast
  then show ?thesis unfolding entry_conflict_def by (simp only: option.case split: if_split) auto
qed

lemma entry_conflict_clear:
  assumes "entry_conflict e f header = Some None"
  shows "(as_first e \<noteq> [] \<longrightarrow> fg_end f \<le> 65535 - length (as_first e))
    \<and> (\<forall>tot. as_total e = Some tot \<longrightarrow> fg_end f \<le> tot \<and> (fg_more f \<or> fg_end f = tot))"
  using assms unfolding entry_conflict_def by (auto split: option.splits if_splits)

lemma extend_ok:
  assumes e: "entry_ok e (A @ B)" and f: "fragment_ok packet f" and c: "entry_conflict e f header = Some None"
    and clear: "\<And>p. p \<in> set (A @ B) \<Longrightarrow> (fg_end f \<le> pc_start p \<or> pc_end p \<le> fg_start f) \<and> (fg_more f \<or> pc_end p \<le> fg_end f)
      \<and> (fg_first f \<longrightarrow> pc_end p \<le> 65535 - fg_hlen f)"
  shows "entry_ok (extend_entry e f packet) (A @ \<lparr>pc_owner = i, pc_start = fg_start f, pc_more = fg_more f, pc_data = fg_payload f\<rparr> # B)"
proof -
  let ?p = "\<lparr>pc_owner = i, pc_start = fg_start f, pc_more = fg_more f, pc_data = fg_payload f\<rparr>"
  let ?e = "extend_entry e f packet"
  have pe: "pc_end \<lparr>pc_owner = i, pc_start = fg_start f, pc_more = m, pc_data = fg_payload f\<rparr> = fg_end f" for m
    by (simp add: pc_end_def fg_end_def)
  have "fg_payload f \<noteq> []" "fg_end f \<le> 65515" using f unfolding fragment_ok_def by blast+
  then have pk: "piece_ok ?p" by (simp add: piece_ok_def pe)
  have ap: "\<forall>q \<in> set (A @ B). apart ?p q" using clear by (simp add: apart_def pe)
  note cc = entry_conflict_clear [OF c]
  have tot: "case as_total ?e of None \<Rightarrow> \<forall>p \<in> set (A @ ?p # B). pc_more p | Some tot \<Rightarrow> \<forall>p \<in> set (A @ ?p # B). pc_end p \<le> tot"
  proof (cases "fg_more f")
    case True
    have "case as_total e of None \<Rightarrow> \<forall>p \<in> set (A @ B). pc_more p | Some tot \<Rightarrow> \<forall>p \<in> set (A @ B). pc_end p \<le> tot"
      using e by (simp add: entry_ok_def)
    then show ?thesis using True cc by (cases "as_total e") (auto simp: extend_entry_def pe)
  next
    case False
    then show ?thesis using clear by (auto simp: extend_entry_def pe)
  qed
  have hl: "length packet = fg_hlen f + length (fg_payload f)" "fg_hlen f < length packet"
    using fragment_packet_length [OF f] by auto
  have first: "as_first ?e \<noteq> [] \<longrightarrow> header_ok (as_first ?e) \<and> (\<forall>p \<in> set (A @ ?p # B). pc_end p \<le> 65535 - length (as_first ?e))"
  proof (cases "fg_first f")
    case True
    have len: "length (take (fg_hlen f) packet) = fg_hlen f" using hl by simp
    have "length packet \<le> 65535" using f unfolding fragment_ok_def by blast
    then have "fg_end f \<le> 65535 - fg_hlen f" using True hl by (simp add: fg_end_def fg_first_def)
    moreover have "header_ok (take (fg_hlen f) packet)" using True f by (simp add: fragment_ok_def)
    ultimately show ?thesis using True clear len by (auto simp: extend_entry_def pe)
  next
    case False
    then show ?thesis using e cc by (auto simp: entry_ok_def extend_entry_def pe)
  qed
  have copied: "case as_copied ?e of None \<Rightarrow> A @ ?p # B = [] | Some c \<Rightarrow> options_ok c"
    using e f by (auto simp: entry_ok_def extend_entry_def fragment_ok_def split: option.splits)
  have quote: "length (as_quote ?e) \<le> 68" using e f by (auto simp: entry_ok_def extend_entry_def fragment_ok_def)
  have counts: "as_parts ?e = length (A @ ?p # B)" "as_covered ?e = sum_list (map (\<lambda>p. length (pc_data p)) (A @ ?p # B))"
    using e by (simp_all add: entry_ok_def extend_entry_def)
  have "sorted_wrt apart (A @ ?p # B)" using e ap by (intro sorted_wrt_insert) (auto simp: entry_ok_def)
  moreover have "\<forall>p \<in> set (A @ ?p # B). piece_ok p" using e pk by (auto simp: entry_ok_def)
  ultimately show ?thesis unfolding entry_ok_def using tot first copied quote counts by blast
qed

end
