(* ===== verification/Frag_Process.thy ===== *)
theory Frag_Process
  imports Frag_Invariant
begin

section \<open>Storing fragments and completing datagrams\<close>

text \<open>
  A stored fragment keeps the invariant; pieces that do not overlap and cover as many
  bytes as the total tile the payload, so that the completed packet holds each byte of
  it exactly as a fragment brought it. From this: every call of \<open>Process\<close> returns and
  keeps the invariant.
\<close>

lemma table_fields [simp]:
  "tb_limits (t\<lparr>tb_pieces := a, tb_used := b, tb_entries := c\<rparr>) = tb_limits t"
  "tb_pieces (t\<lparr>tb_pieces := a, tb_used := b, tb_entries := c\<rparr>) = a"
  "tb_entries (t\<lparr>tb_pieces := a, tb_used := b, tb_entries := c\<rparr>) = c"
  by simp_all

lemma keys_update:
  assumes "keys_ok t" and "tb_entries t ! i = Some e" and "as_key e' = as_key e" and "tb_entries t' = (tb_entries t)[i := Some e']"
  shows "keys_ok t'"
proof -
  have key: "\<exists>d. tb_entries t ! j = Some d \<and> as_key d = as_key a"
    if "j < length (tb_entries t)" "tb_entries t' ! j = Some a" for j a
    using that assms(2-) by (cases "j = i") auto
  show ?thesis unfolding keys_ok_def
  proof (intro allI impI)
    fix j k a b
    assume j: "j < length (tb_entries t')" "k < length (tb_entries t')" "tb_entries t' ! j = Some a" "tb_entries t' ! k = Some b"
      "as_key a = as_key b"
    then have l: "j < length (tb_entries t)" "k < length (tb_entries t)" using assms(4) by auto
    obtain a' b' where "tb_entries t ! j = Some a'" "tb_entries t ! k = Some b'" "as_key a' = as_key b'"
      using key [OF l(1)] key [OF l(2)] j by metis
    then show "j = k" using assms(1) l unfolding keys_ok_def by blast
  qed
qed

lemma stored_ok:
  assumes t: "table_ok t" and i: "i < length (tb_entries t)" "tb_entries t ! i = Some e"
    and f: "f < length (tb_pieces t)" "tb_pieces t ! f = None" and p: "pc_owner p = i"
    and len: "int (length (pc_data p)) \<le> lim_Bytes (tb_limits t) - tb_used t"
    and e': "as_key e' = as_key e" "entry_ok e' (pieces_of i ((tb_pieces t)[f := Some p]))"
  shows "table_ok (t\<lparr>tb_pieces := (tb_pieces t)[f := Some p], tb_used := tb_used t + int (length (pc_data p)),
    tb_entries := (tb_entries t)[i := Some e']\<rparr>)" (is "table_ok ?t")
proof -
  have "limits_ok ?t" using t len by (simp add: table_ok_def limits_ok_def held_bytes_insert [OF f])
  moreover have "owners_ok ?t"
    using t p i set_update_subset_insert [of "tb_pieces t" f "Some p"]
    by (fastforce simp: table_ok_def owners_ok_def nth_list_update)
  moreover have "entries_ok ?t"
  proof -
    have "entry_ok e'' (pieces_of j ((tb_pieces t)[f := Some p]))"
      if j: "j < length (tb_entries t)" "(tb_entries t)[i := Some e'] ! j = Some e''" for j e''
    proof (cases "j = i")
      case True
      then show ?thesis using j e' i by simp
    next
      case False
      obtain A B where "pieces_of j (tb_pieces t) = A @ B" "pieces_of j ((tb_pieces t)[f := Some p]) = A @ B"
        using pieces_of_insert [OF f, of j p] p False by auto
      then show ?thesis using entries_okD [of t j e''] t j False by (simp add: table_ok_def)
    qed
    then show ?thesis by (simp add: entries_ok_def)
  qed
  moreover have "keys_ok ?t" by (rule keys_update [of t i e e']) (use t i(2) e'(1) in \<open>simp_all add: table_ok_def\<close>)
  ultimately show ?thesis by (simp add: table_ok_def)
qed

subsection \<open>Tiling\<close>

definition bytes_of :: "ipv4Piece \<Rightarrow> nat set" where
  "bytes_of p = {pc_start p..<pc_end p}"

lemma apart_disjoint: "apart p q \<Longrightarrow> bytes_of p \<inter> bytes_of q = {}"
  by (auto simp: apart_def bytes_of_def)

lemma card_spans:
  "sorted_wrt apart ps \<Longrightarrow> card (\<Union> (bytes_of ` set ps)) = sum_list (map (\<lambda>p. length (pc_data p)) ps)"
proof (induction ps)
  case (Cons p ps)
  have "bytes_of p \<inter> \<Union> (bytes_of ` set ps) = {}" using Cons.prems apart_disjoint by fastforce
  then have "card (bytes_of p \<union> \<Union> (bytes_of ` set ps)) = card (bytes_of p) + card (\<Union> (bytes_of ` set ps))"
    by (intro card_Un_disjoint) (auto simp: bytes_of_def)
  then show ?case using Cons by (simp add: bytes_of_def pc_end_def)
qed simp

lemma spans_tile:
  assumes "sorted_wrt apart ps" and "\<forall>p \<in> set ps. pc_end p \<le> tot" and "sum_list (map (\<lambda>p. length (pc_data p)) ps) = tot"
  shows "\<Union> (bytes_of ` set ps) = {..<tot}"
proof (rule card_subset_eq)
  show "\<Union> (bytes_of ` set ps) \<subseteq> {..<tot}" using assms(2) by (auto simp: bytes_of_def)
qed (simp_all add: card_spans [OF assms(1)] assms(3))

lemma tile_byte:
  assumes "sorted_wrt apart ps" and "\<forall>p \<in> set ps. pc_end p \<le> tot" and "sum_list (map (\<lambda>p. length (pc_data p)) ps) = tot" and "k < tot"
  shows "\<exists>p \<in> set ps. pc_start p \<le> k \<and> k < pc_end p"
proof -
  have "k \<in> \<Union> (bytes_of ` set ps)" using spans_tile [OF assms(1-3)] assms(4) by simp
  then show ?thesis by (auto simp: bytes_of_def)
qed

subsection \<open>The completed packet\<close>

lemma copy_at_in:
  assumes "a + length data \<le> length out"
  shows "copy_at out a data = Some (take a out @ data @ drop (a + length data) out)"
  using assms by (simp add: copy_at_def)

lemma nth_copy:
  assumes "a + length data \<le> length out" and "k < length out"
  shows "(take a out @ data @ drop (a + length data) out) ! k = (if a \<le> k \<and> k < a + length data then data ! (k - a) else out ! k)"
  using assms by (auto simp: nth_append)

lemma copy_pieces_value:
  assumes "sorted_wrt apart (pieces_of i xs)" and "\<forall>p \<in> set (pieces_of i xs). pc_end p \<le> tot" and "length out = n + tot"
  shows "\<exists>out'. copy_pieces i n xs out = Some out' \<and> length out' = length out \<and> take n out' = take n out
    \<and> (\<forall>k < tot. (\<forall>p \<in> set (pieces_of i xs). k \<notin> bytes_of p) \<longrightarrow> out' ! (n + k) = out ! (n + k))
    \<and> (\<forall>p \<in> set (pieces_of i xs). \<forall>k \<in> bytes_of p. out' ! (n + k) = pc_data p ! (k - pc_start p))"
  using assms
proof (induction xs arbitrary: out)
  case (Cons x xs)
  show ?case
  proof (cases "owned_by i x")
    case False
    then have "copy_pieces i n (x # xs) out = copy_pieces i n xs out" "pieces_of i (x # xs) = pieces_of i xs"
      by (cases x; auto simp: owned_by_def)+
    then show ?thesis using Cons by simp
  next
    case True
    then obtain p where x: "x = Some p" "pc_owner p = i" by (cases x) (auto simp: owned_by_def)
    let ?out = "take (n + pc_start p) out @ pc_data p @ drop (n + pc_start p + length (pc_data p)) out"
    have le: "n + pc_start p + length (pc_data p) \<le> length out" using Cons.prems x by (simp add: pc_end_def)
    have c: "copy_pieces i n (x # xs) out = copy_pieces i n xs ?out" using x by (simp add: copy_at_in [OF le])
    have ps: "sorted_wrt apart (pieces_of i xs)" "\<forall>q \<in> set (pieces_of i xs). apart p q \<and> pc_end q \<le> tot" "pc_end p \<le> tot"
      using Cons.prems x by auto
    have len: "length ?out = n + tot" using le Cons.prems by simp
    obtain out' where o: "copy_pieces i n xs ?out = Some out'" "length out' = length ?out" "take n out' = take n ?out"
      "\<forall>k < tot. (\<forall>q \<in> set (pieces_of i xs). k \<notin> bytes_of q) \<longrightarrow> out' ! (n + k) = ?out ! (n + k)"
      "\<forall>q \<in> set (pieces_of i xs). \<forall>k \<in> bytes_of q. out' ! (n + k) = pc_data q ! (k - pc_start q)"
      using Cons.IH [OF ps(1) _ len] ps(2) by blast
    have nth: "?out ! (n + k) = (if k \<in> bytes_of p then pc_data p ! (k - pc_start p) else out ! (n + k))" if "k < tot" for k
      using nth_copy [OF le, of "n + k"] that Cons.prems(3) by (auto simp: bytes_of_def pc_end_def)
    have own: "out' ! (n + k) = pc_data p ! (k - pc_start p)" if k: "k \<in> bytes_of p" for k
    proof -
      have "k < tot" using k ps(3) by (simp add: bytes_of_def)
      moreover have "\<forall>q \<in> set (pieces_of i xs). k \<notin> bytes_of q" using ps(2) apart_disjoint k by blast
      ultimately show ?thesis using o(4) nth k by simp
    qed
    have "take n ?out = take n out" using le by simp
    then show ?thesis using o own nth len c x ps Cons.prems(3) by (intro exI [of _ out']) auto
  qed
qed simp

text \<open>
  What a completed packet is: the first header with its length, flags, checksum and, if
  a fragment saw congestion, its ECN field rewritten, followed by the bytes of the pieces.
\<close>

definition reassembled :: "ipv4Assembly \<Rightarrow> ipv4Piece list \<Rightarrow> uint8 list \<Rightarrow> bool" where
  "reassembled e ps out \<longleftrightarrow>
     (\<exists>h body. out = h @ body \<and> length h = length (as_first e) \<and> length body = as_covered e
        \<and> ChecksumOK h = Some True \<and> Uint16_at out 2 = word_of_nat (length out) \<and> out ! 6 = 0 \<and> out ! 7 = 0
        \<and> out ! 1 = (if as_ecnMask e AND 8 \<noteq> 0 then (as_first e ! 1 AND NOT 3) OR 3 else as_first e ! 1)
        \<and> (\<forall>k < length h. k \<notin> {1, 2, 3, 6, 7, 10, 11} \<longrightarrow> h ! k = as_first e ! k)
        \<and> (\<forall>k < length body. \<exists>p \<in> set ps. k \<in> bytes_of p)
        \<and> (\<forall>p \<in> set ps. pc_end p \<le> length body \<and> (\<forall>k \<in> bytes_of p. body ! k = pc_data p ! (k - pc_start p))))"

lemma assemble_value:
  assumes e: "entry_ok e (pieces_of i (tb_pieces t))" and first: "as_first e \<noteq> []" and tot: "as_total e = Some (as_covered e)"
  shows "\<exists>out. assemble t i e (as_covered e) = Some out \<and> reassembled e (pieces_of i (tb_pieces t)) out"
proof -
  let ?ps = "pieces_of i (tb_pieces t)" and ?n = "length (as_first e)" and ?T = "as_covered e"
  have ps: "sorted_wrt apart ?ps" "\<forall>p \<in> set ?ps. pc_end p \<le> ?T" "sum_list (map (\<lambda>p. length (pc_data p)) ?ps) = ?T"
    using e tot by (auto simp: entry_ok_def)
  have hd: "20 \<le> ?n" "?n \<le> 60" "even ?n" using e first by (auto simp: entry_ok_def header_ok_def)
  obtain o1 where o1: "copy_pieces i ?n (tb_pieces t) (as_first e @ replicate ?T 0) = Some o1" "length o1 = ?n + ?T"
    "take ?n o1 = as_first e" "\<forall>p \<in> set ?ps. \<forall>k \<in> bytes_of p. o1 ! (?n + k) = pc_data p ! (k - pc_start p)"
    using copy_pieces_value [OF ps(1,2), of "as_first e @ replicate ?T 0" ?n] by auto
  define o2 where "o2 = (PutUint16_at o1 2 (word_of_nat (length o1)))[6 := 0, 7 := 0]"
  define o3 where "o3 = (if as_ecnMask e AND 8 \<noteq> 0 then o2[1 := (o2 ! 1 AND NOT 3) OR 3] else o2)"
  have len: "length o3 = ?n + ?T" by (simp add: o3_def o2_def o1 PutUint16_at_def)
  have b1: "o1 ! k = as_first e ! k" if "k < ?n" for k using o1(3) that by (metis nth_take)
  have o3: "o3 ! k = (if k = 1 \<and> as_ecnMask e AND 8 \<noteq> 0 then (as_first e ! 1 AND NOT 3) OR 3
      else if k = 2 then ucast (drop_bit 8 (word_of_nat (length o1) :: uint16)) else if k = 3 then ucast (word_of_nat (length o1) :: uint16)
      else if k = 6 \<or> k = 7 then 0 else o1 ! k)" if "k < ?n + ?T" for k
    using that hd b1 [of 1] by (auto simp: o3_def o2_def PutUint16_at_def o1 nth_list_update)
  obtain h where h: "SetChecksum (take ?n o3) = Some h" "length h = ?n" "ChecksumOK h = Some True"
    "\<forall>k. k \<noteq> 10 \<longrightarrow> k \<noteq> 11 \<longrightarrow> h ! k = take ?n o3 ! k"
    using SetChecksum_OK [of "take ?n o3"] hd len by auto
  have asm: "assemble t i e ?T = Some (h @ drop ?n o3)"
  proof -
    have "assemble t i e ?T = map_option (\<lambda>h. h @ drop ?n o3) (SetChecksum (take ?n o3))"
      by (simp only: assemble_def Let_def o1(1) option.case o3_def o2_def)
    then show ?thesis using h(1) by simp
  qed
  let ?out = "h @ drop ?n o3"
  have out: "?out ! k = o3 ! k" if "k < ?n" "k \<noteq> 10" "k \<noteq> 11" for k using that h by (simp add: nth_append)
  have u: "Uint16_at ?out 2 = word_of_nat (length ?out)"
    using out [of 2] out [of 3] o3 [of 2] o3 [of 3] hd len o1(2) h(2) by (simp add: Uint16_at_def be16_put)
  have body: "drop ?n o3 ! k = o1 ! (?n + k)" if "k < ?T" for k using that o3 [of "?n + k"] hd len by simp
  have cover: "\<exists>p \<in> set ?ps. k \<in> bytes_of p" if "k < ?T" for k
    using tile_byte [OF ps that] by (auto simp: bytes_of_def)
  have data: "drop ?n o3 ! k = pc_data p ! (k - pc_start p)" if p: "p \<in> set ?ps" "k \<in> bytes_of p" for p k
  proof -
    have "k < ?T" using p ps(2) by (fastforce simp: bytes_of_def)
    then show ?thesis using body o1(4) p by simp
  qed
  have hbytes: "h ! k = as_first e ! k" if k: "k < ?n" "k \<notin> {1, 2, 3, 6, 7, 10, 11}" for k
    using k h(2,4) o3 [of k] b1 [of k] by simp
  have "reassembled e ?ps ?out"
    unfolding reassembled_def
    using h(2,3) len u out [of 6] out [of 7] out [of 1] o3 [of 6] o3 [of 7] o3 [of 1] b1 [of 1] hd hbytes cover data ps(2)
    by (intro exI [of _ h] exI [of _ "drop ?n o3"] conjI) auto
  then show ?thesis using asm by blast
qed

subsection \<open>The entry of a fragment\<close>

lemma unowned: "owners_ok t \<Longrightarrow> tb_entries t ! i = None \<Longrightarrow> pieces_of i (tb_pieces t) = []"
proof -
  assume t: "owners_ok t" "tb_entries t ! i = None"
  have "p \<notin> set (pieces_of i (tb_pieces t))" for p using t by (auto simp: pieces_of_iff owners_ok_def)
  then show ?thesis by (metis last_in_set)
qed

lemma fresh_ok:
  assumes t: "table_ok t" and i: "i < length (tb_entries t)" "tb_entries t ! i = None"
    and key: "\<forall>x \<in> set (tb_entries t). \<not> has_key k x"
  shows "table_ok (t\<lparr>tb_entries := (tb_entries t)[i := Some (new_assembly k d)]\<rparr>)" (is "table_ok ?t")
proof -
  have "limits_ok ?t" using t by (simp add: table_ok_def limits_ok_def)
  moreover have "owners_ok ?t" using t i by (auto simp: table_ok_def owners_ok_def nth_list_update)
  moreover have "entries_ok ?t"
  proof -
    have "entry_ok (new_assembly k d) []" by (simp add: entry_ok_def new_assembly_def)
    then show ?thesis using t i unowned [of t i] unfolding entries_ok_def table_ok_def
      by (auto simp: nth_list_update)
  qed
  moreover have "keys_ok ?t"
  proof -
    have nk: "as_key e \<noteq> k" if "j < length (tb_entries t)" "tb_entries t ! j = Some e" for j e
      using key that nth_mem [OF that(1)] by (auto simp: has_key_def)
    show ?thesis unfolding keys_ok_def
    proof (intro allI impI)
      fix a b e e'
      assume h: "a < length (tb_entries ?t)" "b < length (tb_entries ?t)" "tb_entries ?t ! a = Some e" "tb_entries ?t ! b = Some e'"
        "as_key e = as_key e'"
      have old: "keys_ok t" using t by (simp add: table_ok_def)
      show "a = b"
      proof (cases "a = i \<or> b = i")
        case True
        then show ?thesis using h nk [of a e] nk [of b e'] i
          by (cases "a = i"; cases "b = i") (auto simp: new_assembly_def)
      next
        case False
        then have "tb_entries t ! a = Some e" "tb_entries t ! b = Some e'" "a < length (tb_entries t)" "b < length (tb_entries t)"
          using h by auto
        then show ?thesis using old h(5) unfolding keys_ok_def by blast
      qed
    qed
  qed
  ultimately show ?thesis by (simp add: table_ok_def)
qed

lemma fresh_nonempty:
  "nonempty_but None t \<Longrightarrow> nonempty_but (Some i) (t\<lparr>tb_entries := (tb_entries t)[i := x]\<rparr>)"
  by (auto simp: nonempty_but_def)

lemma nonempty_weaken: "nonempty_but None t \<Longrightarrow> nonempty_but k t"
  by (simp add: nonempty_but_def)

lemma find_entry_ok:
  assumes t: "table_ok t" "nonempty_but None t" and run: "find_entry t f packet now = (r, t')"
  shows "table_ok t' \<and> tb_closed t' = tb_closed t \<and> (case r of
      Inl _ \<Rightarrow> nonempty_but None t'
    | Inr i \<Rightarrow> nonempty_but (Some i) t' \<and> i < length (tb_entries t') \<and> (\<exists>e. tb_entries t' ! i = Some e \<and> as_key e = fg_key f))"
proof (cases "index_of (has_key (fg_key f)) (tb_entries t)")
  case (Some i)
  then have i: "i < length (tb_entries t)" "has_key (fg_key f) (tb_entries t ! i)" using index_of_Some by auto
  then obtain e where e: "tb_entries t ! i = Some e" "as_key e = fg_key f" by (auto simp: has_key_def split: option.splits)
  show ?thesis
  proof (cases "now \<ge> as_deadline e")
    case True
    then show ?thesis using run Some e t by (auto simp: find_entry_def clear_ok clear_nonempty)
  next
    case False
    then show ?thesis using run Some e t i by (auto simp: find_entry_def nonempty_weaken)
  qed
next
  case None
  then have nk: "\<forall>x \<in> set (tb_entries t). \<not> has_key (fg_key f) x" by (simp add: index_of_None)
  let ?fresh = "new_assembly (fg_key f) (now + lim_Lifetime (tb_limits t))"
  have key: "as_key ?fresh = fg_key f" by (simp add: new_assembly_def)
  show ?thesis
  proof (cases "index_of (\<lambda>x. x = None) (tb_entries t)")
    case free: (Some i)
    then have i: "i < length (tb_entries t)" "tb_entries t ! i = None" using index_of_Some by auto
    have "r = Inr i" "t' = t\<lparr>tb_entries := (tb_entries t)[i := Some ?fresh]\<rparr>"
      using run None free by (auto simp: find_entry_def Let_def)
    then show ?thesis using fresh_ok [OF t(1) i nk] fresh_nonempty [OF t(2)] i key by simp
  next
    case full: None
    obtain v t1 where e: "evictOldestLocked t None = (v, t1)" by fastforce
    show ?thesis
    proof (cases v)
      case None
      then have "t1 = t" using e by (auto simp: evictOldestLocked_def split: option.splits)
      then show ?thesis using run \<open>index_of (has_key (fg_key f)) (tb_entries t) = None\<close> full e None t
        by (auto simp: find_entry_def Let_def)
    next
      case (Some w)
      have w: "w < length (tb_entries t)" "t1 = (clearEntry t w)\<lparr>tb_evicted := tb_evicted t + 1\<rparr>"
        using evict_Some e Some by auto
      have r: "r = Inr w" "t' = t1\<lparr>tb_entries := (tb_entries t1)[w := Some ?fresh]\<rparr>"
        using run \<open>index_of (has_key (fg_key f)) (tb_entries t) = None\<close> full e Some by (auto simp: find_entry_def Let_def)
      have "\<forall>x \<in> set (tb_entries t1). \<not> has_key (fg_key f) x"
        using nk set_update_subset_insert [of "tb_entries t" w None] by (auto simp: w(2) has_key_def split: option.splits)
      then show ?thesis using fresh_ok [of t1 w "fg_key f"] fresh_nonempty [of t1 w] t w r key by (simp add: clear_ok clear_nonempty)
    qed
  qed
qed

subsection \<open>When there is no room\<close>

lemma oldest_victim: "oldest keep i xs (Some v) \<noteq> None"
proof (induction xs arbitrary: i v)
  case (Cons x xs)
  then show ?case by (cases x; cases v) auto
qed simp

lemma oldest_None: "oldest keep i xs None = None \<Longrightarrow> j < length xs \<Longrightarrow> xs ! j \<noteq> None \<Longrightarrow> keep = Some (i + j)"
proof (induction xs arbitrary: i j)
  case (Cons x xs)
  show ?case
  proof (cases x)
    case None
    then show ?thesis using Cons.prems Cons.IH [of "Suc i" "j - 1"] by (cases j) auto
  next
    case (Some e)
    then have k: "keep = Some i" "oldest keep (Suc i) xs None = None"
      using Cons.prems oldest_victim [of keep "Suc i" xs "(i, as_deadline e)"] by (auto split: if_splits)
    show ?thesis
    proof (cases j)
      case (Suc j')
      then show ?thesis using Cons.IH [OF k(2), of j'] Cons.prems k(1) by simp
    qed (simp add: k(1))
  qed
qed simp

lemma alone:
  assumes "table_ok t" and "oldest (Some i) 0 (tb_entries t) None = None"
  shows "held_bytes (tb_pieces t) = int (sum_list (map (\<lambda>p. length (pc_data p)) (pieces_of i (tb_pieces t))))"
    and "(\<forall>x \<in> set (tb_pieces t). x \<noteq> None) \<Longrightarrow> length (pieces_of i (tb_pieces t)) = length (tb_pieces t)"
proof -
  have own: "pc_owner p = i" if "Some p \<in> set (tb_pieces t)" for p
  proof -
    have "pc_owner p < length (tb_entries t)" "tb_entries t ! pc_owner p \<noteq> None"
      using assms(1) that unfolding table_ok_def owners_ok_def by blast+
    from oldest_None [OF assms(2) this] show ?thesis by simp
  qed
  have "held_bytes xs = held_bytes (filter (owned_by i) xs)" if "set xs \<subseteq> set (tb_pieces t)" for xs
    using that
  proof (induction xs)
    case (Cons x xs)
    then show ?case using own by (cases x) (auto simp: held_bytes_def owned_by_def)
  qed (simp add: held_bytes_def)
  then show "held_bytes (tb_pieces t) = int (sum_list (map (\<lambda>p. length (pc_data p)) (pieces_of i (tb_pieces t))))"
    unfolding held_bytes_owned [symmetric] by blast
  assume "\<forall>x \<in> set (tb_pieces t). x \<noteq> None"
  then have "filter (owned_by i) (tb_pieces t) = tb_pieces t"
    using own by (intro filter_True) (auto simp: owned_by_def)
  then show "length (pieces_of i (tb_pieces t)) = length (tb_pieces t)" by (simp add: pieces_of_def)
qed

text \<open>
  The bytes a fragment needs beside its own entry: its payload, and the completed packet
  if it completes the datagram.
\<close>

definition needed_bytes :: "ipv4Assembly \<Rightarrow> fragment \<Rightarrow> uint8 list \<Rightarrow> nat" where
  "needed_bytes e f packet =
     length (fg_payload f)
     + (let e' = extend_entry e f packet in if is_complete e' then length (as_first e') + as_covered e' else 0)"

lemma clear_base [simp]: "tb_baseCost (drop_if_empty t i e) = tb_baseCost t" "tb_closed (drop_if_empty t i e) = tb_closed t"
  "tb_limits (drop_if_empty t i e) = tb_limits t"
  by (simp_all add: drop_if_empty_def)

lemma drop_if_empty_ok:
  assumes "table_ok t" and "nonempty_but (Some i) t" and "i < length (tb_entries t)" and "tb_entries t ! i = Some e"
  shows "table_ok (drop_if_empty t i e) \<and> nonempty_but None (drop_if_empty t i e)"
proof (cases "as_parts e = 0")
  case True
  then show ?thesis using assms by (simp add: drop_if_empty_def clear_ok clear_nonempty_own)
next
  case False
  have "entry_ok e (pieces_of i (tb_pieces t))" using assms entries_okD by (simp add: table_ok_def)
  then have "pieces_of i (tb_pieces t) \<noteq> []" using False by (auto simp: entry_ok_def)
  then have "nonempty_but None t" using assms(2) by (auto simp: nonempty_but_def)
  then show ?thesis using False assms(1) by (simp add: drop_if_empty_def)
qed

subsection \<open>Storing a fragment\<close>

definition piece_of :: "nat \<Rightarrow> fragment \<Rightarrow> ipv4Piece" where
  "piece_of i f = \<lparr>pc_owner = i, pc_start = fg_start f, pc_more = fg_more f, pc_data = fg_payload f\<rparr>"

text \<open>What storing a fragment may end in: it is refused for lack of room exactly when it would not fit
  with every other entry evicted.\<close>

definition fits_alone :: "Table \<Rightarrow> ipv4Assembly \<Rightarrow> fragment \<Rightarrow> uint8 list \<Rightarrow> bool" where
  "fits_alone t e f packet = (tb_baseCost t + int (as_covered e + needed_bytes e f packet) \<le> lim_Bytes (tb_limits t))"

definition store_outcome :: "Table \<Rightarrow> nat \<Rightarrow> ipv4Assembly \<Rightarrow> fragment \<Rightarrow> uint8 list \<Rightarrow> Result \<Rightarrow> Table \<Rightarrow> bool" where
  "store_outcome t i e f packet r t' =
     (let e' = extend_entry e f packet in
      case res_Status r of
        Capacity \<Rightarrow> \<not> fits_alone t e f packet
      | Held \<Rightarrow> fits_alone t e f packet \<and> \<not> is_complete e' \<and> tb_entries t' ! i = Some e'
          \<and> mset (pieces_of i (tb_pieces t')) = add_mset (piece_of i f) (mset (pieces_of i (tb_pieces t)))
      | Complete \<Rightarrow> fits_alone t e f packet \<and> is_complete e' \<and> tb_entries t' ! i = None
          \<and> (\<exists>ps. mset ps = add_mset (piece_of i f) (mset (pieces_of i (tb_pieces t))) \<and> reassembled e' ps (res_Packet r))
      | _ \<Rightarrow> False)"

text \<open>The last part of \<open>store_fragment\<close>, once there is room.\<close>

lemma store_with_room:
  assumes t: "table_ok t2" "nonempty_but (Some i) t2" and i: "i < length (tb_entries t2)" "tb_entries t2 ! i = Some e"
    and f: "fragment_ok packet f" and c: "entry_conflict e f header = Some None" and s: "scan_pieces i f (tb_pieces t) = ScanClear"
    and fp: "fp < length (tb_pieces t2)" "tb_pieces t2 ! fp = None" and len: "int (length (fg_payload f)) \<le> lim_Bytes (tb_limits t2) - tb_used t2"
    and ps: "pieces_of i (tb_pieces t2) = pieces_of i (tb_pieces t)"
  defines "t3 \<equiv> t2\<lparr>tb_pieces := (tb_pieces t2)[fp := Some (piece_of i f)], tb_used := tb_used t2 + int (length (fg_payload f)),
      tb_entries := (tb_entries t2)[i := Some (extend_entry e f packet)]\<rparr>"
  shows "table_ok t3 \<and> nonempty_but None t3 \<and> entry_ok (extend_entry e f packet) (pieces_of i (tb_pieces t3))
    \<and> mset (pieces_of i (tb_pieces t3)) = add_mset (piece_of i f) (mset (pieces_of i (tb_pieces t)))"
proof -
  obtain A B where ab: "pieces_of i (tb_pieces t2) = A @ B" "pieces_of i ((tb_pieces t2)[fp := Some (piece_of i f)]) = A @ piece_of i f # B"
    using pieces_of_insert [OF fp, of i "piece_of i f"] by (auto simp: piece_of_def)
  have "entry_ok e (A @ B)" using entries_okD [of t2 i e] t i ab by (simp add: table_ok_def)
  then have ok: "entry_ok (extend_entry e f packet) (A @ piece_of i f # B)"
    unfolding piece_of_def using scan_clear [OF s] ps ab(1) by (intro extend_ok [OF _ f c]) auto
  have "table_ok (t2\<lparr>tb_pieces := (tb_pieces t2)[fp := Some (piece_of i f)], tb_used := tb_used t2 + int (length (pc_data (piece_of i f))),
      tb_entries := (tb_entries t2)[i := Some (extend_entry e f packet)]\<rparr>)"
    using len ok ab(2) by (intro stored_ok [OF t(1) i fp]) (simp_all add: piece_of_def extend_entry_def)
  then have "table_ok t3" by (simp add: t3_def piece_of_def)
  moreover have "nonempty_but None t3"
    unfolding nonempty_but_def
  proof (intro allI impI)
    fix j assume j: "j < length (tb_entries t3)" "tb_entries t3 ! j \<noteq> None"
    show "pieces_of j (tb_pieces t3) \<noteq> []"
    proof (cases "j = i")
      case True
      then show ?thesis using ab(2) by (simp add: t3_def)
    next
      case False
      then obtain A' B' where "pieces_of j (tb_pieces t2) = A' @ B'" "pieces_of j (tb_pieces t3) = A' @ B'"
        using pieces_of_insert [OF fp, of j "piece_of i f"] by (auto simp: t3_def piece_of_def)
      moreover have "pieces_of j (tb_pieces t2) \<noteq> []" using t(2) j False by (auto simp: nonempty_but_def t3_def)
      ultimately show ?thesis by simp
    qed
  qed
  moreover have "mset (pieces_of i (tb_pieces t)) = mset A + mset B" using ab(1) unfolding ps [symmetric] by simp
  ultimately show ?thesis using ok ab(2) by (simp add: t3_def)
qed

lemma held_bytes_ge: "int (sum_list (map (\<lambda>p. length (pc_data p)) (pieces_of i xs))) \<le> held_bytes xs"
  using held_bytes_clear [of i xs] held_bytes_nonneg [of "map (\<lambda>x. if owned_by i x then None else x) xs"]
  by (simp add: held_bytes_owned)

lemma used_alone:
  assumes "table_ok t" and "oldest (Some i) 0 (tb_entries t) None = None" and "entry_ok e (pieces_of i (tb_pieces t))"
  shows "tb_used t = tb_baseCost t + int (as_covered e)"
  using assms alone(1) [OF assms(1,2)] by (simp add: table_ok_def limits_ok_def entry_ok_def)

lemma keptD:
  assumes "kept i t t'"
  shows "tb_limits t' = tb_limits t" "tb_baseCost t' = tb_baseCost t" "tb_closed t' = tb_closed t"
    "length (tb_entries t') = length (tb_entries t)" "length (tb_pieces t') = length (tb_pieces t)"
    "tb_entries t' ! i = tb_entries t ! i" "pieces_of i (tb_pieces t') = pieces_of i (tb_pieces t)"
    "\<And>f. f < length (tb_pieces t) \<Longrightarrow> tb_pieces t ! f = None \<Longrightarrow> tb_pieces t' ! f = None"
  using assms by (simp_all add: kept_def)

text \<open>A table without room: the fragment would not fit next to its own entry alone.\<close>

lemma no_room_outcome:
  assumes k: "kept i t t1" and t1: "table_ok t1" "oldest (Some i) 0 (tb_entries t1) None = None"
    and e: "entry_ok e (pieces_of i (tb_pieces t))" and room: "tb_used t1 + int (needed_bytes e f packet) > lim_Bytes (tb_limits t1)"
  shows "\<not> fits_alone t e f packet"
proof -
  have "tb_used t1 = tb_baseCost t1 + int (as_covered e)"
    using used_alone [OF t1] e keptD(7) [OF k] by simp
  then show ?thesis using room keptD(1,2) [OF k] by (simp add: fits_alone_def)
qed

text \<open>The parts of a table that no call on an open table changes.\<close>

definition same_setup :: "Table \<Rightarrow> Table \<Rightarrow> bool" where
  "same_setup t t' \<longleftrightarrow> tb_limits t' = tb_limits t \<and> tb_baseCost t' = tb_baseCost t \<and> tb_closed t' = tb_closed t"

lemma store_fragment_ok:
  assumes t: "table_ok t" "nonempty_but (Some i) t" and i: "i < length (tb_entries t)" "tb_entries t ! i = Some e"
    and f: "fragment_ok packet f" and c: "entry_conflict e f header = Some None" and s: "scan_pieces i f (tb_pieces t) = ScanClear"
    and parts: "int (as_parts e) < lim_Fragments (tb_limits t)"
  shows "\<exists>r t'. store_fragment t i e f packet = Some (r, t') \<and> table_ok t' \<and> nonempty_but None t' \<and> same_setup t t'
    \<and> store_outcome t i e f packet r t'"
proof -
  let ?e = "extend_entry e f packet" and ?len = "length (fg_payload f)"
  have e: "entry_ok e (pieces_of i (tb_pieces t))" using entries_okD [of t i e] t i by (simp add: table_ok_def)
  obtain r1 t1 where m: "make_room t i ?len = (r1, t1)" by fastforce
  note mk = make_room_kept [OF t m]
  note k1 = keptD [OF mk [THEN conjunct1]]
  have t1: "table_ok t1" "nonempty_but (Some i) t1" using mk by auto
  have i1: "i < length (tb_entries t1)" "tb_entries t1 ! i = Some e" using i k1 by auto
  show ?thesis
  proof (cases r1)
    case None
    have "\<not> (\<forall>x \<in> set (tb_pieces t1). x \<noteq> None)"
    proof
      assume "\<forall>x \<in> set (tb_pieces t1). x \<noteq> None"
      then have "length (pieces_of i (tb_pieces t)) = length (tb_pieces t)"
        using alone(2) [of t1 i] mk None k1 by simp
      moreover have "as_parts e = length (pieces_of i (tb_pieces t))" using e by (simp add: entry_ok_def)
      moreover have "length (tb_pieces t) = nat (lim_Fragments (tb_limits t))" "0 < lim_Fragments (tb_limits t)"
        using t(1) by (auto simp: table_ok_def limits_ok_def)
      ultimately show False using parts by (simp split: if_splits)
    qed
    then have "tb_used t1 + int (needed_bytes e f packet) > lim_Bytes (tb_limits t1)"
      using mk None by (auto simp: needed_bytes_def)
    then have "\<not> fits_alone t e f packet"
      using mk None e by (intro no_room_outcome [of i t t1]) auto
    then show ?thesis using m None drop_if_empty_ok [OF t1 i1] k1(1-3)
      by (auto simp: store_fragment_def Let_def store_outcome_def at_capacity_def same_setup_def)
  next
    case (Some fp)
    obtain ok t2 where r2: "(if is_complete ?e then copy_room t1 i (int (length (as_first ?e) + as_covered ?e)) (int ?len) else (True, t1)) = (ok, t2)"
      by fastforce
    have c2: "kept i t1 t2 \<and> table_ok t2 \<and> nonempty_but (Some i) t2 \<and> tb_used t2 \<le> tb_used t1"
      using r2 copy_room_kept [OF t1] t1 by (auto split: if_splits)
    note k2 = keptD [OF c2 [THEN conjunct1]]
    have t2: "table_ok t2" "nonempty_but (Some i) t2" using c2 by auto
    have i2: "i < length (tb_entries t2)" "tb_entries t2 ! i = Some e" using i1 k2 by auto
    have fp: "fp < length (tb_pieces t2)" "tb_pieces t2 ! fp = None" using mk Some k2 by auto
    have len: "int ?len \<le> lim_Bytes (tb_limits t2) - tb_used t2" using mk Some c2 k2 by auto
    have kt: "kept i t t2" using kept_trans mk c2 by blast
    show ?thesis
    proof (cases ok)
      case False
      then have full: "is_complete ?e" "copy_room t1 i (int (length (as_first ?e) + as_covered ?e)) (int ?len) = (False, t2)"
        using r2 by (auto split: if_splits)
      have "tb_used t2 + int (needed_bytes e f packet) > lim_Bytes (tb_limits t2)"
        using copy_room_kept [OF t1 full(2)] full(1) by (simp add: needed_bytes_def Let_def)
      then have "\<not> fits_alone t e f packet"
        using copy_room_kept [OF t1 full(2)] e by (intro no_room_outcome [OF kt]) auto
      then show ?thesis using m Some r2 False drop_if_empty_ok [OF t2 i2] keptD(1-3) [OF kt]
        by (auto simp: store_fragment_def Let_def store_outcome_def at_capacity_def same_setup_def)
    next
      case True
      define t3 where "t3 = t2\<lparr>tb_pieces := (tb_pieces t2)[fp := Some (piece_of i f)], tb_used := tb_used t2 + int ?len,
          tb_entries := (tb_entries t2)[i := Some ?e]\<rparr>"
      have st: "table_ok t3" "nonempty_but None t3" "entry_ok ?e (pieces_of i (tb_pieces t3))"
        "mset (pieces_of i (tb_pieces t3)) = add_mset (piece_of i f) (mset (pieces_of i (tb_pieces t)))"
        using store_with_room [OF t2 i2 f c s fp len keptD(7) [OF kt]] unfolding t3_def by auto
      have run: "store_fragment t i e f packet =
          (if \<not> is_complete ?e then Some (status_result Held, t3)
           else map_option (\<lambda>out. (\<lparr>res_Status = Complete, res_Packet = out, res_Notice = zeroNotice\<rparr>, clearEntry t3 i)) (assemble t3 i ?e (as_covered ?e)))"
        unfolding store_fragment_def Let_def m prod.case Some option.case r2 using True by (simp add: t3_def piece_of_def)
      have fits: "fits_alone t e f packet"
      proof -
        have "tb_baseCost t + int (as_covered e) \<le> tb_used t2"
          using t2(1) e keptD(2,7) [OF kt] held_bytes_ge [of i "tb_pieces t2"] by (simp add: table_ok_def limits_ok_def entry_ok_def)
        moreover have "tb_used t2 + int (needed_bytes e f packet) \<le> lim_Bytes (tb_limits t2)"
          using r2 True len copy_room_kept [OF t1, of i "int (length (as_first ?e) + as_covered ?e)" "int ?len" True t2]
          by (auto simp: needed_bytes_def Let_def split: if_splits)
        ultimately show ?thesis using keptD(1) [OF kt] by (simp add: fits_alone_def)
      qed
      show ?thesis
      proof (cases "is_complete ?e")
        case False
        then show ?thesis using run st fits i2 keptD(1-3) [OF kt]
          by (simp add: store_outcome_def status_result_def Let_def same_setup_def) (simp add: t3_def)
      next
        case comp: True
        then obtain out where out: "assemble t3 i ?e (as_covered ?e) = Some out" "reassembled ?e (pieces_of i (tb_pieces t3)) out"
          using assemble_value [OF st(3)] by (auto simp: is_complete_def)
        have "same_setup t t3" "i < length (tb_entries t3)" using keptD(1-3) [OF kt] i2 by (simp_all add: t3_def same_setup_def)
        then show ?thesis using run comp out st fits clear_ok [of t3 i] clear_nonempty [of None t3 i]
          by (auto simp: store_outcome_def Let_def same_setup_def)
      qed
    qed
  qed
qed

subsection \<open>One call of \<open>Process\<close>\<close>

text \<open>The call after its entry \<open>e\<close> at \<open>i\<close> is found.\<close>

definition process_entry :: "Table \<Rightarrow> nat \<Rightarrow> ipv4Assembly \<Rightarrow> fragment \<Rightarrow> uint8 list \<Rightarrow> (Result \<times> Table) option" where
  "process_entry t i e f packet =
     (case entry_conflict e f (take (fg_hlen f) packet) of
        None \<Rightarrow> None
      | Some (Some reason) \<Rightarrow> Some (rejected (noticeEntry e reason), clearEntry t i)
      | Some None \<Rightarrow>
          (case scan_pieces i f (tb_pieces t) of
             ScanConflict reason \<Rightarrow> Some (rejected (noticeEntry e reason), clearEntry t i)
           | ScanDuplicate \<Rightarrow>
               Some (status_result Duplicate, t\<lparr>tb_entries := (tb_entries t)[i := Some (e\<lparr>as_ecnMask := ecn_mask e f\<rparr>)]\<rparr>)
           | ScanClear \<Rightarrow>
               if \<not> fg_more f \<and> (case as_total e of None \<Rightarrow> False | Some tot \<Rightarrow> tot \<noteq> fg_end f)
               then Some (rejected (noticeEntry e ReasonConflict), clearEntry t i)
               else if int (as_parts e) \<ge> lim_Fragments (tb_limits t) then Some (at_capacity packet (fg_first f), t)
               else store_fragment t i e f packet))"

lemma Process_found:
  assumes "\<not> tb_closed t" and "parse_fragment packet = Some (Inr f)" and "find_entry t f packet now = (Inr i, t1)" and "tb_entries t1 ! i = Some e"
  shows "Process t packet now = process_entry t1 i e f packet"
  using assms by (simp add: Process_def process_entry_def Let_def)

lemma duplicate_ok:
  assumes "table_ok t" and "i < length (tb_entries t)" and "tb_entries t ! i = Some e"
  shows "table_ok (t\<lparr>tb_entries := (tb_entries t)[i := Some (e\<lparr>as_ecnMask := m\<rparr>)]\<rparr>)" (is "table_ok ?t")
proof -
  let ?e = "e\<lparr>as_ecnMask := m\<rparr>"
  have same: "entry_ok ?e ps = entry_ok e ps" for ps by (simp add: entry_ok_def)
  have "limits_ok ?t" using assms by (simp add: table_ok_def limits_ok_def)
  moreover have "owners_ok ?t" using assms by (auto simp: table_ok_def owners_ok_def nth_list_update)
  moreover have "entries_ok ?t" using assms same by (auto simp: table_ok_def entries_ok_def nth_list_update)
  moreover have "keys_ok ?t" by (rule keys_update [of t i e ?e]) (use assms in \<open>simp_all add: table_ok_def\<close>)
  ultimately show ?thesis by (simp add: table_ok_def)
qed

lemma scan_duplicate: "scan_pieces i f xs = ScanDuplicate \<Longrightarrow> pieces_of i xs \<noteq> []"
proof (induction xs)
  case (Cons x xs)
  then show ?case by (cases x) (auto simp: Let_def split: if_splits)
qed simp

lemma process_entry_ok:
  assumes t: "table_ok t" "nonempty_but (Some i) t" and i: "i < length (tb_entries t)" "tb_entries t ! i = Some e" and f: "fragment_ok packet f"
  shows "\<exists>r t'. process_entry t i e f packet = Some (r, t') \<and> table_ok t' \<and> nonempty_but None t' \<and> same_setup t t'
    \<and> (res_Status r = Complete \<longrightarrow> store_outcome t i e f packet r t')"
proof -
  have e: "entry_ok e (pieces_of i (tb_pieces t))" using entries_okD [of t i e] t i by (simp add: table_ok_def)
  have "options_ok (fg_copied f)" using f unfolding fragment_ok_def by blast
  then obtain c where c: "entry_conflict e f (take (fg_hlen f) packet) = Some c" using entry_conflict_total [OF e] by blast
  have clear: "table_ok (clearEntry t i)" "nonempty_but None (clearEntry t i)" using t by (simp_all add: clear_ok clear_nonempty_own)
  have held: "pieces_of i (tb_pieces t) \<noteq> [] \<Longrightarrow> nonempty_but None t" using t(2) by (auto simp: nonempty_but_def)
  show ?thesis
  proof (cases c)
    case (Some reason)
    then show ?thesis using c clear by (simp add: same_setup_def process_entry_def rejected_def)
  next
    case None
    show ?thesis
    proof (cases "scan_pieces i f (tb_pieces t)")
      case (ScanConflict reason)
      then show ?thesis using c None clear by (simp add: same_setup_def process_entry_def rejected_def)
    next
      case ScanDuplicate
      let ?t = "t\<lparr>tb_entries := (tb_entries t)[i := Some (e\<lparr>as_ecnMask := ecn_mask e f\<rparr>)]\<rparr>"
      have "nonempty_but None ?t" using held [OF scan_duplicate [OF ScanDuplicate]] i by (auto simp: nonempty_but_def nth_list_update)
      then show ?thesis using c None ScanDuplicate duplicate_ok [OF t(1) i] by (simp add: same_setup_def process_entry_def status_result_def)
    next
      case ScanClear
      show ?thesis
      proof (cases "\<not> fg_more f \<and> (case as_total e of None \<Rightarrow> False | Some tot \<Rightarrow> tot \<noteq> fg_end f)")
        case True
        then show ?thesis using c None ScanClear clear by (simp add: same_setup_def process_entry_def rejected_def)
      next
        case False
        show ?thesis
        proof (cases "int (as_parts e) \<ge> lim_Fragments (tb_limits t)")
          case True
          have "0 < lim_Fragments (tb_limits t)" using t(1) by (simp add: table_ok_def limits_ok_def)
          then have "pieces_of i (tb_pieces t) \<noteq> []" using True e by (auto simp: entry_ok_def)
          moreover have "process_entry t i e f packet = Some (at_capacity packet (fg_first f), t)"
            using c None ScanClear False True by (auto simp: process_entry_def)
          ultimately show ?thesis using t(1) held by (simp add: same_setup_def at_capacity_def)
        next
          case parts: False
          then have "process_entry t i e f packet = store_fragment t i e f packet"
            using c None ScanClear False by (auto simp: process_entry_def)
          then show ?thesis using store_fragment_ok [OF t i f c [unfolded None] ScanClear] parts by auto
        qed
      qed
    qed
  qed
qed

lemma Process_ok:
  assumes t: "frag_inv t"
  shows "\<exists>r t'. Process t packet now = Some (r, t') \<and> frag_inv t'"
proof (cases "tb_closed t")
  case True
  then show ?thesis using t by (simp add: Process_def)
next
  case open': False
  have ok: "table_ok t" "nonempty_but None t" using t by (auto simp: frag_inv_def)
  show ?thesis
  proof (cases packet rule: parse_fragment_cases)
    case (bad reason ptr first)
    then show ?thesis using t open' by (simp add: Process_def)
  next
    case (ok f)
    obtain r t1 where fe: "find_entry t f packet now = (r, t1)" by fastforce
    note fo = find_entry_ok [OF \<open>table_ok t\<close> \<open>nonempty_but None t\<close> fe]
    show ?thesis
    proof (cases r)
      case (Inl x)
      then show ?thesis using fo fe ok(1) open' by (simp add: Process_def frag_inv_def)
    next
      case (Inr i)
      then obtain e where e: "tb_entries t1 ! i = Some e" "i < length (tb_entries t1)" using fo by auto
      then show ?thesis
        using process_entry_ok [of t1 i e packet f] fo Inr ok open' Process_found [OF open' ok(1) fe [unfolded Inr] e(1)]
        by (auto simp: frag_inv_def same_setup_def)
    qed
  qed
qed

subsection \<open>The other operations\<close>

lemma go_div_le: "0 < b \<Longrightarrow> 0 < n \<Longrightarrow> n \<le> go_div a b \<Longrightarrow> n * b \<le> a"
proof -
  assume b: "0 < b" and n: "0 < n" "n \<le> go_div a b"
  have "0 \<le> a"
  proof (rule ccontr)
    assume "\<not> 0 \<le> a"
    then have "go_div a b \<le> 0" using b by (simp add: go_div_def sgn_if pos_imp_zdiv_nonneg_iff)
    then show False using n by simp
  qed
  then have "go_div a b = a div b" using b by (auto simp: go_div_def sgn_if)
  then have "n * b \<le> (a div b) * b" using n b by (simp add: mult_right_mono)
  also have "\<dots> \<le> a" using div_mult_mod_eq [of a b] pos_mod_sign [OF b, of a] by linarith
  finally show ?thesis .
qed

definition sizes_ok :: "Sizes \<Rightarrow> bool" where
  "sizes_ok sz = (0 < sz_Table sz \<and> 0 < sz_Assembly sz \<and> 0 < sz_Piece sz \<and> 0 < sz_Notice sz)"

lemma New_inv:
  assumes "sizes_ok sz" and "Table_New sz l = Inr t"
  shows "frag_inv t"
proof -
  let ?base = "sz_Table sz + lim_Entries l * sz_Assembly sz + lim_Fragments l * sz_Piece sz"
  have l: "0 < lim_Entries l" "0 < lim_Fragments l" "lim_Entries l \<le> go_div (lim_Bytes l - ?base) (sz_Notice sz)"
    and t: "t = \<lparr>tb_limits = l, tb_entries = replicate (nat (lim_Entries l)) None, tb_pieces = replicate (nat (lim_Fragments l)) None,
      tb_baseCost = ?base + lim_Entries l * sz_Notice sz, tb_used = ?base + lim_Entries l * sz_Notice sz, tb_evicted = 0, tb_closed = False\<rparr>"
    using assms(2) by (auto simp: Table_New_def Let_def not_less split: if_splits)
  have "lim_Entries l * sz_Notice sz \<le> lim_Bytes l - ?base"
    using go_div_le [OF _ l(1,3)] assms(1) by (simp add: sizes_ok_def)
  moreover have "held_bytes (replicate n None) = 0" for n by (induction n) (simp_all add: held_bytes_def)
  ultimately show ?thesis using l
    by (auto simp: t frag_inv_def table_ok_def limits_ok_def owners_ok_def entries_ok_def keys_ok_def nonempty_but_def)
qed

definition expired :: "int \<Rightarrow> ipv4Assembly option \<Rightarrow> bool" where
  "expired now x = (case x of None \<Rightarrow> False | Some e \<Rightarrow> as_deadline e \<le> now)"

lemma sweep_loop_ok:
  assumes "table_ok t" and "nonempty_but None t" and "sweep_loop now i xs t = (ns, t')"
  shows "table_ok t' \<and> nonempty_but None t' \<and> tb_closed t' = tb_closed t"
  using assms
proof (induction xs arbitrary: i t ns)
  case (Cons x xs)
  show ?case
  proof (cases "expired now x")
    case True
    then obtain e where e: "x = Some e" "as_deadline e \<le> now" by (auto simp: expired_def split: option.splits)
    obtain ns' where "sweep_loop now (Suc i) xs (clearEntry t i) = (ns', t')"
      using Cons.prems(3) e by (auto split: prod.splits)
    then show ?thesis using Cons.IH [of "clearEntry t i"] Cons.prems by (simp add: clear_ok clear_nonempty)
  next
    case False
    then have "sweep_loop now (Suc i) xs t = (ns, t')" using Cons.prems(3) by (auto simp: expired_def split: option.splits)
    then show ?thesis using Cons by blast
  qed
qed simp

lemma sweep_loop_exact:
  assumes "sweep_loop now i xs t = (ns, t')" and "drop i (tb_entries t) = xs" and "i \<le> length (tb_entries t)"
  shows "tb_entries t' = take i (tb_entries t) @ map (\<lambda>x. if expired now x then None else x) xs
    \<and> ns = map (\<lambda>x. noticeEntry (the x) ReasonExpired) (filter (expired now) xs)"
  using assms
proof (induction xs arbitrary: i t ns)
  case Nil
  then show ?case by simp
next
  case (Cons x xs)
  have i: "i < length (tb_entries t)" "tb_entries t ! i = x" "drop (Suc i) (tb_entries t) = xs"
    using Cons.prems(2,3) by (metis drop_all leI list.distinct(1)) (metis Cons.prems(2) nth_via_drop, metis Cons.prems(2) drop_Suc list.sel(3) tl_drop)
  show ?case
  proof (cases "expired now x")
    case True
    then obtain e where e: "x = Some e" "as_deadline e \<le> now" by (auto simp: expired_def split: option.splits)
    obtain ns' where s: "sweep_loop now (Suc i) xs (clearEntry t i) = (ns', t')" "ns = noticeEntry e ReasonExpired # ns'"
      using Cons.prems(1) e by (auto split: prod.splits)
    have "tb_entries t' = take (Suc i) (tb_entries (clearEntry t i)) @ map (\<lambda>x. if expired now x then None else x) xs
      \<and> ns' = map (\<lambda>x. noticeEntry (the x) ReasonExpired) (filter (expired now) xs)"
      by (rule Cons.IH [OF s(1)]) (use i in simp_all)
    then show ?thesis using i s(2) e True by (simp add: take_Suc_conv_app_nth)
  next
    case False
    then have "sweep_loop now (Suc i) xs t = (ns, t')" using Cons.prems(1) by (auto simp: expired_def split: option.splits)
    from Cons.IH [OF this i(3)] show ?thesis using i False by (simp add: take_Suc_conv_app_nth)
  qed
qed

theorem Sweep_exact:
  assumes "\<not> tb_closed t" and "Sweep t now = (ns, t')"
  shows "tb_entries t' = map (\<lambda>x. if expired now x then None else x) (tb_entries t)
    \<and> ns = map (\<lambda>x. noticeEntry (the x) ReasonExpired) (filter (expired now) (tb_entries t))"
  using assms sweep_loop_exact [of now 0 "tb_entries t" t ns t'] by (simp add: Sweep_def)

lemma Sweep_inv:
  assumes "frag_inv t" and "Sweep t now = (ns, t')"
  shows "frag_inv t'"
proof (cases "tb_closed t")
  case True
  then show ?thesis using assms by (simp add: Sweep_def)
next
  case False
  then show ?thesis using assms sweep_loop_ok [of t now 0 "tb_entries t" ns t'] by (simp add: Sweep_def frag_inv_def)
qed

lemma close_loop_ok:
  assumes "table_ok t" and "nonempty_but None t" and "drop i (tb_entries t) = xs" and "i \<le> length (tb_entries t)"
  shows "table_ok (close_loop i xs t) \<and> nonempty_but None (close_loop i xs t)
    \<and> tb_entries (close_loop i xs t) = take i (tb_entries t) @ map (\<lambda>_. None) xs"
  using assms
proof (induction xs arbitrary: i t)
  case Nil
  then show ?case by simp
next
  case (Cons x xs)
  let ?t = "if x \<noteq> None then clearEntry t i else t"
  have i: "i < length (tb_entries t)" "tb_entries t ! i = x" "drop (Suc i) (tb_entries t) = xs"
    using Cons.prems(3,4) by (metis drop_all leI list.distinct(1)) (metis Cons.prems(3) nth_via_drop, metis Cons.prems(3) drop_Suc list.sel(3) tl_drop)
  have "table_ok (close_loop (Suc i) xs ?t) \<and> nonempty_but None (close_loop (Suc i) xs ?t)
    \<and> tb_entries (close_loop (Suc i) xs ?t) = take (Suc i) (tb_entries ?t) @ map (\<lambda>_. None) xs"
    by (rule Cons.IH) (use Cons.prems i in \<open>simp_all add: clear_ok clear_nonempty\<close>)
  then show ?case using i by (simp add: take_Suc_conv_app_nth)
qed

lemma Table_Close_inv: "frag_inv t \<Longrightarrow> frag_inv (Table_Close t)"
proof -
  assume t: "frag_inv t"
  let ?c = "(close_loop 0 (tb_entries t) t)\<lparr>tb_closed := True\<rparr>"
  have "table_ok (close_loop 0 (tb_entries t) t) \<and> nonempty_but None (close_loop 0 (tb_entries t) t)
    \<and> tb_entries (close_loop 0 (tb_entries t) t) = map (\<lambda>_. None) (tb_entries t)"
    using close_loop_ok [of t 0 "tb_entries t"] t by (simp add: frag_inv_def)
  then show ?thesis using t
    by (auto simp: Table_Close_def frag_inv_def table_ok_def limits_ok_def owners_ok_def entries_ok_def keys_ok_def nonempty_but_def)
qed

text \<open>The steps of a table, and its invariant as the contract of a safe system.\<close>

inductive table_step :: "Table \<Rightarrow> Table \<Rightarrow> bool" where
  Processed: "Process t packet now = Some (r, t') \<Longrightarrow> table_step t t'"
| Swept: "Sweep t now = (ns, t') \<Longrightarrow> table_step t t'"
| Closes: "table_step t (Table_Close t)"

lemma table_step_inv:
  assumes "frag_inv t" and "table_step t t'"
  shows "frag_inv t'"
  using assms(2)
proof cases
  case (Processed packet now r)
  then show ?thesis using Process_ok [OF assms(1), of packet now] by auto
next
  case (Swept now ns)
  then show ?thesis using Sweep_inv assms(1) by blast
next
  case Closes
  then show ?thesis using Table_Close_inv assms(1) by simp
qed

interpretation frag: safe_system "\<lambda>t. \<exists>sz l. sizes_ok sz \<and> Table_New sz l = Inr t" table_step frag_inv
  by unfold_locales (auto intro: New_inv table_step_inv)

end
