(* ===== verification/Frag_Roundtrip.thy ===== *)
theory Frag_Roundtrip
  imports Frag_Process
begin

section \<open>Fragments of a datagram, in any order\<close>

text \<open>
  A list of packets that parse to the fragments of one datagram, in any order, is
  reassembled to its payload: each fragment but the last to arrive is held, and the
  last one completes the datagram.
\<close>

subsection \<open>The fragments of a datagram\<close>

type_synonym sent = "uint8 list \<times> fragment"

definition slice_of :: "uint8 list \<Rightarrow> fragment \<Rightarrow> bool" where
  "slice_of body f \<longleftrightarrow> fg_end f \<le> length body \<and> fg_payload f = take (length (fg_payload f)) (drop (fg_start f) body)
     \<and> (fg_more f \<longleftrightarrow> fg_end f < length body)"

definition frag_apart :: "fragment \<Rightarrow> fragment \<Rightarrow> bool" where
  "frag_apart f g \<longleftrightarrow> fg_end f \<le> fg_start g \<or> fg_end g \<le> fg_start f"

text \<open>
  The fragments of a datagram: they share the key and the copied options, are slices of the
  payload that do not overlap and cover it, their ECN fields agree, and the datagram with
  its first header is not longer than a packet can be.
\<close>

definition datagram :: "ipv4AssemblyKey \<Rightarrow> uint8 list \<Rightarrow> uint8 list \<Rightarrow> sent list \<Rightarrow> bool" where
  "datagram k c body xs \<longleftrightarrow>
     (\<forall>(p, f) \<in> set xs. parse_fragment p = Some (Inr f) \<and> fg_key f = k \<and> fg_copied f = c \<and> slice_of body f
        \<and> (fg_first f \<longrightarrow> fg_hlen f + length body \<le> 65535))
     \<and> sorted_wrt frag_apart (map snd xs)
     \<and> sum_list (map (\<lambda>x. length (fg_payload (snd x))) xs) = length body
     \<and> \<not> ((\<exists>x \<in> set xs. fg_ecn (snd x) AND 3 = 0) \<and> (\<exists>x \<in> set xs. fg_ecn (snd x) AND 3 = 3))"

lemma parse_ok: "parse_fragment p = Some (Inr f) \<Longrightarrow> fragment_ok p f"
  by (cases p rule: parse_fragment_cases) auto

lemma datagramD:
  assumes "datagram k c body xs" and "(p, f) \<in> set xs"
  shows "parse_fragment p = Some (Inr f)" "fragment_ok p f" "fg_key f = k" "fg_copied f = c" "slice_of body f"
    "fg_first f \<Longrightarrow> fg_hlen f + length body \<le> 65535" "fg_payload f \<noteq> []"
proof -
  have a: "parse_fragment p = Some (Inr f) \<and> fg_key f = k \<and> fg_copied f = c \<and> slice_of body f
      \<and> (fg_first f \<longrightarrow> fg_hlen f + length body \<le> 65535)"
    using assms unfolding datagram_def by blast
  then show "parse_fragment p = Some (Inr f)" "fg_key f = k" "fg_copied f = c" "slice_of body f"
    "fg_first f \<Longrightarrow> fg_hlen f + length body \<le> 65535" by blast+
  then show ok: "fragment_ok p f" using parse_ok by blast
  then show "fg_payload f \<noteq> []" unfolding fragment_ok_def by blast
qed

lemma slice_nth: "slice_of body f \<Longrightarrow> k < length (fg_payload f) \<Longrightarrow> fg_payload f ! k = body ! (fg_start f + k)"
  unfolding slice_of_def fg_end_def by (metis nth_take nth_drop le_add1 order_trans)

lemma ecn_bits: "(m OR 2 ^ unat (a AND 3)) AND (1 :: uint8) \<noteq> 0 \<longleftrightarrow> m AND 1 \<noteq> 0 \<or> a AND 3 = 0"
  "(m OR 2 ^ unat (a AND 3)) AND (8 :: uint8) \<noteq> 0 \<longleftrightarrow> m AND 8 \<noteq> 0 \<or> a AND 3 = (3 :: uint8)"
proof -
  have bit0: "x AND 1 \<noteq> 0 \<longleftrightarrow> bit x 0" and bit3: "x AND 8 \<noteq> 0 \<longleftrightarrow> bit x 3" for x :: uint8
    using and_exp_eq_0_iff_not_bit [of x 0] and_exp_eq_0_iff_not_bit [of x 3] by auto
  have "unat (a AND 3) = 3 \<longleftrightarrow> a AND 3 = 3" by (simp add: word_unat_eq_iff)
  moreover have "unat (a AND 3) = 0 \<longleftrightarrow> a AND 3 = 0" by (simp add: unat_eq_zero)
  ultimately show "(m OR 2 ^ unat (a AND 3)) AND (1 :: uint8) \<noteq> 0 \<longleftrightarrow> m AND 1 \<noteq> 0 \<or> a AND 3 = 0"
    "(m OR 2 ^ unat (a AND 3)) AND (8 :: uint8) \<noteq> 0 \<longleftrightarrow> m AND 8 \<noteq> 0 \<or> a AND 3 = (3 :: uint8)"
    unfolding bit0 bit3 by (auto simp: bit_or_iff bit_exp_iff)
qed

lemma same_shape_refl:
  assumes "options_ok c"
  shows "sameCopiedOptionShape c c = Some True"
  using assms
proof induction
  case Nil
  then show ?case by (subst sameCopiedOptionShape.simps) simp
next
  case (Option x c)
  obtain a b r where x: "x = a # b # r" using Option(1) by (cases x rule: list.exhaust; cases "tl x") auto
  have "unat b = length x" "b \<noteq> 0" using Option(1,2) x by auto
  then show ?case using Option.IH x by (subst sameCopiedOptionShape.simps) simp
qed

subsection \<open>The entry of the fragments received so far\<close>

definition gathered :: "ipv4AssemblyKey \<Rightarrow> int \<Rightarrow> sent list \<Rightarrow> ipv4Assembly" where
  "gathered k d xs = foldl (\<lambda>e (p, f). extend_entry e f p) (new_assembly k d) xs"

lemma gathered_simps [simp]:
  "gathered k d [] = new_assembly k d" "gathered k d (xs @ [(p, f)]) = extend_entry (gathered k d xs) f p"
  by (simp_all add: gathered_def)

lemma gathered_fixed: "as_key (gathered k d xs) = k" "as_deadline (gathered k d xs) = d" "as_parts (gathered k d xs) = length xs"
  "as_covered (gathered k d xs) = sum_list (map (\<lambda>x. length (fg_payload (snd x))) xs)"
  by (induction xs rule: rev_induct) (auto simp: new_assembly_def extend_entry_def)

lemma gathered_first:
  "(\<forall>(p, f) \<in> set xs. fg_first f \<longrightarrow> take (fg_hlen f) p \<noteq> []) \<Longrightarrow>
   (as_first (gathered k d xs) = [] \<longleftrightarrow> (\<forall>x \<in> set xs. \<not> fg_first (snd x)))
   \<and> (as_first (gathered k d xs) \<noteq> [] \<longrightarrow> (\<exists>(p, f) \<in> set xs. fg_first f \<and> as_first (gathered k d xs) = take (fg_hlen f) p))"
proof (induction xs rule: rev_induct)
  case (snoc x xs)
  obtain p f where x: "x = (p, f)" by (cases x)
  show ?case
  proof (cases "fg_first f")
    case True
    then show ?thesis using snoc.prems by (auto simp: x extend_entry_def)
  next
    case False
    then show ?thesis using snoc by (simp add: x extend_entry_def)
  qed
qed (simp add: new_assembly_def)

lemma gathered_total:
  "(\<forall>x \<in> set xs. slice_of body (snd x)) \<Longrightarrow>
   as_total (gathered k d xs) = (if \<forall>x \<in> set xs. fg_more (snd x) then None else Some (length body))"
proof (induction xs rule: rev_induct)
  case (snoc x xs)
  obtain p f where x: "x = (p, f)" by (cases x)
  show ?case
  proof (cases "fg_more f")
    case True
    then show ?thesis using snoc by (simp add: x extend_entry_def)
  next
    case False
    then have "fg_end f = length body" using snoc.prems by (simp add: x slice_of_def)
    then show ?thesis using False by (simp add: x extend_entry_def)
  qed
qed (simp add: new_assembly_def)

lemma gathered_copied:
  "(\<forall>x \<in> set xs. fg_copied (snd x) = c) \<Longrightarrow> as_copied (gathered k d xs) = (if xs = [] then None else Some c)"
  by (induction xs rule: rev_induct) (auto simp: new_assembly_def extend_entry_def)

lemma gathered_ecn:
  "(as_ecnMask (gathered k d xs) AND 1 \<noteq> 0 \<longleftrightarrow> (\<exists>x \<in> set xs. fg_ecn (snd x) AND 3 = 0))
   \<and> (as_ecnMask (gathered k d xs) AND 8 \<noteq> 0 \<longleftrightarrow> (\<exists>x \<in> set xs. fg_ecn (snd x) AND 3 = 3))"
proof (induction xs rule: rev_induct)
  case (snoc x xs)
  obtain p f where "x = (p, f)" by (cases x)
  then show ?case using snoc by (simp add: extend_entry_def ecn_mask_def ecn_bits) blast
qed (simp add: new_assembly_def)

lemma gathered_facts:
  fixes dl :: int
  assumes d: "datagram k c body (ys @ zs)"
  defines "e \<equiv> gathered k dl ys"
  shows "as_first e = [] \<longleftrightarrow> (\<forall>x \<in> set ys. \<not> fg_first (snd x))"
    "as_first e \<noteq> [] \<Longrightarrow> \<exists>(p, f) \<in> set ys. fg_first f \<and> as_first e = take (fg_hlen f) p \<and> length (as_first e) = fg_hlen f"
    "as_total e = (if \<forall>x \<in> set ys. fg_more (snd x) then None else Some (length body))"
    "as_copied e = (if ys = [] then None else Some c)"
proof -
  have ok: "fragment_ok p f \<and> slice_of body f \<and> fg_copied f = c" if "(p, f) \<in> set ys" for p f
    using datagramD [OF d, of p f] that by simp
  have len: "length (take (fg_hlen f) p) = fg_hlen f \<and> take (fg_hlen f) p \<noteq> []" if "(p, f) \<in> set ys" for p f
  proof -
    have f: "fragment_ok p f" using ok [OF that] by simp
    have "20 \<le> fg_hlen f" using f unfolding fragment_ok_def by blast
    then show ?thesis using fragment_packet_length [OF f] by auto
  qed
  have ne: "\<forall>(p, f) \<in> set ys. fg_first f \<longrightarrow> take (fg_hlen f) p \<noteq> []" using len by blast
  show "as_first e = [] \<longleftrightarrow> (\<forall>x \<in> set ys. \<not> fg_first (snd x))"
    using gathered_first [OF ne] unfolding e_def by blast
  show "\<exists>(p, f) \<in> set ys. fg_first f \<and> as_first e = take (fg_hlen f) p \<and> length (as_first e) = fg_hlen f" if ne': "as_first e \<noteq> []"
  proof -
    obtain p f where "(p, f) \<in> set ys" "fg_first f" "as_first e = take (fg_hlen f) p"
      using gathered_first [OF ne, of k dl] ne' unfolding e_def by blast
    then show ?thesis using len by fastforce
  qed
  show "as_total e = (if \<forall>x \<in> set ys. fg_more (snd x) then None else Some (length body))"
    unfolding e_def by (rule gathered_total) (use ok in force)
  show "as_copied e = (if ys = [] then None else Some c)"
    unfolding e_def by (rule gathered_copied) (use ok in force)
qed

subsection \<open>One more fragment\<close>

lemma scan_all_apart:
  assumes "\<forall>p \<in> set (pieces_of i xs). (fg_end f \<le> pc_start p \<or> pc_end p \<le> fg_start f) \<and> (fg_more f \<or> pc_end p \<le> fg_end f)
    \<and> (fg_first f \<longrightarrow> pc_end p \<le> 65535 - fg_hlen f)" and "fg_payload f \<noteq> []"
  shows "scan_pieces i f xs = ScanClear"
  using assms(1)
proof (induction xs)
  case (Cons x xs)
  show ?case
  proof (cases x)
    case None
    then show ?thesis using Cons by simp
  next
    case (Some p)
    have IH: "scan_pieces i f xs = ScanClear" using Cons Some by (cases "pc_owner p = i") auto
    show ?thesis
    proof (cases "pc_owner p = i")
      case True
      have "fg_start f < fg_end f" using assms(2) by (simp add: fg_end_def)
      moreover have "fg_end f \<le> pc_start p \<or> pc_end p \<le> fg_start f" "fg_more f \<or> pc_end p \<le> fg_end f"
        "fg_first f \<longrightarrow> pc_end p \<le> 65535 - fg_hlen f" using Cons.prems Some True by auto
      ultimately have "\<not> (fg_start f = pc_start p \<and> fg_end f = pc_end p)" "\<not> (fg_start f < pc_end p \<and> pc_start p < fg_end f)"
        "\<not> ((\<not> fg_more f \<and> pc_end p > fg_end f) \<or> (fg_first f \<and> pc_end p > 65535 - fg_hlen f))"
        by linarith+
      then show ?thesis unfolding pc_end_def Some scan_pieces.simps Let_def option.case using IH True by (simp only: if_False simp_thms) auto
    qed (simp add: IH Some)
  qed
qed simp

lemma datagram_next:
  assumes d: "datagram k c body (ys @ (p, f) # zs)" and g: "g \<in> snd ` set ys"
  shows "fg_end f \<le> fg_start g \<or> fg_end g \<le> fg_start f" "fg_first f \<Longrightarrow> \<not> fg_first g" "\<not> fg_more f \<Longrightarrow> fg_more g"
    "fg_end g \<le> length body" "fg_end f \<le> length body"
proof -
  obtain q where q: "(q, g) \<in> set (ys @ (p, f) # zs)" using g by fastforce
  have pf: "(p, f) \<in> set (ys @ (p, f) # zs)" by simp
  have pos: "fg_start f < fg_end f" "fg_start g < fg_end g"
    using datagramD(7) [OF d pf] datagramD(7) [OF d q] by (simp_all add: fg_end_def)
  have "sorted_wrt frag_apart (map snd ys @ f # map snd zs)" using d by (simp add: datagram_def)
  then have "frag_apart g f" using g by (auto simp: sorted_wrt_append)
  then show ap: "fg_end f \<le> fg_start g \<or> fg_end g \<le> fg_start f" by (auto simp: frag_apart_def)
  show "fg_first f \<Longrightarrow> \<not> fg_first g" using ap pos by (auto simp: fg_first_def)
  show "fg_end g \<le> length body" "fg_end f \<le> length body"
    using datagramD(5) [OF d pf] datagramD(5) [OF d q] by (simp_all add: slice_of_def)
  show "\<not> fg_more f \<Longrightarrow> fg_more g"
    using ap pos datagramD(5) [OF d pf] datagramD(5) [OF d q] by (auto simp: slice_of_def)
qed

lemma next_no_conflict:
  assumes d: "datagram k c body (ys @ (p, f) # zs)"
  shows "entry_conflict (gathered k dl ys) f (take (fg_hlen f) p) = Some None"
proof -
  let ?e = "gathered k dl ys"
  have pf: "(p, f) \<in> set (ys @ (p, f) # zs)" by simp
  note g = gathered_facts [OF d, of dl]
  note n = datagram_next [OF d]
  have fl: "fg_end f \<le> length body" using datagramD(5) [OF d pf] by (simp add: slice_of_def)
  have "as_first ?e = []" if "fg_first f" using g(1) n(2) that by (auto simp: image_iff)
  then have a: "(if fg_first f \<and> as_first ?e \<noteq> [] then sameFirstIPv4Header (as_first ?e) (take (fg_hlen f) p) else Some True) = Some True"
    by auto
  have tot: "as_total ?e = Some tot \<Longrightarrow> tot = length body" for tot using g(3) by (auto split: if_splits)
  have b: "\<not> (fg_first f \<and> (case as_total ?e of None \<Rightarrow> False | Some tot \<Rightarrow> tot > 65535 - fg_hlen f))"
    using datagramD(6) [OF d pf] tot by (auto split: option.splits)
  have c: "\<not> (as_first ?e \<noteq> [] \<and> fg_end f > 65535 - length (as_first ?e))"
  proof
    assume h: "as_first ?e \<noteq> [] \<and> fg_end f > 65535 - length (as_first ?e)"
    then obtain q h' where q: "(q, h') \<in> set ys" "fg_first h'" "length (as_first ?e) = fg_hlen h'" using g(2) by blast
    then have "fg_hlen h' + length body \<le> 65535" using datagramD(6) [OF d, of q h'] by simp
    then show False using h q(3) fl by linarith
  qed
  have "fg_more f \<or> fg_end f = length body" using datagramD(5) [OF d pf] by (auto simp: slice_of_def)
  then have t: "\<not> (case as_total ?e of None \<Rightarrow> False | Some tot \<Rightarrow> fg_end f > tot \<or> (\<not> fg_more f \<and> fg_end f \<noteq> tot))"
    using tot fl by (auto split: option.splits)
  have "options_ok c" using datagramD(2,4) [OF d pf] unfolding fragment_ok_def by blast
  then have s: "(case as_copied ?e of None \<Rightarrow> Some True | Some c' \<Rightarrow> sameCopiedOptionShape (fg_copied f) c') = Some True"
    using g(4) datagramD(4) [OF d pf] same_shape_refl by simp
  have "\<not> ((\<exists>x \<in> set (ys @ (p, f) # zs). fg_ecn (snd x) AND 3 = 0) \<and> (\<exists>x \<in> set (ys @ (p, f) # zs). fg_ecn (snd x) AND 3 = 3))"
    using d unfolding datagram_def by blast
  then have ecn: "\<not> (ecn_mask ?e f AND 1 \<noteq> 0 \<and> ecn_mask ?e f AND 8 \<noteq> 0)"
    using gathered_ecn [of k dl ys] by (simp add: ecn_mask_def ecn_bits) blast
  show ?thesis unfolding entry_conflict_def a using b c t s ecn by (simp del: not_less)
qed

text \<open>The datagram is complete when its last fragment is there, and not before.\<close>

lemma all_bytes_sent:
  assumes d: "datagram k c body xs" and j: "j < length body"
  shows "\<exists>(p, f) \<in> set xs. fg_start f \<le> j \<and> j < fg_end f"
proof -
  let ?ps = "map (\<lambda>x. piece_of 0 (snd x)) xs"
  have e: "pc_end (piece_of 0 f) = fg_end f" "pc_start (piece_of 0 f) = fg_start f" for f
    by (simp_all add: pc_end_def piece_of_def fg_end_def)
  have "sorted_wrt frag_apart (map snd xs)" using d by (simp add: datagram_def)
  then have "sorted_wrt apart ?ps" by (simp add: sorted_wrt_map apart_def frag_apart_def e)
  moreover have "\<forall>p \<in> set ?ps. pc_end p \<le> length body" using datagramD(5) [OF d] by (auto simp: e slice_of_def)
  moreover have "sum_list (map (\<lambda>p. length (pc_data p)) ?ps) = length body"
    using d by (simp add: datagram_def piece_of_def comp_def)
  ultimately obtain p where "p \<in> set ?ps" "pc_start p \<le> j" "j < pc_end p" using tile_byte [OF _ _ _ j] by blast
  then show ?thesis by (fastforce simp: e)
qed

lemma gathered_complete:
  assumes d: "datagram k c body (xs @ zs)" and ne: "xs \<noteq> []"
  shows "is_complete (gathered k dl xs) \<longleftrightarrow> zs = []"
proof
  have sum: "sum_list (map (\<lambda>x. length (fg_payload (snd x))) xs) + sum_list (map (\<lambda>x. length (fg_payload (snd x))) zs) = length body"
    using d by (simp add: datagram_def)
  note g = gathered_facts [OF d, of dl]
  {
    assume "is_complete (gathered k dl xs)"
    then have "sum_list (map (\<lambda>x. length (fg_payload (snd x))) xs) = length body"
      using g(3) by (auto simp: is_complete_def gathered_fixed split: if_splits)
    then have "\<forall>x \<in> set zs. fg_payload (snd x) = []" using sum by simp
    moreover have "\<forall>x \<in> set zs. fg_payload (snd x) \<noteq> []" using datagramD(7) [OF d] by force
    ultimately show "zs = []" by (cases zs) auto
  }
  assume zs: "zs = []"
  obtain p f where "(p, f) \<in> set xs" using ne by (cases xs) auto
  then have "body \<noteq> []" using datagramD(5,7) [OF d, of p f] by (auto simp: slice_of_def fg_end_def)
  then have b: "0 < length body" "length body - 1 < length body" by auto
  have d': "datagram k c body xs" using d zs by simp
  obtain q h where q: "(q, h) \<in> set xs" "fg_start h \<le> 0" using all_bytes_sent [OF d' b(1)] by auto
  then have "fg_first h" by (simp add: fg_first_def)
  then have first: "as_first (gathered k dl xs) \<noteq> []" using g(1) q(1) by force
  obtain r l where r: "(r, l) \<in> set xs" "length body - 1 < fg_end l" using all_bytes_sent [OF d' b(2)] by auto
  then have "\<not> fg_more l" using datagramD(5) [OF d', of r l] by (auto simp: slice_of_def)
  then have "as_total (gathered k dl xs) = Some (length body)" using g(3) r(1) by force
  then show "is_complete (gathered k dl xs)" using first sum zs by (simp add: is_complete_def gathered_fixed)
qed

lemma process_next:
  assumes d: "datagram k c body (ys @ (p, f) # zs)"
    and t: "table_ok t" "nonempty_but (Some i) t" and i: "i < length (tb_entries t)" "tb_entries t ! i = Some (gathered k dl ys)"
    and ps: "mset (pieces_of i (tb_pieces t)) = mset (map (\<lambda>x. piece_of i (snd x)) ys)"
    and room: "tb_baseCost t + int (2 * length body + 60) \<le> lim_Bytes (tb_limits t)"
    and parts: "int (length (ys @ (p, f) # zs)) \<le> lim_Fragments (tb_limits t)"
  shows "\<exists>r t'. process_entry t i (gathered k dl ys) f p = Some (r, t') \<and> table_ok t' \<and> nonempty_but None t' \<and> same_setup t t'
    \<and> (if zs = [] then res_Status r = Complete
         \<and> (\<exists>qs. mset qs = mset (map (\<lambda>x. piece_of i (snd x)) (ys @ [(p, f)])) \<and> reassembled (gathered k dl (ys @ [(p, f)])) qs (res_Packet r))
       else res_Status r = Held \<and> tb_entries t' ! i = Some (gathered k dl (ys @ [(p, f)]))
         \<and> length (tb_entries t') = length (tb_entries t)
         \<and> mset (pieces_of i (tb_pieces t')) = mset (map (\<lambda>x. piece_of i (snd x)) (ys @ [(p, f)])))"
proof -
  let ?e = "gathered k dl ys" and ?e' = "gathered k dl (ys @ [(p, f)])"
  have pf: "(p, f) \<in> set (ys @ (p, f) # zs)" by simp
  note ok = datagramD [OF d pf]
  have d': "datagram k c body ((ys @ [(p, f)]) @ zs)" using d by simp
  note c = next_no_conflict [OF d, of dl]
  have s: "scan_pieces i f (tb_pieces t) = ScanClear"
  proof (rule scan_all_apart [OF _ ok(7)], intro ballI)
    fix q assume "q \<in> set (pieces_of i (tb_pieces t))"
    then obtain g where g: "g \<in> snd ` set ys" "q = piece_of i g" using mset_eq_setD [OF ps] by auto
    have e: "pc_end q = fg_end g" "pc_start q = fg_start g" by (simp_all add: g(2) pc_end_def piece_of_def fg_end_def)
    show "(fg_end f \<le> pc_start q \<or> pc_end q \<le> fg_start f) \<and> (fg_more f \<or> pc_end q \<le> fg_end f)
      \<and> (fg_first f \<longrightarrow> pc_end q \<le> 65535 - fg_hlen f)"
      using datagram_next [OF d g(1)] ok(5,6) unfolding e slice_of_def by auto
  qed
  have "fg_more f \<or> fg_end f = length body" using ok(5) by (auto simp: slice_of_def)
  then have tot: "\<not> (\<not> fg_more f \<and> (case as_total ?e of None \<Rightarrow> False | Some tot \<Rightarrow> tot \<noteq> fg_end f))"
    using gathered_facts(3) [OF d, of dl] by (auto split: if_splits)
  have few: "int (as_parts ?e) < lim_Fragments (tb_limits t)" using parts by (simp add: gathered_fixed)
  have run: "process_entry t i ?e f p = store_fragment t i ?e f p"
    unfolding process_entry_def c option.case s scan.case if_not_P [OF tot] using few by simp
  obtain r t' where r: "store_fragment t i ?e f p = Some (r, t')" "table_ok t'" "nonempty_but None t'" "same_setup t t'"
    "store_outcome t i ?e f p r t'"
    using store_fragment_ok [OF t i ok(2) c s few] by blast
  have comp: "is_complete ?e' \<longleftrightarrow> zs = []" using gathered_complete [OF d'] by simp
  have fits: "fits_alone t ?e f p"
  proof -
    have sum: "as_covered ?e + length (fg_payload f) \<le> length body" "as_covered ?e' \<le> length body"
      using d by (simp_all add: datagram_def gathered_fixed del: gathered_simps)
    have "length (as_first ?e') \<le> 60"
    proof (cases "as_first ?e' = []")
      case False
      then obtain q g where q: "(q, g) \<in> set (ys @ [(p, f)])" "length (as_first ?e') = fg_hlen g"
        using gathered_facts(2) [OF d' False] by blast
      then have "fragment_ok q g" using datagramD(2) [OF d', of q g] by auto
      then show ?thesis using q(2) unfolding fragment_ok_def by simp
    qed simp
    then show ?thesis using sum room by (simp add: fits_alone_def needed_bytes_def Let_def)
  qed
  have len: "length (tb_entries t') = length (tb_entries t)"
    using r(2,4) t(1) by (simp add: table_ok_def limits_ok_def same_setup_def)
  show ?thesis
  proof (cases "zs = []")
    case True
    then have "res_Status r = Complete" using r(5) comp fits by (auto simp: store_outcome_def Let_def split: FragStatus.splits)
    then show ?thesis using r run True ps by (auto simp: store_outcome_def Let_def)
  next
    case False
    then have "res_Status r = Held" using r(5) comp fits by (auto simp: store_outcome_def Let_def split: FragStatus.splits)
    then show ?thesis using r run False ps len by (auto simp: store_outcome_def Let_def)
  qed
qed

subsection \<open>The whole datagram\<close>

fun feed :: "Table \<Rightarrow> (uint8 list \<times> int) list \<Rightarrow> (Result list \<times> Table) option" where
  "feed t [] = Some ([], t)"
| "feed t ((p, now) # xs) =
     (case Process t p now of
        None \<Rightarrow> None
      | Some (r, t') \<Rightarrow> map_option (\<lambda>(rs, t''). (r # rs, t'')) (feed t' xs))"

text \<open>The completed datagram: the first header with its length, flags and checksum rewritten, and the whole payload.\<close>

definition whole_datagram :: "uint8 list \<Rightarrow> sent list \<Rightarrow> uint8 list \<Rightarrow> bool" where
  "whole_datagram body xs out \<longleftrightarrow>
     (\<exists>h. out = h @ body \<and> ChecksumOK h = Some True \<and> Uint16_at out 2 = word_of_nat (length out) \<and> out ! 6 = 0 \<and> out ! 7 = 0
        \<and> (\<exists>(p, f) \<in> set xs. fg_first f \<and> length h = fg_hlen f \<and> (\<forall>j < length h. j \<notin> {1, 2, 3, 6, 7, 10, 11} \<longrightarrow> h ! j = p ! j)))"

lemma reassembled_whole:
  assumes d: "datagram k c body xs" and ne: "xs \<noteq> []" and qs: "mset qs = mset (map (\<lambda>x. piece_of i (snd x)) xs)"
    and re: "reassembled (gathered k dl xs) qs out"
  shows "whole_datagram body xs out"
proof -
  let ?e = "gathered k dl xs"
  obtain h body' where o: "out = h @ body'" "length h = length (as_first ?e)" "length body' = as_covered ?e"
    "ChecksumOK h = Some True" "Uint16_at out 2 = word_of_nat (length out)" "out ! 6 = 0" "out ! 7 = 0"
    "\<forall>j < length h. j \<notin> {1, 2, 3, 6, 7, 10, 11} \<longrightarrow> h ! j = as_first ?e ! j"
    "\<forall>j < length body'. \<exists>q \<in> set qs. j \<in> bytes_of q"
    "\<forall>q \<in> set qs. \<forall>j \<in> bytes_of q. body' ! j = pc_data q ! (j - pc_start q)"
    using re unfolding reassembled_def by blast
  have d0: "datagram k c body (xs @ [])" using d by simp
  have "is_complete ?e" using gathered_complete [OF d0 ne] by simp
  then have ne': "as_first ?e \<noteq> []" by (simp add: is_complete_def)
  obtain p f where first: "(p, f) \<in> set xs" "fg_first f" "as_first ?e = take (fg_hlen f) p" "length (as_first ?e) = fg_hlen f"
    using gathered_facts(2) [OF d0 ne'] by blast
  have "body' = body"
  proof (rule nth_equalityI)
    show len: "length body' = length body" using o(3) d by (simp add: gathered_fixed datagram_def)
    fix j assume j: "j < length body'"
    then obtain q where q: "q \<in> set qs" "j \<in> bytes_of q" using o(9) by blast
    then obtain r g where g: "(r, g) \<in> set xs" "q = piece_of i g" using mset_eq_setD [OF qs] by auto
    have "fg_start g \<le> j" "j - fg_start g < length (fg_payload g)"
      using q(2) by (auto simp: g(2) bytes_of_def pc_end_def piece_of_def)
    then show "body' ! j = body ! j"
      using o(10) q slice_nth [OF datagramD(5) [OF d g(1)], of "j - fg_start g"] by (simp add: g(2) piece_of_def)
  qed
  then show ?thesis unfolding whole_datagram_def using o first by (intro exI [of _ h] conjI bexI [of _ "(p, f)"]) auto
qed

lemma find_known:
  assumes t: "table_ok t" and i: "i < length (tb_entries t)" "tb_entries t ! i = Some e" and k: "as_key e = fg_key f" and now: "now < as_deadline e"
  shows "find_entry t f packet now = (Inr i, t)"
proof -
  have "has_key (fg_key f) (tb_entries t ! i)" using i(2) k by (simp add: has_key_def)
  then obtain j where j: "index_of (has_key (fg_key f)) (tb_entries t) = Some j"
    using index_of_None [of "has_key (fg_key f)" "tb_entries t"] i(1) by (metis not_None_eq nth_mem)
  then have h: "j < length (tb_entries t)" "has_key (fg_key f) (tb_entries t ! j)" using index_of_Some by auto
  then obtain e' where "tb_entries t ! j = Some e'" "as_key e' = fg_key f" by (auto simp: has_key_def split: option.splits)
  then have "j = i" using t i k h(1) unfolding table_ok_def keys_ok_def by metis
  then show ?thesis using j i now by (simp add: find_entry_def)
qed

text \<open>A key that is not in the table gets a new entry, for which another may have to go.\<close>

lemma find_new:
  assumes t: "table_ok t" "nonempty_but None t" and new: "\<forall>x \<in> set (tb_entries t). \<not> has_key (fg_key f) x"
  shows "\<exists>i t1. find_entry t f packet now = (Inr i, t1) \<and> same_setup t t1 \<and> pieces_of i (tb_pieces t1) = []
    \<and> tb_entries t1 ! i = Some (new_assembly (fg_key f) (now + lim_Lifetime (tb_limits t)))"
proof -
  have k: "index_of (has_key (fg_key f)) (tb_entries t) = None" using new by (simp add: index_of_None)
  have pos: "0 < length (tb_entries t)" using t(1) by (simp add: table_ok_def limits_ok_def)
  show ?thesis
  proof (cases "index_of (\<lambda>x. x = None) (tb_entries t)")
    case (Some i)
    then have "i < length (tb_entries t)" "tb_entries t ! i = None" using index_of_Some by auto
    then show ?thesis using k Some t(1) unowned [of t i] by (simp add: find_entry_def Let_def same_setup_def table_ok_def)
  next
    case None
    then have "tb_entries t ! 0 \<noteq> None" using pos by (simp add: index_of_None)
    then obtain v where v: "oldest None 0 (tb_entries t) None = Some v" using oldest_None [of None 0 "tb_entries t" 0] pos by blast
    then have "v < length (tb_entries t)" using oldest_Some [OF v] by auto
    then show ?thesis using k None v by (simp add: find_entry_def Let_def same_setup_def evictOldestLocked_def)
  qed
qed

lemma feed_rest:
  assumes "datagram k c body (ys @ (p, f) # zs)" and "length ns = length zs" and "\<forall>m \<in> set ns. m < dl" and "\<not> tb_closed t"
    and "find_entry t f p n = (Inr i, t1)" and "same_setup t t1"
    and "table_ok t1" "nonempty_but (Some i) t1" "i < length (tb_entries t1)" "tb_entries t1 ! i = Some (gathered k dl ys)"
    and "mset (pieces_of i (tb_pieces t1)) = mset (map (\<lambda>x. piece_of i (snd x)) ys)"
    and "tb_baseCost t1 + int (2 * length body + 60) \<le> lim_Bytes (tb_limits t1)" "int (length (ys @ (p, f) # zs)) \<le> lim_Fragments (tb_limits t1)"
  shows "\<exists>rs r t'. feed t (zip (map fst ((p, f) # zs)) (n # ns)) = Some (rs @ [r], t') \<and> (\<forall>x \<in> set rs. res_Status x = Held)
    \<and> res_Status r = Complete \<and> whole_datagram body (ys @ (p, f) # zs) (res_Packet r)"
  using assms
proof (induction zs arbitrary: ys p f n ns t t1)
  case Nil
  have pf: "(p, f) \<in> set (ys @ (p, f) # [])" by simp
  have run: "Process t p n = process_entry t1 i (gathered k dl ys) f p"
    by (rule Process_found [OF Nil.prems(4) datagramD(1) [OF Nil.prems(1) pf] Nil.prems(5,10)])
  obtain r t' qs where r: "process_entry t1 i (gathered k dl ys) f p = Some (r, t')" "res_Status r = Complete"
    "mset qs = mset (map (\<lambda>x. piece_of i (snd x)) (ys @ [(p, f)]))" "reassembled (gathered k dl (ys @ [(p, f)])) qs (res_Packet r)"
    using process_next [OF Nil.prems(1,7-13)] by auto
  then have "whole_datagram body (ys @ [(p, f)]) (res_Packet r)" using Nil.prems(1) by (intro reassembled_whole [of k c]) simp_all
  then show ?case using r run Nil.prems(2) by simp
next
  case (Cons z zs)
  obtain q g where z: "z = (q, g)" by (cases z)
  obtain m ms where ns: "ns = m # ms" "length ms = length zs" using Cons.prems(2) by (cases ns) auto
  have pf: "(p, f) \<in> set (ys @ (p, f) # z # zs)" by simp
  have run: "Process t p n = process_entry t1 i (gathered k dl ys) f p"
    by (rule Process_found [OF Cons.prems(4) datagramD(1) [OF Cons.prems(1) pf] Cons.prems(5,10)])
  obtain r t' where r: "process_entry t1 i (gathered k dl ys) f p = Some (r, t')" "table_ok t'" "nonempty_but None t'" "same_setup t1 t'"
    "res_Status r = Held" "tb_entries t' ! i = Some (gathered k dl (ys @ [(p, f)]))" "length (tb_entries t') = length (tb_entries t1)"
    "mset (pieces_of i (tb_pieces t')) = mset (map (\<lambda>x. piece_of i (snd x)) (ys @ [(p, f)]))"
    using process_next [OF Cons.prems(1,7-13)] by auto
  have d: "datagram k c body ((ys @ [(p, f)]) @ (q, g) # zs)" using Cons.prems(1) z by simp
  have i: "i < length (tb_entries t')" using Cons.prems(9) r(7) by simp
  have fe: "find_entry t' g q m = (Inr i, t')"
    using Cons.prems(3) ns datagramD(3) [OF d, of q g] by (intro find_known [OF r(2) i r(6)]) (simp_all only: gathered_fixed, simp_all)
  have "\<exists>rs x t''. feed t' (zip (map fst ((q, g) # zs)) (m # ms)) = Some (rs @ [x], t'') \<and> (\<forall>y \<in> set rs. res_Status y = Held)
      \<and> res_Status x = Complete \<and> whole_datagram body ((ys @ [(p, f)]) @ (q, g) # zs) (res_Packet x)"
    using Cons.prems(3,4,6,12,13) ns z r(4) same_setup_def
    by (intro Cons.IH [OF d ns(2) _ _ fe _ r(2) nonempty_weaken [OF r(3)] i r(6,8)]) (simp_all add: same_setup_def)
  then obtain rs x t'' where x: "feed t' (zip (map fst ((q, g) # zs)) (m # ms)) = Some (rs @ [x], t'')" "\<forall>y \<in> set rs. res_Status y = Held"
    "res_Status x = Complete" "whole_datagram body (ys @ (p, f) # z # zs) (res_Packet x)" using z by auto
  then show ?case using r(1,5) run ns z by (intro exI [of _ "r # rs"]) auto
qed

lemma feed_datagram:
  assumes d: "datagram k c body xs" and ne: "xs \<noteq> []" and n: "length nows = length xs" "\<forall>n \<in> set nows. n < hd nows + lim_Lifetime (tb_limits t)"
    and t: "frag_inv t" "\<not> tb_closed t" and new: "\<forall>x \<in> set (tb_entries t). \<not> has_key k x"
    and room: "tb_baseCost t + int (2 * length body + 60) \<le> lim_Bytes (tb_limits t)" "int (length xs) \<le> lim_Fragments (tb_limits t)"
  shows "\<exists>rs r t'. feed t (zip (map fst xs) nows) = Some (rs @ [r], t') \<and> (\<forall>x \<in> set rs. res_Status x = Held)
    \<and> res_Status r = Complete \<and> whole_datagram body xs (res_Packet r)"
proof -
  obtain p f zs where xs: "xs = (p, f) # zs" using ne by (cases xs) auto
  obtain m ns where nows: "nows = m # ns" "length ns = length zs" using n(1) xs by (cases nows) auto
  have ok: "table_ok t" "nonempty_but None t" using t by (auto simp: frag_inv_def)
  have k: "fg_key f = k" using datagramD(3) [OF d, of p f] xs by simp
  obtain i t1 where f: "find_entry t f p m = (Inr i, t1)" "same_setup t t1" "pieces_of i (tb_pieces t1) = []"
    "tb_entries t1 ! i = Some (gathered k (m + lim_Lifetime (tb_limits t)) [])"
    using find_new [OF ok, of f p m] new k by auto
  have f1: "table_ok t1" "nonempty_but (Some i) t1" "i < length (tb_entries t1)" using find_entry_ok [OF ok f(1)] by auto
  have "\<exists>rs r t'. feed t (zip (map fst ((p, f) # zs)) (m # ns)) = Some (rs @ [r], t') \<and> (\<forall>x \<in> set rs. res_Status x = Held)
    \<and> res_Status r = Complete \<and> whole_datagram body ([] @ (p, f) # zs) (res_Packet r)"
    using d xs n(2) nows t(2) room f(2,3) by (intro feed_rest [OF _ nows(2) _ t(2) f(1,2) f1 f(4)]) (simp_all add: same_setup_def)
  then show ?thesis using xs nows by simp
qed

end
