(* ===== verification/Frag_Properties.thy ===== *)
theory Frag_Properties
  imports Frag_Roundtrip "HOL-Library.Code_Target_Nat"
begin

section \<open>Properties of the reassembly of fragments\<close>

text \<open>
  The table stays within its limits whatever packets arrive, every call returns, a
  completed packet holds exactly the bytes of the fragments, and the fragments of a
  datagram are reassembled in whatever order they come. The witnesses use a table of four
  datagrams and a datagram of 20 bytes in two fragments.
\<close>

subsection \<open>A sample table and a sample datagram\<close>

definition sample_sizes :: Sizes where
  "sample_sizes = \<lparr>sz_Table = 120, sz_Assembly = 232, sz_Piece = 48, sz_Notice = 80\<rparr>"

definition sample_limits :: FragLimits where
  "sample_limits = \<lparr>lim_Entries = 4, lim_Fragments = 8, lim_Bytes = 70000, lim_Lifetime = 30000000000\<rparr>"

definition sample_table :: Table where
  "sample_table = (case Table_New sample_sizes sample_limits of Inr t \<Rightarrow> t
     | Inl _ \<Rightarrow> \<lparr>tb_limits = sample_limits, tb_entries = [], tb_pieces = [], tb_baseCost = 0, tb_used = 0, tb_evicted = 0, tb_closed = True\<rparr>)"

lemma sample_table_eq:
  "sample_table = \<lparr>tb_limits = sample_limits, tb_entries = [None, None, None, None],
     tb_pieces = [None, None, None, None, None, None, None, None], tb_baseCost = 1752, tb_used = 1752, tb_evicted = 0, tb_closed = False\<rparr>"
  by code_simp

lemma sample_table_new: "Table_New sample_sizes sample_limits = Inr sample_table"
  by code_simp

lemma sample_table_reachable: "frag.reachable sample_table"
proof (rule frag.start, intro exI conjI)
  show "sizes_ok sample_sizes" by (simp add: sizes_ok_def sample_sizes_def)
  show "Table_New sample_sizes sample_limits = Inr sample_table" by (rule sample_table_new)
qed

definition sample_body :: "uint8 list" where
  "sample_body = [1, 2, 3, 4, 5, 6, 7, 8, 9, 10, 11, 12, 13, 14, 15, 16, 17, 18, 19, 20]"

definition packet_a :: "uint8 list" where
  "packet_a = [0x45, 0, 0, 36, 0, 7, 0x20, 0, 64, 17, 70, 192, 10, 0, 0, 1, 10, 0, 0, 2] @ take 16 sample_body"

definition packet_b :: "uint8 list" where
  "packet_b = [0x45, 0, 0, 24, 0, 7, 0, 2, 64, 17, 102, 202, 10, 0, 0, 1, 10, 0, 0, 2] @ drop 16 sample_body"

definition sample_key :: ipv4AssemblyKey where
  "sample_key = \<lparr>ak_src = [10, 0, 0, 1], ak_dst = [10, 0, 0, 2], ak_id = 7, ak_protocol = 17\<rparr>"

definition fragment_a :: fragment where
  "fragment_a = \<lparr>fg_hlen = 20, fg_start = 0, fg_more = True, fg_copied = [], fg_payload = take 16 sample_body, fg_key = sample_key, fg_ecn = 0\<rparr>"

definition fragment_b :: fragment where
  "fragment_b = \<lparr>fg_hlen = 20, fg_start = 16, fg_more = False, fg_copied = [], fg_payload = drop 16 sample_body, fg_key = sample_key, fg_ecn = 0\<rparr>"

lemma parse_a: "parse_fragment packet_a = Some (Inr fragment_a)"
  by code_simp

lemma parse_b: "parse_fragment packet_b = Some (Inr fragment_b)"
  by code_simp

lemma sample_datagram: "datagram sample_key [] sample_body [(packet_b, fragment_b), (packet_a, fragment_a)]"
proof -
  have "slice_of sample_body fragment_a" "slice_of sample_body fragment_b"
    by (simp_all add: slice_of_def fragment_a_def fragment_b_def fg_end_def sample_body_def)
  then show ?thesis
    by (simp add: datagram_def parse_a parse_b)
      (simp add: fragment_a_def fragment_b_def frag_apart_def fg_end_def fg_first_def sample_body_def)
qed

definition held_table :: Table where
  "held_table = (case Process sample_table packet_b 0 of Some (r, t) \<Rightarrow> t | None \<Rightarrow> sample_table)"

lemma held_step: "Process sample_table packet_b 0 = Some (status_result Held, held_table)"
  by code_simp

lemma held_table_reachable: "frag.reachable held_table"
  by (rule frag.advance [OF sample_table_reachable]) (rule table_step.Processed [OF held_step])

subsection \<open>Limits\<close>

text \<open>C30. In every reachable table the bytes in use are the fixed cost and the pieces held and do not exceed the
  limit; every piece belongs to an entry in use, the pieces of an entry do not overlap and are counted by it, and no two
  entries have the same key.\<close>

theorem reassembly_bounded:
  assumes "frag.reachable t"
  shows "tb_used t = tb_baseCost t + held_bytes (tb_pieces t) \<and> tb_used t \<le> lim_Bytes (tb_limits t)
    \<and> int (length (tb_entries t)) = lim_Entries (tb_limits t) \<and> int (length (tb_pieces t)) = lim_Fragments (tb_limits t)
    \<and> owners_ok t \<and> keys_ok t
    \<and> (\<forall>i < length (tb_entries t). \<forall>e. tb_entries t ! i = Some e \<longrightarrow>
         as_parts e = length (pieces_of i (tb_pieces t)) \<and> as_parts e > 0 \<and> sorted_wrt apart (pieces_of i (tb_pieces t))
         \<and> as_covered e = sum_list (map (\<lambda>p. length (pc_data p)) (pieces_of i (tb_pieces t)))
         \<and> (\<forall>p \<in> set (pieces_of i (tb_pieces t)). pc_data p \<noteq> [] \<and> pc_end p \<le> 65515))"
proof -
  have inv: "frag_inv t" by (rule frag.reachable_inv [OF assms])
  then have l: "limits_ok t" "owners_ok t" "keys_ok t" "entries_ok t" by (simp_all add: frag_inv_def table_ok_def)
  have "as_parts e = length (pieces_of i (tb_pieces t)) \<and> as_parts e > 0 \<and> sorted_wrt apart (pieces_of i (tb_pieces t))
         \<and> as_covered e = sum_list (map (\<lambda>p. length (pc_data p)) (pieces_of i (tb_pieces t)))
         \<and> (\<forall>p \<in> set (pieces_of i (tb_pieces t)). pc_data p \<noteq> [] \<and> pc_end p \<le> 65515)"
    if i: "i < length (tb_entries t)" "tb_entries t ! i = Some e" for i e
    using entries_okD [OF l(4) i] inv i by (auto simp: entry_ok_def piece_ok_def frag_inv_def nonempty_but_def)
  then have e: "\<forall>i < length (tb_entries t). \<forall>e. tb_entries t ! i = Some e \<longrightarrow>
         as_parts e = length (pieces_of i (tb_pieces t)) \<and> as_parts e > 0 \<and> sorted_wrt apart (pieces_of i (tb_pieces t))
         \<and> as_covered e = sum_list (map (\<lambda>p. length (pc_data p)) (pieces_of i (tb_pieces t)))
         \<and> (\<forall>p \<in> set (pieces_of i (tb_pieces t)). pc_data p \<noteq> [] \<and> pc_end p \<le> 65515)" by blast
  show ?thesis using l e unfolding limits_ok_def by (intro conjI) auto
qed

theorem reassembly_bounded_witness:
  "frag.reachable held_table \<and> tb_used held_table = 1756 \<and> tb_used held_table \<le> lim_Bytes (tb_limits held_table)"
proof -
  have "tb_used held_table = 1756" by code_simp
  then show ?thesis using reassembly_bounded [OF held_table_reachable] held_table_reachable by blast
qed

text \<open>C31. No packet, however malformed, makes a call panic or run forever: on every reachable table \<open>Process\<close> returns a
  result and a table that is again reachable, and a packet that does not parse as a fragment leaves the table as it is.\<close>

theorem process_returns:
  assumes "frag.reachable t"
  shows "\<exists>r t'. Process t packet now = Some (r, t') \<and> frag.reachable t'
    \<and> ((\<nexists>f. parse_fragment packet = Some (Inr f)) \<longrightarrow> t' = t \<and> res_Status r \<in> {Rejected, Closed})"
proof -
  have inv: "frag_inv t" by (rule frag.reachable_inv [OF assms])
  obtain r t' where r: "Process t packet now = Some (r, t')" using Process_ok [OF inv] by blast
  have "frag.reachable t'" by (rule frag.advance [OF assms]) (rule table_step.Processed [OF r])
  moreover have "t' = t \<and> res_Status r \<in> {Rejected, Closed}" if "\<nexists>f. parse_fragment packet = Some (Inr f)"
    using r that by (cases packet rule: parse_fragment_cases) (auto simp: Process_def rejected_def status_result_def split: if_splits)
  ultimately show ?thesis using r by blast
qed

theorem process_returns_witness:
  "\<exists>r t'. Process held_table [] 5 = Some (r, t') \<and> t' = held_table \<and> res_Status r \<in> {Rejected, Closed}"
proof -
  have "\<nexists>f. parse_fragment [] = Some (Inr f)" by (simp add: parse_fragment_def)
  then show ?thesis using process_returns [OF held_table_reachable, of "[]" 5] by blast
qed

subsection \<open>Completed datagrams\<close>

lemma fresh_incomplete: "fragment_ok p f \<Longrightarrow> \<not> is_complete (extend_entry (new_assembly k d) f p)"
  by (auto simp: is_complete_def extend_entry_def new_assembly_def fragment_ok_def split: if_splits)

text \<open>C32. A completed packet is made of exactly the pieces its entry held and the fragment that completed it: the first header
  with length, flags, ECN and checksum rewritten, then a payload whose every byte is the byte some fragment brought for that
  offset, without a gap; its entry and pieces are gone afterwards.\<close>

theorem reassembly_exact:
  assumes "frag.reachable t" and "Process t packet now = Some (r, t')" and "res_Status r = Complete"
  shows "\<exists>f i e ps. parse_fragment packet = Some (Inr f) \<and> i < length (tb_entries t) \<and> tb_entries t ! i = Some e
    \<and> as_key e = fg_key f \<and> now < as_deadline e
    \<and> mset ps = add_mset (piece_of i f) (mset (pieces_of i (tb_pieces t)))
    \<and> reassembled (extend_entry e f packet) ps (res_Packet r)
    \<and> tb_entries t' ! i = None \<and> pieces_of i (tb_pieces t') = []"
proof -
  have inv: "frag_inv t" "frag_inv t'"
    using frag.reachable_inv [OF assms(1)] Process_ok [of t packet now] assms(2) by auto
  then have ok: "table_ok t" "nonempty_but None t" by (auto simp: frag_inv_def)
  have op: "\<not> tb_closed t" using assms(2,3) by (auto simp: Process_def status_result_def)
  obtain f where f: "parse_fragment packet = Some (Inr f)" "fragment_ok packet f"
    using assms(2,3) op by (cases packet rule: parse_fragment_cases) (auto simp: Process_def rejected_def)
  obtain x t1 where fe: "find_entry t f packet now = (x, t1)" by fastforce
  note fo = find_entry_ok [OF ok fe]
  show ?thesis
  proof (cases x)
    case (Inl y)
    then have "r = y" using assms(2) op f(1) fe by (simp add: Process_def)
    then have "res_Status r \<noteq> Complete" using fe Inl
      by (auto simp: find_entry_def Let_def rejected_def at_capacity_def split: option.splits if_splits prod.splits)
    then show ?thesis using assms(3) by simp
  next
    case (Inr i)
    then obtain e where e: "i < length (tb_entries t1)" "tb_entries t1 ! i = Some e" "as_key e = fg_key f" "table_ok t1" "nonempty_but (Some i) t1"
      using fo by auto
    have run: "process_entry t1 i e f packet = Some (r, t')" using Process_found [OF op f(1) fe [unfolded Inr] e(2)] assms(2) by simp
    have so: "store_outcome t1 i e f packet r t'" using process_entry_ok [OF e(4,5,1,2) f(2)] run assms(3) by auto
    then have comp: "is_complete (extend_entry e f packet)" "tb_entries t' ! i = None" using assms(3) by (auto simp: store_outcome_def Let_def)
    have "t1 = t \<and> now < as_deadline e"
    proof (cases "index_of (has_key (fg_key f)) (tb_entries t)")
      case None
      then have "e = new_assembly (fg_key f) (now + lim_Lifetime (tb_limits t))"
        using find_new [OF ok, of f packet now] fe Inr e(2) by (auto simp: index_of_None)
      then show ?thesis using comp(1) fresh_incomplete [OF f(2)] by simp
    next
      case (Some j)
      then have "has_key (fg_key f) (tb_entries t ! j)" using index_of_Some by blast
      then show ?thesis using fe Inr Some e(2) by (auto simp: find_entry_def Let_def has_key_def split: option.splits if_splits)
    qed
    moreover have "pieces_of i (tb_pieces t') = []" using unowned [of t' i] inv(2) comp(2) by (simp add: frag_inv_def table_ok_def)
    ultimately show ?thesis using f(1) e so comp assms(3) by (auto simp: store_outcome_def Let_def)
  qed
qed

lemma completing_step: "\<exists>out t'. Process held_table packet_a 7 = Some (\<lparr>res_Status = Complete, res_Packet = out, res_Notice = zeroNotice\<rparr>, t')
    \<and> drop 20 out = sample_body"
proof -
  have "map_option (\<lambda>(r, t). (res_Status r, drop 20 (res_Packet r), res_Notice r)) (Process held_table packet_a 7)
    = Some (Complete, sample_body, zeroNotice)" by code_simp
  then obtain r t where "Process held_table packet_a 7 = Some (r, t)" "res_Status r = Complete" "drop 20 (res_Packet r) = sample_body"
    "res_Notice r = zeroNotice" by auto
  then show ?thesis by (intro exI [of _ "res_Packet r"] exI [of _ t]) (cases r, simp)
qed

theorem reassembly_exact_witness:
  "\<exists>out i e ps. tb_entries held_table ! i = Some e \<and> reassembled (extend_entry e fragment_a packet_a) ps out \<and> drop 20 out = sample_body"
proof -
  obtain out t' where s: "Process held_table packet_a 7 = Some (\<lparr>res_Status = Complete, res_Packet = out, res_Notice = zeroNotice\<rparr>, t')"
    "drop 20 out = sample_body" using completing_step by blast
  from reassembly_exact [OF held_table_reachable s(1)] s(2) parse_a show ?thesis by auto
qed

text \<open>C3. The fragments of a datagram, fed to a table in any order within the lifetime, are reassembled when the
  datagram fits the limits, whatever else the table holds: all but the last one to arrive are held, and the last one gives the
  whole payload under a first header with a correct length and checksum.\<close>

theorem fragments_reassemble:
  assumes "frag.reachable t" and "\<not> tb_closed t"
    and "datagram k c body xs" and "xs \<noteq> []" and "\<forall>x \<in> set (tb_entries t). \<not> has_key k x"
    and "length nows = length xs" and "\<forall>n \<in> set nows. n < hd nows + lim_Lifetime (tb_limits t)"
    and "tb_baseCost t + int (2 * length body + 60) \<le> lim_Bytes (tb_limits t)" and "int (length xs) \<le> lim_Fragments (tb_limits t)"
  shows "\<exists>rs r t'. feed t (zip (map fst xs) nows) = Some (rs @ [r], t') \<and> (\<forall>x \<in> set rs. res_Status x = Held)
    \<and> res_Status r = Complete \<and> whole_datagram body xs (res_Packet r)"
  using feed_datagram [OF assms(3,4,6,7) frag.reachable_inv [OF assms(1)] assms(2,5,8,9)] .

theorem fragments_reassemble_witness:
  "\<exists>rs r t'. feed sample_table [(packet_b, 0), (packet_a, 7)] = Some (rs @ [r], t') \<and> (\<forall>x \<in> set rs. res_Status x = Held)
    \<and> res_Status r = Complete \<and> whole_datagram sample_body [(packet_b, fragment_b), (packet_a, fragment_a)] (res_Packet r)"
  using fragments_reassemble [OF sample_table_reachable _ sample_datagram, of "[0, 7]"]
  by (simp add: sample_table_eq sample_limits_def has_key_def sample_body_def)

end
