(* ===== verification/Flow_Index.thy ===== *)
theory Flow_Index
  imports GoLib Interfaces
begin

section \<open>The table of connections (internal/wgstack: index.go, siphash.go)\<close>

text \<open>
  Sequence numbers, the keyed hash of a connection's addresses and ports, and the open
  addressing table that maps a connection to its row. Slots and hashes are \<^typ>\<open>uint32\<close>
  as in the source, rows are \<^typ>\<open>uint32\<close> read as \<open>int32\<close>, so \<open>-1\<close> is the row of nothing. A
  probe that would run forever, on a table without an empty slot, is \<open>None\<close>.
\<close>

unbundle bit_operations_syntax

subsection \<open>Sequence numbers\<close>

definition seqLT :: "uint32 \<Rightarrow> uint32 \<Rightarrow> bool" where "seqLT a b = (sint (a - b) < 0)"
definition seqLE :: "uint32 \<Rightarrow> uint32 \<Rightarrow> bool" where "seqLE a b = (sint (a - b) \<le> 0)"
definition seqGT :: "uint32 \<Rightarrow> uint32 \<Rightarrow> bool" where "seqGT a b = (sint (a - b) > 0)"
definition seqGE :: "uint32 \<Rightarrow> uint32 \<Rightarrow> bool" where "seqGE a b = (sint (a - b) \<ge> 0)"

definition seqMin :: "uint32 \<Rightarrow> uint32 \<Rightarrow> uint32" where "seqMin a b = (if seqLT a b then a else b)"
definition seqMax :: "uint32 \<Rightarrow> uint32 \<Rightarrow> uint32" where "seqMax a b = (if seqGT a b then a else b)"

subsection \<open>The keyed hash\<close>

record tuple =
  tu_laddr :: uint32
  tu_raddr :: uint32
  tu_lport :: uint16
  tu_rport :: uint16

record sipKey =
  sk_k0 :: uint64
  sk_k1 :: uint64

definition sipRound :: "uint64 \<times> uint64 \<times> uint64 \<times> uint64 \<Rightarrow> uint64 \<times> uint64 \<times> uint64 \<times> uint64" where
  "sipRound v =
     (let (v0, v1, v2, v3) = v;
          v0 = v0 + v1; v1 = word_rotl 13 v1; v1 = v1 XOR v0; v0 = word_rotl 32 v0;
          v2 = v2 + v3; v3 = word_rotl 16 v3; v3 = v3 XOR v2;
          v0 = v0 + v3; v3 = word_rotl 21 v3; v3 = v3 XOR v0;
          v2 = v2 + v1; v1 = word_rotl 17 v1; v1 = v1 XOR v2; v2 = word_rotl 32 v2
      in (v0, v1, v2, v3))"

definition sip_absorb :: "uint64 \<Rightarrow> uint64 \<times> uint64 \<times> uint64 \<times> uint64 \<Rightarrow> uint64 \<times> uint64 \<times> uint64 \<times> uint64" where
  "sip_absorb m v =
     (let (v0, v1, v2, v3) = v;
          (v0, v1, v2, v3) = sipRound (sipRound (v0, v1, v2, v3 XOR m))
      in (v0 XOR m, v1, v2, v3))"

definition sipKey_sum :: "sipKey \<Rightarrow> uint64 \<Rightarrow> uint64 \<Rightarrow> uint64" where
  "sipKey_sum k m0 m1 =
     (let v = (sk_k0 k XOR 0x736f6d6570736575, sk_k1 k XOR 0x646f72616e646f6d,
               sk_k0 k XOR 0x6c7967656e657261, sk_k1 k XOR 0x7465646279746573);
          (v0, v1, v2, v3) = fold sip_absorb [m0, m1, push_bit 56 16] v;
          (v0, v1, v2, v3) = (sipRound ^^ 4) (v0, v1, v2 XOR 0xff, v3)
      in v0 XOR v1 XOR v2 XOR v3)"

definition hashTuple :: "sipKey \<Rightarrow> tuple \<Rightarrow> uint64" where
  "hashTuple k t = sipKey_sum k (ucast (tu_laddr t) OR push_bit 32 (ucast (tu_raddr t)))
                               (ucast (tu_lport t) OR push_bit 16 (ucast (tu_rport t)))"

subsection \<open>The table\<close>

record indexEnt =
  ie_tup :: tuple
  ie_hash :: uint32
  ie_id :: uint32

definition zeroTuple :: tuple where
  "zeroTuple = \<lparr>tu_laddr = 0, tu_raddr = 0, tu_lport = 0, tu_rport = 0\<rparr>"

definition zeroEnt :: indexEnt where
  "zeroEnt = \<lparr>ie_tup = zeroTuple, ie_hash = 0, ie_id = 0\<rparr>"

record Index =
  ix_key :: sipKey
  ix_mask :: uint32
  ix_ents :: "indexEnt list"
  ix_gens :: "uint64 list option"

text \<open>The loop that doubles the capacity from \<open>2 ^ k\<close> until it is at least twice the rows.\<close>

function index_size :: "nat \<Rightarrow> nat \<Rightarrow> nat" where
  "index_size k rows = (if 2 ^ k < 2 * rows then index_size (Suc k) rows else 2 ^ k)"
  by pat_completeness auto
termination
proof (relation "measure (\<lambda>(k, rows). 2 * rows - 2 ^ k)")
  fix k rows :: nat
  assume "2 ^ k < 2 * rows"
  then show "((Suc k, rows), k, rows) \<in> measure (\<lambda>(k, rows). 2 * rows - 2 ^ k)" by (simp add: diff_less_mono2)
qed simp

declare index_size.simps [simp del]

definition newIndex :: "nat \<Rightarrow> sipKey \<Rightarrow> bool \<Rightarrow> Index" where
  "newIndex rows key withGen =
     (let n = index_size 0 rows in
      \<lparr>ix_key = key, ix_mask = word_of_nat (n - 1), ix_ents = replicate n zeroEnt,
       ix_gens = (if withGen then Some (replicate n 0) else None)\<rparr>)"

definition index_hash :: "Index \<Rightarrow> tuple \<Rightarrow> uint32" where
  "index_hash x t = ucast (hashTuple (ix_key x) t)"

definition ent :: "Index \<Rightarrow> uint32 \<Rightarrow> indexEnt" where
  "ent x i = ix_ents x ! unat i"

definition gen_at :: "Index \<Rightarrow> uint32 \<Rightarrow> uint64" where
  "gen_at x i = (case ix_gens x of None \<Rightarrow> 0 | Some gs \<Rightarrow> gs ! unat i)"

definition put_ent :: "Index \<Rightarrow> uint32 \<Rightarrow> indexEnt \<Rightarrow> uint64 \<Rightarrow> Index" where
  "put_ent x i e g =
     x\<lparr>ix_ents := (ix_ents x)[unat i := e], ix_gens := map_option (\<lambda>gs. gs[unat i := g]) (ix_gens x)\<rparr>"

text \<open>The probe of \<open>find\<close>, \<open>insert\<close> and \<open>remove\<close>: the first slot from \<open>i\<close> on that is empty or holds the key.\<close>

partial_function (option) probe :: "Index \<Rightarrow> tuple \<Rightarrow> uint32 \<Rightarrow> uint32 \<Rightarrow> uint32 option" where
  "probe x t h i =
     (if ie_id (ent x i) = 0 \<or> (ie_hash (ent x i) = h \<and> ie_tup (ent x i) = t) then Some i
      else probe x t h ((i + 1) AND ix_mask x))"

declare probe.simps [code]

definition index_find :: "Index \<Rightarrow> tuple \<Rightarrow> (uint32 \<times> uint64) option" where
  "index_find x t =
     (let h = index_hash x t in
      map_option (\<lambda>i. if ie_id (ent x i) = 0 then (- 1, 0) else (ie_id (ent x i) - 1, gen_at x i))
        (probe x t h (h AND ix_mask x)))"

definition index_insert :: "Index \<Rightarrow> tuple \<Rightarrow> uint32 \<Rightarrow> uint64 \<Rightarrow> Index option" where
  "index_insert x t row gen =
     (let h = index_hash x t in
      map_option (\<lambda>i. put_ent x i \<lparr>ie_tup = t, ie_hash = h, ie_id = row + 1\<rparr> gen) (probe x t h (h AND ix_mask x)))"

text \<open>The entry at \<open>j\<close> with this home slot may be moved to the hole at \<open>i\<close>.\<close>

definition movable :: "uint32 \<Rightarrow> uint32 \<Rightarrow> uint32 \<Rightarrow> bool" where
  "movable i j home = ((j > i \<and> (home \<le> i \<or> home > j)) \<or> (j < i \<and> home \<le> i \<and> home > j))"

text \<open>The loop that closes the hole at \<open>i\<close>, with the slots up to \<open>j\<close> already scanned.\<close>

partial_function (option) shift_back :: "Index \<Rightarrow> uint32 \<Rightarrow> uint32 \<Rightarrow> Index option" where
  "shift_back x i j =
     (let j' = (j + 1) AND ix_mask x; e = ent x j' in
      if ie_id e = 0 then Some x
      else if movable i j' (ie_hash e AND ix_mask x)
      then shift_back (put_ent (put_ent x i e (gen_at x j')) j' zeroEnt 0) j' j'
      else shift_back x i j')"

declare shift_back.simps [code]

definition index_remove :: "Index \<Rightarrow> tuple \<Rightarrow> (bool \<times> Index) option" where
  "index_remove x t =
     (let h = index_hash x t in
      case probe x t h (h AND ix_mask x) of
        None \<Rightarrow> None
      | Some i \<Rightarrow>
          if ie_id (ent x i) = 0 then Some (False, x)
          else map_option (Pair True) (shift_back (put_ent x i zeroEnt 0) i i))"

end
