(* ===== verification/Bounded_Map.thy ===== *)
theory Bounded_Map
  imports Prelude
begin

section \<open>The contract of a bounded map\<close>

text \<open>
  A table with a fixed capacity promises to behave as a partial map while the number of
  its keys stays within a bound. A client runs a list of operations on it; the
  answers are those of the map, and no operation gets stuck.
\<close>

datatype ('k, 'v) map_op = Put 'k 'v | Del 'k | Get 'k

datatype 'v answer = Stored | Removed bool | Got "'v option"

fun map_run :: "('k \<rightharpoonup> 'v) \<Rightarrow> ('k, 'v) map_op list \<Rightarrow> 'v answer list" where
  "map_run m [] = []"
| "map_run m (Put k v # ops) = Stored # map_run (m(k \<mapsto> v)) ops"
| "map_run m (Del k # ops) = Removed (m k \<noteq> None) # map_run (m(k := None)) ops"
| "map_run m (Get k # ops) = Got (m k) # map_run m ops"

text \<open>Every stored value is valid and no more than \<open>bound\<close> keys are live at any time; the keys are kept as a list.\<close>

fun fitting :: "nat \<Rightarrow> ('v \<Rightarrow> bool) \<Rightarrow> 'k list \<Rightarrow> ('k, 'v) map_op list \<Rightarrow> bool" where
  "fitting bound valid ks [] = True"
| "fitting bound valid ks (Put k v # ops) = (let ks' = List.insert k ks in length ks' \<le> bound \<and> valid v \<and> fitting bound valid ks' ops)"
| "fitting bound valid ks (Del k # ops) = fitting bound valid (removeAll k ks) ops"
| "fitting bound valid ks (Get k # ops) = fitting bound valid ks ops"

fun run_ops :: "('t \<Rightarrow> 'k \<Rightarrow> 'v option option) \<Rightarrow> ('t \<Rightarrow> 'k \<Rightarrow> 'v \<Rightarrow> 't option) \<Rightarrow> ('t \<Rightarrow> 'k \<Rightarrow> (bool \<times> 't) option)
    \<Rightarrow> 't \<Rightarrow> ('k, 'v) map_op list \<Rightarrow> 'v answer list option" where
  "run_ops get put del t [] = Some []"
| "run_ops get put del t (Put k v # ops) =
     (case put t k v of None \<Rightarrow> None | Some t' \<Rightarrow> map_option (Cons Stored) (run_ops get put del t' ops))"
| "run_ops get put del t (Del k # ops) =
     (case del t k of None \<Rightarrow> None | Some (b, t') \<Rightarrow> map_option (Cons (Removed b)) (run_ops get put del t' ops))"
| "run_ops get put del t (Get k # ops) =
     (case get t k of None \<Rightarrow> None | Some v \<Rightarrow> map_option (Cons (Got v)) (run_ops get put del t ops))"

locale bounded_map =
  fixes Inv :: "'t \<Rightarrow> bool" and abs :: "'t \<Rightarrow> 'k \<rightharpoonup> 'v" and bound :: nat and valid :: "'v \<Rightarrow> bool"
    and get :: "'t \<Rightarrow> 'k \<Rightarrow> 'v option option" and put :: "'t \<Rightarrow> 'k \<Rightarrow> 'v \<Rightarrow> 't option"
    and del :: "'t \<Rightarrow> 'k \<Rightarrow> (bool \<times> 't) option"
  assumes get_law: "Inv t \<Longrightarrow> get t k = Some (abs t k)"
    and put_law: "Inv t \<Longrightarrow> valid v \<Longrightarrow> card (dom ((abs t)(k \<mapsto> v))) \<le> bound \<Longrightarrow>
      \<exists>t'. put t k v = Some t' \<and> Inv t' \<and> abs t' = (abs t)(k \<mapsto> v)"
    and del_law: "Inv t \<Longrightarrow> \<exists>t'. del t k = Some (abs t k \<noteq> None, t') \<and> Inv t' \<and> abs t' = (abs t)(k := None)"
begin

lemma run_refines:
  assumes "Inv t" and "distinct ks" and "dom (abs t) = set ks" and "fitting bound valid ks ops"
  shows "run_ops get put del t ops = Some (map_run (abs t) ops)"
  using assms
proof (induction ops arbitrary: t ks)
  case (Cons op ops)
  show ?case
  proof (cases op)
    case (Put k v)
    let ?ks = "List.insert k ks"
    have d: "dom ((abs t)(k \<mapsto> v)) = set ?ks" "distinct ?ks" using Cons.prems by auto
    then have "card (dom ((abs t)(k \<mapsto> v))) \<le> bound"
      using Cons.prems(4) Put distinct_card [OF d(2)] by (simp add: Let_def)
    then obtain t' where t': "put t k v = Some t'" "Inv t'" "abs t' = (abs t)(k \<mapsto> v)"
      using put_law [OF Cons.prems(1)] Cons.prems(4) Put by (auto simp: Let_def)
    have "dom (abs t') = set ?ks" using d(1) t'(3) by (simp only:)
    then have "run_ops get put del t' ops = Some (map_run (abs t') ops)"
      using Cons.prems(4) d(2) Put t'(2) by (intro Cons.IH [of t' ?ks]) (simp_all add: Let_def)
    then show ?thesis using Put t' by simp
  next
    case (Del k)
    obtain t' where t': "del t k = Some (abs t k \<noteq> None, t')" "Inv t'" "abs t' = (abs t)(k := None)"
      using del_law [OF Cons.prems(1)] by blast
    have "dom (abs t') = set (removeAll k ks)" unfolding t'(3) using Cons.prems(3) by auto
    then have "run_ops get put del t' ops = Some (map_run (abs t') ops)"
      using Cons.prems(2,4) Del t'(2) by (intro Cons.IH [of t' "removeAll k ks"]) (simp_all add: distinct_removeAll)
    then show ?thesis using Del t' by simp
  next
    case (Get k)
    then show ?thesis using Cons by (simp add: get_law)
  qed
qed simp

end

end
