(* ===== verification/Circle.thy ===== *)
theory Circle
  imports Prelude
begin

section \<open>Positions on a circle\<close>

text \<open>
  The positions \<open>0\<close> to \<open>n - 1\<close> of a ring or of a table with wrap-around: the way from one position
  forward to another, and the numbering of the positions that starts after a given one.
\<close>

unbundle bit_operations_syntax

definition gap :: "nat \<Rightarrow> nat \<Rightarrow> nat \<Rightarrow> nat" where
  "gap n a b = (if a \<le> b then b - a else b + n - a)"

definition rot :: "nat \<Rightarrow> nat \<Rightarrow> nat \<Rightarrow> nat" where
  "rot n E q = (if E < q then q - E - 1 else q + n - E - 1)"

lemma rot_bounds: "E < n \<Longrightarrow> q < n \<Longrightarrow> rot n E q < n" "E < n \<Longrightarrow> rot n E E = n - 1"
  by (auto simp: rot_def)

lemma rot_inject: "E < n \<Longrightarrow> p < n \<Longrightarrow> q < n \<Longrightarrow> rot n E p = rot n E q \<longleftrightarrow> p = q"
  by (auto simp: rot_def)

lemma rot_last: "E < n \<Longrightarrow> q < n \<Longrightarrow> q \<noteq> E \<Longrightarrow> rot n E q < n - 1"
  by (auto simp: rot_def)

lemma rot_next: "E < n \<Longrightarrow> q < n \<Longrightarrow> q \<noteq> E \<Longrightarrow> rot n E (Suc q mod n) = Suc (rot n E q)"
  by (auto simp: rot_def mod_Suc)

lemma gap_rot:
  "E < n \<Longrightarrow> a < n \<Longrightarrow> b < n \<Longrightarrow>
   gap n a b = (if rot n E a \<le> rot n E b then rot n E b - rot n E a else rot n E b + n - rot n E a)"
  unfolding rot_def gap_def by (simp split: if_split) linarith

lemma gap_bounds: "a < n \<Longrightarrow> b < n \<Longrightarrow> gap n a b < n" "gap n a a = 0"
  by (auto simp: gap_def)

lemma gap_inject: "a < n \<Longrightarrow> p < n \<Longrightarrow> q < n \<Longrightarrow> gap n a p = gap n a q \<longleftrightarrow> p = q"
  by (auto simp: gap_def)

lemma gap_next: "a < n \<Longrightarrow> q < n \<Longrightarrow> Suc (gap n a q) < n \<Longrightarrow> gap n a (Suc q mod n) = Suc (gap n a q)"
  by (auto simp: gap_def mod_Suc split: if_splits)

lemma mod_below_twice: "x < 2 * n \<Longrightarrow> x mod n = (if x < n then x else x - n)" for x n :: nat
  by (simp add: le_mod_geq)

lemma gap_mod: "gap n (a mod n) ((a + d) mod n) = d mod n" if "0 < n"
proof -
  have "(a + d) mod n = (a mod n + d mod n) mod n" by (simp add: mod_add_eq)
  moreover have "a mod n < n" "d mod n < n" using that by simp_all
  ultimately show ?thesis by (auto simp: gap_def mod_below_twice)
qed

lemma gap_forward:
  assumes "a < n" "q < n" "m < n"
  shows "gap n ((a + m) mod n) q = (if m \<le> gap n a q then gap n a q - m else gap n a q + n - m)"
  using assms by (auto simp: gap_def mod_below_twice)

lemma gap_inverse: "a < n \<Longrightarrow> q < n \<Longrightarrow> (a + gap n a q) mod n = q"
  by (auto simp: gap_def mod_below_twice)

lemma gap_mod_inverse:
  assumes "0 < n" and "q < n"
  shows "(a + gap n (a mod n) q) mod n = q"
  using gap_inverse [of "a mod n" n q] assms by (simp add: mod_add_left_eq)

lemma unat_and_mask: "unat ((w :: 'a::len word) AND mask k) = unat w mod 2 ^ k"
  unfolding take_bit_eq_mask [symmetric] unsigned_take_bit_eq by (rule take_bit_eq_mod)

end
