(* ===== verification/Flow_Index_Laws.thy ===== *)
theory Flow_Index_Laws
  imports Flow_Index Bounded_Map Circle
begin

section \<open>The table of connections refines a map\<close>

text \<open>
  The slots form a circle. An entry lies on the run of occupied slots that starts at the
  home slot of its hash. Seen from an empty slot the circle is a line, which no run crosses:
  \<open>rot\<close> numbers the slots on that line, and the hole of a removal only moves to the right
  on it, up to the empty slot.
\<close>

subsection \<open>The invariant\<close>

definition cap_of :: "Index \<Rightarrow> nat" where "cap_of x = length (ix_ents x)"

definition occ :: "Index \<Rightarrow> nat \<Rightarrow> bool" where "occ x p = (ie_id (ix_ents x ! p) \<noteq> 0)"

definition tup_at :: "Index \<Rightarrow> nat \<Rightarrow> tuple" where "tup_at x p = ie_tup (ix_ents x ! p)"

definition val_at :: "Index \<Rightarrow> nat \<Rightarrow> uint32 \<times> uint64" where
  "val_at x p = (ie_id (ix_ents x ! p) - 1, case ix_gens x of None \<Rightarrow> 0 | Some gs \<Rightarrow> gs ! p)"

definition home :: "Index \<Rightarrow> nat \<Rightarrow> nat" where "home x p = unat (ie_hash (ix_ents x ! p) AND ix_mask x)"

definition shape :: "Index \<Rightarrow> bool" where
  "shape x \<longleftrightarrow> (\<exists>k \<le> 31. cap_of x = 2 ^ k \<and> ix_mask x = mask k) \<and> (case ix_gens x of None \<Rightarrow> True | Some gs \<Rightarrow> length gs = cap_of x)"

definition hashes_ok :: "Index \<Rightarrow> bool" where
  "hashes_ok x \<longleftrightarrow> (\<forall>p < cap_of x. occ x p \<longrightarrow> ie_hash (ix_ents x ! p) = index_hash x (tup_at x p))"

definition tuples_ok :: "Index \<Rightarrow> bool" where
  "tuples_ok x \<longleftrightarrow> (\<forall>p < cap_of x. \<forall>q < cap_of x. occ x p \<longrightarrow> occ x q \<longrightarrow> tup_at x p = tup_at x q \<longrightarrow> p = q)"

definition on_run :: "Index \<Rightarrow> nat \<Rightarrow> nat \<Rightarrow> bool" where
  "on_run x h p \<longleftrightarrow> (\<forall>q < cap_of x. gap (cap_of x) h q < gap (cap_of x) h p \<longrightarrow> occ x q)"

definition index_ok :: "Index \<Rightarrow> bool" where
  "index_ok x \<longleftrightarrow> shape x \<and> hashes_ok x \<and> tuples_ok x \<and> (\<exists>E < cap_of x. \<not> occ x E)
     \<and> (\<forall>p < cap_of x. occ x p \<longrightarrow> on_run x (home x p) p)"

lemma shape_slot:
  assumes "shape x"
  shows "unat (w AND ix_mask x) < cap_of x" "0 < cap_of x"
  using assms by (auto simp: shape_def unat_and_mask)

lemma shape_next:
  assumes "shape x" and "unat i < cap_of x"
  shows "unat ((i + 1) AND ix_mask x) = Suc (unat i) mod cap_of x"
proof -
  obtain k where k: "k \<le> 31" "cap_of x = 2 ^ k" "ix_mask x = mask k" using assms(1) by (auto simp: shape_def)
  have "(2 :: nat) ^ k \<le> 2 ^ 31" using k(1) by (rule power_increasing) simp
  then have "Suc (unat i) < 2 ^ 32" using assms(2) k(2) by simp
  then have "unat (i + 1) = Suc (unat i)" by (simp add: unat_word_ariths(1))
  then show ?thesis by (simp add: k unat_and_mask)
qed

lemma map_ext_Some: "(\<And>k v. f k = Some v \<longleftrightarrow> g k = Some v) \<Longrightarrow> f = g"
  by (rule ext) (metis not_None_eq)

text \<open>What the table holds, as a map.\<close>

definition index_map :: "Index \<Rightarrow> tuple \<rightharpoonup> uint32 \<times> uint64" where
  "index_map x = map_of (map (\<lambda>p. (tup_at x p, val_at x p)) (filter (occ x) [0..<cap_of x]))"

lemma index_map_Some:
  assumes "tuples_ok x"
  shows "index_map x t = Some v \<longleftrightarrow> (\<exists>p < cap_of x. occ x p \<and> tup_at x p = t \<and> val_at x p = v)"
proof -
  let ?l = "map (\<lambda>p. (tup_at x p, val_at x p)) (filter (occ x) [0..<cap_of x])"
  have "distinct (map fst ?l)"
    using assms by (auto simp: distinct_map inj_on_def tuples_ok_def comp_def)
  then have "index_map x t = Some v \<longleftrightarrow> (t, v) \<in> set ?l" by (simp add: index_map_def map_of_eq_Some_iff)
  then show ?thesis by (auto simp: image_iff)
qed

lemma index_map_None:
  "index_map x t = None \<longleftrightarrow> (\<forall>p < cap_of x. occ x p \<longrightarrow> tup_at x p \<noteq> t)"
  by (auto simp: index_map_def map_of_eq_None_iff image_iff)

text \<open>Seen from an empty slot.\<close>

lemma on_run_line:
  assumes "E < cap_of x" "\<not> occ x E" "p < cap_of x" "h < cap_of x"
  shows "on_run x h p \<longleftrightarrow> rot (cap_of x) E h \<le> rot (cap_of x) E p
    \<and> (\<forall>q < cap_of x. rot (cap_of x) E h \<le> rot (cap_of x) E q \<longrightarrow> rot (cap_of x) E q < rot (cap_of x) E p \<longrightarrow> occ x q)"
    (is "_ \<longleftrightarrow> ?le \<and> ?mid")
proof
  let ?n = "cap_of x" and ?r = "rot (cap_of x) E"
  note g = gap_rot [OF assms(1,4)]
  assume run: "on_run x h p"
  have le: ?le
  proof (rule ccontr)
    assume gt: "\<not> ?le"
    have "?r E = ?n - 1" "?r h < ?n" "?r p < ?n" using rot_bounds [OF assms(1)] assms by auto
    then have "gap ?n h E < gap ?n h p" using gt g [OF assms(1)] g [OF assms(3)] by auto
    then show False using run assms(1,2) by (auto simp: on_run_def)
  qed
  moreover have ?mid
  proof (intro allI impI)
    fix q assume q: "q < ?n" "?r h \<le> ?r q" "?r q < ?r p"
    then have "gap ?n h q < gap ?n h p" using le g [OF q(1)] g [OF assms(3)] by auto
    then show "occ x q" using run q(1) by (auto simp: on_run_def)
  qed
  ultimately show "?le \<and> ?mid" by blast
next
  let ?n = "cap_of x" and ?r = "rot (cap_of x) E"
  note g = gap_rot [OF assms(1,4)]
  assume line: "?le \<and> ?mid"
  show "on_run x h p" unfolding on_run_def
  proof (intro allI impI)
    fix q assume q: "q < ?n" "gap ?n h q < gap ?n h p"
    have "?r q < ?n" "?r p < ?n" using rot_bounds(1) [OF assms(1)] q assms(3) by auto
    then have "?r h \<le> ?r q \<and> ?r q < ?r p" using line q(2) g [OF q(1)] g [OF assms(3)] by (auto split: if_splits)
    then show "occ x q" using line q(1) by blast
  qed
qed

subsection \<open>The probe\<close>

lemma probe_from:
  assumes "shape x" and "E < cap_of x" "\<not> occ x E" and "h < cap_of x" and "unat i < cap_of x"
    and "\<forall>q < cap_of x. gap (cap_of x) h q < gap (cap_of x) h (unat i) \<longrightarrow> occ x q \<and> \<not> (ie_hash (ix_ents x ! q) = hs \<and> tup_at x q = t)"
  shows "\<exists>s. probe x t hs i = Some s \<and> unat s < cap_of x
    \<and> (\<forall>q < cap_of x. gap (cap_of x) h q < gap (cap_of x) h (unat s) \<longrightarrow> occ x q \<and> \<not> (ie_hash (ix_ents x ! q) = hs \<and> tup_at x q = t))
    \<and> (occ x (unat s) \<longrightarrow> ie_hash (ix_ents x ! unat s) = hs \<and> tup_at x (unat s) = t)"
  using assms(5,6)
proof (induction "gap (cap_of x) h E - gap (cap_of x) h (unat i)" arbitrary: i rule: less_induct)
  case less
  let ?n = "cap_of x"
  show ?case
  proof (cases "occ x (unat i) \<and> \<not> (ie_hash (ix_ents x ! unat i) = hs \<and> tup_at x (unat i) = t)")
    case False
    then have "probe x t hs i = Some i" by (subst probe.simps) (auto simp: ent_def occ_def tup_at_def)
    then show ?thesis using less.prems False by auto
  next
    case True
    let ?i = "(i + 1) AND ix_mask x"
    have step: "probe x t hs i = probe x t hs ?i" using True by (subst probe.simps) (auto simp: ent_def occ_def tup_at_def)
    have "gap ?n h (unat i) \<noteq> gap ?n h E" using True assms(2,3) less.prems(1) gap_inject [OF assms(4)] by blast
    moreover have "\<not> gap ?n h E < gap ?n h (unat i)" using less.prems(2) assms(2,3) by blast
    ultimately have lt: "gap ?n h (unat i) < gap ?n h E" by simp
    have "gap ?n h E < ?n" using gap_bounds(1) assms(2,4) by blast
    then have nx: "gap ?n h (unat ?i) = Suc (gap ?n h (unat i))"
      using lt shape_next [OF assms(1) less.prems(1)] gap_next [OF assms(4) less.prems(1)] by simp
    have "\<forall>q < ?n. gap ?n h q < gap ?n h (unat ?i) \<longrightarrow> occ x q \<and> \<not> (ie_hash (ix_ents x ! q) = hs \<and> tup_at x q = t)"
    proof (intro allI impI)
      fix q assume q: "q < ?n" "gap ?n h q < gap ?n h (unat ?i)"
      show "occ x q \<and> \<not> (ie_hash (ix_ents x ! q) = hs \<and> tup_at x q = t)"
      proof (cases "gap ?n h q = gap ?n h (unat i)")
        case eq: True
        then have "q = unat i" using gap_inject [OF assms(4) q(1) less.prems(1)] by simp
        then show ?thesis using True by simp
      next
        case False
        then show ?thesis using q nx less.prems(2) by simp
      qed
    qed
    then show ?thesis unfolding step using nx lt shape_slot(1) [OF assms(1)] by (intro less.hyps) auto
  qed
qed

text \<open>The probe for a key stops at its entry, or, if there is none, at an empty slot at the end of the run.\<close>

lemma probe_ok:
  assumes x: "index_ok x" and hs: "hs = index_hash x t"
  obtains s where "probe x t hs (hs AND ix_mask x) = Some s" "unat s < cap_of x" "on_run x (unat (hs AND ix_mask x)) (unat s)"
    "occ x (unat s) \<Longrightarrow> tup_at x (unat s) = t \<and> ie_hash (ix_ents x ! unat s) = hs"
    "\<not> occ x (unat s) \<Longrightarrow> \<forall>p < cap_of x. occ x p \<longrightarrow> tup_at x p \<noteq> t"
proof -
  let ?n = "cap_of x" and ?h = "unat (hs AND ix_mask x)"
  obtain E where E: "E < ?n" "\<not> occ x E" using x by (auto simp: index_ok_def)
  have sh: "shape x" "hashes_ok x" using x by (simp_all add: index_ok_def)
  have h: "?h < ?n" using shape_slot [OF sh(1)] by blast
  obtain s where s: "probe x t hs (hs AND ix_mask x) = Some s" "unat s < ?n"
    "\<forall>q < ?n. gap ?n ?h q < gap ?n ?h (unat s) \<longrightarrow> occ x q \<and> \<not> (ie_hash (ix_ents x ! q) = hs \<and> tup_at x q = t)"
    "occ x (unat s) \<longrightarrow> ie_hash (ix_ents x ! unat s) = hs \<and> tup_at x (unat s) = t"
    using probe_from [OF sh(1) E h h, of hs t] by (auto simp: gap_bounds)
  have "tup_at x p \<noteq> t" if no: "\<not> occ x (unat s)" and p: "p < ?n" "occ x p" for p
  proof
    assume t: "tup_at x p = t"
    have hp: "ie_hash (ix_ents x ! p) = hs" using sh(2) p t hs by (simp add: hashes_ok_def)
    then have "home x p = ?h" by (simp add: home_def)
    then have run: "on_run x ?h p" using x p by (auto simp: index_ok_def)
    have "\<not> gap ?n ?h (unat s) < gap ?n ?h p" using run no s(2) by (auto simp: on_run_def)
    moreover have "\<not> gap ?n ?h p < gap ?n ?h (unat s)" using s(3) p t hp by auto
    ultimately have "p = unat s" using gap_inject [OF h p(1) s(2)] by simp
    then show False using p(2) no by simp
  qed
  then show thesis using s that by (auto simp: on_run_def)
qed

subsection \<open>Finding and inserting\<close>

text \<open>The answer of \<open>find\<close>: row \<open>-1\<close> when the key is not there.\<close>

definition found :: "(uint32 \<times> uint64) option \<Rightarrow> uint32 \<times> uint64" where
  "found v = (case v of None \<Rightarrow> (- 1, 0) | Some w \<Rightarrow> w)"

lemma find_refines:
  assumes x: "index_ok x"
  shows "index_find x t = Some (found (index_map x t))"
proof -
  obtain s where s: "probe x t (index_hash x t) (index_hash x t AND ix_mask x) = Some s" "unat s < cap_of x"
    "occ x (unat s) \<Longrightarrow> tup_at x (unat s) = t"
    "\<not> occ x (unat s) \<Longrightarrow> \<forall>p < cap_of x. occ x p \<longrightarrow> tup_at x p \<noteq> t"
    using probe_ok [OF x refl, of t] by metis
  show ?thesis
  proof (cases "occ x (unat s)")
    case True
    have "index_map x t = Some (val_at x (unat s))"
      using index_map_Some [of x t] x s(2,3) True by (auto simp: index_ok_def)
    then show ?thesis using True s(1) by (simp add: index_find_def Let_def found_def val_at_def gen_at_def ent_def occ_def)
  next
    case False
    then have "index_map x t = None" using s(4) by (simp add: index_map_None)
    then show ?thesis using False s(1) by (simp add: index_find_def Let_def found_def ent_def occ_def)
  qed
qed

lemma put_simps [simp]:
  "cap_of (put_ent x i e g) = cap_of x" "ix_mask (put_ent x i e g) = ix_mask x" "ix_key (put_ent x i e g) = ix_key x"
  "index_hash (put_ent x i e g) t = index_hash x t" "shape (put_ent x i e g) = shape x"
  by (auto simp: put_ent_def cap_of_def index_hash_def shape_def split: option.splits)

lemma put_at:
  assumes "unat i < cap_of x" and "shape x"
  shows "ix_ents (put_ent x i e g) ! p = (if p = unat i then e else ix_ents x ! p)"
    "occ (put_ent x i e g) p = (if p = unat i then ie_id e \<noteq> 0 else occ x p)"
    "tup_at (put_ent x i e g) p = (if p = unat i then ie_tup e else tup_at x p)"
    "home (put_ent x i e g) p = (if p = unat i then unat (ie_hash e AND ix_mask x) else home x p)"
    "val_at (put_ent x i e g) p = (if p = unat i then (ie_id e - 1, case ix_gens x of None \<Rightarrow> 0 | Some _ \<Rightarrow> g) else val_at x p)"
  using assms by (auto simp: put_ent_def cap_of_def occ_def tup_at_def home_def val_at_def shape_def nth_list_update split: option.splits)

definition used_slots :: "Index \<Rightarrow> nat" where
  "used_slots x = length (filter (\<lambda>e. ie_id e \<noteq> 0) (ix_ents x))"

lemma used_slots_card: "used_slots x = card {p. p < cap_of x \<and> occ x p}"
  by (simp add: used_slots_def cap_of_def occ_def length_filter_conv_card)

lemma two_empty:
  assumes "Suc (used_slots x) < cap_of x"
  shows "\<exists>E < cap_of x. \<not> occ x E \<and> E \<noteq> i"
proof (rule ccontr)
  assume "\<not> ?thesis"
  then have "{..<cap_of x} \<subseteq> insert i {p. p < cap_of x \<and> occ x p}" by auto
  then have "card {..<cap_of x} \<le> card (insert i {p. p < cap_of x \<and> occ x p})" by (intro card_mono) auto
  also have "\<dots> \<le> Suc (used_slots x)" by (simp add: used_slots_card card_insert_le_m1 card_insert_if)
  finally show False using assms by simp
qed

text \<open>The slot where the probe of a key stops, and storing the entry of the key there.\<close>

definition slot_for :: "Index \<Rightarrow> tuple \<Rightarrow> uint32 \<Rightarrow> bool" where
  "slot_for x t s \<longleftrightarrow> unat s < cap_of x \<and> on_run x (unat (index_hash x t AND ix_mask x)) (unat s) \<and> (occ x (unat s) \<longleftrightarrow> index_map x t \<noteq> None)
     \<and> (occ x (unat s) \<longrightarrow> tup_at x (unat s) = t) \<and> (\<forall>p < cap_of x. occ x p \<longrightarrow> p \<noteq> unat s \<longrightarrow> tup_at x p \<noteq> t)"

lemma probe_slot:
  assumes x: "index_ok x"
  shows "\<exists>s. probe x t (index_hash x t) (index_hash x t AND ix_mask x) = Some s \<and> slot_for x t s"
proof -
  obtain s where s: "probe x t (index_hash x t) (index_hash x t AND ix_mask x) = Some s" "unat s < cap_of x" "on_run x (unat (index_hash x t AND ix_mask x)) (unat s)"
    "occ x (unat s) \<Longrightarrow> tup_at x (unat s) = t \<and> ie_hash (ix_ents x ! unat s) = index_hash x t"
    "\<not> occ x (unat s) \<Longrightarrow> \<forall>p < cap_of x. occ x p \<longrightarrow> tup_at x p \<noteq> t"
    using probe_ok [OF x refl, of t] by metis
  have "occ x (unat s) \<longleftrightarrow> index_map x t \<noteq> None"
  proof
    show "index_map x t \<noteq> None" if "occ x (unat s)" using that s(2) s(4) index_map_None [of x t] by blast
    show "occ x (unat s)" if "index_map x t \<noteq> None" using that s(5) by (cases "occ x (unat s)") (simp_all add: index_map_None)
  qed
  moreover have "tup_at x p \<noteq> t" if p: "p < cap_of x" "occ x p" "p \<noteq> unat s" for p
  proof (cases "occ x (unat s)")
    case True
    have "tuples_ok x" using x by (simp add: index_ok_def)
    from this [unfolded tuples_ok_def, rule_format, OF p(1) s(2) p(2) True] show ?thesis using s(4) [OF True] p(3) by auto
  next
    case False
    then show ?thesis using s(5) p by simp
  qed
  ultimately have "slot_for x t s" unfolding slot_for_def using s(2-4) by simp
  then show ?thesis using s(1) by blast
qed

lemma put_tuples_ok:
  assumes s: "slot_for x t s" and ok: "shape x" "tuples_ok x" and e: "ie_tup e = t"
  shows "tuples_ok (put_ent x s e g)"
  unfolding tuples_ok_def put_simps
proof (intro allI impI)
  have lt: "unat s < cap_of x" and others: "\<And>p. p < cap_of x \<Longrightarrow> occ x p \<Longrightarrow> p \<noteq> unat s \<Longrightarrow> tup_at x p \<noteq> t" using s by (simp_all add: slot_for_def)
  note at = put_at [OF lt ok(1), of e g]
  fix p q assume pq: "p < cap_of x" "q < cap_of x" "occ (put_ent x s e g) p" "occ (put_ent x s e g) q" "tup_at (put_ent x s e g) p = tup_at (put_ent x s e g) q"
  show "p = q"
  proof (cases "p = unat s \<or> q = unat s")
    case True
    then show ?thesis using pq e others [of p] others [of q] by (cases "p = unat s"; cases "q = unat s") (simp_all add: at)
  next
    case False
    then show ?thesis using pq ok(2) [unfolded tuples_ok_def, rule_format, OF pq(1,2)] by (simp add: at)
  qed
qed

lemma put_map:
  assumes s: "slot_for x t s" and ok: "shape x" "tuples_ok x" and e: "ie_tup e = t" "ie_id e = row + 1" "row + 1 \<noteq> 0"
  shows "index_map (put_ent x s e g) = (index_map x)(t \<mapsto> (row, if ix_gens x = None then 0 else g))" (is "index_map ?y = ?m")
proof (rule map_ext_Some)
  have lt: "unat s < cap_of x" and others: "\<And>p. p < cap_of x \<Longrightarrow> occ x p \<Longrightarrow> p \<noteq> unat s \<Longrightarrow> tup_at x p \<noteq> t" and same: "occ x (unat s) \<longrightarrow> tup_at x (unat s) = t"
    using s by (simp_all add: slot_for_def)
  note at = put_at [OF lt ok(1), of e g] and ty = put_tuples_ok [OF s ok e(1), of g]
  fix t' v
  show "index_map ?y t' = Some v \<longleftrightarrow> ?m t' = Some v"
  proof (cases "t' = t")
    case True
    have "val_at ?y (unat s) = (row, if ix_gens x = None then 0 else g)" using e(2) by (auto simp: at split: option.splits)
    then show ?thesis unfolding index_map_Some [OF ty] put_simps using True lt others e by (auto simp: at split: if_splits)
  next
    case False
    have "(occ ?y p \<and> tup_at ?y p = t' \<and> val_at ?y p = v) \<longleftrightarrow> (occ x p \<and> tup_at x p = t' \<and> val_at x p = v)" for p
      using False same e(1) by (cases "p = unat s") (auto simp: at)
    then show ?thesis unfolding index_map_Some [OF ty] put_simps fun_upd_other [OF False] index_map_Some [OF ok(2)] by simp
  qed
qed

lemma put_used:
  assumes s: "slot_for x t s" and "shape x" and "ie_id e \<noteq> 0"
  shows "used_slots (put_ent x s e g) = used_slots x + (if index_map x t = None then 1 else 0)"
proof -
  have lt: "unat s < cap_of x" "occ x (unat s) \<longleftrightarrow> index_map x t \<noteq> None" using s by (simp_all add: slot_for_def)
  have "{p. p < cap_of x \<and> occ (put_ent x s e g) p} = insert (unat s) {p. p < cap_of x \<and> occ x p}"
    using lt(1) assms(3) by (auto simp: put_at [OF lt(1) assms(2)] split: if_splits)
  then show ?thesis unfolding used_slots_card using lt by (simp add: card_insert_if)
qed

lemma put_index_ok:
  assumes x: "index_ok x" and s: "slot_for x t s" and room: "index_map x t \<noteq> None \<or> Suc (used_slots x) < cap_of x"
    and e: "ie_tup e = t" "ie_hash e = index_hash x t" "ie_id e \<noteq> 0"
  shows "index_ok (put_ent x s e g)"
  unfolding index_ok_def
proof (intro conjI)
  let ?y = "put_ent x s e g"
  have ok: "shape x" "hashes_ok x" "tuples_ok x" using x by (simp_all add: index_ok_def)
  have lt: "unat s < cap_of x" "occ x (unat s) \<longleftrightarrow> index_map x t \<noteq> None" "on_run x (unat (index_hash x t AND ix_mask x)) (unat s)" using s by (simp_all add: slot_for_def)
  note at = put_at [OF lt(1) ok(1), of e g]
  show "shape ?y" "tuples_ok ?y" using ok(1) put_tuples_ok [OF s ok(1,3) e(1)] by simp_all
  show "hashes_ok ?y" unfolding hashes_ok_def put_simps at using ok(2) e by (auto simp: hashes_ok_def)
  show "\<exists>E < cap_of ?y. \<not> occ ?y E"
  proof (cases "index_map x t = None")
    case True
    then obtain E where "E < cap_of x" "\<not> occ x E" "E \<noteq> unat s" using two_empty [of x "unat s"] room by auto
    then show ?thesis unfolding put_simps at by auto
  next
    case False
    then obtain E where "E < cap_of x" "\<not> occ x E" using x by (auto simp: index_ok_def)
    then show ?thesis using False lt(2) unfolding put_simps at by (intro exI [of _ E]) auto
  qed
  have mono: "on_run x h q \<Longrightarrow> on_run ?y h q" for h q using e(3) unfolding on_run_def put_simps at by auto
  show "\<forall>p < cap_of ?y. occ ?y p \<longrightarrow> on_run ?y (home ?y p) p"
    using mono [OF lt(3)] mono x e(2) by (auto simp: at index_ok_def)
qed

lemma insert_ok:
  assumes x: "index_ok x" and room: "index_map x t \<noteq> None \<or> Suc (used_slots x) < cap_of x" and row: "row \<noteq> - 1"
  shows "\<exists>y. index_insert x t row g = Some y \<and> index_ok y \<and> cap_of y = cap_of x \<and> (ix_gens y = None \<longleftrightarrow> ix_gens x = None)
    \<and> index_map y = (index_map x)(t \<mapsto> (row, if ix_gens x = None then 0 else g))
    \<and> used_slots y = used_slots x + (if index_map x t = None then 1 else 0)"
proof -
  let ?e = "\<lparr>ie_tup = t, ie_hash = index_hash x t, ie_id = row + 1\<rparr>"
  obtain s where s: "probe x t (index_hash x t) (index_hash x t AND ix_mask x) = Some s" "slot_for x t s" using probe_slot [OF x] by blast
  have ok: "shape x" "tuples_ok x" using x by (simp_all add: index_ok_def)
  have id: "row + 1 \<noteq> 0" using row by (metis add.commute add_eq_0_iff)
  have "index_insert x t row g = Some (put_ent x s ?e g)" using s(1) by (simp add: index_insert_def Let_def)
  moreover have "index_ok (put_ent x s ?e g)" by (rule put_index_ok [OF x s(2) room]) (use id in simp_all)
  moreover have "ix_gens (put_ent x s ?e g) = None \<longleftrightarrow> ix_gens x = None" by (simp add: put_ent_def)
  ultimately show ?thesis using put_map [OF s(2) ok, of ?e row g] put_used [OF s(2) ok(1), of ?e g] id by (intro exI [of _ "put_ent x s ?e g"]) simp
qed

subsection \<open>Removing\<close>

text \<open>
  The state of the loop that closes a hole, seen from the empty slot \<open>E\<close>: the runs are whole but for
  the hole at \<open>i\<close>, and only the runs of entries after \<open>j\<close> may have it.
\<close>

definition holed :: "Index \<Rightarrow> nat \<Rightarrow> nat \<Rightarrow> nat \<Rightarrow> bool" where
  "holed x E i j \<longleftrightarrow> shape x \<and> hashes_ok x \<and> tuples_ok x \<and> E < cap_of x \<and> \<not> occ x E \<and> i < cap_of x \<and> \<not> occ x i \<and> i \<noteq> E
     \<and> j < cap_of x \<and> rot (cap_of x) E i \<le> rot (cap_of x) E j \<and> j \<noteq> E
     \<and> (\<forall>p < cap_of x. occ x p \<longrightarrow> rot (cap_of x) E (home x p) \<le> rot (cap_of x) E p
          \<and> (\<forall>q < cap_of x. rot (cap_of x) E (home x p) \<le> rot (cap_of x) E q \<longrightarrow> rot (cap_of x) E q < rot (cap_of x) E p
               \<longrightarrow> occ x q \<or> (q = i \<and> rot (cap_of x) E j < rot (cap_of x) E p)))"

definition same_content :: "Index \<Rightarrow> Index \<Rightarrow> bool" where
  "same_content x y \<longleftrightarrow> cap_of y = cap_of x \<and> index_map y = index_map x \<and> used_slots y = used_slots x \<and> (ix_gens y = None \<longleftrightarrow> ix_gens x = None)"

lemma home_bound: "shape x \<Longrightarrow> home x p < cap_of x"
  by (simp add: home_def shape_slot)

lemma holed_closed:
  assumes "holed x E i j" and "\<not> occ x (Suc j mod cap_of x)"
  shows "index_ok x"
proof -
  let ?n = "cap_of x" and ?r = "rot (cap_of x) E" and ?j = "Suc j mod cap_of x"
  note h = assms(1) [unfolded holed_def]
  have j: "?r ?j = Suc (?r j)" using h rot_next by blast
  have jn: "?j < ?n" using h by simp
  have "on_run x (home x p) p" if p: "p < ?n" "occ x p" for p
  proof -
    have hb: "home x p < ?n" using h home_bound by blast
    have "occ x q" if q: "q < ?n" "?r (home x p) \<le> ?r q" "?r q < ?r p" for q
    proof (rule ccontr)
      assume no: "\<not> occ x q"
      then have qi: "q = i" "?r j < ?r p" using h p q by blast+
      then have "?r ?j \<le> ?r p" using j by simp
      moreover have "?r ?j \<noteq> ?r p" using rot_inject [of E ?n ?j p] h jn p assms(2) by blast
      ultimately have lt: "?r ?j < ?r p" by simp
      have "?r (home x p) \<le> ?r ?j" "?r i < ?r ?j" using q(2) qi(1) j h by auto
      then show False using h p lt jn assms(2) by (metis less_irrefl)
    qed
    then show ?thesis using on_run_line [of E x p "home x p"] h p hb by blast
  qed
  then show ?thesis using h by (auto simp: index_ok_def)
qed

lemma movable_rot:
  assumes "E < n" "unat i < n" "unat j < n" "unat h < n" and "rot n E (unat i) < rot n E (unat j)"
  shows "movable i j h \<longleftrightarrow> \<not> (rot n E (unat i) < rot n E (unat h) \<and> rot n E (unat h) \<le> rot n E (unat j))"
  using assms unfolding movable_def word_less_nat_alt word_le_nat_alt by (auto simp: rot_def split: if_splits)

text \<open>Moving an entry into the hole.\<close>

definition moved :: "Index \<Rightarrow> uint32 \<Rightarrow> uint32 \<Rightarrow> Index" where
  "moved x i j = put_ent (put_ent x i (ent x j) (gen_at x j)) j zeroEnt 0"

lemma moved_at:
  assumes sh: "shape x" and lt: "unat i < cap_of x" "unat j < cap_of x" and ne: "unat i \<noteq> unat j" and occ: "occ x (unat j)"
  shows "cap_of (moved x i j) = cap_of x" "shape (moved x i j)" "index_hash (moved x i j) t = index_hash x t" "ix_gens (moved x i j) = None \<longleftrightarrow> ix_gens x = None"
    "occ (moved x i j) p \<longleftrightarrow> (p = unat i \<or> occ x p) \<and> p \<noteq> unat j"
    "p \<noteq> unat j \<Longrightarrow> tup_at (moved x i j) p = (if p = unat i then tup_at x (unat j) else tup_at x p)"
    "p \<noteq> unat j \<Longrightarrow> home (moved x i j) p = (if p = unat i then home x (unat j) else home x p)"
    "p \<noteq> unat j \<Longrightarrow> ie_hash (ix_ents (moved x i j) ! p) = (if p = unat i then ie_hash (ix_ents x ! unat j) else ie_hash (ix_ents x ! p))"
    "p \<noteq> unat j \<Longrightarrow> val_at (moved x i j) p = (if p = unat i then val_at x (unat j) else val_at x p)"
proof -
  note a1 = put_at [OF lt(1) sh, of "ent x j" "gen_at x j"]
  have lt': "unat j < cap_of (put_ent x i (ent x j) (gen_at x j))" and sh': "shape (put_ent x i (ent x j) (gen_at x j))" using lt sh by simp_all
  note a2 = put_at [OF lt' sh', of zeroEnt 0, folded moved_def, unfolded a1]
  show "occ (moved x i j) p \<longleftrightarrow> (p = unat i \<or> occ x p) \<and> p \<noteq> unat j"
    using a2(2) [of p] occ ne by (auto simp: zeroEnt_def occ_def ent_def)
  show "p \<noteq> unat j \<Longrightarrow> tup_at (moved x i j) p = (if p = unat i then tup_at x (unat j) else tup_at x p)"
    "p \<noteq> unat j \<Longrightarrow> home (moved x i j) p = (if p = unat i then home x (unat j) else home x p)"
    "p \<noteq> unat j \<Longrightarrow> ie_hash (ix_ents (moved x i j) ! p) = (if p = unat i then ie_hash (ix_ents x ! unat j) else ie_hash (ix_ents x ! p))"
    using a2(1,3,4) [of p] by (auto simp: tup_at_def ent_def home_def)
  show "p \<noteq> unat j \<Longrightarrow> val_at (moved x i j) p = (if p = unat i then val_at x (unat j) else val_at x p)"
    using a2(5) [of p] by (auto simp: val_at_def ent_def gen_at_def split: option.splits)
  show "cap_of (moved x i j) = cap_of x" "shape (moved x i j)" "index_hash (moved x i j) t = index_hash x t" "ix_gens (moved x i j) = None \<longleftrightarrow> ix_gens x = None"
    using sh by (simp_all add: moved_def) (simp add: put_ent_def)
qed

lemma moved_content:
  assumes m: "shape x" "unat i < cap_of x" "unat j < cap_of x" "unat i \<noteq> unat j" "occ x (unat j)" and i: "\<not> occ x (unat i)" and ok: "tuples_ok x" "hashes_ok x"
  shows "tuples_ok (moved x i j)" and "hashes_ok (moved x i j)" and "same_content x (moved x i j)"
proof -
  let ?n = "cap_of x" and ?y = "moved x i j"
  note y = moved_at [OF m]
  have source: "\<exists>q < ?n. occ x q \<and> tup_at x q = tup_at ?y p \<and> val_at x q = val_at ?y p \<and> (q = p \<or> (p = unat i \<and> q = unat j))"
    if "p < ?n" "occ ?y p" for p
    using that y(5,6,9) [of p] m(3,5) by (cases "p = unat i") auto
  have goes: "\<exists>q < ?n. occ ?y q \<and> tup_at ?y q = tup_at x p \<and> val_at ?y q = val_at x p" if "p < ?n" "occ x p" for p
    using that y(5,6,9) m(2,4) i by (cases "p = unat j") (metis, metis)
  show ty: "tuples_ok ?y" unfolding tuples_ok_def y(1)
  proof (intro allI impI)
    fix p q assume pq: "p < ?n" "q < ?n" "occ ?y p" "occ ?y q" "tup_at ?y p = tup_at ?y q"
    obtain p' q' where "p' < ?n" "occ x p'" "tup_at x p' = tup_at ?y p" "p' = p \<or> (p = unat i \<and> p' = unat j)"
      "q' < ?n" "occ x q'" "tup_at x q' = tup_at ?y q" "q' = q \<or> (q = unat i \<and> q' = unat j)"
      using source [OF pq(1,3)] source [OF pq(2,4)] by blast
    moreover from this have "p' = q'" using ok(1) pq(5) unfolding tuples_ok_def by metis
    ultimately show "p = q" using y(5) pq(3,4) by metis
  qed
  have hx: "ie_hash (ix_ents x ! q) = index_hash x (tup_at x q)" if "q < ?n" "occ x q" for q using ok(2) that by (simp add: hashes_ok_def)
  have "ie_hash (ix_ents ?y ! p) = index_hash x (tup_at ?y p)" if "p < ?n" "occ ?y p" for p
    using that y(5,6,8) [of p] hx [of p] hx [OF m(3,5)] by (cases "p = unat i") auto
  then show "hashes_ok ?y" by (simp add: hashes_ok_def y(1,3))
  have "index_map ?y = index_map x"
    by (rule map_ext_Some) (unfold index_map_Some [OF ty] index_map_Some [OF ok(1)] y(1), use source goes in metis)
  moreover have "{p. p < ?n \<and> occ ?y p} = insert (unat i) ({p. p < ?n \<and> occ x p} - {unat j})" using y(5) m(2,4) by auto
  then have "used_slots ?y = used_slots x"
    using card_Suc_Diff1 [of "{p. p < ?n \<and> occ x p}" "unat j"] m(3,5) i by (simp add: used_slots_card y(1) card_insert_if del: card_Diff_singleton)
  ultimately show "same_content x ?y" using y(1-4) by (simp add: same_content_def)
qed

lemma holed_move:
  assumes "holed x E (unat i) (unat j)" and j': "unat j' = Suc (unat j) mod cap_of x" and occ: "occ x (unat j')"
    and home: "rot (cap_of x) E (home x (unat j')) \<le> rot (cap_of x) E (unat i)"
  shows "holed (moved x i j') E (unat j') (unat j') \<and> same_content x (moved x i j')"
proof -
  let ?n = "cap_of x" and ?r = "rot (cap_of x) E" and ?y = "moved x i j'"
  note h = assms(1) [unfolded holed_def]
  have lt: "shape x" "unat i < ?n" "unat j' < ?n" using h j' by auto
  have rj: "?r (unat j') = Suc (?r (unat j))" using h rot_next j' by metis
  have ne: "unat i \<noteq> unat j'" using occ h by metis
  note y = moved_at [OF lt ne occ]
  have c: "tuples_ok ?y" "hashes_ok ?y" "same_content x ?y" using moved_content [OF lt ne occ] h by blast+
  have runs: "?r (home x a) \<le> ?r a" "?r (home x a) \<le> ?r q \<Longrightarrow> ?r q < ?r a \<Longrightarrow> q < ?n \<Longrightarrow> occ x q \<or> q = unat i"
    if "a < ?n" "occ x a" for a q using h that by blast+
  have line: "?r (home ?y p) \<le> ?r p \<and> (\<forall>q < ?n. ?r (home ?y p) \<le> ?r q \<longrightarrow> ?r q < ?r p \<longrightarrow> occ ?y q \<or> (q = unat j' \<and> ?r (unat j') < ?r p))"
    if p: "p < ?n" "occ ?y p" for p
  proof (cases "p = unat i")
    case True
    have pj: "p \<noteq> unat j'" using y(5) p(2) by blast
    have "occ ?y q" if q: "q < ?n" "?r (home ?y p) \<le> ?r q" "?r q < ?r p" for q
    proof -
      have "?r (unat i) \<le> ?r (unat j)" using h by blast
      then have lr: "?r q < ?r (unat j')" using q(3) True rj by simp
      moreover have "?r (home x (unat j')) \<le> ?r q" using q(2) True y(7) [OF pj] by simp
      ultimately have "occ x q \<or> q = unat i" using runs(2) [OF lt(3) occ _ _ q(1)] by blast
      moreover have "q \<noteq> unat j'" using lr by blast
      ultimately show ?thesis using y(5) by blast
    qed
    then show ?thesis using True home y(7) [OF pj] by auto
  next
    case False
    then have px: "occ x p" and pj: "p \<noteq> unat j'" using y(5) p(2) by blast+
    have hm: "home ?y p = home x p" using y(7) [OF pj] False by simp
    show ?thesis unfolding hm using runs [OF p(1) px] y(5) by blast
  qed
  have "holed ?y E (unat j') (unat j')" unfolding holed_def y(1) using y(2) c(1,2) h lt line y(5) by (auto simp: occ)
  then show ?thesis using c(3) by blast
qed

lemma holed_stays:
  assumes "holed x E i j" and occ: "occ x (Suc j mod cap_of x)"
    and home: "rot (cap_of x) E i < rot (cap_of x) E (home x (Suc j mod cap_of x))"
  shows "holed x E i (Suc j mod cap_of x)"
proof -
  let ?n = "cap_of x" and ?r = "rot (cap_of x) E" and ?j = "Suc j mod cap_of x"
  note h = assms(1) [unfolded holed_def]
  have rj: "?r ?j = Suc (?r j)" using h rot_next by blast
  have jn: "?j < ?n" "?j \<noteq> E" using h occ by auto
  have "occ x q \<or> (q = i \<and> ?r ?j < ?r p)" if p: "p < ?n" "occ x p" and q: "q < ?n" "?r (home x p) \<le> ?r q" "?r q < ?r p" for p q
  proof (cases "occ x q")
    case False
    then have qi: "q = i" "?r j < ?r p" using h p q by blast+
    have "p \<noteq> ?j" using home q(2) qi(1) by auto
    then have "?r ?j \<noteq> ?r p" using rot_inject [of E ?n ?j p] h jn p by blast
    then show ?thesis using qi rj by simp
  qed simp
  moreover have "?r i \<le> ?r ?j" using h rj by auto
  ultimately show ?thesis unfolding holed_def using h jn by blast
qed

lemma shift_back_ok:
  assumes "holed x E (unat i) (unat j)"
  shows "\<exists>y. shift_back x i j = Some y \<and> index_ok y \<and> same_content x y"
  using assms
proof (induction "cap_of x - rot (cap_of x) E (unat j)" arbitrary: x i j rule: less_induct)
  case less
  let ?n = "cap_of x" and ?r = "rot (cap_of x) E" and ?j = "(j + 1) AND ix_mask x"
  note h = less.prems [unfolded holed_def]
  have sh: "shape x" and jn: "unat j < ?n" using h by blast+
  have j': "unat ?j = Suc (unat j) mod ?n" by (rule shape_next [OF sh jn])
  have rj: "?r (unat ?j) = Suc (?r (unat j))" using h rot_next unfolding j' by blast
  have "?r (unat j) < ?n" using rot_bounds(1) h by blast
  then have less_gap: "?n - ?r (unat ?j) < ?n - ?r (unat j)" using rj by simp
  have unfold: "shift_back x i j = (if ie_id (ent x ?j) = 0 then Some x
      else if movable i ?j (ie_hash (ent x ?j) AND ix_mask x)
      then shift_back (moved x i ?j) ?j ?j
      else shift_back x i ?j)"
    by (subst shift_back.simps) (simp add: Let_def moved_def)
  have io: "ie_id (ent x ?j) = 0 \<longleftrightarrow> \<not> occ x (unat ?j)" by (simp add: occ_def ent_def)
  show ?case
  proof (cases "occ x (unat ?j)")
    case False
    then have "index_ok x" using holed_closed [OF less.prems] j' by simp
    then show ?thesis using unfold io False by (simp add: same_content_def)
  next
    case True
    have le: "?r (unat i) \<le> ?r (unat j)" using h by blast
    have lt: "unat ?j < ?n" "unat i < ?n" "E < ?n" using h j' by auto
    have hp: "?r (home x (unat ?j)) \<le> ?r (unat ?j)" using h True lt by blast
    have hb: "unat (ie_hash (ent x ?j) AND ix_mask x) = home x (unat ?j)" by (simp add: home_def ent_def)
    have mv: "movable i ?j (ie_hash (ent x ?j) AND ix_mask x) \<longleftrightarrow> ?r (home x (unat ?j)) \<le> ?r (unat i)"
      using movable_rot [OF lt(3,2,1), of "ie_hash (ent x ?j) AND ix_mask x"] home_bound [OF sh] le rj hp unfolding hb by auto
    show ?thesis
    proof (cases "?r (home x (unat ?j)) \<le> ?r (unat i)")
      case move: True
      let ?y = "moved x i ?j"
      have y: "holed ?y E (unat ?j) (unat ?j)" "same_content x ?y" using holed_move [OF less.prems j' True move] by blast+
      have "\<exists>z. shift_back ?y ?j ?j = Some z \<and> index_ok z \<and> same_content ?y z"
        using y less_gap by (intro less.hyps) (simp_all add: same_content_def)
      then show ?thesis using unfold io True mv move y(2) by (auto simp: same_content_def)
    next
      case False
      then have "holed x E (unat i) (unat ?j)" using holed_stays [OF less.prems] True j' by simp
      then show ?thesis using less.hyps [of x ?j i] less_gap unfold io True mv False by simp
    qed
  qed
qed

text \<open>Taking out an entry leaves a hole.\<close>

lemma remove_holed:
  assumes x: "index_ok x" and s: "unat s < cap_of x" "occ x (unat s)" and E: "E < cap_of x" "\<not> occ x E"
  defines "y \<equiv> put_ent x s zeroEnt 0"
  shows "holed y E (unat s) (unat s) \<and> index_map y = (index_map x)(tup_at x (unat s) := None) \<and> used_slots x = Suc (used_slots y)"
proof -
  let ?n = "cap_of x" and ?r = "rot (cap_of x) E"
  have ok: "shape x" "hashes_ok x" "tuples_ok x" using x by (simp_all add: index_ok_def)
  note at = put_at [OF s(1) ok(1), of zeroEnt 0, folded y_def]
  have yo: "occ y p \<longleftrightarrow> occ x p \<and> p \<noteq> unat s" for p using at(2) [of p] by (simp add: zeroEnt_def)
  have same: "p \<noteq> unat s \<Longrightarrow> tup_at y p = tup_at x p \<and> home y p = home x p \<and> val_at y p = val_at x p \<and> ix_ents y ! p = ix_ents x ! p" for p
    using at by simp
  have sy: "cap_of y = ?n" "shape y" "\<And>t. index_hash y t = index_hash x t" using ok(1) by (simp_all add: y_def)
  have ty: "tuples_ok y" using ok(3) same yo unfolding tuples_ok_def sy by metis
  have hy: "hashes_ok y" using ok(2) same yo unfolding hashes_ok_def sy by metis
  have line: "?r (home y p) \<le> ?r p \<and> (\<forall>q < ?n. ?r (home y p) \<le> ?r q \<longrightarrow> ?r q < ?r p \<longrightarrow> occ y q \<or> (q = unat s \<and> ?r (unat s) < ?r p))"
    if p: "p < ?n" "occ y p" for p
  proof -
    have px: "occ x p" "p \<noteq> unat s" using p yo by auto
    then have "on_run x (home x p) p" using x p(1) by (simp add: index_ok_def)
    then show ?thesis using on_run_line [OF E p(1) home_bound [OF ok(1)]] same [OF px(2)] yo by auto
  qed
  have "holed y E (unat s) (unat s)"
    unfolding holed_def sy using sy(2) hy ty E s line yo by auto
  moreover have "index_map y = (index_map x)(tup_at x (unat s) := None)" (is "_ = ?m")
  proof (rule map_ext_Some)
    fix t v
    show "index_map y t = Some v \<longleftrightarrow> ?m t = Some v"
    proof (cases "t = tup_at x (unat s)")
      case True
      have "tup_at y p \<noteq> t" if "p < ?n" "occ y p" for p
        using that yo same ok(3) [unfolded tuples_ok_def, rule_format, OF that(1) s(1) _ s(2)] True by auto
      then show ?thesis unfolding index_map_Some [OF ty] sy using True by auto
    next
      case False
      then have "(occ y p \<and> tup_at y p = t \<and> val_at y p = v) \<longleftrightarrow> (occ x p \<and> tup_at x p = t \<and> val_at x p = v)" for p
        using yo same by (cases "p = unat s") auto
      then show ?thesis unfolding index_map_Some [OF ty] sy fun_upd_other [OF False] index_map_Some [OF ok(3)] by simp
    qed
  qed
  moreover have "used_slots x = Suc (used_slots y)"
  proof -
    have "{p. p < ?n \<and> occ y p} = {p. p < ?n \<and> occ x p} - {unat s}" using yo by auto
    then show ?thesis using card_Suc_Diff1 [of "{p. p < ?n \<and> occ x p}" "unat s"] s by (simp add: used_slots_card sy del: card_Diff_singleton)
  qed
  ultimately show ?thesis by blast
qed

lemma remove_ok:
  assumes x: "index_ok x"
  shows "\<exists>y. index_remove x t = Some (index_map x t \<noteq> None, y) \<and> index_ok y \<and> cap_of y = cap_of x \<and> (ix_gens y = None \<longleftrightarrow> ix_gens x = None)
    \<and> index_map y = (index_map x)(t := None)
    \<and> used_slots x = used_slots y + (if index_map x t = None then 0 else 1)"
proof -
  let ?h = "index_hash x t" and ?n = "cap_of x"
  obtain s where s: "probe x t ?h (?h AND ix_mask x) = Some s" "unat s < ?n"
    "occ x (unat s) \<Longrightarrow> tup_at x (unat s) = t"
    "\<not> occ x (unat s) \<Longrightarrow> \<forall>p < ?n. occ x p \<longrightarrow> tup_at x p \<noteq> t"
    using probe_ok [OF x refl, of t] by metis
  have io: "ie_id (ent x s) = 0 \<longleftrightarrow> \<not> occ x (unat s)" by (simp add: occ_def ent_def)
  show ?thesis
  proof (cases "occ x (unat s)")
    case False
    then have n: "index_map x t = None" using s(4) by (simp add: index_map_None)
    then have "(index_map x)(t := None) = index_map x" by auto
    then show ?thesis using x n s(1) io False by (simp add: index_remove_def Let_def)
  next
    case True
    have some: "index_map x t \<noteq> None" using True s(2) s(3) [OF True] index_map_None [of x t] by blast
    obtain E where E: "E < ?n" "\<not> occ x E" using x by (auto simp: index_ok_def)
    note hole = remove_holed [OF x s(2) True E]
    obtain y where y: "shift_back (put_ent x s zeroEnt 0) s s = Some y" "index_ok y" "same_content (put_ent x s zeroEnt 0) y"
      using shift_back_ok hole by blast
    have "ix_gens (put_ent x s zeroEnt 0) = None \<longleftrightarrow> ix_gens x = None" by (simp add: put_ent_def)
    then show ?thesis using y hole s(1) s(3) [OF True] io True some by (auto simp: index_remove_def Let_def same_content_def)
  qed
qed

subsection \<open>The contract\<close>

lemma index_map_dom: "dom (index_map x) = tup_at x ` {p. p < cap_of x \<and> occ x p}"
  by (auto simp: index_map_def dom_map_of_conv_image_fst image_iff)

lemma index_map_card:
  assumes "tuples_ok x"
  shows "card (dom (index_map x)) = used_slots x"
  unfolding index_map_dom used_slots_card
  by (rule card_image) (use assms in \<open>auto simp: inj_on_def tuples_ok_def\<close>)

lemma index_size_power: "\<exists>m. index_size k rows = 2 ^ m \<and> 2 * rows \<le> 2 ^ m \<and> (2 * rows \<le> 2 ^ b \<longrightarrow> k \<le> b \<longrightarrow> m \<le> b)"
proof (induction k rows rule: index_size.induct)
  case (1 k rows)
  show ?case
  proof (cases "2 ^ k < 2 * rows")
    case True
    then have "index_size k rows = index_size (Suc k) rows" by (subst index_size.simps) simp
    moreover have "Suc k \<le> b" if "2 * rows \<le> 2 ^ b"
    proof -
      have "(2 :: nat) ^ k < 2 ^ b" using True that by linarith
      then show ?thesis by (simp add: Suc_le_eq)
    qed
    ultimately show ?thesis using 1 [OF True] by auto
  next
    case False
    then show ?thesis by (subst index_size.simps) auto
  qed
qed

lemma newIndex_ok:
  assumes "rows \<le> 2 ^ 30"
  shows "index_ok (newIndex rows key withGen) \<and> index_map (newIndex rows key withGen) = Map.empty
    \<and> 2 * rows \<le> cap_of (newIndex rows key withGen)"
proof -
  let ?x = "newIndex rows key withGen"
  obtain m where m: "index_size 0 rows = 2 ^ m" "2 * rows \<le> 2 ^ m" "m \<le> 31"
    using index_size_power [of 0 rows 31] assms by auto
  have cap: "cap_of ?x = 2 ^ m" by (simp add: newIndex_def Let_def cap_of_def m(1))
  have free: "\<not> occ ?x p" if "p < cap_of ?x" for p
    using that cap by (simp add: occ_def newIndex_def Let_def m(1) zeroEnt_def)
  have "(word_of_nat (2 ^ m - 1) :: uint32) = mask m" by (simp add: mask_eq_exp_minus_1 of_nat_diff)
  then have "shape ?x" using m(3) cap by (auto simp: shape_def newIndex_def Let_def m(1) split: option.splits)
  moreover have "\<exists>E < cap_of ?x. \<not> occ ?x E" using free [of 0] by (intro exI [of _ 0]) (simp add: cap)
  moreover have "index_map ?x = Map.empty" using free by (auto simp: index_map_None fun_eq_iff)
  ultimately show ?thesis using free m(2) cap by (auto simp: index_ok_def hashes_ok_def tuples_ok_def)
qed

text \<open>The rows of the table: a key with its row and, if the table has them, its generation.\<close>

definition index_lookup :: "Index \<Rightarrow> tuple \<Rightarrow> (uint32 \<times> uint64) option option" where
  "index_lookup x t = map_option (\<lambda>(row, g). if row = - 1 then None else Some (row, g)) (index_find x t)"

definition index_put :: "Index \<Rightarrow> tuple \<Rightarrow> uint32 \<times> uint64 \<Rightarrow> Index option" where
  "index_put x t v = index_insert x t (fst v) (snd v)"

definition row_valid :: "bool \<Rightarrow> uint32 \<times> uint64 \<Rightarrow> bool" where
  "row_valid withGen v = (fst v \<noteq> - 1 \<and> (withGen \<or> snd v = 0))"

definition index_inv :: "nat \<Rightarrow> bool \<Rightarrow> Index \<Rightarrow> bool" where
  "index_inv rows withGen x \<longleftrightarrow> index_ok x \<and> 2 * rows \<le> cap_of x \<and> (ix_gens x = None \<longleftrightarrow> \<not> withGen)"

lemma row_not_none:
  assumes "index_ok x" and "index_map x t = Some (row, g)"
  shows "row \<noteq> - 1"
proof -
  obtain p where "occ x p" "val_at x p = (row, g)" using assms index_map_Some [of x t] by (auto simp: index_ok_def)
  then show ?thesis by (auto simp: occ_def val_at_def)
qed

interpretation flow_table: bounded_map "index_inv rows withGen" index_map rows "row_valid withGen" index_lookup index_put index_remove
  for rows withGen
proof
  fix x t
  assume x: "index_inv rows withGen x"
  then have ok: "index_ok x" by (simp add: index_inv_def)
  show "index_lookup x t = Some (index_map x t)"
    using find_refines [OF ok, of t] row_not_none [OF ok, of t] by (auto simp: index_lookup_def found_def split: option.splits)
  show "\<exists>y. index_remove x t = Some (index_map x t \<noteq> None, y) \<and> index_inv rows withGen y \<and> index_map y = (index_map x)(t := None)"
    using remove_ok [OF ok, of t] x by (auto simp: index_inv_def)
  fix v
  assume v: "row_valid withGen v" and card: "card (dom ((index_map x)(t \<mapsto> v))) \<le> rows"
  have fin: "finite (dom (index_map x))" by (simp add: index_map_def finite_dom_map_of)
  have "tuples_ok x" using ok by (simp add: index_ok_def)
  then have "Suc (used_slots x) \<le> rows" if "index_map x t = None"
    using card that fin index_map_card by (simp add: domIff)
  then have room: "index_map x t \<noteq> None \<or> Suc (used_slots x) < cap_of x" using x by (fastforce simp: index_inv_def)
  have "fst v \<noteq> - 1" using v by (simp add: row_valid_def)
  from insert_ok [OF ok room this, of "snd v"]
  show "\<exists>y. index_put x t v = Some y \<and> index_inv rows withGen y \<and> index_map y = (index_map x)(t \<mapsto> v)"
    using x v by (cases v) (auto simp: index_put_def index_inv_def row_valid_def)
qed

subsection \<open>Sequence numbers\<close>

text \<open>Numbers less than half the space apart compare as the offsets they stand for.\<close>

lemma sint_diff_small:
  assumes "\<bar>a - b\<bar> < 2 ^ 31"
  shows "sint (word_of_int a - word_of_int b :: uint32) = a - b"
proof -
  have "sint (word_of_int (a - b) :: uint32) = signed_take_bit 31 (a - b)" by (simp add: signed_of_int del: of_int_diff)
  also have "\<dots> = a - b" using assms by (intro signed_take_bit_int_eq_self) simp_all
  finally show ?thesis by simp
qed

lemma seq_compare:
  assumes "\<bar>a - b\<bar> < 2 ^ 31"
  shows "seqLT (word_of_int a) (word_of_int b) \<longleftrightarrow> a < b" "seqLE (word_of_int a) (word_of_int b) \<longleftrightarrow> a \<le> b"
    "seqGT (word_of_int a) (word_of_int b) \<longleftrightarrow> a > b" "seqGE (word_of_int a) (word_of_int b) \<longleftrightarrow> a \<ge> b"
  unfolding seqLT_def seqLE_def seqGT_def seqGE_def sint_diff_small [OF assms] by auto

end
