(* ===== verification/Ring.thy ===== *)
theory Ring
  imports GoLib
begin

section \<open>Byte rings and record rings (internal/wgstack: ring.go, records.go, const.go)\<close>

text \<open>
  A ring keeps the bytes of a stream at their offset modulo its capacity, in chunks of
  16 KiB that it takes from a pool when it writes and gives back when no live byte is in
  them. An offset is a \<^typ>\<open>uint64\<close>. A chunk is owned by one ring or by the pool at a time,
  so a pointer to one is modelled by its content, and each operation takes and returns the
  pool. \<open>None\<close> is an index out of range of the array of chunks.
\<close>

unbundle bit_operations_syntax

subsection \<open>Constants\<close>

definition chunkShift :: nat where "chunkShift = 14"
definition chunkSize :: nat where "chunkSize = 16384"
definition sendFloor :: nat where "sendFloor = 256 * 1024"
definition recvFloor :: nat where "recvFloor = 256 * 1024"
definition boostSize :: nat where "boostSize = 4 * 1024 * 1024"
definition ring_slots :: nat where "ring_slots = boostSize div chunkSize"
definition chunkPoolKeep :: nat where "chunkPoolKeep = 64"

lemmas ring_consts = chunkShift_def chunkSize_def sendFloor_def recvFloor_def boostSize_def ring_slots_def

subsection \<open>The pool of chunks\<close>

type_synonym chunk = "uint8 list"

definition new_chunk :: chunk where "new_chunk = replicate chunkSize 0"

record chunkPool =
  cp_free :: "chunk list"
  cp_held :: int
  cp_closed :: bool

definition pool_get :: "chunkPool \<Rightarrow> chunk \<times> chunkPool" where
  "pool_get p =
     (let p = p\<lparr>cp_held := cp_held p + 1\<rparr> in
      if cp_free p \<noteq> [] then (last (cp_free p), p\<lparr>cp_free := butlast (cp_free p)\<rparr>) else (new_chunk, p))"

text \<open>\<open>put\<close> clears the chunk before it keeps it.\<close>

definition pool_put :: "chunkPool \<Rightarrow> chunk \<Rightarrow> chunkPool" where
  "pool_put p c =
     (let c = map (\<lambda>_. 0) c; p = p\<lparr>cp_held := cp_held p - 1\<rparr> in
      if \<not> cp_closed p \<and> length (cp_free p) < chunkPoolKeep then p\<lparr>cp_free := cp_free p @ [c]\<rparr> else p)"

subsection \<open>Rings\<close>

record ring =
  rg_cap :: uint64
  rg_chunks :: "chunk option list"

definition ring_of_cap :: "uint64 \<Rightarrow> ring" where
  "ring_of_cap c = \<lparr>rg_cap = c, rg_chunks = replicate ring_slots None\<rparr>"

definition slots :: "ring \<Rightarrow> uint64" where
  "slots r = drop_bit chunkShift (rg_cap r)"

text \<open>The slot of an offset and the place in its chunk.\<close>

definition slot_of :: "ring \<Rightarrow> uint64 \<Rightarrow> nat" where
  "slot_of r off = unat (drop_bit chunkShift (off AND (rg_cap r - 1)))"

definition place_of :: "ring \<Rightarrow> uint64 \<Rightarrow> nat" where
  "place_of r off = unat ((off AND (rg_cap r - 1)) AND (word_of_nat chunkSize - 1))"

lemma place_less: "place_of r off < chunkSize"
proof -
  have "word_of_nat chunkSize - 1 = (mask 14 :: uint64)" by (simp add: chunkSize_def mask_eq_exp_minus_1)
  then have "place_of r off = take_bit 14 (unat (off AND (rg_cap r - 1)))"
    unfolding place_of_def by (simp only: take_bit_eq_mask [symmetric] unsigned_take_bit_eq)
  then show ?thesis by (simp add: chunkSize_def take_bit_nat_less_exp [of 14, simplified])
qed

text \<open>One turn of the loop of \<open>write\<close>: the chunk of the offset with the data that fits copied into it.\<close>

definition copy_into :: "chunk \<Rightarrow> nat \<Rightarrow> uint8 list \<Rightarrow> chunk" where
  "copy_into c p data = take p c @ take (chunkSize - p) data @ drop (p + length (take (chunkSize - p) data)) c"

definition chunk_for :: "ring \<Rightarrow> chunkPool \<Rightarrow> nat \<Rightarrow> chunk \<times> chunkPool" where
  "chunk_for r pool i = (case rg_chunks r ! i of Some c \<Rightarrow> (c, pool) | None \<Rightarrow> pool_get pool)"

function ring_write :: "ring \<Rightarrow> chunkPool \<Rightarrow> uint64 \<Rightarrow> uint8 list \<Rightarrow> (ring \<times> chunkPool) option" where
  "ring_write r pool off data =
     (if data = [] then Some (r, pool)
      else if slot_of r off \<ge> length (rg_chunks r) then None
      else
        let (c, pool) = chunk_for r pool (slot_of r off);
            n = min (chunkSize - place_of r off) (length data)
        in ring_write (r\<lparr>rg_chunks := (rg_chunks r)[slot_of r off := Some (copy_into c (place_of r off) data)]\<rparr>)
             pool (off + word_of_nat n) (drop n data))"
  by pat_completeness auto
termination
  by (relation "measure (\<lambda>(_, _, _, data). length data)") (use place_less in \<open>auto simp: min_def not_le\<close>)

text \<open>\<open>read\<close> of \<open>n\<close> bytes.\<close>

function ring_read :: "ring \<Rightarrow> uint64 \<Rightarrow> nat \<Rightarrow> uint8 list option" where
  "ring_read r off n =
     (if n = 0 then Some []
      else if slot_of r off \<ge> length (rg_chunks r) then None
      else
        let m = min n (chunkSize - place_of r off);
            bytes = (case rg_chunks r ! slot_of r off of None \<Rightarrow> replicate m 0 | Some c \<Rightarrow> take m (drop (place_of r off) c))
        in map_option (append bytes) (ring_read r (off + word_of_nat m) (n - m)))"
  by pat_completeness auto
termination
  by (relation "measure (\<lambda>(_, _, n). n)") (use place_less in \<open>auto simp: min_def not_le\<close>)

declare ring_write.simps [simp del] ring_read.simps [simp del]

definition live :: "ring \<Rightarrow> uint64 \<Rightarrow> uint64 \<Rightarrow> uint64 \<Rightarrow> bool" where
  "live r i lo hi =
     (if hi \<le> lo then False
      else
        let n = slots r; a0 = drop_bit chunkShift lo; a1 = drop_bit chunkShift (hi - 1)
        in if a1 - a0 + 1 \<ge> n then True else (i + n - a0 mod n) mod n \<le> a1 - a0)"

text \<open>Giving back the chunk of slot \<open>i\<close> when no live byte is in it.\<close>

definition drop_dead :: "uint64 \<Rightarrow> uint64 \<Rightarrow> uint64 \<Rightarrow> ring \<times> chunkPool \<Rightarrow> ring \<times> chunkPool" where
  "drop_dead lo hi i s =
     (let (r, pool) = s in
      case rg_chunks r ! unat i of
        Some c \<Rightarrow> (if \<not> live r i lo hi then (r\<lparr>rg_chunks := (rg_chunks r)[unat i := None]\<rparr>, pool_put pool c) else s)
      | None \<Rightarrow> s)"

definition trim :: "ring \<Rightarrow> chunkPool \<Rightarrow> uint64 \<Rightarrow> uint64 \<Rightarrow> uint64 \<Rightarrow> ring \<times> chunkPool" where
  "trim r pool oldLo lo hi =
     (if lo \<le> oldLo then (r, pool)
      else
        let n = slots r;
            a = drop_bit chunkShift oldLo; b = drop_bit chunkShift (lo - 1);
            (a, b) = (if b - a + 1 \<ge> n then (0, n - 1) else (a, b))
        in fold (\<lambda>k. drop_dead lo hi (word_of_nat k mod n)) [unat a..<Suc (unat b)] (r, pool))"

definition retain :: "ring \<Rightarrow> chunkPool \<Rightarrow> uint64 \<Rightarrow> uint64 \<Rightarrow> ring \<times> chunkPool" where
  "retain r pool lo hi = fold (\<lambda>k. drop_dead lo hi (word_of_nat k)) [0..<unat (slots r)] (r, pool)"

definition give_back :: "chunk option \<Rightarrow> chunkPool \<Rightarrow> chunkPool" where
  "give_back x pool = (case x of Some c \<Rightarrow> pool_put pool c | None \<Rightarrow> pool)"

definition release :: "ring \<Rightarrow> chunkPool \<Rightarrow> ring \<times> chunkPool" where
  "release r pool = (r\<lparr>rg_chunks := map (\<lambda>_. None) (rg_chunks r)\<rparr>, fold give_back (rg_chunks r) pool)"

text \<open>The loop of \<open>resize\<close> over one written range, in pieces of at most 1024 bytes.\<close>

function move_range :: "ring \<Rightarrow> nat \<Rightarrow> uint64 \<Rightarrow> ring \<times> chunkPool \<Rightarrow> (ring \<times> chunkPool) option" where
  "move_range old len off s =
     (if len = 0 then Some s
      else
        let n = min 1024 len in
        case ring_read old off n of
          None \<Rightarrow> None
        | Some bytes \<Rightarrow>
            (case ring_write (fst s) (snd s) off bytes of
               None \<Rightarrow> None
             | Some s' \<Rightarrow> move_range old (len - n) (off + word_of_nat n) s'))"
  by pat_completeness auto
termination by (relation "measure (\<lambda>(_, len, _, _). len)") auto

declare move_range.simps [simp del]

fun move_ranges :: "ring \<Rightarrow> (uint64 \<times> uint64) list \<Rightarrow> ring \<times> chunkPool \<Rightarrow> (ring \<times> chunkPool) option" where
  "move_ranges old [] s = Some s"
| "move_ranges old ((a, b) # ws) s =
     (case move_range old (unat b - unat a) a s of None \<Rightarrow> None | Some s' \<Rightarrow> move_ranges old ws s')"

definition ring_resize :: "ring \<Rightarrow> chunkPool \<Rightarrow> uint64 \<Rightarrow> (uint64 \<times> uint64) list \<Rightarrow> (ring \<times> chunkPool) option" where
  "ring_resize r pool newCap written =
     (if newCap = rg_cap r then Some (r, pool)
      else
        map_option (\<lambda>(r', pool). (r', snd (release r pool)))
          (move_ranges r written (r\<lparr>rg_cap := newCap, rg_chunks := replicate (length (rg_chunks r)) None\<rparr>, pool)))"

definition heldChunks :: "ring \<Rightarrow> nat" where
  "heldChunks r = length (filter (\<lambda>c. c \<noteq> None) (take (unat (slots r)) (rg_chunks r)))"

subsection \<open>Record rings\<close>

record 'a recordRing =
  rr_recs :: "'a list"
  rr_head :: nat
  rr_n :: nat

definition rr_full :: "'a recordRing \<Rightarrow> bool" where
  "rr_full r = (rr_n r = length (rr_recs r))"

definition rr_at :: "'a recordRing \<Rightarrow> nat \<Rightarrow> 'a" where
  "rr_at r i = rr_recs r ! ((rr_head r + i) mod length (rr_recs r))"

definition rr_push :: "'a recordRing \<Rightarrow> 'a \<Rightarrow> 'a recordRing" where
  "rr_push r x = r\<lparr>rr_recs := (rr_recs r)[(rr_head r + rr_n r) mod length (rr_recs r) := x], rr_n := rr_n r + 1\<rparr>"

definition rr_pop :: "'a recordRing \<Rightarrow> 'a recordRing" where
  "rr_pop r = r\<lparr>rr_head := (rr_head r + 1) mod length (rr_recs r), rr_n := rr_n r - 1\<rparr>"

fun rr_copy :: "'a recordRing \<Rightarrow> nat \<Rightarrow> 'a list \<Rightarrow> 'a list" where
  "rr_copy r 0 xs = xs"
| "rr_copy r (Suc i) xs = (rr_copy r i xs)[i := rr_at r i]"

definition rr_resize :: "'a recordRing \<Rightarrow> 'a list \<Rightarrow> 'a recordRing" where
  "rr_resize r newRecs = r\<lparr>rr_recs := rr_copy r (rr_n r) newRecs, rr_head := 0\<rparr>"

end
