(* ===== verification/Ring_Laws.thy ===== *)
theory Ring_Laws
  imports Ring Circle
begin

section \<open>What a ring holds\<close>

text \<open>
  \<open>cell r q\<close> is the byte at position \<open>q\<close> of the ring, zero where no chunk is. Reading gives the
  cells of the offsets read, writing changes exactly the cells of the offsets
  written, and every operation keeps the count of chunks in the pool's books.
\<close>

subsection \<open>Well-formed rings\<close>

definition ring_ok :: "ring \<Rightarrow> bool" where
  "ring_ok r \<longleftrightarrow> (\<exists>k. 14 \<le> k \<and> k \<le> 22 \<and> rg_cap r = 2 ^ k) \<and> length (rg_chunks r) = ring_slots
     \<and> (\<forall>i < ring_slots. \<forall>c. rg_chunks r ! i = Some c \<longrightarrow> length c = chunkSize \<and> i < unat (slots r))"

definition pool_ok :: "chunkPool \<Rightarrow> bool" where
  "pool_ok p \<longleftrightarrow> (\<forall>c \<in> set (cp_free p). c = new_chunk) \<and> length (cp_free p) \<le> chunkPoolKeep"

definition rcap :: "ring \<Rightarrow> nat" where "rcap r = unat (rg_cap r)"

definition cell :: "ring \<Rightarrow> nat \<Rightarrow> uint8" where
  "cell r q = (case rg_chunks r ! (q div chunkSize) of None \<Rightarrow> 0 | Some c \<Rightarrow> c ! (q mod chunkSize))"

lemma ring_cap:
  assumes "ring_ok r"
  obtains k where "14 \<le> k" "k \<le> 22" "rg_cap r = 2 ^ k" "rcap r = 2 ^ k" "unat (slots r) = 2 ^ (k - 14)" "rcap r = unat (slots r) * chunkSize"
    "unat (slots r) \<le> ring_slots" "0 < unat (slots r)"
proof -
  obtain k where k: "14 \<le> k" "k \<le> 22" "rg_cap r = 2 ^ k" using assms by (auto simp: ring_ok_def)
  have "(2 :: nat) ^ k \<le> 2 ^ 22" using k(2) by (intro power_increasing) auto
  then have "unat (word_of_nat (2 ^ k) :: uint64) = 2 ^ k" by (simp only: unat_of_nat) simp
  then have u: "unat ((2 :: uint64) ^ k) = 2 ^ k" by simp
  have split: "(2 :: nat) ^ k = 2 ^ (k - 14) * 2 ^ 14" using k(1) by (metis power_add le_add_diff_inverse2)
  have s: "unat (slots r) = 2 ^ k div 2 ^ 14" by (simp add: slots_def k(3) chunkShift_def drop_bit_eq_div unat_div u)
  then have s': "unat (slots r) = 2 ^ (k - 14)" unfolding split by simp
  have "(2 :: nat) ^ (k - 14) \<le> 2 ^ 8" using k(2) by (intro power_increasing) auto
  then show thesis using that [OF k] u s' split by (simp add: rcap_def k(3) ring_consts)
qed

lemma ring_pos [simp]: "ring_ok r \<Longrightarrow> 0 < rcap r"
  using ring_cap [of r] by (metis zero_less_numeral zero_less_power)

lemma and_cap:
  assumes "ring_ok r"
  shows "unat (off AND (rg_cap r - 1)) = unat off mod rcap r"
proof -
  obtain k where k: "rg_cap r = 2 ^ k" "rcap r = 2 ^ k" using ring_cap [OF assms] by metis
  have "rg_cap r - 1 = mask k" by (simp add: k(1) mask_eq_exp_minus_1)
  then show ?thesis by (simp add: unat_and_mask k(2))
qed

lemma slot_place:
  assumes "ring_ok r"
  shows "slot_of r off = unat off mod rcap r div chunkSize" "place_of r off = unat off mod rcap r mod chunkSize"
    "slot_of r off < unat (slots r)" "slot_of r off < ring_slots"
proof -
  obtain k where k: "rcap r = unat (slots r) * chunkSize" "unat (slots r) \<le> ring_slots" using ring_cap [OF assms] by metis
  have cs: "word_of_nat chunkSize - 1 = (mask 14 :: uint64)" by (simp add: chunkSize_def mask_eq_exp_minus_1)
  show a: "slot_of r off = unat off mod rcap r div chunkSize"
    by (simp add: slot_of_def drop_bit_eq_div unat_div chunkShift_def chunkSize_def and_cap [OF assms, symmetric])
  show "place_of r off = unat off mod rcap r mod chunkSize"
    unfolding place_of_def cs unat_and_mask and_cap [OF assms] by (simp add: chunkSize_def)
  have "unat off mod rcap r < rcap r" using assms by simp
  then show "slot_of r off < unat (slots r)" unfolding a k(1) by (simp add: less_mult_imp_div_less)
  then show "slot_of r off < ring_slots" using k(2) by simp
qed

text \<open>The bytes from an offset to the end of its chunk.\<close>

lemma same_chunk:
  assumes "ring_ok r" and "place_of r off + j < chunkSize"
  shows "(unat off + j) mod rcap r = unat off mod rcap r + j"
    "(unat off mod rcap r + j) div chunkSize = slot_of r off" "(unat off mod rcap r + j) mod chunkSize = place_of r off + j"
proof -
  let ?p = "unat off mod rcap r"
  note sp = slot_place [OF assms(1), of off]
  have e: "?p + j = slot_of r off * chunkSize + (place_of r off + j)" unfolding sp(1,2) by (simp add: div_mult_mod_eq [symmetric])
  show d: "(?p + j) div chunkSize = slot_of r off" "(?p + j) mod chunkSize = place_of r off + j"
    unfolding e using assms(2) by simp_all
  have "?p + j < Suc (slot_of r off) * chunkSize" using e assms(2) by simp
  also have "\<dots> \<le> unat (slots r) * chunkSize" using sp(3) by (intro mult_le_mono1) simp
  also have "\<dots> = rcap r" using ring_cap [OF assms(1)] by metis
  finally have "(?p + j) mod rcap r = ?p + j" by simp
  then show "(unat off + j) mod rcap r = ?p + j" by (simp add: mod_add_left_eq)
qed

lemma unat_add_small: "unat off + m < 2 ^ 64 \<Longrightarrow> unat (off + word_of_nat m :: uint64) = unat off + m"
  by (simp add: unat_word_ariths(1) take_bit_nat_eq_self unat_of_nat)

subsection \<open>Reading\<close>

lemma ring_read_value:
  assumes "ring_ok r" and "unat off + n < 2 ^ 64"
  shows "ring_read r off n = Some (map (\<lambda>k. cell r ((unat off + k) mod rcap r)) [0..<n])"
  using assms
proof (induction r off n rule: ring_read.induct)
  case (1 r off n)
  show ?case
  proof (cases "n = 0")
    case True
    then show ?thesis by (subst ring_read.simps) simp
  next
    case False
    let ?m = "min n (chunkSize - place_of r off)"
    let ?bytes = "case rg_chunks r ! slot_of r off of None \<Rightarrow> replicate ?m 0 | Some c \<Rightarrow> take ?m (drop (place_of r off) c)"
    have len: "length (rg_chunks r) = ring_slots" and sl: "slot_of r off < ring_slots"
      using "1.prems"(1) slot_place(4) by (auto simp: ring_ok_def)
    have m: "0 < ?m" "?m \<le> n" using False place_less [of r off] by auto
    have step: "ring_read r off n = map_option (append ?bytes) (ring_read r (off + word_of_nat ?m) (n - ?m))"
      using False len sl by (subst ring_read.simps) (simp add: Let_def)
    have u: "unat (off + word_of_nat ?m) = unat off + ?m" using "1.prems"(2) m by (intro unat_add_small) simp
    have IH: "ring_read r (off + word_of_nat ?m) (n - ?m) = Some (map (\<lambda>k. cell r ((unat off + ?m + k) mod rcap r)) [0..<n - ?m])"
      using "1.IH" [OF False _ refl refl] len sl "1.prems" m u by (simp add: not_le)
    have bytes: "?bytes = map (\<lambda>k. cell r ((unat off + k) mod rcap r)) [0..<?m]"
    proof (rule nth_equalityI)
      have full: "length c = chunkSize" if "rg_chunks r ! slot_of r off = Some c" for c
        using "1.prems"(1) sl that by (simp add: ring_ok_def)
      show lb: "length ?bytes = length (map (\<lambda>k. cell r ((unat off + k) mod rcap r)) [0..<?m])"
        using full by (auto split: option.splits)
      fix j assume "j < length ?bytes"
      then have j: "j < ?m" using lb by simp
      then have "place_of r off + j < chunkSize" by (simp add: less_diff_conv add.commute)
      note sc = same_chunk [OF "1.prems"(1) this]
      show "?bytes ! j = map (\<lambda>k. cell r ((unat off + k) mod rcap r)) [0..<?m] ! j"
        using j full place_less [of r off] by (simp add: sc cell_def split: option.splits)
    qed
    have "[0..<n] = [0..<?m] @ [?m..<n]" using m(2) by (metis le0 le_add_diff_inverse upt_add_eq_append)
    moreover have "[?m..<n] = map (\<lambda>k. k + ?m) [0..<n - ?m]" using m(2) by (simp only: map_add_upt le_add_diff_inverse2)
    ultimately have "[0..<n] = [0..<?m] @ map (\<lambda>k. k + ?m) [0..<n - ?m]" by simp
    then show ?thesis unfolding step IH bytes by (simp add: comp_def ac_simps)
  qed
qed

subsection \<open>The books of the pool\<close>

definition in_use :: "ring \<Rightarrow> nat" where
  "in_use r = length (filter (\<lambda>c. c \<noteq> None) (rg_chunks r))"

text \<open>The chunks the pool counts as held by others than this ring.\<close>

definition elsewhere :: "ring \<times> chunkPool \<Rightarrow> int" where
  "elsewhere s = cp_held (snd s) - int (in_use (fst s))"

lemma pool_get_ok: "pool_ok p \<Longrightarrow> pool_get p = (c, p') \<Longrightarrow> c = new_chunk \<and> pool_ok p' \<and> cp_held p' = cp_held p + 1"
proof -
  assume p: "pool_ok p" and g: "pool_get p = (c, p')"
  have all: "\<And>d. d \<in> set (cp_free p) \<Longrightarrow> d = new_chunk" "length (cp_free p) \<le> chunkPoolKeep" using p by (auto simp: pool_ok_def)
  have rest: "d = new_chunk" if "d \<in> set (butlast (cp_free p))" for d
    by (rule all(1)) (rule in_set_butlastD [OF that])
  show ?thesis
  proof (cases "cp_free p = []")
    case True
    then show ?thesis using g p by (auto simp: pool_get_def pool_ok_def Let_def)
  next
    case False
    then show ?thesis using g all(2) all(1) [OF last_in_set] rest by (auto simp: pool_get_def pool_ok_def Let_def)
  qed
qed

lemma pool_put_ok:
  assumes "pool_ok p" and "length c = chunkSize"
  shows "pool_ok (pool_put p c)" "cp_held (pool_put p c) = cp_held p - 1"
proof -
  have "map (\<lambda>_. 0) c = new_chunk" using assms(2) by (simp add: new_chunk_def map_replicate_const)
  then show "pool_ok (pool_put p c)" "cp_held (pool_put p c) = cp_held p - 1"
    using assms(1) by (auto simp: pool_put_def pool_ok_def Let_def)
qed

lemma in_use_take: "i < length xs \<Longrightarrow>
  length (filter (\<lambda>c. c \<noteq> None) (xs[i := Some c])) = length (filter (\<lambda>c. c \<noteq> None) xs) + (if xs ! i = None then 1 else 0)"
  by (induction xs arbitrary: i) (auto split: nat.splits)

lemma in_use_give: "i < length xs \<Longrightarrow>
  length (filter (\<lambda>c. c \<noteq> None) xs) = length (filter (\<lambda>c. c \<noteq> None) (xs[i := None])) + (if xs ! i = None then 0 else 1)"
  by (induction xs arbitrary: i) (auto split: nat.splits)

subsection \<open>Writing\<close>

lemma copy_into_nth:
  assumes "length c = chunkSize" "p < chunkSize" "q < chunkSize"
  shows "copy_into c p data ! q = (if p \<le> q \<and> q < p + length data then data ! (q - p) else c ! q)" "length (copy_into c p data) = chunkSize"
  using assms by (auto simp: copy_into_def nth_append min_def not_less)

lemma chunk_for_ok:
  assumes "ring_ok r" "pool_ok pool" "i < ring_slots" and c: "chunk_for r pool i = (c, pool')"
  shows "length c = chunkSize \<and> pool_ok pool' \<and> cp_held pool' = cp_held pool + (if rg_chunks r ! i = None then 1 else 0)
    \<and> (\<forall>q. q div chunkSize = i \<longrightarrow> c ! (q mod chunkSize) = cell r q)"
proof (cases "rg_chunks r ! i")
  case None
  then have "c = new_chunk \<and> pool_ok pool' \<and> cp_held pool' = cp_held pool + 1"
    using c pool_get_ok [OF assms(2)] by (simp add: chunk_for_def)
  moreover have "q mod chunkSize < chunkSize" for q by (simp add: chunkSize_def)
  ultimately show ?thesis using None by (simp add: cell_def new_chunk_def)
next
  case (Some d)
  then show ?thesis using c assms by (auto simp: cell_def chunk_for_def ring_ok_def)
qed

text \<open>One turn of the loop.\<close>

lemma write_step:
  fixes data :: "uint8 list"
  assumes r: "ring_ok r" and pool: "pool_ok pool" and c: "chunk_for r pool (slot_of r off) = (c, pool')"
  defines "r' \<equiv> r\<lparr>rg_chunks := (rg_chunks r)[slot_of r off := Some (copy_into c (place_of r off) data)]\<rparr>"
    and "n \<equiv> min (chunkSize - place_of r off) (length data)"
  shows "ring_ok r' \<and> pool_ok pool' \<and> rg_cap r' = rg_cap r \<and> elsewhere (r', pool') = elsewhere (r, pool)
    \<and> (\<forall>q < rcap r. cell r' q = (if gap (rcap r) (unat off mod rcap r) q < n then data ! gap (rcap r) (unat off mod rcap r) q else cell r q))
    \<and> (\<forall>i < ring_slots. rg_chunks r' ! i = None \<longleftrightarrow> rg_chunks r ! i = None \<and> i \<noteq> slot_of r off)"
proof -
  let ?i = "slot_of r off" and ?p = "place_of r off" and ?P = "unat off mod rcap r"
  have len: "length (rg_chunks r) = ring_slots" using r by (simp add: ring_ok_def)
  note sl = slot_place [OF r, of off]
  have pl: "?p < chunkSize" by (rule place_less)
  have co: "length c = chunkSize" "pool_ok pool'" "cp_held pool' = cp_held pool + (if rg_chunks r ! ?i = None then 1 else 0)"
    "\<And>q. q div chunkSize = ?i \<Longrightarrow> c ! (q mod chunkSize) = cell r q"
    using chunk_for_ok [OF r pool sl(4) c] by auto
  have P: "?P = ?i * chunkSize + ?p" unfolding sl(1,2) by simp
  have cap: "Suc ?i * chunkSize \<le> rcap r"
    using sl(3) ring_cap [OF r] mult_le_mono1 [of "Suc ?i" "unat (slots r)" chunkSize] by (metis Suc_leI)
  have "cell r' q = (if gap (rcap r) ?P q < n then data ! gap (rcap r) ?P q else cell r q)" if q: "q < rcap r" for q
  proof (cases "q div chunkSize = ?i")
    case True
    have qm: "q mod chunkSize < chunkSize" by (simp add: chunkSize_def)
    have qe: "q = ?i * chunkSize + q mod chunkSize" using True by (metis div_mult_mod_eq)
    have "cell r' q = (if ?p \<le> q mod chunkSize \<and> q mod chunkSize < ?p + length data then data ! (q mod chunkSize - ?p) else cell r q)"
      using True sl(4) len copy_into_nth(1) [OF co(1) pl qm] co(4) [OF True] by (simp add: cell_def r'_def)
    moreover have "gap (rcap r) ?P q = (if ?p \<le> q mod chunkSize then q mod chunkSize - ?p else q + rcap r - ?P)"
      unfolding gap_def P using qe by (smt (verit) add_diff_cancel_left add_le_cancel_left)
    moreover have "chunkSize - ?p \<le> q + rcap r - ?P" using cap P by (simp add: algebra_simps)
    ultimately show ?thesis using qm by (auto simp: n_def)
  next
    case False
    have "\<not> gap (rcap r) ?P q < n"
    proof
      assume g: "gap (rcap r) ?P q < n"
      then have "?p + gap (rcap r) ?P q < chunkSize" by (simp add: n_def less_diff_conv add.commute)
      from same_chunk [OF r this] have "q div chunkSize = ?i" using gap_mod_inverse [OF ring_pos [OF r] q, of "unat off"] by metis
      then show False using False by simp
    qed
    moreover have "cell r' q = cell r q" using False by (simp add: cell_def r'_def)
    ultimately show ?thesis by simp
  qed
  moreover have "ring_ok r'"
  proof -
    have "length d = chunkSize \<and> i < unat (slots r)" if i: "i < ring_slots" "rg_chunks r' ! i = Some d" for i d
      using r sl(3,4) len i copy_into_nth(2) [OF co(1) pl pl, of data]
      by (cases "i = ?i") (auto simp: ring_ok_def r'_def)
    then show ?thesis using r by (simp add: ring_ok_def r'_def slots_def)
  qed
  moreover have "elsewhere (r', pool') = elsewhere (r, pool)"
    using co(3) sl(4) len in_use_take [of ?i "rg_chunks r"] by (simp add: elsewhere_def in_use_def r'_def)
  moreover have "\<forall>i < ring_slots. rg_chunks r' ! i = None \<longleftrightarrow> rg_chunks r ! i = None \<and> i \<noteq> ?i"
  proof (intro allI impI)
    fix i assume "i < ring_slots"
    then show "rg_chunks r' ! i = None \<longleftrightarrow> rg_chunks r ! i = None \<and> i \<noteq> ?i" using len by (cases "i = ?i") (auto simp: r'_def)
  qed
  ultimately show ?thesis using co(2) by (simp add: r'_def)
qed

text \<open>What a write does: the cells of the offsets written, the chunks they need, and nothing else.\<close>

definition written :: "ring \<Rightarrow> nat \<Rightarrow> uint8 list \<Rightarrow> ring \<Rightarrow> bool" where
  "written r off data r' \<longleftrightarrow> rg_cap r' = rg_cap r
     \<and> (\<forall>q < rcap r. cell r' q = (if gap (rcap r) (off mod rcap r) q < length data then data ! gap (rcap r) (off mod rcap r) q else cell r q))
     \<and> (\<forall>i < ring_slots. rg_chunks r' ! i = None \<longleftrightarrow> rg_chunks r ! i = None \<and> (\<forall>k < length data. i \<noteq> (off + k) mod rcap r div chunkSize))"

lemma all_less_add: "(\<forall>k < a + b. P k) \<longleftrightarrow> (\<forall>k < a. P k) \<and> (\<forall>k < b. P (a + k))" for a b :: nat
proof safe
  fix k assume h: "\<forall>k < a. P k" "\<forall>k < b. P (a + k)" and k: "k < a + b"
  show "P k"
  proof (cases "k < a")
    case False
    then show ?thesis using h(2) [rule_format, of "k - a"] k by simp
  qed (simp add: h(1))
qed auto

lemma written_append:
  assumes r: "0 < rcap r" and a: "written r off xs r1" and b: "written r1 (off + length xs) ys r2" and len: "length (xs @ ys) \<le> rcap r"
  shows "written r off (xs @ ys) r2"
proof (cases "length xs = rcap r")
  case True
  then have "ys = []" using len by simp
  then show ?thesis using a b by (auto simp: written_def rcap_def)
next
  case False
  let ?n = "rcap r" and ?m = "length xs"
  have n1: "rcap r1 = ?n" using a by (simp add: written_def rcap_def)
  have m: "?m < ?n" using False len by simp
  have cells: "cell r2 q = (if gap ?n (off mod ?n) q < length (xs @ ys) then (xs @ ys) ! gap ?n (off mod ?n) q else cell r q)" if q: "q < ?n" for q
  proof -
    have fw: "gap ?n ((off + ?m) mod ?n) q = (if ?m \<le> gap ?n (off mod ?n) q then gap ?n (off mod ?n) q - ?m else gap ?n (off mod ?n) q + ?n - ?m)"
      using gap_forward [of "off mod ?n" ?n q ?m] r q m by (simp add: mod_add_left_eq)
    have c2: "cell r2 q = (if gap ?n ((off + ?m) mod ?n) q < length ys then ys ! gap ?n ((off + ?m) mod ?n) q else cell r1 q)"
      using b q n1 by (simp add: written_def)
    have c1: "cell r1 q = (if gap ?n (off mod ?n) q < ?m then xs ! gap ?n (off mod ?n) q else cell r q)"
      using a q by (simp add: written_def)
    show ?thesis unfolding c2 c1 fw using len by (auto simp: nth_append)
  qed
  have chunks: "rg_chunks r2 ! i = None \<longleftrightarrow> rg_chunks r ! i = None \<and> (\<forall>k < length (xs @ ys). i \<noteq> (off + k) mod ?n div chunkSize)"
    if i: "i < ring_slots" for i
  proof -
    have "(\<forall>k < length (xs @ ys). i \<noteq> (off + k) mod ?n div chunkSize) \<longleftrightarrow>
        (\<forall>k < ?m. i \<noteq> (off + k) mod ?n div chunkSize) \<and> (\<forall>k < length ys. i \<noteq> (off + ?m + k) mod ?n div chunkSize)"
      unfolding length_append all_less_add by (simp only: add.assoc)
    then show ?thesis using a b i n1 by (simp add: written_def)
  qed
  show ?thesis unfolding written_def using a b cells chunks by (simp add: written_def)
qed

lemma ring_write_ok:
  assumes "ring_ok r" and "pool_ok pool" and "length data \<le> rcap r" and "unat off + length data < 2 ^ 64"
  shows "\<exists>r' pool'. ring_write r pool off data = Some (r', pool') \<and> ring_ok r' \<and> pool_ok pool'
    \<and> elsewhere (r', pool') = elsewhere (r, pool) \<and> written r (unat off) data r'"
  using assms
proof (induction r pool off data rule: ring_write.induct)
  case (1 r pool off data)
  show ?case
  proof (cases "data = []")
    case True
    then show ?thesis using "1.prems" by (subst ring_write.simps) (simp add: written_def)
  next
    case False
    let ?n = "min (chunkSize - place_of r off) (length data)"
    obtain c p1 where c: "chunk_for r pool (slot_of r off) = (c, p1)" by fastforce
    let ?r = "r\<lparr>rg_chunks := (rg_chunks r)[slot_of r off := Some (copy_into c (place_of r off) data)]\<rparr>"
    have len: "\<not> length (rg_chunks r) \<le> slot_of r off"
      using "1.prems"(1) slot_place(4) [OF "1.prems"(1), of off] by (simp add: ring_ok_def not_le)
    have step: "ring_write r pool off data = ring_write ?r p1 (off + word_of_nat ?n) (drop ?n data)"
      using False len c by (subst ring_write.simps) (simp add: Let_def)
    note w = write_step [OF "1.prems"(1,2) c, of data]
    have n: "0 < ?n" "?n \<le> length data" using False place_less [of r off] by auto
    have "written r (unat off) (take ?n data) ?r"
    proof -
      have "(unat off + k) mod rcap r div chunkSize = slot_of r off" if "k < ?n" for k
        using same_chunk(1,2) [OF "1.prems"(1), of off k] that by (simp add: less_diff_conv add.commute)
      then have "i \<noteq> slot_of r off \<longleftrightarrow> (\<forall>k < ?n. i \<noteq> (unat off + k) mod rcap r div chunkSize)" for i
        using n(1) by metis
      then show ?thesis using w n(2) by (simp add: written_def)
    qed
    moreover have "unat (off + word_of_nat ?n) = unat off + ?n" using "1.prems"(4) n by (intro unat_add_small) simp
    moreover have "length (drop ?n data) \<le> rcap ?r" using "1.prems"(3) by (simp add: rcap_def le_diff_conv)
    moreover obtain r' pool' where "ring_write ?r p1 (off + word_of_nat ?n) (drop ?n data) = Some (r', pool')" "ring_ok r'" "pool_ok pool'"
      "elsewhere (r', pool') = elsewhere (?r, p1)" "written ?r (unat (off + word_of_nat ?n)) (drop ?n data) r'"
      using "1.IH" [OF False len c [symmetric] refl refl] w "1.prems" calculation(2,3) n by auto
    ultimately show ?thesis unfolding step
      using w written_append [of r "unat off" "take ?n data" ?r "drop ?n data" r'] "1.prems"(1,3) n by auto
  qed
qed

subsection \<open>Record rings are queues\<close>

definition rr_ok :: "'a recordRing \<Rightarrow> bool" where
  "rr_ok r \<longleftrightarrow> rr_head r < length (rr_recs r) \<and> rr_n r \<le> length (rr_recs r)"

definition rr_list :: "'a recordRing \<Rightarrow> 'a list" where
  "rr_list r = map (rr_at r) [0..<rr_n r]"

lemma rr_index_inject:
  fixes n :: nat
  assumes "h < n" "i < n" "j < n"
  shows "(h + i) mod n = (h + j) mod n \<longleftrightarrow> i = j"
proof -
  have "gap n (h mod n) ((h + i) mod n) = i" "gap n (h mod n) ((h + j) mod n) = j"
    using assms gap_mod [of n h] by simp_all
  then show ?thesis by metis
qed

lemma rr_push_ok:
  assumes "rr_ok r" and "\<not> rr_full r"
  shows "rr_ok (rr_push r x) \<and> rr_list (rr_push r x) = rr_list r @ [x]"
proof -
  let ?n = "length (rr_recs r)"
  have h: "rr_head r < ?n" "rr_n r < ?n" using assms by (auto simp: rr_ok_def rr_full_def)
  have "rr_at (rr_push r x) j = (if j = rr_n r then x else rr_at r j)" if "j \<le> rr_n r" for j
  proof -
    have "j < ?n" using that h by simp
    moreover have "(rr_head r + j) mod ?n < ?n" by (rule mod_less_divisor) (use h in linarith)
    ultimately show ?thesis using rr_index_inject [OF h(1) _ h(2), of j]
      by (cases "j = rr_n r") (simp_all add: rr_at_def rr_push_def)
  qed
  then show ?thesis using h by (simp add: rr_ok_def rr_list_def) (simp add: rr_push_def)
qed

lemma rr_pop_ok:
  assumes "rr_ok r" and "rr_n r > 0"
  shows "rr_ok (rr_pop r) \<and> rr_list (rr_pop r) = tl (rr_list r)"
proof -
  let ?n = "length (rr_recs r)"
  have h: "rr_head r < ?n" "rr_n r \<le> ?n" using assms by (auto simp: rr_ok_def)
  have at: "rr_at (rr_pop r) j = rr_at r (Suc j)" for j
    by (simp add: rr_at_def rr_pop_def mod_add_left_eq)
  have "[0..<rr_n r] = 0 # map Suc [0..<rr_n r - 1]" using assms(2) by (simp add: map_Suc_upt upt_conv_Cons)
  then have "tl (rr_list r) = map (\<lambda>j. rr_at r (Suc j)) [0..<rr_n r - 1]" by (simp add: rr_list_def comp_def)
  moreover have "rr_n (rr_pop r) = rr_n r - 1" by (simp add: rr_pop_def)
  moreover have "(rr_head r + 1) mod ?n < ?n" by (rule mod_less_divisor) (use h in linarith)
  ultimately show ?thesis using h by (simp add: rr_list_def at) (simp add: rr_ok_def rr_pop_def)
qed

lemma rr_copy_ok: "n \<le> length xs \<Longrightarrow> length (rr_copy r n xs) = length xs \<and> (\<forall>j < length xs. rr_copy r n xs ! j = (if j < n then rr_at r j else xs ! j))"
  by (induction n) (auto simp: nth_list_update less_Suc_eq)

lemma rr_resize_ok:
  assumes "rr_ok r" and "rr_n r \<le> length newRecs" and "newRecs \<noteq> []"
  shows "rr_ok (rr_resize r newRecs) \<and> rr_list (rr_resize r newRecs) = rr_list r \<and> length (rr_recs (rr_resize r newRecs)) = length newRecs"
  using assms rr_copy_ok [OF assms(2), of r] by (auto simp: rr_ok_def rr_list_def rr_resize_def rr_at_def)

end
