(* ===== verification/Ring_Window.thy ===== *)
theory Ring_Window
  imports Ring_Laws Interfaces
begin

section \<open>The live window of a ring\<close>

text \<open>
  A ring that is used as the code uses it: bytes are written inside the window
  \<open>[lo, lo + cap)\<close>, the window's start moves forward, and the capacity changes when the live
  bytes fit. What was written and is still live can be read; the chunks held are exactly
  those with a live byte's place in them.
\<close>

subsection \<open>Live slots\<close>

lemma live_nat:
  fixes n :: nat
  assumes "0 < n" and "i < n" and "a \<le> b"
  shows "(b - a + 1 \<ge> n \<or> (i + n - a mod n) mod n \<le> b - a) \<longleftrightarrow> (\<exists>c. a \<le> c \<and> c \<le> b \<and> c mod n = i)"
proof -
  have an: "a mod n < n" using assms(1) by simp
  then have g: "(i + n - a mod n) mod n = gap n (a mod n) i"
    using assms(2) by (auto simp: gap_def mod_below_twice)
  show ?thesis
  proof
    assume "b - a + 1 \<ge> n \<or> (i + n - a mod n) mod n \<le> b - a"
    then have "gap n (a mod n) i \<le> b - a" using gap_bounds(1) [OF an assms(2)] unfolding g by auto
    then show "\<exists>c. a \<le> c \<and> c \<le> b \<and> c mod n = i"
      using gap_mod_inverse [OF assms(1,2), of a] assms(3) by (intro exI [of _ "a + gap n (a mod n) i"]) auto
  next
    assume "\<exists>c. a \<le> c \<and> c \<le> b \<and> c mod n = i"
    then obtain c where c: "a \<le> c" "c \<le> b" "c mod n = i" by blast
    then obtain d where d: "c = a + d" using le_Suc_ex by blast
    have "gap n (a mod n) i = d mod n" using gap_mod [OF assms(1), of a d] c(3) d by simp
    also have "\<dots> \<le> d" by (rule mod_less_eq_dividend)
    finally show "b - a + 1 \<ge> n \<or> (i + n - a mod n) mod n \<le> b - a" unfolding g using c(1,2) d by linarith
  qed
qed

definition slot_live :: "ring \<Rightarrow> nat \<Rightarrow> nat \<Rightarrow> nat \<Rightarrow> bool" where
  "slot_live r lo hi i \<longleftrightarrow> (\<exists>x. lo \<le> x \<and> x < hi \<and> x div chunkSize mod unat (slots r) = i)"

lemma slot_live_chunks:
  "slot_live r lo hi i \<longleftrightarrow> lo < hi \<and> (\<exists>c. lo div chunkSize \<le> c \<and> c \<le> (hi - 1) div chunkSize \<and> c mod unat (slots r) = i)"
proof
  assume "slot_live r lo hi i"
  then obtain x where "lo \<le> x" "x < hi" "x div chunkSize mod unat (slots r) = i" by (auto simp: slot_live_def)
  then show "lo < hi \<and> (\<exists>c. lo div chunkSize \<le> c \<and> c \<le> (hi - 1) div chunkSize \<and> c mod unat (slots r) = i)"
    by (auto intro!: exI [of _ "x div chunkSize"] div_le_mono)
next
  assume h: "lo < hi \<and> (\<exists>c. lo div chunkSize \<le> c \<and> c \<le> (hi - 1) div chunkSize \<and> c mod unat (slots r) = i)"
  then obtain c where c: "lo div chunkSize \<le> c" "c \<le> (hi - 1) div chunkSize" "c mod unat (slots r) = i" by blast
  let ?x = "max lo (c * chunkSize)"
  have "c * chunkSize \<le> (hi - 1) div chunkSize * chunkSize" using c(2) by (rule mult_le_mono1)
  also have "\<dots> \<le> hi - 1" by (rule div_times_less_eq_dividend)
  finally have x: "?x < hi" using h by auto
  have "?x div chunkSize = c"
  proof (cases "lo \<le> c * chunkSize")
    case False
    then have "c \<le> lo div chunkSize" using div_le_mono [of "c * chunkSize" lo chunkSize] by (simp add: chunkSize_def)
    then show ?thesis using False c(1) by (simp add: max_def)
  qed (simp add: chunkSize_def max_def)
  then show "slot_live r lo hi i" unfolding slot_live_def using x c(3) by (intro exI [of _ ?x]) auto
qed

lemma live_iff:
  assumes r: "ring_ok r" and i: "unat i < unat (slots r)"
  shows "live r i lo hi \<longleftrightarrow> slot_live r (unat lo) (unat hi) (unat i)"
proof (cases "hi \<le> lo")
  case True
  then show ?thesis by (simp add: live_def slot_live_chunks word_le_nat_alt)
next
  case False
  let ?n = "unat (slots r)" and ?a0 = "drop_bit chunkShift lo" and ?a1 = "drop_bit chunkShift (hi - 1)"
  let ?A = "unat lo div chunkSize" and ?B = "(unat hi - 1) div chunkSize"
  have lt: "unat lo < unat hi" using False by (simp add: word_le_nat_alt)
  have u1: "unat (hi - 1) = unat hi - 1" using lt by (subst unat_sub) (simp_all add: word_le_nat_alt)
  have a: "unat ?a0 = ?A" "unat ?a1 = ?B" by (simp_all add: chunkShift_def chunkSize_def drop_bit_eq_div unat_div u1)
  have le: "?A \<le> ?B" using lt by (intro div_le_mono) simp
  have n: "0 < ?n" "?n \<le> ring_slots" by (rule ring_cap [OF r], assumption)+
  then have n256: "?n \<le> 256" by (simp add: ring_consts)
  have B: "?B < 2 ^ 50"
  proof -
    have "unat hi < 2 ^ 64" using unsigned_less [of hi] by simp
    then show ?thesis by (simp add: chunkSize_def div_less_iff_less_mult)
  qed
  have d: "unat (?a1 - ?a0) = ?B - ?A" using a le by (subst unat_sub) (simp_all add: word_le_nat_alt)
  have d1: "unat (?a1 - ?a0 + 1) = ?B - ?A + 1" using d B by (simp add: unat_word_ariths(1))
  have m: "unat (?a0 mod slots r) = ?A mod ?n" by (simp add: unat_mod a)
  have s: "unat (i + slots r) = unat i + ?n" using i n256 by (simp add: unat_word_ariths(1))
  have "?a0 mod slots r \<le> i + slots r" using n mod_less_divisor [OF n(1), of ?A] by (simp add: word_le_nat_alt m s)
  then have "unat (i + slots r - ?a0 mod slots r) = unat i + ?n - ?A mod ?n" by (subst unat_sub) (simp_all add: m s)
  then have "unat ((i + slots r - ?a0 mod slots r) mod slots r) = (unat i + ?n - ?A mod ?n) mod ?n" by (simp add: unat_mod)
  then have "live r i lo hi \<longleftrightarrow> (?B - ?A + 1 \<ge> ?n \<or> (unat i + ?n - ?A mod ?n) mod ?n \<le> ?B - ?A)"
    using False d d1 by (simp add: live_def Let_def word_le_nat_alt)
  then show ?thesis using live_nat [OF n(1) i le] lt by (simp add: slot_live_chunks)
qed

lemma slot_of_offset:
  assumes "ring_ok r"
  shows "x mod rcap r div chunkSize = x div chunkSize mod unat (slots r)"
proof -
  have "rcap r = chunkSize * unat (slots r)" using ring_cap [OF assms] by (metis mult.commute)
  then show ?thesis by (simp add: mod_mult2_eq chunkSize_def)
qed

subsection \<open>The window\<close>

definition window :: "ring \<Rightarrow> nat \<Rightarrow> nat \<Rightarrow> (nat \<rightharpoonup> uint8) \<Rightarrow> bool" where
  "window r lo hi m \<longleftrightarrow> ring_ok r \<and> lo \<le> hi \<and> hi \<le> lo + rcap r \<and> (\<forall>x v. m x = Some v \<longrightarrow> lo \<le> x \<and> x < hi \<and> cell r (x mod rcap r) = v)"

definition tight :: "ring \<Rightarrow> nat \<Rightarrow> nat \<Rightarrow> bool" where
  "tight r lo hi \<longleftrightarrow> (\<forall>i < ring_slots. rg_chunks r ! i \<noteq> None \<longrightarrow> slot_live r lo hi i)"

definition put_bytes :: "nat \<Rightarrow> uint8 list \<Rightarrow> (nat \<rightharpoonup> uint8) \<Rightarrow> nat \<rightharpoonup> uint8" where
  "put_bytes off data m x = (if off \<le> x \<and> x < off + length data then Some (data ! (x - off)) else m x)"

lemma window_read:
  assumes "window r lo hi m" and "hi < 2 ^ 64" and "\<forall>k < n. m (off + k) \<noteq> None" and "off < 2 ^ 64"
  shows "ring_read r (word_of_nat off) n = Some (map (\<lambda>k. the (m (off + k))) [0..<n])"
proof (cases "n = 0")
  case True
  then show ?thesis by (simp add: ring_read.simps)
next
  case False
  have r: "ring_ok r" using assms(1) by (simp add: window_def)
  have in_m: "off + k < hi \<and> cell r ((off + k) mod rcap r) = the (m (off + k))" if "k < n" for k
    using assms(1,3) that by (fastforce simp: window_def)
  have u: "unat (word_of_nat off :: uint64) = off" using assms(4) by (simp add: unat_of_nat)
  have "off + (n - 1) < hi" using in_m [of "n - 1"] False by simp
  then have "off + n < 2 ^ 64" using False assms(2) by linarith
  then show ?thesis using ring_read_value [OF r, of "word_of_nat off" n] in_m by (simp add: u)
qed

lemma mod_window:
  fixes x y c lo :: nat
  assumes "x mod c = y mod c" "lo \<le> x" "x < lo + c" "lo \<le> y" "y < lo + c"
  shows "x = y"
proof -
  obtain a b where x: "x = lo + a" and y: "y = lo + b" using assms(2,4) le_Suc_ex by metis
  have "0 < c" using assms(2,3) by simp
  then have "a mod c = b mod c" using gap_mod [of c lo a] gap_mod [of c lo b] assms(1) x y by simp
  then show ?thesis using assms x y by simp
qed

lemma window_write:
  assumes w: "window r lo hi m" and pool: "pool_ok pool" and off: "lo \<le> off" "off + length data \<le> lo + rcap r" and big: "off + length data < 2 ^ 64"
  shows "\<exists>r' pool'. ring_write r pool (word_of_nat off) data = Some (r', pool') \<and> pool_ok pool' \<and> rg_cap r' = rg_cap r
    \<and> elsewhere (r', pool') = elsewhere (r, pool)
    \<and> window r' lo (max hi (off + length data)) (put_bytes off data m)
    \<and> (tight r lo hi \<longrightarrow> tight r' lo (max hi (off + length data)))"
proof -
  have r: "ring_ok r" using w by (simp add: window_def)
  have u: "unat (word_of_nat off :: uint64) = off" using big by (simp add: unat_of_nat)
  obtain r' pool' where wr: "ring_write r pool (word_of_nat off) data = Some (r', pool')" "ring_ok r'" "pool_ok pool'"
    "elsewhere (r', pool') = elsewhere (r, pool)" "written r off data r'"
    using ring_write_ok [OF r pool, of data "word_of_nat off"] off big u by auto
  have cap: "rg_cap r' = rg_cap r" "rcap r' = rcap r" "slots r' = slots r" using wr(5) by (simp_all add: written_def rcap_def slots_def)
  let ?n = "rcap r"
  have cells: "cell r' (x mod ?n) = (if off \<le> x \<and> x < off + length data then data ! (x - off) else cell r (x mod ?n))"
    if x: "lo \<le> x" "x < lo + ?n" for x
  proof -
    have xn: "x mod ?n < ?n" using r by simp
    let ?g = "gap ?n (off mod ?n) (x mod ?n)"
    have c: "cell r' (x mod ?n) = (if ?g < length data then data ! ?g else cell r (x mod ?n))"
      using wr(5) xn by (simp add: written_def)
    show ?thesis
    proof (cases "?g < length data")
      case True
      have "(off + ?g) mod ?n = x mod ?n" by (rule gap_mod_inverse [OF ring_pos [OF r] xn])
      moreover have "lo \<le> off + ?g" "off + ?g < lo + ?n" using off True by linarith+
      ultimately have e: "off + ?g = x" by (rule mod_window [OF _ _ _ x])
      then have "?g = x - off" by linarith
      then show ?thesis using c True e by auto
    next
      case False
      have "\<not> (off \<le> x \<and> x < off + length data)"
      proof
        assume h: "off \<le> x \<and> x < off + length data"
        then have "?g = (x - off) mod ?n" using gap_mod [OF ring_pos [OF r], of off "x - off"] by simp
        also have "\<dots> \<le> x - off" by (rule mod_less_eq_dividend)
        finally show False using False conjunct1 [OF h] conjunct2 [OF h] by linarith
      qed
      then show ?thesis using c False by auto
    qed
  qed
  have win: "window r' lo (max hi (off + length data)) (put_bytes off data m)"
    unfolding window_def
  proof (intro conjI allI impI)
    fix x v assume v: "put_bytes off data m x = Some v"
    have "m x = Some v \<Longrightarrow> lo \<le> x \<and> x < hi \<and> cell r (x mod ?n) = v \<and> hi \<le> lo + ?n" using w by (simp add: window_def)
    then show "lo \<le> x" "x < max hi (off + length data)" "cell r' (x mod rcap r') = v"
      using v off cells [of x] cap by (auto simp: put_bytes_def split: if_splits)
  qed (use w wr(2) cap off in \<open>auto simp: window_def\<close>)
  have "tight r' lo (max hi (off + length data))" if t: "tight r lo hi"
    unfolding tight_def
  proof (intro allI impI)
    fix i assume i: "i < ring_slots" "rg_chunks r' ! i \<noteq> None"
    have mono: "slot_live r a b i \<Longrightarrow> b \<le> b' \<Longrightarrow> slot_live r' a b' i" for a b b' by (auto simp: slot_live_def cap)
    show "slot_live r' lo (max hi (off + length data)) i"
    proof (cases "rg_chunks r ! i = None")
      case True
      then obtain k where k: "k < length data" "i = (off + k) mod ?n div chunkSize" using wr(5) i by (auto simp: written_def)
      then show ?thesis unfolding slot_live_def cap using off by (intro exI [of _ "off + k"]) (auto simp: slot_of_offset [OF r])
    next
      case False
      then show ?thesis using t i(1) mono [of lo hi] by (simp add: tight_def)
    qed
  qed
  then show ?thesis using wr cap win by blast
qed

subsection \<open>Giving chunks back\<close>

lemma dead_cells:
  assumes r: "ring_ok r" and dead: "\<not> slot_live r lo hi i" and x: "lo \<le> x" "x < hi"
  shows "x mod rcap r div chunkSize \<noteq> i"
  using dead x unfolding slot_live_def slot_of_offset [OF r] by blast

lemma update_None_Some: "j < length xs \<Longrightarrow> xs[i := None] ! j = Some y \<Longrightarrow> xs ! j = Some y"
  by (cases "i = j") auto

lemma ring_ok_drop:
  assumes "ring_ok r"
  shows "ring_ok (r\<lparr>rg_chunks := (rg_chunks r)[i := None]\<rparr>)"
proof -
  have "(rg_chunks r)[i := None] ! j = Some c \<Longrightarrow> j < ring_slots \<Longrightarrow> rg_chunks r ! j = Some c" for j c
    using assms by (cases "j = i") (auto simp: ring_ok_def)
  then show ?thesis using assms by (fastforce simp: ring_ok_def slots_def)
qed

text \<open>What giving back dead chunks keeps.\<close>

definition trimmed :: "nat \<Rightarrow> nat \<Rightarrow> ring \<times> chunkPool \<Rightarrow> ring \<times> chunkPool \<Rightarrow> bool" where
  "trimmed lo hi s s' \<longleftrightarrow> ring_ok (fst s') \<and> pool_ok (snd s') \<and> rg_cap (fst s') = rg_cap (fst s) \<and> elsewhere s' = elsewhere s
     \<and> (\<forall>x. lo \<le> x \<longrightarrow> x < hi \<longrightarrow> cell (fst s') (x mod rcap (fst s)) = cell (fst s) (x mod rcap (fst s)))
     \<and> (\<forall>i < ring_slots. rg_chunks (fst s') ! i \<noteq> None \<longrightarrow> rg_chunks (fst s) ! i \<noteq> None)"

lemma trimmed_refl: "ring_ok (fst s) \<Longrightarrow> pool_ok (snd s) \<Longrightarrow> trimmed lo hi s s"
  by (simp add: trimmed_def)

lemma trimmed_trans: "trimmed lo hi s s' \<Longrightarrow> trimmed lo hi s' s'' \<Longrightarrow> trimmed lo hi s s''"
  by (auto simp: trimmed_def rcap_def)

lemma drop_dead_ok:
  assumes r: "ring_ok (fst s)" and pool: "pool_ok (snd s)" and i: "unat i < unat (slots (fst s))"
  shows "trimmed (unat lo) (unat hi) s (drop_dead lo hi i s)"
    "rg_chunks (fst (drop_dead lo hi i s)) ! unat i \<noteq> None \<Longrightarrow> slot_live (fst s) (unat lo) (unat hi) (unat i)"
proof -
  obtain q p where s: "s = (q, p)" by (cases s)
  have q: "ring_ok q" "pool_ok p" "unat i < unat (slots q)" using assms by (simp_all add: s)
  have n: "unat (slots q) \<le> ring_slots" by (rule ring_cap [OF q(1)])
  have len: "length (rg_chunks q) = ring_slots" using q(1) by (simp add: ring_ok_def)
  note lv = live_iff [OF q(1,3), of lo hi]
  have "trimmed (unat lo) (unat hi) s (drop_dead lo hi i s)
    \<and> (rg_chunks (fst (drop_dead lo hi i s)) ! unat i \<noteq> None \<longrightarrow> slot_live (fst s) (unat lo) (unat hi) (unat i))"
  proof (cases "\<exists>c. rg_chunks q ! unat i = Some c \<and> \<not> live q i lo hi")
    case False
    then have "drop_dead lo hi i s = s" by (auto simp: drop_dead_def s split: option.splits)
    then show ?thesis using False r pool lv by (auto simp: s intro: trimmed_refl)
  next
    case True
    then obtain c where c: "rg_chunks q ! unat i = Some c" "\<not> slot_live q (unat lo) (unat hi) (unat i)" using lv by auto
    have d: "drop_dead lo hi i (q, p) = (q\<lparr>rg_chunks := (rg_chunks q)[unat i := None]\<rparr>, pool_put p c)"
      using c lv by (simp add: drop_dead_def)
    have ii: "unat i < ring_slots" using q(3) n by simp
    have lc: "length c = chunkSize" using q(1) c(1) ii by (simp add: ring_ok_def)
    have cells: "cell (q\<lparr>rg_chunks := (rg_chunks q)[unat i := None]\<rparr>) (x mod rcap q) = cell q (x mod rcap q)" if "unat lo \<le> x" "x < unat hi" for x
      using dead_cells [OF q(1) c(2) that] by (simp add: cell_def)
    have "elsewhere (drop_dead lo hi i s) = elsewhere s"
      using pool_put_ok(2) [OF q(2) lc] in_use_give [of "unat i" "rg_chunks q"] ii len c(1) by (simp add: d s elsewhere_def in_use_def)
    then have "trimmed (unat lo) (unat hi) s (drop_dead lo hi i s)"
      using pool_put_ok(1) [OF q(2) lc] ring_ok_drop [OF q(1)] cells len
      by (auto simp: trimmed_def d s dest!: update_None_Some [rotated])
    then show ?thesis using ii len by (simp add: d s)
  qed
  then show "trimmed (unat lo) (unat hi) s (drop_dead lo hi i s)"
    "rg_chunks (fst (drop_dead lo hi i s)) ! unat i \<noteq> None \<Longrightarrow> slot_live (fst s) (unat lo) (unat hi) (unat i)" by blast+
qed

lemma drop_all_ok:
  assumes "ring_ok (fst s)" and "pool_ok (snd s)" and "\<forall>k \<in> set ks. unat (slot k) < unat (slots (fst s))"
  shows "trimmed (unat lo) (unat hi) s (fold (\<lambda>k. drop_dead lo hi (slot k)) ks s)
    \<and> (\<forall>k \<in> set ks. rg_chunks (fst (fold (\<lambda>k. drop_dead lo hi (slot k)) ks s)) ! unat (slot k) \<noteq> None
         \<longrightarrow> slot_live (fst s) (unat lo) (unat hi) (unat (slot k)))"
  using assms
proof (induction ks arbitrary: s)
  case Nil
  then show ?case by (simp add: trimmed_refl)
next
  case (Cons k ks)
  let ?s = "drop_dead lo hi (slot k) s" and ?f = "fold (\<lambda>k. drop_dead lo hi (slot k)) ks"
  have k: "unat (slot k) < unat (slots (fst s))" using Cons.prems(3) by simp
  note d = drop_dead_ok [OF Cons.prems(1,2) k, of lo hi]
  have s: "ring_ok (fst ?s)" "pool_ok (snd ?s)" "slots (fst ?s) = slots (fst s)" using d(1) by (auto simp: trimmed_def slots_def)
  have IH: "trimmed (unat lo) (unat hi) ?s (?f ?s)"
    "\<forall>j \<in> set ks. rg_chunks (fst (?f ?s)) ! unat (slot j) \<noteq> None \<longrightarrow> slot_live (fst ?s) (unat lo) (unat hi) (unat (slot j))"
    using Cons.IH [OF s(1,2)] Cons.prems(3) s(3) by auto
  have same: "slot_live (fst ?s) a b i = slot_live (fst s) a b i" for a b i by (simp add: slot_live_def s(3))
  have "unat (slot k) < ring_slots"
  proof -
    have "unat (slots (fst s)) \<le> ring_slots" by (rule ring_cap [OF Cons.prems(1)])
    then show ?thesis using k by simp
  qed
  then have "rg_chunks (fst (?f ?s)) ! unat (slot k) \<noteq> None \<longrightarrow> slot_live (fst s) (unat lo) (unat hi) (unat (slot k))"
    using IH(1) d(2) by (auto simp: trimmed_def)
  then show ?case using trimmed_trans [OF d(1) IH(1)] IH(2) same by auto
qed

lemma window_trimmed:
  assumes "trimmed lo' hi (r, pool) (r', pool')" and "window r lo hi m" and "lo \<le> lo'" "lo' \<le> hi"
  shows "window r' lo' hi (m |` {lo'..})"
  using assms by (auto simp: window_def trimmed_def rcap_def restrict_map_def split: if_splits)

lemma window_restrict: "window r lo hi m \<Longrightarrow> m |` {lo..} = m"
proof
  fix x assume "window r lo hi m"
  then show "(m |` {lo..}) x = m x" by (cases "m x") (auto simp: window_def restrict_map_def)
qed

lemma retain_ok:
  assumes w: "window r lo hi m" and pool: "pool_ok pool" and big: "hi < 2 ^ 64"
  shows "\<exists>r' pool'. retain r pool (word_of_nat lo) (word_of_nat hi) = (r', pool') \<and> pool_ok pool' \<and> rg_cap r' = rg_cap r
    \<and> elsewhere (r', pool') = elsewhere (r, pool) \<and> window r' lo hi m \<and> tight r' lo hi"
proof -
  have r: "ring_ok r" and lh: "lo \<le> hi" using w by (simp_all add: window_def)
  have u: "unat (word_of_nat lo :: uint64) = lo" "unat (word_of_nat hi :: uint64) = hi" using lh big by (simp_all add: unat_of_nat)
  let ?ks = "[0..<unat (slots r)]" and ?slot = "\<lambda>k. word_of_nat k :: uint64"
  obtain r' pool' where e: "retain r pool (word_of_nat lo) (word_of_nat hi) = (r', pool')" by fastforce
  have n: "unat (slots r) \<le> ring_slots" by (rule ring_cap [OF r])
  then have un: "unat (?slot k) = k" if "k < unat (slots r)" for k
    using that by (simp add: unat_of_nat ring_consts)
  have ks: "\<forall>k \<in> set ?ks. unat (?slot k) < unat (slots (fst (r, pool)))" using un by auto
  note d = drop_all_ok [of "(r, pool)" ?ks ?slot "word_of_nat lo" "word_of_nat hi", OF _ _ ks, simplified, OF r pool,
    folded retain_def, unfolded u e, simplified]
  have t: "trimmed lo hi (r, pool) (r', pool')" using d by simp
  have sl: "slots r' = slots r" "ring_ok r'" using t by (simp_all add: trimmed_def slots_def)
  have "window r' lo hi m" using window_trimmed [OF t w] lh window_restrict [OF w] by simp
  moreover have "tight r' lo hi" unfolding tight_def
  proof (intro allI impI)
    fix i assume i: "i < ring_slots" "rg_chunks r' ! i \<noteq> None"
    then have "i < unat (slots r)" using sl by (auto simp: ring_ok_def)
    then show "slot_live r' lo hi i" using d i un by (auto simp: slot_live_def sl)
  qed
  ultimately show ?thesis using e t by (auto simp: trimmed_def)
qed

lemma trim_ok:
  assumes w: "window r lo hi m" and t: "tight r lo hi" and pool: "pool_ok pool" and lo': "lo \<le> lo'" "lo' \<le> hi" and big: "hi < 2 ^ 64"
  shows "\<exists>r' pool'. trim r pool (word_of_nat lo) (word_of_nat lo') (word_of_nat hi) = (r', pool') \<and> pool_ok pool' \<and> rg_cap r' = rg_cap r
    \<and> elsewhere (r', pool') = elsewhere (r, pool) \<and> window r' lo' hi (m |` {lo'..}) \<and> tight r' lo' hi"
proof -
  have r: "ring_ok r" using w by (simp add: window_def)
  have u: "unat (word_of_nat lo :: uint64) = lo" "unat (word_of_nat hi :: uint64) = hi" "unat (word_of_nat lo' :: uint64) = lo'"
    using lo' big by (simp_all add: unat_of_nat)
  note m = window_restrict [OF w]
  show ?thesis
  proof (cases "lo' = lo")
    case True
    then show ?thesis using w t pool m by (simp add: trim_def)
  next
    case False
    let ?n = "unat (slots r)" and ?A = "lo div chunkSize" and ?B = "(lo' - 1) div chunkSize"
    have lt: "lo < lo'" using False lo' by simp
    have n: "0 < ?n" "?n \<le> ring_slots" by (rule ring_cap [OF r], assumption)+
    have n256: "?n \<le> 256" using n(2) by (simp add: ring_consts)
    let ?a = "drop_bit chunkShift (word_of_nat lo :: uint64)" and ?b = "drop_bit chunkShift (word_of_nat lo' - 1 :: uint64)"
    have u1: "unat (word_of_nat lo' - 1 :: uint64) = lo' - 1" using lt u(3) by (subst unat_sub) (simp_all add: word_le_nat_alt)
    have ab: "unat ?a = ?A" "unat ?b = ?B" by (simp_all add: chunkShift_def chunkSize_def drop_bit_eq_div unat_div u u1)
    have le: "?A \<le> ?B" using lt by (intro div_le_mono) simp
    have B: "?B < 2 ^ 50" using lo' big by (simp add: chunkSize_def div_less_iff_less_mult)
    have d: "unat (?b - ?a) = ?B - ?A" using ab le by (subst unat_sub) (simp_all add: word_le_nat_alt)
    have d1: "unat (?b - ?a + 1) = ?B - ?A + 1" using d B by (simp add: unat_word_ariths(1))
    have n1: "unat (slots r - 1) = ?n - 1" using n(1) by (subst unat_sub) (simp_all add: word_le_nat_alt)
    define ks where "ks = (if ?B - ?A + 1 \<ge> ?n then [0..<Suc (?n - 1)] else [?A..<Suc ?B])"
    let ?slot = "\<lambda>k. word_of_nat k mod slots r"
    have e: "trim r pool (word_of_nat lo) (word_of_nat lo') (word_of_nat hi)
        = fold (\<lambda>k. drop_dead (word_of_nat lo') (word_of_nat hi) (?slot k)) ks (r, pool)"
      using lt d1 ab n1 by (simp add: trim_def Let_def word_le_nat_alt u ks_def del: upt_Suc)
    have un: "unat (?slot k) = k mod ?n" if "k \<in> set ks" for k
    proof -
      have "k < 2 ^ 64" using that B n256 by (auto simp: ks_def split: if_splits)
      then show ?thesis by (simp add: unat_mod unat_of_nat)
    qed
    have kslt: "\<forall>k \<in> set ks. unat (?slot k) < unat (slots (fst (r, pool)))" using un n(1) by simp
    obtain r' pool' where f: "fold (\<lambda>k. drop_dead (word_of_nat lo') (word_of_nat hi) (?slot k)) ks (r, pool) = (r', pool')" by fastforce
    have tr: "trimmed lo' hi (r, pool) (r', pool')"
      and lv: "\<And>k. k \<in> set ks \<Longrightarrow> rg_chunks r' ! (k mod ?n) \<noteq> None \<Longrightarrow> slot_live r lo' hi (k mod ?n)"
      using drop_all_ok [of "(r, pool)" ks ?slot "word_of_nat lo'" "word_of_nat hi", OF _ _ kslt] r pool un f u by auto
    have sl: "slots r' = slots r" "ring_ok r'" using tr by (simp_all add: trimmed_def slots_def)
    have same: "slot_live r' a b i = slot_live r a b i" for a b i by (simp add: slot_live_def sl)
    have "tight r' lo' hi" unfolding tight_def same
    proof (intro allI impI)
      fix i assume i: "i < ring_slots" "rg_chunks r' ! i \<noteq> None"
      then have "rg_chunks r ! i \<noteq> None" using tr by (simp add: trimmed_def)
      then obtain x where x: "lo \<le> x" "x < hi" "x div chunkSize mod ?n = i" using t i(1) by (auto simp: tight_def slot_live_def)
      show "slot_live r lo' hi i"
      proof (cases "lo' \<le> x")
        case True
        then show ?thesis using x by (auto simp: slot_live_def)
      next
        case False
        then have "x \<le> lo' - 1" using lt by simp
        then have c: "?A \<le> x div chunkSize" "x div chunkSize \<le> ?B" using x(1) by (simp_all add: div_le_mono)
        have "\<exists>k \<in> set ks. k mod ?n = i"
        proof (cases "?B - ?A + 1 \<ge> ?n")
          case True
          then show ?thesis using x(3) n(1) by (intro bexI [of _ i]) (auto simp: ks_def)
        next
          case False
          then show ?thesis using x(3) c by (intro bexI [of _ "x div chunkSize"]) (auto simp: ks_def)
        qed
        then show ?thesis using lv i(2) by auto
      qed
    qed
    then show ?thesis using e f tr window_trimmed [OF tr w lo'] by (auto simp: trimmed_def)
  qed
qed

lemma give_back_ok:
  assumes "\<forall>x \<in> set xs. \<forall>c. x = Some c \<longrightarrow> length c = chunkSize" and "pool_ok pool"
  shows "pool_ok (fold give_back xs pool) \<and> cp_held (fold give_back xs pool) = cp_held pool - int (length (filter (\<lambda>c. c \<noteq> None) xs))"
  using assms
proof (induction xs arbitrary: pool)
  case (Cons x xs)
  show ?case
  proof (cases x)
    case None
    then show ?thesis using Cons by (simp add: give_back_def)
  next
    case (Some c)
    then have "pool_ok (pool_put pool c)" "cp_held (pool_put pool c) = cp_held pool - 1"
      using pool_put_ok [OF Cons.prems(2)] Cons.prems(1) by auto
    then show ?thesis using Cons.IH [of "pool_put pool c"] Cons.prems Some by (simp add: give_back_def)
  qed
qed simp

lemma release_ok:
  assumes r: "ring_ok r" and pool: "pool_ok pool"
  shows "pool_ok (snd (release r pool)) \<and> cp_held (snd (release r pool)) = cp_held pool - int (in_use r)
    \<and> in_use (fst (release r pool)) = 0 \<and> ring_ok (fst (release r pool))"
proof -
  have c: "\<forall>x \<in> set (rg_chunks r). \<forall>c. x = Some c \<longrightarrow> length c = chunkSize"
    using r by (auto simp: ring_ok_def in_set_conv_nth)
  have "filter (\<lambda>c. c \<noteq> None) (map (\<lambda>_. None) xs) = []" for xs :: "chunk option list" by (induction xs) auto
  then show ?thesis using give_back_ok [OF c pool] r by (auto simp: release_def in_use_def ring_ok_def slots_def)
qed

subsection \<open>Changing the capacity\<close>

text \<open>The bytes of a set of offsets in a ring.\<close>

definition bytes_in :: "ring \<Rightarrow> nat set \<Rightarrow> nat \<rightharpoonup> uint8" where
  "bytes_in r X x = (if x \<in> X then Some (cell r (x mod rcap r)) else None)"

lemma put_bytes_in:
  "put_bytes off (map (\<lambda>k. cell old ((off + k) mod rcap old)) [0..<n]) (bytes_in old X) = bytes_in old (X \<union> {off..<off + n})"
  by (rule ext) (auto simp: put_bytes_def bytes_in_def)

lemma move_range_ok:
  assumes "ring_ok old" and "window (fst s) lo hi (bytes_in old X)" and "pool_ok (snd s)" and "tight (fst s) lo hi"
    and "lo \<le> off" "off + len \<le> hi" and "hi < 2 ^ 64"
  shows "\<exists>s'. move_range old len (word_of_nat off) s = Some s' \<and> pool_ok (snd s') \<and> rg_cap (fst s') = rg_cap (fst s) \<and> elsewhere s' = elsewhere s
    \<and> window (fst s') lo hi (bytes_in old (X \<union> {off..<off + len})) \<and> tight (fst s') lo hi"
  using assms(2-6)
proof (induction len arbitrary: off s X rule: less_induct)
  case (less len)
  show ?case
  proof (cases "len = 0")
    case True
    then show ?thesis using less.prems by (subst move_range.simps) simp
  next
    case False
    let ?n = "min 1024 len" and ?w = "word_of_nat off :: uint64"
    let ?bytes = "map (\<lambda>k. cell old ((off + k) mod rcap old)) [0..<?n]"
    have fit: "off + ?n \<le> hi" "off + ?n < 2 ^ 64" "off < 2 ^ 64" using less.prems(5) assms(7) by linarith+
    have u: "unat ?w = off" using fit(3) by (simp add: unat_of_nat)
    have rd: "ring_read old ?w ?n = Some ?bytes" using ring_read_value [OF assms(1), of ?w ?n] fit(2) by (simp add: u)
    have cap: "hi \<le> lo + rcap (fst s)" using less.prems(1) by (simp add: window_def)
    obtain r' pool' where w: "ring_write (fst s) (snd s) ?w ?bytes = Some (r', pool')" "pool_ok pool'" "rg_cap r' = rg_cap (fst s)"
      "elsewhere (r', pool') = elsewhere s" "window r' lo (max hi (off + ?n)) (put_bytes off ?bytes (bytes_in old X))"
      "tight r' lo (max hi (off + ?n))"
      using window_write [OF less.prems(1,2,4), of ?bytes] less.prems(3) fit cap by auto
    have mx: "max hi (off + ?n) = hi" using fit(1) by (rule max_absorb1)
    have step: "move_range old len ?w s = move_range old (len - ?n) (word_of_nat (off + ?n)) (r', pool')"
      using False rd w(1) by (subst move_range.simps) (simp add: Let_def)
    have set: "X \<union> {off..<off + ?n} \<union> {off + ?n..<off + ?n + (len - ?n)} = X \<union> {off..<off + len}" by auto
    have "\<exists>s'. move_range old (len - ?n) (word_of_nat (off + ?n)) (r', pool') = Some s' \<and> pool_ok (snd s') \<and> rg_cap (fst s') = rg_cap (fst (r', pool'))
      \<and> elsewhere s' = elsewhere (r', pool') \<and> window (fst s') lo hi (bytes_in old (X \<union> {off..<off + ?n} \<union> {off + ?n..<off + ?n + (len - ?n)}))
      \<and> tight (fst s') lo hi"
      using False less.prems(4,5) w(2,5,6) mx by (intro less.IH) (simp_all add: put_bytes_in)
    then show ?thesis unfolding step set using w(3,4) by auto
  qed
qed

lemma move_ranges_ok:
  assumes "ring_ok old" and "window (fst s) lo hi (bytes_in old X)" and "pool_ok (snd s)" and "tight (fst s) lo hi"
    and "\<forall>(a, b) \<in> set ws. lo \<le> unat a \<and> unat a \<le> unat b \<and> unat b \<le> hi" and "hi < 2 ^ 64"
  shows "\<exists>s'. move_ranges old ws s = Some s' \<and> pool_ok (snd s') \<and> rg_cap (fst s') = rg_cap (fst s) \<and> elsewhere s' = elsewhere s
    \<and> window (fst s') lo hi (bytes_in old (X \<union> (\<Union>(a, b) \<in> set ws. {unat a..<unat b}))) \<and> tight (fst s') lo hi"
  using assms(2-5)
proof (induction ws arbitrary: s X)
  case Nil
  then show ?case by simp
next
  case (Cons w ws)
  obtain a b where w: "w = (a, b)" by (cases w)
  have ab: "lo \<le> unat a" "unat a \<le> unat b" "unat b \<le> hi" using Cons.prems(4) w by auto
  obtain s1 where s1: "move_range old (unat b - unat a) a s = Some s1" "pool_ok (snd s1)" "rg_cap (fst s1) = rg_cap (fst s)" "elsewhere s1 = elsewhere s"
    "window (fst s1) lo hi (bytes_in old (X \<union> {unat a..<unat b}))" "tight (fst s1) lo hi"
    using move_range_ok [OF assms(1) Cons.prems(1-3) ab(1), of "unat b - unat a"] ab assms(6) by auto
  obtain s2 where "move_ranges old ws s1 = Some s2" "pool_ok (snd s2)" "rg_cap (fst s2) = rg_cap (fst s1)" "elsewhere s2 = elsewhere s1"
    "window (fst s2) lo hi (bytes_in old (X \<union> {unat a..<unat b} \<union> (\<Union>(a, b) \<in> set ws. {unat a..<unat b})))" "tight (fst s2) lo hi"
    using Cons.IH [OF s1(5,2,6)] Cons.prems(4) by auto
  then show ?case using s1 w by (simp add: Un_assoc)
qed

lemma resize_ok:
  assumes w: "window r lo hi m" and pool: "pool_ok pool" and t: "newCap = rg_cap r \<longrightarrow> tight r lo hi" and big: "hi < 2 ^ 64"
    and cap: "newCap = 2 ^ k" "14 \<le> k" "k \<le> 22" "hi \<le> lo + 2 ^ k"
    and ws: "\<forall>(a, b) \<in> set ws. lo \<le> unat a \<and> unat a \<le> unat b \<and> unat b \<le> hi" "dom m \<subseteq> (\<Union>(a, b) \<in> set ws. {unat a..<unat b})"
  shows "\<exists>r' pool'. ring_resize r pool newCap ws = Some (r', pool') \<and> pool_ok pool' \<and> rg_cap r' = newCap
    \<and> elsewhere (r', pool') = elsewhere (r, pool) \<and> window r' lo hi m \<and> tight r' lo hi"
proof (cases "newCap = rg_cap r")
  case True
  then show ?thesis using w pool t by (simp add: ring_resize_def)
next
  case False
  have r: "ring_ok r" and len: "length (rg_chunks r) = ring_slots" using w by (simp_all add: window_def ring_ok_def)
  let ?e = "r\<lparr>rg_cap := newCap, rg_chunks := replicate (length (rg_chunks r)) None\<rparr>"
  have e: "ring_ok ?e" using cap len by (auto simp: ring_ok_def)
  have "(2 :: nat) ^ k \<le> 2 ^ 22" using cap(3) by (intro power_increasing) auto
  then have "unat (word_of_nat (2 ^ k) :: uint64) = 2 ^ k" by (simp only: unat_of_nat) simp
  then have rc: "rcap ?e = 2 ^ k" by (simp add: rcap_def cap(1))
  have we: "window (fst (?e, pool)) lo hi (bytes_in r {})" using w e cap(4) rc by (simp add: window_def bytes_in_def)
  have te: "tight (fst (?e, pool)) lo hi" using len by (simp add: tight_def)
  obtain r1 p1 where s: "move_ranges r ws (?e, pool) = Some (r1, p1)" "pool_ok p1" "rg_cap r1 = newCap"
    "elsewhere (r1, p1) = elsewhere (?e, pool)" "window r1 lo hi (bytes_in r (\<Union>(a, b) \<in> set ws. {unat a..<unat b}))" "tight r1 lo hi"
    using move_ranges_ok [OF r we _ te ws(1) big] pool by auto
  have "bytes_in r (\<Union>(a, b) \<in> set ws. {unat a..<unat b}) x = Some v" if "m x = Some v" for x v
  proof -
    have "x \<in> (\<Union>(a, b) \<in> set ws. {unat a..<unat b})" using that ws(2) by (intro subsetD [OF ws(2)]) auto
    then show ?thesis using that w by (simp add: bytes_in_def window_def)
  qed
  then have "window r1 lo hi m" using s(5) unfolding window_def by blast
  moreover have "in_use ?e = 0" by (simp add: in_use_def)
  moreover have rel: "pool_ok (snd (release r p1))" "cp_held (snd (release r p1)) = cp_held p1 - int (in_use r)"
    using release_ok [OF r s(2)] by auto
  ultimately have "elsewhere (r1, snd (release r p1)) = elsewhere (r, pool)" using s(4) by (simp add: elsewhere_def)
  then show ?thesis using False s \<open>window r1 lo hi m\<close> rel(1) by (simp add: ring_resize_def)
qed

subsection \<open>A ring in use\<close>

text \<open>
  A ring with its pool and, beside the program's state, the live range and the bytes written
  in it. The range is held back from the end of the 64-bit offsets.
\<close>

record ring_state =
  rs_ring :: ring
  rs_pool :: chunkPool
  rs_lo :: nat
  rs_hi :: nat
  rs_bytes :: "nat \<rightharpoonup> uint8"

inductive ring_step :: "ring_state \<Rightarrow> ring_state \<Rightarrow> bool" where
  Write: "rs_lo s \<le> off \<Longrightarrow> off + length data \<le> rs_lo s + rcap (rs_ring s) \<Longrightarrow> off + length data < 2 ^ 64 \<Longrightarrow>
    ring_write (rs_ring s) (rs_pool s) (word_of_nat off) data = Some (r', pool') \<Longrightarrow>
    ring_step s (s\<lparr>rs_ring := r', rs_pool := pool', rs_hi := max (rs_hi s) (off + length data), rs_bytes := put_bytes off data (rs_bytes s)\<rparr>)"
| Trim: "rs_lo s \<le> lo' \<Longrightarrow> lo' \<le> rs_hi s \<Longrightarrow>
    trim (rs_ring s) (rs_pool s) (word_of_nat (rs_lo s)) (word_of_nat lo') (word_of_nat (rs_hi s)) = (r', pool') \<Longrightarrow>
    ring_step s (s\<lparr>rs_ring := r', rs_pool := pool', rs_lo := lo', rs_bytes := rs_bytes s |` {lo'..}\<rparr>)"
| Retain: "retain (rs_ring s) (rs_pool s) (word_of_nat (rs_lo s)) (word_of_nat (rs_hi s)) = (r', pool') \<Longrightarrow>
    ring_step s (s\<lparr>rs_ring := r', rs_pool := pool'\<rparr>)"
| Resize: "14 \<le> k \<Longrightarrow> k \<le> 22 \<Longrightarrow> rs_hi s \<le> rs_lo s + 2 ^ k \<Longrightarrow>
    \<forall>(a, b) \<in> set ws. rs_lo s \<le> unat a \<and> unat a \<le> unat b \<and> unat b \<le> rs_hi s \<Longrightarrow>
    dom (rs_bytes s) \<subseteq> (\<Union>(a, b) \<in> set ws. {unat a..<unat b}) \<Longrightarrow>
    ring_resize (rs_ring s) (rs_pool s) (2 ^ k) ws = Some (r', pool') \<Longrightarrow>
    ring_step s (s\<lparr>rs_ring := r', rs_pool := pool'\<rparr>)"

definition ring_init :: "ring_state \<Rightarrow> bool" where
  "ring_init s \<longleftrightarrow> (\<exists>k pool. 14 \<le> k \<and> k \<le> 22 \<and> pool_ok pool \<and> cp_held pool = 0
     \<and> s = \<lparr>rs_ring = ring_of_cap (2 ^ k), rs_pool = pool, rs_lo = 0, rs_hi = 0, rs_bytes = Map.empty\<rparr>)"

definition ring_inv :: "ring_state \<Rightarrow> bool" where
  "ring_inv s \<longleftrightarrow> window (rs_ring s) (rs_lo s) (rs_hi s) (rs_bytes s) \<and> tight (rs_ring s) (rs_lo s) (rs_hi s) \<and> pool_ok (rs_pool s)
     \<and> rs_hi s < 2 ^ 64 \<and> cp_held (rs_pool s) = int (in_use (rs_ring s))"

lemma ring_init_inv:
  assumes "ring_init s"
  shows "ring_inv s"
proof -
  have "\<not> (\<exists>c. replicate n None ! i = Some c)" if "i < n" for i n :: nat using that by simp
  then show ?thesis using assms
    by (auto simp: ring_init_def ring_inv_def window_def tight_def ring_of_cap_def ring_ok_def in_use_def)
qed

lemma ring_step_inv:
  assumes i: "ring_inv s" and "ring_step s s'"
  shows "ring_inv s'"
  using assms(2)
proof cases
  case (Write off data r' pool')
  then show ?thesis using i window_write [of "rs_ring s" "rs_lo s" "rs_hi s" "rs_bytes s" "rs_pool s" off data]
    by (auto simp: ring_inv_def elsewhere_def)
next
  case (Trim lo' r' pool')
  then show ?thesis using i trim_ok [of "rs_ring s" "rs_lo s" "rs_hi s" "rs_bytes s" "rs_pool s" lo']
    by (auto simp: ring_inv_def elsewhere_def)
next
  case (Retain r' pool')
  then show ?thesis using i retain_ok [of "rs_ring s" "rs_lo s" "rs_hi s" "rs_bytes s" "rs_pool s"]
    by (auto simp: ring_inv_def elsewhere_def)
next
  case (Resize k ws r' pool')
  then show ?thesis using i resize_ok [of "rs_ring s" "rs_lo s" "rs_hi s" "rs_bytes s" "rs_pool s" "2 ^ k" k ws]
    by (auto simp: ring_inv_def elsewhere_def)
qed

interpretation byte_ring: safe_system ring_init ring_step ring_inv
  by unfold_locales (auto intro: ring_init_inv ring_step_inv)

text \<open>The number of chunks a range of offsets touches bounds the chunks a tight ring holds.\<close>

lemma tight_bound:
  assumes "tight r lo hi" and "length (rg_chunks r) = ring_slots" and "lo < hi"
  shows "in_use r \<le> (hi - 1) div chunkSize - lo div chunkSize + 1"
proof -
  let ?A = "lo div chunkSize" and ?B = "(hi - 1) div chunkSize"
  have le: "?A \<le> ?B" using assms(3) by (intro div_le_mono) simp
  have "in_use r = card {i. i < ring_slots \<and> rg_chunks r ! i \<noteq> None}" by (simp add: in_use_def length_filter_conv_card assms(2))
  also have "\<dots> \<le> card ((\<lambda>c. c mod unat (slots r)) ` {?A..?B})"
  proof (rule card_mono)
    show "{i. i < ring_slots \<and> rg_chunks r ! i \<noteq> None} \<subseteq> (\<lambda>c. c mod unat (slots r)) ` {?A..?B}"
      using assms(1) by (fastforce simp: tight_def slot_live_chunks)
  qed simp
  also have "\<dots> \<le> card {?A..?B}" by (rule card_image_le) simp
  also have "\<dots> = ?B - ?A + 1" using le by simp
  finally show ?thesis .
qed

lemma held_in_use:
  assumes "ring_ok r"
  shows "heldChunks r = in_use r"
proof -
  have len: "length (rg_chunks r) = ring_slots" and out: "\<And>i c. i < ring_slots \<Longrightarrow> rg_chunks r ! i = Some c \<Longrightarrow> i < unat (slots r)"
    using assms by (auto simp: ring_ok_def)
  let ?n = "unat (slots r)"
  have "x = None" if x: "x \<in> set (drop ?n (rg_chunks r))" for x
  proof (rule ccontr)
    assume "x \<noteq> None"
    then obtain c where "x = Some c" by blast
    moreover obtain i where i: "i < length (drop ?n (rg_chunks r))" "drop ?n (rg_chunks r) ! i = x" using x unfolding in_set_conv_nth by blast
    ultimately show False using out [of "?n + i" c] len by (simp add: less_diff_conv add.commute)
  qed
  then have "filter (\<lambda>c. c \<noteq> None) (drop ?n (rg_chunks r)) = []" by (simp add: filter_empty_conv)
  then have "in_use r = length (filter (\<lambda>c. c \<noteq> None) (take ?n (rg_chunks r)))"
    unfolding in_use_def by (metis append_take_drop_id append_Nil2 filter_append)
  then show ?thesis by (simp add: heldChunks_def)
qed

end
