(* ===== verification/Wheel.thy ===== *)
theory Wheel
  imports GoLib
begin

section \<open>The timer wheel (internal/wgstack/wheel.go)\<close>

text \<open>
  Timers in three levels of 64 buckets over ticks of one millisecond. Each bucket is a
  doubly linked list through arrays over the nodes; the index \<open>-1\<close> of the source is \<open>None\<close>
  here. Shifts and masks of the \<open>int64\<close> ticks are written as \<open>div\<close> and \<open>mod\<close>. The lists and the
  loop over the ticks are followed as the code follows them, so that a loop that would
  not end has the value \<open>None\<close>.
\<close>

unbundle bit_operations_syntax

definition tickNs :: int where "tickNs = 1000000"
definition noTick :: int where "noTick = 2 ^ 62"

record wheel =
  wl_tick :: int
  wl_dl :: "int list"
  wl_next :: "nat option list"
  wl_prev :: "nat option list"
  wl_where :: "nat option list"
  wl_heads :: "nat option list"
  wl_bm :: "uint64 list"
  wl_count :: int

definition newWheel :: "nat \<Rightarrow> wheel" where
  "newWheel nodes =
     \<lparr>wl_tick = 0, wl_dl = replicate nodes 0, wl_next = replicate nodes (Some 0), wl_prev = replicate nodes (Some 0),
      wl_where = replicate nodes None, wl_heads = replicate 192 None, wl_bm = replicate 3 0, wl_count = 0\<rparr>"

definition toTick :: "int \<Rightarrow> int" where
  "toTick ns = go_div (wrap64 (ns + tickNs - 1)) tickNs"

definition bm_clear :: "wheel \<Rightarrow> nat \<Rightarrow> uint64 list" where
  "bm_clear w b = (wl_bm w)[b div 64 := unset_bit (b mod 64) (wl_bm w ! (b div 64))]"

definition bm_set :: "wheel \<Rightarrow> nat \<Rightarrow> uint64 list" where
  "bm_set w b = (wl_bm w)[b div 64 := set_bit (b mod 64) (wl_bm w ! (b div 64))]"

definition unlink :: "wheel \<Rightarrow> nat \<Rightarrow> wheel" where
  "unlink w n =
     (case wl_where w ! n of
        None \<Rightarrow> w
      | Some b \<Rightarrow>
          let p = wl_prev w ! n; x = wl_next w ! n;
              w = (case p of
                     Some p' \<Rightarrow> w\<lparr>wl_next := (wl_next w)[p' := x]\<rparr>
                   | None \<Rightarrow> w\<lparr>wl_heads := (wl_heads w)[b := x], wl_bm := (if x = None then bm_clear w b else wl_bm w)\<rparr>);
              w = (case x of Some x' \<Rightarrow> w\<lparr>wl_prev := (wl_prev w)[x' := p]\<rparr> | None \<Rightarrow> w)
          in w\<lparr>wl_where := (wl_where w)[n := None], wl_count := wl_count w - 1\<rparr>)"

definition link :: "wheel \<Rightarrow> nat \<Rightarrow> nat \<Rightarrow> wheel" where
  "link w n b =
     (let h = wl_heads w ! b;
          w = w\<lparr>wl_next := (wl_next w)[n := h], wl_prev := (wl_prev w)[n := None]\<rparr>;
          w = (case h of Some h' \<Rightarrow> w\<lparr>wl_prev := (wl_prev w)[h' := Some n]\<rparr> | None \<Rightarrow> w)
      in w\<lparr>wl_heads := (wl_heads w)[b := Some n], wl_bm := bm_set w b, wl_where := (wl_where w)[n := Some b], wl_count := wl_count w + 1\<rparr>)"

text \<open>The bucket of the deadline \<open>t\<close> at the tick \<open>T\<close>.\<close>

definition bucket_of :: "int \<Rightarrow> int \<Rightarrow> nat" where
  "bucket_of T t =
     (if t div 64 = T div 64 then nat (t mod 64)
      else if t div 4096 = T div 4096 then 64 + nat (t div 64 mod 64)
      else if t div 262144 = T div 262144 then 128 + nat (t div 4096 mod 64)
      else 128)"

definition place :: "wheel \<Rightarrow> nat \<Rightarrow> int \<Rightarrow> wheel" where
  "place w n t = link w n (bucket_of (wl_tick w) t)"

definition wheel_set :: "wheel \<Rightarrow> nat \<Rightarrow> int \<Rightarrow> wheel" where
  "wheel_set w n ns =
     (let t = toTick ns;
          w = unlink w n;
          t = max t (wl_tick w + 1);
          w = w\<lparr>wl_dl := (wl_dl w)[n := t]\<rparr>
      in place w n t)"

definition cancel :: "wheel \<Rightarrow> nat \<Rightarrow> wheel" where
  "cancel w n = unlink w n"

text \<open>\<open>bits.TrailingZeros64\<close> and \<open>nextBit\<close>.\<close>

definition TrailingZeros64 :: "uint64 \<Rightarrow> nat" where
  "TrailingZeros64 m = length (takeWhile (\<lambda>k. \<not> bit m k) [0..<64])"

definition nextBit :: "uint64 \<Rightarrow> nat \<Rightarrow> nat option" where
  "nextBit bm from =
     (if from \<ge> 64 then None
      else let m = drop_bit from bm in if m = 0 then None else Some (from + TrailingZeros64 m))"

partial_function (option) drain_loop :: "wheel \<Rightarrow> nat option \<Rightarrow> nat list \<Rightarrow> (wheel \<times> nat list) option" where
  "drain_loop w n fired =
     (case n of
        None \<Rightarrow> Some (w, fired)
      | Some n \<Rightarrow>
          let next = wl_next w ! n;
              w = w\<lparr>wl_where := (wl_where w)[n := None], wl_count := wl_count w - 1\<rparr>
          in if wl_dl w ! n \<le> wl_tick w then drain_loop w next (fired @ [n])
             else drain_loop (place w n (wl_dl w ! n)) next fired)"

declare drain_loop.simps [code]

definition drain :: "wheel \<Rightarrow> nat \<Rightarrow> nat list \<Rightarrow> (wheel \<times> nat list) option" where
  "drain w b fired =
     drain_loop (w\<lparr>wl_heads := (wl_heads w)[b := None], wl_bm := bm_clear w b\<rparr>) (wl_heads w ! b) fired"

text \<open>The next tick with work above the first level: the window of the next bucket of the second level or the
  next boundary of the third.\<close>

definition next_window :: "wheel \<Rightarrow> int" where
  "next_window w =
     (let T = wl_tick w in
      case nextBit (wl_bm w ! 1) (nat (T div 64 mod 64) + 1) of
        Some b1 \<Rightarrow> T div 4096 * 4096 + int b1 * 64
      | None \<Rightarrow> (T div 4096 + 1) * 4096)"

text \<open>The drains at a new window.\<close>

definition enter_window :: "wheel \<Rightarrow> int \<Rightarrow> nat list \<Rightarrow> (wheel \<times> nat list) option" where
  "enter_window w target fired =
     (let w = w\<lparr>wl_tick := target\<rparr>;
          after = (if target mod 4096 = 0 then drain w (128 + nat (target div 4096 mod 64)) fired else Some (w, fired))
      in case after of
           None \<Rightarrow> None
         | Some (w, fired) \<Rightarrow>
             (case drain w (64 + nat (target div 64 mod 64)) fired of
                None \<Rightarrow> None
              | Some (w, fired) \<Rightarrow> drain w (nat (target mod 64)) fired))"

partial_function (option) advance_loop :: "wheel \<Rightarrow> int \<Rightarrow> nat list \<Rightarrow> (wheel \<times> nat list) option" where
  "advance_loop w now fired =
     (if \<not> wl_tick w < now then Some (w, fired)
      else if wl_count w = 0 then Some (w\<lparr>wl_tick := now\<rparr>, fired)
      else
        case nextBit (wl_bm w ! 0) (nat (wl_tick w mod 64) + 1) of
          Some b \<Rightarrow>
            let t = wl_tick w div 64 * 64 + int b in
            if t > now then Some (w\<lparr>wl_tick := now\<rparr>, fired)
            else (case drain (w\<lparr>wl_tick := t\<rparr>) b fired of
                    None \<Rightarrow> None
                  | Some r \<Rightarrow> advance_loop (fst r) now (snd r))
        | None \<Rightarrow>
            let target = next_window w in
            if target > now then Some (w\<lparr>wl_tick := now\<rparr>, fired)
            else (case enter_window w target fired of
                    None \<Rightarrow> None
                  | Some r \<Rightarrow> advance_loop (fst r) now (snd r)))"

declare advance_loop.simps [code]

definition advance :: "wheel \<Rightarrow> int \<Rightarrow> nat list \<Rightarrow> (wheel \<times> nat list) option" where
  "advance w ns fired = advance_loop w (go_div ns tickNs) fired"

definition nextTick :: "wheel \<Rightarrow> int" where
  "nextTick w =
     (let T = wl_tick w in
      if wl_count w = 0 then noTick
      else case nextBit (wl_bm w ! 0) (nat (T mod 64) + 1) of
        Some b \<Rightarrow> T div 64 * 64 + int b
      | None \<Rightarrow>
          (case nextBit (wl_bm w ! 1) (nat (T div 64 mod 64) + 1) of
             Some b \<Rightarrow> T div 4096 * 4096 + int b * 64
           | None \<Rightarrow>
               (case nextBit (wl_bm w ! 2) (nat (T div 4096 mod 64) + 1) of
                  Some b \<Rightarrow> T div 262144 * 262144 + int b * 4096
                | None \<Rightarrow> (T div 262144 + 1) * 262144)))"

end
