(* ===== verification/Wheel_Lists.thy ===== *)
theory Wheel_Lists
  imports Wheel
begin

section \<open>The buckets of the wheel as lists\<close>

text \<open>
  The linked lists of the wheel represent a list of nodes for each bucket. Linking puts a
  node at the front of its bucket, unlinking takes it out, and draining empties a bucket
  and places its nodes anew.
\<close>

subsection \<open>Segments of a doubly linked list\<close>

fun seg :: "(nat \<Rightarrow> nat option) \<Rightarrow> (nat \<Rightarrow> nat option) \<Rightarrow> nat option \<Rightarrow> nat list \<Rightarrow> nat option \<Rightarrow> bool" where
  "seg nx pv p [] q = True"
| "seg nx pv p (x # xs) q = (pv x = p \<and> nx x = (if xs = [] then q else Some (hd xs)) \<and> seg nx pv (Some x) xs q)"

lemma seg_append:
  "seg nx pv p (xs @ ys) q \<longleftrightarrow> seg nx pv p xs (if ys = [] then q else Some (hd ys)) \<and> seg nx pv (if xs = [] then p else Some (last xs)) ys q"
  by (induction xs arbitrary: p) auto

lemma seg_cong:
  "(\<And>x. x \<in> set xs \<Longrightarrow> nx x = nx' x \<and> pv x = pv' x) \<Longrightarrow> seg nx pv p xs q = seg nx' pv' p xs q"
  by (induction xs arbitrary: p) auto

lemma seg_new_next:
  assumes "seg nx pv p xs q" and "distinct xs" and "xs \<noteq> []"
  shows "seg (nx(last xs := q')) pv p xs q'"
  using assms
proof (induction xs arbitrary: p)
  case (Cons x xs)
  show ?case
  proof (cases "xs = []")
    case False
    then have "x \<noteq> last xs" using Cons.prems(2) by (auto dest: last_in_set)
    then show ?thesis using Cons False by simp
  qed (use Cons.prems in simp)
qed simp

lemma seg_new_prev:
  assumes "seg nx pv p xs q" and "distinct xs" and "xs \<noteq> []"
  shows "seg nx (pv(hd xs := p')) p' xs q"
proof -
  obtain x ys where x: "xs = x # ys" using assms(3) by (cases xs) auto
  have "seg nx (pv(x := p')) (Some x) ys q = seg nx pv (Some x) ys q"
    by (rule seg_cong) (use assms(2) x in auto)
  then show ?thesis using assms(1) x by simp
qed

subsection \<open>The relation\<close>

definition nxt :: "wheel \<Rightarrow> nat \<Rightarrow> nat option" where "nxt w x = wl_next w ! x"
definition prv :: "wheel \<Rightarrow> nat \<Rightarrow> nat option" where "prv w x = wl_prev w ! x"

lemma links_frame [simp]:
  "nxt (w\<lparr>wl_where := a\<rparr>) = nxt w" "nxt (w\<lparr>wl_count := c\<rparr>) = nxt w" "nxt (w\<lparr>wl_heads := h\<rparr>) = nxt w" "nxt (w\<lparr>wl_bm := m\<rparr>) = nxt w"
  "prv (w\<lparr>wl_where := a\<rparr>) = prv w" "prv (w\<lparr>wl_count := c\<rparr>) = prv w" "prv (w\<lparr>wl_heads := h\<rparr>) = prv w" "prv (w\<lparr>wl_bm := m\<rparr>) = prv w"
  "nxt (w\<lparr>wl_tick := t\<rparr>) = nxt w" "prv (w\<lparr>wl_tick := t\<rparr>) = prv w" "nxt (w\<lparr>wl_dl := l\<rparr>) = nxt w" "prv (w\<lparr>wl_dl := l\<rparr>) = prv w"
  by (simp_all add: nxt_def [abs_def] prv_def [abs_def])

definition first_of :: "nat list \<Rightarrow> nat option" where
  "first_of xs = (if xs = [] then None else Some (hd xs))"

definition nodes :: "(nat \<Rightarrow> nat list) \<Rightarrow> nat set" where
  "nodes bs = (\<Union>b < 192. set (bs b))"

definition apart_buckets :: "(nat \<Rightarrow> nat list) \<Rightarrow> bool" where
  "apart_buckets bs \<longleftrightarrow> (\<forall>b < 192. distinct (bs b)) \<and> (\<forall>b < 192. \<forall>c < 192. b \<noteq> c \<longrightarrow> set (bs b) \<inter> set (bs c) = {})"

definition total :: "(nat \<Rightarrow> nat list) \<Rightarrow> nat" where
  "total bs = (\<Sum>b < 192. length (bs b))"

text \<open>\<open>out\<close> are nodes that a running drain has cut off from their bucket.\<close>

definition rel :: "wheel \<Rightarrow> (nat \<Rightarrow> nat list) \<Rightarrow> nat list \<Rightarrow> bool" where
  "rel w bs out \<longleftrightarrow>
     length (wl_next w) = length (wl_dl w) \<and> length (wl_prev w) = length (wl_dl w) \<and> length (wl_where w) = length (wl_dl w)
     \<and> length (wl_heads w) = 192 \<and> length (wl_bm w) = 3
     \<and> apart_buckets bs \<and> nodes bs \<inter> set out = {} \<and> (\<forall>x \<in> nodes bs \<union> set out. x < length (wl_dl w))
     \<and> (\<forall>b < 192. wl_heads w ! b = first_of (bs b) \<and> seg (nxt w) (prv w) None (bs b) None)
     \<and> (\<forall>b < 192. bit (wl_bm w ! (b div 64)) (b mod 64) \<longleftrightarrow> bs b \<noteq> [])
     \<and> (\<forall>x < length (wl_dl w). x \<notin> set out \<longrightarrow> (\<forall>b. wl_where w ! x = Some b \<longleftrightarrow> b < 192 \<and> x \<in> set (bs b)))
     \<and> wl_count w = int (total bs + length out)"

lemma relD:
  assumes "rel w bs out"
  shows "length (wl_next w) = length (wl_dl w)" "length (wl_prev w) = length (wl_dl w)" "length (wl_where w) = length (wl_dl w)"
    "length (wl_heads w) = 192" "length (wl_bm w) = 3" "apart_buckets bs" "nodes bs \<inter> set out = {}"
    "\<And>x. x \<in> nodes bs \<Longrightarrow> x < length (wl_dl w)" "\<And>x. x \<in> set out \<Longrightarrow> x < length (wl_dl w)"
    "\<And>b. b < 192 \<Longrightarrow> wl_heads w ! b = first_of (bs b)" "\<And>b. b < 192 \<Longrightarrow> seg (nxt w) (prv w) None (bs b) None"
    "\<And>b. b < 192 \<Longrightarrow> bit (wl_bm w ! (b div 64)) (b mod 64) \<longleftrightarrow> bs b \<noteq> []"
    "\<And>x b. x < length (wl_dl w) \<Longrightarrow> x \<notin> set out \<Longrightarrow> wl_where w ! x = Some b \<longleftrightarrow> b < 192 \<and> x \<in> set (bs b)"
    "wl_count w = int (total bs + length out)"
  using assms unfolding rel_def by blast+

lemma in_nodes: "b < 192 \<Longrightarrow> x \<in> set (bs b) \<Longrightarrow> x \<in> nodes bs"
  by (auto simp: nodes_def)

lemma bucket_apart: "apart_buckets bs \<Longrightarrow> b < 192 \<Longrightarrow> c < 192 \<Longrightarrow> x \<in> set (bs b) \<Longrightarrow> x \<in> set (bs c) \<Longrightarrow> b = c"
  by (auto simp: apart_buckets_def)

lemma apart_shrink:
  assumes "apart_buckets bs" and "distinct xs" and "set xs \<subseteq> set (bs b)"
  shows "apart_buckets (bs(b := xs))"
  unfolding apart_buckets_def
proof (intro conjI allI impI)
  have sub: "set ((bs(b := xs)) c) \<subseteq> set (bs c)" for c using assms(3) by simp
  fix c :: nat assume c: "c < 192"
  show "distinct ((bs(b := xs)) c)" using assms(1,2) c by (simp add: apart_buckets_def)
  fix e :: nat assume e: "e < 192" "c \<noteq> e"
  have "set (bs c) \<inter> set (bs e) = {}" using assms(1) c e by (simp add: apart_buckets_def)
  then show "set ((bs(b := xs)) c) \<inter> set ((bs(b := xs)) e) = {}" using sub [of c] sub [of e] by blast
qed

lemma total_upd: "b < 192 \<Longrightarrow> total (bs(b := xs)) + length (bs b) = total bs + length xs"
proof -
  assume b: "b < 192"
  have s: "(\<Sum>c < 192. f c) = f b + (\<Sum>c \<in> {..<192} - {b}. f c)" for f :: "nat \<Rightarrow> nat"
    using b by (intro sum.remove) auto
  have "(\<Sum>c \<in> {..<192} - {b}. length ((bs(b := xs)) c)) = (\<Sum>c \<in> {..<192} - {b}. length (bs c))" by (intro sum.cong) auto
  then show ?thesis using s [of "\<lambda>c. length ((bs(b := xs)) c)"] s [of "\<lambda>c. length (bs c)"] by (simp add: total_def)
qed

text \<open>One bit of the bitmaps.\<close>

lemma bm_upd:
  fixes bm :: "uint64 list"
  assumes "length bm = 3" and "b < 192" "c < 192" and "\<And>w. bit (f w) (c mod 64) = (if c mod 64 = b mod 64 then v else bit w (c mod 64))"
  shows "bit (bm[b div 64 := f (bm ! (b div 64))] ! (c div 64)) (c mod 64) = (if c = b then v else bit (bm ! (c div 64)) (c mod 64))"
proof (cases "c div 64 = b div 64")
  case True
  have "b div 64 < 3" using assms(2) by simp
  moreover have "c = b \<longleftrightarrow> c mod 64 = b mod 64" using True by (metis div_mult_mod_eq)
  ultimately show ?thesis using True assms(1,4) by simp
next
  case False
  then show ?thesis by auto
qed

lemma bm_clear_bit:
  assumes "length (wl_bm w) = 3" "b < 192" "c < 192"
  shows "bit (bm_clear w b ! (c div 64)) (c mod 64) = (c \<noteq> b \<and> bit (wl_bm w ! (c div 64)) (c mod 64))"
  unfolding bm_clear_def using bm_upd [OF assms, where f = "unset_bit (b mod 64)" and v = False]
  by (auto simp: bit_unset_bit_iff)

lemma bm_set_bit:
  assumes "length (wl_bm w) = 3" "b < 192" "c < 192"
  shows "bit (bm_set w b ! (c div 64)) (c mod 64) = (c = b \<or> bit (wl_bm w ! (c div 64)) (c mod 64))"
  unfolding bm_set_def using bm_upd [OF assms, where f = "set_bit (b mod 64)" and v = True]
  by (auto simp: bit_set_bit_iff)

subsection \<open>Linking and unlinking\<close>

lemma link_fields:
  "wl_tick (link w n b) = wl_tick w" "wl_dl (link w n b) = wl_dl w" "length (wl_next (link w n b)) = length (wl_next w)"
  "length (wl_prev (link w n b)) = length (wl_prev w)" "wl_heads (link w n b) = (wl_heads w)[b := Some n]" "wl_bm (link w n b) = bm_set w b"
  "wl_where (link w n b) = (wl_where w)[n := Some b]" "wl_count (link w n b) = wl_count w + 1"
  "wl_next (link w n b) = (wl_next w)[n := wl_heads w ! b]"
  by (auto simp: link_def Let_def bm_set_def split: option.splits)

lemma link_ok:
  assumes r: "rel w bs out" and n: "n < length (wl_dl w)" "n \<notin> nodes bs" "n \<notin> set out" and b: "b < 192"
  shows "rel (link w n b) (bs(b := n # bs b)) out"
proof -
  note d = relD [OF r]
  let ?w = "link w n b" and ?bs = "bs(b := n # bs b)"
  have h: "wl_heads w ! b = first_of (bs b)" using d(10) b by blast
  have hn: "x \<in> set (bs b)" if "first_of (bs b) = Some x" for x using that by (auto simp: first_of_def split: if_splits)
  have nx: "nxt ?w x = (if x = n then first_of (bs b) else nxt w x)" for x
    using d(1) n h by (simp add: nxt_def link_fields nth_list_update)
  have pv: "prv ?w x = (if first_of (bs b) = Some x then Some n else if x = n then None else prv w x)" if "x < length (wl_dl w)" for x
    using d(2) n h that by (auto simp: prv_def link_def Let_def nth_list_update split: option.splits)
  have lt: "x < length (wl_dl w)" if "x \<in> set (bs c)" "c < 192" for x c using d(8) in_nodes that by blast
  have seg_c: "seg (nxt ?w) (prv ?w) None (?bs c) None" if c: "c < 192" for c
  proof (cases "c = b")
    case False
    have "nxt ?w x = nxt w x \<and> prv ?w x = prv w x" if x: "x \<in> set (bs c)" for x
      using nx [of x] pv [OF lt [OF x c]] x c b n(2) in_nodes bucket_apart [OF d(6) c b x] hn False by auto
    then have "seg (nxt ?w) (prv ?w) None (bs c) None = seg (nxt w) (prv w) None (bs c) None" by (intro seg_cong) auto
    then show ?thesis using d(11) c False by simp
  next
    case True
    have s: "seg (nxt w) (prv w) None (bs b) None" using d(11) b by blast
    have db: "distinct (bs b)" using d(6) b by (simp add: apart_buckets_def)
    have "seg (nxt ?w) (prv ?w) (Some n) (bs b) None"
    proof (cases "bs b = []")
      case ne: False
      have "seg (nxt w) ((prv w)(hd (bs b) := Some n)) (Some n) (bs b) None" by (rule seg_new_prev [OF s db ne])
      moreover have "nxt ?w x = nxt w x \<and> prv ?w x = ((prv w)(hd (bs b) := Some n)) x" if x: "x \<in> set (bs b)" for x
        using nx [of x] pv [OF lt [OF x b]] x b n(2) in_nodes ne by (auto simp: first_of_def)
      then have "seg (nxt ?w) (prv ?w) (Some n) (bs b) None = seg (nxt w) ((prv w)(hd (bs b) := Some n)) (Some n) (bs b) None"
        by (rule seg_cong)
      ultimately show ?thesis by (simp only:)
    qed simp
    moreover have "prv ?w n = None" using pv [OF n(1)] hn n(2) in_nodes [OF b] by auto
    ultimately show ?thesis using True nx [of n] by (simp add: first_of_def)
  qed
  have ap: "apart_buckets ?bs" using d(6) n(2) b by (auto simp: apart_buckets_def nodes_def)
  have nd: "nodes ?bs = insert n (nodes bs)" using b by (auto simp: nodes_def split: if_splits)
  have hd: "wl_heads ?w ! c = first_of (?bs c)" if "c < 192" for c
    using d(4) d(10) [OF that] that by (simp add: link_fields nth_list_update first_of_def)
  have bits: "bit (wl_bm ?w ! (c div 64)) (c mod 64) \<longleftrightarrow> ?bs c \<noteq> []" if "c < 192" for c
    using bm_set_bit [OF d(5) b that] d(12) [OF that] by (simp add: link_fields)
  have wh: "wl_where ?w ! x = Some c \<longleftrightarrow> c < 192 \<and> x \<in> set (?bs c)" if x: "x < length (wl_dl w)" "x \<notin> set out" for x c
  proof (cases "x = n")
    case True
    then show ?thesis using d(3) n b in_nodes [of c n bs] by (auto simp: link_fields)
  next
    case False
    then show ?thesis using d(13) [OF x, of c] by (auto simp: link_fields)
  qed
  have cnt: "wl_count ?w = int (total ?bs + length out)" using d(14) total_upd [OF b, of bs "n # bs b"] by (simp add: link_fields)
  have len: "length (wl_bm ?w) = 3" "length (wl_heads ?w) = 192" "length (wl_next ?w) = length (wl_dl ?w)"
    "length (wl_prev ?w) = length (wl_dl ?w)" "length (wl_where ?w) = length (wl_dl ?w)"
    using d(1-5) by (simp_all add: link_fields bm_set_def)
  show ?thesis unfolding rel_def
    using len ap nd hd bits wh cnt seg_c d(7-9) n by (auto simp: link_fields(2))
qed

text \<open>The pointers around a node that is taken out.\<close>

lemma seg_remove:
  assumes s: "seg nx pv None (A @ n # B) None" and dist: "distinct (A @ n # B)"
    and nx': "\<And>x. x \<in> set (A @ B) \<Longrightarrow> nx' x = (if A \<noteq> [] \<and> x = last A then first_of B else nx x)"
    and pv': "\<And>x. x \<in> set (A @ B) \<Longrightarrow> pv' x = (if B \<noteq> [] \<and> x = hd B then (if A = [] then None else Some (last A)) else pv x)"
  shows "seg nx' pv' None (A @ B) None" "nx n = first_of B" "pv n = (if A = [] then None else Some (last A))"
proof -
  let ?p = "if A = [] then None else Some (last A)"
  have a: "seg nx pv None A (Some n)" and b: "seg nx pv (Some n) B None" and m: "pv n = ?p" "nx n = first_of B"
    using s by (auto simp: seg_append first_of_def split: if_splits)
  show "nx n = first_of B" "pv n = ?p" by (rule m)+
  have "seg nx' pv' None A (first_of B)"
  proof (cases "A = []")
    case False
    have "seg (nx(last A := first_of B)) pv None A (first_of B)" using seg_new_next [OF a _ False] dist by simp
    moreover have "nx' x = (nx(last A := first_of B)) x \<and> pv' x = pv x" if x: "x \<in> set A" for x
    proof -
      have "\<not> (B \<noteq> [] \<and> x = hd B)" using x dist by (auto dest: hd_in_set)
      then show ?thesis using nx' [of x] pv' [of x] x False by auto
    qed
    then have "seg nx' pv' None A (first_of B) = seg (nx(last A := first_of B)) pv None A (first_of B)" by (rule seg_cong)
    ultimately show ?thesis by (simp only:)
  qed simp
  moreover have "seg nx' pv' ?p B None"
  proof (cases "B = []")
    case False
    have "seg nx (pv(hd B := ?p)) ?p B None" using seg_new_prev [OF b _ False] dist by simp
    moreover have "nx' x = nx x \<and> pv' x = (pv(hd B := ?p)) x" if x: "x \<in> set B" for x
    proof -
      have "\<not> (A \<noteq> [] \<and> x = last A)" using x dist by (auto dest: last_in_set)
      then show ?thesis using nx' [of x] pv' [of x] x False by auto
    qed
    then have "seg nx' pv' ?p B None = seg nx (pv(hd B := ?p)) ?p B None" by (rule seg_cong)
    ultimately show ?thesis by (simp only:)
  qed simp
  ultimately show "seg nx' pv' None (A @ B) None" by (simp add: seg_append first_of_def)
qed

lemma unlink_ok:
  assumes r: "rel w bs []" and n: "n < length (wl_dl w)"
  shows "\<exists>bs'. rel (unlink w n) bs' [] \<and> (\<forall>b < 192. bs' b = remove1 n (bs b)) \<and> wl_tick (unlink w n) = wl_tick w \<and> wl_dl (unlink w n) = wl_dl w"
proof (cases "wl_where w ! n")
  case None
  then have "n \<notin> set (bs b)" if "b < 192" for b using relD(13) [OF r n] that by auto
  then show ?thesis using r None by (intro exI [of _ bs]) (simp add: unlink_def remove1_idem)
next
  case (Some b)
  note d = relD [OF r]
  have b: "b < 192" "n \<in> set (bs b)" using d(13) [OF n] Some by auto
  obtain A B where ab: "bs b = A @ n # B" using split_list [OF b(2)] by blast
  have dist: "distinct (A @ n # B)" using d(6) b(1) ab by (metis apart_buckets_def)
  then have rm: "remove1 n (bs b) = A @ B" by (simp add: ab remove1_append)
  let ?w = "unlink w n" and ?bs = "bs(b := A @ B)"
  have s: "seg (nxt w) (prv w) None (A @ n # B) None" using d(11) [OF b(1)] ab by simp
  let ?p = "if A = [] then None else Some (last A)"
  have ptr: "wl_next w ! n = first_of B" "wl_prev w ! n = ?p"
    using s by (auto simp: seg_append first_of_def nxt_def prv_def split: if_splits)
  have fields: "wl_tick ?w = wl_tick w" "wl_dl ?w = wl_dl w" "wl_where ?w = (wl_where w)[n := None]" "wl_count ?w = wl_count w - 1"
    "wl_heads ?w = (if A = [] then (wl_heads w)[b := first_of B] else wl_heads w)"
    "wl_bm ?w = (if A = [] \<and> B = [] then bm_clear w b else wl_bm w)"
    "wl_next ?w = (if A = [] then wl_next w else (wl_next w)[last A := first_of B])"
    "wl_prev ?w = (if B = [] then wl_prev w else (wl_prev w)[hd B := ?p])"
    using Some ptr by (auto simp: unlink_def Let_def first_of_def bm_clear_def)
  have lt: "x < length (wl_dl w)" if "x \<in> set (bs c)" "c < 192" for x c using d(8) in_nodes that by blast
  have ltb: "x < length (wl_dl w)" if "x \<in> set (A @ B)" for x using lt [of x b] that b ab by auto
  have nx: "nxt ?w x = (if A \<noteq> [] \<and> x = last A then first_of B else nxt w x)" if "x < length (wl_dl w)" for x
    using that d(1) by (auto simp: nxt_def fields nth_list_update)
  have pv: "prv ?w x = (if B \<noteq> [] \<and> x = hd B then ?p else prv w x)" if "x < length (wl_dl w)" for x
    using that d(2) by (auto simp: prv_def fields nth_list_update)
  have seg_c: "seg (nxt ?w) (prv ?w) None (?bs c) None" if c: "c < 192" for c
  proof (cases "c = b")
    case True
    then show ?thesis using seg_remove(1) [OF s dist, of "nxt ?w" "prv ?w"] nx pv ltb by simp
  next
    case False
    have "nxt ?w x = nxt w x \<and> prv ?w x = prv w x" if x: "x \<in> set (bs c)" for x
    proof -
      have "x \<notin> set (A @ B)" using bucket_apart [OF d(6) c b(1) x] False ab by auto
      then have "\<not> (A \<noteq> [] \<and> x = last A)" "\<not> (B \<noteq> [] \<and> x = hd B)" by (auto dest: last_in_set hd_in_set)
      then show ?thesis using nx pv lt [OF x c] by auto
    qed
    then have "seg (nxt ?w) (prv ?w) None (bs c) None = seg (nxt w) (prv w) None (bs c) None" by (rule seg_cong)
    then show ?thesis using d(11) c False by simp
  qed
  have sub: "set (A @ B) \<subseteq> set (bs b)" using ab by auto
  have ap: "apart_buckets ?bs" by (rule apart_shrink [OF d(6) _ sub]) (use dist in auto)
  have "set (?bs c) \<subseteq> set (bs c)" for c using sub by simp
  then have nd: "nodes ?bs \<subseteq> nodes bs" unfolding nodes_def by (intro UN_mono) auto
  have hd: "wl_heads ?w ! c = first_of (?bs c)" if "c < 192" for c
    using d(4) d(10) [OF that] that ab by (cases A) (auto simp: fields nth_list_update first_of_def)
  have bits: "bit (wl_bm ?w ! (c div 64)) (c mod 64) \<longleftrightarrow> ?bs c \<noteq> []" if "c < 192" for c
    using bm_clear_bit [OF d(5) b(1) that] d(12) [OF that] ab by (auto simp: fields)
  have wh: "wl_where ?w ! x = Some c \<longleftrightarrow> c < 192 \<and> x \<in> set (?bs c)" if x: "x < length (wl_dl w)" for x c
  proof (cases "x = n")
    case True
    have "n \<notin> set (bs c)" if "c < 192" "c \<noteq> b" using bucket_apart [OF d(6) that(1) b(1) _ b(2)] that(2) by blast
    then show ?thesis using True d(3) n dist by (auto simp: fields)
  next
    case False
    then show ?thesis using d(13) [OF x, of c] ab by (auto simp: fields)
  qed
  have cnt: "wl_count ?w = int (total ?bs)" using d(14) total_upd [OF b(1), of bs "A @ B"] ab by (simp add: fields)
  have len: "length (wl_bm ?w) = 3" "length (wl_heads ?w) = 192" "length (wl_next ?w) = length (wl_dl ?w)"
    "length (wl_prev ?w) = length (wl_dl ?w)" "length (wl_where ?w) = length (wl_dl ?w)"
    using d(1-5) by (simp_all add: fields bm_clear_def)
  have "rel ?w ?bs []" unfolding rel_def using len ap nd hd bits wh cnt seg_c d(8) by (auto simp: fields(2))
  moreover have "?bs c = remove1 n (bs c)" if "c < 192" for c
  proof (cases "c = b")
    case False
    then have "n \<notin> set (bs c)" using bucket_apart [OF d(6) that b(1) _ b(2)] by blast
    then show ?thesis using False by (simp add: remove1_idem)
  qed (use rm in simp)
  ultimately show ?thesis using fields(1,2) by blast
qed

subsection \<open>Draining\<close>

fun linked :: "(nat \<Rightarrow> nat option) \<Rightarrow> nat list \<Rightarrow> bool" where
  "linked nx [] = True"
| "linked nx (x # xs) = (nx x = first_of xs \<and> linked nx xs)"

lemma linked_cong: "(\<And>x. x \<in> set xs \<Longrightarrow> nx x = nx' x) \<Longrightarrow> linked nx xs = linked nx' xs"
  by (induction xs) auto

lemma seg_linked: "seg nx pv p xs None \<Longrightarrow> linked nx xs"
  by (induction xs arbitrary: p) (auto simp: first_of_def)

lemma bucket_bound: "bucket_of T t < 192"
proof -
  have m: "nat (x mod 64) < 64" for x :: int by (simp add: nat_less_iff)
  have "(if P then a else if Q then 64 + b else if R then 128 + c else 128) < (192 :: nat)" if "a < 64" "b < 64" "c < 64" for P Q R a b c
    using that by simp
  then show ?thesis unfolding bucket_of_def using m by blast
qed

lemma cut_ok:
  assumes r: "rel w bs (n # out)" and n: "n \<notin> set out"
  shows "rel (w\<lparr>wl_where := (wl_where w)[n := None], wl_count := wl_count w - 1\<rparr>) bs out"
proof -
  note d = relD [OF r]
  have "n \<notin> nodes bs" using d(7) by auto
  then have wh: "(wl_where w)[n := None] ! x = Some b \<longleftrightarrow> b < 192 \<and> x \<in> set (bs b)" if "x < length (wl_dl w)" "x \<notin> set out" for x b
    using d(13) [of x b] d(3) that in_nodes [of b n bs] by (cases "x = n") auto
  show ?thesis unfolding rel_def using d(1-12,14) wh by auto
qed

lemma drain_loop_ok:
  assumes "rel w bs out" and "distinct out" and "linked (nxt w) out"
  shows "\<exists>w' bs'. drain_loop w (first_of out) fired = Some (w', fired @ filter (\<lambda>x. wl_dl w ! x \<le> wl_tick w) out) \<and> rel w' bs' []
    \<and> wl_tick w' = wl_tick w \<and> wl_dl w' = wl_dl w
    \<and> (\<forall>b < 192. set (bs' b) = set (bs b) \<union> {x \<in> set out. wl_dl w ! x > wl_tick w \<and> bucket_of (wl_tick w) (wl_dl w ! x) = b})"
  using assms
proof (induction out arbitrary: w bs fired)
  case Nil
  have "drain_loop w None fired = Some (w, fired)" by (subst drain_loop.simps) simp
  then show ?case using Nil.prems(1) by (auto simp: first_of_def)
next
  case (Cons n out)
  note d = relD [OF Cons.prems(1)]
  let ?w = "w\<lparr>wl_where := (wl_where w)[n := None], wl_count := wl_count w - 1\<rparr>" and ?t = "wl_dl w ! n"
  have n: "n < length (wl_dl ?w)" "n \<notin> nodes bs" "n \<notin> set out" "distinct out" using d(7,9) Cons.prems(2) by auto
  have r: "rel ?w bs out" by (rule cut_ok [OF Cons.prems(1) n(3)])
  have nx: "wl_next w ! n = first_of out" and l: "linked (nxt w) out" using Cons.prems(3) nxt_def [of w n] by auto
  have step: "drain_loop w (first_of (n # out)) fired
      = (if ?t \<le> wl_tick w then drain_loop ?w (first_of out) (fired @ [n]) else drain_loop (place ?w n ?t) (first_of out) fired)"
    by (subst drain_loop.simps) (simp add: first_of_def [of "n # out"] nx Let_def)
  show ?case
  proof (cases "?t \<le> wl_tick w")
    case True
    have "linked (nxt ?w) out" using l by simp
    moreover have "{x \<in> set (n # out). wl_dl w ! x > wl_tick w \<and> bucket_of (wl_tick w) (wl_dl w ! x) = b}
        = {x \<in> set out. wl_dl w ! x > wl_tick w \<and> bucket_of (wl_tick w) (wl_dl w ! x) = b}" for b
      using True by auto
    ultimately show ?thesis using Cons.IH [OF r n(4), of "fired @ [n]"] step True by simp
  next
    case False
    let ?b = "bucket_of (wl_tick w) ?t" and ?p = "place ?w n ?t"
    have p: "?p = link ?w n ?b" by (simp add: place_def)
    have "rel ?p (bs(?b := n # bs ?b)) out" unfolding p by (rule link_ok [OF r n(1-3) bucket_bound])
    moreover have "linked (nxt ?p) out = linked (nxt w) out"
      by (rule linked_cong) (use n(3) in \<open>simp add: p nxt_def link_fields\<close>, metis nth_list_update_neq)
    ultimately obtain w' bs' where *: "drain_loop ?p (first_of out) fired = Some (w', fired @ filter (\<lambda>x. wl_dl ?p ! x \<le> wl_tick ?p) out)"
      "rel w' bs' []" "wl_tick w' = wl_tick ?p" "wl_dl w' = wl_dl ?p"
      "\<forall>b < 192. set (bs' b) = set ((bs(?b := n # bs ?b)) b) \<union> {x \<in> set out. wl_dl ?p ! x > wl_tick ?p \<and> bucket_of (wl_tick ?p) (wl_dl ?p ! x) = b}"
      using Cons.IH [of ?p "bs(?b := n # bs ?b)" fired] n(4) l by blast
    have f: "wl_tick ?p = wl_tick w" "wl_dl ?p = wl_dl w" by (simp_all add: p link_fields)
    have "set (bs' b) = set (bs b) \<union> {x \<in> set (n # out). wl_dl w ! x > wl_tick w \<and> bucket_of (wl_tick w) (wl_dl w ! x) = b}" if "b < 192" for b
      using *(5) that False unfolding f by auto
    then show ?thesis using * step False unfolding f by (intro exI [of _ w'] exI [of _ bs']) simp
  qed
qed

lemma drain_ok:
  assumes r: "rel w bs []" and b: "b < 192"
  shows "\<exists>w' bs'. drain w b fired = Some (w', fired @ filter (\<lambda>x. wl_dl w ! x \<le> wl_tick w) (bs b)) \<and> rel w' bs' []
    \<and> wl_tick w' = wl_tick w \<and> wl_dl w' = wl_dl w
    \<and> (\<forall>c < 192. set (bs' c) = (if c = b then {} else set (bs c))
         \<union> {x \<in> set (bs b). wl_dl w ! x > wl_tick w \<and> bucket_of (wl_tick w) (wl_dl w ! x) = c})"
proof -
  note d = relD [OF r]
  let ?w = "w\<lparr>wl_heads := (wl_heads w)[b := None], wl_bm := bm_clear w b\<rparr>" and ?bs = "bs(b := [])"
  have dist: "distinct (bs b)" using d(6) b by (simp add: apart_buckets_def)
  have ap: "apart_buckets ?bs" using apart_shrink [OF d(6), of "[]"] by simp
  have x_out: "x \<notin> set (bs b)" if "x \<in> nodes ?bs" for x
    using that bucket_apart [OF d(6) _ b] by (auto simp: nodes_def split: if_splits)
  have nd: "nodes ?bs \<subseteq> nodes bs" by (auto simp: nodes_def split: if_splits)
  have hd: "wl_heads ?w ! c = first_of (?bs c)" if "c < 192" for c using d(4) d(10) [OF that] that by (simp add: nth_list_update first_of_def)
  have bits: "bit (wl_bm ?w ! (c div 64)) (c mod 64) \<longleftrightarrow> ?bs c \<noteq> []" if "c < 192" for c
    using bm_clear_bit [OF d(5) b that] d(12) [OF that] by simp
  have sg: "seg (nxt ?w) (prv ?w) None (?bs c) None" if "c < 192" for c using d(11) [OF that] by simp
  have wh: "wl_where w ! x = Some c \<longleftrightarrow> c < 192 \<and> x \<in> set (?bs c)" if "x < length (wl_dl w)" "x \<notin> set (bs b)" for x c
    using d(13) [of x c] that by auto
  have cnt: "wl_count w = int (total ?bs + length (bs b))" using d(14) total_upd [OF b, of bs "[]"] by simp
  have lt: "x < length (wl_dl w)" if "x \<in> nodes ?bs \<union> set (bs b)" for x using d(8) nd in_nodes [OF b] that by blast
  have "rel ?w ?bs (bs b)" unfolding rel_def
    using d(1-5) ap x_out hd bits wh cnt sg lt by (auto simp: bm_clear_def)
  moreover have "linked (nxt ?w) (bs b)" using seg_linked d(11) [OF b] by simp
  ultimately obtain w' bs' where "drain_loop ?w (first_of (bs b)) fired = Some (w', fired @ filter (\<lambda>x. wl_dl w ! x \<le> wl_tick w) (bs b))"
    "rel w' bs' []" "wl_tick w' = wl_tick w" "wl_dl w' = wl_dl w"
    "\<forall>c < 192. set (bs' c) = set (?bs c) \<union> {x \<in> set (bs b). wl_dl w ! x > wl_tick w \<and> bucket_of (wl_tick w) (wl_dl w ! x) = c}"
    using drain_loop_ok [OF _ dist, of ?w ?bs fired] by auto
  then show ?thesis using d(10) [OF b] by (intro exI [of _ w'] exI [of _ bs']) (simp add: drain_def)
qed

end
