(* ===== verification/Wheel_Laws.thy ===== *)
theory Wheel_Laws
  imports Wheel_Lists
begin

section \<open>The laws of the timer wheel\<close>

text \<open>
  A node of the wheel is in the bucket of its deadline, and its deadline is later than
  the tick. Where the tick moves, the nodes whose bucket changes are those of the buckets
  that the code drains there. So the wheel keeps the map of the armed nodes to their
  deadlines, and advancing it fires a node exactly when its deadline has passed.
\<close>

subsection \<open>Windows\<close>

lemma win12: "x div 4096 = x div 64 div 64" for x :: int
  by (simp add: zdiv_zmult2_eq [symmetric])

lemma win18: "x div 262144 = x div 64 div 64 div 64" for x :: int
  by (simp add: zdiv_zmult2_eq [symmetric])

lemma bucket_alt:
  "bucket_of T t =
     (if t div 64 = T div 64 then nat (t mod 64)
      else if t div 64 div 64 = T div 64 div 64 then 64 + nat (t div 64 mod 64)
      else if t div 64 div 64 div 64 = T div 64 div 64 div 64 then 128 + nat (t div 64 div 64 mod 64)
      else 128)"
  unfolding bucket_of_def win12 win18 by (rule refl)

lemma nat_mod64: "nat (x mod 64) < 64" for x :: int
  by (simp add: nat_less_iff)

lemma div_mono64: "x \<le> y \<Longrightarrow> x div 64 \<le> y div 64" for x y :: int
  by (rule zdiv_mono1) auto

lemma turn_over: "(k + 1) div 64 \<noteq> k div 64 \<Longrightarrow> (k + 1) mod 64 = 0" for k :: int
proof (rule ccontr)
  assume t: "(k + 1) div 64 \<noteq> k div 64" "(k + 1) mod 64 \<noteq> 0"
  define q r where "q = (k + 1) div 64" "r = (k + 1) mod 64"
  have "k + 1 = 64 * q + r" "0 \<le> r" "r < 64" by (simp_all add: q_r_def)
  moreover from this have "r \<noteq> 0" using t(2) by (simp add: q_r_def)
  ultimately have "k div 64 = q" by (intro int_div_pos_eq [where r = "r - 1"]) linarith+
  then show False using t(1) by (simp add: q_r_def)
qed

text \<open>The tick moves inside a window of 64, or inside one of 4096 before the window of the deadline.\<close>

lemma bucket_stay0: "T' div 64 = T div 64 \<Longrightarrow> bucket_of T' t = bucket_of T t"
  by (simp only: bucket_alt)

lemma bucket_stay1: "T' div 4096 = T div 4096 \<Longrightarrow> t div 64 \<noteq> T div 64 \<Longrightarrow> t div 64 \<noteq> T' div 64 \<Longrightarrow> bucket_of T' t = bucket_of T t"
  by (simp only: bucket_alt win12 if_False)

definition drained :: "int \<Rightarrow> nat set" where
  "drained t = {nat (t mod 64), 64 + nat (t div 64 mod 64)} \<union> (if t mod 4096 = 0 then {128 + nat (t div 4096 mod 64)} else {})"

text \<open>The tick moves to a boundary: what does not stay is in a bucket that is drained there.\<close>

lemma bucket_move:
  assumes "T < T'" "T' \<le> t" "T < t" and w: "T' div 4096 = T div 4096 \<or> T' = (T div 4096 + 1) * 4096"
  shows "(T' < t \<and> bucket_of T' t = bucket_of T t) \<or> bucket_of T t \<in> drained T'"
proof -
  define a a' c where d: "a = T div 64" "a' = T' div 64" "c = t div 64"
  have le: "a \<le> a'" "a' \<le> c" "a div 64 \<le> a' div 64" "a' div 64 \<le> c div 64" "a div 64 div 64 \<le> a' div 64 div 64" "a' div 64 div 64 \<le> c div 64 div 64"
    unfolding d using assms(1,2) by (intro div_mono64; simp)+
  have ne: "c \<noteq> a' \<Longrightarrow> T' < t" using assms(2) d by (cases "t = T'") auto
  have up: "a' div 64 = a div 64 + 1 \<and> T' mod 4096 = 0" if "a' div 64 \<noteq> a div 64"
  proof -
    have "T' = (T div 4096 + 1) * 4096" using w that unfolding win12 d by blast
    then have "T' div 4096 = T div 4096 + 1" "T' mod 4096 = 0" by (metis nonzero_mult_div_cancel_right zero_neq_numeral, metis mod_mult_self2_is_0)
    then show ?thesis unfolding win12 d by blast
  qed
  consider "c = a" | "c \<noteq> a" "c div 64 = a div 64" | "c div 64 \<noteq> a div 64" "a' div 64 = a div 64"
    | "c div 64 \<noteq> a div 64" "a' div 64 \<noteq> a div 64" by blast
  then show ?thesis
  proof cases
    case 1
    then have e: "a' = a" using le(1,2) by simp
    show ?thesis
    proof (cases "t = T'")
      case True
      have "bucket_of T t = nat (t mod 64)" unfolding bucket_alt d [symmetric] by (simp only: 1 if_True simp_thms)
      moreover have "nat (T' mod 64) \<in> drained T'" unfolding drained_def by blast
      ultimately show ?thesis using True by metis
    next
      case False
      then show ?thesis using bucket_stay0 [of T' T t] e assms(2) unfolding d by (metis order_le_neq_trans)
    qed
  next
    case 2
    then have same: "a' div 64 = a div 64" using le(3,4) by (metis order_antisym)
    show ?thesis
    proof (cases "c = a'")
      case True
      have "bucket_of T t = 64 + nat (c mod 64)"
        unfolding bucket_alt d [symmetric] by (simp only: 2 if_False if_True simp_thms)
      then have "bucket_of T t = 64 + nat (a' mod 64)" by (simp only: True)
      moreover have "64 + nat (a' mod 64) \<in> drained T'" unfolding drained_def d by blast
      ultimately show ?thesis by metis
    next
      case False
      then show ?thesis using 2 same ne bucket_stay1 [of T' T t] unfolding win12 d by metis
    qed
  next
    case 3
    then have "c \<noteq> a" "c \<noteq> a'" by metis+
    then show ?thesis using 3 ne bucket_stay1 [of T' T t] unfolding win12 d by metis
  next
    case 4
    note u = up [OF 4(2)]
    have b: "bucket_of T t = (if c div 64 div 64 = a div 64 div 64 then 128 + nat (c div 64 mod 64) else 128)"
    proof -
      have "c \<noteq> a" using 4(1) by metis
      then show ?thesis unfolding bucket_alt [of T t] d [symmetric] by (simp only: 4(1) if_False)
    qed
    have dr: "128 + nat (a' div 64 mod 64) \<in> drained T'"
    proof -
      have "T' mod 4096 = 0" using u by blast
      then show ?thesis unfolding drained_def win12 d by (simp only: if_True simp_thms) blast
    qed
    have far: "c div 64 div 64 \<noteq> a div 64 div 64" if "a' div 64 div 64 \<noteq> a div 64 div 64"
      using le(5,6) that by (metis order_antisym)
    then consider "c div 64 div 64 = a div 64 div 64" "c div 64 = a' div 64" | "c div 64 \<noteq> a' div 64" "a' div 64 div 64 = a div 64 div 64"
      | "c div 64 div 64 \<noteq> a div 64 div 64" "a' div 64 div 64 \<noteq> a div 64 div 64" by metis
    then show ?thesis
    proof cases
      case 1
      then show ?thesis using b dr by metis
    next
      case 2
      then have "c \<noteq> a'" by metis
      then have "bucket_of T' t = bucket_of T t" unfolding bucket_alt [of T' t] d [symmetric] b by (simp only: 2 \<open>c \<noteq> a'\<close> if_False)
      then show ?thesis using ne \<open>c \<noteq> a'\<close> by blast
    next
      case 3
      have "a' div 64 mod 64 = 0" using turn_over [of "a div 64"] u 3(2) by metis
      moreover have "bucket_of T t = 128" using b 3(1) by metis
      ultimately show ?thesis using dr by (metis add_0_right nat_zero_as_int of_nat_0)
    qed
  qed
qed

subsection \<open>The next bit\<close>

lemma trailing_zeros:
  fixes m :: uint64
  assumes "m \<noteq> 0"
  shows "bit m (TrailingZeros64 m)" "\<And>k. k < TrailingZeros64 m \<Longrightarrow> \<not> bit m k"
proof -
  let ?n = "TrailingZeros64 m" and ?l = "takeWhile (\<lambda>k. \<not> bit m k) [0..<64]"
  obtain k where k: "bit m k" using assms bit_eqI [of m 0] by auto
  then have "k < 64" using bit_imp_le_length [of m k] by simp
  then have "?l \<noteq> [0..<64]" using k by (auto simp: takeWhile_eq_all_conv)
  moreover have "length ?l \<le> 64" using length_takeWhile_le [of "\<lambda>k. \<not> bit m k" "[0..<64]"] by simp
  ultimately have n: "?n < 64" unfolding TrailingZeros64_def
    by (metis append_eq_conv_conj length_takeWhile_le length_upt minus_nat.diff_0 order_le_neq_trans takeWhile_dropWhile_id take_all_iff)
  then show "bit m ?n" using nth_length_takeWhile [of "\<lambda>k. \<not> bit m k" "[0..<64]"] by (simp add: TrailingZeros64_def)
  show "\<not> bit m k" if "k < ?n" for k
  proof -
    have "?l ! k = k" using takeWhile_nth [of k "\<lambda>k. \<not> bit m k" "[0..<64]"] that n by (simp add: TrailingZeros64_def)
    moreover have "?l ! k \<in> set ?l" using that by (intro nth_mem) (simp add: TrailingZeros64_def)
    ultimately show ?thesis using set_takeWhileD [of k "\<lambda>k. \<not> bit m k"] by auto
  qed
qed

lemma nextBit_Some:
  assumes "nextBit bm from = Some b"
  shows "from \<le> b" "b < 64" "bit bm b" "\<And>k. from \<le> k \<Longrightarrow> k < b \<Longrightarrow> \<not> bit bm k"
proof -
  let ?m = "drop_bit from bm"
  have m: "?m \<noteq> 0" "b = from + TrailingZeros64 ?m" using assms by (auto simp: nextBit_def Let_def split: if_splits)
  have sh: "bit ?m k = bit bm (from + k)" for k by (simp add: bit_drop_bit_eq)
  show "from \<le> b" using m(2) by simp
  show bb: "bit bm b" using trailing_zeros(1) [OF m(1)] sh m(2) by simp
  show "b < 64" using bit_imp_le_length [OF bb] by simp
  show "\<not> bit bm k" if "from \<le> k" "k < b" for k
    using trailing_zeros(2) [OF m(1), of "k - from"] sh [of "k - from"] that m(2) by auto
qed

lemma nextBit_None:
  assumes "nextBit bm from = None" "from \<le> k"
  shows "\<not> bit bm k"
proof
  assume b: "bit bm k"
  have "k < 64" using bit_imp_le_length [OF b] by simp
  then have "drop_bit from bm = 0" using assms by (auto simp: nextBit_def Let_def split: if_splits)
  then have "\<not> bit (drop_bit from bm) (k - from)" by simp
  then show False using b assms(2) by (simp add: bit_drop_bit_eq)
qed

subsection \<open>Nodes in their buckets\<close>

text \<open>Every deadline is at the tick or later; a node outside the buckets of \<open>D\<close> is in the bucket of its deadline.\<close>

definition due :: "wheel \<Rightarrow> (nat \<Rightarrow> nat list) \<Rightarrow> nat set \<Rightarrow> bool" where
  "due w bs D \<longleftrightarrow> (\<forall>b < 192. \<forall>x \<in> set (bs b). wl_tick w \<le> wl_dl w ! x
     \<and> (b \<in> D \<or> wl_tick w < wl_dl w ! x \<and> b = bucket_of (wl_tick w) (wl_dl w ! x)))"

lemma dueD:
  assumes "due w bs {}" "x \<in> nodes bs"
  shows "wl_tick w < wl_dl w ! x" "x \<in> set (bs (bucket_of (wl_tick w) (wl_dl w ! x)))"
proof -
  obtain b where "b < 192" "x \<in> set (bs b)" using assms(2) by (auto simp: nodes_def)
  then show "wl_tick w < wl_dl w ! x" "x \<in> set (bs (bucket_of (wl_tick w) (wl_dl w ! x)))"
    using assms(1) by (auto simp: due_def)
qed

text \<open>What a drain at one tick does: it takes out nodes whose deadline is that tick.\<close>

definition fires :: "wheel \<Rightarrow> (nat \<Rightarrow> nat list) \<Rightarrow> wheel \<Rightarrow> (nat \<Rightarrow> nat list) \<Rightarrow> nat list \<Rightarrow> bool" where
  "fires w bs w' bs' new \<longleftrightarrow> rel w' bs' [] \<and> wl_tick w' = wl_tick w \<and> wl_dl w' = wl_dl w
     \<and> distinct new \<and> set new \<subseteq> nodes bs \<and> (\<forall>x \<in> set new. wl_dl w ! x = wl_tick w) \<and> nodes bs' = nodes bs - set new"

lemma nodes_iff: "x \<in> nodes bs \<longleftrightarrow> (\<exists>b < 192. x \<in> set (bs b))"
  by (auto simp: nodes_def)

lemma fires_trans: "fires w bs w1 bs1 n1 \<Longrightarrow> fires w1 bs1 w2 bs2 n2 \<Longrightarrow> fires w bs w2 bs2 (n1 @ n2)"
  unfolding fires_def by auto

lemma drain_due:
  assumes r: "rel w bs []" and d: "due w bs (insert b D)" and b: "b < 192"
  shows "\<exists>w' bs' new. drain w b fired = Some (w', fired @ new) \<and> fires w bs w' bs' new \<and> due w' bs' D"
proof -
  let ?new = "filter (\<lambda>x. wl_dl w ! x \<le> wl_tick w) (bs b)"
  obtain w' bs' where *: "drain w b fired = Some (w', fired @ ?new)" "rel w' bs' []" "wl_tick w' = wl_tick w" "wl_dl w' = wl_dl w"
    and sets: "\<forall>c < 192. set (bs' c) = (if c = b then {} else set (bs c))
         \<union> {x \<in> set (bs b). wl_dl w ! x > wl_tick w \<and> bucket_of (wl_tick w) (wl_dl w ! x) = c}"
    using drain_ok [OF r b, of fired] by (elim exE conjE) (rule that; assumption)
  have ap: "apart_buckets bs" using relD(6) [OF r] .
  have ge: "wl_tick w \<le> wl_dl w ! x" if "x \<in> set (bs b)" for x using d b that by (auto simp: due_def)
  have bs': "x \<in> set (bs' c) \<longleftrightarrow> (c \<noteq> b \<and> x \<in> set (bs c)) \<or> (x \<in> set (bs b) \<and> wl_dl w ! x > wl_tick w \<and> bucket_of (wl_tick w) (wl_dl w ! x) = c)"
    if "c < 192" for c x using sets that by simp
  have only: "c = b" if "c < 192" "x \<in> set (bs c)" "x \<in> set (bs b)" for c x by (rule bucket_apart [OF ap that(1) b that(2,3)])
  have mem: "x \<in> nodes bs' \<longleftrightarrow> x \<in> nodes bs - set ?new" for x
  proof (cases "x \<in> set (bs b)")
    case True
    have "x \<in> nodes bs' \<longleftrightarrow> wl_dl w ! x > wl_tick w"
      using bs' only True bucket_bound nodes_iff by metis
    then show ?thesis using True nodes_iff b by auto
  next
    case False
    then have "x \<in> nodes bs' \<longleftrightarrow> x \<in> nodes bs" using bs' b unfolding nodes_iff by metis
    then show ?thesis using False by simp
  qed
  then have "nodes bs' = nodes bs - set ?new" by blast
  moreover have "distinct ?new" using ap b by (simp add: apart_buckets_def)
  moreover have "set ?new \<subseteq> nodes bs" using in_nodes [OF b, of _ bs] by auto
  moreover have "\<forall>x \<in> set ?new. wl_dl w ! x = wl_tick w" using ge by (auto intro: antisym)
  ultimately have "fires w bs w' bs' ?new" unfolding fires_def using *(2-4) by blast
  moreover have "due w' bs' D" unfolding due_def *(3,4)
  proof (intro allI impI ballI)
    fix c x assume c: "c < 192" "x \<in> set (bs' c)"
    then consider "c \<noteq> b" "x \<in> set (bs c)" | "wl_dl w ! x > wl_tick w" "bucket_of (wl_tick w) (wl_dl w ! x) = c"
      using bs' by blast
    then show "wl_tick w \<le> wl_dl w ! x \<and> (c \<in> D \<or> wl_tick w < wl_dl w ! x \<and> c = bucket_of (wl_tick w) (wl_dl w ! x))"
      using d c(1) by cases (auto simp: due_def)
  qed
  ultimately show ?thesis using *(1) by blast
qed

text \<open>The tick moves. Nodes keep their bucket, or are in one that is drained next.\<close>

lemma rel_tick: "rel (w\<lparr>wl_tick := t\<rparr>) bs out = rel w bs out"
  by (simp add: rel_def)

lemma due_move:
  assumes "due w bs {}" and "\<And>x. x \<in> nodes bs \<Longrightarrow> t \<le> wl_dl w ! x
      \<and> ((t < wl_dl w ! x \<and> bucket_of t (wl_dl w ! x) = bucket_of (wl_tick w) (wl_dl w ! x)) \<or> bucket_of (wl_tick w) (wl_dl w ! x) \<in> D)"
  shows "due (w\<lparr>wl_tick := t\<rparr>) bs D"
  unfolding due_def
proof (intro allI impI ballI)
  fix b x assume x: "b < 192" "x \<in> set (bs b)"
  then have "b = bucket_of (wl_tick w) (wl_dl w ! x)" using assms(1) by (auto simp: due_def)
  then show "wl_tick (w\<lparr>wl_tick := t\<rparr>) \<le> wl_dl (w\<lparr>wl_tick := t\<rparr>) ! x
      \<and> (b \<in> D \<or> wl_tick (w\<lparr>wl_tick := t\<rparr>) < wl_dl (w\<lparr>wl_tick := t\<rparr>) ! x \<and> b = bucket_of (wl_tick (w\<lparr>wl_tick := t\<rparr>)) (wl_dl (w\<lparr>wl_tick := t\<rparr>) ! x))"
    using assms(2) [of x] in_nodes [where bs = bs, OF x] by auto
qed

text \<open>What the bitmaps say of the deadlines.\<close>

lemma level_bit:
  assumes r: "rel w bs []" and x: "x \<in> set (bs b)" and b: "b < 192"
  shows "bit (wl_bm w ! (b div 64)) (b mod 64)"
  using relD(12) [OF r b] x by auto

text \<open>Within one window the later value has the later index.\<close>

lemma window_less: "x < y \<Longrightarrow> y div 64 = x div 64 \<Longrightarrow> nat (x mod 64) + 1 \<le> nat (y mod 64)" for x y :: int
proof -
  assume a: "x < y" "y div 64 = x div 64"
  have "x = x div 64 * 64 + x mod 64" "y = y div 64 * 64 + y mod 64" by simp_all
  then have "x mod 64 < y mod 64" using a by linarith
  then show ?thesis by simp
qed

lemma window_index:
  fixes x y :: int
  shows "x div 64 < y div 64 \<Longrightarrow> b < 64 \<Longrightarrow> x div 64 * 64 + int b < y"
    and "y div 64 = x div 64 \<Longrightarrow> b \<le> nat (y mod 64) \<Longrightarrow> x div 64 * 64 + int b \<le> y"
    and "nat (x mod 64) + 1 \<le> b \<Longrightarrow> x < x div 64 * 64 + int b"
proof -
  have y: "y = y div 64 * 64 + y mod 64" "0 \<le> y mod 64" and x: "x = x div 64 * 64 + x mod 64" by simp_all
  have "q < q' \<Longrightarrow> b < 64 \<Longrightarrow> z = q' * 64 + m \<Longrightarrow> 0 \<le> m \<Longrightarrow> q * 64 + int b < z" for q q' z m :: int by linarith
  then show "x div 64 * 64 + int b < y" if "x div 64 < y div 64" "b < 64" using that y by blast
  show "x div 64 * 64 + int b \<le> y" if "y div 64 = x div 64" "b \<le> nat (y mod 64)" using that y by linarith
  show "x < x div 64 * 64 + int b" if "nat (x mod 64) + 1 \<le> b" using that x by linarith
qed

lemma level_bits:
  assumes r: "rel w bs []" and d: "due w bs {}" and x: "x \<in> nodes bs"
  defines "T \<equiv> wl_tick w" and "t \<equiv> wl_dl w ! x"
  shows "t div 64 = T div 64 \<Longrightarrow> bit (wl_bm w ! 0) (nat (t mod 64)) \<and> nat (T mod 64) + 1 \<le> nat (t mod 64)"
    and "t div 64 \<noteq> T div 64 \<Longrightarrow> t div 64 div 64 = T div 64 div 64 \<Longrightarrow>
      bit (wl_bm w ! 1) (nat (t div 64 mod 64)) \<and> nat (T div 64 mod 64) + 1 \<le> nat (t div 64 mod 64)"
    and "t div 64 div 64 \<noteq> T div 64 div 64 \<Longrightarrow> t div 64 div 64 div 64 = T div 64 div 64 div 64 \<Longrightarrow>
      bit (wl_bm w ! 2) (nat (t div 64 div 64 mod 64)) \<and> nat (T div 64 div 64 mod 64) + 1 \<le> nat (t div 64 div 64 mod 64)"
proof -
  have lt: "T < t" and bit: "bit (wl_bm w ! (bucket_of T t div 64)) (bucket_of T t mod 64)"
    using dueD [OF d x] level_bit [OF r _ bucket_bound] by (auto simp: T_def t_def)
  have le: "T div 64 \<le> t div 64" "T div 64 div 64 \<le> t div 64 div 64" using lt by (auto intro!: div_mono64)
  have at: "bit (wl_bm w ! l) (nat (y mod 64))" if "bucket_of T t = nat (y mod 64) + l * 64" for y l
  proof -
    have "(nat (y mod 64) + l * 64) div 64 = l" "(nat (y mod 64) + l * 64) mod 64 = nat (y mod 64)" using nat_mod64 [of y] by simp_all
    then show ?thesis using bit that by simp
  qed
  show "bit (wl_bm w ! 0) (nat (t mod 64)) \<and> nat (T mod 64) + 1 \<le> nat (t mod 64)" if "t div 64 = T div 64"
    using at [of t 0] window_less [OF lt that] that by (simp only: bucket_alt if_True) simp
  show "bit (wl_bm w ! 1) (nat (t div 64 mod 64)) \<and> nat (T div 64 mod 64) + 1 \<le> nat (t div 64 mod 64)"
    if a: "t div 64 \<noteq> T div 64" "t div 64 div 64 = T div 64 div 64"
  proof (rule conjI)
    show "bit (wl_bm w ! 1) (nat (t div 64 mod 64))" by (rule at) (simp only: bucket_alt a if_True if_False, simp)
    show "nat (T div 64 mod 64) + 1 \<le> nat (t div 64 mod 64)"
      by (rule window_less [OF _ a(2)]) (use le(1) a(1) in \<open>metis order_le_neq_trans\<close>)
  qed
  show "bit (wl_bm w ! 2) (nat (t div 64 div 64 mod 64)) \<and> nat (T div 64 div 64 mod 64) + 1 \<le> nat (t div 64 div 64 mod 64)"
    if a: "t div 64 div 64 \<noteq> T div 64 div 64" "t div 64 div 64 div 64 = T div 64 div 64 div 64"
  proof (rule conjI)
    have "t div 64 \<noteq> T div 64" using a(1) by metis
    then show "bit (wl_bm w ! 2) (nat (t div 64 div 64 mod 64))" by (intro at) (simp only: bucket_alt a if_True if_False, simp)
    show "nat (T div 64 div 64 mod 64) + 1 \<le> nat (t div 64 div 64 mod 64)"
      by (rule window_less [OF _ a(2)]) (use le(2) a(1) in \<open>metis order_le_neq_trans\<close>)
  qed
qed

lemma level0_next:
  assumes r: "rel w bs []" and d: "due w bs {}" and nb: "nextBit (wl_bm w ! 0) (nat (wl_tick w mod 64) + 1) = Some b"
  shows "b < 64" "wl_tick w < wl_tick w div 64 * 64 + int b" "\<And>x. x \<in> nodes bs \<Longrightarrow> wl_tick w div 64 * 64 + int b \<le> wl_dl w ! x"
proof -
  note n = nextBit_Some [OF nb]
  show "b < 64" by (rule n(2))
  show "wl_tick w < wl_tick w div 64 * 64 + int b" by (rule window_index(3) [OF n(1)])
  show "wl_tick w div 64 * 64 + int b \<le> wl_dl w ! x" if x: "x \<in> nodes bs" for x
  proof (cases "wl_dl w ! x div 64 = wl_tick w div 64")
    case True
    have "b \<le> nat (wl_dl w ! x mod 64)" using level_bits(1) [OF r d x True] n(4) by (metis not_le)
    then show ?thesis by (rule window_index(2) [OF True])
  next
    case False
    then have "wl_tick w div 64 < wl_dl w ! x div 64" 
      using div_mono64 [OF less_imp_le [OF dueD(1) [OF d x]]] by (metis order_le_neq_trans)
    then show ?thesis using window_index(1) n(2) by (intro less_imp_le)
  qed
qed

lemma level0_none:
  assumes r: "rel w bs []" and d: "due w bs {}" and nb: "nextBit (wl_bm w ! 0) (nat (wl_tick w mod 64) + 1) = None" and x: "x \<in> nodes bs"
  shows "wl_tick w div 64 < wl_dl w ! x div 64"
proof -
  have "wl_dl w ! x div 64 \<noteq> wl_tick w div 64" using level_bits(1) [OF r d x] nextBit_None [OF nb] by blast
  then show ?thesis 
      using div_mono64 [OF less_imp_le [OF dueD(1) [OF d x]]] by (metis order_le_neq_trans)
qed

lemma level1_next:
  assumes r: "rel w bs []" and d: "due w bs {}" and none: "nextBit (wl_bm w ! 0) (nat (wl_tick w mod 64) + 1) = None"
    and nb: "nextBit (wl_bm w ! 1) (nat (wl_tick w div 64 mod 64) + 1) = Some b"
  shows "b < 64" "wl_tick w div 64 < wl_tick w div 64 div 64 * 64 + int b"
    "\<And>x. x \<in> nodes bs \<Longrightarrow> wl_tick w div 64 div 64 * 64 + int b \<le> wl_dl w ! x div 64"
proof -
  note n = nextBit_Some [OF nb]
  show "b < 64" by (rule n(2))
  show "wl_tick w div 64 < wl_tick w div 64 div 64 * 64 + int b" by (rule window_index(3) [OF n(1)])
  show "wl_tick w div 64 div 64 * 64 + int b \<le> wl_dl w ! x div 64" if x: "x \<in> nodes bs" for x
  proof (cases "wl_dl w ! x div 64 div 64 = wl_tick w div 64 div 64")
    case True
    have ne: "wl_dl w ! x div 64 \<noteq> wl_tick w div 64" using level0_none [OF r d none x] by (metis less_irrefl)
    have "b \<le> nat (wl_dl w ! x div 64 mod 64)" using level_bits(2) [OF r d x ne True] n(4) by (metis not_le)
    then show ?thesis by (rule window_index(2) [OF True])
  next
    case False
    then have "wl_tick w div 64 div 64 < wl_dl w ! x div 64 div 64"
      using div_mono64 [OF less_imp_le [OF level0_none [OF r d none x]]] by (metis order_le_neq_trans)
    then show ?thesis using window_index(1) n(2) by (intro less_imp_le)
  qed
qed

lemma level1_none:
  assumes r: "rel w bs []" and d: "due w bs {}" and none: "nextBit (wl_bm w ! 0) (nat (wl_tick w mod 64) + 1) = None"
    and nb: "nextBit (wl_bm w ! 1) (nat (wl_tick w div 64 mod 64) + 1) = None" and x: "x \<in> nodes bs"
  shows "wl_tick w div 64 div 64 < wl_dl w ! x div 64 div 64"
proof -
  have lt: "wl_tick w div 64 < wl_dl w ! x div 64" by (rule level0_none [OF r d none x])
  have ne: "wl_dl w ! x div 64 \<noteq> wl_tick w div 64" using lt by (metis less_irrefl)
  have "wl_dl w ! x div 64 div 64 \<noteq> wl_tick w div 64 div 64" using level_bits(2) [OF r d x ne] nextBit_None [OF nb] by metis
  then show ?thesis using div_mono64 [OF less_imp_le [OF lt]] by (metis order_le_neq_trans)
qed

lemma level2_next:
  assumes r: "rel w bs []" and d: "due w bs {}" and none: "nextBit (wl_bm w ! 0) (nat (wl_tick w mod 64) + 1) = None"
    and none1: "nextBit (wl_bm w ! 1) (nat (wl_tick w div 64 mod 64) + 1) = None"
    and nb: "nextBit (wl_bm w ! 2) (nat (wl_tick w div 64 div 64 mod 64) + 1) = Some b"
  shows "wl_tick w div 64 div 64 < wl_tick w div 64 div 64 div 64 * 64 + int b"
    "\<And>x. x \<in> nodes bs \<Longrightarrow> wl_tick w div 64 div 64 div 64 * 64 + int b \<le> wl_dl w ! x div 64 div 64"
proof -
  note n = nextBit_Some [OF nb]
  show "wl_tick w div 64 div 64 < wl_tick w div 64 div 64 div 64 * 64 + int b" by (rule window_index(3) [OF n(1)])
  show "wl_tick w div 64 div 64 div 64 * 64 + int b \<le> wl_dl w ! x div 64 div 64" if x: "x \<in> nodes bs" for x
  proof (cases "wl_dl w ! x div 64 div 64 div 64 = wl_tick w div 64 div 64 div 64")
    case True
    have ne: "wl_dl w ! x div 64 div 64 \<noteq> wl_tick w div 64 div 64" using level1_none [OF r d none none1 x] by (metis less_irrefl)
    have "b \<le> nat (wl_dl w ! x div 64 div 64 mod 64)" using level_bits(3) [OF r d x ne True] n(4) by (metis not_le)
    then show ?thesis by (rule window_index(2) [OF True])
  next
    case False
    then have "wl_tick w div 64 div 64 div 64 < wl_dl w ! x div 64 div 64 div 64"
      using div_mono64 [OF less_imp_le [OF level1_none [OF r d none none1 x]]] by (metis order_le_neq_trans)
    then show ?thesis using window_index(1) n(2) by (intro less_imp_le)
  qed
qed

lemma level2_none:
  assumes r: "rel w bs []" and d: "due w bs {}" and none: "nextBit (wl_bm w ! 0) (nat (wl_tick w mod 64) + 1) = None"
    and none1: "nextBit (wl_bm w ! 1) (nat (wl_tick w div 64 mod 64) + 1) = None"
    and nb: "nextBit (wl_bm w ! 2) (nat (wl_tick w div 64 div 64 mod 64) + 1) = None" and x: "x \<in> nodes bs"
  shows "wl_tick w div 64 div 64 div 64 < wl_dl w ! x div 64 div 64 div 64"
proof -
  have lt: "wl_tick w div 64 div 64 < wl_dl w ! x div 64 div 64" by (rule level1_none [OF r d none none1 x])
  have ne: "wl_dl w ! x div 64 div 64 \<noteq> wl_tick w div 64 div 64" using lt by (metis less_irrefl)
  have "wl_dl w ! x div 64 div 64 div 64 \<noteq> wl_tick w div 64 div 64 div 64" using level_bits(3) [OF r d x ne] nextBit_None [OF nb] by metis
  then show ?thesis using div_mono64 [OF less_imp_le [OF lt]] by (metis order_le_neq_trans)
qed

end
