(* ===== verification/Wheel_Run.thy ===== *)
theory Wheel_Run
  imports Wheel_Laws Interfaces
begin

section \<open>Advancing the timer wheel\<close>

text \<open>
  The loop of \<open>advance\<close> jumps from one tick with work to the next. It ends, it fires the
  nodes whose deadline has come in the order of the deadlines, and it leaves the others
  armed.
\<close>

subsection \<open>Entering a window\<close>

lemma next_window_ok:
  assumes r: "rel w bs []" and d: "due w bs {}" and none: "nextBit (wl_bm w ! 0) (nat (wl_tick w mod 64) + 1) = None"
  shows "wl_tick w div 64 < next_window w div 64" "next_window w mod 64 = 0" "\<And>x. x \<in> nodes bs \<Longrightarrow> next_window w \<le> wl_dl w ! x"
    "next_window w div 4096 = wl_tick w div 4096 \<or> next_window w = (wl_tick w div 4096 + 1) * 4096"
    "next_window w \<le> (wl_tick w div 4096 + 1) * 4096"
proof -
  let ?T = "wl_tick w"
  have up: "z * 64 \<le> y" if "z \<le> y div 64" for z y :: int
  proof -
    have "z * 64 \<le> y div 64 * 64" using that by simp
    also have "\<dots> \<le> y" using div_mult_mod_eq [of y 64] pos_mod_sign [of 64 y] by linarith
    finally show ?thesis .
  qed
  consider b where "nextBit (wl_bm w ! 1) (nat (?T div 64 mod 64) + 1) = Some b" | "nextBit (wl_bm w ! 1) (nat (?T div 64 mod 64) + 1) = None"
    by fastforce
  then have "\<exists>z. next_window w = z * 64 \<and> ?T div 64 < z \<and> (\<forall>x \<in> nodes bs. z \<le> wl_dl w ! x div 64)
      \<and> (z div 64 = ?T div 64 div 64 \<or> z = (?T div 64 div 64 + 1) * 64) \<and> z \<le> (?T div 64 div 64 + 1) * 64"
  proof cases
    case 1
    note n = level1_next [OF r d none 1]
    show ?thesis using n 1 by (intro exI [of _ "?T div 64 div 64 * 64 + int b"]) (simp add: next_window_def win12 Let_def algebra_simps)
  next
    case 2
    have lt: "?T div 64 < (?T div 64 div 64 + 1) * 64"
      using pos_mod_bound [of 64 "?T div 64"] div_mult_mod_eq [of "?T div 64" 64] by (simp add: algebra_simps)
    have "(?T div 64 div 64 + 1) * 64 \<le> wl_dl w ! x div 64" if "x \<in> nodes bs" for x
      by (rule up) (use level1_none [OF r d none 2 that] in simp)
    then show ?thesis using 2 lt by (intro exI [of _ "(?T div 64 div 64 + 1) * 64"]) (simp add: next_window_def win12 Let_def)
  qed
  then obtain z where z: "next_window w = z * 64" "?T div 64 < z" "\<forall>x \<in> nodes bs. z \<le> wl_dl w ! x div 64"
    "z div 64 = ?T div 64 div 64 \<or> z = (?T div 64 div 64 + 1) * 64" "z \<le> (?T div 64 div 64 + 1) * 64" by blast
  show "?T div 64 < next_window w div 64" "next_window w mod 64 = 0" using z(1,2) by simp_all
  show "next_window w \<le> wl_dl w ! x" if "x \<in> nodes bs" for x using z(1,3) that up by simp
  show "next_window w div 4096 = ?T div 4096 \<or> next_window w = (?T div 4096 + 1) * 4096" using z(1,4) by (auto simp: win12)
  show "next_window w \<le> (?T div 4096 + 1) * 4096" using z(1,5) by (simp add: win12)
qed

lemma enter_window_ok:
  assumes r: "rel w bs []" and d: "due (w\<lparr>wl_tick := t\<rparr>) bs (drained t)"
  shows "\<exists>w' bs' new. enter_window w t fired = Some (w', fired @ new) \<and> fires (w\<lparr>wl_tick := t\<rparr>) bs w' bs' new \<and> due w' bs' {}"
proof -
  let ?w = "w\<lparr>wl_tick := t\<rparr>" and ?b0 = "nat (t mod 64)" and ?b1 = "64 + nat (t div 64 mod 64)" and ?b2 = "128 + nat (t div 4096 mod 64)"
  have b: "?b0 < 192" "?b1 < 192" "?b2 < 192" using nat_mod64 [of t] nat_mod64 [of "t div 64"] nat_mod64 [of "t div 4096"] by linarith+
  have r0: "rel ?w bs []" using r by (simp add: rel_tick)
  let ?first = "if t mod 4096 = 0 then drain ?w ?b2 fired else Some (?w, fired)"
  have "\<exists>w1 bs1 n1. ?first = Some (w1, fired @ n1) \<and> fires ?w bs w1 bs1 n1 \<and> due w1 bs1 {?b1, ?b0}"
  proof (cases "t mod 4096 = 0")
    case True
    then have "due ?w bs (insert ?b2 {?b1, ?b0})" using d by (simp add: drained_def insert_commute)
    from drain_due [OF r0 this b(3), of fired] show ?thesis using True by simp
  next
    case False
    have "fires ?w bs ?w bs []" using r0 by (simp add: fires_def)
    moreover have "due ?w bs {?b1, ?b0}" using False d by (simp add: drained_def insert_commute)
    ultimately show ?thesis using False by (intro exI [of _ ?w] exI [of _ bs] exI [of _ "[]"]) simp
  qed
  then obtain w1 bs1 n1 where s1: "?first = Some (w1, fired @ n1)" and f1: "fires ?w bs w1 bs1 n1" and d1: "due w1 bs1 (insert ?b1 {?b0})" by blast
  have "rel w1 bs1 []" using f1 by (simp add: fires_def)
  from drain_due [OF this d1 b(2), of "fired @ n1"] obtain w2 bs2 n2
    where s2: "drain w1 ?b1 (fired @ n1) = Some (w2, (fired @ n1) @ n2)" and f2: "fires w1 bs1 w2 bs2 n2" and d2: "due w2 bs2 (insert ?b0 {})" by blast
  have "rel w2 bs2 []" using f2 by (simp add: fires_def)
  from drain_due [OF this d2 b(1), of "(fired @ n1) @ n2"] obtain w3 bs3 n3
    where s3: "drain w2 ?b0 ((fired @ n1) @ n2) = Some (w3, ((fired @ n1) @ n2) @ n3)" and f3: "fires w2 bs2 w3 bs3 n3" and d3: "due w3 bs3 {}" by blast
  have "enter_window w t fired = Some (w3, fired @ ((n1 @ n2) @ n3))" unfolding enter_window_def Let_def s1 using s2 s3 by simp
  then show ?thesis using fires_trans [OF fires_trans [OF f1 f2] f3] d3 by blast
qed

subsection \<open>The loop\<close>

definition ran :: "wheel \<Rightarrow> (nat \<Rightarrow> nat list) \<Rightarrow> int \<Rightarrow> wheel \<Rightarrow> (nat \<Rightarrow> nat list) \<Rightarrow> nat list \<Rightarrow> bool" where
  "ran w bs now w' bs' new \<longleftrightarrow> rel w' bs' [] \<and> due w' bs' {} \<and> wl_tick w' = max (wl_tick w) now \<and> wl_dl w' = wl_dl w
     \<and> distinct new \<and> set new = {x \<in> nodes bs. wl_dl w ! x \<le> now} \<and> nodes bs' = nodes bs - set new \<and> sorted (map (\<lambda>x. wl_dl w ! x) new)"

lemma ran_stop:
  assumes "rel w bs []" "due (w\<lparr>wl_tick := now\<rparr>) bs {}" "wl_tick w \<le> now"
  shows "ran w bs now (w\<lparr>wl_tick := now\<rparr>) bs []"
proof -
  have "now < wl_dl w ! x" if "x \<in> nodes bs" for x using dueD(1) [OF assms(2) that] by simp
  then show ?thesis using assms unfolding ran_def by (auto simp: rel_tick not_le)
qed

lemma ran_step:
  assumes f: "fires (w\<lparr>wl_tick := t\<rparr>) bs w1 bs1 n1" and d: "due w1 bs1 {}" and t: "wl_tick w < t" "t \<le> now"
    and rest: "ran w1 bs1 now w' bs' n2"
  shows "ran w bs now w' bs' (n1 @ n2)"
proof -
  have f': "wl_tick w1 = t" "wl_dl w1 = wl_dl w" "distinct n1" "set n1 \<subseteq> nodes bs" "\<And>x. x \<in> set n1 \<Longrightarrow> wl_dl w ! x = t"
    "nodes bs1 = nodes bs - set n1" using f by (auto simp: fires_def)
  have r: "rel w' bs' []" "due w' bs' {}" "wl_tick w' = max t now" "wl_dl w' = wl_dl w" "distinct n2"
    "set n2 = {x \<in> nodes bs1. wl_dl w ! x \<le> now}" "nodes bs' = nodes bs1 - set n2" "sorted (map (\<lambda>x. wl_dl w ! x) n2)"
    using rest f'(1,2) by (auto simp: ran_def)
  have later: "t < wl_dl w ! x" if "x \<in> set n2" for x using dueD(1) [OF d, of x] that r(6) f'(1,2) by auto
  have "set (n1 @ n2) = {x \<in> nodes bs. wl_dl w ! x \<le> now}" using f'(4-6) r(6) t(2) by auto
  moreover have "sorted (map (\<lambda>x. wl_dl w ! x) n1)" using f'(5) by (simp add: sorted_iff_nth_mono)
  then have "sorted (map (\<lambda>x. wl_dl w ! x) (n1 @ n2))" using r(8) f'(5) later by (auto simp: sorted_append less_imp_le)
  moreover have "wl_tick w' = max (wl_tick w) now" using r(3) t by simp
  moreover have "distinct (n1 @ n2)" "nodes bs' = nodes bs - set (n1 @ n2)" using f'(3,6) r(5-7) by auto
  ultimately show ?thesis using r unfolding ran_def by blast
qed

lemma same_window:
  fixes x y k :: int
  assumes "0 < k" "x \<le> y" "y < (x div k + 1) * k"
  shows "y div k = x div k"
proof -
  have "x div k \<le> y div k" using assms by (intro zdiv_mono1)
  moreover have "y div k < x div k + 1"
  proof (rule ccontr)
    assume "\<not> ?thesis"
    then have "(x div k + 1) * k \<le> y div k * k" using assms(1) by simp
    also have "\<dots> \<le> y" using div_mult_mod_eq [of y k] pos_mod_sign [OF assms(1), of y] by linarith
    finally show False using assms(3) by simp
  qed
  ultimately show ?thesis by simp
qed

text \<open>The tick stops before the next tick with work.\<close>

lemma stop_level0:
  assumes r: "rel w bs []" and d: "due w bs {}" and nb: "nextBit (wl_bm w ! 0) (nat (wl_tick w mod 64) + 1) = Some b"
    and now: "wl_tick w \<le> now" "now < wl_tick w div 64 * 64 + int b"
  shows "due (w\<lparr>wl_tick := now\<rparr>) bs {}"
proof (rule due_move [OF d])
  note n = level0_next [OF r d nb]
  fix x assume x: "x \<in> nodes bs"
  have w: "now div 64 = wl_tick w div 64" using now n(1) by (intro same_window) (auto simp: algebra_simps)
  show "now \<le> wl_dl w ! x \<and> (now < wl_dl w ! x \<and> bucket_of now (wl_dl w ! x) = bucket_of (wl_tick w) (wl_dl w ! x)
      \<or> bucket_of (wl_tick w) (wl_dl w ! x) \<in> {})"
    using n(3) [OF x] now(2) bucket_stay0 [OF w, of "wl_dl w ! x"] by simp
qed

lemma stop_window:
  assumes r: "rel w bs []" and d: "due w bs {}" and none: "nextBit (wl_bm w ! 0) (nat (wl_tick w mod 64) + 1) = None"
    and now: "wl_tick w \<le> now" "now < next_window w"
  shows "due (w\<lparr>wl_tick := now\<rparr>) bs {}"
proof (rule due_move [OF d])
  note n = next_window_ok [OF r d none]
  fix x assume x: "x \<in> nodes bs"
  have w: "now div 4096 = wl_tick w div 4096" using now n(5) by (intro same_window) auto
  have later: "now div 64 < wl_dl w ! x div 64"
  proof -
    have "now < next_window w div 64 * 64" using now(2) n(2) by (metis add.right_neutral div_mult_mod_eq)
    then have "now div 64 < next_window w div 64" using div_mult_mod_eq [of now 64] pos_mod_sign [of 64 now] by linarith
    also have "\<dots> \<le> wl_dl w ! x div 64" by (rule div_mono64 [OF n(3) [OF x]])
    finally show ?thesis .
  qed
  have "bucket_of now (wl_dl w ! x) = bucket_of (wl_tick w) (wl_dl w ! x)"
    by (rule bucket_stay1 [OF w]) (use later level0_none [OF r d none x] in simp_all)
  then show "now \<le> wl_dl w ! x \<and> (now < wl_dl w ! x \<and> bucket_of now (wl_dl w ! x) = bucket_of (wl_tick w) (wl_dl w ! x)
      \<or> bucket_of (wl_tick w) (wl_dl w ! x) \<in> {})"
    using n(3) [OF x] now(2) by simp
qed

text \<open>The tick goes to the next tick with work.\<close>

lemma move_level0:
  assumes r: "rel w bs []" and d: "due w bs {}" and nb: "nextBit (wl_bm w ! 0) (nat (wl_tick w mod 64) + 1) = Some b"
  shows "due (w\<lparr>wl_tick := wl_tick w div 64 * 64 + int b\<rparr>) bs {b}"
proof (rule due_move [OF d])
  note n = level0_next [OF r d nb]
  let ?t = "wl_tick w div 64 * 64 + int b"
  fix x assume x: "x \<in> nodes bs"
  have t: "?t div 64 = wl_tick w div 64" "?t mod 64 = int b" using n(1) by simp_all
  then have "bucket_of (wl_tick w) ?t = b" by (simp add: bucket_of_def)
  then show "?t \<le> wl_dl w ! x \<and> (?t < wl_dl w ! x \<and> bucket_of ?t (wl_dl w ! x) = bucket_of (wl_tick w) (wl_dl w ! x)
      \<or> bucket_of (wl_tick w) (wl_dl w ! x) \<in> {b})"
    using n(3) [OF x] bucket_stay0 [OF t(1)] by (metis insertI1 order_le_less)
qed

lemma move_window:
  assumes r: "rel w bs []" and d: "due w bs {}" and none: "nextBit (wl_bm w ! 0) (nat (wl_tick w mod 64) + 1) = None"
  shows "wl_tick w < next_window w" "due (w\<lparr>wl_tick := next_window w\<rparr>) bs (drained (next_window w))"
proof -
  note n = next_window_ok [OF r d none]
  show lt: "wl_tick w < next_window w" using n(1) div_mono64 [of "next_window w" "wl_tick w"] by (metis not_le)
  show "due (w\<lparr>wl_tick := next_window w\<rparr>) bs (drained (next_window w))"
    by (rule due_move [OF d]) (use n(3) bucket_move [OF lt _ dueD(1) [OF d] n(4)] in blast)
qed

lemma empty_wheel: "rel w bs [] \<Longrightarrow> wl_count w = 0 \<longleftrightarrow> nodes bs = {}"
  using relD(14) [of w bs "[]"] by (auto simp: total_def nodes_def sum_nonneg_eq_0_iff)

lemma advance_loop_ok:
  assumes "rel w bs []" and "due w bs {}"
  shows "\<exists>w' bs' new. advance_loop w now fired = Some (w', fired @ new) \<and> ran w bs now w' bs' new"
  using assms
proof (induction "nat (now - wl_tick w)" arbitrary: w bs fired rule: less_induct)
  case less
  note r = less.prems(1) and d = less.prems(2)
  let ?n0 = "nextBit (wl_bm w ! 0) (nat (wl_tick w mod 64) + 1)" and ?t = "\<lambda>b. wl_tick w div 64 * 64 + int b"
  have go: ?case
    if step: "advance_loop w now fired = (case s of None \<Rightarrow> None | Some q \<Rightarrow> advance_loop (fst q) now (snd q))"
      and s: "\<exists>w1 bs1 n1. s = Some (w1, fired @ n1) \<and> fires (w\<lparr>wl_tick := t\<rparr>) bs w1 bs1 n1 \<and> due w1 bs1 {}"
      and t: "wl_tick w < t" "t \<le> now" for s t
  proof -
    obtain w1 bs1 n1 where s1: "s = Some (w1, fired @ n1)" and f: "fires (w\<lparr>wl_tick := t\<rparr>) bs w1 bs1 n1" and d1: "due w1 bs1 {}"
      using s by blast
    have w1: "rel w1 bs1 []" "wl_tick w1 = t" using f by (auto simp: fires_def)
    then have "nat (now - wl_tick w1) < nat (now - wl_tick w)" using t by simp
    from less.hyps [OF this w1(1) d1, of "fired @ n1"] obtain w' bs' n2
      where "advance_loop w1 now (fired @ n1) = Some (w', (fired @ n1) @ n2)" "ran w1 bs1 now w' bs' n2" by blast
    then show ?thesis using step s1 ran_step [OF f d1 t] by (metis append.assoc fst_conv option.simps(5) snd_conv)
  qed
  have stop: ?case if "advance_loop w now fired = Some (w\<lparr>wl_tick := now\<rparr>, fired)" "due (w\<lparr>wl_tick := now\<rparr>) bs {}" "wl_tick w < now"
    using that ran_stop [OF r that(2)] by (metis append_Nil2 less_imp_le)
  consider "\<not> wl_tick w < now" | "wl_tick w < now" "wl_count w = 0" | b where "wl_tick w < now" "wl_count w \<noteq> 0" "?n0 = Some b"
    | "wl_tick w < now" "wl_count w \<noteq> 0" "?n0 = None" by fastforce
  then show ?case
  proof cases
    case 1
    have "ran w bs now w bs []" using r d 1 dueD(1) [OF d] unfolding ran_def by fastforce
    then show ?thesis using 1 by (subst advance_loop.simps) auto
  next
    case 2
    have "due (w\<lparr>wl_tick := now\<rparr>) bs {}" using empty_wheel [OF r] 2 by (auto simp: due_def nodes_def)
    then show ?thesis using 2 by (intro stop) (simp_all add: advance_loop.simps [of w])
  next
    case 3
    note n = level0_next [OF r d 3(3)]
    show ?thesis
    proof (cases "?t b > now")
      case True
      then show ?thesis using 3 stop_level0 [OF r d 3(3)] by (intro stop) (simp_all add: advance_loop.simps [of w])
    next
      case False
      have "rel (w\<lparr>wl_tick := ?t b\<rparr>) bs []" using r by (simp add: rel_tick)
      then show ?thesis using 3 False n(1,2) drain_due [OF _ move_level0 [OF r d 3(3)], of fired]
        by (intro go [of "drain (w\<lparr>wl_tick := ?t b\<rparr>) b fired" "?t b"]) (simp_all add: advance_loop.simps [of w])
    qed
  next
    case 4
    show ?thesis
    proof (cases "next_window w > now")
      case True
      then show ?thesis using 4 stop_window [OF r d 4(3)] by (intro stop) (simp_all add: advance_loop.simps [of w] Let_def)
    next
      case False
      then show ?thesis using 4 move_window [OF r d 4(3)] enter_window_ok [OF r]
        by (intro go [of "enter_window w (next_window w) fired" "next_window w"]) (simp_all add: advance_loop.simps [of w] Let_def)
    qed
  qed
qed

end
