(* ===== verification/Wheel_Map.thy ===== *)
theory Wheel_Map
  imports Wheel_Run
begin

section \<open>The timer wheel as a map of deadlines\<close>

text \<open>
  What the wheel promises its client: an armed node has a deadline, and advancing the time
  takes out the nodes whose deadline is not later. Runs of operations on the wheel give
  what the map of deadlines gives.
\<close>

definition timers :: "wheel \<Rightarrow> nat \<Rightarrow> int option" where
  "timers w n = (if n < length (wl_dl w) \<and> wl_where w ! n \<noteq> None then Some (wl_dl w ! n) else None)"

definition wheel_inv :: "wheel \<Rightarrow> bool" where
  "wheel_inv w \<longleftrightarrow> (\<exists>bs. rel w bs [] \<and> due w bs {})"

lemma timers_nodes:
  assumes "rel w bs []"
  shows "timers w n = (if n \<in> nodes bs then Some (wl_dl w ! n) else None)"
proof (cases "n < length (wl_dl w)")
  case True
  then have "wl_where w ! n \<noteq> None \<longleftrightarrow> n \<in> nodes bs" using relD(13) [OF assms True] by (auto simp: nodes_iff)
  then show ?thesis using True by (simp add: timers_def)
next
  case False
  then show ?thesis using relD(8) [OF assms] by (auto simp: timers_def)
qed

subsection \<open>The operations\<close>

lemma newWheel_inv: "wheel_inv (newWheel k)" "timers (newWheel k) = Map.empty"
proof -
  have r: "rel (newWheel k) (\<lambda>_. []) []"
  proof -
    have "replicate 3 (0 :: uint64) ! (b div 64) = 0" if "b < 192" for b :: nat using that by (intro nth_replicate) simp
    then show ?thesis by (simp add: rel_def newWheel_def apart_buckets_def nodes_def first_of_def total_def)
  qed
  moreover have "due (newWheel k) (\<lambda>_. []) {}" by (simp add: due_def)
  ultimately show "wheel_inv (newWheel k)" by (auto simp: wheel_inv_def)
  show "timers (newWheel k) = Map.empty" using timers_nodes [OF r] by (auto simp: nodes_def)
qed

lemma unlink_nodes:
  assumes r: "rel w bs []" and d: "due w bs {}" and n: "n < length (wl_dl w)"
  shows "\<exists>bs'. rel (unlink w n) bs' [] \<and> due (unlink w n) bs' {} \<and> nodes bs' = nodes bs - {n}
    \<and> wl_tick (unlink w n) = wl_tick w \<and> wl_dl (unlink w n) = wl_dl w"
proof -
  obtain bs' where bs': "rel (unlink w n) bs' []" "\<And>b. b < 192 \<Longrightarrow> bs' b = remove1 n (bs b)"
    "wl_tick (unlink w n) = wl_tick w" "wl_dl (unlink w n) = wl_dl w" using unlink_ok [OF r n] by blast
  have sets: "set (bs' b) = set (bs b) - {n}" if "b < 192" for b
    using relD(6) [OF r] bs'(2) [OF that] that by (simp add: apart_buckets_def)
  have "nodes bs' = (\<Union>b < 192. set (bs b) - {n})" unfolding nodes_def by (intro SUP_cong) (use sets in auto)
  then have "nodes bs' = nodes bs - {n}" by (auto simp: nodes_def)
  moreover have "due (unlink w n) bs' {}" using d sets by (simp add: due_def bs'(3,4))
  ultimately show ?thesis using bs' by blast
qed

lemma cancel_ok:
  assumes "wheel_inv w" and n: "n < length (wl_dl w)"
  shows "wheel_inv (cancel w n)" "timers (cancel w n) = (timers w)(n := None)" "wl_tick (cancel w n) = wl_tick w"
    "length (wl_dl (cancel w n)) = length (wl_dl w)"
proof -
  obtain bs where r: "rel w bs []" and d: "due w bs {}" using assms(1) by (auto simp: wheel_inv_def)
  obtain bs' where u: "rel (unlink w n) bs' []" "due (unlink w n) bs' {}" "nodes bs' = nodes bs - {n}"
    "wl_tick (unlink w n) = wl_tick w" "wl_dl (unlink w n) = wl_dl w" using unlink_nodes [OF r d n] by blast
  then show "wheel_inv (cancel w n)" "wl_tick (cancel w n) = wl_tick w" "length (wl_dl (cancel w n)) = length (wl_dl w)"
    by (auto simp: cancel_def wheel_inv_def)
  show "timers (cancel w n) = (timers w)(n := None)"
    using timers_nodes [OF u(1)] timers_nodes [OF r] u(3,5) by (auto simp: cancel_def)
qed

lemma nodes_push: "b < 192 \<Longrightarrow> nodes (bs(b := n # bs b)) = insert n (nodes bs)"
  by (auto simp: nodes_def split: if_splits)

lemma wheel_set_ok:
  assumes "wheel_inv w" and n: "n < length (wl_dl w)"
  shows "wheel_inv (wheel_set w n ns)" "timers (wheel_set w n ns) = (timers w)(n \<mapsto> max (toTick ns) (wl_tick w + 1))"
    "wl_tick (wheel_set w n ns) = wl_tick w" "length (wl_dl (wheel_set w n ns)) = length (wl_dl w)"
proof -
  obtain bs where r: "rel w bs []" and d: "due w bs {}" using assms(1) by (auto simp: wheel_inv_def)
  obtain bs' where u: "rel (unlink w n) bs' []" "due (unlink w n) bs' {}" "nodes bs' = nodes bs - {n}"
    "wl_tick (unlink w n) = wl_tick w" "wl_dl (unlink w n) = wl_dl w" using unlink_nodes [OF r d n] by blast
  let ?t = "max (toTick ns) (wl_tick w + 1)"
  let ?w = "(unlink w n)\<lparr>wl_dl := (wl_dl w)[n := ?t]\<rparr>" and ?b = "bucket_of (wl_tick w) ?t"
  have s: "wheel_set w n ns = link ?w n ?b" by (simp add: wheel_set_def place_def Let_def u(4,5))
  have "rel ?w bs' []" using u(1,5) by (simp add: rel_def)
  then have r': "rel (wheel_set w n ns) (bs'(?b := n # bs' ?b)) []" unfolding s
    by (rule link_ok) (use n u(3) bucket_bound in auto)
  have nd: "nodes (bs'(?b := n # bs' ?b)) = insert n (nodes bs)" using nodes_push [OF bucket_bound, of bs'] u(3) by auto
  have out: "x \<noteq> n" if "b < 192" "x \<in> set (bs' b)" for b x using u(3) in_nodes [of b x bs'] that by blast
  have same: "(wl_dl w)[n := ?t] ! x = wl_dl w ! x" if "b < 192" "x \<in> set (bs' b)" for b x using out [OF that] by (metis nth_list_update_neq)
  have "due (wheel_set w n ns) (bs'(?b := n # bs' ?b)) {}" using u(2,4,5) n same
    by (auto simp: due_def s link_fields)
  then show "wheel_inv (wheel_set w n ns)" using r' by (auto simp: wheel_inv_def)
  show "wl_tick (wheel_set w n ns) = wl_tick w" "length (wl_dl (wheel_set w n ns)) = length (wl_dl w)" by (simp_all add: s link_fields u(4))
  show "timers (wheel_set w n ns) = (timers w)(n \<mapsto> ?t)"
    using timers_nodes [OF r'] timers_nodes [OF r] n nd by (auto simp: s link_fields)
qed

lemma advance_ok:
  assumes "wheel_inv w"
  shows "\<exists>w' new. advance w ns fired = Some (w', fired @ new) \<and> wheel_inv w' \<and> wl_tick w' = max (wl_tick w) (go_div ns tickNs)
    \<and> length (wl_dl w') = length (wl_dl w) \<and> distinct new \<and> set new = {n. \<exists>t. timers w n = Some t \<and> t \<le> go_div ns tickNs}
    \<and> sorted (map (\<lambda>n. the (timers w n)) new) \<and> timers w' = timers w |` (- set new)"
proof -
  obtain bs where r: "rel w bs []" and d: "due w bs {}" using assms by (auto simp: wheel_inv_def)
  let ?now = "go_div ns tickNs"
  obtain w' bs' new where a: "advance_loop w ?now fired = Some (w', fired @ new)" and n: "ran w bs ?now w' bs' new"
    using advance_loop_ok [OF r d] by blast
  have n': "rel w' bs' []" "due w' bs' {}" "wl_tick w' = max (wl_tick w) ?now" "wl_dl w' = wl_dl w" "distinct new"
    "set new = {x \<in> nodes bs. wl_dl w ! x \<le> ?now}" "nodes bs' = nodes bs - set new" "sorted (map (\<lambda>x. wl_dl w ! x) new)"
    using n by (auto simp: ran_def)
  have "map (\<lambda>x. wl_dl w ! x) new = map (\<lambda>n. the (timers w n)) new" using timers_nodes [OF r] n'(6) by auto
  then have "sorted (map (\<lambda>n. the (timers w n)) new)" using n'(8) by metis
  moreover have "set new = {n. \<exists>t. timers w n = Some t \<and> t \<le> ?now}" using timers_nodes [OF r] n'(6) by auto
  moreover have "timers w' n = (timers w |` (- set new)) n" for n
    using timers_nodes [OF n'(1), of n] timers_nodes [OF r, of n] n'(4,7) by (simp add: restrict_map_def)
  then have "timers w' = timers w |` (- set new)" by (rule ext)
  ultimately show ?thesis using a n'(1-5) unfolding wheel_inv_def advance_def by (intro exI [of _ w'] exI [of _ new]) auto
qed

lemma bucket_level0:
  assumes "bucket_of T t < 64"
  shows "t div 64 = T div 64 \<and> t mod 64 = int (bucket_of T t)"
proof -
  have "t div 64 = T div 64"
  proof (rule ccontr)
    assume "\<not> ?thesis"
    then have "64 \<le> bucket_of T t" unfolding bucket_alt by (simp only: if_False) simp
    then show False using assms by simp
  qed
  then show ?thesis by (simp add: bucket_of_def)
qed

lemma nextTick_ok:
  assumes "wheel_inv w"
  shows "timers w = Map.empty \<Longrightarrow> nextTick w = noTick"
    and "timers w n = Some t \<Longrightarrow> wl_tick w < nextTick w \<and> nextTick w \<le> t"
    and "timers w n = Some t \<Longrightarrow> t div 64 = wl_tick w div 64 \<Longrightarrow> \<exists>m. timers w m = Some (nextTick w)"
proof -
  obtain bs where r: "rel w bs []" and d: "due w bs {}" using assms by (auto simp: wheel_inv_def)
  let ?T = "wl_tick w"
  let ?n0 = "nextBit (wl_bm w ! 0) (nat (?T mod 64) + 1)" and ?n1 = "nextBit (wl_bm w ! 1) (nat (?T div 64 mod 64) + 1)"
    and ?n2 = "nextBit (wl_bm w ! 2) (nat (?T div 4096 mod 64) + 1)"
  have empty: "wl_count w = 0 \<longleftrightarrow> timers w = Map.empty" using empty_wheel [OF r] timers_nodes [OF r] by (auto simp: fun_eq_iff)
  then show "timers w = Map.empty \<Longrightarrow> nextTick w = noTick" by (simp add: nextTick_def Let_def)
  have low: "?T < z * k \<and> z * k \<le> t" if "?T div k < z" "z \<le> t div k" "0 < k" for z t k
  proof -
    have "z * k \<le> t div k * k" "(?T div k + 1) * k \<le> z * k" using that by simp_all
    moreover have "t div k * k \<le> t" using div_mult_mod_eq [of t k] pos_mod_sign [OF that(3), of t] by linarith
    moreover have "?T < (?T div k + 1) * k" 
      using div_mult_mod_eq [of ?T k] pos_mod_bound [OF that(3), of ?T] distrib_right [of "?T div k" 1 k] by linarith
    ultimately show ?thesis by linarith
  qed
  show "?T < nextTick w \<and> nextTick w \<le> t" if t: "timers w n = Some t"
  proof -
    have n: "n \<in> nodes bs" "wl_dl w ! n = t" using timers_nodes [OF r, of n] t by (auto split: if_splits)
    have ne: "wl_count w \<noteq> 0" using empty t by auto
    consider b where "?n0 = Some b" | b where "?n0 = None" "?n1 = Some b" | b where "?n0 = None" "?n1 = None" "?n2 = Some b"
      | "?n0 = None" "?n1 = None" "?n2 = None" by fastforce
    then show ?thesis
    proof cases
      case 1
      then show ?thesis using level0_next(2,3) [OF r d 1] n ne by (auto simp: nextTick_def Let_def)
    next
      case 2
      have "nextTick w = (?T div 64 div 64 * 64 + int b) * 64" using 2 ne by (simp add: nextTick_def Let_def win12 algebra_simps)
      moreover have "?T < (?T div 64 div 64 * 64 + int b) * 64 \<and> (?T div 64 div 64 * 64 + int b) * 64 \<le> t"
        by (rule low) (use level1_next(2) [OF r d 2] level1_next(3) [OF r d 2 n(1)] n(2) in auto)
      ultimately show ?thesis by metis
    next
      case 3
      note l = level2_next [OF r d 3(1,2) 3(3) [unfolded win12], unfolded win12 [symmetric]]
      have "nextTick w = (?T div 4096 div 64 * 64 + int b) * 4096"
        using 3 ne by (simp add: nextTick_def Let_def win18 win12 algebra_simps)
      moreover have "?T < (?T div 4096 div 64 * 64 + int b) * 4096 \<and> (?T div 4096 div 64 * 64 + int b) * 4096 \<le> t"
        by (rule low [OF l(1)]) (use l(2) [OF n(1)] n(2) in auto)
      ultimately show ?thesis by metis
    next
      case 4
      have "nextTick w = (?T div 262144 + 1) * 262144" using 4 ne by (simp add: nextTick_def Let_def win12)
      moreover have "?T div 262144 < t div 262144"
        using level2_none [OF r d 4(1,2) _ n(1)] 4(3) unfolding win12 win18 n(2) .
      then have "?T < (?T div 262144 + 1) * 262144 \<and> (?T div 262144 + 1) * 262144 \<le> t" by (intro low) (simp_all add: add1_zle_eq)
      ultimately show ?thesis by metis
    qed
  qed
  show "\<exists>m. timers w m = Some (nextTick w)" if t: "timers w n = Some t" "t div 64 = ?T div 64"
  proof -
    have n: "n \<in> nodes bs" "wl_dl w ! n = t" using timers_nodes [OF r, of n] t by (auto split: if_splits)
    obtain b where b: "?n0 = Some b" 
    proof (cases ?n0)
      case None
      then show ?thesis using level0_none [OF r d None n(1)] n(2) t(2) by (metis less_irrefl)
    qed (rule that)
    note f = nextBit_Some [OF b]
    have "bs b \<noteq> []" using f(2,3) relD(12) [OF r, of b] by simp
    then obtain m where m: "m \<in> set (bs b)" by (cases "bs b") auto
    have b192: "b < 192" using f(2) by simp
    have mb: "m \<in> nodes bs" "b = bucket_of ?T (wl_dl w ! m)" using m d b192 in_nodes [of b m bs] by (auto simp: due_def)
    have "wl_dl w ! m div 64 = ?T div 64 \<and> wl_dl w ! m mod 64 = int b" using bucket_level0 mb(2) f(2) by metis
    then have "wl_dl w ! m = ?T div 64 * 64 + int b" using div_mult_mod_eq [of "wl_dl w ! m" 64] by simp
    then have "timers w m = Some (nextTick w)" using timers_nodes [OF r, of m] mb(1) empty t(1) b by (auto simp: nextTick_def Let_def)
    then show ?thesis ..
  qed
qed

subsection \<open>Runs of operations\<close>

datatype wheel_op = Set nat int | Cancel nat | Advance int

fun op_node :: "nat \<Rightarrow> wheel_op \<Rightarrow> bool" where
  "op_node k (Set n ns) = (n < k)"
| "op_node k (Cancel n) = (n < k)"
| "op_node k (Advance ns) = True"

fun wheel_run :: "wheel \<Rightarrow> wheel_op list \<Rightarrow> (wheel \<times> nat list list) option" where
  "wheel_run w [] = Some (w, [])"
| "wheel_run w (Set n ns # ops) = wheel_run (wheel_set w n ns) ops"
| "wheel_run w (Cancel n # ops) = wheel_run (cancel w n) ops"
| "wheel_run w (Advance ns # ops) =
     (case advance w ns [] of
        None \<Rightarrow> None
      | Some (w', fired) \<Rightarrow> (case wheel_run w' ops of None \<Rightarrow> None | Some (w'', fs) \<Rightarrow> Some (w'', fired # fs)))"

text \<open>The specification: the time and the map of deadlines, with the sets of nodes that fire.\<close>

fun timer_run :: "int \<Rightarrow> (nat \<Rightarrow> int option) \<Rightarrow> wheel_op list \<Rightarrow> (int \<times> (nat \<Rightarrow> int option)) \<times> nat set list" where
  "timer_run T m [] = ((T, m), [])"
| "timer_run T m (Set n ns # ops) = timer_run T (m(n \<mapsto> max (toTick ns) (T + 1))) ops"
| "timer_run T m (Cancel n # ops) = timer_run T (m(n := None)) ops"
| "timer_run T m (Advance ns # ops) =
     (let now = go_div ns tickNs; fired = {n. \<exists>t. m n = Some t \<and> t \<le> now};
          r = timer_run (max T now) (m |` (- fired)) ops
      in (fst r, fired # snd r))"

lemma wheel_run_ok:
  assumes "wheel_inv w" and "\<forall>op \<in> set ops. op_node (length (wl_dl w)) op"
  shows "\<exists>w' fs. wheel_run w ops = Some (w', fs) \<and> ((wl_tick w', timers w'), map set fs) = timer_run (wl_tick w) (timers w) ops
    \<and> wheel_inv w' \<and> list_all distinct fs"
  using assms
proof (induction ops arbitrary: w)
  case Nil
  then show ?case by simp
next
  case (Cons op ops)
  show ?case
  proof (cases op)
    case (Set n ns)
    then have n: "n < length (wl_dl w)" using Cons.prems(2) by simp
    note s = wheel_set_ok [OF Cons.prems(1) n, of ns]
    show ?thesis using Cons.IH [OF s(1)] Cons.prems(2) Set unfolding s(2-4) by (simp del: fun_upd_apply)
  next
    case (Cancel n)
    then have n: "n < length (wl_dl w)" using Cons.prems(2) by simp
    note s = cancel_ok [OF Cons.prems(1) n]
    show ?thesis using Cons.IH [OF s(1)] Cons.prems(2) Cancel unfolding s(2-4) by (simp del: fun_upd_apply)
  next
    case (Advance ns)
    obtain w' new where a: "advance w ns [] = Some (w', new)" "wheel_inv w'" "wl_tick w' = max (wl_tick w) (go_div ns tickNs)"
      "length (wl_dl w') = length (wl_dl w)" "distinct new" "set new = {n. \<exists>t. timers w n = Some t \<and> t \<le> go_div ns tickNs}"
      "timers w' = timers w |` (- set new)" using advance_ok [OF Cons.prems(1), of ns "[]"] by auto
    obtain w'' fs where l: "wheel_run w' ops = Some (w'', fs)" "((wl_tick w'', timers w''), map set fs) = timer_run (wl_tick w') (timers w') ops"
      "wheel_inv w''" "list_all distinct fs" using Cons.IH [OF a(2)] Cons.prems(2) a(4) by auto
    have "timer_run (wl_tick w) (timers w) (op # ops) = ((wl_tick w'', timers w''), map set (new # fs))"
      using l(2) a(3,6,7) Advance by (simp add: Let_def prod_eq_iff)
    then show ?thesis using a(1,5) l(1,3,4) Advance by simp
  qed
qed

text \<open>The operations as the steps of a system: the stack arms, cancels and advances.\<close>

inductive wheel_step :: "wheel \<Rightarrow> wheel \<Rightarrow> bool" where
  arm: "n < length (wl_dl w) \<Longrightarrow> wheel_step w (wheel_set w n ns)"
| disarm: "n < length (wl_dl w) \<Longrightarrow> wheel_step w (cancel w n)"
| elapse: "advance w ns fired = Some (w', fired') \<Longrightarrow> wheel_step w w'"

definition wheel_init :: "wheel \<Rightarrow> bool" where
  "wheel_init w \<longleftrightarrow> w = newWheel (length (wl_dl w))"

interpretation timer_wheel: safe_system wheel_init wheel_step wheel_inv
proof unfold_locales
  show "wheel_inv w" if "wheel_init w" for w using that newWheel_inv(1) by (metis wheel_init_def)
  show "wheel_inv w'" if "wheel_inv w" "wheel_step w w'" for w w'
    using that(2)
  proof cases
    case (elapse ns fired fired')
    then show ?thesis using advance_ok [OF that(1), of ns fired] by auto
  qed (use that(1) wheel_set_ok(1) cancel_ok(1) in auto)
qed

end
