(* ===== verification/Stack_Properties.thy ===== *)
theory Stack_Properties
  imports Flow_Index_Laws Ring_Window Wheel_Map
begin

section \<open>Properties of the parts of the TCP/IP stack\<close>

text \<open>
  The connection table, the buffers and the timers of the user-space stack against what they
  promise the rest of the stack: a map from tuples to rows, a window of a byte stream, a queue
  of records and a map of deadlines.
\<close>

subsection \<open>The connection table\<close>

text \<open>C5. The connection table is a map. On a table built for a number of rows, any sequence of insertions, removals
  and lookups that never keeps more tuples than rows answers exactly as a map from tuples to rows (and generations) does;
  no probe runs forever, and removing an entry, which shifts others back, hides none of them.\<close>

theorem index_refines_map:
  assumes "rows \<le> 2 ^ 30" and "fitting rows (row_valid withGen) [] ops"
  shows "run_ops index_lookup index_put index_remove (newIndex rows key withGen) ops = Some (map_run Map.empty ops)"
proof -
  let ?x = "newIndex rows key withGen"
  have n: "index_ok ?x" "index_map ?x = Map.empty" "2 * rows \<le> cap_of ?x" using newIndex_ok [OF assms(1)] by auto
  have "index_inv rows withGen ?x" using n by (simp add: index_inv_def newIndex_def Let_def)
  from flow_table.run_refines [OF this, of "[]" ops] show ?thesis using n(2) assms(2) by simp
qed

definition sample_ops :: "(tuple, uint32 \<times> uint64) map_op list" where
  "sample_ops =
     (let t = (\<lambda>p. \<lparr>tu_laddr = 1, tu_raddr = 10, tu_lport = 80, tu_rport = p\<rparr>) in
      [Put (t 1) (5, 0), Put (t 2) (6, 0), Get (t 1), Del (t 1), Get (t 1), Get (t 2), Del (t 1)])"

theorem index_refines_map_witness:
  "run_ops index_lookup index_put index_remove (newIndex 2 \<lparr>sk_k0 = 1, sk_k1 = 2\<rparr> False) sample_ops
     = Some [Stored, Stored, Got (Some (5, 0)), Removed True, Got None, Got (Some (6, 0)), Removed False]"
proof -
  have "fitting 2 (row_valid False) [] sample_ops" by (simp add: sample_ops_def row_valid_def Let_def)
  from index_refines_map [OF _ this, of "\<lparr>sk_k0 = 1, sk_k1 = 2\<rparr>"] show ?thesis by (simp add: sample_ops_def Let_def)
qed

subsection \<open>Sequence numbers\<close>

text \<open>Sequence numbers compare through the wrap-around. Positions of a stream that are less than \<open>2 ^ 31\<close> apart compare as
  their 32-bit sequence numbers do, also where the number wraps between them; the minimum and the maximum are the ones of the positions.\<close>

theorem seq_order:
  assumes "\<bar>a - b\<bar> < 2 ^ 31"
  shows "(seqLT (word_of_int a) (word_of_int b) \<longleftrightarrow> a < b) \<and> (seqLE (word_of_int a) (word_of_int b) \<longleftrightarrow> a \<le> b)
    \<and> (seqGT (word_of_int a) (word_of_int b) \<longleftrightarrow> a > b) \<and> (seqGE (word_of_int a) (word_of_int b) \<longleftrightarrow> a \<ge> b)
    \<and> seqMin (word_of_int a) (word_of_int b) = word_of_int (min a b) \<and> seqMax (word_of_int a) (word_of_int b) = word_of_int (max a b)"
  using seq_compare [OF assms] by (auto simp: seqMin_def seqMax_def min_def max_def)

theorem seq_order_witness: "seqLT 4294967295 3 \<and> seqMax 4294967295 3 = 3"
proof -
  have e: "word_of_int 4294967299 = (3 :: uint32)" by (simp add: word_uint_eq_iff)
  have "seqLT (word_of_int 4294967295) (word_of_int 4294967299) \<and> seqMax (word_of_int 4294967295) (word_of_int 4294967299) = word_of_int 4294967299"
    using seq_order [of 4294967295 4294967299] by simp
  then show ?thesis unfolding e by simp
qed

subsection \<open>Rings\<close>

lemma write_fits:
  assumes s: "byte_ring.reachable s" and off: "rs_lo s \<le> off" "off + length data \<le> rs_lo s + rcap (rs_ring s)" and big: "off + length data < 2 ^ 64"
  shows "\<exists>s'. byte_ring.reachable s' \<and> ring_write (rs_ring s) (rs_pool s) (word_of_nat off) data = Some (rs_ring s', rs_pool s')
    \<and> rs_bytes s' = put_bytes off data (rs_bytes s) \<and> rs_lo s' = rs_lo s \<and> rs_hi s' = max (rs_hi s) (off + length data)"
proof -
  have i: "window (rs_ring s) (rs_lo s) (rs_hi s) (rs_bytes s)" "pool_ok (rs_pool s)"
    using byte_ring.reachable_inv [OF s] by (simp_all add: ring_inv_def)
  obtain r' pool' where w: "ring_write (rs_ring s) (rs_pool s) (word_of_nat off) data = Some (r', pool')"
    using window_write [OF i off big] by blast
  let ?s = "s\<lparr>rs_ring := r', rs_pool := pool', rs_hi := max (rs_hi s) (off + length data), rs_bytes := put_bytes off data (rs_bytes s)\<rparr>"
  have "byte_ring.reachable ?s" by (rule byte_ring.reachable.advance [OF s ring_step.Write [OF off big w]])
  then show ?thesis using w by (intro exI [of _ ?s]) simp
qed

definition sample_pool :: chunkPool where
  "sample_pool = \<lparr>cp_free = [], cp_held = 0, cp_closed = False\<rparr>"

definition sample_ring :: ring_state where
  "sample_ring = \<lparr>rs_ring = ring_of_cap (2 ^ 18), rs_pool = sample_pool, rs_lo = 0, rs_hi = 0, rs_bytes = Map.empty\<rparr>"

lemma sample_ring_reachable: "byte_ring.reachable sample_ring"
proof (rule byte_ring.reachable.start)
  have "pool_ok sample_pool \<and> cp_held sample_pool = 0" by (simp add: pool_ok_def sample_pool_def)
  then show "ring_init sample_ring" unfolding ring_init_def sample_ring_def by (intro exI [of _ 18] exI [of _ sample_pool]) simp
qed

lemma sample_ring_cap: "rs_lo sample_ring = 0" "rs_hi sample_ring = 0" "rcap (rs_ring sample_ring) = 262144" "rs_bytes sample_ring = Map.empty"
  by (simp_all add: rcap_def sample_ring_def ring_of_cap_def)

text \<open>C6. A ring returns what was written. In every state that writes inside the window, trims, retentions and resizes lead to, a range of
  offsets whose bytes were written and are still live is read back exactly, over the ends of the ring and of its chunks and over a change of
  the capacity.\<close>

theorem ring_reads_back:
  assumes "byte_ring.reachable s" and "\<forall>k < n. rs_bytes s (off + k) \<noteq> None" and "off < 2 ^ 64"
  shows "ring_read (rs_ring s) (word_of_nat off) n = Some (map (\<lambda>k. the (rs_bytes s (off + k))) [0..<n])"
proof -
  have "ring_inv s" by (rule byte_ring.reachable_inv [OF assms(1)])
  then show ?thesis by (intro window_read [OF _ _ assms(2,3)]) (auto simp: ring_inv_def)
qed

text \<open>Three bytes over the end of the first chunk.\<close>

theorem ring_reads_back_witness: "\<exists>s. byte_ring.reachable s \<and> ring_read (rs_ring s) (word_of_nat 16383) 3 = Some [1, 2, 3]"
proof -
  obtain s where s: "byte_ring.reachable s" "rs_bytes s = put_bytes 16383 [1, 2, 3] Map.empty"
    using write_fits [OF sample_ring_reachable, of 16383 "[1, 2, 3]"] sample_ring_cap by auto
  have b: "rs_bytes s (16383 + k) = Some ([1, 2, 3] ! k)" if "k < 3" for k using that by (simp add: put_bytes_def s(2))
  have "ring_read (rs_ring s) (word_of_nat 16383) 3 = Some (map (\<lambda>k. the (rs_bytes s (16383 + k))) [0..<3])"
    by (rule ring_reads_back [OF s(1)]) (use b in auto)
  also have "[0..<3 :: nat] = [0, 1, 2]" by (simp add: upt_rec)
  finally show ?thesis using s(1) b [of 0] b [of 1] b [of 2] by auto
qed

text \<open>A write inside the window succeeds. In every reachable state a write that starts at or after the window's start and ends within the
  capacity returns, without an index out of range, and leads to a reachable state that has the bytes at their offsets.\<close>

theorem ring_write_succeeds:
  assumes "byte_ring.reachable s" and "rs_lo s \<le> off" and "off + length data \<le> rs_lo s + rcap (rs_ring s)" and "off + length data < 2 ^ 64"
  shows "\<exists>s'. byte_ring.reachable s' \<and> ring_write (rs_ring s) (rs_pool s) (word_of_nat off) data = Some (rs_ring s', rs_pool s')
    \<and> rs_bytes s' = put_bytes off data (rs_bytes s) \<and> rs_lo s' = rs_lo s \<and> rs_hi s' = max (rs_hi s) (off + length data)"
  by (rule write_fits [OF assms])

theorem ring_write_succeeds_witness: "ring_write (rs_ring sample_ring) (rs_pool sample_ring) (word_of_nat 262143) [7] \<noteq> None"
  using ring_write_succeeds [OF sample_ring_reachable, of 262143 "[7]"] sample_ring_cap by auto

text \<open>C33. A ring keeps no more memory than its live bytes need. In every reachable state the chunks a ring holds are at most those the
  live range touches, none when it is empty; the pool counts exactly those, keeps at most 64 chunks of its own, and all of these are cleared.\<close>

theorem ring_memory_bound:
  assumes "byte_ring.reachable s"
  shows "heldChunks (rs_ring s) \<le> (if rs_lo s < rs_hi s then (rs_hi s - 1) div chunkSize - rs_lo s div chunkSize + 1 else 0)
    \<and> cp_held (rs_pool s) = int (heldChunks (rs_ring s))
    \<and> length (cp_free (rs_pool s)) \<le> chunkPoolKeep \<and> list_all (\<lambda>c. c = new_chunk) (cp_free (rs_pool s))"
proof -
  have i: "ring_ok (rs_ring s)" "tight (rs_ring s) (rs_lo s) (rs_hi s)" "pool_ok (rs_pool s)" "cp_held (rs_pool s) = int (in_use (rs_ring s))"
    using byte_ring.reachable_inv [OF assms] by (simp_all add: ring_inv_def window_def)
  have len: "length (rg_chunks (rs_ring s)) = ring_slots" using i(1) by (simp add: ring_ok_def)
  have h: "heldChunks (rs_ring s) = in_use (rs_ring s)" by (rule held_in_use [OF i(1)])
  have "in_use (rs_ring s) = 0" if e: "\<not> rs_lo s < rs_hi s"
  proof -
    have "rg_chunks (rs_ring s) ! j = None" if "j < ring_slots" for j using i(2) e that by (force simp: tight_def slot_live_def)
    then show ?thesis using len by (auto simp: in_use_def in_set_conv_nth filter_empty_conv)
  qed
  then show ?thesis using i(3,4) h tight_bound [OF i(2) len] by (auto simp: pool_ok_def list_all_iff)
qed

theorem ring_memory_bound_witness: "\<exists>s. rs_hi s = 16386 \<and> byte_ring.reachable s \<and> heldChunks (rs_ring s) \<le> 2"
proof -
  obtain s where s: "byte_ring.reachable s" "rs_lo s = 0" "rs_hi s = 16386"
    using write_fits [OF sample_ring_reachable, of 16383 "[1, 2, 3]"] sample_ring_cap by auto
  then show ?thesis using ring_memory_bound [OF s(1)] by (intro exI [of _ s]) (simp add: chunkSize_def)
qed

text \<open>A ring of records is a queue. On a well-formed ring the records from the oldest on are a list: pushing to a ring that is not full
  appends, popping takes off the oldest, which is the record at index 0, and copying into a new array that is large enough keeps the list.\<close>

theorem record_ring_queue:
  assumes "rr_ok r"
  shows "(\<not> rr_full r \<longrightarrow> rr_ok (rr_push r x) \<and> rr_list (rr_push r x) = rr_list r @ [x])
    \<and> (rr_n r > 0 \<longrightarrow> rr_at r 0 = hd (rr_list r) \<and> rr_ok (rr_pop r) \<and> rr_list (rr_pop r) = tl (rr_list r))
    \<and> (rr_n r \<le> length recs \<and> recs \<noteq> [] \<longrightarrow> rr_ok (rr_resize r recs) \<and> rr_list (rr_resize r recs) = rr_list r)"
  using rr_push_ok [OF assms] rr_pop_ok [OF assms] rr_resize_ok [OF assms]
  by (auto simp: rr_list_def hd_map upt_rec)

theorem record_ring_queue_witness:
  "rr_list (rr_push \<lparr>rr_recs = [7, 8, 9 :: int], rr_head = 2, rr_n = 2\<rparr> 5) = [9, 7, 5]"
proof -
  let ?r = "\<lparr>rr_recs = [7, 8, 9 :: int], rr_head = 2, rr_n = 2\<rparr>"
  have "rr_ok ?r" "\<not> rr_full ?r" "rr_list ?r = [9, 7]" by (simp_all add: rr_ok_def rr_full_def rr_list_def rr_at_def upt_rec)
  then show ?thesis using record_ring_queue [of ?r 5 "[]"] by simp
qed

subsection \<open>Timers\<close>

text \<open>C4. The timer wheel is a map of deadlines. From a new wheel any sequence of arming, cancelling and advancing returns, and it has the
  tick and the armed nodes with the deadlines that the map of deadlines has; each advance fires, without repetition, exactly the nodes whose
  deadline is not later than its time. So no timer is lost or early, in whichever of the three levels it waits.\<close>

theorem wheel_refines_map:
  assumes "list_all (op_node k) ops"
  shows "\<exists>w fs. wheel_run (newWheel k) ops = Some (w, fs) \<and> ((wl_tick w, timers w), map set fs) = timer_run 0 Map.empty ops
    \<and> list_all distinct fs"
proof -
  have "length (wl_dl (newWheel k)) = k" "wl_tick (newWheel k) = 0" by (simp_all add: newWheel_def)
  then show ?thesis using wheel_run_ok [OF newWheel_inv(1) [of k], of ops] newWheel_inv(2) [of k] assms by (auto simp: list_all_iff)
qed

definition sample_wheel_ops :: "wheel_op list" where
  "sample_wheel_ops = [Set 0 5000000, Set 1 300000000000, Set 2 90000000, Cancel 2, Advance 400000000000]"

theorem wheel_refines_map_witness:
  "\<exists>w fs. wheel_run (newWheel 3) sample_wheel_ops = Some (w, fs) \<and> map set fs = [{0, 1}]"
proof -
  have "list_all (op_node 3) sample_wheel_ops" by (simp add: sample_wheel_ops_def)
  moreover have "snd (timer_run 0 Map.empty sample_wheel_ops) = [{0, 1}]"
    by (auto simp: sample_wheel_ops_def Let_def toTick_def tickNs_def go_div_def wrap64_def split: if_splits)
  ultimately show ?thesis using wheel_refines_map [of 3 sample_wheel_ops] by (metis snd_conv)
qed

text \<open>Timers fire in the order of their deadlines. Advancing a reachable wheel returns; it appends the nodes that are due, ordered by
  deadline, to the list it is given, keeps the other nodes armed with their deadlines, and the tick becomes the new time, or stays when time
  did not go on.\<close>

theorem wheel_fires_in_order:
  assumes "timer_wheel.reachable w"
  shows "\<exists>w' new. advance w ns fired = Some (w', fired @ new) \<and> wl_tick w' = max (wl_tick w) (go_div ns tickNs)
    \<and> distinct new \<and> set new = {n. \<exists>t. timers w n = Some t \<and> t \<le> go_div ns tickNs}
    \<and> sorted (map (\<lambda>n. the (timers w n)) new) \<and> timers w' = timers w |` (- set new)"
  using advance_ok [OF timer_wheel.reachable_inv [OF assms], of ns fired] by blast

definition sample_wheel :: wheel where
  "sample_wheel = wheel_set (wheel_set (newWheel 2) 0 70000000) 1 5000000"

lemma sample_wheel_ok: "timer_wheel.reachable sample_wheel" "timers sample_wheel = [0 \<mapsto> 70, 1 \<mapsto> 5]" "wl_tick sample_wheel = 0"
proof -
  let ?w = "wheel_set (newWheel 2) 0 70000000"
  have n: "timer_wheel.reachable (newWheel 2)" by (rule timer_wheel.reachable.start) (simp add: wheel_init_def newWheel_def)
  have len: "length (wl_dl (newWheel 2)) = 2" "wl_tick (newWheel 2) = 0" by (simp_all add: newWheel_def)
  note a = wheel_set_ok [OF newWheel_inv(1), of 0 2 70000000]
  have r: "timer_wheel.reachable ?w" by (rule timer_wheel.reachable.advance [OF n wheel_step.arm]) (simp add: len)
  have l: "length (wl_dl ?w) = 2" "wl_tick ?w = 0" using a len by simp_all
  note b = wheel_set_ok [OF timer_wheel.reachable_inv [OF r], of 1 5000000]
  show "timer_wheel.reachable sample_wheel" unfolding sample_wheel_def
    by (rule timer_wheel.reachable.advance [OF r wheel_step.arm]) (simp add: l)
  have t: "toTick 70000000 = 70" "toTick 5000000 = 5" by (simp_all add: toTick_def tickNs_def go_div_def wrap64_def)
  show "wl_tick sample_wheel = 0" using b l by (simp add: sample_wheel_def)
  show "timers sample_wheel = [0 \<mapsto> 70, 1 \<mapsto> 5]" using a(2) b(2) l len newWheel_inv(2) [of 2] t by (simp add: sample_wheel_def)
qed

theorem wheel_fires_in_order_witness: "\<exists>w'. advance sample_wheel 80000000 [] = Some (w', [1, 0])"
proof -
  obtain w' new where a: "advance sample_wheel 80000000 [] = Some (w', [] @ new)" "distinct new"
    and n: "set new = {n. \<exists>t. timers sample_wheel n = Some t \<and> t \<le> go_div 80000000 tickNs}"
    and o: "sorted (map (\<lambda>n. the (timers sample_wheel n)) new)"
    using wheel_fires_in_order [OF sample_wheel_ok(1), of 80000000 "[]"] by blast
  have "go_div 80000000 tickNs = 80" by (simp add: go_div_def tickNs_def)
  then have s: "set new = {0, 1}" using n by (auto simp: sample_wheel_ok(2) split: if_splits)
  have "length new = 2" using distinct_card [OF a(2)] s by simp
  then obtain x y where "new = [x, y]" by (auto simp: numeral_2_eq_2 length_Suc_conv)
  then have "new = [1, 0]" using s o by (auto simp: sample_wheel_ok(2) doubleton_eq_iff)
  then show ?thesis using a(1) by simp
qed

text \<open>C34. The next wake-up is early enough. On a reachable wheel with an armed node, the tick to wake up at is after the current tick and not
  later than any deadline, and it is a deadline where one lies in the current window of 64 ticks; with no armed node there is no wake-up.\<close>

theorem nextTick_never_late:
  assumes "timer_wheel.reachable w"
  shows "(timers w = Map.empty \<longrightarrow> nextTick w = noTick)
    \<and> (timers w n = Some t \<longrightarrow> wl_tick w < nextTick w \<and> nextTick w \<le> t
        \<and> (t div 64 = wl_tick w div 64 \<longrightarrow> (\<exists>m. timers w m = Some (nextTick w))))"
  using nextTick_ok [OF timer_wheel.reachable_inv [OF assms]] by blast

theorem nextTick_never_late_witness: "0 < nextTick sample_wheel \<and> nextTick sample_wheel \<le> 5"
  using nextTick_never_late [OF sample_wheel_ok(1), of 1 5] by (simp add: sample_wheel_ok)

end
