(* ===== verification/Packet.thy ===== *)
theory Packet
  imports Frag_Bytes Flow_Index
begin

section \<open>Packets of the stack (internal/wgstack/packet.go)\<close>

text \<open>
  Reading and writing IPv4 and TCP headers. A slice is a list of bytes whose capacity is its
  length; a function that writes into a slice returns the new bytes, and \<open>None\<close> where the code
  would leave the slice. The array of SACK blocks with its count is the list of the blocks
  in use.
\<close>

unbundle bit_operations_syntax

definition protoTCP :: uint8 where "protoTCP = 6"
definition flagFIN :: uint8 where "flagFIN = 0x01"
definition flagSYN :: uint8 where "flagSYN = 0x02"
definition flagRST :: uint8 where "flagRST = 0x04"
definition flagPSH :: uint8 where "flagPSH = 0x08"
definition flagACK :: uint8 where "flagACK = 0x10"
definition flagURG :: uint8 where "flagURG = 0x20"

definition ipHeaderLen :: nat where "ipHeaderLen = 20"
definition tcpHeaderLen :: nat where "tcpHeaderLen = 20"
definition maxOptionLen :: nat where "maxOptionLen = 40"
definition defaultTTL :: uint8 where "defaultTTL = 64"

lemmas header_lens = ipHeaderLen_def tcpHeaderLen_def maxOptionLen_def

subsection \<open>Words of bytes\<close>

text \<open>\<open>binary.BigEndian\<close>: the bytes of a word and the word of bytes.\<close>

definition put16 :: "uint16 \<Rightarrow> uint8 list" where
  "put16 w = [ucast (drop_bit 8 w), ucast w]"

definition put32 :: "uint32 \<Rightarrow> uint8 list" where
  "put32 w = [ucast (drop_bit 24 w), ucast (drop_bit 16 w), ucast (drop_bit 8 w), ucast w]"

definition Uint32_at :: "uint8 list \<Rightarrow> nat \<Rightarrow> uint32" where
  "Uint32_at bs i = push_bit 24 (ucast (bs ! i)) OR push_bit 16 (ucast (bs ! (i + 1))) OR push_bit 8 (ucast (bs ! (i + 2))) OR ucast (bs ! (i + 3))"

definition Uint64_of :: "uint8 list \<Rightarrow> uint64" where
  "Uint64_of bs = foldl (\<lambda>w b. push_bit 8 w OR ucast b) 0 (take 8 bs)"

subsection \<open>The checksum\<close>

text \<open>\<open>bits.Add64\<close>: the sum and the carry.\<close>

definition Add64 :: "uint64 \<Rightarrow> uint64 \<Rightarrow> uint64 \<Rightarrow> uint64 \<times> uint64" where
  "Add64 x y c = (x + y + c, of_bool (unat x + unat y + unat c \<ge> 2 ^ 64))"

definition add_word :: "uint8 list \<Rightarrow> uint64 \<times> uint64 \<Rightarrow> uint64 \<times> uint64" where
  "add_word b s = Add64 (fst s) (Uint64_of b) (snd s)"

text \<open>The loops over 32 and over 8 bytes.\<close>

function sum32s :: "uint64 \<times> uint64 \<Rightarrow> uint8 list \<Rightarrow> (uint64 \<times> uint64) \<times> uint8 list" where
  "sum32s s b =
     (if length b \<ge> 32
      then sum32s (add_word (drop 24 b) (add_word (drop 16 b) (add_word (drop 8 b) (add_word b s)))) (drop 32 b)
      else (s, b))"
  by pat_completeness auto
termination by (relation "measure (\<lambda>(_, b). length b)") auto

function sum8s :: "uint64 \<times> uint64 \<Rightarrow> uint8 list \<Rightarrow> (uint64 \<times> uint64) \<times> uint8 list" where
  "sum8s s b = (if length b \<ge> 8 then sum8s (add_word b s) (drop 8 b) else (s, b))"
  by pat_completeness auto
termination by (relation "measure (\<lambda>(_, b). length b)") auto

declare sum32s.simps [simp del] sum8s.simps [simp del]

text \<open>The words that are left and the last byte.\<close>

fun sum2s :: "uint64 \<Rightarrow> uint8 list \<Rightarrow> uint64" where
  "sum2s acc (a # b # bs) = sum2s (acc + (push_bit 8 (ucast a) OR ucast b)) bs"
| "sum2s acc [a] = acc + push_bit 8 (ucast a)"
| "sum2s acc [] = acc"

lemma fold64_smaller:
  fixes s :: uint64
  assumes "drop_bit 16 s \<noteq> 0"
  shows "unat ((s AND 0xffff) + drop_bit 16 s) < unat s"
proof -
  have d: "unat (drop_bit 16 s) = unat s div 65536" by (simp add: drop_bit_eq_div unat_div)
  have "s AND 0xffff = take_bit 16 s" by (simp add: take_bit_eq_mask mask_eq_exp_minus_1)
  then have m: "unat (s AND 0xffff) = unat s mod 65536" by (simp add: take_bit_eq_mod unat_mod)
  have lt: "unat s < 2 ^ 64" using unat_lt2p [of s] by simp
  have pos: "0 < unat s div 65536" using assms d by (metis gr0I unat_eq_zero)
  have "unat s div 65536 < 2 ^ 48" using lt by (simp add: div_less_iff_less_mult)
  then have "unat s mod 65536 + unat s div 65536 < 2 ^ 64" using mod_less_divisor [of 65536 "unat s"] by simp
  then have "unat ((s AND 0xffff) + drop_bit 16 s) = unat s mod 65536 + unat s div 65536"
    by (simp add: unat_word_ariths(1) d m)
  moreover have "unat s mod 65536 + unat s div 65536 < unat s mod 65536 + 65536 * (unat s div 65536)"
    using pos by linarith
  ultimately show ?thesis by (simp add: mod_mult_div_eq)
qed

function fold64 :: "uint64 \<Rightarrow> uint64" where
  "fold64 acc = (if drop_bit 16 acc \<noteq> 0 then fold64 ((acc AND 0xffff) + drop_bit 16 acc) else acc)"
  by pat_completeness auto
termination by (relation "measure unat") (use fold64_smaller in \<open>auto simp del: drop_bit_of_0\<close>)

declare fold64.simps [simp del]

definition checksum :: "uint32 \<Rightarrow> uint8 list \<Rightarrow> uint16" where
  "checksum s0 b =
     (let (s, b) = sum32s (ucast s0, 0) b;
          ((acc, c), b) = sum8s s b;
          acc = acc + c;
          acc = drop_bit 32 acc + (acc AND 0xffffffff);
          acc = sum2s acc b
      in ucast (fold64 acc))"

definition pseudoSum :: "uint32 \<Rightarrow> uint32 \<Rightarrow> uint8 \<Rightarrow> nat \<Rightarrow> uint32" where
  "pseudoSum src dst proto len =
     drop_bit 16 src + (src AND 0xffff) + drop_bit 16 dst + (dst AND 0xffff) + ucast proto + word_of_nat len"

subsection \<open>Reading\<close>

record ipv4 =
  ip_src :: uint32
  ip_dst :: uint32
  ip_proto :: uint8
  ip_hlen :: nat
  ip_fragment :: bool
  ip_payload :: "uint8 list"
  ip_header :: "uint8 list"

datatype ipv4Drop = ipv4Malformed | ipv4BadChecksum

definition parseIPv4_packet :: "uint8 list \<Rightarrow> (ipv4Drop, ipv4) res" where
  "parseIPv4_packet b =
     (if length b < ipHeaderLen \<or> drop_bit 4 (b ! 0) \<noteq> 4 then Inl ipv4Malformed
      else
        let hlen = unat (b ! 0 AND 0x0f) * 4; tot = unat (Uint16_at b 2)
        in if hlen < ipHeaderLen \<or> tot < hlen \<or> tot > length b then Inl ipv4Malformed
           else
             let b = take tot b
             in if checksum 0 (take hlen b) \<noteq> 0xffff then Inl ipv4BadChecksum
                else Inr \<lparr>ip_src = Uint32_at b 12, ip_dst = Uint32_at b 16, ip_proto = b ! 9, ip_hlen = hlen,
                          ip_fragment = ((Uint16_at b 6 AND 0x3fff) \<noteq> 0), ip_payload = drop hlen b, ip_header = take hlen b\<rparr>)"

record sackBlock =
  sb_left :: uint32
  sb_right :: uint32

record tcpOptions =
  to_mss :: uint16
  to_hasMSS :: bool
  to_wscale :: uint8
  to_hasWS :: bool
  to_sackOK :: bool
  to_hasTS :: bool
  to_tsVal :: uint32
  to_tsEcr :: uint32
  to_sack :: "sackBlock list"
  to_malformed :: bool

definition noOptions :: tcpOptions where
  "noOptions = \<lparr>to_mss = 0, to_hasMSS = False, to_wscale = 0, to_hasWS = False, to_sackOK = False, to_hasTS = False,
     to_tsVal = 0, to_tsEcr = 0, to_sack = [], to_malformed = False\<rparr>"

text \<open>The loop over the blocks of a SACK option.\<close>

fun read_blocks :: "uint8 list \<Rightarrow> sackBlock list \<Rightarrow> sackBlock list" where
  "read_blocks (a # b # c # d # e # f # g # h # rest) bs =
     (if length bs < 4
      then read_blocks rest (bs @ [\<lparr>sb_left = Uint32_at [a, b, c, d] 0, sb_right = Uint32_at [e, f, g, h] 0\<rparr>])
      else bs)"
| "read_blocks _ bs = bs"

text \<open>One option with a length: \<open>body\<close> are the \<open>sz - 2\<close> bytes after the length.\<close>

definition read_option :: "bool \<Rightarrow> uint8 \<Rightarrow> nat \<Rightarrow> uint8 list \<Rightarrow> tcpOptions \<Rightarrow> tcpOptions" where
  "read_option syn kind sz body op =
     (if kind = 2 then (if sz = 4 \<and> syn then op\<lparr>to_mss := Uint16_at body 0, to_hasMSS := True\<rparr> else op)
      else if kind = 3 then (if sz = 3 \<and> syn then op\<lparr>to_wscale := min (body ! 0) 14, to_hasWS := True\<rparr> else op)
      else if kind = 4 then (if sz = 2 \<and> syn then op\<lparr>to_sackOK := True\<rparr> else op)
      else if kind = 5 then (if (sz - 2) mod 8 = 0 \<and> \<not> syn then op\<lparr>to_sack := read_blocks body (to_sack op)\<rparr> else op)
      else if kind = 8 then
        (if sz = 10 then op\<lparr>to_hasTS := True, to_tsVal := Uint32_at body 0, to_tsEcr := Uint32_at body 4\<rparr> else op)
      else op)"

function parse_options_loop :: "bool \<Rightarrow> uint8 list \<Rightarrow> tcpOptions \<Rightarrow> tcpOptions" where
  "parse_options_loop syn b op =
     (if b = [] \<or> b ! 0 = 0 then op
      else if b ! 0 = 1 then parse_options_loop syn (drop 1 b) op
      else if length b < 2 then op\<lparr>to_malformed := True\<rparr>
      else
        let sz = unat (b ! 1) in
        if sz < 2 \<or> sz > length b then op\<lparr>to_malformed := True\<rparr>
        else parse_options_loop syn (drop sz b) (read_option syn (b ! 0) sz (take (sz - 2) (drop 2 b)) op))"
  by pat_completeness auto
termination by (relation "measure (\<lambda>(_, b, _). length b)") auto

declare parse_options_loop.simps [simp del]

definition parseOptions :: "uint8 list \<Rightarrow> bool \<Rightarrow> tcpOptions" where
  "parseOptions b syn = parse_options_loop syn b noOptions"

record segment =
  sg_tup :: tuple
  sg_seq :: uint32
  sg_ack :: uint32
  sg_flags :: uint8
  sg_wnd :: uint16
  sg_opt :: tcpOptions
  sg_payload :: "uint8 list"

definition seg_has :: "segment \<Rightarrow> uint8 \<Rightarrow> bool" where
  "seg_has s f = ((sg_flags s AND f) \<noteq> 0)"

definition seqLen :: "segment \<Rightarrow> uint32" where
  "seqLen s = word_of_nat (length (sg_payload s)) + of_bool (seg_has s flagSYN) + of_bool (seg_has s flagFIN)"

datatype tcpDrop = tcpMalformed | tcpBadChecksum

definition parseTCP :: "ipv4 \<Rightarrow> (tcpDrop, segment) res" where
  "parseTCP ip =
     (let b = ip_payload ip in
      if length b < tcpHeaderLen then Inl tcpMalformed
      else
        let off = unat (drop_bit 4 (b ! 12)) * 4 in
        if off < tcpHeaderLen \<or> off > length b then Inl tcpMalformed
        else if NOT (checksum (pseudoSum (ip_src ip) (ip_dst ip) protoTCP (length b)) b) \<noteq> 0 then Inl tcpBadChecksum
        else Inr \<lparr>sg_tup = \<lparr>tu_laddr = ip_dst ip, tu_raddr = ip_src ip, tu_lport = Uint16_at b 2, tu_rport = Uint16_at b 0\<rparr>,
                  sg_seq = Uint32_at b 4, sg_ack = Uint32_at b 8, sg_flags = b ! 13, sg_wnd = Uint16_at b 14,
                  sg_opt = parseOptions (drop tcpHeaderLen (take off b)) ((b ! 13 AND flagSYN) \<noteq> 0), sg_payload = drop off b\<rparr>)"

subsection \<open>Writing\<close>

definition writeIPv4Header :: "uint8 list \<Rightarrow> nat \<Rightarrow> uint16 \<Rightarrow> uint8 \<Rightarrow> uint32 \<Rightarrow> uint32 \<Rightarrow> uint8 list option" where
  "writeIPv4Header b tot ident proto src dst =
     (if length b < ipHeaderLen then None
      else
        let h = [0x45, 0] @ put16 (word_of_nat tot) @ put16 ident @ put16 0x4000 @ [defaultTTL, proto, 0, 0] @ put32 src @ put32 dst
        in Some (PutUint16_at h 10 (NOT (checksum 0 h)) @ drop ipHeaderLen b))"

definition setFragField :: "uint8 list \<Rightarrow> uint16 \<Rightarrow> uint8 list option" where
  "setFragField b field =
     (if length b < ipHeaderLen then None
      else
        let b = (PutUint16_at b 6 field)[10 := 0, 11 := 0]
        in Some (PutUint16_at b 10 (NOT (checksum 0 (take ipHeaderLen b)))))"

definition clearDF :: "uint8 list \<Rightarrow> uint8 list option" where
  "clearDF b = (if length b < ipHeaderLen then None else setFragField b (Uint16_at b 6 AND NOT 0x4000))"

record tcpHeader =
  th_tup :: tuple
  th_seq :: uint32
  th_ack :: uint32
  th_flags :: uint8
  th_wnd :: uint16

record optWriter =
  ow_b :: "uint8 list"
  ow_n :: nat

definition newWriter :: optWriter where
  "newWriter = \<lparr>ow_b = replicate maxOptionLen 0, ow_n = 0\<rparr>"

text \<open>Each method writes bytes at \<open>n\<close> and moves \<open>n\<close> behind them.\<close>

definition ow_put :: "optWriter \<Rightarrow> uint8 list \<Rightarrow> optWriter option" where
  "ow_put w bs =
     (if ow_n w + length bs > length (ow_b w) then None
      else Some \<lparr>ow_b = take (ow_n w) (ow_b w) @ bs @ drop (ow_n w + length bs) (ow_b w), ow_n = ow_n w + length bs\<rparr>)"

definition ow_mss :: "optWriter \<Rightarrow> uint16 \<Rightarrow> optWriter option" where
  "ow_mss w v = ow_put w ([2, 4] @ put16 v)"

definition ow_sackPermWithTS :: "optWriter \<Rightarrow> uint32 \<Rightarrow> uint32 \<Rightarrow> optWriter option" where
  "ow_sackPermWithTS w tsVal tsEcr = ow_put w ([4, 2, 8, 10] @ put32 tsVal @ put32 tsEcr)"

definition ow_ts :: "optWriter \<Rightarrow> uint32 \<Rightarrow> uint32 \<Rightarrow> optWriter option" where
  "ow_ts w tsVal tsEcr = ow_put w ([1, 1, 8, 10] @ put32 tsVal @ put32 tsEcr)"

definition ow_sackPerm :: "optWriter \<Rightarrow> optWriter option" where
  "ow_sackPerm w = ow_put w [1, 1, 4, 2]"

definition ow_wscale :: "optWriter \<Rightarrow> uint8 \<Rightarrow> optWriter option" where
  "ow_wscale w v = ow_put w [1, 3, 3, v]"

definition block_bytes :: "sackBlock \<Rightarrow> uint8 list" where
  "block_bytes s = put32 (sb_left s) @ put32 (sb_right s)"

definition ow_sack :: "optWriter \<Rightarrow> sackBlock list \<Rightarrow> (optWriter \<times> nat) option" where
  "ow_sack w blocks =
     (let room = (maxOptionLen - ow_n w - 4) div 8; n = min room (length blocks)
      in if n = 0 then Some (w, 0)
         else map_option (\<lambda>w. (w, n)) (ow_put w ([1, 1, 5, word_of_nat (2 + 8 * n)] @ concat (map block_bytes (take n blocks)))))"

function ow_pad :: "optWriter \<Rightarrow> optWriter" where
  "ow_pad w = (if ow_n w mod 4 \<noteq> 0 then ow_pad \<lparr>ow_b = (ow_b w)[ow_n w := 0], ow_n = ow_n w + 1\<rparr> else w)"
  by pat_completeness auto
termination
proof (relation "measure (\<lambda>w. 3 - (ow_n w - 1) mod 4)")
  show "(\<lparr>ow_b = (ow_b w)[ow_n w := 0], ow_n = ow_n w + 1\<rparr>, w) \<in> measure (\<lambda>w. 3 - (ow_n w - 1) mod 4)" if "ow_n w mod 4 \<noteq> 0" for w :: optWriter
    using that by (cases "ow_n w") (auto simp: mod_Suc)
qed simp

declare ow_pad.simps [simp del]

definition writeTCP :: "uint8 list \<Rightarrow> uint16 \<Rightarrow> tcpHeader \<Rightarrow> optWriter option \<Rightarrow> nat \<Rightarrow> (uint8 list \<times> nat \<times> optWriter option) option" where
  "writeTCP b ident h opts payLen =
     (let opts = map_option ow_pad opts;
          optLen = (case opts of None \<Rightarrow> 0 | Some w \<Rightarrow> ow_n w);
          thl = tcpHeaderLen + optLen;
          tot = ipHeaderLen + thl + payLen;
          t = th_tup h
      in case writeIPv4Header b tot ident protoTCP (tu_laddr t) (tu_raddr t) of
           None \<Rightarrow> None
         | Some b \<Rightarrow>
             if length b < ipHeaderLen + tcpHeaderLen then None
             else
               let head = put16 (tu_lport t) @ put16 (tu_rport t) @ put32 (th_seq h) @ put32 (th_ack h)
                     @ [push_bit 4 (word_of_nat (thl div 4)), th_flags h] @ put16 (th_wnd h) @ [0, 0, 0, 0];
                   b = take ipHeaderLen b @ head @ drop (ipHeaderLen + tcpHeaderLen) b;
                   ob = take (length b - (ipHeaderLen + tcpHeaderLen)) (case opts of None \<Rightarrow> [] | Some w \<Rightarrow> take optLen (ow_b w));
                   b = take (ipHeaderLen + tcpHeaderLen) b @ ob @ drop (ipHeaderLen + tcpHeaderLen + length ob) b
               in Some (b, ipHeaderLen + thl, opts))"

definition finishTCP :: "uint8 list \<Rightarrow> (uint8 list \<times> nat) option" where
  "finishTCP b =
     (if length b < ipHeaderLen + 18 then None
      else
        let tot = unat (Uint16_at b 2) in
        if tot < ipHeaderLen \<or> tot > length b then None
        else
          let t = drop ipHeaderLen (take tot b);
              c = checksum (pseudoSum (Uint32_at b 12) (Uint32_at b 16) protoTCP (length t)) t
          in Some (PutUint16_at b (ipHeaderLen + 16) (NOT c), tot))"

subsection \<open>The options of a segment\<close>

text \<open>The options that the stack puts on a SYN-ACK (syn.go) and on the segments of a connection (tcpout.go). The
  timestamp, what was negotiated and the blocks to report are those of the row or of the connection.\<close>

definition rcvWindowShft :: uint8 where "rcvWindowShft = 7"

definition synAckOptions :: "uint16 \<Rightarrow> bool \<Rightarrow> bool \<Rightarrow> bool \<Rightarrow> uint32 \<Rightarrow> uint32 \<Rightarrow> optWriter option" where
  "synAckOptions ourMSS sackOK tsOK wsOK tsVal tsRecent =
     Option.bind (ow_mss newWriter ourMSS) (\<lambda>w.
     Option.bind (if sackOK \<and> tsOK then ow_sackPermWithTS w tsVal tsRecent
                  else if tsOK then ow_ts w tsVal tsRecent
                  else if sackOK then ow_sackPerm w
                  else Some w) (\<lambda>w.
     if wsOK then ow_wscale w rcvWindowShft else Some w))"

definition segmentOptions :: "bool \<Rightarrow> uint32 \<Rightarrow> uint32 \<Rightarrow> bool \<Rightarrow> sackBlock list \<Rightarrow> optWriter option" where
  "segmentOptions tsOK tsVal tsRecent sack blocks =
     Option.bind (if tsOK then ow_ts newWriter tsVal tsRecent else Some newWriter) (\<lambda>w.
     Option.bind (if sack then map_option fst (ow_sack w blocks) else Some w) (\<lambda>w.
     Some (ow_pad w)))"

end
