(* ===== verification/Packet_Sum.thy ===== *)
theory Packet_Sum
  imports Packet
begin

section \<open>The checksum of the stack\<close>

text \<open>
  The code adds eight bytes at a time with the carry going round. The result is the sum of
  the 16-bit words folded to 16 bits, for every number of bytes. A checksum put into a
  field of zeros makes the sum test succeed.
\<close>

subsection \<open>Folding to 16 bits\<close>

definition fold16 :: "nat \<Rightarrow> nat" where
  "fold16 n = (if n = 0 then 0 else if n mod 65535 = 0 then 65535 else n mod 65535)"

text \<open>Sums that fold alike.\<close>

definition alike :: "nat \<Rightarrow> nat \<Rightarrow> bool" where
  "alike m n \<longleftrightarrow> m mod 65535 = n mod 65535 \<and> (m = 0 \<longleftrightarrow> n = 0)"

lemma alike_refl [simp]: "alike n n"
  by (simp add: alike_def)

lemma alike_trans [trans]: "alike l m \<Longrightarrow> alike m n \<Longrightarrow> alike l n"
  by (simp add: alike_def)

lemma alike_add: "alike m n \<Longrightarrow> alike (m + k) (n + k)"
  unfolding alike_def by (metis add_is_0 mod_add_left_eq)

lemma alike_fold16: "alike m n \<Longrightarrow> fold16 m = fold16 n"
  by (simp add: alike_def fold16_def)

lemma fold16_bound: "fold16 n \<le> 65535"
  using mod_less_divisor [of 65535 n] by (simp add: fold16_def)

lemma alike_round:
  assumes "p mod 65535 = 1"
  shows "alike (n div p + n mod p) n"
proof -
  have e: "n div p * p + n mod p = n" by (rule div_mult_mod_eq)
  have "n div p * p mod 65535 = n div p mod 65535" using mod_mult_right_eq [of "n div p" p 65535] assms by simp
  then have "(n div p * p + n mod p) mod 65535 = (n div p + n mod p) mod 65535" by (metis mod_add_left_eq)
  moreover have "n = 0 \<longleftrightarrow> n div p + n mod p = 0" using e by (cases "n = 0") auto
  ultimately show ?thesis unfolding alike_def e by auto
qed

subsection \<open>The words of bytes\<close>

definition wsum :: "uint8 list \<Rightarrow> nat" where
  "wsum b = word_sum (if even (length b) then b else b @ [0])"

lemma wsum_append: "even (length xs) \<Longrightarrow> wsum (xs @ ys) = word_sum xs + wsum ys"
  by (simp add: wsum_def word_sum_append)

lemma wsum_even: "even (length xs) \<Longrightarrow> wsum xs = word_sum xs"
  by (simp add: wsum_def)

lemma byte_less: "unat (a :: uint8) < 256"
  using unat_lt2p [of a] by simp

lemma shift_or:
  fixes w :: "'a::len word"
  assumes "unat w * 256 + 256 \<le> 2 ^ LENGTH('a)" "8 \<le> LENGTH('a)"
  shows "unat (push_bit 8 w OR ucast (b :: uint8)) = 256 * unat w + unat b"
proof -
  have "push_bit 8 w OR (ucast b :: 'a word) = push_bit 8 w + ucast b"
    by (rule disjunctive_add [symmetric]) (auto simp: bit_push_bit_iff bit_ucast_iff dest: bit_imp_le_length)
  moreover have p: "unat (push_bit 8 w) = 256 * unat w"
  proof -
    have "unat (push_bit 8 w) = unat w * 256 mod 2 ^ LENGTH('a)"
      by (simp add: push_bit_eq_mult unat_word_ariths(2) take_bit_eq_mod mod_mult_right_eq)
    then show ?thesis using assms by simp
  qed
  moreover have "unat (ucast b :: 'a word) = unat b"
  proof -
    have "(2 :: nat) ^ 8 \<le> 2 ^ LENGTH('a)" using assms(2) by (rule power_increasing) simp
    then show ?thesis using byte_less [of b] by (simp add: unsigned_ucast_eq take_bit_nat_eq_self)
  qed
  ultimately show ?thesis using assms(1) byte_less [of b] by (simp add: unat_word_ariths(1))
qed

lemma unat_be16: "unat (be16 a b) = 256 * unat a + unat b"
proof -
  have "unat (ucast a :: uint16) = unat a" using byte_less [of a] by (simp add: unsigned_ucast_eq take_bit_nat_eq_self)
  then show ?thesis unfolding be16_def using shift_or [of "ucast a :: uint16" b] byte_less [of a] by simp
qed

text \<open>The value of eight bytes.\<close>

lemma Uint64_alike:
  assumes "length b \<ge> 8"
  shows "alike (unat (Uint64_of b)) (word_sum (take 8 b))"
proof -
  obtain a0 a1 a2 a3 a4 a5 a6 a7 where t: "take 8 b = [a0, a1, a2, a3, a4, a5, a6, a7]"
  proof -
    obtain ys where ys: "take 8 b = ys" "length ys = Suc (Suc (Suc (Suc (Suc (Suc (Suc (Suc 0)))))))" using assms by fastforce
    from ys(2) have "\<exists>a0 a1 a2 a3 a4 a5 a6 a7. ys = [a0, a1, a2, a3, a4, a5, a6, a7]" by (auto simp: length_Suc_conv)
    then show thesis using ys(1) that by blast
  qed
  note bytes = byte_less [of a0] byte_less [of a1] byte_less [of a2] byte_less [of a3]
    byte_less [of a4] byte_less [of a5] byte_less [of a6] byte_less [of a7]
  have step: "unat (push_bit 8 w OR ucast x) = 256 * unat w + unat x" if "unat w < 2 ^ 56" for w :: uint64 and x :: uint8
    using that by (intro shift_or) simp_all
  define f where "f = (\<lambda>w x. push_bit 8 w OR ucast (x :: uint8) :: uint64)"
  have f: "unat (f w x) = 256 * unat w + unat x" if "unat w < 2 ^ 56" for w x unfolding f_def by (rule step [OF that])
  let ?a = "256 * unat a0 + unat a1" and ?b = "256 * unat a2 + unat a3" and ?c = "256 * unat a4 + unat a5" and ?d = "256 * unat a6 + unat a7"
  have "Uint64_of b = f (f (f (f (f (f (f (f 0 a0) a1) a2) a3) a4) a5) a6) a7" unfolding Uint64_of_def t f_def by (simp del: push_bit_of_0)
  then have u: "unat (Uint64_of b) = ((?a * 65536 + ?b) * 65536 + ?c) * 65536 + ?d" using bytes by (simp add: f)
  have s: "word_sum (take 8 b) = ?a + ?b + ?c + ?d" unfolding t by (simp add: unat_be16)
  have r: "alike (x * 65536 + y) (x + y)" for x y :: nat
  proof -
    have "x * 65536 + y = (x + y) + 65535 * x" by simp
    then have "(x * 65536 + y) mod 65535 = (x + y) mod 65535" by (metis mod_mult_self2)
    then show ?thesis by (auto simp: alike_def)
  qed
  have "alike (unat (Uint64_of b)) ((?a * 65536 + ?b) * 65536 + ?c + ?d)" unfolding u by (rule r)
  also have "alike \<dots> ((?a * 65536 + ?b) + ?c + ?d)" by (intro alike_add r)
  also have "alike \<dots> (?a + ?b + ?c + ?d)" by (intro alike_add r)
  finally show ?thesis by (simp only: s)
qed

subsection \<open>Adding with the carry going round\<close>

definition carry_ok :: "uint64 \<times> uint64 \<Rightarrow> bool" where
  "carry_ok s \<longleftrightarrow> snd s = 0 \<or> snd s = 1 \<and> unat (fst s) + 2 \<le> 2 ^ 64"

definition value_of :: "uint64 \<times> uint64 \<Rightarrow> nat" where
  "value_of s = unat (fst s) + unat (snd s)"

lemma add_word_alike:
  assumes "carry_ok s"
  shows "carry_ok (add_word b s)" "alike (value_of (add_word b s)) (value_of s + unat (Uint64_of b))"
proof -
  let ?x = "unat (fst s)" and ?c = "unat (snd s)" and ?y = "unat (Uint64_of b)"
  let ?t = "?x + ?y + ?c"
  have y: "?y < 2 ^ 64" "?x < 2 ^ 64" using unat_lt2p [of "Uint64_of b"] unat_lt2p [of "fst s"] by simp_all
  have t: "?t + 2 \<le> 2 * 2 ^ 64" using assms y unfolding carry_ok_def by auto
  have f: "unat (fst (add_word b s)) = ?t mod 2 ^ 64"
    by (simp add: add_word_def Add64_def unat_word_ariths(1) mod_simps)
  have c: "snd (add_word b s) = of_bool (2 ^ 64 \<le> ?t)" by (simp add: add_word_def Add64_def)
  have "carry_ok (add_word b s) \<and> alike (value_of (add_word b s)) ?t"
  proof (cases "2 ^ 64 \<le> ?t")
    case True
    then have m: "?t mod 2 ^ 64 = ?t - 2 ^ 64" using t by (simp add: le_mod_geq)
    have "value_of (add_word b s) = ?t - 2 ^ 64 + 1" unfolding value_of_def f c using True m by simp
    moreover have "?t = (?t - 2 ^ 64 + 1) + 65535 * 281479271743489" using True by simp
    then have "?t mod 65535 = (?t - 2 ^ 64 + 1) mod 65535" by (metis mod_mult_self2)
    ultimately show ?thesis using True m t f c by (auto simp: carry_ok_def alike_def)
  next
    case False
    then show ?thesis using f c by (simp add: carry_ok_def value_of_def)
  qed
  then show "carry_ok (add_word b s)" "alike (value_of (add_word b s)) (value_of s + ?y)"
    by (simp_all add: value_of_def ac_simps)
qed

lemma add_word_wsum:
  assumes "carry_ok s" "length b \<ge> 8"
  shows "carry_ok (add_word b s)" "alike (value_of (add_word b s) + wsum (drop 8 b)) (value_of s + wsum b)"
proof -
  note a = add_word_alike [OF assms(1), of b]
  have e: "even (length (take 8 b))" using assms(2) by simp
  have w: "wsum b = word_sum (take 8 b) + wsum (drop 8 b)" using wsum_append [OF e, of "drop 8 b"] by simp
  have "alike (value_of (add_word b s) + wsum (drop 8 b)) (value_of s + unat (Uint64_of b) + wsum (drop 8 b))"
    by (rule alike_add [OF a(2)])
  also have "value_of s + unat (Uint64_of b) + wsum (drop 8 b) = unat (Uint64_of b) + (value_of s + wsum (drop 8 b))" by simp
  also have "alike \<dots> (word_sum (take 8 b) + (value_of s + wsum (drop 8 b)))" by (rule alike_add [OF Uint64_alike [OF assms(2)]])
  finally show "alike (value_of (add_word b s) + wsum (drop 8 b)) (value_of s + wsum b)" by (simp add: w ac_simps)
  show "carry_ok (add_word b s)" by (rule a(1))
qed

lemma sum8s_ok:
  "carry_ok s \<Longrightarrow> sum8s s b = (s', r) \<Longrightarrow> carry_ok s' \<and> length r < 8 \<and> alike (value_of s' + wsum r) (value_of s + wsum b)"
proof (induction s b rule: sum8s.induct)
  case (1 s b)
  show ?case
  proof (cases "length b \<ge> 8")
    case True
    note a = add_word_wsum [OF "1.prems"(1) True]
    have "sum8s (add_word b s) (drop 8 b) = (s', r)" using "1.prems"(2) True by (subst (asm) sum8s.simps) simp
    then show ?thesis using "1.IH" [OF True a(1)] a(2) alike_trans by blast
  next
    case False
    then show ?thesis using "1.prems" by (subst (asm) sum8s.simps) simp
  qed
qed

lemma sum32s_ok:
  "carry_ok s \<Longrightarrow> sum32s s b = (s', r) \<Longrightarrow> carry_ok s' \<and> alike (value_of s' + wsum r) (value_of s + wsum b)"
proof (induction s b rule: sum32s.induct)
  case (1 s b)
  show ?case
  proof (cases "length b \<ge> 32")
    case True
    have l: "length b \<ge> 8" "length (drop 8 b) \<ge> 8" "length (drop 16 b) \<ge> 8" "length (drop 24 b) \<ge> 8" using True by simp_all
    note a1 = add_word_wsum [OF "1.prems"(1) l(1)]
    note a2 = add_word_wsum [OF a1(1) l(2)]
    note a3 = add_word_wsum [OF a2(1) l(3)]
    note a4 = add_word_wsum [OF a3(1) l(4)]
    let ?s = "add_word (drop 24 b) (add_word (drop 16 b) (add_word (drop 8 b) (add_word b s)))"
    have "alike (value_of ?s + wsum (drop 32 b)) (value_of s + wsum b)"
      using a1(2) a2(2) a3(2) a4(2) by (simp add: alike_def)
    moreover have "sum32s ?s (drop 32 b) = (s', r)" using "1.prems"(2) True by (subst (asm) sum32s.simps) simp
    ultimately show ?thesis using "1.IH" [OF True a4(1)] alike_trans by blast
  next
    case False
    then show ?thesis using "1.prems" by (subst (asm) sum32s.simps) simp
  qed
qed

subsection \<open>The rest of the sum\<close>

lemma sum2s_value: "unat acc + wsum b < 2 ^ 64 \<Longrightarrow> unat (sum2s acc b) = unat acc + wsum b"
proof (induction acc b rule: sum2s.induct)
  case (1 acc a b bs)
  have e: "unat (push_bit 8 (ucast a) OR ucast b :: uint64) = 256 * unat a + unat b"
    using shift_or [of "ucast a :: uint64" b] byte_less [of a] by (simp add: unsigned_ucast_eq take_bit_nat_eq_self)
  have w: "wsum (a # b # bs) = 256 * unat a + unat b + wsum bs" by (simp add: wsum_def unat_be16)
  have "unat (acc + (push_bit 8 (ucast a) OR ucast b)) = unat acc + (256 * unat a + unat b)"
    using "1.prems" w by (simp add: unat_word_ariths(1) e)
  then show ?case using "1.IH" "1.prems" w by simp
next
  case (2 acc a)
  have e: "unat (push_bit 8 (ucast a) :: uint64) = 256 * unat a"
    using shift_or [of "ucast a :: uint64" 0] byte_less [of a] by (simp add: unsigned_ucast_eq take_bit_nat_eq_self)
  have "wsum [a] = 256 * unat a" by (simp add: wsum_def unat_be16)
  then show ?case using "2.prems" by (simp add: unat_word_ariths(1) e)
qed (simp add: wsum_def)

lemma fold64_value: "unat (fold64 s) = fold16 (unat s)"
proof (induction s rule: fold64.induct)
  case (1 s)
  let ?n = "unat s" and ?t = "(s AND 0xffff) + drop_bit 16 s"
  have d: "unat (drop_bit 16 s) = ?n div 65536" by (simp add: drop_bit_eq_div unat_div)
  have "s AND 0xffff = take_bit 16 s" by (simp add: take_bit_eq_mask mask_eq_exp_minus_1)
  then have m: "unat (s AND 0xffff) = ?n mod 65536" by (simp add: take_bit_eq_mod unat_mod)
  show ?case
  proof (cases "drop_bit 16 s = 0")
    case True
    then have "?n div 65536 = 0" using d by simp
    then have "?n < 65536" by simp
    moreover have "fold64 s = s" using True by (subst fold64.simps) simp
    ultimately show ?thesis by (cases "?n = 65535") (auto simp: fold16_def)
  next
    case False
    have "unat ?t < ?n" by (rule fold64_smaller [OF False])
    have "?n < 2 ^ 64" using unat_lt2p [of s] by simp
    then have "?n div 65536 < 2 ^ 48" by (simp add: div_less_iff_less_mult)
    then have "?n mod 65536 + ?n div 65536 < 2 ^ 64" using mod_less_divisor [of 65536 ?n] by simp
    then have t: "unat ?t = ?n div 65536 + ?n mod 65536" by (simp add: unat_word_ariths(1) d m)
    have "alike (unat ?t) ?n" unfolding t by (rule alike_round) simp
    then show ?thesis using 1 [OF False] False alike_fold16 by (subst fold64.simps) simp
  qed
qed

theorem checksum_value: "unat (checksum s b) = fold16 (unat s + wsum b)"
proof -
  obtain s1 b1 where s1: "sum32s (ucast s, 0) b = (s1, b1)" by fastforce
  obtain acc c b2 where s2: "sum8s s1 b1 = ((acc, c), b2)" by (metis prod.exhaust)
  have c0: "carry_ok (ucast s, 0)" by (simp add: carry_ok_def)
  have v0: "value_of (ucast s, 0) = unat s"
    using unat_uint32 [of s] by (simp add: value_of_def unsigned_ucast_eq take_bit_nat_eq_self)
  have a1: "carry_ok s1" "alike (value_of s1 + wsum b1) (unat s + wsum b)" using sum32s_ok [OF c0 s1] v0 by auto
  have a2: "carry_ok (acc, c)" "length b2 < 8" "alike (value_of (acc, c) + wsum b2) (unat s + wsum b)"
    using sum8s_ok [OF a1(1) s2] a1(2) alike_trans by blast+
  let ?v = "value_of (acc, c)" and ?a = "acc + c"
  have v: "unat ?a = ?v" "?v < 2 ^ 64" using a2(1) unat_lt2p [of acc] by (auto simp: carry_ok_def value_of_def unat_word_ariths(1))
  let ?f = "drop_bit 32 ?a + (?a AND 0xffffffff)"
  have d: "unat (drop_bit 32 ?a) = ?v div 4294967296" by (simp add: drop_bit_eq_div unat_div v(1))
  have "?a AND 0xffffffff = take_bit 32 ?a" by (simp add: take_bit_eq_mask mask_eq_exp_minus_1)
  then have m: "unat (?a AND 0xffffffff) = ?v mod 4294967296" by (simp add: take_bit_eq_mod unat_mod v(1))
  have dv: "?v div 4294967296 < 4294967296" using v(2) by (simp add: div_less_iff_less_mult)
  have f: "unat ?f = ?v div 4294967296 + ?v mod 4294967296" "unat ?f < 2 ^ 33"
    using dv mod_less_divisor [of 4294967296 ?v] by (simp_all add: unat_word_ariths(1) d m)
  have "alike (unat ?f) ?v" unfolding f(1) by (rule alike_round) simp
  then have fa: "alike (unat ?f + wsum b2) (unat s + wsum b)" using alike_add a2(3) alike_trans by blast
  have "wsum b2 \<le> 65535 * 4"
  proof -
    let ?c = "if even (length b2) then b2 else b2 @ [0]"
    have "length ?c div 2 \<le> 4" using a2(2) by auto
    then show ?thesis using word_sum_bound [of ?c] by (simp add: wsum_def)
  qed
  then have "unat (sum2s ?f b2) = unat ?f + wsum b2" using f(2) by (intro sum2s_value) simp
  then have "unat (fold64 (sum2s ?f b2)) = fold16 (unat s + wsum b)" using fold64_value alike_fold16 [OF fa] by metis
  moreover have "checksum s b = ucast (fold64 (sum2s ?f b2))" by (simp add: checksum_def s1 s2 Let_def)
  ultimately show ?thesis using fold16_bound [of "unat s + wsum b"] by (simp add: unsigned_ucast_eq take_bit_nat_eq_self)
qed

end
