(* ===== verification/Packet_Laws.thy ===== *)
theory Packet_Laws
  imports Packet_Sum
begin

section \<open>Packets written and read back\<close>

text \<open>
  A segment that the stack writes is one that it reads: header fields, options and payload
  come back, and both checksums hold.
\<close>

subsection \<open>Words in lists of bytes\<close>

lemma be32_put: "push_bit 24 (ucast (ucast (drop_bit 24 w) :: uint8)) OR push_bit 16 (ucast (ucast (drop_bit 16 w) :: uint8))
    OR push_bit 8 (ucast (ucast (drop_bit 8 w) :: uint8)) OR ucast (ucast w :: uint8) = (w :: uint32)"
proof (rule bit_word_eqI)
  fix n :: nat assume n: "n < LENGTH(32)"
  consider "n < 8" | "8 \<le> n" "n < 16" | "16 \<le> n" "n < 24" | "24 \<le> n" by linarith
  then show "bit (push_bit 24 (ucast (ucast (drop_bit 24 w) :: uint8)) OR push_bit 16 (ucast (ucast (drop_bit 16 w) :: uint8))
      OR push_bit 8 (ucast (ucast (drop_bit 8 w) :: uint8)) OR ucast (ucast w :: uint8) :: uint32) n = bit w n"
    using n by cases (auto simp: bit_or_iff bit_push_bit_iff bit_ucast_iff bit_drop_bit_eq)
qed

lemma word_at_put:
  "length xs = i \<Longrightarrow> Uint16_at (xs @ put16 v @ ys) i = v"
  "length xs = i \<Longrightarrow> Uint32_at (xs @ put32 u @ ys) i = u"
proof -
  assume i: "length xs = i"
  have "(xs @ put16 v @ ys) ! i = ucast (drop_bit 8 v)" "(xs @ put16 v @ ys) ! (i + 1) = ucast v"
    using i by (auto simp: put16_def nth_append)
  then show "Uint16_at (xs @ put16 v @ ys) i = v" by (simp add: Uint16_at_def be16_put)
  have "(xs @ put32 u @ ys) ! i = ucast (drop_bit 24 u)" "(xs @ put32 u @ ys) ! (i + 1) = ucast (drop_bit 16 u)"
    "(xs @ put32 u @ ys) ! (i + 2) = ucast (drop_bit 8 u)" "(xs @ put32 u @ ys) ! (i + 3) = ucast u"
    using i by (auto simp: put32_def nth_append)
  then show "Uint32_at (xs @ put32 u @ ys) i = u" by (simp add: Uint32_at_def be32_put)
qed

lemma put_lengths [simp]: "length (put16 v) = 2" "length (put32 u) = 4"
  by (simp_all add: put16_def put32_def)

lemma put_bytes_at:
  assumes "length xs = i"
  shows "PutUint16_at (xs @ a # b # ys) i w = xs @ put16 w @ ys"
  using assms by (simp add: PutUint16_at_def put16_def list_update_append)

subsection \<open>Setting a checksum\<close>

lemma fold16_complement:
  assumes "0 < n"
  shows "fold16 (n + (65535 - fold16 n)) = 65535"
proof -
  define f where "f = fold16 n"
  have f: "f \<le> 65535" unfolding f_def by (rule fold16_bound)
  have "n mod 65535 = f mod 65535" unfolding f_def using assms by (simp add: fold16_def)
  then have "(n + (65535 - f)) mod 65535 = (f + (65535 - f)) mod 65535" by (rule mod_add_cong) (rule refl)
  then have "(n + (65535 - f)) mod 65535 = 0" using f by simp
  then show ?thesis unfolding f_def [symmetric] fold16_def [of "n + (65535 - f)"] using assms by (simp only: if_True if_False add_is_0 simp_thms) simp
qed

lemma be16_00: "be16 0 0 = 0"
  by (simp add: be16_def)

lemma checksum_put:
  assumes "even (length xs)" and "0 < unat s + wsum (xs @ 0 # 0 # ys)"
  shows "checksum s (xs @ put16 (NOT (checksum s (xs @ 0 # 0 # ys))) @ ys) = 0xffff"
proof -
  let ?n = "unat s + wsum (xs @ 0 # 0 # ys)" and ?c = "checksum s (xs @ 0 # 0 # ys)"
  have c: "unat ?c = fold16 ?n" by (rule checksum_value)
  have w: "wsum (xs @ 0 # 0 # ys) = word_sum xs + wsum ys" "wsum (xs @ put16 (NOT ?c) @ ys) = word_sum xs + (65535 - unat ?c) + wsum ys"
    using assms(1) be16_00 by (simp_all add: wsum_def word_sum_append put16_def be16_put unat_not16)
  let ?m = "?n + (65535 - fold16 ?n)"
  have "fold16 ?m = 65535" using assms(2) by (rule fold16_complement)
  moreover have "unat (checksum s (xs @ put16 (NOT ?c) @ ys)) = fold16 ?m"
    unfolding checksum_value w c using w(1) by (simp add: ac_simps)
  ultimately have "unat (checksum s (xs @ put16 (NOT ?c) @ ys)) = unat (0xffff :: uint16)" by simp
  then show ?thesis by (simp only: word_unat_eq_iff)
qed

subsection \<open>Options\<close>

lemma parse_end: "parse_options_loop syn [] p = p"
  by (subst parse_options_loop.simps) simp

lemma parse_nop: "parse_options_loop syn (1 # bs) p = parse_options_loop syn bs p"
  by (subst parse_options_loop.simps) simp

lemma parse_one:
  assumes "k \<noteq> 0" "k \<noteq> 1" "2 \<le> unat n" "length body = unat n - 2"
  shows "parse_options_loop syn (k # n # body @ rest) p = parse_options_loop syn rest (read_option syn k (unat n) body p)"
proof -
  obtain m where m: "unat n = Suc (Suc m)" using assms(3) that [of "unat n - 2"] by simp
  then show ?thesis using assms by (subst parse_options_loop.simps) (simp add: Let_def)
qed

lemma read_block: "read_blocks (block_bytes b @ rest) bs = (if length bs < 4 then read_blocks rest (bs @ [b]) else bs)"
  by (cases b) (simp add: block_bytes_def put32_def Uint32_at_def be32_put)

lemma read_blocks_all: "read_blocks (concat (map block_bytes xs)) bs = bs @ take (4 - length bs) xs"
proof (induction xs arbitrary: bs)
  case (Cons x xs)
  show ?case
  proof (cases "length bs < 4")
    case True
    then have "4 - length bs = Suc (4 - length (bs @ [x]))" by simp
    then show ?thesis using Cons.IH [of "bs @ [x]"] True by (simp add: read_block)
  qed (simp add: read_block)
qed simp

text \<open>What a writer holds, and what each write adds.\<close>

definition ow_ok :: "optWriter \<Rightarrow> bool" where
  "ow_ok w \<longleftrightarrow> length (ow_b w) = maxOptionLen \<and> ow_n w \<le> maxOptionLen"

definition ow_bytes :: "optWriter \<Rightarrow> uint8 list" where
  "ow_bytes w = take (ow_n w) (ow_b w)"

lemma newWriter_ok: "ow_ok newWriter" "ow_bytes newWriter = []"
  by (simp_all add: ow_ok_def ow_bytes_def newWriter_def)

lemma ow_put_ok:
  assumes "ow_ok w" and "length (ow_bytes w) + length bs \<le> maxOptionLen"
  shows "\<exists>w'. ow_put w bs = Some w' \<and> ow_ok w' \<and> ow_bytes w' = ow_bytes w @ bs"
proof -
  have n: "length (ow_bytes w) = ow_n w" using assms(1) by (simp add: ow_ok_def ow_bytes_def)
  then show ?thesis using assms by (auto simp: ow_put_def ow_ok_def ow_bytes_def min_def)
qed

lemma ow_pad_id: "ow_n w mod 4 = 0 \<Longrightarrow> ow_pad w = w"
  by (subst ow_pad.simps) simp

lemma ow_n_bytes: "ow_ok w \<Longrightarrow> ow_n w = length (ow_bytes w)"
  by (simp add: ow_ok_def ow_bytes_def)

lemma synAck_bytes:
  "\<exists>w. synAckOptions v sackOK tsOK wsOK a b = Some w \<and> ow_ok w
    \<and> ow_bytes w = ([2, 4] @ put16 v) @ (if sackOK \<and> tsOK then [4, 2, 8, 10] @ put32 a @ put32 b
         else if tsOK then [1, 1, 8, 10] @ put32 a @ put32 b else if sackOK then [1, 1, 4, 2] else [])
       @ (if wsOK then [1, 3, 3, rcvWindowShft] else [])"
proof -
  let ?m = "[2, 4] @ put16 v" and ?t = "if sackOK \<and> tsOK then [4, 2, 8, 10] @ put32 a @ put32 b
    else if tsOK then [1, 1, 8, 10] @ put32 a @ put32 b else if sackOK then [1, 1, 4, 2] else []"
    and ?w = "if wsOK then [1, 3, 3, rcvWindowShft] else []"
  have l: "length ?m = 4" "length ?t \<le> 12" "length ?w \<le> 4" by auto
  obtain w1 where w1: "ow_put newWriter ?m = Some w1" "ow_ok w1" "ow_bytes w1 = ?m"
    using ow_put_ok [OF newWriter_ok(1), of ?m] l by (auto simp: newWriter_ok maxOptionLen_def)
  obtain w2 where w2: "ow_put w1 ?t = Some w2" "ow_ok w2" "ow_bytes w2 = ?m @ ?t"
    using ow_put_ok [OF w1(2), of ?t] l w1(3) by (auto simp: maxOptionLen_def)
  obtain w3 where w3: "ow_put w2 ?w = Some w3" "ow_ok w3" "ow_bytes w3 = (?m @ ?t) @ ?w"
    using ow_put_ok [OF w2(2), of ?w] l w2(3) by (auto simp: maxOptionLen_def)
  have nil: "ow_put w [] = Some w" if "ow_ok w" for w using that by (simp add: ow_put_def ow_ok_def)
  have "synAckOptions v sackOK tsOK wsOK a b = Some w3"
    using w1 w2 w3 nil by (auto simp: synAckOptions_def ow_mss_def ow_sackPermWithTS_def ow_ts_def ow_sackPerm_def ow_wscale_def split: if_splits)
  then show ?thesis using w3(2,3) by (intro exI [of _ w3]) simp
qed

text \<open>The reader on what the writer produced.\<close>

lemma read_mss: "parse_options_loop True (([2, 4] @ put16 v) @ rest) p = parse_options_loop True rest (p\<lparr>to_mss := v, to_hasMSS := True\<rparr>)"
proof -
  have "parse_options_loop True (2 # 4 # put16 v @ rest) p = parse_options_loop True rest (read_option True 2 (unat (4 :: uint8)) (put16 v) p)"
    by (rule parse_one) simp_all
  then show ?thesis using word_at_put(1) [of "[]" 0 v "[]"] by (simp add: read_option_def)
qed

lemma read_ts:
  "parse_options_loop syn ([8, 10] @ put32 a @ put32 b @ rest) p = parse_options_loop syn rest (p\<lparr>to_hasTS := True, to_tsVal := a, to_tsEcr := b\<rparr>)"
proof -
  have "parse_options_loop syn (8 # 10 # (put32 a @ put32 b) @ rest) p
      = parse_options_loop syn rest (read_option syn 8 (unat (10 :: uint8)) (put32 a @ put32 b) p)"
    by (rule parse_one) simp_all
  then show ?thesis using word_at_put(2) [of "[]" 0 a "put32 b"] word_at_put(2) [of "put32 a" 4 b "[]"] by (simp add: read_option_def)
qed

lemma read_sackPerm: "parse_options_loop True (4 # 2 # rest) p = parse_options_loop True rest (p\<lparr>to_sackOK := True\<rparr>)"
  using parse_one [of 4 2 "[]" True rest p] by (simp add: read_option_def)

lemma read_wscale: "parse_options_loop True (3 # 3 # v # rest) p = parse_options_loop True rest (p\<lparr>to_wscale := min v 14, to_hasWS := True\<rparr>)"
  using parse_one [of 3 3 "[v]" True rest p] by (simp add: read_option_def)

lemma unat_word_of_nat8: "n < 256 \<Longrightarrow> unat (word_of_nat n :: uint8) = n"
  by (simp add: unat_of_nat take_bit_nat_eq_self)

lemma read_sack:
  assumes "length bs \<le> 4" "bs \<noteq> []"
  shows "parse_options_loop False ([5, word_of_nat (2 + 8 * length bs)] @ concat (map block_bytes bs)) (p\<lparr>to_sack := []\<rparr>) = p\<lparr>to_sack := bs\<rparr>"
proof -
  define z :: uint8 where "z = word_of_nat (2 + 8 * length bs)"
  have n: "unat z = 2 + 8 * length bs" unfolding z_def by (rule unat_word_of_nat8) (use assms(1) in simp)
  have len: "length (concat (map block_bytes xs)) = 8 * length xs" for xs by (induction xs) (simp_all add: block_bytes_def)
  have "parse_options_loop False (5 # z # concat (map block_bytes bs) @ []) (p\<lparr>to_sack := []\<rparr>)
      = parse_options_loop False [] (read_option False 5 (unat z) (concat (map block_bytes bs)) (p\<lparr>to_sack := []\<rparr>))"
    using len [of bs] n by (intro parse_one) simp_all
  then show ?thesis unfolding z_def [symmetric] using assms(1) n by (simp add: parse_end read_option_def read_blocks_all)
qed

lemma synAck_read:
  assumes "synAckOptions v sackOK tsOK wsOK a b = Some w"
  shows "ow_ok w" "ow_n w mod 4 = 0"
    "parseOptions (ow_bytes w) True = \<lparr>to_mss = v, to_hasMSS = True, to_wscale = (if wsOK then 7 else 0), to_hasWS = wsOK, to_sackOK = sackOK,
       to_hasTS = tsOK, to_tsVal = (if tsOK then a else 0), to_tsEcr = (if tsOK then b else 0), to_sack = [], to_malformed = False\<rparr>"
proof -
  have w: "ow_ok w" "ow_bytes w = ([2, 4] @ put16 v) @ (if sackOK \<and> tsOK then [4, 2, 8, 10] @ put32 a @ put32 b
         else if tsOK then [1, 1, 8, 10] @ put32 a @ put32 b else if sackOK then [1, 1, 4, 2] else [])
       @ (if wsOK then [1, 3, 3, rcvWindowShft] else [])"
    using synAck_bytes [of v sackOK tsOK wsOK a b] assms by auto
  show "ow_ok w" by (rule w(1))
  show "ow_n w mod 4 = 0" unfolding ow_n_bytes [OF w(1)] w(2) by simp
  note rd = read_mss parse_nop read_wscale read_sackPerm parse_end read_ts [where rest = "[]", simplified] read_ts [where rest = "1 # r" for r, simplified]
  show "parseOptions (ow_bytes w) True = \<lparr>to_mss = v, to_hasMSS = True, to_wscale = (if wsOK then 7 else 0), to_hasWS = wsOK, to_sackOK = sackOK,
       to_hasTS = tsOK, to_tsVal = (if tsOK then a else 0), to_tsEcr = (if tsOK then b else 0), to_sack = [], to_malformed = False\<rparr>"
    unfolding parseOptions_def w(2) read_mss
    by (cases sackOK; cases tsOK; cases wsOK) (simp_all add: rd noOptions_def rcvWindowShft_def)
qed

lemma segment_read:
  shows "\<exists>w. segmentOptions tsOK a b sack blocks = Some w \<and> ow_ok w \<and> ow_n w mod 4 = 0
    \<and> parseOptions (ow_bytes w) False = noOptions\<lparr>to_hasTS := tsOK, to_tsVal := (if tsOK then a else 0), to_tsEcr := (if tsOK then b else 0),
        to_sack := (if sack then take (if tsOK then 3 else 4) blocks else [])\<rparr>"
proof -
  let ?t = "if tsOK then [1, 1, 8, 10] @ put32 a @ put32 b else []"
  let ?o = "noOptions\<lparr>to_hasTS := tsOK, to_tsVal := (if tsOK then a else 0), to_tsEcr := (if tsOK then b else 0)\<rparr>"
  have lt: "length ?t \<le> 12" by simp
  obtain w1 where w1: "ow_put newWriter ?t = Some w1" "ow_ok w1" "ow_bytes w1 = ?t"
    using ow_put_ok [OF newWriter_ok(1), of ?t] lt by (auto simp: newWriter_ok maxOptionLen_def)
  have nil: "ow_put w [] = Some w" if "ow_ok w" for w using that by (simp add: ow_put_def ow_ok_def)
  have first: "(if tsOK then ow_ts newWriter a b else Some newWriter) = Some w1"
    using w1(1) nil [OF newWriter_ok(1)] by (auto simp: ow_ts_def)
  have n1: "ow_n w1 = (if tsOK then 12 else 0)" unfolding ow_n_bytes [OF w1(2)] w1(3) by simp
  have ts: "parse_options_loop False (?t @ rest) noOptions = parse_options_loop False rest ?o" for rest
    using read_ts [of False a b rest noOptions] by (simp add: parse_nop noOptions_def)
  define n where "n = min ((maxOptionLen - ow_n w1 - 4) div 8) (length blocks)"
  have n: "n = min (if tsOK then 3 else 4) (length blocks)" using n1 by (simp add: n_def maxOptionLen_def)
  show ?thesis
  proof (cases "sack \<and> n \<noteq> 0")
    case False
    then have s: "(if sack then map_option fst (ow_sack w1 blocks) else Some w1) = Some w1"
      by (auto simp: ow_sack_def n_def Let_def)
    have "segmentOptions tsOK a b sack blocks = Some w1" using ow_pad_id [of w1] n1 by (simp add: segmentOptions_def first s)
    moreover have "take (if tsOK then 3 else 4) blocks = []" if sack using False that n by (auto simp: min_def split: if_splits)
    moreover have "parseOptions (ow_bytes w1) False = ?o" using ts [of "[]"] by (simp add: parseOptions_def w1(3) parse_end)
    ultimately show ?thesis using w1(2) n1 by (intro exI [of _ w1]) (auto simp: noOptions_def)
  next
    case True
    let ?bs = "take n blocks"
    let ?s = "[1, 1, 5, word_of_nat (2 + 8 * n)] @ concat (map block_bytes ?bs)"
    have lb: "length ?bs = n" by (simp add: n)
    have n4: "n \<le> 4" unfolding n by (auto simp: min_le_iff_disj)
    have bsne: "?bs \<noteq> []" using lb True by auto
    have len: "length (concat (map block_bytes xs)) = 8 * length xs" for xs by (induction xs) (simp_all add: block_bytes_def)
    have fits: "length (ow_bytes w1) + length ?s \<le> maxOptionLen"
      unfolding w1(3) using len [of ?bs] lb n by (auto simp: maxOptionLen_def)
    obtain w2 where w2: "ow_put w1 ?s = Some w2" "ow_ok w2" "ow_bytes w2 = ?t @ ?s" using ow_put_ok [OF w1(2) fits] w1(3) by auto
    have n2: "ow_n w2 mod 4 = 0" unfolding ow_n_bytes [OF w2(2)] w2(3) using len [of ?bs] lb by auto
    have "n \<noteq> 0" using True by blast
    then have "ow_sack w1 blocks = map_option (\<lambda>w. (w, n)) (ow_put w1 ?s)"
      unfolding ow_sack_def Let_def n_def [symmetric] by (simp only: if_False)
    then have s: "(if sack then map_option fst (ow_sack w1 blocks) else Some w1) = Some w2" unfolding w2(1) using True by simp
    have "segmentOptions tsOK a b sack blocks = Some w2" using ow_pad_id [OF n2] by (simp add: segmentOptions_def first s)
    moreover have "parseOptions (ow_bytes w2) False = ?o\<lparr>to_sack := ?bs\<rparr>"
      unfolding parseOptions_def w2(3) ts using read_sack [of ?bs ?o] n4 lb bsne by (simp add: parse_nop noOptions_def)
    moreover have "?bs = take (if tsOK then 3 else 4) blocks" unfolding n by (simp add: min_def)
    ultimately show ?thesis using w2(2) n2 True by (intro exI [of _ w2]) simp
  qed
qed

subsection \<open>Headers\<close>

definition ip_head :: "uint16 \<Rightarrow> uint16 \<Rightarrow> uint32 \<Rightarrow> uint32 \<Rightarrow> uint16 \<Rightarrow> uint8 list" where
  "ip_head tot ident src dst c = ([0x45, 0] @ put16 tot @ put16 ident @ put16 0x4000 @ [defaultTTL, protoTCP]) @ put16 c @ (put32 src @ put32 dst)"

definition tcp_head :: "tcpHeader \<Rightarrow> nat \<Rightarrow> uint16 \<Rightarrow> uint8 list" where
  "tcp_head h thl c = (put16 (tu_lport (th_tup h)) @ put16 (tu_rport (th_tup h)) @ put32 (th_seq h) @ put32 (th_ack h)
     @ [push_bit 4 (word_of_nat (thl div 4)), th_flags h] @ put16 (th_wnd h)) @ put16 c @ [0, 0]"

lemma head_lengths [simp]: "length (ip_head tot ident src dst c) = 20" "length (tcp_head h thl c) = 20"
  by (simp_all add: ip_head_def tcp_head_def)

lemma put16_0: "put16 0 = [0, 0]"
  by (simp add: put16_def)

text \<open>Fields of the headers.\<close>

lemma ip_head_fields:
  "(ip_head tot ident src dst c @ r) ! 0 = 0x45" "Uint16_at (ip_head tot ident src dst c @ r) 2 = tot"
  "Uint16_at (ip_head tot ident src dst c @ r) 6 = 0x4000" "(ip_head tot ident src dst c @ r) ! 9 = protoTCP"
  "Uint32_at (ip_head tot ident src dst c @ r) 12 = src" "Uint32_at (ip_head tot ident src dst c @ r) 16 = dst"
proof -
  let ?h = "ip_head tot ident src dst c @ r"
  show "?h ! 0 = 0x45" "Uint16_at ?h 2 = tot" "?h ! 9 = protoTCP" "Uint32_at ?h 12 = src" "Uint32_at ?h 16 = dst"
    by (simp_all add: ip_head_def put16_def put32_def Uint16_at_def Uint32_at_def be16_put be32_put)
  show "Uint16_at ?h 6 = 0x4000" by (simp add: ip_head_def put16_def Uint16_at_def be16_def)
qed

lemma tcp_head_fields:
  "Uint16_at (tcp_head h thl c @ r) 0 = tu_lport (th_tup h)" "Uint16_at (tcp_head h thl c @ r) 2 = tu_rport (th_tup h)"
  "Uint32_at (tcp_head h thl c @ r) 4 = th_seq h" "Uint32_at (tcp_head h thl c @ r) 8 = th_ack h"
  "(tcp_head h thl c @ r) ! 12 = push_bit 4 (word_of_nat (thl div 4))" "(tcp_head h thl c @ r) ! 13 = th_flags h"
  "Uint16_at (tcp_head h thl c @ r) 14 = th_wnd h"
  by (simp_all add: tcp_head_def put16_def put32_def Uint16_at_def Uint32_at_def be16_put be32_put)

definition opts_bytes :: "optWriter option \<Rightarrow> uint8 list" where
  "opts_bytes opts = (case opts of None \<Rightarrow> [] | Some w \<Rightarrow> ow_bytes w)"

definition opts_ok :: "optWriter option \<Rightarrow> bool" where
  "opts_ok opts = (case opts of None \<Rightarrow> True | Some w \<Rightarrow> ow_ok w \<and> ow_n w mod 4 = 0)"

lemma opts_length:
  assumes "opts_ok opts"
  shows "length (opts_bytes opts) \<le> 40" "length (opts_bytes opts) mod 4 = 0" "map_option ow_pad opts = opts"
    "(case opts of None \<Rightarrow> 0 | Some w \<Rightarrow> ow_n w) = length (opts_bytes opts)"
    "(case opts of None \<Rightarrow> [] | Some w \<Rightarrow> take (length (opts_bytes opts)) (ow_b w)) = opts_bytes opts"
  using assms by (auto simp: opts_ok_def opts_bytes_def ow_n_bytes [symmetric] ow_pad_id ow_ok_def ow_bytes_def maxOptionLen_def split: option.splits)

definition ip_sum :: "uint16 \<Rightarrow> uint16 \<Rightarrow> uint32 \<Rightarrow> uint32 \<Rightarrow> uint16" where
  "ip_sum tot ident src dst = NOT (checksum 0 (ip_head tot ident src dst 0))"

lemma write_ip:
  assumes "20 \<le> length b"
  shows "writeIPv4Header b n ident protoTCP src dst
    = Some (ip_head (word_of_nat n) ident src dst (ip_sum (word_of_nat n) ident src dst) @ drop 20 b)"
proof -
  let ?xs = "[0x45, 0] @ put16 (word_of_nat n) @ put16 ident @ put16 0x4000 @ [defaultTTL, protoTCP]" and ?ys = "put32 src @ put32 dst"
  have h: "[0x45, 0] @ put16 (word_of_nat n) @ put16 ident @ put16 0x4000 @ [defaultTTL, protoTCP, 0, 0] @ put32 src @ put32 dst = ?xs @ 0 # 0 # ?ys"
    by simp
  have z: "ip_head (word_of_nat n) ident src dst 0 = ?xs @ 0 # 0 # ?ys" by (simp add: ip_head_def put16_0)
  have "PutUint16_at (?xs @ 0 # 0 # ?ys) 10 w = ?xs @ put16 w @ ?ys" for w by (rule put_bytes_at) simp
  then show ?thesis using assms unfolding writeIPv4Header_def Let_def h z [symmetric] ip_sum_def
    by (simp add: ip_head_def ipHeaderLen_def)
qed

lemma writeTCP_bytes:
  fixes n :: nat and h :: tcpHeader
  assumes "opts_ok opts" and "40 + length (opts_bytes opts) \<le> length b"
  defines "ol \<equiv> length (opts_bytes opts)"
  defines "tot \<equiv> word_of_nat (40 + ol + n) :: uint16"
  defines "t \<equiv> th_tup h"
  shows "writeTCP b ident h opts n
    = Some (ip_head tot ident (tu_laddr t) (tu_raddr t) (ip_sum tot ident (tu_laddr t) (tu_raddr t)) @ tcp_head h (20 + ol) 0
        @ opts_bytes opts @ drop (40 + ol) b, 40 + ol, opts)"
proof -
  note o = opts_length [OF assms(1)]
  let ?H = "ip_head tot ident (tu_laddr t) (tu_raddr t) (ip_sum tot ident (tu_laddr t) (tu_raddr t))"
  let ?head = "put16 (tu_lport t) @ put16 (tu_rport t) @ put32 (th_seq h) @ put32 (th_ack h)
     @ [push_bit 4 (word_of_nat ((20 + ol) div 4)), th_flags h] @ put16 (th_wnd h) @ [0, 0, 0, 0]"
  have head: "?head = tcp_head h (20 + ol) 0" by (simp add: tcp_head_def put16_0 t_def)
  have l: "length b \<ge> 40 + ol" using assms(2) by (simp add: ol_def)
  have w: "writeIPv4Header b (20 + (20 + ol) + n) ident protoTCP (tu_laddr t) (tu_raddr t) = Some (?H @ drop 20 b)"
    using write_ip [of b "20 + (20 + ol) + n"] l by (simp add: tot_def ac_simps)
  have c1: "take 20 (?H @ drop 20 b) @ ?head @ drop (20 + 20) (?H @ drop 20 b) = ?H @ tcp_head h (20 + ol) 0 @ drop 40 b"
    by (simp add: head [symmetric])
  have lo: "length (?H @ tcp_head h (20 + ol) 0 @ drop 40 b) - (20 + 20) \<ge> ol" using l by simp
  have c2: "take (20 + 20) (?H @ tcp_head h (20 + ol) 0 @ drop 40 b) @ opts_bytes opts
      @ drop (20 + 20 + length (opts_bytes opts)) (?H @ tcp_head h (20 + ol) 0 @ drop 40 b)
      = ?H @ tcp_head h (20 + ol) 0 @ opts_bytes opts @ drop (40 + ol) b"
    by (simp add: ol_def [symmetric] add.commute [of ol])
  have tk: "take (length (?H @ tcp_head h (20 + ol) 0 @ drop 40 b) - (20 + 20)) (opts_bytes opts) = opts_bytes opts"
    using lo by (simp add: ol_def)
  show ?thesis
    unfolding writeTCP_def Let_def o(3) o(4) ol_def [symmetric] header_lens t_def [symmetric] w
    using l by (simp only: option.case c1 o(5) [folded ol_def] tk c2) simp
qed

subsection \<open>The round trip\<close>

lemma word_sum_pos: "even (length xs) \<Longrightarrow> unat (be16 a b) > 0 \<Longrightarrow> 0 < wsum (xs @ a # b # ys)"
  by (simp add: wsum_append) (simp add: wsum_def)

lemma nibble:
  assumes "k < 16"
  shows "unat (drop_bit 4 (push_bit 4 (word_of_nat k :: uint8))) = k" "push_bit 4 (word_of_nat k :: uint8) = 0 \<longleftrightarrow> k = 0"
proof -
  have u: "unat (push_bit 4 (word_of_nat k :: uint8)) = 16 * k"
    using assms by (simp add: push_bit_eq_mult unat_word_ariths(2) unat_word_of_nat8)
  show "unat (drop_bit 4 (push_bit 4 (word_of_nat k :: uint8))) = k" by (simp add: drop_bit_eq_div unat_div u)
  show "push_bit 4 (word_of_nat k :: uint8) = 0 \<longleftrightarrow> k = 0" using u by (metis mult_eq_0_iff unat_eq_zero zero_neq_numeral)
qed

lemma ip_sum_ok: "checksum 0 (ip_head tot ident src dst (ip_sum tot ident src dst)) = 0xffff"
proof -
  let ?xs = "[0x45, 0] @ put16 tot @ put16 ident @ put16 0x4000 @ [defaultTTL, protoTCP]" and ?ys = "put32 src @ put32 dst"
  have "0 < wsum ([] @ 0x45 # 0 # (put16 tot @ put16 ident @ put16 0x4000 @ [defaultTTL, protoTCP] @ 0 # 0 # ?ys))"
    by (rule word_sum_pos) (simp_all add: be16_def)
  then have "checksum 0 (?xs @ put16 (NOT (checksum 0 (?xs @ 0 # 0 # ?ys))) @ ?ys) = 0xffff" by (intro checksum_put) simp_all
  then show ?thesis by (simp add: ip_sum_def ip_head_def put16_0)
qed

definition tcp_sum :: "uint32 \<Rightarrow> uint32 \<Rightarrow> uint8 list \<Rightarrow> uint16" where
  "tcp_sum src dst t = NOT (checksum (pseudoSum src dst protoTCP (length t)) t)"

lemma tcp_sum_ok:
  assumes "20 \<le> thl" "thl \<le> 60"
  shows "checksum (pseudoSum src dst protoTCP (20 + length r))
    (tcp_head h thl (tcp_sum src dst (tcp_head h thl 0 @ r)) @ r) = 0xffff"
proof -
  let ?xs = "put16 (tu_lport (th_tup h)) @ put16 (tu_rport (th_tup h)) @ put32 (th_seq h) @ put32 (th_ack h)
     @ [push_bit 4 (word_of_nat (thl div 4)), th_flags h] @ put16 (th_wnd h)"
  let ?s = "pseudoSum src dst protoTCP (20 + length r)" and ?f = "push_bit 4 (word_of_nat (thl div 4)) :: uint8"
  have "?f \<noteq> 0" using nibble(2) [of "thl div 4"] assms by simp
  then have "0 < unat (be16 ?f (th_flags h))" unfolding unat_be16 by (simp add: unat_gt_0)
  then have "0 < wsum ((put16 (tu_lport (th_tup h)) @ put16 (tu_rport (th_tup h)) @ put32 (th_seq h) @ put32 (th_ack h))
      @ ?f # th_flags h # (put16 (th_wnd h) @ 0 # 0 # [0, 0] @ r))" by (intro word_sum_pos) simp_all
  then have "checksum ?s (?xs @ put16 (NOT (checksum ?s (?xs @ 0 # 0 # ([0, 0] @ r)))) @ ([0, 0] @ r)) = 0xffff"
    by (intro checksum_put) simp_all
  then show ?thesis by (simp add: tcp_sum_def tcp_head_def put16_0)
qed

lemma finishTCP_bytes:
  assumes n: "length r = n" "40 + n < 65536"
  defines "tot \<equiv> word_of_nat (40 + n) :: uint16"
  shows "finishTCP (ip_head tot ident src dst c @ tcp_head h thl 0 @ r @ rest)
    = Some (ip_head tot ident src dst c @ tcp_head h thl (tcp_sum src dst (tcp_head h thl 0 @ r)) @ r @ rest, 40 + n)"
proof -
  let ?H = "ip_head tot ident src dst c" and ?T = "tcp_head h thl 0"
  let ?b = "?H @ ?T @ r @ rest"
  have tot: "unat tot = 40 + n" unfolding tot_def using n by (simp add: unat_word_of_nat16 del: of_nat_add)
  have t: "drop 20 (take (40 + n) ?b) = ?T @ r" using n by simp
  have put: "PutUint16_at ?b (20 + 16) w = ?H @ tcp_head h thl w @ r @ rest" for w
  proof -
    let ?xs = "put16 (tu_lport (th_tup h)) @ put16 (tu_rport (th_tup h)) @ put32 (th_seq h) @ put32 (th_ack h)
     @ [push_bit 4 (word_of_nat (thl div 4)), th_flags h] @ put16 (th_wnd h)"
    have "PutUint16_at ((?H @ ?xs) @ 0 # 0 # ([0, 0] @ r @ rest)) 36 w = (?H @ ?xs) @ put16 w @ ([0, 0] @ r @ rest)" by (rule put_bytes_at) simp
    then show ?thesis by (simp add: tcp_head_def put16_0)
  qed
  have l: "length ?b \<ge> 40 + n" using n by simp
  show ?thesis unfolding finishTCP_def Let_def header_lens ip_head_fields tot t put
    using l by (simp add: tcp_sum_def)
qed

text \<open>A segment as the code sends it: headers, payload, then the checksum.\<close>

definition sent_segment :: "uint8 list \<Rightarrow> uint16 \<Rightarrow> tcpHeader \<Rightarrow> optWriter option \<Rightarrow> uint8 list \<Rightarrow> (uint8 list \<times> nat) option" where
  "sent_segment b ident h opts payload =
     (case writeTCP b ident h opts (length payload) of
        None \<Rightarrow> None
      | Some (b, off, _) \<Rightarrow> finishTCP (take off b @ payload @ drop (off + length payload) b))"

text \<open>The tuple of the receiver.\<close>

definition other_side :: "tuple \<Rightarrow> tuple" where
  "other_side t = \<lparr>tu_laddr = tu_raddr t, tu_raddr = tu_laddr t, tu_lport = tu_rport t, tu_rport = tu_lport t\<rparr>"

lemma segment_roundtrip:
  assumes o: "opts_ok opts" and fits: "40 + length (opts_bytes opts) + length p \<le> length b" "40 + length (opts_bytes opts) + length p < 65536"
  shows "\<exists>b' n ip. sent_segment b ident h opts p = Some (b', n) \<and> n = 40 + length (opts_bytes opts) + length p \<and> length b' = length b
    \<and> parseIPv4_packet b' = Inr ip \<and> \<not> ip_fragment ip \<and> ip_proto ip = protoTCP
    \<and> parseTCP ip = Inr \<lparr>sg_tup = other_side (th_tup h), sg_seq = th_seq h, sg_ack = th_ack h, sg_flags = th_flags h, sg_wnd = th_wnd h,
         sg_opt = parseOptions (opts_bytes opts) ((th_flags h AND flagSYN) \<noteq> 0), sg_payload = p\<rparr>"
proof -
  let ?o = "opts_bytes opts" and ?t = "th_tup h"
  let ?ol = "length ?o"
  let ?n = "?ol + length p"
  let ?src = "tu_laddr ?t" and ?dst = "tu_raddr ?t"
  define tot where "tot = (word_of_nat (40 + ?n) :: uint16)"
  note ol = opts_length(1,2) [OF o]
  have tot: "unat tot = 40 + ?n" unfolding tot_def using fits(2) by (simp add: unat_word_of_nat16 del: of_nat_add)
  let ?H = "ip_head tot ident ?src ?dst (ip_sum tot ident ?src ?dst)" and ?r = "?o @ p" and ?rest = "drop (40 + ?n) b"
  let ?c = "tcp_sum ?src ?dst (tcp_head h (20 + ?ol) 0 @ ?r)"
  let ?T = "tcp_head h (20 + ?ol) ?c"
  have w: "writeTCP b ident h opts (length p) = Some (?H @ tcp_head h (20 + ?ol) 0 @ ?o @ drop (40 + ?ol) b, 40 + ?ol, opts)"
    using writeTCP_bytes [OF o, of b ident h "length p"] fits(1) by (simp add: tot_def ac_simps)
  have "take (40 + ?ol) (?H @ tcp_head h (20 + ?ol) 0 @ ?o @ drop (40 + ?ol) b) @ p
      @ drop (40 + ?ol + length p) (?H @ tcp_head h (20 + ?ol) 0 @ ?o @ drop (40 + ?ol) b) = ?H @ tcp_head h (20 + ?ol) 0 @ ?r @ ?rest"
    using fits(1) by (simp add: ac_simps)
  moreover have "finishTCP (?H @ tcp_head h (20 + ?ol) 0 @ ?r @ ?rest) = Some (?H @ ?T @ ?r @ ?rest, 40 + ?n)"
    unfolding tot_def by (rule finishTCP_bytes) (use fits(2) in simp_all)
  ultimately have s: "sent_segment b ident h opts p = Some (?H @ ?T @ ?r @ ?rest, 40 + ?n)" by (simp add: sent_segment_def w)
  let ?b = "?H @ ?T @ ?r @ ?rest" and ?ip = "\<lparr>ip_src = ?src, ip_dst = ?dst, ip_proto = protoTCP, ip_hlen = 20, ip_fragment = False,
      ip_payload = ?T @ ?r, ip_header = ?H\<rparr>"
  have cut: "take (40 + ?n) ?b = ?H @ ?T @ ?r" by simp
  have ip: "parseIPv4_packet ?b = Inr ?ip"
  proof -
    have b0: "drop_bit 4 (0x45 :: uint8) = 4" "unat (0x45 AND 0x0f :: uint8) * 4 = 20" "(0x4000 AND 0x3fff :: uint16) = 0" by simp_all
    have l: "length ?b = 40 + ?n + length ?rest" by simp
    show ?thesis unfolding parseIPv4_packet_def Let_def ip_head_fields header_lens b0 tot cut using l ip_sum_ok [of tot ident ?src ?dst]
      by simp
  qed
  have seg: "parseTCP ?ip = Inr \<lparr>sg_tup = other_side ?t, sg_seq = th_seq h, sg_ack = th_ack h, sg_flags = th_flags h, sg_wnd = th_wnd h,
         sg_opt = parseOptions ?o ((th_flags h AND flagSYN) \<noteq> 0), sg_payload = p\<rparr>"
  proof -
    have "(20 + ?ol) div 4 < 16" using ol(1) by simp
    then have off: "unat (drop_bit 4 (push_bit 4 (word_of_nat ((20 + ?ol) div 4) :: uint8))) * 4 = 20 + ?ol"
      using nibble(1) [of "(20 + ?ol) div 4"] ol(2) by auto
    have ck: "checksum (pseudoSum ?src ?dst protoTCP (length (?T @ ?r))) (?T @ ?r) = 0xffff"
      using tcp_sum_ok [of "20 + ?ol" ?src ?dst ?r h] ol(1) by simp
    show ?thesis unfolding parseTCP_def Let_def ipv4.simps tcp_head_fields header_lens off ck
      by (simp add: other_side_def)
  qed
  show ?thesis using s ip seg fits(1) by (intro exI [of _ ?b] exI [of _ "40 + ?n"] exI [of _ ?ip]) simp
qed

subsection \<open>What a reader returns\<close>

definition options_wf :: "bool \<Rightarrow> tcpOptions \<Rightarrow> bool" where
  "options_wf syn p \<longleftrightarrow> to_wscale p \<le> 14 \<and> length (to_sack p) \<le> 4
     \<and> (syn \<longrightarrow> to_sack p = []) \<and> (\<not> syn \<longrightarrow> \<not> to_hasMSS p \<and> \<not> to_hasWS p \<and> \<not> to_sackOK p)"

lemma read_blocks_length: "length bs \<le> 4 \<Longrightarrow> length (read_blocks b bs) \<le> 4"
  by (induction b bs rule: read_blocks.induct) auto

lemma read_option_wf: "options_wf syn p \<Longrightarrow> options_wf syn (read_option syn k n body p)"
  using read_blocks_length [of "to_sack p" body] by (auto simp: options_wf_def read_option_def)

lemma parse_loop_wf: "options_wf syn p \<Longrightarrow> options_wf syn (parse_options_loop syn b p)"
proof (induction syn b p rule: parse_options_loop.induct)
  case (1 syn b p)
  have m: "options_wf syn (p\<lparr>to_malformed := True\<rparr>)" using "1.prems" by (simp add: options_wf_def)
  note r = read_option_wf [OF "1.prems"]
  show ?case
    by (subst parse_options_loop.simps) (use 1 m r in \<open>auto simp: Let_def\<close>)
qed

lemma parseOptions_wf: "options_wf syn (parseOptions b syn)"
  unfolding parseOptions_def by (rule parse_loop_wf) (simp add: options_wf_def noOptions_def)

lemma parseIPv4_wf:
  assumes "parseIPv4_packet b = Inr ip"
  shows "20 \<le> ip_hlen ip \<and> ip_hlen ip \<le> 60 \<and> length (ip_header ip) = ip_hlen ip \<and> (\<exists>n \<le> length b. ip_header ip @ ip_payload ip = take n b)"
proof -
  let ?h = "unat (b ! 0 AND 0x0f) * 4" and ?n = "unat (Uint16_at b 2)"
  have c: "20 \<le> ?h" "?h \<le> ?n" "?n \<le> length b" "ip_hlen ip = ?h" "ip_header ip = take ?h (take ?n b)" "ip_payload ip = drop ?h (take ?n b)"
    using assms by (auto simp: parseIPv4_packet_def Let_def ipHeaderLen_def split: if_splits)
  have "b ! 0 AND 0x0f = take_bit 4 (b ! 0)" by (simp add: take_bit_eq_mask mask_eq_exp_minus_1)
  then have "unat (b ! 0 AND 0x0f) = unat (b ! 0) mod 16" by (simp add: take_bit_eq_mod unat_mod)
  then have "unat (b ! 0 AND 0x0f) \<le> 15" using mod_less_divisor [of 16 "unat (b ! 0)"] by simp
  then have "?h \<le> 60" by simp
  moreover have "ip_header ip @ ip_payload ip = take ?n b" unfolding c(5,6) by (rule append_take_drop_id)
  moreover have "length (ip_header ip) = ?h" unfolding c(5) using c(2,3) by simp
  ultimately show ?thesis using c(1,3) unfolding c(4) by blast
qed

end
