(* ===== verification/Packet_Properties.thy ===== *)
theory Packet_Properties
  imports Packet_Laws
begin

section \<open>Properties of packets\<close>

text \<open>
  The checksum against its definition, segments and their options written and read back, and
  what the readers guarantee of whatever bytes come from the tunnel.
\<close>

subsection \<open>The checksum\<close>

text \<open>C35. The checksum is the Internet checksum. Adding eight bytes at a time with the carry going round gives, for every start value
  and every number of bytes, what adding the big-endian 16-bit words (an odd last byte as the high one) and folding the sum to 16 bits gives.\<close>

theorem checksum_reference: "unat (checksum s b) = fold16 (unat s + wsum b)"
  by (rule checksum_value)

subsection \<open>Segments\<close>

text \<open>C7. A sent segment is read back. What is written for a header, options and a payload that fit the buffer and 65535 bytes passes the
  checks of the reader, including both checksums, as an unfragmented TCP packet, and gives the same fields, the tuple seen from the other
  side, the options read from the written bytes, and exactly the payload.\<close>

theorem segment_read_back:
  assumes "opts_ok opts" and "40 + length (opts_bytes opts) + length p \<le> length b" and "40 + length (opts_bytes opts) + length p < 65536"
  shows "\<exists>b' n ip. sent_segment b ident h opts p = Some (b', n) \<and> n = 40 + length (opts_bytes opts) + length p \<and> length b' = length b
    \<and> parseIPv4_packet b' = Inr ip \<and> \<not> ip_fragment ip \<and> ip_proto ip = protoTCP
    \<and> parseTCP ip = Inr \<lparr>sg_tup = other_side (th_tup h), sg_seq = th_seq h, sg_ack = th_ack h, sg_flags = th_flags h, sg_wnd = th_wnd h,
         sg_opt = parseOptions (opts_bytes opts) ((th_flags h AND flagSYN) \<noteq> 0), sg_payload = p\<rparr>"
  by (rule segment_roundtrip [OF assms])

definition sample_header :: tcpHeader where
  "sample_header = \<lparr>th_tup = \<lparr>tu_laddr = 0x0a000001, tu_raddr = 0x0a000002, tu_lport = 443, tu_rport = 50000\<rparr>,
     th_seq = 1000, th_ack = 2000, th_flags = 0x18, th_wnd = 512\<rparr>"

theorem segment_read_back_witness:
  "\<exists>b' n ip s. sent_segment (replicate 1500 0) 7 sample_header None [1, 2, 3] = Some (b', n) \<and> n = 43
    \<and> parseIPv4_packet b' = Inr ip \<and> parseTCP ip = Inr s \<and> sg_payload s = [1, 2, 3] \<and> tu_rport (sg_tup s) = 443"
proof -
  have "opts_ok None" "opts_bytes None = []" by (simp_all add: opts_ok_def opts_bytes_def)
  then show ?thesis using segment_read_back [of None "[1, 2, 3]" "replicate 1500 0" 7 sample_header]
    by (auto simp: other_side_def sample_header_def)
qed

text \<open>Options are read back. The options the stack puts on a SYN-ACK, in any combination of what was negotiated, fit the header and
  are read as exactly those values; the options of a data segment are the timestamp and as many SACK blocks, from the first on, as fit.\<close>

theorem options_read_back:
  "(\<exists>w. synAckOptions mss sackOK tsOK wsOK a b = Some w \<and> opts_ok (Some w)
      \<and> parseOptions (opts_bytes (Some w)) True = \<lparr>to_mss = mss, to_hasMSS = True, to_wscale = (if wsOK then 7 else 0), to_hasWS = wsOK,
           to_sackOK = sackOK, to_hasTS = tsOK, to_tsVal = (if tsOK then a else 0), to_tsEcr = (if tsOK then b else 0), to_sack = [],
           to_malformed = False\<rparr>)
   \<and> (\<exists>w. segmentOptions tsOK a b sack blocks = Some w \<and> opts_ok (Some w)
      \<and> parseOptions (opts_bytes (Some w)) False = noOptions\<lparr>to_hasTS := tsOK, to_tsVal := (if tsOK then a else 0),
           to_tsEcr := (if tsOK then b else 0), to_sack := (if sack then take (if tsOK then 3 else 4) blocks else [])\<rparr>)"
proof
  obtain w where w: "synAckOptions mss sackOK tsOK wsOK a b = Some w" using synAck_bytes [of mss sackOK tsOK wsOK a b] by blast
  show "\<exists>w. synAckOptions mss sackOK tsOK wsOK a b = Some w \<and> opts_ok (Some w)
      \<and> parseOptions (opts_bytes (Some w)) True = \<lparr>to_mss = mss, to_hasMSS = True, to_wscale = (if wsOK then 7 else 0), to_hasWS = wsOK,
           to_sackOK = sackOK, to_hasTS = tsOK, to_tsVal = (if tsOK then a else 0), to_tsEcr = (if tsOK then b else 0), to_sack = [],
           to_malformed = False\<rparr>"
    using w synAck_read [OF w] by (simp add: opts_ok_def opts_bytes_def)
  show "\<exists>w. segmentOptions tsOK a b sack blocks = Some w \<and> opts_ok (Some w)
      \<and> parseOptions (opts_bytes (Some w)) False = noOptions\<lparr>to_hasTS := tsOK, to_tsVal := (if tsOK then a else 0),
           to_tsEcr := (if tsOK then b else 0), to_sack := (if sack then take (if tsOK then 3 else 4) blocks else [])\<rparr>"
    using segment_read [of tsOK a b sack blocks] by (simp add: opts_ok_def opts_bytes_def)
qed

text \<open>C36. What is read is well formed, whatever the bytes. An accepted packet has a header of 20 to 60 bytes, and header and payload are
  together a prefix of the bytes; the TCP header has the length its data offset says, at least 20 bytes and inside the packet, and the payload is what follows it; the options of any segment have a window scale of at most 14 and at most four SACK blocks, blocks come only
  from segments without SYN, and the options of a handshake only from segments with SYN.\<close>

theorem parsed_well_formed:
  assumes "parseIPv4_packet b = Inr ip" and "parseTCP ip = Inr s"
  shows "20 \<le> ip_hlen ip \<and> ip_hlen ip \<le> 60 \<and> length (ip_header ip) = ip_hlen ip \<and> (\<exists>n \<le> length b. ip_header ip @ ip_payload ip = take n b)
    \<and> suffix (sg_payload s) (ip_payload ip) \<and> length (sg_payload s) + 20 \<le> length (ip_payload ip)
    \<and> (let thl = 4 * unat (drop_bit 4 (ip_payload ip ! 12))
       in 20 \<le> thl \<and> thl \<le> length (ip_payload ip) \<and> sg_payload s = drop thl (ip_payload ip))
    \<and> options_wf (seg_has s flagSYN) (sg_opt s)"
proof -
  have "suffix (sg_payload s) (ip_payload ip) \<and> length (sg_payload s) + 20 \<le> length (ip_payload ip)
      \<and> (let thl = 4 * unat (drop_bit 4 (ip_payload ip ! 12))
         in 20 \<le> thl \<and> thl \<le> length (ip_payload ip) \<and> sg_payload s = drop thl (ip_payload ip))
      \<and> sg_opt s = parseOptions (drop 20 (take (unat (drop_bit 4 (ip_payload ip ! 12)) * 4) (ip_payload ip))) (seg_has s flagSYN)"
    using assms(2) by (auto simp: parseTCP_def Let_def tcpHeaderLen_def seg_has_def suffix_drop mult.commute split: if_splits)
  then show ?thesis using parseIPv4_wf [OF assms(1)] parseOptions_wf by metis
qed

theorem parsed_well_formed_witness:
  "\<exists>b ip s. parseIPv4_packet b = Inr ip \<and> parseTCP ip = Inr s \<and> ip_hlen ip \<le> 60 \<and> length (to_sack (sg_opt s)) \<le> 4"
proof -
  have "opts_ok None" "opts_bytes None = []" by (simp_all add: opts_ok_def opts_bytes_def)
  then obtain b ip s where p: "parseIPv4_packet b = Inr ip" "parseTCP ip = Inr s"
    using segment_roundtrip [of None "[]" "replicate 100 0" 7 sample_header] by auto
  show ?thesis using parsed_well_formed [OF p] p unfolding options_wf_def by blast
qed

end
