(* ===== verification/Recv.thy ===== *)
theory Recv
  imports Ring_Window Packet "HOL-Library.Tree"
begin

section \<open>The receive buffer (internal/wgstack: recv.go, boost.go)\<close>

text \<open>
  The bytes of a connection that were received and not yet read. Those in order are between
  \<open>readOff\<close> and \<open>nxtOff\<close>; those that came early are described by a table of intervals, a treap
  whose nodes are the entries of a fixed array. A node is numbered by its position plus one, \<open>0\<close> is no node.
  The Go code keeps the numbers in \<open>int16\<close>, which its compile-time check makes large
  enough; here they are \<^typ>\<open>nat\<close>. An offset is a \<^typ>\<open>uint64\<close>, and its low 32 bits are kept in a node.
  \<open>None\<close> is an index out of range, or a loop over the nodes that would not end.
\<close>

unbundle bit_operations_syntax

subsection \<open>State\<close>

definition minMSS :: nat where "minMSS = 536"
definition floorIntervals :: nat where "floorIntervals = (recvFloor + 2 * minMSS - 1) div (2 * minMSS)"
definition boostIntervals :: nat where "boostIntervals = (boostSize + 2 * minMSS - 1) div (2 * minMSS)"
definition sackRecent :: nat where "sackRecent = 4"

record interval =
  it_start :: uint32
  it_end :: uint32
  it_l :: nat
  it_r :: nat
  it_pri :: uint32

text \<open>The marks of recently touched intervals are an array and a count in the code, here the list of the marks in use.\<close>

record recvBuf =
  rb_r :: ring
  rb_readOff :: uint64
  rb_nxtOff :: uint64
  rb_iv :: "interval list"
  rb_n :: int
  rb_ooo :: uint64
  rb_root :: nat
  rb_free :: nat
  rb_used :: nat
  rb_seed :: uint64
  rb_ctr :: uint64
  rb_recent :: "uint32 list"

definition full_off :: "uint64 \<Rightarrow> uint32 \<Rightarrow> uint64" where
  "full_off nxt x = nxt + ucast (x - ucast nxt)"

text \<open>\<open>node(k)\<close> is a pointer to an entry of the array; \<open>nd\<close> reads it and \<open>upd_node\<close> writes through it.\<close>

definition nd :: "interval list \<Rightarrow> nat \<Rightarrow> interval" where
  "nd iv k = iv ! (k - 1)"

definition node_at :: "interval list \<Rightarrow> nat \<Rightarrow> interval option" where
  "node_at iv k = (if 0 < k \<and> k \<le> length iv then Some (nd iv k) else None)"

definition upd_node :: "interval list \<Rightarrow> nat \<Rightarrow> (interval \<Rightarrow> interval) \<Rightarrow> interval list" where
  "upd_node iv k f = iv[k - 1 := f (nd iv k)]"

definition kStart :: "recvBuf \<Rightarrow> nat \<Rightarrow> uint64 option" where
  "kStart b k = map_option (\<lambda>x. full_off (rb_nxtOff b) (it_start x)) (node_at (rb_iv b) k)"

definition kEnd :: "recvBuf \<Rightarrow> nat \<Rightarrow> uint64 option" where
  "kEnd b k = map_option (\<lambda>x. full_off (rb_nxtOff b) (it_end x)) (node_at (rb_iv b) k)"

definition unread :: "recvBuf \<Rightarrow> uint64" where
  "unread b = rb_nxtOff b - rb_readOff b"

definition recv_empty :: "recvBuf \<Rightarrow> bool" where
  "recv_empty b = (rb_nxtOff b = rb_readOff b \<and> rb_n b = 0)"

subsection \<open>The tree\<close>

text \<open>The functions on the tree take and return the array of the nodes.\<close>

partial_function (option) merge_nodes :: "interval list \<Rightarrow> nat \<Rightarrow> nat \<Rightarrow> (interval list \<times> nat) option" where
  "merge_nodes iv a c =
     (if a = 0 then Some (iv, c)
      else if c = 0 then Some (iv, a)
      else Option.bind (node_at iv a) (\<lambda>x. Option.bind (node_at iv c) (\<lambda>y.
        if it_pri x \<ge> it_pri y
        then Option.bind (merge_nodes iv (it_r x) c) (\<lambda>(iv, k). Some (upd_node iv a (\<lambda>x. x\<lparr>it_r := k\<rparr>), a))
        else Option.bind (merge_nodes iv a (it_l y)) (\<lambda>(iv, k). Some (upd_node iv c (\<lambda>y. y\<lparr>it_l := k\<rparr>), c)))))"

text \<open>The two functions that split a tree differ in the test of a node only.\<close>

partial_function (option) split_nodes :: "(interval \<Rightarrow> bool) \<Rightarrow> interval list \<Rightarrow> nat \<Rightarrow> (interval list \<times> nat \<times> nat) option" where
  "split_nodes P iv t =
     (if t = 0 then Some (iv, 0, 0)
      else Option.bind (node_at iv t) (\<lambda>x.
        if P x
        then Option.bind (split_nodes P iv (it_r x)) (\<lambda>(iv, l, r). Some (upd_node iv t (\<lambda>x. x\<lparr>it_r := l\<rparr>), t, r))
        else Option.bind (split_nodes P iv (it_l x)) (\<lambda>(iv, l, r). Some (upd_node iv t (\<lambda>x. x\<lparr>it_l := r\<rparr>), l, t))))"

partial_function (option) release_nodes :: "interval list \<Rightarrow> nat \<Rightarrow> uint64 \<Rightarrow> nat \<Rightarrow> (interval list \<times> nat \<times> uint64 \<times> int) option" where
  "release_nodes iv free ooo t =
     (if t = 0 then Some (iv, free, ooo, 0)
      else Option.bind (node_at iv t) (\<lambda>x.
        Option.bind (release_nodes (upd_node iv t (\<lambda>x. x\<lparr>it_l := free, it_r := 0\<rparr>)) t (ooo - ucast (it_end x - it_start x)) (it_l x))
          (\<lambda>(iv, free, ooo, a).
        Option.bind (release_nodes iv free ooo (it_r x)) (\<lambda>(iv, free, ooo, c). Some (iv, free, ooo, 1 + a + c)))))"

partial_function (option) firstNode :: "interval list \<Rightarrow> nat \<Rightarrow> nat option" where
  "firstNode iv t = Option.bind (node_at iv t) (\<lambda>x. if it_l x \<noteq> 0 then firstNode iv (it_l x) else Some t)"

partial_function (option) lastNode :: "interval list \<Rightarrow> nat \<Rightarrow> nat option" where
  "lastNode iv t = Option.bind (node_at iv t) (\<lambda>x. if it_r x \<noteq> 0 then lastNode iv (it_r x) else Some t)"

partial_function (option) containing_from :: "uint64 \<Rightarrow> interval list \<Rightarrow> uint64 \<Rightarrow> nat \<Rightarrow> nat option" where
  "containing_from nxt iv x t =
     (if t = 0 then Some 0
      else Option.bind (node_at iv t) (\<lambda>y.
        if x < full_off nxt (it_start y) then containing_from nxt iv x (it_l y)
        else if x \<ge> full_off nxt (it_end y) then containing_from nxt iv x (it_r y)
        else Some t))"

text \<open>\<open>walk\<close> with a limit; a negative limit is no limit.\<close>

partial_function (option) walk :: "uint64 \<Rightarrow> interval list \<Rightarrow> nat \<Rightarrow> (uint64 \<times> uint64) list \<Rightarrow> int \<Rightarrow> (uint64 \<times> uint64) list option" where
  "walk nxt iv t dst limit =
     (if t = 0 \<or> (limit \<ge> 0 \<and> int (length dst) \<ge> limit) then Some dst
      else Option.bind (node_at iv t) (\<lambda>x.
        Option.bind (walk nxt iv (it_l x) dst limit) (\<lambda>dst.
        walk nxt iv (it_r x)
          (if limit < 0 \<or> int (length dst) < limit then dst @ [(full_off nxt (it_start x), full_off nxt (it_end x))] else dst) limit)))"

definition splitEndBefore :: "recvBuf \<Rightarrow> nat \<Rightarrow> uint64 \<Rightarrow> (recvBuf \<times> nat \<times> nat) option" where
  "splitEndBefore b t off =
     map_option (\<lambda>(iv, l, r). (b\<lparr>rb_iv := iv\<rparr>, l, r)) (split_nodes (\<lambda>x. full_off (rb_nxtOff b) (it_end x) < off) (rb_iv b) t)"

definition splitStartUpTo :: "recvBuf \<Rightarrow> nat \<Rightarrow> uint64 \<Rightarrow> (recvBuf \<times> nat \<times> nat) option" where
  "splitStartUpTo b t e =
     map_option (\<lambda>(iv, l, r). (b\<lparr>rb_iv := iv\<rparr>, l, r)) (split_nodes (\<lambda>x. full_off (rb_nxtOff b) (it_start x) \<le> e) (rb_iv b) t)"

definition merge_trees :: "recvBuf \<Rightarrow> nat \<Rightarrow> nat \<Rightarrow> (recvBuf \<times> nat) option" where
  "merge_trees b a c = map_option (\<lambda>(iv, k). (b\<lparr>rb_iv := iv\<rparr>, k)) (merge_nodes (rb_iv b) a c)"

text \<open>\<open>b.n -= b.release(t)\<close>.\<close>

definition release_tree :: "recvBuf \<Rightarrow> nat \<Rightarrow> recvBuf option" where
  "release_tree b t =
     map_option (\<lambda>(iv, free, ooo, c). b\<lparr>rb_iv := iv, rb_free := free, rb_ooo := ooo, rb_n := rb_n b - c\<rparr>)
       (release_nodes (rb_iv b) (rb_free b) (rb_ooo b) t)"

definition splitmix64 :: "uint64 \<Rightarrow> uint64" where
  "splitmix64 x =
     (let x = x + 0x9e3779b97f4a7c15;
          x = (x XOR drop_bit 30 x) * 0xbf58476d1ce4e5b9;
          x = (x XOR drop_bit 27 x) * 0x94d049bb133111eb
      in x XOR drop_bit 31 x)"

definition fill_node :: "recvBuf \<Rightarrow> nat \<Rightarrow> uint64 \<Rightarrow> uint64 \<Rightarrow> recvBuf" where
  "fill_node b k s e =
     (let b = b\<lparr>rb_ctr := rb_ctr b + 1\<rparr>
      in b\<lparr>rb_iv := upd_node (rb_iv b) k (\<lambda>_. \<lparr>it_start = ucast s, it_end = ucast e, it_l = 0, it_r = 0,
             it_pri = ucast (splitmix64 (rb_seed b + rb_ctr b))\<rparr>)\<rparr>)"

definition alloc :: "recvBuf \<Rightarrow> uint64 \<Rightarrow> uint64 \<Rightarrow> (recvBuf \<times> nat) option" where
  "alloc b s e =
     (if rb_free b \<noteq> 0 then map_option (\<lambda>x. (fill_node (b\<lparr>rb_free := it_l x\<rparr>) (rb_free b) s e, rb_free b)) (node_at (rb_iv b) (rb_free b))
      else if rb_used b < length (rb_iv b) then Some (fill_node (b\<lparr>rb_used := rb_used b + 1\<rparr>) (rb_used b + 1) s e, rb_used b + 1)
      else Some (b, 0))"

definition intervals :: "recvBuf \<Rightarrow> (uint64 \<times> uint64) list \<Rightarrow> (uint64 \<times> uint64) list option" where
  "intervals b dst = walk (rb_nxtOff b) (rb_iv b) (rb_root b) dst (- 1)"

definition rightmost :: "recvBuf \<Rightarrow> uint64 option" where
  "rightmost b =
     (if rb_root b \<noteq> 0 then Option.bind (lastNode (rb_iv b) (rb_root b)) (\<lambda>k. map_option (max (rb_nxtOff b)) (kEnd b k))
      else Some (rb_nxtOff b))"

subsection \<open>Recent intervals\<close>

definition forgetRecent :: "recvBuf \<Rightarrow> (uint64 \<Rightarrow> bool) \<Rightarrow> recvBuf" where
  "forgetRecent b dr = b\<lparr>rb_recent := filter (\<lambda>m. \<not> dr (full_off (rb_nxtOff b) m)) (rb_recent b)\<rparr>"

definition touchRecent :: "recvBuf \<Rightarrow> uint64 \<Rightarrow> uint64 \<Rightarrow> recvBuf" where
  "touchRecent b s e =
     (let b = forgetRecent b (\<lambda>x. x \<ge> s \<and> x < e) in b\<lparr>rb_recent := ucast s # take (sackRecent - 1) (rb_recent b)\<rparr>)"

subsection \<open>The table\<close>

definition clearIntervals :: "recvBuf \<Rightarrow> recvBuf" where
  "clearIntervals b = b\<lparr>rb_n := 0, rb_root := 0, rb_free := 0, rb_used := 0, rb_recent := [], rb_ooo := 0\<rparr>"

fun build_table :: "recvBuf \<Rightarrow> (uint64 \<times> uint64) list \<Rightarrow> recvBuf option" where
  "build_table b [] = Some b"
| "build_table b ((s, e) # xs) =
     Option.bind (alloc b s e) (\<lambda>(b, k). Option.bind (merge_trees b (rb_root b) k) (\<lambda>(b, t). build_table (b\<lparr>rb_root := t\<rparr>) xs))"

definition setIntervals :: "recvBuf \<Rightarrow> interval list \<Rightarrow> (recvBuf \<times> bool) option" where
  "setIntervals b iv =
     (if rb_n b > int (length iv) then Some (b, False)
      else Option.bind (intervals b []) (\<lambda>ivs.
        map_option (\<lambda>b. (b, True)) (build_table (b\<lparr>rb_iv := iv, rb_root := 0, rb_free := 0, rb_used := 0\<rparr>) ivs)))"

text \<open>The limit of \<open>renege\<close> when there are too many intervals.\<close>

definition renege_limit :: "recvBuf \<Rightarrow> uint64 \<Rightarrow> nat \<Rightarrow> uint64 option" where
  "renege_limit b limit maxN =
     (if rb_n b > int maxN
      then Option.bind (walk (rb_nxtOff b) (rb_iv b) (rb_root b) [] (int maxN + 1)) (\<lambda>ivs.
        if maxN < length ivs then Some (min limit (fst (ivs ! maxN))) else None)
      else Some limit)"

text \<open>The interval that crosses the limit is cut there.\<close>

definition cut_last :: "recvBuf \<Rightarrow> nat \<Rightarrow> uint64 \<Rightarrow> recvBuf option" where
  "cut_last b keep limit =
     (if keep = 0 then Some b
      else Option.bind (lastNode (rb_iv b) keep) (\<lambda>k. Option.bind (kEnd b k) (\<lambda>e. Some (
        if e > limit
        then b\<lparr>rb_ooo := rb_ooo b - (e - limit), rb_iv := upd_node (rb_iv b) k (\<lambda>x. x\<lparr>it_end := ucast limit\<rparr>)\<rparr>
        else b))))"

definition renege :: "recvBuf \<Rightarrow> uint64 \<Rightarrow> nat \<Rightarrow> (recvBuf \<times> uint64) option" where
  "renege b limit maxN =
     Option.bind (renege_limit b limit maxN) (\<lambda>limit.
     Option.bind (rightmost b) (\<lambda>hi.
       if rb_root b = 0 \<or> hi \<le> limit then Some (b, 0)
       else
         let before = rb_ooo b in
         Option.bind (splitStartUpTo b (rb_root b) (limit - 1)) (\<lambda>(b, keep, dr).
         Option.bind (release_tree b dr) (\<lambda>b.
         Option.bind (cut_last b keep limit) (\<lambda>b.
           let b = forgetRecent (b\<lparr>rb_root := keep\<rparr>) (\<lambda>x. x \<ge> limit) in Some (b, before - rb_ooo b))))))"

definition recv_written :: "recvBuf \<Rightarrow> (uint64 \<times> uint64) list option" where
  "recv_written b = intervals b (if rb_nxtOff b > rb_readOff b then [(rb_readOff b, rb_nxtOff b)] else [])"

subsection \<open>Insertion\<close>

record insertResult =
  ir_accepted :: nat
  ir_trimmed :: bool
  ir_dropped :: bool
  ir_ooo :: bool
  ir_filled :: bool
  ir_advanced :: bool
  ir_duplicate :: bool
  ir_dupLo :: uint64
  ir_dupHi :: uint64

definition noResult :: insertResult where
  "noResult = \<lparr>ir_accepted = 0, ir_trimmed = False, ir_dropped = False, ir_ooo = False, ir_filled = False, ir_advanced = False,
     ir_duplicate = False, ir_dupLo = 0, ir_dupHi = 0\<rparr>"

text \<open>Data from the next byte on: the early intervals it reaches are taken in.\<close>

definition insert_next :: "recvBuf \<Rightarrow> chunkPool \<Rightarrow> uint64 \<Rightarrow> uint8 list \<Rightarrow> uint64 \<Rightarrow> insertResult \<Rightarrow> (recvBuf \<times> chunkPool \<times> insertResult) option" where
  "insert_next b pool off data e res =
     Option.bind (ring_write (rb_r b) pool off data) (\<lambda>(r, pool).
       let b = b\<lparr>rb_r := r\<rparr>; res = res\<lparr>ir_accepted := length data, ir_advanced := True\<rparr> in
     Option.bind (splitStartUpTo b (rb_root b) e) (\<lambda>(b, m, rest).
       if m = 0 then Some (b\<lparr>rb_root := rest, rb_nxtOff := e\<rparr>, pool, res)
       else
         Option.bind (firstNode (rb_iv b) m) (\<lambda>f. Option.bind (kStart b f) (\<lambda>st. Option.bind (kEnd b f) (\<lambda>en.
         Option.bind (lastNode (rb_iv b) m) (\<lambda>g. Option.bind (kEnd b g) (\<lambda>ge.
           let res = (if st < e \<and> ir_dupHi res \<le> ir_dupLo res then res\<lparr>ir_dupLo := st, ir_dupHi := min e en\<rparr> else res);
               e = max e ge in
         Option.bind (release_tree b m) (\<lambda>b.
           let b = forgetRecent b (\<lambda>x. x < e) in
           Some (b\<lparr>rb_root := rest, rb_nxtOff := e\<rparr>, pool, res\<lparr>ir_filled := True\<rparr>)))))))))"

text \<open>The node \<open>k\<close> of the interval from \<open>ns\<close> to \<open>ne\<close> goes between the trees \<open>l\<close> and \<open>r\<close>, and the data into the ring.\<close>

definition settle :: "recvBuf \<Rightarrow> chunkPool \<Rightarrow> uint64 \<Rightarrow> uint8 list \<Rightarrow> insertResult \<Rightarrow> nat \<Rightarrow> nat \<Rightarrow> nat \<Rightarrow> uint64 \<Rightarrow> uint64 \<Rightarrow> (recvBuf \<times> chunkPool \<times> insertResult) option" where
  "settle b pool off data res l k r ns ne =
     (let b = b\<lparr>rb_n := rb_n b + 1, rb_ooo := rb_ooo b + (ne - ns)\<rparr> in
      Option.bind (merge_trees b l k) (\<lambda>(b, t). Option.bind (merge_trees b t r) (\<lambda>(b, t).
        let b = touchRecent (b\<lparr>rb_root := t\<rparr>) ns ne in
      Option.bind (ring_write (rb_r b) pool off data) (\<lambda>(rg, pool).
        Some (b\<lparr>rb_r := rg\<rparr>, pool, res\<lparr>ir_accepted := length data, ir_ooo := True\<rparr>)))))"

text \<open>Early data that touches no interval: a new one, when the table has room.\<close>

definition insert_new :: "recvBuf \<Rightarrow> chunkPool \<Rightarrow> uint64 \<Rightarrow> uint8 list \<Rightarrow> uint64 \<Rightarrow> insertResult \<Rightarrow> nat \<Rightarrow> nat \<Rightarrow> (recvBuf \<times> chunkPool \<times> insertResult) option" where
  "insert_new b pool off data e res l r =
     Option.bind (alloc b off e) (\<lambda>(b, k).
       if k = 0 then Option.bind (merge_trees b l r) (\<lambda>(b, t). Some (b\<lparr>rb_root := t\<rparr>, pool, res\<lparr>ir_dropped := True\<rparr>))
       else settle b pool off data res l k r off e)"

text \<open>Early data that touches the intervals of the tree \<open>m\<close>: they become one.\<close>

definition insert_join :: "recvBuf \<Rightarrow> chunkPool \<Rightarrow> uint64 \<Rightarrow> uint8 list \<Rightarrow> uint64 \<Rightarrow> insertResult \<Rightarrow> nat \<Rightarrow> nat \<Rightarrow> nat \<Rightarrow> (recvBuf \<times> chunkPool \<times> insertResult) option" where
  "insert_join b pool off data e res l m r =
     Option.bind (firstNode (rb_iv b) m) (\<lambda>f. Option.bind (lastNode (rb_iv b) m) (\<lambda>g.
     Option.bind (kStart b f) (\<lambda>fs. Option.bind (kEnd b f) (\<lambda>fe. Option.bind (kEnd b g) (\<lambda>ge.
       if f = g \<and> fs \<le> off \<and> e \<le> fe
       then Option.bind (merge_trees b l m) (\<lambda>(b, t). Option.bind (merge_trees b t r) (\<lambda>(b, t).
         Some (touchRecent (b\<lparr>rb_root := t\<rparr>) fs fe, pool, res\<lparr>ir_duplicate := True, ir_dupLo := off, ir_dupHi := e\<rparr>)))
       else
         let lo = max off fs; hi = min e fe;
             res = (if lo < hi \<and> ir_dupHi res \<le> ir_dupLo res then res\<lparr>ir_dupLo := lo, ir_dupHi := hi\<rparr> else res);
             ns = min off fs; ne = max e ge in
         Option.bind (release_tree b m) (\<lambda>b.
         Option.bind (alloc b ns ne) (\<lambda>(b, k). settle b pool off data res l k r ns ne)))))))"

definition insert_early :: "recvBuf \<Rightarrow> chunkPool \<Rightarrow> uint64 \<Rightarrow> uint8 list \<Rightarrow> uint64 \<Rightarrow> insertResult \<Rightarrow> (recvBuf \<times> chunkPool \<times> insertResult) option" where
  "insert_early b pool off data e res =
     Option.bind (splitEndBefore b (rb_root b) off) (\<lambda>(b, l, rest).
     Option.bind (splitStartUpTo b rest e) (\<lambda>(b, m, r).
       if m = 0 then insert_new b pool off data e res l r else insert_join b pool off data e res l m r))"

text \<open>What is left after the data before \<open>nxtOff\<close> is cut off.\<close>

definition insert_fresh :: "recvBuf \<Rightarrow> chunkPool \<Rightarrow> uint64 \<Rightarrow> uint8 list \<Rightarrow> uint64 \<Rightarrow> insertResult \<Rightarrow> (recvBuf \<times> chunkPool \<times> insertResult) option" where
  "insert_fresh b pool off data e res =
     (if data = [] then Some (b, pool, res)
      else if off = rb_nxtOff b then insert_next b pool off data e res
      else insert_early b pool off data e res)"

definition insert_within :: "recvBuf \<Rightarrow> chunkPool \<Rightarrow> uint64 \<Rightarrow> uint8 list \<Rightarrow> uint64 \<Rightarrow> insertResult \<Rightarrow> (recvBuf \<times> chunkPool \<times> insertResult) option" where
  "insert_within b pool off data e res =
     (if off < rb_nxtOff b
      then
        if e \<le> rb_nxtOff b then Some (b, pool, res\<lparr>ir_duplicate := data \<noteq> [], ir_dupLo := off, ir_dupHi := e\<rparr>)
        else insert_fresh b pool (rb_nxtOff b) (drop (unat (rb_nxtOff b - off)) data) e (res\<lparr>ir_dupLo := off, ir_dupHi := rb_nxtOff b\<rparr>)
      else insert_fresh b pool off data e res)"

definition recv_insert :: "recvBuf \<Rightarrow> chunkPool \<Rightarrow> uint64 \<Rightarrow> uint8 list \<Rightarrow> uint64 \<Rightarrow> (recvBuf \<times> chunkPool \<times> insertResult) option" where
  "recv_insert b pool off data limit =
     (let e = off + word_of_nat (length data) in
      if e > limit
      then
        if off \<ge> limit then Some (b, pool, noResult\<lparr>ir_trimmed := data \<noteq> []\<rparr>)
        else insert_within b pool off (take (unat (limit - off)) data) limit (noResult\<lparr>ir_trimmed := True\<rparr>)
      else insert_within b pool off data e noResult)"

subsection \<open>Reading\<close>

definition recv_read :: "recvBuf \<Rightarrow> chunkPool \<Rightarrow> nat \<Rightarrow> (recvBuf \<times> chunkPool \<times> uint8 list) option" where
  "recv_read b pool len =
     (let n = min len (unat (unread b)) in
      if n = 0 then Some (b, pool, [])
      else
        Option.bind (ring_read (rb_r b) (rb_readOff b) n) (\<lambda>bytes.
          let old = rb_readOff b; b = b\<lparr>rb_readOff := old + word_of_nat n\<rparr> in
        Option.bind (rightmost b) (\<lambda>hi.
          let (r, pool) = trim (rb_r b) pool old (rb_readOff b) hi in Some (b\<lparr>rb_r := r\<rparr>, pool, bytes))))"

subsection \<open>Selective acknowledgement\<close>

text \<open>The blocks of the recent intervals; \<open>seen\<close> are their nodes.\<close>

fun recent_blocks :: "recvBuf \<Rightarrow> nat \<Rightarrow> uint32 \<Rightarrow> uint32 list \<Rightarrow> nat list \<Rightarrow> sackBlock list \<Rightarrow> (nat list \<times> sackBlock list) option" where
  "recent_blocks b c base [] seen out = Some (seen, out)"
| "recent_blocks b c base (m # ms) seen out =
     (if length out \<ge> c then Some (seen, out)
      else Option.bind (containing_from (rb_nxtOff b) (rb_iv b) (full_off (rb_nxtOff b) m) (rb_root b)) (\<lambda>k.
        if k = 0 \<or> k \<in> set seen then recent_blocks b c base ms seen out
        else Option.bind (kStart b k) (\<lambda>s. Option.bind (kEnd b k) (\<lambda>e.
          recent_blocks b c base ms (seen @ [k]) (out @ [\<lparr>sb_left = base + ucast s, sb_right = base + ucast e\<rparr>])))))"

definition chosen :: "sackBlock list \<Rightarrow> uint32 \<Rightarrow> uint64 \<times> uint64 \<Rightarrow> bool" where
  "chosen out base x = (\<exists>o' \<in> set out. sb_left o' = base + ucast (fst x))"

fun fill_blocks :: "nat \<Rightarrow> uint32 \<Rightarrow> (uint64 \<times> uint64) list \<Rightarrow> sackBlock list \<Rightarrow> sackBlock list" where
  "fill_blocks c base [] out = out"
| "fill_blocks c base (x # xs) out =
     (if length out = c then out
      else if chosen out base x then fill_blocks c base xs out
      else fill_blocks c base xs (out @ [\<lparr>sb_left = base + ucast (fst x), sb_right = base + ucast (snd x)\<rparr>]))"

definition sackBlocks :: "recvBuf \<Rightarrow> nat \<Rightarrow> uint32 \<Rightarrow> sackBlock list option" where
  "sackBlocks b c base =
     (if rb_n b = 0 \<or> c = 0 then Some []
      else Option.bind (recent_blocks b c base (rb_recent b) [] []) (\<lambda>(seen, out).
        if length out < c \<and> int (length out) < rb_n b
        then map_option (\<lambda>ivs. fill_blocks c base ivs out) (walk (rb_nxtOff b) (rb_iv b) (rb_root b) [] (int c + int (length seen)))
        else Some out))"

subsection \<open>Changing the stage\<close>

text \<open>The ring and the table change to another size together (boost.go).\<close>

definition setRecvStage :: "recvBuf \<Rightarrow> chunkPool \<Rightarrow> uint64 \<Rightarrow> interval list \<Rightarrow> (recvBuf \<times> chunkPool) option" where
  "setRecvStage b pool capacity iv =
     Option.bind (recv_written b) (\<lambda>w.
     Option.bind (ring_resize (rb_r b) pool capacity w) (\<lambda>(r, pool).
     map_option (\<lambda>(b, _). (b, pool)) (setIntervals (b\<lparr>rb_r := r\<rparr>) iv)))"

text \<open>\<open>demote\<close> after its tests: what does not fit the small buffer is taken back, then the buffer becomes small.\<close>

definition demote_recv :: "recvBuf \<Rightarrow> chunkPool \<Rightarrow> interval list \<Rightarrow> (recvBuf \<times> chunkPool \<times> uint64) option" where
  "demote_recv b pool floorIv =
     Option.bind (renege b (rb_readOff b + word_of_nat recvFloor) floorIntervals) (\<lambda>(b, reneged).
     map_option (\<lambda>(b, pool). (b, pool, reneged)) (setRecvStage b pool (word_of_nat recvFloor) floorIv))"

subsection \<open>The connection\<close>

text \<open>What the connection does with the data of a segment (tcpin.go): the offset is the one nearest to \<open>nxtOff\<close> with the sequence number.\<close>

definition segment_offset :: "uint64 \<Rightarrow> uint32 \<Rightarrow> uint32 \<Rightarrow> int" where
  "segment_offset nxt irs seq = (let base = irs + 1 in wrap64 (sint nxt + sint (seq - (base + ucast nxt))))"

definition receive :: "recvBuf \<Rightarrow> chunkPool \<Rightarrow> uint32 \<Rightarrow> uint32 \<Rightarrow> uint8 list \<Rightarrow> uint64 \<Rightarrow> uint64 \<Rightarrow> (recvBuf \<times> chunkPool \<times> insertResult) option" where
  "receive b pool irs seq payload advRight rcvCap =
     (let off = segment_offset (rb_nxtOff b) irs seq in
      if off < 0 then Some (b, pool, noResult)
      else
        let limit = min advRight (rb_readOff b + rcvCap)
        in recv_insert b pool (word_of_int off) payload limit)"

text \<open>The duplicate part of a segment is kept for the next acknowledgement (ackpolicy.go, tcpin.go). \<open>dsack\<close> with \<open>dsackPending\<close> is an option; what
  the function changes of the delay of acknowledgements is not modelled.\<close>

definition noteDuplicate :: "bool \<Rightarrow> sackBlock option \<Rightarrow> uint32 \<Rightarrow> uint32 \<Rightarrow> sackBlock option" where
  "noteDuplicate sackOK dsack seq n =
     (if n = 0 \<or> \<not> sackOK then dsack
      else
        let b = \<lparr>sb_left = seq, sb_right = seq + n\<rparr> in
        case dsack of
          None \<Rightarrow> Some b
        | Some d \<Rightarrow>
            if seqLE (sb_left b) (sb_right d) \<and> seqLE (sb_left d) (sb_right b)
            then Some \<lparr>sb_left = seqMin (sb_left b) (sb_left d), sb_right = seqMax (sb_right b) (sb_right d)\<rparr>
            else Some d)"

definition note_segment :: "bool \<Rightarrow> sackBlock option \<Rightarrow> uint32 \<Rightarrow> insertResult \<Rightarrow> sackBlock option" where
  "note_segment sackOK dsack irs res =
     (if ir_dupHi res > ir_dupLo res
      then noteDuplicate sackOK dsack (irs + 1 + ucast (ir_dupLo res)) (ucast (ir_dupHi res - ir_dupLo res))
      else dsack)"

text \<open>The options of a segment to send (tcpout.go): the timestamp, and the block of the duplicate before the blocks of the early intervals.
  \<open>tsVal\<close> is the reading of the clock.\<close>

definition ack_blocks :: "recvBuf \<Rightarrow> sackBlock option \<Rightarrow> uint32 \<Rightarrow> sackBlock list option" where
  "ack_blocks b dsack irs =
     (let bs = (case dsack of None \<Rightarrow> [] | Some d \<Rightarrow> [d])
      in map_option (\<lambda>l. bs @ l) (sackBlocks b (4 - length bs) (irs + 1)))"

definition tcb_options :: "bool \<Rightarrow> uint32 \<Rightarrow> uint32 \<Rightarrow> bool \<Rightarrow> bool \<Rightarrow> recvBuf \<Rightarrow> sackBlock option \<Rightarrow> uint32 \<Rightarrow> optWriter option" where
  "tcb_options tsOK tsVal tsRecent sack sackOK b dsack irs =
     (if sack \<and> sackOK \<and> (rb_n b > 0 \<or> dsack \<noteq> None)
      then Option.bind (ack_blocks b dsack irs) (\<lambda>bs. segmentOptions tsOK tsVal tsRecent True bs)
      else segmentOptions tsOK tsVal tsRecent False [])"

text \<open>What is left of the data when the connection closes (tcb.go): the early data goes.\<close>

definition drop_early :: "recvBuf \<Rightarrow> chunkPool \<Rightarrow> recvBuf \<times> chunkPool" where
  "drop_early b pool =
     (let b = clearIntervals b; (r, pool) = retain (rb_r b) pool (rb_readOff b) (rb_nxtOff b) in (b\<lparr>rb_r := r\<rparr>, pool))"

end
