(* ===== verification/Recv_Tree.thy ===== *)
theory Recv_Tree
  imports Recv
begin

section \<open>The tree of intervals\<close>

text \<open>
  The nodes that a number leads to are a tree when following the numbers of the children ends. The functions
  on the nodes are then functions on the sequence of the nodes from left to right: joining appends, splitting
  cuts, releasing moves the nodes to the free list, and nothing else of the array changes.
\<close>

subsection \<open>Trees and lists in the array\<close>

primrec is_tree :: "interval list \<Rightarrow> nat tree \<Rightarrow> nat \<Rightarrow> bool" where
  "is_tree iv Leaf k \<longleftrightarrow> k = 0"
| "is_tree iv (Node l x r) k \<longleftrightarrow> k = x \<and> 0 < x \<and> x \<le> length iv \<and> is_tree iv l (it_l (nd iv x)) \<and> is_tree iv r (it_r (nd iv x))"

primrec is_free :: "interval list \<Rightarrow> nat list \<Rightarrow> nat \<Rightarrow> bool" where
  "is_free iv [] k \<longleftrightarrow> k = 0"
| "is_free iv (x # xs) k \<longleftrightarrow> k = x \<and> 0 < x \<and> x \<le> length iv \<and> is_free iv xs (it_l (nd iv x))"

definition data_of :: "interval list \<Rightarrow> nat \<Rightarrow> uint32 \<times> uint32" where
  "data_of iv k = (it_start (nd iv k), it_end (nd iv k))"

text \<open>Nodes outside \<open>S\<close> are as they were.\<close>

definition outside :: "nat set \<Rightarrow> interval list \<Rightarrow> interval list \<Rightarrow> bool" where
  "outside S iv iv' \<longleftrightarrow> length iv' = length iv \<and> (\<forall>k. 0 < k \<longrightarrow> k \<notin> S \<longrightarrow> nd iv' k = nd iv k)"

text \<open>The nodes of \<open>S\<close> have other children, and nothing else is new.\<close>

definition relinked :: "nat set \<Rightarrow> interval list \<Rightarrow> interval list \<Rightarrow> bool" where
  "relinked S iv iv' \<longleftrightarrow> outside S iv iv' \<and> (\<forall>k. 0 < k \<longrightarrow> data_of iv' k = data_of iv k)"

lemma outside_refl [simp]: "outside S iv iv" and relinked_refl [simp]: "relinked S iv iv"
  by (simp_all add: outside_def relinked_def)

lemma outside_trans: "outside S iv iv' \<Longrightarrow> outside S' iv' iv'' \<Longrightarrow> S \<subseteq> U \<Longrightarrow> S' \<subseteq> U \<Longrightarrow> outside U iv iv''"
  unfolding outside_def by (metis subsetD)

lemma relinked_trans: "relinked S iv iv' \<Longrightarrow> relinked S' iv' iv'' \<Longrightarrow> S \<subseteq> U \<Longrightarrow> S' \<subseteq> U \<Longrightarrow> relinked U iv iv''"
  by (auto simp: relinked_def intro: outside_trans)

lemma relinked_mono: "relinked S iv iv' \<Longrightarrow> S \<subseteq> U \<Longrightarrow> relinked U iv iv'"
  by (auto simp: relinked_def outside_def)

lemma relinked_outside: "relinked S iv iv' \<Longrightarrow> outside S iv iv'"
  by (simp add: relinked_def)

lemma outside_length: "outside S iv iv' \<Longrightarrow> length iv' = length iv"
  by (simp add: outside_def)

lemma upd_node_nth: "0 < k \<Longrightarrow> k \<le> length iv \<Longrightarrow> 0 < j \<Longrightarrow> nd (upd_node iv k f) j = (if j = k then f (nd iv k) else nd iv j)"
  by (auto simp: upd_node_def nd_def nth_list_update)

lemma upd_node_length [simp]: "length (upd_node iv k f) = length iv"
  by (simp add: upd_node_def)

lemma outside_upd: "0 < k \<Longrightarrow> k \<le> length iv \<Longrightarrow> k \<in> S \<Longrightarrow> outside S iv (upd_node iv k f)"
  by (auto simp: outside_def upd_node_nth)

lemma relinked_upd:
  "0 < k \<Longrightarrow> k \<le> length iv \<Longrightarrow> k \<in> S \<Longrightarrow> (\<And>x. it_start (f x) = it_start x \<and> it_end (f x) = it_end x) \<Longrightarrow> relinked S iv (upd_node iv k f)"
  by (auto simp: relinked_def outside_upd data_of_def upd_node_nth)

lemma is_tree_outside: "is_tree iv T k \<Longrightarrow> outside S iv iv' \<Longrightarrow> set_tree T \<inter> S = {} \<Longrightarrow> is_tree iv' T k"
  by (induction T arbitrary: k) (auto simp: outside_def)

lemma is_free_outside: "is_free iv xs k \<Longrightarrow> outside S iv iv' \<Longrightarrow> set xs \<inter> S = {} \<Longrightarrow> is_free iv' xs k"
  by (induction xs arbitrary: k) (auto simp: outside_def)

lemma is_tree_bounds: "is_tree iv T k \<Longrightarrow> x \<in> set_tree T \<Longrightarrow> 0 < x \<and> x \<le> length iv"
  by (induction T arbitrary: k) auto

lemma is_tree_zero: "is_tree iv T 0 \<longleftrightarrow> T = Leaf"
  by (cases T) auto

lemma is_tree_leaf_iff: "is_tree iv T k \<Longrightarrow> k = 0 \<longleftrightarrow> T = Leaf"
  by (cases T) auto

lemma node_at_tree: "is_tree iv T k \<Longrightarrow> x \<in> set_tree T \<Longrightarrow> node_at iv x = Some (nd iv x)"
  using is_tree_bounds by (simp add: node_at_def)

subsection \<open>Joining and splitting\<close>

text \<open>A change of the trees below a node, and then of one child of the node.\<close>

lemma relink_right:
  assumes t: "is_tree iv (Node L x R) t" and m: "relinked S iv iv'" and S: "x \<notin> S" "x \<notin> set_tree L" "set_tree L \<inter> S = {}" and T: "is_tree iv' T k" "x \<notin> set_tree T"
  shows "is_tree (upd_node iv' x (\<lambda>x. x\<lparr>it_r := k\<rparr>)) (Node L x T) x" and "relinked (insert x S) iv (upd_node iv' x (\<lambda>x. x\<lparr>it_r := k\<rparr>))"
    and "is_tree iv' U u \<Longrightarrow> x \<notin> set_tree U \<Longrightarrow> is_tree (upd_node iv' x (\<lambda>x. x\<lparr>it_r := k\<rparr>)) U u"
proof -
  have x: "0 < x" "x \<le> length iv" "is_tree iv L (it_l (nd iv x))" using t by simp_all
  have o: "outside S iv iv'" "length iv' = length iv" using m by (auto simp: relinked_def outside_def)
  have ux: "outside {x} iv' (upd_node iv' x (\<lambda>x. x\<lparr>it_r := k\<rparr>))" by (rule outside_upd) (use x o in simp_all)
  have nx: "nd iv' x = nd iv x" using o S(1) x(1) by (simp add: outside_def)
  have "is_tree (upd_node iv' x (\<lambda>x. x\<lparr>it_r := k\<rparr>)) L (it_l (nd iv x))" using is_tree_outside [OF is_tree_outside [OF x(3) o(1) S(3)] ux] S(2) by simp
  then show "is_tree (upd_node iv' x (\<lambda>x. x\<lparr>it_r := k\<rparr>)) (Node L x T) x" using is_tree_outside [OF T(1) ux] T(2) x o by (simp add: upd_node_nth nx)
  show "relinked (insert x S) iv (upd_node iv' x (\<lambda>x. x\<lparr>it_r := k\<rparr>))" by (rule relinked_trans [OF m relinked_upd [of x iv' "{x}"]]) (use x o in auto)
  show "is_tree iv' U u \<Longrightarrow> x \<notin> set_tree U \<Longrightarrow> is_tree (upd_node iv' x (\<lambda>x. x\<lparr>it_r := k\<rparr>)) U u" by (rule is_tree_outside [OF _ ux]) simp_all
qed

lemma relink_left:
  assumes t: "is_tree iv (Node L x R) t" and m: "relinked S iv iv'" and S: "x \<notin> S" "x \<notin> set_tree R" "set_tree R \<inter> S = {}" and T: "is_tree iv' T k" "x \<notin> set_tree T"
  shows "is_tree (upd_node iv' x (\<lambda>x. x\<lparr>it_l := k\<rparr>)) (Node T x R) x" and "relinked (insert x S) iv (upd_node iv' x (\<lambda>x. x\<lparr>it_l := k\<rparr>))"
    and "is_tree iv' U u \<Longrightarrow> x \<notin> set_tree U \<Longrightarrow> is_tree (upd_node iv' x (\<lambda>x. x\<lparr>it_l := k\<rparr>)) U u"
proof -
  have x: "0 < x" "x \<le> length iv" "is_tree iv R (it_r (nd iv x))" using t by simp_all
  have o: "outside S iv iv'" "length iv' = length iv" using m by (auto simp: relinked_def outside_def)
  have ux: "outside {x} iv' (upd_node iv' x (\<lambda>x. x\<lparr>it_l := k\<rparr>))" by (rule outside_upd) (use x o in simp_all)
  have nx: "nd iv' x = nd iv x" using o S(1) x(1) by (simp add: outside_def)
  have "is_tree (upd_node iv' x (\<lambda>x. x\<lparr>it_l := k\<rparr>)) R (it_r (nd iv x))" using is_tree_outside [OF is_tree_outside [OF x(3) o(1) S(3)] ux] S(2) by simp
  then show "is_tree (upd_node iv' x (\<lambda>x. x\<lparr>it_l := k\<rparr>)) (Node T x R) x" using is_tree_outside [OF T(1) ux] T(2) x o by (simp add: upd_node_nth nx)
  show "relinked (insert x S) iv (upd_node iv' x (\<lambda>x. x\<lparr>it_l := k\<rparr>))" by (rule relinked_trans [OF m relinked_upd [of x iv' "{x}"]]) (use x o in auto)
  show "is_tree iv' U u \<Longrightarrow> x \<notin> set_tree U \<Longrightarrow> is_tree (upd_node iv' x (\<lambda>x. x\<lparr>it_l := k\<rparr>)) U u" by (rule is_tree_outside [OF _ ux]) simp_all
qed

lemma merge_ok:
  assumes "is_tree iv A a" and "is_tree iv C c" and "distinct (inorder A @ inorder C)"
  shows "\<exists>iv' k T. merge_nodes iv a c = Some (iv', k) \<and> is_tree iv' T k \<and> inorder T = inorder A @ inorder C
    \<and> relinked (set_tree A \<union> set_tree C) iv iv'"
  using assms
proof (induction "size A + size C" arbitrary: A C a c rule: less_induct)
  case less
  show ?case
  proof (cases "A = Leaf \<or> C = Leaf")
    case True
    then show ?thesis using less.prems by (subst merge_nodes.simps) (auto simp: is_tree_leaf_iff)
  next
    case False
    then obtain al x ar cl y cr where A: "A = Node al x ar" and C: "C = Node cl y cr" by (meson tree.exhaust)
    have x: "a = x" "0 < x" "x \<le> length iv" and y: "c = y" "0 < y" "y \<le> length iv" using less.prems by (simp_all add: A C)
    have sub: "is_tree iv al (it_l (nd iv x))" "is_tree iv ar (it_r (nd iv x))" "is_tree iv cl (it_l (nd iv y))" "is_tree iv cr (it_r (nd iv y))"
      using less.prems by (simp_all add: A C)
    have nd: "node_at iv x = Some (nd iv x)" "node_at iv y = Some (nd iv y)" using x y by (simp_all add: node_at_def)
    have d: "distinct (inorder ar @ inorder C)" "distinct (inorder A @ inorder cl)" "x \<notin> set_tree ar" "x \<notin> set_tree C" "x \<notin> set_tree al"
      "set_tree al \<inter> set_tree ar = {}" "set_tree al \<inter> set_tree C = {}" "y \<notin> set_tree cl" "y \<notin> set_tree cr" "y \<notin> set_tree A"
      "set_tree cr \<inter> set_tree cl = {}" "set_tree cr \<inter> set_tree A = {}"
      using less.prems(3) by (auto simp: A C)
    show ?thesis
    proof (cases "it_pri (nd iv x) \<ge> it_pri (nd iv y)")
      case True
      obtain iv' k T where m: "merge_nodes iv (it_r (nd iv x)) c = Some (iv', k)" "is_tree iv' T k" "inorder T = inorder ar @ inorder C"
        "relinked (set_tree ar \<union> set_tree C) iv iv'"
        using less.hyps [OF _ sub(2) less.prems(2) d(1)] by (auto simp: A)
      let ?iv = "upd_node iv' x (\<lambda>x. x\<lparr>it_r := k\<rparr>)"
      have sT: "set_tree T = set_tree ar \<union> set_tree C" using m(3) by (metis set_append set_inorder)
      note k = relink_right [OF less.prems(1) [unfolded A] m(4) _ _ _ m(2)]
      have "is_tree ?iv (Node al x T) x" by (rule k(1)) (use sT d in auto)
      moreover have "relinked (insert x (set_tree ar \<union> set_tree C)) iv ?iv" by (rule k(2)) (use sT d in auto)
      then have "relinked (set_tree A \<union> set_tree C) iv ?iv" by (rule relinked_mono) (auto simp: A)
      ultimately show ?thesis using x y nd True m(1,3)
        by (subst merge_nodes.simps) (auto simp: A intro!: exI [of _ "Node al x T"])
    next
      case False
      obtain iv' k T where m: "merge_nodes iv a (it_l (nd iv y)) = Some (iv', k)" "is_tree iv' T k" "inorder T = inorder A @ inorder cl"
        "relinked (set_tree A \<union> set_tree cl) iv iv'"
        using less.hyps [OF _ less.prems(1) sub(3) d(2)] by (auto simp: C)
      let ?iv = "upd_node iv' y (\<lambda>x. x\<lparr>it_l := k\<rparr>)"
      have sT: "set_tree T = set_tree A \<union> set_tree cl" using m(3) by (metis set_append set_inorder)
      note k = relink_left [OF less.prems(2) [unfolded C] m(4) _ _ _ m(2)]
      have "is_tree ?iv (Node T y cr) y" by (rule k(1)) (use sT d in auto)
      moreover have "relinked (insert y (set_tree A \<union> set_tree cl)) iv ?iv" by (rule k(2)) (use sT d in auto)
      then have "relinked (set_tree A \<union> set_tree C) iv ?iv" by (rule relinked_mono) (auto simp: C)
      ultimately show ?thesis using x y nd False m(1,3)
        by (subst merge_nodes.simps) (auto simp: C intro!: exI [of _ "Node T y cr"])
    qed
  qed
qed

lemma split_ok:
  assumes "is_tree iv T t" and "distinct (inorder T)"
  shows "\<exists>iv' l r L R. split_nodes P iv t = Some (iv', l, r) \<and> is_tree iv' L l \<and> is_tree iv' R r
    \<and> inorder T = inorder L @ inorder R \<and> relinked (set_tree T) iv iv'
    \<and> (sorted_wrt (\<lambda>j k. P (nd iv k) \<longrightarrow> P (nd iv j)) (inorder T)
        \<longrightarrow> (\<forall>k \<in> set_tree L. P (nd iv k)) \<and> (\<forall>k \<in> set_tree R. \<not> P (nd iv k)))"
  using assms
proof (induction T arbitrary: t)
  case Leaf
  then show ?case by (subst split_nodes.simps) (simp add: is_tree_zero)
next
  case (Node L0 x R0)
  have x: "t = x" "0 < x" "x \<le> length iv" and sub: "is_tree iv L0 (it_l (nd iv x))" "is_tree iv R0 (it_r (nd iv x))"
    using Node.prems(1) by simp_all
  have d: "x \<notin> set_tree L0" "x \<notin> set_tree R0" "set_tree L0 \<inter> set_tree R0 = {}" "distinct (inorder L0)" "distinct (inorder R0)"
    using Node.prems(2) by auto
  show ?case
  proof (cases "P (nd iv x)")
    case True
    obtain iv' l r L R where m: "split_nodes P iv (it_r (nd iv x)) = Some (iv', l, r)" "is_tree iv' L l" "is_tree iv' R r"
      "inorder R0 = inorder L @ inorder R" "relinked (set_tree R0) iv iv'"
      "sorted_wrt (\<lambda>j k. P (nd iv k) \<longrightarrow> P (nd iv j)) (inorder R0)
        \<longrightarrow> (\<forall>k \<in> set_tree L. P (nd iv k)) \<and> (\<forall>k \<in> set_tree R. \<not> P (nd iv k))"
      using Node.IH(2) [OF sub(2) d(5)] by (elim exE conjE)
    let ?iv = "upd_node iv' x (\<lambda>x. x\<lparr>it_r := l\<rparr>)"
    have sT: "set_tree R0 = set_tree L \<union> set_tree R" using m(4) by (metis set_append set_inorder)
    note k = relink_right [OF Node.prems(1) m(5) d(2,1,3) m(2)]
    have t: "is_tree ?iv R r" by (rule k(3) [OF _ m(3)]) (use sT d(2) in auto)
    have "is_tree ?iv (Node L0 x L) x" by (rule k(1)) (use sT d(2) in auto)
    moreover have "relinked (insert x (set_tree R0)) iv ?iv" by (rule k(2)) (use sT d(2) in auto)
    then have "relinked (set_tree (Node L0 x R0)) iv ?iv" by (rule relinked_mono) auto
    moreover have "sorted_wrt (\<lambda>j k. P (nd iv k) \<longrightarrow> P (nd iv j)) (inorder (Node L0 x R0))
        \<longrightarrow> (\<forall>k \<in> set_tree (Node L0 x L). P (nd iv k)) \<and> (\<forall>k \<in> set_tree R. \<not> P (nd iv k))"
    proof
      assume "sorted_wrt (\<lambda>j k. P (nd iv k) \<longrightarrow> P (nd iv j)) (inorder (Node L0 x R0))"
      then have s: "sorted_wrt (\<lambda>j k. P (nd iv k) \<longrightarrow> P (nd iv j)) (inorder R0)" "\<forall>k \<in> set_tree L0. P (nd iv x) \<longrightarrow> P (nd iv k)"
        by (simp_all add: sorted_wrt_append)
      show "(\<forall>k \<in> set_tree (Node L0 x L). P (nd iv k)) \<and> (\<forall>k \<in> set_tree R. \<not> P (nd iv k))" using mp [OF m(6) s(1)] s(2) True by auto
    qed
    moreover have "split_nodes P iv t = Some (?iv, x, r)" using split_nodes.simps [of P iv t] x True m(1) by (simp add: node_at_def)
    moreover have "inorder (Node L0 x R0) = inorder (Node L0 x L) @ inorder R" using m(4) by simp
    ultimately show ?thesis using t by blast
  next
    case False
    obtain iv' l r L R where m: "split_nodes P iv (it_l (nd iv x)) = Some (iv', l, r)" "is_tree iv' L l" "is_tree iv' R r"
      "inorder L0 = inorder L @ inorder R" "relinked (set_tree L0) iv iv'"
      "sorted_wrt (\<lambda>j k. P (nd iv k) \<longrightarrow> P (nd iv j)) (inorder L0)
        \<longrightarrow> (\<forall>k \<in> set_tree L. P (nd iv k)) \<and> (\<forall>k \<in> set_tree R. \<not> P (nd iv k))"
      using Node.IH(1) [OF sub(1) d(4)] by (elim exE conjE)
    let ?iv = "upd_node iv' x (\<lambda>x. x\<lparr>it_l := r\<rparr>)"
    have sT: "set_tree L0 = set_tree L \<union> set_tree R" using m(4) by (metis set_append set_inorder)
    note k = relink_left [OF Node.prems(1) m(5) d(1,2) _ m(3)]
    have t: "is_tree ?iv L l" by (rule k(3) [OF _ _ m(2)]) (use sT d in auto)
    have "is_tree ?iv (Node R x R0) x" by (rule k(1)) (use sT d in auto)
    moreover have "relinked (insert x (set_tree L0)) iv ?iv" by (rule k(2)) (use sT d in auto)
    then have "relinked (set_tree (Node L0 x R0)) iv ?iv" by (rule relinked_mono) auto
    moreover have "sorted_wrt (\<lambda>j k. P (nd iv k) \<longrightarrow> P (nd iv j)) (inorder (Node L0 x R0))
        \<longrightarrow> (\<forall>k \<in> set_tree L. P (nd iv k)) \<and> (\<forall>k \<in> set_tree (Node R x R0). \<not> P (nd iv k))"
    proof
      assume "sorted_wrt (\<lambda>j k. P (nd iv k) \<longrightarrow> P (nd iv j)) (inorder (Node L0 x R0))"
      then have s: "sorted_wrt (\<lambda>j k. P (nd iv k) \<longrightarrow> P (nd iv j)) (inorder L0)" "\<forall>k \<in> set_tree R0. P (nd iv k) \<longrightarrow> P (nd iv x)"
        by (simp_all add: sorted_wrt_append)
      show "(\<forall>k \<in> set_tree L. P (nd iv k)) \<and> (\<forall>k \<in> set_tree (Node R x R0). \<not> P (nd iv k))" using mp [OF m(6) s(1)] s(2) False by auto
    qed
    moreover have "split_nodes P iv t = Some (?iv, l, x)" using split_nodes.simps [of P iv t] x False m(1) by (simp add: node_at_def)
    moreover have "inorder (Node L0 x R0) = inorder L @ inorder (Node R x R0)" using m(4) by simp
    ultimately show ?thesis using t by blast
  qed
qed

subsection \<open>Releasing and taking nodes\<close>

definition node_bytes :: "interval list \<Rightarrow> nat \<Rightarrow> uint64" where
  "node_bytes iv k = ucast (it_end (nd iv k) - it_start (nd iv k))"

lemma release_nodes_ok:
  assumes "is_tree iv T t" and "is_free iv fs free" and "distinct (inorder T @ fs)"
  shows "\<exists>iv' free' fs'. release_nodes iv free ooo t = Some (iv', free', ooo - sum_list (map (node_bytes iv) (inorder T)), int (size T))
    \<and> is_free iv' fs' free' \<and> distinct fs' \<and> set fs' = set_tree T \<union> set fs \<and> outside (set_tree T) iv iv'"
  using assms
proof (induction T arbitrary: iv fs free ooo t)
  case Leaf
  then show ?case by (subst release_nodes.simps) auto
next
  case (Node L x R)
  have x: "t = x" "0 < x" "x \<le> length iv" and sub: "is_tree iv L (it_l (nd iv x))" "is_tree iv R (it_r (nd iv x))"
    using Node.prems(1) by simp_all
  have d: "x \<notin> set_tree L" "x \<notin> set_tree R" "set_tree L \<inter> set_tree R = {}" "x \<notin> set fs" "set_tree L \<inter> set fs = {}" "set_tree R \<inter> set fs = {}"
    "distinct (inorder L)" "distinct (inorder R)" "distinct fs"
    using Node.prems(3) by auto
  let ?iv = "upd_node iv x (\<lambda>y. y\<lparr>it_l := free, it_r := 0\<rparr>)"
  have o: "outside {x} iv ?iv" by (rule outside_upd) (use x in simp_all)
  have f1: "is_free ?iv (x # fs) x" using x is_free_outside [OF Node.prems(2) o] d(4) by (simp add: upd_node_nth)
  have t1: "is_tree ?iv L (it_l (nd iv x))" by (rule is_tree_outside [OF sub(1) o]) (use d in simp)
  have same: "map (node_bytes iv') (inorder T') = map (node_bytes iv) (inorder T')" if "outside S iv iv'" "is_tree iv T' k" "set_tree T' \<inter> S = {}" for S iv iv' T' k
  proof (rule map_cong [OF refl])
    fix j assume j: "j \<in> set (inorder T')"
    then have "0 < j" using is_tree_bounds [OF that(2)] by simp
    moreover have "j \<notin> S" using that(3) j by auto
    ultimately show "node_bytes iv' j = node_bytes iv j" using that(1) by (simp add: node_bytes_def outside_def)
  qed
  obtain iv1 free1 fs1 where r1: "release_nodes ?iv x (ooo - node_bytes iv x) (it_l (nd iv x))
      = Some (iv1, free1, ooo - node_bytes iv x - sum_list (map (node_bytes ?iv) (inorder L)), int (size L))"
    "is_free iv1 fs1 free1" "distinct fs1" "set fs1 = set_tree L \<union> set (x # fs)" "outside (set_tree L) ?iv iv1"
    using Node.IH(1) [OF t1 f1, of "ooo - node_bytes iv x"] d by auto
  have o1: "outside (insert x (set_tree L)) iv iv1" by (rule outside_trans [OF o r1(5)]) auto
  have t2: "is_tree iv1 R (it_r (nd iv x))" by (rule is_tree_outside [OF sub(2) o1]) (use d in auto)
  have d2: "distinct (inorder R @ fs1)" using r1(3,4) d by auto
  obtain iv2 free2 fs2 where r2: "release_nodes iv1 free1 (ooo - node_bytes iv x - sum_list (map (node_bytes ?iv) (inorder L))) (it_r (nd iv x))
      = Some (iv2, free2, ooo - node_bytes iv x - sum_list (map (node_bytes ?iv) (inorder L)) - sum_list (map (node_bytes iv1) (inorder R)), int (size R))"
    "is_free iv2 fs2 free2" "distinct fs2" "set fs2 = set_tree R \<union> set fs1" "outside (set_tree R) iv1 iv2"
    using Node.IH(2) [OF t2 r1(2) d2] by blast
  have m: "map (node_bytes ?iv) (inorder L) = map (node_bytes iv) (inorder L)" "map (node_bytes iv1) (inorder R) = map (node_bytes iv) (inorder R)"
    by (rule same [OF o sub(1)], use d in simp) (rule same [OF o1 sub(2)], use d in auto)
  have "release_nodes iv free ooo t = Some (iv2, free2, ooo - sum_list (map (node_bytes iv) (inorder (Node L x R))), int (size (Node L x R)))"
    using release_nodes.simps [of iv free ooo t] x r1(1) r2(1) unfolding m
    by (simp add: node_at_def node_bytes_def [of iv x, symmetric] algebra_simps)
  moreover have "outside (set_tree (Node L x R)) iv iv2" by (rule outside_trans [OF o1 r2(5)]) auto
  moreover have "set fs2 = set_tree (Node L x R) \<union> set fs" using r1(4) r2(4) by auto
  ultimately show ?case using r2(2,3) by blast
qed

subsection \<open>Searching\<close>

lemma firstNode_ok: "is_tree iv T t \<Longrightarrow> T \<noteq> Leaf \<Longrightarrow> firstNode iv t = Some (hd (inorder T))"
proof (induction T arbitrary: t)
  case (Node L x R)
  have x: "t = x" "0 < x" "x \<le> length iv" and l: "is_tree iv L (it_l (nd iv x))" using Node.prems(1) by simp_all
  show ?case
  proof (cases "L = Leaf")
    case True
    then show ?thesis using x l by (subst firstNode.simps) (simp add: node_at_def)
  next
    case False
    then have "it_l (nd iv x) \<noteq> 0" "inorder L \<noteq> []" using is_tree_leaf_iff [OF l] by simp_all
    then show ?thesis using x Node.IH(1) [OF l False] by (subst firstNode.simps) (simp add: node_at_def)
  qed
qed simp

lemma lastNode_ok: "is_tree iv T t \<Longrightarrow> T \<noteq> Leaf \<Longrightarrow> lastNode iv t = Some (last (inorder T))"
proof (induction T arbitrary: t)
  case (Node L x R)
  have x: "t = x" "0 < x" "x \<le> length iv" and r: "is_tree iv R (it_r (nd iv x))" using Node.prems(1) by simp_all
  show ?case
  proof (cases "R = Leaf")
    case True
    then show ?thesis using x r by (subst lastNode.simps) (simp add: node_at_def)
  next
    case False
    then have "it_r (nd iv x) \<noteq> 0" "inorder R \<noteq> []" using is_tree_leaf_iff [OF r] by simp_all
    then show ?thesis using x Node.IH(2) [OF r False] by (subst lastNode.simps) (simp add: node_at_def)
  qed
qed simp

lemma containing_ok:
  assumes "is_tree iv T t" and "sorted_wrt (\<lambda>j k. full_off nxt (it_end (nd iv j)) \<le> full_off nxt (it_start (nd iv k))) (inorder T)"
    and "k \<in> set_tree T" and "full_off nxt (it_start (nd iv k)) \<le> x" and "x < full_off nxt (it_end (nd iv k))"
    and "\<forall>j \<in> set_tree T. full_off nxt (it_start (nd iv j)) < full_off nxt (it_end (nd iv j))"
  shows "containing_from nxt iv x t = Some k"
  using assms(1-3,6)
proof (induction T arbitrary: t)
  case (Node L y R)
  have y: "t = y" "0 < y" "y \<le> length iv" and sub: "is_tree iv L (it_l (nd iv y))" "is_tree iv R (it_r (nd iv y))"
    using Node.prems(1) by simp_all
  note step = containing_from.simps [of nxt iv x t, unfolded y(1)]
  consider "k = y" | "k \<in> set_tree L" | "k \<in> set_tree R" using Node.prems(3) by auto
  then show ?case
  proof cases
    case 1
    then show ?thesis using step y assms(4,5) by (auto simp: node_at_def)
  next
    case 2
    have "full_off nxt (it_end (nd iv k)) \<le> full_off nxt (it_start (nd iv y))" using Node.prems(2) 2 by (simp add: sorted_wrt_append)
    then have "x < full_off nxt (it_start (nd iv y))" using assms(5) by simp
    then show ?thesis using step y Node.IH(1) [OF sub(1) _ 2] Node.prems(2,4) by (simp add: node_at_def sorted_wrt_append)
  next
    case 3
    have le: "full_off nxt (it_end (nd iv y)) \<le> x" using Node.prems(2) 3 assms(4) by (auto simp: sorted_wrt_append intro: order_trans)
    then have "\<not> x < full_off nxt (it_start (nd iv y))" using Node.prems(4) by fastforce
    then show ?thesis using le step y Node.IH(2) [OF sub(2) _ 3] Node.prems(2,4) by (simp add: node_at_def sorted_wrt_append)
  qed
qed simp

lemma walk_all:
  "is_tree iv T t \<Longrightarrow> walk nxt iv t dst (- 1) = Some (dst @ map (\<lambda>k. (full_off nxt (it_start (nd iv k)), full_off nxt (it_end (nd iv k)))) (inorder T))"
proof (induction T arbitrary: t dst)
  case Leaf
  then show ?case by (subst walk.simps) simp
next
  case (Node L x R)
  then show ?case by (subst walk.simps) (simp add: node_at_def)
qed

lemma walk_limit:
  assumes "is_tree iv T t" and "length dst \<le> m"
  shows "walk nxt iv t dst (int m) = Some (take m (dst @ map (\<lambda>k. (full_off nxt (it_start (nd iv k)), full_off nxt (it_end (nd iv k)))) (inorder T)))"
  using assms
proof (induction T arbitrary: t dst)
  case Leaf
  then show ?case by (subst walk.simps) simp
next
  case (Node L x R)
  show ?case
  proof (cases "length dst = m")
    case True
    then show ?thesis by (subst walk.simps) simp
  next
    case False
    then show ?thesis using Node by (subst walk.simps) (auto simp: node_at_def min_def take_Cons')
  qed
qed

end
