(* ===== verification/Interval_Lists.thy ===== *)
theory Interval_Lists
  imports Prelude
begin

section \<open>Lists of intervals\<close>

text \<open>
  Ordered lists of half-open intervals that neither overlap nor touch, which is what the receive buffer
  keeps of the data that came early. A new interval cuts the list in three: what ends before it,
  what it touches, and what starts after it.
\<close>

subsection \<open>Definitions\<close>

definition gapped :: "(nat \<times> nat) list \<Rightarrow> bool" where
  "gapped xs \<longleftrightarrow> sorted_wrt (\<lambda>x y. snd x < fst y) xs"

definition covered :: "(nat \<times> nat) list \<Rightarrow> nat set" where
  "covered xs = (\<Union>x \<in> set xs. {fst x..<snd x})"

text \<open>The intervals after \<open>n\<close>, with a gap before each.\<close>

definition early :: "nat \<Rightarrow> (nat \<times> nat) list \<Rightarrow> bool" where
  "early n xs \<longleftrightarrow> gapped xs \<and> (\<forall>x \<in> set xs. n < fst x \<and> fst x < snd x)"

definition right_end :: "nat \<Rightarrow> (nat \<times> nat) list \<Rightarrow> nat" where
  "right_end n xs = (if xs = [] then n else snd (last xs))"

definition span_total :: "(nat \<times> nat) list \<Rightarrow> nat" where
  "span_total xs = sum_list (map (\<lambda>x. snd x - fst x) xs)"

lemma span_total_simps [simp]: "span_total [] = 0" "span_total (x # xs) = snd x - fst x + span_total xs" "span_total (xs @ ys) = span_total xs + span_total ys"
  by (simp_all add: span_total_def)

lemma covered_simps [simp]: "covered [] = {}" "covered (x # xs) = {fst x..<snd x} \<union> covered xs" "covered (xs @ ys) = covered xs \<union> covered ys"
  by (auto simp: covered_def)

lemma gapped_append: "gapped (xs @ ys) \<longleftrightarrow> gapped xs \<and> gapped ys \<and> (\<forall>x \<in> set xs. \<forall>y \<in> set ys. snd x < fst y)"
  by (simp add: gapped_def sorted_wrt_append)

lemma gapped_Cons: "gapped (x # xs) \<longleftrightarrow> (\<forall>y \<in> set xs. snd x < fst y) \<and> gapped xs" and gapped_Nil [simp]: "gapped []"
  by (simp_all add: gapped_def)

lemma early_append: "early n (xs @ ys) \<longleftrightarrow> early n xs \<and> early n ys \<and> (\<forall>x \<in> set xs. \<forall>y \<in> set ys. snd x < fst y)"
  by (auto simp: early_def gapped_append)

lemma early_Nil [simp]: "early n []" and early_one: "early n [x] \<longleftrightarrow> n < fst x \<and> fst x < snd x"
  by (simp_all add: early_def gapped_Cons)

lemma early_mono: "early n xs \<Longrightarrow> \<forall>x \<in> set xs. n' < fst x \<Longrightarrow> early n' xs"
  by (simp add: early_def)

text \<open>Cutting an ordered list by a test that holds of a front part.\<close>

lemma filter_cut: "sorted_wrt (\<lambda>x y. Q y \<longrightarrow> Q x) xs \<Longrightarrow> filter Q xs @ filter (\<lambda>x. \<not> Q x) xs = xs"
proof (induction xs)
  case (Cons x xs)
  show ?case
  proof (cases "Q x")
    case False
    then have "\<forall>y \<in> set xs. \<not> Q y" using Cons.prems by auto
    then have "filter Q xs = []" "filter (\<lambda>x. \<not> Q x) xs = xs" by (simp_all add: filter_empty_conv)
    then show ?thesis using False by simp
  qed (use Cons in simp)
qed simp

lemma early_cut:
  assumes "early n xs"
  shows "filter (\<lambda>x. snd x < k) xs @ filter (\<lambda>x. \<not> snd x < k) xs = xs" and "filter (\<lambda>x. fst x \<le> k) xs @ filter (\<lambda>x. \<not> fst x \<le> k) xs = xs"
proof -
  have w: "sorted_wrt (\<lambda>x y. snd x < fst y) xs" "\<forall>x \<in> set xs. fst x < snd x" using assms by (auto simp: early_def gapped_def)
  have s: "sorted_wrt (\<lambda>x y. snd y < k \<longrightarrow> snd x < k) xs" "sorted_wrt (\<lambda>x y. fst y \<le> k \<longrightarrow> fst x \<le> k) xs"
    by (rule sorted_wrt_mono_rel [OF _ w(1)]; use w(2) in force)+
  show "filter (\<lambda>x. snd x < k) xs @ filter (\<lambda>x. \<not> snd x < k) xs = xs" by (rule filter_cut [OF s(1)])
  show "filter (\<lambda>x. fst x \<le> k) xs @ filter (\<lambda>x. \<not> fst x \<le> k) xs = xs" by (rule filter_cut [OF s(2)])
qed

lemma early_bounds:
  assumes "early n xs" and "x \<in> set xs"
  shows "fst (hd xs) \<le> fst x" and "snd x \<le> snd (last xs)" and "n < fst x" and "fst x < snd x"
proof -
  have a: "gapped xs" "\<forall>x \<in> set xs. n < fst x \<and> fst x < snd x" using assms(1) by (simp_all add: early_def)
  obtain ys zs where xs: "xs = ys @ x # zs" using assms(2) by (meson split_list)
  have b: "\<forall>y \<in> set ys. snd y < fst x" "\<forall>z \<in> set zs. snd x < fst z" using a(1) by (auto simp: xs gapped_append gapped_Cons)
  show "fst (hd xs) \<le> fst x"
  proof (cases ys)
    case (Cons y ys')
    have "fst y < snd y" "snd y < fst x" using a(2) b(1) by (simp_all add: xs Cons)
    then show ?thesis by (simp add: xs Cons)
  qed (simp add: xs)
  show "snd x \<le> snd (last xs)"
  proof (cases "zs = []")
    case False
    then have "snd x < fst (last zs)" "fst (last zs) < snd (last zs)" using a(2) b(2) by (simp_all add: xs)
    then show ?thesis using False by (simp add: xs)
  qed (simp add: xs)
  show "n < fst x" "fst x < snd x" using a(2) assms(2) by simp_all
qed

lemma covered_bounds: "early n xs \<Longrightarrow> y \<in> covered xs \<Longrightarrow> n < y \<and> y < right_end n xs"
proof -
  assume e: "early n xs" and "y \<in> covered xs"
  then obtain x where x: "x \<in> set xs" "fst x \<le> y" "y < snd x" by (auto simp: covered_def)
  then show ?thesis using early_bounds [OF e x(1)] by (auto simp: right_end_def)
qed

lemma right_end_ge: "early n xs \<Longrightarrow> n \<le> right_end n xs"
  using early_bounds(3,4) [of n xs "last xs"] by (cases "xs = []") (auto simp: right_end_def)

subsection \<open>Joining\<close>

lemma join_covered:
  assumes "early n m" and "m \<noteq> []" and "\<forall>x \<in> set m. off \<le> snd x \<and> fst x \<le> e" and "off \<le> e"
  shows "{min off (fst (hd m))..<max e (snd (last m))} = {off..<e} \<union> covered m"
proof
  have hl: "hd m \<in> set m" "last m \<in> set m" using assms(2) by simp_all
  show "{min off (fst (hd m))..<max e (snd (last m))} \<subseteq> {off..<e} \<union> covered m"
  proof
    fix x assume x: "x \<in> {min off (fst (hd m))..<max e (snd (last m))}"
    consider "x < off" | "e \<le> x" | "off \<le> x" "x < e" by linarith
    then show "x \<in> {off..<e} \<union> covered m"
    proof cases
      case 1
      then have "fst (hd m) \<le> x" "x < snd (hd m)" using x assms(3) hl(1) by force+
      then show ?thesis using hl(1) by (auto simp: covered_def)
    next
      case 2
      then have "x < snd (last m)" "fst (last m) \<le> x" using x assms(3) hl(2) by force+
      then show ?thesis using hl(2) by (auto simp: covered_def)
    qed simp
  qed
  show "{off..<e} \<union> covered m \<subseteq> {min off (fst (hd m))..<max e (snd (last m))}"
    using early_bounds(1,2) [OF assms(1)] by (fastforce simp: covered_def)
qed

text \<open>The list after data from \<open>off\<close> to \<open>e\<close> came early.\<close>

definition joined :: "nat \<Rightarrow> nat \<Rightarrow> (nat \<times> nat) list \<Rightarrow> nat \<times> nat" where
  "joined off e m = (if m = [] then (off, e) else (min off (fst (hd m)), max e (snd (last m))))"

lemma join_ok:
  assumes xs: "early n (l @ m @ r)" and off: "n < off" "off < e"
    and l: "\<forall>x \<in> set l. snd x < off" and m: "\<forall>x \<in> set m. off \<le> snd x \<and> fst x \<le> e" and r: "\<forall>x \<in> set r. e < fst x"
  shows "early n (l @ joined off e m # r)" and "covered (l @ joined off e m # r) = covered (l @ m @ r) \<union> {off..<e}"
    and "right_end n (l @ joined off e m # r) = max (right_end n (l @ m @ r)) e"
proof -
  have em: "early n m" and el: "early n l" and er: "early n r" using xs by (simp_all add: early_append)
  let ?j = "joined off e m"
  have cov: "{fst ?j..<snd ?j} = {off..<e} \<union> covered m"
    using join_covered [OF em _ m] off(2) by (cases "m = []") (simp_all add: joined_def)
  have hl: "hd m \<in> set m" "last m \<in> set m" if "m \<noteq> []" using that by simp_all
  have j1: "n < fst ?j" "fst ?j < snd ?j"
    using off early_bounds(3) [OF em hl(1)] by (auto simp: joined_def min_def max_def)
  have j2: "\<forall>x \<in> set l. snd x < fst ?j" using l xs hl(1) by (auto simp: joined_def early_append)
  have j3: "\<forall>x \<in> set r. snd ?j < fst x" using r xs hl(2) by (auto simp: joined_def early_append)
  have lr: "\<forall>x \<in> set l. \<forall>y \<in> set r. snd x < fst y" using xs by (simp add: early_append)
  show "early n (l @ ?j # r)" using el er j1 j2 j3 lr by (simp add: early_def gapped_append gapped_Cons ball_Un)
  show "covered (l @ ?j # r) = covered (l @ m @ r) \<union> {off..<e}" using cov by auto
  show "right_end n (l @ ?j # r) = max (right_end n (l @ m @ r)) e"
  proof (cases "r = []")
    case True
    have "l \<noteq> [] \<Longrightarrow> snd (last l) < e" using l off(2) last_in_set by fastforce
    then show ?thesis using True off by (auto simp: right_end_def joined_def max_def)
  next
    case False
    then have "e < fst (last r)" "fst (last r) < snd (last r)" using r early_bounds(4) [OF er] last_in_set by blast+
    then show ?thesis using False by (simp add: right_end_def)
  qed
qed

text \<open>The list after data up to \<open>e\<close> came in order.\<close>

definition taken :: "nat \<Rightarrow> (nat \<times> nat) list \<Rightarrow> nat" where
  "taken e m = (if m = [] then e else max e (snd (last m)))"

lemma taken_ok:
  assumes xs: "early n (m @ r)" and e: "n < e" and m: "\<forall>x \<in> set m. fst x \<le> e" and r: "\<forall>x \<in> set r. e < fst x"
  shows "early (taken e m) r" and "{n..<taken e m} \<union> covered r = covered (m @ r) \<union> {n..<e}"
    and "right_end (taken e m) r = max (right_end n (m @ r)) e" and "e \<le> taken e m"
proof -
  have em: "early n m" and er: "early n r" and a: "\<forall>x \<in> set m. \<forall>y \<in> set r. snd x < fst y" using xs by (simp_all add: early_append)
  show "early (taken e m) r" by (rule early_mono [OF er]) (use r a in \<open>auto simp: taken_def\<close>)
  have "{n..<taken e m} = {n..<e} \<union> covered m"
  proof (cases "m = []")
    case False
    have "\<forall>x \<in> set m. n \<le> snd x \<and> fst x \<le> e" using m early_bounds(3,4) [OF em] by force
    from join_covered [OF em False this less_imp_le [OF e]] early_bounds(3) [OF em hd_in_set [OF False]] show ?thesis
      using False by (simp add: taken_def min_def)
  qed (simp add: taken_def)
  then show "{n..<taken e m} \<union> covered r = covered (m @ r) \<union> {n..<e}" by auto
  show "right_end (taken e m) r = max (right_end n (m @ r)) e"
  proof (cases "r = []")
    case True
    then show ?thesis using e by (auto simp: right_end_def taken_def max_def)
  next
    case False
    then have "e < fst (last r)" "fst (last r) < snd (last r)" using r early_bounds(4) [OF er] last_in_set by blast+
    then show ?thesis using False by (simp add: right_end_def)
  qed
  show "e \<le> taken e m" by (simp add: taken_def)
qed

end
