(* ===== verification/Recv_Table.thy ===== *)
theory Recv_Table
  imports Recv_Tree Interval_Lists
begin

section \<open>The table of intervals\<close>

text \<open>
  The nodes of the array, in use or free, make up a number of trees, each with a list of intervals
  of offsets, and the free list. The functions on the table are functions on these lists.
\<close>

subsection \<open>Offsets\<close>

lemma full_off_ok:
  assumes "unat nxt \<le> s" and "s < unat nxt + 2 ^ 32" and "s < 2 ^ 64"
  shows "full_off nxt (word_of_nat s) = word_of_nat s"
proof -
  obtain d where d: "s = unat nxt + d" using assms(1) le_Suc_ex by blast
  have d32: "d < 2 ^ 32" using assms(2) d by simp
  have "(ucast nxt :: uint32) = word_of_nat (unat nxt)" by (simp add: unsigned_ucast_eq)
  then have "(word_of_nat s :: uint32) - ucast nxt = word_of_nat d" by (simp add: d)
  moreover have "(ucast (word_of_nat d :: uint32) :: uint64) = word_of_nat d"
    using d32 by (simp add: unsigned_of_nat take_bit_nat_eq_self)
  ultimately show ?thesis by (simp add: full_off_def d)
qed

lemma ucast_offset: "(ucast (word_of_nat s :: uint64) :: uint32) = word_of_nat s"
  by (simp add: unsigned_of_nat word_of_nat_eq_iff)

lemma unat_offset: "s < 2 ^ 64 \<Longrightarrow> unat (word_of_nat s :: uint64) = s"
  by (simp add: unat_of_nat take_bit_nat_eq_self)

lemma offset_less: "s < 2 ^ 64 \<Longrightarrow> t < 2 ^ 64 \<Longrightarrow> (word_of_nat s :: uint64) < word_of_nat t \<longleftrightarrow> s < t"
  by (simp add: word_less_nat_alt unat_offset)

lemma offset_le: "s < 2 ^ 64 \<Longrightarrow> t < 2 ^ 64 \<Longrightarrow> (word_of_nat s :: uint64) \<le> word_of_nat t \<longleftrightarrow> s \<le> t"
  by (simp add: word_le_nat_alt unat_offset)

lemma offset_diff: "s \<le> t \<Longrightarrow> (word_of_nat t :: 'a::len word) - word_of_nat s = word_of_nat (t - s)"
  by (simp add: of_nat_diff)

subsection \<open>The trees of the array\<close>

definition low_bits :: "nat \<times> nat \<Rightarrow> uint32 \<times> uint32" where
  "low_bits x = (word_of_nat (fst x), word_of_nat (snd x))"

definition holds :: "interval list \<Rightarrow> nat tree \<Rightarrow> nat \<times> (nat \<times> nat) list \<Rightarrow> bool" where
  "holds iv T x \<longleftrightarrow> is_tree iv T (fst x) \<and> map (data_of iv) (inorder T) = map low_bits (snd x)"

definition nodes_of :: "nat tree list \<Rightarrow> nat list" where
  "nodes_of Ts = concat (map inorder Ts)"

definition arena :: "recvBuf \<Rightarrow> (nat \<times> (nat \<times> nat) list) list \<Rightarrow> bool" where
  "arena b rs \<longleftrightarrow> (\<exists>Ts fs. list_all2 (holds (rb_iv b)) Ts rs \<and> is_free (rb_iv b) fs (rb_free b)
     \<and> distinct (nodes_of Ts @ fs) \<and> set (nodes_of Ts @ fs) = {1..rb_used b} \<and> rb_used b \<le> length (rb_iv b))"

text \<open>What the functions on the trees leave alone.\<close>

definition core_of :: "recvBuf \<Rightarrow> ring \<times> uint64 \<times> uint64 \<times> uint64 \<times> uint32 list \<times> nat" where
  "core_of b = (rb_r b, rb_readOff b, rb_nxtOff b, rb_seed b, rb_recent b, length (rb_iv b))"

definition counts_of :: "recvBuf \<Rightarrow> int \<times> uint64" where
  "counts_of b = (rb_n b, rb_ooo b)"

text \<open>Intervals that are far enough from wrapping: each is found again from the low bits of its ends.\<close>

definition fits :: "uint64 \<Rightarrow> (nat \<times> nat) list \<Rightarrow> bool" where
  "fits nxt xs \<longleftrightarrow> (\<forall>(s, e) \<in> set xs. unat nxt \<le> s \<and> s < e \<and> e < unat nxt + 2 ^ 32 \<and> e < 2 ^ 64)"

lemma holds_length: "holds iv T (t, xs) \<Longrightarrow> length (inorder T) = length xs"
  by (metis fst_conv snd_conv holds_def length_map)

lemma holds_outside:
  assumes "holds iv T x" and "outside S iv iv'" and "set_tree T \<inter> S = {}"
  shows "holds iv' T x"
proof -
  have t: "is_tree iv T (fst x)" using assms(1) by (simp add: holds_def)
  have "map (data_of iv') (inorder T) = map (data_of iv) (inorder T)"
  proof (rule map_cong [OF refl])
    fix k assume k: "k \<in> set (inorder T)"
    then have "0 < k" "k \<notin> S" using is_tree_bounds [OF t] assms(3) by auto
    then show "data_of iv' k = data_of iv k" using assms(2) by (simp add: outside_def data_of_def)
  qed
  then show ?thesis using assms(1) is_tree_outside [OF t assms(2,3)] unfolding holds_def by metis
qed

lemma all_holds_outside:
  assumes "list_all2 (holds iv) Ts rs" and "outside S iv iv'" and "set (nodes_of Ts) \<inter> S = {}"
  shows "list_all2 (holds iv') Ts rs"
  using assms(1,3)
proof (induction rule: list_all2_induct)
  case (Cons T Ts x rs)
  have "set_tree T \<inter> S = {}" "set (nodes_of Ts) \<inter> S = {}" using Cons.prems by (auto simp: nodes_of_def)
  then show ?case using Cons holds_outside [OF _ assms(2)] by auto
qed simp

lemma arena_perm:
  assumes "arena b rs" and "mset rs' = mset rs"
  shows "arena b rs'"
proof -
  obtain Ts fs where a: "list_all2 (holds (rb_iv b)) Ts rs" "is_free (rb_iv b) fs (rb_free b)"
     "distinct (nodes_of Ts @ fs)" "set (nodes_of Ts @ fs) = {1..rb_used b}" "rb_used b \<le> length (rb_iv b)"
    using assms(1) by (auto simp: arena_def)
  have "list_all2 (\<lambda>x T. holds (rb_iv b) T x) rs Ts" using a(1) by (simp add: list_all2_conv_all_nth)
  from list_all2_reorder_left_invariance [OF this assms(2)]
  obtain Ts' where t: "list_all2 (holds (rb_iv b)) Ts' rs'" "mset Ts' = mset Ts" by (auto simp: list_all2_conv_all_nth)
  have n: "mset (nodes_of Us) = sum_mset (image_mset (\<lambda>T. mset (inorder T)) (mset Us))" for Us
    by (simp add: nodes_of_def mset_concat sum_mset_sum_list [symmetric] comp_def)
  have m: "mset (nodes_of Ts') = mset (nodes_of Ts)" unfolding n t(2) ..
  then have "set (nodes_of Ts') = set (nodes_of Ts)" "distinct (nodes_of Ts') = distinct (nodes_of Ts)"
    by (metis set_mset_mset, metis mset_eq_imp_distinct_iff)
  then show ?thesis unfolding arena_def using a t(1) by (intro exI [of _ Ts'] exI [of _ fs]) auto
qed

lemma arena_root_zero:
  assumes "arena b ((t, xs) # rs)"
  shows "t = 0 \<longleftrightarrow> xs = []"
proof -
  obtain T where "is_tree (rb_iv b) T t" "length (inorder T) = length xs"
    using assms holds_length by (auto simp: arena_def list_all2_Cons2 holds_def)
  then show ?thesis using is_tree_leaf_iff by (metis eq_inorder_Nil length_0_conv)
qed

subsection \<open>The functions on the trees\<close>

lemma arena_merge:
  assumes "arena b ((a, xs) # (c, ys) # rs)"
  shows "\<exists>b' t. merge_trees b a c = Some (b', t) \<and> arena b' ((t, xs @ ys) # rs) \<and> core_of b' = core_of b \<and> counts_of b' = counts_of b"
proof -
  let ?iv = "rb_iv b"
  obtain A C Ts fs where h: "holds ?iv A (a, xs)" "holds ?iv C (c, ys)" "list_all2 (holds ?iv) Ts rs" "is_free ?iv fs (rb_free b)"
    "distinct (nodes_of (A # C # Ts) @ fs)" "set (nodes_of (A # C # Ts) @ fs) = {1..rb_used b}" "rb_used b \<le> length ?iv"
    using assms by (auto simp: arena_def list_all2_Cons2)
  have d: "distinct (inorder A @ inorder C)" "set (nodes_of Ts) \<inter> (set_tree A \<union> set_tree C) = {}" "set fs \<inter> (set_tree A \<union> set_tree C) = {}"
    using h(5) by (auto simp: nodes_of_def)
  obtain iv' k T where m: "merge_nodes ?iv a c = Some (iv', k)" "is_tree iv' T k" "inorder T = inorder A @ inorder C" "relinked (set_tree A \<union> set_tree C) ?iv iv'"
    using merge_ok [of ?iv A a C c] h(1,2) d(1) by (auto simp: holds_def)
  note o = relinked_outside [OF m(4)]
  have "map (data_of iv') (inorder T) = map (data_of ?iv) (inorder A @ inorder C)"
    unfolding m(3) using m(4) is_tree_bounds h(1,2) by (intro map_cong) (auto simp: relinked_def holds_def)
  also have "\<dots> = map low_bits (xs @ ys)" using h(1,2) by (simp add: holds_def)
  finally have T: "holds iv' T (k, xs @ ys)" using m(2) by (simp add: holds_def)
  have n: "nodes_of (T # Ts) = nodes_of (A # C # Ts)" by (simp add: nodes_of_def m(3))
  have "arena (b\<lparr>rb_iv := iv'\<rparr>) ((k, xs @ ys) # rs)"
    unfolding arena_def using T all_holds_outside [OF h(3) o d(2)] is_free_outside [OF h(4) o d(3)] h(5-7) outside_length [OF o]
    by (intro exI [of _ "T # Ts"] exI [of _ fs]) (simp add: n)
  then show ?thesis using m(1) outside_length [OF o] by (simp add: merge_trees_def core_of_def counts_of_def)
qed

lemma arena_split:
  assumes "arena b ((t, xs) # rs)"
    and "\<And>k s e. (s, e) \<in> set xs \<Longrightarrow> data_of (rb_iv b) k = low_bits (s, e) \<Longrightarrow> P (nd (rb_iv b) k) \<longleftrightarrow> Q (s, e)"
    and "sorted_wrt (\<lambda>x y. Q y \<longrightarrow> Q x) xs"
  shows "\<exists>iv' l r. split_nodes P (rb_iv b) t = Some (iv', l, r)
    \<and> arena (b\<lparr>rb_iv := iv'\<rparr>) ((l, filter Q xs) # (r, filter (\<lambda>x. \<not> Q x) xs) # rs) \<and> length iv' = length (rb_iv b)"
proof -
  let ?iv = "rb_iv b"
  obtain T Ts fs where h: "holds ?iv T (t, xs)" "list_all2 (holds ?iv) Ts rs" "is_free ?iv fs (rb_free b)"
    "distinct (nodes_of (T # Ts) @ fs)" "set (nodes_of (T # Ts) @ fs) = {1..rb_used b}" "rb_used b \<le> length ?iv"
    using assms(1) by (auto simp: arena_def list_all2_Cons2)
  have T: "is_tree ?iv T t" "map (data_of ?iv) (inorder T) = map low_bits xs" using h(1) by (simp_all add: holds_def)
  have d: "distinct (inorder T)" "set (nodes_of Ts) \<inter> set_tree T = {}" "set fs \<inter> set_tree T = {}"
    using h(4) by (auto simp: nodes_of_def)
  have len: "length (inorder T) = length xs" by (rule holds_length [OF h(1)])
  have at: "data_of ?iv (inorder T ! i) = low_bits (xs ! i)" if "i < length xs" for i
    using arg_cong [OF T(2), of "\<lambda>l. l ! i"] that len by (simp del: map_eq_conv)
  have PQ: "P (nd ?iv (inorder T ! i)) \<longleftrightarrow> Q (xs ! i)" if "i < length xs" for i
    using assms(2) [of "fst (xs ! i)" "snd (xs ! i)"] at [OF that] that by simp
  have sw: "sorted_wrt (\<lambda>j k. P (nd ?iv k) \<longrightarrow> P (nd ?iv j)) (inorder T)"
    using assms(3) PQ len by (auto simp: sorted_wrt_iff_nth_less)
  obtain iv' l r L R where m: "split_nodes P ?iv t = Some (iv', l, r)" "is_tree iv' L l" "is_tree iv' R r"
    "inorder T = inorder L @ inorder R" "relinked (set_tree T) ?iv iv'"
    "(\<forall>k \<in> set_tree L. P (nd ?iv k)) \<and> (\<forall>k \<in> set_tree R. \<not> P (nd ?iv k))"
    using split_ok [OF T(1) d(1), of P] sw by blast
  note o = relinked_outside [OF m(5)]
  let ?n = "length (inorder L)"
  have nl: "?n \<le> length xs" using m(4) len by simp
  have q1: "\<forall>x \<in> set (take ?n xs). Q x"
  proof
    fix x assume "x \<in> set (take ?n xs)"
    then obtain i where i: "i < ?n" "x = xs ! i" using nl by (auto simp: in_set_conv_nth)
    then have "inorder T ! i \<in> set_tree L" using m(4) by (metis nth_append nth_mem set_inorder)
    then show "Q x" using m(6) PQ [of i] i nl by simp
  qed
  have q2: "\<forall>x \<in> set (drop ?n xs). \<not> Q x"
  proof
    fix x assume "x \<in> set (drop ?n xs)"
    then obtain i where i: "i < length xs - ?n" "x = xs ! (?n + i)" using nl by (auto simp: in_set_conv_nth)
    then have "inorder T ! (?n + i) = inorder R ! i" "i < length (inorder R)" using m(4) len by (auto simp: nth_append)
    then have "inorder T ! (?n + i) \<in> set_tree R" by (metis nth_mem set_inorder)
    then show "\<not> Q x" using m(6) PQ [of "?n + i"] i nl by simp
  qed
  have "filter Q (take ?n xs @ drop ?n xs) = take ?n xs" "filter (\<lambda>x. \<not> Q x) (take ?n xs @ drop ?n xs) = drop ?n xs"
    using q1 q2 by (simp_all only: filter_append filter_True filter_False append_Nil append_Nil2 not_not simp_thms ball_simps)
  then have f: "filter Q xs = take ?n xs" "filter (\<lambda>x. \<not> Q x) xs = drop ?n xs" by (simp_all only: append_take_drop_id)
  have "map (data_of iv') (inorder T) = map (data_of ?iv) (inorder T)"
    using m(5) is_tree_bounds [OF T(1)] by (intro map_cong) (auto simp: relinked_def)
  then have "map (data_of iv') (inorder L @ inorder R) = map (data_of ?iv) (inorder T)" unfolding m(4) .
  also have "\<dots> = map low_bits (take ?n xs) @ map low_bits (drop ?n xs)" unfolding T(2) by (simp flip: map_append)
  finally have "map (data_of iv') (inorder L) = map low_bits (take ?n xs)" "map (data_of iv') (inorder R) = map low_bits (drop ?n xs)"
    using nl by (simp_all add: append_eq_append_conv)
  then have LR: "holds iv' L (l, filter Q xs)" "holds iv' R (r, filter (\<lambda>x. \<not> Q x) xs)" using m(2,3) by (simp_all add: holds_def f)
  have n: "nodes_of (L # R # Ts) = nodes_of (T # Ts)" by (simp add: nodes_of_def m(4))
  have "arena (b\<lparr>rb_iv := iv'\<rparr>) ((l, filter Q xs) # (r, filter (\<lambda>x. \<not> Q x) xs) # rs)"
    unfolding arena_def using LR all_holds_outside [OF h(2) o d(2)] is_free_outside [OF h(3) o d(3)] h(4-6) outside_length [OF o]
    by (intro exI [of _ "L # R # Ts"] exI [of _ fs]) (simp add: n)
  then show ?thesis using m(1) outside_length [OF o] by blast
qed

lemma fitsD:
  assumes "fits nxt xs" and "(s, e) \<in> set xs"
  shows "full_off nxt (word_of_nat s) = word_of_nat s" and "full_off nxt (word_of_nat e) = word_of_nat e"
    and "unat nxt \<le> s" and "s < e" and "e < 2 ^ 64" and "s < 2 ^ 64" and "e < unat nxt + 2 ^ 32"
  using assms by (force simp: fits_def intro!: full_off_ok)+

lemma splitEndBefore_ok:
  assumes "arena b ((t, xs) # rs)" and "fits (rb_nxtOff b) xs" and "gapped xs" and "off < 2 ^ 64"
  shows "\<exists>b' l r. splitEndBefore b t (word_of_nat off) = Some (b', l, r)
    \<and> arena b' ((l, filter (\<lambda>x. snd x < off) xs) # (r, filter (\<lambda>x. \<not> snd x < off) xs) # rs) \<and> core_of b' = core_of b \<and> counts_of b' = counts_of b"
proof -
  have P: "full_off (rb_nxtOff b) (it_end (nd (rb_iv b) k)) < word_of_nat off \<longleftrightarrow> snd (s, e) < off"
    if "(s, e) \<in> set xs" "data_of (rb_iv b) k = low_bits (s, e)" for k s e
    using that fitsD [OF assms(2) that(1)] assms(4) by (simp add: data_of_def low_bits_def offset_less)
  have w: "sorted_wrt (\<lambda>x y. snd y < off \<longrightarrow> snd x < off) xs"
    by (rule sorted_wrt_mono_rel [OF _ assms(3) [unfolded gapped_def]]) (use fitsD(4) [OF assms(2)] in force)
  from arena_split [where P = "\<lambda>x. full_off (rb_nxtOff b) (it_end x) < word_of_nat off" and Q = "\<lambda>x. snd x < off", OF assms(1) P w]
  show ?thesis by (auto simp: splitEndBefore_def core_of_def counts_of_def)
qed

lemma splitStartUpTo_ok:
  assumes "arena b ((t, xs) # rs)" and "fits (rb_nxtOff b) xs" and "gapped xs" and "off < 2 ^ 64"
  shows "\<exists>b' l r. splitStartUpTo b t (word_of_nat off) = Some (b', l, r)
    \<and> arena b' ((l, filter (\<lambda>x. fst x \<le> off) xs) # (r, filter (\<lambda>x. \<not> fst x \<le> off) xs) # rs) \<and> core_of b' = core_of b \<and> counts_of b' = counts_of b"
proof -
  have P: "full_off (rb_nxtOff b) (it_start (nd (rb_iv b) k)) \<le> word_of_nat off \<longleftrightarrow> fst (s, e) \<le> off"
    if "(s, e) \<in> set xs" "data_of (rb_iv b) k = low_bits (s, e)" for k s e
    using that fitsD [OF assms(2) that(1)] assms(4) by (simp add: data_of_def low_bits_def offset_le)
  have w: "sorted_wrt (\<lambda>x y. fst y \<le> off \<longrightarrow> fst x \<le> off) xs"
    by (rule sorted_wrt_mono_rel [OF _ assms(3) [unfolded gapped_def]]) (use fitsD(4) [OF assms(2)] in force)
  from arena_split [where P = "\<lambda>x. full_off (rb_nxtOff b) (it_start x) \<le> word_of_nat off" and Q = "\<lambda>x. fst x \<le> off", OF assms(1) P w]
  show ?thesis by (auto simp: splitStartUpTo_def core_of_def counts_of_def)
qed

lemma bytes_total:
  assumes "map (data_of iv) ks = map low_bits xs" and "fits nxt xs"
  shows "sum_list (map (node_bytes iv) ks) = word_of_nat (span_total xs)"
  using assms
proof (induction xs arbitrary: ks)
  case (Cons x xs)
  obtain k ks' where k: "ks = k # ks'" "data_of iv k = low_bits x" "map (data_of iv) ks' = map low_bits xs"
    using Cons.prems(1) by (cases ks) auto
  obtain s e where x: "x = (s, e)" by (cases x)
  have "unat nxt \<le> s \<and> s < e \<and> e < unat nxt + 2 ^ 32" using Cons.prems(2) by (simp add: fits_def x)
  then have f: "s < e" "e - s < 2 ^ 32" by linarith+
  have "node_bytes iv k = ucast (word_of_nat e - word_of_nat s :: uint32)" using k(2) by (simp add: node_bytes_def data_of_def low_bits_def x)
  also have "\<dots> = ucast (word_of_nat (e - s) :: uint32)" by (simp only: offset_diff [OF less_imp_le [OF f(1)]])
  also have "\<dots> = word_of_nat (e - s)" using f(2) by (simp add: unsigned_of_nat take_bit_nat_eq_self)
  finally have "node_bytes iv k = word_of_nat (snd x - fst x)" by (simp only: x fst_conv snd_conv)
  moreover have "fits nxt xs" using Cons.prems(2) by (simp add: fits_def)
  ultimately show ?case using Cons.IH [OF k(3)] by (simp add: k(1))
qed simp

lemma release_tree_ok:
  assumes "arena b ((t, xs) # rs)" and "fits nxt xs"
  shows "\<exists>b'. release_tree b t = Some b' \<and> arena b' rs \<and> core_of b' = core_of b \<and> rb_n b' = rb_n b - int (length xs)
    \<and> rb_ooo b' = rb_ooo b - word_of_nat (span_total xs) \<and> (xs \<noteq> [] \<longrightarrow> rb_free b' \<noteq> 0)"
proof -
  let ?iv = "rb_iv b"
  obtain T Ts fs where h: "holds ?iv T (t, xs)" "list_all2 (holds ?iv) Ts rs" "is_free ?iv fs (rb_free b)"
    "distinct (nodes_of (T # Ts) @ fs)" "set (nodes_of (T # Ts) @ fs) = {1..rb_used b}" "rb_used b \<le> length ?iv"
    using assms(1) by (auto simp: arena_def list_all2_Cons2)
  have T: "is_tree ?iv T t" "map (data_of ?iv) (inorder T) = map low_bits xs" using h(1) by (simp_all add: holds_def)
  have d: "distinct (inorder T @ fs)" "set (nodes_of Ts) \<inter> set_tree T = {}" using h(4) by (auto simp: nodes_of_def)
  obtain iv' free' fs' where r: "release_nodes ?iv (rb_free b) (rb_ooo b) t = Some (iv', free', rb_ooo b - word_of_nat (span_total xs), int (size T))"
    "is_free iv' fs' free'" "distinct fs'" "set fs' = set_tree T \<union> set fs" "outside (set_tree T) ?iv iv'"
    using release_nodes_ok [OF T(1) h(3) d(1), of "rb_ooo b"] bytes_total [OF T(2) assms(2)] by auto
  have len: "int (size T) = int (length xs)" using holds_length [OF h(1)] by simp
  have "set (nodes_of Ts @ fs') = {1..rb_used b}" "distinct (nodes_of Ts @ fs')" using h(4,5) r(3,4) by (auto simp: nodes_of_def)
  then have "arena (b\<lparr>rb_iv := iv', rb_free := free', rb_ooo := rb_ooo b - word_of_nat (span_total xs), rb_n := rb_n b - int (length xs)\<rparr>) rs"
    unfolding arena_def using all_holds_outside [OF h(2) r(5) d(2)] r(2) h(6) outside_length [OF r(5)]
    by (intro exI [of _ Ts] exI [of _ fs']) simp
  moreover have "free' \<noteq> 0" if "xs \<noteq> []"
  proof -
    have "T \<noteq> Leaf" using holds_length [OF h(1)] that by auto
    then have "fs' \<noteq> []" using r(4) by (cases T) auto
    then show ?thesis using r(2) by (cases fs') auto
  qed
  ultimately show ?thesis using r(1) outside_length [OF r(5)] by (simp add: release_tree_def core_of_def len)
qed

text \<open>The number of intervals of all trees: the table is full when it is the size of the array.\<close>

definition tree_count :: "(nat \<times> (nat \<times> nat) list) list \<Rightarrow> nat" where
  "tree_count rs = sum_list (map (length \<circ> snd) rs)"

lemma nodes_count: "list_all2 (holds iv) Ts rs \<Longrightarrow> length (nodes_of Ts) = tree_count rs"
proof (induction rule: list_all2_induct)
  case (Cons T Ts x rs)
  then show ?case using holds_length [of iv T "fst x" "snd x"] by (simp add: nodes_of_def tree_count_def)
qed (simp_all add: nodes_of_def tree_count_def)

lemma arena_count: "arena b rs \<Longrightarrow> tree_count rs \<le> length (rb_iv b)"
proof -
  assume "arena b rs"
  then obtain Ts fs where h: "list_all2 (holds (rb_iv b)) Ts rs" "distinct (nodes_of Ts @ fs)" "set (nodes_of Ts @ fs) = {1..rb_used b}" "rb_used b \<le> length (rb_iv b)"
    by (auto simp: arena_def)
  have "length (nodes_of Ts @ fs) = rb_used b" using distinct_card [OF h(2)] h(3) by simp
  then show ?thesis using nodes_count [OF h(1)] h(4) by simp
qed

lemma alloc_ok:
  assumes "arena b rs"
  shows "tree_count rs = length (rb_iv b) \<Longrightarrow> alloc b (word_of_nat s) (word_of_nat e) = Some (b, 0)"
    and "tree_count rs < length (rb_iv b) \<Longrightarrow> \<exists>b' k. alloc b (word_of_nat s) (word_of_nat e) = Some (b', k) \<and> k \<noteq> 0
      \<and> arena b' ((k, [(s, e)]) # rs) \<and> core_of b' = core_of b \<and> counts_of b' = counts_of b \<and> rb_root b' = rb_root b"
proof -
  let ?iv = "rb_iv b"
  obtain Ts fs where h: "list_all2 (holds ?iv) Ts rs" "is_free ?iv fs (rb_free b)" "distinct (nodes_of Ts @ fs)"
    "set (nodes_of Ts @ fs) = {1..rb_used b}" "rb_used b \<le> length ?iv"
    using assms by (auto simp: arena_def)
  have n: "tree_count rs + length fs = rb_used b" using distinct_card [OF h(3)] h(4) nodes_count [OF h(1)] by simp
  have fs: "rb_free b = 0 \<longleftrightarrow> fs = []" using h(2) by (cases fs) auto
  show "alloc b (word_of_nat s) (word_of_nat e) = Some (b, 0)" if "tree_count rs = length ?iv"
  proof -
    have "length fs = 0" "rb_used b = length ?iv" using that n h(5) by linarith+
    then show ?thesis using fs by (simp add: alloc_def)
  qed
  assume room: "tree_count rs < length ?iv"
  have fill: "\<exists>b'. fill_node c k (word_of_nat s) (word_of_nat e) = b' \<and> arena b' ((k, [(s, e)]) # rs) \<and> core_of b' = core_of b
      \<and> counts_of b' = counts_of b \<and> rb_root b' = rb_root b"
    if c: "rb_iv c = ?iv" "core_of c = core_of b" "counts_of c = counts_of b" "rb_root c = rb_root b" "is_free ?iv fs' (rb_free c)"
      "distinct (k # nodes_of Ts @ fs')" "set (k # nodes_of Ts @ fs') = {1..rb_used c}" "rb_used c \<le> length ?iv" "0 < k" "k \<le> length ?iv" for c k fs'
  proof -
    let ?c = "fill_node c k (word_of_nat s) (word_of_nat e)"
    obtain p where iv: "rb_iv ?c = upd_node ?iv k (\<lambda>_. \<lparr>it_start = word_of_nat s, it_end = word_of_nat e, it_l = 0, it_r = 0, it_pri = p\<rparr>)"
      by (simp add: fill_node_def Let_def c(1) ucast_offset)
    have o: "outside {k} ?iv (rb_iv ?c)" unfolding iv by (rule outside_upd) (use c(9,10) in simp_all)
    have rest: "rb_free ?c = rb_free c" "rb_used ?c = rb_used c" by (simp_all add: fill_node_def Let_def)
    have "holds (rb_iv ?c) (Node Leaf k Leaf) (k, [(s, e)])"
      using c(9,10) unfolding iv by (simp add: holds_def upd_node_nth data_of_def low_bits_def)
    then have "arena ?c ((k, [(s, e)]) # rs)" unfolding arena_def
      using all_holds_outside [OF h(1) o] is_free_outside [OF c(5) o] c(6-8) outside_length [OF o] rest
      by (intro exI [of _ "Node Leaf k Leaf # Ts"] exI [of _ fs']) (auto simp: nodes_of_def)
    then show ?thesis using c(2-4) outside_length [OF o] c(1) by (simp add: fill_node_def Let_def core_of_def counts_of_def)
  qed
  show "\<exists>b' k. alloc b (word_of_nat s) (word_of_nat e) = Some (b', k) \<and> k \<noteq> 0
      \<and> arena b' ((k, [(s, e)]) # rs) \<and> core_of b' = core_of b \<and> counts_of b' = counts_of b \<and> rb_root b' = rb_root b"
  proof (cases fs)
    case Nil
    then have u: "rb_used b < length ?iv" using room n by simp
    have "set (Suc (rb_used b) # nodes_of Ts) = {1..Suc (rb_used b)}" "Suc (rb_used b) \<notin> set (nodes_of Ts)"
      using h(4) Nil by auto
    then show ?thesis using fill [of "b\<lparr>rb_used := rb_used b + 1\<rparr>" "[]" "rb_used b + 1"] Nil u h(2,3) fs
      by (simp add: alloc_def core_of_def counts_of_def)
  next
    case (Cons k fs')
    then have k: "rb_free b = k" "0 < k" "k \<le> length ?iv" "is_free ?iv fs' (it_l (nd ?iv k))" using h(2) by simp_all
    have "distinct (k # nodes_of Ts @ fs')" "set (k # nodes_of Ts @ fs') = {1..rb_used b}" using h(3,4) Cons by auto
    then show ?thesis using fill [of "b\<lparr>rb_free := it_l (nd ?iv k)\<rparr>" fs' k] k h(5)
      by (simp add: alloc_def node_at_def core_of_def counts_of_def)
  qed
qed

subsection \<open>Searching and listing\<close>

definition offsets :: "nat \<times> nat \<Rightarrow> uint64 \<times> uint64" where
  "offsets x = (word_of_nat (fst x), word_of_nat (snd x))"

text \<open>A tree of the arena with its nodes and their intervals, node by node.\<close>

lemma arena_nodes:
  assumes "arena b ((t, xs) # rs)" and "fits (rb_nxtOff b) xs"
  obtains T where "is_tree (rb_iv b) T t" and "length (inorder T) = length xs" and "distinct (inorder T)"
    and "\<And>i. i < length xs \<Longrightarrow> node_at (rb_iv b) (inorder T ! i) = Some (nd (rb_iv b) (inorder T ! i))"
    and "\<And>i. i < length xs \<Longrightarrow> (full_off (rb_nxtOff b) (it_start (nd (rb_iv b) (inorder T ! i))),
          full_off (rb_nxtOff b) (it_end (nd (rb_iv b) (inorder T ! i)))) = offsets (xs ! i)"
proof -
  let ?iv = "rb_iv b"
  obtain T Ts fs where h: "holds ?iv T (t, xs)" "distinct (nodes_of (T # Ts) @ fs)"
    using assms(1) by (auto simp: arena_def list_all2_Cons2)
  have T: "is_tree ?iv T t" "map (data_of ?iv) (inorder T) = map low_bits xs" using h(1) by (simp_all add: holds_def)
  have len: "length (inorder T) = length xs" by (rule holds_length [OF h(1)])
  have "(full_off (rb_nxtOff b) (it_start (nd ?iv (inorder T ! i))), full_off (rb_nxtOff b) (it_end (nd ?iv (inorder T ! i)))) = offsets (xs ! i)"
    if i: "i < length xs" for i
  proof -
    obtain s e where x: "xs ! i = (s, e)" by (cases "xs ! i")
    have "data_of ?iv (inorder T ! i) = low_bits (xs ! i)" using arg_cong [OF T(2), of "\<lambda>l. l ! i"] i len by (simp del: map_eq_conv)
    then show ?thesis using fitsD(1,2) [OF assms(2), of s e] nth_mem [OF i] by (simp add: x data_of_def low_bits_def offsets_def)
  qed
  moreover have "node_at ?iv (inorder T ! i) = Some (nd ?iv (inorder T ! i))" if "i < length xs" for i
    using that len node_at_tree [OF T(1)] by (metis nth_mem set_inorder)
  moreover have "distinct (inorder T)" using h(2) by (simp add: nodes_of_def)
  ultimately show thesis using T(1) len that by blast
qed

lemma arena_ends:
  assumes "arena b ((t, xs) # rs)" and "fits (rb_nxtOff b) xs" and "xs \<noteq> []"
  shows "\<exists>f g. firstNode (rb_iv b) t = Some f \<and> lastNode (rb_iv b) t = Some g
    \<and> kStart b f = Some (word_of_nat (fst (hd xs))) \<and> kEnd b f = Some (word_of_nat (snd (hd xs)))
    \<and> kEnd b g = Some (word_of_nat (snd (last xs))) \<and> (f = g \<longleftrightarrow> length xs = 1)"
proof -
  obtain T where T: "is_tree (rb_iv b) T t" "length (inorder T) = length xs" "distinct (inorder T)"
    and n: "\<And>i. i < length xs \<Longrightarrow> node_at (rb_iv b) (inorder T ! i) = Some (nd (rb_iv b) (inorder T ! i))"
    and o: "\<And>i. i < length xs \<Longrightarrow> (full_off (rb_nxtOff b) (it_start (nd (rb_iv b) (inorder T ! i))),
          full_off (rb_nxtOff b) (it_end (nd (rb_iv b) (inorder T ! i)))) = offsets (xs ! i)"
    by (rule arena_nodes [OF assms(1,2)]) (rule that)
  have ne: "inorder T \<noteq> []" using T(2) assms(3) by auto
  then have leaf: "T \<noteq> Leaf" by auto
  let ?m = "length xs - 1"
  have hl: "hd (inorder T) = inorder T ! 0" "last (inorder T) = inorder T ! ?m" "hd xs = xs ! 0" "last xs = xs ! ?m"
    using ne assms(3) T(2) by (simp_all add: hd_conv_nth last_conv_nth)
  have i: "0 < length xs" "?m < length xs" using assms(3) by auto
  have "inorder T ! 0 = inorder T ! ?m \<longleftrightarrow> 0 = ?m" by (rule nth_eq_iff_index_eq [OF T(3)]) (use i T(2) in simp_all)
  moreover have "0 = ?m \<longleftrightarrow> length xs = 1" using i(1) by linarith
  ultimately have "inorder T ! 0 = inorder T ! ?m \<longleftrightarrow> length xs = 1" by simp
  then show ?thesis using firstNode_ok [OF T(1) leaf] lastNode_ok [OF T(1) leaf] n [OF i(1)] n [OF i(2)] o [OF i(1)] o [OF i(2)]
    by (simp add: hl kStart_def kEnd_def offsets_def)
qed

lemma arena_walk:
  assumes "arena b ((t, xs) # rs)" and "fits (rb_nxtOff b) xs"
  shows "walk (rb_nxtOff b) (rb_iv b) t dst (- 1) = Some (dst @ map offsets xs)"
    and "length dst \<le> m \<Longrightarrow> walk (rb_nxtOff b) (rb_iv b) t dst (int m) = Some (take m (dst @ map offsets xs))"
proof -
  obtain T where T: "is_tree (rb_iv b) T t" "length (inorder T) = length xs" "distinct (inorder T)"
    and n: "\<And>i. i < length xs \<Longrightarrow> node_at (rb_iv b) (inorder T ! i) = Some (nd (rb_iv b) (inorder T ! i))"
    and o: "\<And>i. i < length xs \<Longrightarrow> (full_off (rb_nxtOff b) (it_start (nd (rb_iv b) (inorder T ! i))),
          full_off (rb_nxtOff b) (it_end (nd (rb_iv b) (inorder T ! i)))) = offsets (xs ! i)"
    by (rule arena_nodes [OF assms]) (rule that)
  have m: "map (\<lambda>k. (full_off (rb_nxtOff b) (it_start (nd (rb_iv b) k)), full_off (rb_nxtOff b) (it_end (nd (rb_iv b) k)))) (inorder T) = map offsets xs"
    using T(2) o by (intro nth_equalityI) simp_all
  show "walk (rb_nxtOff b) (rb_iv b) t dst (- 1) = Some (dst @ map offsets xs)" unfolding walk_all [OF T(1)] m ..
  show "walk (rb_nxtOff b) (rb_iv b) t dst (int m) = Some (take m (dst @ map offsets xs))" if "length dst \<le> m"
    unfolding walk_limit [OF T(1) that] m ..
qed

lemma arena_containing:
  assumes "arena b ((t, xs) # rs)" and "fits (rb_nxtOff b) xs" and "gapped xs" and "(s, e) \<in> set xs"
  shows "\<exists>k. containing_from (rb_nxtOff b) (rb_iv b) (word_of_nat s) t = Some k \<and> k \<noteq> 0
    \<and> kStart b k = Some (word_of_nat s) \<and> kEnd b k = Some (word_of_nat e)"
proof -
  obtain T where T: "is_tree (rb_iv b) T t" "length (inorder T) = length xs" "distinct (inorder T)"
    and n: "\<And>i. i < length xs \<Longrightarrow> node_at (rb_iv b) (inorder T ! i) = Some (nd (rb_iv b) (inorder T ! i))"
    and o: "\<And>i. i < length xs \<Longrightarrow> (full_off (rb_nxtOff b) (it_start (nd (rb_iv b) (inorder T ! i))),
          full_off (rb_nxtOff b) (it_end (nd (rb_iv b) (inorder T ! i)))) = offsets (xs ! i)"
    by (rule arena_nodes [OF assms(1,2)]) (rule that)
  have w: "fst (xs ! i) < snd (xs ! i)" "snd (xs ! i) < 2 ^ 64" "fst (xs ! i) < 2 ^ 64" if "i < length xs" for i
    using fitsD [OF assms(2), of "fst (xs ! i)" "snd (xs ! i)"] that by simp_all
  obtain i where i: "i < length xs" "xs ! i = (s, e)" using assms(4) by (auto simp: in_set_conv_nth)
  let ?k = "inorder T ! i"
  have oi: "full_off (rb_nxtOff b) (it_start (nd (rb_iv b) ?k)) = word_of_nat s" "full_off (rb_nxtOff b) (it_end (nd (rb_iv b) ?k)) = word_of_nat e"
    using o [OF i(1)] by (simp_all add: i(2) offsets_def)
  have mem: "?k \<in> set_tree T" using i(1) T(2) by (metis nth_mem set_inorder)
  have lt: "(word_of_nat s :: uint64) < word_of_nat e" using w [OF i(1)] by (simp add: i(2) offset_less)
  have "containing_from (rb_nxtOff b) (rb_iv b) (word_of_nat s) t = Some ?k"
  proof (rule containing_ok [OF T(1) _ mem])
    show "sorted_wrt (\<lambda>j k. full_off (rb_nxtOff b) (it_end (nd (rb_iv b) j)) \<le> full_off (rb_nxtOff b) (it_start (nd (rb_iv b) k))) (inorder T)"
      unfolding sorted_wrt_iff_nth_less
    proof (intro allI impI)
      fix j k assume jk: "j < k" "k < length (inorder T)"
      then have "snd (xs ! j) < fst (xs ! k)" using assms(3) T(2) by (simp add: gapped_def sorted_wrt_iff_nth_less)
      then show "full_off (rb_nxtOff b) (it_end (nd (rb_iv b) (inorder T ! j))) \<le> full_off (rb_nxtOff b) (it_start (nd (rb_iv b) (inorder T ! k)))"
        using o [of j] o [of k] w [of j] w [of k] jk T(2) by (simp add: offsets_def offset_le)
    qed
    show "\<forall>j \<in> set_tree T. full_off (rb_nxtOff b) (it_start (nd (rb_iv b) j)) < full_off (rb_nxtOff b) (it_end (nd (rb_iv b) j))"
    proof
      fix j assume "j \<in> set_tree T"
      then obtain k where k: "k < length xs" "j = inorder T ! k" using T(2) by (metis in_set_conv_nth set_inorder)
      then show "full_off (rb_nxtOff b) (it_start (nd (rb_iv b) j)) < full_off (rb_nxtOff b) (it_end (nd (rb_iv b) j))"
        using o [OF k(1)] w [OF k(1)] by (simp add: offsets_def offset_less)
    qed
  qed (use oi lt in simp_all)
  moreover have "?k \<noteq> 0" using n [OF i(1)] by (simp add: node_at_def split: if_splits)
  ultimately show ?thesis using n [OF i(1)] oi by (simp add: kStart_def kEnd_def)
qed

subsection \<open>Moving the table\<close>

lemma build_table_ok:
  assumes "arena b [(rb_root b, xs)]" and "length xs + length ys \<le> length (rb_iv b)"
  shows "\<exists>b'. build_table b (map offsets ys) = Some b' \<and> arena b' [(rb_root b', xs @ ys)] \<and> core_of b' = core_of b \<and> counts_of b' = counts_of b"
  using assms
proof (induction ys arbitrary: b xs)
  case (Cons y ys)
  obtain s e where y: "y = (s, e)" "offsets y = (word_of_nat s, word_of_nat e)" by (cases y) (simp add: offsets_def)
  have room: "tree_count [(rb_root b, xs)] < length (rb_iv b)" using Cons.prems(2) by (simp add: tree_count_def)
  obtain b1 k where a: "alloc b (word_of_nat s) (word_of_nat e) = Some (b1, k)" "arena b1 ((k, [(s, e)]) # [(rb_root b, xs)])"
    "core_of b1 = core_of b" "counts_of b1 = counts_of b" "rb_root b1 = rb_root b"
    using alloc_ok(2) [OF Cons.prems(1) room, of s e] by blast
  have a1: "arena b1 ((rb_root b1, xs) # (k, [(s, e)]) # [])" by (rule arena_perm [OF a(2)]) (simp add: a(5))
  obtain b2 t where m: "merge_trees b1 (rb_root b1) k = Some (b2, t)" "arena b2 ((t, xs @ [(s, e)]) # [])" "core_of b2 = core_of b1" "counts_of b2 = counts_of b1"
    using arena_merge [OF a1] by blast
  let ?b = "b2\<lparr>rb_root := t\<rparr>"
  have "arena ?b [(rb_root ?b, xs @ [(s, e)])]" using m(2) by (simp add: arena_def)
  moreover have "length (xs @ [(s, e)]) + length ys \<le> length (rb_iv ?b)" using Cons.prems(2) m(3) a(3) by (simp add: core_of_def)
  ultimately obtain b' where "build_table ?b (map offsets ys) = Some b'" "arena b' [(rb_root b', (xs @ [(s, e)]) @ ys)]" "core_of b' = core_of ?b" "counts_of b' = counts_of ?b"
    using Cons.IH by blast
  then show ?case using a m y by (simp add: core_of_def counts_of_def)
qed simp

lemma setIntervals_ok:
  assumes "arena b [(rb_root b, xs)]" and "fits (rb_nxtOff b) xs" and "rb_n b = int (length xs)" and "length xs \<le> length iv"
  shows "\<exists>b'. setIntervals b iv = Some (b', True) \<and> arena b' [(rb_root b', xs)] \<and> core_of b' = core_of (b\<lparr>rb_iv := iv\<rparr>) \<and> counts_of b' = counts_of b"
proof -
  let ?b = "b\<lparr>rb_iv := iv, rb_root := 0, rb_free := 0, rb_used := 0\<rparr>"
  have "arena ?b [(rb_root ?b, [])]" unfolding arena_def by (intro exI [of _ "[Leaf]"] exI [of _ "[]"]) (simp add: holds_def nodes_of_def)
  from build_table_ok [OF this, of xs] assms(4) obtain b' where "build_table ?b (map offsets xs) = Some b'" "arena b' [(rb_root b', xs)]" "core_of b' = core_of ?b" "counts_of b' = counts_of ?b"
    by auto
  then show ?thesis using assms(3,4) arena_walk(1) [OF assms(1,2), of "[]"] by (simp add: setIntervals_def intervals_def core_of_def counts_of_def)
qed

end
