(* ===== verification/Recv_Laws.thy ===== *)
theory Recv_Laws
  imports Recv_Table
begin

section \<open>The operations of the receive buffer\<close>

text \<open>
  A buffer that receives the stream \<open>S\<close>: the ring holds the bytes of \<open>S\<close> at the offsets that have arrived and
  are not read, the table the intervals that came early. Each operation returns and keeps this, and the set of the offsets that
  have arrived changes as the operation promises.
\<close>

subsection \<open>The invariant\<close>

definition content :: "(nat \<Rightarrow> uint8) \<Rightarrow> nat set \<Rightarrow> nat \<rightharpoonup> uint8" where
  "content S X x = (if x \<in> X then Some (S x) else None)"

abbreviation rd :: "recvBuf \<Rightarrow> nat" where "rd b \<equiv> unat (rb_readOff b)"
abbreviation nx :: "recvBuf \<Rightarrow> nat" where "nx b \<equiv> unat (rb_nxtOff b)"

definition marks_ok :: "uint32 list \<Rightarrow> (nat \<times> nat) list \<Rightarrow> bool" where
  "marks_ok ws xs \<longleftrightarrow> (\<exists>ms. ws = map word_of_nat ms \<and> distinct ms \<and> set ms \<subseteq> fst ` set xs \<and> length ms \<le> sackRecent)"

definition table_ok :: "recvBuf \<Rightarrow> (nat \<times> nat) list \<Rightarrow> bool" where
  "table_ok b xs \<longleftrightarrow> arena b [(rb_root b, xs)] \<and> early (nx b) xs \<and> rb_n b = int (length xs) \<and> rb_ooo b = word_of_nat (span_total xs)
     \<and> marks_ok (rb_recent b) xs"

definition ring_holds :: "(nat \<Rightarrow> uint8) \<Rightarrow> recvBuf \<Rightarrow> chunkPool \<Rightarrow> (nat \<times> nat) list \<Rightarrow> bool" where
  "ring_holds S b pool xs \<longleftrightarrow> rd b \<le> nx b \<and> window (rb_r b) (rd b) (right_end (nx b) xs) (content S ({rd b..<nx b} \<union> covered xs))
     \<and> tight (rb_r b) (rd b) (right_end (nx b) xs) \<and> pool_ok pool \<and> right_end (nx b) xs < 2 ^ 64"

definition recv_ok :: "(nat \<Rightarrow> uint8) \<Rightarrow> recvBuf \<Rightarrow> chunkPool \<Rightarrow> (nat \<times> nat) list \<Rightarrow> bool" where
  "recv_ok S b pool xs \<longleftrightarrow> table_ok b xs \<and> ring_holds S b pool xs"

text \<open>The offsets that have arrived, read or not.\<close>

definition arrived :: "recvBuf \<Rightarrow> (nat \<times> nat) list \<Rightarrow> nat set" where
  "arrived b xs = {0..<nx b} \<union> covered xs"

lemma rcap_bound: "ring_ok r \<Longrightarrow> rcap r \<le> 2 ^ 22"
  by (metis ring_cap power_increasing one_le_numeral)

lemma early_fits:
  assumes "early (unat nxt) xs" and "right_end (unat nxt) xs < 2 ^ 64" and "right_end (unat nxt) xs < unat nxt + 2 ^ 32"
  shows "fits nxt xs"
  unfolding fits_def
proof safe
  fix s e assume x: "(s, e) \<in> set xs"
  then have "xs \<noteq> []" by auto
  then have "e \<le> right_end (unat nxt) xs" using early_bounds(2) [OF assms(1) x] by (simp add: right_end_def)
  then show "unat nxt \<le> s" "s < e" "e < unat nxt + 2 ^ 32" "e < 2 ^ 64"
    using early_bounds(3,4) [OF assms(1) x] assms(2,3) by simp_all
qed

lemma recv_fits:
  assumes "recv_ok S b pool xs"
  shows "fits (rb_nxtOff b) xs"
proof (rule early_fits)
  have w: "window (rb_r b) (rd b) (right_end (nx b) xs) (content S ({rd b..<nx b} \<union> covered xs))" "rd b \<le> nx b"
    using assms by (simp_all add: recv_ok_def ring_holds_def)
  have "right_end (nx b) xs \<le> rd b + rcap (rb_r b)" "rcap (rb_r b) \<le> 2 ^ 22"
    using w(1) rcap_bound by (simp_all add: window_def)
  then show "right_end (nx b) xs < nx b + 2 ^ 32" using w(2) by simp
qed (use assms in \<open>simp_all add: recv_ok_def ring_holds_def table_ok_def\<close>)

lemma arena_simps [simp]:
  "arena (b\<lparr>rb_r := r\<rparr>) rs = arena b rs" "arena (b\<lparr>rb_n := n\<rparr>) rs = arena b rs" "arena (b\<lparr>rb_ooo := o'\<rparr>) rs = arena b rs"
  "arena (b\<lparr>rb_root := t\<rparr>) rs = arena b rs" "arena (b\<lparr>rb_recent := ms\<rparr>) rs = arena b rs" "arena (b\<lparr>rb_nxtOff := w\<rparr>) rs = arena b rs"
  "arena (b\<lparr>rb_readOff := w\<rparr>) rs = arena b rs"
  by (simp_all add: arena_def)

lemma arena_drop: "arena b ((t, []) # rs) \<Longrightarrow> arena b rs"
proof -
  assume "arena b ((t, []) # rs)"
  then obtain T Ts fs where h: "holds (rb_iv b) T (t, [])" "list_all2 (holds (rb_iv b)) Ts rs" "is_free (rb_iv b) fs (rb_free b)"
    "distinct (nodes_of (T # Ts) @ fs)" "set (nodes_of (T # Ts) @ fs) = {1..rb_used b}" "rb_used b \<le> length (rb_iv b)"
    by (auto simp: arena_def list_all2_Cons2)
  have "nodes_of (T # Ts) = nodes_of Ts" using holds_length [OF h(1)] by (simp add: nodes_of_def)
  then show ?thesis using h unfolding arena_def by (intro exI [of _ Ts] exI [of _ fs]) simp
qed

subsection \<open>Marks\<close>

lemma filter_marks:
  assumes "fits nxt xs" and "set ms \<subseteq> fst ` set xs"
  shows "filter (\<lambda>m. P (full_off nxt m)) (map word_of_nat ms) = map word_of_nat (filter (\<lambda>m. P (word_of_nat m)) ms)"
proof -
  have "full_off nxt (word_of_nat m) = word_of_nat m" if m: "m \<in> set ms" for m
  proof -
    obtain e where "(m, e) \<in> set xs" using assms(2) m by force
    then show ?thesis by (rule fitsD(1) [OF assms(1)])
  qed
  then have "filter (\<lambda>m. P (full_off nxt (word_of_nat m))) ms = filter (\<lambda>m. P (word_of_nat m)) ms" by (intro filter_cong) simp_all
  then show ?thesis by (simp add: filter_map comp_def)
qed

lemma forget_marks:
  assumes "marks_ok (rb_recent b) xs" and "fits (rb_nxtOff b) xs" and "\<And>x. x \<in> set xs \<Longrightarrow> \<not> dr (word_of_nat (fst x)) \<Longrightarrow> fst x \<in> fst ` set ys"
  shows "marks_ok (rb_recent (forgetRecent b dr)) ys"
proof -
  obtain ms where ms: "rb_recent b = map word_of_nat ms" "distinct ms" "set ms \<subseteq> fst ` set xs" "length ms \<le> sackRecent"
    using assms(1) by (auto simp: marks_ok_def)
  let ?ms = "filter (\<lambda>m. \<not> dr (word_of_nat m)) ms"
  have "rb_recent (forgetRecent b dr) = filter (\<lambda>m. \<not> dr (full_off (rb_nxtOff b) m)) (map word_of_nat ms)" by (simp add: forgetRecent_def ms(1))
  also have "\<dots> = map word_of_nat ?ms" by (rule filter_marks [OF assms(2) ms(3)])
  finally have "rb_recent (forgetRecent b dr) = map word_of_nat ?ms" .
  moreover have "set ?ms \<subseteq> fst ` set ys"
  proof
    fix m assume m: "m \<in> set ?ms"
    then obtain x where "x \<in> set xs" "m = fst x" using ms(3) by auto
    then show "m \<in> fst ` set ys" using assms(3) m by simp
  qed
  moreover have "length ?ms \<le> sackRecent" using ms(4) le_trans length_filter_le by blast
  ultimately show ?thesis unfolding marks_ok_def using distinct_filter [OF ms(2)] by blast
qed

lemma touch_marks:
  assumes "marks_ok (rb_recent b) xs" and "fits (rb_nxtOff b) xs" and "s < e" and "e < 2 ^ 64"
    and "\<And>x. x \<in> set xs \<Longrightarrow> \<not> (s \<le> fst x \<and> fst x < e) \<Longrightarrow> fst x \<in> fst ` set ys" and "s \<in> fst ` set ys"
  shows "marks_ok (rb_recent (touchRecent b (word_of_nat s) (word_of_nat e))) ys"
proof -
  obtain ms where ms: "rb_recent b = map word_of_nat ms" "distinct ms" "set ms \<subseteq> fst ` set xs"
    using assms(1) by (auto simp: marks_ok_def)
  let ?ms = "filter (\<lambda>m. \<not> (s \<le> m \<and> m < e)) ms"
  have lt: "m < 2 ^ 64" if m: "m \<in> set ms" for m
  proof -
    obtain e' where "(m, e') \<in> set xs" using ms(3) m by force
    then show ?thesis by (rule fitsD(6) [OF assms(2)])
  qed
  have f: "filter (\<lambda>m. \<not> ((word_of_nat m :: uint64) \<ge> word_of_nat s \<and> (word_of_nat m :: uint64) < word_of_nat e)) ms = ?ms"
    by (rule filter_cong [OF refl]) (use lt assms(3,4) in \<open>simp add: offset_le offset_less\<close>)
  have g: "filter (\<lambda>m. \<not> (full_off (rb_nxtOff b) m \<ge> word_of_nat s \<and> full_off (rb_nxtOff b) m < word_of_nat e)) (map word_of_nat ms) = map word_of_nat ?ms"
    unfolding f [symmetric] by (rule filter_marks [OF assms(2) ms(3)])
  have "rb_recent (touchRecent b (word_of_nat s) (word_of_nat e)) = ucast (word_of_nat s :: uint64)
      # take (sackRecent - 1) (filter (\<lambda>m. \<not> (full_off (rb_nxtOff b) m \<ge> word_of_nat s \<and> full_off (rb_nxtOff b) m < word_of_nat e)) (map word_of_nat ms))"
    by (simp add: touchRecent_def forgetRecent_def ms(1) Let_def)
  then have "rb_recent (touchRecent b (word_of_nat s) (word_of_nat e)) = map word_of_nat (s # take (sackRecent - 1) ?ms)"
    unfolding g ucast_offset by (simp add: take_map)
  moreover have "set (s # take (sackRecent - 1) ?ms) \<subseteq> fst ` set ys"
  proof
    fix m assume "m \<in> set (s # take (sackRecent - 1) ?ms)"
    then have "m = s \<or> m \<in> set ?ms" using in_set_takeD [of m "sackRecent - 1" ?ms] by (simp only: list.set insert_iff) blast
    then consider "m = s" | "m \<in> set ?ms" by blast
    then show "m \<in> fst ` set ys"
    proof cases
      case 2
      then obtain x where "x \<in> set xs" "m = fst x" using ms(3) by auto
      then show ?thesis using assms(5) 2 by simp
    qed (use assms(6) in simp)
  qed
  moreover have "distinct (s # take (sackRecent - 1) ?ms)" using ms(2) assms(3) by (auto dest: in_set_takeD)
  moreover have "length (s # take (sackRecent - 1) ?ms) \<le> sackRecent" by (simp add: sackRecent_def)
  ultimately show ?thesis unfolding marks_ok_def by blast
qed

subsection \<open>The ring\<close>

text \<open>Data that is the part of the stream at an offset.\<close>

definition agrees :: "(nat \<Rightarrow> uint8) \<Rightarrow> nat \<Rightarrow> uint8 list \<Rightarrow> bool" where
  "agrees S off data \<longleftrightarrow> (\<forall>i < length data. data ! i = S (off + i))"

lemma agrees_take: "agrees S off data \<Longrightarrow> agrees S off (take n data)" and agrees_drop: "agrees S off data \<Longrightarrow> agrees S (off + n) (drop n data)"
  by (simp_all add: agrees_def add.assoc)

lemma put_content: "agrees S off data \<Longrightarrow> put_bytes off data (content S X) = content S (X \<union> {off..<off + length data})"
  by (rule ext) (auto simp: put_bytes_def content_def agrees_def)

lemma write_content:
  assumes "window r lo hi (content S X)" and "tight r lo hi" and "pool_ok pool" and "lo \<le> off" and "off + length data \<le> lo + rcap r"
    and "off + length data < 2 ^ 64" and "agrees S off data"
  shows "\<exists>r' pool'. ring_write r pool (word_of_nat off) data = Some (r', pool') \<and> pool_ok pool' \<and> rg_cap r' = rg_cap r
    \<and> window r' lo (max hi (off + length data)) (content S (X \<union> {off..<off + length data})) \<and> tight r' lo (max hi (off + length data))"
  using window_write [OF assms(1,3-6)] assms(2) unfolding put_content [OF assms(7)] by blast

subsection \<open>Early data\<close>

lemma core_eq:
  assumes "core_of b' = core_of b"
  shows "rb_r b' = rb_r b" "rb_readOff b' = rb_readOff b" "rb_nxtOff b' = rb_nxtOff b" "rb_recent b' = rb_recent b" "length (rb_iv b') = length (rb_iv b)"
  using assms by (simp_all add: core_of_def)

lemma counts_eq: "counts_of b' = counts_of b \<Longrightarrow> rb_n b' = rb_n b \<and> rb_ooo b' = rb_ooo b"
  by (simp add: counts_of_def)

lemma core_of_simps [simp]: "core_of (b\<lparr>rb_n := n\<rparr>) = core_of b" "core_of (b\<lparr>rb_ooo := w\<rparr>) = core_of b" "core_of (b\<lparr>rb_root := t\<rparr>) = core_of b"
  by (simp_all add: core_of_def)

lemma touchRecent_fields [simp]:
  "rb_r (touchRecent b s e) = rb_r b" "rb_readOff (touchRecent b s e) = rb_readOff b" "rb_nxtOff (touchRecent b s e) = rb_nxtOff b"
  "rb_iv (touchRecent b s e) = rb_iv b" "rb_n (touchRecent b s e) = rb_n b" "rb_ooo (touchRecent b s e) = rb_ooo b" "rb_root (touchRecent b s e) = rb_root b"
  "arena (touchRecent b s e) rs = arena b rs"
  by (simp_all add: touchRecent_def forgetRecent_def Let_def arena_def)

lemma merge3:
  assumes "arena b ((k, ys) # (r, xr) # (l, xl) # [])"
  shows "\<exists>b1 t b2 u. merge_trees b l k = Some (b1, t) \<and> merge_trees b1 t r = Some (b2, u)
    \<and> arena b2 [(u, xl @ ys @ xr)] \<and> core_of b2 = core_of b \<and> counts_of b2 = counts_of b"
proof -
  have "arena b ((l, xl) # (k, ys) # [(r, xr)])" by (rule arena_perm [OF assms]) simp
  from arena_merge [OF this] obtain b1 t where m1: "merge_trees b l k = Some (b1, t)" "arena b1 ((t, xl @ ys) # (r, xr) # [])"
    "core_of b1 = core_of b" "counts_of b1 = counts_of b" by blast
  from arena_merge [OF m1(2)] obtain b2 u where "merge_trees b1 t r = Some (b2, u)" "arena b2 [(u, (xl @ ys) @ xr)]"
    "core_of b2 = core_of b1" "counts_of b2 = counts_of b1" by blast
  then show ?thesis using m1 by simp
qed

lemma settle_ok:
  assumes a: "arena b ((k, [(ns, ne)]) # (r, xr) # (l, xl) # [])" and e: "early (nx b) (xl @ (ns, ne) # xr)" and ne: "ne < 2 ^ 64"
    and n: "rb_n b = int (length xl + length xr)" "rb_ooo b = word_of_nat (span_total (xl @ xr))"
    and ms: "marks_ok (rb_recent b) zs" "fits (rb_nxtOff b) zs" "\<And>x. x \<in> set zs \<Longrightarrow> \<not> (ns \<le> fst x \<and> fst x < ne) \<Longrightarrow> fst x \<in> fst ` set (xl @ (ns, ne) # xr)"
    and w: "window (rb_r b) (rd b) hi (content S X)" "tight (rb_r b) (rd b) hi" "pool_ok pool" "rd b \<le> off"
      "off + length data \<le> rd b + rcap (rb_r b)" "off + length data < 2 ^ 64" "agrees S off data"
  shows "\<exists>b' pool'. settle b pool (word_of_nat off) data res l k r (word_of_nat ns) (word_of_nat ne) = Some (b', pool', res\<lparr>ir_accepted := length data, ir_ooo := True\<rparr>)
    \<and> table_ok b' (xl @ (ns, ne) # xr) \<and> rb_recent b' \<noteq> [] \<and> hd (rb_recent b') = word_of_nat ns \<and> rb_readOff b' = rb_readOff b \<and> rb_nxtOff b' = rb_nxtOff b \<and> length (rb_iv b') = length (rb_iv b) \<and> rg_cap (rb_r b') = rg_cap (rb_r b)
    \<and> window (rb_r b') (rd b) (max hi (off + length data)) (content S (X \<union> {off..<off + length data})) \<and> tight (rb_r b') (rd b) (max hi (off + length data)) \<and> pool_ok pool'"
proof -
  let ?b = "b\<lparr>rb_n := rb_n b + 1, rb_ooo := rb_ooo b + (word_of_nat ne - word_of_nat ns)\<rparr>" and ?ys = "xl @ (ns, ne) # xr"
  have lt: "ns < ne" using e by (simp add: early_def)
  have "arena ?b ((k, [(ns, ne)]) # (r, xr) # (l, xl) # [])" using a by simp
  from merge3 [OF this] obtain b1 t b2 u where m: "merge_trees ?b l k = Some (b1, t)" "merge_trees b1 t r = Some (b2, u)" "arena b2 [(u, ?ys)]"
    "core_of b2 = core_of ?b" "counts_of b2 = counts_of ?b" by auto
  have f: "rb_r b2 = rb_r b" "rb_readOff b2 = rb_readOff b" "rb_nxtOff b2 = rb_nxtOff b" "rb_recent b2 = rb_recent b" "length (rb_iv b2) = length (rb_iv b)"
    using core_eq [OF m(4)] by simp_all
  obtain r' pool' where wr: "ring_write (rb_r b) pool (word_of_nat off) data = Some (r', pool')" "pool_ok pool'" "rg_cap r' = rg_cap (rb_r b)"
    "window r' (rd b) (max hi (off + length data)) (content S (X \<union> {off..<off + length data}))" "tight r' (rd b) (max hi (off + length data))"
    using write_content [OF w] by blast
  let ?c = "touchRecent (b2\<lparr>rb_root := u\<rparr>) (word_of_nat ns) (word_of_nat ne)"
  have c: "rb_n ?c = int (length ?ys)" "rb_ooo ?c = word_of_nat (span_total ?ys)"
    using counts_eq [OF m(5)] n lt by (simp_all add: algebra_simps)
  have "marks_ok (rb_recent ?c) ?ys"
    by (rule touch_marks [OF _ _ lt ne ms(3)]) (use ms(1,2) in \<open>simp_all add: f\<close>)
  then have "table_ok (?c\<lparr>rb_r := r'\<rparr>) ?ys" unfolding table_ok_def using m(3) e c by (simp add: f)
  moreover have "settle b pool (word_of_nat off) data res l k r (word_of_nat ns) (word_of_nat ne)
      = Some (?c\<lparr>rb_r := r'\<rparr>, pool', res\<lparr>ir_accepted := length data, ir_ooo := True\<rparr>)"
    using m(1,2) wr(1) by (simp add: settle_def Let_def f)
  moreover have "rb_recent ?c \<noteq> []" "hd (rb_recent ?c) = word_of_nat ns" by (simp_all add: touchRecent_def Let_def ucast_offset)
  ultimately show ?thesis using wr(2-5) f by (intro exI [of _ "?c\<lparr>rb_r := r'\<rparr>"] exI [of _ pool']) simp
qed

text \<open>
  What an insertion of the offsets from \<open>off\<close> to \<open>e\<close> does to the buffer: they have arrived, unless the segment is dropped, which happens only when
  the table is full and the data touches nothing that arrived. The range reported as a duplicate had arrived before. Data that was stored early
  is in the interval of the first mark.
\<close>

definition leads :: "recvBuf \<Rightarrow> (nat \<times> nat) list \<Rightarrow> nat \<Rightarrow> nat \<Rightarrow> bool" where
  "leads b xs off e \<longleftrightarrow> rb_recent b \<noteq> [] \<and> (\<exists>x \<in> set xs. hd (rb_recent b) = word_of_nat (fst x) \<and> {off..<e} \<subseteq> {fst x..<snd x})"

definition took :: "recvBuf \<Rightarrow> (nat \<times> nat) list \<Rightarrow> nat \<Rightarrow> nat \<Rightarrow> recvBuf \<Rightarrow> (nat \<times> nat) list \<Rightarrow> insertResult \<Rightarrow> bool" where
  "took b xs off e b' xs' res \<longleftrightarrow> rb_readOff b' = rb_readOff b \<and> rg_cap (rb_r b') = rg_cap (rb_r b) \<and> length (rb_iv b') = length (rb_iv b)
     \<and> {unat (ir_dupLo res)..<unat (ir_dupHi res)} \<subseteq> arrived b xs \<and> (ir_advanced res \<longleftrightarrow> nx b < nx b')
     \<and> (ir_ooo res \<longrightarrow> nx b < off \<and> leads b' xs' off e)
     \<and> (nx b < off \<longrightarrow> off < e \<longrightarrow> \<not> {off..<e} \<subseteq> arrived b xs \<longrightarrow> ir_dropped res \<or> ir_ooo res)
     \<and> (if ir_dropped res then arrived b' xs' = arrived b xs \<and> length xs = length (rb_iv b) \<and> nx b < off \<and> (\<forall>x \<in> set xs. snd x < off \<or> e < fst x)
        else arrived b' xs' = arrived b xs \<union> {off..<e})"

definition fresh :: "recvBuf \<Rightarrow> (nat \<times> nat) list \<Rightarrow> insertResult \<Rightarrow> bool" where
  "fresh b xs res \<longleftrightarrow> \<not> ir_dropped res \<and> \<not> ir_advanced res \<and> \<not> ir_ooo res \<and> {unat (ir_dupLo res)..<unat (ir_dupHi res)} \<subseteq> arrived b xs"

text \<open>The situation after the tree was cut in three.\<close>

definition cut3 :: "recvBuf \<Rightarrow> recvBuf \<Rightarrow> nat \<Rightarrow> nat \<Rightarrow> nat \<times> (nat \<times> nat) list \<Rightarrow> nat \<times> (nat \<times> nat) list \<Rightarrow> nat \<times> (nat \<times> nat) list \<Rightarrow> bool" where
  "cut3 b c off e l m r \<longleftrightarrow> core_of c = core_of b \<and> counts_of c = counts_of b \<and> arena c (m # r # l # [])
     \<and> (\<forall>x \<in> set (snd l). snd x < off) \<and> (\<forall>x \<in> set (snd m). off \<le> snd x \<and> fst x \<le> e) \<and> (\<forall>x \<in> set (snd r). e < fst x)"

lemma settle_recv:
  assumes b: "recv_ok S b pool (xl @ xm @ xr)" and c: "core_of c = core_of b" "arena c ((k, [joined off e xm]) # (r, xr) # (l, xl) # [])"
    and n: "rb_n c = int (length xl + length xr)" "rb_ooo c = word_of_nat (span_total (xl @ xr))"
    and cut: "\<forall>x \<in> set xl. snd x < off" "\<forall>x \<in> set xm. off \<le> snd x \<and> fst x \<le> e" "\<forall>x \<in> set xr. e < fst x"
    and off: "nx b < off" "off < e" "e = off + length data" "e \<le> rd b + rcap (rb_r b)" "e < 2 ^ 64" "agrees S off data" and res: "fresh b (xl @ xm @ xr) res"
  shows "\<exists>b' pool' res' xs'. settle c pool (word_of_nat off) data res l k r (word_of_nat (fst (joined off e xm))) (word_of_nat (snd (joined off e xm))) = Some (b', pool', res')
    \<and> recv_ok S b' pool' xs' \<and> took b (xl @ xm @ xr) off e b' xs' res'"
proof -
  let ?xs = "xl @ xm @ xr" and ?j = "joined off e xm"
  let ?ys = "xl @ ?j # xr"
  note cc = core_eq [OF c(1)]
  have t: "early (nx b) ?xs" "marks_ok (rb_recent b) ?xs" and rh: "rd b \<le> nx b" "window (rb_r b) (rd b) (right_end (nx b) ?xs) (content S ({rd b..<nx b} \<union> covered ?xs))"
    "tight (rb_r b) (rd b) (right_end (nx b) ?xs)" "pool_ok pool" "right_end (nx b) ?xs < 2 ^ 64"
    using b by (simp_all add: recv_ok_def table_ok_def ring_holds_def)
  note j = join_ok [OF t(1) off(1,2) cut]
  note fit = recv_fits [OF b]
  have ne: "snd ?j < 2 ^ 64" using j(3) rh(5) off(5) early_bounds(2) [OF j(1), of ?j] by (simp add: right_end_def)
  have marks: "fst x \<in> fst ` set ?ys" if "x \<in> set ?xs" "\<not> (fst ?j \<le> fst x \<and> fst x < snd ?j)" for x
  proof (cases "x \<in> set xm")
    case True
    have "early (nx b) xm" using t(1) by (simp add: early_append)
    from early_bounds [OF this True] True that(2) show ?thesis by (auto simp: joined_def)
  next
    case False
    then show ?thesis using that(1) by auto
  qed
  have a: "arena c ((k, [(fst ?j, snd ?j)]) # (r, xr) # (l, xl) # [])" using c(2) by simp
  obtain b' pool' where s: "settle c pool (word_of_nat off) data res l k r (word_of_nat (fst ?j)) (word_of_nat (snd ?j)) = Some (b', pool', res\<lparr>ir_accepted := length data, ir_ooo := True\<rparr>)"
    "table_ok b' ?ys" "rb_recent b' \<noteq> []" "hd (rb_recent b') = word_of_nat (fst ?j)" "rb_readOff b' = rb_readOff b" "rb_nxtOff b' = rb_nxtOff b" "length (rb_iv b') = length (rb_iv b)" "rg_cap (rb_r b') = rg_cap (rb_r b)"
    "window (rb_r b') (rd b) (max (right_end (nx b) ?xs) (off + length data)) (content S ({rd b..<nx b} \<union> covered ?xs \<union> {off..<off + length data}))"
    "tight (rb_r b') (rd b) (max (right_end (nx b) ?xs) (off + length data))" "pool_ok pool'"
    using settle_ok [OF a, of ?xs "right_end (nx b) ?xs" S "{rd b..<nx b} \<union> covered ?xs" pool off data res] cc j(1) ne n t(2) fit marks rh off
    by (simp add: cc prod.collapse) blast
  have "recv_ok S b' pool' ?ys" unfolding recv_ok_def ring_holds_def
    using s(2,5-11) rh(1,5) j(2,3) off(3,5) by (simp add: Un_assoc)
  moreover have "{off..<e} \<subseteq> {fst ?j..<snd ?j}" by (auto simp: joined_def)
  then have lead: "leads b' ?ys off e" unfolding leads_def using s(3,4) by (intro conjI bexI [of _ ?j]) simp_all
  have "took b ?xs off e b' ?ys (res\<lparr>ir_accepted := length data, ir_ooo := True\<rparr>)"
    using s(5-8) res j(2) off(1) lead by (auto simp: took_def fresh_def arrived_def)
  ultimately show ?thesis using s(1) by blast
qed

text \<open>The buffer with its trees joined again is as it was.\<close>

lemma recv_ok_rejoined:
  assumes "recv_ok S b pool xs" and "core_of c = core_of b" and "counts_of c = counts_of b" and "arena c [(t, xs)]"
  shows "recv_ok S (c\<lparr>rb_root := t\<rparr>) pool xs"
  using assms counts_eq [OF assms(3)] by (simp add: recv_ok_def table_ok_def ring_holds_def core_eq [OF assms(2)])

lemma insert_new_ok:
  assumes b: "recv_ok S b pool (xl @ xr)" and c: "cut3 b c off e (l, xl) (0, []) (r, xr)"
    and off: "nx b < off" "off < e" "e = off + length data" "e \<le> rd b + rcap (rb_r b)" "e < 2 ^ 64" "agrees S off data" and res: "fresh b (xl @ xr) res"
  shows "\<exists>b' pool' res' xs'. insert_new c pool (word_of_nat off) data (word_of_nat e) res l r = Some (b', pool', res')
    \<and> recv_ok S b' pool' xs' \<and> took b (xl @ xr) off e b' xs' res'"
proof -
  have cut: "core_of c = core_of b" "counts_of c = counts_of b" "arena c ((0, []) # (r, xr) # (l, xl) # [])"
    "\<forall>x \<in> set xl. snd x < off" "\<forall>x \<in> set xr. e < fst x" using c by (simp_all add: cut3_def)
  have a: "arena c ((r, xr) # (l, xl) # [])" by (rule arena_drop [OF cut(3)])
  have n: "rb_n c = int (length xl + length xr)" "rb_ooo c = word_of_nat (span_total (xl @ xr))"
    using b counts_eq [OF cut(2)] by (simp_all add: recv_ok_def table_ok_def)
  have cnt: "tree_count ((r, xr) # (l, xl) # []) = length (xl @ xr)" by (simp add: tree_count_def)
  have len: "length (rb_iv c) = length (rb_iv b)" by (rule core_eq(5) [OF cut(1)])
  consider "length (xl @ xr) = length (rb_iv c)" | "length (xl @ xr) < length (rb_iv c)" using arena_count [OF a] unfolding cnt by linarith
  then show ?thesis
  proof cases
    case 1
    have "arena c ((l, xl) # (r, xr) # [])" by (rule arena_perm [OF a]) simp
    from arena_merge [OF this] obtain c1 t where m: "merge_trees c l r = Some (c1, t)" "arena c1 [(t, xl @ xr)]" "core_of c1 = core_of c" "counts_of c1 = counts_of c"
      by blast
    have "insert_new c pool (word_of_nat off) data (word_of_nat e) res l r = Some (c1\<lparr>rb_root := t\<rparr>, pool, res\<lparr>ir_dropped := True\<rparr>)"
      using alloc_ok(1) [OF a, of off e] 1 cnt m(1) by (simp add: insert_new_def)
    moreover have "recv_ok S (c1\<lparr>rb_root := t\<rparr>) pool (xl @ xr)" using recv_ok_rejoined [OF b _ _ m(2)] m(3,4) cut(1,2) by simp
    moreover have "took b (xl @ xr) off e (c1\<lparr>rb_root := t\<rparr>) (xl @ xr) (res\<lparr>ir_dropped := True\<rparr>)"
      using res cut(4,5) off(1) 1 len core_eq [OF m(3)] core_eq [OF cut(1)] by (auto simp: took_def fresh_def arrived_def)
    ultimately show ?thesis by blast
  next
    case 2
    obtain c1 k where k: "alloc c (word_of_nat off) (word_of_nat e) = Some (c1, k)" "k \<noteq> 0" "arena c1 ((k, [(off, e)]) # (r, xr) # (l, xl) # [])"
      "core_of c1 = core_of c" "counts_of c1 = counts_of c"
      using alloc_ok(2) [OF a, of off e] 2 cnt by auto
    have "\<exists>b' pool' res' xs'. settle c1 pool (word_of_nat off) data res l k r (word_of_nat off) (word_of_nat e) = Some (b', pool', res')
      \<and> recv_ok S b' pool' xs' \<and> took b (xl @ xr) off e b' xs' res'"
      using settle_recv [of S b pool xl "[]" xr c1 k off e r l data res] b k(3,4) cut n counts_eq [OF k(5)] off res by (simp add: joined_def)
    then show ?thesis using k(1,2) by (simp add: insert_new_def)
  qed
qed

lemma min_offset: "s < 2 ^ 64 \<Longrightarrow> t < 2 ^ 64 \<Longrightarrow> min (word_of_nat s :: uint64) (word_of_nat t) = word_of_nat (min s t)"
  and max_offset: "s < 2 ^ 64 \<Longrightarrow> t < 2 ^ 64 \<Longrightarrow> max (word_of_nat s :: uint64) (word_of_nat t) = word_of_nat (max s t)"
  by (simp_all add: min_def max_def offset_le)

lemma covered_member: "x \<in> set xs \<Longrightarrow> {fst x..<snd x} \<subseteq> covered xs"
  by (auto simp: covered_def)

lemma insert_join_ok:
  assumes b: "recv_ok S b pool (xl @ xm @ xr)" and c: "cut3 b c off e (l, xl) (m, xm) (r, xr)" and ne: "xm \<noteq> []"
    and off: "nx b < off" "off < e" "e = off + length data" "e \<le> rd b + rcap (rb_r b)" "e < 2 ^ 64" "agrees S off data" and res: "fresh b (xl @ xm @ xr) res"
  shows "\<exists>b' pool' res' xs'. insert_join c pool (word_of_nat off) data (word_of_nat e) res l m r = Some (b', pool', res')
    \<and> recv_ok S b' pool' xs' \<and> took b (xl @ xm @ xr) off e b' xs' res'"
proof -
  let ?xs = "xl @ xm @ xr" and ?f = "hd xm" and ?g = "last xm"
  have cut: "core_of c = core_of b" "counts_of c = counts_of b" "arena c ((m, xm) # (r, xr) # (l, xl) # [])"
    "\<forall>x \<in> set xl. snd x < off" "\<forall>x \<in> set xm. off \<le> snd x \<and> fst x \<le> e" "\<forall>x \<in> set xr. e < fst x" using c by (simp_all add: cut3_def)
  note cc = core_eq [OF cut(1)]
  have fit: "fits (rb_nxtOff b) ?xs" by (rule recv_fits [OF b])
  then have fm: "fits (rb_nxtOff c) xm" by (auto simp: fits_def cc)
  have mem: "?f \<in> set xm" "?g \<in> set xm" using ne by simp_all
  have lt: "fst ?f < 2 ^ 64" "snd ?f < 2 ^ 64" "snd ?g < 2 ^ 64" "off < 2 ^ 64" "fst ?f < snd ?f"
    using fitsD(4-6) [OF fm, of "fst ?f" "snd ?f"] fitsD(5) [OF fm, of "fst ?g" "snd ?g"] mem off(2,5) by simp_all
  have t: "early (nx b) ?xs" "marks_ok (rb_recent b) ?xs" "rb_n c = int (length ?xs)" "rb_ooo c = word_of_nat (span_total ?xs)"
    using b counts_eq [OF cut(2)] by (simp_all add: recv_ok_def table_ok_def)
  obtain f g where fg: "firstNode (rb_iv c) m = Some f" "lastNode (rb_iv c) m = Some g" "kStart c f = Some (word_of_nat (fst ?f))"
    "kEnd c f = Some (word_of_nat (snd ?f))" "kEnd c g = Some (word_of_nat (snd ?g))" "f = g \<longleftrightarrow> length xm = 1"
    using arena_ends [OF cut(3) fm ne] by blast
  have test: "f = g \<and> (word_of_nat (fst ?f) :: uint64) \<le> word_of_nat off \<and> (word_of_nat e :: uint64) \<le> word_of_nat (snd ?f)
      \<longleftrightarrow> length xm = 1 \<and> fst ?f \<le> off \<and> e \<le> snd ?f"
    using fg(6) lt off(5) by (simp add: offset_le)
  show ?thesis
  proof (cases "length xm = 1 \<and> fst ?f \<le> off \<and> e \<le> snd ?f")
    case True
    obtain c1 t1 c2 u where m3: "merge_trees c l m = Some (c1, t1)" "merge_trees c1 t1 r = Some (c2, u)" "arena c2 [(u, ?xs)]" "core_of c2 = core_of c" "counts_of c2 = counts_of c"
      using merge3 [OF cut(3)] by blast
    let ?b = "touchRecent (c2\<lparr>rb_root := u\<rparr>) (word_of_nat (fst ?f)) (word_of_nat (snd ?f))"
    let ?res = "res\<lparr>ir_duplicate := True, ir_dupLo := word_of_nat off, ir_dupHi := word_of_nat e\<rparr>"
    have r0: "recv_ok S (c2\<lparr>rb_root := u\<rparr>) pool ?xs" using recv_ok_rejoined [OF b _ _ m3(3)] m3(4,5) cut(1,2) by simp
    then have "marks_ok (rb_recent ?b) ?xs"
      by (intro touch_marks [OF _ recv_fits lt(5,2)]) (use mem in \<open>auto simp: recv_ok_def table_ok_def\<close>)
    then have ok: "recv_ok S ?b pool ?xs" using r0 by (simp add: recv_ok_def table_ok_def ring_holds_def)
    have "{off..<e} \<subseteq> {fst ?f..<snd ?f}" using True by auto
    also have "\<dots> \<subseteq> covered ?xs" by (rule covered_member) (use mem(1) in simp)
    finally have "{off..<e} \<subseteq> arrived b ?xs" by (auto simp: arrived_def)
    then have "took b ?xs off e ?b ?xs ?res"
      using res off(5) lt(4) core_eq [OF m3(4)] cc by (auto simp: took_def fresh_def arrived_def unat_offset)
    moreover have "insert_join c pool (word_of_nat off) data (word_of_nat e) res l m r = Some (?b, pool, ?res)"
      using fg(1-5) test True m3(1,2) by (simp add: insert_join_def)
    ultimately show ?thesis using ok by blast
  next
    case False
    let ?lo = "max off (fst ?f)" and ?hi = "min e (snd ?f)"
    let ?res = "if (word_of_nat ?lo :: uint64) < word_of_nat ?hi \<and> ir_dupHi res \<le> ir_dupLo res then res\<lparr>ir_dupLo := word_of_nat ?lo, ir_dupHi := word_of_nat ?hi\<rparr> else res"
    have "{?lo..<?hi} \<subseteq> arrived b ?xs" using covered_member [of ?f ?xs] mem(1) by (auto simp: arrived_def)
    then have fr: "fresh b ?xs ?res" using res lt off(5) by (auto simp: fresh_def unat_offset)
    have j: "joined off e xm = (min off (fst ?f), max e (snd ?g))" using ne by (simp add: joined_def)
    obtain c1 where rel: "release_tree c m = Some c1" "arena c1 ((r, xr) # (l, xl) # [])" "core_of c1 = core_of c" "rb_n c1 = rb_n c - int (length xm)"
      "rb_ooo c1 = rb_ooo c - word_of_nat (span_total xm)" using release_tree_ok [OF cut(3) fm] by blast
    have "length ?xs \<le> length (rb_iv c)" using arena_count [OF cut(3)] by (simp add: tree_count_def)
    then have room: "tree_count ((r, xr) # (l, xl) # []) < length (rb_iv c1)" using ne core_eq(5) [OF rel(3)] by (cases xm) (simp_all add: tree_count_def)
    obtain c2 k where k: "alloc c1 (word_of_nat (fst (joined off e xm))) (word_of_nat (snd (joined off e xm))) = Some (c2, k)" "arena c2 ((k, [joined off e xm]) # (r, xr) # (l, xl) # [])"
      "core_of c2 = core_of c1" "counts_of c2 = counts_of c1"
      using alloc_ok(2) [OF rel(2) room, of "fst (joined off e xm)" "snd (joined off e xm)"] by auto
    have n: "rb_n c2 = int (length xl + length xr)" "rb_ooo c2 = word_of_nat (span_total (xl @ xr))"
      using counts_eq [OF k(4)] rel(4,5) t(3,4) by simp_all
    have "insert_join c pool (word_of_nat off) data (word_of_nat e) res l m r
        = settle c2 pool (word_of_nat off) data ?res l k r (word_of_nat (fst (joined off e xm))) (word_of_nat (snd (joined off e xm)))"
      unfolding insert_join_def fg(1-5) bind.bind_lunit test if_not_P [OF False]
      using lt off(5) rel(1) k(1) by (simp add: min_offset max_offset Let_def j)
    moreover have "core_of c2 = core_of b" using k(3) rel(3) cut(1) by simp
    ultimately show ?thesis using settle_recv [OF b _ k(2) n cut(4-6) off fr] by simp
  qed
qed

lemma insert_early_ok:
  assumes b: "recv_ok S b pool xs" and off: "nx b < off" "off < e" "e = off + length data" "e \<le> rd b + rcap (rb_r b)" "e < 2 ^ 64" "agrees S off data"
    and res: "fresh b xs res"
  shows "\<exists>b' pool' res' xs'. insert_early b pool (word_of_nat off) data (word_of_nat e) res = Some (b', pool', res')
    \<and> recv_ok S b' pool' xs' \<and> took b xs off e b' xs' res'"
proof -
  have t: "arena b [(rb_root b, xs)]" "early (nx b) xs" using b by (simp_all add: recv_ok_def table_ok_def)
  have fit: "fits (rb_nxtOff b) xs" by (rule recv_fits [OF b])
  have lt: "off < 2 ^ 64" using off(2,5) by linarith
  let ?xl = "filter (\<lambda>x. snd x < off) xs" and ?ys = "filter (\<lambda>x. \<not> snd x < off) xs"
  let ?xm = "filter (\<lambda>x. fst x \<le> e) ?ys" and ?xr = "filter (\<lambda>x. \<not> fst x \<le> e) ?ys"
  have cut1: "?xl @ ?ys = xs" by (rule early_cut(1) [OF t(2)])
  then have ey: "early (nx b) ?ys" using t(2) by (metis early_append)
  have cut2: "?xm @ ?xr = ?ys" by (rule early_cut(2) [OF ey])
  have xs: "xs = ?xl @ ?xm @ ?xr" unfolding cut2 cut1 ..
  obtain b1 l y where s1: "splitEndBefore b (rb_root b) (word_of_nat off) = Some (b1, l, y)" "arena b1 ((l, ?xl) # (y, ?ys) # [])" "core_of b1 = core_of b" "counts_of b1 = counts_of b"
    using splitEndBefore_ok [OF t(1) fit _ lt] t(2) by (auto simp: early_def)
  have a1: "arena b1 ((y, ?ys) # (l, ?xl) # [])" by (rule arena_perm [OF s1(2)]) simp
  have f1: "fits (rb_nxtOff b1) ?ys" using fit core_eq(3) [OF s1(3)] by (auto simp: fits_def)
  obtain b2 m r where s2: "splitStartUpTo b1 y (word_of_nat e) = Some (b2, m, r)" "arena b2 ((m, ?xm) # (r, ?xr) # (l, ?xl) # [])" "core_of b2 = core_of b1" "counts_of b2 = counts_of b1"
    using splitStartUpTo_ok [OF a1 f1 _ off(5)] ey by (auto simp: early_def simp del: filter_filter)
  have c: "cut3 b b2 off e (l, ?xl) (m, ?xm) (r, ?xr)" unfolding cut3_def using s1(3,4) s2(2-4) by auto
  have m0: "m = 0 \<longleftrightarrow> ?xm = []" by (rule arena_root_zero [OF s2(2)])
  have step: "insert_early b pool (word_of_nat off) data (word_of_nat e) res = (if m = 0 then insert_new b2 pool (word_of_nat off) data (word_of_nat e) res l r
      else insert_join b2 pool (word_of_nat off) data (word_of_nat e) res l m r)"
    using s1(1) s2(1) by (simp add: insert_early_def)
  show ?thesis
  proof (cases "?xm = []")
    case True
    then have "xs = ?xl @ ?xr" using xs by simp
    then show ?thesis using insert_new_ok [of S b pool ?xl ?xr b2 off e l r data res] b c off res m0 True step by (simp del: filter_filter)
  next
    case False
    then show ?thesis using insert_join_ok [of S b pool ?xl ?xm ?xr b2 off e l m r data res] b c off res m0 step xs by (simp del: filter_filter)
  qed
qed

end
