(* ===== verification/Recv_Run.thy ===== *)
theory Recv_Run
  imports Recv_Laws
begin

section \<open>Insertion, reading and the change of stage\<close>

text \<open>
  The operations of the receive buffer as its connection calls them: every one returns and keeps the invariant.
\<close>

subsection \<open>Data in order\<close>

lemma forgetRecent_fields [simp]:
  "rb_r (forgetRecent b d) = rb_r b" "rb_readOff (forgetRecent b d) = rb_readOff b" "rb_nxtOff (forgetRecent b d) = rb_nxtOff b"
  "rb_iv (forgetRecent b d) = rb_iv b" "rb_n (forgetRecent b d) = rb_n b" "rb_ooo (forgetRecent b d) = rb_ooo b" "rb_root (forgetRecent b d) = rb_root b"
  "arena (forgetRecent b d) rs = arena b rs"
  by (simp_all add: forgetRecent_def arena_def)

text \<open>The buffer after the next bytes were written and the intervals \<open>xm\<close> taken in.\<close>

lemma recv_advance_ok:
  assumes b: "recv_ok S b pool (xm @ xr)" and e: "nx b < e" "\<forall>x \<in> set xm. fst x \<le> e" "\<forall>x \<in> set xr. e < fst x"
    and c: "rb_readOff c = rb_readOff b" "rb_nxtOff c = word_of_nat (taken e xm)" "arena c [(rb_root c, xr)]"
      "rb_n c = int (length xr)" "rb_ooo c = word_of_nat (span_total xr)" "marks_ok (rb_recent c) xr"
    and w: "window (rb_r c) (rd b) (max (right_end (nx b) (xm @ xr)) e) (content S ({rd b..<nx b} \<union> covered (xm @ xr) \<union> {nx b..<e}))"
      "tight (rb_r c) (rd b) (max (right_end (nx b) (xm @ xr)) e)" "pool_ok pool'" "e < 2 ^ 64"
  shows "recv_ok S c pool' xr" and "arrived c xr = arrived b (xm @ xr) \<union> {nx b..<e}" and "nx b < nx c"
proof -
  have t: "early (nx b) (xm @ xr)" "rd b \<le> nx b" "right_end (nx b) (xm @ xr) < 2 ^ 64"
    using b by (simp_all add: recv_ok_def table_ok_def ring_holds_def)
  note k = taken_ok [OF t(1) e]
  have lt: "taken e xm < 2 ^ 64" using k(3) right_end_ge [OF k(1)] t(3) w(4) by (simp add: max_def split: if_splits)
  then have n: "nx c = taken e xm" by (simp add: c(2) unat_offset)
  have rng: "{rd b..<taken e xm} = {rd b..<nx b} \<union> {nx b..<taken e xm}" "{0..<taken e xm} = {0..<nx b} \<union> {nx b..<taken e xm}"
    using t(2) e(1) k(4) by auto
  have "{rd b..<taken e xm} \<union> covered xr = {rd b..<nx b} \<union> covered (xm @ xr) \<union> {nx b..<e}" using k(2) unfolding rng by blast
  then show "recv_ok S c pool' xr" unfolding recv_ok_def table_ok_def ring_holds_def n
    using c k(1,3,4) w e(1) t(2,3) by (simp add: max_def)
  show "arrived c xr = arrived b (xm @ xr) \<union> {nx b..<e}" unfolding arrived_def n rng(2) using k(2) by blast
  show "nx b < nx c" using n e(1) k(4) by simp
qed

lemma next_cut:
  assumes "arena b [(rb_root b, xs)]" and "early n xs" and "fits (rb_nxtOff b) xs" and "e < 2 ^ 64"
  shows "\<exists>b2 m r xm xr. splitStartUpTo b (rb_root b) (word_of_nat e) = Some (b2, m, r) \<and> arena b2 [(m, xm), (r, xr)]
    \<and> core_of b2 = core_of b \<and> counts_of b2 = counts_of b \<and> xs = xm @ xr \<and> (\<forall>x \<in> set xm. fst x \<le> e) \<and> (\<forall>x \<in> set xr. e < fst x)"
proof -
  have "\<forall>x \<in> set (filter (\<lambda>x. fst x \<le> e) xs). fst x \<le> e" "\<forall>x \<in> set (filter (\<lambda>x. \<not> fst x \<le> e) xs). e < fst x" by auto
  moreover have "gapped xs" using assms(2) by (simp add: early_def)
  ultimately show ?thesis using splitStartUpTo_ok [OF assms(1,3) _ assms(4)] early_cut(2) [OF assms(2), of e] by metis
qed

lemma next_marks:
  assumes "marks_ok (rb_recent b) (xm @ xr)" and fit: "fits (rb_nxtOff b) (xm @ xr)" and em: "early n xm" and "xm \<noteq> []" and tlt: "taken e xm < 2 ^ 64"
  shows "marks_ok (rb_recent (forgetRecent b (\<lambda>x. x < word_of_nat (taken e xm)))) xr"
proof (rule forget_marks [where xs = "xm @ xr"])
  fix x assume x: "x \<in> set (xm @ xr)" "\<not> (word_of_nat (fst x) :: uint64) < word_of_nat (taken e xm)"
  have "fst x < 2 ^ 64" using fitsD(6) [OF fit, of "fst x" "snd x"] x(1) by simp
  then have ge: "taken e xm \<le> fst x" using x(2) tlt by (simp add: offset_less)
  have "x \<notin> set xm"
  proof
    assume "x \<in> set xm"
    from early_bounds(2,4) [OF em this] ge assms(4) show False by (simp add: taken_def)
  qed
  then show "fst x \<in> fst ` set xr" using x(1) by auto
qed (use assms in simp_all)

lemma insert_next_ok:
  assumes b: "recv_ok S b pool xs" and off: "data \<noteq> []" "e = nx b + length data" "e \<le> rd b + rcap (rb_r b)" "e < 2 ^ 64" "agrees S (nx b) data"
    and res: "fresh b xs res"
  shows "\<exists>b' pool' res' xs'. insert_next b pool (rb_nxtOff b) data (word_of_nat e) res = Some (b', pool', res')
    \<and> recv_ok S b' pool' xs' \<and> took b xs (nx b) e b' xs' res'"
proof -
  have t: "arena b [(rb_root b, xs)]" "early (nx b) xs" "rb_n b = int (length xs)" "rb_ooo b = word_of_nat (span_total xs)" "marks_ok (rb_recent b) xs"
    and rh: "rd b \<le> nx b" "window (rb_r b) (rd b) (right_end (nx b) xs) (content S ({rd b..<nx b} \<union> covered xs))"
    "tight (rb_r b) (rd b) (right_end (nx b) xs)" "pool_ok pool"
    using b by (simp_all add: recv_ok_def table_ok_def ring_holds_def)
  have fit: "fits (rb_nxtOff b) xs" by (rule recv_fits [OF b])
  have lt: "nx b < e" using off(1,2) by (cases data) simp_all
  obtain r1 pool1 where wr: "ring_write (rb_r b) pool (rb_nxtOff b) data = Some (r1, pool1)" "pool_ok pool1" "rg_cap r1 = rg_cap (rb_r b)"
    "window r1 (rd b) (max (right_end (nx b) xs) e) (content S ({rd b..<nx b} \<union> covered xs \<union> {nx b..<e}))" "tight r1 (rd b) (max (right_end (nx b) xs) e)"
    using write_content [OF rh(2-4,1), of data] off by auto
  let ?b = "b\<lparr>rb_r := r1\<rparr>"
  obtain b2 m r xm xr where s: "splitStartUpTo ?b (rb_root b) (word_of_nat e) = Some (b2, m, r)" "arena b2 ((m, xm) # (r, xr) # [])"
    "core_of b2 = core_of ?b" "counts_of b2 = counts_of ?b" and xs: "xs = xm @ xr" and side: "\<forall>x \<in> set xm. fst x \<le> e" "\<forall>x \<in> set xr. e < fst x"
    using next_cut [of ?b xs "nx b" e] t(1,2) fit off(4) by auto
  have f: "rb_r b2 = r1" "rb_readOff b2 = rb_readOff b" "rb_nxtOff b2 = rb_nxtOff b" "rb_recent b2 = rb_recent b" "length (rb_iv b2) = length (rb_iv b)"
    using core_eq [OF s(3)] by simp_all
  have n: "rb_n b2 = int (length xm) + int (length xr)" "rb_ooo b2 = word_of_nat (span_total xm) + word_of_nat (span_total xr)"
    using counts_eq [OF s(4)] t(3,4) by (simp_all add: xs)
  have adv: "recv_ok S c pool1 xr \<and> arrived c xr = arrived b xs \<union> {nx b..<e} \<and> nx b < nx c"
    if c: "rb_r c = r1" "rb_readOff c = rb_readOff b" "rb_nxtOff c = word_of_nat (taken e xm)" "arena c [(rb_root c, xr)]"
      "rb_n c = int (length xr)" "rb_ooo c = word_of_nat (span_total xr)" "marks_ok (rb_recent c) xr" for c
    using recv_advance_ok [OF b [unfolded xs] lt side c(2-7)] wr off(4) unfolding c(1) xs by blast
  have m0: "m = 0 \<longleftrightarrow> xm = []" by (rule arena_root_zero [OF s(2)])
  let ?res = "res\<lparr>ir_accepted := length data, ir_advanced := True\<rparr>"
  show ?thesis
  proof (cases "xm = []")
    case True
    let ?c = "b2\<lparr>rb_root := r, rb_nxtOff := word_of_nat e\<rparr>"
    have a2: "arena b2 [(r, xr)]" by (rule arena_drop [OF s(2) [unfolded True]])
    have "recv_ok S ?c pool1 xr \<and> arrived ?c xr = arrived b xs \<union> {nx b..<e} \<and> nx b < nx ?c"
      by (intro adv) (use a2 n f t(5) True in \<open>simp_all add: xs taken_def\<close>)
    moreover have "insert_next b pool (rb_nxtOff b) data (word_of_nat e) res = Some (?c, pool1, ?res)"
      using wr(1) s(1) m0 True by (simp add: insert_next_def Let_def)
    ultimately show ?thesis using res f wr(3) by (auto simp: took_def fresh_def)
  next
    case False
    let ?f = "hd xm" and ?g = "last xm"
    have mem: "?f \<in> set xm" "?g \<in> set xm" using False by simp_all
    have em: "early (nx b) xm" using t(2) by (simp add: xs early_append)
    have fm: "fits (rb_nxtOff b2) xm" using fit f(3) by (auto simp: fits_def xs)
    obtain p g where fg: "firstNode (rb_iv b2) m = Some p" "lastNode (rb_iv b2) m = Some g" "kStart b2 p = Some (word_of_nat (fst ?f))"
      "kEnd b2 p = Some (word_of_nat (snd ?f))" "kEnd b2 g = Some (word_of_nat (snd ?g))"
      using arena_ends [OF s(2) fm False] by blast
    have lts: "fst ?f < 2 ^ 64" "snd ?f < 2 ^ 64" "snd ?g < 2 ^ 64"
      using fitsD(5,6) [OF fm, of "fst ?f" "snd ?f"] fitsD(5) [OF fm, of "fst ?g" "snd ?g"] mem by simp_all
    obtain b3 where rel: "release_tree b2 m = Some b3" "arena b3 [(r, xr)]" "core_of b3 = core_of b2" "rb_n b3 = rb_n b2 - int (length xm)"
      "rb_ooo b3 = rb_ooo b2 - word_of_nat (span_total xm)" using release_tree_ok [OF s(2) fm] by blast
    note f3 = core_eq [OF rel(3)]
    have tk: "taken e xm = max e (snd ?g)" using False by (simp add: taken_def)
    have E: "max (word_of_nat e :: uint64) (word_of_nat (snd ?g)) = word_of_nat (taken e xm)" unfolding tk by (rule max_offset [OF off(4) lts(3)])
    have tlt: "taken e xm < 2 ^ 64" unfolding tk using off(4) lts(3) by simp
    let ?d = "\<lambda>x. x < (word_of_nat (taken e xm) :: uint64)"
    let ?c = "(forgetRecent b3 ?d)\<lparr>rb_root := r, rb_nxtOff := word_of_nat (taken e xm)\<rparr>"
    let ?res' = "(if (word_of_nat (fst ?f) :: uint64) < word_of_nat e \<and> ir_dupHi ?res \<le> ir_dupLo ?res
        then ?res\<lparr>ir_dupLo := word_of_nat (fst ?f), ir_dupHi := word_of_nat (min e (snd ?f))\<rparr> else ?res)\<lparr>ir_filled := True\<rparr>"
    have "marks_ok (rb_recent (forgetRecent b3 ?d)) xr" by (rule next_marks [OF _ _ em False tlt]) (use t(5) fit f f3 xs in simp_all)
    then have "recv_ok S ?c pool1 xr \<and> arrived ?c xr = arrived b xs \<union> {nx b..<e} \<and> nx b < nx ?c"
      by (intro adv) (use rel(2,4,5) n f f3 in simp_all)
    moreover have "insert_next b pool (rb_nxtOff b) data (word_of_nat e) res = Some (?c, pool1, ?res')"
      using wr(1) s(1) m0 False fg rel(1) E min_offset [OF off(4) lts(2)] by (simp add: insert_next_def Let_def)
    moreover have "{fst ?f..<min e (snd ?f)} \<subseteq> arrived b xs" using covered_member [of ?f xs] mem(1) by (auto simp: arrived_def xs)
    ultimately show ?thesis using res f f3 wr(3) lts off(4) by (auto simp: took_def fresh_def unat_offset)
  qed
qed

subsection \<open>Insertion\<close>

lemma insert_fresh_ok:
  assumes b: "recv_ok S b pool xs" and off: "nx b \<le> off" "e = off + length data" "e \<le> rd b + rcap (rb_r b)" "e < 2 ^ 64" "agrees S off data"
    and res: "fresh b xs res"
  shows "\<exists>b' pool' res' xs'. insert_fresh b pool (word_of_nat off) data (word_of_nat e) res = Some (b', pool', res')
    \<and> recv_ok S b' pool' xs' \<and> took b xs off e b' xs' res'"
proof -
  have lt: "off < 2 ^ 64" using off(2,4) by linarith
  have w: "word_of_nat off = rb_nxtOff b \<longleftrightarrow> off = nx b" using unat_offset [OF lt] by auto
  consider "data = []" | "data \<noteq> []" "off = nx b" | "data \<noteq> []" "nx b < off" using off(1) by linarith
  then show ?thesis
  proof cases
    case 1
    then have "took b xs off e b xs res" using off(2) res by (auto simp: took_def fresh_def)
    then show ?thesis using 1 b by (auto simp: insert_fresh_def)
  next
    case 2
    then show ?thesis using insert_next_ok [OF b 2(1) off(2) [unfolded 2(2)] off(3,4) off(5) [unfolded 2(2)] res] w by (simp add: insert_fresh_def)
  next
    case 3
    then have "off < e" using off(2) by (cases data) simp_all
    then show ?thesis using insert_early_ok [OF b 3(2) _ off(2-5) res] 3 w by (simp add: insert_fresh_def)
  qed
qed

lemma insert_within_ok:
  assumes b: "recv_ok S b pool xs" and off: "e = off + length data" "e \<le> rd b + rcap (rb_r b)" "e < 2 ^ 64" "agrees S off data"
    and res: "fresh b xs res"
  shows "\<exists>b' pool' res' xs'. insert_within b pool (word_of_nat off) data (word_of_nat e) res = Some (b', pool', res')
    \<and> recv_ok S b' pool' xs' \<and> took b xs off e b' xs' res'"
proof -
  have lt: "off < 2 ^ 64" using off(1,3) by linarith
  have nw: "rb_nxtOff b = word_of_nat (nx b)" "nx b < 2 ^ 64" using unsigned_less [of "rb_nxtOff b"] by simp_all
  have cmp: "word_of_nat off < rb_nxtOff b \<longleftrightarrow> off < nx b" "word_of_nat e \<le> rb_nxtOff b \<longleftrightarrow> e \<le> nx b"
    using offset_less [OF lt nw(2)] offset_le [OF off(3) nw(2)] by simp_all
  consider "off < nx b" "e \<le> nx b" | "off < nx b" "nx b < e" | "nx b \<le> off" by linarith
  then show ?thesis
  proof cases
    case 1
    let ?res = "res\<lparr>ir_duplicate := data \<noteq> [], ir_dupLo := word_of_nat off, ir_dupHi := word_of_nat e\<rparr>"
    have "took b xs off e b xs ?res" using 1 res lt off(3) by (auto simp: took_def fresh_def arrived_def unat_offset)
    then show ?thesis using b 1 cmp by (auto simp: insert_within_def)
  next
    case 2
    let ?n = "nx b - off" and ?res = "res\<lparr>ir_dupLo := word_of_nat off, ir_dupHi := rb_nxtOff b\<rparr>"
    have d: "unat (rb_nxtOff b - word_of_nat off) = ?n" using 2(1) cmp(1) unat_offset [OF lt] by (subst unat_sub) (simp_all add: less_imp_le)
    have fr: "fresh b xs ?res" using res lt by (auto simp: fresh_def arrived_def unat_offset)
    have "agrees S (nx b) (drop ?n data)" using agrees_drop [OF off(4), of ?n] 2(1) by simp
    moreover have "e = nx b + length (drop ?n data)" using 2 off(1) by simp
    ultimately obtain b' pool' res' xs' where i: "insert_fresh b pool (word_of_nat (nx b)) (drop ?n data) (word_of_nat e) ?res = Some (b', pool', res')"
      "recv_ok S b' pool' xs'" "took b xs (nx b) e b' xs' res'" using insert_fresh_ok [OF b le_refl _ off(2,3) _ fr] by blast
    have "arrived b xs \<union> {nx b..<e} = arrived b xs \<union> {off..<e}" using 2(1) by (auto simp: arrived_def)
    then have "took b xs off e b' xs' res'" using i(3) 2(1) unfolding took_def by (cases "ir_dropped res'") simp_all
    moreover have "insert_within b pool (word_of_nat off) data (word_of_nat e) res = Some (b', pool', res')"
      using i(1) 2 cmp d by (simp add: insert_within_def)
    ultimately show ?thesis using i(2) by blast
  next
    case 3
    then show ?thesis using insert_fresh_ok [OF b 3 off res] cmp by (simp add: insert_within_def)
  qed
qed

lemma fresh_noResult: "fresh b xs noResult" "fresh b xs (noResult\<lparr>ir_trimmed := t\<rparr>)"
  by (simp_all add: fresh_def noResult_def)

theorem recv_insert_ok:
  assumes b: "recv_ok S b pool xs" and off: "off + length data < 2 ^ 64" "limit \<le> rd b + rcap (rb_r b)" "limit < 2 ^ 64" "agrees S off data"
  shows "\<exists>b' pool' res xs'. recv_insert b pool (word_of_nat off) data (word_of_nat limit) = Some (b', pool', res)
    \<and> recv_ok S b' pool' xs' \<and> took b xs off (min (off + length data) limit) b' xs' res"
proof -
  let ?e = "off + length data"
  have lt: "off < 2 ^ 64" using off(1) by linarith
  have e: "word_of_nat off + word_of_nat (length data) = (word_of_nat ?e :: uint64)" by simp
  have cmp: "(word_of_nat ?e :: uint64) > word_of_nat limit \<longleftrightarrow> limit < ?e" "(word_of_nat off :: uint64) \<ge> word_of_nat limit \<longleftrightarrow> limit \<le> off"
    using offset_less [OF off(3,1)] offset_le [OF off(3) lt] by simp_all
  consider "?e \<le> limit" | "limit < ?e" "limit \<le> off" | "limit < ?e" "off < limit" by linarith
  then show ?thesis
  proof cases
    case 1
    then have "?e \<le> rd b + rcap (rb_r b)" using off(2) by linarith
    from insert_within_ok [OF b refl this off(1,4) fresh_noResult(1)] show ?thesis
      using 1 cmp unfolding recv_insert_def Let_def e by (simp add: min_absorb1)
  next
    case 2
    let ?res = "noResult\<lparr>ir_trimmed := data \<noteq> []\<rparr>"
    have "took b xs off (min ?e limit) b xs ?res" using 2 by (simp add: took_def noResult_def)
    moreover have "recv_insert b pool (word_of_nat off) data (word_of_nat limit) = Some (b, pool, ?res)"
      using 2 cmp unfolding recv_insert_def Let_def e by simp
    ultimately show ?thesis using b by blast
  next
    case 3
    let ?n = "limit - off"
    have d: "unat (word_of_nat limit - word_of_nat off :: uint64) = ?n"
      using 3(2) cmp(2) unat_offset [OF lt] unat_offset [OF off(3)] by (subst unat_sub) (simp_all add: offset_le off(3) lt)
    have "limit = off + length (take ?n data)" using 3 by simp
    from insert_within_ok [OF b this off(2,3) agrees_take [OF off(4)] fresh_noResult(2) [of _ _ True]] show ?thesis
      using 3 cmp d unfolding recv_insert_def Let_def e by (simp add: min_absorb2)
  qed
qed

subsection \<open>Reading\<close>

lemma rightmost_ok:
  assumes "arena b [(rb_root b, xs)]" and "early (nx b) xs" and "fits (rb_nxtOff b) xs"
  shows "rightmost b = Some (word_of_nat (right_end (nx b) xs))"
proof (cases "xs = []")
  case True
  then show ?thesis using arena_root_zero [OF assms(1)] by (simp add: rightmost_def right_end_def)
next
  case False
  obtain g where g: "lastNode (rb_iv b) (rb_root b) = Some g" "kEnd b g = Some (word_of_nat (snd (last xs)))"
    using arena_ends [OF assms(1,3) False] by blast
  have mem: "last xs \<in> set xs" using False by simp
  have "nx b < snd (last xs)" using early_bounds(3,4) [OF assms(2) mem] by linarith
  moreover have "snd (last xs) < 2 ^ 64" using fitsD(5) [OF assms(3), of "fst (last xs)" "snd (last xs)"] mem by simp
  ultimately have "rb_nxtOff b \<le> word_of_nat (snd (last xs))" by (simp only: word_le_nat_alt unat_offset less_imp_le)
  then have "max (rb_nxtOff b) (word_of_nat (snd (last xs))) = word_of_nat (snd (last xs))" by (rule max_absorb2)
  then show ?thesis using g False arena_root_zero [OF assms(1)] by (simp add: rightmost_def right_end_def)
qed

lemma content_restrict: "content S X |` {k..} = content S (X \<inter> {k..})"
  by (rule ext) (simp add: content_def restrict_map_def)

theorem recv_read_ok:
  assumes b: "recv_ok S b pool xs"
  shows "\<exists>b' pool'. recv_read b pool len = Some (b', pool', map S [rd b..<rd b + min len (nx b - rd b)]) \<and> recv_ok S b' pool' xs
    \<and> rd b' = rd b + min len (nx b - rd b) \<and> rb_nxtOff b' = rb_nxtOff b \<and> rg_cap (rb_r b') = rg_cap (rb_r b) \<and> rb_iv b' = rb_iv b"
proof -
  let ?n = "min len (nx b - rd b)"
  have t: "arena b [(rb_root b, xs)]" "early (nx b) xs"
    and rh: "rd b \<le> nx b" "window (rb_r b) (rd b) (right_end (nx b) xs) (content S ({rd b..<nx b} \<union> covered xs))"
    "tight (rb_r b) (rd b) (right_end (nx b) xs)" "pool_ok pool" "right_end (nx b) xs < 2 ^ 64"
    using b by (simp_all add: recv_ok_def table_ok_def ring_holds_def)
  have fit: "fits (rb_nxtOff b) xs" by (rule recv_fits [OF b])
  have u: "unat (unread b) = nx b - rd b" unfolding unread_def using rh(1) by (simp add: unat_sub word_le_nat_alt)
  show ?thesis
  proof (cases "?n = 0")
    case True
    then show ?thesis using b by (auto simp: recv_read_def Let_def u)
  next
    case False
    let ?lo = "rd b + ?n" and ?hi = "right_end (nx b) xs"
    have lo: "rd b \<le> ?lo" "?lo \<le> nx b" "?lo \<le> ?hi" "rd b < 2 ^ 64" "?lo < 2 ^ 64"
      using rh(1,5) right_end_ge [OF t(2)] by auto
    have "ring_read (rb_r b) (word_of_nat (rd b)) ?n = Some (map (\<lambda>k. the (content S ({rd b..<nx b} \<union> covered xs) (rd b + k))) [0..<?n])"
      by (rule window_read [OF rh(2,5) _ lo(4)]) (auto simp: content_def)
    also have "map (\<lambda>k. the (content S ({rd b..<nx b} \<union> covered xs) (rd b + k))) [0..<?n] = map S [rd b..<?lo]"
      by (rule nth_equalityI) (auto simp: content_def)
    finally have rr: "ring_read (rb_r b) (rb_readOff b) ?n = Some (map S [rd b..<?lo])" by simp
    obtain r' pool' where tr: "trim (rb_r b) pool (word_of_nat (rd b)) (word_of_nat ?lo) (word_of_nat ?hi) = (r', pool')" "pool_ok pool'" "rg_cap r' = rg_cap (rb_r b)"
      "window r' ?lo ?hi (content S (({rd b..<nx b} \<union> covered xs) \<inter> {?lo..}))" "tight r' ?lo ?hi"
      using trim_ok [OF rh(2-4) lo(1,3) rh(5)] unfolding content_restrict by blast
    let ?c = "b\<lparr>rb_readOff := word_of_nat ?lo, rb_r := r'\<rparr>"
    have X: "({rd b..<nx b} \<union> covered xs) \<inter> {?lo..} = {?lo..<nx b} \<union> covered xs"
      using covered_bounds [OF t(2)] lo(1,2) by force
    have rc: "rd ?c = ?lo" using unat_offset [OF lo(5)] by simp
    have "rightmost (b\<lparr>rb_readOff := word_of_nat ?lo\<rparr>) = Some (word_of_nat ?hi)"
      using rightmost_ok [of "b\<lparr>rb_readOff := word_of_nat ?lo\<rparr>" xs] t fit by simp
    then have step: "recv_read b pool len = Some (?c, pool', map S [rd b..<?lo])"
      using rr tr(1) unfolding recv_read_def Let_def u if_not_P [OF False] by simp
    have "recv_ok S ?c pool' xs" using b tr(2,4,5) lo(2) rh(5) rc X by (simp add: recv_ok_def table_ok_def ring_holds_def)
    then show ?thesis using step rc tr(3) by (intro exI [of _ ?c] exI [of _ pool']) simp
  qed
qed

end
