(* ===== verification/Recv_Stage.thy ===== *)
theory Recv_Stage
  imports Recv_Run
begin

section \<open>Taking data back and changing the size of the buffer\<close>

text \<open>
  A buffer that becomes small again keeps all data in order and a front part of the early data.
\<close>

subsection \<open>Cutting a list of intervals\<close>

definition clip :: "nat \<Rightarrow> (nat \<times> nat) list \<Rightarrow> (nat \<times> nat) list" where
  "clip k xs = (if xs = [] then [] else butlast xs @ [(fst (last xs), min (snd (last xs)) k)])"

definition kept :: "nat \<Rightarrow> (nat \<times> nat) list \<Rightarrow> (nat \<times> nat) list" where
  "kept k xs = clip k (filter (\<lambda>x. fst x < k) xs)"

lemma clip_append: "clip k (ys @ [x]) = ys @ [(fst x, min (snd x) k)]" and clip_Nil [simp]: "clip k [] = []"
  by (simp_all add: clip_def)

lemma clip_ok:
  assumes "early n xs" and "\<forall>x \<in> set xs. fst x < k" and "n \<le> k"
  shows "early n (clip k xs)" and "covered (clip k xs) = covered xs \<inter> {..<k}" and "right_end n (clip k xs) = min (right_end n xs) k"
    and "fst ` set (clip k xs) = fst ` set xs" and "length (clip k xs) = length xs" and "span_total (clip k xs) \<le> span_total xs"
proof -
  have "early n (clip k xs) \<and> covered (clip k xs) = covered xs \<inter> {..<k} \<and> right_end n (clip k xs) = min (right_end n xs) k
    \<and> fst ` set (clip k xs) = fst ` set xs \<and> length (clip k xs) = length xs \<and> span_total (clip k xs) \<le> span_total xs"
  proof (cases xs rule: rev_cases)
    case Nil
    then show ?thesis using assms(3) by (simp add: right_end_def)
  next
    case (snoc ys x)
    have e: "early n ys" "n < fst x" "fst x < snd x" "\<forall>y \<in> set ys. snd y < fst x" using assms(1) by (simp_all add: snoc early_append early_one)
    have k: "fst x < k" using assms(2) by (simp add: snoc)
    have "covered ys \<subseteq> {..<k}" using e(4) k by (fastforce simp: covered_def)
    then have "covered (ys @ [(fst x, min (snd x) k)]) = covered (ys @ [x]) \<inter> {..<k}" by auto
    then show ?thesis using e k unfolding snoc clip_append by (simp add: early_append early_one right_end_def)
  qed
  then show "early n (clip k xs)" "covered (clip k xs) = covered xs \<inter> {..<k}" "right_end n (clip k xs) = min (right_end n xs) k"
    "fst ` set (clip k xs) = fst ` set xs" "length (clip k xs) = length xs" "span_total (clip k xs) \<le> span_total xs" by blast+
qed

lemma kept_ok:
  assumes "early n xs" and "n \<le> k"
  shows "early n (kept k xs)" and "covered (kept k xs) = covered xs \<inter> {..<k}" and "right_end n (kept k xs) \<le> min (right_end n xs) k"
    and "\<And>x. x \<in> set xs \<Longrightarrow> fst x < k \<Longrightarrow> fst x \<in> fst ` set (kept k xs)"
proof -
  let ?ys = "filter (\<lambda>x. fst x < k) xs"
  have cut: "filter (\<lambda>x. fst x \<le> k - 1) xs @ filter (\<lambda>x. \<not> fst x \<le> k - 1) xs = xs" by (rule early_cut(2) [OF assms(1)])
  have pos: "fst x \<le> k - 1 \<longleftrightarrow> fst x < k" if "x \<in> set xs" "0 < k" for x using that by auto
  have ys: "?ys @ filter (\<lambda>x. \<not> fst x < k) xs = xs"
  proof (cases "k = 0")
    case False
    then show ?thesis using cut pos by (metis (mono_tags, lifting) filter_cong not_gr_zero)
  qed simp
  have e: "early n ?ys" using assms(1) ys by (metis early_append)
  have all: "\<forall>x \<in> set ?ys. fst x < k" by simp
  note c = clip_ok [OF e all assms(2)]
  show "early n (kept k xs)" using c(1) by (simp add: kept_def)
  have "y \<in> covered ?ys" if y: "y \<in> covered xs" "y < k" for y
  proof -
    obtain x where x: "x \<in> set xs" "fst x \<le> y" "y < snd x" using y(1) by (auto simp: covered_def)
    then have "{fst x..<snd x} \<subseteq> covered ?ys" using y(2) by (intro covered_member) simp
    then show ?thesis using x by auto
  qed
  moreover have "covered ?ys \<subseteq> covered xs" by (auto simp: covered_def)
  ultimately have "covered xs \<inter> {..<k} = covered ?ys \<inter> {..<k}" by blast
  then show "covered (kept k xs) = covered xs \<inter> {..<k}" using c(2) by (simp add: kept_def)
  have "right_end n ?ys \<le> right_end n xs"
  proof (cases "?ys = []")
    case True
    then show ?thesis using right_end_ge [OF assms(1)] by (simp add: right_end_def)
  next
    case False
    then have "last ?ys \<in> set xs" "xs \<noteq> []" using last_in_set [OF False] by auto
    then show ?thesis using False early_bounds(2) [OF assms(1)] by (simp add: right_end_def)
  qed
  then show "right_end n (kept k xs) \<le> min (right_end n xs) k" using c(3) by (simp add: kept_def)
  show "fst x \<in> fst ` set (kept k xs)" if "x \<in> set xs" "fst x < k" for x
  proof -
    have "x \<in> set ?ys" using that by simp
    then show ?thesis unfolding kept_def c(4) by (rule imageI)
  qed
qed

lemma kept_all:
  assumes "early n xs" and "right_end n xs \<le> k"
  shows "kept k xs = xs"
proof (cases xs rule: rev_cases)
  case (snoc ys x)
  have k: "snd x \<le> k" "fst x < snd x" using assms early_bounds(4) [OF assms(1), of x] by (simp_all add: snoc right_end_def)
  have "\<forall>y \<in> set ys. fst y < snd y \<and> snd y < fst x" using assms(1) early_bounds(4) [OF assms(1)] by (auto simp: snoc early_append)
  then have "filter (\<lambda>x. fst x < k) ys = ys" using k by (intro filter_True) auto
  then show ?thesis using k by (simp add: snoc kept_def clip_append)
qed (simp add: kept_def)

lemma kept_length:
  assumes "early n xs" and "m < length xs"
  shows "length (kept (min k (fst (xs ! m))) xs) \<le> m"
proof -
  let ?k = "min k (fst (xs ! m))"
  have "filter (\<lambda>x. fst x < ?k) (drop m xs) = []"
  proof (rule filter_False, rule ballI)
    fix x assume "x \<in> set (drop m xs)"
    then have "fst (hd (drop m xs)) \<le> fst x" using assms(1) early_bounds(1) [of n "drop m xs"]
      by (metis append_take_drop_id early_append)
    then show "\<not> fst x < ?k" using assms(2) by (simp add: hd_drop_conv_nth)
  qed
  then have "length (filter (\<lambda>x. fst x < ?k) xs) = length (filter (\<lambda>x. fst x < ?k) (take m xs))"
    by (metis append.right_neutral append_take_drop_id filter_append)
  also have "\<dots> \<le> m" using length_filter_le [of "\<lambda>x. fst x < ?k" "take m xs"] by simp
  finally show ?thesis by (simp add: kept_def clip_def)
qed

subsection \<open>The last node\<close>

lemma arena_cut:
  assumes "arena b ((t, ys @ [(s, e)]) # rs)"
  shows "\<exists>k. lastNode (rb_iv b) t = Some k \<and> arena (b\<lparr>rb_iv := upd_node (rb_iv b) k (\<lambda>x. x\<lparr>it_end := word_of_nat l\<rparr>)\<rparr>) ((t, ys @ [(s, l)]) # rs)"
proof -
  let ?iv = "rb_iv b"
  obtain T Ts fs where h: "holds ?iv T (t, ys @ [(s, e)])" "list_all2 (holds ?iv) Ts rs" "is_free ?iv fs (rb_free b)"
    "distinct (nodes_of (T # Ts) @ fs)" "set (nodes_of (T # Ts) @ fs) = {1..rb_used b}" "rb_used b \<le> length ?iv"
    using assms by (auto simp: arena_def list_all2_Cons2)
  have T: "is_tree ?iv T t" "map (data_of ?iv) (inorder T) = map low_bits (ys @ [(s, e)])" using h(1) by (simp_all add: holds_def)
  have "inorder T \<noteq> []" using holds_length [OF h(1)] by auto
  then obtain ks k where ks: "inorder T = ks @ [k]" by (meson rev_exhaust)
  have mem: "k \<in> set_tree T" using ks by (metis in_set_conv_decomp set_inorder)
  have k: "0 < k" "k \<le> length ?iv" using is_tree_bounds [OF T(1) mem] by simp_all
  have kn: "k \<notin> set ks" "k \<notin> set (nodes_of Ts)" "k \<notin> set fs" using h(4) ks by (auto simp: nodes_of_def)
  let ?iv' = "upd_node ?iv k (\<lambda>x. x\<lparr>it_end := word_of_nat l\<rparr>)"
  have o: "outside {k} ?iv ?iv'" by (rule outside_upd) (use k in simp_all)
  have links: "it_l (nd ?iv' j) = it_l (nd ?iv j)" "it_r (nd ?iv' j) = it_r (nd ?iv j)" if "0 < j" for j using k that by (simp_all add: upd_node_nth)
  have "is_tree ?iv' U j" if "is_tree ?iv U j" for U j using that by (induction U arbitrary: j) (auto simp: links)
  then have T': "is_tree ?iv' T t" using T(1) by blast
  have d: "map (data_of ?iv) ks = map low_bits ys" "data_of ?iv k = low_bits (s, e)" using T(2) unfolding ks by simp_all
  have "map (data_of ?iv') ks = map (data_of ?iv) ks"
  proof (rule map_cong [OF refl])
    fix j assume j: "j \<in> set ks"
    then have "j \<in> set (inorder T)" by (simp add: ks)
    then have "0 < j" using is_tree_bounds [OF T(1), of j] by simp
    then show "data_of ?iv' j = data_of ?iv j" using j kn(1) k by (auto simp: data_of_def upd_node_nth)
  qed
  moreover have "data_of ?iv' k = low_bits (s, l)" using d(2) k by (simp add: data_of_def upd_node_nth low_bits_def)
  ultimately have "holds ?iv' T (t, ys @ [(s, l)])" using T' d(1) ks by (simp add: holds_def del: map_eq_conv)
  then have "arena (b\<lparr>rb_iv := ?iv'\<rparr>) ((t, ys @ [(s, l)]) # rs)" unfolding arena_def
    using all_holds_outside [OF h(2) o] is_free_outside [OF h(3) o] kn h(4-6) by (intro exI [of _ "T # Ts"] exI [of _ fs]) simp
  moreover have "lastNode ?iv t = Some k" using lastNode_ok [OF T(1)] mem ks by force
  ultimately show ?thesis by blast
qed

lemma cut_last_ok:
  assumes a: "arena b [(t, xs)]" and f: "fits (rb_nxtOff b) xs" and k: "k < 2 ^ 64" "\<forall>x \<in> set xs. fst x < k"
  shows "\<exists>b'. cut_last b t (word_of_nat k) = Some b' \<and> arena b' [(t, clip k xs)] \<and> core_of b' = core_of b \<and> rb_n b' = rb_n b
    \<and> rb_ooo b' = rb_ooo b - (word_of_nat (span_total xs) - word_of_nat (span_total (clip k xs)))"
proof (cases xs rule: rev_cases)
  case Nil
  then show ?thesis using a arena_root_zero [OF a] by (simp add: cut_last_def)
next
  case (snoc ys x)
  obtain s e where x: "x = (s, e)" by (cases x)
  have se: "s < e" "e < 2 ^ 64" "s < k" using fitsD(4,5) [OF f, of s e] k(2) by (simp_all add: snoc x)
  have a': "arena b ((t, ys @ [(s, e)]) # [])" using a by (simp add: snoc x)
  obtain g where g: "lastNode (rb_iv b) t = Some g" "arena (b\<lparr>rb_iv := upd_node (rb_iv b) g (\<lambda>x. x\<lparr>it_end := word_of_nat k\<rparr>)\<rparr>) ((t, ys @ [(s, k)]) # [])"
    using arena_cut [OF a', of k] by blast
  have ge: "kEnd b g = Some (word_of_nat e)" using arena_ends [OF a f] g(1) by (auto simp: snoc x)
  have t: "t \<noteq> 0" using arena_root_zero [OF a] by (simp add: snoc)
  have cmp: "(word_of_nat e :: uint64) > word_of_nat k \<longleftrightarrow> k < e" by (rule offset_less [OF k(1) se(2)])
  show ?thesis
  proof (cases "k < e")
    case True
    have m: "min e k = k" using True by simp
    have c: "clip k xs = ys @ [(s, k)]" unfolding snoc x clip_append using m by simp
    let ?b = "b\<lparr>rb_ooo := rb_ooo b - (word_of_nat e - word_of_nat k), rb_iv := upd_node (rb_iv b) g (\<lambda>x. x\<lparr>it_end := word_of_nat k\<rparr>)\<rparr>"
    have "cut_last b t (word_of_nat k) = Some ?b" using t g(1) ge cmp True by (simp add: cut_last_def ucast_offset)
    moreover have "arena ?b [(t, clip k xs)]" using g(2) unfolding c by (simp add: arena_def)
    moreover have "rb_ooo ?b = rb_ooo b - (word_of_nat (span_total xs) - word_of_nat (span_total (clip k xs)))"
      unfolding c using se True by (simp add: snoc x algebra_simps)
    ultimately show ?thesis by (intro exI [of _ ?b]) (simp add: core_of_def)
  next
    case False
    then have "clip k xs = xs" unfolding snoc x clip_append by simp
    then show ?thesis using t g(1) ge cmp False a by (simp add: cut_last_def)
  qed
qed

subsection \<open>Taking back\<close>

definition renege_at :: "nat \<Rightarrow> nat \<Rightarrow> (nat \<times> nat) list \<Rightarrow> nat" where
  "renege_at limit maxN xs = (if maxN < length xs then min limit (fst (xs ! maxN)) else limit)"

lemma renege_at_bounds:
  assumes "early n xs" and "n \<le> limit" and "0 < limit"
  shows "n \<le> renege_at limit maxN xs" and "0 < renege_at limit maxN xs" and "renege_at limit maxN xs \<le> limit" and "length (kept (renege_at limit maxN xs) xs) \<le> maxN"
proof -
  have "n < fst (xs ! maxN)" if "maxN < length xs" using early_bounds(3) [OF assms(1)] that by simp
  then show "n \<le> renege_at limit maxN xs" "0 < renege_at limit maxN xs" "renege_at limit maxN xs \<le> limit" using assms(2,3) by (auto simp: renege_at_def)
  have "length (kept limit xs) \<le> length xs" by (simp add: kept_def clip_def)
  then show "length (kept (renege_at limit maxN xs) xs) \<le> maxN" using kept_length [OF assms(1), of maxN limit] by (auto simp: renege_at_def)
qed

lemma renege_limit_ok:
  assumes "arena b [(rb_root b, xs)]" and f: "fits (rb_nxtOff b) xs" and n: "rb_n b = int (length xs)" and "limit < 2 ^ 64"
  shows "renege_limit b (word_of_nat limit) maxN = Some (word_of_nat (renege_at limit maxN xs))"
proof (cases "maxN < length xs")
  case True
  have w: "walk (rb_nxtOff b) (rb_iv b) (rb_root b) [] (int (Suc maxN)) = Some (take (Suc maxN) ([] @ map offsets xs))"
    by (rule arena_walk(2) [OF assms(1) f]) simp
  have "fst (xs ! maxN) < 2 ^ 64" using fitsD(6) [OF f, of "fst (xs ! maxN)" "snd (xs ! maxN)"] True by simp
  from min_offset [OF assms(4) this] show ?thesis
    using True w n by (simp add: renege_limit_def renege_at_def offsets_def add.commute)
qed (simp add: renege_limit_def renege_at_def n)

lemma right_end_fits:
  assumes "fits nxt xs"
  shows "right_end (unat nxt) xs < 2 ^ 64"
proof (cases "xs = []")
  case False
  then show ?thesis using fitsD(5) [OF assms, of "fst (last xs)" "snd (last xs)"] by (simp add: right_end_def)
qed (use unsigned_less [of nxt] in \<open>simp add: right_end_def\<close>)

theorem renege_ok:
  assumes t: "table_ok b xs" and f: "fits (rb_nxtOff b) xs" and limit: "nx b \<le> limit" "0 < limit" "limit < 2 ^ 64"
  shows "\<exists>b'. renege b (word_of_nat limit) maxN = Some (b', word_of_nat (span_total xs) - word_of_nat (span_total (kept (renege_at limit maxN xs) xs)))
    \<and> table_ok b' (kept (renege_at limit maxN xs) xs) \<and> rb_r b' = rb_r b \<and> rb_readOff b' = rb_readOff b \<and> rb_nxtOff b' = rb_nxtOff b \<and> length (rb_iv b') = length (rb_iv b)"
proof -
  have a: "arena b [(rb_root b, xs)]" "early (nx b) xs" "rb_n b = int (length xs)" "rb_ooo b = word_of_nat (span_total xs)" "marks_ok (rb_recent b) xs"
    using t by (simp_all add: table_ok_def)
  let ?L = "renege_at limit maxN xs"
  note L = renege_at_bounds [OF a(2) limit(1,2), of maxN]
  have L64: "?L < 2 ^ 64" using L(3) limit(3) by linarith
  have lim: "renege_limit b (word_of_nat limit) maxN = Some (word_of_nat ?L)" by (rule renege_limit_ok [OF a(1) f a(3) limit(3)])
  have rm: "rightmost b = Some (word_of_nat (right_end (nx b) xs))" by (rule rightmost_ok [OF a(1,2) f])
  have r64: "right_end (nx b) xs < 2 ^ 64" by (rule right_end_fits [OF f])
  have cmp: "(word_of_nat (right_end (nx b) xs) :: uint64) \<le> word_of_nat ?L \<longleftrightarrow> right_end (nx b) xs \<le> ?L" by (rule offset_le [OF r64 L64])
  have root: "rb_root b = 0 \<longleftrightarrow> xs = []" by (rule arena_root_zero [OF a(1)])
  show ?thesis
  proof (cases "xs = [] \<or> right_end (nx b) xs \<le> ?L")
    case True
    then have "right_end (nx b) xs \<le> ?L" using L(1) by (auto simp: right_end_def)
    then have "kept ?L xs = xs" by (rule kept_all [OF a(2)])
    then show ?thesis using t lim rm cmp root True by (simp add: renege_def)
  next
    case False
    have pred: "word_of_nat ?L - 1 = (word_of_nat (?L - 1) :: uint64)" using offset_diff [of 1 ?L] L(2) by simp
    have lt1: "?L - 1 < 2 ^ 64" using L64 by simp
    obtain ys zs where yz: "filter (\<lambda>x. fst x \<le> ?L - 1) xs = ys" "filter (\<lambda>x. \<not> fst x \<le> ?L - 1) xs = zs" by blast
    note cut = yz early_cut(2) [OF a(2), of "?L - 1", unfolded yz, symmetric]
    have "ys = filter (\<lambda>x. fst x < ?L) xs" unfolding cut(1) [symmetric] using L(2) by (intro filter_cong) auto
    then have kept: "kept ?L xs = clip ?L ys" and ysL: "\<forall>x \<in> set ys. fst x < ?L" by (simp_all add: kept_def)
    obtain b1 k d where s: "splitStartUpTo b (rb_root b) (word_of_nat ?L - 1) = Some (b1, k, d)" "arena b1 ((k, ys) # (d, zs) # [])" "core_of b1 = core_of b" "counts_of b1 = counts_of b"
      using splitStartUpTo_ok [OF a(1) f _ lt1, unfolded yz] a(2) unfolding pred by (auto simp: early_def)
    note f1 = core_eq [OF s(3)]
    have a1: "arena b1 ((d, zs) # (k, ys) # [])" by (rule arena_perm [OF s(2)]) simp
    have fz: "fits (rb_nxtOff b1) zs" "fits (rb_nxtOff b1) ys" using f by (auto simp: fits_def f1 cut(3))
    obtain b2 where r: "release_tree b1 d = Some b2" "arena b2 [(k, ys)]" "core_of b2 = core_of b1" "rb_n b2 = rb_n b1 - int (length zs)" "rb_ooo b2 = rb_ooo b1 - word_of_nat (span_total zs)"
      using release_tree_ok [OF a1 fz(1)] by blast
    note f2 = core_eq [OF r(3)]
    obtain b3 where c: "cut_last b2 k (word_of_nat ?L) = Some b3" "arena b3 [(k, clip ?L ys)]" "core_of b3 = core_of b2" "rb_n b3 = rb_n b2"
      "rb_ooo b3 = rb_ooo b2 - (word_of_nat (span_total ys) - word_of_nat (span_total (clip ?L ys)))"
      using cut_last_ok [OF r(2) _ L64 ysL] fz(2) f2 by auto
    note f3 = core_eq [OF c(3)]
    let ?d = "\<lambda>x. x \<ge> (word_of_nat ?L :: uint64)"
    let ?b = "forgetRecent (b3\<lparr>rb_root := k\<rparr>) ?d"
    have "marks_ok (rb_recent ?b) (kept ?L xs)"
    proof (rule forget_marks [where xs = xs])
      fix x assume x: "x \<in> set xs" "\<not> (word_of_nat ?L :: uint64) \<le> word_of_nat (fst x)"
      have "fst x < 2 ^ 64" using fitsD(6) [OF f, of "fst x" "snd x"] x(1) by simp
      then have "fst x < ?L" using x(2) L64 by (simp add: offset_le)
      then show "fst x \<in> fst ` set (kept ?L xs)" by (rule kept_ok(4) [OF a(2) L(1) x(1)])
    qed (use a(5) f f1 f2 f3 in simp_all)
    moreover have n: "rb_n ?b = int (length (kept ?L xs))" using c(4) r(4) counts_eq [OF s(4)] a(3) unfolding kept by (simp add: cut(3) clip_def)
    moreover have o: "rb_ooo ?b = word_of_nat (span_total (kept ?L xs))" using c(5) r(5) counts_eq [OF s(4)] a(4) unfolding kept by (simp add: cut(3))
    moreover have "early (nx b) (kept ?L xs)" by (rule kept_ok(1) [OF a(2) L(1)])
    ultimately have "table_ok ?b (kept ?L xs)" unfolding table_ok_def using c(2) f1 f2 f3 by (simp add: kept)
    moreover have "renege b (word_of_nat limit) maxN = Some (?b, rb_ooo b - rb_ooo ?b)"
      using lim rm cmp root False s(1) r(1) c(1) by (simp add: renege_def Let_def)
    ultimately show ?thesis using f1 f2 f3 a(4) o by (intro exI [of _ ?b]) simp
  qed
qed

subsection \<open>The change of stage\<close>

lemma window_weaken:
  assumes "window r lo hi (content S X)" and "lo \<le> hi'" and "hi' \<le> hi" and "Y \<subseteq> X" and "\<forall>y \<in> Y. y < hi'"
  shows "window r lo hi' (content S Y)"
  using assms unfolding window_def content_def by (auto split: if_splits)

lemma written_ok:
  assumes "arena b [(rb_root b, xs)]" and "fits (rb_nxtOff b) xs" and "rd b \<le> nx b"
  shows "\<exists>ws. recv_written b = Some ws \<and> (\<Union>(a, c) \<in> set ws. {unat a..<unat c}) = {rd b..<nx b} \<union> covered xs
    \<and> (early (nx b) xs \<longrightarrow> (\<forall>(a, c) \<in> set ws. rd b \<le> unat a \<and> unat a \<le> unat c \<and> unat c \<le> right_end (nx b) xs))"
proof -
  let ?pre = "if rb_nxtOff b > rb_readOff b then [(rb_readOff b, rb_nxtOff b)] else []"
  have w: "recv_written b = Some (?pre @ map offsets xs)" unfolding recv_written_def intervals_def by (rule arena_walk(1) [OF assms(1,2)])
  have u: "unat (fst (offsets x)) = fst x" "unat (snd (offsets x)) = snd x" if "x \<in> set xs" for x
    using fitsD(5,6) [OF assms(2), of "fst x" "snd x"] that by (simp_all add: offsets_def unat_offset)
  have "(\<Union>(a, c) \<in> set ?pre. {unat a..<unat c}) = {rd b..<nx b}" using assms(3) by (auto simp: word_less_nat_alt)
  moreover have "(\<Union>(a, c) \<in> set (map offsets xs). {unat a..<unat c}) = covered xs"
    using u unfolding covered_def by (simp add: case_prod_unfold)
  ultimately have "(\<Union>(a, c) \<in> set (?pre @ map offsets xs). {unat a..<unat c}) = {rd b..<nx b} \<union> covered xs" unfolding set_append UN_Un by simp
  moreover have "\<forall>(a, c) \<in> set (?pre @ map offsets xs). rd b \<le> unat a \<and> unat a \<le> unat c \<and> unat c \<le> right_end (nx b) xs" if e: "early (nx b) xs"
  proof -
    have "rd b \<le> fst x \<and> fst x \<le> snd x \<and> snd x \<le> right_end (nx b) xs" if "x \<in> set xs" for x
      using early_bounds(2-4) [OF e that] assms(3) that by (auto simp: right_end_def)
    then show ?thesis using u right_end_ge [OF e] assms(3) by (auto simp: case_prod_unfold)
  qed
  ultimately show ?thesis using w by blast
qed

theorem setRecvStage_ok:
  assumes t: "table_ok b xs" and f: "fits (rb_nxtOff b) xs" and r: "rd b \<le> nx b" "window (rb_r b) (rd b) (right_end (nx b) xs) (content S ({rd b..<nx b} \<union> covered xs))"
    "pool_ok pool" "right_end (nx b) xs < 2 ^ 64" "2 ^ k = rg_cap (rb_r b) \<longrightarrow> tight (rb_r b) (rd b) (right_end (nx b) xs)"
    and k: "14 \<le> k" "k \<le> 22" "right_end (nx b) xs \<le> rd b + 2 ^ k" and iv: "length xs \<le> length iv"
  shows "\<exists>b' pool'. setRecvStage b pool (2 ^ k) iv = Some (b', pool') \<and> recv_ok S b' pool' xs \<and> rb_readOff b' = rb_readOff b \<and> rb_nxtOff b' = rb_nxtOff b
    \<and> rg_cap (rb_r b') = 2 ^ k \<and> length (rb_iv b') = length iv"
proof -
  have a: "arena b [(rb_root b, xs)]" "early (nx b) xs" "rb_n b = int (length xs)" using t by (simp_all add: table_ok_def)
  obtain ws where ws: "recv_written b = Some ws" "(\<Union>(a, c) \<in> set ws. {unat a..<unat c}) = {rd b..<nx b} \<union> covered xs"
    "\<forall>(a, c) \<in> set ws. rd b \<le> unat a \<and> unat a \<le> unat c \<and> unat c \<le> right_end (nx b) xs" using written_ok [OF a(1) f r(1)] a(2) by blast
  have dm: "dom (content S ({rd b..<nx b} \<union> covered xs)) \<subseteq> (\<Union>(a, c) \<in> set ws. {unat a..<unat c})" unfolding ws(2) by (auto simp: content_def split: if_splits)
  obtain r' pool' where rs: "ring_resize (rb_r b) pool (2 ^ k) ws = Some (r', pool')" "pool_ok pool'" "rg_cap r' = 2 ^ k"
    "window r' (rd b) (right_end (nx b) xs) (content S ({rd b..<nx b} \<union> covered xs))" "tight r' (rd b) (right_end (nx b) xs)"
    using resize_ok [OF r(2,3,5,4) refl k ws(3) dm] by blast
  have "arena (b\<lparr>rb_r := r'\<rparr>) [(rb_root (b\<lparr>rb_r := r'\<rparr>), xs)]" using a(1) by simp
  from setIntervals_ok [OF this] f a(3) iv obtain b' where b': "setIntervals (b\<lparr>rb_r := r'\<rparr>) iv = Some (b', True)" "arena b' [(rb_root b', xs)]"
    "core_of b' = core_of (b\<lparr>rb_r := r', rb_iv := iv\<rparr>)" "counts_of b' = counts_of (b\<lparr>rb_r := r'\<rparr>)" by auto
  note cb = core_eq [OF b'(3)]
  have "setRecvStage b pool (2 ^ k) iv = Some (b', pool')" using ws(1) rs(1) b'(1) by (simp add: setRecvStage_def)
  moreover have "recv_ok S b' pool' xs" using t b'(2) counts_eq [OF b'(4)] rs(2,4,5) r(1,4) cb by (simp add: recv_ok_def table_ok_def ring_holds_def)
  ultimately show ?thesis using cb rs(3) by simp
qed

end
