(* ===== verification/Recv_Sack.thy ===== *)
theory Recv_Sack
  imports Recv_Stage
begin

section \<open>Selective acknowledgement\<close>

text \<open>
  The blocks that are reported are intervals of the table, the recently touched first, and as many as fit.
\<close>

definition block :: "uint32 \<Rightarrow> nat \<times> nat \<Rightarrow> sackBlock" where
  "block base x = \<lparr>sb_left = base + word_of_nat (fst x), sb_right = base + word_of_nat (snd x)\<rparr>"

lemma early_starts:
  assumes "early n xs"
  shows "distinct (map fst xs)"
proof -
  have "sorted_wrt (<) (map fst xs)" unfolding sorted_wrt_map
    by (rule sorted_wrt_mono_rel [of _ "\<lambda>x y. snd x < fst y"]) (use assms in \<open>force simp: early_def gapped_def\<close>)+
  then show ?thesis by (simp add: strict_sorted_iff)
qed

lemma low_bits_inject:
  assumes "fits nxt xs" and "x \<in> set xs" and "y \<in> set xs"
  shows "(word_of_nat (fst x) :: uint32) = word_of_nat (fst y) \<longleftrightarrow> fst x = fst y"
proof
  assume "(word_of_nat (fst x) :: uint32) = word_of_nat (fst y)"
  then have m: "fst x mod 2 ^ 32 = fst y mod 2 ^ 32" by (simp add: word_of_nat_eq_iff take_bit_eq_mod)
  have "unat nxt \<le> fst x" "fst x < unat nxt + 2 ^ 32" "unat nxt \<le> fst y" "fst y < unat nxt + 2 ^ 32"
    using fitsD(3,4,7) [OF assms(1), of "fst x" "snd x"] fitsD(3,4,7) [OF assms(1), of "fst y" "snd y"] assms(2,3) by simp_all
  then show "fst x = fst y" by (rule mod_window [OF m])
qed simp

text \<open>The interval that starts at a mark.\<close>

definition marked :: "(nat \<times> nat) list \<Rightarrow> nat \<Rightarrow> nat \<times> nat" where
  "marked xs m = (m, the (map_of xs m))"

lemma marked_in: "m \<in> fst ` set xs \<Longrightarrow> marked xs m \<in> set xs"
  unfolding marked_def by (metis map_of_eq_None_iff map_of_SomeD not_None_eq option.sel)

lemma recent_blocks_ok:
  assumes a: "arena b [(rb_root b, xs)]" and f: "fits (rb_nxtOff b) xs" and e: "early (nx b) xs"
  shows "distinct (map fst ys @ ms) \<Longrightarrow> set ms \<subseteq> fst ` set xs \<Longrightarrow> set ys \<subseteq> set xs \<Longrightarrow> length seen = length ys \<Longrightarrow> length ys \<le> c \<Longrightarrow>
    \<forall>k \<in> set seen. \<exists>y \<in> set ys. kStart b k = Some (word_of_nat (fst y)) \<Longrightarrow>
    \<exists>seen'. recent_blocks b c base (map word_of_nat ms) seen (map (block base) ys)
        = Some (seen', map (block base) (ys @ map (marked xs) (take (c - length ys) ms))) \<and> length seen' = length ys + length (take (c - length ys) ms)"
proof (induction ms arbitrary: ys seen)
  case (Cons m ms)
  show ?case
  proof (cases "length ys \<ge> c")
    case True
    then show ?thesis using Cons.prems(4,5) by simp
  next
    case False
    let ?x = "marked xs m"
    have x: "?x \<in> set xs" "fst ?x = m" using Cons.prems(2) marked_in by (simp_all add: marked_def)
    then have mem: "(m, snd ?x) \<in> set xs" by (metis prod.collapse)
    have g: "gapped xs" using e by (simp add: early_def)
    obtain k where k: "containing_from (rb_nxtOff b) (rb_iv b) (word_of_nat m) (rb_root b) = Some k" "k \<noteq> 0" "kStart b k = Some (word_of_nat m)" "kEnd b k = Some (word_of_nat (snd ?x))"
      using arena_containing [OF a f g mem] by blast
    have fo: "full_off (rb_nxtOff b) (word_of_nat m) = word_of_nat m" by (rule fitsD(1) [OF f mem])
    have "k \<notin> set seen"
    proof
      assume "k \<in> set seen"
      then obtain y where y: "y \<in> set ys" "(word_of_nat (fst y) :: uint64) = word_of_nat m" using Cons.prems(6) k(3) by auto
      have "fst y < 2 ^ 64" "m < 2 ^ 64" using fitsD(6) [OF f, of "fst y" "snd y"] fitsD(6) [OF f mem] y(1) Cons.prems(3) by auto
      then have "fst y = m" using y(2) by (metis unat_offset)
      then show False using Cons.prems(1) y(1) by auto
    qed
    then have step: "recent_blocks b c base (map word_of_nat (m # ms)) seen (map (block base) ys)
        = recent_blocks b c base (map word_of_nat ms) (seen @ [k]) (map (block base) (ys @ [?x]))"
      using False k fo x(2) by (simp add: block_def ucast_offset)
    have "\<exists>seen'. recent_blocks b c base (map word_of_nat ms) (seen @ [k]) (map (block base) (ys @ [?x]))
        = Some (seen', map (block base) ((ys @ [?x]) @ map (marked xs) (take (c - length (ys @ [?x])) ms))) \<and> length seen' = length (ys @ [?x]) + length (take (c - length (ys @ [?x])) ms)"
    proof (rule Cons.IH)
      show "\<forall>k' \<in> set (seen @ [k]). \<exists>y \<in> set (ys @ [?x]). kStart b k' = Some (word_of_nat (fst y))"
        using Cons.prems(6) k(3) x(2) by auto
    qed (use Cons.prems x False in auto)
    moreover have "take (c - length ys) (m # ms) = m # take (c - length (ys @ [?x])) ms" using False by (simp add: take_Cons')
    ultimately show ?thesis unfolding step by (auto simp: marked_def)
  qed
qed simp

lemma fill_blocks_ok:
  assumes f: "fits nxt xs" and e: "early n xs"
  shows "length ys \<le> c \<Longrightarrow> distinct zs \<Longrightarrow> set ys \<subseteq> set xs \<Longrightarrow> set zs \<subseteq> set xs \<Longrightarrow>
    fill_blocks c base (map offsets zs) (map (block base) ys) = map (block base) (ys @ take (c - length ys) (filter (\<lambda>z. z \<notin> set ys) zs))"
proof (induction zs arbitrary: ys)
  case (Cons z zs)
  have inj: "fst y = fst z \<longleftrightarrow> y = z" if "y \<in> set ys" for y
    using early_starts [OF e] that Cons.prems(3,4) by (metis eq_key_imp_eq_value list.set_intros(1) prod.collapse subset_iff)
  have "chosen (map (block base) ys) base (offsets z) \<longleftrightarrow> (\<exists>y \<in> set ys. (word_of_nat (fst y) :: uint32) = word_of_nat (fst z))"
    by (auto simp: chosen_def block_def offsets_def ucast_offset)
  also have "\<dots> \<longleftrightarrow> (\<exists>y \<in> set ys. y = z)"
  proof (rule bex_cong [OF refl])
    fix y assume y: "y \<in> set ys"
    then have "y \<in> set xs" "z \<in> set xs" using Cons.prems(3,4) by auto
    then show "(word_of_nat (fst y) :: uint32) = word_of_nat (fst z) \<longleftrightarrow> y = z" using low_bits_inject [OF f] inj [OF y] by simp
  qed
  finally have ch: "chosen (map (block base) ys) base (offsets z) \<longleftrightarrow> z \<in> set ys" by simp
  consider "length ys = c" | "length ys < c" "z \<in> set ys" | "length ys < c" "z \<notin> set ys" using Cons.prems(1) by linarith
  then show ?case
  proof cases
    case 2
    then show ?thesis using Cons ch by simp
  next
    case 3
    have "filter (\<lambda>w. w \<notin> set (ys @ [z])) zs = filter (\<lambda>w. w \<notin> set ys) zs" using Cons.prems(2) by (intro filter_cong) auto
    moreover have "block base z = \<lparr>sb_left = base + ucast (fst (offsets z)), sb_right = base + ucast (snd (offsets z))\<rparr>"
      by (simp add: block_def offsets_def ucast_offset)
    moreover have "fill_blocks c base (map offsets zs) (map (block base) (ys @ [z])) = map (block base) ((ys @ [z]) @ take (c - length (ys @ [z])) (filter (\<lambda>w. w \<notin> set (ys @ [z])) zs))"
      by (rule Cons.IH) (use Cons.prems 3 in auto)
    ultimately show ?thesis using 3 ch by (simp add: take_Cons')
  qed simp
qed simp

lemma filter_fresh_length:
  assumes "distinct zs" and "distinct ys"
  shows "length zs \<le> length (filter (\<lambda>z. z \<notin> set ys) zs) + length ys"
proof -
  have "length (filter (\<lambda>z. z \<in> set ys) zs) = card (set (filter (\<lambda>z. z \<in> set ys) zs))" by (rule distinct_card [OF distinct_filter [OF assms(1)], symmetric])
  also have "\<dots> \<le> card (set ys)" by (rule card_mono) auto
  also have "\<dots> = length ys" by (rule distinct_card [OF assms(2)])
  finally show ?thesis using sum_length_filter_compl [of "\<lambda>z. z \<in> set ys" zs] by simp
qed

lemma fill_count: "a + min (c - a) f \<le> x \<Longrightarrow> min (c + a) x \<le> f + a \<Longrightarrow> a < c \<Longrightarrow> a + min (c - a) f = min c x" for a c f x :: nat
  by linarith

theorem sackBlocks_ok:
  assumes b: "recv_ok S b pool xs"
  shows "\<exists>ys. sackBlocks b c base = Some (map (block base) ys) \<and> distinct ys \<and> set ys \<subseteq> set xs \<and> length ys = min c (length xs)
    \<and> map (\<lambda>y. word_of_nat (fst y)) (take (length (rb_recent b)) ys) = take c (rb_recent b)"
proof -
  have a: "arena b [(rb_root b, xs)]" "early (nx b) xs" "rb_n b = int (length xs)" "marks_ok (rb_recent b) xs"
    using b by (simp_all add: recv_ok_def table_ok_def)
  have f: "fits (rb_nxtOff b) xs" by (rule recv_fits [OF b])
  obtain ms where ms: "rb_recent b = map word_of_nat ms" "distinct ms" "set ms \<subseteq> fst ` set xs" using a(4) by (auto simp: marks_ok_def)
  have dx: "distinct xs" using early_starts [OF a(2)] by (simp add: distinct_map)
  have msl: "length ms \<le> length xs" using card_mono [OF _ ms(3)] distinct_card [OF ms(2)] card_image_le [of "set xs" fst] distinct_card [OF dx] by simp
  show ?thesis
  proof (cases "xs = [] \<or> c = 0")
    case True
    then have "rb_recent b = [] \<or> c = 0" using msl ms(1) by auto
    then show ?thesis using True a(3) by (intro exI [of _ "[]"]) (auto simp: sackBlocks_def)
  next
    case False
    let ?ys = "map (marked xs) (take c ms)"
    obtain seen where r: "recent_blocks b c base (rb_recent b) [] [] = Some (seen, map (block base) ?ys)" "length seen = length ?ys"
      using recent_blocks_ok [OF a(1) f a(2), of "[]" ms "[]" c base] ms by auto
    have y1: "map fst ?ys = take c ms" by (simp add: marked_def comp_def)
    then have dy: "distinct ?ys" using ms(2) by (metis distinct_map distinct_take)
    have "set (take c ms) \<subseteq> fst ` set xs" by (rule order_trans [OF set_take_subset ms(3)])
    then have sy: "set ?ys \<subseteq> set xs" using marked_in by (simp add: image_subset_iff) blast
    have tk: "map (\<lambda>y. word_of_nat (fst y)) ?ys = take c (rb_recent b)" by (simp add: ms(1) take_map marked_def comp_def)
    have ly: "length ?ys \<le> c" "length ?ys \<le> length xs" "length ?ys = min c (length ms)" using msl by auto
    show ?thesis
    proof (cases "length ?ys < c \<and> length ?ys < length xs")
      case True
      let ?zs = "take (c + length ?ys) xs" and ?m = "c + length ?ys"
      let ?us = "?ys @ take (c - length ?ys) (filter (\<lambda>z. z \<notin> set ?ys) ?zs)"
      have w: "walk (rb_nxtOff b) (rb_iv b) (rb_root b) [] (int ?m) = Some (take ?m ([] @ map offsets xs))" by (rule arena_walk(2) [OF a(1) f]) simp
      have "fill_blocks c base (map offsets ?zs) (map (block base) ?ys) = map (block base) ?us"
        by (rule fill_blocks_ok [OF f a(2) ly(1) _ sy]) (use dx in \<open>auto dest: in_set_takeD\<close>)
      then have s: "sackBlocks b c base = Some (map (block base) ?us)"
        using False True r w a(3) by (simp add: sackBlocks_def take_map)
      have zs: "min (c + length ?ys) (length xs) \<le> length (filter (\<lambda>z. z \<notin> set ?ys) ?zs) + length ?ys"
        using filter_fresh_length [OF distinct_take [OF dx] dy, of ?m] by (simp add: min.commute)
      have "set ?ys \<inter> set (take (c - length ?ys) (filter (\<lambda>z. z \<notin> set ?ys) ?zs)) = {}"
        using set_take_subset [of "c - length ?ys" "filter (\<lambda>z. z \<notin> set ?ys) ?zs"] unfolding set_filter by blast
      then have du: "distinct ?us" unfolding distinct_append using dy dx by simp
      have su: "set ?us \<subseteq> set xs" using sy by (auto dest!: in_set_takeD)
      have len: "length ?us = length ?ys + min (c - length ?ys) (length (filter (\<lambda>z. z \<notin> set ?ys) ?zs))" by (simp only: length_append length_take min.commute)
      have up: "length ?us \<le> length xs" using card_mono [OF finite_set su] unfolding distinct_card [OF du] distinct_card [OF dx] .
      have lu: "length ?us = min c (length xs)" unfolding len by (rule fill_count [OF up [unfolded len] zs conjunct1 [OF True]])
      have tu: "take (length (rb_recent b)) ?us = ?ys" using True ly(3) ms(1) by (simp add: min_def split: if_splits)
      show ?thesis by (intro exI [of _ ?us] conjI s du su lu) (unfold tu, rule tk)
    next
      case no: False
      then have "sackBlocks b c base = Some (map (block base) ?ys)" using False r a(3) by (auto simp: sackBlocks_def)
      moreover have "length ?ys = min c (length xs)" using no ly(1,2) by linarith
      moreover have "take (length (rb_recent b)) ?ys = ?ys" using ms(1) by simp
      ultimately show ?thesis using dy sy tk by (intro exI [of _ ?ys]) simp
    qed
  qed
qed

end
