(* ===== verification/Recv_System.thy ===== *)
theory Recv_System
  imports Recv_Sack
begin

section \<open>The receiver of a connection\<close>

text \<open>
  The receive buffer under everything a connection does with it: segments that carry parts of one stream, in any order, cut and
  repeated in any way, reads, and the changes of the buffer's size.
\<close>

subsection \<open>Segments\<close>

lemma segment_offset_ok:
  assumes "unat nxt \<le> 2 ^ 62" and "o' < 2 ^ 62" and "\<bar>int o' - int (unat nxt)\<bar> < 2 ^ 31"
  shows "segment_offset nxt irs (irs + 1 + word_of_nat o') = int o'"
proof -
  let ?d = "int o' - int (unat nxt)"
  have "(ucast nxt :: uint32) = word_of_nat (unat nxt)" by (simp add: unsigned_ucast_eq)
  then have "irs + 1 + word_of_nat o' - (irs + 1 + ucast nxt) = (word_of_int ?d :: uint32)" by simp
  moreover have "signed_take_bit 31 ?d = ?d" using assms(3) by (intro signed_take_bit_int_eq_self) (simp_all add: abs_less_iff)
  then have "sint (word_of_int ?d :: uint32) = ?d" unfolding signed_of_int of_int_eq_id id_apply by simp
  moreover have lo: "- (2 ^ 63) \<le> int (unat nxt)" by (rule order_trans [OF _ of_nat_0_le_iff]) simp
  have hi: "int (unat nxt) < 2 ^ 63" by (rule le_less_trans [OF of_nat_mono [OF assms(1)]]) simp
  have "signed_take_bit 63 (int (unat nxt)) = int (unat nxt)" by (rule signed_take_bit_int_eq_self [OF lo hi])
  then have "sint (word_of_int (int (unat nxt)) :: uint64) = int (unat nxt)" unfolding signed_of_int of_int_eq_id id_apply by simp
  then have "sint nxt = int (unat nxt)" by simp
  ultimately show ?thesis unfolding segment_offset_def Let_def using assms(2) by (simp add: wrap64_id)
qed

text \<open>The insertion that a segment leads to: at its offset, up to the advertised edge of the window and what the ring can hold.\<close>

lemma receive_insert:
  assumes r: "ring_ok (rb_r b)" "rd b \<le> nx b" and o: "o' < 2 ^ 62" "nx b \<le> 2 ^ 62" "\<bar>int o' - int (nx b)\<bar> < 2 ^ 31"
  shows "receive b pool irs (irs + 1 + word_of_nat o') payload adv (rg_cap (rb_r b))
      = recv_insert b pool (word_of_nat o') payload (word_of_nat (min (unat adv) (rd b + rcap (rb_r b))))"
    and "min (unat adv) (rd b + rcap (rb_r b)) < 2 ^ 64"
proof -
  let ?m = "min (unat adv) (rd b + rcap (rb_r b))"
  have lt: "rd b + rcap (rb_r b) < 2 ^ 63" using r(2) o(2) rcap_bound [OF r(1)] by simp
  then show "?m < 2 ^ 64" by simp
  have u: "unat (rb_readOff b + rg_cap (rb_r b)) = rd b + rcap (rb_r b)" using lt by (simp add: unat_word_ariths(1) rcap_def)
  then have um: "unat (min adv (rb_readOff b + rg_cap (rb_r b))) = ?m" by (simp add: min_def word_le_nat_alt)
  have "word_of_nat (unat w) = w" for w :: uint64 by simp
  from this [of "min adv (rb_readOff b + rg_cap (rb_r b))"] have lim: "min adv (rb_readOff b + rg_cap (rb_r b)) = word_of_nat ?m" unfolding um by (rule sym)
  have off: "segment_offset (rb_nxtOff b) irs (irs + 1 + word_of_nat o') = int o'" by (rule segment_offset_ok [OF o(2,1,3)])
  show "receive b pool irs (irs + 1 + word_of_nat o') payload adv (rg_cap (rb_r b)) = recv_insert b pool (word_of_nat o') payload (word_of_nat ?m)"
    unfolding receive_def Let_def off lim by simp
qed

theorem receive_ok:
  assumes b: "recv_ok S b pool xs" and o: "o' + length payload < 2 ^ 62" "nx b \<le> 2 ^ 62" "\<bar>int o' - int (nx b)\<bar> < 2 ^ 31" "agrees S o' payload"
  shows "\<exists>b' pool' res xs'. receive b pool irs (irs + 1 + word_of_nat o') payload adv (rg_cap (rb_r b)) = Some (b', pool', res)
    \<and> recv_ok S b' pool' xs' \<and> took b xs o' (min (o' + length payload) (min (unat adv) (rd b + rcap (rb_r b)))) b' xs' res"
proof -
  have rh: "rd b \<le> nx b" "ring_ok (rb_r b)" using b by (simp_all add: recv_ok_def ring_holds_def window_def)
  have "o' < 2 ^ 62" using o(1) by linarith
  note i = receive_insert [OF rh(2,1) this o(2,3)]
  have "o' + length payload < 2 ^ 64" "min (unat adv) (rd b + rcap (rb_r b)) \<le> rd b + rcap (rb_r b)" using o(1) by simp_all
  then show ?thesis unfolding i(1) using recv_insert_ok [OF b _ _ i(2) o(4)] by metis
qed

subsection \<open>What has arrived\<close>

text \<open>The offsets that have arrived, read from the buffer.\<close>

definition received :: "recvBuf \<Rightarrow> nat set" where
  "received b = {0..<nx b} \<union> (case intervals b [] of None \<Rightarrow> {} | Some ivs \<Rightarrow> (\<Union>x \<in> set ivs. {unat (fst x)..<unat (snd x)}))"

lemma table_intervals:
  assumes "arena b [(rb_root b, xs)]" and "fits (rb_nxtOff b) xs"
  shows "intervals b [] = Some (map offsets xs)" and "received b = arrived b xs"
proof -
  show i: "intervals b [] = Some (map offsets xs)" using arena_walk(1) [OF assms, of "[]"] by (simp add: intervals_def)
  have "unat (fst (offsets x)) = fst x \<and> unat (snd (offsets x)) = snd x" if "x \<in> set xs" for x
    using fitsD(5,6) [OF assms(2), of "fst x" "snd x"] that by (simp add: offsets_def unat_offset)
  then show "received b = arrived b xs" by (simp add: received_def i arrived_def covered_def)
qed

lemma recv_intervals:
  assumes "recv_ok S b pool xs"
  shows "intervals b [] = Some (map offsets xs)" and "received b = arrived b xs"
  using assms table_intervals [OF _ recv_fits [OF assms]] by (simp_all add: recv_ok_def table_ok_def)

lemma received_gap:
  assumes "recv_ok S b pool xs"
  shows "nx b = (LEAST x. x \<notin> received b)" and "\<And>x. x \<in> set xs \<Longrightarrow> {fst x..<snd x} \<subseteq> received b \<and> fst x - 1 \<notin> received b \<and> snd x \<notin> received b"
proof -
  have e: "early (nx b) xs" using assms by (simp add: recv_ok_def table_ok_def)
  have r: "received b = {0..<nx b} \<union> covered xs" using recv_intervals(2) [OF assms] by (simp add: arrived_def)
  show "nx b = (LEAST x. x \<notin> received b)"
  proof (rule sym, rule Least_equality)
    show "nx b \<notin> received b" using covered_bounds [OF e, of "nx b"] by (auto simp: r)
    show "nx b \<le> y" if "y \<notin> received b" for y using that by (auto simp: r not_less)
  qed
  fix x assume x: "x \<in> set xs"
  obtain ys zs where xs: "xs = ys @ x # zs" using x by (meson split_list)
  have s: "\<forall>y \<in> set ys. snd y < fst x" "\<forall>z \<in> set zs. snd x < fst z" "nx b < fst x" "fst x < snd x"
    using e by (auto simp: xs early_def gapped_append gapped_Cons)
  have "fst x - 1 \<notin> covered ys \<and> snd x \<notin> covered ys" using s(1,4) by (fastforce simp: covered_def)
  moreover have "fst x - 1 \<notin> covered zs \<and> snd x \<notin> covered zs" using s(2,4) by (fastforce simp: covered_def)
  ultimately show "{fst x..<snd x} \<subseteq> received b \<and> fst x - 1 \<notin> received b \<and> snd x \<notin> received b" using s(3,4) unfolding r by (auto simp: xs)
qed

lemma card_covered: "early n xs \<Longrightarrow> card (covered xs) = span_total xs \<and> finite (covered xs)"
proof (induction xs)
  case (Cons x xs)
  have e: "early n xs" "\<forall>y \<in> set xs. snd x < fst y" using Cons.prems by (auto simp: early_def gapped_Cons)
  have "{fst x..<snd x} \<inter> covered xs = {}" using e(2) by (fastforce simp: covered_def)
  then show ?case using Cons.IH [OF e(1)] by (simp add: card_Un_disjoint)
qed simp

subsection \<open>Closing\<close>

lemma drop_early_ok:
  assumes b: "recv_ok S b pool xs"
  shows "\<exists>b' pool'. drop_early b pool = (b', pool') \<and> recv_ok S b' pool' [] \<and> rb_readOff b' = rb_readOff b \<and> rb_nxtOff b' = rb_nxtOff b \<and> rg_cap (rb_r b') = rg_cap (rb_r b)
    \<and> rb_iv b' = rb_iv b"
proof -
  have rh: "rd b \<le> nx b" "window (rb_r b) (rd b) (right_end (nx b) xs) (content S ({rd b..<nx b} \<union> covered xs))" "pool_ok pool" "early (nx b) xs" "right_end (nx b) xs < 2 ^ 64"
    using b by (simp_all add: recv_ok_def ring_holds_def table_ok_def)
  have w: "window (rb_r b) (rd b) (nx b) (content S {rd b..<nx b})" by (rule window_weaken [OF rh(2,1) right_end_ge [OF rh(4)]]) auto
  have lt: "nx b < 2 ^ 64" using right_end_ge [OF rh(4)] rh(5) by linarith
  obtain r' pool' where rt: "retain (rb_r b) pool (rb_readOff b) (rb_nxtOff b) = (r', pool')" "pool_ok pool'" "rg_cap r' = rg_cap (rb_r b)"
    "window r' (rd b) (nx b) (content S {rd b..<nx b})" "tight r' (rd b) (nx b)" using retain_ok [OF w rh(3) lt] by auto
  let ?b = "(clearIntervals b)\<lparr>rb_r := r'\<rparr>"
  have "arena ?b [(rb_root ?b, [])]" unfolding arena_def by (intro exI [of _ "[Leaf]"] exI [of _ "[]"]) (simp add: holds_def nodes_of_def clearIntervals_def)
  then have "recv_ok S ?b pool' []" using rt(2,4,5) rh(1) lt
    by (simp add: recv_ok_def table_ok_def ring_holds_def clearIntervals_def right_end_def marks_ok_def)
  moreover have "drop_early b pool = (?b, pool')" using rt(1) by (simp add: drop_early_def clearIntervals_def)
  ultimately show ?thesis using rt(3) by (simp add: clearIntervals_def)
qed

subsection \<open>Becoming small\<close>

lemma demote_recv_ok:
  assumes b: "recv_ok S b pool xs" and u: "nx b - rd b \<le> recvFloor" and cap: "rg_cap (rb_r b) = word_of_nat boostSize" and iv: "length iv = floorIntervals" and n: "nx b \<le> 2 ^ 62"
  shows "\<exists>b' pool' cnt xs'. demote_recv b pool iv = Some (b', pool', cnt) \<and> recv_ok S b' pool' xs' \<and> rb_readOff b' = rb_readOff b \<and> rb_nxtOff b' = rb_nxtOff b
    \<and> rg_cap (rb_r b') = word_of_nat recvFloor \<and> length (rb_iv b') = floorIntervals
    \<and> nx b \<le> renege_at (rd b + recvFloor) floorIntervals xs \<and> arrived b' xs' = arrived b xs \<inter> {..<renege_at (rd b + recvFloor) floorIntervals xs} \<and> unat cnt = card (arrived b xs - arrived b' xs')"
proof -
  have t: "table_ok b xs" "early (nx b) xs" and rh: "rd b \<le> nx b" "window (rb_r b) (rd b) (right_end (nx b) xs) (content S ({rd b..<nx b} \<union> covered xs))" "pool_ok pool"
    "right_end (nx b) xs < 2 ^ 64" using b by (simp_all add: recv_ok_def ring_holds_def table_ok_def)
  have f: "fits (rb_nxtOff b) xs" by (rule recv_fits [OF b])
  let ?l = "rd b + recvFloor"
  let ?L = "renege_at ?l floorIntervals xs"
  let ?ys = "kept ?L xs"
  have l: "nx b \<le> ?l" "0 < ?l" "?l < 2 ^ 64" using u rh(1) n by (simp_all add: recvFloor_def)
  note L = renege_at_bounds [OF t(2) l(1,2), of floorIntervals]
  obtain c where r: "renege b (word_of_nat ?l) floorIntervals = Some (c, word_of_nat (span_total xs) - word_of_nat (span_total ?ys))" "table_ok c ?ys"
    "rb_r c = rb_r b" "rb_readOff c = rb_readOff b" "rb_nxtOff c = rb_nxtOff b" using renege_ok [OF t(1) f l] by blast
  have k: "early (nx b) ?ys" "covered ?ys = covered xs \<inter> {..<?L}" "right_end (nx b) ?ys \<le> right_end (nx b) xs" "right_end (nx b) ?ys \<le> ?L"
    using kept_ok(1-3) [OF t(2) L(1)] by simp_all
  have fy: "fits (rb_nxtOff c) ?ys"
  proof (rule early_fits)
    show "early (unat (rb_nxtOff c)) ?ys" "right_end (unat (rb_nxtOff c)) ?ys < 2 ^ 64" using k(1,3) rh(4) r(5) by simp_all
    show "right_end (unat (rb_nxtOff c)) ?ys < unat (rb_nxtOff c) + 2 ^ 32" using k(4) L(3) rh(1) r(5) by (simp add: recvFloor_def)
  qed
  have w: "window (rb_r b) (rd b) (right_end (nx b) ?ys) (content S ({rd b..<nx b} \<union> covered ?ys))"
    by (rule window_weaken [OF rh(2) _ k(3)]) (use k(2) rh(1) right_end_ge [OF k(1)] covered_bounds [OF k(1)] in auto)
  have ne: "(2 :: uint64) ^ 18 \<noteq> rg_cap (rb_r b)" unfolding cap by (simp add: boostSize_def)
  have e: "right_end (nx b) ?ys \<le> rd b + 2 ^ 18" using k(4) L(3) by (simp add: recvFloor_def)
  have len: "length ?ys \<le> length iv" using L(4) iv by simp
  obtain b' pool' where s: "setRecvStage c pool (2 ^ 18) iv = Some (b', pool')" "recv_ok S b' pool' ?ys" "rb_readOff b' = rb_readOff c" "rb_nxtOff b' = rb_nxtOff c"
    "rg_cap (rb_r b') = 2 ^ 18" "length (rb_iv b') = length iv"
    using setRecvStage_ok [OF r(2) fy, of S pool 18 iv] rh(1,3,4) w k(3) ne e len unfolding r(3-5) by auto
  have fl: "word_of_nat recvFloor = (2 ^ 18 :: uint64)" by (simp add: recvFloor_def)
  have d: "demote_recv b pool iv = Some (b', pool', word_of_nat (span_total xs) - word_of_nat (span_total ?ys))"
    using r(1) s(1) by (simp add: demote_recv_def fl)
  have cx: "card (covered xs) = span_total xs" "finite (covered xs)" "card (covered ?ys) = span_total ?ys" "finite (covered ?ys)" using card_covered t(2) k(1) by blast+
  have sub: "covered ?ys \<subseteq> covered xs" using k(2) by blast
  have le: "span_total ?ys \<le> span_total xs" using card_mono [OF cx(2) sub] cx(1,3) by simp
  have "covered xs \<subseteq> {nx b..<right_end (nx b) xs}" using covered_bounds [OF t(2)] by (fastforce intro: less_imp_le)
  then have "span_total xs \<le> right_end (nx b) xs - nx b" using card_mono [of "{nx b..<right_end (nx b) xs}" "covered xs"] cx(1) by simp
  then have lt: "span_total xs < 2 ^ 64" using rh(4) by linarith
  have cd: "covered xs \<inter> {0..<nx b} = {}" using covered_bounds [OF t(2)] by fastforce
  have "arrived b xs - arrived b' ?ys = covered xs - covered ?ys" using cd r(5) s(4) by (auto simp: arrived_def)
  then have "card (arrived b xs - arrived b' ?ys) = span_total xs - span_total ?ys" using card_Diff_subset [OF cx(4) sub] cx(1,3) by simp
  moreover have "word_of_nat (span_total xs) - word_of_nat (span_total ?ys) = (word_of_nat (span_total xs - span_total ?ys) :: uint64)" by (rule offset_diff [OF le])
  moreover have "unat (word_of_nat (span_total xs - span_total ?ys) :: uint64) = span_total xs - span_total ?ys" by (rule unat_offset) (use lt in simp)
  ultimately have cnt: "unat (word_of_nat (span_total xs) - word_of_nat (span_total ?ys) :: uint64) = card (arrived b xs - arrived b' ?ys)" by simp
  have nb: "nx b' = nx b" using r(5) s(4) by simp
  have "{0..<nx b} \<subseteq> {..<?L}" using L(1) by (intro subsetI) (simp add: less_le_trans)
  then have "arrived b' ?ys = arrived b xs \<inter> {..<?L}" unfolding arrived_def nb k(2) by blast
  then show ?thesis using d s r(4,5) cnt L(1) iv fl by (intro exI [of _ b'] exI [of _ pool'] exI [of _ "word_of_nat (span_total xs) - word_of_nat (span_total ?ys)"] exI [of _ ?ys]) auto
qed

subsection \<open>The system\<close>

text \<open>The receiver with the stream its peer sends and the bytes the reader got so far.\<close>

record receiver =
  rc_buf :: recvBuf
  rc_pool :: chunkPool
  rc_out :: "uint8 list"
  rc_stream :: "nat \<Rightarrow> uint8"
  rc_irs :: uint32

text \<open>A segment carries the part of the stream at its offset, which is at most \<open>2 ^ 31\<close> away from the next one expected.\<close>

definition carries :: "receiver \<Rightarrow> nat \<Rightarrow> uint8 list \<Rightarrow> bool" where
  "carries s o' payload \<longleftrightarrow> agrees (rc_stream s) o' payload \<and> o' + length payload < 2 ^ 62 \<and> \<bar>int o' - int (nx (rc_buf s))\<bar> < 2 ^ 31"

text \<open>The segment arrives with its sequence number; \<open>rcvCap\<close> of the connection is the capacity of its ring, they are set together.\<close>

abbreviation receive_at :: "receiver \<Rightarrow> nat \<Rightarrow> uint8 list \<Rightarrow> uint64 \<Rightarrow> (recvBuf \<times> chunkPool \<times> insertResult) option" where
  "receive_at s o' payload adv \<equiv> receive (rc_buf s) (rc_pool s) (rc_irs s) (rc_irs s + 1 + word_of_nat o') payload adv (rg_cap (rb_r (rc_buf s)))"

inductive recv_step :: "receiver \<Rightarrow> receiver \<Rightarrow> bool" where
  Segment: "carries s o' payload \<Longrightarrow> receive_at s o' payload adv = Some (b', pool', res) \<Longrightarrow> recv_step s (s\<lparr>rc_buf := b', rc_pool := pool'\<rparr>)"
| Read: "recv_read (rc_buf s) (rc_pool s) len = Some (b', pool', bytes) \<Longrightarrow> recv_step s (s\<lparr>rc_buf := b', rc_pool := pool', rc_out := rc_out s @ bytes\<rparr>)"
| Promote: "rb_n (rc_buf s) \<le> int (length iv) \<Longrightarrow> setRecvStage (rc_buf s) (rc_pool s) (word_of_nat boostSize) iv = Some (b', pool') \<Longrightarrow>
    recv_step s (s\<lparr>rc_buf := b', rc_pool := pool'\<rparr>)"
| Demote: "unread (rc_buf s) \<le> word_of_nat recvFloor \<Longrightarrow> rg_cap (rb_r (rc_buf s)) = word_of_nat boostSize \<Longrightarrow> length iv = floorIntervals \<Longrightarrow>
    demote_recv (rc_buf s) (rc_pool s) iv = Some (b', pool', cnt) \<Longrightarrow> recv_step s (s\<lparr>rc_buf := b', rc_pool := pool'\<rparr>)"
| Drop: "drop_early (rc_buf s) (rc_pool s) = (b', pool') \<Longrightarrow> recv_step s (s\<lparr>rc_buf := b', rc_pool := pool'\<rparr>)"

definition new_recv :: "uint64 \<Rightarrow> interval list \<Rightarrow> uint64 \<Rightarrow> recvBuf" where
  "new_recv cap iv seed = \<lparr>rb_r = ring_of_cap cap, rb_readOff = 0, rb_nxtOff = 0, rb_iv = iv, rb_n = 0, rb_ooo = 0, rb_root = 0, rb_free = 0, rb_used = 0,
     rb_seed = seed, rb_ctr = 0, rb_recent = []\<rparr>"

definition recv_init :: "receiver \<Rightarrow> bool" where
  "recv_init s \<longleftrightarrow> pool_ok (rc_pool s) \<and> rc_out s = [] \<and> (\<exists>iv seed. rc_buf s = new_recv (word_of_nat recvFloor) iv seed)"

definition recv_inv :: "receiver \<Rightarrow> bool" where
  "recv_inv s \<longleftrightarrow> (\<exists>xs. recv_ok (rc_stream s) (rc_buf s) (rc_pool s) xs \<and> arrived (rc_buf s) xs \<subseteq> {..<2 ^ 62})
     \<and> rc_out s = map (rc_stream s) [0..<rd (rc_buf s)]"

lemma arrived_bound: "arrived b xs \<subseteq> {..<m} \<Longrightarrow> nx b \<le> m"
proof (rule ccontr)
  assume a: "arrived b xs \<subseteq> {..<m}" "\<not> nx b \<le> m"
  then have "m \<in> arrived b xs" by (simp add: arrived_def)
  then show False using a(1) by auto
qed

lemma recv_init_inv:
  assumes "recv_init s"
  shows "recv_inv s"
proof -
  obtain iv seed where b: "rc_buf s = new_recv (2 ^ 18) iv seed" using assms by (auto simp: recv_init_def recvFloor_def)
  have a: "arena (rc_buf s) [(rb_root (rc_buf s), [])]" unfolding arena_def b
    by (intro exI [of _ "[Leaf]"] exI [of _ "[]"]) (simp add: holds_def nodes_of_def new_recv_def)
  have "\<not> (\<exists>c. replicate n None ! i = Some c)" if "i < n" for i n :: nat using that by simp
  then have "ring_ok (ring_of_cap (2 ^ 18)) \<and> tight (ring_of_cap (2 ^ 18)) 0 0"
    unfolding ring_ok_def tight_def ring_of_cap_def by (auto intro: exI [of _ 18])
  then have "recv_ok (rc_stream s) (rc_buf s) (rc_pool s) []" using a assms
    by (simp add: recv_ok_def table_ok_def ring_holds_def window_def b new_recv_def right_end_def marks_ok_def content_def recv_init_def)
  moreover have "rd (rc_buf s) = 0" "arrived (rc_buf s) [] \<subseteq> {..<2 ^ 62}" by (simp_all add: b new_recv_def arrived_def)
  ultimately show ?thesis using assms by (auto simp: recv_inv_def recv_init_def)
qed

lemma receive_at_ok:
  assumes "recv_inv s" and "carries s o' payload"
  shows "\<exists>b' pool' res xs xs'. receive_at s o' payload adv = Some (b', pool', res) \<and> recv_ok (rc_stream s) (rc_buf s) (rc_pool s) xs \<and> recv_ok (rc_stream s) b' pool' xs'
    \<and> took (rc_buf s) xs o' (min (o' + length payload) (min (unat adv) (rd (rc_buf s) + rcap (rb_r (rc_buf s))))) b' xs' res \<and> arrived b' xs' \<subseteq> {..<2 ^ 62}"
proof -
  obtain xs where xs: "recv_ok (rc_stream s) (rc_buf s) (rc_pool s) xs" "arrived (rc_buf s) xs \<subseteq> {..<2 ^ 62}" using assms(1) by (auto simp: recv_inv_def)
  have c: "agrees (rc_stream s) o' payload" "o' + length payload < 2 ^ 62" "\<bar>int o' - int (nx (rc_buf s))\<bar> < 2 ^ 31" using assms(2) by (simp_all add: carries_def)
  let ?e = "min (o' + length payload) (min (unat adv) (rd (rc_buf s) + rcap (rb_r (rc_buf s))))"
  obtain b' pool' res xs' where r: "receive_at s o' payload adv = Some (b', pool', res)" "recv_ok (rc_stream s) b' pool' xs'" "took (rc_buf s) xs o' ?e b' xs' res"
    using receive_ok [OF xs(1) c(2) arrived_bound [OF xs(2)] c(3,1)] by blast
  have "arrived b' xs' \<subseteq> arrived (rc_buf s) xs \<union> {o'..<?e}" using r(3) unfolding took_def by (cases "ir_dropped res") auto
  also have "\<dots> \<subseteq> {..<2 ^ 62}" using xs(2) c(2) by (auto simp: less_le_trans)
  finally show ?thesis using r xs(1) by blast
qed

lemma recv_step_inv:
  assumes "recv_inv s" and "recv_step s s'"
  shows "recv_inv s'"
proof -
  obtain xs where xs: "recv_ok (rc_stream s) (rc_buf s) (rc_pool s) xs" "arrived (rc_buf s) xs \<subseteq> {..<2 ^ 62}" and out: "rc_out s = map (rc_stream s) [0..<rd (rc_buf s)]"
    using assms(1) by (auto simp: recv_inv_def)
  have rh: "rd (rc_buf s) \<le> nx (rc_buf s)" "table_ok (rc_buf s) xs" "window (rb_r (rc_buf s)) (rd (rc_buf s)) (right_end (nx (rc_buf s)) xs) (content (rc_stream s) ({rd (rc_buf s)..<nx (rc_buf s)} \<union> covered xs))"
    "pool_ok (rc_pool s)" "right_end (nx (rc_buf s)) xs < 2 ^ 64" "tight (rb_r (rc_buf s)) (rd (rc_buf s)) (right_end (nx (rc_buf s)) xs)"
    using xs(1) by (simp_all add: recv_ok_def ring_holds_def)
  have keep: "recv_inv (s\<lparr>rc_buf := b', rc_pool := pool'\<rparr>)"
    if "recv_ok (rc_stream s) b' pool' xs'" "arrived b' xs' \<subseteq> {..<2 ^ 62}" "rb_readOff b' = rb_readOff (rc_buf s)" for b' pool' xs'
    using that out by (auto simp: recv_inv_def)
  show ?thesis using assms(2)
  proof cases
    case (Segment o' payload adv b' pool' res)
    then obtain xs0 xs' where "recv_ok (rc_stream s) b' pool' xs'" "took (rc_buf s) xs0 o' (min (o' + length payload) (min (unat adv) (rd (rc_buf s) + rcap (rb_r (rc_buf s))))) b' xs' res"
      "arrived b' xs' \<subseteq> {..<2 ^ 62}" using receive_at_ok [OF assms(1) Segment(2), of adv] by auto
    then show ?thesis unfolding Segment(1) by (intro keep [of b' pool' xs']) (simp_all add: took_def)
  next
    case (Read len b' pool' bytes)
    let ?n = "min len (nx (rc_buf s) - rd (rc_buf s))"
    have r: "bytes = map (rc_stream s) [rd (rc_buf s)..<rd (rc_buf s) + ?n]" "recv_ok (rc_stream s) b' pool' xs" "rd b' = rd (rc_buf s) + ?n" "rb_nxtOff b' = rb_nxtOff (rc_buf s)"
      using recv_read_ok [OF xs(1), of len] Read(2) by auto
    have "arrived b' xs \<subseteq> {..<2 ^ 62}" using xs(2) r(4) by (simp add: arrived_def)
    moreover have "rc_out s @ bytes = map (rc_stream s) [0..<rd b']" unfolding out r(1,3) map_append [symmetric] upt_add_eq_append [OF le0] ..
    ultimately show ?thesis unfolding Read(1) recv_inv_def using r(2) by auto
  next
    case (Promote iv b' pool')
    have bs: "word_of_nat boostSize = (2 ^ 22 :: uint64)" by (simp add: boostSize_def)
    have "right_end (nx (rc_buf s)) xs \<le> rd (rc_buf s) + 2 ^ 22" using rh(3) rcap_bound by (fastforce simp: window_def)
    moreover have "length xs \<le> length iv" using Promote(2) rh(2) by (simp add: table_ok_def)
    ultimately have "recv_ok (rc_stream s) b' pool' xs" "rb_readOff b' = rb_readOff (rc_buf s)" "rb_nxtOff b' = rb_nxtOff (rc_buf s)"
      using setRecvStage_ok [OF rh(2) recv_fits [OF xs(1)] rh(1,3,4,5), of 22 iv] Promote(3) rh(6) unfolding bs by auto
    then show ?thesis unfolding Promote(1) using xs(2) by (intro keep [of b' pool' xs]) (simp_all add: arrived_def)
  next
    case (Demote iv b' pool' cnt)
    have "unat (unread (rc_buf s)) \<le> recvFloor" using Demote(2) by (simp add: word_le_nat_alt recvFloor_def)
    then have "nx (rc_buf s) - rd (rc_buf s) \<le> recvFloor" using rh(1) by (simp add: unread_def unat_sub word_le_nat_alt)
    from demote_recv_ok [OF xs(1) this Demote(3,4) arrived_bound [OF xs(2)]] Demote(5)
    obtain xs' where "recv_ok (rc_stream s) b' pool' xs'" "rb_readOff b' = rb_readOff (rc_buf s)"
      "arrived b' xs' = arrived (rc_buf s) xs \<inter> {..<renege_at (rd (rc_buf s) + recvFloor) floorIntervals xs}" by auto
    then show ?thesis unfolding Demote(1) using xs(2) by (intro keep [of b' pool' xs']) auto
  next
    case (Drop b' pool')
    have "recv_ok (rc_stream s) b' pool' []" "rb_readOff b' = rb_readOff (rc_buf s)" "rb_nxtOff b' = rb_nxtOff (rc_buf s)"
      using drop_early_ok [OF xs(1)] Drop(2) by auto
    then show ?thesis unfolding Drop(1) using xs(2) by (intro keep [of b' pool' "[]"]) (simp_all add: arrived_def)
  qed
qed

interpretation receiver: safe_system recv_init recv_step recv_inv
  by unfold_locales (auto intro: recv_init_inv recv_step_inv)

end
