(* ===== verification/Recv_Ack.thy ===== *)
theory Recv_Ack
  imports Recv_System Packet_Laws
begin

section \<open>Acknowledgement of early segments\<close>

text \<open>
  The part of an early segment that had arrived before, and the blocks of the acknowledgement that is sent after it.
\<close>

subsection \<open>The duplicate part of an early segment\<close>

definition dup_within :: "uint64 \<Rightarrow> uint64 \<Rightarrow> insertResult \<Rightarrow> bool" where
  "dup_within off e res \<longleftrightarrow> ir_dupHi res \<le> ir_dupLo res \<or> off \<le> ir_dupLo res \<and> ir_dupHi res \<le> e"

lemma dup_within_update [simp]:
  "dup_within off e (res\<lparr>ir_accepted := n, ir_ooo := True\<rparr>) = dup_within off e res" "dup_within off e (res\<lparr>ir_dropped := True\<rparr>) = dup_within off e res"
  "dup_within off e (noResult\<lparr>ir_trimmed := t\<rparr>)" "dup_within off e noResult"
  by (simp_all add: dup_within_def noResult_def)

lemma settle_dup: "settle b pool off data res l k r ns ne = Some (b', pool', res') \<Longrightarrow> dup_within off e res \<Longrightarrow> dup_within off e res'"
  by (auto simp: settle_def Let_def bind_eq_Some_conv)

lemma insert_new_dup: "insert_new b pool off data e res l r = Some (b', pool', res') \<Longrightarrow> dup_within off e res \<Longrightarrow> dup_within off e res'"
  by (auto simp: insert_new_def bind_eq_Some_conv split: if_splits dest: settle_dup)

lemma insert_join_dup:
  assumes "insert_join b pool off data e res l m r = Some (b', pool', res')" and "dup_within off e res"
  shows "dup_within off e res'"
proof -
  obtain f g fs fe ge where f: "firstNode (rb_iv b) m = Some f" "lastNode (rb_iv b) m = Some g" "kStart b f = Some fs" "kEnd b f = Some fe" "kEnd b g = Some ge"
    using assms(1) by (auto simp: insert_join_def bind_eq_Some_conv)
  define res1 where "res1 = (if max off fs < min e fe \<and> ir_dupHi res \<le> ir_dupLo res then res\<lparr>ir_dupLo := max off fs, ir_dupHi := min e fe\<rparr> else res)"
  have d: "dup_within off e res1" using assms(2) by (simp add: dup_within_def res1_def)
  show ?thesis
  proof (cases "f = g \<and> fs \<le> off \<and> e \<le> fe")
    case True
    then show ?thesis using assms(1) f by (auto simp: insert_join_def bind_eq_Some_conv dup_within_def)
  next
    case False
    have "Option.bind (release_tree b m) (\<lambda>b. Option.bind (alloc b (min off fs) (max e ge)) (\<lambda>(b, k). settle b pool off data res1 l k r (min off fs) (max e ge)))
        = Some (b', pool', res')"
      using assms(1) unfolding insert_join_def Let_def res1_def by (simp only: f bind.bind_lunit if_not_P [OF False])
    then obtain b1 k where "settle b1 pool off data res1 l k r (min off fs) (max e ge) = Some (b', pool', res')" by (auto simp: bind_eq_Some_conv)
    then show ?thesis using d by (rule settle_dup)
  qed
qed

lemma insert_early_dup: "insert_early b pool off data e res = Some (b', pool', res') \<Longrightarrow> dup_within off e res \<Longrightarrow> dup_within off e res'"
  by (auto simp: insert_early_def bind_eq_Some_conv split: if_splits dest: insert_new_dup insert_join_dup)

lemma insert_within_dup:
  assumes "insert_within b pool off data e res = Some (b', pool', res')" and "rb_nxtOff b < off" and "dup_within off e res"
  shows "dup_within off e res'"
  using assms insert_early_dup by (auto simp: insert_within_def insert_fresh_def split: if_splits)

lemma recv_insert_dup:
  assumes "recv_insert b pool off data limit = Some (b', pool', res)" and "rb_nxtOff b < off"
  shows "dup_within off (min (off + word_of_nat (length data)) limit) res"
  using assms(1) insert_within_dup [OF _ assms(2)]
  by (auto simp: recv_insert_def Let_def not_less min_absorb1 min_absorb2 split: if_splits)

lemma receive_at_dup:
  assumes inv: "recv_inv s" and c: "carries s o' payload" and r: "receive_at s o' payload adv = Some (b', pool', res)" and early: "nx (rc_buf s) < o'"
    and dup: "ir_dupLo res < ir_dupHi res"
  shows "o' \<le> unat (ir_dupLo res)" and "unat (ir_dupHi res) \<le> min (o' + length payload) (min (unat adv) (rd (rc_buf s) + rcap (rb_r (rc_buf s))))"
proof -
  let ?b = "rc_buf s" and ?m = "min (unat adv) (rd (rc_buf s) + rcap (rb_r (rc_buf s)))"
  obtain xs where xs: "recv_ok (rc_stream s) ?b (rc_pool s) xs" "arrived ?b xs \<subseteq> {..<2 ^ 62}" using inv by (auto simp: recv_inv_def)
  have rh: "ring_ok (rb_r ?b)" "rd ?b \<le> nx ?b" using xs(1) by (simp_all add: recv_ok_def ring_holds_def window_def)
  have o: "o' + length payload < 2 ^ 62" "o' < 2 ^ 62" "\<bar>int o' - int (nx ?b)\<bar> < 2 ^ 31" using c by (simp_all add: carries_def)
  note i = receive_insert [OF rh o(2) arrived_bound [OF xs(2)] o(3)]
  have "rb_nxtOff ?b < word_of_nat o'" using early o(2) by (simp add: word_less_nat_alt unat_offset)
  then have d: "dup_within (word_of_nat o') (min (word_of_nat o' + word_of_nat (length payload)) (word_of_nat ?m)) res"
    using recv_insert_dup r unfolding i(1) by blast
  have "o' + length payload < 2 ^ 64" using o(1) by simp
  then have "min (word_of_nat o' + word_of_nat (length payload)) (word_of_nat ?m) = (word_of_nat (min (o' + length payload) ?m) :: uint64)"
    using min_offset [OF _ i(2), of "o' + length payload" adv] by simp
  then have w: "word_of_nat o' \<le> ir_dupLo res \<and> ir_dupHi res \<le> word_of_nat (min (o' + length payload) ?m)" using d dup [unfolded not_le [symmetric]] by (auto simp: dup_within_def)
  have "min (o' + length payload) ?m < 2 ^ 64" using i(2) [of adv] by simp
  then show "o' \<le> unat (ir_dupLo res)" "unat (ir_dupHi res) \<le> min (o' + length payload) ?m"
    using w o(2) by (simp_all only: word_le_nat_alt unat_offset) (simp add: unat_offset)
qed

subsection \<open>The block of the duplicate\<close>

lemma note_segment_block:
  assumes "ir_dupLo res < ir_dupHi res" and "unat (ir_dupHi res) - unat (ir_dupLo res) < 2 ^ 32"
  shows "note_segment True None irs res = Some (block (irs + 1) (unat (ir_dupLo res), unat (ir_dupHi res)))"
proof -
  let ?lo = "unat (ir_dupLo res)" and ?hi = "unat (ir_dupHi res)"
  have lt: "?lo < ?hi" using assms(1) by (simp add: word_less_nat_alt)
  have u: "(ucast x :: uint32) = word_of_nat (unat x)" for x :: uint64 by (simp add: unsigned_ucast_eq)
  have "unat (ir_dupHi res - ir_dupLo res) = ?hi - ?lo" using assms(1) by (simp add: unat_sub)
  then have n: "(ucast (ir_dupHi res - ir_dupLo res) :: uint32) = word_of_nat (?hi - ?lo)" unfolding u by simp
  have "unat (word_of_nat (?hi - ?lo) :: uint32) = ?hi - ?lo" using assms(2) by (simp add: unat_of_nat take_bit_nat_eq_self)
  then have "unat (word_of_nat (?hi - ?lo) :: uint32) \<noteq> 0" using lt by linarith
  then have ne: "(word_of_nat (?hi - ?lo) :: uint32) \<noteq> 0" by (metis unat_0)
  have "(word_of_nat ?lo :: uint32) + word_of_nat (?hi - ?lo) = word_of_nat (?lo + (?hi - ?lo))" by (rule of_nat_add [symmetric])
  also have "?lo + (?hi - ?lo) = ?hi" using lt by linarith
  finally have s: "irs + 1 + word_of_nat ?lo + word_of_nat (?hi - ?lo) = irs + 1 + (word_of_nat ?hi :: uint32)" by (simp only: add.assoc)
  have "note_segment True None irs res = noteDuplicate True None (irs + 1 + word_of_nat ?lo) (word_of_nat (?hi - ?lo))"
    unfolding note_segment_def n u [of "ir_dupLo res"] by (simp only: assms(1) if_True)
  also have "\<dots> = Some \<lparr>sb_left = irs + 1 + word_of_nat ?lo, sb_right = irs + 1 + word_of_nat ?hi\<rparr>"
    unfolding noteDuplicate_def s Let_def option.case by (simp only: ne if_False simp_thms)
  finally show ?thesis by (simp only: block_def fst_conv snd_conv)
qed

subsection \<open>The first block\<close>

text \<open>After an early segment was stored, the first interval that is reported covers it.\<close>

lemma sack_first:
  assumes inv: "recv_inv s" and c: "carries s o' payload" and r: "receive_at s o' payload adv = Some (b', pool', res)" and ooo: "ir_ooo res" and "0 < c"
  shows "\<exists>x rest. sackBlocks b' c (rc_irs s + 1) = Some (block (rc_irs s + 1) x # rest) \<and> 0 < rb_n b'
    \<and> {o'..<min (o' + length payload) (min (unat adv) (rd (rc_buf s) + rcap (rb_r (rc_buf s))))} \<subseteq> {fst x..<snd x} \<and> {fst x..<snd x} \<subseteq> received b'"
proof -
  let ?e = "min (o' + length payload) (min (unat adv) (rd (rc_buf s) + rcap (rb_r (rc_buf s))))"
  obtain xs xs' where r: "recv_ok (rc_stream s) b' pool' xs'" "took (rc_buf s) xs o' ?e b' xs' res"
    using receive_at_ok [OF inv c, of adv] r by auto
  have f: "fits (rb_nxtOff b') xs'" by (rule recv_fits [OF r(1)])
  have e: "early (nx b') xs'" "rb_n b' = int (length xs')" using r(1) by (simp_all add: recv_ok_def table_ok_def)
  obtain x where x: "rb_recent b' \<noteq> []" "x \<in> set xs'" "hd (rb_recent b') = word_of_nat (fst x)" "{o'..<?e} \<subseteq> {fst x..<snd x}"
    using r(2) ooo by (auto simp: took_def leads_def)
  obtain ys where ys: "sackBlocks b' c (rc_irs s + 1) = Some (map (block (rc_irs s + 1)) ys)" "set ys \<subseteq> set xs'"
    "map (\<lambda>y. word_of_nat (fst y)) (take (length (rb_recent b')) ys) = take c (rb_recent b')"
    using sackBlocks_ok [OF r(1), of c "rc_irs s + 1"] by blast
  obtain y zs where y: "ys = y # zs" using ys(3) x(1) assms(5) by (cases ys) auto
  have "word_of_nat (fst y) = hd (rb_recent b')" using arg_cong [OF ys(3), of hd] x(1) assms(5) by (cases "rb_recent b'"; cases c) (simp_all add: y)
  then have "fst y = fst x" using low_bits_inject [OF f, of y x] ys(2) x(2,3) by (simp add: y)
  then have "y = x" using early_starts [OF e(1)] ys(2) x(2) by (metis eq_key_imp_eq_value list.set_intros(1) prod.collapse subset_iff y)
  then have s: "sackBlocks b' c (rc_irs s + 1) = Some (block (rc_irs s + 1) x # map (block (rc_irs s + 1)) zs)" using ys(1) y by simp
  have "0 < rb_n b'" using e(2) x(2) by (cases xs') simp_all
  then show ?thesis using s x(4) received_gap(2) [OF r(1) x(2)] by blast
qed

text \<open>The options of a segment are read as the blocks that were chosen, as many as fit beside the timestamp.\<close>

lemma tcb_options_read:
  assumes "0 < rb_n b \<or> dsack \<noteq> None" and "ack_blocks b dsack irs = Some bs"
  shows "\<exists>w. tcb_options tsOK tsVal tsRecent True True b dsack irs = Some w \<and> to_sack (parseOptions (ow_bytes w) False) = take (if tsOK then 3 else 4) bs"
proof -
  obtain w where "segmentOptions tsOK tsVal tsRecent True bs = Some w" "parseOptions (ow_bytes w) False = noOptions\<lparr>to_hasTS := tsOK,
      to_tsVal := (if tsOK then tsVal else 0), to_tsEcr := (if tsOK then tsRecent else 0), to_sack := (if True then take (if tsOK then 3 else 4) bs else [])\<rparr>"
    using segment_read [of tsOK tsVal tsRecent True bs] by blast
  then show ?thesis using assms by (auto simp: tcb_options_def)
qed

end
