(* ===== verification/Recv_Properties.thy ===== *)
theory Recv_Properties
  imports Recv_Ack
begin

section \<open>Properties of the receiver\<close>

text \<open>
  What a connection can rely on: the reader gets the stream, every segment counts exactly, the acknowledgements report
  what is there, and a smaller buffer loses no data in order.
\<close>

subsection \<open>Helper lemmas\<close>

lemma untouched:
  assumes "n < o'" and "\<forall>x \<in> set xs. snd x < o' \<or> e < fst x"
  shows "{o' - 1..e} \<inter> ({0..<n} \<union> covered xs) = {}"
proof -
  have "y \<notin> covered xs" if "o' - 1 \<le> y" "y \<le> e" for y
  proof
    assume "y \<in> covered xs"
    then obtain x where x: "x \<in> set xs" "fst x \<le> y" "y < snd x" by (auto simp: covered_def)
    then have "snd x < o' \<or> e < fst x" using assms(2) by blast
    then show False using x(2,3) that by linarith
  qed
  then show ?thesis using assms(1) by fastforce
qed

lemma receive_effect:
  assumes "receiver.reachable s" and "carries s o' payload"
  shows "\<exists>b' pool' res. receive_at s o' payload adv = Some (b', pool', res) \<and> receiver.reachable (s\<lparr>rc_buf := b', rc_pool := pool'\<rparr>)
    \<and> (let e = min (o' + length payload) (min (unat adv) (rd (rc_buf s) + rcap (rb_r (rc_buf s))))
       in if ir_dropped res then received b' = received (rc_buf s) \<and> rb_n (rc_buf s) = int (length (rb_iv (rc_buf s))) \<and> {o' - 1..e} \<inter> received (rc_buf s) = {}
          else received b' = received (rc_buf s) \<union> {o'..<e})
    \<and> {unat (ir_dupLo res)..<unat (ir_dupHi res)} \<subseteq> received (rc_buf s) \<and> nx b' = (LEAST x. x \<notin> received b') \<and> rd b' = rd (rc_buf s)
    \<and> length (rb_iv b') = length (rb_iv (rc_buf s)) \<and> rg_cap (rb_r b') = rg_cap (rb_r (rc_buf s))
    \<and> (let e = min (o' + length payload) (min (unat adv) (rd (rc_buf s) + rcap (rb_r (rc_buf s))))
       in nx (rc_buf s) < o' \<longrightarrow> o' < e \<longrightarrow> \<not> {o'..<e} \<subseteq> received (rc_buf s) \<longrightarrow> ir_dropped res \<or> ir_ooo res)"
proof -
  let ?b = "rc_buf s"
  let ?e = "min (o' + length payload) (min (unat adv) (rd ?b + rcap (rb_r ?b)))"
  obtain b' pool' res xs xs' where r: "receive_at s o' payload adv = Some (b', pool', res)" "recv_ok (rc_stream s) ?b (rc_pool s) xs" "recv_ok (rc_stream s) b' pool' xs'"
    "took ?b xs o' ?e b' xs' res" using receive_at_ok [OF receiver.reachable_inv [OF assms(1)] assms(2)] by blast
  have re: "receiver.reachable (s\<lparr>rc_buf := b', rc_pool := pool'\<rparr>)" by (rule receiver.reachable.advance [OF assms(1) recv_step.Segment [OF assms(2) r(1)]])
  have n: "rb_n ?b = int (length xs)" using r(2) by (simp add: recv_ok_def table_ok_def)
  note rb = recv_intervals(2) [OF r(2)] and rb' = recv_intervals(2) [OF r(3)]
  have "{o' - 1..?e} \<inter> received ?b = {}" if "ir_dropped res" unfolding rb arrived_def
    by (rule untouched) (use r(4) that in \<open>simp_all add: took_def\<close>)
  then have "if ir_dropped res then received b' = received ?b \<and> rb_n ?b = int (length (rb_iv ?b)) \<and> {o' - 1..?e} \<inter> received ?b = {} else received b' = received ?b \<union> {o'..<?e}"
    using r(4) n unfolding took_def rb rb' by (cases "ir_dropped res") simp_all
  moreover have "{unat (ir_dupLo res)..<unat (ir_dupHi res)} \<subseteq> received ?b" "rd b' = rd ?b" "length (rb_iv b') = length (rb_iv ?b)" "rg_cap (rb_r b') = rg_cap (rb_r ?b)"
    "nx ?b < o' \<longrightarrow> o' < ?e \<longrightarrow> \<not> {o'..<?e} \<subseteq> received ?b \<longrightarrow> ir_dropped res \<or> ir_ooo res"
    using r(4) by (simp_all add: took_def rb)
  ultimately show ?thesis unfolding Let_def using r(1) re received_gap(1) [OF r(3)] by blast
qed

lemma promote_effect:
  assumes "receiver.reachable s" and "rb_n (rc_buf s) \<le> int (length iv)"
  shows "\<exists>b' pool'. receiver.reachable (s\<lparr>rc_buf := b', rc_pool := pool'\<rparr>) \<and> setRecvStage (rc_buf s) (rc_pool s) (word_of_nat boostSize) iv = Some (b', pool')
    \<and> rg_cap (rb_r b') = word_of_nat boostSize \<and> rb_readOff b' = rb_readOff (rc_buf s) \<and> rb_nxtOff b' = rb_nxtOff (rc_buf s)"
proof -
  obtain xs where xs: "recv_ok (rc_stream s) (rc_buf s) (rc_pool s) xs" using receiver.reachable_inv [OF assms(1)] by (auto simp: recv_inv_def)
  have rh: "table_ok (rc_buf s) xs" "rd (rc_buf s) \<le> nx (rc_buf s)" "window (rb_r (rc_buf s)) (rd (rc_buf s)) (right_end (nx (rc_buf s)) xs) (content (rc_stream s) ({rd (rc_buf s)..<nx (rc_buf s)} \<union> covered xs))"
    "pool_ok (rc_pool s)" "right_end (nx (rc_buf s)) xs < 2 ^ 64" "tight (rb_r (rc_buf s)) (rd (rc_buf s)) (right_end (nx (rc_buf s)) xs)"
    using xs by (simp_all add: recv_ok_def ring_holds_def)
  have bs: "word_of_nat boostSize = (2 ^ 22 :: uint64)" by (simp add: boostSize_def)
  have "right_end (nx (rc_buf s)) xs \<le> rd (rc_buf s) + 2 ^ 22" using rh(3) rcap_bound by (fastforce simp: window_def)
  moreover have "length xs \<le> length iv" using assms(2) rh(1) by (simp add: table_ok_def)
  ultimately obtain b' pool' where s: "setRecvStage (rc_buf s) (rc_pool s) (word_of_nat boostSize) iv = Some (b', pool')" "rb_readOff b' = rb_readOff (rc_buf s)" "rb_nxtOff b' = rb_nxtOff (rc_buf s)"
    "rg_cap (rb_r b') = word_of_nat boostSize" using setRecvStage_ok [OF rh(1) recv_fits [OF xs] rh(2-5), of 22 iv] rh(6) unfolding bs by auto
  then show ?thesis using receiver.reachable.advance [OF assms(1) recv_step.Promote [OF assms(2) s(1)]] by blast
qed

lemma arena_room:
  assumes "arena b [(t, xs)]"
  shows "length xs \<le> length (rb_iv b)"
proof -
  obtain T fs where T: "holds (rb_iv b) T (t, xs)" "distinct (inorder T @ fs)" "set (inorder T @ fs) = {1..rb_used b}" "rb_used b \<le> length (rb_iv b)"
    using assms by (auto simp: arena_def nodes_of_def list_all2_Cons2)
  have "length (inorder T @ fs) = card {1..rb_used b}" using distinct_card [OF T(2)] T(3) by simp
  then show ?thesis using holds_length [OF T(1)] T(4) by simp
qed

lemma table_words:
  assumes "early (unat nxt) xs" and "fits nxt xs"
  shows "sorted_wrt (\<lambda>x y. snd x < fst y) (map offsets xs)" and "\<forall>x \<in> set (map offsets xs). nxt < fst x \<and> fst x < snd x"
proof -
  have b: "fst x < 2 ^ 64 \<and> snd x < 2 ^ 64" if "x \<in> set xs" for x using fitsD(5,6) [OF assms(2), of "fst x" "snd x"] that by simp
  have "sorted_wrt (\<lambda>x y. snd (offsets x) < fst (offsets y)) xs"
    by (rule sorted_wrt_mono_rel [of xs "\<lambda>x y. snd x < fst y"]) (use b assms(1) in \<open>simp_all add: offsets_def offset_less early_def gapped_def\<close>)
  then show "sorted_wrt (\<lambda>x y. snd x < fst y) (map offsets xs)" by (simp add: sorted_wrt_map)
  show "\<forall>x \<in> set (map offsets xs). nxt < fst x \<and> fst x < snd x"
    using b early_bounds(3,4) [OF assms(1)] by (simp add: offsets_def word_less_nat_alt unat_offset)
qed

definition sample_receiver :: receiver where
  "sample_receiver = \<lparr>rc_buf = new_recv (word_of_nat recvFloor) (replicate floorIntervals \<lparr>it_start = 0, it_end = 0, it_l = 0, it_r = 0, it_pri = 0\<rparr>) 7,
     rc_pool = \<lparr>cp_free = [], cp_held = 0, cp_closed = False\<rparr>, rc_out = [], rc_stream = word_of_nat, rc_irs = 4294967293\<rparr>"

lemma sample_reachable: "receiver.reachable sample_receiver"
  by (rule receiver.reachable.start) (auto simp: recv_init_def sample_receiver_def pool_ok_def)

lemma sample_buf:
  "nx (rc_buf sample_receiver) = 0" "rd (rc_buf sample_receiver) = 0" "rb_n (rc_buf sample_receiver) = 0" "length (rb_iv (rc_buf sample_receiver)) = floorIntervals"
  "rcap (rb_r (rc_buf sample_receiver)) = 262144" "received (rc_buf sample_receiver) = {}" "rc_irs sample_receiver = 4294967293"
proof -
  show "received (rc_buf sample_receiver) = {}"
    by (simp add: received_def intervals_def sample_receiver_def new_recv_def walk.simps)
qed (simp_all add: sample_receiver_def new_recv_def rcap_def ring_of_cap_def recvFloor_def)

lemma sample_carries: "carries sample_receiver 0 [0, 1, 2]" "carries sample_receiver 5 [5, 6]"
proof -
  have "agrees word_of_nat 0 [0, 1, 2]" "agrees word_of_nat 5 [5, 6]" by (auto simp: agrees_def less_Suc_eq)
  then show "carries sample_receiver 0 [0, 1, 2]" "carries sample_receiver 5 [5, 6]" unfolding carries_def sample_buf by (simp_all add: sample_receiver_def)
qed

text \<open>The sample receiver after a segment in order and after one that came early.\<close>

lemma sample_after:
  "\<exists>b' pool' res. receive_at sample_receiver 0 [0, 1, 2] 1000 = Some (b', pool', res) \<and> receiver.reachable (sample_receiver\<lparr>rc_buf := b', rc_pool := pool'\<rparr>)
    \<and> nx b' = 3 \<and> rd b' = 0"
  "\<exists>b' pool' res. receive_at sample_receiver 5 [5, 6] 1000 = Some (b', pool', res) \<and> receiver.reachable (sample_receiver\<lparr>rc_buf := b', rc_pool := pool'\<rparr>)
    \<and> received b' = {5, 6} \<and> nx b' = 0 \<and> rd b' = 0 \<and> ir_ooo res"
proof -
  have n: "floorIntervals \<noteq> 0" by (simp add: floorIntervals_def recvFloor_def minMSS_def)
  have r3: "{5..<7} = {5, 6 :: nat}" by auto
  have l3: "(LEAST x :: nat. x \<notin> {0..<3}) = 3" by (rule Least_equality) simp_all
  have l0: "(LEAST x :: nat. x \<notin> {5, 6}) = 0" by (rule Least_equality) simp_all
  obtain b pool res where b: "receive_at sample_receiver 0 [0, 1, 2] 1000 = Some (b, pool, res)" "receiver.reachable (sample_receiver\<lparr>rc_buf := b, rc_pool := pool\<rparr>)"
    "received b = {0..<3}" "nx b = (LEAST x. x \<notin> received b)" "rd b = 0"
    using receive_effect [OF sample_reachable sample_carries(1), of 1000] n unfolding Let_def sample_buf by (auto simp: numeral_3_eq_3 split: if_splits)
  then show "\<exists>b' pool' res. receive_at sample_receiver 0 [0, 1, 2] 1000 = Some (b', pool', res) \<and> receiver.reachable (sample_receiver\<lparr>rc_buf := b', rc_pool := pool'\<rparr>)
    \<and> nx b' = 3 \<and> rd b' = 0" using l3 by metis
  show "\<exists>b' pool' res. receive_at sample_receiver 5 [5, 6] 1000 = Some (b', pool', res) \<and> receiver.reachable (sample_receiver\<lparr>rc_buf := b', rc_pool := pool'\<rparr>)
    \<and> received b' = {5, 6} \<and> nx b' = 0 \<and> rd b' = 0 \<and> ir_ooo res"
    using receive_effect [OF sample_reachable sample_carries(2), of 1000] n l0 unfolding Let_def sample_buf by (auto simp: r3 split: if_splits)
qed

text \<open>A segment that was stored early starts after the next byte expected, and its part that fits is shorter than the buffer.\<close>

lemma early_segment:
  assumes "receiver.reachable s" and "carries s o' payload" and "receive_at s o' payload adv = Some (b', pool', res)" and "ir_ooo res"
  shows "nx (rc_buf s) < o'"
  using receive_at_ok [OF receiver.reachable_inv [OF assms(1)] assms(2), of adv] assms(3,4) by (auto simp: took_def)

lemma early_length:
  assumes "receiver.reachable s" and "carries s o' payload" and "receive_at s o' payload adv = Some (b', pool', res)" and "ir_ooo res"
  shows "min (o' + length payload) (min (unat adv) (rd (rc_buf s) + rcap (rb_r (rc_buf s)))) < o' + 2 ^ 32"
proof -
  obtain xs where "recv_ok (rc_stream s) (rc_buf s) (rc_pool s) xs" using receiver.reachable_inv [OF assms(1)] by (auto simp: recv_inv_def)
  then have "rd (rc_buf s) \<le> nx (rc_buf s)" "rcap (rb_r (rc_buf s)) \<le> 2 ^ 22" using rcap_bound by (simp_all add: recv_ok_def ring_holds_def window_def)
  then show ?thesis using early_segment [OF assms] by simp
qed

subsection \<open>The stream\<close>

text \<open>C2. The reader gets the stream. In every state that segments with parts of one stream, in any order, cut, overlapping and repeated in any way,
  reads, and changes of the buffer lead to, the bytes read so far are the stream from its start, and the next read returns, with the bytes that
  follow, as many as are there in order.\<close>

theorem receiver_delivers_stream:
  assumes "receiver.reachable s"
  shows "rc_out s = map (rc_stream s) [0..<length (rc_out s)]
    \<and> (\<exists>b' pool'. recv_read (rc_buf s) (rc_pool s) len
         = Some (b', pool', map (rc_stream s) [length (rc_out s)..<length (rc_out s) + min len (unat (unread (rc_buf s)))]))"
proof -
  obtain xs where xs: "recv_ok (rc_stream s) (rc_buf s) (rc_pool s) xs" and out: "rc_out s = map (rc_stream s) [0..<rd (rc_buf s)]"
    using receiver.reachable_inv [OF assms] by (auto simp: recv_inv_def)
  have "rd (rc_buf s) \<le> nx (rc_buf s)" using xs by (simp add: recv_ok_def ring_holds_def)
  then have u: "unat (unread (rc_buf s)) = nx (rc_buf s) - rd (rc_buf s)" by (simp add: unread_def unat_sub word_le_nat_alt)
  have len: "length (rc_out s) = rd (rc_buf s)" using out by simp
  show ?thesis unfolding len u using out recv_read_ok [OF xs, of len] by blast
qed

theorem receiver_delivers_stream_witness: "\<exists>s b' pool'. receiver.reachable s \<and> recv_read (rc_buf s) (rc_pool s) 10 = Some (b', pool', [0, 1, 2])"
proof -
  obtain b pool res where b: "receiver.reachable (sample_receiver\<lparr>rc_buf := b, rc_pool := pool\<rparr>)" "nx b = 3" "rd b = 0"
    using sample_after(1) by blast
  let ?s = "sample_receiver\<lparr>rc_buf := b, rc_pool := pool\<rparr>"
  have u: "unat (unread b) = 3" using b(2,3) by (simp add: unread_def unat_sub word_le_nat_alt)
  have f: "rc_out ?s = []" "rc_stream ?s = word_of_nat" "rc_buf ?s = b" "rc_pool ?s = pool" by (simp_all add: sample_receiver_def)
  have "map word_of_nat [0..<3] = [0, 1, 2 :: uint8]" by (simp add: upt_conv_Cons)
  then show ?thesis using receiver_delivers_stream [OF b(1), of 10] b(1) unfolding f u by (intro exI [of _ ?s]) (simp add: f)
qed

subsection \<open>Segments\<close>

text \<open>C8. Every segment counts exactly. For a segment with a part of the stream near the next byte, at any sequence number, the call returns; what has arrived afterwards is what
  had arrived and the bytes of the segment below the limit of the window and the buffer. Only when the table of early intervals is full and the segment touches nothing that has
  arrived is it dropped whole. The range reported as a duplicate had arrived before, and the next byte expected is the first that has not arrived.\<close>

theorem segment_counts:
  assumes "receiver.reachable s" and "carries s o' payload"
  shows "\<exists>b' pool' res. receive_at s o' payload adv = Some (b', pool', res) \<and> receiver.reachable (s\<lparr>rc_buf := b', rc_pool := pool'\<rparr>)
    \<and> (let e = min (o' + length payload) (min (unat adv) (rd (rc_buf s) + rcap (rb_r (rc_buf s))))
       in if ir_dropped res then received b' = received (rc_buf s) \<and> rb_n (rc_buf s) = int (length (rb_iv (rc_buf s))) \<and> {o' - 1..e} \<inter> received (rc_buf s) = {}
          else received b' = received (rc_buf s) \<union> {o'..<e})
    \<and> {unat (ir_dupLo res)..<unat (ir_dupHi res)} \<subseteq> received (rc_buf s) \<and> nx b' = (LEAST x. x \<notin> received b') \<and> rd b' = rd (rc_buf s)"
  using receive_effect [OF assms] by blast

theorem segment_counts_witness: "\<exists>b' pool' res. receive_at sample_receiver 5 [5, 6] 6 = Some (b', pool', res) \<and> received b' = {5}"
proof -
  have n: "floorIntervals \<noteq> 0" by (simp add: floorIntervals_def recvFloor_def minMSS_def)
  have "{5..<6} = {5 :: nat}" by auto
  then show ?thesis using segment_counts [OF sample_reachable sample_carries(2), of 6] n unfolding Let_def sample_buf by (auto split: if_splits)
qed

subsection \<open>The table\<close>

text \<open>C37. The table of early data is consistent. In every reachable state the intervals, read from the tree in order, are not empty, come after the next byte expected and leave a
  gap between any two; their number is the one counted and never more than the table has room for, and the count of early bytes is the number of bytes they hold.\<close>

theorem receiver_table_consistent:
  assumes "receiver.reachable s"
  shows "\<exists>ivs. intervals (rc_buf s) [] = Some ivs \<and> sorted_wrt (\<lambda>x y. snd x < fst y) ivs \<and> (\<forall>x \<in> set ivs. rb_nxtOff (rc_buf s) < fst x \<and> fst x < snd x)
    \<and> rb_n (rc_buf s) = int (length ivs) \<and> length ivs \<le> length (rb_iv (rc_buf s)) \<and> unat (rb_ooo (rc_buf s)) = card (received (rc_buf s) - {0..<nx (rc_buf s)})"
proof -
  let ?b = "rc_buf s"
  obtain xs where xs: "recv_ok (rc_stream s) ?b (rc_pool s) xs" "arrived ?b xs \<subseteq> {..<2 ^ 62}" using receiver.reachable_inv [OF assms] by (auto simp: recv_inv_def)
  have t: "arena ?b [(rb_root ?b, xs)]" "early (nx ?b) xs" "rb_n ?b = int (length xs)" "rb_ooo ?b = word_of_nat (span_total xs)" using xs(1) by (simp_all add: recv_ok_def table_ok_def)
  have c: "received ?b - {0..<nx ?b} = covered xs" using covered_bounds [OF t(2)] unfolding recv_intervals(2) [OF xs(1)] arrived_def by fastforce
  have "covered xs \<subseteq> {..<2 ^ 62}" using xs(2) by (simp add: arrived_def)
  then have "span_total xs \<le> 2 ^ 62" using card_mono [of "{..<2 ^ 62 :: nat}" "covered xs"] card_covered [OF t(2)] by simp
  then have "unat (rb_ooo ?b) = card (received ?b - {0..<nx ?b})" using card_covered [OF t(2)] unat_offset [of "span_total xs"] by (simp add: c t(4))
  then show ?thesis using recv_intervals(1) [OF xs(1)] table_words [OF t(2) recv_fits [OF xs(1)]] arena_room [OF t(1)] t(3) by simp
qed

theorem receiver_table_consistent_witness: "\<exists>s. receiver.reachable s \<and> nx (rc_buf s) = 0 \<and> received (rc_buf s) = {5, 6} \<and> unat (rb_ooo (rc_buf s)) = 2"
proof -
  obtain b pool res where b: "receiver.reachable (sample_receiver\<lparr>rc_buf := b, rc_pool := pool\<rparr>)" "received b = {5, 6}" "nx b = 0" using sample_after(2) by blast
  then show ?thesis using receiver_table_consistent [OF b(1)] by (intro exI [of _ "sample_receiver\<lparr>rc_buf := b, rc_pool := pool\<rparr>"]) auto
qed

subsection \<open>Acknowledgements\<close>

text \<open>C38. The blocks of a selective acknowledgement are exact. They are different, as many as there are early intervals or as fit, and each one is a range
  of sequence numbers that has arrived completely and cannot be made longer at either end.\<close>

theorem sack_blocks_exact:
  assumes "receiver.reachable s"
  shows "\<exists>ys. sackBlocks (rc_buf s) c (rc_irs s + 1) = Some (map (block (rc_irs s + 1)) ys) \<and> distinct ys \<and> length ys = min c (nat (rb_n (rc_buf s)))
    \<and> (\<forall>y \<in> set ys. fst y < snd y \<and> {fst y..<snd y} \<subseteq> received (rc_buf s) \<and> fst y - 1 \<notin> received (rc_buf s) \<and> snd y \<notin> received (rc_buf s))"
proof -
  obtain xs where xs: "recv_ok (rc_stream s) (rc_buf s) (rc_pool s) xs" using receiver.reachable_inv [OF assms] by (auto simp: recv_inv_def)
  have n: "rb_n (rc_buf s) = int (length xs)" "early (nx (rc_buf s)) xs" using xs by (simp_all add: recv_ok_def table_ok_def)
  obtain ys where ys: "sackBlocks (rc_buf s) c (rc_irs s + 1) = Some (map (block (rc_irs s + 1)) ys)" "distinct ys" "set ys \<subseteq> set xs" "length ys = min c (length xs)"
    using sackBlocks_ok [OF xs, of c "rc_irs s + 1"] by blast
  show ?thesis using ys n(1) received_gap(2) [OF xs] early_bounds(4) [OF n(2)] by (intro exI [of _ ys]) auto
qed

theorem sack_blocks_exact_witness: "\<exists>s l. receiver.reachable s \<and> received (rc_buf s) = {5, 6} \<and> sackBlocks (rc_buf s) 4 (rc_irs s + 1) = Some l \<and> length l \<le> 4"
proof -
  obtain b pool res where b: "receiver.reachable (sample_receiver\<lparr>rc_buf := b, rc_pool := pool\<rparr>)" "received b = {5, 6}" using sample_after(2) by blast
  let ?s = "sample_receiver\<lparr>rc_buf := b, rc_pool := pool\<rparr>"
  obtain ys where "sackBlocks (rc_buf ?s) 4 (rc_irs ?s + 1) = Some (map (block (rc_irs ?s + 1)) ys)" "length ys = min 4 (nat (rb_n (rc_buf ?s)))"
    using sack_blocks_exact [OF b(1), of 4] by blast
  then show ?thesis using b by (intro exI [of _ ?s] exI [of _ "map (block (rc_irs ?s + 1)) ys"]) simp
qed

text \<open>C39. An acknowledgement reports the last early segment first (RFC 2018), after a block for a duplicate (RFC 2883). When a segment was stored early and the next segment that
  is sent carries selective acknowledgements, its options are read by the peer as these blocks, cut to three beside a timestamp: the block of a pending duplicate, if there is one, and
  then, before all others, a range of bytes that have arrived and that covers all of the segment that was stored. If no duplicate was pending before, there is one now only for
  a part of this segment that had arrived already, and exactly when the insertion reported such a part.\<close>

theorem sack_reports_segment_first:
  fixes dsack :: "sackBlock option"
  assumes "receiver.reachable s" and "carries s o' payload" and "receive_at s o' payload adv = Some (b', pool', res)" and "ir_ooo res"
  defines "dsack' \<equiv> note_segment True dsack (rc_irs s) res" and "e \<equiv> min (o' + length payload) (min (unat adv) (rd (rc_buf s) + rcap (rb_r (rc_buf s))))"
  shows "(\<exists>x rest w. tcb_options tsOK tsVal tsRecent True True b' dsack' (rc_irs s) = Some w
      \<and> to_sack (parseOptions (ow_bytes w) False) = take (if tsOK then 3 else 4) ((case dsack' of None \<Rightarrow> [] | Some d \<Rightarrow> [d]) @ block (rc_irs s + 1) x # rest)
      \<and> {o'..<e} \<subseteq> {fst x..<snd x} \<and> {fst x..<snd x} \<subseteq> received b')
    \<and> (dsack = None \<longrightarrow> (case dsack' of
          None \<Rightarrow> \<not> ir_dupLo res < ir_dupHi res
        | Some d \<Rightarrow> \<exists>y. d = block (rc_irs s + 1) y \<and> fst y < snd y \<and> {fst y..<snd y} \<subseteq> received (rc_buf s) \<inter> {o'..<e}))"
proof
  note inv = receiver.reachable_inv [OF assms(1)]
  have room: "0 < 4 - length (case dsack' of None \<Rightarrow> [] | Some d \<Rightarrow> [d])" by (simp split: option.split)
  obtain x rest where x: "sackBlocks b' (4 - length (case dsack' of None \<Rightarrow> [] | Some d \<Rightarrow> [d])) (rc_irs s + 1) = Some (block (rc_irs s + 1) x # rest)" "0 < rb_n b'"
    "{o'..<e} \<subseteq> {fst x..<snd x}" "{fst x..<snd x} \<subseteq> received b'"
    unfolding e_def using sack_first [OF inv assms(2-4) room] by blast
  then have "ack_blocks b' dsack' (rc_irs s) = Some ((case dsack' of None \<Rightarrow> [] | Some d \<Rightarrow> [d]) @ block (rc_irs s + 1) x # rest)" by (simp add: ack_blocks_def)
  from tcb_options_read [OF disjI1 [OF x(2)] this] show "\<exists>x rest w. tcb_options tsOK tsVal tsRecent True True b' dsack' (rc_irs s) = Some w
      \<and> to_sack (parseOptions (ow_bytes w) False) = take (if tsOK then 3 else 4) ((case dsack' of None \<Rightarrow> [] | Some d \<Rightarrow> [d]) @ block (rc_irs s + 1) x # rest)
      \<and> {o'..<e} \<subseteq> {fst x..<snd x} \<and> {fst x..<snd x} \<subseteq> received b'" using x(3,4) by blast
  show "dsack = None \<longrightarrow> (case dsack' of None \<Rightarrow> \<not> ir_dupLo res < ir_dupHi res
      | Some d \<Rightarrow> \<exists>y. d = block (rc_irs s + 1) y \<and> fst y < snd y \<and> {fst y..<snd y} \<subseteq> received (rc_buf s) \<inter> {o'..<e})"
  proof (cases "ir_dupLo res < ir_dupHi res")
    case True
    let ?y = "(unat (ir_dupLo res), unat (ir_dupHi res))"
    have d: "o' \<le> fst ?y" "snd ?y \<le> e" using receive_at_dup [OF inv assms(2,3) early_segment [OF assms(1-4)] True] by (simp_all add: e_def)
    have "{fst ?y..<snd ?y} \<subseteq> received (rc_buf s)" using receive_effect [OF assms(1,2), of adv] assms(3) by auto
    moreover have "e < o' + 2 ^ 32" unfolding e_def by (rule early_length [OF assms(1-4)])
    then have "snd ?y - fst ?y < 2 ^ 32" using d by simp
    then have "note_segment True None (rc_irs s) res = Some (block (rc_irs s + 1) ?y)" using note_segment_block [OF True] by simp
    moreover have "fst ?y < snd ?y" using True by (simp add: word_less_nat_alt)
    ultimately show ?thesis unfolding dsack'_def using d by (auto intro!: exI [of _ ?y])
  qed (simp add: dsack'_def note_segment_def)
qed

theorem sack_reports_segment_first_witness:
  "\<exists>b' pool' res x rest w. receive_at sample_receiver 5 [5, 6] 1000 = Some (b', pool', res)
     \<and> tcb_options True 77 55 True True b' (note_segment True None (rc_irs sample_receiver) res) (rc_irs sample_receiver) = Some w
     \<and> to_sack (parseOptions (ow_bytes w) False) = take 3 (block (rc_irs sample_receiver + 1) x # rest) \<and> {5..<7} \<subseteq> {fst x..<snd x}"
proof -
  obtain b pool res where b: "receive_at sample_receiver 5 [5, 6] 1000 = Some (b, pool, res)" "ir_ooo res" using sample_after(2) by blast
  note c = sack_reports_segment_first [OF sample_reachable sample_carries(2) b, where dsack = None and tsOK = True and tsVal = 77 and tsRecent = 55]
  have "note_segment True None (rc_irs sample_receiver) res = None"
  proof (rule ccontr)
    assume "note_segment True None (rc_irs sample_receiver) res \<noteq> None"
    then obtain y :: "nat \<times> nat" where "fst y < snd y" "{fst y..<snd y} \<subseteq> {}" using c by (auto simp: sample_buf(6))
    then show False by simp
  qed
  then show ?thesis using c b(1) by (auto simp: sample_buf(2,5))
qed

subsection \<open>Smaller again\<close>

text \<open>C40. Making the buffer small loses no data in order. When what is unread fits the small buffer, giving up the large one succeeds, keeps the read position and the next byte expected, and
  keeps of the early data exactly what lies within the small buffer's size of the first unread byte and, when there are more intervals than the small table holds, before the
  first that does not fit it; the count of bytes it reports is the number of bytes that had arrived and are taken back.\<close>

theorem demote_keeps_order:
  assumes "receiver.reachable s" and "unread (rc_buf s) \<le> word_of_nat recvFloor" and "rg_cap (rb_r (rc_buf s)) = word_of_nat boostSize" and "length iv = floorIntervals"
  shows "\<exists>b' pool' cnt k ivs. demote_recv (rc_buf s) (rc_pool s) iv = Some (b', pool', cnt) \<and> receiver.reachable (s\<lparr>rc_buf := b', rc_pool := pool'\<rparr>)
    \<and> rb_readOff b' = rb_readOff (rc_buf s) \<and> rb_nxtOff b' = rb_nxtOff (rc_buf s) \<and> rg_cap (rb_r b') = word_of_nat recvFloor
    \<and> intervals (rc_buf s) [] = Some ivs
    \<and> k = (if floorIntervals < length ivs then min (rd (rc_buf s) + recvFloor) (unat (fst (ivs ! floorIntervals))) else rd (rc_buf s) + recvFloor)
    \<and> nx (rc_buf s) \<le> k \<and> received b' = received (rc_buf s) \<inter> {..<k} \<and> unat cnt = card (received (rc_buf s) - received b')"
proof -
  obtain xs where xs: "recv_ok (rc_stream s) (rc_buf s) (rc_pool s) xs" "arrived (rc_buf s) xs \<subseteq> {..<2 ^ 62}"
    using receiver.reachable_inv [OF assms(1)] by (auto simp: recv_inv_def)
  have "rd (rc_buf s) \<le> nx (rc_buf s)" using xs(1) by (simp add: recv_ok_def ring_holds_def)
  moreover have "unat (unread (rc_buf s)) \<le> recvFloor" using assms(2) by (simp add: word_le_nat_alt recvFloor_def)
  ultimately have u: "nx (rc_buf s) - rd (rc_buf s) \<le> recvFloor" by (simp add: unread_def unat_sub word_le_nat_alt)
  let ?k = "renege_at (rd (rc_buf s) + recvFloor) floorIntervals xs"
  obtain b' pool' cnt xs' where d: "demote_recv (rc_buf s) (rc_pool s) iv = Some (b', pool', cnt)" "recv_ok (rc_stream s) b' pool' xs'" "rb_readOff b' = rb_readOff (rc_buf s)"
    "rb_nxtOff b' = rb_nxtOff (rc_buf s)" "rg_cap (rb_r b') = word_of_nat recvFloor" "nx (rc_buf s) \<le> ?k" "arrived b' xs' = arrived (rc_buf s) xs \<inter> {..<?k}"
    "unat cnt = card (arrived (rc_buf s) xs - arrived b' xs')"
    using demote_recv_ok [OF xs(1) u assms(3,4) arrived_bound [OF xs(2)]] by blast
  have "unat (fst (offsets x)) = fst x" if "x \<in> set xs" for x
    using fitsD(6) [OF recv_fits [OF xs(1)], of "fst x" "snd x"] that by (simp add: offsets_def unat_offset)
  then have k: "?k = (if floorIntervals < length (map offsets xs) then min (rd (rc_buf s) + recvFloor) (unat (fst (map offsets xs ! floorIntervals))) else rd (rc_buf s) + recvFloor)"
    by (simp add: renege_at_def)
  have "receiver.reachable (s\<lparr>rc_buf := b', rc_pool := pool'\<rparr>)" by (rule receiver.reachable.advance [OF assms(1) recv_step.Demote [OF assms(2-4) d(1)]])
  then show ?thesis using d k recv_intervals [OF xs(1)] recv_intervals(2) [OF d(2)]
    by (intro exI [of _ b'] exI [of _ pool'] exI [of _ cnt] exI [of _ ?k] exI [of _ "map offsets xs"]) simp
qed

theorem demote_keeps_order_witness: "\<exists>s b' pool' cnt. receiver.reachable s \<and> rd (rc_buf s) < nx (rc_buf s) \<and> rg_cap (rb_r (rc_buf s)) = word_of_nat boostSize
  \<and> demote_recv (rc_buf s) (rc_pool s) (replicate floorIntervals \<lparr>it_start = 0, it_end = 0, it_l = 0, it_r = 0, it_pri = 0\<rparr>) = Some (b', pool', cnt)"
proof -
  obtain b pool where b: "receiver.reachable (sample_receiver\<lparr>rc_buf := b, rc_pool := pool\<rparr>)" "nx b = 3" "rd b = 0"
    using sample_after(1) by blast
  have n: "rb_n b \<le> (if 0 \<le> rb_n b then rb_n b else 0)" by simp
  obtain c pool' where c: "receiver.reachable (sample_receiver\<lparr>rc_buf := c, rc_pool := pool'\<rparr>)" "rg_cap (rb_r c) = word_of_nat boostSize" "rb_readOff c = rb_readOff b" "rb_nxtOff c = rb_nxtOff b"
    using promote_effect [OF b(1), of "replicate (nat (rb_n b)) \<lparr>it_start = 0, it_end = 0, it_l = 0, it_r = 0, it_pri = 0\<rparr>"] n by auto
  have u: "unread (rc_buf (sample_receiver\<lparr>rc_buf := c, rc_pool := pool'\<rparr>)) \<le> word_of_nat recvFloor"
    using b(2,3) c(3,4) by (simp add: unread_def unat_sub word_le_nat_alt recvFloor_def)
  obtain b' pool'' cnt where "demote_recv c pool' (replicate floorIntervals \<lparr>it_start = 0, it_end = 0, it_l = 0, it_r = 0, it_pri = 0\<rparr>) = Some (b', pool'', cnt)"
    using demote_keeps_order [OF c(1) u, of "replicate floorIntervals \<lparr>it_start = 0, it_end = 0, it_l = 0, it_r = 0, it_pri = 0\<rparr>"] c(2) by auto
  then show ?thesis using c b(2,3) by (intro exI [of _ "sample_receiver\<lparr>rc_buf := c, rc_pool := pool'\<rparr>"] exI [of _ b'] exI [of _ pool''] exI [of _ cnt]) simp
qed

end
