(* ===== verification/Spec2Isabelle.thy ===== *)
theory Spec2Isabelle
  imports Rule_Properties Policy_Properties Engine_Properties Resource_Properties Reconcile_Properties
    Frag_Properties Stack_Properties Packet_Properties Recv_Properties
begin

text \<open>
  A verification of the core of wgft, a port forwarder that publishes ports of a server
  and forwards them through WireGuard to agents. This library models the part of the Go
  program that decides \<^emph>\<open>what\<close> is forwarded, \<^emph>\<open>which flows\<close> are admitted, and \<^emph>\<open>how\<close> a
  declared state becomes the running one; sockets, netlink and files are outside.

  \<^bold>\<open>The parts and how they interact.\<close> An operator declares rules (\<open>src/proto\<close>): checked,
  split, merged, compared with an import. Rules are normalized (\<open>internal/model\<close>), their
  source lists and rates become an admission policy (\<open>internal/policy\<close>), and both with the
  registered agents a plan (\<open>internal/planner\<close>). The plan's policy is enforced twice: by an
  evaluator in Go (\<open>policy/goengine\<close>) for relayed flows, and by nftables rows
  (\<open>policy/nftables\<close>) for transparent ones. Relayed flows also take a slot of a flow budget
  (\<open>internal/resource\<close>). A plan is published as one transaction over a frontend and a data
  plane (\<open>internal/reconcile\<close>, \<open>internal/dataplane\<close>), repeated on drift and failure. Packets from
  the tunnel that are IPv4 fragments pass a bounded reassembly table (\<open>internal/ipv4frag\<close>)
  before the user-space stacks see them. One of these stacks is the program's own
  (\<open>internal/wgstack\<close>); its table of connections, its buffers, its timers, its
  packet formats and the receiving side of a connection are modelled.

  \<^bold>\<open>Theories and source files.\<close>
  \<^item> \<open>Prelude\<close>, \<open>GoLib\<close>, \<open>GoFloat\<close>, \<open>Netip\<close>: lists and words; what the source uses of Go's
    \<open>strings\<close>, \<open>strconv\<close>, \<open>net\<close>, integer division, float64 rounding and \<open>net/netip\<close>.
  \<^item> \<open>Proto_Text\<close> (port.go, rate.go, version.go), \<open>Proto_Rule\<close> (rule.go, state.go),
    \<open>Proto_Source\<close> (source.go), \<open>Proto_SplitMerge\<close> (splitmerge.go), \<open>Proto_ImportDiff\<close>
    (importdiff.go); \<open>Model\<close> (internal/model); claims in \<open>Rule_Properties\<close>.
  \<^item> \<open>Policy\<close> (policy.go, admissionlimits.go), \<open>Planner\<close> (planner.go); claims in
    \<open>Policy_Properties\<close>.
  \<^item> \<open>Interfaces\<close>: the locales. \<open>transition_system\<close> and \<open>safe_system\<close> are the contract of a
    component with an inductive invariant, interpreted by the Go engine, the flow budget,
    the reconciler, the reassembly table, the byte ring, the timer wheel and the receiver; \<open>limiter\<close> is the contract of a token bucket, interpreted by both
    buckets, which get their rate bound from it; \<open>text_codec\<close> (in \<open>Proto_Text\<close>) is that of a parser and
    printer, interpreted for port ranges and rates; \<open>bounded_map\<close> (in \<open>Bounded_Map\<close>) is that of a table with a
    fixed capacity, interpreted by the connection table.
  \<^item> \<open>GoEngine\<close> (goengine.go), \<open>Nftables\<close> (program.go, compile.go), \<open>Nft_Interp\<close>
    (interp.go); claims in \<open>Engine_Properties\<close>.
  \<^item> \<open>Resource_Pool\<close> (resource.go, pool.go, lease.go, charge.go, ledger.go),
    \<open>Resource_Invariant\<close>, \<open>Resource_Steps\<close>, \<open>Resource_Ledger\<close>; claims in
    \<open>Resource_Properties\<close>.
  \<^item> \<open>Dataplane\<close> (dataplane.go), \<open>Reconcile\<close> (runtime.go, reconciler.go), \<open>Reconcile_Laws\<close>,
    \<open>Reconcile_Invariant\<close>, \<open>Trigger\<close> (trigger.go); claims in \<open>Reconcile_Properties\<close>.
  \<^item> \<open>Frag_Table\<close> (table.go, icmp.go of internal/ipv4frag), \<open>Frag_Bytes\<close> (checksums and options),
    \<open>Frag_Invariant\<close>, \<open>Frag_Process\<close>, \<open>Frag_Roundtrip\<close>; claims in \<open>Frag_Properties\<close>.
  \<^item> Of \<open>internal/wgstack\<close>: \<open>Circle\<close> (distances on a circle), \<open>Flow_Index\<close> (index.go, siphash.go),
    \<open>Flow_Index_Laws\<close>, \<open>Ring\<close> (ring.go, records.go), \<open>Ring_Laws\<close>, \<open>Ring_Window\<close>, \<open>Wheel\<close> (wheel.go),
    \<open>Wheel_Lists\<close> (the linked buckets), \<open>Wheel_Laws\<close>, \<open>Wheel_Run\<close>, \<open>Wheel_Map\<close>; claims in
    \<open>Stack_Properties\<close>. \<open>Packet\<close> (packet.go, and the options of syn.go and tcpout.go), \<open>Packet_Sum\<close> (the
    checksum), \<open>Packet_Laws\<close>; claims in \<open>Packet_Properties\<close>. \<open>Recv\<close> (recv.go, and what boost.go, tcpin.go, tcb.go, ackpolicy.go and tcpout.go do
    with the receive buffer), \<open>Recv_Tree\<close> (the treap in an array), \<open>Interval_Lists\<close>, \<open>Recv_Table\<close>, \<open>Recv_Laws\<close> (insertion),
    \<open>Recv_Run\<close>, \<open>Recv_Stage\<close> (changes of size), \<open>Recv_Sack\<close>, \<open>Recv_System\<close>, \<open>Recv_Ack\<close> (the blocks of an acknowledgement); claims in \<open>Recv_Properties\<close>.

  \<^bold>\<open>How the model reads.\<close> A struct is a record with the fields of the source under a short
  prefix, an operation a function with the name of the source. Unsigned integers of fixed
  width are words; \<open>int\<close> is unbounded where the values cannot overflow and wraps explicitly
  (\<open>wrap64\<close>) where they can; float64 is a rounding function with its error bound. An error
  is a value of a sum or option type, one constructor or text for each return. Pointers
  of the flow budget are indices into stores; a method under a mutex is one operation.
  A Go map whose order cannot be seen is an association list with distinct keys. Code
  outside the repository is a parameter: the digest of a rule set takes the composition of
  JSON and SHA-256, the transaction runtime takes its two participants, whose documented
  contract is the predicate \<open>lawful\<close>; each claim under it has a witness on concrete ones.
  No definition needs fuel: every loop is structural, has a termination proof, or has the value
  \<open>None\<close> where it would not end, which the claims exclude.

  \<^bold>\<open>What is shown.\<close>
  \<^item> Rules: an accepted set gives each port to one rule; edits and deletions are accepted
    exactly when documented; splits and merges keep the target of every port and invert
    each other; the import difference loses nothing; parsers and printers are inverse;
    normalization is a round trip.
  \<^item> Policy and plan: normalized lists admit the declared sources, are canonical and
    shortest; a plan forwards exactly the enabled rules of registered agents, whatever
    the order of its inputs; leaving rules out is planning without them.
  \<^item> Enforcement: the flow counts of the Go engine are exactly the held tickets in every
    reachable state; admission, refusal, release and update have exactly the documented
    effect; both token buckets keep their rate; compiled programs load and give the same
    static verdict as the Go engine.
  \<^item> Flow budget: in every reachable state the ledger check finds nothing; the decision
    follows the documented order; a rule below its floor always gets a slot while the
    missing first flows fit; a lease gives back one slot.
  \<^item> Transactions: the calls to the participants keep the fixed order on every path; what
    is published is the plan less the rules either participant failed; the reconciler's record of what is
    active is what is forwarded in every reachable state; failures and successes report
    each rule's state; retries are spaced as documented.
  \<^item> Fragments: the table stays within its limits and every call returns, whatever packets
    come; a completed packet holds exactly the bytes of its fragments; the fragments of a
    datagram are reassembled in any order.
  \<^item> Stack: the connection table answers as a map while its tuples fit its rows; sequence
    numbers compare as positions; a ring reads back what was written in its window, holds no
    chunk without a live byte and hands on only cleared ones (the claims consider one ring with its pool, which a device shares
    among its rings); a record ring is a queue; the
    timer wheel fires exactly the due timers, in the order of their deadlines, and its next
    wake-up is never late.
  \<^item> Packets: the checksum is the Internet checksum; a written segment is read back with its
    fields, options and payload; whatever bytes come, what is accepted is well formed.
  \<^item> Receiver: whatever segments of a stream arrive, in whatever order and overlap, the reader gets
    the stream from its start; a segment counts with exactly its bytes below the limit; the table of early
    intervals and its counts agree; selective acknowledgements report maximal ranges that have
    arrived, the last segment first and before it only the block of a duplicate; a smaller buffer loses no data in order. Offsets are taken
    below \<open>2 ^ 62\<close> and a segment within \<open>2 ^ 31\<close> of the next byte, where TCP compares sequence numbers.

  \<^bold>\<open>Not modelled.\<close> The connection states, sender and sockets of \<open>internal/wgstack\<close>, the
  relay's sockets, the agent and server processes with their HTTP handlers, store and
  diagnostics, the kernel backend's netlink calls, the command line, and the test
  harnesses and tools. They are I/O around the modelled core, or components of their own
  that this library does not reach yet; the manifest lists each with its reason.
\<close>

end
